(* ===== verification/Prelude.thy ===== *)
theory Prelude
  imports Main "HOL-Library.Word" "HOL-Library.Monad_Syntax"
begin

text \<open>
  Shared vocabulary of the development: the widths of the C types of \<^verbatim>\<open>alt_types.h\<close>, the theorem
  collections the component theories fill, and generic facts on words, lists and the option
  monad that several components use.
\<close>

unbundle bit_operations_syntax

subsection \<open>C integer types\<close>

type_synonym u8 = "8 word"
type_synonym u16 = "16 word"
type_synonym u32 = "32 word"

subsection \<open>Theorem collections\<close>

named_theorems reg_map \<open>register addresses, field masks and base addresses of the headers\<close>
named_theorems drv \<open>unfolding equations of the driver functions\<close>

subsection \<open>Bits of words\<close>

lemma word_and_one_iff [simp]: "(w AND 1 = (0 :: 'a::len word)) \<longleftrightarrow> \<not> bit w 0"
  by (simp add: and_one_eq bit_0 even_iff_mod_2_eq_zero)

lemma word_and_exp_iff: "(w AND 2 ^ n = (0 :: 'a::len word)) \<longleftrightarrow> \<not> bit w n"
proof
  assume *: "w AND 2 ^ n = 0"
  show "\<not> bit w n"
  proof
    assume "bit w n"
    then have "bit (w AND 2 ^ n) n"
      by (auto simp: bit_and_iff bit_exp_iff dest: bit_imp_le_length)
    with * show False by simp
  qed
next
  assume "\<not> bit w n"
  then show "w AND 2 ^ n = 0"
    by (auto intro: bit_word_eqI simp: bit_and_iff bit_exp_iff)
qed

lemma word_and_two_iff [simp]: "(w AND 2 = (0 :: 'a::len word)) \<longleftrightarrow> \<not> bit w 1"
  using word_and_exp_iff [of w 1] by simp

lemma ucast_widen [simp]:
  "LENGTH('a) \<le> LENGTH('b) \<Longrightarrow> (ucast (ucast (w :: 'a::len word) :: 'b::len word) :: 'a word) = w"
  by (rule bit_word_eqI) (auto simp: bit_ucast_iff)

lemma ucast_narrow [simp]:
  "LENGTH('c) \<le> LENGTH('b) \<Longrightarrow> (ucast (ucast (w :: 'a::len word) :: 'b::len word) :: 'c::len word) = ucast w"
  by (rule bit_word_eqI) (auto simp: bit_ucast_iff)

lemma ucast_up [simp]:
  "LENGTH('a) \<le> LENGTH('b) \<Longrightarrow> (ucast (ucast (w :: 'a::len word) :: 'b::len word) :: 'c::len word) = ucast w"
  by (rule bit_word_eqI) (auto simp: bit_ucast_iff dest: bit_imp_le_length)

lemma bit_if: "bit (if c then a else b) n = (if c then bit a n else bit b n)"
  by simp

lemma ucast_and: "(ucast (v AND w) :: 'b::len word) = ucast (v :: 'a::len word) AND ucast w"
  by (rule bit_word_eqI) (auto simp: bit_ucast_iff bit_and_iff dest: bit_imp_le_length)

lemma ucast_or: "(ucast (v OR w) :: 'b::len word) = ucast (v :: 'a::len word) OR ucast w"
  by (rule bit_word_eqI) (auto simp: bit_ucast_iff bit_or_iff dest: bit_imp_le_length)

lemma unat_ucast_mod: "unat (ucast (w :: 'a::len word) :: 'b::len word) = unat w mod 2 ^ LENGTH('b)"
  by (simp add: unsigned_ucast_eq take_bit_eq_mod)

lemma unat_ucast_up:
  assumes "LENGTH('a) \<le> LENGTH('b)"
  shows "unat (ucast (w :: 'a::len word) :: 'b::len word) = unat w"
proof -
  have "unat w < 2 ^ LENGTH('b)"
    by (rule order_less_le_trans [OF unsigned_less]) (simp add: assms)
  then show ?thesis by (simp add: unat_ucast_mod)
qed

lemma and_ffff [simp]: "(ucast (w :: u16) AND 0xffff) = (ucast w ::u32)"
proof -
  have "(ucast (w :: u16) AND mask 16) = (ucast w ::u32)"
    by (rule bit_word_eqI) (auto simp: bit_ucast_iff bit_and_iff bit_mask_iff dest: bit_imp_le_length)
  then show ?thesis by (simp add: mask_eq_exp_minus_1)
qed

subsection \<open>Loops\<close>

text \<open>What every turn of a loop leaves alone, the loop leaves alone.\<close>

lemma fold_keeps: "(\<And>x s. x \<in> set xs \<Longrightarrow> g (f x s) = g s) \<Longrightarrow> g (fold f xs s) = g s"
  by (induction xs arbitrary: s) simp_all

subsection \<open>The option monad\<close>

lemma bind_Some_iff: "Option.bind m f = Some y \<longleftrightarrow> (\<exists>x. m = Some x \<and> f x = Some y)"
  by (cases m) auto

lemma bind_exI: "m = Some x \<Longrightarrow> \<exists>y. f x = Some y \<Longrightarrow> \<exists>y. Option.bind m f = Some y"
  by auto

end
