(* ===== verification/Shell.thy ===== *)
theory Shell
  imports Prelude "HOL-Library.Char_ord"
begin

text \<open>
  The command shell, \<^verbatim>\<open>shell/shell.c\<close> and \<^verbatim>\<open>shell.h\<close>: reading and editing a line, splitting it
  into tokens in place, and running the command it names. The line buffer is an array of
  characters and tokens are pointers into it, given as indexes; a scan that would leave the
  buffer is an error, and a read from a terminal that delivers nothing more never returns.
\<close>

datatype shell_stop = Blocked | Overrun | NullDeref

abbreviation NUL :: char where "NUL \<equiv> CHR 0x00"

definition SHELL_MAX_LINE_LENGTH :: nat where "SHELL_MAX_LINE_LENGTH = 64"

definition SHELL_MAX_ARGUMENTS :: nat where "SHELL_MAX_ARGUMENTS = 4"

definition SHELL_PROMPT :: string where
  "SHELL_PROMPT = [CHR 0x0d, CHR 0x0a] @ ''root@ledos>''"

definition CRLF :: string where "CRLF = [CHR 0x0d, CHR 0x0a]"

subsection \<open>Strings in a buffer\<close>

text \<open>The C string that starts at index \<open>i\<close>: up to the next NUL, which must be inside the buffer.\<close>

definition c_str :: "char list \<Rightarrow> nat \<Rightarrow> string option" where
  "c_str buf i = (let s = takeWhile (\<lambda>c. c \<noteq> NUL) (drop i buf)
     in if i + length s < length buf then Some s else None)"

definition strspn :: "char list \<Rightarrow> nat \<Rightarrow> string \<Rightarrow> shell_stop + nat" where
  "strspn buf i delim = (let k = length (takeWhile (\<lambda>c. c \<in> set delim) (drop i buf))
     in if i + k < length buf then Inr k else Inl Overrun)"

definition strpbrk :: "char list \<Rightarrow> nat \<Rightarrow> string \<Rightarrow> shell_stop + nat option" where
  "strpbrk buf i delim = (let k = i + length (takeWhile (\<lambda>c. c \<noteq> NUL \<and> c \<notin> set delim) (drop i buf))
     in if k < length buf then Inr (if buf ! k = NUL then None else Some k) else Inl Overrun)"

definition to_lower :: "char \<Rightarrow> char" where
  "to_lower c = (if CHR ''A'' \<le> c \<and> c \<le> CHR ''Z'' then char_of (of_char c + 32 :: nat) else c)"

text \<open>\<open>strcasecmp\<close> as the code uses it: whether the result is zero.\<close>

definition strcaseeq :: "string \<Rightarrow> string \<Rightarrow> bool" where
  "strcaseeq a b \<longleftrightarrow> map to_lower a = map to_lower b"

subsection \<open>Tokens\<close>

text \<open>The token (if any), the buffer with the token terminated, and the saved pointer.\<close>

definition strtok ::
  "char list \<Rightarrow> nat option \<Rightarrow> string \<Rightarrow> nat option \<Rightarrow> shell_stop + (nat option \<times> char list \<times> nat option)" where
  "strtok buf str delim saveptr =
     (let saveptr = (if str \<noteq> None then str else saveptr)
      in case saveptr of
           None \<Rightarrow> Inr (None, buf, None)
         | Some token \<Rightarrow>
            (case strspn buf token delim of
               Inl e \<Rightarrow> Inl e
             | Inr n \<Rightarrow>
                (let token = token + n
                 in case strpbrk buf token delim of
                      Inl e \<Rightarrow> Inl e
                    | Inr None \<Rightarrow> Inr (if buf ! token \<noteq> NUL then Some token else None, buf, None)
                    | Inr (Some k) \<Rightarrow>
                        (let buf = buf[k := NUL]
                         in Inr (if buf ! token \<noteq> NUL then Some token else None, buf, Some (Suc k))))))"

text \<open>
  The delimiter string of the source is written \<^verbatim>\<open>" \009"\<close>: a space, then the octal escape for
  NUL, which ends the string.
\<close>

definition shell_delim :: string where "shell_delim = '' ''"

text \<open>The loop over the arguments: the arguments found and whether there were too many.\<close>

function scan_args ::
  "char list \<Rightarrow> nat option \<Rightarrow> nat list \<Rightarrow> shell_stop + (char list \<times> nat list \<times> bool)" where
  "scan_args buf tokp args =
     (case strtok buf None shell_delim tokp of
        Inl e \<Rightarrow> Inl e
      | Inr (None, buf, tokp) \<Rightarrow> Inr (buf, args, False)
      | Inr (Some lp, buf, tokp) \<Rightarrow>
          if length args \<ge> SHELL_MAX_ARGUMENTS then Inr (buf, args, True)
          else scan_args buf tokp (args @ [lp]))"
  by pat_completeness auto
termination
  by (relation "measure (\<lambda>(buf, tokp, args). SHELL_MAX_ARGUMENTS - length args)") auto

definition scan_line :: "char list \<Rightarrow> shell_stop + (char list \<times> nat option \<times> nat list \<times> bool)" where
  "scan_line buf =
     (case strtok buf (Some 0) shell_delim None of
        Inl e \<Rightarrow> Inl e
      | Inr (cmd, buf, tokp) \<Rightarrow>
         (case scan_args buf tokp [] of
            Inl e \<Rightarrow> Inl e
          | Inr (buf, args, many) \<Rightarrow> Inr (buf, if many then None else cmd, args, many)))"

subsection \<open>Reading a line\<close>

text \<open>
  \<open>p\<close> is the write index; the input is what \<^verbatim>\<open>alt_getchar\<close> will deliver. The result is the
  returned flag, the buffer, what was echoed and the input left over.
\<close>

definition uint8 :: "int \<Rightarrow> char" where
  "uint8 c = char_of (nat (c mod 256))"

fun get_line :: "nat \<Rightarrow> nat \<Rightarrow> char list \<Rightarrow> string \<Rightarrow> int list \<Rightarrow> shell_stop + (bool \<times> char list \<times> string \<times> int list)" where
  "get_line sz p line out [] = Inl Blocked"
| "get_line sz p line out (c # cs) =
     (if c < 0 then Inr (True, line, out, cs)
      else if c = 4 then Inr (True, line, out @ ''^D'', cs)
      else if c = 8 then
        (if p \<noteq> 0 then get_line sz (p - 1) line (out @ [uint8 c, CHR 0x20, uint8 c]) cs
         else get_line sz p line out cs)
      else if c = 13 then Inr (False, line[p := NUL], out @ CRLF, cs)
      else if c < 0x20 then get_line sz p line out cs
      else if p < sz - 1 then get_line sz (Suc p) (line[p := uint8 c]) (out @ [uint8 c]) cs
      else get_line sz p line out cs)"

definition shellGetLine :: "char list \<Rightarrow> nat \<Rightarrow> int list \<Rightarrow> shell_stop + (bool \<times> char list \<times> string \<times> int list)" where
  "shellGetLine line sz inp = get_line sz 0 line [] inp"

subsection \<open>Commands\<close>

text \<open>
  The shell's surroundings: the terminal, the line buffer, how long the thread has slept, and
  the state \<open>usr\<close> the commands work on.
\<close>

record 's shell_st =
  inp :: "int list"
  outp :: string
  line :: "char list"
  slept :: nat
  usr :: 's

type_synonym 's shellcmd = "string list \<Rightarrow> 's shell_st \<Rightarrow> shell_stop + 's shell_st"

text \<open>A command table; the terminating null entry is the end of the list.\<close>

type_synonym 's ShellCommand = "string \<times> 's shellcmd"

definition print :: "string \<Rightarrow> 's shell_st \<Rightarrow> 's shell_st" where
  "print t s = s\<lparr>outp := outp s @ t\<rparr>"

definition usage :: "string \<Rightarrow> 's shell_st \<Rightarrow> 's shell_st" where
  "usage p = print (''Usage: '' @ p @ CRLF)"

definition list_commands :: "'s ShellCommand list \<Rightarrow> 's shell_st \<Rightarrow> 's shell_st" where
  "list_commands scp s = fold (\<lambda>(name, _). print ([CHR 0x09] @ name @ CRLF)) scp s"

text \<open>\<open>Inr None\<close> is the answer TRUE: no command of that name.\<close>

fun cmdexec :: "'s ShellCommand list \<Rightarrow> string \<Rightarrow> string list \<Rightarrow> 's shell_st \<Rightarrow> shell_stop + 's shell_st option" where
  "cmdexec [] name argv s = Inr None"
| "cmdexec ((sc_name, sc_function) # scp) name argv s =
     (if strcaseeq sc_name name
      then (case sc_function argv s of Inl e \<Rightarrow> Inl e | Inr s' \<Rightarrow> Inr (Some s'))
      else cmdexec scp name argv s)"

definition shell_sleep :: "nat \<Rightarrow> 's shell_st \<Rightarrow> 's shell_st" where
  "shell_sleep n s = s\<lparr>slept := slept s + n\<rparr>"

text \<open>The command part of one turn of the shell loop, after the line has been split.\<close>

definition run_command ::
  "'s ShellCommand list \<Rightarrow> 's ShellCommand list \<Rightarrow> string \<Rightarrow> string list \<Rightarrow> 's shell_st \<Rightarrow> shell_stop + 's shell_st" where
  "run_command local scp cmd args s =
     (if strcaseeq cmd ''exit'' then
        if args \<noteq> [] then Inr (usage ''exit'' s) else Inr (shell_sleep 100 s)
      else if strcaseeq cmd ''help'' then
        if args \<noteq> [] then Inr (usage ''help'' s)
        else Inr (shell_sleep 100 (print CRLF (list_commands scp (list_commands local
               (print (''Commands:'' @ CRLF @ [CHR 0x09] @ ''help'' @ CRLF @ [CHR 0x09] @ ''exit'' @ CRLF) s)))))
      else
        case cmdexec local cmd args s of
          Inl e \<Rightarrow> Inl e
        | Inr (Some s') \<Rightarrow> Inr (shell_sleep 100 s')
        | Inr None \<Rightarrow>
            (case cmdexec scp cmd args s of
               Inl e \<Rightarrow> Inl e
             | Inr (Some s') \<Rightarrow> Inr (shell_sleep 100 s')
             | Inr None \<Rightarrow> Inr (shell_sleep 100 (print (cmd @ '' ???'' @ CRLF) s))))"

text \<open>One turn of the loop of \<^verbatim>\<open>shell_thread\<close>.\<close>

definition shell_turn :: "'s ShellCommand list \<Rightarrow> 's ShellCommand list \<Rightarrow> 's shell_st \<Rightarrow> shell_stop + 's shell_st" where
  "shell_turn local scp s =
     (let s = print SHELL_PROMPT s
      in case shellGetLine (line s) SHELL_MAX_LINE_LENGTH (inp s) of
           Inl e \<Rightarrow> Inl e
         | Inr (eof, ln, echo, rest) \<Rightarrow>
            (let s = print echo (s\<lparr>line := ln, inp := rest\<rparr>);
                 s = (if eof then print (CRLF @ ''logout'') s else s)
             in case scan_line (line s) of
                  Inl e \<Rightarrow> Inl e
                | Inr (buf, cmd, args, many) \<Rightarrow>
                   (let s = s\<lparr>line := buf\<rparr>;
                        s = (if many then print (''Too many arguments'' @ CRLF) s else s)
                    in case cmd of
                         None \<Rightarrow> Inr (shell_sleep 100 s)
                       | Some c \<Rightarrow> run_command local scp (the (c_str buf c)) (map (\<lambda>a. the (c_str buf a)) args) s)))"

subsection \<open>Strings and tokens\<close>

lemma c_str_iff: "c_str buf i = Some s \<longleftrightarrow> (\<exists>post. drop i buf = s @ NUL # post) \<and> NUL \<notin> set s"
proof
  assume "c_str buf i = Some s"
  then have s: "s = takeWhile (\<lambda>c. c \<noteq> NUL) (drop i buf)" and l: "i + length s < length buf"
    by (auto simp: c_str_def Let_def split: if_splits)
  have d: "drop i buf = s @ drop (length s) (drop i buf)"
    using s by (metis takeWhile_eq_take append_take_drop_id)
  from l have "drop (length s) (drop i buf) \<noteq> []" by simp
  then obtain x post where x: "drop (length s) (drop i buf) = x # post" by (cases "drop (length s) (drop i buf)") auto
  have "length s < length (drop i buf)" using l by simp
  then have "x = NUL" using nth_length_takeWhile [of "\<lambda>c. c \<noteq> NUL" "drop i buf"] x s
    by (metis hd_drop_conv_nth list.sel(1))
  moreover have "NUL \<notin> set s" unfolding s using set_takeWhileD by fastforce
  ultimately show "(\<exists>post. drop i buf = s @ NUL # post) \<and> NUL \<notin> set s" using d x by auto
next
  assume "(\<exists>post. drop i buf = s @ NUL # post) \<and> NUL \<notin> set s"
  then obtain post where d: "drop i buf = s @ NUL # post" and s: "NUL \<notin> set s" by blast
  from s have t: "takeWhile (\<lambda>c. c \<noteq> NUL) (s @ NUL # post) = s" by (subst takeWhile_append2) auto
  have "length (drop i buf) = length s + 1 + length post" using d by simp
  then have "i + length s < length buf" by simp
  with d t show "c_str buf i = Some s" by (simp add: c_str_def)
qed

lemma c_strI: "buf = pre @ s @ NUL # post \<Longrightarrow> NUL \<notin> set s \<Longrightarrow> i = length pre \<Longrightarrow> c_str buf i = Some s"
  by (simp add: c_str_iff)

text \<open>The words of a line: what lies between runs of spaces.\<close>

function words :: "string \<Rightarrow> string list" where
  "words s = (case dropWhile (\<lambda>c. c = CHR '' '') s of
                [] \<Rightarrow> []
              | c # s' \<Rightarrow> takeWhile (\<lambda>c. c \<noteq> CHR '' '') (c # s') # words (dropWhile (\<lambda>c. c \<noteq> CHR '' '') (c # s')))"
  by pat_completeness auto
termination
proof (relation "measure length", simp)
  fix s c s'
  assume d: "dropWhile (\<lambda>c. c = CHR '' '') s = c # s'"
  then have "c \<noteq> CHR '' ''" using hd_dropWhile [of "\<lambda>c. c = CHR '' ''" s] by auto
  then have "length (dropWhile (\<lambda>c. c \<noteq> CHR '' '') (c # s')) \<le> length s'"
    using length_dropWhile_le [of "\<lambda>c. c \<noteq> CHR '' ''" s'] by simp
  also have "\<dots> < length s" using length_dropWhile_le [of "\<lambda>c. c = CHR '' ''" s] by (simp add: d)
  finally show "(dropWhile (\<lambda>c. c \<noteq> CHR '' '') (c # s'), s) \<in> measure length" by simp
qed

declare words.simps [simp del] scan_args.simps [simp del]

lemma strtok_at:
  assumes b: "buf = pre @ sp @ w @ r @ NUL # post"
    and sp: "\<forall>c\<in>set sp. c = CHR '' ''" and w: "\<forall>c\<in>set w. c \<noteq> CHR '' '' \<and> c \<noteq> NUL"
    and r: "r = [] \<or> hd r = CHR '' ''" and e: "w = [] \<longrightarrow> r = []"
    and t: "t = length pre + length sp"
  shows "strtok buf None shell_delim (Some (length pre)) =
    Inr (if w = [] then None else Some t,
         if r = [] then buf else pre @ sp @ w @ NUL # tl r @ NUL # post,
         if r = [] then None else Some (t + length w + 1))"
proof -
  have "takeWhile (\<lambda>c. c \<in> set shell_delim) (drop (length pre) buf) = sp"
  proof -
    have "takeWhile (\<lambda>c. c = CHR '' '') (w @ r @ NUL # post) = []"
      using w e by (cases w) auto
    then show ?thesis unfolding b shell_delim_def using sp by (simp add: takeWhile_append2)
  qed
  then have 1: "strspn buf (length pre) shell_delim = Inr (length sp)"
    by (simp add: strspn_def b)
  have tw: "takeWhile (\<lambda>c. c \<noteq> NUL \<and> c \<notin> set shell_delim) (drop t buf) = w"
    unfolding b t shell_delim_def using w r by (cases r) (auto simp: takeWhile_append2 takeWhile_tail)
  have n: "buf ! (t + length w) = (if r = [] then NUL else CHR '' '')"
    unfolding b t using r by (cases r) (simp_all add: nth_append)
  have 2: "strpbrk buf t shell_delim = Inr (if r = [] then None else Some (t + length w))"
    unfolding strpbrk_def tw Let_def n using r by (simp add: b t)
  have 3: "buf ! t = NUL \<longleftrightarrow> w = []"
    unfolding b t using w e by (cases w) (auto simp: nth_append)
  have 4: "r \<noteq> [] \<Longrightarrow> buf[t + length w := NUL] = pre @ sp @ w @ NUL # tl r @ NUL # post"
    unfolding b t by (cases r) (simp_all add: list_update_append)
  have 5: "r \<noteq> [] \<Longrightarrow> buf[t + length w := NUL] ! t \<noteq> NUL"
    using 3 e w by (cases w) (auto simp: nth_list_update)
  show ?thesis
    unfolding strtok_def using 1 2 3 4 5 e t by (auto simp: Let_def)
qed

lemma words_Nil [simp]: "words [] = []"
  by (simp add: words.simps)

lemma words_space: "words (CHR '' '' # r) = words r"
  by (subst (1 2) words.simps) simp

lemma line_split:
  obtains sp w r where "s = sp @ w @ r" "\<forall>c\<in>set sp. c = CHR '' ''" "\<forall>c\<in>set w. c \<noteq> CHR '' ''"
    "r = [] \<or> hd r = CHR '' ''" "w = [] \<longrightarrow> r = []"
    "words s = (if w = [] then [] else w # words (tl r))" "w \<noteq> [] \<longrightarrow> length (tl r) < length s"
proof -
  define sp where "sp = takeWhile (\<lambda>c. c = CHR '' '') s"
  define u where "u = dropWhile (\<lambda>c. c = CHR '' '') s"
  define w where "w = takeWhile (\<lambda>c. c \<noteq> CHR '' '') u"
  define r where "r = dropWhile (\<lambda>c. c \<noteq> CHR '' '') u"
  have s: "s = sp @ w @ r" by (simp add: sp_def w_def r_def u_def)
  have hr: "r = [] \<or> hd r = CHR '' ''" using hd_dropWhile [of "\<lambda>c. c \<noteq> CHR '' ''" u] by (auto simp: r_def)
  have wu: "w = [] \<longleftrightarrow> u = []"
  proof (cases u)
    case (Cons c u')
    then have "c \<noteq> CHR '' ''" using hd_dropWhile [of "\<lambda>c. c = CHR '' ''" s] by (auto simp: u_def)
    with Cons show ?thesis by (simp add: w_def)
  qed (simp add: w_def)
  have "words s = (if u = [] then [] else w # words r)"
    by (subst words.simps) (simp add: u_def [symmetric] w_def r_def split: list.split)
  moreover have "words r = words (tl r)" using hr words_space by (cases r) auto
  ultimately have "words s = (if w = [] then [] else w # words (tl r))" by (simp add: wu)
  moreover have "w \<noteq> [] \<longrightarrow> length (tl r) < length s" by (cases w) (auto simp: s)
  moreover have "w = [] \<longrightarrow> r = []" using wu by (simp add: r_def)
  moreover have "\<forall>c\<in>set sp. c = CHR '' ''" "\<forall>c\<in>set w. c \<noteq> CHR '' ''"
    unfolding sp_def w_def using set_takeWhileD by fast+
  ultimately show thesis using that s hr by blast
qed

lemma scan_args_at:
  assumes "buf = pre @ s @ NUL # post" and "NUL \<notin> set s" and "length args \<le> SHELL_MAX_ARGUMENTS"
  shows "\<exists>rest args'. scan_args buf (Some (length pre)) args =
      Inr (pre @ rest, args @ args', length args + length (words s) > SHELL_MAX_ARGUMENTS)
    \<and> length (pre @ rest) = length buf
    \<and> map (c_str (pre @ rest)) args' = map Some (take (SHELL_MAX_ARGUMENTS - length args) (words s))"
  using assms
proof (induction "length s" arbitrary: s pre buf args rule: less_induct)
  case less
  obtain sp w r where sp: "s = sp @ w @ r" "\<forall>c\<in>set sp. c = CHR '' ''" "\<forall>c\<in>set w. c \<noteq> CHR '' ''"
    "r = [] \<or> hd r = CHR '' ''" "w = [] \<longrightarrow> r = []"
    "words s = (if w = [] then [] else w # words (tl r))" "w \<noteq> [] \<longrightarrow> length (tl r) < length s"
    by (rule line_split)
  let ?t = "length pre + length sp"
  have w: "\<forall>c\<in>set w. c \<noteq> CHR '' '' \<and> c \<noteq> NUL" using sp(1,3) less.prems(2) by auto
  have b: "buf = pre @ sp @ w @ r @ NUL # post" using less.prems(1) sp(1) by simp
  note tok = strtok_at [OF b sp(2) w sp(4,5) refl]
  show ?case
  proof (cases "w = []")
    case True
    with tok sp less.prems(3) show ?thesis by (subst scan_args.simps) (simp add: b)
  next
    case w0: False
    show ?thesis
    proof (cases "length args \<ge> SHELL_MAX_ARGUMENTS")
      case True
      with tok sp w0 show ?thesis by (subst scan_args.simps) (cases "r = []", auto simp: b)
    next
      case False
      define pre' where "pre' = pre @ sp @ w @ [NUL]"
      have word: "c_str (pre' @ rest) ?t = Some w" for rest
        by (rule c_strI [where pre = "pre @ sp" and post = rest]) (use w in \<open>auto simp: pre'_def\<close>)
      show ?thesis
      proof (cases "r = []")
        case True
        have "scan_args buf (Some (length pre)) args = scan_args buf None (args @ [?t])"
          using tok w0 True False by (subst scan_args.simps) simp
        also have "\<dots> = Inr (buf, args @ [?t], False)"
          by (subst scan_args.simps) (simp add: strtok_def)
        finally show ?thesis using word [of post] False sp(6) w0 True
          by (intro exI [of _ "sp @ w @ NUL # post"] exI [of _ "[?t]"]) (auto simp: b pre'_def take_Cons')
      next
        case r0: False
        let ?buf = "pre' @ tl r @ NUL # post"
        have next': "scan_args buf (Some (length pre)) args = scan_args ?buf (Some (length pre')) (args @ [?t])"
          using tok w0 r0 False by (subst scan_args.simps) (simp add: pre'_def add.assoc)
        have "NUL \<notin> set (tl r)" using less.prems(2) sp(1) by (cases r) auto
        then obtain rest args' where ih: "scan_args ?buf (Some (length pre')) (args @ [?t]) =
            Inr (pre' @ rest, (args @ [?t]) @ args', length (args @ [?t]) + length (words (tl r)) > SHELL_MAX_ARGUMENTS)"
          "length (pre' @ rest) = length ?buf"
          "map (c_str (pre' @ rest)) args' = map Some (take (SHELL_MAX_ARGUMENTS - length (args @ [?t])) (words (tl r)))"
          using less.hyps [of "tl r" ?buf pre' "args @ [?t]"] sp(7) w0 False by auto
        have "length ?buf = length buf" using r0 by (cases r) (simp_all add: b pre'_def)
        with next' ih word [of rest] False sp(6) w0 show ?thesis
          by (intro exI [of _ "sp @ w @ NUL # rest"] exI [of _ "?t # args'"])
             (auto simp: pre'_def take_Cons' Suc_diff_le)
      qed
    qed
  qed
qed

lemma scan_line_spec:
  assumes "c_str buf 0 = Some s"
  shows "\<exists>buf' cmd args. scan_line buf = Inr (buf', cmd, args, length (words s) > 5)
    \<and> length buf' = length buf
    \<and> map (c_str buf') args = map Some (take 4 (tl (words s)))
    \<and> (if words s = [] \<or> length (words s) > 5 then cmd = None
       else \<exists>c. cmd = Some c \<and> c_str buf' c = Some (hd (words s)))"
proof -
  from assms obtain post where buf: "buf = [] @ s @ NUL # post" and s: "NUL \<notin> set s" by (auto simp: c_str_iff)
  obtain sp w r where sp: "s = sp @ w @ r" "\<forall>c\<in>set sp. c = CHR '' ''" "\<forall>c\<in>set w. c \<noteq> CHR '' ''"
    "r = [] \<or> hd r = CHR '' ''" "w = [] \<longrightarrow> r = []"
    "words s = (if w = [] then [] else w # words (tl r))" "w \<noteq> [] \<longrightarrow> length (tl r) < length s"
    by (rule line_split)
  have w: "\<forall>c\<in>set w. c \<noteq> CHR '' '' \<and> c \<noteq> NUL" using sp(1,3) s by auto
  have b: "buf = [] @ sp @ w @ r @ NUL # post" using buf sp(1) by simp
  have tok: "strtok buf (Some 0) shell_delim None = strtok buf None shell_delim (Some (length ([] :: string)))"
    by (simp add: strtok_def)
  note tok = tok [unfolded strtok_at [OF b sp(2) w sp(4,5) refl]]
  define pre where "pre = sp @ w @ [NUL]"
  have word: "c_str (pre @ rest) (length sp) = Some w" for rest
    by (rule c_strI [where pre = sp and post = rest]) (use w in \<open>auto simp: pre_def\<close>)
  show ?thesis
  proof (cases "r = []")
    case True
    have "scan_args buf None [] = Inr (buf, [], False)"
      by (subst scan_args.simps) (simp add: strtok_def)
    with tok True sp(6) word [of post] b show ?thesis
      by (auto simp: scan_line_def pre_def)
  next
    case False
    with sp(5) have w0: "w \<noteq> []" by blast
    have "NUL \<notin> set (tl r)" using s sp(1) by (cases r) auto
    from scan_args_at [OF refl this, of "[]" pre post] obtain rest args' where
      a: "scan_args (pre @ tl r @ NUL # post) (Some (length pre)) [] =
          Inr (pre @ rest, args', length (words (tl r)) > 4)"
        "length (pre @ rest) = length (pre @ tl r @ NUL # post)"
        "map (c_str (pre @ rest)) args' = map Some (take 4 (words (tl r)))"
      by (auto simp: SHELL_MAX_ARGUMENTS_def)
    have "length (pre @ tl r @ NUL # post) = length buf" using False by (cases r) (simp_all add: b pre_def)
    with a tok False w0 sp(6) word [of rest] show ?thesis
      by (auto simp: scan_line_def pre_def)
  qed
qed

text \<open>
  C21: Splitting a line in place. For a buffer with a terminated line, the scan never leaves the
  buffer; the command is the line's first word and the arguments are the next ones, read back
  through the pointers from the buffer it leaves; more than four arguments are reported and
  leave no command to run.
\<close>

theorem scan_line_words:
  assumes "c_str buf 0 = Some s"
  shows "\<exists>buf' cmd args. scan_line buf = Inr (buf', cmd, args, length (words s) > 5)
    \<and> length buf' = length buf
    \<and> map (c_str buf') args = map Some (take 4 (tl (words s)))
    \<and> (if words s = [] \<or> length (words s) > 5 then cmd = None
       else \<exists>c. cmd = Some c \<and> c_str buf' c = Some (hd (words s)))"
  using assms by (rule scan_line_spec)

theorem scan_line_words_witness:
  "\<exists>buf' cmd args. scan_line (''mv  a b'' @ [NUL]) = Inr (buf', cmd, args, False)
    \<and> length buf' = 8 \<and> map (c_str buf') args = [Some ''a'', Some ''b'']
    \<and> (\<exists>c. cmd = Some c \<and> c_str buf' c = Some ''mv'')"
proof -
  have w: "words ''mv  a b'' = [''mv'', ''a'', ''b'']" by (simp add: words.simps)
  have c: "c_str (''mv  a b'' @ [NUL]) 0 = Some ''mv  a b''" by (simp add: c_str_def)
  show ?thesis using scan_line_words [OF c] by (simp add: w numeral_eq_Suc)
qed

text \<open>What the user has typed after editing: backspace removes the last character, other control
  characters and what no longer fits are ignored.\<close>

definition key :: "nat \<Rightarrow> int \<Rightarrow> string \<Rightarrow> string" where
  "key sz c t = (if c = 8 then butlast t else if c < 0x20 then t
     else if length t < sz - 1 then t @ [uint8 c] else t)"

definition typed :: "nat \<Rightarrow> int list \<Rightarrow> string" where
  "typed sz cs = fold (key sz) cs []"

lemma uint8_not_NUL: "32 \<le> c \<Longrightarrow> c < 256 \<Longrightarrow> uint8 c \<noteq> NUL"
proof
  assume c: "32 \<le> c" "c < 256" and "uint8 c = NUL"
  then have "of_char (uint8 c) = (0 :: nat)" by simp
  with c show False by (simp add: uint8_def)
qed

lemma key_inv: "NUL \<notin> set t \<Longrightarrow> length t < sz \<Longrightarrow> c < 256 \<Longrightarrow> NUL \<notin> set (key sz c t) \<and> length (key sz c t) < sz"
  using uint8_not_NUL [of c] by (auto simp: key_def dest: in_set_butlastD)

lemma get_line_spec:
  assumes "length ln = sz" "take (length t) ln = t" "length t < sz" "NUL \<notin> set t"
    and "\<forall>c\<in>set cs. 0 \<le> c \<and> c < 256 \<and> c \<noteq> 4 \<and> c \<noteq> 13"
  shows "\<exists>ln' echo. get_line sz (length t) ln out (cs @ 13 # rest) = Inr (False, ln', echo, rest)
    \<and> length ln' = sz \<and> c_str ln' 0 = Some (fold (key sz) cs t) \<and> length (fold (key sz) cs t) < sz"
  using assms
proof (induction cs arbitrary: t ln out)
  case Nil
  have "c_str (ln[length t := NUL]) 0 = Some t"
    using Nil.prems
    by (intro c_strI [where pre = "[]" and post = "drop (Suc (length t)) ln"])
       (simp_all add: upd_conv_take_nth_drop)
  with Nil.prems show ?case by simp
next
  case (Cons c cs)
  have c: "0 \<le> c" "c < 256" "c \<noteq> 4" "c \<noteq> 13" "\<forall>c\<in>set cs. 0 \<le> c \<and> c < 256 \<and> c \<noteq> 4 \<and> c \<noteq> 13"
    using Cons.prems(5) by simp_all
  note inv = key_inv [OF Cons.prems(4,3) c(2)]
  consider (bs) "c = 8" "t \<noteq> []" | (put) "c \<noteq> 8" "32 \<le> c" "length t < sz - 1" | (skip) "key sz c t = t" "c = 8 \<longrightarrow> t = []"
      "c < 32 \<or> \<not> length t < sz - 1"
    by (cases "c = 8"; cases "c < 32"; cases "length t < sz - 1"; cases t) (auto simp: key_def)
  then show ?case
  proof cases
    case bs
    have "take (length (butlast t)) ln = butlast t"
      using Cons.prems(2,3) by (metis butlast_conv_take diff_le_self length_butlast min.absorb1 take_take)
    with bs Cons.IH [of ln "butlast t" "out @ [uint8 c, CHR 0x20, uint8 c]"] Cons.prems(1) c(5) inv show ?thesis
      by (simp add: key_def)
  next
    case put
    have "take (Suc (length t)) (ln[length t := uint8 c]) = t @ [uint8 c]"
      using Cons.prems(1-3) by (simp add: take_Suc_conv_app_nth)
    with put Cons.IH [of "ln[length t := uint8 c]" "t @ [uint8 c]" "out @ [uint8 c]"] Cons.prems(1) c inv show ?thesis
      by (simp add: key_def)
  next
    case skip
    with Cons.IH [of ln t out] Cons.prems c show ?thesis by auto
  qed
qed

lemma shellGetLine_spec:
  assumes "length ln = sz" "0 < sz" and "\<forall>c\<in>set cs. 0 \<le> c \<and> c < 256 \<and> c \<noteq> 4 \<and> c \<noteq> 13"
  shows "\<exists>ln' echo. shellGetLine ln sz (cs @ 13 # rest) = Inr (False, ln', echo, rest)
    \<and> length ln' = sz \<and> c_str ln' 0 = Some (typed sz cs) \<and> length (typed sz cs) < sz"
  using get_line_spec [of ln sz "[]" cs "[]" rest] assms by (simp add: shellGetLine_def typed_def)

text \<open>
  C22: Reading a line. Whatever is typed before the return key, the read comes back with exactly
  the edited text as a terminated string in the buffer, cut to what fits, and never writes
  outside the buffer.
\<close>

theorem shellGetLine_typed:
  assumes "length ln = sz" "0 < sz" and "\<forall>c\<in>set cs. 0 \<le> c \<and> c < 256 \<and> c \<noteq> 4 \<and> c \<noteq> 13"
  shows "\<exists>ln' echo. shellGetLine ln sz (cs @ 13 # rest) = Inr (False, ln', echo, rest)
    \<and> length ln' = sz \<and> c_str ln' 0 = Some (typed sz cs) \<and> length (typed sz cs) < sz"
  using assms by (rule shellGetLine_spec)

theorem shellGetLine_typed_witness:
  "\<exists>ln' echo. shellGetLine [NUL, NUL, NUL, NUL] 4 ([108, 120, 8, 108, 27, 33, 33] @ 13 # []) = Inr (False, ln', echo, [])
    \<and> length ln' = 4 \<and> c_str ln' 0 = Some ''ll!'' \<and> length ''ll!'' < (4 :: nat)"
proof -
  have k: "typed 4 [108, 120, 8, 108, 27, 33, 33] = ''ll!''" by code_simp
  show ?thesis using shellGetLine_typed [of "[NUL, NUL, NUL, NUL]" 4 "[108, 120, 8, 108, 27, 33, 33]" "[]"]
    by (simp add: k)
qed

subsection \<open>One turn of the shell\<close>

text \<open>The state in which a command starts: the line consumed and split, nothing else touched.\<close>

definition ready_from :: "'s shell_st \<Rightarrow> int list \<Rightarrow> 's shell_st \<Rightarrow> bool" where
  "ready_from s rest s' \<longleftrightarrow> inp s' = rest \<and> usr s' = usr s \<and> slept s' = slept s \<and> length (line s') = length (line s)"

definition turn_for ::
  "'s ShellCommand list \<Rightarrow> 's ShellCommand list \<Rightarrow> string list \<Rightarrow> 's shell_st \<Rightarrow> shell_stop + 's shell_st" where
  "turn_for local scp ws s' =
     (if ws = [] \<or> length ws > 5 then Inr (shell_sleep 100 s') else run_command local scp (hd ws) (tl ws) s')"

lemma turn_after_read:
  assumes g: "shellGetLine (line s) SHELL_MAX_LINE_LENGTH (inp s) = Inr (eof, ln, echo, rest)"
    and ln: "length ln = length (line s)" and t: "c_str ln 0 = Some t"
  shows "\<exists>s'. ready_from s rest s' \<and> shell_turn local scp s = turn_for local scp (words t) s'"
proof -
  from scan_line_spec [OF t] obtain buf cmd args where
    sc: "scan_line ln = Inr (buf, cmd, args, length (words t) > 5)" "length buf = length ln"
    "map (c_str buf) args = map Some (take 4 (tl (words t)))"
    "if words t = [] \<or> length (words t) > 5 then cmd = None
     else \<exists>c. cmd = Some c \<and> c_str buf c = Some (hd (words t))" by blast
  let ?s1 = "print echo ((print SHELL_PROMPT s)\<lparr>line := ln, inp := rest\<rparr>)"
  let ?s2 = "if eof then print (CRLF @ ''logout'') ?s1 else ?s1"
  let ?s3 = "?s2\<lparr>line := buf\<rparr>"
  let ?s4 = "if length (words t) > 5 then print (''Too many arguments'' @ CRLF) ?s3 else ?s3"
  have p: "shellGetLine (line (print SHELL_PROMPT s)) SHELL_MAX_LINE_LENGTH (inp (print SHELL_PROMPT s)) = Inr (eof, ln, echo, rest)"
    using g by (simp add: print_def)
  have l2: "line ?s2 = ln" by (simp add: print_def)
  have "map (\<lambda>a. the (c_str buf a)) args = map the (map (c_str buf) args)" by simp
  then have a: "map (\<lambda>a. the (c_str buf a)) args = take 4 (tl (words t))" unfolding sc(3) by simp
  have "ready_from s rest ?s4" using ln sc(2) by (simp add: ready_from_def print_def)
  moreover have "shell_turn local scp s = turn_for local scp (words t) ?s4"
  proof (cases "words t = [] \<or> length (words t) > 5")
    case True
    with sc(4) have "cmd = None" by (auto split: if_splits)
    with True show ?thesis unfolding shell_turn_def Let_def p by (simp add: l2 sc(1) turn_for_def)
  next
    case False
    with sc(4) obtain c where c: "cmd = Some c" "c_str buf c = Some (hd (words t))" by auto
    from False have "take 4 (tl (words t)) = tl (words t)" by simp arith
    with False c a show ?thesis unfolding shell_turn_def Let_def p by (simp add: l2 sc(1) turn_for_def)
  qed
  ultimately show ?thesis by blast
qed

text \<open>
  C23: One turn of the shell on a line the user typed. The turn does exactly what the words of the
  edited line ask for: it runs the first word with the others as arguments, or nothing when the
  line is blank or has more than four arguments, and the state the command sees is the one
  before the turn but for the line consumed.
\<close>

theorem shell_turn_typed:
  assumes "length (line s) = SHELL_MAX_LINE_LENGTH" and "inp s = cs @ 13 # rest"
    and "\<forall>c\<in>set cs. 0 \<le> c \<and> c < 256 \<and> c \<noteq> 4 \<and> c \<noteq> 13"
  shows "\<exists>s'. ready_from s rest s' \<and> shell_turn local scp s = turn_for local scp (words (typed SHELL_MAX_LINE_LENGTH cs)) s'"
proof -
  from shellGetLine_spec [OF assms(1) _ assms(3), of rest] obtain ln echo where
    "shellGetLine (line s) SHELL_MAX_LINE_LENGTH (inp s) = Inr (False, ln, echo, rest)" "length ln = length (line s)"
    "c_str ln 0 = Some (typed SHELL_MAX_LINE_LENGTH cs)"
    using assms(1,2) by (auto simp: SHELL_MAX_LINE_LENGTH_def)
  then show ?thesis by (rule turn_after_read)
qed

definition shell0 :: "int list \<Rightarrow> unit shell_st" where
  "shell0 cs = \<lparr>inp = cs, outp = [], line = ''ll'' @ replicate 62 NUL, slept = 0, usr = ()\<rparr>"

theorem shell_turn_typed_witness:
  "\<exists>s'. ready_from (shell0 ([99, 100, 32, 120] @ 13 # [])) [] s' \<and>
     shell_turn [] [] (shell0 ([99, 100, 32, 120] @ 13 # [])) = turn_for [] [] [''cd'', ''x''] s'"
proof -
  have k: "words (typed SHELL_MAX_LINE_LENGTH [99, 100, 32, 120]) = [''cd'', ''x'']" by code_simp
  have "length (line (shell0 cs)) = SHELL_MAX_LINE_LENGTH" "inp (shell0 cs) = cs" for cs
    by (simp_all add: shell0_def SHELL_MAX_LINE_LENGTH_def)
  then show ?thesis using shell_turn_typed [of "shell0 ([99, 100, 32, 120] @ 13 # [])" "[99, 100, 32, 120]" "[]" "[]" "[]"]
    unfolding k by simp
qed

text \<open>
  C24: Pressing control-D. The read gives up without terminating the buffer, and the turn goes on
  to run whatever command the buffer still holds from an earlier line.
\<close>

theorem shell_turn_ctrl_d:
  assumes "c_str (line s) 0 = Some t" and "inp s = 4 # rest"
  shows "\<exists>s'. ready_from s rest s' \<and> shell_turn local scp s = turn_for local scp (words t) s'"
proof -
  have "shellGetLine (line s) SHELL_MAX_LINE_LENGTH (inp s) = Inr (True, line s, ''^D'', rest)"
    by (simp add: shellGetLine_def assms(2))
  from turn_after_read [OF this refl assms(1)] show ?thesis .
qed

theorem shell_turn_ctrl_d_witness:
  "\<exists>s'. ready_from (shell0 [4]) [] s' \<and> shell_turn [] [] (shell0 [4]) = turn_for [] [] [''ll''] s'"
proof -
  have k: "words ''ll'' = [''ll'']" by code_simp
  have "c_str (line (shell0 [4])) 0 = Some ''ll''"
    by (rule c_strI [where pre = "[]" and post = "replicate 61 NUL"]) (simp_all add: shell0_def numeral_eq_Suc)
  from shell_turn_ctrl_d [OF this, of "[]" "[]" "[]"] show ?thesis by (simp add: k shell0_def)
qed

text \<open>The command table is searched from the front; the first entry of that name runs.\<close>

lemma cmdexec_find:
  "cmdexec tbl name argv s = (case find (\<lambda>(n, _). strcaseeq n name) tbl of
     None \<Rightarrow> Inr None | Some (_, f) \<Rightarrow> map_sum id Some (f argv s))"
  by (induction tbl) (auto split: sum.split prod.splits)

end
