(* ===== verification/Ff_Types.thy ===== *)
theory Ff_Types
  imports Prelude
begin

text \<open>
  The result codes and attribute bits of the file system, \<^verbatim>\<open>fatfs/ff.h\<close>, and their messages,
  \<^verbatim>\<open>decode_fres\<close> of \<^verbatim>\<open>fatfs/ff.c\<close>.
\<close>

datatype FRESULT =
    FR_OK | FR_DISK_ERR | FR_INT_ERR | FR_NOT_READY | FR_NO_FILE | FR_NO_PATH | FR_INVALID_NAME
  | FR_DENIED | FR_EXIST | FR_INVALID_OBJECT | FR_WRITE_PROTECTED | FR_INVALID_DRIVE | FR_NOT_ENABLED
  | FR_NO_FILESYSTEM | FR_MKFS_ABORTED | FR_TIMEOUT | FR_LOCKED | FR_NOT_ENOUGH_CORE
  | FR_TOO_MANY_OPEN_FILES | FR_INVALID_PARAMETER

fun decode_fres :: "FRESULT \<Rightarrow> string" where
  "decode_fres FR_OK = ''Succeeded''"
| "decode_fres FR_DISK_ERR = ''A hard error occured in the low level disk I/O layer''"
| "decode_fres FR_INT_ERR = ''Assertion failed''"
| "decode_fres FR_NOT_READY = ''The physical drive cannot work''"
| "decode_fres FR_NO_FILE = ''Could not find the file''"
| "decode_fres FR_NO_PATH = ''Could not find the path''"
| "decode_fres FR_INVALID_NAME = ''The path name format is invalid''"
| "decode_fres FR_DENIED = ''Access denied due to prohibited access or directory full''"
| "decode_fres FR_EXIST = ''Access denied due to prohibited access''"
| "decode_fres FR_INVALID_OBJECT = ''The file/directory object is invalid''"
| "decode_fres FR_WRITE_PROTECTED = ''The physical drive is write protected''"
| "decode_fres FR_INVALID_DRIVE = ''The logical drive number is invalid''"
| "decode_fres FR_NOT_ENABLED = ''The volume has no work area''"
| "decode_fres FR_NO_FILESYSTEM = ''There is no valid FAT volume''"
| "decode_fres FR_MKFS_ABORTED = ''f_mkfs() aborted due to any parameter error''"
| "decode_fres FR_TIMEOUT = ''Could not get a grant to access the volume within defined period''"
| "decode_fres FR_LOCKED = ''The operation is rejected according to the file sharing policy''"
| "decode_fres FR_NOT_ENOUGH_CORE = ''LFN working buffer could not be allocated''"
| "decode_fres FR_TOO_MANY_OPEN_FILES = ''Number of open files > _FS_SHARE''"
| "decode_fres FR_INVALID_PARAMETER = ''Given parameter is invalid''"

definition FA_READ :: u8 where "FA_READ = 0x01"
definition FA_OPEN_EXISTING :: u8 where "FA_OPEN_EXISTING = 0x00"
definition FA_WRITE :: u8 where "FA_WRITE = 0x02"
definition FA_CREATE_NEW :: u8 where "FA_CREATE_NEW = 0x04"
definition FA_CREATE_ALWAYS :: u8 where "FA_CREATE_ALWAYS = 0x08"
definition FA_OPEN_ALWAYS :: u8 where "FA_OPEN_ALWAYS = 0x10"

definition AM_RDO :: u8 where "AM_RDO = 0x01"
definition AM_DIR :: u8 where "AM_DIR = 0x10"
definition AM_ARC :: u8 where "AM_ARC = 0x20"

end
