(* ===== verification/Bus.thy ===== *)
theory Bus
  imports Prelude
begin

text \<open>
  The memory-mapped I/O of the Nios II system: \<^verbatim>\<open>HAL/inc/io.h\<close> and the base addresses of
  \<^verbatim>\<open>system.h\<close>. What answers on the bus is hardware, so every driver takes the bus as an
  argument: how a word read and a word write at an absolute address change the state of the
  hardware, and what the hardware does while the calling thread sleeps.
\<close>

subsection \<open>The bus\<close>

record 'd bus =
  bus_rd :: "u32 \<Rightarrow> 'd \<Rightarrow> u32 \<times> 'd"
  bus_wr :: "u32 \<Rightarrow> u32 \<Rightarrow> 'd \<Rightarrow> 'd"
  bus_ms :: "nat \<Rightarrow> 'd \<Rightarrow> 'd"

definition IO_CALC_ADDRESS_DYNAMIC :: "u32 \<Rightarrow> u32 \<Rightarrow> u32" where
  "IO_CALC_ADDRESS_DYNAMIC base offset = base + offset"

definition IORD_32DIRECT :: "'d bus \<Rightarrow> u32 \<Rightarrow> u32 \<Rightarrow> 'd \<Rightarrow> u32 \<times> 'd" where
  "IORD_32DIRECT b base offset d = bus_rd b (IO_CALC_ADDRESS_DYNAMIC base offset) d"

definition IOWR_32DIRECT :: "'d bus \<Rightarrow> u32 \<Rightarrow> u32 \<Rightarrow> u32 \<Rightarrow> 'd \<Rightarrow> 'd" where
  "IOWR_32DIRECT b base offset data d = bus_wr b (IO_CALC_ADDRESS_DYNAMIC base offset) data d"

text \<open>Native accesses number the registers; the system bus is 32 bits wide.\<close>

definition IO_CALC_ADDRESS_NATIVE :: "u32 \<Rightarrow> u32 \<Rightarrow> u32" where
  "IO_CALC_ADDRESS_NATIVE base regnum = base + regnum * (32 div 8)"

definition IORD :: "'d bus \<Rightarrow> u32 \<Rightarrow> u32 \<Rightarrow> 'd \<Rightarrow> u32 \<times> 'd" where
  "IORD b base regnum d = bus_rd b (IO_CALC_ADDRESS_NATIVE base regnum) d"

definition IOWR :: "'d bus \<Rightarrow> u32 \<Rightarrow> u32 \<Rightarrow> u32 \<Rightarrow> 'd \<Rightarrow> 'd" where
  "IOWR b base regnum data d = bus_wr b (IO_CALC_ADDRESS_NATIVE base regnum) data d"

subsection \<open>Base addresses\<close>

definition CORTEX_MM_SL_BASE :: u32 where
  [reg_map]: "CORTEX_MM_SL_BASE = 0x1000000"

definition FFT_CACHE_MM_SL_BASE :: u32 where
  [reg_map]: "FFT_CACHE_MM_SL_BASE = 0x1100000"

definition SDCARD_SPI_BASE :: u32 where
  [reg_map]: "SDCARD_SPI_BASE = 0x1102080"

definition TIMER_1US_BASE :: u32 where
  [reg_map]: "TIMER_1US_BASE = 0x11020a0"

subsection \<open>Sleeping and polling\<close>

text \<open>
  \<open>chThdSleepMilliseconds\<close> as the hardware sees it: the thread does not touch the bus for
  \<open>n\<close> milliseconds.
\<close>

definition sleep_ms :: "'d bus \<Rightarrow> nat \<Rightarrow> 'd \<Rightarrow> 'd" where
  "sleep_ms b n d = bus_ms b n d"

text \<open>
  The drivers' wait loop \<^verbatim>\<open>while (IORD(base, reg) & msk) chThdSleepMilliseconds(1);\<close>: \<open>None\<close>
  when the bits never clear.
\<close>

partial_function (option) wait_while :: "'d bus \<Rightarrow> u32 \<Rightarrow> u32 \<Rightarrow> u32 \<Rightarrow> 'd \<Rightarrow> 'd option" where
  "wait_while b base reg msk d =
     (let (v, d1) = IORD_32DIRECT b base reg d
      in if v AND msk \<noteq> 0 then wait_while b base reg msk (sleep_ms b 1 d1) else Some d1)"

lemma wait_while_done:
  "IORD_32DIRECT b base reg d = (v, d1) \<Longrightarrow> v AND msk = 0 \<Longrightarrow> wait_while b base reg msk d = Some d1"
  by (subst wait_while.simps) simp

lemma wait_while_step:
  "IORD_32DIRECT b base reg d = (v, d1) \<Longrightarrow> v AND msk \<noteq> 0 \<Longrightarrow>
   wait_while b base reg msk d = wait_while b base reg msk (sleep_ms b 1 d1)"
  by (subst wait_while.simps) simp

text \<open>
  A wait loop ends when the device makes progress: a rank that falls with every turn of the
  loop in which the awaited bits are still set, under an invariant that every turn keeps.
\<close>

lemma wait_while_ends:
  fixes rank :: "'d \<Rightarrow> nat"
  assumes turn: "\<And>d v d1. P d \<Longrightarrow> IORD_32DIRECT b base reg d = (v, d1) \<Longrightarrow> v AND msk \<noteq> 0 \<Longrightarrow>
      P (sleep_ms b 1 d1) \<and> rank (sleep_ms b 1 d1) < rank d"
    and exit: "\<And>d v d1. P d \<Longrightarrow> IORD_32DIRECT b base reg d = (v, d1) \<Longrightarrow> v AND msk = 0 \<Longrightarrow> Q d1"
    and P: "P d"
  shows "\<exists>d'. wait_while b base reg msk d = Some d' \<and> Q d'"
  using P
proof (induction "rank d" arbitrary: d rule: less_induct)
  case less
  obtain v d1 where r: "IORD_32DIRECT b base reg d = (v, d1)" by fastforce
  show ?case
  proof (cases "v AND msk = 0")
    case True
    with r less.prems exit show ?thesis by (auto simp: wait_while_done)
  next
    case False
    with turn [OF less.prems r False] less.hyps [of "sleep_ms b 1 d1"] show ?thesis
      by (simp add: wait_while_step [OF r])
  qed
qed

subsection \<open>Recording the traffic\<close>

text \<open>
  \<open>logged b\<close> is the bus \<open>b\<close> with a record of every access: the order in which a driver
  touches the hardware is then a value theorems can speak about.
\<close>

datatype access = Rd u32 u32 | Wr u32 u32 | Ms nat

definition logged :: "'d bus \<Rightarrow> ('d \<times> access list) bus" where
  "logged b = \<lparr>bus_rd = (\<lambda>a (d, l). let (v, d') = bus_rd b a d in (v, (d', l @ [Rd a v]))),
               bus_wr = (\<lambda>a v (d, l). (bus_wr b a v d, l @ [Wr a v])),
               bus_ms = (\<lambda>n (d, l). (bus_ms b n d, l @ [Ms n]))\<rparr>"

lemma logged_wr [simp]: "bus_wr (logged b) a v (d, l) = (bus_wr b a v d, l @ [Wr a v])"
  by (simp add: logged_def)

lemma logged_rd [simp]:
  "bus_rd (logged b) a (d, l) = (fst (bus_rd b a d), (snd (bus_rd b a d), l @ [Rd a (fst (bus_rd b a d))]))"
  by (simp add: logged_def split: prod.split)

lemma logged_ms [simp]: "bus_ms (logged b) n (d, l) = (bus_ms b n d, l @ [Ms n])"
  by (simp add: logged_def)

lemmas bus_defs = IORD_32DIRECT_def IOWR_32DIRECT_def IO_CALC_ADDRESS_DYNAMIC_def
  IORD_def IOWR_def IO_CALC_ADDRESS_NATIVE_def sleep_ms_def

end
