(* ===== verification/Vcortex.thy ===== *)
theory Vcortex
  imports Bus
begin

text \<open>
  The driver of the light engine, \<^verbatim>\<open>cortex/vcortex/vcortex.c\<close> and \<^verbatim>\<open>vcortex.h\<close>: sixteen
  pulse-width channels in a RAM, and an enable bit.
\<close>

subsection \<open>Registers\<close>

definition VCORTEX_CONTROL_REG_ADDR :: u32 where [reg_map]: "VCORTEX_CONTROL_REG_ADDR = 0x30000"

definition VCORTEX_PWM_RAM_BASE :: u32 where [reg_map]: "VCORTEX_PWM_RAM_BASE = 0x31000"

definition VCORTEX_PWM_CHNNLS :: nat where [reg_map]: "VCORTEX_PWM_CHNNLS = 16"

definition VCORTEX_CTRL_EN_MSK :: u32 where [reg_map]: "VCORTEX_CTRL_EN_MSK = 0x1"

definition IOWR_VCORTEX_CTRL :: "'d bus \<Rightarrow> u32 \<Rightarrow> u32 \<Rightarrow> 'd \<Rightarrow> 'd" where
  "IOWR_VCORTEX_CTRL b base = IOWR_32DIRECT b base VCORTEX_CONTROL_REG_ADDR"

subsection \<open>Driver functions\<close>

definition enable_vcortex :: "'d bus \<Rightarrow> u32 \<Rightarrow> 'd \<Rightarrow> 'd" where
  "enable_vcortex b base d = IOWR_VCORTEX_CTRL b base VCORTEX_CTRL_EN_MSK d"

definition disable_vcortex :: "'d bus \<Rightarrow> u32 \<Rightarrow> 'd \<Rightarrow> 'd" where
  "disable_vcortex b base d = IOWR_VCORTEX_CTRL b base 0x0 d"

text \<open>\<open>bffr\<close> is the caller's array of sixteen values.\<close>

definition pwm_paint :: "'d bus \<Rightarrow> u32 \<Rightarrow> u16 list \<Rightarrow> 'd \<Rightarrow> 'd" where
  "pwm_paint b base bffr d =
     fold (\<lambda>i d. IOWR_32DIRECT b base (VCORTEX_PWM_RAM_BASE + push_bit 4 (of_nat i)) (ucast (bffr ! i)) d)
       [0..<VCORTEX_PWM_CHNNLS] d"

subsection \<open>What the driver relies on\<close>

locale vcortex_dev =
  fixes b :: "'d bus" and base :: u32 and ok :: "'d \<Rightarrow> bool" and chan :: "'d \<Rightarrow> nat \<Rightarrow> u16"
  assumes wr_chan: "ok d \<Longrightarrow> i < 16 \<Longrightarrow>
      d' = IOWR_32DIRECT b base (VCORTEX_PWM_RAM_BASE + push_bit 4 (of_nat i)) w d \<Longrightarrow>
      ok d' \<and> chan d' = (chan d)(i := ucast w)"
begin

lemma paint_upto:
  assumes "ok d" and "n \<le> 16"
    and "d' = fold (\<lambda>i d. IOWR_32DIRECT b base (VCORTEX_PWM_RAM_BASE + push_bit 4 (of_nat i)) (ucast (bffr ! i)) d) [0..<n] d"
  shows "ok d' \<and> (\<forall>i. chan d' i = (if i < n then bffr ! i else chan d i))"
  using assms(2,3)
proof (induction n arbitrary: d')
  case 0
  with assms(1) show ?case by simp
next
  case (Suc n)
  let ?f = "\<lambda>i d. IOWR_32DIRECT b base (VCORTEX_PWM_RAM_BASE + push_bit 4 (of_nat i)) (ucast (bffr ! i)) d"
  let ?m = "fold ?f [0..<n] d"
  from Suc have m: "ok ?m" "\<forall>i. chan ?m i = (if i < n then bffr ! i else chan d i)" by simp_all
  from Suc.prems have d': "d' = ?f n ?m" by simp
  from wr_chan [OF m(1) _ d'] Suc.prems(1) m(2) show ?case by (auto simp: less_Suc_eq)
qed

lemma paint_ok:
  assumes "ok d" and "d' = pwm_paint b base bffr d"
  shows "ok d' \<and> (\<forall>i<16. chan d' i = bffr ! i)"
  using paint_upto [of d 16 d' bffr] assms by (simp add: pwm_paint_def reg_map)

end

end
