(* ===== verification/Plugins.thy ===== *)
theory Plugins
  imports Vcortex
begin

text \<open>
  From spectrum to light: the FFT cache driver (\<^verbatim>\<open>fft_cache/fft_cache.c\<close>), the visualisation
  plugins (\<^verbatim>\<open>lsd/lsd.c\<close>), and the two light tasks of \<^verbatim>\<open>main.c\<close>.
\<close>

subsection \<open>The FFT cache\<close>

definition FFT_LCACHE_BASE :: u32 where [reg_map]: "FFT_LCACHE_BASE = 0x80"

definition FFT_RCACHE_BASE :: u32 where [reg_map]: "FFT_RCACHE_BASE = 0x00"

definition FFT_NUM_SAMPLES :: nat where [reg_map]: "FFT_NUM_SAMPLES = 128"

definition read_fft_sample :: "'d bus \<Rightarrow> nat \<Rightarrow> (u32 list \<times> u32 list) \<times> 'd \<Rightarrow> (u32 list \<times> u32 list) \<times> 'd" where
  "read_fft_sample b i s =
     (let ((lfft, rfft), d) = s;
          (r, d) = IORD_32DIRECT b FFT_CACHE_MM_SL_BASE (push_bit 4 (of_nat i + FFT_RCACHE_BASE)) d;
          (l, d) = IORD_32DIRECT b FFT_CACHE_MM_SL_BASE (push_bit 4 (of_nat i + FFT_LCACHE_BASE)) d
      in ((lfft[i := l], rfft[i := r]), d))"

definition read_fft_cache :: "'d bus \<Rightarrow> nat \<Rightarrow> (u32 list \<times> u32 list) \<times> 'd \<Rightarrow> (u32 list \<times> u32 list) \<times> 'd" where
  "read_fft_cache b num s = fold (read_fft_sample b) [0..<num] s"

subsection \<open>Plugins\<close>

type_synonym acid_t = "u32 list \<Rightarrow> u32 list \<Rightarrow> u16 list \<Rightarrow> u16 list"

text \<open>One turn of the plugin's loop, and the plugin.\<close>

definition sunshine_channel :: "u32 list \<Rightarrow> nat \<Rightarrow> u16 list \<Rightarrow> u16 list" where
  "sunshine_channel lfft i pwm = pwm[i := ucast (push_bit 14 (lfft ! i))]"

definition acid_sunshine :: acid_t where
  "acid_sunshine lfft rfft pwm = fold (sunshine_channel lfft) [0..<VCORTEX_PWM_CHNNLS] pwm"

text \<open>A plugin and its name; the null entry that ends the table is the end of the list.\<close>

type_synonym Acid = "string \<times> acid_t"

definition acid_box :: "Acid list" where
  "acid_box = [(''sunshine'', acid_sunshine)]"

definition get_acid_box :: "Acid list" where
  "get_acid_box = acid_box"

subsection \<open>The light tasks of main.c\<close>

text \<open>\<^verbatim>\<open>SynTask\<close>: one turn. Only 64 of the 128 bins are fetched, of which 16 are used.\<close>

definition syn_turn ::
  "'d bus \<Rightarrow> ((u32 list \<times> u32 list) \<times> u16 list) \<times> 'd \<Rightarrow> ((u32 list \<times> u32 list) \<times> u16 list) \<times> 'd" where
  "syn_turn b s =
     (let ((ffts, pwm), d) = s;
          ((lfft, rfft), d) = read_fft_cache b 64 (ffts, d);
          pwm = fold (sunshine_channel lfft) [0..<VCORTEX_PWM_CHNNLS] pwm;
          d = pwm_paint b CORTEX_MM_SL_BASE pwm d
      in (((lfft, rfft), pwm), sleep_ms b 1 d))"

text \<open>
  \<^verbatim>\<open>PWMTask\<close>: the array shifts towards the high or the low end. The inner loops move one element
  at a time, in the order of the source.
\<close>

definition shift_up :: "u16 list \<Rightarrow> u16 list" where
  "shift_up p =
     (let p = p[15 := p ! 15 + p ! 14]
      in fold (\<lambda>j p. p[j := p ! (j - 1)]) (rev [2..<15]) p)"

definition shift_down :: "u16 list \<Rightarrow> u16 list" where
  "shift_down p =
     (let p = p[0 := p ! 0 + p ! 1]
      in fold (\<lambda>j p. p[j := p ! (j + 1)]) [1..<14] p)"

definition fill_up :: "nat \<Rightarrow> u16 list \<Rightarrow> u16 list" where
  "fill_up i p =
     (let p = shift_up p;
          p = p[0 := p ! 0 - push_bit (VCORTEX_PWM_CHNNLS - 1 - i) 1]
      in p[1 := push_bit (VCORTEX_PWM_CHNNLS - 1 - i) 1])"

definition fill_down :: "nat \<Rightarrow> u16 list \<Rightarrow> u16 list" where
  "fill_down i p =
     (let p = shift_down p;
          p = p[15 := p ! 15 - push_bit (VCORTEX_PWM_CHNNLS - 1 - i) 1]
      in p[14 := push_bit (VCORTEX_PWM_CHNNLS - 1 - i) 1])"

definition PWM_SLEEP_TICKS :: nat where "PWM_SLEEP_TICKS = 100"

definition show_frame :: "'d bus \<Rightarrow> u16 list \<times> 'd \<Rightarrow> u16 list \<times> 'd" where
  "show_frame b s = (case s of (p, d) \<Rightarrow> (p, sleep_ms b PWM_SLEEP_TICKS (pwm_paint b CORTEX_MM_SL_BASE p d)))"

definition frame :: "'d bus \<Rightarrow> (u16 list \<Rightarrow> u16 list) \<Rightarrow> u16 list \<times> 'd \<Rightarrow> u16 list \<times> 'd" where
  "frame b f s = (case s of (p, d) \<Rightarrow> show_frame b (f p, d))"

definition PWMTask_start :: "'d bus \<Rightarrow> u16 list \<times> 'd \<Rightarrow> u16 list \<times> 'd" where
  "PWMTask_start b s =
     (case s of (p, d) \<Rightarrow>
       let p = fold (\<lambda>i p. p[i := 0]) [0..<VCORTEX_PWM_CHNNLS] p;
           (p, d) = show_frame b (p, d)
       in (p[0 := 0xffff], d))"

definition PWMTask_turn :: "'d bus \<Rightarrow> u16 list \<times> 'd \<Rightarrow> u16 list \<times> 'd" where
  "PWMTask_turn b s =
     (let s = show_frame b s;
          (p, d) = fold (\<lambda>i. frame b (fill_up i)) [0..<VCORTEX_PWM_CHNNLS] s;
          p = p[0 := 0];
          p = p[1 := 0];
          (p, d) = fold (\<lambda>i. frame b shift_up) [0..<VCORTEX_PWM_CHNNLS] (p, d);
          (p, d) = fold (\<lambda>i. frame b (fill_down i)) [0..<VCORTEX_PWM_CHNNLS] (p, d);
          p = p[15 := 0];
          p = p[14 := 0]
      in fold (\<lambda>i. frame b shift_down) [0..<VCORTEX_PWM_CHNNLS] (p, d))"

subsection \<open>Reading a frame\<close>

lemma read_fft_upto:
  assumes "((l', r'), d') = fold (read_fft_sample b) [0..<n] ((l, r), d)"
    and rd: "\<And>i a d v d'. i < n \<Longrightarrow> a = 0x1100000 + push_bit 4 (of_nat i) \<or> a = 0x1100800 + push_bit 4 (of_nat i) \<Longrightarrow>
      bus_rd b a d = (v, d') \<Longrightarrow> v = mem a"
  shows "length l' = length l \<and> length r' = length r
    \<and> (\<forall>i < length l. l' ! i = (if i < n then mem (0x1100800 + push_bit 4 (of_nat i)) else l ! i))
    \<and> (\<forall>i < length r. r' ! i = (if i < n then mem (0x1100000 + push_bit 4 (of_nat i)) else r ! i))"
  using assms
proof (induction n arbitrary: l' r' d')
  case (Suc n)
  obtain lm rm dm where m: "((lm, rm), dm) = fold (read_fft_sample b) [0..<n] ((l, r), d)" by (metis surj_pair)
  have IH: "length lm = length l \<and> length rm = length r
    \<and> (\<forall>i < length l. lm ! i = (if i < n then mem (0x1100800 + push_bit 4 (of_nat i)) else l ! i))
    \<and> (\<forall>i < length r. rm ! i = (if i < n then mem (0x1100000 + push_bit 4 (of_nat i)) else r ! i))"
    by (rule Suc.IH [OF m Suc.prems(2)]) simp_all
  obtain v1 d1 where 1: "bus_rd b (0x1100000 + push_bit 4 (of_nat n)) dm = (v1, d1)" by fastforce
  obtain v2 d2 where 2: "bus_rd b (0x1100800 + push_bit 4 (of_nat n)) d1 = (v2, d2)" by fastforce
  have r1: "v1 = mem (0x1100000 + push_bit 4 (of_nat n))" by (rule Suc.prems(2) [of n, OF _ _ 1]) simp_all
  have r2: "v2 = mem (0x1100800 + push_bit 4 (of_nat n))" by (rule Suc.prems(2) [of n, OF _ _ 2]) simp_all
  have "((l', r'), d') = read_fft_sample b n ((lm, rm), dm)" using Suc.prems(1) by (simp add: m [symmetric])
  also have "\<dots> = ((lm[n := v2], rm[n := v1]), d2)"
    using 1 2 by (simp add: read_fft_sample_def bus_defs reg_map push_bit_add algebra_simps)
  finally show ?case using IH r1 r2 by (auto simp: less_Suc_eq nth_list_update)
qed simp

lemma sunshine_upto:
  "length p = 16 \<Longrightarrow> n \<le> 16 \<Longrightarrow> fold (sunshine_channel l) [0..<n] p = map (\<lambda>i. ucast (push_bit 14 (l ! i))) [0..<n] @ drop n p"
proof (induction n)
  case (Suc n)
  then have "fold (sunshine_channel l) [0..<Suc n] p
      = sunshine_channel l n (map (\<lambda>i. ucast (push_bit 14 (l ! i))) [0..<n] @ drop n p)" by simp
  also have "drop n p = p ! n # drop (Suc n) p" using Suc.prems by (simp add: Cons_nth_drop_Suc)
  finally show ?case by (simp add: sunshine_channel_def list_update_append)
qed simp

subsection \<open>The chaser\<close>

lemma list16E:
  assumes "length p = 16"
  obtains p0 p1 p2 p3 p4 p5 p6 p7 p8 p9 p10 p11 p12 p13 p14 p15
  where "p = [p0, p1, p2, p3, p4, p5, p6, p7, p8, p9, p10, p11, p12, p13, p14, p15]"
  using assms by (auto simp: length_Suc_conv numeral_eq_Suc)

lemma upt_chan: "rev [2..<15] = [14, 13, 12, 11, 10, 9, 8, 7, 6, 5, 4, 3, 2 :: nat]"
  "[1..<14] = [1, 2, 3, 4, 5, 6, 7, 8, 9, 10, 11, 12, 13 :: nat]"
  by code_simp+

lemma shift_up_16:
  "shift_up [p0, p1, p2, p3, p4, p5, p6, p7, p8, p9, p10, p11, p12, p13, p14, p15]
    = [p0, p1, p1, p2, p3, p4, p5, p6, p7, p8, p9, p10, p11, p12, p13, p15 + p14]"
  unfolding shift_up_def upt_chan by simp

lemma shift_down_16:
  "shift_down [p0, p1, p2, p3, p4, p5, p6, p7, p8, p9, p10, p11, p12, p13, p14, p15]
    = [p0 + p1, p2, p3, p4, p5, p6, p7, p8, p9, p10, p11, p12, p13, p14, p14, p15]"
  unfolding shift_down_def upt_chan by simp

lemma fill_sum:
  assumes "length p = 16"
  shows "sum_list (fill_up i p) = sum_list p \<and> length (fill_up i p) = 16
    \<and> sum_list (fill_down i p) = sum_list p \<and> length (fill_down i p) = 16"
  by (rule list16E [OF assms])
     (simp add: fill_up_def fill_down_def shift_up_16 shift_down_16 Let_def algebra_simps)

text \<open>
  The chaser of the light task moves light between channels: a step of its two filling
  phases keeps the total (modulo the width of a channel), so the sixteen steps of a phase move
  everything that channel 0 held.
\<close>

theorem chaser_conserves:
  assumes "length p = 16"
  shows "sum_list (fold fill_up [0..<n] p) = sum_list p \<and> length (fold fill_up [0..<n] p) = 16
    \<and> sum_list (fold fill_down [0..<n] p) = sum_list p \<and> length (fold fill_down [0..<n] p) = 16"
  using assms fill_sum by (induction n) simp_all

theorem chaser_conserves_witness:
  "sum_list (fold fill_up [0..<16] (0xffff # replicate 15 0)) = (0xffff :: u16)
    \<and> length (fold fill_up [0..<16] (0xffff # replicate 15 0)) = 16
    \<and> sum_list (fold fill_down [0..<16] (0xffff # replicate 15 0)) = (0xffff :: u16)
    \<and> length (fold fill_down [0..<16] (0xffff # replicate 15 0)) = 16"
proof -
  have s: "sum_list (0xffff # replicate 15 0) = (0xffff :: u16)" and l: "length (0xffff # replicate 15 (0 :: u16)) = 16"
    by (simp_all add: sum_list_replicate)
  show ?thesis using chaser_conserves [OF l, of 16] unfolding s .
qed

lemma fst_frames: "fst (fold (\<lambda>i. frame b (f i)) xs s) = fold f xs (fst s)"
  by (induction xs arbitrary: s) (simp_all add: frame_def show_frame_def split: prod.split)

lemma PWMTask_turn_buffer:
  "fst (PWMTask_turn b (p, d)) =
     fold (\<lambda>i. shift_down) [0..<VCORTEX_PWM_CHNNLS] ((fold fill_down [0..<VCORTEX_PWM_CHNNLS]
       (fold (\<lambda>i. shift_up) [0..<VCORTEX_PWM_CHNNLS] ((fold fill_up [0..<VCORTEX_PWM_CHNNLS] p)[0 := 0, 1 := 0])))[15 := 0, 14 := 0])"
proof -
  have f: "fst (fold (\<lambda>i. frame b (g i)) xs (q, e)) = fold g xs q" for g xs q e by (simp add: fst_frames)
  show ?thesis unfolding PWMTask_turn_def Let_def by (simp add: show_frame_def f case_prod_beta fst_frames)
qed

text \<open>
  One full turn of the chaser brings the light back to channel 0, less one unit: the value of
  channel 1 is cleared while it still holds the last bit. From then on every turn ends as it
  started.
\<close>

theorem chaser_cycle:
  "fst (PWMTask_turn b (0xffff # replicate 15 0, d)) = 0xfffe # replicate 15 0
   \<and> fst (PWMTask_turn b (0xfffe # replicate 15 0, d)) = 0xfffe # replicate 15 0"
proof -
  have r: "replicate 15 0 = [0, 0, 0, 0, 0, 0, 0, 0, 0, 0, 0, 0, 0, 0, 0 :: u16]" by (simp add: numeral_eq_Suc)
  have u: "[0..<VCORTEX_PWM_CHNNLS] = [0, 1, 2, 3, 4, 5, 6, 7, 8, 9, 10, 11, 12, 13, 14, 15]" by code_simp
  have 1: "(fold fill_up [0, 1, 2, 3, 4, 5, 6, 7, 8, 9, 10, 11, 12, 13, 14, 15] (w # replicate 15 0))[0 := 0, 1 := 0]
      = [0, 0, 2, 4, 8, 16, 32, 64, 128, 256, 512, 1024, 2048, 4096, 8192, 49152]" for w
    unfolding r by (simp add: fill_up_def shift_up_16 Let_def reg_map)
  have 2: "fold (\<lambda>i. shift_up) [0, 1, 2, 3, 4, 5, 6, 7, 8, 9, 10, 11, 12, 13, 14, 15 :: nat]
      [0, 0, 2, 4, 8, 16, 32, 64, 128, 256, 512, 1024, 2048, 4096, 8192, 49152] = replicate 15 0 @ [0xfffe]"
    unfolding r by (simp add: shift_up_16)
  have 3: "(fold fill_down [0, 1, 2, 3, 4, 5, 6, 7, 8, 9, 10, 11, 12, 13, 14, 15] (replicate 15 0 @ [0xfffe]))[15 := 0, 14 := 0]
      = [49152, 8192, 4096, 2048, 1024, 512, 256, 128, 64, 32, 16, 8, 4, 2, 0, 0]"
    unfolding r by (simp add: fill_down_def shift_down_16 Let_def reg_map)
  have 4: "fold (\<lambda>i. shift_down) [0, 1, 2, 3, 4, 5, 6, 7, 8, 9, 10, 11, 12, 13, 14, 15 :: nat]
      [49152, 8192, 4096, 2048, 1024, 512, 256, 128, 64, 32, 16, 8, 4, 2, 0, 0] = 0xfffe # replicate 15 0"
    unfolding r by (simp add: shift_down_16)
  show ?thesis unfolding PWMTask_turn_buffer u 1 2 3 4 by simp
qed

text \<open>
  The \<open>sunshine\<close> plugin lights channel \<open>i\<close> by the two lowest bits of spectrum bin \<open>i\<close> of the left
  channel, moved to the top of the sixteen-bit level; the higher bits are shifted out.
\<close>

lemma sunshine_level:
  assumes "length pwm = 16" and "i < 16"
  shows "length (acid_sunshine lfft rfft pwm) = 16
    \<and> unat (acid_sunshine lfft rfft pwm ! i) = (unat (lfft ! i) mod 4) * 2 ^ 14"
proof -
  have p: "acid_sunshine lfft rfft pwm = map (\<lambda>i. ucast (push_bit 14 (lfft ! i))) [0..<16]"
    using sunshine_upto [OF assms(1), of 16] assms(1) by (simp add: acid_sunshine_def reg_map del: upt_rec_numeral)
  have "unat (ucast (push_bit 14 v) :: u16) = (unat v mod 4) * 2 ^ 14" for v :: u32
  proof -
    have "unat (ucast (push_bit 14 v) :: u16) = unat v * 2 ^ 14 mod 2 ^ 32 mod 2 ^ 16"
      by (simp add: unat_ucast_mod push_bit_eq_mult unat_word_ariths)
    also have "\<dots> = unat v * 2 ^ 14 mod (4 * 2 ^ 14)" by (simp add: mod_mod_cancel)
    finally show ?thesis by (simp add: mult_mod_left)
  qed
  with assms p show ?thesis by (simp del: upt_rec_numeral)
qed

end
