(* ===== verification/Fgyrus.thy ===== *)
theory Fgyrus
  imports Bus
begin

text \<open>
  The driver of the two spectrum engines, \<^verbatim>\<open>cortex/fgyrus/fgyrus.c\<close> and \<^verbatim>\<open>fgyrus.h\<close>: one block
  per audio channel, selected by the block code in the address.
\<close>

subsection \<open>Registers and enumerations\<close>

definition FGYRUS_LCHNL_BLK_CODE :: u32 where [reg_map]: "FGYRUS_LCHNL_BLK_CODE = 0x00000"

definition FGYRUS_RCHNL_BLK_CODE :: u32 where [reg_map]: "FGYRUS_RCHNL_BLK_CODE = 0x10000"

definition FGYRUS_CONTROL_REG_ADDR :: u32 where [reg_map]: "FGYRUS_CONTROL_REG_ADDR = 0x00000"

definition FGYRUS_FSM_PSTATE_REG_ADDR :: u32 where [reg_map]: "FGYRUS_FSM_PSTATE_REG_ADDR = 0x00020"

definition FGYRUS_STATUS_REG_ADDR :: u32 where [reg_map]: "FGYRUS_STATUS_REG_ADDR = 0x00040"

definition FGYRUS_POST_NORM_REG_ADDR :: u32 where [reg_map]: "FGYRUS_POST_NORM_REG_ADDR = 0x00060"

definition FGYRUS_EN_MSK :: u32 where [reg_map]: "FGYRUS_EN_MSK = 0x1"

definition FGYRUS_FSM_PSTATE_MSK :: u32 where [reg_map]: "FGYRUS_FSM_PSTATE_MSK = 0x7"

definition FGYRUS_BUSY_MSK :: u32 where [reg_map]: "FGYRUS_BUSY_MSK = 0x1"

datatype FGYRUS_TYPE = LCHNL | RCHNL

datatype FGYRUS_STATUS_TYPE = IDLE | DECIMATE | FFT | FFT_WAIT | CORDIC | ABS

datatype FGYRUS_POST_NORM_TYPE = NORM_OFF | NORM_16 | NORM_128 | NORM_256 | NORM_4k | NORM_64k

fun FGYRUS_POST_NORM_val :: "FGYRUS_POST_NORM_TYPE \<Rightarrow> nat" where
  "FGYRUS_POST_NORM_val NORM_OFF = 0"
| "FGYRUS_POST_NORM_val NORM_16 = 1"
| "FGYRUS_POST_NORM_val NORM_128 = 2"
| "FGYRUS_POST_NORM_val NORM_256 = 3"
| "FGYRUS_POST_NORM_val NORM_4k = 4"
| "FGYRUS_POST_NORM_val NORM_64k = 5"

text \<open>\<open>FGYRUS_TYPE\<close> from a C integer: \<^verbatim>\<open>prep_cortex\<close> casts literals.\<close>

definition FGYRUS_TYPE_of :: "nat \<Rightarrow> FGYRUS_TYPE" where
  "FGYRUS_TYPE_of n = (if n = 0 then LCHNL else RCHNL)"

subsection \<open>Driver functions\<close>

definition get_full_fgyrus_addr :: "FGYRUS_TYPE \<Rightarrow> u32 \<Rightarrow> u32" where
  "get_full_fgyrus_addr fg addr =
     (if fg = LCHNL then addr + FGYRUS_LCHNL_BLK_CODE else addr + FGYRUS_RCHNL_BLK_CODE)"

definition IORD_FGYRUS_FSM_PSTATE :: "'d bus \<Rightarrow> u32 \<Rightarrow> FGYRUS_TYPE \<Rightarrow> 'd \<Rightarrow> u32 \<times> 'd" where
  "IORD_FGYRUS_FSM_PSTATE b base fg = IORD_32DIRECT b base (get_full_fgyrus_addr fg FGYRUS_FSM_PSTATE_REG_ADDR)"

definition IORD_FGYRUS_STATUS :: "'d bus \<Rightarrow> u32 \<Rightarrow> FGYRUS_TYPE \<Rightarrow> 'd \<Rightarrow> u32 \<times> 'd" where
  "IORD_FGYRUS_STATUS b base fg = IORD_32DIRECT b base (get_full_fgyrus_addr fg FGYRUS_STATUS_REG_ADDR)"

definition IOWR_FGYRUS_CTRL :: "'d bus \<Rightarrow> u32 \<Rightarrow> FGYRUS_TYPE \<Rightarrow> u32 \<Rightarrow> 'd \<Rightarrow> 'd" where
  "IOWR_FGYRUS_CTRL b base fg = IOWR_32DIRECT b base (get_full_fgyrus_addr fg FGYRUS_CONTROL_REG_ADDR)"

definition IOWR_FGYRUS_POST_NORM :: "'d bus \<Rightarrow> u32 \<Rightarrow> FGYRUS_TYPE \<Rightarrow> u32 \<Rightarrow> 'd \<Rightarrow> 'd" where
  "IOWR_FGYRUS_POST_NORM b base fg = IOWR_32DIRECT b base (get_full_fgyrus_addr fg FGYRUS_POST_NORM_REG_ADDR)"

definition get_fgyrus_status :: "'d bus \<Rightarrow> u32 \<Rightarrow> FGYRUS_TYPE \<Rightarrow> 'd \<Rightarrow> FGYRUS_STATUS_TYPE \<times> 'd" where
  "get_fgyrus_status b base fg d =
     (let (v, d) = IORD_FGYRUS_STATUS b base fg d
      in (if v AND FGYRUS_BUSY_MSK \<noteq> 0 then DECIMATE else IDLE, d))"

text \<open>The code returns the masked register as an enumeration value without checking its range.\<close>

definition get_fgyrus_fsm_pstate :: "'d bus \<Rightarrow> u32 \<Rightarrow> FGYRUS_TYPE \<Rightarrow> 'd \<Rightarrow> u32 \<times> 'd" where
  "get_fgyrus_fsm_pstate b base fg d =
     (let (v, d) = IORD_FGYRUS_FSM_PSTATE b base fg d in (v AND FGYRUS_FSM_PSTATE_MSK, d))"

definition enable_fgyrus :: "'d bus \<Rightarrow> u32 \<Rightarrow> FGYRUS_TYPE \<Rightarrow> 'd \<Rightarrow> 'd" where
  "enable_fgyrus b base fg d = IOWR_FGYRUS_CTRL b base fg FGYRUS_EN_MSK d"

definition disable_fgyrus :: "'d bus \<Rightarrow> u32 \<Rightarrow> FGYRUS_TYPE \<Rightarrow> 'd \<Rightarrow> 'd" where
  "disable_fgyrus b base fg d = IOWR_FGYRUS_CTRL b base fg 0x0 d"

definition configure_post_norm :: "'d bus \<Rightarrow> u32 \<Rightarrow> FGYRUS_TYPE \<Rightarrow> FGYRUS_POST_NORM_TYPE \<Rightarrow> 'd \<Rightarrow> 'd" where
  "configure_post_norm b base fg val d =
     IOWR_FGYRUS_POST_NORM b base fg (of_nat (FGYRUS_POST_NORM_val val)) d"

lemmas fgyrus_io_defs = IORD_FGYRUS_FSM_PSTATE_def IORD_FGYRUS_STATUS_def IOWR_FGYRUS_CTRL_def
  IOWR_FGYRUS_POST_NORM_def get_full_fgyrus_addr_def

lemmas fgyrus_fun_defs = get_fgyrus_status_def get_fgyrus_fsm_pstate_def enable_fgyrus_def
  disable_fgyrus_def configure_post_norm_def

text \<open>The two engines' register blocks do not overlap.\<close>

lemma fgyrus_blocks_disjoint:
  assumes "r < 0x10000" and "r' < 0x10000" and "get_full_fgyrus_addr fg r = get_full_fgyrus_addr fg' r'"
  shows "fg = fg' \<and> r = r'"
proof -
  have *: "r \<noteq> r' + 0x10000" "r' \<noteq> r + 0x10000" using assms(1,2)
    by (auto simp: word_less_nat_alt unat_word_ariths)
  with assms(3) show ?thesis
    by (cases fg; cases fg') (auto simp: get_full_fgyrus_addr_def reg_map)
qed

end
