(* ===== verification/Ledos_Types.thy ===== *)
theory Ledos_Types
  imports Prelude
begin

text \<open>The enumerations shared by the drivers, \<^verbatim>\<open>ledos/ledos_types.h\<close>, with their C values.\<close>

datatype FS_T = FS_8KHZ | FS_32KHZ | FS_44KHZ | FS_48KHZ | FS_88KHZ | FS_96KHZ

datatype BPS_T = BPS_32 | BPS_16

fun FS_T_val :: "FS_T \<Rightarrow> nat" where
  "FS_T_val FS_8KHZ = 0"
| "FS_T_val FS_32KHZ = 1"
| "FS_T_val FS_44KHZ = 2"
| "FS_T_val FS_48KHZ = 3"
| "FS_T_val FS_88KHZ = 4"
| "FS_T_val FS_96KHZ = 5"

fun BPS_T_val :: "BPS_T \<Rightarrow> nat" where
  "BPS_T_val BPS_32 = 1"
| "BPS_T_val BPS_16 = 0"

text \<open>
  C converts freely between integers, other enumerations and \<open>FS_T\<close>; the conversion is made
  explicit where the code relies on it. A value outside the enumeration has no enumerator.
\<close>

definition FS_T_of :: "nat \<Rightarrow> FS_T option" where
  "FS_T_of n = find (\<lambda>fs. FS_T_val fs = n) [FS_8KHZ, FS_32KHZ, FS_44KHZ, FS_48KHZ, FS_88KHZ, FS_96KHZ]"

lemma FS_T_of_val: "FS_T_of (FS_T_val fs) = Some fs"
  by (cases fs) (simp_all add: FS_T_of_def)

end
