(* ===== verification/Dac_Drvr.thy ===== *)
theory Dac_Drvr
  imports Bus Ledos_Types
begin

text \<open>
  The driver of the audio DAC/ADC interface, \<^verbatim>\<open>cortex/acortex/dac/dac_drvr.c\<close> and
  \<^verbatim>\<open>dac_drvr.h\<close>: enables, sample width, sampling divider and master clock.
\<close>

subsection \<open>Registers, masks and tables\<close>

definition DAC_DRVR_CTRL_REG_ADDR :: u32 where
  [reg_map]: "DAC_DRVR_CTRL_REG_ADDR = 0x23000"

definition DAC_DRVR_STATUS_REG_ADDR :: u32 where
  [reg_map]: "DAC_DRVR_STATUS_REG_ADDR = 0x23010"

definition DAC_DRVR_FS_DIV_REG_ADDR :: u32 where
  [reg_map]: "DAC_DRVR_FS_DIV_REG_ADDR = 0x23020"

definition DAC_DRVR_MCLK_SEL_REG_ADDR :: u32 where
  [reg_map]: "DAC_DRVR_MCLK_SEL_REG_ADDR = 0x23030"

definition DAC_DRVR_EN_MSK :: u32 where [reg_map]: "DAC_DRVR_EN_MSK = 0x1"

definition ADC_DRVR_EN_MSK :: u32 where [reg_map]: "ADC_DRVR_EN_MSK = 0x2"

definition DAC_DRVR_BPS_MSK :: u32 where [reg_map]: "DAC_DRVR_BPS_MSK = 0x4"

definition DAC_DRVR_FS_DIV_VAL_MSK :: u32 where [reg_map]: "DAC_DRVR_FS_DIV_VAL_MSK = 0x7ff"

definition DAC_DRVR_MCLK_SEL_MSK :: u32 where [reg_map]: "DAC_DRVR_MCLK_SEL_MSK = 0x3"

definition DAC_DRVR_MCLK_EN_MSK :: u32 where [reg_map]: "DAC_DRVR_MCLK_EN_MSK = 0x8000"

definition IORD_DAC_DRVR_CTRL :: "'d bus \<Rightarrow> u32 \<Rightarrow> 'd \<Rightarrow> u32 \<times> 'd" where
  "IORD_DAC_DRVR_CTRL b base = IORD_32DIRECT b base DAC_DRVR_CTRL_REG_ADDR"

definition IORD_DAC_DRVR_MCLK_SEL :: "'d bus \<Rightarrow> u32 \<Rightarrow> 'd \<Rightarrow> u32 \<times> 'd" where
  "IORD_DAC_DRVR_MCLK_SEL b base = IORD_32DIRECT b base DAC_DRVR_MCLK_SEL_REG_ADDR"

definition IOWR_DAC_DRVR_CTRL :: "'d bus \<Rightarrow> u32 \<Rightarrow> u32 \<Rightarrow> 'd \<Rightarrow> 'd" where
  "IOWR_DAC_DRVR_CTRL b base = IOWR_32DIRECT b base DAC_DRVR_CTRL_REG_ADDR"

definition IOWR_DAC_DRVR_FS_DIV :: "'d bus \<Rightarrow> u32 \<Rightarrow> u32 \<Rightarrow> 'd \<Rightarrow> 'd" where
  "IOWR_DAC_DRVR_FS_DIV b base = IOWR_32DIRECT b base DAC_DRVR_FS_DIV_REG_ADDR"

definition IOWR_DAC_DRVR_MCLK_SEL :: "'d bus \<Rightarrow> u32 \<Rightarrow> u32 \<Rightarrow> 'd \<Rightarrow> 'd" where
  "IOWR_DAC_DRVR_MCLK_SEL b base = IOWR_32DIRECT b base DAC_DRVR_MCLK_SEL_REG_ADDR"

datatype MCLK_SEL_VAL = CLK_18MHZ | CLK_16MHZ | CLK_12MHZ | CLK_11MHZ

fun MCLK_SEL_val :: "MCLK_SEL_VAL \<Rightarrow> nat" where
  "MCLK_SEL_val CLK_18MHZ = 0"
| "MCLK_SEL_val CLK_16MHZ = 1"
| "MCLK_SEL_val CLK_12MHZ = 2"
| "MCLK_SEL_val CLK_11MHZ = 3"

fun fs2mclk_lookup :: "FS_T \<Rightarrow> MCLK_SEL_VAL" where
  "fs2mclk_lookup FS_8KHZ = CLK_12MHZ"
| "fs2mclk_lookup FS_32KHZ = CLK_12MHZ"
| "fs2mclk_lookup FS_44KHZ = CLK_11MHZ"
| "fs2mclk_lookup FS_48KHZ = CLK_12MHZ"
| "fs2mclk_lookup FS_88KHZ = CLK_11MHZ"
| "fs2mclk_lookup FS_96KHZ = CLK_12MHZ"

text \<open>The enumeration \<^verbatim>\<open>FS_DIV_VAL\<close> only names its values; the table holds the values.\<close>

fun fs2div_lookup :: "FS_T \<Rightarrow> nat" where
  "fs2div_lookup FS_8KHZ = 781"
| "fs2div_lookup FS_32KHZ = 195"
| "fs2div_lookup FS_44KHZ = 142"
| "fs2div_lookup FS_48KHZ = 130"
| "fs2div_lookup FS_88KHZ = 71"
| "fs2div_lookup FS_96KHZ = 65"

subsection \<open>Driver functions\<close>

definition disable_dac_drvr :: "'d bus \<Rightarrow> u32 \<Rightarrow> 'd \<Rightarrow> 'd" where
  "disable_dac_drvr b base d =
     (let (v, d) = IORD_DAC_DRVR_CTRL b base d in IOWR_DAC_DRVR_CTRL b base (v AND NOT DAC_DRVR_EN_MSK) d)"

definition enable_dac_drvr :: "'d bus \<Rightarrow> u32 \<Rightarrow> 'd \<Rightarrow> 'd" where
  "enable_dac_drvr b base d =
     (let (v, d) = IORD_DAC_DRVR_CTRL b base d in IOWR_DAC_DRVR_CTRL b base (v OR DAC_DRVR_EN_MSK) d)"

definition disable_adc_drvr :: "'d bus \<Rightarrow> u32 \<Rightarrow> 'd \<Rightarrow> 'd" where
  "disable_adc_drvr b base d =
     (let (v, d) = IORD_DAC_DRVR_CTRL b base d in IOWR_DAC_DRVR_CTRL b base (v AND NOT ADC_DRVR_EN_MSK) d)"

definition enable_adc_drvr :: "'d bus \<Rightarrow> u32 \<Rightarrow> 'd \<Rightarrow> 'd" where
  "enable_adc_drvr b base d =
     (let (v, d) = IORD_DAC_DRVR_CTRL b base d in IOWR_DAC_DRVR_CTRL b base (v OR ADC_DRVR_EN_MSK) d)"

definition configure_dac_drvr_bps :: "'d bus \<Rightarrow> u32 \<Rightarrow> BPS_T \<Rightarrow> 'd \<Rightarrow> 'd" where
  "configure_dac_drvr_bps b base val d =
     (if BPS_T_val val \<noteq> 0
      then let (v, d) = IORD_DAC_DRVR_CTRL b base d in IOWR_DAC_DRVR_CTRL b base (v OR DAC_DRVR_BPS_MSK) d
      else let (v, d) = IORD_DAC_DRVR_CTRL b base d in IOWR_DAC_DRVR_CTRL b base (v AND NOT DAC_DRVR_BPS_MSK) d)"

definition enable_mclk :: "'d bus \<Rightarrow> u32 \<Rightarrow> 'd \<Rightarrow> 'd" where
  "enable_mclk b base d =
     (let (v, d) = IORD_DAC_DRVR_MCLK_SEL b base d
      in IOWR_DAC_DRVR_MCLK_SEL b base (v OR DAC_DRVR_MCLK_EN_MSK) d)"

definition disable_mclk :: "'d bus \<Rightarrow> u32 \<Rightarrow> 'd \<Rightarrow> 'd" where
  "disable_mclk b base d = IOWR_DAC_DRVR_MCLK_SEL b base 0x0 d"

definition update_mclk :: "'d bus \<Rightarrow> u32 \<Rightarrow> FS_T \<Rightarrow> 'd \<Rightarrow> 'd" where
  "update_mclk b base val d =
     (let d = disable_mclk b base d;
          d = IOWR_DAC_DRVR_MCLK_SEL b base (of_nat (MCLK_SEL_val (fs2mclk_lookup val))) d
      in enable_mclk b base d)"

definition update_fs_div :: "'d bus \<Rightarrow> u32 \<Rightarrow> FS_T \<Rightarrow> 'd \<Rightarrow> 'd" where
  "update_fs_div b base val d = IOWR_DAC_DRVR_FS_DIV b base (of_nat (fs2div_lookup val)) d"

lemmas dac_io_defs = IORD_DAC_DRVR_CTRL_def IORD_DAC_DRVR_MCLK_SEL_def IOWR_DAC_DRVR_CTRL_def
  IOWR_DAC_DRVR_FS_DIV_def IOWR_DAC_DRVR_MCLK_SEL_def

lemmas dac_fun_defs = disable_dac_drvr_def enable_dac_drvr_def disable_adc_drvr_def
  enable_adc_drvr_def configure_dac_drvr_bps_def enable_mclk_def disable_mclk_def
  update_mclk_def update_fs_div_def

subsection \<open>What the driver relies on\<close>

text \<open>
  The DAC block: three registers that keep the bits they implement and answer reads with them,
  none of which a write to another one changes. \<open>ctrl\<close> holds three bits (DAC enable, ADC
  enable, sample width), \<open>fs_div\<close> the eleven-bit divider, \<open>mclk\<close> the enable bit 15 and the
  two-bit selector.
\<close>

locale dac_dev =
  fixes b :: "'d bus" and base :: u32 and ok :: "'d \<Rightarrow> bool"
    and ctrl :: "'d \<Rightarrow> u32" and fs_div :: "'d \<Rightarrow> u32" and mclk :: "'d \<Rightarrow> u32"
  assumes rd_ctrl: "ok d \<Longrightarrow> IORD_DAC_DRVR_CTRL b base d = (v, d') \<Longrightarrow>
      v = ctrl d \<and> ok d' \<and> ctrl d' = ctrl d \<and> fs_div d' = fs_div d \<and> mclk d' = mclk d"
    and rd_mclk: "ok d \<Longrightarrow> IORD_DAC_DRVR_MCLK_SEL b base d = (v, d') \<Longrightarrow>
      v = mclk d \<and> ok d' \<and> ctrl d' = ctrl d \<and> fs_div d' = fs_div d \<and> mclk d' = mclk d"
    and wr_ctrl: "ok d \<Longrightarrow> d' = IOWR_DAC_DRVR_CTRL b base w d \<Longrightarrow>
      ok d' \<and> ctrl d' = w AND 7 \<and> fs_div d' = fs_div d \<and> mclk d' = mclk d"
    and wr_fs_div: "ok d \<Longrightarrow> d' = IOWR_DAC_DRVR_FS_DIV b base w d \<Longrightarrow>
      ok d' \<and> ctrl d' = ctrl d \<and> fs_div d' = w AND DAC_DRVR_FS_DIV_VAL_MSK \<and> mclk d' = mclk d"
    and wr_mclk: "ok d \<Longrightarrow> d' = IOWR_DAC_DRVR_MCLK_SEL b base w d \<Longrightarrow>
      ok d' \<and> ctrl d' = ctrl d \<and> fs_div d' = fs_div d
      \<and> mclk d' = w AND (DAC_DRVR_MCLK_EN_MSK OR DAC_DRVR_MCLK_SEL_MSK)"
begin

text \<open>A read-modify-write of the control register applies its function to the three bits.\<close>

lemma rmw_ctrl:
  assumes "ok d" and "d' = (let (v, d) = IORD_DAC_DRVR_CTRL b base d in IOWR_DAC_DRVR_CTRL b base (f v) d)"
  shows "ok d' \<and> ctrl d' = f (ctrl d) AND 7 \<and> fs_div d' = fs_div d \<and> mclk d' = mclk d"
proof -
  obtain v d1 where r: "IORD_DAC_DRVR_CTRL b base d = (v, d1)" by fastforce
  from rd_ctrl [OF assms(1) r] have 1: "v = ctrl d" "ok d1" "fs_div d1 = fs_div d" "mclk d1 = mclk d"
    by simp_all
  from wr_ctrl [OF 1(2) refl, of "f v"] 1 assms(2) r show ?thesis by simp
qed

lemma update_mclk_ok:
  assumes "ok d" and "d' = update_mclk b base fs d"
  shows "ok d' \<and> mclk d' = of_nat (MCLK_SEL_val (fs2mclk_lookup fs)) OR DAC_DRVR_MCLK_EN_MSK
    \<and> ctrl d' = ctrl d \<and> fs_div d' = fs_div d"
proof -
  let ?sel = "of_nat (MCLK_SEL_val (fs2mclk_lookup fs)) :: u32"
  let ?d1 = "disable_mclk b base d"
  let ?d2 = "IOWR_DAC_DRVR_MCLK_SEL b base ?sel ?d1"
  obtain v d3 where r: "IORD_DAC_DRVR_MCLK_SEL b base ?d2 = (v, d3)" by fastforce
  from wr_mclk [OF assms(1) refl, of 0] have 1: "ok ?d1" "ctrl ?d1 = ctrl d" "fs_div ?d1 = fs_div d"
    by (simp_all add: disable_mclk_def)
  from wr_mclk [OF 1(1) refl, of ?sel] 1 have 2: "ok ?d2" "ctrl ?d2 = ctrl d" "fs_div ?d2 = fs_div d"
    "mclk ?d2 = ?sel AND 0x8003" by (simp_all add: reg_map)
  from rd_mclk [OF 2(1) r] 2 have 3: "ok d3" "ctrl d3 = ctrl d" "fs_div d3 = fs_div d"
    "v = ?sel AND 0x8003" by simp_all
  from 3(4) have v: "v = ?sel" by (cases fs) simp_all
  from wr_mclk [OF 3(1) refl, of "v OR DAC_DRVR_MCLK_EN_MSK"] 3(2,3) v r assms(2) show ?thesis
    by (cases fs) (simp_all add: update_mclk_def enable_mclk_def reg_map)
qed

end

subsection \<open>Functional behaviour for any hardware\<close>

text \<open>
  The master clock is never switched while it is enabled: the update first clears the whole
  register, then writes the new selector with the enable bit off, and only then sets it.
\<close>

lemma update_mclk_log:
  "snd (update_mclk (logged b) base fs (d, l)) =
     (let m = base + 0x23030;
          sel = of_nat (MCLK_SEL_val (fs2mclk_lookup fs));
          v = fst (bus_rd b m (bus_wr b m sel (bus_wr b m 0 d)))
      in l @ [Wr m 0, Wr m sel, Rd m v, Wr m (v OR 0x8000)])"
  by (simp add: dac_fun_defs dac_io_defs bus_defs reg_map Let_def)

end
