(* ===== verification/Bash.thy ===== *)
theory Bash
  imports Shell Ff_Types Plugins Fgyrus Dac_Drvr
begin

text \<open>
  The user commands of the shell, \<^verbatim>\<open>shell/bash.c\<close>. The commands call the file system; its
  operations are an argument, a record with one field per entry point of \<^verbatim>\<open>ff.h\<close> the commands use.
\<close>

subsection \<open>The file system as the commands see it\<close>

record FILINFO =
  fsize :: u32
  fdate :: u16
  ftime :: u16
  fattrib :: u8
  fname :: string

text \<open>
  \<open>'f\<close> is the state behind the interface: the volume, the open file \<^verbatim>\<open>bash_Fil\<close> and the open
  directory \<^verbatim>\<open>bash_dir\<close>. A read returns the bytes it put in the buffer. A call that does not come
  back is \<open>None\<close>.
\<close>

record 'f fatfs =
  f_mount :: "'f \<Rightarrow> 'f"
  f_open :: "string \<Rightarrow> u8 \<Rightarrow> 'f \<Rightarrow> (FRESULT \<times> 'f) option"
  f_read :: "nat \<Rightarrow> 'f \<Rightarrow> (FRESULT \<times> u8 list \<times> 'f) option"
  f_close :: "'f \<Rightarrow> (FRESULT \<times> 'f) option"
  f_opendir :: "string \<Rightarrow> 'f \<Rightarrow> (FRESULT \<times> 'f) option"
  f_readdir :: "'f \<Rightarrow> (FRESULT \<times> FILINFO \<times> 'f) option"
  f_rename :: "string \<Rightarrow> string \<Rightarrow> 'f \<Rightarrow> (FRESULT \<times> 'f) option"
  f_chdir :: "string \<Rightarrow> 'f \<Rightarrow> (FRESULT \<times> 'f) option"
  f_getcwd :: "nat \<Rightarrow> 'f \<Rightarrow> (FRESULT \<times> string \<times> 'f) option"

text \<open>The globals of \<^verbatim>\<open>bash.c\<close>, with the hardware.\<close>

record ('f, 'd) bash_st =
  vol :: 'f
  hw :: 'd
  bash_rc :: FRESULT
  current_acid :: "acid_t option"
  current_acid_str :: string

type_synonym ('f, 'd) bash_cmd = "('f, 'd) bash_st shellcmd"

definition BASH_BUFF_SIZE :: nat where "BASH_BUFF_SIZE = 65536"

subsection \<open>Printing numbers\<close>

fun dec :: "nat \<Rightarrow> string" where
  "dec n = (if n < 10 then [char_of (48 + n)] else dec (n div 10) @ [char_of (48 + n mod 10)])"

declare dec.simps [simp del]

definition hex_digit :: "nat \<Rightarrow> char" where
  "hex_digit n = (if n < 10 then char_of (48 + n) else char_of (87 + n))"

fun hex :: "nat \<Rightarrow> string" where
  "hex n = (if n < 16 then [hex_digit n] else hex (n div 16) @ [hex_digit (n mod 16)])"

declare hex.simps [simp del]

definition pad8 :: "string \<Rightarrow> string" where
  "pad8 s = replicate (8 - length s) CHR '' '' @ s"

subsection \<open>Steps shared by the commands\<close>

definition set_rc :: "FRESULT \<Rightarrow> 'f \<Rightarrow> ('f, 'd) bash_st shell_st \<Rightarrow> ('f, 'd) bash_st shell_st" where
  "set_rc rc v s = s\<lparr>usr := (usr s)\<lparr>vol := v, bash_rc := rc\<rparr>\<rparr>"

definition on_vol ::
  "('f \<Rightarrow> (FRESULT \<times> 'f) option) \<Rightarrow> ('f, 'd) bash_st shell_st \<Rightarrow> ('f, 'd) bash_st shell_st option" where
  "on_vol f s = do { (rc, v) \<leftarrow> f (vol (usr s)); Some (set_rc rc v s) }"

text \<open>A command whose file system call does not come back.\<close>

definition blocks :: "'s option \<Rightarrow> shell_stop + 's" where
  "blocks r = (case r of None \<Rightarrow> Inl Blocked | Some s \<Rightarrow> Inr s)"

text \<open>\<^verbatim>\<open>if(bash_rc) alt_printf("%s\r\n",decode_fres(bash_rc));\<close>\<close>

definition report :: "('f, 'd) bash_st shell_st \<Rightarrow> ('f, 'd) bash_st shell_st" where
  "report s = (if bash_rc (usr s) \<noteq> FR_OK then print (decode_fres (bash_rc (usr s)) @ CRLF) s else s)"

definition is_help :: "string \<Rightarrow> bool" where
  "is_help a = strcaseeq a ''--help''"

subsection \<open>Commands\<close>

text \<open>\<open>mem\<close> is what the kernel's heap reports: core bytes free, heap fragments, heap bytes free.\<close>

definition cmd_mem :: "nat \<times> nat \<times> nat \<Rightarrow> 's shellcmd" where
  "cmd_mem mem argv s =
     (if length argv > 0 then Inr (usage ''mem'' s)
      else let (core, n, sz) = mem
           in Inr (print (''heap free total  : '' @ dec sz @ '' bytes'' @ CRLF)
                (print (''heap fragments   : '' @ dec n @ CRLF)
                (print (''core free memory : '' @ dec core @ '' bytes'' @ CRLF) s))))"

definition cmd_touch :: "'f fatfs \<Rightarrow> ('f, 'd) bash_cmd" where
  "cmd_touch F argv s =
     (if length argv \<noteq> 1 \<or> is_help (argv ! 0) then Inr (usage ''touch <filename>'' s)
      else blocks (do {
        s \<leftarrow> on_vol (f_open F (argv ! 0) FA_CREATE_NEW) s;
        s \<leftarrow> on_vol (f_close F) (report s);
        Some (report s) }))"

definition cmd_mv :: "'f fatfs \<Rightarrow> ('f, 'd) bash_cmd" where
  "cmd_mv F argv s =
     (if length argv \<noteq> 2 \<or> is_help (argv ! 0) then Inr (usage ''mv <existing_filename> <new_filename>'' s)
      else blocks (do { s \<leftarrow> on_vol (f_rename F (argv ! 0) (argv ! 1)) s; Some (report s) }))"

definition cmd_cd :: "'f fatfs \<Rightarrow> ('f, 'd) bash_cmd" where
  "cmd_cd F argv s =
     (if length argv \<noteq> 1 \<or> is_help (argv ! 0) then Inr (usage ''cd <destination_dir>'' s)
      else blocks (do { s \<leftarrow> on_vol (f_chdir F (argv ! 0)) s; Some (report s) }))"

definition cmd_pwd :: "'f fatfs \<Rightarrow> ('f, 'd) bash_cmd" where
  "cmd_pwd F argv s =
     (if length argv > 0 then Inr (usage ''pwd'' s)
      else blocks (do {
        (rc, cwd, v) \<leftarrow> f_getcwd F BASH_BUFF_SIZE (vol (usr s));
        let s = set_rc rc v s;
        Some (if rc \<noteq> FR_OK then print (decode_fres rc @ CRLF) s else print (cwd @ CRLF) s) }))"

definition dir_entry :: "FILINFO \<Rightarrow> string" where
  "dir_entry fno =
     (if fattrib fno AND AM_DIR \<noteq> 0 then ''   <dir>  '' @ fname fno @ CRLF
      else pad8 (dec (unat (fsize fno))) @ ''  '' @ fname fno @ CRLF)"

text \<open>The listing loop; \<open>None\<close> when the directory never ends.\<close>

partial_function (option) ll_loop :: "'f fatfs \<Rightarrow> 'f \<Rightarrow> string \<Rightarrow> (FRESULT \<times> 'f \<times> string) option" where
  "ll_loop F v out =
     do {
       (rc, fno, v) \<leftarrow> f_readdir F v;
       if rc \<noteq> FR_OK \<or> fname fno = [] then Some (rc, v, out)
       else ll_loop F v (out @ dir_entry fno) }"

definition cmd_ll :: "'f fatfs \<Rightarrow> ('f, 'd) bash_cmd" where
  "cmd_ll F argv s =
     (if length argv > 0 then Inr (usage ''ll'' s)
      else blocks (do {
        (rc, cwd, v) \<leftarrow> f_getcwd F BASH_BUFF_SIZE (vol (usr s));
        let s = set_rc rc v s;
        if rc \<noteq> FR_OK then Some (print (''Could not get pwd - '' @ decode_fres rc @ CRLF) s)
        else do {
          s \<leftarrow> on_vol (f_opendir F cwd) s;
          let s = (if bash_rc (usr s) \<noteq> FR_OK
                   then print (''Could not open pwd - '' @ decode_fres (bash_rc (usr s)) @ CRLF) s else s);
          (rc, v, out) \<leftarrow> ll_loop F (vol (usr s)) [];
          Some (report (print out (set_rc rc v s))) } }))"

text \<open>How \<open>cat\<close> and \<open>cath\<close> show a block.\<close>

definition show_text :: "u8 list \<Rightarrow> string" where
  "show_text bs = map (\<lambda>w. char_of (unat w)) bs"

definition show_hex :: "u8 list \<Rightarrow> string" where
  "show_hex bs = concat (map (\<lambda>(i, w). (if i mod 16 = 0 then CRLF else []) @ hex (unat w) @ '' '')
     (zip [0..<length bs] bs))"

partial_function (option) cat_loop ::
  "'f fatfs \<Rightarrow> (u8 list \<Rightarrow> string) \<Rightarrow> 'f \<Rightarrow> string \<Rightarrow> (FRESULT \<times> 'f \<times> string) option" where
  "cat_loop F shw v out =
     do {
       (rc, bs, v) \<leftarrow> f_read F BASH_BUFF_SIZE v;
       if rc \<noteq> FR_OK \<or> bs = [] then Some (rc, v, out)
       else cat_loop F shw v (out @ shw bs) }"

definition cat_file ::
  "'f fatfs \<Rightarrow> (u8 list \<Rightarrow> string) \<Rightarrow> string \<Rightarrow> string \<Rightarrow> ('f, 'd) bash_st shell_st \<Rightarrow> ('f, 'd) bash_st shell_st option" where
  "cat_file F shw trailer name s = do {
     s \<leftarrow> on_vol (f_open F name FA_READ) s;
     let s = report s;
     (rc, v, out) \<leftarrow> cat_loop F shw (vol (usr s)) [];
     s \<leftarrow> on_vol (f_close F) (report (print (out @ trailer) (set_rc rc v s)));
     Some (report s) }"

definition cmd_cat :: "'f fatfs \<Rightarrow> ('f, 'd) bash_cmd" where
  "cmd_cat F argv s =
     (if length argv \<noteq> 1 \<or> is_help (argv ! 0) then Inr (usage ''cat <filename>'' s)
      else blocks (cat_file F show_text [] (argv ! 0) s))"

definition cmd_cath :: "'f fatfs \<Rightarrow> ('f, 'd) bash_cmd" where
  "cmd_cath F argv s =
     (if length argv \<noteq> 1 \<or> is_help (argv ! 0) then Inr (usage ''cath <filename>'' s)
      else blocks (cat_file F show_hex CRLF (argv ! 0) s))"

subsection \<open>The performance test\<close>

text \<open>The counter's macros, of \<^verbatim>\<open>altera_avalon_performance_counter.h\<close>.\<close>

definition PERF_CNTR_BASE :: u32 where [reg_map]: "PERF_CNTR_BASE = 0x1102000"

definition PERF_BEGIN :: "'d bus \<Rightarrow> u32 \<Rightarrow> nat \<Rightarrow> 'd \<Rightarrow> 'd" where
  "PERF_BEGIN b p n d = IOWR b p (of_nat (n * 4 + 1)) 0 d"

definition PERF_END :: "'d bus \<Rightarrow> u32 \<Rightarrow> nat \<Rightarrow> 'd \<Rightarrow> 'd" where
  "PERF_END b p n d = IOWR b p (of_nat (n * 4)) 0 d"

definition PERF_RESET :: "'d bus \<Rightarrow> u32 \<Rightarrow> 'd \<Rightarrow> 'd" where
  "PERF_RESET b p d = IOWR b p 0 1 d"

definition PERF_START_MEASURING :: "'d bus \<Rightarrow> u32 \<Rightarrow> 'd \<Rightarrow> 'd" where
  "PERF_START_MEASURING b p = PERF_BEGIN b p 0"

definition PERF_STOP_MEASURING :: "'d bus \<Rightarrow> u32 \<Rightarrow> 'd \<Rightarrow> 'd" where
  "PERF_STOP_MEASURING b p = PERF_END b p 0"

definition on_hw :: "('d \<Rightarrow> 'd) \<Rightarrow> ('f, 'd) bash_st shell_st \<Rightarrow> ('f, 'd) bash_st shell_st" where
  "on_hw f s = s\<lparr>usr := (usr s)\<lparr>hw := f (hw (usr s))\<rparr>\<rparr>"

definition bash_sleep :: "'d bus \<Rightarrow> nat \<Rightarrow> ('f, 'd) bash_st shell_st \<Rightarrow> ('f, 'd) bash_st shell_st" where
  "bash_sleep b n s = shell_sleep n (on_hw (sleep_ms b n) s)"

text \<open>The test loop: the tests still to run, numbered, with their sizes; it breaks on the first error.\<close>

fun perf_tests ::
  "'d bus \<Rightarrow> 'f fatfs \<Rightarrow> string \<Rightarrow> (nat \<times> nat) list \<Rightarrow> ('f, 'd) bash_st shell_st \<Rightarrow> ('f, 'd) bash_st shell_st option" where
  "perf_tests b F name [] s = Some s"
| "perf_tests b F name ((i, sz) # ts) s = do {
     let s = bash_sleep b 1000 s;
     let s = print (''Starting Test['' @ dec i @ ''] - Read '' @ dec sz @ ''B from SDCARD'' @ CRLF) s;
     s \<leftarrow> on_vol (f_open F name FA_READ) s;
     if bash_rc (usr s) \<noteq> FR_OK then Some s
     else do {
       let s = on_hw (PERF_BEGIN b PERF_CNTR_BASE i) s;
       (rc, bs, v) \<leftarrow> f_read F sz (vol (usr s));
       let s = on_hw (PERF_END b PERF_CNTR_BASE i) (set_rc rc v s);
       if rc \<noteq> FR_OK \<or> bs = [] then Some s
       else do {
         s \<leftarrow> on_vol (f_close F) s;
         if bash_rc (usr s) \<noteq> FR_OK then Some s else perf_tests b F name ts s } } }"

text \<open>The report printed at the end, by the counter's driver, is left out.\<close>

definition cmd_perf :: "'d bus \<Rightarrow> 'f fatfs \<Rightarrow> ('f, 'd) bash_cmd" where
  "cmd_perf b F argv s =
     (if length argv \<noteq> 1 \<or> is_help (argv ! 0) then Inr (usage ''perf <filename>'' s)
      else blocks (do {
        let s = print (''Reseting Performance Counter ...'' @ CRLF) s;
        let s = on_hw (PERF_RESET b PERF_CNTR_BASE) s;
        let s = bash_sleep b 3000 s;
        let s = print (''Starting Performance Counter ...'' @ CRLF) s;
        let s = on_hw (PERF_START_MEASURING b PERF_CNTR_BASE) s;
        s \<leftarrow> perf_tests b F (argv ! 0) [(1, BASH_BUFF_SIZE div 4), (2, BASH_BUFF_SIZE div 2), (3, BASH_BUFF_SIZE)] s;
        let s = bash_sleep b 1000 s;
        let s = print (''Stopping Performance Counter ...'' @ CRLF) s;
        let s = on_hw (PERF_STOP_MEASURING b PERF_CNTR_BASE) s;
        let s = bash_sleep b 3000 s;
        Some (report s) }))"

subsection \<open>Plugins\<close>

text \<open>Returns TRUE when there is no plugin of that name.\<close>

fun update_acid :: "Acid list \<Rightarrow> string \<Rightarrow> ('f, 'd) bash_st \<Rightarrow> bool \<times> ('f, 'd) bash_st" where
  "update_acid [] name s = (True, s)"
| "update_acid ((acid_name, acid_function) # ad) name s =
     (if strcaseeq acid_name name
      then (False, s\<lparr>current_acid := Some acid_function, current_acid_str := acid_name\<rparr>)
      else update_acid ad name s)"

text \<open>
  The argument check and plugin selection of \<^verbatim>\<open>cmd_drop_acid\<close>, up to the start of the engines:
  \<open>Inl\<close> when the command ends here. With no argument the code compares the null pointer in
  \<^verbatim>\<open>argv[0]\<close> with \<^verbatim>\<open>"--help"\<close>.
\<close>

definition drop_acid_select ::
  "string list \<Rightarrow> ('f, 'd) bash_st shell_st \<Rightarrow> shell_stop + (('f, 'd) bash_st shell_st + ('f, 'd) bash_st shell_st)" where
  "drop_acid_select argv s =
     (if length argv > 1 then Inr (Inl (usage ''drop_acid <plugin_name>'' s))
      else if argv = [] then Inl NullDeref
      else if is_help (argv ! 0) then Inr (Inl (usage ''drop_acid <plugin_name>'' s))
      else let (missing, u) = update_acid get_acid_box (argv ! 0) (usr s)
           in if missing then Inr (Inl (print (''Plugin <'' @ argv ! 0 @ ''> not found ... Bummer man :-('' @ CRLF) s))
              else Inr (Inr (s\<lparr>usr := u\<rparr>)))"

text \<open>The engines on and off, around a visualisation.\<close>

definition start_engines :: "'d bus \<Rightarrow> 'd \<Rightarrow> 'd" where
  "start_engines b d =
     enable_adc_drvr b CORTEX_MM_SL_BASE (enable_fgyrus b CORTEX_MM_SL_BASE RCHNL (enable_fgyrus b CORTEX_MM_SL_BASE LCHNL d))"

definition stop_engines :: "'d bus \<Rightarrow> 'd \<Rightarrow> 'd" where
  "stop_engines b d =
     disable_adc_drvr b CORTEX_MM_SL_BASE (disable_fgyrus b CORTEX_MM_SL_BASE RCHNL (disable_fgyrus b CORTEX_MM_SL_BASE LCHNL d))"

text \<open>One frame of \<^verbatim>\<open>acid_thread\<close>, with the plugin that is selected at that moment.\<close>

definition acid_frame ::
  "'d bus \<Rightarrow> acid_t \<Rightarrow> ((u32 list \<times> u32 list) \<times> u16 list) \<times> 'd \<Rightarrow> ((u32 list \<times> u32 list) \<times> u16 list) \<times> 'd" where
  "acid_frame b acid s =
     (let ((ffts, pwm), d) = s;
          ((lfft, rfft), d) = read_fft_cache b FFT_NUM_SAMPLES (ffts, d);
          pwm = acid lfft rfft pwm;
          d = pwm_paint b CORTEX_MM_SL_BASE pwm d
      in (((lfft, rfft), pwm), sleep_ms b 1 d))"


text \<open>\<^verbatim>\<open>init_bash\<close>: the volume's work area and the performance counter.\<close>

definition init_bash :: "'d bus \<Rightarrow> 'f fatfs \<Rightarrow> ('f, 'd) bash_st shell_st \<Rightarrow> ('f, 'd) bash_st shell_st" where
  "init_bash b F s =
     (let s = s\<lparr>usr := (usr s)\<lparr>vol := f_mount F (vol (usr s))\<rparr>\<rparr>;
          s = print (''Registered Bash-FATFs - fmount() done'' @ CRLF) s;
          s = on_hw (PERF_RESET b PERF_CNTR_BASE) s
      in print (''Reset Performance Counter [0x'' @ hex (unat PERF_CNTR_BASE) @ '']'' @ CRLF) s)"

subsection \<open>Showing a file\<close>

text \<open>
  Reading through a file: in the states \<open>good\<close> a read gives the next bytes of \<open>rest\<close> and stays
  in such a state.
\<close>

lemma cat_loop_reads:
  assumes read: "\<And>v. good v \<Longrightarrow> \<exists>w. f_read F BASH_BUFF_SIZE v = Some (FR_OK, take BASH_BUFF_SIZE (rest v), w) \<and>
      good w \<and> rest w = drop BASH_BUFF_SIZE (rest v)"
    and shw: "\<And>xs ys. shw (xs @ ys) = shw xs @ shw ys" "shw [] = []"
  shows "good v \<Longrightarrow> \<exists>v'. cat_loop F shw v out = Some (FR_OK, v', out @ shw (rest v)) \<and> good v'"
proof (induction "length (rest v)" arbitrary: v out rule: less_induct)
  case less
  obtain w where w: "f_read F BASH_BUFF_SIZE v = Some (FR_OK, take BASH_BUFF_SIZE (rest v), w)" "good w" "rest w = drop BASH_BUFF_SIZE (rest v)"
    using read [OF less.prems] by blast
  show ?case
  proof (cases "rest v = []")
    case True
    with w show ?thesis by (subst cat_loop.simps) (simp add: shw)
  next
    case False
    then have "length (rest w) < length (rest v)" by (simp add: w(3) BASH_BUFF_SIZE_def)
    from less.hyps [OF this w(2), of "out @ shw (take BASH_BUFF_SIZE (rest v))"] w False show ?thesis
      by (subst cat_loop.simps) (simp add: BASH_BUFF_SIZE_def shw(1) [symmetric])
  qed
qed

lemma show_text_parts: "show_text (xs @ ys) = show_text xs @ show_text ys" "show_text [] = []"
  by (simp_all add: show_text_def)

text \<open>A state of the shell before the first command.\<close>

definition bash0 :: "(u8 list, unit) bash_st shell_st" where
  "bash0 = \<lparr>inp = [], outp = [], line = [], slept = 0,
     usr = \<lparr>vol = [104, 105], hw = (), bash_rc = FR_OK, current_acid = None, current_acid_str = []\<rparr>\<rparr>"

text \<open>
  Selecting a plugin by name. The command \<open>drop_acid\<close> with one argument goes on exactly when
  the argument is the name of a plugin, up to case, and then that plugin is the current one;
  otherwise nothing changes. With no argument the code compares a null pointer.
\<close>

theorem drop_acid_selects:
  "drop_acid_select [] s = Inl NullDeref
   \<and> (\<not> is_help name \<longrightarrow> drop_acid_select [name] s =
       (if strcaseeq ''sunshine'' name
        then Inr (Inr (s\<lparr>usr := (usr s)\<lparr>current_acid := Some acid_sunshine, current_acid_str := ''sunshine''\<rparr>\<rparr>))
        else Inr (Inl (print (''Plugin <'' @ name @ ''> not found ... Bummer man :-('' @ CRLF) s))))"
  by (simp add: drop_acid_select_def get_acid_box_def acid_box_def)

theorem drop_acid_selects_witness:
  "drop_acid_select [''SunShine''] bash0 =
     Inr (Inr (bash0\<lparr>usr := (usr bash0)\<lparr>current_acid := Some acid_sunshine, current_acid_str := ''sunshine''\<rparr>\<rparr>))"
proof -
  have "\<not> is_help ''SunShine''" "strcaseeq ''sunshine'' ''SunShine''"
    by code_simp+
  then show ?thesis using drop_acid_selects [of bash0 "''SunShine''"] by simp
qed

end
