(* ===== verification/I2c_Frame.thy ===== *)
theory I2c_Frame
  imports Prelude
begin

text \<open>
  The bits of an I2C write as a receiver sees them: the level of the data line in the middle of each
  clock pulse, from the start condition to the stop condition.
\<close>

definition byte_bits :: "u8 \<Rightarrow> bool list" where
  "byte_bits v = map (\<lambda>i. bit v (7 - i)) [0..<8]"

text \<open>
  The line is low under the start condition; then each byte, most significant bit first, with the
  level the receiver gave in the ninth pulse, low for an acknowledge; then low before the stop
  condition. There are as many bytes as there are answers.
\<close>

definition i2c_frame :: "u8 \<Rightarrow> u16 \<Rightarrow> bool list \<Rightarrow> bool list" where
  "i2c_frame a w acks =
     [False] @ concat (map2 (\<lambda>v x. byte_bits v @ [x]) [a, ucast (drop_bit 8 w), ucast w] acks) @ [False]"

text \<open>A write ends with its first byte that is not acknowledged, or with its third.\<close>

definition complete :: "bool list \<Rightarrow> bool" where
  "complete acks \<longleftrightarrow> acks \<in> {[True], [False, True], [False, False, True], [False, False, False]}"

definition acked :: "bool list" where
  "acked = [False, False, False]"

lemma complete_acked: "complete acks \<Longrightarrow> True \<in> set acks \<longleftrightarrow> acks \<noteq> acked"
  by (auto simp: complete_def acked_def)

text \<open>
  What a master shows after the write \<open>aw\<close>: the frame for some answers, each a level the data line had,
  and the missing acknowledge in its status.
\<close>

definition said :: "bool set \<Rightarrow> u8 \<times> u16 \<Rightarrow> bool \<Rightarrow> bool list \<Rightarrow> bool" where
  "said S aw nk bs \<longleftrightarrow> (\<exists>acks. complete acks \<and> set acks \<subseteq> S \<and> bs = i2c_frame (fst aw) (snd aw) acks \<and> (nk \<longleftrightarrow> True \<in> set acks))"

subsection \<open>A log of frames\<close>

text \<open>Bits are added to the last entry of the log.\<close>

definition log_bits :: "bool list \<Rightarrow> bool list list \<Rightarrow> bool list list" where
  "log_bits xs L = (if L = [] then [] else butlast L @ [last L @ xs])"

definition log_grows :: "bool list list \<Rightarrow> bool list list \<Rightarrow> bool" where
  "log_grows L L' \<longleftrightarrow> length L' = length L \<and> butlast L' = butlast L"

lemma log_grows_refl [simp]: "log_grows L L"
  by (simp add: log_grows_def)

lemma log_grows_trans: "log_grows L M \<Longrightarrow> log_grows M N \<Longrightarrow> log_grows L N"
  by (simp add: log_grows_def)

lemma log_bits_none [simp]: "log_bits [] L = L"
  by (simp add: log_bits_def)

lemma log_bits_grow: "log_grows L (log_bits xs L)"
  by (simp add: log_grows_def log_bits_def)

lemma log_bits_last: "L \<noteq> [] \<Longrightarrow> log_bits xs L \<noteq> [] \<and> last (log_bits xs L) = last L @ xs"
  by (simp add: log_bits_def)

lemma log_grows_snoc: "log_grows (X @ [x]) L \<Longrightarrow> \<exists>y. L = X @ [y]"
  by (cases L rule: rev_cases) (auto simp: log_grows_def)

end
