(* ===== verification/I2c_Master.thy ===== *)
theory I2c_Master
  imports I2c_Frame
begin

text \<open>
  The I2C master of the hardware, \<^verbatim>\<open>dgn/rtl/audio_cortex/i2c_master.v\<close>, one clock edge at a
  time. Every non-blocking assignment reads the registers before the edge. The signals \<open>wr_en\<close>,
  \<open>lb_addr\<close> and \<open>wr_data\<close> are the local bus, \<open>sda\<close> is the level of the data line when the
  master has released it.
\<close>

subsection \<open>Registers\<close>

datatype i2c_fsm = IDLE_S | START_S | ADDR_S | DATA_0_S | DATA_1_S | STOP_S

record i2c_master =
  addr_f :: u8
  data_f :: u16
  clk_div_val_f :: u8
  i2c_prd_cntr_f :: u8
  bit_idx_f :: "4 word"
  sdo_f :: bool
  i2c_scl_od :: bool
  nack_detected_f :: bool
  fsm_pstate :: i2c_fsm

definition i2c_reset :: i2c_master where
  "i2c_reset = \<lparr>addr_f = 0, data_f = 0, clk_div_val_f = 0, i2c_prd_cntr_f = 0, bit_idx_f = 0,
     sdo_f = True, i2c_scl_od = True, nack_detected_f = False, fsm_pstate = IDLE_S\<rparr>"

subsection \<open>Combinational signals\<close>

definition fsm_idle_c :: "i2c_master \<Rightarrow> bool" where
  "fsm_idle_c m \<longleftrightarrow> fsm_pstate m = IDLE_S"

definition wrap_prd_cntr_c :: "i2c_master \<Rightarrow> bool" where
  "wrap_prd_cntr_c m \<longleftrightarrow> i2c_prd_cntr_f m = clk_div_val_f m"

definition i2c_prd_by_4_tick_c :: "i2c_master \<Rightarrow> bool" where
  "i2c_prd_by_4_tick_c m \<longleftrightarrow> take_bit 6 (i2c_prd_cntr_f m) = drop_bit 2 (clk_div_val_f m)"

definition i2c_prd_by_2_tick_c :: "i2c_master \<Rightarrow> bool" where
  "i2c_prd_by_2_tick_c m \<longleftrightarrow> take_bit 7 (i2c_prd_cntr_f m) = drop_bit 1 (clk_div_val_f m)"

definition start_i2c_xtn_c :: "bool \<Rightarrow> u8 \<Rightarrow> bool" where
  "start_i2c_xtn_c wr_en lb_addr \<longleftrightarrow> lb_addr = 0x00 \<and> wr_en"

definition sda_io :: "bool \<Rightarrow> i2c_master \<Rightarrow> bool" where
  "sda_io sda m = (if bit (bit_idx_f m) 3 then sda else sdo_f m)"

definition sample_data_c :: "i2c_master \<Rightarrow> bool" where
  "sample_data_c m \<longleftrightarrow> bit (addr_f m) 0 \<and> (fsm_pstate m = DATA_0_S \<or> fsm_pstate m = DATA_1_S)
     \<and> i2c_prd_by_2_tick_c m \<and> i2c_scl_od m"

definition bit_sample_idx_c :: "i2c_master \<Rightarrow> nat" where
  "bit_sample_idx_c m = (if fsm_pstate m = DATA_0_S then 8 else 0) + unat (take_bit 3 (bit_idx_f m))"

text \<open>Bit \<open>i\<close> of the bit-reversed address and data bytes: the most significant bit goes first.\<close>

definition shift_bit :: "u16 \<Rightarrow> nat \<Rightarrow> i2c_master \<Rightarrow> bool" where
  "shift_bit v hi m = bit v (hi - unat (take_bit 3 (bit_idx_f m)))"

subsection \<open>State machine\<close>

definition next_state :: "bool \<Rightarrow> i2c_master \<Rightarrow> i2c_fsm" where
  "next_state start m =
     (case fsm_pstate m of
        IDLE_S \<Rightarrow> if start then START_S else IDLE_S
      | START_S \<Rightarrow> if wrap_prd_cntr_c m then ADDR_S else START_S
      | ADDR_S \<Rightarrow> if bit (bit_idx_f m) 3 \<and> wrap_prd_cntr_c m
                  then if nack_detected_f m then STOP_S else DATA_0_S else ADDR_S
      | DATA_0_S \<Rightarrow> if bit (bit_idx_f m) 3 \<and> wrap_prd_cntr_c m
                  then if nack_detected_f m then STOP_S else DATA_1_S else DATA_0_S
      | DATA_1_S \<Rightarrow> if bit (bit_idx_f m) 3 \<and> wrap_prd_cntr_c m then STOP_S else DATA_1_S
      | STOP_S \<Rightarrow> if wrap_prd_cntr_c m then IDLE_S else STOP_S)"

definition next_bit_idx :: "i2c_master \<Rightarrow> 4 word" where
  "next_bit_idx m =
     (if fsm_pstate m = ADDR_S \<or> fsm_pstate m = DATA_0_S \<or> fsm_pstate m = DATA_1_S
      then if bit (bit_idx_f m) 3 \<and> wrap_prd_cntr_c m then 0
           else bit_idx_f m + (if wrap_prd_cntr_c m then 1 else 0)
      else 0)"

definition next_scl :: "i2c_master \<Rightarrow> bool" where
  "next_scl m =
     (case fsm_pstate m of
        IDLE_S \<Rightarrow> True
      | START_S \<Rightarrow> i2c_scl_od m \<and> \<not> i2c_prd_by_2_tick_c m
      | STOP_S \<Rightarrow> True
      | _ \<Rightarrow> if i2c_scl_od m then i2c_prd_by_2_tick_c m \<or> \<not> i2c_prd_by_4_tick_c m else i2c_prd_by_4_tick_c m)"

definition next_sdo :: "i2c_master \<Rightarrow> bool" where
  "next_sdo m =
     (case fsm_pstate m of
        IDLE_S \<Rightarrow> True
      | START_S \<Rightarrow> False
      | ADDR_S \<Rightarrow> \<not> bit (bit_idx_f m) 3 \<and> shift_bit (ucast (addr_f m)) 7 m
      | DATA_0_S \<Rightarrow> \<not> bit (bit_idx_f m) 3 \<and> shift_bit (data_f m) 15 m
      | DATA_1_S \<Rightarrow> \<not> bit (bit_idx_f m) 3 \<and> shift_bit (data_f m) 7 m
      | STOP_S \<Rightarrow> sdo_f m \<or> i2c_prd_by_2_tick_c m)"

text \<open>
  A sampled bit lands at position \<open>7 - bit_sample_idx_c\<close>; for the first data byte that position
  is negative, outside the register, and nothing is written.
\<close>

definition sample_into :: "bool \<Rightarrow> i2c_master \<Rightarrow> u16" where
  "sample_into sda m =
     (if sample_data_c m \<and> bit_sample_idx_c m \<le> 7
      then if sda_io sda m then set_bit (7 - bit_sample_idx_c m) (data_f m)
           else unset_bit (7 - bit_sample_idx_c m) (data_f m)
      else data_f m)"

definition i2c_edge :: "bool \<Rightarrow> u8 \<Rightarrow> u16 \<Rightarrow> bool \<Rightarrow> i2c_master \<Rightarrow> i2c_master" where
  "i2c_edge wr_en lb_addr wr_data sda m =
     \<lparr>addr_f = (if wr_en \<and> lb_addr = 0x01 then ucast wr_data else addr_f m),
      data_f = (if wr_en then if lb_addr = 0x02 then wr_data else data_f m else sample_into sda m),
      clk_div_val_f = (if wr_en \<and> lb_addr = 0x03 then ucast wr_data else clk_div_val_f m),
      i2c_prd_cntr_f = (if fsm_idle_c m \<or> wrap_prd_cntr_c m then 0 else i2c_prd_cntr_f m + 1),
      bit_idx_f = next_bit_idx m,
      sdo_f = next_sdo m,
      i2c_scl_od = next_scl m,
      nack_detected_f = (if nack_detected_f m then \<not> start_i2c_xtn_c wr_en lb_addr
         else bit (bit_idx_f m) 3 \<and> i2c_scl_od m \<and> i2c_prd_by_2_tick_c m \<and> sda_io sda m),
      fsm_pstate = next_state (start_i2c_xtn_c wr_en lb_addr) m\<rparr>"

text \<open>The status register as the bus reads it: acknowledge missing in bit 1, busy in bit 0.\<close>

definition i2c_status :: "i2c_master \<Rightarrow> u16" where
  "i2c_status m = (if nack_detected_f m then 2 else 0) OR (if fsm_idle_c m then 0 else 1)"

definition i2c_lb_read :: "u8 \<Rightarrow> i2c_master \<Rightarrow> u16" where
  "i2c_lb_read lb_addr m =
     (if lb_addr = 0x00 then i2c_status m
      else if lb_addr = 0x01 then ucast (addr_f m)
      else if lb_addr = 0x02 then data_f m
      else if lb_addr = 0x03 then ucast (clk_div_val_f m)
      else 0xdead)"

subsection \<open>Invariant and progress\<close>

text \<open>
  The bit counter runs from 0 to 8 in the byte states and is 0 outside them, so the
  acknowledge is sampled in the ninth bit of a byte only.
\<close>

definition i2c_inv :: "i2c_master \<Rightarrow> bool" where
  "i2c_inv m \<longleftrightarrow> bit_idx_f m \<le> 8 \<and>
     (fsm_pstate m = IDLE_S \<or> fsm_pstate m = START_S \<or> fsm_pstate m = STOP_S \<longrightarrow> bit_idx_f m = 0)"

text \<open>How many clock edges the transaction can still take, at most.\<close>

definition phase_rank :: "i2c_fsm \<Rightarrow> nat" where
  "phase_rank s = (case s of IDLE_S \<Rightarrow> 0 | STOP_S \<Rightarrow> 1 | DATA_1_S \<Rightarrow> 2 | DATA_0_S \<Rightarrow> 3 | ADDR_S \<Rightarrow> 4 | START_S \<Rightarrow> 5)"

definition i2c_rank :: "i2c_master \<Rightarrow> nat" where
  "i2c_rank m =
     (if fsm_idle_c m then 0
      else phase_rank (fsm_pstate m) * 2560 + (8 - unat (bit_idx_f m)) * 256
         + unat (clk_div_val_f m - i2c_prd_cntr_f m))"

lemma le8_cases:
  assumes "(w :: 4 word) \<le> 8"
  shows "w = 0 \<or> w = 1 \<or> w = 2 \<or> w = 3 \<or> w = 4 \<or> w = 5 \<or> w = 6 \<or> w = 7 \<or> w = 8"
proof -
  have "unat w \<in> {0, 1, 2, 3, 4, 5, 6, 7, 8}" using assms by (auto simp: word_le_nat_alt)
  then have "of_nat (unat w) \<in> (of_nat ` {0, 1, 2, 3, 4, 5, 6, 7, 8} :: 4 word set)" by (rule imageI)
  then show ?thesis by simp
qed

lemma bit3_le8: "(w :: 4 word) \<le> 8 \<Longrightarrow> bit w 3 \<longleftrightarrow> w = 8"
  by (auto dest!: le8_cases)

lemma inc_le8: "(w :: 4 word) \<le> 8 \<Longrightarrow> w \<noteq> 8 \<Longrightarrow> w + 1 \<le> 8 \<and> unat (w + 1) = unat w + 1 \<and> unat w < 8"
  by (drule le8_cases) (elim disjE, simp_all)

lemma i2c_edge_inv: "i2c_inv m \<Longrightarrow> i2c_inv (i2c_edge wr_en lb_addr wr_data sda m)"
  unfolding i2c_inv_def i2c_edge_def next_state_def next_bit_idx_def
  by (cases "fsm_pstate m") (auto simp: bit3_le8 inc_le8)

text \<open>The distance of the period counter to its wrap-around shrinks with every edge.\<close>

lemma dist_dec: "(c :: u8) \<noteq> v \<Longrightarrow> unat (v - (c + 1)) < unat (v - c)"
proof -
  assume "c \<noteq> v"
  then have "v - c \<noteq> 0" by simp
  then have "unat (v - c - 1) = unat (v - c) - 1" "unat (v - c) \<noteq> 0"
    by (simp_all add: unat_minus_one unat_eq_0)
  then show ?thesis by (simp add: algebra_simps)
qed

lemma u8_lt: "unat (x :: u8) < 256"
  by (rule order_less_le_trans [OF unsigned_less]) simp

lemma i2c_edge_progress:
  assumes inv: "i2c_inv m" and busy: "\<not> fsm_idle_c m" and clk: "\<not> (wr_en \<and> lb_addr = 0x03)"
  shows "i2c_rank (i2c_edge wr_en lb_addr wr_data sda m) < i2c_rank m"
proof (cases "wrap_prd_cntr_c m")
  case False
  then have d: "unat (clk_div_val_f m - (i2c_prd_cntr_f m + 1)) < unat (clk_div_val_f m - i2c_prd_cntr_f m)"
    by (intro dist_dec) (simp add: wrap_prd_cntr_c_def)
  have "next_bit_idx m = bit_idx_f m"
    using False inv by (auto simp: next_bit_idx_def i2c_inv_def) (metis i2c_fsm.exhaust busy fsm_idle_c_def)
  with False d busy clk show ?thesis
    by (auto simp: i2c_rank_def i2c_edge_def next_state_def fsm_idle_c_def split: i2c_fsm.splits)
next
  case True
  have z: "unat (clk_div_val_f m - 0) < 256" by (rule u8_lt)
  have b8: "unat (bit_idx_f m) \<le> 8" using inv by (auto simp: i2c_inv_def word_le_nat_alt)
  have "fsm_pstate m \<noteq> IDLE_S" using busy by (simp add: fsm_idle_c_def)
  then show ?thesis
    using True z b8 inv inc_le8 [of "bit_idx_f m"] clk
    by (cases "fsm_pstate m"; cases "bit_idx_f m = 8")
       (auto simp: i2c_rank_def i2c_edge_def next_state_def next_bit_idx_def fsm_idle_c_def
                   phase_rank_def i2c_inv_def bit3_le8)
qed

lemma i2c_edge_idle:
  assumes "i2c_inv m" and "fsm_idle_c m" and "\<not> start_i2c_xtn_c wr_en lb_addr"
  shows "fsm_idle_c (i2c_edge wr_en lb_addr wr_data sda m)
    \<and> nack_detected_f (i2c_edge wr_en lb_addr wr_data sda m) = nack_detected_f m"
  using assms by (auto simp: i2c_edge_def next_state_def fsm_idle_c_def i2c_inv_def)

lemma i2c_rank_idle [simp]: "fsm_idle_c m \<Longrightarrow> i2c_rank m = 0"
  by (simp add: i2c_rank_def)

subsection \<open>What a transaction puts on the wire\<close>

text \<open>The level of the data line, in the middle of a clock pulse of a running transaction.\<close>

definition sda_mid :: "bool \<Rightarrow> i2c_master \<Rightarrow> bool list" where
  "sda_mid sda m = (if \<not> fsm_idle_c m \<and> i2c_scl_od m \<and> i2c_prd_by_2_tick_c m then [sda_io sda m] else [])"

text \<open>The byte a state sends, and what was on the wire before it.\<close>

fun byte_of :: "i2c_fsm \<Rightarrow> u8 \<Rightarrow> u16 \<Rightarrow> u8" where
  "byte_of DATA_0_S a w = ucast (drop_bit 8 w)"
| "byte_of DATA_1_S a w = ucast w"
| "byte_of _ a w = a"

fun bits_before :: "i2c_fsm \<Rightarrow> u8 \<Rightarrow> u16 \<Rightarrow> bool list" where
  "bits_before DATA_0_S a w = [False] @ byte_bits a @ [False]"
| "bits_before DATA_1_S a w = [False] @ byte_bits a @ [False] @ byte_bits (ucast (drop_bit 8 w)) @ [False]"
| "bits_before _ a w = [False]"

text \<open>
  The registers of a master with a clock divider of 100 in the course of the write of \<open>w\<close> to \<open>a\<close>, when \<open>bs\<close> has
  been on the wire: \<open>c\<close> counts through a clock period, high between 25 and 89, and \<open>i\<close> the bits of a byte.
\<close>

definition byte_phase :: "bool set \<Rightarrow> i2c_master \<Rightarrow> u8 \<Rightarrow> u16 \<Rightarrow> bool list \<Rightarrow> bool" where
  "byte_phase S m a w bs \<longleftrightarrow>
     (let c = unat (i2c_prd_cntr_f m); i = unat (bit_idx_f m); v = byte_of (fsm_pstate m) a w; p = bits_before (fsm_pstate m) a w
      in c \<le> 100 \<and> i \<le> 8 \<and> (i2c_scl_od m \<longleftrightarrow> 25 < c \<and> c \<le> 89) \<and> (fsm_pstate m \<noteq> ADDR_S \<longrightarrow> False \<in> S) \<and>
         (if i < 8 then \<not> nack_detected_f m \<and> (0 < c \<longrightarrow> sdo_f m = bit v (7 - i)) \<and>
            bs = p @ take (if 50 < c then Suc i else i) (byte_bits v)
          else if 50 < c then nack_detected_f m \<in> S \<and> bs = p @ byte_bits v @ [nack_detected_f m]
          else \<not> nack_detected_f m \<and> bs = p @ byte_bits v))"

definition xtn :: "bool set \<Rightarrow> i2c_master \<Rightarrow> u8 \<Rightarrow> u16 \<Rightarrow> bool list \<Rightarrow> bool" where
  "xtn S m a w bs \<longleftrightarrow> addr_f m = a \<and> data_f m = w \<and> clk_div_val_f m = 100 \<and> \<not> bit a 0 \<and>
     (let c = unat (i2c_prd_cntr_f m)
      in case fsm_pstate m of
           IDLE_S \<Rightarrow> bit_idx_f m = 0 \<and> said S (a, w) (nack_detected_f m) bs
         | START_S \<Rightarrow> bit_idx_f m = 0 \<and> c \<le> 100 \<and> \<not> nack_detected_f m \<and> (i2c_scl_od m \<longleftrightarrow> c \<le> 50) \<and> (sdo_f m \<longleftrightarrow> c = 0) \<and>
             bs = (if 50 < c then [False] else [])
         | STOP_S \<Rightarrow> bit_idx_f m = 0 \<and> c \<le> 100 \<and> (0 < c \<longrightarrow> i2c_scl_od m) \<and> (sdo_f m \<longleftrightarrow> 50 < c) \<and>
             said S (a, w) (nack_detected_f m) (if 50 < c then bs else bs @ [False])
         | _ \<Rightarrow> byte_phase S m a w bs)"

lemma ticks:
  assumes "clk_div_val_f m = 100" "unat (i2c_prd_cntr_f m) \<le> 100"
  shows "wrap_prd_cntr_c m \<longleftrightarrow> unat (i2c_prd_cntr_f m) = 100"
    "i2c_prd_by_2_tick_c m \<longleftrightarrow> unat (i2c_prd_cntr_f m) = 50"
    "i2c_prd_by_4_tick_c m \<longleftrightarrow> unat (i2c_prd_cntr_f m) = 25 \<or> unat (i2c_prd_cntr_f m) = 89"
    "unat (i2c_prd_cntr_f m) \<noteq> 100 \<Longrightarrow> unat (i2c_prd_cntr_f m + 1) = Suc (unat (i2c_prd_cntr_f m))"
proof -
  let ?c = "i2c_prd_cntr_f m"
  show "wrap_prd_cntr_c m \<longleftrightarrow> unat ?c = 100" using assms(1) by (simp add: wrap_prd_cntr_c_def word_unat_eq_iff)
  have "unat (take_bit 7 ?c) = unat ?c" using assms(2) by (simp add: unsigned_take_bit_eq take_bit_nat_eq_self)
  moreover have "unat (drop_bit 1 (clk_div_val_f m)) = 50" unfolding assms(1) by simp
  ultimately show "i2c_prd_by_2_tick_c m \<longleftrightarrow> unat ?c = 50" by (simp only: i2c_prd_by_2_tick_c_def word_unat_eq_iff)
  have "unat (take_bit 6 ?c) = unat ?c mod 64" by (rule trans [OF unsigned_take_bit_eq]) (simp add: take_bit_eq_mod)
  moreover have "unat ?c mod 64 = 25 \<longleftrightarrow> unat ?c = 25 \<or> unat ?c = 89" using assms(2) by (cases "unat ?c < 64") (simp_all add: mod_if, linarith)
  moreover have "unat (drop_bit 2 (clk_div_val_f m)) = 25" unfolding assms(1) by simp
  ultimately show "i2c_prd_by_4_tick_c m \<longleftrightarrow> unat ?c = 25 \<or> unat ?c = 89" by (simp only: i2c_prd_by_4_tick_c_def word_unat_eq_iff)
  show "unat ?c \<noteq> 100 \<Longrightarrow> unat (?c + 1) = Suc (unat ?c)" using assms(2) by (simp add: unat_word_ariths)
qed


text \<open>The start of a transaction.\<close>

lemma xtn_start:
  assumes "i2c_inv m" "fsm_idle_c m" "clk_div_val_f m = 100" "\<not> bit (addr_f m) 0"
  shows "xtn S (i2c_edge True 0 w sda m) (addr_f m) (data_f m) []"
  using assms by (simp add: xtn_def i2c_edge_def fsm_idle_c_def i2c_inv_def next_state_def next_bit_idx_def next_scl_def next_sdo_def
      start_i2c_xtn_c_def)

lemma idx_steps:
  assumes "unat (i :: 4 word) \<le> 8"
  shows "bit i 3 \<longleftrightarrow> unat i = 8" "unat i < 8 \<Longrightarrow> unat (i + 1) = Suc (unat i)" "unat i < 8 \<Longrightarrow> unat (take_bit 3 i) = unat i"
proof -
  have le: "i \<le> 8" using assms by (simp add: word_le_nat_alt)
  from le8_cases [OF this] show "bit i 3 \<longleftrightarrow> unat i = 8" "unat i < 8 \<Longrightarrow> unat (i + 1) = Suc (unat i)" "unat i < 8 \<Longrightarrow> unat (take_bit 3 i) = unat i"
    by (elim disjE; simp)+
qed

lemma byte_bits_length [simp]: "length (byte_bits v) = 8"
  by (simp add: byte_bits_def)

lemma byte_bits_take: "i < 8 \<Longrightarrow> take (Suc i) (byte_bits v) = take i (byte_bits v) @ [bit v (7 - i)]"
  by (simp add: take_Suc_conv_app_nth byte_bits_def)

text \<open>The bit a state shifts out.\<close>

lemma sdo_bit:
  assumes "unat (bit_idx_f m) < 8" "fsm_pstate m \<in> {ADDR_S, DATA_0_S, DATA_1_S}"
  shows "next_sdo m = bit (byte_of (fsm_pstate m) (addr_f m) (data_f m)) (7 - unat (bit_idx_f m))"
  using assms idx_steps [of "bit_idx_f m"]
  by (auto simp: next_sdo_def shift_bit_def bit_ucast_iff bit_drop_bit_eq)

lemma take_all_bits [simp]: "take 8 (byte_bits v) = byte_bits v"
  by simp

lemma edge_sel [simp]:
  "addr_f (i2c_edge False la wd sda m) = addr_f m" "data_f (i2c_edge False la wd sda m) = sample_into sda m"
  "clk_div_val_f (i2c_edge False la wd sda m) = clk_div_val_f m"
  "i2c_prd_cntr_f (i2c_edge False la wd sda m) = (if fsm_idle_c m \<or> wrap_prd_cntr_c m then 0 else i2c_prd_cntr_f m + 1)"
  "bit_idx_f (i2c_edge we la wd sda m) = next_bit_idx m" "sdo_f (i2c_edge we la wd sda m) = next_sdo m"
  "i2c_scl_od (i2c_edge we la wd sda m) = next_scl m"
  "nack_detected_f (i2c_edge False la wd sda m) \<longleftrightarrow>
     nack_detected_f m \<or> bit (bit_idx_f m) 3 \<and> i2c_scl_od m \<and> i2c_prd_by_2_tick_c m \<and> sda_io sda m"
  "fsm_pstate (i2c_edge False la wd sda m) = next_state False m"
  by (simp_all add: i2c_edge_def start_i2c_xtn_c_def)

text \<open>Inside a byte: the clock period goes on, or the next bit starts.\<close>

lemma byte_within:
  assumes b: "byte_phase S m a w bs" and s: "fsm_pstate m \<in> {ADDR_S, DATA_0_S, DATA_1_S}" and r: "addr_f m = a" "data_f m = w" "clk_div_val_f m = 100"
    and sda: "sda \<in> S" and n: "unat (i2c_prd_cntr_f m) \<noteq> 100 \<or> unat (bit_idx_f m) < 8"
  shows "fsm_pstate (i2c_edge False la wd sda m) = fsm_pstate m \<and> byte_phase S (i2c_edge False la wd sda m) a w (bs @ sda_mid sda m)"
proof -
  let ?c = "unat (i2c_prd_cntr_f m)" and ?i = "unat (bit_idx_f m)" and ?m = "i2c_edge False la wd sda m" and ?v = "byte_of (fsm_pstate m) a w"
  have c: "?c \<le> 100" and i: "?i \<le> 8" and scl: "i2c_scl_od m \<longleftrightarrow> 25 < ?c \<and> ?c \<le> 89" and z: "fsm_pstate m \<noteq> ADDR_S \<longrightarrow> False \<in> S" using b by (simp_all add: byte_phase_def Let_def)
  note t = ticks [OF r(3) c] and ix = idx_steps [OF i]
  have st: "fsm_pstate ?m = fsm_pstate m" using s n ix(1) t(1) by (auto simp: next_state_def)
  have busy: "\<not> fsm_idle_c m" using s by (auto simp: fsm_idle_c_def)
  have idx: "unat (bit_idx_f ?m) = (if ?c = 100 then Suc ?i else ?i)" using s n ix(1,2) t(1) by (auto simp: next_bit_idx_def)
  have cnt: "unat (i2c_prd_cntr_f ?m) = (if ?c = 100 then 0 else Suc ?c)" using busy t(1,4) by simp
  have scl': "i2c_scl_od ?m \<longleftrightarrow> 25 \<le> ?c \<and> ?c < 89" using s t(2,3) scl c by (auto simp: next_scl_def)
  have mid: "sda_mid sda m = (if ?c = 50 then [if ?i = 8 then sda else sdo_f m] else [])" using busy scl t(2) ix(1) by (auto simp: sda_mid_def sda_io_def)
  have nk: "nack_detected_f ?m \<longleftrightarrow> nack_detected_f m \<or> ?i = 8 \<and> ?c = 50 \<and> sda" using ix(1) t(2) scl by (auto simp: sda_io_def)
  have sdo: "?i < 8 \<Longrightarrow> sdo_f ?m = bit ?v (7 - ?i)" using sdo_bit [OF _ s] r by simp
  show ?thesis
  proof (cases "?i < 8")
    case True
    have bd: "\<not> nack_detected_f m" "0 < ?c \<longrightarrow> sdo_f m = bit ?v (7 - ?i)" "bs = bits_before (fsm_pstate m) a w @ take (if 50 < ?c then Suc ?i else ?i) (byte_bits ?v)"
      using b True by (simp_all add: byte_phase_def Let_def)
    then show ?thesis using True st idx cnt scl' mid nk sdo c z i byte_bits_take [OF True, of ?v]
      by (cases "?c = 100") (auto simp: byte_phase_def Let_def less_Suc_eq_le split: if_splits)
  next
    case False
    then have e: "?i = 8" "?c \<noteq> 100" using i n by simp_all
    have bd: "if 50 < ?c then nack_detected_f m \<in> S \<and> bs = bits_before (fsm_pstate m) a w @ byte_bits ?v @ [nack_detected_f m]
      else \<not> nack_detected_f m \<and> bs = bits_before (fsm_pstate m) a w @ byte_bits ?v" using b e by (simp add: byte_phase_def Let_def)
    then show ?thesis using e st idx cnt scl' mid nk c z sda
      by (auto simp: byte_phase_def Let_def less_Suc_eq_le split: if_splits)
  qed
qed

text \<open>After the acknowledge: the next byte, or the stop condition.\<close>

lemma byte_end:
  assumes x: "xtn S m a w bs" and s: "fsm_pstate m \<in> {ADDR_S, DATA_0_S, DATA_1_S}"
    and n: "unat (i2c_prd_cntr_f m) = 100" "unat (bit_idx_f m) = 8"
  shows "xtn S (i2c_edge False la wd sda m) a w (bs @ sda_mid sda m)"
proof -
  let ?m = "i2c_edge False la wd sda m"
  have r: "addr_f m = a" "data_f m = w" "clk_div_val_f m = 100" "\<not> bit a 0" and b: "byte_phase S m a w bs" using x s by (auto simp: xtn_def)
  have c: "unat (i2c_prd_cntr_f m) \<le> 100" and i: "unat (bit_idx_f m) \<le> 8" using n by simp_all
  note t = ticks [OF r(3) c] and ix = idx_steps [OF i]
  have f: "i2c_scl_od m = False" "nack_detected_f m \<in> S" "bs = bits_before (fsm_pstate m) a w @ byte_bits (byte_of (fsm_pstate m) a w) @ [nack_detected_f m]"
    "fsm_pstate m \<noteq> ADDR_S \<longrightarrow> False \<in> S" using b n by (simp_all add: byte_phase_def Let_def)
  have e: "bit (bit_idx_f m) 3" "wrap_prd_cntr_c m" "\<not> i2c_prd_by_2_tick_c m" "\<not> i2c_prd_by_4_tick_c m" using n t ix by auto
  have m: "addr_f ?m = a" "data_f ?m = w" "clk_div_val_f ?m = 100" "i2c_prd_cntr_f ?m = 0" "bit_idx_f ?m = 0" "sdo_f ?m = False" "i2c_scl_od ?m = False"
    "nack_detected_f ?m = nack_detected_f m" "sda_mid sda m = []"
    using r e f(1) s by (auto simp: sample_into_def sample_data_c_def next_bit_idx_def next_sdo_def next_scl_def sda_mid_def)
  show ?thesis
  proof (cases "nack_detected_f m \<or> fsm_pstate m = DATA_1_S")
    case True
    then have "fsm_pstate ?m = STOP_S" using e s by (auto simp: next_state_def)
    moreover have "said S (a, w) (nack_detected_f m) (bs @ [False])"
      using s True f unfolding said_def complete_def
      by (elim insertE emptyE; intro exI [of _ "(if fsm_pstate m = ADDR_S then [] else if fsm_pstate m = DATA_0_S then [False] else [False, False]) @ [nack_detected_f m]"])
         (auto simp: i2c_frame_def)
    ultimately show ?thesis using m r by (simp add: xtn_def)
  next
    case False
    then have "fsm_pstate ?m = (if fsm_pstate m = ADDR_S then DATA_0_S else DATA_1_S)" using e s by (auto simp: next_state_def)
    then show ?thesis using m r False f s by (auto simp: xtn_def byte_phase_def)
  qed
qed

text \<open>Every clock keeps it.\<close>

lemma xtn_tick:
  assumes x: "xtn S m a w bs" and sda: "sda \<in> S"
  shows "xtn S (i2c_edge False la wd sda m) a w (bs @ sda_mid sda m)"
proof -
  let ?m = "i2c_edge False la wd sda m"
  have r: "addr_f m = a" "data_f m = w" "clk_div_val_f m = 100" "\<not> bit a 0" using x by (auto simp: xtn_def)
  have m: "addr_f ?m = a" "data_f ?m = w" "clk_div_val_f ?m = 100" using r by (simp_all add: sample_into_def sample_data_c_def)
  consider (b) "fsm_pstate m \<in> {ADDR_S, DATA_0_S, DATA_1_S}" | (idle) "fsm_pstate m = IDLE_S" | (start) "fsm_pstate m = START_S" | (stop) "fsm_pstate m = STOP_S"
    by (cases "fsm_pstate m") auto
  then show ?thesis
  proof cases
    case b
    show ?thesis
    proof (cases "unat (i2c_prd_cntr_f m) = 100 \<and> unat (bit_idx_f m) = 8")
      case True
      then show ?thesis using byte_end [OF x b] by blast
    next
      case False
      have p: "byte_phase S m a w bs" using x b by (auto simp: xtn_def)
      then have "unat (bit_idx_f m) \<le> 8" by (simp add: byte_phase_def Let_def)
      then show ?thesis using byte_within [OF p b r(1-3) sda] False m r(4) b by (auto simp: xtn_def)
    qed
  next
    case idle
    then show ?thesis using x r m by (simp add: xtn_def next_state_def next_bit_idx_def sda_mid_def fsm_idle_c_def)
  next
    case start
    let ?c = "unat (i2c_prd_cntr_f m)"
    have f: "bit_idx_f m = 0" "?c \<le> 100" "\<not> nack_detected_f m" "i2c_scl_od m \<longleftrightarrow> ?c \<le> 50" "sdo_f m \<longleftrightarrow> ?c = 0" "bs = (if 50 < ?c then [False] else [])"
      using x start by (simp_all add: xtn_def Let_def)
    note t = ticks [OF r(3) f(2)]
    have g: "bit_idx_f ?m = 0" "\<not> nack_detected_f ?m" "i2c_scl_od ?m \<longleftrightarrow> ?c < 50" "\<not> sdo_f ?m"
      "unat (i2c_prd_cntr_f ?m) = (if ?c = 100 then 0 else Suc ?c)" "fsm_pstate ?m = (if ?c = 100 then ADDR_S else START_S)"
      "sda_mid sda m = (if ?c = 50 then [False] else [])"
      using start f t by (auto simp: next_bit_idx_def next_scl_def next_sdo_def next_state_def fsm_idle_c_def sda_mid_def sda_io_def)
    then show ?thesis using m r(4) f by (cases "?c = 100") (auto simp: xtn_def byte_phase_def)
  next
    case stop
    let ?c = "unat (i2c_prd_cntr_f m)"
    have f: "bit_idx_f m = 0" "?c \<le> 100" "0 < ?c \<longrightarrow> i2c_scl_od m" "sdo_f m \<longleftrightarrow> 50 < ?c" "said S (a, w) (nack_detected_f m) (if 50 < ?c then bs else bs @ [False])"
      using x stop by (simp_all add: xtn_def Let_def)
    note t = ticks [OF r(3) f(2)]
    have g: "bit_idx_f ?m = 0" "nack_detected_f ?m = nack_detected_f m" "i2c_scl_od ?m" "sdo_f ?m \<longleftrightarrow> 50 \<le> ?c"
      "unat (i2c_prd_cntr_f ?m) = (if ?c = 100 then 0 else Suc ?c)" "fsm_pstate ?m = (if ?c = 100 then IDLE_S else STOP_S)"
      "sda_mid sda m = (if ?c = 50 then [False] else [])"
      using stop f t by (auto simp: next_bit_idx_def next_scl_def next_sdo_def next_state_def fsm_idle_c_def sda_mid_def sda_io_def)
    then show ?thesis using m r(4) f by (auto simp: xtn_def Let_def)
  qed
qed

lemma xtn_done: "xtn S m a w bs \<Longrightarrow> fsm_idle_c m \<Longrightarrow> said S (a, w) (nack_detected_f m) bs"
  by (simp add: xtn_def fsm_idle_c_def)

end
