(* ===== verification/I2c_Drvr.thy ===== *)
theory I2c_Drvr
  imports Bus I2c_Frame
begin

text \<open>
  The I2C driver, \<^verbatim>\<open>cortex/acortex/i2c/i2c_drvr.c\<close> and \<^verbatim>\<open>i2c_drvr.h\<close>: sixteen-bit writes to a
  device on the I2C bus through the registers of the I2C master. The contract the driver
  relies on is the locale \<open>i2c_dev\<close>; the master of \<^verbatim>\<open>dgn/rtl\<close> is its interpretation, in
  theory \<open>Cortex_Hw\<close>.
\<close>

subsection \<open>Registers and results\<close>

definition I2C_DRIVER_STATUS_REG_ADDR :: u32 where
  [reg_map]: "I2C_DRIVER_STATUS_REG_ADDR = 0x20000"

definition I2C_DRIVER_ADDR_REG_ADDR :: u32 where
  [reg_map]: "I2C_DRIVER_ADDR_REG_ADDR = 0x20010"

definition I2C_DRIVER_DATA_REG_ADDR :: u32 where
  [reg_map]: "I2C_DRIVER_DATA_REG_ADDR = 0x20020"

definition I2C_DRIVER_CLK_DIV_REG_ADDR :: u32 where
  [reg_map]: "I2C_DRIVER_CLK_DIV_REG_ADDR = 0x20030"

definition I2C_DRIVER_STATUS_BUSY_MSK :: "'a::len word" where
  [reg_map]: "I2C_DRIVER_STATUS_BUSY_MSK = 0x0001"

definition I2C_DRIVER_STATUS_NACK_MSK :: "'a::len word" where
  [reg_map]: "I2C_DRIVER_STATUS_NACK_MSK = 0x0002"

definition IORD_I2C_STATUS :: "'d bus \<Rightarrow> u32 \<Rightarrow> 'd \<Rightarrow> u32 \<times> 'd" where
  "IORD_I2C_STATUS b base = IORD_32DIRECT b base I2C_DRIVER_STATUS_REG_ADDR"

definition IORD_I2C_CLK_DIV :: "'d bus \<Rightarrow> u32 \<Rightarrow> 'd \<Rightarrow> u32 \<times> 'd" where
  "IORD_I2C_CLK_DIV b base = IORD_32DIRECT b base I2C_DRIVER_CLK_DIV_REG_ADDR"

definition IOWR_I2C_STATUS :: "'d bus \<Rightarrow> u32 \<Rightarrow> u32 \<Rightarrow> 'd \<Rightarrow> 'd" where
  "IOWR_I2C_STATUS b base = IOWR_32DIRECT b base I2C_DRIVER_STATUS_REG_ADDR"

definition IOWR_I2C_ADDR :: "'d bus \<Rightarrow> u32 \<Rightarrow> u32 \<Rightarrow> 'd \<Rightarrow> 'd" where
  "IOWR_I2C_ADDR b base = IOWR_32DIRECT b base I2C_DRIVER_ADDR_REG_ADDR"

definition IOWR_I2C_DATA :: "'d bus \<Rightarrow> u32 \<Rightarrow> u32 \<Rightarrow> 'd \<Rightarrow> 'd" where
  "IOWR_I2C_DATA b base = IOWR_32DIRECT b base I2C_DRIVER_DATA_REG_ADDR"

definition IOWR_I2C_CLK_DIV :: "'d bus \<Rightarrow> u32 \<Rightarrow> u32 \<Rightarrow> 'd \<Rightarrow> 'd" where
  "IOWR_I2C_CLK_DIV b base = IOWR_32DIRECT b base I2C_DRIVER_CLK_DIV_REG_ADDR"

datatype I2C_RES = I2C_OK | I2C_NACK_DETECTED | I2C_BUSY | I2C_IDLE

subsection \<open>Driver functions\<close>

definition get_i2c_status :: "'d bus \<Rightarrow> u32 \<Rightarrow> 'd \<Rightarrow> I2C_RES \<times> 'd" where
  "get_i2c_status b base d =
     (let (v, d) = IORD_I2C_STATUS b base d; reg = (ucast v :: u16)
      in (if reg AND I2C_DRIVER_STATUS_NACK_MSK \<noteq> 0 then I2C_NACK_DETECTED
          else if reg AND I2C_DRIVER_STATUS_BUSY_MSK \<noteq> 0 then I2C_BUSY
          else I2C_IDLE, d))"

definition is_busy :: "'d bus \<Rightarrow> u32 \<Rightarrow> 'd \<Rightarrow> I2C_RES \<times> 'd" where
  "is_busy b base d =
     (let (v, d) = IORD_I2C_STATUS b base d; reg = (ucast v :: u16)
      in (if reg AND I2C_DRIVER_STATUS_BUSY_MSK \<noteq> 0 then I2C_BUSY else I2C_IDLE, d))"

text \<open>\<open>None\<close> is a driver that never comes back because the master stays busy.\<close>

definition i2c_xtn_write16 :: "'d bus \<Rightarrow> u32 \<Rightarrow> u8 \<Rightarrow> u16 \<Rightarrow> 'd \<Rightarrow> (I2C_RES \<times> 'd) option" where
  "i2c_xtn_write16 b base addr data d = do {
     d \<leftarrow> wait_while b base I2C_DRIVER_STATUS_REG_ADDR I2C_DRIVER_STATUS_BUSY_MSK d;
     let d = IOWR_I2C_DATA b base (ucast data) d;
     let d = IOWR_I2C_ADDR b base (ucast addr AND 0xfe) d;
     let d = IOWR_I2C_STATUS b base 0x0 d;
     d \<leftarrow> wait_while b base I2C_DRIVER_STATUS_REG_ADDR I2C_DRIVER_STATUS_BUSY_MSK d;
     let (v, d) = IORD_I2C_STATUS b base d;
     if v AND I2C_DRIVER_STATUS_NACK_MSK \<noteq> 0
       then Some (I2C_NACK_DETECTED, d)
       else Some (I2C_OK, d)
   }"

definition configure_i2c_clk :: "'d bus \<Rightarrow> u32 \<Rightarrow> u8 \<Rightarrow> 'd \<Rightarrow> 'd" where
  "configure_i2c_clk b base clk_val d = IOWR_I2C_CLK_DIV b base (ucast clk_val) d"

definition get_i2c_clk :: "'d bus \<Rightarrow> u32 \<Rightarrow> 'd \<Rightarrow> u8 \<times> 'd" where
  "get_i2c_clk b base d = (let (v, d) = IORD_I2C_CLK_DIV b base d in (ucast v, d))"

lemmas i2c_io_defs = IORD_I2C_STATUS_def IORD_I2C_CLK_DIV_def IOWR_I2C_STATUS_def
  IOWR_I2C_ADDR_def IOWR_I2C_DATA_def IOWR_I2C_CLK_DIV_def

subsection \<open>What the driver relies on\<close>

text \<open>
  What happened on the way from \<open>d\<close> to \<open>d'\<close> when the master was in a state to be observed: one frame in the
  log for each of the writes \<open>xs\<close>, after whatever was still under way; all were acknowledged, or all
  but the last. The answers are levels the data line had.
\<close>

definition answered :: "bool list list \<Rightarrow> bool \<Rightarrow> bool" where
  "answered as good \<longleftrightarrow> (if good then \<forall>x\<in>set as. x = acked
     else as \<noteq> [] \<and> (\<forall>x\<in>set (butlast as). x = acked) \<and> complete (last as) \<and> True \<in> set (last as))"

definition frames :: "(u8 \<times> u16) list \<Rightarrow> bool list list \<Rightarrow> bool list list" where
  "frames xs as = map2 (\<lambda>(a, w). i2c_frame a w) xs as"

definition observed :: "('d \<Rightarrow> bool) \<Rightarrow> ('d \<Rightarrow> bool list list) \<Rightarrow> ('d \<Rightarrow> bool) \<Rightarrow> bool set
    \<Rightarrow> 'd \<Rightarrow> (u8 \<times> u16) list \<Rightarrow> bool \<Rightarrow> 'd \<Rightarrow> bool" where
  "observed busy line ready S d xs good d' \<longleftrightarrow> (ready d \<longrightarrow> ready d' \<and> (\<not> busy d \<or> xs \<noteq> [] \<longrightarrow> \<not> busy d') \<and>
     (\<exists>X as. line d' = X @ frames xs as \<and> log_grows (line d) X \<and> (\<not> busy d \<longrightarrow> X = line d) \<and>
        length as = length xs \<and> answered as good \<and> (\<forall>x\<in>set as. set x \<subseteq> S)))"

lemma observed_none: "observed busy line ready S d [] True d"
  by (auto simp: observed_def frames_def answered_def intro!: exI [of _ "line d"])

lemma observed_then:
  assumes 1: "observed busy line ready S d xs True d1" and 2: "observed busy line ready S d1 ys good d2"
  shows "observed busy line ready S d (xs @ ys) good d2"
  unfolding observed_def
proof (rule impI)
  assume r: "ready d"
  obtain X as where x: "ready d1" "\<not> busy d \<or> xs \<noteq> [] \<longrightarrow> \<not> busy d1" "line d1 = X @ frames xs as" "log_grows (line d) X" "\<not> busy d \<longrightarrow> X = line d"
    "length as = length xs" "answered as True" "\<forall>x\<in>set as. set x \<subseteq> S" using 1 r unfolding observed_def by blast
  obtain Y bs where y: "ready d2" "\<not> busy d1 \<or> ys \<noteq> [] \<longrightarrow> \<not> busy d2" "line d2 = Y @ frames ys bs" "log_grows (line d1) Y" "\<not> busy d1 \<longrightarrow> Y = line d1"
    "length bs = length ys" "answered bs good" "\<forall>x\<in>set bs. set x \<subseteq> S" using 2 x(1) unfolding observed_def by blast
  have a: "answered (as @ bs) good"
  proof (cases "bs = []")
    case True
    then show ?thesis using x(7) y(7) by (auto simp: answered_def split: if_splits)
  next
    case False
    then show ?thesis using x(7) y(7) by (auto simp: answered_def butlast_append split: if_splits)
  qed
  have f: "frames (xs @ ys) (as @ bs) = frames xs as @ frames ys bs" using x(6) by (simp add: frames_def)
  have "\<exists>Z. line d2 = Z @ frames (xs @ ys) (as @ bs) \<and> log_grows (line d) Z \<and> (\<not> busy d \<longrightarrow> Z = line d)"
  proof (cases "xs = []")
    case True
    then have "line d1 = X" using x(3) by (simp add: frames_def)
    then show ?thesis using True x(2,4,5) y(3,4,5) f by (intro exI [of _ Y]) (auto simp: frames_def intro: log_grows_trans)
  next
    case False
    then show ?thesis using x y f by (intro exI [of _ X]) auto
  qed
  then obtain Z where z: "line d2 = Z @ frames (xs @ ys) (as @ bs)" "log_grows (line d) Z" "\<not> busy d \<longrightarrow> Z = line d" by blast
  have "length (as @ bs) = length (xs @ ys)" "\<forall>x\<in>set (as @ bs). set x \<subseteq> S" using x(6,8) y(6,8) by auto
  moreover have "\<not> busy d \<or> xs @ ys \<noteq> [] \<longrightarrow> \<not> busy d2" using x(2) y(2) by auto
  ultimately show "ready d2 \<and> (\<not> busy d \<or> xs @ ys \<noteq> [] \<longrightarrow> \<not> busy d2) \<and> (\<exists>Z as. line d2 = Z @ frames (xs @ ys) as \<and> log_grows (line d) Z \<and>
      (\<not> busy d \<longrightarrow> Z = line d) \<and> length as = length (xs @ ys) \<and> answered as good \<and> (\<forall>x\<in>set as. set x \<subseteq> S))"
    using z y(1) a by blast
qed

lemma observed_one:
  assumes "observed busy line ready S d [(a, w)] good d'" "ready d"
  obtains X acks where "line d' = X @ [i2c_frame a w acks]" "log_grows (line d) X" "complete acks" "set acks \<subseteq> S" "True \<in> set acks \<longleftrightarrow> \<not> good"
proof -
  from assms obtain X as where x: "line d' = X @ frames [(a, w)] as" "log_grows (line d) X" "length as = 1" "answered as good" "\<forall>x\<in>set as. set x \<subseteq> S"
    unfolding observed_def by auto
  obtain acks where "as = [acks]" using x(3) by (auto simp: length_Suc_conv)
  with x show thesis by (intro that [of X acks]) (auto simp: frames_def answered_def acked_def complete_def split: if_splits)
qed

text \<open>
  An I2C master behind the driver's registers: \<open>ok\<close> its invariant, \<open>busy\<close> and \<open>nack\<close> its two
  status bits, \<open>areg\<close> and \<open>dreg\<close> the address and data registers, \<open>wire\<close> the transactions it
  has started so far, oldest first, and \<open>rank\<close> a bound on how long the running one still
  takes. Status reads and idle time start nothing; a write to the status register of an idle
  master starts the transaction held in the two registers. \<open>line\<close> is what a receiver has seen on the
  data line, one entry for each transaction; the last one grows while the master is busy. When the master
  is \<open>ready\<close>, its clock set, a write it starts is \<open>proper\<close>, and once it is done the line has shown its
  frame, with answers among the levels \<open>S\<close>, and the status bit says whether one was missing.
\<close>

locale i2c_dev =
  fixes b :: "'d bus" and base :: u32
    and ok :: "'d \<Rightarrow> bool" and busy :: "'d \<Rightarrow> bool" and nack :: "'d \<Rightarrow> bool"
    and areg :: "'d \<Rightarrow> u8" and dreg :: "'d \<Rightarrow> u16"
    and wire :: "'d \<Rightarrow> (u8 \<times> u16) list" and rank :: "'d \<Rightarrow> nat"
    and line :: "'d \<Rightarrow> bool list list" and ready :: "'d \<Rightarrow> bool" and proper :: "'d \<Rightarrow> bool" and S :: "bool set"
  assumes status_val: "ok d \<Longrightarrow> IORD_I2C_STATUS b base d = (v, d') \<Longrightarrow>
      (bit v 0 \<longleftrightarrow> busy d) \<and> (bit v 1 \<longleftrightarrow> nack d)"
    and status_ok: "ok d \<Longrightarrow> IORD_I2C_STATUS b base d = (v, d') \<Longrightarrow>
      ok d' \<and> wire d' = wire d \<and> rank d' \<le> rank d"
    and status_idle: "ok d \<Longrightarrow> \<not> busy d \<Longrightarrow> IORD_I2C_STATUS b base d = (v, d') \<Longrightarrow>
      \<not> busy d' \<and> nack d' = nack d \<and> line d' = line d"
    and status_line: "IORD_I2C_STATUS b base d = (v, d') \<Longrightarrow>
      log_grows (line d) (line d') \<and> (ready d \<longrightarrow> ready d') \<and> (proper d \<longrightarrow> proper d')"
    and ms_ok: "ok d \<Longrightarrow> ok (sleep_ms b n d) \<and> wire (sleep_ms b n d) = wire d"
    and ms_idle: "ok d \<Longrightarrow> \<not> busy d \<Longrightarrow> \<not> busy (sleep_ms b n d) \<and> line (sleep_ms b n d) = line d"
    and ms_line: "log_grows (line d) (line (sleep_ms b n d)) \<and> (ready d \<longrightarrow> ready (sleep_ms b n d)) \<and> (proper d \<longrightarrow> proper (sleep_ms b n d))"
    and ms_progress: "ok d \<Longrightarrow> busy d \<Longrightarrow> IORD_I2C_STATUS b base d = (v, d') \<Longrightarrow>
      rank (sleep_ms b 1 d') < rank d"
    and wr_data: "ok d \<Longrightarrow> \<not> busy d \<Longrightarrow> d' = IOWR_I2C_DATA b base w d \<Longrightarrow>
      ok d' \<and> \<not> busy d' \<and> wire d' = wire d \<and> dreg d' = ucast w \<and> line d' = line d \<and> (ready d \<longrightarrow> ready d')"
    and wr_addr: "ok d \<Longrightarrow> \<not> busy d \<Longrightarrow> d' = IOWR_I2C_ADDR b base w d \<Longrightarrow>
      ok d' \<and> \<not> busy d' \<and> wire d' = wire d \<and> areg d' = ucast w \<and> dreg d' = dreg d \<and> line d' = line d \<and> (ready d \<longrightarrow> ready d')"
    and wr_status: "ok d \<Longrightarrow> \<not> busy d \<Longrightarrow> d' = IOWR_I2C_STATUS b base w d \<Longrightarrow>
      ok d' \<and> wire d' = wire d @ [(areg d, dreg d)]"
    and wr_line: "ok d \<Longrightarrow> \<not> busy d \<Longrightarrow> ready d \<Longrightarrow> \<not> bit (areg d) 0 \<Longrightarrow> d' = IOWR_I2C_STATUS b base w d \<Longrightarrow>
      ready d' \<and> proper d' \<and> (\<exists>x. line d' = line d @ [x])"
    and done_line: "ok d \<Longrightarrow> \<not> busy d \<Longrightarrow> proper d \<Longrightarrow> said S (last (wire d)) (nack d) (last (line d))"
begin

lemma wait_idle:
  assumes "ok d"
  shows "\<exists>d'. wait_while b base I2C_DRIVER_STATUS_REG_ADDR I2C_DRIVER_STATUS_BUSY_MSK d = Some d'
    \<and> ok d' \<and> \<not> busy d' \<and> wire d' = wire d \<and> log_grows (line d) (line d') \<and> (\<not> busy d \<longrightarrow> line d' = line d)
    \<and> (ready d \<longrightarrow> ready d') \<and> (proper d \<longrightarrow> proper d')"
proof -
  let ?P = "\<lambda>e. ok e \<and> wire e = wire d \<and> log_grows (line d) (line e) \<and> (\<not> busy d \<longrightarrow> \<not> busy e \<and> line e = line d) \<and> (ready d \<longrightarrow> ready e) \<and> (proper d \<longrightarrow> proper e)"
  have "\<exists>d'. wait_while b base I2C_DRIVER_STATUS_REG_ADDR I2C_DRIVER_STATUS_BUSY_MSK d = Some d'
      \<and> (?P d' \<and> \<not> busy d')"
  proof (rule wait_while_ends [where P = ?P and rank = rank])
    fix e v d1
    assume P: "?P e" and r: "IORD_32DIRECT b base I2C_DRIVER_STATUS_REG_ADDR e = (v, d1)" and m: "v AND I2C_DRIVER_STATUS_BUSY_MSK \<noteq> 0"
    from r have r': "IORD_I2C_STATUS b base e = (v, d1)" by (simp add: IORD_I2C_STATUS_def)
    from m status_val [of e, OF _ r'] P have "busy e" by (simp add: reg_map)
    with P r' status_ok [of e, OF _ r'] status_line [OF r'] ms_ok [of d1] ms_line [of d1] ms_progress [of e, OF _ _ r']
    show "?P (sleep_ms b 1 d1) \<and> rank (sleep_ms b 1 d1) < rank e" by (auto intro: log_grows_trans)
  next
    fix e v d1
    assume P: "?P e" and r: "IORD_32DIRECT b base I2C_DRIVER_STATUS_REG_ADDR e = (v, d1)" and m: "v AND I2C_DRIVER_STATUS_BUSY_MSK = 0"
    from r have r': "IORD_I2C_STATUS b base e = (v, d1)" by (simp add: IORD_I2C_STATUS_def)
    from m status_val [of e, OF _ r'] P have "\<not> busy e" by (simp add: reg_map)
    with P status_ok [of e, OF _ r'] status_line [OF r'] status_idle [of e, OF _ _ r']
    show "?P d1 \<and> \<not> busy d1" by (auto intro: log_grows_trans)
  qed (use assms in simp)
  then show ?thesis by blast
qed

text \<open>
  The driver always comes back, has put exactly one transaction on the wire (the requested
  data, to the requested address with the write bit forced), and reports a missing
  acknowledge exactly when the idle master shows one; if the master is ready, exactly when the line
  has shown one.
\<close>

lemma i2c_write_total:
  assumes "ok d"
  shows "\<exists>res d'. i2c_xtn_write16 b base addr data d = Some (res, d') \<and> ok d' \<and> \<not> busy d'
    \<and> wire d' = wire d @ [(addr AND 0xfe, data)]
    \<and> res = (if nack d' then I2C_NACK_DETECTED else I2C_OK)
    \<and> observed busy line ready S d [(addr AND 0xfe, data)] (res = I2C_OK) d'"
proof -
  from wait_idle [OF assms] obtain d1 where
    w1: "wait_while b base I2C_DRIVER_STATUS_REG_ADDR I2C_DRIVER_STATUS_BUSY_MSK d = Some d1"
    and 1: "ok d1" "\<not> busy d1" "wire d1 = wire d" "log_grows (line d) (line d1)" "\<not> busy d \<longrightarrow> line d1 = line d" "ready d \<longrightarrow> ready d1" by blast
  let ?d2 = "IOWR_I2C_DATA b base (ucast data) d1"
  let ?d3 = "IOWR_I2C_ADDR b base (ucast addr AND 0xfe) ?d2"
  let ?d4 = "IOWR_I2C_STATUS b base 0 ?d3"
  have 2: "ok ?d2" "\<not> busy ?d2" "wire ?d2 = wire d" "dreg ?d2 = data" "line ?d2 = line d1" "ready d \<longrightarrow> ready ?d2"
    using wr_data [OF 1(1,2) refl, of "ucast data"] 1(3,6) by simp_all
  have a: "(ucast (ucast addr AND (0xfe :: u32)) :: u8) = addr AND 0xfe"
    by (simp add: ucast_and)
  have 3: "ok ?d3" "\<not> busy ?d3" "wire ?d3 = wire d" "areg ?d3 = addr AND 0xfe" "dreg ?d3 = data" "line ?d3 = line d1" "ready d \<longrightarrow> ready ?d3"
    using wr_addr [OF 2(1,2) refl, of "ucast addr AND 0xfe"] 2(3-6) a by simp_all
  have 4: "ok ?d4" "wire ?d4 = wire d @ [(addr AND 0xfe, data)]"
    using wr_status [OF 3(1,2) refl, of 0] 3(3-5) by simp_all
  have nb: "\<not> bit (areg ?d3) 0" unfolding 3(4) by (simp add: bit_and_iff)
  have s4: "ready d \<longrightarrow> ready ?d4 \<and> proper ?d4 \<and> (\<exists>x. line ?d4 = line d1 @ [x])"
    using wr_line [OF 3(1,2) _ nb refl, of 0] 3(6,7) by simp
  from wait_idle [OF 4(1)] obtain d5 where
    w2: "wait_while b base I2C_DRIVER_STATUS_REG_ADDR I2C_DRIVER_STATUS_BUSY_MSK ?d4 = Some d5"
    and 5: "ok d5" "\<not> busy d5" "wire d5 = wire ?d4" "log_grows (line ?d4) (line d5)" "ready ?d4 \<longrightarrow> ready d5" "proper ?d4 \<longrightarrow> proper d5" by blast
  obtain v d6 where r: "IORD_I2C_STATUS b base d5 = (v, d6)" by fastforce
  have 6: "ok d6" "\<not> busy d6" "wire d6 = wire d @ [(addr AND 0xfe, data)]" "nack d6 = nack d5" "line d6 = line d5" "ready d5 \<longrightarrow> ready d6" "proper d5 \<longrightarrow> proper d6"
    using status_ok [OF 5(1) r] status_idle [OF 5(1,2) r] status_line [OF r] 4(2) 5(3) by simp_all
  let ?res = "if nack d6 then I2C_NACK_DETECTED else I2C_OK"
  have run: "i2c_xtn_write16 b base addr data d = Some (?res, d6)"
    using w1 w2 r status_val [OF 5(1) r] 6(4) by (auto simp: i2c_xtn_write16_def reg_map)
  have "observed busy line ready S d [(addr AND 0xfe, data)] (?res = I2C_OK) d6"
    unfolding observed_def
  proof (rule impI)
    assume rd: "ready d"
    then obtain x where x: "line ?d4 = line d1 @ [x]" using s4 by blast
    then obtain bs where bs: "line d6 = line d1 @ [bs]" using 5(4) 6(5) by (cases "line d5" rule: rev_cases) (auto simp: log_grows_def)
    have "said S (addr AND 0xfe, data) (nack d6) bs" using done_line [OF 6(1,2)] 6(3,7) 5(6) s4 rd bs by simp
    then obtain as where as: "complete as" "set as \<subseteq> S" "bs = i2c_frame (addr AND 0xfe) data as" "nack d6 \<longleftrightarrow> True \<in> set as" by (auto simp: said_def)
    show "ready d6 \<and> (\<not> busy d \<or> [(addr AND 0xfe, data)] \<noteq> [] \<longrightarrow> \<not> busy d6) \<and> (\<exists>X as. line d6 = X @ frames [(addr AND 0xfe, data)] as \<and>
        log_grows (line d) X \<and> (\<not> busy d \<longrightarrow> X = line d) \<and> length as = length [(addr AND 0xfe, data)] \<and> answered as (?res = I2C_OK) \<and> (\<forall>x\<in>set as. set x \<subseteq> S))"
      using rd s4 5(5) 6(2,6) bs as 1(4,5) complete_acked [OF as(1)]
      by (intro conjI exI [of _ "line d1"] exI [of _ "[as]"]) (auto simp: frames_def answered_def)
  qed
  then show ?thesis using run 6(1-3) by blast
qed

end

end
