(* ===== verification/Acortex.thy ===== *)
theory Acortex
  imports I2c_Drvr Dac_Drvr Fgyrus Vcortex
begin

text \<open>
  The audio block as a whole and the bring-up of the signal chain: \<^verbatim>\<open>cortex/acortex/acortex.c\<close>,
  \<^verbatim>\<open>acortex.h\<close> and \<^verbatim>\<open>cortex/cortex.c\<close>.
\<close>

subsection \<open>Registers\<close>

definition ADC_LCAPTURE_RAM_ADDR_REG :: u32 where [reg_map]: "ADC_LCAPTURE_RAM_ADDR_REG = 0x24000"

definition ADC_RCAPTURE_RAM_ADDR_REG :: u32 where [reg_map]: "ADC_RCAPTURE_RAM_ADDR_REG = 0x25000"

definition ADC_START_CAPTURE_REG :: u32 where [reg_map]: "ADC_START_CAPTURE_REG = 0x26000"

definition ACORTEX_AUDIO_SRC_SEL_REG :: u32 where [reg_map]: "ACORTEX_AUDIO_SRC_SEL_REG = 0x27000"

definition ACORTEX_RESET_ADDR :: u32 where [reg_map]: "ACORTEX_RESET_ADDR = 0x28000"

definition ACORTEX_ADC_CAP_DEPTH :: nat where [reg_map]: "ACORTEX_ADC_CAP_DEPTH = 128"

definition ADC_START_CAPTURE_EN_MSK :: u32 where [reg_map]: "ADC_START_CAPTURE_EN_MSK = 0x1"

definition ADC_CAPTURE_BUSY_MSK :: u32 where [reg_map]: "ADC_CAPTURE_BUSY_MSK = 0x1"

definition ACORTEX_I2C_CLK_DIV_VAL :: u8 where [reg_map]: "ACORTEX_I2C_CLK_DIV_VAL = 100"

definition IORD_ADC_LCAPTURE_DATA :: "'d bus \<Rightarrow> u32 \<Rightarrow> 'd \<Rightarrow> u32 \<times> 'd" where
  "IORD_ADC_LCAPTURE_DATA b base = IORD_32DIRECT b base ADC_LCAPTURE_RAM_ADDR_REG"

definition IORD_ADC_RCAPTURE_DATA :: "'d bus \<Rightarrow> u32 \<Rightarrow> 'd \<Rightarrow> u32 \<times> 'd" where
  "IORD_ADC_RCAPTURE_DATA b base = IORD_32DIRECT b base ADC_RCAPTURE_RAM_ADDR_REG"

definition IOWR_ADC_LCAPTURE_DATA :: "'d bus \<Rightarrow> u32 \<Rightarrow> u32 \<Rightarrow> 'd \<Rightarrow> 'd" where
  "IOWR_ADC_LCAPTURE_DATA b base = IOWR_32DIRECT b base ADC_LCAPTURE_RAM_ADDR_REG"

definition IOWR_ADC_RCAPTURE_DATA :: "'d bus \<Rightarrow> u32 \<Rightarrow> u32 \<Rightarrow> 'd \<Rightarrow> 'd" where
  "IOWR_ADC_RCAPTURE_DATA b base = IOWR_32DIRECT b base ADC_RCAPTURE_RAM_ADDR_REG"

definition IOWR_ADC_START_CAPTURE_REG :: "'d bus \<Rightarrow> u32 \<Rightarrow> u32 \<Rightarrow> 'd \<Rightarrow> 'd" where
  "IOWR_ADC_START_CAPTURE_REG b base = IOWR_32DIRECT b base ADC_START_CAPTURE_REG"

definition IOWR_ACORTEX_AUDIO_SRC_SEL_REG :: "'d bus \<Rightarrow> u32 \<Rightarrow> u32 \<Rightarrow> 'd \<Rightarrow> 'd" where
  "IOWR_ACORTEX_AUDIO_SRC_SEL_REG b base = IOWR_32DIRECT b base ACORTEX_AUDIO_SRC_SEL_REG"

datatype ACORTEX_AUDIO_SRC_SEL_VAL = ADC | PRSR

fun AUDIO_SRC_val :: "ACORTEX_AUDIO_SRC_SEL_VAL \<Rightarrow> u32" where
  "AUDIO_SRC_val ADC = 0x0"
| "AUDIO_SRC_val PRSR = 0x1"

subsection \<open>Driver functions\<close>

definition reset_acortex :: "'d bus \<Rightarrow> u32 \<Rightarrow> 'd \<Rightarrow> 'd" where
  "reset_acortex b base d = sleep_ms b 1 (IOWR_32DIRECT b base ACORTEX_RESET_ADDR 0x0 d)"

definition acortex_aud_src_sel :: "'d bus \<Rightarrow> u32 \<Rightarrow> ACORTEX_AUDIO_SRC_SEL_VAL \<Rightarrow> 'd \<Rightarrow> 'd" where
  "acortex_aud_src_sel b base val d = IOWR_ACORTEX_AUDIO_SRC_SEL_REG b base (AUDIO_SRC_val val) d"

text \<open>
  One sample of a capture buffer: the low half at RAM address \<open>i << 1\<close>, the high half at the
  next. The two channels are read by the same code through different registers, given here as
  the read and write accessors.
\<close>

definition adc_cap_sample :: "(u32 \<Rightarrow> 'd \<Rightarrow> 'd) \<Rightarrow> ('d \<Rightarrow> u32 \<times> 'd) \<Rightarrow> nat \<Rightarrow> 'd \<Rightarrow> u32 \<times> 'd" where
  "adc_cap_sample wr rd i d =
     (let cap_addr = push_bit 1 (of_nat i :: u8);
          d = wr (ucast cap_addr) d;
          (lo, d) = rd d;
          cap_addr = cap_addr + 1;
          d = wr (ucast cap_addr) d;
          (hi, d) = rd d
      in ((lo AND 0xffff) + push_bit 16 (hi AND 0xffff), d))"

definition adc_cap_buffer :: "(u32 \<Rightarrow> 'd \<Rightarrow> 'd) \<Rightarrow> ('d \<Rightarrow> u32 \<times> 'd) \<Rightarrow> u32 list \<Rightarrow> 'd \<Rightarrow> u32 list \<times> 'd" where
  "adc_cap_buffer wr rd bffr d =
     fold (\<lambda>i (bffr, d). let (v, d) = adc_cap_sample wr rd i d in (bffr[i := v], d))
       [0..<ACORTEX_ADC_CAP_DEPTH] (bffr, d)"

definition adc_cap :: "'d bus \<Rightarrow> u32 \<Rightarrow> u32 list \<Rightarrow> u32 list \<Rightarrow> 'd \<Rightarrow> ((u32 list \<times> u32 list) \<times> 'd) option" where
  "adc_cap b base lcap_bffr rcap_bffr d = do {
     let d = IOWR_ADC_START_CAPTURE_REG b base ADC_START_CAPTURE_EN_MSK d;
     d \<leftarrow> wait_while b base ADC_START_CAPTURE_REG ADC_CAPTURE_BUSY_MSK d;
     let (lcap_bffr, d) = adc_cap_buffer (IOWR_ADC_LCAPTURE_DATA b base) (IORD_ADC_LCAPTURE_DATA b base) lcap_bffr d;
     let (rcap_bffr, d) = adc_cap_buffer (IOWR_ADC_RCAPTURE_DATA b base) (IORD_ADC_RCAPTURE_DATA b base) rcap_bffr d;
     Some ((lcap_bffr, rcap_bffr), d)
   }"

definition acortex_init :: "'d bus \<Rightarrow> u32 \<Rightarrow> FS_T \<Rightarrow> BPS_T \<Rightarrow> 'd \<Rightarrow> 'd" where
  "acortex_init b base fs bps d =
     (let d = reset_acortex b base d;
          d = configure_i2c_clk b base ACORTEX_I2C_CLK_DIV_VAL d;
          d = configure_dac_drvr_bps b base bps d;
          d = update_fs_div b base fs d
      in update_mclk b base fs d)"

text \<open>
  \<open>cortex_init\<close> takes the base address for the audio and light blocks but programs the spectrum
  engines at the constant \<open>CORTEX_MM_SL_BASE\<close>.
\<close>

definition cortex_init :: "'d bus \<Rightarrow> u32 \<Rightarrow> FS_T \<Rightarrow> BPS_T \<Rightarrow> 'd \<Rightarrow> 'd" where
  "cortex_init b base fs bps d =
     (let d = acortex_init b base fs bps d;
          d = configure_post_norm b CORTEX_MM_SL_BASE LCHNL NORM_64k d;
          d = configure_post_norm b CORTEX_MM_SL_BASE RCHNL NORM_64k d
      in enable_vcortex b base d)"

lemmas acortex_io_defs = IORD_ADC_LCAPTURE_DATA_def IORD_ADC_RCAPTURE_DATA_def
  IOWR_ADC_LCAPTURE_DATA_def IOWR_ADC_RCAPTURE_DATA_def IOWR_ADC_START_CAPTURE_REG_def
  IOWR_ACORTEX_AUDIO_SRC_SEL_REG_def

end
