(* ===== verification/Sram.thy ===== *)
theory Sram
  imports Bus
begin

text \<open>The SRAM access driver, \<^verbatim>\<open>cortex/acortex/sram/sram.c\<close> and \<^verbatim>\<open>sram.h\<close>.\<close>

subsection \<open>Registers\<close>

definition SRAM_STATUS_REG_ADDR :: u32 where [reg_map]: "SRAM_STATUS_REG_ADDR = 0x21000"

definition SRAM_ACC_CTRL_REG_ADDR :: u32 where [reg_map]: "SRAM_ACC_CTRL_REG_ADDR = 0x21010"

definition SRAM_ACC_ADDR_H_REG_ADDR :: u32 where [reg_map]: "SRAM_ACC_ADDR_H_REG_ADDR = 0x21020"

definition SRAM_ACC_ADDR_L_REG_ADDR :: u32 where [reg_map]: "SRAM_ACC_ADDR_L_REG_ADDR = 0x21030"

definition SRAM_ACC_DATA_REG_ADDR :: u32 where [reg_map]: "SRAM_ACC_DATA_REG_ADDR = 0x21040"

definition SRAM_MM_RD_EN_MSK :: u32 where [reg_map]: "SRAM_MM_RD_EN_MSK = 0x1"

definition SRAM_MM_WR_EN_MSK :: u32 where [reg_map]: "SRAM_MM_WR_EN_MSK = 0x2"

definition SRAM_ADDR_H_MSK :: u32 where [reg_map]: "SRAM_ADDR_H_MSK = 0x3"

definition SRAM_ADDR_L_MSK :: u32 where [reg_map]: "SRAM_ADDR_L_MSK = 0xffff"

definition IORD_SRAM_ACC_DATA :: "'d bus \<Rightarrow> u32 \<Rightarrow> 'd \<Rightarrow> u32 \<times> 'd" where
  "IORD_SRAM_ACC_DATA b base = IORD_32DIRECT b base SRAM_ACC_DATA_REG_ADDR"

definition IOWR_SRAM_ACC_CTRL :: "'d bus \<Rightarrow> u32 \<Rightarrow> u32 \<Rightarrow> 'd \<Rightarrow> 'd" where
  "IOWR_SRAM_ACC_CTRL b base = IOWR_32DIRECT b base SRAM_ACC_CTRL_REG_ADDR"

definition IOWR_SRAM_ACC_ADDR_H :: "'d bus \<Rightarrow> u32 \<Rightarrow> u32 \<Rightarrow> 'd \<Rightarrow> 'd" where
  "IOWR_SRAM_ACC_ADDR_H b base = IOWR_32DIRECT b base SRAM_ACC_ADDR_H_REG_ADDR"

definition IOWR_SRAM_ACC_ADDR_L :: "'d bus \<Rightarrow> u32 \<Rightarrow> u32 \<Rightarrow> 'd \<Rightarrow> 'd" where
  "IOWR_SRAM_ACC_ADDR_L b base = IOWR_32DIRECT b base SRAM_ACC_ADDR_L_REG_ADDR"

definition IOWR_SRAM_ACC_DATA :: "'d bus \<Rightarrow> u32 \<Rightarrow> u32 \<Rightarrow> 'd \<Rightarrow> 'd" where
  "IOWR_SRAM_ACC_DATA b base = IOWR_32DIRECT b base SRAM_ACC_DATA_REG_ADDR"

subsection \<open>Driver functions\<close>

definition sram_read16 :: "'d bus \<Rightarrow> u32 \<Rightarrow> u32 \<Rightarrow> 'd \<Rightarrow> u16 \<times> 'd" where
  "sram_read16 b base addr d =
     (let d = IOWR_SRAM_ACC_ADDR_H b base (drop_bit 16 addr AND SRAM_ADDR_H_MSK) d;
          d = IOWR_SRAM_ACC_ADDR_L b base (addr AND SRAM_ADDR_L_MSK) d;
          d = IOWR_SRAM_ACC_CTRL b base SRAM_MM_RD_EN_MSK d;
          (v, d) = IORD_SRAM_ACC_DATA b base d
      in (ucast v, d))"

definition sram_write16 :: "'d bus \<Rightarrow> u32 \<Rightarrow> u32 \<Rightarrow> u16 \<Rightarrow> 'd \<Rightarrow> 'd" where
  "sram_write16 b base addr data d =
     (let d = IOWR_SRAM_ACC_ADDR_H b base (drop_bit 16 addr AND SRAM_ADDR_H_MSK) d;
          d = IOWR_SRAM_ACC_ADDR_L b base (addr AND SRAM_ADDR_L_MSK) d;
          d = IOWR_SRAM_ACC_DATA b base (ucast data) d
      in IOWR_SRAM_ACC_CTRL b base SRAM_MM_WR_EN_MSK d)"

lemmas sram_io_defs = IORD_SRAM_ACC_DATA_def IOWR_SRAM_ACC_CTRL_def IOWR_SRAM_ACC_ADDR_H_def
  IOWR_SRAM_ACC_ADDR_L_def IOWR_SRAM_ACC_DATA_def

subsection \<open>What the driver relies on\<close>

text \<open>
  The SRAM access block: an address register written in two halves, a data register, and a
  control register whose bits trigger a read into or a write from the data register at that
  address. \<open>mem\<close> is the memory behind it, of \<open>2 ^ 18\<close> halfwords.
\<close>

locale sram_dev =
  fixes b :: "'d bus" and base :: u32 and ok :: "'d \<Rightarrow> bool"
    and areg :: "'d \<Rightarrow> 18 word" and dreg :: "'d \<Rightarrow> u16" and mem :: "'d \<Rightarrow> 18 word \<Rightarrow> u16"
  assumes wr_h: "ok d \<Longrightarrow> d' = IOWR_SRAM_ACC_ADDR_H b base w d \<Longrightarrow>
      ok d' \<and> mem d' = mem d \<and> areg d' = (areg d AND 0xffff) OR push_bit 16 (ucast (w AND 3))"
    and wr_l: "ok d \<Longrightarrow> d' = IOWR_SRAM_ACC_ADDR_L b base w d \<Longrightarrow>
      ok d' \<and> mem d' = mem d \<and> areg d' = (areg d AND 0x30000) OR ucast (w AND 0xffff)"
    and wr_data: "ok d \<Longrightarrow> d' = IOWR_SRAM_ACC_DATA b base w d \<Longrightarrow>
      ok d' \<and> mem d' = mem d \<and> areg d' = areg d \<and> dreg d' = ucast w"
    and trig_rd: "ok d \<Longrightarrow> d' = IOWR_SRAM_ACC_CTRL b base SRAM_MM_RD_EN_MSK d \<Longrightarrow>
      ok d' \<and> mem d' = mem d \<and> dreg d' = mem d (areg d)"
    and trig_wr: "ok d \<Longrightarrow> d' = IOWR_SRAM_ACC_CTRL b base SRAM_MM_WR_EN_MSK d \<Longrightarrow>
      ok d' \<and> mem d' = (mem d)(areg d := dreg d)"
    and rd_data: "ok d \<Longrightarrow> IORD_SRAM_ACC_DATA b base d = (v, d') \<Longrightarrow>
      ok d' \<and> mem d' = mem d \<and> v = ucast (dreg d)"
begin

lemma set_addr:
  assumes "ok d"
    and "d' = IOWR_SRAM_ACC_ADDR_L b base (addr AND SRAM_ADDR_L_MSK)
                (IOWR_SRAM_ACC_ADDR_H b base (drop_bit 16 addr AND SRAM_ADDR_H_MSK) d)"
  shows "ok d' \<and> mem d' = mem d \<and> areg d' = ucast addr"
proof -
  let ?d1 = "IOWR_SRAM_ACC_ADDR_H b base (drop_bit 16 addr AND SRAM_ADDR_H_MSK) d"
  have 1: "ok ?d1" "mem ?d1 = mem d"
    "areg ?d1 = (areg d AND 0xffff) OR push_bit 16 (ucast ((drop_bit 16 addr AND SRAM_ADDR_H_MSK) AND 3))"
    using wr_h [OF assms(1) refl, of "drop_bit 16 addr AND SRAM_ADDR_H_MSK"] by simp_all
  have "(areg ?d1 AND 0x30000) OR ucast ((addr AND SRAM_ADDR_L_MSK) AND 0xffff) = ucast addr"
  proof (rule bit_word_eqI)
    fix n assume "n < LENGTH(18)"
    then have "n < 18" by simp
    have m: "bit (0x30000 :: 18 word) n = (16 \<le> n)" "bit (0xffff :: 18 word) n = (n < 16)"
      "bit (0xffff :: u32) n = (n < 16)" "16 \<le> n \<Longrightarrow> bit (3 :: u32) (n - 16)"
      using \<open>n < 18\<close> by (auto simp: less_Suc_eq numeral_eq_Suc)
    show "bit ((areg ?d1 AND 0x30000) OR ucast ((addr AND SRAM_ADDR_L_MSK) AND 0xffff)) n
        = bit (ucast addr :: 18 word) n"
      using \<open>n < 18\<close> m
      by (auto simp: 1(3) [unfolded reg_map] reg_map bit_or_iff bit_and_iff bit_ucast_iff bit_push_bit_iff bit_drop_bit_eq)
  qed
  with wr_l [OF 1(1) assms(2)] 1(2) show ?thesis by simp
qed

lemma write_ok:
  assumes "ok d" and "d' = sram_write16 b base addr data d"
  shows "ok d' \<and> mem d' = (mem d)(ucast addr := data)"
proof -
  let ?d1 = "IOWR_SRAM_ACC_ADDR_L b base (addr AND SRAM_ADDR_L_MSK)
                (IOWR_SRAM_ACC_ADDR_H b base (drop_bit 16 addr AND SRAM_ADDR_H_MSK) d)"
  let ?d2 = "IOWR_SRAM_ACC_DATA b base (ucast data) ?d1"
  from set_addr [OF assms(1) refl, of addr] have 1: "ok ?d1" "mem ?d1 = mem d" "areg ?d1 = ucast addr"
    by simp_all
  from wr_data [OF 1(1) refl, of "ucast data"] 1 have 2: "ok ?d2" "mem ?d2 = mem d"
    "areg ?d2 = ucast addr" "dreg ?d2 = data" by simp_all
  from trig_wr [OF 2(1) refl] 2 assms(2) show ?thesis by (simp add: sram_write16_def)
qed

lemma read_ok:
  assumes "ok d" and "sram_read16 b base addr d = (v, d')"
  shows "ok d' \<and> mem d' = mem d \<and> v = mem d (ucast addr)"
proof -
  let ?d1 = "IOWR_SRAM_ACC_ADDR_L b base (addr AND SRAM_ADDR_L_MSK)
                (IOWR_SRAM_ACC_ADDR_H b base (drop_bit 16 addr AND SRAM_ADDR_H_MSK) d)"
  let ?d2 = "IOWR_SRAM_ACC_CTRL b base SRAM_MM_RD_EN_MSK ?d1"
  from set_addr [OF assms(1) refl, of addr] have 1: "ok ?d1" "mem ?d1 = mem d" "areg ?d1 = ucast addr"
    by simp_all
  from trig_rd [OF 1(1) refl] 1 have 2: "ok ?d2" "mem ?d2 = mem d" "dreg ?d2 = mem d (ucast addr)"
    by simp_all
  obtain w d3 where r: "IORD_SRAM_ACC_DATA b base ?d2 = (w, d3)" by fastforce
  from rd_data [OF 2(1) r] 2 r assms(2) show ?thesis by (auto simp: sram_read16_def)
qed

end

end
