(* ===== verification/Prsr.thy ===== *)
theory Prsr
  imports Bus
begin

text \<open>
  The driver of the WAV parser block, \<^verbatim>\<open>cortex/acortex/prsr/prsr.c\<close> and \<^verbatim>\<open>prsr.h\<close>: reading
  the file header the hardware has captured in its header RAM.
\<close>

subsection \<open>Registers\<close>

definition PRSR_CTRL_REG_ADDR :: u32 where [reg_map]: "PRSR_CTRL_REG_ADDR = 0x22000"

definition PRSR_BYTES_READ_H_REG_ADDR :: u32 where [reg_map]: "PRSR_BYTES_READ_H_REG_ADDR = 0x22020"

definition PRSR_BYTES_READ_L_REG_ADDR :: u32 where [reg_map]: "PRSR_BYTES_READ_L_REG_ADDR = 0x22030"

definition PRSR_HDR_RAM_RD_ADDR_REG_ADDR :: u32 where [reg_map]: "PRSR_HDR_RAM_RD_ADDR_REG_ADDR = 0x22040"

definition PRSR_HDR_RAM_RD_DATA_REG_ADDR :: u32 where [reg_map]: "PRSR_HDR_RAM_RD_DATA_REG_ADDR = 0x22050"

definition PRSR_EN_MSK :: u32 where [reg_map]: "PRSR_EN_MSK = 0x1"

definition IORD_PRSR_BYTES_READ_H :: "'d bus \<Rightarrow> u32 \<Rightarrow> 'd \<Rightarrow> u32 \<times> 'd" where
  "IORD_PRSR_BYTES_READ_H b base = IORD_32DIRECT b base PRSR_BYTES_READ_H_REG_ADDR"

definition IORD_PRSR_BYTES_READ_L :: "'d bus \<Rightarrow> u32 \<Rightarrow> 'd \<Rightarrow> u32 \<times> 'd" where
  "IORD_PRSR_BYTES_READ_L b base = IORD_32DIRECT b base PRSR_BYTES_READ_L_REG_ADDR"

definition IORD_PRSR_HDR_RAM_RD_DATA :: "'d bus \<Rightarrow> u32 \<Rightarrow> 'd \<Rightarrow> u32 \<times> 'd" where
  "IORD_PRSR_HDR_RAM_RD_DATA b base = IORD_32DIRECT b base PRSR_HDR_RAM_RD_DATA_REG_ADDR"

definition IOWR_PRSR_CTRL :: "'d bus \<Rightarrow> u32 \<Rightarrow> u32 \<Rightarrow> 'd \<Rightarrow> 'd" where
  "IOWR_PRSR_CTRL b base = IOWR_32DIRECT b base PRSR_CTRL_REG_ADDR"

definition IOWR_PRSR_HDR_RAM_RD_ADDR :: "'d bus \<Rightarrow> u32 \<Rightarrow> u32 \<Rightarrow> 'd \<Rightarrow> 'd" where
  "IOWR_PRSR_HDR_RAM_RD_ADDR b base = IOWR_32DIRECT b base PRSR_HDR_RAM_RD_ADDR_REG_ADDR"

subsection \<open>Driver functions\<close>

definition prsr_enable :: "'d bus \<Rightarrow> u32 \<Rightarrow> 'd \<Rightarrow> 'd" where
  "prsr_enable b base d = IOWR_PRSR_CTRL b base PRSR_EN_MSK d"

definition prsr_disable :: "'d bus \<Rightarrow> u32 \<Rightarrow> 'd \<Rightarrow> 'd" where
  "prsr_disable b base d = IOWR_PRSR_CTRL b base 0x0 d"

definition prsr_hdr_ram_read16 :: "'d bus \<Rightarrow> u32 \<Rightarrow> u8 \<Rightarrow> 'd \<Rightarrow> u16 \<times> 'd" where
  "prsr_hdr_ram_read16 b base addr d =
     (let d = IOWR_PRSR_HDR_RAM_RD_ADDR b base (ucast addr) d;
          (v, d) = IORD_PRSR_HDR_RAM_RD_DATA b base d
      in (ucast (v AND 0xffff), d))"

text \<open>The two register reads of the sum happen left to right, high half first.\<close>

definition prsr_get_bytes_read :: "'d bus \<Rightarrow> u32 \<Rightarrow> 'd \<Rightarrow> u32 \<times> 'd" where
  "prsr_get_bytes_read b base d =
     (let (h, d) = IORD_PRSR_BYTES_READ_H b base d;
          (l, d) = IORD_PRSR_BYTES_READ_L b base d
      in (push_bit 16 (h AND 0xffff) + (l AND 0xffff), d))"

partial_function (option) wait_hdr :: "'d bus \<Rightarrow> u32 \<Rightarrow> 'd \<Rightarrow> 'd option" where
  "wait_hdr b base d =
     (let (n, d) = prsr_get_bytes_read b base d
      in if n < 48 then wait_hdr b base (sleep_ms b 1 d) else Some d)"

text \<open>One turn of the copy loop: word \<open>i\<close> of the header RAM goes to element \<open>i\<close> of the buffer.\<close>

definition rd_hdr_word :: "'d bus \<Rightarrow> u32 \<Rightarrow> nat \<Rightarrow> u16 list \<times> 'd \<Rightarrow> u16 list \<times> 'd" where
  "rd_hdr_word b base i s =
     (let (bffr, d) = s; (v, d) = prsr_hdr_ram_read16 b base (of_nat i) d in (bffr[i := v], d))"

definition get_wav_hdr_frm_prsr :: "'d bus \<Rightarrow> u32 \<Rightarrow> u16 list \<Rightarrow> 'd \<Rightarrow> (u16 list \<times> 'd) option" where
  "get_wav_hdr_frm_prsr b base bffr d = do {
     d \<leftarrow> wait_hdr b base d;
     Some (fold (rd_hdr_word b base) [0..<23] (bffr, d))
   }"

lemmas prsr_io_defs = IORD_PRSR_BYTES_READ_H_def IORD_PRSR_BYTES_READ_L_def
  IORD_PRSR_HDR_RAM_RD_DATA_def IOWR_PRSR_CTRL_def IOWR_PRSR_HDR_RAM_RD_ADDR_def

subsection \<open>What the driver relies on\<close>

text \<open>
  The parser block: a counter of the bytes read so far, in two halves, and a header RAM behind
  an address register. \<open>rank\<close> bounds the time until 48 bytes have arrived; from then on the
  captured header words \<open>hdr\<close> no longer change.
\<close>

locale prsr_dev =
  fixes b :: "'d bus" and base :: u32 and ok :: "'d \<Rightarrow> bool"
    and ready :: "'d \<Rightarrow> bool" and hdr :: "'d \<Rightarrow> nat \<Rightarrow> u16" and rank :: "'d \<Rightarrow> nat"
  assumes count_ok: "ok d \<Longrightarrow> prsr_get_bytes_read b base d = (n, d') \<Longrightarrow>
      ok d' \<and> (n < 48 \<longrightarrow> rank (sleep_ms b 1 d') < rank d) \<and> (\<not> n < 48 \<longrightarrow> ready d')"
    and ms_ok: "ok d \<Longrightarrow> ok (sleep_ms b 1 d)"
    and hdr_rd: "ok d \<Longrightarrow> ready d \<Longrightarrow> i < 23 \<Longrightarrow> prsr_hdr_ram_read16 b base (of_nat i) d = (v, d') \<Longrightarrow>
      v = hdr d i \<and> ok d' \<and> ready d' \<and> hdr d' = hdr d"
begin

lemma wait_hdr_ends:
  assumes "ok d"
  shows "\<exists>d'. wait_hdr b base d = Some d' \<and> ok d' \<and> ready d'"
  using assms
proof (induction "rank d" arbitrary: d rule: less_induct)
  case less
  obtain n d1 where r: "prsr_get_bytes_read b base d = (n, d1)" by fastforce
  from count_ok [OF less.prems r] ms_ok less.hyps [of "sleep_ms b 1 d1"] show ?case
    by (subst wait_hdr.simps) (auto simp: r)
qed

lemma read_loop:
  assumes "ok d" "ready d" "n \<le> 23"
    and "(bffr', d') = fold (rd_hdr_word b base) [0..<n] (bffr, d)"
  shows "ok d' \<and> ready d' \<and> hdr d' = hdr d \<and> length bffr' = length bffr
    \<and> (\<forall>i < length bffr. bffr' ! i = (if i < n then hdr d i else bffr ! i))"
  using assms(3,4)
proof (induction n arbitrary: bffr' d')
  case 0
  with assms show ?case by simp
next
  case (Suc n)
  obtain bm dm where m: "(bm, dm) = fold (rd_hdr_word b base) [0..<n] (bffr, d)" by (metis surj_pair)
  from Suc m have IH: "ok dm" "ready dm" "hdr dm = hdr d" "length bm = length bffr"
    "\<forall>i < length bffr. bm ! i = (if i < n then hdr d i else bffr ! i)" by auto
  obtain v d1 where r: "prsr_hdr_ram_read16 b base (of_nat n) dm = (v, d1)" by fastforce
  have "(bffr', d') = rd_hdr_word b base n (bm, dm)" using Suc.prems(2) by (simp add: m [symmetric])
  with r have e: "bffr' = bm[n := v]" "d' = d1" by (simp_all add: rd_hdr_word_def)
  from hdr_rd [OF IH(1,2) _ r] Suc.prems(1) e IH(3-5) show ?case
    by (auto simp: less_Suc_eq nth_list_update)
qed

lemma get_hdr_ok:
  assumes "ok d" and "length bffr = 24"
  shows "\<exists>d1 bffr' d'. wait_hdr b base d = Some d1 \<and> get_wav_hdr_frm_prsr b base bffr d = Some (bffr', d')
    \<and> ok d' \<and> length bffr' = 24 \<and> (\<forall>i<23. bffr' ! i = hdr d1 i) \<and> bffr' ! 23 = bffr ! 23"
proof -
  from wait_hdr_ends [OF assms(1)] obtain d1 where 1: "wait_hdr b base d = Some d1" "ok d1" "ready d1"
    by blast
  obtain b2 d2 where l: "(b2, d2) = fold (rd_hdr_word b base) [0..<23] (bffr, d1)" by (metis surj_pair)
  from read_loop [OF 1(2,3) _ l] assms(2) have "ok d2 \<and> length b2 = 24 \<and> (\<forall>i<23. b2 ! i = hdr d1 i) \<and> b2 ! 23 = bffr ! 23"
    by simp
  with 1 l show ?thesis by (simp add: get_wav_hdr_frm_prsr_def del: upt_rec_numeral) (metis prod.inject)
qed

end

end
