(* ===== verification/Codec.thy ===== *)
theory Codec
  imports I2c_Drvr Ledos_Types
begin

text \<open>
  The control of the audio codec, \<^verbatim>\<open>codec/codec.c\<close> and \<^verbatim>\<open>codec.h\<close>. The codec's registers are
  write-only over I2C, so the code keeps a shadow of them: eleven sixteen-bit words, the
  codec's register number in the top seven bits and its value in the low nine. Every
  operation updates one shadow word and sends it.
\<close>

subsection \<open>Register fields\<close>

datatype codec_field =
    CODEC_LINVOL | CODEC_LIN_MUTE | CODEC_LRIN_BOTH
  | CODEC_RINVOL | CODEC_RIN_MUTE | CODEC_RLIN_BOTH
  | CODEC_LHPVOL | CODEC_LZCEN | CODEC_LRHP_BOTH
  | CODEC_RHPVOL | CODEC_RZCEN | CODEC_RLHP_BOTH
  | CODEC_MIC_BOOST | CODEC_MUTE_MIC | CODEC_INSEL | CODEC_BYPASS | CODEC_DAC_SEL | CODEC_SIDE_TONE | CODEC_SIDE_ATT
  | CODEC_ADC_HPD | CODEC_DEEMPH | CODEC_DAC_MU | CODEC_HPOR
  | CODEC_LINEINPD | CODEC_MICPD | CODEC_ADCPD | CODEC_DACPD | CODEC_OUTPD | CODEC_OSCPD | CODEC_CLKOUTPD | CODEC_PWROFF
  | CODEC_FORMAT | CODEC_IWL | CODEC_LRP | CODEC_LRSWAP | CODEC_MS | CODEC_BCLK_INV
  | CODEC_USB_NORM | CODEC_BOSR | CODEC_SR | CODEC_CLKI_DIV2 | CODEC_CLKO_DIV2
  | CODEC_ACTIVE

text \<open>The \<^verbatim>\<open>_IDX\<close>, \<^verbatim>\<open>_OFFST\<close> and \<^verbatim>\<open>_MSK\<close> macros of each field.\<close>

fun field_layout :: "codec_field \<Rightarrow> nat \<times> nat \<times> u8" where
  "field_layout CODEC_LINVOL = (0, 0, 0x1f)"
| "field_layout CODEC_LIN_MUTE = (0, 7, 0x1)"
| "field_layout CODEC_LRIN_BOTH = (0, 8, 0x1)"
| "field_layout CODEC_RINVOL = (1, 0, 0x1f)"
| "field_layout CODEC_RIN_MUTE = (1, 7, 0x1)"
| "field_layout CODEC_RLIN_BOTH = (1, 8, 0x1)"
| "field_layout CODEC_LHPVOL = (2, 0, 0x7f)"
| "field_layout CODEC_LZCEN = (2, 7, 0x1)"
| "field_layout CODEC_LRHP_BOTH = (2, 8, 0x1)"
| "field_layout CODEC_RHPVOL = (3, 0, 0x7f)"
| "field_layout CODEC_RZCEN = (3, 7, 0x1)"
| "field_layout CODEC_RLHP_BOTH = (3, 8, 0x1)"
| "field_layout CODEC_MIC_BOOST = (4, 0, 0x1)"
| "field_layout CODEC_MUTE_MIC = (4, 1, 0x1)"
| "field_layout CODEC_INSEL = (4, 2, 0x1)"
| "field_layout CODEC_BYPASS = (4, 3, 0x1)"
| "field_layout CODEC_DAC_SEL = (4, 4, 0x1)"
| "field_layout CODEC_SIDE_TONE = (4, 5, 0x1)"
| "field_layout CODEC_SIDE_ATT = (4, 6, 0x3)"
| "field_layout CODEC_ADC_HPD = (5, 0, 0x1)"
| "field_layout CODEC_DEEMPH = (5, 1, 0x3)"
| "field_layout CODEC_DAC_MU = (5, 3, 0x1)"
| "field_layout CODEC_HPOR = (5, 4, 0x1)"
| "field_layout CODEC_LINEINPD = (6, 0, 0x1)"
| "field_layout CODEC_MICPD = (6, 1, 0x1)"
| "field_layout CODEC_ADCPD = (6, 2, 0x1)"
| "field_layout CODEC_DACPD = (6, 3, 0x1)"
| "field_layout CODEC_OUTPD = (6, 4, 0x1)"
| "field_layout CODEC_OSCPD = (6, 5, 0x1)"
| "field_layout CODEC_CLKOUTPD = (6, 6, 0x1)"
| "field_layout CODEC_PWROFF = (6, 7, 0x1)"
| "field_layout CODEC_FORMAT = (7, 0, 0x3)"
| "field_layout CODEC_IWL = (7, 2, 0x3)"
| "field_layout CODEC_LRP = (7, 4, 0x1)"
| "field_layout CODEC_LRSWAP = (7, 5, 0x1)"
| "field_layout CODEC_MS = (7, 6, 0x1)"
| "field_layout CODEC_BCLK_INV = (7, 7, 0x1)"
| "field_layout CODEC_USB_NORM = (8, 0, 0x1)"
| "field_layout CODEC_BOSR = (8, 1, 0x1)"
| "field_layout CODEC_SR = (8, 2, 0xf)"
| "field_layout CODEC_CLKI_DIV2 = (8, 6, 0x1)"
| "field_layout CODEC_CLKO_DIV2 = (8, 7, 0x1)"
| "field_layout CODEC_ACTIVE = (9, 0, 0x1)"

definition field_idx :: "codec_field \<Rightarrow> nat" where "field_idx f = fst (field_layout f)"

definition field_offst :: "codec_field \<Rightarrow> nat" where "field_offst f = fst (snd (field_layout f))"

definition field_msk :: "codec_field \<Rightarrow> u8" where "field_msk f = snd (snd (field_layout f))"

lemmas field_defs = field_idx_def field_offst_def field_msk_def

definition CODEC_I2C_WRITE_ADDR :: u8 where [reg_map]: "CODEC_I2C_WRITE_ADDR = 0x34"

definition NO_OF_CODEC_REGS :: nat where [reg_map]: "NO_OF_CODEC_REGS = 11"

text \<open>The register indexes used by name.\<close>

definition CODEC_LEFT_LINE_IN_REG_IDX :: nat where [reg_map]: "CODEC_LEFT_LINE_IN_REG_IDX = 0"
definition CODEC_RIGHT_LINE_IN_REG_IDX :: nat where [reg_map]: "CODEC_RIGHT_LINE_IN_REG_IDX = 1"
definition CODEC_LEFT_HP_OUT_REG_IDX :: nat where [reg_map]: "CODEC_LEFT_HP_OUT_REG_IDX = 2"
definition CODEC_RIGHT_HP_OUT_REG_IDX :: nat where [reg_map]: "CODEC_RIGHT_HP_OUT_REG_IDX = 3"
definition CODEC_DIGITAL_AUD_PATH_REG_IDX :: nat where [reg_map]: "CODEC_DIGITAL_AUD_PATH_REG_IDX = 5"
definition CODEC_POWER_DOWN_REG_IDX :: nat where [reg_map]: "CODEC_POWER_DOWN_REG_IDX = 6"
definition CODEC_DIGITAL_AUD_IF_FMT_REG_IDX :: nat where [reg_map]: "CODEC_DIGITAL_AUD_IF_FMT_REG_IDX = 7"
definition CODEC_ACTIVE_CTRL_REG_IDX :: nat where [reg_map]: "CODEC_ACTIVE_CTRL_REG_IDX = 9"
definition CODEC_RESET_IDX :: nat where [reg_map]: "CODEC_RESET_IDX = 10"

datatype CODEC_IWL_VAL = IWL_16 | IWL_20 | IWL_24 | IWL_32

fun IWL_val :: "CODEC_IWL_VAL \<Rightarrow> u8" where
  "IWL_val IWL_16 = 0x0"
| "IWL_val IWL_20 = 0x1"
| "IWL_val IWL_24 = 0x2"
| "IWL_val IWL_32 = 0x3"

fun bps2iwl_lookup :: "BPS_T \<Rightarrow> CODEC_IWL_VAL" where
  "bps2iwl_lookup BPS_32 = IWL_32"
| "bps2iwl_lookup BPS_16 = IWL_16"

datatype SR_SEL = FS_8KHZ_SR | FS_32KHZ_SR | FS_44KHZ_SR | FS_48KHZ_SR | FS_88KHZ_SR | FS_96KHZ_SR

fun SR_val :: "SR_SEL \<Rightarrow> u8" where
  "SR_val FS_8KHZ_SR = 0x3"
| "SR_val FS_32KHZ_SR = 0x6"
| "SR_val FS_44KHZ_SR = 0x8"
| "SR_val FS_48KHZ_SR = 0x0"
| "SR_val FS_88KHZ_SR = 0xf"
| "SR_val FS_96KHZ_SR = 0x7"

fun fs2sr_lookup :: "FS_T \<Rightarrow> SR_SEL" where
  "fs2sr_lookup FS_8KHZ = FS_8KHZ_SR"
| "fs2sr_lookup FS_32KHZ = FS_32KHZ_SR"
| "fs2sr_lookup FS_44KHZ = FS_44KHZ_SR"
| "fs2sr_lookup FS_48KHZ = FS_48KHZ_SR"
| "fs2sr_lookup FS_88KHZ = FS_88KHZ_SR"
| "fs2sr_lookup FS_96KHZ = FS_96KHZ_SR"

datatype CODEC_PWR_ON_OFF = ON | OFF

fun PWR_val :: "CODEC_PWR_ON_OFF \<Rightarrow> u8" where
  "PWR_val ON = 0x0"
| "PWR_val OFF = 0x1"

subsection \<open>Operations\<close>

text \<open>The state: the shadow array and the hardware.\<close>

type_synonym 'd codec_st = "u16 list \<times> 'd"

text \<open>Sending one shadow word: every \<^verbatim>\<open>i2c_xtn_write16\<close> call of \<^verbatim>\<open>codec.c\<close> has this form.\<close>

definition codec_send :: "'d bus \<Rightarrow> nat \<Rightarrow> 'd codec_st \<Rightarrow> (I2C_RES \<times> 'd codec_st) option" where
  "codec_send b idx s = (case s of (sh, d) \<Rightarrow> do {
     (r, d) \<leftarrow> i2c_xtn_write16 b CORTEX_MM_SL_BASE CODEC_I2C_WRITE_ADDR (sh ! idx) d;
     Some (r, (sh, d)) })"

text \<open>\<^verbatim>\<open>codec_shadow_reg[idx] = v\<close> followed by the send.\<close>

definition codec_put :: "'d bus \<Rightarrow> nat \<Rightarrow> u16 \<Rightarrow> 'd codec_st \<Rightarrow> (I2C_RES \<times> 'd codec_st) option" where
  "codec_put b idx v s = (case s of (sh, d) \<Rightarrow> codec_send b idx (sh[idx := v], d))"

text \<open>\<^verbatim>\<open>if (call) return I2C_NACK_DETECTED;\<close> and the rest of the function.\<close>

definition nack_then ::
  "(I2C_RES \<times> 's) option \<Rightarrow> ('s \<Rightarrow> (I2C_RES \<times> 's) option) \<Rightarrow> (I2C_RES \<times> 's) option" where
  "nack_then m k = do { (r, s) \<leftarrow> m; if r \<noteq> I2C_OK then Some (I2C_NACK_DETECTED, s) else k s }"

definition codec_defaults :: "u16 list" where
  "codec_defaults = [0x97, 0x297, 0x479, 0x679, 0x80a, 0xa08, 0xc9f, 0xe0a, 0x1000, 0x1200, 0x1e00]"

definition codec_reset :: "'d bus \<Rightarrow> 'd codec_st \<Rightarrow> (I2C_RES \<times> 'd codec_st) option" where
  "codec_reset b s = (case s of (sh, d) \<Rightarrow> codec_send b CODEC_RESET_IDX (codec_defaults, d))"

definition config_word :: "u16 \<Rightarrow> nat \<Rightarrow> u8 \<Rightarrow> u8 \<Rightarrow> u16" where
  "config_word w offst msk val =
     (w AND NOT (push_bit offst (ucast msk))) OR push_bit offst (ucast (val AND msk))"

definition codec_config_reg ::
  "'d bus \<Rightarrow> codec_field \<Rightarrow> u8 \<Rightarrow> 'd codec_st \<Rightarrow> (I2C_RES \<times> 'd codec_st) option" where
  "codec_config_reg b f val s = (case s of (sh, d) \<Rightarrow>
     codec_put b (field_idx f) (config_word (sh ! field_idx f) (field_offst f) (field_msk f) val) (sh, d))"

definition codec_sr_update :: "'d bus \<Rightarrow> SR_SEL \<Rightarrow> 'd codec_st \<Rightarrow> (I2C_RES \<times> 'd codec_st) option" where
  "codec_sr_update b val = codec_config_reg b CODEC_SR (SR_val val)"

definition codec_iwl_update :: "'d bus \<Rightarrow> CODEC_IWL_VAL \<Rightarrow> 'd codec_st \<Rightarrow> (I2C_RES \<times> 'd codec_st) option" where
  "codec_iwl_update b val = codec_config_reg b CODEC_IWL (IWL_val val)"

definition codec_sleep :: "'d bus \<Rightarrow> nat \<Rightarrow> 'd codec_st \<Rightarrow> 'd codec_st" where
  "codec_sleep b n s = (case s of (sh, d) \<Rightarrow> (sh, sleep_ms b n d))"

definition codec_init :: "'d bus \<Rightarrow> BPS_T \<Rightarrow> FS_T \<Rightarrow> 'd codec_st \<Rightarrow> (I2C_RES \<times> 'd codec_st) option" where
  "codec_init b bps fs s =
     nack_then (codec_reset b s) (\<lambda>s.
     nack_then (codec_put b CODEC_POWER_DOWN_REG_IDX 0xc10 (codec_sleep b 100 s)) (\<lambda>s.
     nack_then (codec_put b CODEC_LEFT_LINE_IN_REG_IDX 0x17 s) (\<lambda>s.
     nack_then (codec_put b CODEC_RIGHT_LINE_IN_REG_IDX 0x217 s) (\<lambda>s.
     nack_then (codec_put b CODEC_LEFT_HP_OUT_REG_IDX 0x4f9 s) (\<lambda>s.
     nack_then (codec_put b CODEC_RIGHT_HP_OUT_REG_IDX 0x6f9 s) (\<lambda>s.
     nack_then (codec_put b CODEC_DIGITAL_AUD_PATH_REG_IDX 0xa00 s) (\<lambda>s.
     nack_then (codec_put b CODEC_DIGITAL_AUD_IF_FMT_REG_IDX 0xe0f s) (\<lambda>s.
     nack_then (codec_iwl_update b (bps2iwl_lookup bps) s) (\<lambda>s.
     nack_then (codec_sr_update b (fs2sr_lookup fs) s) (\<lambda>s.
     nack_then (codec_put b CODEC_ACTIVE_CTRL_REG_IDX 0x1201 s) (\<lambda>s.
     nack_then (codec_put b CODEC_POWER_DOWN_REG_IDX 0xc00 s) (\<lambda>s.
     Some (I2C_OK, s)))))))))))))"

definition codec_dsp_if_activate :: "'d bus \<Rightarrow> 'd codec_st \<Rightarrow> (I2C_RES \<times> 'd codec_st) option" where
  "codec_dsp_if_activate b = codec_config_reg b CODEC_ACTIVE 0x1"

definition codec_dsp_if_inactivate :: "'d bus \<Rightarrow> 'd codec_st \<Rightarrow> (I2C_RES \<times> 'd codec_st) option" where
  "codec_dsp_if_inactivate b = codec_config_reg b CODEC_ACTIVE 0x0"

definition codec_dac_activate :: "'d bus \<Rightarrow> 'd codec_st \<Rightarrow> (I2C_RES \<times> 'd codec_st) option" where
  "codec_dac_activate b s =
     nack_then (codec_config_reg b CODEC_DACPD 0x0 s) (\<lambda>s.
     nack_then (codec_config_reg b CODEC_DAC_SEL 0x1 s) (\<lambda>s.
     nack_then (codec_config_reg b CODEC_DAC_MU 0x0 s) (\<lambda>s. Some (I2C_OK, s))))"

definition codec_dac_inactivate :: "'d bus \<Rightarrow> 'd codec_st \<Rightarrow> (I2C_RES \<times> 'd codec_st) option" where
  "codec_dac_inactivate b s =
     nack_then (codec_config_reg b CODEC_DAC_MU 0x1 s) (\<lambda>s.
     nack_then (codec_config_reg b CODEC_DAC_SEL 0x0 s) (\<lambda>s.
     nack_then (codec_config_reg b CODEC_DACPD 0x1 s) (\<lambda>s. Some (I2C_OK, s))))"

definition codec_pwr_off_n_on :: "'d bus \<Rightarrow> CODEC_PWR_ON_OFF \<Rightarrow> 'd codec_st \<Rightarrow> (I2C_RES \<times> 'd codec_st) option" where
  "codec_pwr_off_n_on b val = codec_config_reg b CODEC_PWROFF (PWR_val val)"

definition codec_linein_pwr_dwn_n_up :: "'d bus \<Rightarrow> CODEC_PWR_ON_OFF \<Rightarrow> 'd codec_st \<Rightarrow> (I2C_RES \<times> 'd codec_st) option" where
  "codec_linein_pwr_dwn_n_up b val = codec_config_reg b CODEC_LINEINPD (PWR_val val)"

definition codec_lineout_pwr_dwn_n_up :: "'d bus \<Rightarrow> CODEC_PWR_ON_OFF \<Rightarrow> 'd codec_st \<Rightarrow> (I2C_RES \<times> 'd codec_st) option" where
  "codec_lineout_pwr_dwn_n_up b val = codec_config_reg b CODEC_OUTPD (PWR_val val)"

definition codec_adc_hpf_enable :: "'d bus \<Rightarrow> CODEC_PWR_ON_OFF \<Rightarrow> 'd codec_st \<Rightarrow> (I2C_RES \<times> 'd codec_st) option" where
  "codec_adc_hpf_enable b val = codec_config_reg b CODEC_ADC_HPD (PWR_val val)"

definition codec_adc_pwr_dwn_n_up :: "'d bus \<Rightarrow> CODEC_PWR_ON_OFF \<Rightarrow> 'd codec_st \<Rightarrow> (I2C_RES \<times> 'd codec_st) option" where
  "codec_adc_pwr_dwn_n_up b val = codec_config_reg b CODEC_ADCPD (PWR_val val)"

subsection \<open>The fields and the shadow words\<close>

definition field_bits :: "codec_field \<Rightarrow> u16" where
  "field_bits f = push_bit (field_offst f) (ucast (field_msk f))"

definition all_fields :: "codec_field list" where
  "all_fields =
     [CODEC_LINVOL, CODEC_LIN_MUTE, CODEC_LRIN_BOTH, CODEC_RINVOL, CODEC_RIN_MUTE, CODEC_RLIN_BOTH,
      CODEC_LHPVOL, CODEC_LZCEN, CODEC_LRHP_BOTH, CODEC_RHPVOL, CODEC_RZCEN, CODEC_RLHP_BOTH,
      CODEC_MIC_BOOST, CODEC_MUTE_MIC, CODEC_INSEL, CODEC_BYPASS, CODEC_DAC_SEL, CODEC_SIDE_TONE, CODEC_SIDE_ATT,
      CODEC_ADC_HPD, CODEC_DEEMPH, CODEC_DAC_MU, CODEC_HPOR,
      CODEC_LINEINPD, CODEC_MICPD, CODEC_ADCPD, CODEC_DACPD, CODEC_OUTPD, CODEC_OSCPD, CODEC_CLKOUTPD, CODEC_PWROFF,
      CODEC_FORMAT, CODEC_IWL, CODEC_LRP, CODEC_LRSWAP, CODEC_MS, CODEC_BCLK_INV,
      CODEC_USB_NORM, CODEC_BOSR, CODEC_SR, CODEC_CLKI_DIV2, CODEC_CLKO_DIV2, CODEC_ACTIVE]"

lemma all_fields_complete: "f \<in> set all_fields"
  by (cases f) (simp_all add: all_fields_def)

lemma field_fits: "field_idx f < 10 \<and> field_bits f AND 0xfe00 = 0"
  by (cases f) (simp_all add: field_bits_def field_defs)

lemma field_offst_bound: "field_offst f < 9"
  by (cases f) (simp_all add: field_defs)

lemma field_bits_disjoint_check:
  "list_all (\<lambda>f. list_all (\<lambda>g. f = g \<or> field_idx f \<noteq> field_idx g \<or> field_bits f AND field_bits g = 0)
     all_fields) all_fields"
  by code_simp

lemma field_bits_disjoint:
  "f \<noteq> g \<Longrightarrow> field_idx f = field_idx g \<Longrightarrow> field_bits f AND field_bits g = 0"
  using field_bits_disjoint_check all_fields_complete by (force simp: list_all_iff)

lemma bit_field_bits: "bit (field_bits f) n \<longleftrightarrow> field_offst f \<le> n \<and> n < 16 \<and> bit (field_msk f) (n - field_offst f)"
  by (auto simp: field_bits_def bit_push_bit_iff bit_ucast_iff dest: bit_imp_le_length)

lemma bit_config_word:
  "n < 16 \<Longrightarrow> bit (config_word w (field_offst f) (field_msk f) v) n =
     (if bit (field_bits f) n then bit v (n - field_offst f) else bit w n)"
  by (auto simp: config_word_def bit_field_bits bit_or_iff bit_and_iff bit_not_iff_eq bit_push_bit_iff bit_ucast_iff
           dest: bit_imp_le_length)

text \<open>The register number in the top seven bits: the index, but fifteen for the reset register.\<close>

definition reg_no :: "nat \<Rightarrow> u16" where
  "reg_no i = (if i = CODEC_RESET_IDX then 15 else of_nat i)"

definition shadow_inv :: "u16 list \<Rightarrow> bool" where
  "shadow_inv sh \<longleftrightarrow> length sh = NO_OF_CODEC_REGS \<and> list_all (\<lambda>i. drop_bit 9 (sh ! i) = reg_no i) [0..<NO_OF_CODEC_REGS]"

lemma shadow_invD: "shadow_inv sh \<Longrightarrow> i < 11 \<Longrightarrow> drop_bit 9 (sh ! i) = reg_no i"
  by (simp add: shadow_inv_def list_all_iff reg_map)

lemma shadow_inv_length [simp]: "shadow_inv sh \<Longrightarrow> length sh = 11"
  by (simp add: shadow_inv_def reg_map)

lemma shadow_inv_defaults: "shadow_inv codec_defaults"
  by code_simp

lemma shadow_inv_update:
  "shadow_inv sh \<Longrightarrow> drop_bit 9 v = reg_no i \<Longrightarrow> shadow_inv (sh[i := v])"
proof -
  assume sh: "shadow_inv sh" and v: "drop_bit 9 v = reg_no i"
  have "drop_bit 9 (sh[i := v] ! j) = reg_no j" if "j < 11" for j
    using that sh v shadow_invD [OF sh that] by (cases "j = i") simp_all
  with sh show ?thesis by (simp add: shadow_inv_def list_all_iff reg_map del: upt_rec_numeral)
qed

lemma config_word_reg_no: "drop_bit 9 (config_word w (field_offst f) (field_msk f) v) = drop_bit 9 w"
proof (rule bit_word_eqI)
  fix n assume "n < LENGTH(16)"
  have "\<not> bit (field_bits f) (9 + n)"
  proof
    assume b: "bit (field_bits f) (9 + n)"
    then have "bit (0xfe00 :: u16) (9 + n)"
      using bit_imp_le_length [OF b] by (auto simp: less_Suc_eq numeral_eq_Suc)
    with b have "bit (field_bits f AND 0xfe00) (9 + n)" by (simp add: bit_and_iff)
    with field_fits [of f] show False by simp
  qed
  then show "bit (drop_bit 9 (config_word w (field_offst f) (field_msk f) v)) n = bit (drop_bit 9 w) n"
    by (cases "9 + n < 16")
       (auto simp: bit_drop_bit_eq bit_config_word dest: bit_imp_le_length)
qed

lemma shadow_inv_config:
  "shadow_inv sh \<Longrightarrow> shadow_inv (sh[field_idx f := config_word (sh ! field_idx f) (field_offst f) (field_msk f) v])"
  using field_fits [of f] by (auto intro!: shadow_inv_update simp: config_word_reg_no shadow_invD)

text \<open>Reading a field of a shadow word back.\<close>

definition field_get :: "codec_field \<Rightarrow> u16 list \<Rightarrow> u8" where
  "field_get f sh = ucast (drop_bit (field_offst f) (sh ! field_idx f)) AND field_msk f"

lemma bit_field_get:
  "bit (field_get f sh) n \<longleftrightarrow> bit (sh ! field_idx f) (field_offst f + n) \<and> bit (field_msk f) n"
  by (auto simp: field_get_def bit_and_iff bit_ucast_iff bit_drop_bit_eq dest: bit_imp_le_length)

lemma field_get_same:
  assumes "shadow_inv sh"
  shows "field_get f (sh[field_idx f := config_word (sh ! field_idx f) (field_offst f) (field_msk f) v])
       = v AND field_msk f"
proof (rule bit_word_eqI)
  fix n assume n: "n < LENGTH(8)"
  have "field_idx f < length sh" using assms field_fits [of f] by simp
  moreover have "field_offst f + n < 16 \<or> \<not> bit (field_msk f) n"
    using n by (cases f) (auto simp: field_defs less_Suc_eq numeral_eq_Suc)
  ultimately show "bit (field_get f (sh[field_idx f := config_word (sh ! field_idx f) (field_offst f) (field_msk f) v])) n
      = bit (v AND field_msk f) n"
    by (auto simp: bit_field_get bit_config_word bit_field_bits bit_and_iff)
qed

lemma field_get_other:
  assumes "shadow_inv sh" and "f \<noteq> g"
  shows "field_get g (sh[field_idx f := config_word (sh ! field_idx f) (field_offst f) (field_msk f) v]) = field_get g sh"
proof (cases "field_idx f = field_idx g")
  case False
  then show ?thesis by (simp add: field_get_def)
next
  case True
  have len: "field_idx g < length sh" using assms field_fits [of g] by simp
  show ?thesis
  proof (rule bit_word_eqI)
    fix n assume n: "n < LENGTH(8)"
    have "\<not> (bit (field_msk g) n \<and> bit (field_bits f) (field_offst g + n))"
    proof
      assume *: "bit (field_msk g) n \<and> bit (field_bits f) (field_offst g + n)"
      then have "bit (field_bits g) (field_offst g + n)"
        using bit_imp_le_length [of "field_bits f" "field_offst g + n"] by (simp add: bit_field_bits)
      with * have "bit (field_bits f AND field_bits g) (field_offst g + n)" by (simp add: bit_and_iff)
      with field_bits_disjoint [OF assms(2) True] show False by simp
    qed
    moreover have "field_offst g + n < 16 \<or> \<not> bit (field_msk g) n"
      using n by (cases g) (auto simp: field_defs less_Suc_eq numeral_eq_Suc)
    ultimately show "bit (field_get g (sh[field_idx f := config_word (sh ! field_idx f) (field_offst f) (field_msk f) v])) n
        = bit (field_get g sh) n"
      using True len by (auto simp: bit_field_get bit_config_word)
  qed
qed

text \<open>A sequence of field updates: the shadow it leaves and the words it sends.\<close>

definition cfg :: "codec_field \<times> u8 \<Rightarrow> u16 list \<Rightarrow> u16 list" where
  "cfg fv sh = (case fv of (f, v) \<Rightarrow>
     sh[field_idx f := config_word (sh ! field_idx f) (field_offst f) (field_msk f) v])"

fun cfg_words :: "(codec_field \<times> u8) list \<Rightarrow> u16 list \<Rightarrow> u16 list" where
  "cfg_words [] sh = []"
| "cfg_words (fv # fvs) sh = cfg fv sh ! field_idx (fst fv) # cfg_words fvs (cfg fv sh)"

lemma cfg_inv [simp]: "shadow_inv sh \<Longrightarrow> shadow_inv (cfg fv sh)"
  by (simp add: cfg_def shadow_inv_config split: prod.split)

lemma field_get_cfg:
  "shadow_inv sh \<Longrightarrow> field_get g (cfg (f, v) sh) = (if f = g then v AND field_msk f else field_get g sh)"
  by (simp add: cfg_def field_get_same field_get_other)

subsection \<open>Operations as words on the wire\<close>

text \<open>
  \<open>sends ok wire obs m sh ws sh'\<close>: from shadow \<open>sh\<close> the operation \<open>m\<close> always comes back; it has sent
  the words \<open>ws\<close> to the codec, in order, and left the shadow \<open>sh'\<close>; or it stopped at the first
  word that was not acknowledged, having sent the words up to and including that one, and says
  so. Either way the shadow is well formed and the hardware in order; \<open>obs\<close> relates the two to what
  was to be seen on the data line.
\<close>

definition sends ::
  "('d \<Rightarrow> bool) \<Rightarrow> ('d \<Rightarrow> (u8 \<times> u16) list) \<Rightarrow> ('d \<Rightarrow> (u8 \<times> u16) list \<Rightarrow> bool \<Rightarrow> 'd \<Rightarrow> bool) \<Rightarrow> ('d codec_st \<Rightarrow> (I2C_RES \<times> 'd codec_st) option)
    \<Rightarrow> u16 list \<Rightarrow> u16 list \<Rightarrow> u16 list \<Rightarrow> bool" where
  "sends ok wire obs m sh ws sh' \<longleftrightarrow> (\<forall>d. ok d \<longrightarrow> (\<exists>res sh2 d2 k.
     m (sh, d) = Some (res, (sh2, d2)) \<and> ok d2 \<and> shadow_inv sh2
     \<and> wire d2 = wire d @ map (Pair CODEC_I2C_WRITE_ADDR) (take k ws) \<and> k \<le> length ws
     \<and> obs d (map (Pair CODEC_I2C_WRITE_ADDR) (take k ws)) (res = I2C_OK) d2
     \<and> (if res = I2C_OK then k = length ws \<and> sh2 = sh' else res = I2C_NACK_DETECTED \<and> 0 < k)))"

lemma sendsE:
  assumes "sends ok wire obs m sh ws sh'" and "ok d"
  obtains res sh2 d2 k where "m (sh, d) = Some (res, (sh2, d2))" "ok d2" "shadow_inv sh2"
    "wire d2 = wire d @ map (Pair CODEC_I2C_WRITE_ADDR) (take k ws)" "k \<le> length ws"
    "obs d (map (Pair CODEC_I2C_WRITE_ADDR) (take k ws)) (res = I2C_OK) d2"
    "if res = I2C_OK then k = length ws \<and> sh2 = sh' else res = I2C_NACK_DETECTED \<and> 0 < k"
proof -
  from assms have "\<exists>res sh2 d2 k. m (sh, d) = Some (res, (sh2, d2)) \<and> ok d2 \<and> shadow_inv sh2
     \<and> wire d2 = wire d @ map (Pair CODEC_I2C_WRITE_ADDR) (take k ws) \<and> k \<le> length ws
     \<and> obs d (map (Pair CODEC_I2C_WRITE_ADDR) (take k ws)) (res = I2C_OK) d2
     \<and> (if res = I2C_OK then k = length ws \<and> sh2 = sh' else res = I2C_NACK_DETECTED \<and> 0 < k)"
    unfolding sends_def by blast
  then show thesis using that by (elim exE conjE)
qed

lemma sends_from:
  "sends ok wire obs m' sh2 ws sh' \<Longrightarrow> (\<And>d. m (sh, d) = m' (sh2, d)) \<Longrightarrow> sends ok wire obs m sh ws sh'"
  by (simp add: sends_def)

lemma sends_done: "shadow_inv sh \<Longrightarrow> sends ok wire (observed busy line ready S) (\<lambda>s. Some (I2C_OK, s)) sh [] sh"
  by (simp add: sends_def observed_none)

lemma sends_then:
  assumes 1: "sends ok wire (observed busy line ready S) m sh ws1 sh1" and 2: "sends ok wire (observed busy line ready S) m2 sh1 ws2 sh2"
  shows "sends ok wire (observed busy line ready S) (\<lambda>s. nack_then (m s) m2) sh (ws1 @ ws2) sh2"
  unfolding sends_def
proof (intro allI impI)
  fix d assume "ok d"
  let ?P = "map (Pair CODEC_I2C_WRITE_ADDR)" and ?obs = "observed busy line ready S"
  from sendsE [OF 1 \<open>ok d\<close>] obtain res s1 d1 k where r: "m (sh, d) = Some (res, (s1, d1))" "ok d1" "shadow_inv s1"
    "wire d1 = wire d @ ?P (take k ws1)" "k \<le> length ws1" "?obs d (?P (take k ws1)) (res = I2C_OK) d1"
    "if res = I2C_OK then k = length ws1 \<and> s1 = sh1 else res = I2C_NACK_DETECTED \<and> 0 < k" .
  show "\<exists>res s2 d2 k. nack_then (m (sh, d)) m2 = Some (res, (s2, d2)) \<and> ok d2 \<and> shadow_inv s2
     \<and> wire d2 = wire d @ ?P (take k (ws1 @ ws2)) \<and> k \<le> length (ws1 @ ws2)
     \<and> ?obs d (?P (take k (ws1 @ ws2))) (res = I2C_OK) d2
     \<and> (if res = I2C_OK then k = length (ws1 @ ws2) \<and> s2 = sh2 else res = I2C_NACK_DETECTED \<and> 0 < k)"
  proof (cases "res = I2C_OK")
    case False
    with r show ?thesis
      by (intro exI [of _ res] exI [of _ s1] exI [of _ d1] exI [of _ k]) (auto simp: nack_then_def)
  next
    case True
    with r have s1: "s1 = sh1" "k = length ws1" "?obs d (?P ws1) True d1" by simp_all
    from sendsE [OF 2 r(2)] obtain res2 s2 d2 k2 where q: "m2 (sh1, d1) = Some (res2, (s2, d2))" "ok d2" "shadow_inv s2"
      "wire d2 = wire d1 @ ?P (take k2 ws2)" "k2 \<le> length ws2" "?obs d1 (?P (take k2 ws2)) (res2 = I2C_OK) d2"
      "if res2 = I2C_OK then k2 = length ws2 \<and> s2 = sh2 else res2 = I2C_NACK_DETECTED \<and> 0 < k2" .
    have "?obs d (?P ws1 @ ?P (take k2 ws2)) (res2 = I2C_OK) d2" by (rule observed_then [OF s1(3) q(6)])
    with r q True s1(1,2) show ?thesis
      by (intro exI [of _ res2] exI [of _ s2] exI [of _ d2] exI [of _ "length ws1 + k2"])
         (auto simp: nack_then_def)
  qed
qed

text \<open>The codec on the I2C master of the base address the code uses.\<close>

locale codec_bus = i2c_dev b CORTEX_MM_SL_BASE ok busy nack areg dreg wire rank line ready proper S
  for b :: "'d bus" and ok busy nack areg dreg wire rank line ready proper S
begin

abbreviation obs :: "'d \<Rightarrow> (u8 \<times> u16) list \<Rightarrow> bool \<Rightarrow> 'd \<Rightarrow> bool" where
  "obs \<equiv> observed busy line ready S"

lemma sends_send:
  assumes "shadow_inv sh" and "idx < 11"
  shows "sends ok wire obs (codec_send b idx) sh [sh ! idx] sh"
  unfolding sends_def
proof (intro allI impI)
  fix d assume "ok d"
  from i2c_write_total [OF this, of CODEC_I2C_WRITE_ADDR "sh ! idx"] obtain res d' where
    "i2c_xtn_write16 b CORTEX_MM_SL_BASE CODEC_I2C_WRITE_ADDR (sh ! idx) d = Some (res, d')" "ok d'"
    "wire d' = wire d @ [(CODEC_I2C_WRITE_ADDR, sh ! idx)]" "obs d [(CODEC_I2C_WRITE_ADDR, sh ! idx)] (res = I2C_OK) d'"
    "res = I2C_OK \<or> res = I2C_NACK_DETECTED" by (auto simp: reg_map split: if_splits)
  with assms(1) show "\<exists>res s2 d2 k. codec_send b idx (sh, d) = Some (res, (s2, d2)) \<and> ok d2 \<and> shadow_inv s2
     \<and> wire d2 = wire d @ map (Pair CODEC_I2C_WRITE_ADDR) (take k [sh ! idx]) \<and> k \<le> length [sh ! idx]
     \<and> obs d (map (Pair CODEC_I2C_WRITE_ADDR) (take k [sh ! idx])) (res = I2C_OK) d2
     \<and> (if res = I2C_OK then k = length [sh ! idx] \<and> s2 = sh else res = I2C_NACK_DETECTED \<and> 0 < k)"
    by (intro exI [of _ res] exI [of _ sh] exI [of _ d'] exI [of _ 1]) (auto simp: codec_send_def)
qed

lemma sends_reset: "sends ok wire obs (codec_reset b) sh [0x1e00] codec_defaults"
proof (rule sends_from)
  show "sends ok wire obs (codec_send b CODEC_RESET_IDX) codec_defaults [0x1e00] codec_defaults"
    using sends_send [OF shadow_inv_defaults, of CODEC_RESET_IDX] by (simp add: reg_map codec_defaults_def)
qed (simp add: codec_reset_def)

lemma sends_put:
  assumes "shadow_inv sh" and "idx < 11" and "drop_bit 9 v = reg_no idx"
  shows "sends ok wire obs (codec_put b idx v) sh [v] (sh[idx := v])"
proof (rule sends_from)
  show "sends ok wire obs (codec_send b idx) (sh[idx := v]) [v] (sh[idx := v])"
    using sends_send [OF shadow_inv_update [OF assms(1,3)] assms(2)] assms(1,2) by simp
qed (simp add: codec_put_def)

lemma sends_config:
  assumes "shadow_inv sh" and "w = config_word (sh ! field_idx f) (field_offst f) (field_msk f) val"
  shows "sends ok wire obs (codec_config_reg b f val) sh [w] (sh[field_idx f := w])"
proof (rule sends_from)
  show "sends ok wire obs (codec_put b (field_idx f) w) sh [w] (sh[field_idx f := w])"
    using assms field_fits [of f] by (auto intro!: sends_put simp: config_word_reg_no shadow_invD)
qed (simp add: codec_config_reg_def assms(2))

lemma slept: "ok d \<Longrightarrow> obs d [] True (sleep_ms b n d)"
  unfolding observed_def using ms_line [of d n] ms_idle [of d n]
  by (auto simp: frames_def answered_def intro!: exI [of _ "line (sleep_ms b n d)"])

lemma sends_sleep:
  assumes m: "sends ok wire obs m sh ws sh'"
  shows "sends ok wire obs (\<lambda>s. m (codec_sleep b n s)) sh ws sh'"
  unfolding sends_def
proof (intro allI impI)
  fix d assume d: "ok d"
  let ?d = "sleep_ms b n d"
  from ms_ok [OF d, of n] have ok: "ok ?d" and w: "wire ?d = wire d" by simp_all
  from sendsE [OF m ok] obtain res sh2 d2 k where r: "m (sh, ?d) = Some (res, (sh2, d2))" "ok d2" "shadow_inv sh2"
    "wire d2 = wire ?d @ map (Pair CODEC_I2C_WRITE_ADDR) (take k ws)" "k \<le> length ws"
    "obs ?d (map (Pair CODEC_I2C_WRITE_ADDR) (take k ws)) (res = I2C_OK) d2"
    "if res = I2C_OK then k = length ws \<and> sh2 = sh' else res = I2C_NACK_DETECTED \<and> 0 < k" .
  have "obs d (map (Pair CODEC_I2C_WRITE_ADDR) (take k ws)) (res = I2C_OK) d2" using observed_then [OF slept [OF d] r(6)] by simp
  with r w show "\<exists>res s2 d2 k. m (codec_sleep b n (sh, d)) = Some (res, (s2, d2)) \<and> ok d2 \<and> shadow_inv s2
     \<and> wire d2 = wire d @ map (Pair CODEC_I2C_WRITE_ADDR) (take k ws) \<and> k \<le> length ws
     \<and> obs d (map (Pair CODEC_I2C_WRITE_ADDR) (take k ws)) (res = I2C_OK) d2
     \<and> (if res = I2C_OK then k = length ws \<and> s2 = sh' else res = I2C_NACK_DETECTED \<and> 0 < k)"
    by (intro exI [of _ res] exI [of _ sh2] exI [of _ d2] exI [of _ k]) (simp add: codec_sleep_def)
qed

end

subsection \<open>The power-on sequence\<close>

definition codec_init_words :: "BPS_T \<Rightarrow> FS_T \<Rightarrow> u16 list" where
  "codec_init_words bps fs =
     [0x1e00, 0xc10, 0x17, 0x217, 0x4f9, 0x6f9, 0xa00, 0xe0f,
      0xe03 OR push_bit 2 (ucast (IWL_val (bps2iwl_lookup bps))),
      0x1000 OR push_bit 2 (ucast (SR_val (fs2sr_lookup fs))), 0x1201, 0xc00]"

definition codec_init_shadow :: "BPS_T \<Rightarrow> FS_T \<Rightarrow> u16 list" where
  "codec_init_shadow bps fs =
     [0x17, 0x217, 0x4f9, 0x6f9, 0x80a, 0xa00, 0xc00,
      0xe03 OR push_bit 2 (ucast (IWL_val (bps2iwl_lookup bps))),
      0x1000 OR push_bit 2 (ucast (SR_val (fs2sr_lookup fs))), 0x1201, 0x1e00]"

lemma shadow_inv_explicit:
  "shadow_inv [r0, r1, r2, r3, r4, r5, r6, r7, r8, r9, r10] \<longleftrightarrow>
     drop_bit 9 r0 = 0 \<and> drop_bit 9 r1 = 1 \<and> drop_bit 9 r2 = 2 \<and> drop_bit 9 r3 = 3 \<and> drop_bit 9 r4 = 4
     \<and> drop_bit 9 r5 = 5 \<and> drop_bit 9 r6 = 6 \<and> drop_bit 9 r7 = 7 \<and> drop_bit 9 r8 = 8 \<and> drop_bit 9 r9 = 9
     \<and> drop_bit 9 r10 = 15"
proof -
  have "[0..<11] = [0, 1, 2, 3, 4, 5, 6, 7, 8, 9, 10 :: nat]" by (simp add: upt_rec)
  then show ?thesis by (simp add: shadow_inv_def reg_no_def reg_map)
qed

lemma config_iwl: "config_word 0xe0f (field_offst CODEC_IWL) (field_msk CODEC_IWL) (IWL_val v)
    = 0xe03 OR push_bit 2 (ucast (IWL_val v))"
  by (cases v) (simp_all add: config_word_def field_defs)

lemma config_sr: "config_word 0x1000 (field_offst CODEC_SR) (field_msk CODEC_SR) (SR_val v)
    = 0x1000 OR push_bit 2 (ucast (SR_val v))"
  by (cases v) (simp_all add: config_word_def field_defs)

lemma drop_iwl: "drop_bit 9 (0xe03 OR push_bit 2 (ucast (IWL_val v)) :: u16) = 7"
  by (cases v) simp_all

lemma drop_sr: "drop_bit 9 (0x1000 OR push_bit 2 (ucast (SR_val v)) :: u16) = 8"
  by (cases v) simp_all

context codec_bus
begin

lemma sends_put_then:
  assumes "shadow_inv sh" and "idx < 11" and "drop_bit 9 v = reg_no idx"
    and "sends ok wire obs m2 (sh[idx := v]) ws sh'"
  shows "sends ok wire obs (\<lambda>s. nack_then (codec_put b idx v s) m2) sh (v # ws) sh'"
  using sends_then [OF sends_put [OF assms(1-3)] assms(4)] by simp

lemma sends_config_then:
  assumes "shadow_inv sh" and "w = config_word (sh ! field_idx f) (field_offst f) (field_msk f) val"
    and "sends ok wire obs m2 (sh[field_idx f := w]) ws sh'"
  shows "sends ok wire obs (\<lambda>s. nack_then (codec_config_reg b f val s) m2) sh (w # ws) sh'"
  using sends_then [OF sends_config [OF assms(1,2)] assms(3)] by simp

lemma sends_cfg:
  assumes "shadow_inv sh"
  shows "sends ok wire obs (codec_config_reg b f v) sh (cfg_words [(f, v)] sh) (cfg (f, v) sh)"
  using sends_config [OF assms refl, of f v] field_fits [of f] assms by (simp add: cfg_def)

lemma sends_cfg_then:
  assumes "shadow_inv sh" and "sends ok wire obs m2 (cfg (f, v) sh) (cfg_words fvs (cfg (f, v) sh)) sh'"
  shows "sends ok wire obs (\<lambda>s. nack_then (codec_config_reg b f v s) m2) sh (cfg_words ((f, v) # fvs) sh) sh'"
  using sends_then [OF sends_cfg [OF assms(1)] assms(2)] by simp

lemma sends_dac_activate:
  assumes "shadow_inv sh"
  shows "sends ok wire obs (codec_dac_activate b) sh
    (cfg_words [(CODEC_DACPD, 0), (CODEC_DAC_SEL, 1), (CODEC_DAC_MU, 0)] sh)
    (cfg (CODEC_DAC_MU, 0) (cfg (CODEC_DAC_SEL, 1) (cfg (CODEC_DACPD, 0) sh)))"
  unfolding codec_dac_activate_def using assms
  by (intro sends_cfg_then) (simp_all add: sends_done)

lemma sends_dac_inactivate:
  assumes "shadow_inv sh"
  shows "sends ok wire obs (codec_dac_inactivate b) sh
    (cfg_words [(CODEC_DAC_MU, 1), (CODEC_DAC_SEL, 0), (CODEC_DACPD, 1)] sh)
    (cfg (CODEC_DACPD, 1) (cfg (CODEC_DAC_SEL, 0) (cfg (CODEC_DAC_MU, 1) sh)))"
  unfolding codec_dac_inactivate_def using assms
  by (intro sends_cfg_then) (simp_all add: sends_done)

lemmas init_simps = codec_defaults_def shadow_inv_explicit reg_no_def reg_map field_idx_def

lemma sends_init: "sends ok wire obs (codec_init b bps fs) sh (codec_init_words bps fs) (codec_init_shadow bps fs)"
proof -
  define iwl where "iwl = (0xe03 OR push_bit 2 (ucast (IWL_val (bps2iwl_lookup bps))) :: u16)"
  define sr where "sr = (0x1000 OR push_bit 2 (ucast (SR_val (fs2sr_lookup fs))) :: u16)"
  have w: "drop_bit 9 iwl = 7" "drop_bit 9 sr = 8"
    "config_word 0xe0f (field_offst CODEC_IWL) (field_msk CODEC_IWL) (IWL_val (bps2iwl_lookup bps)) = iwl"
    "config_word 0x1000 (field_offst CODEC_SR) (field_msk CODEC_SR) (SR_val (fs2sr_lookup fs)) = sr"
    unfolding iwl_def sr_def by (rule drop_iwl drop_sr config_iwl config_sr)+
  have "sends ok wire obs (codec_init b bps fs) sh
      ([0x1e00] @ [0xc10] @ 0x17 # 0x217 # 0x4f9 # 0x6f9 # 0xa00 # 0xe0f # iwl # sr # 0x1201 # 0xc00 # [])
      [0x17, 0x217, 0x4f9, 0x6f9, 0x80a, 0xa00, 0xc00, iwl, sr, 0x1201, 0x1e00]"
    unfolding codec_init_def codec_iwl_update_def codec_sr_update_def
    apply (rule sends_then [OF sends_reset])
    apply (rule sends_then [OF sends_sleep [OF sends_put]])
       apply (simp_all add: init_simps)
    apply (rule sends_put_then, simp_all add: init_simps)+
    apply (rule sends_config_then, simp_all add: init_simps w)+
    apply (rule sends_put_then, simp_all add: init_simps w)+
    apply (rule sends_done, simp add: init_simps w)
    done
  then show ?thesis by (simp add: codec_init_words_def codec_init_shadow_def iwl_def sr_def)
qed

end

end
