(* ===== verification/Cortex_Hw.thy ===== *)
theory Cortex_Hw
  imports I2c_Master Acortex Sram Prsr Codec
begin

text \<open>
  The hardware the drivers run on: the cortex of \<^verbatim>\<open>dgn/rtl\<close> behind its memory-mapped slave, at
  the level of local-bus transactions. The I2C master is clocked edge by edge; the register
  blocks of the DAC interface, the SRAM port, the WAV parser, the spectrum engines and the
  light engine are the decoding and register logic of their local-bus modules. What those
  blocks receive from the outside (the I2C data line, the words the parser has captured, the
  state of the engines) is the environment \<open>cortex_env\<close>, an argument.
\<close>

subsection \<open>State\<close>

record dac_regs =
  dac_drvr_en_f :: bool
  adc_drvr_en_f :: bool
  bps_f :: bool
  fs_div_val_f :: "11 word"
  mclk_sel_f :: "2 word"
  mclk_en_f :: bool

record sram_regs =
  sram_mm_addr :: "18 word"
  sram_data_f :: u16
  sram_mem :: "18 word \<Rightarrow> u16"

record fgyrus_regs =
  fgyrus_en :: bool
  fgyrus_post_norm :: "4 word"

record cortex_hw =
  i2c :: i2c_master
  wire_log :: "(u8 \<times> u16) list"
  sda_log :: "bool list list"
  dac :: dac_regs
  sram :: sram_regs
  prsr_en_f :: bool
  hdr_ram_rd_addr_f :: u8
  aud_src_sel :: bool
  fg_l :: fgyrus_regs
  fg_r :: fgyrus_regs
  pwm_gen_en :: bool
  pwm_ram :: "4 word \<Rightarrow> u16"
  now :: nat

text \<open>
  Two fields are not registers but records of what has happened: \<open>wire_log\<close> the I2C transactions started,
  by the contents of the two registers, and \<open>sda_log\<close>, one entry for each, the levels of the data line
  seen in the middle of its clock pulses.
\<close>

text \<open>
  The environment: the I2C data line at each clock, how many further clocks a bus access takes,
  the clocks of a millisecond, at each clock the parser's word counter and header RAM and the
  state of the two spectrum engines, and what the other slaves on the bus answer.
\<close>

record cortex_env =
  sda_in :: "nat \<Rightarrow> bool"
  stall :: nat
  ms_cycles :: nat
  word_cntr :: "nat \<Rightarrow> u32"
  hdr_ram :: "nat \<Rightarrow> u8 \<Rightarrow> u16"
  fg_pstate :: "bool \<Rightarrow> nat \<Rightarrow> u8"
  fg_busy :: "bool \<Rightarrow> nat \<Rightarrow> bool"
  other_rd :: "u32 \<Rightarrow> nat \<Rightarrow> u32"

definition dac_reset :: dac_regs where
  "dac_reset = \<lparr>dac_drvr_en_f = False, adc_drvr_en_f = False, bps_f = True, fs_div_val_f = 0,
     mclk_sel_f = 0, mclk_en_f = False\<rparr>"

subsection \<open>Address decoding\<close>

text \<open>The bridge drops the two low bits of the word address; four bits of block code follow.\<close>

definition lb_addr :: "u32 \<Rightarrow> u16" where
  "lb_addr a = ucast (drop_bit 4 a)"

definition blk_code :: "u32 \<Rightarrow> u16" where
  "blk_code a = drop_bit 12 (lb_addr a)"

definition sub_code :: "u32 \<Rightarrow> u16" where
  "sub_code a = drop_bit 8 (lb_addr a) AND 15"

definition reg_code :: "u32 \<Rightarrow> u8" where
  "reg_code a = ucast (lb_addr a)"

definition sel_acortex :: "u16 \<Rightarrow> u32 \<Rightarrow> bool" where
  "sel_acortex sub a \<longleftrightarrow> blk_code a = 2 \<and> sub_code a = sub"

subsection \<open>Writes\<close>

definition dac_write :: "u8 \<Rightarrow> u16 \<Rightarrow> dac_regs \<Rightarrow> dac_regs" where
  "dac_write reg w r =
     (if reg = 0x00 then r\<lparr>dac_drvr_en_f := bit w 0, adc_drvr_en_f := bit w 1, bps_f := bit w 2\<rparr>
      else if reg = 0x02 then r\<lparr>fs_div_val_f := ucast w\<rparr>
      else if reg = 0x03 then r\<lparr>mclk_sel_f := ucast w, mclk_en_f := bit w 15\<rparr>
      else r)"

text \<open>
  A write to the SRAM control register stalls the bus until the access it triggers is done; the
  access is modelled as complete when the write returns.
\<close>

definition sram_write :: "u8 \<Rightarrow> u16 \<Rightarrow> sram_regs \<Rightarrow> sram_regs" where
  "sram_write reg w r =
     (if reg = 0x01 then
        if bit w 0 then r\<lparr>sram_data_f := sram_mem r (sram_mm_addr r)\<rparr>
        else if bit w 1 then r\<lparr>sram_mem := (sram_mem r)(sram_mm_addr r := sram_data_f r)\<rparr>
        else r
      else if reg = 0x02 then r\<lparr>sram_mm_addr := (sram_mm_addr r AND 0xffff) OR push_bit 16 (ucast (w AND 3))\<rparr>
      else if reg = 0x03 then r\<lparr>sram_mm_addr := (sram_mm_addr r AND 0x30000) OR ucast w\<rparr>
      else if reg = 0x04 then r\<lparr>sram_data_f := w\<rparr>
      else r)"

definition fgyrus_write :: "u32 \<Rightarrow> u32 \<Rightarrow> fgyrus_regs \<Rightarrow> fgyrus_regs" where
  "fgyrus_write a w r =
     (if sub_code a = 0 then
        if reg_code a = 0x00 then r\<lparr>fgyrus_en := bit w 0\<rparr>
        else if reg_code a = 0x06 then r\<lparr>fgyrus_post_norm := ucast w\<rparr>
        else r
      else r)"

definition cortex_write :: "cortex_env \<Rightarrow> u32 \<Rightarrow> u32 \<Rightarrow> cortex_hw \<Rightarrow> cortex_hw" where
  "cortex_write env a w d =
     (let w16 = ucast w :: u16; rst = sel_acortex 8 a
      in d\<lparr>i2c := (if rst then i2c_reset
                   else i2c_edge (sel_acortex 0 a) (reg_code a) w16 (sda_in env (now d)) (i2c d)),
           wire_log := (if sel_acortex 0 a \<and> reg_code a = 0x00 \<and> fsm_idle_c (i2c d)
                   then wire_log d @ [(addr_f (i2c d), data_f (i2c d))] else wire_log d),
           sda_log := log_bits (sda_mid (sda_in env (now d)) (i2c d)) (sda_log d)
                   @ (if sel_acortex 0 a \<and> reg_code a = 0x00 \<and> fsm_idle_c (i2c d) then [[]] else []),
           dac := (if rst then dac_reset else if sel_acortex 3 a then dac_write (reg_code a) w16 (dac d) else dac d),
           sram := (if rst then (sram d)\<lparr>sram_mm_addr := 0, sram_data_f := 0\<rparr>
                    else if sel_acortex 1 a then sram_write (reg_code a) w16 (sram d) else sram d),
           prsr_en_f := (if rst then False
                    else if sel_acortex 2 a \<and> reg_code a = 0x00 then bit w 0 else prsr_en_f d),
           hdr_ram_rd_addr_f := (if rst then 0
                    else if sel_acortex 2 a \<and> reg_code a = 0x04 then ucast w else hdr_ram_rd_addr_f d),
           aud_src_sel := (if sel_acortex 7 a then bit w 0 else aud_src_sel d),
           fg_l := (if blk_code a = 0 then fgyrus_write a w (fg_l d) else fg_l d),
           fg_r := (if blk_code a = 1 then fgyrus_write a w (fg_r d) else fg_r d),
           pwm_gen_en := (if blk_code a = 3 \<and> sub_code a = 0 then bit w 0 else pwm_gen_en d),
           pwm_ram := (if blk_code a = 3 \<and> sub_code a = 1 then (pwm_ram d)(ucast (reg_code a) := w16) else pwm_ram d),
           now := Suc (now d)\<rparr>)"

subsection \<open>Reads and idle clocks\<close>

definition dac_read :: "u8 \<Rightarrow> dac_regs \<Rightarrow> u16" where
  "dac_read reg r =
     (if reg = 0x00 then (if dac_drvr_en_f r then 1 else 0) OR (if adc_drvr_en_f r then 2 else 0) OR (if bps_f r then 4 else 0)
      else if reg = 0x02 then ucast (fs_div_val_f r)
      else if reg = 0x03 then ucast (mclk_sel_f r) OR (if mclk_en_f r then 0x8000 else 0)
      else 0xdead)"

definition prsr_read :: "cortex_env \<Rightarrow> u8 \<Rightarrow> cortex_hw \<Rightarrow> u16" where
  "prsr_read env reg d =
     (if reg = 0x00 then (if prsr_en_f d then 1 else 0)
      else if reg = 0x02 then ucast (drop_bit 15 (word_cntr env (now d)))
      else if reg = 0x03 then push_bit 1 (ucast (word_cntr env (now d)))
      else if reg = 0x04 then ucast (hdr_ram_rd_addr_f d)
      else if reg = 0x05 then hdr_ram env (now d) (hdr_ram_rd_addr_f d)
      else 0xdead)"

definition fgyrus_read :: "cortex_env \<Rightarrow> bool \<Rightarrow> u8 \<Rightarrow> nat \<Rightarrow> fgyrus_regs \<Rightarrow> u32" where
  "fgyrus_read env right reg t r =
     (if reg = 0x00 then (if fgyrus_en r then 1 else 0)
      else if reg = 0x02 then ucast (fg_pstate env right t AND 7)
      else if reg = 0x04 then (if fg_busy env right t then 1 else 0)
      else if reg = 0x06 then ucast (fgyrus_post_norm r)
      else 0xff)"

definition cortex_read :: "cortex_env \<Rightarrow> u32 \<Rightarrow> cortex_hw \<Rightarrow> u32" where
  "cortex_read env a d =
     (if sel_acortex 0 a then ucast (i2c_lb_read (reg_code a) (i2c d))
      else if sel_acortex 1 a then (if reg_code a = 0x04 then ucast (sram_data_f (sram d)) else 0)
      else if sel_acortex 2 a then ucast (prsr_read env (reg_code a) d)
      else if sel_acortex 3 a then ucast (dac_read (reg_code a) (dac d))
      else if blk_code a = 0 \<and> sub_code a = 0 then fgyrus_read env False (reg_code a) (now d) (fg_l d)
      else if blk_code a = 1 \<and> sub_code a = 0 then fgyrus_read env True (reg_code a) (now d) (fg_r d)
      else if blk_code a = 3 \<and> sub_code a = 0 then (if pwm_gen_en d then 1 else 0)
      else if blk_code a = 3 \<and> sub_code a = 1 then ucast (pwm_ram d (ucast (reg_code a)))
      else 0xdead)"

definition tick :: "cortex_env \<Rightarrow> cortex_hw \<Rightarrow> cortex_hw" where
  "tick env d = d\<lparr>i2c := i2c_edge False 0 0 (sda_in env (now d)) (i2c d),
     sda_log := log_bits (sda_mid (sda_in env (now d)) (i2c d)) (sda_log d), now := Suc (now d)\<rparr>"

definition idle :: "cortex_env \<Rightarrow> nat \<Rightarrow> cortex_hw \<Rightarrow> cortex_hw" where
  "idle env n = (tick env ^^ n)"

text \<open>The cortex answers in its megabyte of the address space; other slaves share the bus.\<close>

definition cortex_cs :: "u32 \<Rightarrow> bool" where
  "cortex_cs a \<longleftrightarrow> drop_bit 20 a = 0x10"

definition cortex_bus :: "cortex_env \<Rightarrow> cortex_hw bus" where
  "cortex_bus env =
     \<lparr>bus_rd = (\<lambda>a d. (if cortex_cs a then cortex_read env a d else other_rd env a (now d), idle env (Suc (stall env)) d)),
      bus_wr = (\<lambda>a w d. idle env (stall env) (if cortex_cs a then cortex_write env a w d else tick env d)),
      bus_ms = (\<lambda>n d. idle env (n * ms_cycles env) d)\<rparr>"

lemmas decode = lb_addr_def blk_code_def sub_code_def reg_code_def sel_acortex_def

subsection \<open>Idle clocks\<close>

lemma idle_0 [simp]: "idle env 0 d = d"
  by (simp add: idle_def)

lemma idle_Suc: "idle env (Suc n) d = idle env n (tick env d)"
  by (simp add: idle_def funpow_swap1)

lemma tick_sel [simp]:
  "wire_log (tick env d) = wire_log d" "dac (tick env d) = dac d" "sram (tick env d) = sram d"
  "prsr_en_f (tick env d) = prsr_en_f d" "hdr_ram_rd_addr_f (tick env d) = hdr_ram_rd_addr_f d"
  "aud_src_sel (tick env d) = aud_src_sel d" "fg_l (tick env d) = fg_l d" "fg_r (tick env d) = fg_r d"
  "pwm_gen_en (tick env d) = pwm_gen_en d" "pwm_ram (tick env d) = pwm_ram d" "now (tick env d) = Suc (now d)"
  by (simp_all add: tick_def)

lemma idle_sel [simp]:
  "wire_log (idle env n d) = wire_log d" "dac (idle env n d) = dac d" "sram (idle env n d) = sram d"
  "prsr_en_f (idle env n d) = prsr_en_f d" "hdr_ram_rd_addr_f (idle env n d) = hdr_ram_rd_addr_f d"
  "aud_src_sel (idle env n d) = aud_src_sel d" "fg_l (idle env n d) = fg_l d" "fg_r (idle env n d) = fg_r d"
  "pwm_gen_en (idle env n d) = pwm_gen_en d" "pwm_ram (idle env n d) = pwm_ram d" "now (idle env n d) = now d + n"
  by (induction n arbitrary: d) (simp_all add: idle_Suc)

lemma tick_inv: "i2c_inv (i2c d) \<Longrightarrow> i2c_inv (i2c (tick env d))"
  by (simp add: tick_def i2c_edge_inv)

lemma idle_inv: "i2c_inv (i2c d) \<Longrightarrow> i2c_inv (i2c (idle env n d))"
  by (induction n arbitrary: d) (simp_all add: idle_Suc tick_inv)

lemma tick_rank: "i2c_inv (i2c d) \<Longrightarrow> i2c_rank (i2c (tick env d)) \<le> i2c_rank (i2c d)"
proof (cases "fsm_idle_c (i2c d)")
  case True
  assume "i2c_inv (i2c d)"
  from i2c_edge_idle [OF this True] show ?thesis by (simp add: tick_def start_i2c_xtn_c_def True)
next
  case False
  assume "i2c_inv (i2c d)"
  from i2c_edge_progress [OF this False] show ?thesis by (simp add: tick_def order_less_imp_le)
qed

lemma idle_rank: "i2c_inv (i2c d) \<Longrightarrow> i2c_rank (i2c (idle env n d)) \<le> i2c_rank (i2c d)"
  by (induction n arbitrary: d) (auto simp: idle_Suc intro: order_trans tick_rank tick_inv)

lemma idle_rank_less:
  assumes "i2c_inv (i2c d)" and "\<not> fsm_idle_c (i2c d)"
  shows "i2c_rank (i2c (idle env (Suc n) d)) < i2c_rank (i2c d)"
proof -
  have "i2c_rank (i2c (tick env d)) < i2c_rank (i2c d)"
    using i2c_edge_progress [OF assms] by (simp add: tick_def)
  moreover have "i2c_rank (i2c (idle env n (tick env d))) \<le> i2c_rank (i2c (tick env d))"
    by (rule idle_rank [OF tick_inv [OF assms(1)]])
  ultimately show ?thesis by (simp add: idle_Suc)
qed

lemma tick_quiet:
  assumes "i2c_inv (i2c d)" and "fsm_idle_c (i2c d)"
  shows "fsm_idle_c (i2c (tick env d)) \<and> nack_detected_f (i2c (tick env d)) = nack_detected_f (i2c d)
    \<and> addr_f (i2c (tick env d)) = addr_f (i2c d) \<and> data_f (i2c (tick env d)) = data_f (i2c d)"
  using i2c_edge_idle [OF assms, of False 0 0 "sda_in env (now d)"] assms(2)
  by (simp add: tick_def start_i2c_xtn_c_def i2c_edge_def sample_into_def sample_data_c_def fsm_idle_c_def)

lemma idle_quiet:
  assumes "i2c_inv (i2c d)" and "fsm_idle_c (i2c d)"
  shows "fsm_idle_c (i2c (idle env n d)) \<and> nack_detected_f (i2c (idle env n d)) = nack_detected_f (i2c d)
    \<and> addr_f (i2c (idle env n d)) = addr_f (i2c d) \<and> data_f (i2c (idle env n d)) = data_f (i2c d)"
  using assms
proof (induction n arbitrary: d)
  case (Suc n)
  from tick_quiet [OF Suc.prems] Suc.IH [OF tick_inv [OF Suc.prems(1)]] show ?case
    by (simp add: idle_Suc)
qed simp

subsection \<open>The drivers' contracts hold of this hardware\<close>

lemma bus_sel [simp]:
  "bus_rd (cortex_bus env) a d = (if cortex_cs a then cortex_read env a d else other_rd env a (now d), idle env (Suc (stall env)) d)"
  "bus_wr (cortex_bus env) a w d = (if cortex_cs a then idle env (stall env) (cortex_write env a w d) else idle env (Suc (stall env)) d)"
  "bus_ms (cortex_bus env) n d = idle env (n * ms_cycles env) d"
  by (simp_all add: cortex_bus_def idle_Suc)

lemma cs_numeral [simp]: "cortex_cs (numeral n) \<longleftrightarrow> drop_bit 20 (numeral n :: u32) = 0x10"
  by (rule cortex_cs_def)

lemma write_inv: "i2c_inv (i2c d) \<Longrightarrow> i2c_inv (i2c (cortex_write env a w d))"
  by (auto simp: cortex_write_def Let_def i2c_edge_inv) (simp add: i2c_inv_def i2c_reset_def)

lemma status_bits: "bit (i2c_status m) 0 \<longleftrightarrow> \<not> fsm_idle_c m" "bit (i2c_status m) (Suc 0) \<longleftrightarrow> nack_detected_f m"
  by (simp_all add: i2c_status_def bit_or_iff)

text \<open>A write to the address or data register of the idle master.\<close>

lemma write_idle:
  assumes "i2c_inv (i2c d)" "fsm_idle_c (i2c d)" "sel_acortex 0 a" "reg_code a \<noteq> 0"
  shows "fsm_idle_c (i2c (cortex_write env a w d)) \<and> wire_log (cortex_write env a w d) = wire_log d
    \<and> addr_f (i2c (cortex_write env a w d)) = (if reg_code a = 1 then ucast w else addr_f (i2c d))
    \<and> data_f (i2c (cortex_write env a w d)) = (if reg_code a = 2 then ucast w else data_f (i2c d))"
  using i2c_edge_idle [OF assms(1,2), of True "reg_code a" "ucast w" "sda_in env (now d)"] assms
  by (auto simp: cortex_write_def Let_def sel_acortex_def start_i2c_xtn_c_def i2c_edge_def
      sample_into_def sample_data_c_def fsm_idle_c_def)

lemma write_start:
  assumes "fsm_idle_c (i2c d)" "sel_acortex 0 a" "reg_code a = 0"
  shows "wire_log (cortex_write env a w d) = wire_log d @ [(addr_f (i2c d), data_f (i2c d))]"
  using assms by (simp add: cortex_write_def Let_def)

lemma i2c_clk_div:
  "clk_div_val_f (i2c (idle env n d)) = clk_div_val_f (i2c d)"
  "\<not> sel_acortex 8 a \<Longrightarrow> clk_div_val_f (i2c (cortex_write env a w d)) =
     (if sel_acortex 0 a \<and> reg_code a = 3 then ucast w else clk_div_val_f (i2c d))"
proof -
  show "clk_div_val_f (i2c (idle env n d)) = clk_div_val_f (i2c d)"
    by (induction n arbitrary: d) (simp_all add: idle_Suc tick_def i2c_edge_def)
  show "\<not> sel_acortex 8 a \<Longrightarrow> clk_div_val_f (i2c (cortex_write env a w d)) =
     (if sel_acortex 0 a \<and> reg_code a = 3 then ucast w else clk_div_val_f (i2c d))"
    by (simp add: cortex_write_def Let_def i2c_edge_def)
qed

text \<open>Everything outside the I2C master: no access to the master changes it.\<close>

definition others :: "cortex_hw \<Rightarrow> dac_regs \<times> sram_regs \<times> (bool \<times> u8) \<times> bool \<times> (fgyrus_regs \<times> fgyrus_regs) \<times> bool \<times> (4 word \<Rightarrow> u16)" where
  "others d = (dac d, sram d, (prsr_en_f d, hdr_ram_rd_addr_f d), aud_src_sel d, (fg_l d, fg_r d), pwm_gen_en d, pwm_ram d)"

lemma others_idle [simp]: "others (idle env n d) = others d"
  by (simp add: others_def)

lemma others_write: "sel_acortex 0 a \<Longrightarrow> others (cortex_write env a w d) = others d"
  by (simp add: others_def cortex_write_def Let_def sel_acortex_def)

text \<open>What the log of the data line holds while a write is under way, and when it is done.\<close>

definition levels :: "cortex_env \<Rightarrow> bool set" where
  "levels env = range (sda_in env)"

definition hw_ready :: "cortex_hw \<Rightarrow> bool" where
  "hw_ready d \<longleftrightarrow> clk_div_val_f (i2c d) = 100"

definition hw_proper :: "cortex_env \<Rightarrow> cortex_hw \<Rightarrow> bool" where
  "hw_proper env d \<longleftrightarrow> sda_log d \<noteq> [] \<and> xtn (levels env) (i2c d) (fst (last (wire_log d))) (snd (last (wire_log d))) (last (sda_log d))"

lemma tick_proper: "hw_proper env d \<Longrightarrow> hw_proper env (tick env d)"
  using xtn_tick [of "levels env" "i2c d" _ _ _ "sda_in env (now d)" 0 0] log_bits_last [of "sda_log d"]
  by (simp add: hw_proper_def tick_def levels_def)

lemma idle_proper: "hw_proper env d \<Longrightarrow> hw_proper env (idle env n d)"
  by (induction n arbitrary: d) (simp_all add: idle_Suc tick_proper)

lemma idle_ready: "hw_ready (idle env n d) = hw_ready d"
  by (simp add: hw_ready_def i2c_clk_div)

lemma idle_grows: "log_grows (sda_log d) (sda_log (idle env n d))"
proof (induction n arbitrary: d)
  case (Suc n)
  have "log_grows (sda_log d) (sda_log (tick env d))" by (simp add: tick_def log_bits_grow)
  then show ?case using Suc [of "tick env d"] by (auto simp: idle_Suc intro: log_grows_trans)
qed simp

lemma quiet_sda: "fsm_idle_c m \<Longrightarrow> sda_mid sda m = []"
  by (simp add: sda_mid_def)

lemma idle_silent:
  assumes "i2c_inv (i2c d)" "fsm_idle_c (i2c d)"
  shows "sda_log (idle env n d) = sda_log d"
  using assms
proof (induction n arbitrary: d)
  case (Suc n)
  have "sda_log (tick env d) = sda_log d" using Suc.prems(2) by (simp add: tick_def quiet_sda)
  then show ?case using Suc.IH [OF tick_inv [OF Suc.prems(1)]] tick_quiet [OF Suc.prems] by (simp add: idle_Suc)
qed simp

text \<open>A register write to the idle master, and the one that starts a transaction.\<close>

lemma write_silent: "fsm_idle_c (i2c d) \<Longrightarrow> reg_code a \<noteq> 0 \<Longrightarrow> sda_log (cortex_write env a w d) = sda_log d"
  by (simp add: cortex_write_def Let_def quiet_sda)

lemma start_proper:
  assumes "i2c_inv (i2c d)" "fsm_idle_c (i2c d)" "hw_ready d" "\<not> bit (addr_f (i2c d)) 0" "sel_acortex 0 a" "reg_code a = 0"
  shows "hw_proper env (cortex_write env a w d) \<and> sda_log (cortex_write env a w d) = sda_log d @ [[]] \<and> hw_ready (cortex_write env a w d)"
proof -
  have "\<not> sel_acortex 8 a" using assms(5) by (simp add: sel_acortex_def)
  then show ?thesis using assms xtn_start [OF assms(1,2) _ assms(4), of "levels env" "ucast w" "sda_in env (now d)"]
    by (simp add: hw_proper_def hw_ready_def cortex_write_def Let_def quiet_sda i2c_edge_def)
qed

interpretation hw_codec: codec_bus "cortex_bus env" "\<lambda>d. i2c_inv (i2c d) \<and> others d = fr" "\<lambda>d. \<not> fsm_idle_c (i2c d)"
  "\<lambda>d. nack_detected_f (i2c d)" "\<lambda>d. addr_f (i2c d)" "\<lambda>d. data_f (i2c d)" wire_log "\<lambda>d. i2c_rank (i2c d)"
  sda_log hw_ready "hw_proper env" "levels env"
  for env fr
proof
  fix d :: cortex_hw and v d' and w :: u32 and n
  {
    assume "IORD_I2C_STATUS (cortex_bus env) CORTEX_MM_SL_BASE d = (v, d')"
    then have rd: "d' = idle env (Suc (stall env)) d"
      by (simp add: i2c_io_defs bus_defs reg_map)
    show "log_grows (sda_log d) (sda_log d') \<and> (hw_ready d \<longrightarrow> hw_ready d') \<and> (hw_proper env d \<longrightarrow> hw_proper env d')"
      by (simp add: rd idle_grows idle_ready idle_proper)
  }
  show "log_grows (sda_log d) (sda_log (sleep_ms (cortex_bus env) n d)) \<and> (hw_ready d \<longrightarrow> hw_ready (sleep_ms (cortex_bus env) n d)) \<and>
      (hw_proper env d \<longrightarrow> hw_proper env (sleep_ms (cortex_bus env) n d))"
    by (simp add: bus_defs idle_grows idle_ready idle_proper)
  assume "i2c_inv (i2c d) \<and> others d = fr"
  then have inv: "i2c_inv (i2c d)" and fr: "others d = fr" by simp_all
  {
    assume "IORD_I2C_STATUS (cortex_bus env) CORTEX_MM_SL_BASE d = (v, d')"
    then have rd: "v = ucast (i2c_status (i2c d))" "d' = idle env (Suc (stall env)) d"
      by (simp_all add: i2c_io_defs bus_defs reg_map cortex_read_def decode i2c_lb_read_def)
    show "(bit v 0 \<longleftrightarrow> \<not> fsm_idle_c (i2c d)) \<and> (bit v 1 \<longleftrightarrow> nack_detected_f (i2c d))"
      by (simp add: rd bit_ucast_iff status_bits)
    show "(i2c_inv (i2c d') \<and> others d' = fr) \<and> wire_log d' = wire_log d \<and> i2c_rank (i2c d') \<le> i2c_rank (i2c d)"
      by (simp add: rd idle_inv idle_rank inv fr)
    show "\<not> \<not> fsm_idle_c (i2c d) \<Longrightarrow> \<not> \<not> fsm_idle_c (i2c d') \<and> nack_detected_f (i2c d') = nack_detected_f (i2c d) \<and> sda_log d' = sda_log d"
      by (simp add: rd idle_quiet idle_silent inv)
    show "\<not> fsm_idle_c (i2c d) \<Longrightarrow> i2c_rank (i2c (sleep_ms (cortex_bus env) 1 d')) < i2c_rank (i2c d)"
      using idle_rank_less [OF inv, of env "stall env"] idle_rank [OF idle_inv [OF inv]]
      by (simp add: rd bus_defs) (meson order_le_less_trans)
  }
  show "(i2c_inv (i2c (sleep_ms (cortex_bus env) n d)) \<and> others (sleep_ms (cortex_bus env) n d) = fr)
      \<and> wire_log (sleep_ms (cortex_bus env) n d) = wire_log d"
    by (simp add: bus_defs idle_inv inv fr)
  assume idl: "\<not> \<not> fsm_idle_c (i2c d)"
  show "\<not> \<not> fsm_idle_c (i2c (sleep_ms (cortex_bus env) n d)) \<and> sda_log (sleep_ms (cortex_bus env) n d) = sda_log d"
    using idl by (simp add: bus_defs idle_quiet idle_silent inv)
  show "hw_proper env d \<Longrightarrow> said (levels env) (last (wire_log d)) (nack_detected_f (i2c d)) (last (sda_log d))"
    using idl xtn_done by (fastforce simp: hw_proper_def)
  {
    assume "d' = IOWR_I2C_DATA (cortex_bus env) CORTEX_MM_SL_BASE w d"
    then have wr: "d' = idle env (stall env) (cortex_write env 0x1020020 w d)"
      by (simp add: i2c_io_defs bus_defs reg_map)
    show "(i2c_inv (i2c d') \<and> others d' = fr) \<and> \<not> \<not> fsm_idle_c (i2c d') \<and> wire_log d' = wire_log d \<and> data_f (i2c d') = ucast w \<and>
        sda_log d' = sda_log d \<and> (hw_ready d \<longrightarrow> hw_ready d')"
      using write_idle [OF inv, where a = "0x1020020" and env = env and w = w] idl idle_quiet [OF write_inv [OF inv]] idle_silent [OF write_inv [OF inv]]
      by (simp add: wr decode idle_inv write_inv inv others_write fr write_silent idle_ready) (simp add: hw_ready_def i2c_clk_div decode)
  next
    assume "d' = IOWR_I2C_ADDR (cortex_bus env) CORTEX_MM_SL_BASE w d"
    then have wr: "d' = idle env (stall env) (cortex_write env 0x1020010 w d)"
      by (simp add: i2c_io_defs bus_defs reg_map)
    show "(i2c_inv (i2c d') \<and> others d' = fr) \<and> \<not> \<not> fsm_idle_c (i2c d') \<and> wire_log d' = wire_log d \<and> addr_f (i2c d') = ucast w
        \<and> data_f (i2c d') = data_f (i2c d) \<and> sda_log d' = sda_log d \<and> (hw_ready d \<longrightarrow> hw_ready d')"
      using write_idle [OF inv, where a = "0x1020010" and env = env and w = w] idl idle_quiet [OF write_inv [OF inv]] idle_silent [OF write_inv [OF inv]]
      by (simp add: wr decode idle_inv write_inv inv others_write fr write_silent idle_ready) (simp add: hw_ready_def i2c_clk_div decode)
  next
    assume "d' = IOWR_I2C_STATUS (cortex_bus env) CORTEX_MM_SL_BASE w d"
    then have wr: "d' = idle env (stall env) (cortex_write env 0x1020000 w d)"
      by (simp add: i2c_io_defs bus_defs reg_map)
    show "(i2c_inv (i2c d') \<and> others d' = fr) \<and> wire_log d' = wire_log d @ [(addr_f (i2c d), data_f (i2c d))]"
      using write_start [where d = d and a = "0x1020000" and env = env and w = w] idl
      by (simp add: wr decode idle_inv write_inv inv others_write fr)
    have a: "sel_acortex 0 0x1020000" "reg_code 0x1020000 = 0" by (simp_all add: decode)
    show "hw_ready d' \<and> hw_proper env d' \<and> (\<exists>x. sda_log d' = sda_log d @ [x])" if "hw_ready d" "\<not> bit (addr_f (i2c d)) 0"
    proof -
      note p = start_proper [OF inv _ that a, where env = env and w = w]
      have "hw_ready d'" "hw_proper env d'" using p idl by (simp_all add: wr idle_ready idle_proper)
      moreover have "log_grows (sda_log d @ [[]]) (sda_log d')" using p idl idle_grows [of "cortex_write env 0x1020000 w d" env "stall env"] by (simp add: wr)
      ultimately show ?thesis using log_grows_snoc by blast
    qed
  }
qed

text \<open>The three DAC registers keep the bits they implement.\<close>

lemma dac_ctrl_bits: "(ucast (dac_read 0 (dac_write 0 (ucast w) r)) :: u32) = w AND 7"
proof -
  have "(ucast ((if bit w 0 then 2 ^ 0 else 0) OR (if bit w 1 then 2 ^ 1 else 0) OR (if bit w 2 then 2 ^ 2 else 0) :: u16) :: u32)
      = w AND mask 3"
  proof (rule bit_word_eqI)
    fix n assume "n < LENGTH(32)"
    moreover have "n < 3 \<longleftrightarrow> n = 0 \<or> n = 1 \<or> n = 2" by arith
    ultimately show "bit (ucast ((if bit w 0 then 2 ^ 0 else 0) OR (if bit w 1 then 2 ^ 1 else 0)
        OR (if bit w 2 then 2 ^ 2 else 0) :: u16) :: u32) n = bit (w AND mask 3) n"
      unfolding bit_ucast_iff bit_or_iff bit_and_iff bit_if bit_exp_iff bit_mask_iff by auto
  qed
  then show ?thesis by (simp add: dac_read_def dac_write_def bit_ucast_iff mask_eq_exp_minus_1 split: if_splits)
qed

lemma dac_fs_div_bits: "(ucast (dac_read 2 (dac_write 2 (ucast w) r)) :: u32) = w AND 0x7ff"
proof -
  have "(ucast (ucast w :: 11 word) :: u32) = w AND mask 11"
    by (rule bit_word_eqI) (auto simp: bit_ucast_iff bit_and_iff bit_mask_iff)
  then show ?thesis by (simp add: dac_read_def dac_write_def mask_eq_exp_minus_1)
qed

lemma dac_mclk_bits: "(ucast (dac_read 3 (dac_write 3 (ucast w) r)) :: u32) = w AND 0x8003"
proof -
  have "(ucast (ucast (ucast w :: 2 word) OR (if bit w 15 then 2 ^ 15 else 0) :: u16) :: u32) = w AND (mask 2 OR 2 ^ 15)"
    by (rule bit_word_eqI) (unfold bit_ucast_iff bit_and_iff bit_or_iff bit_mask_iff bit_if bit_exp_iff, auto)
  then show ?thesis by (simp add: dac_read_def dac_write_def mask_eq_exp_minus_1 bit_ucast_iff split: if_splits)
qed

lemma dac_read_other:
  "dac_read 2 (dac_write 0 w r) = dac_read 2 r" "dac_read 3 (dac_write 0 w r) = dac_read 3 r"
  "dac_read 0 (dac_write 2 w r) = dac_read 0 r" "dac_read 3 (dac_write 2 w r) = dac_read 3 r"
  "dac_read 0 (dac_write 3 w r) = dac_read 0 r" "dac_read 2 (dac_write 3 w r) = dac_read 2 r"
  by (simp_all add: dac_read_def dac_write_def)

lemma dac_decode:
  "sel_acortex 3 0x1023000" "sel_acortex 3 0x1023020" "sel_acortex 3 0x1023030"
  "reg_code 0x1023000 = 0" "reg_code 0x1023020 = 2" "reg_code 0x1023030 = 3"
  by (simp_all add: decode)

lemma sel_other: "sel_acortex s a \<Longrightarrow> s \<noteq> s' \<Longrightarrow> \<not> sel_acortex s' a"
  by (auto simp: sel_acortex_def)

lemma dac_wr: "sel_acortex 3 a \<Longrightarrow> dac (cortex_write env a w d) = dac_write (reg_code a) (ucast w) (dac d)"
  using sel_other [of 3 a 8] by (simp add: cortex_write_def Let_def)

lemma dac_rd: "sel_acortex 3 a \<Longrightarrow> cortex_read env a d = ucast (dac_read (reg_code a) (dac d))"
  using sel_other [of 3 a] by (simp add: cortex_read_def)

interpretation hw_dac: dac_dev "cortex_bus env" CORTEX_MM_SL_BASE "\<lambda>d. True"
  "\<lambda>d. ucast (dac_read 0 (dac d))" "\<lambda>d. ucast (dac_read 2 (dac d))" "\<lambda>d. ucast (dac_read 3 (dac d))"
  for env
  by unfold_locales
     (simp_all add: dac_io_defs bus_defs reg_map dac_decode dac_wr dac_rd
        dac_ctrl_bits dac_fs_div_bits dac_mclk_bits dac_read_other)

lemma nat16_cases: "i < 16 \<Longrightarrow> i \<in> {0, 1, 2, 3, 4, 5, 6, 7, 8, 9, 10, 11, 12, 13, 14, 15 :: nat}"
  by (simp add: less_Suc_eq numeral_eq_Suc)

lemma chan_decode:
  assumes "i < 16" and "a = 0x1031000 + push_bit 4 (of_nat i)"
  shows "cortex_cs a \<and> blk_code a = 3 \<and> sub_code a = 1 \<and> ucast (reg_code a) = (of_nat i :: 4 word)"
  using nat16_cases [OF assms(1)] by (elim insertE emptyE) (simp_all add: assms(2) decode)

lemma of_nat4_eq: "i < 16 \<Longrightarrow> j < 16 \<Longrightarrow> (of_nat i :: 4 word) = of_nat j \<longleftrightarrow> i = j"
  by (auto simp: word_of_nat_eq_iff take_bit_nat_eq_self)

interpretation hw_vcortex: vcortex_dev "cortex_bus env" CORTEX_MM_SL_BASE "\<lambda>d. True"
  "\<lambda>d i. if i < 16 then pwm_ram d (of_nat i) else 0" for env
proof
  fix d d' and w :: u32 and i :: nat
  assume i: "i < 16"
    and "d' = IOWR_32DIRECT (cortex_bus env) CORTEX_MM_SL_BASE (VCORTEX_PWM_RAM_BASE + push_bit 4 (of_nat i)) w d"
  then have d': "d' = idle env (stall env) (cortex_write env (0x1031000 + push_bit 4 (of_nat i)) w d)"
    using chan_decode [OF i refl] by (simp add: bus_defs reg_map add.assoc [symmetric])
  have "pwm_ram d' = (pwm_ram d)(of_nat i := ucast w)"
    using chan_decode [OF i refl] by (simp add: d' cortex_write_def Let_def)
  with i show "True \<and> (\<lambda>i. if i < 16 then pwm_ram d' (of_nat i) else 0)
      = (\<lambda>i. if i < 16 then pwm_ram d (of_nat i) else 0)(i := ucast w)"
    by (auto simp: fun_eq_iff of_nat4_eq)
qed

lemma lo_half: "(ucast (ucast (w :: u32) :: u16) :: 18 word) = ucast (w AND 0xffff)"
proof -
  have "(ucast (ucast w :: u16) :: 18 word) = ucast (w AND mask 16)"
    by (rule bit_word_eqI) (auto simp: bit_ucast_iff bit_and_iff bit_mask_iff)
  then show ?thesis by (simp add: mask_eq_exp_minus_1)
qed

lemma hi_bits: "(ucast (ucast (w :: u32) AND 3 :: u16) :: 18 word) = ucast (w AND 3)"
proof -
  have "(ucast (ucast w AND mask 2 :: u16) :: 18 word) = ucast (w AND mask 2)"
    by (rule bit_word_eqI) (auto simp: bit_ucast_iff bit_and_iff bit_mask_iff)
  then show ?thesis by (simp add: mask_eq_exp_minus_1)
qed
interpretation hw_sram: sram_dev "cortex_bus env" CORTEX_MM_SL_BASE "\<lambda>d. True"
  "\<lambda>d. sram_mm_addr (sram d)" "\<lambda>d. sram_data_f (sram d)" "\<lambda>d. sram_mem (sram d)" for env
  by unfold_locales
     (simp_all add: sram_io_defs bus_defs reg_map cortex_read_def cortex_write_def decode Let_def sram_write_def
        lo_half hi_bits)

text \<open>
  The parser has captured the header by clock \<open>T\<close>: its word counter only grows, does not wrap,
  has reached 24 words by then, and the header words are fixed once 24 words have been counted.
\<close>

definition hdr_by :: "cortex_env \<Rightarrow> nat \<Rightarrow> (nat \<Rightarrow> u16) \<Rightarrow> bool" where
  "hdr_by env T h \<longleftrightarrow> mono (word_cntr env) \<and> (\<forall>t. word_cntr env t < 2 ^ 31) \<and> 24 \<le> word_cntr env T
     \<and> (\<forall>t i. 24 \<le> word_cntr env t \<longrightarrow> i < 23 \<longrightarrow> hdr_ram env t (of_nat i) = h i)"

text \<open>
  The two halves of the byte count are read one after the other. The sum can mislead only while
  the counter crosses \<open>2 ^ 15\<close> words between the reads, and then only once.
\<close>

lemma unat_hi_half: "unat (push_bit 16 (ucast (y :: u16)) :: u32) = unat y * 2 ^ 16"
proof -
  have "unat y * 2 ^ 16 < 2 ^ 32" using unsigned_less [of y, where 'a = nat] by simp
  then show ?thesis by (simp add: push_bit_eq_mult unat_word_ariths unat_ucast_up)
qed

lemma torn_sum:
  fixes a c :: u32
  assumes "a < 2 ^ 31"
  shows "push_bit 16 (ucast (ucast (drop_bit 15 a) :: u16)) + ucast (push_bit 1 (ucast c) :: u16) < (48 :: u32)
    \<longleftrightarrow> a < 2 ^ 15 \<and> unat c mod 2 ^ 15 < 24" (is "?h + ?l < 48 \<longleftrightarrow> _")
proof -
  have a: "unat a < 2 ^ 31" using assms by (simp add: word_less_nat_alt)
  then have q: "unat a div 2 ^ 15 < 2 ^ 16" by (simp add: less_mult_imp_div_less)
  define x where "x = drop_bit 15 a"
  have x: "unat x = unat a div 2 ^ 15" by (simp add: x_def drop_bit_eq_div unat_div)
  with q have y: "unat (ucast x :: u16) = unat x" by (simp add: unsigned_ucast_eq take_bit_nat_eq_self)
  have h: "unat ?h = unat a div 2 ^ 15 * 2 ^ 16"
    using unat_hi_half [of "ucast x"] unfolding y x unfolding x_def .
  have l: "unat ?l = 2 * (unat c mod 2 ^ 15)"
    by (simp add: push_bit_eq_mult unat_word_ariths unat_ucast_up unat_ucast_mod mult_mod_right mult.commute mod_mod_cancel)
  have "unat ?h + unat ?l < 2 ^ 32" unfolding h l using q mod_less_divisor [of "2 ^ 15" "unat c"] by simp
  then have "unat (?h + ?l) = unat ?h + unat ?l" by (simp add: unat_word_ariths)
  then have "?h + ?l < 48 \<longleftrightarrow> unat a div 2 ^ 15 * 2 ^ 16 + 2 * (unat c mod 2 ^ 15) < 48"
    unfolding h l by (simp add: word_less_nat_alt)
  also have "\<dots> \<longleftrightarrow> unat a div 2 ^ 15 = 0 \<and> unat c mod 2 ^ 15 < 24" by auto
  finally show ?thesis by (simp add: div_eq_0_iff word_less_nat_alt)
qed
lemma prsr_count:
  "prsr_get_bytes_read (cortex_bus env) CORTEX_MM_SL_BASE d =
     (push_bit 16 (ucast (ucast (drop_bit 15 (word_cntr env (now d))) :: u16))
        + ucast (push_bit 1 (ucast (word_cntr env (now d + Suc (stall env)))) :: u16),
      idle env (Suc (stall env)) (idle env (Suc (stall env)) d))"
  by (simp add: prsr_get_bytes_read_def prsr_io_defs bus_defs reg_map cortex_read_def decode prsr_read_def
      del: push_bit_and)

interpretation hw_prsr: prsr_dev "cortex_bus env" CORTEX_MM_SL_BASE "\<lambda>d. hdr_by env T h"
  "\<lambda>d. 24 \<le> word_cntr env (now d)" "\<lambda>d. h"
  "\<lambda>d. (if word_cntr env (now d) < 2 ^ 15 then 1 else 0) + (T - now d)" for env T h
proof
  fix d :: cortex_hw and d' and n :: u32 and i v
  assume h: "hdr_by env T h"
  from h have mono: "word_cntr env t \<le> word_cntr env t'" if "t \<le> t'" for t t'
    using that by (simp add: hdr_by_def monoD)
  let ?c = "word_cntr env"
  {
    assume "prsr_get_bytes_read (cortex_bus env) CORTEX_MM_SL_BASE d = (n, d')"
    then have n: "n < 48 \<longleftrightarrow> ?c (now d) < 2 ^ 15 \<and> unat (?c (now d + Suc (stall env))) mod 2 ^ 15 < 24"
      and d': "now d' = now d + Suc (stall env) + Suc (stall env)"
      using torn_sum h by (auto simp: prsr_count hdr_by_def)
    let ?t = "now d + Suc (stall env)" and ?d2 = "sleep_ms (cortex_bus env) 1 d'"
    have d2: "now d' \<le> now ?d2" by (simp add: bus_defs)
    have early: "?t < T" if "unat (?c ?t) < 24"
      using that h mono [of T ?t] by (force simp: hdr_by_def word_le_nat_alt)
    have late: "24 \<le> ?c (now d')" if "24 \<le> unat (?c t)" "t \<le> now d'" for t
      using that mono [of t "now d'"] by (simp add: word_le_nat_alt)
    have "(if ?c (now ?d2) < 2 ^ 15 then 1 else 0) + (T - now ?d2) < (if ?c (now d) < 2 ^ 15 then 1 else 0) + (T - now d)"
      if "n < 48"
    proof (cases "?c ?t < 2 ^ 15")
      case True
      with that n have "?t < T" by (intro early) (simp add: word_less_nat_alt)
      with that n d' d2 show ?thesis by (auto split: if_splits)
    next
      case False
      with mono [of ?t "now ?d2"] d' d2 have "\<not> ?c (now ?d2) < 2 ^ 15" by (simp add: not_less)
      with that n d' d2 show ?thesis by simp
    qed
    moreover have "24 \<le> ?c (now d')" if "\<not> n < 48"
    proof (cases "?c (now d) < 2 ^ 15")
      case True
      with that n have "24 \<le> unat (?c ?t)"
        by (metis mod_less_eq_dividend not_less order_trans)
      moreover have "?t \<le> now d'" using d' by linarith
      ultimately show ?thesis by (rule late)
    next
      case False
      with d' show ?thesis by (intro late [of "now d"]) (simp_all add: word_less_nat_alt)
    qed
    ultimately show "hdr_by env T h \<and>
      (n < 48 \<longrightarrow> (if ?c (now ?d2) < 2 ^ 15 then 1 else 0) + (T - now ?d2)
        < (if ?c (now d) < 2 ^ 15 then 1 else 0) + (T - now d)) \<and> (\<not> n < 48 \<longrightarrow> 24 \<le> ?c (now d'))"
      using h by blast
  }
  show "hdr_by env T h" by (rule h)
  assume "24 \<le> ?c (now d)" "i < 23"
    and "prsr_hdr_ram_read16 (cortex_bus env) CORTEX_MM_SL_BASE (of_nat i) d = (v, d')"
  moreover have "24 \<le> ?c t" if "now d \<le> t" for t
    using \<open>24 \<le> ?c (now d)\<close> mono [OF that] by (rule order_trans)
  ultimately show "v = h i \<and> hdr_by env T h \<and> 24 \<le> ?c (now d') \<and> h = h"
    using h by (auto simp add: prsr_hdr_ram_read16_def prsr_io_defs bus_defs reg_map cortex_write_def
        cortex_read_def decode prsr_read_def hdr_by_def Let_def)
qed

end
