(* ===== verification/Ledos.thy ===== *)
theory Ledos
  imports Codec Acortex Prsr
begin

text \<open>
  The application's own code, \<^verbatim>\<open>ledos/ledos.c\<close> and \<^verbatim>\<open>ledos.h\<close>: parsing the header of a WAV file
  that the hardware captured, and preparing the signal chain for it. The printing of the header
  is left out.
\<close>

subsection \<open>Byte order\<close>

definition byte_swap16 :: "u16 \<Rightarrow> u16" where
  "byte_swap16 data = drop_bit 8 (data AND 0xff00) + push_bit 8 (data AND 0xff)"

definition byte_swap32 :: "u32 \<Rightarrow> u32" where
  "byte_swap32 data = drop_bit 24 (data AND 0xff000000) + drop_bit 8 (data AND 0xff0000)
     + push_bit 8 (data AND 0xff00) + push_bit 24 (data AND 0xff)"

subsection \<open>The header\<close>

record WavHdrType =
  ChunkID :: u32
  ChunkSize :: u32
  Format :: u32
  Subchunk1ID :: u32
  Subchunk1Size :: u32
  AudioFormat :: u16
  NumChannels :: u16
  SampleRate :: u32
  ByteRate :: u32
  BlockAlign :: u16
  BitsPerSample :: u16
  Extra :: u16
  Subchunk2ID :: u32
  Subchunk2Size :: u32

text \<open>
  The parser driver fills the structure as an array of halfwords. The processor is little
  endian, and \<open>Subchunk2ID\<close> is aligned to four bytes: halfword 19 is padding.
\<close>

definition u32_at :: "u16 list \<Rightarrow> nat \<Rightarrow> u32" where
  "u32_at ws i = ucast (ws ! i) OR push_bit 16 (ucast (ws ! Suc i))"

definition WavHdr_of :: "u16 list \<Rightarrow> WavHdrType" where
  "WavHdr_of ws =
     \<lparr>ChunkID = u32_at ws 0, ChunkSize = u32_at ws 2, Format = u32_at ws 4,
      Subchunk1ID = u32_at ws 6, Subchunk1Size = u32_at ws 8,
      AudioFormat = ws ! 10, NumChannels = ws ! 11, SampleRate = u32_at ws 12, ByteRate = u32_at ws 14,
      BlockAlign = ws ! 16, BitsPerSample = ws ! 17, Extra = ws ! 18,
      Subchunk2ID = u32_at ws 20, Subchunk2Size = u32_at ws 22\<rparr>"

definition chk_wav_hdr :: "WavHdrType \<Rightarrow> u32" where
  "chk_wav_hdr hdr =
     (let error = 0;
          error = (if ChunkID hdr \<noteq> 0x52494646 then 1 else error);
          error = (if Format hdr \<noteq> 0x57415645 then 1 else error);
          error = (if Subchunk1ID hdr \<noteq> 0x666d7420 then 1 else error);
          error = (if Subchunk1Size hdr \<noteq> 16 \<and> Subchunk1Size hdr \<noteq> 18 then 1 else error);
          error = (if AudioFormat hdr \<noteq> 0x1 then 1 else error);
          error = (if NumChannels hdr \<noteq> 1 \<and> NumChannels hdr \<noteq> 2 then 1 else error);
          error = (if BitsPerSample hdr \<noteq> 16 \<and> BitsPerSample hdr \<noteq> 32 then 1 else error);
          error = (if Subchunk2ID hdr \<noteq> 0x64617461 then 1 else error)
      in error)"

text \<open>What \<^verbatim>\<open>wave_parse\<close> does to the header between reading and checking it.\<close>

definition fix_hdr :: "WavHdrType \<Rightarrow> WavHdrType" where
  "fix_hdr hdr =
     (let hdr = hdr\<lparr>ChunkSize := byte_swap32 (ChunkSize hdr)\<rparr>;
          hdr = hdr\<lparr>Subchunk1Size := byte_swap32 (Subchunk1Size hdr)\<rparr>;
          hdr = hdr\<lparr>AudioFormat := byte_swap16 (AudioFormat hdr)\<rparr>;
          hdr = hdr\<lparr>NumChannels := byte_swap16 (NumChannels hdr)\<rparr>;
          hdr = hdr\<lparr>SampleRate := byte_swap32 (SampleRate hdr)\<rparr>;
          hdr = hdr\<lparr>ByteRate := byte_swap32 (ByteRate hdr)\<rparr>;
          hdr = hdr\<lparr>BlockAlign := byte_swap16 (BlockAlign hdr)\<rparr>;
          hdr = hdr\<lparr>BitsPerSample := byte_swap16 (BitsPerSample hdr)\<rparr>;
          hdr = (if Subchunk2Size hdr = 0x10 then
                   let hdr = hdr\<lparr>Subchunk2Size := drop_bit 16 (Subchunk2Size hdr AND 0xffff0000)
                              + push_bit 16 (Subchunk2ID hdr AND 0xffff)\<rparr>
                   in hdr\<lparr>Subchunk2ID := drop_bit 16 (Subchunk2ID hdr AND 0xffff0000)
                              + push_bit 16 (ucast (Extra hdr) AND 0xffff)\<rparr>
                 else hdr)
      in hdr\<lparr>Subchunk2Size := byte_swap32 (Subchunk2Size hdr)\<rparr>)"

text \<open>\<open>ws\<close> is what the caller's structure held before; its last halfword survives.\<close>

definition wave_parse :: "'d bus \<Rightarrow> u16 list \<Rightarrow> 'd \<Rightarrow> (u32 \<times> WavHdrType \<times> 'd) option" where
  "wave_parse b ws d = do {
     (ws, d) \<leftarrow> get_wav_hdr_frm_prsr b CORTEX_MM_SL_BASE ws d;
     let hdr = fix_hdr (WavHdr_of ws);
     Some (chk_wav_hdr hdr, hdr, d)
   }"

subsection \<open>Preparing the signal chain\<close>

definition sr_val_of :: "u32 \<Rightarrow> FS_T" where
  "sr_val_of rate =
     (if rate = 8000 then FS_8KHZ else if rate = 32000 then FS_32KHZ else if rate = 44100 then FS_44KHZ
      else if rate = 48000 then FS_48KHZ else if rate = 88200 then FS_88KHZ else FS_96KHZ)"

text \<open>
  \<^verbatim>\<open>update_mclk\<close> takes a sampling rate, but is handed a clock selector here: C converts one
  enumeration to the other by its value.
\<close>

definition update_mclk_sel :: "'d bus \<Rightarrow> u32 \<Rightarrow> MCLK_SEL_VAL \<Rightarrow> 'd \<Rightarrow> 'd" where
  "update_mclk_sel b base sel = update_mclk b base (the (FS_T_of (MCLK_SEL_val sel)))"

text \<open>The part after the codec accepted its configuration.\<close>

definition prep_engines :: "'d bus \<Rightarrow> WavHdrType \<Rightarrow> 'd \<Rightarrow> 'd" where
  "prep_engines b hdr d =
     (let d = (if SampleRate hdr = 44100 \<or> SampleRate hdr = 88200
               then update_mclk_sel b CORTEX_MM_SL_BASE CLK_11MHZ d
               else update_mclk_sel b CORTEX_MM_SL_BASE CLK_12MHZ d);
          d = enable_fgyrus b CORTEX_MM_SL_BASE (FGYRUS_TYPE_of 0) d;
          d = (if NumChannels hdr > 1 then enable_fgyrus b CORTEX_MM_SL_BASE (FGYRUS_TYPE_of 1) d else d)
      in enable_dac_drvr b CORTEX_MM_SL_BASE d)"

definition prep_cortex :: "'d bus \<Rightarrow> WavHdrType \<Rightarrow> 'd codec_st \<Rightarrow> (I2C_RES \<times> 'd codec_st) option" where
  "prep_cortex b hdr s =
     nack_then (codec_dsp_if_inactivate b s) (\<lambda>s.
     nack_then (codec_dac_inactivate b s) (\<lambda>s.
     nack_then (if BitsPerSample hdr = 16 then codec_iwl_update b IWL_16 s else codec_iwl_update b IWL_32 s) (\<lambda>s.
     nack_then (codec_config_reg b CODEC_SR (of_nat (FS_T_val (sr_val_of (SampleRate hdr)))) s) (\<lambda>s.
     case s of (sh, d) \<Rightarrow> Some (I2C_OK, (sh, prep_engines b hdr d))))))"

text \<open>The callback of the audio transfers.\<close>

definition update_aud_bytes_read :: "u32 \<Rightarrow> u32 \<Rightarrow> u32" where
  "update_aud_bytes_read p aud_bytes_read = aud_bytes_read + p"

subsection \<open>Byte order is an involution\<close>

lemma bit_byte_lane: 
  "bit (push_bit k (mask 8) :: 'a::len word) n \<longleftrightarrow> k \<le> n \<and> n < k + 8 \<and> n < LENGTH('a)"
  by (auto simp: bit_push_bit_iff bit_mask_iff)

lemma bit_byte_swap16: "bit (byte_swap16 w) n \<longleftrightarrow> n < 16 \<and> bit w (if n < 8 then n + 8 else n - 8)"
proof -
  have m: "(0xff00 :: u16) = push_bit 8 (mask 8)" "(0xff :: u16) = push_bit 0 (mask 8)"
    by (simp_all add: mask_eq_exp_minus_1)
  have "byte_swap16 w = drop_bit 8 (w AND 0xff00) OR push_bit 8 (w AND 0xff)"
    unfolding byte_swap16_def m
    by (rule disjunctive_add_eq_or, rule bit_word_eqI)
       (auto simp: bit_and_iff bit_drop_bit_eq bit_push_bit_iff bit_byte_lane)
  then show ?thesis unfolding m
    by (auto simp: bit_or_iff bit_and_iff bit_drop_bit_eq bit_push_bit_iff bit_mask_iff add.commute dest: bit_imp_le_length)
qed

lemma byte_swap16_twice: "byte_swap16 (byte_swap16 w) = w"
  by (rule bit_word_eqI) (auto simp: bit_byte_swap16)

lemma bit_byte_swap32:
  "bit (byte_swap32 w) n \<longleftrightarrow> n < 32 \<and> bit w (if n < 8 then n + 24 else if n < 16 then n + 8 else if n < 24 then n - 8 else n - 24)"
proof -
  let ?a = "drop_bit 24 (w AND push_bit 24 (mask 8))" and ?b = "drop_bit 8 (w AND push_bit 16 (mask 8))"
    and ?c = "push_bit 8 (w AND push_bit 8 (mask 8))" and ?d = "push_bit 24 (w AND push_bit 0 (mask 8))"
  have m: "(0xff000000 :: u32) = push_bit 24 (mask 8)" "(0xff0000 :: u32) = push_bit 16 (mask 8)"
     "(0xff00 :: u32) = push_bit 8 (mask 8)" "(0xff :: u32) = push_bit 0 (mask 8)"
    by (simp_all add: mask_eq_exp_minus_1)
  have 1: "?a + ?b = ?a OR ?b"
    by (rule disjunctive_add_eq_or, rule bit_word_eqI)
       (auto simp: bit_and_iff bit_drop_bit_eq bit_push_bit_iff bit_mask_iff)
  have 2: "(?a OR ?b) + ?c = (?a OR ?b) OR ?c"
    by (rule disjunctive_add_eq_or, rule bit_word_eqI)
       (auto simp: bit_or_iff bit_and_iff bit_drop_bit_eq bit_push_bit_iff bit_mask_iff)
  have 3: "((?a OR ?b) OR ?c) + ?d = ((?a OR ?b) OR ?c) OR ?d"
    by (rule disjunctive_add_eq_or, rule bit_word_eqI)
       (auto simp: bit_or_iff bit_and_iff bit_drop_bit_eq bit_push_bit_iff bit_mask_iff)
  have "byte_swap32 w = ((?a OR ?b) OR ?c) OR ?d"
    unfolding byte_swap32_def m using 1 2 3 by (simp only:)
  then show ?thesis 
    by (auto simp: bit_or_iff bit_and_iff bit_drop_bit_eq bit_push_bit_iff bit_mask_iff add.commute dest: bit_imp_le_length)
qed

lemma byte_swap32_twice: "byte_swap32 (byte_swap32 w) = w"
  by (rule bit_word_eqI) (auto simp: bit_byte_swap32)

lemma chk_wav_hdr_iff:
  "chk_wav_hdr hdr = 0 \<longleftrightarrow> ChunkID hdr = 0x52494646 \<and> Format hdr = 0x57415645 \<and> Subchunk1ID hdr = 0x666d7420
     \<and> Subchunk1Size hdr \<in> {16, 18} \<and> AudioFormat hdr = 1 \<and> NumChannels hdr \<in> {1, 2}
     \<and> BitsPerSample hdr \<in> {16, 32} \<and> Subchunk2ID hdr = 0x64617461"
  by (simp add: chk_wav_hdr_def)

lemma halves_eq:
  fixes a b :: u16 and v :: u32
  shows "ucast a OR push_bit 16 (ucast b) = v \<longleftrightarrow> a = ucast v \<and> b = ucast (drop_bit 16 v)"
proof
  assume v: "ucast a OR push_bit 16 (ucast b) = v"
  have "n < 16 \<Longrightarrow> \<not> bit a (16 + n)" for n by (auto dest: bit_imp_le_length)
  then show "a = ucast v \<and> b = ucast (drop_bit 16 v)"
    unfolding v [symmetric]
    by (auto intro!: bit_word_eqI simp: bit_or_iff bit_push_bit_iff bit_ucast_iff bit_drop_bit_eq dest: bit_imp_le_length)
next
  assume "a = ucast v \<and> b = ucast (drop_bit 16 v)"
  then show "ucast a OR push_bit 16 (ucast b) = v"
    by (auto intro!: bit_word_eqI simp: bit_or_iff bit_push_bit_iff bit_ucast_iff bit_drop_bit_eq dest: bit_imp_le_length)
qed

lemma halves_add: "ucast (a :: u16) + push_bit 16 (ucast (b :: u16)) = (ucast a OR push_bit 16 (ucast b) :: u32)"
  by (rule disjunctive_add_eq_or, rule bit_word_eqI)
     (auto simp: bit_and_iff bit_push_bit_iff bit_ucast_iff dest: bit_imp_le_length)

lemma u32_at_hi: "drop_bit 16 (u32_at ws i AND 0xffff0000) = ucast (ws ! Suc i)"
proof -
  have m: "(0xffff0000 :: u32) = push_bit 16 (mask 16)" by (simp add: mask_eq_exp_minus_1)
  have "bit w n \<Longrightarrow> n < 16" for w :: u16 and n using bit_imp_le_length [of w n] by simp
  then show ?thesis unfolding m
    by (fastforce intro!: bit_word_eqI simp: u32_at_def bit_and_iff bit_or_iff bit_push_bit_iff bit_ucast_iff bit_drop_bit_eq
       bit_mask_iff)
qed

lemma u32_at_eq: "u32_at ws i = v \<longleftrightarrow> ws ! i = ucast v \<and> ws ! Suc i = ucast (drop_bit 16 v)"
  unfolding u32_at_def halves_eq ..

lemma byte_swap16_eq: "byte_swap16 x = y \<longleftrightarrow> x = byte_swap16 y"
  by (metis byte_swap16_twice)

lemma byte_swap32_eq: "byte_swap32 x = y \<longleftrightarrow> x = byte_swap32 y"
  by (metis byte_swap32_twice)

text \<open>
  C30: Which header words are accepted. The checks and byte swaps amount to fixed values of the
  captured halfwords; the position of the data chunk's name depends on whether the (mis)placed
  size field reads sixteen.
\<close>

theorem wav_words_accepted:
  "chk_wav_hdr (fix_hdr (WavHdr_of ws)) = 0 \<longleftrightarrow>
     ws ! 0 = 0x4646 \<and> ws ! 1 = 0x5249 \<and> ws ! 4 = 0x5645 \<and> ws ! 5 = 0x5741 \<and> ws ! 6 = 0x7420 \<and> ws ! 7 = 0x666d
     \<and> ws ! 8 = 0 \<and> ws ! 9 \<in> {0x1000, 0x1200} \<and> ws ! 10 = 0x100 \<and> ws ! 11 \<in> {0x100, 0x200} \<and> ws ! 17 \<in> {0x1000, 0x2000}
     \<and> (if ws ! 22 = 0x10 \<and> ws ! 23 = 0 then ws ! 21 = 0x7461 \<and> ws ! 18 = 0x6461
        else ws ! 20 = 0x7461 \<and> ws ! 21 = 0x6461)"
proof -
  have s: "byte_swap32 16 = 0x10000000" "byte_swap32 18 = 0x12000000" "byte_swap16 1 = 0x100" "byte_swap16 2 = 0x200"
    "byte_swap16 16 = 0x1000" "byte_swap16 32 = 0x2000"
    by (simp_all add: byte_swap32_def byte_swap16_def)
  have c: "(0x64617461 :: u16) = 0x7461" "(0x52494646 :: u16) = 0x4646" "(0x57415645 :: u16) = 0x5645"
    "(0x666d7420 :: u16) = 0x7420" "(0x10000000 :: u16) = 0" "(0x12000000 :: u16) = 0"
    by simp_all
  have e: "(ws ! 8 = 0 \<and> ws ! 9 = 0x1000 \<or> ws ! 8 = 0 \<and> ws ! 9 = 0x1200) = (ws ! 8 = 0 \<and> (ws ! 9 = 0x1000 \<or> ws ! 9 = 0x1200))"
    by blast
  have "Subchunk2ID (fix_hdr (WavHdr_of ws)) = 0x64617461 \<longleftrightarrow>
     (if ws ! 22 = 0x10 \<and> ws ! 23 = 0 then ws ! 21 = 0x7461 \<and> ws ! 18 = 0x6461
        else ws ! 20 = 0x7461 \<and> ws ! 21 = 0x6461)"
    using u32_at_hi [of ws 20]
    by (simp add: fix_hdr_def WavHdr_of_def Let_def u32_at_eq halves_add halves_eq c del: drop_bit_and)
  moreover have "ChunkID (fix_hdr (WavHdr_of ws)) = u32_at ws 0" "Format (fix_hdr (WavHdr_of ws)) = u32_at ws 4"
    "Subchunk1ID (fix_hdr (WavHdr_of ws)) = u32_at ws 6" "Subchunk1Size (fix_hdr (WavHdr_of ws)) = byte_swap32 (u32_at ws 8)"
    "AudioFormat (fix_hdr (WavHdr_of ws)) = byte_swap16 (ws ! 10)" "NumChannels (fix_hdr (WavHdr_of ws)) = byte_swap16 (ws ! 11)"
    "BitsPerSample (fix_hdr (WavHdr_of ws)) = byte_swap16 (ws ! 17)"
    by (simp_all add: fix_hdr_def WavHdr_of_def Let_def)
  ultimately show ?thesis
    by (simp add: chk_wav_hdr_iff byte_swap32_eq byte_swap16_eq s u32_at_eq c e)
qed

end
