(* ===== verification/Cortex_Top.thy ===== *)
theory Cortex_Top
  imports Cortex_Hw Ledos
begin

text \<open>
  The drivers and the application's signal-chain code on the hardware: the contracts of the
  drivers, instantiated for the cortex, give what every operation does to the hardware.
\<close>

subsection \<open>Register writes of the bring-up\<close>

lemma write_frame:
  "fg_l (cortex_write env a w d) = (if blk_code a = 0 then fgyrus_write a w (fg_l d) else fg_l d)"
  "fg_r (cortex_write env a w d) = (if blk_code a = 1 then fgyrus_write a w (fg_r d) else fg_r d)"
  "pwm_gen_en (cortex_write env a w d) = (if blk_code a = 3 \<and> sub_code a = 0 then bit w 0 else pwm_gen_en d)"
  "\<not> sel_acortex 8 a \<Longrightarrow> dac (cortex_write env a w d) = (if sel_acortex 3 a then dac_write (reg_code a) (ucast w) (dac d) else dac d)"
  "\<not> (sel_acortex 0 a \<and> reg_code a = 0) \<Longrightarrow> wire_log (cortex_write env a w d) = wire_log d"
  by (auto simp: cortex_write_def Let_def)

lemma write_reset: "dac (cortex_write env 0x1028000 w d) = dac_reset" "i2c (cortex_write env 0x1028000 w d) = i2c_reset"
  by (simp_all add: cortex_write_def Let_def decode)

lemma top_decode:
  "blk_code 0x1020030 = 2" "blk_code 0x1023000 = 2" "blk_code 0x1023020 = 2" "blk_code 0x1023030 = 2"
  "blk_code 0x1000060 = 0" "blk_code 0x1010060 = 1" "blk_code 0x1030000 = 3" "blk_code 0x1028000 = 2"
  "blk_code 0x1000000 = 0" "blk_code 0x1010000 = 1"
  "sub_code 0x1020030 = 0" "sub_code 0x1023000 = 3" "sub_code 0x1023020 = 3" "sub_code 0x1023030 = 3"
  "sub_code 0x1000060 = 0" "sub_code 0x1010060 = 0" "sub_code 0x1030000 = 0" "sub_code 0x1028000 = 8"
  "sub_code 0x1000000 = 0" "sub_code 0x1010000 = 0"
  "reg_code 0x1020030 = 3" "reg_code 0x1023000 = 0" "reg_code 0x1023020 = 2" "reg_code 0x1023030 = 3"
  "reg_code 0x1000060 = 6" "reg_code 0x1010060 = 6" "reg_code 0x1000000 = 0" "reg_code 0x1010000 = 0"
  by (simp_all add: decode)

lemmas hw_step = dac_io_defs fgyrus_io_defs fgyrus_fun_defs dac_fun_defs bus_defs reg_map
   write_frame write_reset top_decode dac_rd sel_acortex_def

definition i2c_quiet :: "cortex_hw \<Rightarrow> bool" where
  "i2c_quiet d \<longleftrightarrow> i2c_inv (i2c d) \<and> fsm_idle_c (i2c d)"

lemma idle_keeps: "i2c_quiet d \<Longrightarrow> i2c_quiet (idle env n d)"
  by (simp add: i2c_quiet_def idle_inv idle_quiet)

lemma write_keeps:
  assumes "i2c_quiet d" and "\<not> (sel_acortex 0 a \<and> reg_code a = 0)"
  shows "i2c_quiet (cortex_write env a w d)"
proof -
  from assms have "i2c_inv (i2c d)" "fsm_idle_c (i2c d)" by (simp_all add: i2c_quiet_def)
  with i2c_edge_idle [OF this, of "sel_acortex 0 a" "reg_code a" "ucast w" "sda_in env (now d)"] assms(2)
  have "fsm_idle_c (i2c (cortex_write env a w d))"
    by (auto simp: cortex_write_def Let_def start_i2c_xtn_c_def) (simp_all add: fsm_idle_c_def i2c_reset_def)
  with assms(1) write_inv show ?thesis by (simp add: i2c_quiet_def)
qed

lemma reset_quiet: "i2c_quiet (cortex_write env 0x1028000 w d)"
  by (simp add: i2c_quiet_def write_reset) (simp add: i2c_inv_def i2c_reset_def fsm_idle_c_def)

lemmas init_defs = cortex_init_def acortex_init_def reset_acortex_def configure_i2c_clk_def
  enable_vcortex_def IOWR_VCORTEX_CTRL_def i2c_io_defs

lemma cortex_init_dac:
  "dac (cortex_init (cortex_bus env) CORTEX_MM_SL_BASE fs bps d) =
     \<lparr>dac_drvr_en_f = False, adc_drvr_en_f = False, bps_f = (bps = BPS_32),
      fs_div_val_f = of_nat (fs2div_lookup fs), mclk_sel_f = of_nat (MCLK_SEL_val (fs2mclk_lookup fs)), mclk_en_f = True\<rparr>"
  by (cases fs; cases bps)
     (simp_all add: init_defs hw_step Let_def dac_read_def dac_write_def dac_reset_def)

lemma cortex_init_engines:
  assumes "d' = cortex_init (cortex_bus env) CORTEX_MM_SL_BASE fs bps d"
  shows "clk_div_val_f (i2c d') = 100 \<and> wire_log d' = wire_log d \<and> pwm_gen_en d'
    \<and> fg_l d' = (fg_l d)\<lparr>fgyrus_post_norm := of_nat (FGYRUS_POST_NORM_val NORM_64k)\<rparr>
    \<and> fg_r d' = (fg_r d)\<lparr>fgyrus_post_norm := of_nat (FGYRUS_POST_NORM_val NORM_64k)\<rparr>"
  by (simp add: assms init_defs hw_step Let_def i2c_clk_div fgyrus_write_def)

lemma cortex_init_i2c: "i2c_quiet (cortex_init (cortex_bus env) CORTEX_MM_SL_BASE fs bps d)"
  by (cases bps; simp add: init_defs dac_io_defs fgyrus_io_defs fgyrus_fun_defs dac_fun_defs bus_defs reg_map Let_def
      idle_keeps write_keeps reset_quiet top_decode sel_acortex_def split del: if_split)

subsection \<open>The drivers on the hardware\<close>

text \<open>
  C12: The I2C driver on the I2C master of the hardware. From any state of the master that its
  invariant allows, busy or idle and whatever the data line does, the driver comes back; it has
  started exactly one transaction, to the given address with the write bit forced and with the
  given data, and the master is idle again. With the clock divider the code sets, 100, a receiver that
  looks at the data line in the middle of each clock pulse has then seen, in this transaction, the
  address byte and the two data bytes, most significant bits first, each followed by the level of the
  line in its ninth pulse, up to the first byte for which that level was high or to the third byte;
  and the result is \<open>I2C_NACK_DETECTED\<close> exactly if one of these levels was high, that is if a byte went
  unacknowledged, and \<open>I2C_OK\<close> otherwise.
\<close>

theorem i2c_write_hw:
  assumes "i2c_inv (i2c d)"
  shows "\<exists>res d'. i2c_xtn_write16 (cortex_bus env) CORTEX_MM_SL_BASE addr data d = Some (res, d')
    \<and> i2c_inv (i2c d') \<and> fsm_idle_c (i2c d') \<and> wire_log d' = wire_log d @ [(addr AND 0xfe, data)]
    \<and> others d' = others d \<and> res = (if nack_detected_f (i2c d') then I2C_NACK_DETECTED else I2C_OK)
    \<and> (clk_div_val_f (i2c d) = 100 \<longrightarrow> (\<exists>X acks. sda_log d' = X @ [i2c_frame (addr AND 0xfe) data acks]
         \<and> log_grows (sda_log d) X \<and> complete acks \<and> set acks \<subseteq> range (sda_in env)
         \<and> res = (if True \<in> set acks then I2C_NACK_DETECTED else I2C_OK)))"
proof -
  obtain res d' where r: "i2c_xtn_write16 (cortex_bus env) CORTEX_MM_SL_BASE addr data d = Some (res, d')"
    "i2c_inv (i2c d')" "others d' = others d" "fsm_idle_c (i2c d')" "wire_log d' = wire_log d @ [(addr AND 0xfe, data)]"
    "res = (if nack_detected_f (i2c d') then I2C_NACK_DETECTED else I2C_OK)"
    "observed (\<lambda>d. \<not> fsm_idle_c (i2c d)) sda_log hw_ready (levels env) d [(addr AND 0xfe, data)] (res = I2C_OK) d'"
    using hw_codec.i2c_write_total [of d "others d" env addr data] assms by auto
  moreover have "\<exists>X acks. sda_log d' = X @ [i2c_frame (addr AND 0xfe) data acks] \<and> log_grows (sda_log d) X \<and> complete acks
      \<and> set acks \<subseteq> range (sda_in env) \<and> res = (if True \<in> set acks then I2C_NACK_DETECTED else I2C_OK)"
    if c: "clk_div_val_f (i2c d) = 100"
  proof -
    have "hw_ready d" using c by (simp add: hw_ready_def)
    from observed_one [OF r(7) this] obtain X acks where "sda_log d' = X @ [i2c_frame (addr AND 0xfe) data acks]" "log_grows (sda_log d) X" "complete acks"
      "set acks \<subseteq> levels env" "True \<in> set acks \<longleftrightarrow> \<not> res = I2C_OK" .
    then show ?thesis using r(6) by (intro exI [of _ X] exI [of _ acks]) (simp add: levels_def split: if_splits)
  qed
  ultimately show ?thesis by blast
qed

definition env0 :: cortex_env where
  "env0 = \<lparr>sda_in = (\<lambda>_. False), stall = 2, ms_cycles = 50000, word_cntr = (\<lambda>_. 24), hdr_ram = (\<lambda>_ a. ucast a),
     fg_pstate = (\<lambda>_ _. 0), fg_busy = (\<lambda>_ _. False),
     other_rd = (\<lambda>a _. drop_bit 4 a)\<rparr>"

definition hw0 :: cortex_hw where
  "hw0 = \<lparr>i2c = i2c_reset, wire_log = [], sda_log = [], dac = dac_reset,
     sram = \<lparr>sram_mm_addr = 0, sram_data_f = 0, sram_mem = (\<lambda>_. 0)\<rparr>,
     prsr_en_f = False, hdr_ram_rd_addr_f = 0, aud_src_sel = False,
     fg_l = \<lparr>fgyrus_en = False, fgyrus_post_norm = 0\<rparr>, fg_r = \<lparr>fgyrus_en = False, fgyrus_post_norm = 0\<rparr>,
     pwm_gen_en = False, pwm_ram = (\<lambda>_. 0), now = 0\<rparr>"

lemma hw0_inv: "i2c_inv (i2c hw0)"
  by (simp add: hw0_def i2c_inv_def i2c_reset_def)

lemma hw0_wire: "wire_log hw0 = []"
  by (simp add: hw0_def)

text \<open>The hardware after its clock was set, on a line that stays low: every byte is acknowledged.\<close>

definition hw100 :: cortex_hw where
  "hw100 = hw0\<lparr>i2c := i2c_reset\<lparr>clk_div_val_f := 100\<rparr>\<rparr>"

lemma hw100_inv: "i2c_inv (i2c hw100)"
  by (simp add: hw100_def i2c_inv_def i2c_reset_def)

lemma hw100_simps: "wire_log hw100 = []" "sda_log hw100 = []" "clk_div_val_f (i2c hw100) = 100" "others hw100 = others hw0"
  by (simp_all add: hw100_def hw0_def others_def i2c_reset_def)

theorem i2c_write_hw_witness:
  "\<exists>d'. i2c_xtn_write16 (cortex_bus env0) CORTEX_MM_SL_BASE 0x35 0xabcd hw100 = Some (I2C_OK, d')
    \<and> wire_log d' = [(0x34, 0xabcd)] \<and> sda_log d' = [[False,
        False, False, True, True, False, True, False, False, False,
        True, False, True, False, True, False, True, True, False,
        True, True, False, False, True, True, False, True, False, False]]"
proof -
  have z: "acks = [False, False, False]" if "complete acks" "set acks \<subseteq> {False}" for acks using that by (auto simp: complete_def)
  have f: "i2c_frame 0x34 0xabcd [False, False, False] = [False,
        False, False, True, True, False, True, False, False, False,
        True, False, True, False, True, False, True, True, False,
        True, True, False, False, True, True, False, True, False, False]"
    by (simp add: i2c_frame_def byte_bits_def upt_rec)
  have e: "range (sda_in env0) = {False}" by (auto simp: env0_def)
  show ?thesis
    using i2c_write_hw [OF hw100_inv, of env0 "0x35" "0xabcd"] z unfolding e hw100_simps
    by (fastforce simp: log_grows_def f)
qed

text \<open>
  C13: Bringing up the codec, with the clock divider the code sets before. \<open>codec_init\<close> always comes back.
  Either it returns \<open>I2C_OK\<close>: then exactly the twelve words of the power-on sequence for the requested sample
  width and rate went out in order, one frame each on the data line with all three bytes acknowledged,
  and the shadow holds what the codec holds. Or it returns \<open>I2C_NACK_DETECTED\<close>: then it has sent a
  non-empty prefix of them, every byte of all but the last was acknowledged, and a byte of the last was
  not. The starting state of the master and the shadow are arbitrary, and so is the data line.
\<close>

theorem codec_init_hw:
  assumes "i2c_inv (i2c d)" "clk_div_val_f (i2c d) = 100"
  shows "\<exists>res sh' d' k X acks. codec_init (cortex_bus env) bps fs (sh, d) = Some (res, (sh', d'))
    \<and> i2c_inv (i2c d') \<and> fsm_idle_c (i2c d') \<and> others d' = others d \<and> shadow_inv sh' \<and> k \<le> length (codec_init_words bps fs)
    \<and> wire_log d' = wire_log d @ map (Pair 0x34) (take k (codec_init_words bps fs))
    \<and> sda_log d' = X @ map2 (i2c_frame 0x34) (take k (codec_init_words bps fs)) acks \<and> log_grows (sda_log d) X
    \<and> length acks = k \<and> (\<forall>a\<in>set acks. set a \<subseteq> range (sda_in env)) \<and> (\<forall>a\<in>set (butlast acks). a = [False, False, False])
    \<and> (if res = I2C_OK then k = length (codec_init_words bps fs) \<and> sh' = codec_init_shadow bps fs \<and> last acks = [False, False, False]
       else res = I2C_NACK_DETECTED \<and> 0 < k \<and> complete (last acks) \<and> True \<in> set (last acks))"
proof -
  have "i2c_inv (i2c d) \<and> others d = others d" using assms by simp
  from sendsE [OF hw_codec.sends_init this, of env bps fs sh] obtain res sh' d' k where
    r: "codec_init (cortex_bus env) bps fs (sh, d) = Some (res, (sh', d'))" "i2c_inv (i2c d')" "others d' = others d" "shadow_inv sh'"
    "wire_log d' = wire_log d @ map (Pair 0x34) (take k (codec_init_words bps fs))" "k \<le> length (codec_init_words bps fs)"
    "hw_codec.obs env d (map (Pair 0x34) (take k (codec_init_words bps fs))) (res = I2C_OK) d'"
    "if res = I2C_OK then k = length (codec_init_words bps fs) \<and> sh' = codec_init_shadow bps fs else res = I2C_NACK_DETECTED \<and> 0 < k"
    by (metis CODEC_I2C_WRITE_ADDR_def)
  have n: "k \<noteq> 0" "codec_init_words bps fs \<noteq> []" using r(8) by (auto simp: codec_init_words_def split: if_splits)
  have rd: "hw_ready d" using assms(2) by (simp add: hw_ready_def)
  obtain X acks where x: "sda_log d' = X @ frames (map (Pair 0x34) (take k (codec_init_words bps fs))) acks" "log_grows (sda_log d) X"
    "length acks = k" "answered acks (res = I2C_OK)" "\<forall>a\<in>set acks. set a \<subseteq> range (sda_in env)" "fsm_idle_c (i2c d')"
    using r(6,7) n rd unfolding observed_def levels_def by (auto simp: min_def)
  have f: "frames (map (Pair 0x34) ws) acks = map2 (i2c_frame 0x34) ws acks" for ws
    by (simp add: frames_def zip_map1 case_prod_unfold comp_def)
  have "acks \<noteq> []" using x(3) n by auto
  then have "(\<forall>a\<in>set (butlast acks). a = [False, False, False]) \<and>
      (if res = I2C_OK then last acks = [False, False, False] else complete (last acks) \<and> True \<in> set (last acks))"
    using x(4) in_set_butlastD [of _ acks] by (auto simp: answered_def acked_def split: if_splits)
  then show ?thesis using r(1-6,8) x unfolding f by (intro exI [of _ res] exI [of _ sh'] exI [of _ d'] exI [of _ k] exI [of _ X] exI [of _ acks]) auto
qed

text \<open>On a line that stays low the whole sequence goes out.\<close>

theorem codec_init_hw_witness:
  "\<exists>d'. codec_init (cortex_bus env0) BPS_16 FS_32KHZ ([], hw100) = Some (I2C_OK, (codec_init_shadow BPS_16 FS_32KHZ, d'))
    \<and> wire_log d' = map (Pair 0x34) [0x1e00, 0xc10, 0x17, 0x217, 0x4f9, 0x6f9, 0xa00, 0xe0f, 0xe03, 0x1018, 0x1201, 0xc00]
    \<and> length (sda_log d') = 12"
proof -
  have w: "codec_init_words BPS_16 FS_32KHZ
      = [0x1e00, 0xc10, 0x17, 0x217, 0x4f9, 0x6f9, 0xa00, 0xe0f, 0xe03, 0x1018, 0x1201, 0xc00]"
    by (simp add: codec_init_words_def)
  have e: "range (sda_in env0) = {False}" by (auto simp: env0_def)
  obtain res sh' d' k X acks where r: "codec_init (cortex_bus env0) BPS_16 FS_32KHZ ([], hw100) = Some (res, (sh', d'))"
    "wire_log d' = map (Pair 0x34) (take k (codec_init_words BPS_16 FS_32KHZ))"
    "sda_log d' = X @ map2 (i2c_frame 0x34) (take k (codec_init_words BPS_16 FS_32KHZ)) acks" "log_grows [] X"
    "length acks = k" "\<forall>a\<in>set acks. set a \<subseteq> {False}"
    "if res = I2C_OK then k = length (codec_init_words BPS_16 FS_32KHZ) \<and> sh' = codec_init_shadow BPS_16 FS_32KHZ \<and> last acks = [False, False, False]
       else res = I2C_NACK_DETECTED \<and> 0 < k \<and> complete (last acks) \<and> True \<in> set (last acks)"
    using codec_init_hw [OF hw100_inv hw100_simps(3), of env0 BPS_16 FS_32KHZ "[]"] unfolding e hw100_simps by auto
  have "res = I2C_OK"
  proof (rule ccontr)
    assume "res \<noteq> I2C_OK"
    then have "acks \<noteq> []" "True \<in> set (last acks)" using r(5,7) by auto
    then show False using r(6) last_in_set [of acks] by auto
  qed
  moreover have "X = []" using r(4) by (simp add: log_grows_def)
  ultimately show ?thesis using r(1,2,3,5,7) unfolding w by auto
qed

text \<open>
  Updating one field of a codec register sends one word, the whole updated register, and
  when it is acknowledged the shadow has the new value in that field (cut to its width) and the
  old value in every other field of every register.
\<close>

theorem codec_config_hw:
  assumes "i2c_inv (i2c d)" and "shadow_inv sh"
  shows "\<exists>res sh' d'. codec_config_reg (cortex_bus env) f v (sh, d) = Some (res, (sh', d'))
    \<and> i2c_inv (i2c d') \<and> others d' = others d \<and> shadow_inv sh'
    \<and> (res = I2C_OK \<longrightarrow> wire_log d' = wire_log d @ [(0x34, sh' ! field_idx f)]
         \<and> (\<forall>g. field_get g sh' = (if g = f then v AND field_msk f else field_get g sh)))"
proof (rule sendsE [OF hw_codec.sends_cfg [OF assms(2)], of d "others d" env f v], use assms(1) in simp, intro exI conjI impI)
  fix res sh2 d2 k
  assume *: "codec_config_reg (cortex_bus env) f v (sh, d) = Some (res, sh2, d2)"
    "i2c_inv (i2c d2) \<and> others d2 = others d" "shadow_inv sh2"
    "wire_log d2 = wire_log d @ map (Pair CODEC_I2C_WRITE_ADDR) (take k (cfg_words [(f, v)] sh))"
    "if res = I2C_OK then k = length (cfg_words [(f, v)] sh) \<and> sh2 = cfg (f, v) sh else res = I2C_NACK_DETECTED \<and> 0 < k"
  then show "codec_config_reg (cortex_bus env) f v (sh, d) = Some (res, sh2, d2)" "i2c_inv (i2c d2)"
    "others d2 = others d" "shadow_inv sh2"
    by simp_all
  assume "res = I2C_OK"
  with * show "wire_log d2 = wire_log d @ [(0x34, sh2 ! field_idx f)]"
    "\<forall>g. field_get g sh2 = (if g = f then v AND field_msk f else field_get g sh)"
    using assms(2) by (auto simp: CODEC_I2C_WRITE_ADDR_def field_get_cfg)
qed

theorem codec_config_hw_witness:
  "\<exists>res sh' d'. codec_config_reg (cortex_bus env0) CODEC_SR 0x16 (codec_defaults, hw0) = Some (res, (sh', d'))
    \<and> i2c_inv (i2c d') \<and> others d' = others hw0 \<and> shadow_inv sh'
    \<and> (res = I2C_OK \<longrightarrow> wire_log d' = [(0x34, sh' ! 8)]
         \<and> (\<forall>g. field_get g sh' = (if g = CODEC_SR then 0x6 else field_get g codec_defaults)))"
proof -
  have f: "field_idx CODEC_SR = 8" "0x16 AND field_msk CODEC_SR = 0x6" by (simp_all add: field_defs)
  show ?thesis using codec_config_hw [OF hw0_inv shadow_inv_defaults, of env0 CODEC_SR "0x16"]
    by (simp only: hw0_wire f append_Nil)
qed

text \<open>
  \<open>cortex_init\<close> leaves the hardware configured for the requested rate and width whatever its
  state was: the DAC block has its clocks selected and running and both converters off, the I2C
  master is idle with the divider of the codec's bus, both spectrum engines normalise by 64k,
  the light engine is on, and nothing was sent to the codec.
\<close>

theorem cortex_init_hw:
  "let d' = cortex_init (cortex_bus env) CORTEX_MM_SL_BASE fs bps d in
     dac d' = \<lparr>dac_drvr_en_f = False, adc_drvr_en_f = False, bps_f = (bps = BPS_32),
        fs_div_val_f = of_nat (fs2div_lookup fs), mclk_sel_f = of_nat (MCLK_SEL_val (fs2mclk_lookup fs)),
        mclk_en_f = True\<rparr>
     \<and> i2c_quiet d' \<and> clk_div_val_f (i2c d') = 100 \<and> wire_log d' = wire_log d
     \<and> fg_l d' = (fg_l d)\<lparr>fgyrus_post_norm := of_nat (FGYRUS_POST_NORM_val NORM_64k)\<rparr>
     \<and> fg_r d' = (fg_r d)\<lparr>fgyrus_post_norm := of_nat (FGYRUS_POST_NORM_val NORM_64k)\<rparr>
     \<and> pwm_gen_en d'"
  unfolding Let_def
  using cortex_init_dac [of env fs bps d] cortex_init_i2c [of env fs bps d] cortex_init_engines [OF refl, of env fs bps d]
  by simp

text \<open>
  What is written to a location of the external memory is what a later read of the same
  location returns, reads of other locations are not disturbed, and only the low eighteen bits
  of an address count.
\<close>

theorem sram_roundtrip:
  "fst (sram_read16 (cortex_bus env) CORTEX_MM_SL_BASE a' (sram_write16 (cortex_bus env) CORTEX_MM_SL_BASE a v d))
     = (if (ucast a' :: 18 word) = ucast a then v
        else fst (sram_read16 (cortex_bus env) CORTEX_MM_SL_BASE a' d))"
proof -
  let ?w = "sram_write16 (cortex_bus env) CORTEX_MM_SL_BASE a v d"
  have rd: "fst (sram_read16 (cortex_bus env) CORTEX_MM_SL_BASE a' x) = sram_mem (sram x) (ucast a')" for x
    using hw_sram.read_ok [OF TrueI surjective_pairing, of env a' x] by simp
  have "sram_mem (sram ?w) = (sram_mem (sram d))(ucast a := v)"
    using hw_sram.write_ok [OF TrueI refl, of env a v d] by simp
  then show ?thesis by (simp add: rd)
qed

text \<open>
  Painting a frame puts the sixteen values of the caller's array on the sixteen light
  channels, in order.
\<close>

theorem pwm_paint_hw:
  assumes "i < 16"
  shows "pwm_ram (pwm_paint (cortex_bus env) CORTEX_MM_SL_BASE bffr d) (of_nat i) = bffr ! i"
  using hw_vcortex.paint_ok [OF TrueI refl, of env bffr d] assms by simp

theorem pwm_paint_hw_witness:
  "pwm_ram (pwm_paint (cortex_bus env0) CORTEX_MM_SL_BASE (map of_nat [100..<116]) hw0) 3 = 103"
  using pwm_paint_hw [of 3 env0 "map of_nat [100..<116]" hw0] by simp

subsection \<open>Preparing the chain for a file\<close>

lemma nack_then_assoc: "nack_then (nack_then m f) k = nack_then m (\<lambda>s. nack_then (f s) k)"
  by (cases m) (auto simp: nack_then_def)

definition prep_codec :: "'d bus \<Rightarrow> WavHdrType \<Rightarrow> 'd codec_st \<Rightarrow> (I2C_RES \<times> 'd codec_st) option" where
  "prep_codec b hdr s =
     nack_then (codec_dsp_if_inactivate b s) (\<lambda>s. nack_then (codec_dac_inactivate b s) (\<lambda>s.
     nack_then (if BitsPerSample hdr = 16 then codec_iwl_update b IWL_16 s else codec_iwl_update b IWL_32 s) (\<lambda>s.
     codec_config_reg b CODEC_SR (of_nat (FS_T_val (sr_val_of (SampleRate hdr)))) s)))"

lemma prep_cortex_split:
  "prep_cortex b hdr s = nack_then (prep_codec b hdr s) (\<lambda>(sh, d). Some (I2C_OK, (sh, prep_engines b hdr d)))"
  by (simp add: prep_cortex_def prep_codec_def nack_then_assoc case_prod_beta')

definition prep_fields :: "WavHdrType \<Rightarrow> (codec_field \<times> u8) list" where
  "prep_fields hdr = [(CODEC_ACTIVE, 0), (CODEC_DAC_MU, 1), (CODEC_DAC_SEL, 0), (CODEC_DACPD, 1),
     (CODEC_IWL, if BitsPerSample hdr = 16 then 0 else 3), (CODEC_SR, of_nat (FS_T_val (sr_val_of (SampleRate hdr))))]"

lemma prep_codec_sends:
  assumes "shadow_inv sh"
  shows "sends (\<lambda>d. i2c_inv (i2c d) \<and> others d = fr) wire_log (hw_codec.obs env) (prep_codec (cortex_bus env) hdr) sh
    (cfg_words (prep_fields hdr) sh) (fold cfg (prep_fields hdr) sh)"
proof -
  let ?b = "cortex_bus env"
  let ?iwl = "(if BitsPerSample hdr = 16 then 0 else 3) :: u8"
  have iwl: "(if BitsPerSample hdr = 16 then codec_iwl_update ?b IWL_16 s else codec_iwl_update ?b IWL_32 s)
      = codec_config_reg ?b CODEC_IWL ?iwl s" for s
    by (simp add: codec_iwl_update_def)
  have "prep_codec ?b hdr = (\<lambda>s. nack_then (codec_config_reg ?b CODEC_ACTIVE 0 s) (\<lambda>s.
      nack_then (codec_config_reg ?b CODEC_DAC_MU 1 s) (\<lambda>s. nack_then (codec_config_reg ?b CODEC_DAC_SEL 0 s) (\<lambda>s.
      nack_then (codec_config_reg ?b CODEC_DACPD 1 s) (\<lambda>s. nack_then (Some (I2C_OK, s)) (\<lambda>s.
      nack_then (codec_config_reg ?b CODEC_IWL ?iwl s) (\<lambda>s.
      codec_config_reg ?b CODEC_SR (of_nat (FS_T_val (sr_val_of (SampleRate hdr)))) s)))))))"
    unfolding prep_codec_def codec_dsp_if_inactivate_def codec_dac_inactivate_def iwl nack_then_assoc ..
  also have "\<dots> = (\<lambda>s. nack_then (codec_config_reg ?b CODEC_ACTIVE 0 s) (\<lambda>s.
      nack_then (codec_config_reg ?b CODEC_DAC_MU 1 s) (\<lambda>s. nack_then (codec_config_reg ?b CODEC_DAC_SEL 0 s) (\<lambda>s.
      nack_then (codec_config_reg ?b CODEC_DACPD 1 s) (\<lambda>s.
      nack_then (codec_config_reg ?b CODEC_IWL ?iwl s) (\<lambda>s.
      codec_config_reg ?b CODEC_SR (of_nat (FS_T_val (sr_val_of (SampleRate hdr)))) s))))))"
    by (simp add: nack_then_def)
  finally have eq: "prep_codec ?b hdr = \<dots>" .
  show ?thesis
    unfolding eq prep_fields_def fold_simps using assms
    by (intro hw_codec.sends_cfg_then hw_codec.sends_cfg) simp_all
qed

lemma prep_engines_hw:
  assumes "d' = prep_engines (cortex_bus env) hdr d"
  shows "mclk_sel_f (dac d') = (if SampleRate hdr = 44100 \<or> SampleRate hdr = 88200 then 2 else 3)
    \<and> mclk_en_f (dac d') \<and> dac_drvr_en_f (dac d') \<and> fs_div_val_f (dac d') = fs_div_val_f (dac d)
    \<and> fgyrus_en (fg_l d') \<and> (fgyrus_en (fg_r d') \<longleftrightarrow> 1 < NumChannels hdr \<or> fgyrus_en (fg_r d))
    \<and> (i2c_inv (i2c d) \<longrightarrow> i2c_inv (i2c d'))"
  unfolding assms
  by (simp add: prep_engines_def Let_def update_mclk_sel_def FS_T_of_def FGYRUS_TYPE_of_def hw_step
     fgyrus_write_def dac_read_def dac_write_def idle_inv write_inv)


definition wav44 :: WavHdrType where
  "wav44 = \<lparr>ChunkID = 0x52494646, ChunkSize = 1036, Format = 0x57415645, Subchunk1ID = 0x666d7420, Subchunk1Size = 16,
     AudioFormat = 1, NumChannels = 2, SampleRate = 44100, ByteRate = 176400, BlockAlign = 4, BitsPerSample = 16,
     Extra = 0, Subchunk2ID = 0x64617461, Subchunk2Size = 1000\<rparr>"


text \<open>
  C29: Parsing the header of a file. Once the hardware is set to capture the header by some
  time, \<open>wave_parse\<close> comes back; it has read the first twenty-three captured halfwords, the
  last halfword of the caller's structure is what it was before, and the answer is the check of
  the corrected header.
\<close>

theorem wave_parse_hw:
  assumes "hdr_by env T h" and "length ws = 24"
  shows "\<exists>d'. wave_parse (cortex_bus env) ws d =
    Some (let hdr = fix_hdr (WavHdr_of (map h [0..<23] @ [ws ! 23])) in (chk_wav_hdr hdr, hdr, d'))"
proof -
  from hw_prsr.get_hdr_ok [OF assms, of d] obtain ws' d' where
    g: "get_wav_hdr_frm_prsr (cortex_bus env) CORTEX_MM_SL_BASE ws d = Some (ws', d')"
    and w: "length ws' = 24" "\<forall>i<23. ws' ! i = h i" "ws' ! 23 = ws ! 23" by blast
  have "ws' = map h [0..<23] @ [ws ! 23]"
  proof (rule nth_equalityI)
    fix i assume "i < length ws'"
    then have "i < 23 \<or> i = 23" using w(1) by arith
    with w show "ws' ! i = (map h [0..<23] @ [ws ! 23]) ! i" by (auto simp: nth_append simp del: upt_rec_numeral)
  qed (simp add: w)
  with g show ?thesis by (simp add: wave_parse_def Let_def)
qed

lemma env0_hdr: "hdr_by env0 0 of_nat"
  by (auto simp: hdr_by_def env0_def mono_def unsigned_of_nat take_bit_nat_eq_self)

theorem wave_parse_hw_witness:
  "\<exists>d'. wave_parse (cortex_bus env0) (replicate 24 7) hw0 =
    Some (let hdr = fix_hdr (WavHdr_of (map of_nat [0..<23] @ [7])) in (chk_wav_hdr hdr, hdr, d'))"
  using wave_parse_hw [OF env0_hdr, of "replicate 24 7" hw0] by (simp del: upt_rec_numeral)

end
