(* ===== verification/Trip.thy ===== *)
theory Trip
  imports Bash Cortex_Top
begin

text \<open>
  A visualisation from start to stop: \<^verbatim>\<open>cmd_drop_acid\<close> in the shell thread and \<^verbatim>\<open>acid_thread\<close>, two
  threads of \<^verbatim>\<open>shell/bash.c\<close> that talk through the kernel's synchronous messages
  (\<^verbatim>\<open>chMsgSend\<close>, \<^verbatim>\<open>chMsgWait\<close>, \<^verbatim>\<open>chMsgRelease\<close> of \<^verbatim>\<open>chmsg.c\<close>). The kernel calls are split where a
  thread goes to sleep: a thread that sleeps takes no step until the other one has made it ready.
  Every interleaving of the steps of the threads that are ready is a run of the step relation.
\<close>

subsection \<open>State\<close>

text \<open>Where the shell thread is in \<^verbatim>\<open>cmd_drop_acid\<close>, from the start of the engines on.\<close>

datatype bash_pc = B_start | B_send1 | B_sent1 | B_getc | B_send2 | B_sent2 | B_stop | B_done | B_abort

text \<open>Where the plugin thread is in the loop of \<^verbatim>\<open>acid_thread\<close>; at a wait it may be asleep in it.\<close>

datatype acid_pc = A_wait1 | A_rel1 | A_check | A_frame | A_wait2 | A_rel2

text \<open>
  The kernel states of the two: ready or running, or \<^verbatim>\<open>THD_STATE_SNDMSGQ\<close> or \<^verbatim>\<open>THD_STATE_SNDMSG\<close>; and ready
  or running in its own code, \<^verbatim>\<open>THD_STATE_WTMSG\<close>, or ready again with the rest of \<^verbatim>\<open>chMsgWait\<close> to do.
\<close>

datatype snd_state = Active | SndMsgQ | SndMsg

datatype rcv_state = Running | WtMsg | Woken

datatype thread_id = T_bash | T_acid

text \<open>\<open>msgq\<close> is the plugin thread's message queue; \<open>snd_msg\<close> and \<open>snd_rdymsg\<close> the shell thread's \<^verbatim>\<open>p_msg\<close> and \<^verbatim>\<open>rdymsg\<close>.\<close>

record 'd trip =
  bpc :: bash_pc
  apc :: acid_pc
  acid_tp :: "thread_id option"
  bash_tp :: thread_id
  snd_st :: snd_state
  snd_msg :: int
  snd_rdymsg :: int
  rcv_st :: rcv_state
  msgq :: "thread_id list"
  keys :: "int list"
  bufs :: "(u32 list \<times> u32 list) \<times> u16 list"
  dev :: 'd

subsection \<open>Messages\<close>

text \<open>\<^verbatim>\<open>chMsgSend\<close> by the shell thread, up to its sleep: it joins the queue and wakes a receiver that waits.\<close>

definition msg_send :: "int \<Rightarrow> 'd trip \<Rightarrow> 'd trip" where
  "msg_send m s =
     (let s = s\<lparr>snd_msg := m\<rparr>;
          s = s\<lparr>msgq := msgq s @ [T_bash]\<rparr>;
          s = (if rcv_st s = WtMsg then s\<lparr>rcv_st := Woken\<rparr> else s)
      in s\<lparr>snd_st := SndMsgQ\<rparr>)"

definition msg_pending :: "'d trip \<Rightarrow> bool" where
  "msg_pending s \<longleftrightarrow> msgq s \<noteq> []"

text \<open>
  \<^verbatim>\<open>chMsgWait\<close> by the plugin thread: it sleeps if its queue is empty; then, at once or when it was woken, it
  takes the first sender out of the queue, without looking again whether there is one. \<open>None\<close> is a queue
  with no sender to take.
\<close>

definition msg_wait :: "'d trip \<Rightarrow> 'd trip" where
  "msg_wait s = s\<lparr>rcv_st := WtMsg\<rparr>"

definition msg_take :: "'d trip \<Rightarrow> 'd trip option" where
  "msg_take s =
     (case msgq s of
        [] \<Rightarrow> None
      | tp # q \<Rightarrow> Some (let s = s\<lparr>msgq := q, rcv_st := Running\<rparr> in if tp = T_bash then s\<lparr>snd_st := SndMsg\<rparr> else s))"

text \<open>\<^verbatim>\<open>chMsgRelease\<close>: the thread it is given gets the answer and is ready, whatever it was waiting for.\<close>

definition msg_release :: "thread_id \<Rightarrow> int \<Rightarrow> 'd trip \<Rightarrow> 'd trip" where
  "msg_release tp m s = (if tp = T_bash then s\<lparr>snd_rdymsg := m, snd_st := Active\<rparr> else s)"

subsection \<open>Steps\<close>

inductive bash_step :: "'d bus \<Rightarrow> 'd trip \<Rightarrow> 'd trip \<Rightarrow> bool" for b where
  engines_on: "bpc s = B_start \<Longrightarrow> bash_step b s (s\<lparr>bpc := B_send1, dev := start_engines b (dev s)\<rparr>)"
| no_thread: "bpc s = B_send1 \<Longrightarrow> acid_tp s = None \<Longrightarrow> bash_step b s (s\<lparr>bpc := B_abort\<rparr>)"
| send_start: "bpc s = B_send1 \<Longrightarrow> acid_tp s \<noteq> None \<Longrightarrow> bash_step b s ((msg_send 1 s)\<lparr>bpc := B_sent1\<rparr>)"
| started: "bpc s = B_sent1 \<Longrightarrow> bash_step b s (s\<lparr>bpc := B_getc\<rparr>)"
| quit: "bpc s = B_getc \<Longrightarrow> keys s = 113 # ks \<Longrightarrow> bash_step b s (s\<lparr>bpc := B_send2, keys := ks\<rparr>)"
| other_key: "bpc s = B_getc \<Longrightarrow> keys s = k # ks \<Longrightarrow> k \<noteq> 113 \<Longrightarrow>
    bash_step b s (s\<lparr>keys := ks, dev := sleep_ms b 100 (dev s)\<rparr>)"
| send_stop: "bpc s = B_send2 \<Longrightarrow> bash_step b s ((msg_send 1 s)\<lparr>bpc := B_sent2\<rparr>)"
| stopped: "bpc s = B_sent2 \<Longrightarrow> bash_step b s (s\<lparr>bpc := B_stop\<rparr>)"
| engines_off: "bpc s = B_stop \<Longrightarrow> bash_step b s (s\<lparr>bpc := B_done, dev := stop_engines b (dev s)\<rparr>)"

inductive acid_step :: "'d bus \<Rightarrow> acid_t \<Rightarrow> 'd trip \<Rightarrow> 'd trip \<Rightarrow> bool" for b acid where
  sleep1: "apc s = A_wait1 \<Longrightarrow> rcv_st s = Running \<Longrightarrow> \<not> msg_pending s \<Longrightarrow> acid_step b acid s (msg_wait s)"
| wait1: "apc s = A_wait1 \<Longrightarrow> rcv_st s = Woken \<or> msg_pending s \<Longrightarrow> msg_take s = Some s' \<Longrightarrow> acid_step b acid s (s'\<lparr>apc := A_rel1\<rparr>)"
| release1: "apc s = A_rel1 \<Longrightarrow> acid_step b acid s ((msg_release (bash_tp s) 0 s)\<lparr>apc := A_check\<rparr>)"
| check_go: "apc s = A_check \<Longrightarrow> \<not> msg_pending s \<Longrightarrow> acid_step b acid s (s\<lparr>apc := A_frame\<rparr>)"
| check_stop: "apc s = A_check \<Longrightarrow> msg_pending s \<Longrightarrow> acid_step b acid s (s\<lparr>apc := A_wait2\<rparr>)"
| paint: "apc s = A_frame \<Longrightarrow> acid_frame b acid (bufs s, dev s) = (bf, d) \<Longrightarrow>
    acid_step b acid s (s\<lparr>apc := A_check, bufs := bf, dev := d\<rparr>)"
| sleep2: "apc s = A_wait2 \<Longrightarrow> rcv_st s = Running \<Longrightarrow> \<not> msg_pending s \<Longrightarrow> acid_step b acid s (msg_wait s)"
| wait2: "apc s = A_wait2 \<Longrightarrow> rcv_st s = Woken \<or> msg_pending s \<Longrightarrow> msg_take s = Some s' \<Longrightarrow> acid_step b acid s (s'\<lparr>apc := A_rel2\<rparr>)"
| release2: "apc s = A_rel2 \<Longrightarrow> acid_step b acid s ((msg_release (bash_tp s) 0 s)\<lparr>apc := A_wait1\<rparr>)"

inductive_simps bash_step_simps: "bash_step b s s'"
inductive_simps acid_step_simps: "acid_step b acid s s'"

text \<open>Only a thread that does not sleep takes a step.\<close>

definition trip_step :: "'d bus \<Rightarrow> acid_t \<Rightarrow> 'd trip \<Rightarrow> 'd trip \<Rightarrow> bool" where
  "trip_step b acid s s' \<longleftrightarrow> snd_st s = Active \<and> bash_step b s s' \<or> rcv_st s \<noteq> WtMsg \<and> acid_step b acid s s'"

text \<open>
  The command starts when the plugin thread, which runs at the higher priority from its creation on, has
  left its address in the global and come to its first wait, asleep in it or about to enter it.
\<close>

definition trip_init :: "'d trip \<Rightarrow> bool" where
  "trip_init s \<longleftrightarrow> bpc s = B_start \<and> apc s = A_wait1 \<and> acid_tp s = Some T_acid \<and> bash_tp s = T_bash \<and> snd_st s = Active \<and>
     rcv_st s \<noteq> Woken \<and> msgq s = []"

inductive trip_reach :: "'d bus \<Rightarrow> acid_t \<Rightarrow> 'd trip \<Rightarrow> bool" for b acid where
  init: "trip_init s \<Longrightarrow> trip_reach b acid s"
| step: "trip_reach b acid s \<Longrightarrow> trip_step b acid s s' \<Longrightarrow> trip_reach b acid s'"

subsection \<open>The protocol\<close>

text \<open>Which pairs of places go together, and in which kernel state the shell thread is there.\<close>

fun phase :: "bash_pc \<Rightarrow> snd_state \<Rightarrow> acid_pc \<Rightarrow> bool" where
  "phase B_start st a \<longleftrightarrow> st = Active \<and> a = A_wait1"
| "phase B_send1 st a \<longleftrightarrow> st = Active \<and> a = A_wait1"
| "phase B_sent1 st a \<longleftrightarrow> st = SndMsgQ \<and> a = A_wait1 \<or> st = SndMsg \<and> a = A_rel1
     \<or> st = Active \<and> (a = A_check \<or> a = A_frame)"
| "phase B_getc st a \<longleftrightarrow> st = Active \<and> (a = A_check \<or> a = A_frame)"
| "phase B_send2 st a \<longleftrightarrow> st = Active \<and> (a = A_check \<or> a = A_frame)"
| "phase B_sent2 st a \<longleftrightarrow> st = SndMsgQ \<and> (a = A_check \<or> a = A_frame \<or> a = A_wait2) \<or> st = SndMsg \<and> a = A_rel2
     \<or> st = Active \<and> a = A_wait1"
| "phase B_stop st a \<longleftrightarrow> st = Active \<and> a = A_wait1"
| "phase B_done st a \<longleftrightarrow> st = Active \<and> a = A_wait1"
| "phase B_abort st a \<longleftrightarrow> False"

text \<open>
  The queue holds the shell thread exactly while it is in it, and the plugin thread never sleeps beside a
  message: a sender that finds it asleep has woken it.
\<close>

definition trip_inv :: "'d trip \<Rightarrow> bool" where
  "trip_inv s \<longleftrightarrow> phase (bpc s) (snd_st s) (apc s) \<and> acid_tp s = Some T_acid \<and> bash_tp s = T_bash \<and>
     msgq s = (if snd_st s = SndMsgQ then [T_bash] else []) \<and>
     (rcv_st s = WtMsg \<longrightarrow> apc s = A_wait1 \<and> snd_st s = Active) \<and> (rcv_st s = Woken \<longrightarrow> apc s = A_wait1 \<and> snd_st s = SndMsgQ)"

lemmas msg_defs = msg_send_def msg_pending_def msg_wait_def msg_take_def msg_release_def

lemma trip_inv_step: "trip_inv s \<Longrightarrow> trip_step b acid s s' \<Longrightarrow> trip_inv s'"
  unfolding trip_step_def
  by (elim disjE conjE bash_step.cases acid_step.cases; cases "bpc s") (auto simp: trip_inv_def msg_defs Let_def split: if_splits)

lemma trip_inv_reach: "trip_reach b acid s \<Longrightarrow> trip_inv s"
proof (induction rule: trip_reach.induct)
  case (init s)
  then show ?case by (simp add: trip_init_def trip_inv_def)
next
  case (step s s')
  then show ?case by (blast intro: trip_inv_step)
qed

lemma phase_reach: "trip_reach b acid s \<Longrightarrow> phase (bpc s) (snd_st s) (apc s)"
  using trip_inv_reach by (auto simp: trip_inv_def)

text \<open>
  C14: The message protocol between the shell and the plugin thread. In every reachable state the
  plugin thread releases the shell thread only when it has taken its message, and while it
  paints frames the shell thread is between the start and the stop message.
\<close>

theorem trip_protocol:
  assumes "trip_reach b acid s"
  shows "(apc s = A_rel1 \<or> apc s = A_rel2 \<longrightarrow> snd_st s = SndMsg)
    \<and> (apc s = A_frame \<longrightarrow> bpc s \<in> {B_sent1, B_getc, B_send2, B_sent2})
    \<and> (bpc s = B_stop \<or> bpc s = B_done \<longrightarrow> apc s = A_wait1 \<and> snd_st s = Active)"
  using phase_reach [OF assms] by (cases "bpc s") auto

subsection \<open>Every send returns\<close>

text \<open>The shell thread can go on when it does not sleep, and the plugin thread when the shell thread sleeps.\<close>

lemma bash_moves:
  assumes "trip_inv s" "snd_st s = Active" "bpc s \<noteq> B_done" "bpc s = B_getc \<longrightarrow> keys s \<noteq> []"
  shows "\<exists>s'. bash_step b s s' \<and> trip_step b acid s s'"
proof -
  have "\<exists>s'. bash_step b s s'"
  proof (cases "bpc s")
    case B_getc
    with assms(4) obtain k ks where "keys s = k # ks" by (cases "keys s") auto
    with B_getc show ?thesis by (cases "k = 113") (blast intro: quit other_key)+
  qed (use assms(1,3) in \<open>auto simp: trip_inv_def intro: bash_step.intros\<close>)
  then show ?thesis using assms(2) by (auto simp: trip_step_def)
qed

lemma acid_moves:
  assumes "trip_inv s" "snd_st s \<noteq> Active"
  shows "\<exists>s'. trip_step b acid s s'"
proof -
  obtain bf d where f: "acid_frame b acid (bufs s, dev s) = (bf, d)" by fastforce
  have r: "rcv_st s \<noteq> WtMsg" and p: "phase (bpc s) (snd_st s) (apc s)" and q: "snd_st s = SndMsgQ \<longrightarrow> msg_pending s \<and> msg_take s \<noteq> None"
    using assms by (auto simp: trip_inv_def msg_defs)
  have "\<exists>s'. acid_step b acid s s'"
  proof (cases "apc s")
    case A_wait1
    then have "snd_st s = SndMsgQ" using p assms(2) by (cases "bpc s") auto
    then show ?thesis using A_wait1 q by (auto intro: wait1)
  next
    case A_wait2
    then have "snd_st s = SndMsgQ" using p assms(2) by (cases "bpc s") auto
    then show ?thesis using A_wait2 q by (auto intro: wait2)
  next
    case A_check
    then show ?thesis by (cases "msg_pending s") (blast intro: check_go check_stop)+
  qed (use f in \<open>blast intro: acid_step.intros\<close>)+
  then show ?thesis using r by (auto simp: trip_step_def)
qed

text \<open>How long the shell thread can still sleep, and how many steps are left once the stop message is sent.\<close>

fun sleep_left :: "snd_state \<Rightarrow> acid_pc \<Rightarrow> nat" where
  "sleep_left Active a = 0"
| "sleep_left SndMsg a = 1"
| "sleep_left SndMsgQ A_check = 3"
| "sleep_left SndMsgQ A_frame = 4"
| "sleep_left SndMsgQ a = 2"

definition steps_left :: "'d trip \<Rightarrow> nat" where
  "steps_left s = (if rcv_st s = WtMsg then 0 else 1) + sleep_left (snd_st s) (apc s) + (if bpc s = B_sent2 then 2 else if bpc s = B_stop then 1 else 0)"

lemma sleep_step:
  assumes "trip_inv s" "snd_st s \<noteq> Active" "trip_step b acid s s'"
  shows "sleep_left (snd_st s') (apc s') < sleep_left (snd_st s) (apc s)"
  using assms unfolding trip_step_def
  by (elim disjE conjE acid_step.cases; cases "bpc s") (auto simp: trip_inv_def msg_defs Let_def split: if_splits)

lemma stop_step:
  assumes "trip_inv s" "bpc s \<in> {B_sent2, B_stop, B_done}" "trip_step b acid s s'"
  shows "steps_left s' < steps_left s \<and> bpc s' \<in> {B_sent2, B_stop, B_done}"
  using assms unfolding trip_step_def
  by (elim disjE conjE bash_step.cases acid_step.cases; cases "bpc s") (auto simp: trip_inv_def msg_defs steps_left_def Let_def split: if_splits)

lemma relpow_bound:
  assumes "\<And>s s'. P s \<Longrightarrow> r s s' \<Longrightarrow> P s' \<and> f s' < (f s :: nat)" "P s" "(r ^^ n) s s'"
  shows "P s' \<and> n + f s' \<le> f s"
  using assms(2,3)
proof (induction n arbitrary: s)
  case (Suc n)
  then obtain t where t: "r s t" "(r ^^ n) t s'" by (blast dest: relpowp_Suc_D2)
  have "P t" "f t < f s" using assms(1) [OF Suc.prems(1) t(1)] by simp_all
  then show ?case using Suc.IH [OF _ t(2)] by simp
qed simp

text \<open>The shell thread's own way to the end, for a user who presses the key.\<close>

fun bash_left :: "bash_pc \<Rightarrow> nat" where
  "bash_left B_start = 7"
| "bash_left B_send1 = 6"
| "bash_left B_sent1 = 5"
| "bash_left B_getc = 4"
| "bash_left B_send2 = 3"
| "bash_left B_sent2 = 2"
| "bash_left B_stop = 1"
| "bash_left _ = 0"

definition will_quit :: "'d trip \<Rightarrow> bool" where
  "will_quit s \<longleftrightarrow> 113 \<in> set (keys s) \<or> bpc s \<in> {B_send2, B_sent2, B_stop, B_done}"

definition way_left :: "'d trip \<Rightarrow> nat" where
  "way_left s = 5 * (bash_left (bpc s) + length (keys s)) + sleep_left (snd_st s) (apc s)"

lemma sleep_left_le: "sleep_left st a \<le> 4"
  by (cases "(st, a)" rule: sleep_left.cases) simp_all

lemma bash_way:
  assumes "bash_step b s s'" "will_quit s"
  shows "way_left s' < way_left s \<and> will_quit s'"
proof -
  have n: "bash_left (bpc s') + length (keys s') < bash_left (bpc s) + length (keys s) \<and> will_quit s'"
    using assms by (elim bash_step.cases) (auto simp: will_quit_def msg_defs Let_def)
  then show ?thesis using sleep_left_le [of "snd_st s'" "apc s'"] by (simp add: way_left_def)
qed

lemma acid_way:
  assumes "trip_inv s" "snd_st s \<noteq> Active" "trip_step b acid s s'" "will_quit s"
  shows "way_left s' < way_left s \<and> will_quit s'"
proof -
  have "bpc s' = bpc s" "keys s' = keys s" using assms(2,3) unfolding trip_step_def
    by (auto elim!: acid_step.cases simp: msg_defs Let_def split: if_splits list.splits)
  then show ?thesis using sleep_step [OF assms(1-3)] assms(4) by (simp add: way_left_def will_quit_def)
qed

lemma way_to_end: "trip_inv s \<Longrightarrow> will_quit s \<Longrightarrow> \<exists>s'. (trip_step b acid)\<^sup>*\<^sup>* s s' \<and> bpc s' = B_done"
proof (induction "way_left s" arbitrary: s rule: less_induct)
  case less
  show ?case
  proof (cases "bpc s = B_done")
    case False
    have "\<exists>t. trip_step b acid s t \<and> way_left t < way_left s \<and> will_quit t"
    proof (cases "snd_st s = Active")
      case True
      have "bpc s = B_getc \<longrightarrow> keys s \<noteq> []" using less.prems(2) by (auto simp: will_quit_def)
      from bash_moves [OF less.prems(1) True False this] show ?thesis using bash_way less.prems(2) by blast
    next
      case False
      then show ?thesis using acid_moves [OF less.prems(1)] acid_way [OF less.prems(1)] less.prems(2) by blast
    qed
    then obtain t where t: "trip_step b acid s t" "way_left t < way_left s" "will_quit t" by blast
    from less.hyps [OF t(2) trip_inv_step [OF less.prems(1) t(1)] t(3)] t(1) show ?thesis
      by (meson converse_rtranclp_into_rtranclp)
  qed blast
qed

text \<open>
  C15: The two threads do not lose each other, in any state that can be reached. While the shell thread
  sleeps in \<open>chMsgSend\<close> the plugin thread is not asleep: some step is possible, and after at most four
  more steps, whatever they are, the shell thread is ready again, so both the start and the stop message
  are answered. While it does not sleep and the command is not over, it has a step of its own, provided
  there is a key where it waits for one. Once the stop message is sent every run is over after at most seven steps,
  and a run that is over has the command done and the plugin thread asleep in \<open>chMsgWait\<close>. And when the user
  still is to press \<open>q\<close>, or has, the command can be brought to its end.
\<close>

theorem trip_live:
  assumes "trip_reach b acid s"
  shows "(snd_st s \<noteq> Active \<longrightarrow> (\<exists>s'. trip_step b acid s s') \<and>
       (\<forall>n s'. ((\<lambda>t t'. snd_st t \<noteq> Active \<and> trip_step b acid t t') ^^ n) s s' \<longrightarrow> n \<le> 4))
    \<and> (snd_st s = Active \<and> bpc s \<noteq> B_done \<and> (bpc s = B_getc \<longrightarrow> keys s \<noteq> []) \<longrightarrow> (\<exists>s'. bash_step b s s' \<and> trip_step b acid s s'))
    \<and> (bpc s \<in> {B_sent2, B_stop} \<longrightarrow> (\<forall>n s'. (trip_step b acid ^^ n) s s' \<longrightarrow> n \<le> 7 \<and>
         ((\<nexists>t. trip_step b acid s' t) \<longrightarrow> bpc s' = B_done \<and> apc s' = A_wait1 \<and> rcv_st s' = WtMsg)))
    \<and> (113 \<in> set (keys s) \<or> bpc s \<in> {B_send2, B_sent2, B_stop} \<longrightarrow> (\<exists>s'. (trip_step b acid)\<^sup>*\<^sup>* s s' \<and> bpc s' = B_done))"
proof -
  have i: "trip_inv s" by (rule trip_inv_reach [OF assms])
  have sleep: "n \<le> 4" if "((\<lambda>t t'. snd_st t \<noteq> Active \<and> trip_step b acid t t') ^^ n) s s'" for n s'
  proof -
    have "trip_inv s' \<and> n + sleep_left (snd_st s') (apc s') \<le> sleep_left (snd_st s) (apc s)"
      by (rule relpow_bound [where P = trip_inv, OF _ i that]) (auto intro: trip_inv_step sleep_step)
    then show ?thesis using sleep_left_le [of "snd_st s" "apc s"] by simp
  qed
  have stop: "n \<le> 7 \<and> ((\<nexists>t. trip_step b acid s' t) \<longrightarrow> bpc s' = B_done \<and> apc s' = A_wait1 \<and> rcv_st s' = WtMsg)"
    if z: "bpc s \<in> {B_sent2, B_stop}" and r: "(trip_step b acid ^^ n) s s'" for n s'
  proof -
    let ?P = "\<lambda>t. trip_inv t \<and> bpc t \<in> {B_sent2, B_stop, B_done}"
    have p: "?P s" using i z by auto
    have n: "?P s' \<and> n + steps_left s' \<le> steps_left s"
      by (rule relpow_bound [where P = ?P, OF _ p r]) (use stop_step trip_inv_step in blast)
    have e: "bpc s' = B_done \<and> apc s' = A_wait1 \<and> rcv_st s' = WtMsg" if d: "\<nexists>t. trip_step b acid s' t"
    proof -
      have a: "snd_st s' = Active" using acid_moves [of s' b acid] n d by blast
      moreover have "bpc s' \<noteq> B_getc" using n by auto
      ultimately have e: "bpc s' = B_done" using bash_moves [of s' b acid] n d by blast
      then have w: "apc s' = A_wait1" "msgq s' = []" "rcv_st s' \<noteq> Woken" using n a by (auto simp: trip_inv_def)
      then have "rcv_st s' \<noteq> Running" using sleep1 [of s' b acid] d by (auto simp: trip_step_def msg_pending_def)
      then show ?thesis using e w by (cases "rcv_st s'") simp_all
    qed
    have "steps_left s \<le> 7" using sleep_left_le [of "snd_st s" "apc s"] by (simp add: steps_left_def)
    then have "n \<le> 7" using n by linarith
    then show ?thesis using e by (intro conjI impI) simp_all
  qed
  have "\<exists>s'. (trip_step b acid)\<^sup>*\<^sup>* s s' \<and> bpc s' = B_done" if "113 \<in> set (keys s) \<or> bpc s \<in> {B_send2, B_sent2, B_stop}"
    using way_to_end [OF i] that by (auto simp: will_quit_def)
  with sleep stop acid_moves [OF i] bash_moves [OF i] show ?thesis by blast
qed

subsection \<open>The engines during a trip\<close>

definition engines :: "cortex_hw \<Rightarrow> bool \<times> bool \<times> bool" where
  "engines d = (fgyrus_en (fg_l d), fgyrus_en (fg_r d), adc_drvr_en_f (dac d))"

lemma engines_start: "engines (start_engines (cortex_bus env) d) = (True, True, True)"
  by (simp add: start_engines_def engines_def hw_step fgyrus_write_def dac_read_def dac_write_def)

lemma engines_stop: "engines (stop_engines (cortex_bus env) d) = (False, False, False)"
  by (simp add: stop_engines_def engines_def hw_step fgyrus_write_def dac_read_def dac_write_def)

lemma engines_idle [simp]: "engines (idle env n d) = engines d"
  by (simp add: engines_def)

lemma engines_paint: "engines (pwm_paint (cortex_bus env) CORTEX_MM_SL_BASE bffr d) = engines d"
  unfolding pwm_paint_def
proof (rule fold_keeps)
  fix i d assume "i \<in> set [0..<VCORTEX_PWM_CHNNLS]"
  then have "i < 16" by (simp add: reg_map)
  from chan_decode [OF this refl]
  show "engines (IOWR_32DIRECT (cortex_bus env) CORTEX_MM_SL_BASE (VCORTEX_PWM_RAM_BASE + push_bit 4 (of_nat i)) (ucast (bffr ! i)) d)
      = engines d"
    by (simp add: bus_defs reg_map add.assoc [symmetric] engines_def write_frame sel_acortex_def)
qed

lemma engines_fft: "engines (snd (read_fft_cache (cortex_bus env) n s)) = engines (snd s)"
  unfolding read_fft_cache_def
  by (rule fold_keeps) (simp add: read_fft_sample_def bus_defs case_prod_beta)

lemma engines_frame: "acid_frame (cortex_bus env) acid (bf, d) = (bf', d') \<Longrightarrow> engines d' = engines d"
  using engines_fft [of env FFT_NUM_SAMPLES "(fst bf, d)"]
  by (auto simp: acid_frame_def bus_defs engines_paint case_prod_beta Let_def)

text \<open>
  C16: A plugin paints only while the hardware feeds it. In every reachable state of a
  visualisation on the cortex in which the plugin thread is about to read the spectrum and
  paint, both spectrum engines and the ADC are on; and when the command is over they are off
  and the plugin thread is waiting for the next one.
\<close>

theorem trip_engines:
  assumes "trip_reach (cortex_bus env) acid s"
  shows "(apc s = A_frame \<longrightarrow> engines (dev s) = (True, True, True))
    \<and> (bpc s = B_done \<longrightarrow> engines (dev s) = (False, False, False) \<and> apc s = A_wait1)"
proof -
  have "(bpc s \<notin> {B_start, B_done} \<longrightarrow> engines (dev s) = (True, True, True))
      \<and> (bpc s = B_done \<longrightarrow> engines (dev s) = (False, False, False))"
    using assms
  proof (induction rule: trip_reach.induct)
    case (init s)
    then show ?case by (simp add: trip_init_def)
  next
    case (step s s')
    from phase_reach [OF step.hyps(1)] trip_inv_reach [OF step.hyps(1)] step.IH step.hyps(2) show ?case
      unfolding trip_step_def
      by (elim disjE conjE bash_step.cases acid_step.cases)
         (auto simp: trip_inv_def msg_defs engines_start engines_stop engines_frame bus_defs Let_def split: if_splits)
  qed
  then show ?thesis using phase_reach [OF assms] by (cases "bpc s") auto
qed

subsection \<open>What a frame shows\<close>

lemma fft_outside: "i < 128 \<Longrightarrow> \<not> cortex_cs (0x1100000 + push_bit 4 (of_nat i)) \<and> \<not> cortex_cs (0x1100800 + push_bit 4 (of_nat i))"
proof -
  assume i: "i < 128"
  have u: "unat (of_nat i :: u32) = i" using i by (simp add: unsigned_of_nat take_bit_nat_eq_self)
  have s: "unat (c + push_bit 4 (of_nat i) :: u32) = unat c + 16 * i" if "unat c + 16 * 128 < 2 ^ 32" for c
    using that i by (simp add: unat_word_ariths push_bit_eq_mult u)
  from s [of "0x1100000"] s [of "0x1100800"] i
  have "unat (0x1100000 + push_bit 4 (of_nat i) :: u32) div 2 ^ 20 = 17" "unat (0x1100800 + push_bit 4 (of_nat i) :: u32) div 2 ^ 20 = 17"
    by simp_all
  moreover have "cortex_cs a \<Longrightarrow> unat a div 2 ^ 20 = 16" for a
  proof -
    assume "cortex_cs a"
    then have "unat (drop_bit 20 a) = 16" by (simp add: cortex_cs_def)
    then show ?thesis by (simp add: drop_bit_eq_div unat_div)
  qed
  ultimately show ?thesis by fastforce
qed

text \<open>
  C31: A frame of the \<open>sunshine\<close> plugin, from the FFT cache to the lights: light channel \<open>i\<close>
  shows the two low bits of bin \<open>i\<close> of the left half of the cache, for every channel.
\<close>

theorem sunshine_frame_hw:
  assumes mem: "\<And>a t. other_rd env a t = mem a" and len: "length (fst (fst bf)) = 128" "length (snd bf) = 16" and i: "i < 16"
  shows "unat (pwm_ram (snd (acid_frame (cortex_bus env) acid_sunshine (bf, d))) (of_nat i))
    = (unat (mem (0x1100800 + push_bit 4 (of_nat i))) mod 4) * 2 ^ 14"
proof -
  let ?b = "cortex_bus env"
  obtain l r p where bf: "bf = ((l, r), p)" by (metis surj_pair)
  obtain l' r' d1 where f: "((l', r'), d1) = fold (read_fft_sample ?b) [0..<128] ((l, r), d)" by (metis surj_pair)
  have "l' ! i = mem (0x1100800 + push_bit 4 (of_nat i))"
  proof -
    have "length l' = length l \<and> length r' = length r
      \<and> (\<forall>i < length l. l' ! i = (if i < 128 then mem (0x1100800 + push_bit 4 (of_nat i)) else l ! i))
      \<and> (\<forall>i < length r. r' ! i = (if i < 128 then mem (0x1100000 + push_bit 4 (of_nat i)) else r ! i))"
    proof (rule read_fft_upto [OF f])
      fix i a d v d'
      assume "i < (128 :: nat)" "a = 0x1100000 + push_bit 4 (of_nat i) \<or> a = 0x1100800 + push_bit 4 (of_nat i)"
        "bus_rd ?b a d = (v, d')"
      with fft_outside [of i] mem show "v = mem a" by auto
    qed
    with i len show ?thesis by (simp add: bf)
  qed
  moreover have "read_fft_cache ?b FFT_NUM_SAMPLES ((l, r), d) = ((l', r'), d1)"
    using f by (simp add: read_fft_cache_def reg_map del: upt_rec_numeral)
  moreover have "unat (acid_sunshine l' r' p ! i) = (unat (l' ! i) mod 4) * 2 ^ 14"
    using len i by (simp add: bf sunshine_level)
  moreover have "pwm_ram (pwm_paint ?b CORTEX_MM_SL_BASE (acid_sunshine l' r' p) d1) (of_nat i) = acid_sunshine l' r' p ! i"
    using hw_vcortex.paint_ok [OF TrueI refl, of env "acid_sunshine l' r' p" d1] i by simp
  ultimately show ?thesis by (simp add: acid_frame_def bf bus_defs Let_def)
qed

theorem sunshine_frame_hw_witness:
  "unat (pwm_ram (snd (acid_frame (cortex_bus env0) acid_sunshine (((replicate 128 0, []), replicate 16 0), hw0))) 3) = 3 * 2 ^ 14"
proof -
  have m: "\<And>a t. other_rd env0 a t = drop_bit 4 a" by (simp add: env0_def)
  have l: "length (fst (fst ((replicate 128 (0 :: u32), [] :: u32 list), replicate 16 (0 :: u16)))) = 128"
    "length (snd ((replicate 128 (0 :: u32), [] :: u32 list), replicate 16 (0 :: u16))) = 16" by simp_all
  show ?thesis using sunshine_frame_hw [OF m l, of 3 hw0] by simp
qed

subsection \<open>A run\<close>

text \<open>The first steps of a visualisation, up to the first frame.\<close>

definition trip0 :: "cortex_hw trip" where
  "trip0 = \<lparr>bpc = B_start, apc = A_wait1, acid_tp = Some T_acid, bash_tp = T_bash, snd_st = Active, snd_msg = 0, snd_rdymsg = 0,
     rcv_st = WtMsg, msgq = [], keys = [32, 113], bufs = (([], []), replicate 16 0), dev = hw0\<rparr>"

definition trip1 :: "cortex_hw trip" where
  "trip1 = trip0\<lparr>bpc := B_sent1, apc := A_frame, snd_msg := 1, rcv_st := Running, dev := start_engines (cortex_bus env0) hw0\<rparr>"

lemma trip0_reach: "trip_reach b acid trip0"
  by (rule trip_reach.init) (simp add: trip_init_def trip0_def)

lemma trip1_reach: "trip_reach (cortex_bus env0) acid trip1"
proof -
  let ?b = "cortex_bus env0"
  let ?s1 = "trip0\<lparr>bpc := B_send1, dev := start_engines ?b (dev trip0)\<rparr>"
  let ?s2 = "(msg_send 1 ?s1)\<lparr>bpc := B_sent1\<rparr>"
  let ?s3 = "(the (msg_take ?s2))\<lparr>apc := A_rel1\<rparr>"
  let ?s4 = "(msg_release (bash_tp ?s3) 0 ?s3)\<lparr>apc := A_check\<rparr>"
  note d = trip0_def msg_defs trip_step_def
  have "trip_step ?b acid trip0 ?s1" using engines_on [of trip0 ?b] by (simp add: d)
  moreover have "trip_step ?b acid ?s1 ?s2" using send_start [of ?s1 ?b] by (simp add: d)
  moreover have "trip_step ?b acid ?s2 ?s3" using wait1 [of ?s2 "the (msg_take ?s2)" ?b acid] by (simp add: d)
  moreover have "trip_step ?b acid ?s3 ?s4" using release1 [of ?s3 ?b acid] by (simp add: d)
  moreover have "trip_step ?b acid ?s4 (?s4\<lparr>apc := A_frame\<rparr>)" using check_go [of ?s4 ?b acid] by (simp add: d)
  ultimately have "trip_reach ?b acid (?s4\<lparr>apc := A_frame\<rparr>)"
    by (meson trip0_reach trip_reach.step)
  moreover have "?s4\<lparr>apc := A_frame\<rparr> = trip1" by (simp add: trip1_def d)
  ultimately show ?thesis by simp
qed

theorem trip_protocol_witness:
  "trip_reach (cortex_bus env0) acid_sunshine trip1 \<and> apc trip1 = A_frame \<and> bpc trip1 \<in> {B_sent1, B_getc, B_send2, B_sent2}"
  using trip_protocol [OF trip1_reach [of acid_sunshine]] trip1_reach by (simp add: trip1_def)

text \<open>The shell thread of this state can go on, and the visualisation can be brought to its end: the keys pressed are a space and \<open>q\<close>.\<close>

theorem trip_live_witness:
  "(\<exists>s'. bash_step (cortex_bus env0) trip1 s') \<and>
   (\<exists>s'. (trip_step (cortex_bus env0) acid_sunshine)\<^sup>*\<^sup>* trip1 s' \<and> bpc s' = B_done)"
  using trip_live [OF trip1_reach [of acid_sunshine]] by (auto simp: trip1_def trip0_def)

theorem trip_engines_witness:
  "trip_reach (cortex_bus env0) acid_sunshine trip1 \<and> apc trip1 = A_frame \<and> engines (dev trip1) = (True, True, True)"
  using trip_engines [OF trip1_reach [of acid_sunshine]] trip1_reach by (simp add: trip1_def)

end
