(* ===== verification/Ledos_Main.thy ===== *)
theory Ledos_Main
  imports Trip
begin

text \<open>
  The bring-up of the whole application: \<^verbatim>\<open>init_ledos\<close> of \<^verbatim>\<open>ledos/ledos.c\<close>, called by \<^verbatim>\<open>main\<close> of
  \<^verbatim>\<open>main.c\<close> with a rate of 32 kHz and 16 bits. The logo it prints is left out.
\<close>

subsection \<open>State\<close>

datatype task = Acid_Thread | Shell_Thread

text \<open>
  The codec's shadow, the shell's surroundings with the hardware in them, whether the shell's
  event source is initialised and listened to, and the threads created, in order, with their
  priorities over \<^verbatim>\<open>NORMALPRIO\<close>.
\<close>

record ('f, 'd) ledos =
  codec_shadow :: "u16 list"
  tty :: "('f, 'd) bash_st shell_st"
  evt_init :: bool
  evt_listeners :: nat
  tasks :: "(task \<times> nat) list"

definition TASK_ACID_PRIORITY :: nat where "TASK_ACID_PRIORITY = 3"

definition SHELL_PRIORITY :: nat where "SHELL_PRIORITY = 1"

definition on_term ::
  "(('f, 'd) bash_st shell_st \<Rightarrow> ('f, 'd) bash_st shell_st) \<Rightarrow> ('f, 'd) ledos \<Rightarrow> ('f, 'd) ledos" where
  "on_term f s = s\<lparr>tty := f (tty s)\<rparr>"

definition shellInit :: "('f, 'd) ledos \<Rightarrow> ('f, 'd) ledos" where
  "shellInit s = s\<lparr>evt_init := True, evt_listeners := 0\<rparr>"

definition evt_register :: "('f, 'd) ledos \<Rightarrow> ('f, 'd) ledos" where
  "evt_register s = s\<lparr>evt_listeners := Suc (evt_listeners s)\<rparr>"

definition acidThreadCreateStatic :: "nat \<Rightarrow> ('f, 'd) ledos \<Rightarrow> ('f, 'd) ledos" where
  "acidThreadCreateStatic prio s = s\<lparr>tasks := tasks s @ [(Acid_Thread, prio)]\<rparr>"

definition shellCreateStatic :: "nat \<Rightarrow> ('f, 'd) ledos \<Rightarrow> ('f, 'd) ledos" where
  "shellCreateStatic prio s = s\<lparr>tasks := tasks s @ [(Shell_Thread, prio)]\<rparr>"

subsection \<open>Bring-up\<close>

definition init_ledos :: "'d bus \<Rightarrow> 'f fatfs \<Rightarrow> FS_T \<Rightarrow> BPS_T \<Rightarrow> ('f, 'd) ledos \<Rightarrow> ('f, 'd) ledos option" where
  "init_ledos b F fs bps s = do {
     let s = on_term (on_hw (cortex_init b CORTEX_MM_SL_BASE fs bps)) s;
     (_, (sh, d)) \<leftarrow> codec_init b bps fs (codec_shadow s, hw (usr (tty s)));
     let s = on_term (on_hw (\<lambda>_. d)) (s\<lparr>codec_shadow := sh\<rparr>);
     let s = on_term (init_bash b F) s;
     let s = shellInit s;
     let s = evt_register s;
     let s = on_term (print (''Updating default acid to <sunshine>'' @ CRLF)) s;
     let s = on_term (\<lambda>t. t\<lparr>usr := snd (update_acid get_acid_box ''sunshine'' (usr t))\<rparr>) s;
     let s = on_term (print (''Starting acid_thread'' @ CRLF)) s;
     let s = acidThreadCreateStatic TASK_ACID_PRIORITY s;
     let s = on_term (print (''Starting Shell'' @ CRLF)) s;
     Some (shellCreateStatic SHELL_PRIORITY s)
   }"

text \<open>\<^verbatim>\<open>main\<close>, up to its idle loop.\<close>

definition main_start :: "'d bus \<Rightarrow> 'f fatfs \<Rightarrow> ('f, 'd) ledos \<Rightarrow> ('f, 'd) ledos option" where
  "main_start b F s =
     init_ledos b F FS_32KHZ BPS_16 (on_term (print (''Hello from NIOS II ...'' @ CRLF)) s)"

subsection \<open>The bring-up on the hardware\<close>

lemma perf_reset_hw: "others (PERF_RESET (cortex_bus env) PERF_CNTR_BASE d) = others d"
  "wire_log (PERF_RESET (cortex_bus env) PERF_CNTR_BASE d) = wire_log d"
  by (simp_all add: PERF_RESET_def bus_defs reg_map)

lemma codec_init_fr:
  assumes "i2c_inv (i2c d)"
  obtains res sh' d' k where "codec_init (cortex_bus env) bps fs (sh, d) = Some (res, (sh', d'))" "others d' = others d"
    "shadow_inv sh'" "wire_log d' = wire_log d @ map (Pair 0x34) (take k (codec_init_words bps fs))"
    "res = I2C_OK \<longrightarrow> sh' = codec_init_shadow bps fs \<and> k = length (codec_init_words bps fs)"
proof -
  have "i2c_inv (i2c d) \<and> others d = others d" using assms by simp
  from sendsE [OF hw_codec.sends_init this, of env bps fs sh] show ?thesis
    using that by (metis CODEC_I2C_WRITE_ADDR_def)
qed

text \<open>
  C20: The bring-up of the application, for any rate and width and from any state of the hardware.
  It comes back; the DAC block is configured for the rate and width with its clocks running,
  the light engine is on, the codec was sent a prefix of its power-on sequence and its shadow
  is well formed, the default plugin is selected, and the plugin and the shell thread are
  created in that order with the plugin thread at the higher priority.
\<close>

theorem init_ledos_hw:
  "\<exists>s' k. init_ledos (cortex_bus env) F fs bps s = Some s' \<and> shadow_inv (codec_shadow s')
     \<and> dac (hw (usr (tty s'))) =
         \<lparr>dac_drvr_en_f = False, adc_drvr_en_f = False, bps_f = (bps = BPS_32), fs_div_val_f = of_nat (fs2div_lookup fs),
          mclk_sel_f = of_nat (MCLK_SEL_val (fs2mclk_lookup fs)), mclk_en_f = True\<rparr>
     \<and> pwm_gen_en (hw (usr (tty s')))
     \<and> wire_log (hw (usr (tty s'))) = wire_log (hw (usr (tty s))) @ map (Pair 0x34) (take k (codec_init_words bps fs))
     \<and> current_acid (usr (tty s')) = Some acid_sunshine \<and> current_acid_str (usr (tty s')) = ''sunshine''
     \<and> tasks s' = tasks s @ [(Acid_Thread, 3), (Shell_Thread, 1)] \<and> evt_init s' \<and> evt_listeners s' = 1"
proof -
  let ?d = "cortex_init (cortex_bus env) CORTEX_MM_SL_BASE fs bps (hw (usr (tty s)))"
  have "i2c_inv (i2c ?d)" using cortex_init_i2c [of env fs bps "hw (usr (tty s))"] by (simp add: i2c_quiet_def)
  then obtain res sh d k where c: "codec_init (cortex_bus env) bps fs (codec_shadow s, ?d) = Some (res, (sh, d))"
    "others d = others ?d" "shadow_inv sh" "wire_log d = wire_log ?d @ map (Pair 0x34) (take k (codec_init_words bps fs))"
    by (rule codec_init_fr)
  let ?e = "PERF_RESET (cortex_bus env) PERF_CNTR_BASE d"
  have e: "dac ?e = dac ?d" "pwm_gen_en ?e = pwm_gen_en ?d"
    "wire_log ?e = wire_log ?d @ map (Pair 0x34) (take k (codec_init_words bps fs))"
    using perf_reset_hw [of env d] c(2,4) by (simp_all add: others_def)
  have n: "strcaseeq ''sunshine'' ''sunshine''" by (simp add: strcaseeq_def)
  show ?thesis
    using c(1,3) e cortex_init_dac [of env fs bps "hw (usr (tty s))"] cortex_init_engines [OF refl, of env fs bps "hw (usr (tty s))"] n
    by (simp add: init_ledos_def on_term_def on_hw_def init_bash_def print_def shellInit_def evt_register_def
        acidThreadCreateStatic_def shellCreateStatic_def get_acid_box_def acid_box_def Let_def
        TASK_ACID_PRIORITY_def SHELL_PRIORITY_def) blast
qed

end
