(* ===== verification/Diskio.thy ===== *)
theory Diskio
  imports Bus
begin

text \<open>
  The SD card behind the file system, \<^verbatim>\<open>fatfs/diskio.c\<close> and \<^verbatim>\<open>diskio.h\<close>: bytes over the SPI core,
  card commands, sector reads and writes. What the SPI core and the card do is the bus; a loop
  that polls the core for ever is \<open>None\<close>.
\<close>

subsection \<open>The SPI core and the delay timer\<close>

definition ALTERA_AVALON_SPI_RXDATA_REG :: u32 where [reg_map]: "ALTERA_AVALON_SPI_RXDATA_REG = 0"
definition ALTERA_AVALON_SPI_TXDATA_REG :: u32 where [reg_map]: "ALTERA_AVALON_SPI_TXDATA_REG = 1"
definition ALTERA_AVALON_SPI_STATUS_REG :: u32 where [reg_map]: "ALTERA_AVALON_SPI_STATUS_REG = 2"
definition ALTERA_AVALON_SPI_SLAVE_SEL_REG :: u32 where [reg_map]: "ALTERA_AVALON_SPI_SLAVE_SEL_REG = 5"
definition ALTERA_AVALON_SPI_STATUS_TMT_MSK :: u32 where [reg_map]: "ALTERA_AVALON_SPI_STATUS_TMT_MSK = 0x20"
definition ALTERA_AVALON_SPI_STATUS_TRDY_MSK :: u32 where [reg_map]: "ALTERA_AVALON_SPI_STATUS_TRDY_MSK = 0x40"
definition ALTERA_AVALON_SPI_STATUS_RRDY_MSK :: u32 where [reg_map]: "ALTERA_AVALON_SPI_STATUS_RRDY_MSK = 0x80"

definition IORD_ALTERA_AVALON_SPI_RXDATA :: "'d bus \<Rightarrow> u32 \<Rightarrow> 'd \<Rightarrow> u32 \<times> 'd" where
  "IORD_ALTERA_AVALON_SPI_RXDATA b base = IORD b base ALTERA_AVALON_SPI_RXDATA_REG"
definition IORD_ALTERA_AVALON_SPI_STATUS :: "'d bus \<Rightarrow> u32 \<Rightarrow> 'd \<Rightarrow> u32 \<times> 'd" where
  "IORD_ALTERA_AVALON_SPI_STATUS b base = IORD b base ALTERA_AVALON_SPI_STATUS_REG"
definition IOWR_ALTERA_AVALON_SPI_TXDATA :: "'d bus \<Rightarrow> u32 \<Rightarrow> u32 \<Rightarrow> 'd \<Rightarrow> 'd" where
  "IOWR_ALTERA_AVALON_SPI_TXDATA b base = IOWR b base ALTERA_AVALON_SPI_TXDATA_REG"
definition IOWR_ALTERA_AVALON_SPI_STATUS :: "'d bus \<Rightarrow> u32 \<Rightarrow> u32 \<Rightarrow> 'd \<Rightarrow> 'd" where
  "IOWR_ALTERA_AVALON_SPI_STATUS b base = IOWR b base ALTERA_AVALON_SPI_STATUS_REG"
definition IOWR_ALTERA_AVALON_SPI_SLAVE_SEL :: "'d bus \<Rightarrow> u32 \<Rightarrow> u32 \<Rightarrow> 'd \<Rightarrow> 'd" where
  "IOWR_ALTERA_AVALON_SPI_SLAVE_SEL b base = IOWR b base ALTERA_AVALON_SPI_SLAVE_SEL_REG"

definition ALTERA_AVALON_TIMER_STATUS_REG :: u32 where [reg_map]: "ALTERA_AVALON_TIMER_STATUS_REG = 0"
definition ALTERA_AVALON_TIMER_CONTROL_REG :: u32 where [reg_map]: "ALTERA_AVALON_TIMER_CONTROL_REG = 1"
definition ALTERA_AVALON_TIMER_STATUS_RUN_MSK :: u32 where [reg_map]: "ALTERA_AVALON_TIMER_STATUS_RUN_MSK = 0x2"
definition ALTERA_AVALON_TIMER_CONTROL_START_MSK :: u32 where [reg_map]: "ALTERA_AVALON_TIMER_CONTROL_START_MSK = 0x4"

definition IORD_ALTERA_AVALON_TIMER_STATUS :: "'d bus \<Rightarrow> u32 \<Rightarrow> 'd \<Rightarrow> u32 \<times> 'd" where
  "IORD_ALTERA_AVALON_TIMER_STATUS b base = IORD b base ALTERA_AVALON_TIMER_STATUS_REG"
definition IOWR_ALTERA_AVALON_TIMER_CONTROL :: "'d bus \<Rightarrow> u32 \<Rightarrow> u32 \<Rightarrow> 'd \<Rightarrow> 'd" where
  "IOWR_ALTERA_AVALON_TIMER_CONTROL b base = IOWR b base ALTERA_AVALON_TIMER_CONTROL_REG"

lemmas spi_io_defs = IORD_ALTERA_AVALON_SPI_RXDATA_def IORD_ALTERA_AVALON_SPI_STATUS_def
  IOWR_ALTERA_AVALON_SPI_TXDATA_def IOWR_ALTERA_AVALON_SPI_STATUS_def IOWR_ALTERA_AVALON_SPI_SLAVE_SEL_def
  IORD_ALTERA_AVALON_TIMER_STATUS_def IOWR_ALTERA_AVALON_TIMER_CONTROL_def

definition init_port :: "'d bus \<Rightarrow> 'd \<Rightarrow> 'd" where
  "init_port b d =
     IOWR_ALTERA_AVALON_SPI_STATUS b SDCARD_SPI_BASE 0x0 (IOWR_ALTERA_AVALON_SPI_SLAVE_SEL b SDCARD_SPI_BASE 0x0 d)"

partial_function (option) timer_run :: "'d bus \<Rightarrow> 'd \<Rightarrow> 'd option" where
  "timer_run b d =
     (let (v, d) = IORD_ALTERA_AVALON_TIMER_STATUS b TIMER_1US_BASE d
      in if v AND ALTERA_AVALON_TIMER_STATUS_RUN_MSK \<noteq> 0 then timer_run b d else Some d)"

fun dly_us :: "'d bus \<Rightarrow> nat \<Rightarrow> 'd \<Rightarrow> 'd option" where
  "dly_us b 0 d = Some d"
| "dly_us b (Suc n) d = do {
     d \<leftarrow> timer_run b (IOWR_ALTERA_AVALON_TIMER_CONTROL b TIMER_1US_BASE ALTERA_AVALON_TIMER_CONTROL_START_MSK d);
     dly_us b n d }"

partial_function (option) wait_on_spi :: "'d bus \<Rightarrow> u32 \<Rightarrow> 'd \<Rightarrow> 'd option" where
  "wait_on_spi b msk d =
     (let (v, d) = IORD_ALTERA_AVALON_SPI_STATUS b SDCARD_SPI_BASE d
      in if v AND msk = 0 then wait_on_spi b msk d else Some d)"

subsection \<open>Bytes\<close>

text \<open>One turn of the transfer loops: a byte out, a byte in.\<close>

definition spi_byte :: "'d bus \<Rightarrow> u8 \<Rightarrow> 'd \<Rightarrow> (u8 \<times> 'd) option" where
  "spi_byte b w d = do {
     d \<leftarrow> wait_on_spi b ALTERA_AVALON_SPI_STATUS_TRDY_MSK d;
     let d = IOWR_ALTERA_AVALON_SPI_TXDATA b SDCARD_SPI_BASE (ucast w) d;
     d \<leftarrow> wait_on_spi b ALTERA_AVALON_SPI_STATUS_RRDY_MSK d;
     let (v, d) = IORD_ALTERA_AVALON_SPI_RXDATA b SDCARD_SPI_BASE d;
     Some (ucast v, d) }"

fun spi_bytes :: "'d bus \<Rightarrow> u8 list \<Rightarrow> 'd \<Rightarrow> (u8 list \<times> 'd) option" where
  "spi_bytes b [] d = Some ([], d)"
| "spi_bytes b (w # ws) d = do {
     (v, d) \<leftarrow> spi_byte b w d;
     (vs, d) \<leftarrow> spi_bytes b ws d;
     Some (v # vs, d) }"

text \<open>The byte counts are never zero where these are called: the loops test at the end.\<close>

definition xmit_mmc :: "'d bus \<Rightarrow> u8 list \<Rightarrow> 'd \<Rightarrow> 'd option" where
  "xmit_mmc b buff d = do {
     let (_, d) = IORD_ALTERA_AVALON_SPI_RXDATA b SDCARD_SPI_BASE d;
     (_, d) \<leftarrow> spi_bytes b buff d;
     wait_on_spi b ALTERA_AVALON_SPI_STATUS_TMT_MSK d }"

definition rcvr_mmc :: "'d bus \<Rightarrow> nat \<Rightarrow> 'd \<Rightarrow> (u8 list \<times> 'd) option" where
  "rcvr_mmc b bc d = do {
     let (_, d) = IORD_ALTERA_AVALON_SPI_RXDATA b SDCARD_SPI_BASE d;
     (buff, d) \<leftarrow> spi_bytes b (replicate bc 0xff) d;
     d \<leftarrow> wait_on_spi b ALTERA_AVALON_SPI_STATUS_TMT_MSK d;
     Some (buff, d) }"

definition rcvr1 :: "'d bus \<Rightarrow> 'd \<Rightarrow> (u8 \<times> 'd) option" where
  "rcvr1 b d = do { (bs, d) \<leftarrow> rcvr_mmc b 1 d; Some (hd bs, d) }"

subsection \<open>Card selection and packets\<close>

text \<open>\<open>tmr\<close> counts the polls left.\<close>

fun ready_loop :: "'d bus \<Rightarrow> nat \<Rightarrow> 'd \<Rightarrow> (bool \<times> 'd) option" where
  "ready_loop b 0 d = Some (False, d)"
| "ready_loop b (Suc tmr) d = do {
     (v, d) \<leftarrow> rcvr1 b d;
     if v = 0xff then Some (True, d)
     else do { d \<leftarrow> dly_us b 100 d; ready_loop b tmr d } }"

definition wait_ready :: "'d bus \<Rightarrow> 'd \<Rightarrow> (bool \<times> 'd) option" where
  "wait_ready b d = ready_loop b 5000 d"

definition deselect :: "'d bus \<Rightarrow> 'd \<Rightarrow> 'd option" where
  "deselect b d = do {
     (_, d) \<leftarrow> rcvr1 b (IOWR_ALTERA_AVALON_SPI_SLAVE_SEL b SDCARD_SPI_BASE 0x0 d);
     Some d }"

definition select :: "'d bus \<Rightarrow> 'd \<Rightarrow> (bool \<times> 'd) option" where
  "select b d = do {
     (_, d) \<leftarrow> rcvr1 b (IOWR_ALTERA_AVALON_SPI_SLAVE_SEL b SDCARD_SPI_BASE 0x1 d);
     (r, d) \<leftarrow> wait_ready b d;
     if r then Some (True, d)
     else do { d \<leftarrow> deselect b d; Some (False, d) } }"

text \<open>Waiting for a data token; the last byte read is what the code looks at afterwards.\<close>

fun token_loop :: "'d bus \<Rightarrow> nat \<Rightarrow> u8 \<Rightarrow> 'd \<Rightarrow> (u8 \<times> 'd) option" where
  "token_loop b 0 v d = Some (v, d)"
| "token_loop b (Suc tmr) v d = do {
     (v, d) \<leftarrow> rcvr1 b d;
     if v \<noteq> 0xff then Some (v, d)
     else do { d \<leftarrow> dly_us b 100 d; token_loop b tmr v d } }"

text \<open>The data block, or nothing when the card did not deliver one.\<close>

definition rcvr_datablock :: "'d bus \<Rightarrow> nat \<Rightarrow> 'd \<Rightarrow> (u8 list option \<times> 'd) option" where
  "rcvr_datablock b btr d = do {
     (t, d) \<leftarrow> token_loop b 1000 0 d;
     if t \<noteq> 0xfe then Some (None, d)
     else do {
       (buff, d) \<leftarrow> rcvr_mmc b btr d;
       (_, d) \<leftarrow> rcvr_mmc b 2 d;
       Some (Some buff, d) } }"

definition xmit_datablock :: "'d bus \<Rightarrow> u8 list \<Rightarrow> u8 \<Rightarrow> 'd \<Rightarrow> (bool \<times> 'd) option" where
  "xmit_datablock b buff token d = do {
     (r, d) \<leftarrow> wait_ready b d;
     if \<not> r then Some (False, d)
     else do {
       d \<leftarrow> xmit_mmc b [token] d;
       if token \<noteq> 0xfd then do {
         d \<leftarrow> xmit_mmc b buff d;
         (_, d) \<leftarrow> rcvr_mmc b 2 d;
         (v, d) \<leftarrow> rcvr1 b d;
         Some (v AND 0x1f = 0x05, d) }
       else Some (True, d) } }"

subsection \<open>Commands\<close>

definition CMD0 :: u8 where "CMD0 = 0"
definition CMD1 :: u8 where "CMD1 = 1"
definition ACMD41 :: u8 where "ACMD41 = 0x80 + 41"
definition CMD8 :: u8 where "CMD8 = 8"
definition CMD9 :: u8 where "CMD9 = 9"
definition CMD12 :: u8 where "CMD12 = 12"
definition CMD13 :: u8 where "CMD13 = 13"
definition CMD16 :: u8 where "CMD16 = 16"
definition CMD17 :: u8 where "CMD17 = 17"
definition CMD18 :: u8 where "CMD18 = 18"
definition ACMD23 :: u8 where "ACMD23 = 0x80 + 23"
definition CMD24 :: u8 where "CMD24 = 24"
definition CMD25 :: u8 where "CMD25 = 25"
definition CMD55 :: u8 where "CMD55 = 55"
definition CMD58 :: u8 where "CMD58 = 58"

lemmas cmd_defs = CMD0_def CMD1_def ACMD41_def CMD8_def CMD9_def CMD12_def CMD13_def CMD16_def CMD17_def
  CMD18_def ACMD23_def CMD24_def CMD25_def CMD55_def CMD58_def

definition cmd_frame :: "u8 \<Rightarrow> u32 \<Rightarrow> u8 list" where
  "cmd_frame cmd arg =
     (let n = 0x01;
          n = (if cmd = CMD0 then 0x95 else n);
          n = (if cmd = CMD8 then 0x87 else n)
      in [0x40 OR cmd, ucast (drop_bit 24 arg), ucast (drop_bit 16 arg), ucast (drop_bit 8 arg), ucast arg, n])"

fun resp_loop :: "'d bus \<Rightarrow> nat \<Rightarrow> 'd \<Rightarrow> (u8 \<times> 'd) option" where
  "resp_loop b 0 d = rcvr1 b d"
| "resp_loop b (Suc n) d = do {
     (v, d) \<leftarrow> rcvr1 b d;
     if v AND 0x80 \<noteq> 0 \<and> n \<noteq> 0 then resp_loop b n d else Some (v, d) }"

text \<open>A plain command; an application command is one of these after a \<open>CMD55\<close>.\<close>

definition send_plain :: "'d bus \<Rightarrow> u8 \<Rightarrow> u32 \<Rightarrow> 'd \<Rightarrow> (u8 \<times> 'd) option" where
  "send_plain b cmd arg d = do {
     d \<leftarrow> deselect b d;
     (r, d) \<leftarrow> select b d;
     if \<not> r then Some (0xff, d)
     else do {
       d \<leftarrow> xmit_mmc b (cmd_frame cmd arg) d;
       d \<leftarrow> (if cmd = CMD12 then do { (_, d) \<leftarrow> rcvr1 b d; Some d } else Some d);
       resp_loop b 10 d } }"

definition send_cmd :: "'d bus \<Rightarrow> u8 \<Rightarrow> u32 \<Rightarrow> 'd \<Rightarrow> (u8 \<times> 'd) option" where
  "send_cmd b cmd arg d =
     (if cmd AND 0x80 \<noteq> 0 then do {
        (n, d) \<leftarrow> send_plain b CMD55 0 d;
        if n > 1 then Some (n, d) else send_plain b (cmd AND 0x7f) arg d }
      else send_plain b cmd arg d)"

subsection \<open>The disk\<close>

definition STA_NOINIT :: u8 where "STA_NOINIT = 0x01"
definition CT_MMC :: u8 where "CT_MMC = 0x01"
definition CT_SD1 :: u8 where "CT_SD1 = 0x02"
definition CT_SD2 :: u8 where "CT_SD2 = 0x04"
definition CT_SDC :: u8 where "CT_SDC = 0x06"
definition CT_BLOCK :: u8 where "CT_BLOCK = 0x08"

datatype DRESULT = RES_OK | RES_ERROR | RES_WRPRT | RES_NOTRDY | RES_PARERR

record 'd disk =
  Stat :: u8
  CardType :: u8
  port :: 'd

definition disk_status :: "'d bus \<Rightarrow> u8 \<Rightarrow> 'd disk \<Rightarrow> (u8 \<times> 'd disk) option" where
  "disk_status b drv k =
     (if drv \<noteq> 0 then Some (STA_NOINIT, k)
      else if Stat k AND STA_NOINIT \<noteq> 0 then Some (Stat k, k)
      else do {
        (n, d) \<leftarrow> send_cmd b CMD13 0 (port k);
        let s = (if n \<noteq> 0 then STA_NOINIT else Stat k);
        (_, d) \<leftarrow> rcvr1 b d;
        d \<leftarrow> deselect b d;
        Some (s, k\<lparr>Stat := s, port := d\<rparr>) })"

text \<open>Waiting for the card to leave the idle state; the flag says it did.\<close>

fun idle_loop :: "'d bus \<Rightarrow> u8 \<Rightarrow> u32 \<Rightarrow> nat \<Rightarrow> 'd \<Rightarrow> (bool \<times> 'd) option" where
  "idle_loop b cmd arg 0 d = Some (False, d)"
| "idle_loop b cmd arg (Suc tmr) d = do {
     (n, d) \<leftarrow> send_cmd b cmd arg d;
     if n = 0 then Some (True, d)
     else do { d \<leftarrow> dly_us b 1000 d; idle_loop b cmd arg tmr d } }"

fun dummy_clocks :: "'d bus \<Rightarrow> nat \<Rightarrow> 'd \<Rightarrow> 'd option" where
  "dummy_clocks b 0 d = Some d"
| "dummy_clocks b (Suc n) d = do { (_, d) \<leftarrow> rcvr1 b d; dummy_clocks b n d }"

definition probe_v2 :: "'d bus \<Rightarrow> 'd \<Rightarrow> (u8 \<times> 'd) option" where
  "probe_v2 b d = do {
     (buf, d) \<leftarrow> rcvr_mmc b 4 d;
     if buf ! 2 = 0x01 \<and> buf ! 3 = 0xaa then do {
       (r, d) \<leftarrow> idle_loop b ACMD41 (push_bit 30 1) 1000 d;
       if \<not> r then Some (0, d)
       else do {
         (n, d) \<leftarrow> send_cmd b CMD58 0 d;
         if n \<noteq> 0 then Some (0, d)
         else do {
           (buf, d) \<leftarrow> rcvr_mmc b 4 d;
           Some (if buf ! 0 AND 0x40 \<noteq> 0 then CT_SD2 OR CT_BLOCK else CT_SD2, d) } } }
     else Some (0, d) }"

definition probe_v1 :: "'d bus \<Rightarrow> 'd \<Rightarrow> (u8 \<times> 'd) option" where
  "probe_v1 b d = do {
     (n, d) \<leftarrow> send_cmd b ACMD41 0 d;
     let (ty, cmd) = (if n \<le> 1 then (CT_SD1, ACMD41) else (CT_MMC, CMD1));
     (r, d) \<leftarrow> idle_loop b cmd 0 1000 d;
     if \<not> r then Some (0, d)
     else do {
       (n, d) \<leftarrow> send_cmd b CMD16 512 d;
       Some (if n \<noteq> 0 then 0 else ty, d) } }"

text \<open>With a drive number other than 0 the function returns a \<open>DRESULT\<close> value, 3, as a status.\<close>

definition disk_initialize :: "'d bus \<Rightarrow> u8 \<Rightarrow> 'd disk \<Rightarrow> (u8 \<times> 'd disk) option" where
  "disk_initialize b drv k =
     (if drv \<noteq> 0 then Some (3, k)
      else do {
        d \<leftarrow> dummy_clocks b 10 (init_port b (port k));
        (n, d) \<leftarrow> send_cmd b CMD0 0 d;
        (ty, d) \<leftarrow>
          (if n = 1 then do {
             (n, d) \<leftarrow> send_cmd b CMD8 0x1aa d;
             if n = 1 then probe_v2 b d else probe_v1 b d }
           else Some (0, d));
        let s = (if ty \<noteq> 0 then 0 else STA_NOINIT);
        d \<leftarrow> deselect b d;
        Some (s, k\<lparr>CardType := ty, Stat := s, port := d\<rparr>) })"

text \<open>The sector number as the card wants it: bytes unless the card addresses blocks.\<close>

definition card_addr :: "u8 \<Rightarrow> u32 \<Rightarrow> u32" where
  "card_addr ty sector = (if ty AND CT_BLOCK = 0 then sector * 512 else sector)"

text \<open>The block loops return what was transferred and how many blocks are left.\<close>

fun read_blocks :: "'d bus \<Rightarrow> nat \<Rightarrow> 'd \<Rightarrow> ((u8 list \<times> nat) \<times> 'd) option" where
  "read_blocks b 0 d = Some (([], 0), d)"
| "read_blocks b (Suc count) d = do {
     (r, d) \<leftarrow> rcvr_datablock b 512 d;
     case r of
       None \<Rightarrow> Some (([], Suc count), d)
     | Some blk \<Rightarrow> do { ((rest, left), d) \<leftarrow> read_blocks b count d; Some ((blk @ rest, left), d) } }"

definition read_body :: "'d bus \<Rightarrow> u32 \<Rightarrow> u8 \<Rightarrow> 'd \<Rightarrow> ((u8 list \<times> nat) \<times> 'd) option" where
  "read_body b sector count d =
     (if count = 1 then do {
        (n, d) \<leftarrow> send_cmd b CMD17 sector d;
        if n = 0 then do {
          (r, d) \<leftarrow> rcvr_datablock b 512 d;
          Some (case r of None \<Rightarrow> ([], 1) | Some blk \<Rightarrow> (blk, 0), d) }
        else Some (([], 1), d) }
      else do {
        (n, d) \<leftarrow> send_cmd b CMD18 sector d;
        if n = 0 then do {
          (res, d) \<leftarrow> read_blocks b (unat count) d;
          (_, d) \<leftarrow> send_cmd b CMD12 0 d;
          Some (res, d) }
        else Some (([], unat count), d) })"

definition disk_read :: "'d bus \<Rightarrow> u8 \<Rightarrow> u32 \<Rightarrow> u8 \<Rightarrow> 'd disk \<Rightarrow> ((DRESULT \<times> u8 list) \<times> 'd disk) option" where
  "disk_read b drv sector count k = do {
     (s, k) \<leftarrow> disk_status b drv k;
     if s AND STA_NOINIT \<noteq> 0 then Some ((RES_NOTRDY, []), k)
     else if count = 0 then Some ((RES_PARERR, []), k)
     else do {
       ((data, left), d) \<leftarrow> read_body b (card_addr (CardType k) sector) count (port k);
       d \<leftarrow> deselect b d;
       Some ((if left \<noteq> 0 then RES_ERROR else RES_OK, data), k\<lparr>port := d\<rparr>) } }"

fun write_blocks :: "'d bus \<Rightarrow> u8 list list \<Rightarrow> 'd \<Rightarrow> (nat \<times> 'd) option" where
  "write_blocks b [] d = Some (0, d)"
| "write_blocks b (blk # blks) d = do {
     (r, d) \<leftarrow> xmit_datablock b blk 0xfc d;
     if r then write_blocks b blks d else Some (Suc (length blks), d) }"

text \<open>The caller's buffer, cut into the sectors it holds.\<close>

fun sectors :: "nat \<Rightarrow> u8 list \<Rightarrow> u8 list list" where
  "sectors 0 buff = []"
| "sectors (Suc n) buff = take 512 buff # sectors n (drop 512 buff)"

definition write_body :: "'d bus \<Rightarrow> u8 \<Rightarrow> u8 list \<Rightarrow> u32 \<Rightarrow> u8 \<Rightarrow> 'd \<Rightarrow> (nat \<times> 'd) option" where
  "write_body b ty buff sector count d =
     (if count = 1 then do {
        (n, d) \<leftarrow> send_cmd b CMD24 sector d;
        if n = 0 then do {
          (r, d) \<leftarrow> xmit_datablock b (take 512 buff) 0xfe d;
          Some (if r then 0 else 1, d) }
        else Some (1, d) }
      else do {
        d \<leftarrow> (if ty AND CT_SDC \<noteq> 0 then do { (_, d) \<leftarrow> send_cmd b ACMD23 (ucast count) d; Some d } else Some d);
        (n, d) \<leftarrow> send_cmd b CMD25 sector d;
        if n = 0 then do {
          (left, d) \<leftarrow> write_blocks b (sectors (unat count) buff) d;
          (r, d) \<leftarrow> xmit_datablock b [] 0xfd d;
          Some (if r then left else 1, d) }
        else Some (unat count, d) })"

definition disk_write :: "'d bus \<Rightarrow> u8 \<Rightarrow> u8 list \<Rightarrow> u32 \<Rightarrow> u8 \<Rightarrow> 'd disk \<Rightarrow> (DRESULT \<times> 'd disk) option" where
  "disk_write b drv buff sector count k = do {
     (s, k) \<leftarrow> disk_status b drv k;
     if s AND STA_NOINIT \<noteq> 0 then Some (RES_NOTRDY, k)
     else if count = 0 then Some (RES_PARERR, k)
     else do {
       (left, d) \<leftarrow> write_body b (CardType k) buff (card_addr (CardType k) sector) count (port k);
       d \<leftarrow> deselect b d;
       Some (if left \<noteq> 0 then RES_ERROR else RES_OK, k\<lparr>port := d\<rparr>) } }"

datatype disk_ctrl = CTRL_SYNC | GET_SECTOR_COUNT | GET_SECTOR_SIZE | GET_BLOCK_SIZE | Other_Ctrl

text \<open>The capacity in the card's CSD register, in sectors; \<open>cs\<close> is a sixteen-bit number. The second
  layout shifts by \<open>n - 9\<close>, which C leaves undefined when \<open>n < 9\<close>; the shift is taken as 0 there.\<close>

definition csd_sectors :: "u8 list \<Rightarrow> u32" where
  "csd_sectors csd =
     (if drop_bit 6 (csd ! 0) = 1
      then let cs = ucast (csd ! 9) + push_bit 8 (ucast (csd ! 8)) + 1 :: u16 in push_bit 10 (ucast cs)
      else let n = (csd ! 5 AND 15) + drop_bit 7 (csd ! 10 AND 128) + push_bit 1 (csd ! 9 AND 3) + 2;
               cs = ucast (drop_bit 6 (csd ! 8)) + push_bit 2 (ucast (csd ! 7)) + push_bit 10 (ucast (csd ! 6 AND 3)) + 1 :: u16
           in push_bit (unat n - 9) (ucast cs))"

definition ioctl_body :: "'d bus \<Rightarrow> disk_ctrl \<Rightarrow> 'd \<Rightarrow> ((DRESULT \<times> u32 option) \<times> 'd) option" where
  "ioctl_body b ctrl d =
     (case ctrl of
        CTRL_SYNC \<Rightarrow> do {
          (r, d) \<leftarrow> select b d;
          if r then do { d \<leftarrow> deselect b d; Some ((RES_OK, None), d) } else Some ((RES_ERROR, None), d) }
      | GET_SECTOR_COUNT \<Rightarrow> do {
          (n, d) \<leftarrow> send_cmd b CMD9 0 d;
          if n = 0 then do {
            (r, d) \<leftarrow> rcvr_datablock b 16 d;
            Some (case r of None \<Rightarrow> (RES_ERROR, None) | Some csd \<Rightarrow> (RES_OK, Some (csd_sectors csd)), d) }
          else Some ((RES_ERROR, None), d) }
      | GET_BLOCK_SIZE \<Rightarrow> Some ((RES_OK, Some 128), d)
      | _ \<Rightarrow> Some ((RES_PARERR, None), d))"

definition disk_ioctl :: "'d bus \<Rightarrow> u8 \<Rightarrow> disk_ctrl \<Rightarrow> 'd disk \<Rightarrow> ((DRESULT \<times> u32 option) \<times> 'd disk) option" where
  "disk_ioctl b drv ctrl k = do {
     (s, k) \<leftarrow> disk_status b drv k;
     if s AND STA_NOINIT \<noteq> 0 then Some ((RES_NOTRDY, None), k)
     else do {
       (res, d) \<leftarrow> ioctl_body b ctrl (port k);
       d \<leftarrow> deselect b d;
       Some (res, k\<lparr>port := d\<rparr>) } }"

end
