(* ===== verification/Disk_Wire.thy ===== *)
theory Disk_Wire
  imports Diskio
begin

text \<open>
  What the driver of \<^verbatim>\<open>fatfs/diskio.c\<close> puts on the wire, on any SPI core and with any card: the
  selections of the card and the bytes exchanged, read off the record of the accesses, and the
  exchanges each function of the driver makes.
\<close>

subsection \<open>The wire\<close>

datatype wire = Sel u32 | Xchg u8 u8

text \<open>
  An access of the core's registers as an event on the wire: a byte written to TXDATA is exchanged
  for the byte RXDATA delivers next; a read of RXDATA with nothing on its way is no event.
\<close>

definition spi_addr :: "u32 \<Rightarrow> u32" where
  "spi_addr reg = IO_CALC_ADDRESS_NATIVE SDCARD_SPI_BASE reg"

fun wire_step :: "access \<Rightarrow> u8 option \<times> wire list \<Rightarrow> u8 option \<times> wire list" where
  "wire_step (Wr a v) (p, ws) =
     (if a = spi_addr ALTERA_AVALON_SPI_TXDATA_REG then (Some (ucast v), ws)
      else if a = spi_addr ALTERA_AVALON_SPI_SLAVE_SEL_REG then (p, ws @ [Sel v])
      else (p, ws))"
| "wire_step (Rd a v) (p, ws) =
     (if a = spi_addr ALTERA_AVALON_SPI_RXDATA_REG
      then (case p of None \<Rightarrow> (p, ws) | Some w \<Rightarrow> (None, ws @ [Xchg w (ucast v)]))
      else (p, ws))"
| "wire_step (Ms n) s = s"

definition on_wire :: "access list \<Rightarrow> u8 option \<times> wire list" where
  "on_wire l = fold wire_step l (None, [])"

definition sent :: "'d \<times> access list \<Rightarrow> wire list \<Rightarrow> 'd \<times> access list \<Rightarrow> bool" where
  "sent d ws d' \<longleftrightarrow> (\<forall>us. on_wire (snd d) = (None, us) \<longrightarrow> on_wire (snd d') = (None, us @ ws))"

lemma on_wire_snoc [simp]: "on_wire (l @ [a]) = wire_step a (on_wire l)"
  by (simp add: on_wire_def)

text \<open>\<open>sent d ws d'\<close>: between two states of the recorded bus exactly the events \<open>ws\<close> happened.\<close>

definition quiet :: "'d \<times> access list \<Rightarrow> 'd \<times> access list \<Rightarrow> bool" where
  "quiet d d' \<longleftrightarrow> on_wire (snd d') = on_wire (snd d)"

lemma quiet_trans: "quiet d d1 \<Longrightarrow> quiet d1 d2 \<Longrightarrow> quiet d d2" by (simp add: quiet_def)
lemma quiet_sent: "quiet d d' \<Longrightarrow> sent d [] d'" by (simp add: quiet_def sent_def)

lemma sent_refl [simp]: "sent d [] d" by (simp add: sent_def)
lemma sent_trans: "sent d us d1 \<Longrightarrow> sent d1 vs d2 \<Longrightarrow> sent d (us @ vs) d2"
  by (auto simp: sent_def)

lemma spi_addrs [simp]:
  "spi_addr ALTERA_AVALON_SPI_RXDATA_REG = 0x1102080" "spi_addr ALTERA_AVALON_SPI_TXDATA_REG = 0x1102084"
  "spi_addr ALTERA_AVALON_SPI_SLAVE_SEL_REG = 0x1102094"
  by (simp_all add: spi_addr_def bus_defs reg_map)

lemmas spi_bus = spi_io_defs bus_defs reg_map

subsection \<open>Bytes and polls\<close>

lemma poll_quiet: "a \<noteq> 0x1102080 \<Longrightarrow> quiet d (snd (bus_rd (logged b) a d))"
  by (cases d; cases "on_wire (snd d)") (simp add: quiet_def spi_addrs)

lemma write_quiet: "a \<noteq> 0x1102084 \<Longrightarrow> a \<noteq> 0x1102094 \<Longrightarrow> quiet d (bus_wr (logged b) a v d)"
  by (cases d; cases "on_wire (snd d)") (simp add: quiet_def spi_addrs)

lemma wait_on_spi_quiet:
  assumes "wait_on_spi (logged b) msk d = Some d'"
  shows "quiet d d'"
proof -
  have "bb = logged b \<longrightarrow> quiet d d'" if "wait_on_spi bb msk d = Some d'" for bb msk d d'
  proof (rule wait_on_spi.raw_induct [OF _ that])
    fix f bb msk d d'
    assume IH: "\<And>bb msk d d'. f bb msk d = Some d' \<Longrightarrow> bb = logged b \<longrightarrow> quiet d d'"
      and body: "(let (v, d) = IORD_ALTERA_AVALON_SPI_STATUS bb SDCARD_SPI_BASE d
        in if v AND msk = 0 then f bb msk d else Some d) = Some d'"
    have "quiet d (snd (bus_rd (logged b) 0x1102088 d))" by (rule poll_quiet) simp
    with body show "bb = logged b \<longrightarrow> quiet d d'"
      by (auto simp: spi_bus split: if_splits prod.splits dest!: IH intro: quiet_trans)
  qed
  with assms show ?thesis by blast
qed

lemma timer_run_quiet:
  assumes "timer_run (logged b) d = Some d'"
  shows "quiet d d'"
proof -
  have "bb = logged b \<longrightarrow> quiet d d'" if "timer_run bb d = Some d'" for bb d d'
  proof (rule timer_run.raw_induct [OF _ that])
    fix f bb d d'
    assume IH: "\<And>bb d d'. f bb d = Some d' \<Longrightarrow> bb = logged b \<longrightarrow> quiet d d'"
      and body: "(let (v, d) = IORD_ALTERA_AVALON_TIMER_STATUS bb TIMER_1US_BASE d
        in if v AND ALTERA_AVALON_TIMER_STATUS_RUN_MSK \<noteq> 0 then f bb d else Some d) = Some d'"
    have "quiet d (snd (bus_rd (logged b) 0x11020a0 d))" by (rule poll_quiet) simp
    with body show "bb = logged b \<longrightarrow> quiet d d'"
      by (auto simp: spi_bus split: if_splits prod.splits dest!: IH intro: quiet_trans)
  qed
  with assms show ?thesis by blast
qed

lemma dly_us_quiet: "dly_us (logged b) n d = Some d' \<Longrightarrow> quiet d d'"
proof (induction n arbitrary: d)
  case (Suc n)
  have "quiet d (IOWR_ALTERA_AVALON_TIMER_CONTROL (logged b) TIMER_1US_BASE ALTERA_AVALON_TIMER_CONTROL_START_MSK d)"
    by (simp add: spi_bus write_quiet)
  with Suc show ?case
    by (auto simp: bind_Some_iff dest!: timer_run_quiet Suc.IH intro: quiet_trans)
qed (simp add: quiet_def)

lemma spi_byte_sent: "spi_byte (logged b) w d = Some (v, d') \<Longrightarrow> sent d [Xchg w v] d'"
  by (cases d) (auto simp: spi_byte_def bind_Some_iff Let_def spi_bus quiet_def sent_def spi_addr_def
      split: prod.splits dest!: wait_on_spi_quiet)

lemma spi_bytes_sent:
  "spi_bytes (logged b) ws d = Some (vs, d') \<Longrightarrow> sent d (map2 Xchg ws vs) d' \<and> length vs = length ws"
  by (induction ws arbitrary: d vs)
     (fastforce simp: bind_Some_iff split: prod.splits dest: spi_byte_sent sent_trans)+

lemma flush_sent: "IORD_ALTERA_AVALON_SPI_RXDATA (logged b) SDCARD_SPI_BASE d = (v, d') \<Longrightarrow> sent d [] d'"
  by (cases d) (auto simp: spi_bus sent_def spi_addr_def)

lemma xmit_mmc_sent:
  assumes "xmit_mmc (logged b) buff d = Some d'"
  obtains vs where "sent d (map2 Xchg buff vs) d'" "length vs = length buff"
proof -
  from assms obtain v d1 vs d2 where
    "IORD_ALTERA_AVALON_SPI_RXDATA (logged b) SDCARD_SPI_BASE d = (v, d1)"
    "spi_bytes (logged b) buff d1 = Some (vs, d2)"
    "wait_on_spi (logged b) ALTERA_AVALON_SPI_STATUS_TMT_MSK d2 = Some d'"
    by (auto simp: xmit_mmc_def bind_Some_iff split: prod.splits)
  then have "sent d ([] @ map2 Xchg buff vs @ []) d'" "length vs = length buff"
    by (blast intro: sent_trans quiet_sent dest: flush_sent spi_bytes_sent wait_on_spi_quiet)+
  with that show ?thesis by simp
qed

lemma map2_replicate: "length vs = n \<Longrightarrow> map2 f (replicate n x) vs = map (f x) vs"
  by (induction vs arbitrary: n) auto

lemma rcvr_mmc_sent:
  assumes "rcvr_mmc (logged b) n d = Some (vs, d')"
  shows "sent d (map (Xchg 0xff) vs) d'" and "length vs = n"
proof -
  from assms obtain v d1 d2 where s:
    "IORD_ALTERA_AVALON_SPI_RXDATA (logged b) SDCARD_SPI_BASE d = (v, d1)"
    "spi_bytes (logged b) (replicate n 0xff) d1 = Some (vs, d2)"
    "wait_on_spi (logged b) ALTERA_AVALON_SPI_STATUS_TMT_MSK d2 = Some d'"
    by (auto simp: rcvr_mmc_def bind_Some_iff split: prod.splits)
  then have "sent d ([] @ map2 Xchg (replicate n 0xff) vs @ []) d'"
    by (blast intro: sent_trans quiet_sent dest: flush_sent spi_bytes_sent wait_on_spi_quiet)
  moreover from s show "length vs = n" by (auto dest: spi_bytes_sent)
  ultimately show "sent d (map (Xchg 0xff) vs) d'" by (simp add: map2_replicate)
qed

definition polls :: "u8 list \<Rightarrow> wire list" where
  "polls vs = map (Xchg 0xff) vs"

lemma polls_append [simp]: "polls (us @ vs) = polls us @ polls vs" by (simp add: polls_def)
lemma polls_Nil [simp]: "polls [] = []" by (simp add: polls_def)

lemma rcvr1_sent:
  assumes "rcvr1 (logged b) d = Some (v, d')"
  shows "sent d (polls [v]) d'"
proof -
  from assms obtain vs where "rcvr_mmc (logged b) 1 d = Some (vs, d')" "v = hd vs"
    by (auto simp: rcvr1_def bind_Some_iff)
  with rcvr_mmc_sent [of b 1 d vs d'] show ?thesis by (cases vs) (auto simp: polls_def)
qed

lemma ready_loop_sent:
  "ready_loop (logged b) n d = Some (r, d') \<Longrightarrow>
   \<exists>vs. sent d (polls (vs @ (if r then [0xff] else []))) d' \<and> 0xff \<notin> set vs \<and> length vs \<le> n"
proof (induction n arbitrary: d)
  case 0
  then show ?case by (auto intro: exI [of _ "[]"])
next
  case (Suc n)
  from Suc.prems obtain v d1 where 1: "rcvr1 (logged b) d = Some (v, d1)"
    and rest: "(if v = 0xff then Some (True, d1)
      else do { d \<leftarrow> dly_us (logged b) 100 d1; ready_loop (logged b) n d }) = Some (r, d')"
    by (auto simp: bind_Some_iff)
  note s = rcvr1_sent [OF 1]
  show ?case
  proof (cases "v = 0xff")
    case True
    with rest s show ?thesis by (auto intro: exI [of _ "[]"])
  next
    case False
    with rest obtain d2 where 2: "dly_us (logged b) 100 d1 = Some d2" "ready_loop (logged b) n d2 = Some (r, d')"
      by (auto simp: bind_Some_iff)
    from Suc.IH [OF 2(2)] obtain vs where vs: "sent d2 (polls (vs @ (if r then [0xff] else []))) d'"
      "0xff \<notin> set vs" "length vs \<le> n" by blast
    have "sent d (polls [v] @ [] @ polls (vs @ (if r then [0xff] else []))) d'"
      by (rule sent_trans [OF s sent_trans [OF quiet_sent [OF dly_us_quiet [OF 2(1)]] vs(1)]])
    with False vs show ?thesis
      by (intro exI [of _ "v # vs"]) (auto simp: polls_def)
  qed
qed

lemma deselect_sent:
  assumes "deselect (logged b) d = Some d'"
  obtains v where "sent d (Sel 0 # polls [v]) d'"
proof -
  from assms obtain v where "rcvr1 (logged b) (IOWR_ALTERA_AVALON_SPI_SLAVE_SEL (logged b) SDCARD_SPI_BASE 0 d) = Some (v, d')"
    by (auto simp: deselect_def bind_Some_iff)
  then have "sent d ([Sel 0] @ polls [v]) d'"
    by (intro sent_trans [OF _ rcvr1_sent]) (cases d, auto simp: spi_bus sent_def spi_addr_def)
  with that show ?thesis by simp
qed

subsection \<open>Selection, packets and commands\<close>

text \<open>Selecting the card: it is polled until it answers 0xff, or released again.\<close>

definition sel_ok :: "wire list \<Rightarrow> bool" where
  "sel_ok ws \<longleftrightarrow> (\<exists>v vs. ws = Sel 1 # polls (v # vs @ [0xff]))"

definition sel_fail :: "wire list \<Rightarrow> bool" where
  "sel_fail ws \<longleftrightarrow> (\<exists>v vs u. ws = Sel 1 # polls (v # vs) @ Sel 0 # polls [u])"

lemma select_sent:
  assumes "select (logged b) d = Some (r, d')"
  obtains ws where "sent d ws d'" "if r then sel_ok ws else sel_fail ws"
proof -
  from assms obtain v d1 r1 d2 where 1: "rcvr1 (logged b) (IOWR_ALTERA_AVALON_SPI_SLAVE_SEL (logged b) SDCARD_SPI_BASE 1 d) = Some (v, d1)"
     and 2: "ready_loop (logged b) 5000 d1 = Some (r1, d2)"
     and 3: "(if r1 then Some (True, d2) else do { d \<leftarrow> deselect (logged b) d2; Some (False, d) }) = Some (r, d')"
    by (auto simp: select_def bind_Some_iff wait_ready_def)
  have s1: "sent d ([Sel 1] @ polls [v]) d1"
    by (intro sent_trans [OF _ rcvr1_sent [OF 1]]) (cases d, auto simp: spi_bus sent_def spi_addr_def)
  from ready_loop_sent [OF 2] obtain vs where s2: "sent d1 (polls (vs @ (if r1 then [0xff] else []))) d2" by blast
  note s = sent_trans [OF s1 s2]
  show ?thesis
  proof (cases r1)
    case True
    with s 3 that [of "[Sel 1] @ polls [v] @ polls (vs @ [0xff])"] show ?thesis
      by (auto simp: sel_ok_def polls_def)
  next
    case False
    with 3 obtain u where u: "sent d2 (Sel 0 # polls [u]) d'" and "\<not> r"
      by (auto simp: bind_Some_iff elim: deselect_sent)
    with sent_trans [OF s u] False that [of "Sel 1 # polls (v # vs) @ Sel 0 # polls [u]"]
    show ?thesis by (fastforce simp: sel_fail_def polls_def)
  qed
qed

lemma token_loop_sent:
  "token_loop (logged b) n u d = Some (v, d') \<Longrightarrow>
   (\<exists>gap<n. sent d (polls (replicate gap 0xff @ [v])) d' \<and> v \<noteq> 0xff) \<or>
   sent d (polls (replicate n 0xff)) d' \<and> v = (if n = 0 then u else 0xff)"
proof (induction n arbitrary: u d)
  case (Suc n)
  from Suc.prems obtain w d1 where 1: "rcvr1 (logged b) d = Some (w, d1)"
    and rest: "(if w \<noteq> 0xff then Some (w, d1)
      else do { d \<leftarrow> dly_us (logged b) 100 d1; token_loop (logged b) n w d }) = Some (v, d')"
    by (auto simp: bind_Some_iff)
  note s = rcvr1_sent [OF 1]
  show ?case
  proof (cases "w = 0xff")
    case False
    with rest s show ?thesis by (auto intro!: exI [of _ 0])
  next
    case True
    with rest obtain d2 where 2: "dly_us (logged b) 100 d1 = Some d2" "token_loop (logged b) n 0xff d2 = Some (v, d')"
      by (auto simp: bind_Some_iff)
    have s2: "sent d (polls [0xff]) d2"
      using sent_trans [OF s quiet_sent [OF dly_us_quiet [OF 2(1)]]] True by simp
    have push: "sent d2 (polls ws) d' \<Longrightarrow> sent d (polls (0xff # ws)) d'" for ws
      using sent_trans [OF s2, of "polls ws" d'] by (simp add: polls_def)
    from Suc.IH [OF 2(2)] show ?thesis
    proof (elim disjE exE conjE)
      fix gap assume "gap < n" "sent d2 (polls (replicate gap 0xff @ [v])) d'" "v \<noteq> 0xff"
      with push [of "replicate gap 0xff @ [v]"] show ?thesis
        by (intro disjI1 exI [of _ "Suc gap"]) simp
    next
      assume "sent d2 (polls (replicate n 0xff)) d'" "v = (if n = 0 then 0xff else 0xff)"
      with push [of "replicate n 0xff"] show ?thesis by (intro disjI2) simp
    qed
  qed
qed simp

text \<open>A data packet from the card, and one sent to the card and accepted.\<close>

definition packet :: "u8 list \<Rightarrow> wire list \<Rightarrow> bool" where
  "packet buff ws \<longleftrightarrow> (\<exists>gap crc. ws = polls (replicate gap 0xff @ 0xfe # buff @ crc) \<and> gap < 1000 \<and> length crc = 2)"

lemma rcvr_datablock_sent:
  assumes "rcvr_datablock (logged b) n d = Some (r, d')"
  obtains ws where "sent d ws d'" "\<forall>buff. r = Some buff \<longrightarrow> packet buff ws \<and> length buff = n"
proof -
  from assms obtain v d1 where 1: "token_loop (logged b) 1000 0 d = Some (v, d1)"
    and rest: "(if v \<noteq> 0xfe then Some (None, d1)
     else do {
       (buff, d) \<leftarrow> rcvr_mmc (logged b) n d1;
       (_, d) \<leftarrow> rcvr_mmc (logged b) 2 d;
       Some (Some buff, d) }) = Some (r, d')"
    by (auto simp: rcvr_datablock_def bind_Some_iff)
  show thesis
  proof (cases "v = 0xfe")
    case False
    with rest have "d' = d1" "r = None" by auto
    with token_loop_sent [OF 1] that show thesis by blast
  next
    case True
    with token_loop_sent [OF 1] obtain gap where gap: "gap < 1000" "sent d (polls (replicate gap 0xff @ [0xfe])) d1"
      by auto
    from rest True obtain buff crc d2 where b: "rcvr_mmc (logged b) n d1 = Some (buff, d2)"
      "rcvr_mmc (logged b) 2 d2 = Some (crc, d')" "r = Some buff"
      by (auto simp: bind_Some_iff)
    have "sent d (polls (replicate gap 0xff @ [0xfe]) @ polls buff @ polls crc) d'"
      using sent_trans [OF gap(2) sent_trans [OF rcvr_mmc_sent(1) [OF b(1)] rcvr_mmc_sent(1) [OF b(2)]]]
      by (simp add: polls_def)
    moreover have "packet buff (polls (replicate gap 0xff @ [0xfe]) @ polls buff @ polls crc)"
      unfolding packet_def using gap(1) rcvr_mmc_sent(2) [OF b(2)]
      by (intro exI [of _ gap] exI [of _ crc]) (simp add: polls_def)
    ultimately show thesis using that b rcvr_mmc_sent(2) [OF b(1)] by auto
  qed
qed

definition xmit_ok :: "u8 \<Rightarrow> u8 list \<Rightarrow> wire list \<Rightarrow> bool" where
  "xmit_ok token buff ws \<longleftrightarrow>
     (\<exists>vs us crc resp. ws = polls (vs @ [0xff]) @ map2 Xchg (token # buff) us @ polls (crc @ [resp]) \<and>
        length us = Suc (length buff) \<and> length crc = 2 \<and> resp AND 0x1f = 0x05)"

lemma xmit_datablock_sent:
  assumes "xmit_datablock (logged b) buff token d = Some (r, d')"
  obtains ws where "sent d ws d'" "r \<Longrightarrow> token \<noteq> 0xfd \<Longrightarrow> xmit_ok token buff ws"
proof -
  from assms obtain q d1 where 1: "ready_loop (logged b) 5000 d = Some (q, d1)"
    and rest: "(if \<not> q then Some (False, d1)
     else do {
       d \<leftarrow> xmit_mmc (logged b) [token] d1;
       if token \<noteq> 0xfd then do {
         d \<leftarrow> xmit_mmc (logged b) buff d;
         (_, d) \<leftarrow> rcvr_mmc (logged b) 2 d;
         (v, d) \<leftarrow> rcvr1 (logged b) d;
         Some (v AND 0x1f = 0x05, d) }
       else Some (True, d) }) = Some (r, d')"
    by (auto simp: xmit_datablock_def wait_ready_def bind_Some_iff)
  from ready_loop_sent [OF 1] obtain vs where vs: "sent d (polls (vs @ (if q then [0xff] else []))) d1" by blast
  show thesis
  proof (cases q)
    case False
    with rest vs that show thesis by auto
  next
    case q: True
    with rest obtain d2 where 2: "xmit_mmc (logged b) [token] d1 = Some d2" by (auto simp: bind_Some_iff)
    from xmit_mmc_sent [OF 2] obtain us where us: "sent d1 (map2 Xchg [token] us) d2" "length us = 1" by auto
    note s = sent_trans [OF vs us(1)]
    show thesis
    proof (cases "token = 0xfd")
      case True
      with rest q 2 s that show thesis by auto
    next
      case False
      with rest q 2 obtain d3 d4 crc v where 3: "xmit_mmc (logged b) buff d2 = Some d3"
        "rcvr_mmc (logged b) 2 d3 = Some (crc, d4)" "rcvr1 (logged b) d4 = Some (v, d')" "r = (v AND 0x1f = 0x05)"
        by (auto simp: bind_Some_iff)
      from xmit_mmc_sent [OF 3(1)] obtain xs where xs: "sent d2 (map2 Xchg buff xs) d3" "length xs = length buff" by auto
      let ?ws = "polls (vs @ [0xff]) @ map2 Xchg (token # buff) (us @ xs) @ polls (crc @ [v])"
      have "sent d ?ws d'"
        using sent_trans [OF s sent_trans [OF xs(1) sent_trans [OF rcvr_mmc_sent(1) [OF 3(2)] rcvr1_sent [OF 3(3)]]]] q us(2)
        by (cases us) (auto simp: polls_def)
      moreover have "r \<Longrightarrow> xmit_ok token buff ?ws"
        unfolding xmit_ok_def using us(2) xs(2) 3(4) rcvr_mmc_sent(2) [OF 3(2)]
        by (intro exI [of _ vs] exI [of _ "us @ xs"] exI [of _ crc] exI [of _ v]) simp
      ultimately show thesis using that by blast
    qed
  qed
qed

text \<open>A command and its answer \<open>resp\<close>: release, select, six bytes, at most ten polls.\<close>

definition command :: "u8 \<Rightarrow> u32 \<Rightarrow> u8 \<Rightarrow> wire list \<Rightarrow> bool" where
  "command cmd arg resp ws \<longleftrightarrow>
     (\<exists>v se fs skip rs. ws = Sel 0 # polls [v] @ se @ map2 Xchg (cmd_frame cmd arg) fs @ polls (skip @ rs @ [resp]) \<and>
        sel_ok se \<and> length fs = 6 \<and> length skip = (if cmd = CMD12 then 1 else 0) \<and> length rs < 10 \<and>
        (\<forall>r\<in>set rs. bit r 7))"

text \<open>A command that was not put on the wire, as the card did not get ready after it was selected.\<close>

definition refused :: "wire list \<Rightarrow> bool" where
  "refused ws \<longleftrightarrow> (\<exists>v se. ws = Sel 0 # polls [v] @ se \<and> sel_fail se)"

lemma and_80: "(w :: u8) AND 0x80 = 0 \<longleftrightarrow> \<not> bit w 7"
  using word_and_exp_iff [of w 7] by simp

lemma resp_loop_sent:
  "resp_loop (logged b) (Suc n) d = Some (v, d') \<Longrightarrow>
   \<exists>rs. sent d (polls (rs @ [v])) d' \<and> length rs \<le> n \<and> (\<forall>r\<in>set rs. bit r 7) \<and> (bit v 7 \<longrightarrow> length rs = n)"
proof (induction n arbitrary: d)
  case 0
  then show ?case
    by (auto simp: bind_Some_iff dest!: rcvr1_sent intro: exI [of _ "[]"])
next
  case (Suc n)
  from Suc.prems obtain w d1 where 1: "rcvr1 (logged b) d = Some (w, d1)"
    and rest: "(if bit w 7 then resp_loop (logged b) (Suc n) d1 else Some (w, d1)) = Some (v, d')"
    by (simp only: resp_loop.simps(2) [of _ "Suc n"] bind_Some_iff) (auto simp: and_80)
  note s = rcvr1_sent [OF 1]
  show ?case
  proof (cases "bit w 7")
    case False
    with rest s show ?thesis by (auto intro!: exI [of _ "[]"])
  next
    case True
    with rest Suc.IH [of d1] obtain rs where rs: "sent d1 (polls (rs @ [v])) d'" "length rs \<le> n"
      "\<forall>r\<in>set rs. bit r 7" "bit v 7 \<longrightarrow> length rs = n" by auto
    with True sent_trans [OF s rs(1)] show ?thesis
      by (intro exI [of _ "w # rs"]) (auto simp: polls_def)
  qed
qed

lemma cmd_frame_length [simp]: "length (cmd_frame cmd arg) = 6"
  by (simp add: cmd_frame_def Let_def)

lemma send_plain_sent:
  assumes "send_plain (logged b) cmd arg d = Some (n, d')"
  obtains ws where "sent d ws d'" "command cmd arg n ws \<or> n = 0xff \<and> refused ws"
proof -
  from assms obtain d1 r d2 where 1: "deselect (logged b) d = Some d1" "select (logged b) d1 = Some (r, d2)"
    and rest: "(if \<not> r then Some (0xff, d2)
     else do {
       d \<leftarrow> xmit_mmc (logged b) (cmd_frame cmd arg) d2;
       d \<leftarrow> (if cmd = CMD12 then do { (_, d) \<leftarrow> rcvr1 (logged b) d; Some d } else Some d);
       resp_loop (logged b) 10 d }) = Some (n, d')"
    by (auto simp: send_plain_def bind_Some_iff)
  from 1(1) obtain v where v: "sent d (Sel 0 # polls [v]) d1" by (rule deselect_sent)
  from 1(2) obtain se where se: "sent d1 se d2" "if r then sel_ok se else sel_fail se" by (rule select_sent)
  note s = sent_trans [OF v se(1)]
  show thesis
  proof (cases r)
    case False
    then have "n = 0xff" "d' = d2" "refused ((Sel 0 # polls [v]) @ se)" using rest se(2) by (auto simp: refused_def)
    with s that show thesis by blast
  next
    case True
    with rest obtain d3 d4 where 3: "xmit_mmc (logged b) (cmd_frame cmd arg) d2 = Some d3"
      "(if cmd = CMD12 then do { (_, d) \<leftarrow> rcvr1 (logged b) d3; Some d } else Some d3) = Some d4"
      "resp_loop (logged b) (Suc 9) d4 = Some (n, d')"
      by (auto simp: bind_Some_iff eval_nat_numeral(3) [symmetric] simp del: resp_loop.simps)
    from xmit_mmc_sent [OF 3(1)] obtain fs where fs: "sent d2 (map2 Xchg (cmd_frame cmd arg) fs) d3" "length fs = 6"
      by auto
    from 3(2) obtain skip where skip: "sent d3 (polls skip) d4" "length skip = (if cmd = CMD12 then 1 else 0)"
      by (cases "cmd = CMD12") (fastforce simp: bind_Some_iff dest: rcvr1_sent, auto)
    from resp_loop_sent [OF 3(3)] obtain rs where rs: "sent d4 (polls (rs @ [n])) d'" "length rs \<le> 9" "\<forall>r\<in>set rs. bit r 7"
      by blast
    let ?ws = "Sel 0 # polls [v] @ se @ map2 Xchg (cmd_frame cmd arg) fs @ polls (skip @ rs @ [n])"
    have "sent d ?ws d'"
      using sent_trans [OF s sent_trans [OF fs(1) sent_trans [OF skip(1) rs(1)]]] by simp
    moreover have "command cmd arg n ?ws"
      unfolding command_def using se(2) True fs(2) skip(2) rs(2,3)
      by (intro exI [of _ v] exI [of _ se] exI [of _ fs] exI [of _ skip] exI [of _ rs]) simp
    ultimately show thesis using that by blast
  qed
qed

text \<open>Some events happened, whichever.\<close>

definition talks :: "'d \<times> access list \<Rightarrow> 'd \<times> access list \<Rightarrow> bool" where
  "talks d d' \<longleftrightarrow> (\<exists>ws. sent d ws d')"

lemma talksI [intro]: "sent d ws d' \<Longrightarrow> talks d d'" by (auto simp: talks_def)
lemma talks_refl [simp, intro]: "talks d d" using sent_refl by blast
lemma talks_trans [trans]: "talks d d1 \<Longrightarrow> talks d1 d2 \<Longrightarrow> talks d d2" by (auto simp: talks_def dest: sent_trans)

lemma send_cmd_sent:
  assumes "send_cmd (logged b) cmd arg d = Some (n, d')"
  obtains ws where "sent d ws d'" "\<not> bit cmd 7 \<Longrightarrow> command cmd arg n ws \<or> n = 0xff \<and> refused ws"
proof (cases "bit cmd 7")
  case False
  with assms have "send_plain (logged b) cmd arg d = Some (n, d')" by (simp add: send_cmd_def and_80)
  then show thesis using that by (blast elim: send_plain_sent)
next
  case True
  with assms have "talks d d'"
    by (auto simp: send_cmd_def and_80 bind_Some_iff split: if_splits elim!: send_plain_sent intro: talks_trans)
  with True that show thesis by (auto simp: talks_def)
qed

subsection \<open>Calls\<close>

definition wire_of :: "('d \<times> access list) disk \<Rightarrow> wire list" where
  "wire_of k = snd (on_wire (snd (port k)))"

definition wire_idle :: "('d \<times> access list) disk \<Rightarrow> bool" where
  "wire_idle k \<longleftrightarrow> fst (on_wire (snd (port k))) = None"

lemma sent_wire_of:
  "sent (port k) ws (port k') \<Longrightarrow> wire_idle k \<Longrightarrow> wire_of k' = wire_of k @ ws \<and> wire_idle k'"
  by (cases "on_wire (snd (port k))") (auto simp: sent_def wire_of_def wire_idle_def)

lemma send_cmd_talks: "send_cmd (logged b) cmd arg d = Some (n, d') \<Longrightarrow> talks d d'"
  by (auto elim: send_cmd_sent)
lemma rcvr1_talks: "rcvr1 (logged b) d = Some (v, d') \<Longrightarrow> talks d d'"
  by (auto dest: rcvr1_sent)
lemma rcvr_mmc_talks: "rcvr_mmc (logged b) n d = Some (v, d') \<Longrightarrow> talks d d'"
  by (auto dest: rcvr_mmc_sent)
lemma deselect_talks: "deselect (logged b) d = Some d' \<Longrightarrow> talks d d'"
  by (auto elim: deselect_sent)
lemma select_talks: "select (logged b) d = Some (r, d') \<Longrightarrow> talks d d'"
  by (auto elim: select_sent)
lemma dly_us_talks: "dly_us (logged b) n d = Some d' \<Longrightarrow> talks d d'"
  by (auto dest: dly_us_quiet quiet_sent)
lemma rcvr_datablock_talks: "rcvr_datablock (logged b) n d = Some (r, d') \<Longrightarrow> talks d d'"
  by (auto elim: rcvr_datablock_sent)
lemma xmit_datablock_talks: "xmit_datablock (logged b) buff t d = Some (r, d') \<Longrightarrow> talks d d'"
  by (auto elim: xmit_datablock_sent)

lemma idle_loop_talks: "idle_loop (logged b) cmd arg n d = Some (r, d') \<Longrightarrow> talks d d'"
  by (induction n arbitrary: d)
     (auto simp: bind_Some_iff split: if_splits dest!: send_cmd_talks dly_us_talks intro: talks_trans)

lemma dummy_clocks_talks: "dummy_clocks (logged b) n d = Some d' \<Longrightarrow> talks d d'"
  by (induction n arbitrary: d) (auto simp: bind_Some_iff dest!: rcvr1_talks intro: talks_trans)

lemma disk_status_talks:
  assumes "disk_status (logged b) drv k = Some (s, k')"
  shows "talks (port k) (port k') \<and> CardType k' = CardType k \<and> (drv = 0 \<longrightarrow> Stat k' = s)"
  using assms
  by (auto simp: disk_status_def bind_Some_iff Let_def split: if_splits
      dest!: send_cmd_talks rcvr1_talks deselect_talks intro: talks_trans)

lemma read_blocks_sent:
  "read_blocks (logged b) n d = Some ((data, left), d') \<Longrightarrow>
   \<exists>ws. sent d ws d' \<and> (left = 0 \<longrightarrow> (\<exists>blks ps. data = concat blks \<and> ws = concat ps \<and> length blks = n \<and>
      (\<forall>blk\<in>set blks. length blk = 512) \<and> list_all2 packet blks ps))"
proof (induction n arbitrary: d data)
  case 0
  then show ?case by (auto intro!: exI [of _ "[]"])
next
  case (Suc n)
  from Suc.prems obtain r d1 where 1: "rcvr_datablock (logged b) 512 d = Some (r, d1)"
    and rest: "(case r of None \<Rightarrow> Some (([], Suc n), d1)
     | Some blk \<Rightarrow> do { ((rest, left), d) \<leftarrow> read_blocks (logged b) n d1; Some ((blk @ rest, left), d) }) = Some ((data, left), d')"
    by (auto simp: bind_Some_iff)
  from 1 obtain p where p: "sent d p d1" "\<forall>blk. r = Some blk \<longrightarrow> packet blk p \<and> length blk = 512"
    by (rule rcvr_datablock_sent)
  show ?case
  proof (cases r)
    case None
    with rest p(1) show ?thesis by auto
  next
    case (Some blk)
    with rest obtain dat where 2: "read_blocks (logged b) n d1 = Some ((dat, left), d')" "data = blk @ dat"
      by (auto simp: bind_Some_iff)
    from Suc.IH [OF 2(1)] obtain ws where ws: "sent d1 ws d'"
      "left = 0 \<Longrightarrow> (\<exists>blks ps. dat = concat blks \<and> ws = concat ps \<and> length blks = n \<and>
        (\<forall>blk\<in>set blks. length blk = 512) \<and> list_all2 packet blks ps)"
      by blast
    have "\<exists>blks ps. data = concat blks \<and> p @ ws = concat ps \<and> length blks = Suc n \<and>
        (\<forall>blk\<in>set blks. length blk = 512) \<and> list_all2 packet blks ps" if "left = 0"
    proof -
      from ws(2) [OF that] obtain blks ps where "dat = concat blks" "ws = concat ps" "length blks = n"
        "\<forall>blk\<in>set blks. length blk = 512" "list_all2 packet blks ps" by blast
      with 2(2) p(2) Some show ?thesis
        by (intro exI [of _ "blk # blks"] exI [of _ "p # ps"]) simp
    qed
    with sent_trans [OF p(1) ws(1)] show ?thesis by blast
  qed
qed

definition data_phase :: "u8 \<Rightarrow> u8 list \<Rightarrow> wire list \<Rightarrow> bool" where
  "data_phase count data ws \<longleftrightarrow>
     (\<exists>blks ps. data = concat blks \<and> ws = concat ps \<and> length blks = unat count \<and>
        (\<forall>blk\<in>set blks. length blk = 512) \<and> list_all2 packet blks ps)"

lemma not_acmd [simp]: "\<not> bit CMD17 7" "\<not> bit CMD18 7" "\<not> bit CMD12 7" "\<not> bit CMD24 7" "\<not> bit CMD25 7" "\<not> bit CMD13 7"
  by (simp_all add: cmd_defs bit_iff_odd flip: and_80)

lemma data_phase_one: "packet blk p \<Longrightarrow> length blk = 512 \<Longrightarrow> data_phase 1 blk p"
  unfolding data_phase_def by (intro exI [of _ "[blk]"] exI [of _ "[p]"]) simp

lemma data_phase_length: "data_phase count data ph \<Longrightarrow> length data = 512 * unat count"
  unfolding data_phase_def
proof (elim exE conjE)
  fix blks
  assume "data = concat blks" "length blks = unat count" "\<forall>blk\<in>set blks. length blk = 512"
  moreover have "(\<forall>blk\<in>set blks. length blk = n) \<Longrightarrow> length (concat blks) = n * length blks" for n
    by (induction blks) auto
  ultimately show ?thesis by simp
qed

text \<open>The card is let go: the select line goes off and one byte is clocked.\<close>

definition let_go :: "wire list \<Rightarrow> bool" where
  "let_go ws \<longleftrightarrow> (\<exists>v. ws = Sel 0 # polls [v])"

text \<open>The poll of the card's status before a transfer: both bytes of the answer, the first one 0.\<close>

definition status_poll :: "wire list \<Rightarrow> bool" where
  "status_poll ws \<longleftrightarrow> (\<exists>c v r. ws = c @ polls [v] @ r \<and> command CMD13 0 0 c \<and> let_go r)"

text \<open>What ends a read: a run of sectors is stopped, whatever the card answers, then it is let go.\<close>

definition read_end :: "u8 \<Rightarrow> wire list \<Rightarrow> bool" where
  "read_end count ws \<longleftrightarrow>
     (if count = 1 then let_go ws else \<exists>c n r. ws = c @ r \<and> (command CMD12 0 n c \<or> refused c) \<and> let_go r)"

lemma let_go_sent:
  assumes "deselect (logged b) d = Some d'"
  obtains ws where "sent d ws d'" "let_go ws"
  using deselect_sent [OF assms] by (auto simp: let_go_def)

lemma status_poll_sent:
  assumes "disk_status (logged b) drv k = Some (s, k1)" "s AND STA_NOINIT = 0"
  obtains ws where "sent (port k) ws (port k1)" "status_poll ws"
proof -
  have "STA_NOINIT AND STA_NOINIT \<noteq> 0" by (simp add: STA_NOINIT_def)
  then obtain v d1 d2 d3 where 1: "send_cmd (logged b) CMD13 0 (port k) = Some (0, d1)" "rcvr1 (logged b) d1 = Some (v, d2)"
    "deselect (logged b) d2 = Some d3" "port k1 = d3"
    using assms by (auto simp: disk_status_def bind_Some_iff Let_def split: if_splits)
  from 1(1) obtain c where c: "sent (port k) c d1" "command CMD13 0 0 c" by (auto elim: send_cmd_sent)
  from 1(3) obtain r where r: "sent d2 r d3" "let_go r" by (rule let_go_sent)
  show thesis using that sent_trans [OF c(1) sent_trans [OF rcvr1_sent [OF 1(2)] r(1)]] c(2) r(2) 1(4) unfolding status_poll_def by blast
qed

lemma disk_read_lemma:
  assumes "disk_read (logged b) drv sector count k = Some ((RES_OK, data), k')"
  shows "\<exists>st cmd ph tl. sent (port k) (st @ cmd @ ph @ tl) (port k') \<and> status_poll st \<and>
    command (if count = 1 then CMD17 else CMD18) (card_addr (CardType k) sector) 0 cmd \<and> data_phase count data ph \<and> read_end count tl"
proof -
  from assms obtain s k1 where st: "disk_status (logged b) drv k = Some (s, k1)" and c0: "count \<noteq> 0" and s0: "s AND STA_NOINIT = 0"
    by (auto simp: disk_read_def read_body_def bind_Some_iff split: if_splits)
  have ct: "CardType k1 = CardType k" using disk_status_talks [OF st] by simp
  obtain ws where ws: "sent (port k) ws (port k1)" "status_poll ws" by (rule status_poll_sent [OF st s0])
  let ?a = "card_addr (CardType k) sector"
  show ?thesis
  proof (cases "count = 1")
    case True
    with assms st ct obtain d1 d2 d3 where 1: "send_cmd (logged b) CMD17 ?a (port k1) = Some (0, d1)"
      "rcvr_datablock (logged b) 512 d1 = Some (Some data, d2)" "deselect (logged b) d2 = Some d3" "port k' = d3"
      by (auto simp: disk_read_def read_body_def bind_Some_iff Let_def split: if_splits option.splits)
    from 1(1) obtain cmd where cmd: "sent (port k1) cmd d1" "command CMD17 ?a 0 cmd" by (auto elim: send_cmd_sent)
    from 1(2) obtain p where p: "sent d1 p d2" "packet data p" "length data = 512" by (auto elim: rcvr_datablock_sent)
    from 1(3) obtain tl where tl: "sent d2 tl d3" "let_go tl" by (rule let_go_sent)
    show ?thesis
      using sent_trans [OF ws(1) sent_trans [OF cmd(1) sent_trans [OF p(1) tl(1)]]] ws(2) cmd(2) data_phase_one [OF p(2,3)] tl(2) True 1(4)
      by (intro exI conjI) (auto simp: read_end_def)
  next
    case False
    with assms st ct c0 obtain d1 d2 v d3 d4 where 1: "send_cmd (logged b) CMD18 ?a (port k1) = Some (0, d1)"
      "read_blocks (logged b) (unat count) d1 = Some ((data, 0), d2)" "send_cmd (logged b) CMD12 0 d2 = Some (v, d3)"
      "deselect (logged b) d3 = Some d4" "port k' = d4"
      by (auto simp: disk_read_def read_body_def bind_Some_iff Let_def unat_eq_zero split: if_splits option.splits)
    from 1(1) obtain cmd where cmd: "sent (port k1) cmd d1" "command CMD18 ?a 0 cmd" by (auto elim: send_cmd_sent)
    from read_blocks_sent [OF 1(2)] obtain p where p: "sent d1 p d2" "data_phase count data p"
      by (auto simp: data_phase_def)
    from 1(3) obtain c where c: "sent d2 c d3" "command CMD12 0 v c \<or> refused c" by (auto elim: send_cmd_sent)
    from 1(4) obtain r where r: "sent d3 r d4" "let_go r" by (rule let_go_sent)
    have "read_end count (c @ r)" using c(2) r(2) False by (auto simp: read_end_def)
    then show ?thesis
      using sent_trans [OF ws(1) sent_trans [OF cmd(1) sent_trans [OF p(1) sent_trans [OF c(1) r(1)]]]] ws(2) cmd(2) p(2) False 1(5)
      by (intro exI conjI) auto
  qed
qed

lemma write_blocks_sent:
  "write_blocks (logged b) blks d = Some (left, d') \<Longrightarrow>
   \<exists>ps. sent d (concat ps) d' \<and> (left = 0 \<longrightarrow> list_all2 (xmit_ok 0xfc) blks ps)"
proof (induction blks arbitrary: d)
  case Nil
  then show ?case by (auto intro!: exI [of _ "[]"])
next
  case (Cons blk blks)
  then obtain r d1 where 1: "xmit_datablock (logged b) blk 0xfc d = Some (r, d1)"
    and rest: "(if r then write_blocks (logged b) blks d1 else Some (Suc (length blks), d1)) = Some (left, d')"
    by (auto simp: bind_Some_iff)
  from 1 obtain p where p: "sent d p d1" "r \<Longrightarrow> xmit_ok 0xfc blk p" by (auto elim: xmit_datablock_sent)
  show ?case
  proof (cases r)
    case True
    with rest Cons.IH [of d1] obtain ps where "sent d1 (concat ps) d'" "left = 0 \<longrightarrow> list_all2 (xmit_ok 0xfc) blks ps"
      by auto
    with True p sent_trans [OF p(1)] show ?thesis by (intro exI [of _ "p # ps"]) auto
  next
    case False
    with rest p(1) show ?thesis by (intro exI [of _ "[p]"]) auto
  qed
qed

lemma write_blocks_talks: "write_blocks (logged b) blks d = Some (left, d') \<Longrightarrow> talks d d'"
  by (auto dest: write_blocks_sent)

lemma read_blocks_talks: "read_blocks (logged b) n d = Some ((data, left), d') \<Longrightarrow> talks d d'"
  by (auto dest: read_blocks_sent)

lemma disk_write_lemma:
  assumes "disk_write (logged b) drv buff sector count k = Some (RES_OK, k')"
  shows "\<exists>st cmd ps tl. sent (port k) (st @ cmd @ concat ps @ tl) (port k') \<and>
    command (if count = 1 then CMD24 else CMD25) (card_addr (CardType k) sector) 0 cmd \<and>
    list_all2 (xmit_ok (if count = 1 then 0xfe else 0xfc)) (sectors (unat count) buff) ps"
proof -
  from assms obtain s k1 where st: "disk_status (logged b) drv k = Some (s, k1)" and c0: "count \<noteq> 0"
    by (auto simp: disk_write_def write_body_def bind_Some_iff split: if_splits)
  from disk_status_talks [OF st] have tk: "talks (port k) (port k1)" and ct: "CardType k1 = CardType k"
    by auto
  let ?a = "card_addr (CardType k) sector"
  show ?thesis
  proof (cases "count = 1")
    case True
    with assms st ct obtain d1 d2 d3 where 1: "send_cmd (logged b) CMD24 ?a (port k1) = Some (0, d1)"
      "xmit_datablock (logged b) (take 512 buff) 0xfe d1 = Some (True, d2)" "deselect (logged b) d2 = Some d3" "port k' = d3"
      by (auto simp: disk_write_def write_body_def bind_Some_iff Let_def split: if_splits option.splits)
    from tk obtain ws where ws: "sent (port k) ws (port k1)" by (auto simp: talks_def)
    from 1(1) obtain cmd where cmd: "sent (port k1) cmd d1" "command CMD24 ?a 0 cmd" by (auto elim: send_cmd_sent)
    from 1(2) obtain p where p: "sent d1 p d2" "xmit_ok 0xfe (take 512 buff) p" by (auto elim: xmit_datablock_sent)
    from 1(3) obtain tl where tl: "sent d2 tl d3" by (auto elim: deselect_sent)
    show ?thesis
      using sent_trans [OF ws sent_trans [OF cmd(1) sent_trans [OF p(1) tl]]] cmd(2) p(2) True 1(4)
      by (intro exI [of _ ws] exI [of _ cmd] exI [of _ "[p]"] exI [of _ tl]) simp
  next
    case False
    with assms st ct c0 obtain d0 d1 d2 d3 d4 where 1:
      "(if CardType k AND CT_SDC \<noteq> 0 then do { (_, d) \<leftarrow> send_cmd (logged b) ACMD23 (ucast count) (port k1); Some d }
                  else Some (port k1)) = Some d0" "send_cmd (logged b) CMD25 ?a d0 = Some (0, d1)"
      "write_blocks (logged b) (sectors (unat count) buff) d1 = Some (0, d2)"
      "xmit_datablock (logged b) [] 0xfd d2 = Some (True, d3)" "deselect (logged b) d3 = Some d4" "port k' = d4"
      by (auto simp: disk_write_def write_body_def bind_Some_iff Let_def unat_eq_zero split: if_splits option.splits)
    from 1(1) have "talks (port k1) d0" by (auto simp: bind_Some_iff split: if_splits dest: send_cmd_talks)
    with tk obtain ws where ws: "sent (port k) ws d0" by (meson talks_trans talks_def)
    from 1(2) obtain cmd where cmd: "sent d0 cmd d1" "command CMD25 ?a 0 cmd" by (auto elim: send_cmd_sent)
    from write_blocks_sent [OF 1(3)] obtain ps where p: "sent d1 (concat ps) d2" "list_all2 (xmit_ok 0xfc) (sectors (unat count) buff) ps"
      by auto
    from 1(4,5) obtain tl where tl: "sent d2 tl d4" by (meson xmit_datablock_talks deselect_talks talks_trans talks_def)
    show ?thesis
      using sent_trans [OF ws sent_trans [OF cmd(1) sent_trans [OF p(1) tl]]] cmd(2) p(2) False 1(6)
      by (intro exI [of _ ws] exI [of _ cmd] exI [of _ ps] exI [of _ tl]) simp
  qed
qed

subsection \<open>Between the calls\<close>

fun sel_step :: "wire \<Rightarrow> bool \<Rightarrow> bool" where
  "sel_step (Sel v) s = (v \<noteq> 0)"
| "sel_step (Xchg w v) s = s"

definition selected :: "wire list \<Rightarrow> bool" where
  "selected ws = fold sel_step ws False"

definition disk_inv :: "('d \<times> access list) disk \<Rightarrow> bool" where
  "disk_inv k \<longleftrightarrow> wire_idle k \<and> \<not> selected (wire_of k) \<and> Stat k \<in> {0, STA_NOINIT} \<and>
     (Stat k = 0 \<longrightarrow> CardType k \<in> {CT_MMC, CT_SD1, CT_SD2, CT_SD2 OR CT_BLOCK})"

inductive disk_step :: "'d bus \<Rightarrow> 'd disk \<Rightarrow> 'd disk \<Rightarrow> bool" for b where
  do_status: "disk_status b drv k = Some (s, k') \<Longrightarrow> disk_step b k k'"
| do_initialize: "disk_initialize b drv k = Some (s, k') \<Longrightarrow> disk_step b k k'"
| do_read: "disk_read b drv sector count k = Some (r, k') \<Longrightarrow> disk_step b k k'"
| do_write: "disk_write b drv buff sector count k = Some (r, k') \<Longrightarrow> disk_step b k k'"
| do_ioctl: "disk_ioctl b drv ctrl k = Some (r, k') \<Longrightarrow> disk_step b k k'"

lemma init_port_talks: "talks d (init_port (logged b) d)"
proof -
  have "sent d [Sel 0] (init_port (logged b) d)"
    by (cases d) (auto simp: init_port_def spi_bus sent_def spi_addr_def on_wire_def)
  then show ?thesis by blast
qed

lemma released:
  assumes "talks (port k) d" "deselect (logged b) d = Some (port k')" "wire_idle k"
  shows "wire_idle k' \<and> \<not> selected (wire_of k')"
proof -
  from assms(2) obtain v where v: "sent d (Sel 0 # polls [v]) (port k')" by (rule deselect_sent)
  from assms(1) obtain ws where "sent (port k) ws d" by (auto simp: talks_def)
  from sent_wire_of [OF sent_trans [OF this v] assms(3)] show ?thesis
    by (simp add: selected_def polls_def)
qed

lemma probe_type:
  "probe_v1 (logged b) d = Some (ty, d') \<Longrightarrow> talks d d' \<and> ty \<in> {0, CT_MMC, CT_SD1}"
  "probe_v2 (logged b) d = Some (ty, d') \<Longrightarrow> talks d d' \<and> ty \<in> {0, CT_SD2, CT_SD2 OR CT_BLOCK}"
  by (auto simp: probe_v1_def probe_v2_def bind_Some_iff Let_def split: if_splits
      dest!: send_cmd_talks idle_loop_talks rcvr_mmc_talks intro: talks_trans)

lemma disk_status_inv:
  assumes "disk_status (logged b) drv k = Some (s, k')" "disk_inv k"
  shows "disk_inv k'" "drv = 0 \<Longrightarrow> s = Stat k'" "drv \<noteq> 0 \<Longrightarrow> s = STA_NOINIT \<and> k' = k"
proof -
  show "disk_inv k'"
  proof (cases "k' = k")
    case False
    with assms(1) obtain n d1 v d2 where 1: "send_cmd (logged b) CMD13 0 (port k) = Some (n, d1)"
      "rcvr1 (logged b) d1 = Some (v, d2)" "deselect (logged b) d2 = Some (port k')" "CardType k' = CardType k"
      "Stat k' = STA_NOINIT \<or> Stat k' = Stat k"
      by (auto simp: disk_status_def bind_Some_iff Let_def split: if_splits)
    then have "wire_idle k' \<and> \<not> selected (wire_of k')"
      using released assms(2) by (meson disk_inv_def send_cmd_talks rcvr1_talks talks_trans)
    with 1(4,5) assms(2) show ?thesis by (auto simp: disk_inv_def STA_NOINIT_def)
  qed (use assms in simp)
qed (use assms in \<open>auto simp: disk_status_def bind_Some_iff Let_def split: if_splits\<close>)

lemma disk_initialize_inv:
  assumes "disk_initialize (logged b) drv k = Some (s, k')" "disk_inv k"
  shows "disk_inv k'"
proof (cases "drv = 0")
  case True
  with assms(1) obtain d1 n d2 ty d3 where 1: "dummy_clocks (logged b) 10 (init_port (logged b) (port k)) = Some d1"
    "send_cmd (logged b) CMD0 0 d1 = Some (n, d2)"
    "(if n = 1 then do {
             (n, d) \<leftarrow> send_cmd (logged b) CMD8 0x1aa d2;
             if n = 1 then probe_v2 (logged b) d else probe_v1 (logged b) d }
           else Some (0, d2)) = Some (ty, d3)"
    "deselect (logged b) d3 = Some (port k')" "CardType k' = ty" "Stat k' = (if ty \<noteq> 0 then 0 else STA_NOINIT)"
    by (auto simp: disk_initialize_def bind_Some_iff Let_def)
  from 1(3) have "talks d2 d3 \<and> ty \<in> {0, CT_MMC, CT_SD1, CT_SD2, CT_SD2 OR CT_BLOCK}"
    by (auto simp: bind_Some_iff split: if_splits dest!: probe_type send_cmd_talks intro: talks_trans)
  moreover from this have "talks (port k) d3"
    using 1(1,2) by (meson init_port_talks dummy_clocks_talks send_cmd_talks talks_trans)
  ultimately show ?thesis
    using released [of k d3 b k'] 1(4-6) assms(2) by (auto simp: disk_inv_def STA_NOINIT_def)
qed (use assms in \<open>simp add: disk_initialize_def\<close>)

lemma read_body_talks: "read_body (logged b) sector count d = Some ((data, left), d') \<Longrightarrow> talks d d'"
  by (cases "count = 1") (auto simp: read_body_def bind_Some_iff split: if_splits
      dest!: send_cmd_talks rcvr_datablock_talks read_blocks_talks intro: talks_trans)

lemma write_body_talks: "write_body (logged b) ty buff sector count d = Some (left, d') \<Longrightarrow> talks d d'"
  by (cases "count = 1") (auto simp: write_body_def bind_Some_iff split: if_splits
      dest!: send_cmd_talks xmit_datablock_talks write_blocks_talks intro: talks_trans)

lemma disk_read_inv:
  assumes "disk_read (logged b) drv sector count k = Some (r, k')" "disk_inv k"
  shows "disk_inv k'"
proof -
  from assms(1) obtain s k1 where st: "disk_status (logged b) drv k = Some (s, k1)"
    by (auto simp: disk_read_def bind_Some_iff)
  note i = disk_status_inv(1) [OF st assms(2)]
  show ?thesis
  proof (cases "k' = k1")
    case False
    with assms(1) st obtain d where "talks (port k1) d" "deselect (logged b) d = Some (port k')"
      "CardType k' = CardType k1" "Stat k' = Stat k1"
      by (auto simp: disk_read_def bind_Some_iff split: if_splits dest!: read_body_talks)
    with i released [of k1 d b k'] show ?thesis by (auto simp: disk_inv_def)
  qed (use i in simp)
qed

lemma disk_write_inv:
  assumes "disk_write (logged b) drv buff sector count k = Some (r, k')" "disk_inv k"
  shows "disk_inv k'"
proof -
  from assms(1) obtain s k1 where st: "disk_status (logged b) drv k = Some (s, k1)"
    by (auto simp: disk_write_def write_body_def bind_Some_iff)
  note i = disk_status_inv(1) [OF st assms(2)]
  show ?thesis
  proof (cases "k' = k1")
    case False
    with assms(1) st obtain d where "talks (port k1) d" "deselect (logged b) d = Some (port k')"
      "CardType k' = CardType k1" "Stat k' = Stat k1"
      by (auto simp: disk_write_def bind_Some_iff split: if_splits dest!: write_body_talks)
    with i released [of k1 d b k'] show ?thesis by (auto simp: disk_inv_def)
  qed (use i in simp)
qed

lemma ioctl_body_talks: "ioctl_body (logged b) ctrl d = Some (r, d') \<Longrightarrow> talks d d'"
  by (cases ctrl) (auto simp: ioctl_body_def bind_Some_iff split: if_splits
      dest!: send_cmd_talks rcvr_datablock_talks select_talks deselect_talks intro: talks_trans)

lemma disk_ioctl_inv:
  assumes "disk_ioctl (logged b) drv ctrl k = Some (r, k')" "disk_inv k"
  shows "disk_inv k'"
proof -
  from assms(1) obtain s k1 where st: "disk_status (logged b) drv k = Some (s, k1)"
    by (auto simp: disk_ioctl_def bind_Some_iff)
  note i = disk_status_inv(1) [OF st assms(2)]
  show ?thesis
  proof (cases "k' = k1")
    case False
    with assms(1) st obtain d where "talks (port k1) d" "deselect (logged b) d = Some (port k')"
      "CardType k' = CardType k1" "Stat k' = Stat k1"
      by (auto simp: disk_ioctl_def bind_Some_iff split: if_splits dest!: ioctl_body_talks)
    with i released [of k1 d b k'] show ?thesis by (auto simp: disk_inv_def)
  qed (use i in simp)
qed

lemmas disk_inv_ops = disk_status_inv(1) disk_initialize_inv disk_read_inv disk_write_inv disk_ioctl_inv

lemma reachable_disk_inv:
  assumes "(disk_step (logged b))\<^sup>*\<^sup>* \<lparr>Stat = STA_NOINIT, CardType = 0, port = (d, [])\<rparr> k"
  shows "disk_inv k"
  using assms
proof (induction rule: rtranclp_induct)
  case base
  show ?case by (simp add: disk_inv_def wire_idle_def wire_of_def on_wire_def selected_def STA_NOINIT_def)
next
  case (step k k')
  from step.hyps(2) step.IH show ?case by cases (auto intro: disk_inv_ops)
qed

subsection \<open>Every call returns\<close>

text \<open>The polls of the SPI core and of the delay timer end.\<close>

definition spi_live :: "'d bus \<Rightarrow> bool" where
  "spi_live b \<longleftrightarrow>
     (\<forall>d. \<forall>msk\<in>{ALTERA_AVALON_SPI_STATUS_TRDY_MSK, ALTERA_AVALON_SPI_STATUS_RRDY_MSK, ALTERA_AVALON_SPI_STATUS_TMT_MSK}.
        wait_on_spi b msk d \<noteq> None) \<and>
     (\<forall>d. timer_run b d \<noteq> None)"

lemma wait_on_spi_logged:
  assumes "wait_on_spi b msk d = Some d'"
  shows "\<exists>l'. wait_on_spi (logged b) msk (d, l) = Some (d', l')"
proof -
  have "\<forall>l. \<exists>l'. wait_on_spi (logged b) msk (d, l) = Some (d', l')"
  proof (rule wait_on_spi.raw_induct [OF _ assms])
    fix f bb msk d d'
    assume IH: "\<And>b msk d d'. f b msk d = Some d' \<Longrightarrow> \<forall>l. \<exists>l'. wait_on_spi (logged b) msk (d, l) = Some (d', l')"
      and body: "(let (v, d) = IORD_ALTERA_AVALON_SPI_STATUS bb SDCARD_SPI_BASE d
        in if v AND msk = 0 then f bb msk d else Some d) = Some d'"
    then show "\<forall>l. \<exists>l'. wait_on_spi (logged bb) msk (d, l) = Some (d', l')"
      by (subst wait_on_spi.simps) (auto simp: spi_bus split: if_splits prod.splits dest!: IH)
  qed
  then show ?thesis ..
qed

lemma timer_run_logged:
  assumes "timer_run b d = Some d'"
  shows "\<exists>l'. timer_run (logged b) (d, l) = Some (d', l')"
proof -
  have "\<forall>l. \<exists>l'. timer_run (logged b) (d, l) = Some (d', l')"
  proof (rule timer_run.raw_induct [OF _ assms])
    fix f bb d d'
    assume IH: "\<And>b d d'. f b d = Some d' \<Longrightarrow> \<forall>l. \<exists>l'. timer_run (logged b) (d, l) = Some (d', l')"
      and body: "(let (v, d) = IORD_ALTERA_AVALON_TIMER_STATUS bb TIMER_1US_BASE d
        in if v AND ALTERA_AVALON_TIMER_STATUS_RUN_MSK \<noteq> 0 then f bb d else Some d) = Some d'"
    then show "\<forall>l. \<exists>l'. timer_run (logged bb) (d, l) = Some (d', l')"
      by (subst timer_run.simps) (auto simp: spi_bus split: if_splits prod.splits dest!: IH)
  qed
  then show ?thesis ..
qed

lemma spi_live_logged: "spi_live b \<Longrightarrow> spi_live (logged b)"
  unfolding spi_live_def using wait_on_spi_logged timer_run_logged by (metis not_None_eq surj_pair)

definition returns :: "'x option \<Rightarrow> bool" where
  "returns m \<longleftrightarrow> m \<noteq> None"

lemma returns_rules:
  "returns m \<Longrightarrow> (\<And>x. returns (f x)) \<Longrightarrow> returns (Option.bind m f)"
  "returns x \<Longrightarrow> returns z \<Longrightarrow> returns (if c then x else z)"
  "(\<And>u v. returns (g u v)) \<Longrightarrow> returns (case p of (u, v) \<Rightarrow> g u v)"
  "returns x \<Longrightarrow> (\<And>u. returns (h u)) \<Longrightarrow> returns (case q of None \<Rightarrow> x | Some u \<Rightarrow> h u)"
  "(\<And>u v. returns (e u v d)) \<Longrightarrow> returns ((case p of (u, v) \<Rightarrow> e u v) d)"
  "returns (Some y)"
  by (auto simp: returns_def split: prod.split option.split)

lemma wait_returns:
  assumes "spi_live b"
  shows "returns (wait_on_spi b ALTERA_AVALON_SPI_STATUS_TRDY_MSK d)"
    "returns (wait_on_spi b ALTERA_AVALON_SPI_STATUS_RRDY_MSK d)"
    "returns (wait_on_spi b ALTERA_AVALON_SPI_STATUS_TMT_MSK d)" "returns (timer_run b d)"
  using assms by (auto simp: spi_live_def returns_def)

lemma dly_us_returns: "spi_live b \<Longrightarrow> returns (dly_us b n d)"
  by (induction n arbitrary: d) (simp_all add: returns_rules wait_returns)

lemma spi_bytes_returns: "spi_live b \<Longrightarrow> returns (spi_bytes b ws d)"
  by (induction ws arbitrary: d) (simp_all add: spi_byte_def Let_def returns_rules wait_returns)

lemma mmc_returns: "spi_live b \<Longrightarrow> returns (xmit_mmc b ws d)" "spi_live b \<Longrightarrow> returns (rcvr_mmc b n d)"
  by (simp_all add: xmit_mmc_def rcvr_mmc_def Let_def returns_rules wait_returns spi_bytes_returns)

lemma rcvr1_returns: "spi_live b \<Longrightarrow> returns (rcvr1 b d)"
  by (simp add: rcvr1_def returns_rules mmc_returns)

lemmas byte_returns = returns_rules dly_us_returns rcvr1_returns mmc_returns

lemma loops_return:
  assumes "spi_live b"
  shows "returns (ready_loop b n d)" "returns (token_loop b n v d)" "returns (resp_loop b n d)" "returns (dummy_clocks b n d)"
proof -
  show "returns (ready_loop b n d)" by (induction n arbitrary: d) (simp_all add: byte_returns assms)
  show "returns (token_loop b n v d)" by (induction n arbitrary: d v) (simp_all add: byte_returns assms)
  show "returns (resp_loop b n d)" by (induction n arbitrary: d) (simp_all add: byte_returns assms)
  show "returns (dummy_clocks b n d)" by (induction n arbitrary: d) (simp_all add: byte_returns assms)
qed

lemma card_returns:
  assumes "spi_live b"
  shows "returns (deselect b d)" "returns (select b d)" "returns (rcvr_datablock b n d)" "returns (xmit_datablock b buff tk d)"
  by (simp_all add: deselect_def select_def wait_ready_def rcvr_datablock_def xmit_datablock_def byte_returns loops_return assms)

lemma send_cmd_returns: "spi_live b \<Longrightarrow> returns (send_cmd b cmd arg d)"
  by (simp add: send_cmd_def send_plain_def byte_returns loops_return card_returns)

lemma blocks_return:
  assumes "spi_live b"
  shows "returns (read_blocks b n d)" "returns (write_blocks b blks d)" "returns (idle_loop b cmd arg m d)"
proof -
  show "returns (read_blocks b n d)" by (induction n arbitrary: d) (simp_all add: returns_rules card_returns assms)
  show "returns (write_blocks b blks d)" by (induction blks arbitrary: d) (simp_all add: returns_rules card_returns assms)
  show "returns (idle_loop b cmd arg m d)"
    by (induction m arbitrary: d) (simp_all add: returns_rules send_cmd_returns dly_us_returns assms)
qed

lemmas disk_returns = byte_returns loops_return card_returns send_cmd_returns blocks_return

lemma disk_status_returns: "spi_live b \<Longrightarrow> returns (disk_status b drv k)"
  by (simp add: disk_status_def Let_def disk_returns)

lemma disk_ops_return:
  assumes "spi_live b"
  shows "returns (disk_initialize b drv k)" "returns (disk_read b drv sector count k)"
    "returns (disk_write b drv buff sector count k)" "returns (disk_ioctl b drv ctrl k)"
proof -
  note r = disk_returns disk_status_returns assms
  show "returns (disk_initialize b drv k)"
    by (simp add: disk_initialize_def probe_v1_def probe_v2_def Let_def r)
  show "returns (disk_read b drv sector count k)" by (simp add: disk_read_def read_body_def r)
  show "returns (disk_write b drv buff sector count k)" by (simp add: disk_write_def write_body_def r)
  show "returns (disk_ioctl b drv ctrl k)" by (cases ctrl) (simp_all add: disk_ioctl_def ioctl_body_def r)
qed

subsection \<open>A scripted card\<close>

text \<open>A core that is always ready, with a card whose \<open>n\<close>-th byte is \<open>f n\<close>.\<close>

definition script_bus :: "(nat \<Rightarrow> u8) \<Rightarrow> nat bus" where
  "script_bus f = \<lparr>bus_rd = (\<lambda>a n. (if a = spi_addr ALTERA_AVALON_SPI_RXDATA_REG then ucast (f n) else 0xe0, n)),
     bus_wr = (\<lambda>a v n. if a = spi_addr ALTERA_AVALON_SPI_TXDATA_REG then Suc n else n),
     bus_ms = (\<lambda>ms n. n)\<rparr>"

lemma script_live: "spi_live (script_bus f)"
  unfolding spi_live_def
  by (subst wait_on_spi.simps, subst timer_run.simps)
     (simp add: script_bus_def spi_bus spi_addr_def)

definition runs :: "('x \<times> nat \<times> access list) option \<Rightarrow> 'x \<Rightarrow> nat \<Rightarrow> bool" where
  "runs m x n \<longleftrightarrow> (\<exists>l. m = Some (x, n, l))"

definition goes :: "(nat \<times> access list) option \<Rightarrow> nat \<Rightarrow> bool" where
  "goes m n \<longleftrightarrow> (\<exists>l. m = Some (n, l))"

lemma script_wait:
  "goes (wait_on_spi (logged (script_bus f)) ALTERA_AVALON_SPI_STATUS_TRDY_MSK (n, l)) n"
  "goes (wait_on_spi (logged (script_bus f)) ALTERA_AVALON_SPI_STATUS_RRDY_MSK (n, l)) n"
  "goes (wait_on_spi (logged (script_bus f)) ALTERA_AVALON_SPI_STATUS_TMT_MSK (n, l)) n"
  by (subst wait_on_spi.simps, simp add: script_bus_def spi_bus spi_addr_def goes_def)+

lemma script_tx:
  "IOWR_ALTERA_AVALON_SPI_TXDATA (logged (script_bus f)) SDCARD_SPI_BASE v (n, l) = (Suc n, l @ [Wr 0x1102084 v])"
  by (simp add: script_bus_def spi_bus spi_addr_def)

lemma script_rx:
  "IORD_ALTERA_AVALON_SPI_RXDATA (logged (script_bus f)) SDCARD_SPI_BASE (n, l) =
   (ucast (f n), n, l @ [Rd 0x1102080 (ucast (f n))])"
  by (simp add: script_bus_def spi_bus spi_addr_def)

lemma script_sel:
  "IOWR_ALTERA_AVALON_SPI_SLAVE_SEL (logged (script_bus f)) SDCARD_SPI_BASE v (n, l) = (n, l @ [Wr 0x1102094 v])"
  by (simp add: script_bus_def spi_bus spi_addr_def)

lemma runs_bind: "runs m x n \<Longrightarrow> (\<And>l. runs (g (x, n, l)) y n') \<Longrightarrow> runs (Option.bind m g) y n'"
  by (auto simp: runs_def)
lemma goes_bind: "goes m n \<Longrightarrow> (\<And>l. runs (g (n, l)) y n') \<Longrightarrow> runs (Option.bind m g) y n'"
  by (auto simp: runs_def goes_def)
lemma runs_goes: "runs m x n \<Longrightarrow> (\<And>l. goes (g (x, n, l)) n') \<Longrightarrow> goes (Option.bind m g) n'"
  by (auto simp: runs_def goes_def)
lemma runs_Some: "runs (Some (x, n, l)) x n" "goes (Some (n, l)) n"
  by (simp_all add: runs_def goes_def)

lemma script_bytes:
  "runs (spi_bytes (logged (script_bus f)) ws (n, l)) (map f [Suc n..<Suc (n + length ws)]) (n + length ws)"
proof (induction ws arbitrary: n l)
  case (Cons w ws)
  obtain l1 where 1: "wait_on_spi (logged (script_bus f)) ALTERA_AVALON_SPI_STATUS_TRDY_MSK (n, l) = Some (n, l1)"
    using script_wait(1) unfolding goes_def by blast
  obtain l2 where 2: "wait_on_spi (logged (script_bus f)) ALTERA_AVALON_SPI_STATUS_RRDY_MSK
      (IOWR_ALTERA_AVALON_SPI_TXDATA (logged (script_bus f)) SDCARD_SPI_BASE (ucast w) (n, l1)) = Some (Suc n, l2)"
    using script_wait(2) [of f "Suc n"] unfolding goes_def by (simp add: script_tx) blast
  have "\<exists>l3. spi_byte (logged (script_bus f)) w (n, l) = Some (f (Suc n), Suc n, l3)"
    using 1 2 by (simp add: spi_byte_def script_rx)
  then have 3: "runs (spi_byte (logged (script_bus f)) w (n, l)) (f (Suc n)) (Suc n)" by (simp add: runs_def)
  have 4: "map f [Suc n..<Suc (n + length (w # ws))] = f (Suc n) # map f [Suc (Suc n)..<Suc (Suc n + length ws)]"
    by (simp add: upt_conv_Cons del: upt_Suc)
  show ?case
    unfolding spi_bytes.simps 4
    by (rule runs_bind [OF 3], unfold prod.case, rule runs_bind [OF Cons.IH]) (simp add: runs_def del: upt_Suc)
qed (simp add: runs_def)

lemma script_rcvr: "runs (rcvr_mmc (logged (script_bus f)) c (n, l)) (map f [Suc n..<Suc (n + c)]) (n + c)"
  unfolding rcvr_mmc_def script_rx Let_def prod.case
  by (rule runs_bind, rule script_bytes [of f "replicate c 0xff", unfolded length_replicate])
     (simp add: goes_bind [OF script_wait(3)] runs_Some)

lemma script_xmit: "goes (xmit_mmc (logged (script_bus f)) ws (n, l)) (n + length ws)"
  unfolding xmit_mmc_def script_rx Let_def prod.case
  by (rule runs_goes, rule script_bytes) (simp add: script_wait)

lemma script_rcvr1: "runs (rcvr1 (logged (script_bus f)) (n, l)) (f (Suc n)) (Suc n)"
  unfolding rcvr1_def using script_rcvr [of f 1 n l] by (intro runs_bind) (auto simp: runs_Some)

lemma script_deselect: "goes (deselect (logged (script_bus f)) (n, l)) (Suc n)"
  unfolding deselect_def script_sel by (rule runs_goes, rule script_rcvr1) (simp add: runs_Some)

lemma script_select:
  assumes "f (n + 2) = 0xff"
  shows "runs (select (logged (script_bus f)) (n, l)) True (n + 2)"
proof -
  have w: "runs (wait_ready (logged (script_bus f)) (Suc n, l)) True (n + 2)" for l
  proof -
    have "runs (ready_loop (logged (script_bus f)) (Suc 4999) (Suc n, l)) True (n + 2)"
      unfolding ready_loop.simps(2) using assms by (intro runs_bind [OF script_rcvr1]) (simp add: runs_Some)
    then show ?thesis by (simp add: wait_ready_def del: ready_loop.simps)
  qed
  show ?thesis
    unfolding select_def script_sel
    by (rule runs_bind, rule script_rcvr1) (simp add: runs_bind [OF w] runs_Some)
qed

lemma script_cmd:
  assumes "f (n + 3) = 0xff" "\<not> bit (f (n + 10)) 7" "\<not> bit cmd 7" "cmd \<noteq> CMD12"
  shows "runs (send_cmd (logged (script_bus f)) cmd arg (n, l)) (f (n + 10)) (n + 10)"
proof -
  have r: "runs (resp_loop (logged (script_bus f)) 10 (n + 9, l)) (f (n + 10)) (n + 10)" for l
  proof -
    have "runs (resp_loop (logged (script_bus f)) (Suc 9) (n + 9, l)) (f (n + 10)) (n + 10)"
      unfolding resp_loop.simps(2) using assms(2)
      by (intro runs_bind [OF script_rcvr1]) (simp add: runs_Some and_80 add.commute [of 10])
    then show ?thesis by (simp del: resp_loop.simps)
  qed
  have s: "runs (select (logged (script_bus f)) (Suc n, l)) True (n + 3)" for l
    using script_select [of f "Suc n"] assms(1) by (simp add: eval_nat_numeral)
  have x: "goes (xmit_mmc (logged (script_bus f)) (cmd_frame cmd arg) (n + 3, l)) (n + 9)" for l
    using script_xmit [of f "cmd_frame cmd arg" "n + 3"] by (simp add: add.commute [of 9])
  have "runs (send_plain (logged (script_bus f)) cmd arg (n, l)) (f (n + 10)) (n + 10)"
    unfolding send_plain_def
    by (rule goes_bind [OF script_deselect], rule runs_bind [OF s])
       (simp add: goes_bind [OF x] r assms(4))
  then show ?thesis using assms(3) by (simp add: send_cmd_def and_80)
qed

lemma script_disk_read:
  assumes f: "f 3 = 0xff" "f 10 = 0" "f 15 = 0xff" "f 22 = 0" "f 23 = 0xfe"
  shows "\<exists>l'. disk_read (logged (script_bus f)) 0 sector 1 \<lparr>Stat = 0, CardType = CT_SD2, port = (0, [])\<rparr> =
     Some ((RES_OK, map f [24..<536]), \<lparr>Stat = 0, CardType = CT_SD2, port = (538, l')\<rparr>)"
proof -
  let ?b = "logged (script_bus f)" and ?k = "\<lparr>Stat = 0, CardType = CT_SD2, port = (0 :: nat, [] :: access list)\<rparr>"
  obtain l1 where 1: "send_cmd ?b CMD13 0 (0, []) = Some (0, 10, l1)"
    using script_cmd [of f 0 CMD13 0 "[]"] f(1,2) by (auto simp: runs_def cmd_defs)
  obtain l2 where 2: "rcvr1 ?b (10, l1) = Some (f 11, 11, l2)"
    using script_rcvr1 [of f 10 l1] by (auto simp: runs_def)
  obtain l3 where 3: "deselect ?b (11, l2) = Some (12, l3)"
    using script_deselect [of f 11 l2] by (auto simp: goes_def)
  have st: "disk_status ?b 0 ?k = Some (0, ?k\<lparr>port := (12, l3)\<rparr>)"
    by (simp add: disk_status_def 1 2 3 STA_NOINIT_def)
  obtain l4 where 4: "send_cmd ?b CMD17 (card_addr CT_SD2 sector) (12, l3) = Some (0, 22, l4)"
    using script_cmd [of f 12 CMD17 _ l3] f(3,4) by (auto simp: runs_def cmd_defs)
  have "runs (token_loop ?b (Suc 999) 0 (22, l4)) 0xfe 23"
    unfolding token_loop.simps(2) using f(5) by (intro runs_bind [OF script_rcvr1]) (simp add: runs_Some)
  then obtain l5 where 5: "token_loop ?b 1000 0 (22, l4) = Some (0xfe, 23, l5)"
    by (auto simp: runs_def simp del: token_loop.simps)
  obtain l6 where 6: "rcvr_mmc ?b 512 (23, l5) = Some (map f [24..<536], 535, l6)"
    using script_rcvr [of f 512 23 l5] by (auto simp: runs_def simp del: upt_rec_numeral upt_Suc)
  obtain l7 v where 7: "rcvr_mmc ?b 2 (535, l6) = Some (v, 537, l7)"
    using script_rcvr [of f 2 535 l6] by (auto simp: runs_def simp del: upt_rec_numeral upt_Suc)
  obtain l8 where 8: "deselect ?b (537, l7) = Some (538, l8)"
    using script_deselect [of f 537 l7] by (auto simp: goes_def)
  show ?thesis
    by (simp add: disk_read_def read_body_def st 4 rcvr_datablock_def 5 6 7 8 STA_NOINIT_def
        del: upt_rec_numeral upt_Suc map_eq_conv)
qed

subsection \<open>The calls of the file system\<close>

lemma talks_idle: "talks (port k) (port k') \<Longrightarrow> wire_idle k \<Longrightarrow> wire_idle k'"
  by (auto simp: talks_def dest: sent_wire_of)

lemma disk_read_ports: "disk_read (logged b) drv sector count k = Some (r, k') \<Longrightarrow> talks (port k) (port k')"
  by (auto simp: disk_read_def bind_Some_iff split: if_splits
      dest!: disk_status_talks read_body_talks deselect_talks intro: talks_trans)

lemma disk_write_ports: "disk_write (logged b) drv buff sector count k = Some (r, k') \<Longrightarrow> talks (port k) (port k')"
  by (auto simp: disk_write_def bind_Some_iff split: if_splits
      dest!: disk_status_talks write_body_talks deselect_talks intro: talks_trans)

text \<open>
  C19: The card driver with any card behind a live SPI core: between any two calls of its five
  functions, from power-up on and whatever errors occurred, no byte exchange is half done and
  the card is deselected; the drive is either not initialised or holds one of the four card
  types the probing knows.
\<close>

theorem disk_calls_release_card:
  assumes "(disk_step (logged b))\<^sup>*\<^sup>* \<lparr>Stat = STA_NOINIT, CardType = 0, port = (d, [])\<rparr> k"
  shows "wire_idle k \<and> \<not> selected (wire_of k) \<and> Stat k \<in> {0, STA_NOINIT} \<and>
     (Stat k = 0 \<longrightarrow> CardType k \<in> {CT_MMC, CT_SD1, CT_SD2, CT_SD2 OR CT_BLOCK})"
  using reachable_disk_inv [OF assms] by (simp add: disk_inv_def)

theorem disk_calls_release_card_witness:
  "\<exists>s k. disk_initialize (logged (script_bus (\<lambda>_. 0xff))) 0 \<lparr>Stat = STA_NOINIT, CardType = 0, port = (0, [])\<rparr> = Some (s, k) \<and>
     wire_idle k \<and> \<not> selected (wire_of k)"
proof -
  let ?b = "logged (script_bus (\<lambda>_. 0xff))" and ?k = "\<lparr>Stat = STA_NOINIT, CardType = 0, port = (0, [])\<rparr>"
  obtain s k where 1: "disk_initialize ?b 0 ?k = Some (s, k)"
    using disk_ops_return(1) [OF spi_live_logged [OF script_live [of "\<lambda>_. 0xff"]], of 0 ?k] by (auto simp: returns_def)
  then have "(disk_step ?b)\<^sup>*\<^sup>* ?k k" by (blast intro: do_initialize)
  with 1 disk_calls_release_card [of "script_bus (\<lambda>_. 0xff)" 0 k] show ?thesis by auto
qed

text \<open>
  C17: On a live SPI core \<open>disk_read\<close> returns for every card. When it reports success, what went over
  the wire is exactly this: the status command with its two bytes of answer, the first one 0, and
  the card let go; the read command with the sector's address, acknowledged with 0; one packet per
  sector: the start token, the 512 bytes handed to the caller in order, two check bytes; for more
  than one sector the stop command; and the card let go.
\<close>

theorem disk_read_wire:
  assumes "spi_live b" and "wire_idle k"
  shows "\<exists>r data k'. disk_read (logged b) drv sector count k = Some ((r, data), k') \<and> wire_idle k' \<and>
    (r = RES_OK \<longrightarrow> length data = 512 * unat count \<and>
      (\<exists>st cmd ph tl. wire_of k' = wire_of k @ st @ cmd @ ph @ tl \<and> status_poll st \<and>
        command (if count = 1 then CMD17 else CMD18) (card_addr (CardType k) sector) 0 cmd \<and> data_phase count data ph \<and> read_end count tl))"
proof -
  obtain r data k' where 1: "disk_read (logged b) drv sector count k = Some ((r, data), k')"
    using disk_ops_return(2) [OF spi_live_logged [OF assms(1)], of drv sector count k] by (auto simp: returns_def)
  have "length data = 512 * unat count \<and> (\<exists>st cmd ph tl. wire_of k' = wire_of k @ st @ cmd @ ph @ tl \<and> status_poll st \<and>
        command (if count = 1 then CMD17 else CMD18) (card_addr (CardType k) sector) 0 cmd \<and> data_phase count data ph \<and> read_end count tl)"
    if "r = RES_OK"
  proof -
    from disk_read_lemma [OF 1 [unfolded that]] obtain st cmd ph tl where
      2: "sent (port k) (st @ cmd @ ph @ tl) (port k')" "status_poll st"
      "command (if count = 1 then CMD17 else CMD18) (card_addr (CardType k) sector) 0 cmd" "data_phase count data ph" "read_end count tl"
      by blast
    from 2(4) have "length data = 512 * unat count" by (rule data_phase_length)
    with 2 sent_wire_of [OF 2(1) assms(2)] show ?thesis by blast
  qed
  with 1 talks_idle [OF disk_read_ports [OF 1] assms(2)] show ?thesis by auto
qed

theorem disk_read_wire_witness:
  "\<exists>k' st cmd ph tl. disk_read (logged (script_bus (\<lambda>n. if n \<in> {3, 15} then 0xff else if n \<in> {10, 22} then 0 else if n = 23 then 0xfe else 0xa5)))
       0 7 1 \<lparr>Stat = 0, CardType = CT_SD2, port = (0, [])\<rparr> = Some ((RES_OK, replicate 512 0xa5), k') \<and>
     wire_of k' = st @ cmd @ ph @ tl \<and> status_poll st \<and> command CMD17 3584 0 cmd \<and> data_phase 1 (replicate 512 0xa5) ph \<and> let_go tl"
proof -
  let ?f = "\<lambda>n :: nat. if n \<in> {3, 15} then 0xff else if n \<in> {10, 22} then 0 else if n = 23 then 0xfe else 0xa5 :: u8"
  let ?k = "\<lparr>Stat = 0, CardType = CT_SD2, port = (0 :: nat, [] :: access list)\<rparr>"
  have d: "map ?f [24..<536] = replicate 512 0xa5"
    by (rule nth_equalityI) (simp_all del: upt_rec_numeral)
  obtain k' where 1: "disk_read (logged (script_bus ?f)) 0 7 1 ?k = Some ((RES_OK, replicate 512 0xa5), k')"
    using script_disk_read [of ?f 7] unfolding d by auto
  have i: "wire_idle ?k" and w: "wire_of ?k = []" by (simp_all add: wire_idle_def wire_of_def on_wire_def)
  have a: "card_addr CT_SD2 7 = 3584" by (simp add: card_addr_def CT_SD2_def CT_BLOCK_def)
  show ?thesis
    using disk_read_wire [OF script_live [of ?f] i, of 0 7 1] 1 w a by (auto simp: read_end_def)
qed

text \<open>
  C18: On a live SPI core \<open>disk_write\<close> returns for every card. When it reports success, the write
  command with the sector's address was acknowledged with 0 and every sector of the buffer
  went out, in order, as one packet after the card was ready, each acknowledged by the card's
  data response.
\<close>

theorem disk_write_wire:
  assumes "spi_live b" and "wire_idle k"
  shows "\<exists>r k'. disk_write (logged b) drv buff sector count k = Some (r, k') \<and> wire_idle k' \<and>
    (r = RES_OK \<longrightarrow>
      (\<exists>st cmd ps tl. wire_of k' = wire_of k @ st @ cmd @ concat ps @ tl \<and>
        command (if count = 1 then CMD24 else CMD25) (card_addr (CardType k) sector) 0 cmd \<and>
        list_all2 (xmit_ok (if count = 1 then 0xfe else 0xfc)) (sectors (unat count) buff) ps))"
proof -
  obtain r k' where 1: "disk_write (logged b) drv buff sector count k = Some (r, k')"
    using disk_ops_return(3) [OF spi_live_logged [OF assms(1)], of drv buff sector count k] by (auto simp: returns_def)
  with disk_write_lemma [of b drv buff sector count k k'] sent_wire_of [of k _ k']
    talks_idle [OF disk_write_ports [OF 1]] assms(2)
  show ?thesis by blast
qed

theorem disk_write_wire_witness:
  "spi_live (script_bus (\<lambda>_. 0)) \<and>
   (\<exists>r k'. disk_write (logged (script_bus (\<lambda>_. 0))) 0 (replicate 512 0) 7 1 \<lparr>Stat = 0, CardType = CT_SD2, port = (0, [])\<rparr> = Some (r, k') \<and>
      wire_idle k')"
  using disk_write_wire [OF script_live [of "\<lambda>_. 0"], of "\<lparr>Stat = 0, CardType = CT_SD2, port = (0, [])\<rparr>" 0 "replicate 512 0" 7 1]
    script_live
  by (auto simp: wire_idle_def on_wire_def)

text \<open>
  The capacity of a card with the second register layout is computed from sixteen bits of its
  size field and wraps: a card of \<open>65536 * 1024\<close> sectors is reported as empty.
\<close>

theorem csd_capacity:
  assumes "drop_bit 6 (csd ! 0) = 1"
  shows "unat (csd_sectors csd) = (256 * unat (csd ! 8) + unat (csd ! 9) + 1) mod 65536 * 1024"
proof -
  let ?cs = "ucast (csd ! 9) + push_bit 8 (ucast (csd ! 8)) + 1 :: u16"
  have w: "push_bit 8 (ucast (csd ! 8)) = (of_nat (256 * unat (csd ! 8)) :: u16)"
    by (simp add: push_bit_eq_mult)
  have "?cs = of_nat (256 * unat (csd ! 8) + unat (csd ! 9) + 1)"
    unfolding w by (simp add: algebra_simps)
  then have c: "unat ?cs = (256 * unat (csd ! 8) + unat (csd ! 9) + 1) mod 65536"
    by (simp only: unat_of_nat) simp
  have "csd_sectors csd = of_nat (unat ?cs * 1024)"
    using assms by (simp add: csd_sectors_def Let_def push_bit_eq_mult)
  then have "unat (csd_sectors csd) = (unat ?cs * 1024) mod 2 ^ 32" by (simp only: unat_of_nat) simp
  moreover have "unat ?cs < 65536" using unsigned_less [of ?cs] by simp
  ultimately have "unat (csd_sectors csd) = unat ?cs * 1024" by simp
  with c show ?thesis by simp
qed

theorem csd_capacity_witness:
  "unat (csd_sectors [0x40, 0, 0, 0, 0, 0, 0, 0, 0xff, 0xff]) = 0"
  using csd_capacity [of "[0x40, 0, 0, 0, 0, 0, 0, 0, 0xff, 0xff]"] by (simp add: drop_bit_eq_div)

end
