(* ===== verification/Ff_Fat.thy ===== *)
theory Ff_Fat
  imports Ff_Types Diskio
begin

text \<open>
  The file system module \<^verbatim>\<open>fatfs/ff.c\<close>, first part: the sector window and the allocation table,
  in the configuration of \<^verbatim>\<open>ffconf.h\<close> (tiny buffer, no long names, 512-byte sectors, no locking).
  The functions take the drive they call as an argument; a call of the drive that does not
  return makes the whole call \<open>None\<close>. \<open>sd_drive\<close> is the drive of \<^verbatim>\<open>diskio.c\<close>.
\<close>

subsection \<open>The drive\<close>

record 'k drive =
  dk_status :: "u8 \<Rightarrow> 'k \<Rightarrow> (u8 \<times> 'k) option"
  dk_initialize :: "u8 \<Rightarrow> 'k \<Rightarrow> (u8 \<times> 'k) option"
  dk_read :: "u8 \<Rightarrow> u32 \<Rightarrow> u8 \<Rightarrow> 'k \<Rightarrow> ((DRESULT \<times> u8 list) \<times> 'k) option"
  dk_write :: "u8 \<Rightarrow> u8 list \<Rightarrow> u32 \<Rightarrow> u8 \<Rightarrow> 'k \<Rightarrow> (DRESULT \<times> 'k) option"
  dk_sync :: "u8 \<Rightarrow> 'k \<Rightarrow> (DRESULT \<times> 'k) option"

definition sd_drive :: "'d bus \<Rightarrow> 'd disk drive" where
  "sd_drive b = \<lparr>dk_status = disk_status b, dk_initialize = disk_initialize b, dk_read = disk_read b,
     dk_write = disk_write b,
     dk_sync = (\<lambda>d k. do { ((r, _), k) \<leftarrow> disk_ioctl b d CTRL_SYNC k; Some (r, k) })\<rparr>"

subsection \<open>Little-endian data\<close>

text \<open>A buffer and an offset stand for the pointer.\<close>

definition LD_WORD :: "u8 list \<Rightarrow> nat \<Rightarrow> u16" where
  "LD_WORD p i = push_bit 8 (ucast (p ! (i + 1))) OR ucast (p ! i)"

definition LD_DWORD :: "u8 list \<Rightarrow> nat \<Rightarrow> u32" where
  "LD_DWORD p i = push_bit 24 (ucast (p ! (i + 3))) OR push_bit 16 (ucast (p ! (i + 2))) OR
     push_bit 8 (ucast (p ! (i + 1))) OR ucast (p ! i)"

definition ST_WORD :: "nat \<Rightarrow> u16 \<Rightarrow> u8 list \<Rightarrow> u8 list" where
  "ST_WORD i v p = p[i := ucast v, i + 1 := ucast (drop_bit 8 v)]"

definition ST_DWORD :: "nat \<Rightarrow> u32 \<Rightarrow> u8 list \<Rightarrow> u8 list" where
  "ST_DWORD i v p = p[i := ucast v, i + 1 := ucast (drop_bit 8 v), i + 2 := ucast (drop_bit 16 v),
     i + 3 := ucast (drop_bit 24 v)]"

text \<open>\<open>mem_cpy\<close> into a buffer: the bytes \<open>src\<close> at offset \<open>i\<close>.\<close>

definition mem_cpy :: "nat \<Rightarrow> u8 list \<Rightarrow> u8 list \<Rightarrow> u8 list" where
  "mem_cpy i src p = take i p @ src @ drop (i + length src) p"

definition mem_set :: "nat \<Rightarrow> u8 \<Rightarrow> nat \<Rightarrow> u8 list \<Rightarrow> u8 list" where
  "mem_set i val cnt p = mem_cpy i (replicate cnt val) p"

text \<open>The first difference decides; 0 when there is none.\<close>

fun mem_cmp :: "u8 list \<Rightarrow> u8 list \<Rightarrow> int" where
  "mem_cmp (d # ds) (s # ss) = (let r = uint d - uint s in if r \<noteq> 0 then r else mem_cmp ds ss)"
| "mem_cmp _ _ = 0"

text \<open>The character itself when the string has it, 0 otherwise.\<close>

fun chk_chr :: "u8 list \<Rightarrow> u8 \<Rightarrow> u8" where
  "chk_chr [] chr = 0"
| "chk_chr (c # cs) chr = (if c \<noteq> chr then chk_chr cs chr else c)"

subsection \<open>The file system object\<close>

datatype fat_type = FS_NONE | FS_FAT12 | FS_FAT16 | FS_FAT32

record 'k FATFS =
  fs_type :: fat_type
  drv :: u8
  csize :: u8
  n_fats :: u8
  wflag :: bool
  fsi_flag :: bool
  fs_id :: u16
  n_rootdir :: u16
  last_clust :: u32
  free_clust :: u32
  fsi_sector :: u32
  cdir :: u32
  n_fatent :: u32
  fsize :: u32
  fatbase :: u32
  dirbase :: u32
  database :: u32
  winsect :: u32
  win :: "u8 list"
  media :: 'k

definition SS :: nat where "SS = 512"
definition BS_55AA :: nat where "BS_55AA = 510"
definition FSI_LeadSig :: nat where "FSI_LeadSig = 0"
definition FSI_StrucSig :: nat where "FSI_StrucSig = 484"
definition FSI_Free_Count :: nat where "FSI_Free_Count = 488"
definition FSI_Nxt_Free :: nat where "FSI_Nxt_Free = 492"

subsection \<open>The window\<close>

text \<open>\<open>nf\<close> copies of the table are still to be written.\<close>

fun mirror_fats :: "'k drive \<Rightarrow> nat \<Rightarrow> u32 \<Rightarrow> 'k FATFS \<Rightarrow> 'k FATFS option" where
  "mirror_fats v 0 wsect fs = Some fs"
| "mirror_fats v (Suc nf) wsect fs = do {
     let wsect = wsect + fsize fs;
     (_, k) \<leftarrow> dk_write v (drv fs) (win fs) wsect 1 (media fs);
     mirror_fats v nf wsect (fs\<lparr>media := k\<rparr>) }"

definition write_back :: "'k drive \<Rightarrow> 'k FATFS \<Rightarrow> (FRESULT \<times> 'k FATFS) option" where
  "write_back v fs =
     (if wflag fs then do {
        (r, k) \<leftarrow> dk_write v (drv fs) (win fs) (winsect fs) 1 (media fs);
        if r \<noteq> RES_OK then Some (FR_DISK_ERR, fs\<lparr>media := k\<rparr>)
        else do {
          let fs = fs\<lparr>media := k, wflag := False\<rparr>;
          fs \<leftarrow> (if winsect fs < fatbase fs + fsize fs then mirror_fats v (unat (n_fats fs) - 1) (winsect fs) fs
                 else Some fs);
          Some (FR_OK, fs) } }
      else Some (FR_OK, fs))"

definition load_win :: "'k drive \<Rightarrow> u32 \<Rightarrow> 'k FATFS \<Rightarrow> (DRESULT \<times> 'k FATFS) option" where
  "load_win v sector fs = do {
     ((r, data), k) \<leftarrow> dk_read v (drv fs) sector 1 (media fs);
     Some (r, fs\<lparr>media := k, win := mem_cpy 0 data (win fs)\<rparr>) }"

definition move_window :: "'k drive \<Rightarrow> u32 \<Rightarrow> 'k FATFS \<Rightarrow> (FRESULT \<times> 'k FATFS) option" where
  "move_window v sector fs =
     (if winsect fs \<noteq> sector then do {
        (res, fs) \<leftarrow> write_back v fs;
        if res \<noteq> FR_OK then Some (res, fs)
        else if sector \<noteq> 0 then do {
          (r, fs) \<leftarrow> load_win v sector fs;
          if r \<noteq> RES_OK then Some (FR_DISK_ERR, fs) else Some (FR_OK, fs\<lparr>winsect := sector\<rparr>) }
        else Some (FR_OK, fs) }
      else Some (FR_OK, fs))"

definition fsinfo :: "'k FATFS \<Rightarrow> u8 list" where
  "fsinfo fs =
     (let w = mem_set 0 0 512 (win fs);
          w = ST_WORD BS_55AA 0xAA55 w;
          w = ST_DWORD FSI_LeadSig 0x41615252 w;
          w = ST_DWORD FSI_StrucSig 0x61417272 w;
          w = ST_DWORD FSI_Free_Count (free_clust fs) w
      in ST_DWORD FSI_Nxt_Free (last_clust fs) w)"

definition sync :: "'k drive \<Rightarrow> 'k FATFS \<Rightarrow> (FRESULT \<times> 'k FATFS) option" where
  "sync v fs = do {
     (res, fs) \<leftarrow> move_window v 0 fs;
     if res = FR_OK then do {
       fs \<leftarrow>
         (if fs_type fs = FS_FAT32 \<and> fsi_flag fs then do {
            let fs = fs\<lparr>winsect := 0, win := fsinfo fs\<rparr>;
            (_, k) \<leftarrow> dk_write v (drv fs) (win fs) (fsi_sector fs) 1 (media fs);
            Some (fs\<lparr>media := k, fsi_flag := False\<rparr>) }
          else Some fs);
       (r, k) \<leftarrow> dk_sync v (drv fs) (media fs);
       Some (if r \<noteq> RES_OK then FR_DISK_ERR else FR_OK, fs\<lparr>media := k\<rparr>) }
     else Some (res, fs) }"

subsection \<open>Clusters\<close>

definition clust2sect :: "'k FATFS \<Rightarrow> u32 \<Rightarrow> u32" where
  "clust2sect fs clst =
     (let clst = clst - 2 in if clst \<ge> n_fatent fs - 2 then 0 else clst * ucast (csize fs) + database fs)"

definition win_byte :: "'k FATFS \<Rightarrow> u32 \<Rightarrow> u8" where
  "win_byte fs bc = win fs ! unat (bc mod 512)"

definition get_fat12 :: "'k drive \<Rightarrow> u32 \<Rightarrow> 'k FATFS \<Rightarrow> (u32 \<times> 'k FATFS) option" where
  "get_fat12 v clst fs = do {
     let bc = clst + clst div 2;
     (res, fs) \<leftarrow> move_window v (fatbase fs + bc div 512) fs;
     if res \<noteq> FR_OK then Some (0xffffffff, fs)
     else do {
       let wc = ucast (win_byte fs bc);
       let bc = bc + 1;
       (res, fs) \<leftarrow> move_window v (fatbase fs + bc div 512) fs;
       if res \<noteq> FR_OK then Some (0xffffffff, fs)
       else do {
         let wc = wc OR push_bit 8 (ucast (win_byte fs bc));
         Some (if clst AND 1 \<noteq> 0 then drop_bit 4 wc else wc AND 0xfff, fs) } } }"

definition get_fat :: "'k drive \<Rightarrow> u32 \<Rightarrow> 'k FATFS \<Rightarrow> (u32 \<times> 'k FATFS) option" where
  "get_fat v clst fs =
     (if clst < 2 \<or> clst \<ge> n_fatent fs then Some (1, fs)
      else case fs_type fs of
        FS_FAT12 \<Rightarrow> get_fat12 v clst fs
      | FS_FAT16 \<Rightarrow> do {
          (res, fs) \<leftarrow> move_window v (fatbase fs + clst div 256) fs;
          Some (if res \<noteq> FR_OK then 0xffffffff else ucast (LD_WORD (win fs) (unat (clst * 2 mod 512))), fs) }
      | FS_FAT32 \<Rightarrow> do {
          (res, fs) \<leftarrow> move_window v (fatbase fs + clst div 128) fs;
          Some (if res \<noteq> FR_OK then 0xffffffff
                else LD_DWORD (win fs) (unat (clst * 4 mod 512)) AND 0x0fffffff, fs) }
      | FS_NONE \<Rightarrow> Some (0xffffffff, fs))"

text \<open>Storing through a pointer into the window.\<close>

definition put_win :: "(u8 list \<Rightarrow> u8 list) \<Rightarrow> 'k FATFS \<Rightarrow> 'k FATFS" where
  "put_win f fs = fs\<lparr>win := f (win fs)\<rparr>"

definition put_fat12 :: "'k drive \<Rightarrow> u32 \<Rightarrow> u32 \<Rightarrow> 'k FATFS \<Rightarrow> (FRESULT \<times> 'k FATFS) option" where
  "put_fat12 v clst val fs = do {
     let bc = clst + clst div 2;
     (res, fs) \<leftarrow> move_window v (fatbase fs + bc div 512) fs;
     if res \<noteq> FR_OK then Some (res, fs)
     else do {
       let p = win_byte fs bc;
       let p = (if clst AND 1 \<noteq> 0 then (p AND 0x0f) OR push_bit 4 (ucast val) else ucast val);
       let fs = put_win (\<lambda>w. w[unat (bc mod 512) := p]) fs\<lparr>wflag := True\<rparr>;
       let bc = bc + 1;
       (res, fs) \<leftarrow> move_window v (fatbase fs + bc div 512) fs;
       if res \<noteq> FR_OK then Some (res, fs)
       else do {
         let p = win_byte fs bc;
         let p = (if clst AND 1 \<noteq> 0 then ucast (drop_bit 4 val)
                  else (p AND 0xf0) OR (ucast (drop_bit 8 val) AND 0x0f));
         Some (FR_OK, put_win (\<lambda>w. w[unat (bc mod 512) := p]) fs) } } }"

definition put_fat :: "'k drive \<Rightarrow> u32 \<Rightarrow> u32 \<Rightarrow> 'k FATFS \<Rightarrow> (FRESULT \<times> 'k FATFS) option" where
  "put_fat v clst val fs =
     (if clst < 2 \<or> clst \<ge> n_fatent fs then Some (FR_INT_ERR, fs)
      else do {
        (res, fs) \<leftarrow>
          (case fs_type fs of
             FS_FAT12 \<Rightarrow> put_fat12 v clst val fs
           | FS_FAT16 \<Rightarrow> do {
               (res, fs) \<leftarrow> move_window v (fatbase fs + clst div 256) fs;
               if res \<noteq> FR_OK then Some (res, fs)
               else Some (FR_OK, put_win (ST_WORD (unat (clst * 2 mod 512)) (ucast val)) fs) }
           | FS_FAT32 \<Rightarrow> do {
               (res, fs) \<leftarrow> move_window v (fatbase fs + clst div 128) fs;
               if res \<noteq> FR_OK then Some (res, fs)
               else do {
                 let val = val OR (LD_DWORD (win fs) (unat (clst * 4 mod 512)) AND 0xf0000000);
                 Some (FR_OK, put_win (ST_DWORD (unat (clst * 4 mod 512)) val) fs) } }
           | FS_NONE \<Rightarrow> Some (FR_INT_ERR, fs));
        Some (res, fs\<lparr>wflag := True\<rparr>) })"

subsection \<open>Cluster chains\<close>

partial_function (option) remove_loop :: "'k drive \<Rightarrow> u32 \<Rightarrow> 'k FATFS \<Rightarrow> (FRESULT \<times> 'k FATFS) option" where
  "remove_loop v clst fs =
     (if clst < n_fatent fs then do {
        (nxt, fs) \<leftarrow> get_fat v clst fs;
        if nxt = 0 then Some (FR_OK, fs)
        else if nxt = 1 then Some (FR_INT_ERR, fs)
        else if nxt = 0xffffffff then Some (FR_DISK_ERR, fs)
        else do {
          (res, fs) \<leftarrow> put_fat v clst 0 fs;
          if res \<noteq> FR_OK then Some (res, fs)
          else do {
            let fs = (if free_clust fs \<noteq> 0xffffffff then fs\<lparr>free_clust := free_clust fs + 1, fsi_flag := True\<rparr> else fs);
            remove_loop v nxt fs } } }
      else Some (FR_OK, fs))"

definition remove_chain :: "'k drive \<Rightarrow> u32 \<Rightarrow> 'k FATFS \<Rightarrow> (FRESULT \<times> 'k FATFS) option" where
  "remove_chain v clst fs =
     (if clst < 2 \<or> clst \<ge> n_fatent fs then Some (FR_INT_ERR, fs) else remove_loop v clst fs)"

text \<open>
  The search for a free cluster from \<open>ncl\<close> on, back to \<open>scl\<close>: the cluster found, or the value the
  caller returns when there is none.
\<close>

partial_function (option) find_free :: "'k drive \<Rightarrow> u32 \<Rightarrow> u32 \<Rightarrow> 'k FATFS \<Rightarrow> ((u32 + u32) \<times> 'k FATFS) option" where
  "find_free v scl ncl fs =
     (let ncl = ncl + 1;
          wrap = (ncl \<ge> n_fatent fs);
          ncl = (if wrap then 2 else ncl)
      in if wrap \<and> ncl > scl then Some (Inl 0, fs)
      else do {
        (cs, fs) \<leftarrow> get_fat v ncl fs;
        if cs = 0 then Some (Inr ncl, fs)
        else if cs = 0xffffffff \<or> cs = 1 then Some (Inl cs, fs)
        else if ncl = scl then Some (Inl 0, fs)
        else find_free v scl ncl fs })"

definition link_new :: "'k drive \<Rightarrow> u32 \<Rightarrow> u32 \<Rightarrow> 'k FATFS \<Rightarrow> (u32 \<times> 'k FATFS) option" where
  "link_new v clst ncl fs = do {
     (res, fs) \<leftarrow> put_fat v ncl 0x0fffffff fs;
     (res, fs) \<leftarrow> (if res = FR_OK \<and> clst \<noteq> 0 then put_fat v clst ncl fs else Some (res, fs));
     if res = FR_OK then do {
       let fs = fs\<lparr>last_clust := ncl\<rparr>;
       let fs = (if free_clust fs \<noteq> 0xffffffff then fs\<lparr>free_clust := free_clust fs - 1, fsi_flag := True\<rparr> else fs);
       Some (ncl, fs) }
     else Some (if res = FR_DISK_ERR then 0xffffffff else 1, fs) }"

definition create_chain :: "'k drive \<Rightarrow> u32 \<Rightarrow> 'k FATFS \<Rightarrow> (u32 \<times> 'k FATFS) option" where
  "create_chain v clst fs = do {
     (start, fs) \<leftarrow>
       (if clst = 0 then do {
          let scl = last_clust fs;
          Some (Inr (if scl = 0 \<or> scl \<ge> n_fatent fs then 1 else scl), fs) }
        else do {
          (cs, fs) \<leftarrow> get_fat v clst fs;
          Some (if cs < 2 then Inl 1 else if cs < n_fatent fs then Inl cs else Inr clst, fs) });
     case start of
       Inl r \<Rightarrow> Some (r, fs)
     | Inr scl \<Rightarrow> do {
         (r, fs) \<leftarrow> find_free v scl scl fs;
         case r of Inl r \<Rightarrow> Some (r, fs) | Inr ncl \<Rightarrow> link_new v clst ncl fs } }"

end
