(* ===== verification/Fat_Table.thy ===== *)
theory Fat_Table
  imports Ff_Fat
begin

text \<open>
  The allocation table as the code packs it into bytes, and the proof that the window functions
  and \<open>get_fat\<close>/\<open>put_fat\<close> implement a plain function from cluster numbers to entries, on a drive
  that stores sectors.
\<close>

subsection \<open>Entries in bytes\<close>

definition fat_entry :: "fat_type \<Rightarrow> (nat \<Rightarrow> u8) \<Rightarrow> nat \<Rightarrow> u32" where
  "fat_entry ty f c = (case ty of
     FS_FAT12 \<Rightarrow> (let w = ucast (f (c + c div 2)) OR push_bit 8 (ucast (f (c + c div 2 + 1)))
                  in if odd c then drop_bit 4 w else w AND 0xfff)
   | FS_FAT16 \<Rightarrow> ucast (f (2 * c)) OR push_bit 8 (ucast (f (2 * c + 1)))
   | FS_FAT32 \<Rightarrow> (ucast (f (4 * c)) OR push_bit 8 (ucast (f (4 * c + 1))) OR
        push_bit 16 (ucast (f (4 * c + 2))) OR push_bit 24 (ucast (f (4 * c + 3)))) AND 0x0fffffff
   | FS_NONE \<Rightarrow> 0)"

definition fat_store :: "fat_type \<Rightarrow> (nat \<Rightarrow> u8) \<Rightarrow> nat \<Rightarrow> u32 \<Rightarrow> nat \<Rightarrow> u8" where
  "fat_store ty f c val = (case ty of
     FS_FAT12 \<Rightarrow> (let o1 = c + c div 2 in
        if odd c then f(o1 := (f o1 AND 0x0f) OR push_bit 4 (ucast val), o1 + 1 := ucast (drop_bit 4 val))
        else f(o1 := ucast val, o1 + 1 := (f (o1 + 1) AND 0xf0) OR (ucast (drop_bit 8 val) AND 0x0f)))
   | FS_FAT16 \<Rightarrow> f(2 * c := ucast val, 2 * c + 1 := ucast (drop_bit 8 val))
   | FS_FAT32 \<Rightarrow> f(4 * c := ucast val, 4 * c + 1 := ucast (drop_bit 8 val), 4 * c + 2 := ucast (drop_bit 16 val),
        4 * c + 3 := (f (4 * c + 3) AND 0xf0) OR ucast (drop_bit 24 val))
   | FS_NONE \<Rightarrow> f)"

definition fat_trunc :: "fat_type \<Rightarrow> u32 \<Rightarrow> u32" where
  "fat_trunc ty val = (case ty of FS_FAT12 \<Rightarrow> val AND 0xfff | FS_FAT16 \<Rightarrow> val AND 0xffff
     | FS_FAT32 \<Rightarrow> val AND 0x0fffffff | FS_NONE \<Rightarrow> 0)"

lemma word_masks:
  "(0xfff :: 'a::len word) = mask 12" "(0xffff :: 'a::len word) = mask 16" "(0x0fffffff :: 'a::len word) = mask 28"
  "(0x0f :: 'a::len word) = mask 4"
  by (simp_all add: mask_eq_exp_minus_1)

lemma f0_mask: "(0xf0 :: u8) = NOT (mask 4)"
  by (simp add: mask_eq_exp_minus_1)

lemma fat_entry_same:
  assumes "ty \<noteq> FS_NONE"
  shows "fat_entry ty (fat_store ty f c val) c = fat_trunc ty val"
proof (rule bit_word_eqI)
  fix n assume n: "n < LENGTH(32)"
  then show "bit (fat_entry ty (fat_store ty f c val) c) n \<longleftrightarrow> bit (fat_trunc ty val) n"
    using assms
    by (cases ty; cases "n < 24"; cases "n < 16") (auto simp: fat_entry_def fat_store_def fat_trunc_def Let_def word_masks f0_mask bit_simps)
qed

lemma fat12_even:
  "fat_entry FS_FAT12 f (2 * k) = (ucast (f (3 * k)) OR push_bit 8 (ucast (f (3 * k + 1)))) AND 0xfff"
  "fat_store FS_FAT12 f (2 * k) val =
     f(3 * k := ucast val, 3 * k + 1 := (f (3 * k + 1) AND 0xf0) OR (ucast (drop_bit 8 val) AND 0x0f))"
  by (simp_all add: fat_entry_def fat_store_def Let_def)

lemma fat12_odd:
  "fat_entry FS_FAT12 f (2 * k + 1) = drop_bit 4 (ucast (f (3 * k + 1)) OR push_bit 8 (ucast (f (3 * k + 2))))"
  "fat_store FS_FAT12 f (2 * k + 1) val =
     f(3 * k + 1 := (f (3 * k + 1) AND 0x0f) OR push_bit 4 (ucast val), 3 * k + 2 := ucast (drop_bit 4 val))"
proof -
  have "2 * k + 1 + (2 * k + 1) div 2 = 3 * k + 1" by simp
  then show "fat_entry FS_FAT12 f (2 * k + 1) = drop_bit 4 (ucast (f (3 * k + 1)) OR push_bit 8 (ucast (f (3 * k + 2))))"
    "fat_store FS_FAT12 f (2 * k + 1) val =
     f(3 * k + 1 := (f (3 * k + 1) AND 0x0f) OR push_bit 4 (ucast val), 3 * k + 2 := ucast (drop_bit 4 val))"
    by (simp_all add: fat_entry_def fat_store_def Let_def)
qed

lemma thirds_apart: "3 * k + 1 \<noteq> 3 * (j :: nat)" "3 * k \<noteq> 3 * j + 1" "3 * k + 2 \<noteq> 3 * j" "3 * k + 2 \<noteq> 3 * j + 1"
  "3 * k \<noteq> 3 * j + 2" "3 * k + 1 \<noteq> 3 * j + 2"
  by presburger+

lemma nibbles:
  "(ucast (a :: u8) OR push_bit 8 (ucast ((b AND 0x0f) OR push_bit 4 (x :: u8)))) AND 0xfff =
   (ucast a OR push_bit 8 (ucast b)) AND (0xfff :: u32)"
  "drop_bit 4 (ucast ((b AND 0xf0) OR (x AND 0x0f)) OR push_bit 8 (ucast (y :: u8))) =
   drop_bit 4 (ucast b OR push_bit 8 (ucast y) :: u32)"
  by (rule bit_word_eqI, auto simp: word_masks f0_mask bit_simps dest: bit_imp_le_length)+

lemma fat12_other:
  assumes "c \<noteq> c'"
  shows "fat_entry FS_FAT12 (fat_store FS_FAT12 f c val) c' = fat_entry FS_FAT12 f c'"
proof (cases "even c")
  case c: True
  then obtain k where k: "c = 2 * k" by blast
  show ?thesis
  proof (cases "even c'")
    case True
    then obtain j where "c' = 2 * j" by blast
    with k assms show ?thesis by (simp only: fat12_even) (simp add: thirds_apart)
  next
    case False
    then obtain j where "c' = 2 * j + 1" by (elim oddE)
    with k show ?thesis
      by (cases "j = k") (simp_all only: fat12_even fat12_odd, simp_all add: thirds_apart nibbles del: drop_bit_or)
  qed
next
  case c: False
  then obtain k where k: "c = 2 * k + 1" by (elim oddE)
  show ?thesis
  proof (cases "even c'")
    case True
    then obtain j where "c' = 2 * j" by blast
    with k show ?thesis
      by (cases "j = k") (simp_all only: fat12_even fat12_odd, simp_all add: thirds_apart nibbles del: drop_bit_or)
  next
    case False
    then obtain j where "c' = 2 * j + 1" by (elim oddE)
    with k assms show ?thesis by (simp only: fat12_odd) (simp add: thirds_apart)
  qed
qed

lemma fat_entry_other:
  assumes "c \<noteq> c'"
  shows "fat_entry ty (fat_store ty f c val) c' = fat_entry ty f c'"
proof (cases ty)
  case FS_FAT12
  with fat12_other [OF assms] show ?thesis by simp
next
  case FS_FAT16
  have "2 * c + 1 \<noteq> 2 * c'" "2 * c \<noteq> 2 * c' + 1" by presburger+
  with assms FS_FAT16 show ?thesis by (simp add: fat_entry_def fat_store_def)
next
  case FS_FAT32
  have ne: "4 * c + i \<noteq> 4 * c' + j" if "i < 4" "j < 4" for i j using assms that by presburger
  have "fat_store FS_FAT32 f c val (4 * c' + j) = f (4 * c' + j)" if "j < 4" for j
    using ne [of 0 j] ne [of 1 j] ne [of 2 j] ne [of 3 j] that by (simp add: fat_store_def)
  from this [of 0] this [of 1] this [of 2] this [of 3] FS_FAT32 show ?thesis
    by (simp add: fat_entry_def)
qed (simp add: fat_entry_def fat_store_def)

subsection \<open>A drive that stores sectors\<close>

text \<open>
  What the window functions rely on: in the states \<open>st_ok\<close> the sectors \<open>st_set\<close> of drive 0 can be
  read and written, one at a time, and hold what was written last.
\<close>

record 'k store =
  st_ok :: "'k \<Rightarrow> bool"
  st_sec :: "'k \<Rightarrow> u32 \<Rightarrow> u8 list"
  st_set :: "u32 set"

definition stores :: "'k drive \<Rightarrow> 'k store \<Rightarrow> bool" where
  "stores v D \<longleftrightarrow>
     (\<forall>k s. st_ok D k \<longrightarrow> s \<in> st_set D \<longrightarrow> length (st_sec D k s) = 512 \<and>
        (\<exists>k'. dk_read v 0 s 1 k = Some ((RES_OK, st_sec D k s), k') \<and> st_ok D k' \<and> st_sec D k' = st_sec D k)) \<and>
     (\<forall>k s b. st_ok D k \<longrightarrow> s \<in> st_set D \<longrightarrow> length b = 512 \<longrightarrow>
        (\<exists>k'. dk_write v 0 b s 1 k = Some (RES_OK, k') \<and> st_ok D k' \<and> st_sec D k' = (st_sec D k)(s := b)))"

lemma stores_read:
  assumes "stores v D" "st_ok D k" "s \<in> st_set D"
  obtains k' where "dk_read v 0 s 1 k = Some ((RES_OK, st_sec D k s), k')" "st_ok D k'" "st_sec D k' = st_sec D k"
    "length (st_sec D k s) = 512"
  using assms unfolding stores_def by blast

lemma stores_write:
  assumes "stores v D" "st_ok D k" "s \<in> st_set D" "length b = 512"
  obtains k' where "dk_write v 0 b s 1 k = Some (RES_OK, k')" "st_ok D k'" "st_sec D k' = (st_sec D k)(s := b)"
  using assms unfolding stores_def by blast

subsection \<open>The window\<close>

definition geometry :: "'k FATFS \<Rightarrow> 'k store \<Rightarrow> bool" where
  "geometry fs D \<longleftrightarrow> drv fs = 0 \<and> n_fats fs \<in> {1, 2} \<and> 0 < fatbase fs \<and>
     unat (fatbase fs) + 2 * unat (fsize fs) < 2 ^ 32 \<and>
     (\<forall>s. fatbase fs \<le> s \<longrightarrow> unat s < unat (fatbase fs) + unat (n_fats fs) * unat (fsize fs) \<longrightarrow> s \<in> st_set D)"

text \<open>The second copy of the table.\<close>

definition in_mirror :: "'k FATFS \<Rightarrow> u32 \<Rightarrow> bool" where
  "in_mirror fs s \<longleftrightarrow> unat (fatbase fs) + unat (fsize fs) \<le> unat s \<and> unat s < unat (fatbase fs) + 2 * unat (fsize fs) \<and>
     n_fats fs = 2"

definition win_inv :: "'k store \<Rightarrow> 'k FATFS \<Rightarrow> bool" where
  "win_inv D fs \<longleftrightarrow> geometry fs D \<and> st_ok D (media fs) \<and> length (win fs) = 512 \<and>
     (wflag fs \<longrightarrow> winsect fs \<in> st_set D \<and> fatbase fs \<le> winsect fs \<and> \<not> in_mirror fs (winsect fs)) \<and>
     (\<not> wflag fs \<longrightarrow> winsect fs \<noteq> 0 \<longrightarrow> win fs = st_sec D (media fs) (winsect fs))"

text \<open>The sector as the file system sees it: the window first, the drive behind it.\<close>

definition view :: "'k store \<Rightarrow> 'k FATFS \<Rightarrow> u32 \<Rightarrow> u8 list" where
  "view D fs s = (if s = winsect fs \<and> s \<noteq> 0 then win fs else st_sec D (media fs) s)"

text \<open>What no access of the window changes.\<close>

definition fs_frame :: "'k FATFS \<Rightarrow> 'k FATFS \<Rightarrow> bool" where
  "fs_frame fs fs' \<longleftrightarrow> fs' = fs\<lparr>wflag := wflag fs', winsect := winsect fs', win := win fs', media := media fs'\<rparr>"

lemma fsframe_refl [simp]: "fs_frame fs fs" by (simp add: fs_frame_def)
lemma fsframe_trans: "fs_frame fs fs1 \<Longrightarrow> fs_frame fs1 fs2 \<Longrightarrow> fs_frame fs fs2"
  by (cases fs; cases fs1; cases fs2) (simp add: fs_frame_def)
lemma fsframe_fields:
  assumes "fs_frame fs fs'"
  shows "fs_type fs' = fs_type fs" "drv fs' = drv fs" "csize fs' = csize fs" "n_fats fs' = n_fats fs"
    "fs_id fs' = fs_id fs" "n_rootdir fs' = n_rootdir fs" "last_clust fs' = last_clust fs"
    "free_clust fs' = free_clust fs" "cdir fs' = cdir fs" "n_fatent fs' = n_fatent fs" "fsize fs' = fsize fs"
    "fatbase fs' = fatbase fs" "dirbase fs' = dirbase fs" "database fs' = database fs" "fsi_flag fs' = fsi_flag fs"
    "fsi_sector fs' = fsi_sector fs"
  using assms by (cases fs; cases fs'; simp add: fs_frame_def)+

lemma in_mirror_frame: "fs_frame fs fs' \<Longrightarrow> in_mirror fs' = in_mirror fs"
  by (simp add: in_mirror_def fsframe_fields fun_eq_iff)

lemma geometry_frame: "fs_frame fs fs' \<Longrightarrow> geometry fs' D = geometry fs D"
  by (simp add: geometry_def fsframe_fields)

lemma write_back_ok:
  assumes D: "stores v D" and inv: "win_inv D fs"
  shows "\<exists>fs'. write_back v fs = Some (FR_OK, fs') \<and> win_inv D fs' \<and> fs_frame fs fs' \<and> \<not> wflag fs' \<and>
    winsect fs' = winsect fs \<and> win fs' = win fs \<and>
    (\<forall>s. \<not> in_mirror fs s \<longrightarrow> view D fs' s = view D fs s)"
proof (cases "wflag fs")
  case False
  with inv show ?thesis by (auto simp: write_back_def)
next
  case True
  let ?w = "winsect fs"
  have g: "drv fs = 0" and w: "?w \<in> st_set D" "fatbase fs \<le> ?w" "\<not> in_mirror fs ?w" and l: "length (win fs) = 512"
    and ok: "st_ok D (media fs)"
    using inv True by (auto simp: win_inv_def geometry_def)
  obtain k1 where k1: "dk_write v 0 (win fs) ?w 1 (media fs) = Some (RES_OK, k1)" "st_ok D k1"
    "st_sec D k1 = (st_sec D (media fs))(?w := win fs)"
    by (rule stores_write [OF D ok w(1) l])
  let ?fs1 = "fs\<lparr>media := k1, wflag := False\<rparr>"
  have nz: "?w \<noteq> 0" using w(2) inv by (auto simp: win_inv_def geometry_def)
  show ?thesis
  proof (cases "?w < fatbase fs + fsize fs \<and> n_fats fs = 2")
    case False
    then have "write_back v fs = Some (FR_OK, ?fs1)"
      using True k1(1) g inv by (auto simp: write_back_def Let_def win_inv_def geometry_def)
    with k1 True inv nz show ?thesis
      by (auto simp: win_inv_def geometry_def in_mirror_def view_def fs_frame_def)
  next
    case in_fat: True
    let ?m = "?w + fsize fs"
    have nowrap: "unat (fatbase fs + fsize fs) = unat (fatbase fs) + unat (fsize fs)"
      using inv by (intro unat_add_lem [THEN iffD1]) (auto simp: win_inv_def geometry_def)
    have wlt: "unat ?w < unat (fatbase fs) + unat (fsize fs)"
      using in_fat nowrap by (simp add: word_less_nat_alt)
    have um: "unat ?m = unat ?w + unat (fsize fs)"
      using inv wlt by (intro unat_add_lem [THEN iffD1]) (auto simp: win_inv_def geometry_def)
    have m: "?m \<in> st_set D" "in_mirror fs ?m"
      using inv in_fat um wlt w(2) by (auto simp: win_inv_def geometry_def in_mirror_def word_le_nat_alt)
    obtain k2 where k2: "dk_write v 0 (win fs) ?m 1 k1 = Some (RES_OK, k2)" "st_ok D k2"
      "st_sec D k2 = (st_sec D k1)(?m := win fs)"
      by (rule stores_write [OF D k1(2) m(1) l])
    let ?fs2 = "fs\<lparr>media := k2, wflag := False\<rparr>"
    have "write_back v fs = Some (FR_OK, ?fs2)"
      using True k1(1) k2(1) g in_fat by (simp add: write_back_def)
    moreover have "?m \<noteq> ?w" using m(2) w(3) by auto
    ultimately show ?thesis
      using k1 k2 True inv nz m(2) by (auto simp: win_inv_def geometry_def in_mirror_def view_def fs_frame_def)
  qed
qed

lemma move_window_ok:
  assumes D: "stores v D" and inv: "win_inv D fs" and s: "sector = 0 \<or> sector \<in> st_set D"
    and m: "\<not> in_mirror fs sector"
  shows "\<exists>fs'. move_window v sector fs = Some (FR_OK, fs') \<and> win_inv D fs' \<and> fs_frame fs fs' \<and>
    (sector \<noteq> 0 \<longrightarrow> winsect fs' = sector) \<and> (sector = 0 \<longrightarrow> winsect fs' = winsect fs \<and> win fs' = win fs) \<and>
    (\<forall>s. \<not> in_mirror fs s \<longrightarrow> view D fs' s = view D fs s)"
proof (cases "winsect fs = sector")
  case True
  with inv show ?thesis by (auto simp: move_window_def)
next
  case False
  from write_back_ok [OF D inv] obtain fs1 where fs1: "write_back v fs = Some (FR_OK, fs1)" "win_inv D fs1" "fs_frame fs fs1"
    "\<not> wflag fs1" "winsect fs1 = winsect fs" "win fs1 = win fs" "\<forall>s. \<not> in_mirror fs s \<longrightarrow> view D fs1 s = view D fs s"
    by blast
  show ?thesis
  proof (cases "sector = 0")
    case True
    with False fs1 show ?thesis by (auto simp: move_window_def)
  next
    case nz: False
    with s have s: "sector \<in> st_set D" by simp
    have ok: "st_ok D (media fs1)" and g: "drv fs1 = 0" using fs1(2) by (auto simp: win_inv_def geometry_def)
    obtain k where k: "dk_read v 0 sector 1 (media fs1) = Some ((RES_OK, st_sec D (media fs1) sector), k)"
      "st_ok D k" "st_sec D k = st_sec D (media fs1)" "length (st_sec D (media fs1) sector) = 512"
      by (rule stores_read [OF D ok s])
    let ?fs2 = "fs1\<lparr>media := k, win := st_sec D k sector, winsect := sector\<rparr>"
    have "length (win fs1) = 512" using fs1(2) by (simp add: win_inv_def)
    then have "move_window v sector fs = Some (FR_OK, ?fs2)"
      using False nz fs1(1) k g by (simp add: move_window_def load_win_def mem_cpy_def)
    moreover have fr: "fs_frame fs1 ?fs2" by (simp add: fs_frame_def)
    moreover have "win_inv D ?fs2"
      using fs1(2,4) k by (auto simp: win_inv_def geometry_def)
    moreover have "view D ?fs2 s = view D fs1 s" for s
      using fs1(2,4) k by (auto simp: view_def win_inv_def)
    ultimately show ?thesis using fs1(3,7) nz fsframe_trans by fastforce
  qed
qed

subsection \<open>The table behind the window\<close>

text \<open>The number of bytes the entries take, as \<open>chk_mounted\<close> computes it.\<close>

definition fat_bytes :: "fat_type \<Rightarrow> nat \<Rightarrow> nat" where
  "fat_bytes ty n = (case ty of FS_FAT12 \<Rightarrow> n * 3 div 2 + n mod 2 | FS_FAT16 \<Rightarrow> 2 * n | FS_FAT32 \<Rightarrow> 4 * n | FS_NONE \<Rightarrow> 0)"

definition fat_inv :: "'k store \<Rightarrow> 'k FATFS \<Rightarrow> bool" where
  "fat_inv D fs \<longleftrightarrow> win_inv D fs \<and> fs_type fs \<noteq> FS_NONE \<and>
     fat_bytes (fs_type fs) (unat (n_fatent fs)) \<le> 512 * unat (fsize fs) \<and>
     n_fatent fs \<le> fat_trunc (fs_type fs) 0x0fffffff"

definition fat_sect :: "'k FATFS \<Rightarrow> nat \<Rightarrow> u32" where
  "fat_sect fs i = fatbase fs + of_nat (i div 512)"

definition fat_byte :: "'k store \<Rightarrow> 'k FATFS \<Rightarrow> nat \<Rightarrow> u8" where
  "fat_byte D fs i = view D fs (fat_sect fs i) ! (i mod 512)"

definition fat_of :: "'k store \<Rightarrow> 'k FATFS \<Rightarrow> u32 \<Rightarrow> u32" where
  "fat_of D fs c = fat_entry (fs_type fs) (fat_byte D fs) (unat c)"

lemma fat_sect_unat:
  assumes "geometry fs D" "i < 512 * unat (fsize fs)"
  shows "unat (fat_sect fs i) = unat (fatbase fs) + i div 512"
proof -
  have "i div 512 < unat (fsize fs)" using assms(2) by (simp add: less_mult_imp_div_less mult.commute)
  with assms(1) have "unat (fatbase fs) + i div 512 < 2 ^ 32" by (simp add: geometry_def)
  then show ?thesis by (simp add: fat_sect_def unat_word_ariths unat_of_nat)
qed

lemma fat_sect_ok:
  assumes "geometry fs D" "i < 512 * unat (fsize fs)"
  shows "fat_sect fs i \<in> st_set D" "\<not> in_mirror fs (fat_sect fs i)" "fatbase fs \<le> fat_sect fs i" "fat_sect fs i \<noteq> 0"
proof -
  note u = fat_sect_unat [OF assms]
  have lt: "i div 512 < unat (fsize fs)" using assms(2) by (simp add: less_mult_imp_div_less mult.commute)
  show le: "fatbase fs \<le> fat_sect fs i" using u by (simp add: word_le_nat_alt)
  show "\<not> in_mirror fs (fat_sect fs i)" using u lt by (simp add: in_mirror_def)
  have "unat (fsize fs) \<le> unat (n_fats fs) * unat (fsize fs)" using assms(1) by (auto simp: geometry_def)
  with u lt have "unat (fat_sect fs i) < unat (fatbase fs) + unat (n_fats fs) * unat (fsize fs)" by linarith
  with le assms(1) show "fat_sect fs i \<in> st_set D" by (simp add: geometry_def)
  show "fat_sect fs i \<noteq> 0" using le assms(1) by (auto simp: geometry_def)
qed

lemma fat_sect_frame: "fs_frame fs fs' \<Longrightarrow> fat_sect fs' = fat_sect fs"
  by (simp add: fat_sect_def fsframe_fields fun_eq_iff)

lemma fat_inv_frame: "fs_frame fs fs' \<Longrightarrow> win_inv D fs' \<Longrightarrow> fat_inv D fs \<Longrightarrow> fat_inv D fs'"
  by (simp add: fat_inv_def fsframe_fields)

text \<open>Moving the window to a byte of the table.\<close>

lemma move_fat:
  assumes D: "stores v D" and inv: "fat_inv D fs" and i: "i < 512 * unat (fsize fs)"
  shows "\<exists>fs'. move_window v (fat_sect fs i) fs = Some (FR_OK, fs') \<and> fat_inv D fs' \<and> fs_frame fs fs' \<and>
    winsect fs' = fat_sect fs i \<and> (\<forall>s. \<not> in_mirror fs s \<longrightarrow> view D fs' s = view D fs s) \<and>
    (\<forall>j<512 * unat (fsize fs). fat_byte D fs' j = fat_byte D fs j) \<and>
    (\<forall>j. j div 512 = i div 512 \<longrightarrow> win fs' ! (j mod 512) = fat_byte D fs j)"
proof -
  have g: "geometry fs D" using inv by (simp add: fat_inv_def win_inv_def)
  note sok = fat_sect_ok [OF g]
  from move_window_ok [OF D _ disjI2 [OF sok(1) [OF i]] sok(2) [OF i]] inv
  obtain fs' where m: "move_window v (fat_sect fs i) fs = Some (FR_OK, fs')" "win_inv D fs'" "fs_frame fs fs'"
    "winsect fs' = fat_sect fs i" "\<forall>s. \<not> in_mirror fs s \<longrightarrow> view D fs' s = view D fs s"
    using sok(4) [OF i] by (auto simp: fat_inv_def)
  have b: "fat_byte D fs' j = fat_byte D fs j" if "j < 512 * unat (fsize fs)" for j
    using m(3,5) sok(2) [OF that] by (simp add: fat_byte_def fat_sect_frame)
  have w: "win fs' ! (j mod 512) = fat_byte D fs j" if "j div 512 = i div 512" for j
  proof -
    have e: "fat_sect fs j = fat_sect fs i" using that by (simp add: fat_sect_def)
    then have "view D fs' (fat_sect fs j) = win fs'" using m(4) sok(4) [OF i] by (simp add: view_def)
    moreover have "view D fs' (fat_sect fs j) = view D fs (fat_sect fs j)" using m(5) e sok(2) [OF i] by simp
    ultimately show ?thesis by (simp add: fat_byte_def)
  qed
  show ?thesis using m b w fat_inv_frame [OF m(3,2) inv] by blast
qed

lemma of_nat_div: "(of_nat (unat (c :: u32) div n) :: u32) = c div of_nat n" if "n < 2 ^ 32"
proof -
  have "unat c div n < 2 ^ 32" using le_less_trans [OF div_le_dividend unsigned_less [of c]] by simp
  with that show ?thesis by (simp add: word_unat_eq_iff unat_div unat_of_nat)
qed

lemma fat_offset16:
  "fat_sect fs (2 * unat c) = fatbase fs + c div 256" "unat (c * 2 mod 512) = 2 * unat c mod 512"
  by (simp_all add: fat_sect_def of_nat_div [of 256, simplified, symmetric] unat_mod unat_word_ariths mod_mod_cancel mult.commute)

lemma fat_offset32:
  "fat_sect fs (4 * unat c) = fatbase fs + c div 128" "unat (c * 4 mod 512) = 4 * unat c mod 512"
  by (simp_all add: fat_sect_def of_nat_div [of 128, simplified, symmetric] unat_mod unat_word_ariths mod_mod_cancel mult.commute)

lemma fat_offset12:
  fixes c :: u32
  assumes "unat c + unat c div 2 + 1 < 2 ^ 32"
  shows "unat (c + c div 2) = unat c + unat c div 2" "unat (c + c div 2 + 1) = unat c + unat c div 2 + 1"
proof -
  show 1: "unat (c + c div 2) = unat c + unat c div 2"
    using assms by (subst unat_add_lem [THEN iffD1]) (simp_all add: unat_div)
  show "unat (c + c div 2 + 1) = unat c + unat c div 2 + 1"
    using assms by (subst unat_add_lem [THEN iffD1]) (simp_all add: 1)
qed

lemma fat_sect_word: "fatbase fs + bc div 512 = fat_sect fs (unat bc)"
  using of_nat_div [of 512 bc] by (simp add: fat_sect_def)

lemma win_byte_word: "win_byte fs bc = win fs ! (unat bc mod 512)"
  by (simp add: win_byte_def unat_mod)

lemma fat12_fits:
  assumes "c < (n :: nat)"
  shows "c + c div 2 + 1 < n * 3 div 2 + n mod 2"
proof (cases "even n")
  case True
  then obtain m where "n = 2 * m" by blast
  moreover from this have "c div 2 \<le> m - 1" using assms by (simp add: div_le_mono)
  ultimately show ?thesis using assms by simp
next
  case False
  then obtain m where "n = 2 * m + 1" by (elim oddE)
  moreover from this have "c div 2 \<le> m" using assms by (simp add: div_le_mono)
  ultimately show ?thesis using assms by simp
qed

lemma div_mod_step:
  assumes "m mod n + k < (n :: nat)"
  shows "(m + k) div n = m div n" "(m + k) mod n = m mod n + k"
proof -
  have e: "m + k = (m mod n + k) + n * (m div n)" by simp
  have "(m + k) div n = m div n + (m mod n + k) div n" by (subst e) (rule div_mult_self2, use assms in simp)
  with assms show "(m + k) div n = m div n" by simp
  have "(m + k) mod n = (m mod n + k) mod n" by (subst e) (rule mod_mult_self2)
  with assms show "(m + k) mod n = m mod n + k" by simp
qed

lemma entry_in_sector:
  "i < 2 \<Longrightarrow> (2 * c + i) div 512 = 2 * c div 512" "i < 2 \<Longrightarrow> (2 * c + i) mod 512 = 2 * c mod 512 + i"
  "i < 4 \<Longrightarrow> (4 * c + i) div 512 = 4 * c div 512" "i < 4 \<Longrightarrow> (4 * c + i) mod 512 = 4 * c mod (512 :: nat) + i"
proof -
  have "2 * c mod 512 = 2 * (c mod 256)" "4 * c mod 512 = 4 * (c mod 128)"
    using mod_mult_mult1 [of 2 c 256] mod_mult_mult1 [of 4 c 128] by simp_all
  moreover have "c mod 256 < 256" "c mod 128 < 128" by simp_all
  ultimately have "i < 2 \<Longrightarrow> 2 * c mod 512 + i < 512" "i < 4 \<Longrightarrow> 4 * c mod 512 + i < 512" by linarith+
  then show "i < 2 \<Longrightarrow> (2 * c + i) div 512 = 2 * c div 512" "i < 2 \<Longrightarrow> (2 * c + i) mod 512 = 2 * c mod 512 + i"
    "i < 4 \<Longrightarrow> (4 * c + i) div 512 = 4 * c div 512" "i < 4 \<Longrightarrow> (4 * c + i) mod 512 = 4 * c mod 512 + i"
    by (simp_all only: div_mod_step)
qed

lemma fat_bytes_bound:
  assumes "fat_inv D fs" "c < n_fatent fs"
  shows "fs_type fs = FS_FAT12 \<Longrightarrow> unat c + unat c div 2 + 1 < 512 * unat (fsize fs)"
    "fs_type fs = FS_FAT16 \<Longrightarrow> 2 * unat c + 1 < 512 * unat (fsize fs)"
    "fs_type fs = FS_FAT32 \<Longrightarrow> 4 * unat c + 3 < 512 * unat (fsize fs)"
proof -
  have lt: "unat c < unat (n_fatent fs)" using assms(2) by (simp add: word_less_nat_alt)
  have le: "fat_bytes (fs_type fs) (unat (n_fatent fs)) \<le> 512 * unat (fsize fs)" using assms(1) by (simp add: fat_inv_def)
  from fat12_fits [OF lt] le show "fs_type fs = FS_FAT12 \<Longrightarrow> unat c + unat c div 2 + 1 < 512 * unat (fsize fs)"
    by (simp add: fat_bytes_def)
  show "fs_type fs = FS_FAT16 \<Longrightarrow> 2 * unat c + 1 < 512 * unat (fsize fs)"
    "fs_type fs = FS_FAT32 \<Longrightarrow> 4 * unat c + 3 < 512 * unat (fsize fs)"
    using lt le by (simp_all add: fat_bytes_def)
qed

lemma in_range: "2 \<le> c \<Longrightarrow> c < (n :: u32) \<Longrightarrow> (c < 2 \<or> n \<le> c) = False"
  by auto

lemma ucast_LD_WORD: "(ucast (LD_WORD p i) :: u32) = ucast (p ! i) OR push_bit 8 (ucast (p ! (i + 1)))"
  by (rule bit_word_eqI) (auto simp: LD_WORD_def bit_simps dest: bit_imp_le_length)

lemma get_fat16_ok:
  assumes D: "stores v D" and inv: "fat_inv D fs" and ty: "fs_type fs = FS_FAT16" and c: "2 \<le> c" "c < n_fatent fs"
  shows "\<exists>fs'. get_fat v c fs = Some (fat_of D fs c, fs') \<and> fat_inv D fs' \<and> fs_frame fs fs' \<and>
    (\<forall>s. \<not> in_mirror fs s \<longrightarrow> view D fs' s = view D fs s)"
proof -
  have i: "2 * unat c < 512 * unat (fsize fs)" using fat_bytes_bound(2) [OF inv c(2) ty] by simp
  obtain fs' where m: "move_window v (fat_sect fs (2 * unat c)) fs = Some (FR_OK, fs')" "fat_inv D fs'" "fs_frame fs fs'"
    "\<forall>s. \<not> in_mirror fs s \<longrightarrow> view D fs' s = view D fs s"
    "\<forall>j. j div 512 = 2 * unat c div 512 \<longrightarrow> win fs' ! (j mod 512) = fat_byte D fs j"
    using move_fat [OF D inv i] by blast
  have w: "win fs' ! (2 * unat c mod 512 + i) = fat_byte D fs (2 * unat c + i)" if "i < 2" for i
    using m(5) [rule_format, of "2 * unat c + i"] entry_in_sector(1,2) [OF that] by simp
  have "get_fat v c fs = Some (ucast (LD_WORD (win fs') (2 * unat c mod 512)), fs')"
    using in_range [OF c] m(1) ty unfolding fat_offset16(1) by (simp add: get_fat_def fat_offset16(2))
  also have "ucast (LD_WORD (win fs') (2 * unat c mod 512)) = fat_of D fs c"
    using w [of 0] w [of 1]
    by (simp add: fat_of_def fat_entry_def ty ucast_LD_WORD)
  finally show ?thesis using m(2-4) by blast
qed

lemma get_fat32_ok:
  assumes D: "stores v D" and inv: "fat_inv D fs" and ty: "fs_type fs = FS_FAT32" and c: "2 \<le> c" "c < n_fatent fs"
  shows "\<exists>fs'. get_fat v c fs = Some (fat_of D fs c, fs') \<and> fat_inv D fs' \<and> fs_frame fs fs' \<and>
    (\<forall>s. \<not> in_mirror fs s \<longrightarrow> view D fs' s = view D fs s)"
proof -
  have i: "4 * unat c < 512 * unat (fsize fs)" using fat_bytes_bound(3) [OF inv c(2) ty] by simp
  obtain fs' where m: "move_window v (fat_sect fs (4 * unat c)) fs = Some (FR_OK, fs')" "fat_inv D fs'" "fs_frame fs fs'"
    "\<forall>s. \<not> in_mirror fs s \<longrightarrow> view D fs' s = view D fs s"
    "\<forall>j. j div 512 = 4 * unat c div 512 \<longrightarrow> win fs' ! (j mod 512) = fat_byte D fs j"
    using move_fat [OF D inv i] by blast
  have w: "win fs' ! (4 * unat c mod 512 + i) = fat_byte D fs (4 * unat c + i)" if "i < 4" for i
    using m(5) [rule_format, of "4 * unat c + i"] entry_in_sector(3,4) [OF that] by simp
  have "get_fat v c fs = Some (LD_DWORD (win fs') (4 * unat c mod 512) AND 0x0fffffff, fs')"
    using in_range [OF c] m(1) ty unfolding fat_offset32(1) by (simp add: get_fat_def fat_offset32(2))
  also have "LD_DWORD (win fs') (4 * unat c mod 512) AND 0x0fffffff = fat_of D fs c"
    using w [of 0] w [of 1] w [of 2] w [of 3]
    by (simp add: fat_of_def fat_entry_def ty LD_DWORD_def ac_simps)
  finally show ?thesis using m(2-4) by blast
qed

lemma even_unat: "even (unat (c :: u32)) \<longleftrightarrow> even c"
  by transfer (simp add: even_nat_iff)

lemma get_fat12_ok:
  assumes D: "stores v D" and inv: "fat_inv D fs" and ty: "fs_type fs = FS_FAT12" and c: "2 \<le> c" "c < n_fatent fs"
  shows "\<exists>fs'. get_fat v c fs = Some (fat_of D fs c, fs') \<and> fat_inv D fs' \<and> fs_frame fs fs' \<and>
    (\<forall>s. \<not> in_mirror fs s \<longrightarrow> view D fs' s = view D fs s)"
proof -
  let ?o = "unat c + unat c div 2"
  have i: "?o + 1 < 512 * unat (fsize fs)" using fat_bytes_bound(1) [OF inv c(2) ty] .
  have "n_fatent fs \<le> 0xfff" using inv ty by (simp add: fat_inv_def fat_trunc_def)
  with c(2) have "unat c < 0xfff" by (simp add: word_less_nat_alt word_le_nat_alt)
  then have n: "?o + 1 < 2 ^ 32" by simp
  note o = fat_offset12 [OF n]
  obtain fs1 where m1: "move_window v (fat_sect fs ?o) fs = Some (FR_OK, fs1)" "fat_inv D fs1" "fs_frame fs fs1"
    "\<forall>s. \<not> in_mirror fs s \<longrightarrow> view D fs1 s = view D fs s" "\<forall>j<512 * unat (fsize fs). fat_byte D fs1 j = fat_byte D fs j"
    "win fs1 ! (?o mod 512) = fat_byte D fs ?o"
    using move_fat [OF D inv, of ?o] i by fastforce
  have i2: "?o + 1 < 512 * unat (fsize fs1)" using i m1(3) by (simp add: fsframe_fields)
  obtain fs2 where m2: "move_window v (fat_sect fs1 (?o + 1)) fs1 = Some (FR_OK, fs2)" "fat_inv D fs2" "fs_frame fs1 fs2"
    "\<forall>s. \<not> in_mirror fs1 s \<longrightarrow> view D fs2 s = view D fs1 s"
    "win fs2 ! ((?o + 1) mod 512) = fat_byte D fs1 (?o + 1)"
    using move_fat [OF D m1(2) i2] by blast
  have b2: "win fs2 ! ((?o + 1) mod 512) = fat_byte D fs (?o + 1)" using m2(5) m1(5) i by simp
  have par: "c AND 1 \<noteq> 0 \<longleftrightarrow> odd (unat c)" by (simp add: bit_0 even_unat)
  have "get_fat v c fs = Some (fat_of D fs c, fs2)"
    using in_range [OF c] ty m1(1) m2(1) b2 m1(6) par
    by (simp add: get_fat_def get_fat12_def Let_def fat_sect_word o win_byte_word fat_of_def fat_entry_def)
  then show ?thesis using m1(3,4) m2(2-4) fsframe_trans in_mirror_frame [OF m1(3)] by auto
qed

lemma get_fat_ok:
  assumes "stores v D" "fat_inv D fs" "2 \<le> c" "c < n_fatent fs"
  shows "\<exists>fs'. get_fat v c fs = Some (fat_of D fs c, fs') \<and> fat_inv D fs' \<and> fs_frame fs fs' \<and>
    (\<forall>s. \<not> in_mirror fs s \<longrightarrow> view D fs' s = view D fs s)"
proof (cases "fs_type fs")
  case FS_NONE
  with assms(2) show ?thesis by (simp add: fat_inv_def)
qed (use assms get_fat12_ok get_fat16_ok get_fat32_ok in blast)+

subsection \<open>Storing\<close>

text \<open>A byte of the table changed in the window.\<close>

definition poke :: "nat \<Rightarrow> u8 \<Rightarrow> 'k FATFS \<Rightarrow> 'k FATFS" where
  "poke i b fs = fs\<lparr>win := (win fs)[i mod 512 := b], wflag := True\<rparr>"

lemma fat_sect_inj:
  assumes "geometry fs D" "i < 512 * unat (fsize fs)" "j < 512 * unat (fsize fs)"
  shows "fat_sect fs i = fat_sect fs j \<longleftrightarrow> i div 512 = j div 512"
proof
  assume "fat_sect fs i = fat_sect fs j"
  with fat_sect_unat [OF assms(1,2)] fat_sect_unat [OF assms(1,3)] show "i div 512 = j div 512" by (metis add_left_cancel)
qed (simp add: fat_sect_def)

lemma poke_ok:
  assumes inv: "fat_inv D fs" and w: "winsect fs = fat_sect fs i" and i: "i < 512 * unat (fsize fs)"
  shows "fat_inv D (poke i b fs)" "fs_frame fs (poke i b fs)" "winsect (poke i b fs) = winsect fs"
    "j < 512 * unat (fsize fs) \<Longrightarrow> fat_byte D (poke i b fs) j = (if j = i then b else fat_byte D fs j)"
    "s \<noteq> fat_sect fs i \<Longrightarrow> view D (poke i b fs) s = view D fs s"
proof -
  have g: "geometry fs D" and l: "length (win fs) = 512" using inv by (auto simp: fat_inv_def win_inv_def)
  note so = fat_sect_ok [OF g i]
  show fr: "fs_frame fs (poke i b fs)" by (simp add: fs_frame_def poke_def)
  show "winsect (poke i b fs) = winsect fs" by (simp add: poke_def)
  have "win_inv D (poke i b fs)"
    using inv so w by (simp add: fat_inv_def win_inv_def geometry_frame [OF fr] in_mirror_frame [OF fr])
      (simp add: poke_def)
  then show "fat_inv D (poke i b fs)" using fat_inv_frame [OF fr _ inv] by blast
  show v: "s \<noteq> fat_sect fs i \<Longrightarrow> view D (poke i b fs) s = view D fs s" for s
    using w by (simp add: view_def poke_def)
  show "fat_byte D (poke i b fs) j = (if j = i then b else fat_byte D fs j)" if j: "j < 512 * unat (fsize fs)"
  proof (cases "j div 512 = i div 512")
    case True
    then have s: "fat_sect fs j = fat_sect fs i" by (simp add: fat_sect_def)
    have e: "j mod 512 = i mod 512 \<longleftrightarrow> j = i" using True by (metis div_mult_mod_eq)
    show ?thesis
      using s e l so(4) w by (simp add: fat_byte_def fat_sect_frame [OF fr] view_def) (auto simp: poke_def nth_list_update)
  next
    case False
    then have "fat_sect fs j \<noteq> fat_sect fs i" "j \<noteq> i" using fat_sect_inj [OF g j i] by auto
    then show ?thesis by (simp add: fat_byte_def fat_sect_frame [OF fr] v)
  qed
qed

lemma pokes16:
  assumes "i mod 512 + 1 < 512"
  shows "(put_win (ST_WORD (i mod 512) val) fs)\<lparr>wflag := True\<rparr> = poke (i + 1) (ucast (drop_bit 8 val)) (poke i (ucast val) fs)"
  using div_mod_step(2) [OF assms] by (cases fs) (simp add: poke_def put_win_def ST_WORD_def)

lemma pokes32:
  assumes "i mod 512 + 3 < 512"
  shows "(put_win (ST_DWORD (i mod 512) val) fs)\<lparr>wflag := True\<rparr> =
    poke (i + 3) (ucast (drop_bit 24 val)) (poke (i + 2) (ucast (drop_bit 16 val))
      (poke (i + 1) (ucast (drop_bit 8 val)) (poke i (ucast val) fs)))"
proof -
  have "(i + 1) mod 512 = i mod 512 + 1" "(i + 2) mod 512 = i mod 512 + 2" "(i + 3) mod 512 = i mod 512 + 3"
    using assms div_mod_step(2) [of i 512 1] div_mod_step(2) [of i 512 2] div_mod_step(2) [of i 512 3] by simp_all
  then show ?thesis by (cases fs) (simp add: poke_def put_win_def ST_DWORD_def)
qed

text \<open>The clusters of the volume.\<close>

definition in_vol :: "'k FATFS \<Rightarrow> u32 \<Rightarrow> bool" where
  "in_vol fs c \<longleftrightarrow> 2 \<le> c \<and> c < n_fatent fs"

text \<open>Sectors outside both copies of the table.\<close>

definition off_fat :: "'k FATFS \<Rightarrow> u32 \<Rightarrow> bool" where
  "off_fat fs s \<longleftrightarrow> unat s < unat (fatbase fs) \<or> unat (fatbase fs) + 2 * unat (fsize fs) \<le> unat s \<or>
     unat (fatbase fs) + unat (fsize fs) \<le> unat s \<and> n_fats fs \<noteq> 2"

definition stored :: "'k store \<Rightarrow> 'k FATFS \<Rightarrow> (nat \<Rightarrow> u8) \<Rightarrow> 'k FATFS \<Rightarrow> bool" where
  "stored D fs f fs' \<longleftrightarrow> fat_inv D fs' \<and> fs_frame fs fs' \<and>
     (\<forall>j<512 * unat (fsize fs). fat_byte D fs' j = f j) \<and> (\<forall>s. off_fat fs s \<longrightarrow> view D fs' s = view D fs s)"

lemma off_fat_sect:
  assumes "geometry fs D" "i < 512 * unat (fsize fs)" "off_fat fs s"
  shows "s \<noteq> fat_sect fs i" "\<not> in_mirror fs s"
proof -
  have "i div 512 < unat (fsize fs)" using assms(2) by (simp add: less_mult_imp_div_less mult.commute)
  with assms(3) fat_sect_unat [OF assms(1,2)] show "s \<noteq> fat_sect fs i" by (auto simp: off_fat_def)
  from assms(3) show "\<not> in_mirror fs s" by (auto simp: off_fat_def in_mirror_def)
qed

lemma off_fat_frame: "fs_frame fs fs' \<Longrightarrow> off_fat fs' = off_fat fs"
  by (simp add: off_fat_def fsframe_fields fun_eq_iff)

lemma stored_poke:
  assumes "stored D fs f fs'" "winsect fs' = fat_sect fs i" "i < 512 * unat (fsize fs)"
  shows "stored D fs (f(i := b)) (poke i b fs')" "winsect (poke i b fs') = winsect fs'"
proof -
  have fr: "fs_frame fs fs'" and inv: "fat_inv D fs'" using assms(1) by (auto simp: stored_def)
  have w: "winsect fs' = fat_sect fs' i" and i: "i < 512 * unat (fsize fs')"
    using assms(2,3) fr by (simp_all add: fat_sect_frame fsframe_fields)
  note p = poke_ok [OF inv w i]
  have g: "geometry fs' D" using inv by (simp add: fat_inv_def win_inv_def)
  show "stored D fs (f(i := b)) (poke i b fs')"
    using assms(1) p(1) fsframe_trans [OF fr p(2)] p(4) p(5) off_fat_sect(1) [OF g i] fr
    by (auto simp: stored_def fsframe_fields(11) off_fat_frame)
  show "winsect (poke i b fs') = winsect fs'" by (rule p(3))
qed

lemma stored_move:
  assumes D: "stores v D" and s: "stored D fs f fs'" and i: "i < 512 * unat (fsize fs)"
  shows "\<exists>fs2. move_window v (fat_sect fs i) fs' = Some (FR_OK, fs2) \<and> stored D fs f fs2 \<and> winsect fs2 = fat_sect fs i \<and>
     (\<forall>j. j div 512 = i div 512 \<longrightarrow> j < 512 * unat (fsize fs) \<longrightarrow> win fs2 ! (j mod 512) = f j)"
proof -
  have fr: "fs_frame fs fs'" and inv: "fat_inv D fs'" using s by (auto simp: stored_def)
  have i': "i < 512 * unat (fsize fs')" and e: "fat_sect fs' i = fat_sect fs i"
    using i fr by (simp_all add: fat_sect_frame fsframe_fields)
  obtain fs2 where m: "move_window v (fat_sect fs i) fs' = Some (FR_OK, fs2)" "fat_inv D fs2" "fs_frame fs' fs2"
    "winsect fs2 = fat_sect fs i" "\<forall>s. \<not> in_mirror fs' s \<longrightarrow> view D fs2 s = view D fs' s"
    "\<forall>j<512 * unat (fsize fs'). fat_byte D fs2 j = fat_byte D fs' j"
    "\<forall>j. j div 512 = i div 512 \<longrightarrow> win fs2 ! (j mod 512) = fat_byte D fs' j"
    using move_fat [OF D inv i'] unfolding e by blast
  have g: "geometry fs' D" using inv by (simp add: fat_inv_def win_inv_def)
  have "stored D fs f fs2"
    using s m fsframe_trans [OF fr m(3)] off_fat_sect(2) [OF g i'] fr
    by (simp add: stored_def fsframe_fields(11) off_fat_frame)
  moreover have "\<forall>j. j div 512 = i div 512 \<longrightarrow> j < 512 * unat (fsize fs) \<longrightarrow> win fs2 ! (j mod 512) = f j"
    using m(7) s by (simp add: stored_def)
  ultimately show ?thesis using m(1,4) by blast
qed

lemma stored_refl: "fat_inv D fs \<Longrightarrow> stored D fs (fat_byte D fs) fs"
  by (simp add: stored_def)

lemma put_fat16_ok:
  assumes D: "stores v D" and inv: "fat_inv D fs" and ty: "fs_type fs = FS_FAT16" and c: "2 \<le> c" "c < n_fatent fs"
  shows "\<exists>fs'. put_fat v c val fs = Some (FR_OK, fs') \<and> stored D fs (fat_store FS_FAT16 (fat_byte D fs) (unat c) val) fs'"
proof -
  let ?i = "2 * unat c"
  have i: "?i + 1 < 512 * unat (fsize fs)" using fat_bytes_bound(2) [OF inv c(2) ty] .
  then have i0: "?i < 512 * unat (fsize fs)" by simp
  obtain fs1 where m: "move_window v (fat_sect fs ?i) fs = Some (FR_OK, fs1)" "stored D fs (fat_byte D fs) fs1"
    "winsect fs1 = fat_sect fs ?i"
    using stored_move [OF D stored_refl [OF inv] i0] by blast
  have s1: "fat_sect fs (?i + 1) = fat_sect fs ?i" using entry_in_sector(1) [of 1 "unat c"] by (simp add: fat_sect_def)
  let ?fs2 = "poke ?i (ucast val) fs1" and ?fs3 = "poke (?i + 1) (ucast (drop_bit 8 val)) (poke ?i (ucast val) fs1)"
  note p = stored_poke [OF m(2,3) i0, of "ucast val"]
  have "stored D fs ((fat_byte D fs)(?i := ucast val, ?i + 1 := ucast (drop_bit 8 val))) ?fs3"
    using stored_poke(1) [OF p(1) _ i] p(2) m(3) s1 by simp
  moreover have "put_fat v c val fs = Some (FR_OK, ?fs3)"
  proof -
    have "?i mod 512 + 1 < 512" using entry_in_sector(2) [of 1 "unat c"] mod_less_divisor [of 512 "?i + 1"] by linarith
    note q = pokes16 [OF this, of "ucast val" fs1]
    have "(ucast (ucast val :: u16) :: u8) = ucast val" "(ucast (drop_bit 8 (ucast val :: u16)) :: u8) = ucast (drop_bit 8 val)"
      by (auto intro!: bit_word_eqI simp: bit_simps)
    with q show ?thesis
      using in_range [OF c] m(1) ty unfolding fat_offset16(1) by (simp add: put_fat_def fat_offset16(2))
  qed
  ultimately show ?thesis by (simp add: fat_store_def)
qed

lemma top_mask: "(0xf0000000 :: u32) = NOT (mask 28)"
  by (simp add: mask_eq_exp_minus_1)

lemma high_nibble:
  fixes val :: u32
  shows "(ucast (val OR (LD_DWORD w i AND 0xf0000000)) :: u8) = ucast val"
    "(ucast (drop_bit 8 (val OR (LD_DWORD w i AND 0xf0000000))) :: u8) = ucast (drop_bit 8 val)"
    "(ucast (drop_bit 16 (val OR (LD_DWORD w i AND 0xf0000000))) :: u8) = ucast (drop_bit 16 val)"
    "(ucast (drop_bit 24 (val OR (LD_DWORD w i AND 0xf0000000))) :: u8) = (w ! (i + 3) AND 0xf0) OR ucast (drop_bit 24 val)"
  by (rule bit_word_eqI, auto simp: LD_DWORD_def top_mask f0_mask bit_simps dest: bit_imp_le_length)+

lemma put_fat32_ok:
  assumes D: "stores v D" and inv: "fat_inv D fs" and ty: "fs_type fs = FS_FAT32" and c: "2 \<le> c" "c < n_fatent fs"
  shows "\<exists>fs'. put_fat v c val fs = Some (FR_OK, fs') \<and> stored D fs (fat_store FS_FAT32 (fat_byte D fs) (unat c) val) fs'"
proof -
  let ?i = "4 * unat c"
  have i: "?i + 3 < 512 * unat (fsize fs)" using fat_bytes_bound(3) [OF inv c(2) ty] .
  then have i0: "?i < 512 * unat (fsize fs)" by simp
  obtain fs1 where m: "move_window v (fat_sect fs ?i) fs = Some (FR_OK, fs1)" "stored D fs (fat_byte D fs) fs1"
    "winsect fs1 = fat_sect fs ?i" "win fs1 ! ((?i + 3) mod 512) = fat_byte D fs (?i + 3)"
    using stored_move [OF D stored_refl [OF inv] i0] entry_in_sector(3) [of 3 "unat c"] i by force
  have s: "fat_sect fs (?i + j) = fat_sect fs ?i" if "j < 4" for j
    using entry_in_sector(3) [OF that, of "unat c"] by (simp add: fat_sect_def)
  let ?v = "val OR (LD_DWORD (win fs1) (?i mod 512) AND 0xf0000000)"
  let ?b = "\<lambda>n. ucast (drop_bit n ?v) :: u8"
  note p0 = stored_poke [OF m(2,3) i0, of "ucast ?v"]
  have p1: "stored D fs ((fat_byte D fs)(?i := ucast ?v, ?i + 1 := ?b 8)) (poke (?i + 1) (?b 8) (poke ?i (ucast ?v) fs1))"
    using stored_poke(1) [OF p0(1), of "?i + 1"] p0(2) m(3) s [of 1] i by simp
  have p2: "stored D fs ((fat_byte D fs)(?i := ucast ?v, ?i + 1 := ?b 8, ?i + 2 := ?b 16))
      (poke (?i + 2) (?b 16) (poke (?i + 1) (?b 8) (poke ?i (ucast ?v) fs1)))"
    using stored_poke(1) [OF p1, of "?i + 2"] m(3) s [of 2] i by (simp add: poke_def)
  have p3: "stored D fs ((fat_byte D fs)(?i := ucast ?v, ?i + 1 := ?b 8, ?i + 2 := ?b 16, ?i + 3 := ?b 24))
      (poke (?i + 3) (?b 24) (poke (?i + 2) (?b 16) (poke (?i + 1) (?b 8) (poke ?i (ucast ?v) fs1))))"
    using stored_poke(1) [OF p2, of "?i + 3"] m(3) s [of 3] i by (simp add: poke_def)
  have lt: "?i mod 512 + 3 < 512" using entry_in_sector(4) [of 3 "unat c"] mod_less_divisor [of 512 "?i + 3"] by linarith
  have "put_fat v c val fs = Some (FR_OK, poke (?i + 3) (?b 24) (poke (?i + 2) (?b 16) (poke (?i + 1) (?b 8) (poke ?i (ucast ?v) fs1))))"
    using in_range [OF c] m(1) ty pokes32 [OF lt, of ?v fs1] unfolding fat_offset32(1)
    by (simp add: put_fat_def fat_offset32(2) Let_def)
  moreover have "?b 24 = (fat_byte D fs (?i + 3) AND 0xf0) OR ucast (drop_bit 24 val)"
    unfolding high_nibble(4) using m(4) entry_in_sector(4) [of 3 "unat c"] by simp
  ultimately show ?thesis
    using p3 unfolding high_nibble(1-3) by (simp add: fat_store_def del: drop_bit_or)
qed

lemma poke_put: "(put_win (\<lambda>w. w[i mod 512 := b]) fs)\<lparr>wflag := True\<rparr> = poke i b fs"
  "put_win (\<lambda>w. w[i mod 512 := b]) (fs\<lparr>wflag := True\<rparr>) = poke i b fs"
  by (cases fs; simp add: put_win_def poke_def)+

lemma put_fat12_ok:
  assumes D: "stores v D" and inv: "fat_inv D fs" and ty: "fs_type fs = FS_FAT12" and c: "2 \<le> c" "c < n_fatent fs"
  shows "\<exists>fs'. put_fat v c val fs = Some (FR_OK, fs') \<and> stored D fs (fat_store FS_FAT12 (fat_byte D fs) (unat c) val) fs'"
proof -
  let ?o = "unat c + unat c div 2"
  have i: "?o + 1 < 512 * unat (fsize fs)" using fat_bytes_bound(1) [OF inv c(2) ty] .
  then have i0: "?o < 512 * unat (fsize fs)" by simp
  have "n_fatent fs \<le> 0xfff" using inv ty by (simp add: fat_inv_def fat_trunc_def)
  with c(2) have "unat c < 0xfff" by (simp add: word_less_nat_alt word_le_nat_alt)
  then have n: "?o + 1 < 2 ^ 32" by simp
  note o = fat_offset12 [OF n]
  have par: "bit c 0 \<longleftrightarrow> odd (unat c)" by (simp add: bit_0 even_unat)
  let ?f = "fat_byte D fs"
  define b1 where "b1 = (if odd (unat c) then (?f ?o AND 0x0f) OR push_bit 4 (ucast val) else ucast val :: u8)"
  define b2 where "b2 = (if odd (unat c) then ucast (drop_bit 4 val) else (?f (?o + 1) AND 0xf0) OR (ucast (drop_bit 8 val) AND 0x0f) :: u8)"
  obtain fs1 where m1: "move_window v (fat_sect fs ?o) fs = Some (FR_OK, fs1)" "stored D fs ?f fs1"
    "winsect fs1 = fat_sect fs ?o" "win fs1 ! (?o mod 512) = ?f ?o"
    using stored_move [OF D stored_refl [OF inv] i0] i0 by blast
  note p1 = stored_poke(1) [OF m1(2,3) i0, of b1]
  obtain fs2 where m2: "move_window v (fat_sect fs (?o + 1)) (poke ?o b1 fs1) = Some (FR_OK, fs2)" "stored D fs (?f(?o := b1)) fs2"
    "winsect fs2 = fat_sect fs (?o + 1)" "win fs2 ! ((?o + 1) mod 512) = ?f (?o + 1)"
    using stored_move [OF D p1 i] i by auto
  note p2 = stored_poke(1) [OF m2(2,3) i, of b2]
  have fb: "fatbase (poke i b fs1) = fatbase fs" for i b
    using m1(2) by (simp add: poke_def stored_def fsframe_fields)
  have e: "fatbase fs + (c + c div 2 + 1) div 512 = fat_sect fs (?o + 1)" "fatbase fs + (c + c div 2) div 512 = fat_sect fs ?o"
    by (simp_all add: fat_sect_word o)
  have u: "unat ((c + c div 2) mod 512) = ?o mod 512" "unat ((c + c div 2 + 1) mod 512) = (?o + 1) mod 512"
    by (simp_all only: unat_mod o) simp_all
  have v1: "(if bit c 0 then (win_byte fs1 (c + c div 2) AND 0x0f) OR push_bit 4 (ucast val) else ucast val) = b1"
    using m1(4) by (simp add: b1_def par win_byte_word o)
  have v2: "(if bit c 0 then ucast (drop_bit 4 val)
      else (win_byte fs2 (c + c div 2 + 1) AND 0xf0) OR (ucast (drop_bit 8 val) AND 0x0f)) = b2"
    using m2(4) by (simp add: b2_def par win_byte_word o)
  have "put_fat v c val fs = Some (FR_OK, poke (?o + 1) b2 fs2)"
    using in_range [OF c] ty m1(1,4) m2(1,4)
    by (simp add: put_fat_def put_fat12_def Let_def e u v1 v2 poke_put fb)
  with p2 show ?thesis
    by (cases "odd (unat c)") (auto simp: fat_store_def Let_def b1_def b2_def)
qed

lemma put_fat_ok:
  assumes "stores v D" "fat_inv D fs" "2 \<le> c" "c < n_fatent fs"
  shows "\<exists>fs'. put_fat v c val fs = Some (FR_OK, fs') \<and> fat_inv D fs' \<and> fs_frame fs fs' \<and>
    (\<forall>c'. in_vol fs c' \<longrightarrow> fat_of D fs' c' = (if c' = c then fat_trunc (fs_type fs) val else fat_of D fs c')) \<and>
    (\<forall>s. off_fat fs s \<longrightarrow> view D fs' s = view D fs s)"
proof -
  have ty: "fs_type fs \<noteq> FS_NONE" using assms(2) by (simp add: fat_inv_def)
  then have "\<exists>fs'. put_fat v c val fs = Some (FR_OK, fs') \<and>
      stored D fs (fat_store (fs_type fs) (fat_byte D fs) (unat c) val) fs'"
    using put_fat12_ok [OF assms(1,2)] put_fat16_ok [OF assms(1,2)] put_fat32_ok [OF assms(1,2)] assms(3,4)
    by (cases "fs_type fs") auto
  then obtain fs' where p: "put_fat v c val fs = Some (FR_OK, fs')"
    "stored D fs (fat_store (fs_type fs) (fat_byte D fs) (unat c) val) fs'" by blast
  have ty': "fs_type fs' = fs_type fs" using p(2) fsframe_fields(1) by (auto simp: stored_def)
  have "fat_of D fs' c' = (if c' = c then fat_trunc (fs_type fs) val else fat_of D fs c')" if "in_vol fs c'" for c'
  proof -
    have b: "fat_byte D fs' j = fat_store (fs_type fs) (fat_byte D fs) (unat c) val j" if "j < 512 * unat (fsize fs)" for j
      using p(2) that by (simp add: stored_def)
    have "c' < n_fatent fs" using that by (simp add: in_vol_def)
    note bd = fat_bytes_bound [OF assms(2) this]
    have "fat_of D fs' c' = fat_entry (fs_type fs) (fat_store (fs_type fs) (fat_byte D fs) (unat c) val) (unat c')"
      using ty' bd b by (cases "fs_type fs") (simp_all add: fat_of_def fat_entry_def Let_def)
    also have "\<dots> = (if c' = c then fat_trunc (fs_type fs) val else fat_of D fs c')"
      using fat_entry_same [OF ty] fat_entry_other [of "unat c" "unat c'"]
      by (cases "c' = c") (auto simp: fat_of_def word_unat_eq_iff)
    finally show ?thesis .
  qed
  with p show ?thesis by (simp add: stored_def)
qed


text \<open>An access that only moves the window leaves the table as it was.\<close>

lemma fat_of_view:
  assumes inv: "fat_inv D fs" and fr: "fs_frame fs fs'" and v: "\<forall>s. \<not> in_mirror fs s \<longrightarrow> view D fs' s = view D fs s"
    and c: "in_vol fs c"
  shows "fat_of D fs' c = fat_of D fs c"
proof -
  have g: "geometry fs D" using inv by (simp add: fat_inv_def win_inv_def)
  have b: "fat_byte D fs' j = fat_byte D fs j" if "j < 512 * unat (fsize fs)" for j
    using v fat_sect_ok(2) [OF g that] fr by (simp add: fat_byte_def fat_sect_frame)
  have "c < n_fatent fs" using c by (simp add: in_vol_def)
  note bd = fat_bytes_bound [OF inv this]
  show ?thesis
    using b bd fsframe_fields(1) [OF fr] by (cases "fs_type fs") (simp_all add: fat_of_def fat_entry_def Let_def)
qed

end
