(* ===== verification/Fat_Chain.thy ===== *)
theory Fat_Chain
  imports Fat_Table
begin

text \<open>
  Cluster chains on top of the table: what \<open>create_chain\<close> and \<open>remove_chain\<close> do to the function
  from clusters to entries that the window functions implement.
\<close>

subsection \<open>What the chain functions may change\<close>

definition alloc_frame :: "'k FATFS \<Rightarrow> 'k FATFS \<Rightarrow> bool" where
  "alloc_frame fs fs' \<longleftrightarrow> fs' = fs\<lparr>wflag := wflag fs', winsect := winsect fs', win := win fs', media := media fs',
     free_clust := free_clust fs', last_clust := last_clust fs', fsi_flag := fsi_flag fs'\<rparr>"

lemma alloc_frame_refl [simp]: "alloc_frame fs fs" by (simp add: alloc_frame_def)
lemma alloc_frame_trans: "alloc_frame fs fs1 \<Longrightarrow> alloc_frame fs1 fs2 \<Longrightarrow> alloc_frame fs fs2"
  by (cases fs; cases fs1; cases fs2) (simp add: alloc_frame_def)
lemma alloc_frame_fields:
  assumes "alloc_frame fs fs'"
  shows "fs_type fs' = fs_type fs" "drv fs' = drv fs" "csize fs' = csize fs" "n_fats fs' = n_fats fs"
    "fs_id fs' = fs_id fs" "n_rootdir fs' = n_rootdir fs" "cdir fs' = cdir fs" "n_fatent fs' = n_fatent fs"
    "fsize fs' = fsize fs" "fatbase fs' = fatbase fs" "dirbase fs' = dirbase fs" "database fs' = database fs"
    "fsi_sector fs' = fsi_sector fs"
  using assms by (cases fs; cases fs'; simp add: alloc_frame_def)+
lemma frame_alloc: "fs_frame fs fs' \<Longrightarrow> alloc_frame fs fs'"
  by (cases fs; cases fs') (simp add: fs_frame_def alloc_frame_def)

text \<open>The counters are no part of the table.\<close>

definition set_counts :: "u32 \<Rightarrow> u32 \<Rightarrow> bool \<Rightarrow> 'k FATFS \<Rightarrow> 'k FATFS" where
  "set_counts a l b fs = fs\<lparr>free_clust := a, last_clust := l, fsi_flag := b\<rparr>"

lemma fat_byte_counts: "fat_byte D (set_counts a l b fs) = fat_byte D fs"
proof (rule ext)
  have "view D (set_counts a l b fs) = view D fs" "fat_sect (set_counts a l b fs) = fat_sect fs"
    by (auto simp: fun_eq_iff view_def fat_sect_def set_counts_def)
  then show "fat_byte D (set_counts a l b fs) i = fat_byte D fs i" for i by (simp add: fat_byte_def)
qed

lemma set_counts_ok [simp]:
  "fat_inv D (set_counts a l b fs) = fat_inv D fs" "fat_of D (set_counts a l b fs) = fat_of D fs"
  "view D (set_counts a l b fs) = view D fs" "alloc_frame fs (set_counts a l b fs)" "in_vol (set_counts a l b fs) = in_vol fs"
  "n_fatent (set_counts a l b fs) = n_fatent fs" "fs_type (set_counts a l b fs) = fs_type fs"
  "free_clust (set_counts a l b fs) = a" "last_clust (set_counts a l b fs) = l" "fsi_flag (set_counts a l b fs) = b"
  by (auto simp: fat_of_def fat_byte_counts fun_eq_iff)
     (auto simp: set_counts_def fat_inv_def win_inv_def geometry_def in_mirror_def view_def alloc_frame_def in_vol_def)

lemma in_vol_alloc: "alloc_frame fs fs' \<Longrightarrow> in_vol fs' = in_vol fs"
  by (simp add: in_vol_def alloc_frame_fields fun_eq_iff)

lemma off_fat_alloc: "alloc_frame fs fs' \<Longrightarrow> off_fat fs' = off_fat fs"
  by (simp add: off_fat_def alloc_frame_fields fun_eq_iff)

text \<open>\<open>becomes D fs F fs'\<close>: the table now is \<open>F\<close>, and no sector outside it has changed.\<close>

definition becomes :: "'k store \<Rightarrow> 'k FATFS \<Rightarrow> (u32 \<Rightarrow> u32) \<Rightarrow> 'k FATFS \<Rightarrow> bool" where
  "becomes D fs F fs' \<longleftrightarrow> fat_inv D fs' \<and> alloc_frame fs fs' \<and> (\<forall>c. in_vol fs c \<longrightarrow> fat_of D fs' c = F c) \<and>
     (\<forall>s. off_fat fs s \<longrightarrow> view D fs' s = view D fs s)"

lemma becomes_refl: "fat_inv D fs \<Longrightarrow> becomes D fs (fat_of D fs) fs" by (simp add: becomes_def)

lemma becomes_get:
  assumes D: "stores v D" and b: "becomes D fs F fs'" and c: "in_vol fs c"
  shows "\<exists>fs2. get_fat v c fs' = Some (F c, fs2) \<and> becomes D fs F fs2 \<and> fs_frame fs' fs2"
proof -
  have inv: "fat_inv D fs'" and fr: "alloc_frame fs fs'" using b by (auto simp: becomes_def)
  have c': "2 \<le> c" "c < n_fatent fs'" using c fr by (auto simp: in_vol_def alloc_frame_fields)
  obtain fs2 where g: "get_fat v c fs' = Some (fat_of D fs' c, fs2)" "fat_inv D fs2" "fs_frame fs' fs2"
    "\<forall>s. \<not> in_mirror fs' s \<longrightarrow> view D fs2 s = view D fs' s"
    using get_fat_ok [OF D inv c'] by blast
  have fr2: "alloc_frame fs fs2" by (rule alloc_frame_trans [OF fr frame_alloc [OF g(3)]])
  have same: "fat_of D fs2 d = fat_of D fs' d" if "in_vol fs d" for d
    by (rule fat_of_view [OF inv g(3,4)]) (use that fr in \<open>simp add: in_vol_alloc\<close>)
  have off: "\<not> in_mirror fs' s" if "off_fat fs s" for s
    using that by (simp add: off_fat_def in_mirror_def alloc_frame_fields [OF fr]) linarith
  have "becomes D fs F fs2" using b g(2,4) fr2 same off by (simp add: becomes_def)
  with g(1,3) b c show ?thesis by (auto simp: becomes_def)
qed

lemma becomes_put:
  assumes D: "stores v D" and b: "becomes D fs F fs'" and c: "in_vol fs c"
  shows "\<exists>fs2. put_fat v c val fs' = Some (FR_OK, fs2) \<and> becomes D fs (F(c := fat_trunc (fs_type fs) val)) fs2 \<and> fs_frame fs' fs2"
proof -
  have inv: "fat_inv D fs'" and fr: "alloc_frame fs fs'" using b by (auto simp: becomes_def)
  have c': "2 \<le> c" "c < n_fatent fs'" using c fr by (auto simp: in_vol_def alloc_frame_fields)
  obtain fs2 where p: "put_fat v c val fs' = Some (FR_OK, fs2)" "fat_inv D fs2" "fs_frame fs' fs2"
    "\<forall>d. in_vol fs' d \<longrightarrow> fat_of D fs2 d = (if d = c then fat_trunc (fs_type fs') val else fat_of D fs' d)"
    "\<forall>s. off_fat fs' s \<longrightarrow> view D fs2 s = view D fs' s"
    using put_fat_ok [OF D inv c'] by blast
  have "becomes D fs (F(c := fat_trunc (fs_type fs) val)) fs2"
    using b p(2,4,5) alloc_frame_trans [OF fr frame_alloc [OF p(3)]] in_vol_alloc [OF fr] off_fat_alloc [OF fr]
      alloc_frame_fields(1) [OF fr]
    by (simp add: becomes_def)
  with p(1,3) show ?thesis by blast
qed

lemma becomes_counts: "becomes D fs F fs' \<Longrightarrow> becomes D fs F (set_counts a l b fs')"
  using alloc_frame_trans [OF _ set_counts_ok(4)] by (auto simp: becomes_def)


subsection \<open>Chains\<close>

text \<open>A chain in a table: from cluster to cluster of the volume up to an end mark.\<close>

fun is_chain :: "(u32 \<Rightarrow> u32) \<Rightarrow> u32 \<Rightarrow> u32 list \<Rightarrow> bool" where
  "is_chain F n [] = False"
| "is_chain F n [c] = (2 \<le> c \<and> c < n \<and> n \<le> F c)"
| "is_chain F n (c # d # cs) = (2 \<le> c \<and> c < n \<and> F c = d \<and> is_chain F n (d # cs))"

lemma is_chain_in: "is_chain F n cs \<Longrightarrow> c \<in> set cs \<Longrightarrow> 2 \<le> c \<and> c < n"
  by (induction F n cs rule: is_chain.induct) auto

lemma is_chain_unique: "is_chain F n (c # xs) \<Longrightarrow> is_chain F n (c # ys) \<Longrightarrow> xs = ys"
proof (induction xs arbitrary: c ys)
  case Nil
  then show ?case by (cases ys) (auto dest: is_chain_in)
next
  case (Cons x xs)
  then obtain y zs where y: "ys = y # zs" by (cases ys) (auto dest: is_chain_in)
  with Cons.prems have "y = x" "is_chain F n (x # xs)" "is_chain F n (y # zs)" by auto
  with Cons.IH y show ?case by simp
qed

lemma is_chain_suffix: "is_chain F n (xs @ c # ys) \<Longrightarrow> is_chain F n (c # ys)"
proof (induction xs)
  case (Cons x xs)
  then show ?case by (cases xs) auto
qed simp

text \<open>An ended chain has no cycle.\<close>

lemma is_chain_distinct: "is_chain F n cs \<Longrightarrow> distinct cs"
proof (induction cs)
  case (Cons c cs)
  show ?case
  proof (cases "cs = []")
    case False
    then have t: "is_chain F n cs" using Cons.prems by (cases cs) auto
    have "c \<notin> set cs"
    proof
      assume "c \<in> set cs"
      then obtain us vs where "cs = us @ c # vs" by (auto simp: in_set_conv_decomp)
      with is_chain_suffix [of F n us c vs] t have "is_chain F n (c # vs)" by simp
      with is_chain_unique [OF Cons.prems this] \<open>cs = us @ c # vs\<close> show False by simp
    qed
    with Cons.IH [OF t] show ?thesis by simp
  qed simp
qed simp

lemma is_chain_cong: "(\<And>c. c \<in> set cs \<Longrightarrow> G c = F c) \<Longrightarrow> is_chain G n cs = is_chain F n cs"
  by (induction F n cs rule: is_chain.induct) auto

text \<open>The counter of free clusters after \<open>k\<close> clusters are freed: it stays when it is unknown.\<close>

fun freed :: "nat \<Rightarrow> u32 \<Rightarrow> u32" where
  "freed 0 a = a"
| "freed (Suc k) a = freed k (if a = 0xffffffff then a else a + 1)"

lemma fat_trunc_0 [simp]: "fat_trunc ty 0 = 0"
  by (cases ty) (simp_all add: fat_trunc_def)

lemma fat_trunc_id:
  assumes "fat_inv D fs" "c < n_fatent fs"
  shows "fat_trunc (fs_type fs) c = c"
proof -
  have mask: "c AND mask k = c" if "unat c < 2 ^ k" for k
    using that by (simp add: take_bit_eq_mask [symmetric] word_unat_eq_iff unsigned_take_bit_eq take_bit_nat_eq_self)
  have lt: "c < fat_trunc (fs_type fs) 0x0fffffff" using assms unfolding fat_inv_def by (meson less_le_trans)
  have ty: "fs_type fs \<noteq> FS_NONE" using assms(1) by (simp add: fat_inv_def)
  from ty lt have "(fs_type fs = FS_FAT12 \<and> unat c < 2 ^ 12) \<or> (fs_type fs = FS_FAT16 \<and> unat c < 2 ^ 16) \<or>
      (fs_type fs = FS_FAT32 \<and> unat c < 2 ^ 28)"
    by (cases "fs_type fs") (simp_all add: fat_trunc_def word_less_nat_alt)
  then show ?thesis
    using mask [of 12] mask [of 16] mask [of 28] by (elim disjE conjE) (simp_all add: fat_trunc_def word_masks)
qed


subsection \<open>Freeing a chain\<close>

lemma count_up: "(if free_clust fs \<noteq> 0xffffffff then fs\<lparr>free_clust := free_clust fs + 1, fsi_flag := True\<rparr> else fs) =
   set_counts (freed 1 (free_clust fs)) (last_clust fs) (if free_clust fs \<noteq> 0xffffffff then True else fsi_flag fs) fs"
  by (cases fs) (simp add: set_counts_def)

lemma remove_loop_end: "n_fatent fs \<le> c \<Longrightarrow> remove_loop v c fs = Some (FR_OK, fs)"
  by (subst remove_loop.simps) (simp add: not_less [symmetric])

lemma fat_of_no_error: "fat_of D fs c \<noteq> 0xffffffff"
proof -
  have "\<not> bit (fat_entry ty f i) 31" for ty f i
    by (cases ty) (auto simp: fat_entry_def Let_def word_masks bit_simps dest: bit_imp_le_length)
  moreover have "bit (0xffffffff :: u32) 31" by (simp add: bit_numeral_rec)
  ultimately show ?thesis unfolding fat_of_def by metis
qed

text \<open>One turn of the loop.\<close>

lemma remove_loop_turn:
  assumes D: "stores v D" and b: "becomes D fs F fs'" and c: "in_vol fs c" and v: "2 \<le> F c" "F c \<noteq> 0xffffffff"
  shows "\<exists>fs2. remove_loop v c fs' = remove_loop v (F c) fs2 \<and> becomes D fs (F(c := 0)) fs2 \<and>
    free_clust fs2 = freed 1 (free_clust fs') \<and> last_clust fs2 = last_clust fs'"
proof -
  obtain fs1 where g: "get_fat v c fs' = Some (F c, fs1)" "becomes D fs F fs1" "fs_frame fs' fs1"
    using becomes_get [OF D b c] by blast
  obtain fs2 where p: "put_fat v c 0 fs1 = Some (FR_OK, fs2)" "becomes D fs (F(c := 0)) fs2" "fs_frame fs1 fs2"
    using becomes_put [OF D g(2) c, of 0] by auto
  let ?fs3 = "set_counts (freed 1 (free_clust fs2)) (last_clust fs2) (if free_clust fs2 \<noteq> 0xffffffff then True else fsi_flag fs2) fs2"
  have n: "n_fatent fs' = n_fatent fs" using b by (auto simp: becomes_def alloc_frame_fields)
  have nv: "F c \<noteq> 0" "F c \<noteq> 1" using v(1) by (auto simp: word_le_nat_alt)
  have "remove_loop v c fs' = remove_loop v (F c) ?fs3"
    by (subst remove_loop.simps) (use c v nv n g(1) p(1) in \<open>simp add: in_vol_def count_up\<close>)
  moreover have "free_clust fs2 = free_clust fs'" "last_clust fs2 = last_clust fs'"
    using g(3) p(3) by (simp_all add: fsframe_fields)
  ultimately show ?thesis using becomes_counts [OF p(2)] by (intro exI [of _ ?fs3]) simp
qed

lemma remove_loop_chain:
  assumes D: "stores v D"
  shows "becomes D fs F fs' \<Longrightarrow> is_chain F (n_fatent fs) (c # cs) \<Longrightarrow> \<forall>d\<in>set (c # cs). F d \<noteq> 0xffffffff \<Longrightarrow>
    \<exists>fs2. remove_loop v c fs' = Some (FR_OK, fs2) \<and>
      becomes D fs (\<lambda>d. if d \<in> set (c # cs) then 0 else F d) fs2 \<and>
      free_clust fs2 = freed (length (c # cs)) (free_clust fs') \<and> last_clust fs2 = last_clust fs'"
proof (induction cs arbitrary: c F fs')
  case Nil
  from Nil.prems(2) have c: "in_vol fs c" and e: "n_fatent fs \<le> F c" by (auto simp: in_vol_def)
  then have "2 \<le> F c" by (auto simp: in_vol_def)
  with remove_loop_turn [OF D Nil.prems(1) c] Nil.prems(3) obtain fs2 where
    t: "remove_loop v c fs' = remove_loop v (F c) fs2" "becomes D fs (F(c := 0)) fs2"
      "free_clust fs2 = freed 1 (free_clust fs')" "last_clust fs2 = last_clust fs'" by auto
  have "n_fatent fs2 = n_fatent fs" using t(2) by (auto simp: becomes_def alloc_frame_fields)
  with e have "remove_loop v (F c) fs2 = Some (FR_OK, fs2)" by (simp add: remove_loop_end)
  moreover have "(\<lambda>d. if d \<in> set [c] then 0 else F d) = F(c := 0)" by auto
  ultimately show ?case using t by auto
next
  case (Cons d cs)
  from Cons.prems(2) have c: "in_vol fs c" and d: "F c = d" and ch: "is_chain F (n_fatent fs) (d # cs)"
    by (auto simp: in_vol_def)
  have dist: "c \<notin> set (d # cs)" using is_chain_distinct [OF Cons.prems(2)] by simp
  have "2 \<le> F c" using is_chain_in [OF ch, of d] d by simp
  with remove_loop_turn [OF D Cons.prems(1) c] Cons.prems(3) obtain fs2 where
    t: "remove_loop v c fs' = remove_loop v d fs2" "becomes D fs (F(c := 0)) fs2"
      "free_clust fs2 = freed 1 (free_clust fs')" "last_clust fs2 = last_clust fs'" using d by auto
  have "is_chain (F(c := 0)) (n_fatent fs) (d # cs) = is_chain F (n_fatent fs) (d # cs)"
    by (rule is_chain_cong) (use dist in auto)
  with ch have "is_chain (F(c := 0)) (n_fatent fs) (d # cs)" by simp
  moreover have "\<forall>x\<in>set (d # cs). (F(c := 0)) x \<noteq> 0xffffffff" using Cons.prems(3) by auto
  ultimately obtain fs3 where f: "remove_loop v d fs2 = Some (FR_OK, fs3)"
    "becomes D fs (\<lambda>x. if x \<in> set (d # cs) then 0 else (F(c := 0)) x) fs3"
    "free_clust fs3 = freed (length (d # cs)) (free_clust fs2)" "last_clust fs3 = last_clust fs2"
    using Cons.IH [OF t(2)] by blast
  have "(\<lambda>x. if x \<in> set (d # cs) then 0 else (F(c := 0)) x) = (\<lambda>x. if x \<in> set (c # d # cs) then 0 else F x)" by auto
  with f t show ?case by auto
qed

subsection \<open>Finding a free cluster\<close>

text \<open>The clusters still to be looked at when the search has come to \<open>a\<close> and stops at \<open>s\<close>.\<close>

definition ahead :: "nat \<Rightarrow> nat \<Rightarrow> nat \<Rightarrow> bool" where
  "ahead s a x \<longleftrightarrow> (if s \<le> a then a < x \<or> x \<le> s else a < x \<and> x \<le> s)"

definition steps_left :: "nat \<Rightarrow> nat \<Rightarrow> nat \<Rightarrow> nat" where
  "steps_left n s a = (if s \<le> a then n - a + s else s - a)"

lemma find_free_ok:
  assumes D: "stores v D" and ok: "\<forall>c. in_vol fs c \<longrightarrow> F c \<noteq> 1 \<and> F c \<noteq> 0xffffffff"
    and s: "1 \<le> scl" "scl < n_fatent fs" and n: "n_fatent fs \<le> 0x0fffffff" "2 < n_fatent fs"
  shows "becomes D fs F fs' \<Longrightarrow> 1 \<le> ncl \<Longrightarrow> ncl < n_fatent fs \<Longrightarrow>
    \<exists>r fs2. find_free v scl ncl fs' = Some (r, fs2) \<and> becomes D fs F fs2 \<and>
      free_clust fs2 = free_clust fs' \<and> last_clust fs2 = last_clust fs' \<and> fsi_flag fs2 = fsi_flag fs' \<and>
      (case r of Inr c \<Rightarrow> in_vol fs c \<and> F c = 0
       | Inl x \<Rightarrow> x = 0 \<and> (\<forall>c. in_vol fs c \<longrightarrow> ahead (unat scl) (unat ncl) (unat c) \<longrightarrow> F c \<noteq> 0))"
proof (induction "steps_left (unat (n_fatent fs)) (unat scl) (unat ncl)" arbitrary: ncl fs' rule: less_induct)
  case less
  let ?n = "unat (n_fatent fs)" and ?s = "unat scl" and ?a = "unat ncl"
  have nn: "n_fatent fs' = n_fatent fs" using less.prems(1) by (auto simp: becomes_def alloc_frame_fields)
  have a: "1 \<le> ?a" "?a < ?n" "1 \<le> ?s" "?s < ?n" "?n \<le> 0x0fffffff" "2 < ?n"
    using less.prems(2,3) s n by (simp_all add: word_le_nat_alt word_less_nat_alt)
  have u1: "unat (ncl + 1) = ?a + 1" using a by (subst unat_add_lem [THEN iffD1]) simp_all
  define c where "c = (if n_fatent fs \<le> ncl + 1 then 2 else ncl + 1)"
  have uc: "unat c = (if ?n \<le> ?a + 1 then 2 else ?a + 1)" by (simp add: c_def word_le_nat_alt u1)
  have ff: "find_free v scl ncl fs' = (if n_fatent fs \<le> ncl + 1 \<and> scl < c then Some (Inl 0, fs')
      else do {
        (cs, fs) \<leftarrow> get_fat v c fs';
        if cs = 0 then Some (Inr c, fs)
        else if cs = 0xffffffff \<or> cs = 1 then Some (Inl cs, fs)
        else if c = scl then Some (Inl 0, fs)
        else find_free v scl c fs })"
    by (subst find_free.simps) (simp only: nn Let_def c_def [symmetric])
  show ?case
  proof (cases "n_fatent fs \<le> ncl + 1 \<and> scl < c")
    case True
    then have "?s < 2" "?n \<le> ?a + 1" using uc u1 by (auto simp: word_less_nat_alt word_le_nat_alt)
    then have "\<not> ahead ?s ?a (unat d)" if "in_vol fs d" for d
      using that a by (auto simp: ahead_def in_vol_def word_less_nat_alt word_le_nat_alt)
    with True ff less.prems(1) show ?thesis by auto
  next
    case False
    have iv: "in_vol fs c" using uc a by (auto simp: in_vol_def word_less_nat_alt word_le_nat_alt)
    obtain fs1 where g: "get_fat v c fs' = Some (F c, fs1)" "becomes D fs F fs1" "fs_frame fs' fs1"
      using becomes_get [OF D less.prems(1) iv] by blast
    note fr = fsframe_fields [OF g(3)]
    note okc = ok [rule_format, OF iv]
    consider (free) "F c = 0" | (stop) "F c \<noteq> 0" "c = scl" | (go) "F c \<noteq> 0" "c \<noteq> scl" by blast
    then show ?thesis
    proof cases
      case free
      with False ff g iv fr show ?thesis by auto
    next
      case stop
      have "F d \<noteq> 0" if "in_vol fs d" "ahead ?s ?a (unat d)" for d
      proof -
        have "unat d = unat c"
          using that stop(2) uc a by (auto simp: ahead_def in_vol_def word_less_nat_alt word_le_nat_alt split: if_splits)
        with stop(1) show ?thesis by (simp add: word_unat_eq_iff [symmetric])
      qed
      with False ff g stop okc fr show ?thesis by auto
    next
      case go
      have ne: "unat c \<noteq> ?s" using go(2) by (simp add: word_unat_eq_iff)
      have w: "?n \<le> ?a + 1 \<longrightarrow> 2 \<le> ?s" using False uc u1 by (auto simp: word_less_nat_alt word_le_nat_alt)
      have "steps_left ?n ?s (unat c) < steps_left ?n ?s ?a"
        using uc ne w a by (auto simp: steps_left_def split: if_splits)
      moreover have "1 \<le> c" "c < n_fatent fs" using iv by (auto simp: in_vol_def word_less_nat_alt word_le_nat_alt)
      ultimately obtain r fs2 where r: "find_free v scl c fs1 = Some (r, fs2)" "becomes D fs F fs2"
        "free_clust fs2 = free_clust fs1" "last_clust fs2 = last_clust fs1" "fsi_flag fs2 = fsi_flag fs1"
        "case r of Inr c \<Rightarrow> in_vol fs c \<and> F c = 0
         | Inl x \<Rightarrow> x = 0 \<and> (\<forall>d. in_vol fs d \<longrightarrow> ahead ?s (unat c) (unat d) \<longrightarrow> F d \<noteq> 0)"
        using less.hyps [of c fs1] g(2) by blast
      have "ahead ?s (unat c) (unat d) \<or> d = c" if "in_vol fs d" "ahead ?s ?a (unat d)" for d
        using that uc ne w a
        by (auto simp: ahead_def in_vol_def word_less_nat_alt word_le_nat_alt word_unat_eq_iff split: if_splits)
      with r(6) go(1) have "case r of Inr c \<Rightarrow> in_vol fs c \<and> F c = 0
         | Inl x \<Rightarrow> x = 0 \<and> (\<forall>d. in_vol fs d \<longrightarrow> ahead ?s ?a (unat d) \<longrightarrow> F d \<noteq> 0)"
        by (auto split: sum.splits)
      with False ff g okc go r(1-5) fr show ?thesis by auto
    qed
  qed
qed


subsection \<open>Extending a chain\<close>

text \<open>The table with \<open>r\<close> as the new end, after \<open>clst\<close> when that is not 0.\<close>

definition extended :: "fat_type \<Rightarrow> u32 \<Rightarrow> u32 \<Rightarrow> (u32 \<Rightarrow> u32) \<Rightarrow> u32 \<Rightarrow> u32" where
  "extended ty clst r F = (if clst = 0 then F(r := fat_trunc ty 0x0fffffff) else F(r := fat_trunc ty 0x0fffffff, clst := r))"

lemma count_down:
  "(set_counts x r y fs)\<lparr>free_clust := a, fsi_flag := True\<rparr> = set_counts a r True fs"
  "fs\<lparr>last_clust := r\<rparr> = set_counts (free_clust fs) r (fsi_flag fs) fs"
  by (cases fs; simp add: set_counts_def)+

lemma link_new_ok:
  assumes D: "stores v D" and inv: "fat_inv D fs" and b: "becomes D fs F fs'" and r: "in_vol fs r"
    and c: "clst = 0 \<or> in_vol fs clst"
  shows "\<exists>fs2. link_new v clst r fs' = Some (r, fs2) \<and> becomes D fs (extended (fs_type fs) clst r F) fs2 \<and> last_clust fs2 = r"
proof -
  obtain fs1 where p: "put_fat v r 0x0fffffff fs' = Some (FR_OK, fs1)"
    "becomes D fs (F(r := fat_trunc (fs_type fs) 0x0fffffff)) fs1"
    using becomes_put [OF D b r] by blast
  show ?thesis
  proof (cases "clst = 0")
    case True
    have "link_new v clst r fs' = Some (r, set_counts (if free_clust fs1 \<noteq> 0xffffffff then free_clust fs1 - 1 else free_clust fs1) r
        (if free_clust fs1 \<noteq> 0xffffffff then True else fsi_flag fs1) fs1)"
      using p(1) True by (simp add: link_new_def count_down)
    with becomes_counts [OF p(2)] True show ?thesis by (auto simp: extended_def)
  next
    case False
    with c have iv: "in_vol fs clst" by simp
    have "r < n_fatent fs" using r by (simp add: in_vol_def)
    note id = fat_trunc_id [OF inv this]
    obtain fs2 where q: "put_fat v clst r fs1 = Some (FR_OK, fs2)"
      "becomes D fs (F(r := fat_trunc (fs_type fs) 0x0fffffff, clst := r)) fs2"
      using becomes_put [OF D p(2) iv, of r] id by auto
    have "link_new v clst r fs' = Some (r, set_counts (if free_clust fs2 \<noteq> 0xffffffff then free_clust fs2 - 1 else free_clust fs2) r
        (if free_clust fs2 \<noteq> 0xffffffff then True else fsi_flag fs2) fs2)"
      using p(1) q(1) False by (simp add: link_new_def count_down)
    with becomes_counts [OF q(2)] False show ?thesis by (auto simp: extended_def)
  qed
qed

lemma create_chain_ok:
  assumes D: "stores v D" and inv: "fat_inv D fs" and n: "2 < n_fatent fs"
    and c: "clst = 0 \<or> in_vol fs clst \<and> n_fatent fs \<le> fat_of D fs clst"
    and ok: "\<forall>c. in_vol fs c \<longrightarrow> fat_of D fs c \<noteq> 1"
  shows "\<exists>r fs'. create_chain v clst fs = Some (r, fs') \<and>
    (if \<exists>c. in_vol fs c \<and> fat_of D fs c = 0
     then in_vol fs r \<and> fat_of D fs r = 0 \<and> becomes D fs (extended (fs_type fs) clst r (fat_of D fs)) fs' \<and> last_clust fs' = r
     else r = 0 \<and> becomes D fs (fat_of D fs) fs')"
proof -
  let ?F = "fat_of D fs"
  have big: "n_fatent fs \<le> 0x0fffffff"
  proof -
    have "fat_trunc ty 0x0fffffff \<le> 0x0fffffff" for ty by (cases ty) (simp_all add: fat_trunc_def)
    with inv show ?thesis unfolding fat_inv_def by (meson order_trans)
  qed
  define scl where "scl = (if clst = 0 then if last_clust fs = 0 \<or> last_clust fs \<ge> n_fatent fs then 1 else last_clust fs else clst)"
  have s: "1 \<le> scl" "scl < n_fatent fs"
    using n c by (auto simp: scl_def in_vol_def word_le_nat_alt word_less_nat_alt unat_gt_0 Suc_le_eq)
  obtain fs1 where st: "becomes D fs ?F fs1"
    "create_chain v clst fs = do {
       (r, fs) \<leftarrow> find_free v scl scl fs1;
       case r of Inl r \<Rightarrow> Some (r, fs) | Inr ncl \<Rightarrow> link_new v clst ncl fs }"
  proof (cases "clst = 0")
    case True
    have "create_chain v clst fs = do {
       (r, fs) \<leftarrow> find_free v scl scl fs;
       case r of Inl r \<Rightarrow> Some (r, fs) | Inr ncl \<Rightarrow> link_new v clst ncl fs }"
      unfolding scl_def True by (simp add: create_chain_def Let_def)
    then show thesis by (rule that [OF becomes_refl [OF inv]])
  next
    case False
    with c have iv: "in_vol fs clst" "n_fatent fs \<le> ?F clst" by auto
    obtain fs1 where g: "get_fat v clst fs = Some (?F clst, fs1)" "becomes D fs ?F fs1" "fs_frame fs fs1"
      using becomes_get [OF D becomes_refl [OF inv] iv(1)] by blast
    have "\<not> ?F clst < 2" "\<not> ?F clst < n_fatent fs1" using iv(2) n fsframe_fields(10) [OF g(3)] by auto
    with False g show thesis using that [of fs1] by (simp add: create_chain_def scl_def)
  qed
  have ok': "\<forall>c. in_vol fs c \<longrightarrow> ?F c \<noteq> 1 \<and> ?F c \<noteq> 0xffffffff" using ok fat_of_no_error by blast
  obtain r fs2 where f: "find_free v scl scl fs1 = Some (r, fs2)" "becomes D fs ?F fs2"
    "case r of Inr c \<Rightarrow> in_vol fs c \<and> ?F c = 0
     | Inl x \<Rightarrow> x = 0 \<and> (\<forall>c. in_vol fs c \<longrightarrow> ahead (unat scl) (unat scl) (unat c) \<longrightarrow> ?F c \<noteq> 0)"
    using find_free_ok [OF D ok' s big n st(1) s] by blast
  show ?thesis
  proof (cases r)
    case (Inl x)
    with f(3) have "x = 0" "\<forall>c. in_vol fs c \<longrightarrow> ?F c \<noteq> 0" by (auto simp: ahead_def)
    with st(2) f Inl show ?thesis by auto
  next
    case (Inr x)
    with f(3) have x: "in_vol fs x" "?F x = 0" by auto
    have c': "clst = 0 \<or> in_vol fs clst" using c by blast
    from link_new_ok [OF D inv f(2) x(1) c'] obtain fs3 where
      "link_new v clst x fs2 = Some (x, fs3)" "becomes D fs (extended (fs_type fs) clst x ?F) fs3" "last_clust fs3 = x" by blast
    with st(2) f(1) Inr x show ?thesis by auto
  qed
qed

lemma is_chain_extend:
  assumes "is_chain F n (cs @ [c])" "in_vol fs r" "F r = 0" "n = n_fatent fs" "fat_inv D fs" "c \<noteq> 0" "0 < n"
  shows "is_chain (extended (fs_type fs) c r F) n (cs @ [c, r])"
proof -
  let ?G = "extended (fs_type fs) c r F"
  have r: "r \<notin> set (cs @ [c])"
  proof
    assume "r \<in> set (cs @ [c])"
    then obtain us vs where e: "cs @ [c] = us @ r # vs" by (auto simp only: in_set_conv_decomp)
    from is_chain_suffix [of F n us r vs] assms(1) e have ch: "is_chain F n (r # vs)" by simp
    show False
    proof (cases vs)
      case Nil
      with ch assms(3,7) show False by simp
    next
      case (Cons d ds)
      with ch assms(3) have "d = 0" by simp
      with Cons ch is_chain_in [of F n "r # vs" d] show False by auto
    qed
  qed
  have end_mark: "?G r = fat_trunc (fs_type fs) 0x0fffffff" "?G c = r"
    using r assms(6) by (auto simp: extended_def)
  have last: "is_chain ?G n [r]"
    using assms(2,4,5) end_mark(1) by (auto simp: in_vol_def fat_inv_def)
  have dist: "distinct (cs @ [c])" by (rule is_chain_distinct [OF assms(1)])
  have "is_chain F n (us @ [c]) \<Longrightarrow> c \<notin> set us \<Longrightarrow> r \<notin> set (us @ [c]) \<Longrightarrow> is_chain ?G n (us @ [c, r])" for us
  proof (induction us)
    case Nil
    with last end_mark(2) show ?case by simp
  next
    case (Cons u us)
    have u: "?G u = F u" using Cons.prems(2,3) assms(6) by (auto simp: extended_def)
    show ?case
    proof (cases us)
      case Nil
      with Cons u last end_mark(2) show ?thesis by simp
    next
      case (Cons w ws)
      with Cons.IH Cons.prems u show ?thesis by simp
    qed
  qed
  from this [OF assms(1)] dist r show ?thesis by simp
qed


subsection \<open>A small volume\<close>

text \<open>A drive in memory, and a volume of six clusters with one chain, 2 and 3.\<close>

definition ram_drive :: "(u32 \<Rightarrow> u8 list) drive" where
  "ram_drive = \<lparr>dk_status = (\<lambda>d k. Some (0, k)), dk_initialize = (\<lambda>d k. Some (0, k)),
     dk_read = (\<lambda>d s c k. Some ((RES_OK, concat (map (\<lambda>i. k (s + of_nat i)) [0..<unat c])), k)),
     dk_write = (\<lambda>d b s c k. Some (RES_OK, \<lambda>x. if unat (x - s) < unat c then take 512 (drop (512 * unat (x - s)) b) else k x)),
     dk_sync = (\<lambda>d k. Some (RES_OK, k))\<rparr>"

definition ram_store :: "(u32 \<Rightarrow> u8 list) store" where
  "ram_store = \<lparr>st_ok = (\<lambda>k. \<forall>s. length (k s) = 512), st_sec = (\<lambda>k. k), st_set = UNIV\<rparr>"

lemma ram_stores: "stores ram_drive ram_store"
proof -
  have "(\<lambda>x. if unat (x - s) < 1 then take 512 (drop (512 * unat (x - s)) b) else k x) = k(s := b)" if "length b = 512"
    for s :: u32 and b :: "u8 list" and k
    using that by (auto simp: fun_eq_iff unat_eq_zero)
  then show ?thesis by (auto simp: stores_def ram_drive_def ram_store_def)
qed

definition sector16 :: "u8 list" where
  "sector16 = [0xf8, 0xff, 0xff, 0xff, 3, 0, 0xff, 0xff] @ replicate 504 0"

definition vol16 :: "(u32 \<Rightarrow> u8 list) FATFS" where
  "vol16 = \<lparr>fs_type = FS_FAT16, drv = 0, csize = 1, n_fats = 2, wflag = False, fsi_flag = False, fs_id = 1,
     n_rootdir = 16, last_clust = 0, free_clust = 0xffffffff, fsi_sector = 0, cdir = 0, n_fatent = 8, fsize = 1,
     fatbase = 1, dirbase = 3, database = 4, winsect = 0, win = replicate 512 0,
     media = (\<lambda>s. if s = 1 \<or> s = 2 then sector16 else replicate 512 0)\<rparr>"

lemma vol16_inv: "fat_inv ram_store vol16"
  by (simp add: fat_inv_def win_inv_def geometry_def vol16_def ram_store_def sector16_def fat_bytes_def fat_trunc_def)

lemma vol16_fields: "fs_type vol16 = FS_FAT16" "n_fatent vol16 = 8" "fatbase vol16 = 1" "fsize vol16 = 1"
  by (simp_all add: vol16_def)

lemma vol16_byte: "i < 512 \<Longrightarrow> fat_byte ram_store vol16 i = sector16 ! i"
  by (simp add: fat_byte_def fat_sect_def view_def vol16_def ram_store_def)

lemma sector16_tail: "8 \<le> i \<Longrightarrow> i < 512 \<Longrightarrow> sector16 ! i = 0"
  unfolding sector16_def by (subst nth_append) simp

lemma vol16_fat:
  assumes "in_vol vol16 c"
  shows "fat_of ram_store vol16 c = (if c = 2 then 3 else if c = 3 then 0xffff else 0)"
proof -
  have "2 \<le> unat c" "unat c < 8" using assms by (simp_all add: in_vol_def vol16_def word_le_nat_alt word_less_nat_alt)
  then have "unat c = 2 \<or> unat c = 3 \<or> 4 \<le> unat c \<and> unat c < 8" by arith
  then show ?thesis
  proof (elim disjE)
    assume "4 \<le> unat c \<and> unat c < 8"
    moreover from this have "c \<noteq> 2" "c \<noteq> 3" by auto
    ultimately show ?thesis
      by (simp add: fat_of_def vol16_fields fat_entry_def vol16_byte sector16_tail)
  qed (auto simp: fat_of_def vol16_byte word_unat_eq_iff vol16_fields fat_entry_def sector16_def)
qed

lemma vol16_in [simp]: "in_vol vol16 c \<longleftrightarrow> 2 \<le> c \<and> c < 8"
  by (simp add: in_vol_def vol16_fields)

lemma vol16_chain: "is_chain (fat_of ram_store vol16) 8 [2, 3]"
  by (simp add: vol16_fat)

subsection \<open>The properties\<close>

text \<open>
  C32: One entry of the allocation table, for all three widths of the table. On a drive that keeps
  sectors, \<open>put_fat\<close> returns, and afterwards \<open>get_fat\<close> reads at that cluster what was written, cut to
  the width of an entry, and at every other cluster what it read before: the packing of two
  twelve-bit entries into three bytes, entries across a sector boundary and the moves of the
  shared window disturb nothing. No sector outside the table changes.
\<close>

theorem put_get_fat:
  assumes D: "stores v D" and inv: "fat_inv D fs" and c: "in_vol fs c" and d: "in_vol fs d"
  shows "\<exists>fs1 fs2 fs3 x. put_fat v c val fs = Some (FR_OK, fs1) \<and> get_fat v d fs = Some (x, fs2) \<and>
    get_fat v d fs1 = Some (if d = c then fat_trunc (fs_type fs) val else x, fs3) \<and>
    fat_inv D fs3 \<and> (\<forall>s. off_fat fs s \<longrightarrow> view D fs3 s = view D fs s)"
proof -
  note b = becomes_refl [OF inv]
  obtain fs1 where p: "put_fat v c val fs = Some (FR_OK, fs1)"
    "becomes D fs ((fat_of D fs)(c := fat_trunc (fs_type fs) val)) fs1"
    using becomes_put [OF D b c] by blast
  obtain fs2 where g: "get_fat v d fs = Some (fat_of D fs d, fs2)" using becomes_get [OF D b d] by blast
  obtain fs3 where "get_fat v d fs1 = Some (((fat_of D fs)(c := fat_trunc (fs_type fs) val)) d, fs3)"
    "becomes D fs ((fat_of D fs)(c := fat_trunc (fs_type fs) val)) fs3"
    using becomes_get [OF D p(2) d] by blast
  with p(1) g show ?thesis by (auto simp: becomes_def)
qed

theorem put_get_fat_witness:
  "\<exists>fs1 fs3. put_fat ram_drive 4 5 vol16 = Some (FR_OK, fs1) \<and> get_fat ram_drive 4 fs1 = Some (5, fs3)"
  using put_get_fat [OF ram_stores vol16_inv, of 4 4 5] by (auto simp: vol16_fields fat_trunc_def)

text \<open>
  C33: Freeing a chain. On a drive that keeps sectors, \<open>remove_chain\<close> at the head of an ended chain
  returns with success; every cluster of the chain is free afterwards, every other entry of the
  table is what it was, no sector outside the table has changed, and the count of free clusters,
  when it is known, has grown by one per cluster.
\<close>

theorem remove_chain_frees:
  assumes D: "stores v D" and inv: "fat_inv D fs" and ch: "is_chain (fat_of D fs) (n_fatent fs) (c # cs)"
  shows "\<exists>fs'. remove_chain v c fs = Some (FR_OK, fs') \<and> fat_inv D fs' \<and>
    (\<forall>d. in_vol fs d \<longrightarrow> fat_of D fs' d = (if d \<in> set (c # cs) then 0 else fat_of D fs d)) \<and>
    (\<forall>s. off_fat fs s \<longrightarrow> view D fs' s = view D fs s) \<and>
    free_clust fs' = freed (length (c # cs)) (free_clust fs) \<and> distinct (c # cs)"
proof -
  have "2 \<le> c" "c < n_fatent fs" using is_chain_in [OF ch, of c] by auto
  then have "remove_chain v c fs = remove_loop v c fs" by (simp add: remove_chain_def in_range)
  moreover have "\<forall>d\<in>set (c # cs). fat_of D fs d \<noteq> 0xffffffff" using fat_of_no_error by blast
  ultimately show ?thesis
    using remove_loop_chain [OF D becomes_refl [OF inv] ch] is_chain_distinct [OF ch] by (auto simp: becomes_def)
qed

theorem remove_chain_frees_witness:
  "\<exists>fs'. remove_chain ram_drive 2 vol16 = Some (FR_OK, fs') \<and> fat_inv ram_store fs' \<and>
    fat_of ram_store fs' 2 = 0 \<and> fat_of ram_store fs' 3 = 0"
  using remove_chain_frees [OF ram_stores vol16_inv, of 2 "[3]"] vol16_chain by (auto simp: vol16_fields)

text \<open>
  C34: Extending a chain. On a drive that keeps sectors, with no reserved entry in the table,
  \<open>create_chain\<close> returns for every volume. When a cluster is free, the result is such a cluster;
  it is now the end of the chain that ended in \<open>clst\<close>, or a chain of its own, and no other entry has
  changed. When none is free the result is 0 and the table is what it was. No sector outside
  the table changes.
\<close>

theorem create_chain_extends:
  assumes D: "stores v D" and inv: "fat_inv D fs" and n: "2 < n_fatent fs"
    and c: "clst = 0 \<or> is_chain (fat_of D fs) (n_fatent fs) (cs @ [clst])"
    and ok: "\<forall>c. in_vol fs c \<longrightarrow> fat_of D fs c \<noteq> 1"
  shows "\<exists>r fs'. create_chain v clst fs = Some (r, fs') \<and> fat_inv D fs' \<and>
    (\<forall>s. off_fat fs s \<longrightarrow> view D fs' s = view D fs s) \<and>
    (if \<exists>c. in_vol fs c \<and> fat_of D fs c = 0
     then in_vol fs r \<and> fat_of D fs r = 0 \<and>
       is_chain (fat_of D fs') (n_fatent fs) (if clst = 0 then [r] else cs @ [clst, r]) \<and>
       (\<forall>d. in_vol fs d \<longrightarrow> d \<noteq> r \<longrightarrow> d \<noteq> clst \<longrightarrow> fat_of D fs' d = fat_of D fs d)
     else r = 0 \<and> (\<forall>d. in_vol fs d \<longrightarrow> fat_of D fs' d = fat_of D fs d))"
proof -
  have c': "clst = 0 \<or> in_vol fs clst \<and> n_fatent fs \<le> fat_of D fs clst"
    using c is_chain_suffix [of _ _ cs clst "[]"] by (auto simp: in_vol_def)
  from create_chain_ok [OF D inv n c' ok] obtain r fs' where k: "create_chain v clst fs = Some (r, fs')"
    "if \<exists>c. in_vol fs c \<and> fat_of D fs c = 0
     then in_vol fs r \<and> fat_of D fs r = 0 \<and> becomes D fs (extended (fs_type fs) clst r (fat_of D fs)) fs' \<and> last_clust fs' = r
     else r = 0 \<and> becomes D fs (fat_of D fs) fs'" by blast
  show ?thesis
  proof (cases "\<exists>c. in_vol fs c \<and> fat_of D fs c = 0")
    case False
    with k have "r = 0 \<and> becomes D fs (fat_of D fs) fs'" by meson
    with k(1) False show ?thesis by (auto simp: becomes_def)
  next
    case True
    with k(2) have r: "in_vol fs r" "fat_of D fs r = 0" and b: "becomes D fs (extended (fs_type fs) clst r (fat_of D fs)) fs'"
      by auto
    let ?G = "extended (fs_type fs) clst r (fat_of D fs)"
    have cong: "is_chain (fat_of D fs') (n_fatent fs) xs = is_chain ?G (n_fatent fs) xs" if "\<forall>x\<in>set xs. in_vol fs x" for xs
      by (rule is_chain_cong) (use b that in \<open>auto simp: becomes_def\<close>)
    have "is_chain (fat_of D fs') (n_fatent fs) (if clst = 0 then [r] else cs @ [clst, r])"
    proof (cases "clst = 0")
      case True
      with cong [of "[r]"] r inv show ?thesis by (simp add: extended_def in_vol_def fat_inv_def)
    next
      case False
      with c have ch: "is_chain (fat_of D fs) (n_fatent fs) (cs @ [clst])" by simp
      have "is_chain ?G (n_fatent fs) (cs @ [clst, r])"
        by (rule is_chain_extend [OF ch r refl inv False]) (use n in \<open>auto simp: word_less_nat_alt\<close>)
      moreover from is_chain_in [OF this] have "\<forall>x\<in>set (cs @ [clst, r]). in_vol fs x" by (auto simp: in_vol_def)
      ultimately show ?thesis using cong [of "cs @ [clst, r]"] False by simp
    qed
    moreover have "\<forall>d. in_vol fs d \<longrightarrow> d \<noteq> r \<longrightarrow> d \<noteq> clst \<longrightarrow> fat_of D fs' d = fat_of D fs d"
      using b by (auto simp: becomes_def extended_def)
    ultimately show ?thesis using k(1) True r b by (auto simp: becomes_def)
  qed
qed

theorem create_chain_extends_witness:
  "\<exists>r fs'. create_chain ram_drive 3 vol16 = Some (r, fs') \<and> fat_of ram_store vol16 r = 0 \<and>
     is_chain (fat_of ram_store fs') 8 [2, 3, r]"
proof -
  have free: "\<exists>c. in_vol vol16 c \<and> fat_of ram_store vol16 c = 0"
    by (rule exI [of _ 4]) (simp add: vol16_fat)
  have "\<forall>c. in_vol vol16 c \<longrightarrow> fat_of ram_store vol16 c \<noteq> 1" by (simp add: vol16_fat del: vol16_in)
  moreover have "is_chain (fat_of ram_store vol16) (n_fatent vol16) ([2] @ [3])" using vol16_chain by (simp add: vol16_fields)
  ultimately show ?thesis
    using create_chain_extends [OF ram_stores vol16_inv, of 3 "[2]"] free by (auto simp: vol16_fields)
qed

end
