(* ===== verification/Block_Drive.thy ===== *)
theory Block_Drive
  imports Fat_Chain
begin

text \<open>
  The contract between the file system and the drive below it, as a locale: drive 0 is ready,
  runs of sectors can be read and written, and hold what was written last.
\<close>

locale block_drive =
  fixes v :: "'k drive" and D :: "'k store"
  assumes is_ready: "st_ok D k \<Longrightarrow> \<exists>k'. dk_status v 0 k = Some (0, k') \<and> st_ok D k' \<and> st_sec D k' = st_sec D k"
    and syncs: "st_ok D k \<Longrightarrow> \<exists>k'. dk_sync v 0 k = Some (RES_OK, k') \<and> st_ok D k' \<and> st_sec D k' = st_sec D k"
    and sector_length: "st_ok D k \<Longrightarrow> s \<in> st_set D \<Longrightarrow> length (st_sec D k s) = 512"
    and reads: "st_ok D k \<Longrightarrow> n \<noteq> 0 \<Longrightarrow> \<forall>i<unat n. s + of_nat i \<in> st_set D \<Longrightarrow>
      \<exists>k'. dk_read v 0 s n k = Some ((RES_OK, concat (map (\<lambda>i. st_sec D k (s + of_nat i)) [0..<unat n])), k') \<and>
        st_ok D k' \<and> st_sec D k' = st_sec D k"
    and writes: "st_ok D k \<Longrightarrow> n \<noteq> 0 \<Longrightarrow> \<forall>i<unat n. s + of_nat i \<in> st_set D \<Longrightarrow> length b = 512 * unat n \<Longrightarrow>
      \<exists>k'. dk_write v 0 b s n k = Some (RES_OK, k') \<and> st_ok D k' \<and>
        st_sec D k' = (\<lambda>x. if unat (x - s) < unat n then take 512 (drop (512 * unat (x - s)) b) else st_sec D k x)"
begin

text \<open>What the window functions need of it.\<close>

lemma stores: "stores v D"
proof -
  have w: "(\<lambda>x. if unat (x - s) < 1 then take 512 (drop (512 * unat (x - s)) b) else f x) = f(s := b)" if "length b = 512"
    for s :: u32 and b :: "u8 list" and f
    using that by (auto simp: fun_eq_iff unat_eq_zero)
  show ?thesis
    unfolding stores_def
  proof (intro conjI allI impI)
    fix k s assume k: "st_ok D k" "s \<in> st_set D"
    show "length (st_sec D k s) = 512" by (rule sector_length [OF k])
    show "\<exists>k'. dk_read v 0 s 1 k = Some ((RES_OK, st_sec D k s), k') \<and> st_ok D k' \<and> st_sec D k' = st_sec D k"
      using reads [OF k(1), of 1 s] k(2) by simp
  next
    fix k s and b :: "u8 list" assume k: "st_ok D k" "s \<in> st_set D" and b: "length b = 512"
    show "\<exists>k'. dk_write v 0 b s 1 k = Some (RES_OK, k') \<and> st_ok D k' \<and> st_sec D k' = (st_sec D k)(s := b)"
      using writes [OF k(1), of 1 s b] k(2) b w [OF b] by simp
  qed
qed

end

text \<open>A drive that can also be started: \<open>plug k M\<close> says that a medium with the sectors \<open>M\<close> is there.\<close>

locale startable_drive = block_drive v D for v :: "'k drive" and D :: "'k store" +
  fixes plug :: "'k \<Rightarrow> (u32 \<Rightarrow> u8 list) \<Rightarrow> bool"
  assumes start: "plug k M \<Longrightarrow> \<exists>k'. dk_initialize v 0 k = Some (0, k') \<and> st_ok D k' \<and> st_sec D k' = M"

text \<open>The drive in memory keeps the contract.\<close>

interpretation ram: startable_drive ram_drive ram_store "\<lambda>k M. k = M \<and> (\<forall>s. length (M s) = 512)"
  by unfold_locales (auto simp: ram_drive_def ram_store_def)

end
