(* ===== verification/Sd_Card.thy ===== *)
theory Sd_Card
  imports Block_Drive
begin

text \<open>
  A memory card on the wire, as the SD specification describes its SPI mode: a high-capacity card
  that answers the commands the driver uses, byte by byte, with delays of its own. It stands for
  the hardware behind \<^verbatim>\<open>fatfs/diskio.c\<close>.
\<close>

subsection \<open>The card\<close>

text \<open>
  The delays: polls before an answer, before a block of data, while the card programs, and the
  rounds of initialisation before the card is ready.
\<close>

record card_par =
  p_ncr :: nat
  p_nac :: nat
  p_busy :: nat
  p_boot :: nat

definition card_par_ok :: "card_par \<Rightarrow> bool" where
  "card_par_ok p \<longleftrightarrow> p_ncr p \<le> 8 \<and> 2 \<le> p_nac p \<and> p_nac p < 1000 \<and> p_busy p < 5000 \<and> p_boot p < 1000"

text \<open>
  Between commands; sending blocks from a sector on; waiting for a block for a sector, one or
  several; receiving that block.
\<close>

datatype card_phase = Ready | Stream u32 | Await bool u32 | Receive bool u32 "u8 list"

record card =
  c_mem :: "u32 \<Rightarrow> u8 list"
  c_idle :: "nat option"
  c_app :: bool
  c_sel :: bool
  c_cmd :: "u8 list"
  c_out :: "u8 list"
  c_phase :: card_phase

text \<open>A block of data as the card sends it: the gap, the token, the bytes and two of checksum.\<close>

definition block_of :: "card_par \<Rightarrow> u8 list \<Rightarrow> u8 list" where
  "block_of p b = replicate (p_nac p) 0xff @ [0xfe] @ b @ [0, 0]"

definition be32 :: "u8 list \<Rightarrow> u32" where
  "be32 b = push_bit 24 (ucast (b ! 0)) OR push_bit 16 (ucast (b ! 1)) OR push_bit 8 (ucast (b ! 2)) OR ucast (b ! 3)"

text \<open>The answer to a command: its status byte, which tells whether the card is idle, then the rest.\<close>

definition answer :: "card_par \<Rightarrow> nat option \<Rightarrow> u8 list \<Rightarrow> u8 list" where
  "answer p idle rest = replicate (p_ncr p) 0xff @ [if idle = None then 0 else 1] @ rest"

definition booted :: "nat option \<Rightarrow> nat option" where
  "booted idle = (case idle of Some (Suc n) \<Rightarrow> Some n | _ \<Rightarrow> None)"

text \<open>
  What the card sends for a command with its argument, and its idle state, application flag and
  phase afterwards. A command the card does not know is answered as illegal.
\<close>

definition reply :: "card_par \<Rightarrow> u8 \<Rightarrow> u32 \<Rightarrow> (u32 \<Rightarrow> u8 list) \<Rightarrow> nat option \<Rightarrow> bool \<Rightarrow>
    u8 list \<times> nat option \<times> bool \<times> card_phase" where
  "reply p cmd arg mem idle app =
     (if cmd = CMD0 then (answer p (Some (p_boot p)) [], Some (p_boot p), False, Ready)
      else if cmd = CMD8 then (answer p idle [0, 0, ucast (drop_bit 8 arg) AND 0x0f, ucast arg], idle, False, Ready)
      else if cmd = CMD55 then (answer p idle [], idle, True, Ready)
      else if cmd = 41 \<and> app then (answer p (booted idle) [], booted idle, False, Ready)
      else if cmd = CMD58 then (answer p idle [0xc0, 0xff, 0x80, 0], idle, False, Ready)
      else if cmd = CMD13 then (answer p idle [0], idle, False, Ready)
      else if cmd = 23 \<and> app then (answer p idle [], idle, False, Ready)
      else if cmd = CMD12 then (0xff # answer p None [], idle, False, Ready)
      else if cmd = CMD17 then (answer p idle (block_of p (mem arg)), idle, False, Ready)
      else if cmd = CMD18 then (answer p idle (block_of p (mem arg)), idle, False, Stream (arg + 1))
      else if cmd = CMD24 then (answer p idle [], idle, False, Await False arg)
      else if cmd = CMD25 then (answer p idle [], idle, False, Await True arg)
      else (replicate (p_ncr p) 0xff @ [0x04], idle, False, Ready))"

definition execute :: "card_par \<Rightarrow> u8 \<Rightarrow> u32 \<Rightarrow> card \<Rightarrow> card" where
  "execute p cmd arg c =
     (let (out, idle, app, ph) = reply p cmd arg (c_mem c) (c_idle c) (c_app c)
      in c\<lparr>c_cmd := [], c_out := out, c_idle := idle, c_app := app, c_phase := ph\<rparr>)"

text \<open>A byte of a command frame; between commands only a start byte counts.\<close>

definition take_cmd :: "card_par \<Rightarrow> u8 \<Rightarrow> card \<Rightarrow> card" where
  "take_cmd p w c =
     (if c_cmd c = [] \<and> drop_bit 6 w \<noteq> 1 then c
      else let bs = c_cmd c @ [w]
      in if length bs < 6 then c\<lparr>c_cmd := bs\<rparr>
      else execute p (bs ! 0 AND 0x3f) (be32 (take 4 (drop 1 bs))) c)"

text \<open>A byte of a block being written: 512 of data, two of checksum.\<close>

definition take_data :: "card_par \<Rightarrow> bool \<Rightarrow> u32 \<Rightarrow> u8 list \<Rightarrow> card \<Rightarrow> card" where
  "take_data p multi a bs c =
     (if length bs < 514 then c\<lparr>c_phase := Receive multi a bs\<rparr>
      else c\<lparr>c_mem := (c_mem c)(a := take 512 bs), c_out := 0x05 # replicate (p_busy p) 0,
        c_phase := if multi then Await True (a + 1) else Ready\<rparr>)"

definition take_byte :: "card_par \<Rightarrow> u8 \<Rightarrow> card \<Rightarrow> card" where
  "take_byte p w c =
     (case c_phase c of
        Ready \<Rightarrow> take_cmd p w c
      | Stream a \<Rightarrow> take_cmd p w (if c_out c = [] then c\<lparr>c_out := block_of p (c_mem c a), c_phase := Stream (a + 1)\<rparr> else c)
      | Await multi a \<Rightarrow>
          if w = (if multi then 0xfc else 0xfe) then c\<lparr>c_phase := Receive multi a []\<rparr>
          else if multi \<and> w = 0xfd then c\<lparr>c_phase := Ready, c_out := replicate (p_busy p) 0\<rparr>
          else c
      | Receive multi a bs \<Rightarrow> take_data p multi a (bs @ [w]) c)"

text \<open>One byte each way; a card that is not selected neither listens nor answers.\<close>

definition xchg :: "card_par \<Rightarrow> u8 \<Rightarrow> card \<Rightarrow> u8 \<times> card" where
  "xchg p w c =
     (if c_sel c then ((case c_out c of [] \<Rightarrow> 0xff | v # _ \<Rightarrow> v), take_byte p w (c\<lparr>c_out := tl (c_out c)\<rparr>)) else (0xff, c))"

fun xchgs :: "card_par \<Rightarrow> u8 list \<Rightarrow> card \<Rightarrow> u8 list \<times> card" where
  "xchgs p [] c = ([], c)"
| "xchgs p (w # ws) c = (let (v, c) = xchg p w c; (vs, c) = xchgs p ws c in (v # vs, c))"

subsection \<open>The SPI core in front of it\<close>

text \<open>
  The core holds the byte received last. It is always ready: a transfer ends before the next
  access. The timer has always run off.
\<close>

definition card_bus :: "card_par \<Rightarrow> (card \<times> u8) bus" where
  "card_bus p = \<lparr>
     bus_rd = (\<lambda>a (c, r). (if a = 0x1102080 then ucast r else if a = 0x1102088 then 0xe0 else 0, (c, r))),
     bus_wr = (\<lambda>a w (c, r). if a = 0x1102084 then (let (v, c) = xchg p (ucast w) c in (c, v))
       else if a = 0x1102094 then (c\<lparr>c_sel := (w \<noteq> 0)\<rparr>, r) else (c, r)),
     bus_ms = (\<lambda>n d. d)\<rparr>"

lemmas card_spi = spi_io_defs bus_defs reg_map

lemma card_rd [simp]:
  "bus_rd (card_bus p) a (c, r) = (if a = 0x1102080 then ucast r else if a = 0x1102088 then 0xe0 else 0, (c, r))"
  by (simp add: card_bus_def)

lemma card_wr [simp]:
  "bus_wr (card_bus p) a w (c, r) =
     (if a = 0x1102084 then (let (v, c) = xchg p (ucast w) c in (c, v))
      else if a = 0x1102094 then (c\<lparr>c_sel := (w \<noteq> 0)\<rparr>, r) else (c, r))"
  by (simp add: card_bus_def)

lemma card_wait [simp]: "msk = 0x40 \<or> msk = 0x80 \<or> msk = 0x20 \<Longrightarrow> wait_on_spi (card_bus p) msk d = Some d"
  by (cases d) (subst wait_on_spi.simps, auto simp: card_spi)

lemma card_timer [simp]: "timer_run (card_bus p) d = Some d"
  by (cases d) (subst timer_run.simps, auto simp: card_spi)

lemma card_dly [simp]: "dly_us (card_bus p) n d = Some d"
  by (cases d) (induction n, auto simp: card_spi)

text \<open>\<open>gives m x c\<close>: the call \<open>m\<close> returns \<open>x\<close> and leaves the card in the state \<open>c\<close>.\<close>

definition gives :: "('a \<times> card \<times> u8) option \<Rightarrow> 'a \<Rightarrow> card \<Rightarrow> bool" where
  "gives m x c \<longleftrightarrow> (\<exists>r. m = Some (x, c, r))"

definition leaves :: "(card \<times> u8) option \<Rightarrow> card \<Rightarrow> bool" where
  "leaves m c \<longleftrightarrow> (\<exists>r. m = Some (c, r))"

lemma gives_bind: "gives m x c \<Longrightarrow> (\<And>r. gives (f (x, c, r)) y c') \<Longrightarrow> gives (m \<bind> f) y c'"
  by (auto simp: gives_def)
lemma leaves_bind: "leaves m c \<Longrightarrow> (\<And>r. gives (f (c, r)) y c') \<Longrightarrow> gives (m \<bind> f) y c'"
  by (auto simp: gives_def leaves_def)
lemma gives_leaves: "gives m x c \<Longrightarrow> (\<And>r. leaves (f (x, c, r)) c') \<Longrightarrow> leaves (m \<bind> f) c'"
  by (auto simp: gives_def leaves_def)
lemma leaves_leaves: "leaves m c \<Longrightarrow> (\<And>r. leaves (f (c, r)) c') \<Longrightarrow> leaves (m \<bind> f) c'"
  by (auto simp: leaves_def)
lemma gives_Some [simp]: "gives (Some (x, c, r)) y c' \<longleftrightarrow> y = x \<and> c' = c" by (auto simp: gives_def)
lemma leaves_Some [simp]: "leaves (Some (c, r)) c' \<longleftrightarrow> c' = c" by (auto simp: leaves_def)

lemma card_byte: "spi_byte (card_bus p) w (c, r) = (let (v, c) = xchg p w c in Some (v, c, v))"
  by (simp add: spi_byte_def card_spi Let_def split: prod.split)

lemma card_bytes: "gives (spi_bytes (card_bus p) ws (c, r)) (fst (xchgs p ws c)) (snd (xchgs p ws c))"
proof (induction ws arbitrary: c r)
  case (Cons w ws)
  obtain v c1 where x: "xchg p w c = (v, c1)" by fastforce
  obtain vs c2 where xs: "xchgs p ws c1 = (vs, c2)" by fastforce
  from Cons [of c1 v] obtain r' where "spi_bytes (card_bus p) ws (c1, v) = Some (vs, c2, r')"
    by (auto simp: gives_def xs)
  then show ?case by (simp add: card_byte x xs)
qed simp

lemma card_xmit: "leaves (xmit_mmc (card_bus p) ws (c, r)) (snd (xchgs p ws c))"
  unfolding xmit_mmc_def Let_def
  by (simp add: card_spi) (rule gives_leaves [OF card_bytes], simp add: card_spi)

lemma card_rcvr: "gives (rcvr_mmc (card_bus p) n (c, r)) (fst (xchgs p (replicate n 0xff) c)) (snd (xchgs p (replicate n 0xff) c))"
  unfolding rcvr_mmc_def Let_def
  by (simp add: card_spi card_bytes)

lemma card_rcvr1: "gives (rcvr1 (card_bus p) (c, r)) (fst (xchg p 0xff c)) (snd (xchg p 0xff c))"
  unfolding rcvr1_def
  by (rule gives_bind [OF card_rcvr]) (simp add: split_beta Let_def)

subsection \<open>What the card answers\<close>

text \<open>Polling a card that is not receiving a block.\<close>

definition polled :: "card \<Rightarrow> bool" where
  "polled c \<longleftrightarrow> c_sel c \<and> c_cmd c = [] \<and> (\<forall>m a bs. c_phase c \<noteq> Receive m a bs)"

lemma poll_byte: "polled c \<Longrightarrow> (c_out c = [] \<longrightarrow> (\<forall>a. c_phase c \<noteq> Stream a)) \<Longrightarrow> take_byte p 0xff c = c"
  by (auto simp: polled_def take_byte_def take_cmd_def split: card_phase.splits)

lemma polled_out [simp]: "polled (c\<lparr>c_out := x\<rparr>) = polled c" by (simp add: polled_def)

lemma poll_one:
  assumes "polled c" "c_out c = v # rest" "rest = [] \<longrightarrow> (\<forall>a. c_phase c \<noteq> Stream a)"
  shows "xchg p 0xff c = (v, c\<lparr>c_out := rest\<rparr>)"
  using assms poll_byte [of "c\<lparr>c_out := rest\<rparr>" p] by (auto simp: xchg_def polled_def)

lemma poll_many:
  assumes "polled c" "c_out c = out @ rest" "rest = [] \<longrightarrow> (\<forall>a. c_phase c \<noteq> Stream a)"
  shows "xchgs p (replicate (length out) 0xff) c = (out, c\<lparr>c_out := rest\<rparr>)"
  using assms
proof (induction out arbitrary: c)
  case Nil
  then show ?case by simp
next
  case (Cons v out)
  have "xchg p 0xff c = (v, c\<lparr>c_out := out @ rest\<rparr>)" by (rule poll_one) (use Cons.prems in auto)
  then show ?case using Cons.IH [of "c\<lparr>c_out := out @ rest\<rparr>"] Cons.prems by simp
qed

lemma poll_silent:
  assumes "polled c" "c_out c = []" "\<forall>a. c_phase c \<noteq> Stream a"
  shows "xchg p 0xff c = (0xff, c)"
proof -
  have "c\<lparr>c_out := []\<rparr> = c" using assms(2) by (cases c) simp
  then have "take_byte p 0xff (c\<lparr>c_out := []\<rparr>) = c" using poll_byte [OF assms(1), of p] assms(2,3) by argo
  with assms(1,2) show ?thesis by (simp add: xchg_def polled_def)
qed

subsection \<open>Commands\<close>

lemma be32_bytes:
  "be32 [ucast (drop_bit 24 a), ucast (drop_bit 16 a), ucast (drop_bit 8 a), ucast a] = a"
proof (rule bit_word_eqI)
  fix n assume "n < LENGTH(32)"
  then show "bit (be32 [ucast (drop_bit 24 a), ucast (drop_bit 16 a), ucast (drop_bit 8 a), ucast a]) n = bit a n"
    by (simp add: be32_def bit_simps) (cases "n < 8"; cases "n < 16"; cases "n < 24"; auto)
qed

lemma start_byte:
  assumes "(cmd :: u8) < 64"
  shows "drop_bit 6 (0x40 OR cmd) = 1" "(0x40 OR cmd) AND 0x3f = cmd"
proof -
  have "take_bit 6 cmd = cmd"
    using assms by (simp add: word_unat_eq_iff unsigned_take_bit_eq take_bit_nat_eq_self word_less_nat_alt)
  then have b: "n < 6" if "bit cmd n" for n
    using that by (metis bit_take_bit_iff)
  have m: "(0x3f :: u8) = mask 6" by (simp add: mask_eq_exp_minus_1)
  have h: "bit (0x40 :: u8) n \<longleftrightarrow> n = 6" for n using bit_exp_iff [where 'a = u8, of 6 n] by auto
  show "drop_bit 6 (0x40 OR cmd) = 1"
    by (rule bit_word_eqI) (use b h in \<open>auto simp: bit_simps\<close>)
  have h': "n < 6 \<Longrightarrow> \<not> bit (0x40 :: u8) n" for n unfolding h by simp
  show "(0x40 OR cmd) AND 0x3f = cmd"
    unfolding m by (rule bit_word_eqI) (use b in \<open>auto simp: bit_simps dest: h'\<close>)
qed

text \<open>A card that is listening for a command; its other state is what counts.\<close>

definition listening :: "card \<Rightarrow> u8 list \<Rightarrow> card \<Rightarrow> bool" where
  "listening c bs c' \<longleftrightarrow> (\<exists>out ph. c' = c\<lparr>c_out := out, c_cmd := bs, c_phase := ph\<rparr> \<and> c_sel c \<and>
     (ph = Ready \<or> (\<exists>a. ph = Stream a)))"

lemma execute_listening: "listening c bs c' \<Longrightarrow> execute p cmd arg c' = execute p cmd arg c"
proof -
  assume "listening c bs c'"
  then obtain out ph where "c' = c\<lparr>c_out := out, c_cmd := bs, c_phase := ph\<rparr>" by (auto simp: listening_def)
  then show ?thesis by (cases c) (simp add: execute_def split: prod.split)
qed

text \<open>What a byte is taken by: a stream may have to go on first.\<close>

lemma listening_byte:
  assumes "listening c bs c'"
  shows "\<exists>x. listening c bs x \<and> snd (xchg p w c') = take_cmd p w x"
proof -
  from assms obtain out ph where c': "c' = c\<lparr>c_out := out, c_cmd := bs, c_phase := ph\<rparr>" "c_sel c"
    "ph = Ready \<or> (\<exists>a. ph = Stream a)" by (auto simp: listening_def)
  let ?d = "c\<lparr>c_out := tl out, c_cmd := bs, c_phase := ph\<rparr>"
  have l: "listening c bs ?d" using c' by (auto simp: listening_def)
  have x: "snd (xchg p w c') = take_byte p w ?d" using c' by (cases c) (simp add: xchg_def)
  show ?thesis
  proof (cases "ph = Ready \<or> tl out \<noteq> []")
    case True
    with x l c' show ?thesis by (auto simp: take_byte_def)
  next
    case False
    with c' obtain a where a: "ph = Stream a" "tl out = []" by auto
    have "listening c bs (?d\<lparr>c_out := block_of p (c_mem c a), c_phase := Stream (a + 1)\<rparr>)"
      using c'(2) by (cases c) (auto simp: listening_def)
    with x a show ?thesis by (auto simp: take_byte_def)
  qed
qed

lemma listening_step:
  assumes "listening c bs c'" "length bs < 5" "bs \<noteq> [] \<or> drop_bit 6 w = 1"
  shows "listening c (bs @ [w]) (snd (xchg p w c'))"
proof -
  from listening_byte [OF assms(1)] obtain x where "listening c bs x" "snd (xchg p w c') = take_cmd p w x" by blast
  with assms(2,3) show ?thesis by (cases c) (auto simp: listening_def take_cmd_def)
qed

lemma listening_last:
  assumes "listening c bs c'" "length bs = 5"
  shows "snd (xchg p w c') = execute p (bs ! 0 AND 0x3f) (be32 (take 4 (drop 1 (bs @ [w])))) c"
proof -
  from listening_byte [OF assms(1)] obtain x where x: "listening c bs x" "snd (xchg p w c') = take_cmd p w x" by blast
  then have "c_cmd x = bs" by (auto simp: listening_def)
  with x assms(2) show ?thesis by (auto simp: take_cmd_def Let_def nth_append execute_listening [OF x(1)])
qed

lemma card_frame:
  assumes "c_sel c" "c_cmd c = []" "c_phase c = Ready \<or> (\<exists>a. c_phase c = Stream a)" "cmd < 64"
  shows "snd (xchgs p (cmd_frame cmd arg) c) = execute p cmd arg c"
proof -
  obtain n where f: "cmd_frame cmd arg = [0x40 OR cmd, ucast (drop_bit 24 arg), ucast (drop_bit 16 arg), ucast (drop_bit 8 arg), ucast arg, n]"
    by (simp add: cmd_frame_def Let_def)
  have "listening c [] c" using assms by (cases c) (auto simp: listening_def)
  note l1 = listening_step [OF this, of "0x40 OR cmd" p]
  note l1 = l1 [simplified start_byte(1) [OF assms(4)], simplified]
  note l2 = listening_step [OF l1, of "ucast (drop_bit 24 arg)" p, simplified]
  note l3 = listening_step [OF l2, of "ucast (drop_bit 16 arg)" p, simplified]
  note l4 = listening_step [OF l3, of "ucast (drop_bit 8 arg)" p, simplified]
  note l5 = listening_step [OF l4, of "ucast arg" p, simplified]
  note l6 = listening_last [OF l5, of p n]
  show ?thesis using l6 unfolding f by (simp add: split_beta Let_def start_byte(2) [OF assms(4)] be32_bytes)
qed


lemma card_deselect: "leaves (deselect (card_bus p) (c, r)) (c\<lparr>c_sel := False\<rparr>)"
  unfolding deselect_def
  by (simp add: card_spi) (rule gives_leaves [OF card_rcvr1], simp add: xchg_def)

lemma ready_busy:
  assumes "polled c" "c_out c = replicate m 0" "\<forall>a. c_phase c \<noteq> Stream a" "m < n"
  shows "gives (ready_loop (card_bus p) n (c, r)) True (c\<lparr>c_out := []\<rparr>)"
  using assms
proof (induction n arbitrary: m c r)
  case (Suc n)
  show ?case
  proof (cases m)
    case 0
    with Suc.prems have "xchg p 0xff c = (0xff, c)" "c\<lparr>c_out := []\<rparr> = c" by (auto simp: poll_silent intro: card.equality)
    with card_rcvr1 [of p c r] show ?thesis
      by (simp only: ready_loop.simps) (rule gives_bind, assumption, simp)
  next
    case (Suc m')
    with Suc.prems have x: "xchg p 0xff c = (0, c\<lparr>c_out := replicate m' 0\<rparr>)" by (intro poll_one) auto
    show ?thesis
      apply (simp only: ready_loop.simps)
      apply (rule gives_bind [OF card_rcvr1])
      using Suc.IH [of "c\<lparr>c_out := replicate m' 0\<rparr>" m'] Suc.prems \<open>m = Suc m'\<close> by (simp add: x)
  qed
qed simp

text \<open>Selecting a card that is between commands, perhaps still busy.\<close>

lemma card_select:
  assumes "c_cmd c = []" "c_phase c = Ready" "c_out c = replicate m 0" "m < 5000"
  shows "gives (select (card_bus p) (c, r)) True (c\<lparr>c_sel := True, c_out := []\<rparr>)"
proof -
  let ?c = "c\<lparr>c_sel := True\<rparr>"
  have p: "polled ?c" using assms by (simp add: polled_def)
  have x: "\<exists>v. xchg p 0xff ?c = (v, ?c\<lparr>c_out := replicate (m - 1) 0\<rparr>)"
  proof (cases m)
    case 0
    with assms(3) have "?c\<lparr>c_out := []\<rparr> = ?c" by (cases c) simp
    with p assms 0 show ?thesis by (simp add: poll_silent)
  next
    case (Suc n)
    with p assms show ?thesis by (auto intro!: exI [of _ 0] poll_one)
  qed
  then obtain v where v: "xchg p 0xff ?c = (v, ?c\<lparr>c_out := replicate (m - 1) 0\<rparr>)" by blast
  have "gives (ready_loop (card_bus p) 5000 (?c\<lparr>c_out := replicate (m - 1) 0\<rparr>, r)) True (?c\<lparr>c_out := []\<rparr>)" for r
    using ready_busy [of "?c\<lparr>c_out := replicate (m - 1) 0\<rparr>" "m - 1" 5000] p assms by simp
  then show ?thesis
    unfolding select_def wait_ready_def
    apply (simp add: card_spi)
    apply (rule gives_bind [OF card_rcvr1])
    apply (simp add: v)
    apply (rule gives_bind, assumption)
    by simp
qed

text \<open>Selecting a card that is sending blocks: it is inside the gap before one.\<close>

lemma card_select_stream:
  assumes "c_cmd c = []" "c_phase c = Stream a" "c_out c = 0xff # 0xff # rest" "rest \<noteq> []"
  shows "gives (select (card_bus p) (c, r)) True (c\<lparr>c_sel := True, c_out := rest\<rparr>)"
proof -
  let ?c = "c\<lparr>c_sel := True\<rparr>"
  have p: "polled ?c" using assms by (simp add: polled_def)
  have x: "xchg p 0xff ?c = (0xff, ?c\<lparr>c_out := 0xff # rest\<rparr>)" by (rule poll_one) (use p assms in auto)
  have y: "xchg p 0xff (?c\<lparr>c_out := 0xff # rest\<rparr>) = (0xff, ?c\<lparr>c_out := rest\<rparr>)"
    using poll_one [of "?c\<lparr>c_out := 0xff # rest\<rparr>" "0xff" rest p] p assms by simp
  have "gives (ready_loop (card_bus p) (Suc 4999) (?c\<lparr>c_out := 0xff # rest\<rparr>, r)) True (?c\<lparr>c_out := rest\<rparr>)" for r
    by (simp only: ready_loop.simps) (rule gives_bind [OF card_rcvr1], simp add: y)
  then have rl: "gives (ready_loop (card_bus p) 5000 (?c\<lparr>c_out := 0xff # rest\<rparr>, r)) True (?c\<lparr>c_out := rest\<rparr>)" for r
    by simp
  show ?thesis
    unfolding select_def wait_ready_def
    apply (simp add: card_spi)
    apply (rule gives_bind [OF card_rcvr1])
    apply (simp add: x)
    apply (rule gives_bind [OF rl])
    by simp
qed

lemma card_resp:
  assumes "polled c" "c_out c = replicate n 0xff @ v # rest" "n < N" "\<not> bit v 7"
    "rest = [] \<longrightarrow> (\<forall>a. c_phase c \<noteq> Stream a)"
  shows "gives (resp_loop (card_bus p) N (c, r)) v (c\<lparr>c_out := rest\<rparr>)"
  using assms
proof (induction n arbitrary: N c r)
  case 0
  then have x: "xchg p 0xff c = (v, c\<lparr>c_out := rest\<rparr>)" by (intro poll_one) auto
  from 0 obtain N' where N: "N = Suc N'" by (cases N) auto
  have "v AND 0x80 = 0" using 0 by (simp add: bit_iff_and_push_bit_not_eq_0)
  with x show ?case unfolding N
    by (simp only: resp_loop.simps) (rule gives_bind [OF card_rcvr1], simp)
next
  case (Suc n)
  let ?c = "c\<lparr>c_out := replicate n 0xff @ v # rest\<rparr>"
  from Suc.prems have x: "xchg p 0xff c = (0xff, ?c)" by (intro poll_one) auto
  from Suc.prems obtain N' where N: "N = Suc N'" "n < N'" by (cases N) auto
  from Suc.IH [of ?c N'] Suc.prems N have "gives (resp_loop (card_bus p) N' (?c, r)) v (c\<lparr>c_out := rest\<rparr>)" for r by simp
  then show ?case unfolding N
    by (simp only: resp_loop.simps) (rule gives_bind [OF card_rcvr1], use x N in simp)
qed

text \<open>\<open>at_rest\<close>: between commands, listening to none, busy for \<open>m\<close> more polls.\<close>

definition at_rest :: "(u32 \<Rightarrow> u8 list) \<Rightarrow> nat option \<Rightarrow> bool \<Rightarrow> nat \<Rightarrow> card \<Rightarrow> bool" where
  "at_rest M idle app m c \<longleftrightarrow> c_mem c = M \<and> c_idle c = idle \<and> c_app c = app \<and> c_cmd c = [] \<and> c_phase c = Ready \<and>
     c_out c = replicate m 0"

lemma card_send:
  assumes "at_rest M idle app m c" "m < 5000" "cmd < 64" "cmd \<noteq> CMD12" "p_ncr p \<le> 8"
    and r: "reply p cmd arg M idle app = (replicate (p_ncr p) 0xff @ v # rest, idle', app', ph)" "\<not> bit v 7"
      "rest = [] \<longrightarrow> (\<forall>a. ph \<noteq> Stream a)" "\<forall>m a bs. ph \<noteq> Receive m a bs"
  shows "gives (send_plain (card_bus p) cmd arg (c, r)) v
    \<lparr>c_mem = M, c_idle = idle', c_app = app', c_sel = True, c_cmd = [], c_out = rest, c_phase = ph\<rparr>"
proof -
  let ?c1 = "c\<lparr>c_sel := False\<rparr>" let ?c2 = "c\<lparr>c_sel := True, c_out := []\<rparr>"
  let ?c4 = "\<lparr>c_mem = M, c_idle = idle', c_app = app', c_sel = True, c_cmd = [], c_out = rest, c_phase = ph\<rparr>"
  let ?c3 = "?c4\<lparr>c_out := replicate (p_ncr p) 0xff @ v # rest\<rparr>"
  have s: "gives (select (card_bus p) (?c1, r)) True ?c2" for r
    using card_select [of ?c1 m p r] assms(1,2) by (simp add: at_rest_def)
  have e: "snd (xchgs p (cmd_frame cmd arg) ?c2) = ?c3"
  proof -
    have "snd (xchgs p (cmd_frame cmd arg) ?c2) = execute p cmd arg ?c2"
      by (rule card_frame) (use assms(1,3) in \<open>auto simp: at_rest_def\<close>)
    also have "\<dots> = ?c3" using assms(1) r(1) by (cases c) (simp add: execute_def at_rest_def)
    finally show ?thesis .
  qed
  have a: "gives (resp_loop (card_bus p) 10 (?c3, r)) v (?c3\<lparr>c_out := rest\<rparr>)" for r
    by (rule card_resp) (use assms(5) r in \<open>auto simp: polled_def\<close>)
  show ?thesis
    unfolding send_plain_def
    apply (rule leaves_bind [OF card_deselect])
    apply (rule gives_bind [OF s])
    apply simp
    apply (rule leaves_bind [OF card_xmit])
    using a assms(4) by (simp add: e)
qed

subsection \<open>Blocks\<close>

lemma card_token:
  assumes "polled c" "c_out c = replicate n 0xff @ 0xfe # rest" "n < N" "rest \<noteq> []"
  shows "gives (token_loop (card_bus p) N u (c, r)) 0xfe (c\<lparr>c_out := rest\<rparr>)"
  using assms
proof (induction n arbitrary: N c u r)
  case 0
  then have x: "xchg p 0xff c = (0xfe, c\<lparr>c_out := rest\<rparr>)" by (intro poll_one) auto
  from 0 obtain N' where N: "N = Suc N'" by (cases N) auto
  from x show ?case unfolding N
    by (simp only: token_loop.simps) (rule gives_bind [OF card_rcvr1], simp)
next
  case (Suc n)
  let ?c = "c\<lparr>c_out := replicate n 0xff @ 0xfe # rest\<rparr>"
  from Suc.prems have x: "xchg p 0xff c = (0xff, ?c)" by (intro poll_one) auto
  from Suc.prems obtain N' where N: "N = Suc N'" "n < N'" by (cases N) auto
  from Suc.IH [of ?c N'] Suc.prems N have "gives (token_loop (card_bus p) N' u (?c, r)) 0xfe (c\<lparr>c_out := rest\<rparr>)" for r u by simp
  then show ?case unfolding N
    by (simp only: token_loop.simps) (rule gives_bind [OF card_rcvr1], use x in simp)
qed

text \<open>After a block: silence, or the next block of a stream.\<close>

definition advance :: "card_par \<Rightarrow> card \<Rightarrow> card" where
  "advance p c = (case c_phase c of Stream a \<Rightarrow> c\<lparr>c_out := block_of p (c_mem c a), c_phase := Stream (a + 1)\<rparr>
     | _ \<Rightarrow> c\<lparr>c_out := []\<rparr>)"

lemma poll_last:
  assumes "polled c" "c_out c = [v]"
  shows "xchg p 0xff c = (v, advance p c)"
proof (cases "\<exists>a. c_phase c = Stream a")
  case True
  with assms show ?thesis by (cases c) (auto simp: xchg_def polled_def take_byte_def take_cmd_def advance_def)
next
  case False
  with assms poll_one [of c v "[]" p] show ?thesis by (auto simp: advance_def split: card_phase.split)
qed

lemma advance_out [simp]: "advance p (c\<lparr>c_out := x\<rparr>) = advance p c"
  by (cases c) (auto simp: advance_def split: card_phase.split)

lemma card_block:
  assumes "polled c" "c_out c = block_of p b" "length b = n" "p_nac p < 1000"
  shows "gives (rcvr_datablock (card_bus p) n (c, r)) (Some b) (advance p c)"
proof -
  have t: "gives (token_loop (card_bus p) 1000 0 (c, r)) 0xfe (c\<lparr>c_out := b @ [0, 0]\<rparr>)" for r
    by (rule card_token) (use assms in \<open>auto simp: block_of_def\<close>)
  have d: "xchgs p (replicate n 0xff) (c\<lparr>c_out := b @ [0, 0]\<rparr>) = (b, c\<lparr>c_out := [0, 0]\<rparr>)"
    using poll_many [of "c\<lparr>c_out := b @ [0, 0]\<rparr>" b "[0, 0]" p] assms by simp
  have x1: "xchg p 0xff (c\<lparr>c_out := [0, 0]\<rparr>) = (0, c\<lparr>c_out := [0]\<rparr>)"
    using poll_one [of "c\<lparr>c_out := [0, 0]\<rparr>" 0 "[0]" p] assms by simp
  have x2: "xchg p 0xff (c\<lparr>c_out := [0]\<rparr>) = (0, advance p c)"
    using poll_last [of "c\<lparr>c_out := [0]\<rparr>" 0 p] assms by simp
  have "xchgs p (replicate 2 0xff) (c\<lparr>c_out := [0, 0]\<rparr>) = ([0, 0], advance p c)"
    using x1 x2 by (simp add: numeral_2_eq_2)
  then have k: "gives (rcvr_mmc (card_bus p) 2 (c\<lparr>c_out := [0, 0]\<rparr>, r)) [0, 0] (advance p c)" for r
    using card_rcvr [of p 2 "c\<lparr>c_out := [0, 0]\<rparr>" r] by simp
  have d': "gives (rcvr_mmc (card_bus p) n (c\<lparr>c_out := b @ [0, 0]\<rparr>, r)) b (c\<lparr>c_out := [0, 0]\<rparr>)" for r
    using card_rcvr [of p n "c\<lparr>c_out := b @ [0, 0]\<rparr>" r] by (simp add: d)
  show ?thesis
    unfolding rcvr_datablock_def
    apply (rule gives_bind [OF t])
    apply simp
    apply (rule gives_bind [OF d'])
    apply simp
    apply (rule gives_bind [OF k])
    by simp
qed

text \<open>A stream of blocks from sector \<open>a\<close> on.\<close>

definition streaming :: "card_par \<Rightarrow> (u32 \<Rightarrow> u8 list) \<Rightarrow> u32 \<Rightarrow> card" where
  "streaming p M a = \<lparr>c_mem = M, c_idle = None, c_app = False, c_sel = True, c_cmd = [], c_out = block_of p (M a),
     c_phase = Stream (a + 1)\<rparr>"

lemma card_blocks:
  assumes "\<forall>s. length (M s) = 512" "p_nac p < 1000"
  shows "gives (read_blocks (card_bus p) n (streaming p M a, r))
    (concat (map (\<lambda>i. M (a + of_nat i)) [0..<n]), 0) (streaming p M (a + of_nat n))"
proof (induction n arbitrary: a r)
  case (Suc n)
  have "polled (streaming p M a)" by (simp add: streaming_def polled_def)
  then have b: "gives (rcvr_datablock (card_bus p) 512 (streaming p M a, r)) (Some (M a)) (streaming p M (a + 1))" for r
    using card_block [of "streaming p M a" p "M a" 512 r] assms by (simp add: streaming_def advance_def)
  have e: "concat (map (\<lambda>i. M (a + of_nat i)) [0..<Suc n]) = M a @ concat (map (\<lambda>i. M (a + 1 + of_nat i)) [0..<n])"
    by (simp add: upt_conv_Cons map_Suc_upt [symmetric] comp_def ac_simps del: upt_Suc)
  show ?case
    unfolding read_blocks.simps e
    apply (rule gives_bind [OF b])
    apply simp
    apply (rule gives_bind [OF Suc.IH])
    by (simp add: ac_simps)
qed simp

text \<open>Stopping a stream.\<close>

lemma small_cmds [simp]:
  "CMD0 < 64" "CMD8 < 64" "CMD12 < 64" "CMD13 < 64" "CMD17 < 64" "CMD18 < 64" "CMD24 < 64" "CMD25 < 64" "CMD55 < 64" "CMD58 < 64"
  by (simp_all add: cmd_defs)

lemma plain_cmds [simp]:
  "CMD0 AND 0x80 = 0" "CMD8 AND 0x80 = 0" "CMD12 AND 0x80 = 0" "CMD13 AND 0x80 = 0" "CMD17 AND 0x80 = 0"
  "CMD18 AND 0x80 = 0" "CMD24 AND 0x80 = 0" "CMD25 AND 0x80 = 0" "CMD58 AND 0x80 = 0"
  by (simp_all add: cmd_defs)

lemma card_stop:
  assumes "card_par_ok p"
  shows "gives (send_cmd (card_bus p) CMD12 0 (streaming p M a, r)) 0
    \<lparr>c_mem = M, c_idle = None, c_app = False, c_sel = True, c_cmd = [], c_out = [], c_phase = Ready\<rparr>"
proof -
  have "p_nac p = Suc (Suc (p_nac p - 2))" using assms unfolding card_par_ok_def by linarith
  then obtain n where n: "p_nac p = Suc (Suc n)" by blast
  let ?rest = "replicate n 0xff @ [0xfe] @ M a @ [0, 0]"
  let ?c1 = "(streaming p M a)\<lparr>c_sel := False\<rparr>" let ?c2 = "(streaming p M a)\<lparr>c_out := ?rest\<rparr>"
  let ?c5 = "\<lparr>c_mem = M, c_idle = None, c_app = False, c_sel = True, c_cmd = [], c_out = [], c_phase = Ready\<rparr>"
  let ?c4 = "?c5\<lparr>c_out := replicate (p_ncr p) 0xff @ [0]\<rparr>"
  let ?c3 = "?c5\<lparr>c_out := 0xff # replicate (p_ncr p) 0xff @ [0]\<rparr>"
  have s: "gives (select (card_bus p) (?c1, r)) True ?c2" for r
    using card_select_stream [of ?c1 "a + 1" ?rest p r] n by (simp add: streaming_def block_of_def)
  have "snd (xchgs p (cmd_frame CMD12 0) ?c2) = execute p CMD12 0 ?c2"
    by (rule card_frame) (simp_all add: streaming_def)
  also have "\<dots> = ?c3" by (simp add: streaming_def execute_def reply_def answer_def cmd_defs)
  finally have e: "snd (xchgs p (cmd_frame CMD12 0) ?c2) = ?c3" .
  have x: "xchg p 0xff ?c3 = (0xff, ?c4)"
    using poll_one [of ?c3 "0xff" "replicate (p_ncr p) 0xff @ [0]" p] by (simp add: polled_def)
  have a: "gives (resp_loop (card_bus p) 10 (?c4, r)) 0 ?c5" for r
    using card_resp [of ?c4 "p_ncr p" 0 "[]" 10 p r] assms by (simp add: polled_def card_par_ok_def)
  have "gives (send_plain (card_bus p) CMD12 0 (streaming p M a, r)) 0 ?c5"
    unfolding send_plain_def
    apply (rule leaves_bind [OF card_deselect])
    apply (rule gives_bind [OF s])
    apply simp
    apply (rule leaves_bind [OF card_xmit])
    apply (rule gives_bind [OF card_rcvr1])
    using a e x by simp
  then show ?thesis by (simp add: send_cmd_def)
qed

text \<open>A block sent to the card.\<close>

definition awaiting :: "(u32 \<Rightarrow> u8 list) \<Rightarrow> bool \<Rightarrow> u32 \<Rightarrow> nat \<Rightarrow> card" where
  "awaiting M multi a m = \<lparr>c_mem = M, c_idle = None, c_app = False, c_sel = True, c_cmd = [], c_out = replicate m 0,
     c_phase = Await multi a\<rparr>"

definition receiving :: "(u32 \<Rightarrow> u8 list) \<Rightarrow> bool \<Rightarrow> u32 \<Rightarrow> u8 list \<Rightarrow> card" where
  "receiving M multi a bs = \<lparr>c_mem = M, c_idle = None, c_app = False, c_sel = True, c_cmd = [], c_out = [],
     c_phase = Receive multi a bs\<rparr>"

definition rested :: "(u32 \<Rightarrow> u8 list) \<Rightarrow> nat \<Rightarrow> card" where
  "rested M m = \<lparr>c_mem = M, c_idle = None, c_app = False, c_sel = True, c_cmd = [], c_out = replicate m 0, c_phase = Ready\<rparr>"

lemma card_data:
  "length bs + length ws < 514 \<Longrightarrow> snd (xchgs p ws (receiving M multi a bs)) = receiving M multi a (bs @ ws)"
proof (induction ws arbitrary: bs)
  case (Cons w ws)
  have "snd (xchg p w (receiving M multi a bs)) = receiving M multi a (bs @ [w])"
    using Cons.prems by (simp add: receiving_def xchg_def take_byte_def take_data_def)
  with Cons.IH [of "bs @ [w]"] Cons.prems show ?case by (simp add: split_beta Let_def)
qed simp

lemma card_sent_block:
  assumes "length b = 512" "m < 5000" "token = (if multi then 0xfc else 0xfe)"
  shows "gives (xmit_datablock (card_bus p) b token (awaiting M multi a m, r)) True
    (if multi then awaiting (M(a := b)) True (a + 1) (p_busy p) else rested (M(a := b)) (p_busy p))"
proof -
  have w: "gives (ready_loop (card_bus p) 5000 (awaiting M multi a m, r)) True (awaiting M multi a 0)" for r
    using ready_busy [of "awaiting M multi a m" m 5000 p r] assms by (simp add: awaiting_def polled_def)
  have t: "snd (xchgs p [token] (awaiting M multi a 0)) = receiving M multi a []"
    using assms(3) by (simp add: awaiting_def receiving_def xchg_def take_byte_def)
  have d: "snd (xchgs p b (receiving M multi a [])) = receiving M multi a b"
    using card_data [of "[]" b] assms(1) by simp
  let ?e = "if multi then awaiting (M(a := b)) True (a + 1) (p_busy p) else rested (M(a := b)) (p_busy p)"
  let ?f = "?e\<lparr>c_out := 0x05 # replicate (p_busy p) 0\<rparr>"
  have c: "snd (xchgs p (replicate 2 0xff) (receiving M multi a b)) = ?f"
    using assms(1) by (simp add: numeral_2_eq_2 receiving_def xchg_def take_byte_def take_data_def awaiting_def rested_def)
  have x: "xchg p 0xff ?f = (0x05, ?e)"
    using poll_one [of ?f "0x05" "replicate (p_busy p) 0" p] by (auto simp: polled_def awaiting_def rested_def)
  have tk: "token \<noteq> 0xfd" using assms(3) by simp
  show ?thesis
    unfolding xmit_datablock_def wait_ready_def
    apply (rule gives_bind [OF w])
    apply (simp only: prod.case simp_thms if_False)
    apply (rule leaves_bind [OF card_xmit])
    apply (simp only: t tk simp_thms if_True)
    apply (rule leaves_bind [OF card_xmit])
    apply (simp only: d)
    apply (rule gives_bind [OF card_rcvr])
    apply (simp only: c prod.case)
    apply (rule gives_bind [OF card_rcvr1])
    by (simp add: x)
qed

lemma card_sent_stop:
  assumes "m < 5000"
  shows "gives (xmit_datablock (card_bus p) [] 0xfd (awaiting M True a m, r)) True (rested M (p_busy p))"
proof -
  have w: "gives (ready_loop (card_bus p) 5000 (awaiting M True a m, r)) True (awaiting M True a 0)" for r
    using ready_busy [of "awaiting M True a m" m 5000 p r] assms by (simp add: awaiting_def polled_def)
  have t: "snd (xchgs p [0xfd] (awaiting M True a 0)) = rested M (p_busy p)"
    by (simp add: awaiting_def rested_def xchg_def take_byte_def)
  show ?thesis
    unfolding xmit_datablock_def wait_ready_def
    apply (rule gives_bind [OF w])
    apply (simp only: prod.case simp_thms if_False)
    apply (rule leaves_bind [OF card_xmit])
    by (simp add: t [simplified])
qed

subsection \<open>The driver on the card\<close>

definition card_ready :: "(u32 \<Rightarrow> u8 list) \<Rightarrow> (card \<times> u8) disk \<Rightarrow> bool" where
  "card_ready M k \<longleftrightarrow> Stat k = 0 \<and> CardType k = CT_SD2 OR CT_BLOCK \<and> (\<forall>s. length (M s) = 512) \<and>
     (\<exists>m<5000. at_rest M None False m (fst (port k)))"

lemma rested_at_rest [simp]: "at_rest M None False m (rested M m)" "at_rest M None False m (rested M m\<lparr>c_sel := b\<rparr>)"
  by (simp_all add: at_rest_def rested_def)

text \<open>A plain command to a card at rest.\<close>

lemma card_cmd:
  assumes "card_ready M k" "card_par_ok p" "port k = (c, r)" "cmd < 64" "cmd \<noteq> CMD12" "cmd AND 0x80 = 0"
    and rp: "reply p cmd arg M None False = (answer p None rest, None, False, ph)"
      "rest = [] \<longrightarrow> (\<forall>a. ph \<noteq> Stream a)" "\<forall>m a bs. ph \<noteq> Receive m a bs"
  shows "gives (send_cmd (card_bus p) cmd arg (c, r)) 0
    \<lparr>c_mem = M, c_idle = None, c_app = False, c_sel = True, c_cmd = [], c_out = rest, c_phase = ph\<rparr>"
proof -
  from assms(1,3) obtain m where m: "m < 5000" "at_rest M None False m c" by (auto simp: card_ready_def)
  have "gives (send_plain (card_bus p) cmd arg (c, r)) 0
    \<lparr>c_mem = M, c_idle = None, c_app = False, c_sel = True, c_cmd = [], c_out = rest, c_phase = ph\<rparr>"
    by (rule card_send [OF m(2,1) assms(4,5)]) (use assms(2) rp in \<open>auto simp: card_par_ok_def answer_def\<close>)
  with assms(6) show ?thesis by (simp add: send_cmd_def)
qed

lemma card_status:
  assumes k: "card_ready M k" and p: "card_par_ok p"
  shows "\<exists>k'. disk_status (card_bus p) 0 k = Some (0, k') \<and> card_ready M k'"
proof -
  obtain c r where c: "port k = (c, r)" by fastforce
  let ?c1 = "(rested M 0)\<lparr>c_out := [0]\<rparr>"
  have "gives (send_cmd (card_bus p) CMD13 0 (c, r)) 0 ?c1"
    using card_cmd [OF k p c, of CMD13 0 "[0]" Ready] by (simp add: reply_def cmd_defs rested_def)
  then obtain r1 where 1: "send_cmd (card_bus p) CMD13 0 (c, r) = Some (0, ?c1, r1)" by (auto simp: gives_def)
  have "xchg p 0xff ?c1 = (0, rested M 0)"
    using poll_one [of ?c1 0 "[]" p] by (simp add: polled_def rested_def)
  with card_rcvr1 [of p ?c1 r1] obtain r2 where 2: "rcvr1 (card_bus p) (?c1, r1) = Some (0, rested M 0, r2)"
    by (auto simp: gives_def)
  obtain r3 where 3: "deselect (card_bus p) (rested M 0, r2) = Some (rested M 0\<lparr>c_sel := False\<rparr>, r3)"
    using card_deselect [of p "rested M 0" r2] by (auto simp: leaves_def)
  have s: "Stat k = 0" using k by (simp add: card_ready_def)
  have "disk_status (card_bus p) 0 k = Some (0, k\<lparr>Stat := 0, port := (rested M 0\<lparr>c_sel := False\<rparr>, r3)\<rparr>)"
    using 1 2 3 c s by (simp add: disk_status_def STA_NOINIT_def)
  moreover have "card_ready M (k\<lparr>Stat := 0, port := (rested M 0\<lparr>c_sel := False\<rparr>, r3)\<rparr>)"
    using k by (auto simp: card_ready_def intro!: exI [of _ 0])
  ultimately show ?thesis by blast
qed

lemma card_finish:
  assumes "card_ready M0 k" "\<forall>s. length (M s) = 512" "m < 5000"
  shows "\<exists>d. deselect (card_bus p) (rested M m, r) = Some d \<and> card_ready M (k\<lparr>port := d\<rparr>)"
proof -
  obtain r' where "deselect (card_bus p) (rested M m, r) = Some (rested M m\<lparr>c_sel := False\<rparr>, r')"
    using card_deselect [of p "rested M m" r] by (auto simp: leaves_def)
  with assms show ?thesis by (auto simp: card_ready_def)
qed

lemma card_body:
  assumes k: "card_ready M k" and p: "card_par_ok p" and c: "port k = (c, r)" and n: "n \<noteq> 0"
  shows "gives (read_body (card_bus p) s n (c, r)) (concat (map (\<lambda>i. M (s + of_nat i)) [0..<unat n]), 0) (rested M 0)"
proof (cases "n = 1")
  case True
  have l: "length (M s) = 512" using k by (simp add: card_ready_def)
  let ?c1 = "(rested M 0)\<lparr>c_out := block_of p (M s)\<rparr>"
  have 1: "gives (send_cmd (card_bus p) CMD17 s (c, r)) 0 ?c1"
    using card_cmd [OF k p c, of CMD17 s "block_of p (M s)" Ready] by (simp add: reply_def cmd_defs rested_def)
  have 2: "gives (rcvr_datablock (card_bus p) 512 (?c1, r)) (Some (M s)) (rested M 0)" for r
    using card_block [of ?c1 p "M s" 512 r] l p by (simp add: polled_def rested_def advance_def card_par_ok_def)
  show ?thesis
    unfolding read_body_def using True
    apply (simp only: simp_thms if_True)
    apply (rule gives_bind [OF 1])
    apply (simp only: prod.case simp_thms if_True)
    apply (rule gives_bind [OF 2])
    by simp
next
  case False
  have l: "\<forall>s. length (M s) = 512" using k by (simp add: card_ready_def)
  have 1: "gives (send_cmd (card_bus p) CMD18 s (c, r)) 0 (streaming p M s)"
    using card_cmd [OF k p c, of CMD18 s "block_of p (M s)" "Stream (s + 1)"] l
    by (simp add: reply_def cmd_defs streaming_def block_of_def)
  have 2: "gives (send_cmd (card_bus p) CMD12 0 (streaming p M a, r)) 0 (rested M 0)" for a r
    using card_stop [OF p] by (simp add: rested_def)
  have np: "p_nac p < 1000" using p by (simp add: card_par_ok_def)
  show ?thesis
    unfolding read_body_def using False
    apply (simp only: simp_thms if_False)
    apply (rule gives_bind [OF 1])
    apply (simp only: prod.case simp_thms if_True)
    apply (rule gives_bind [OF card_blocks [OF l np]])
    apply (simp only: prod.case)
    apply (rule gives_bind [OF 2])
    by simp
qed

lemma sd2_block: "card_addr (CT_SD2 OR CT_BLOCK) s = s" "(CT_SD2 OR CT_BLOCK) AND CT_SDC \<noteq> 0"
  by (simp_all add: card_addr_def CT_SD2_def CT_BLOCK_def CT_SDC_def)

lemma card_read:
  assumes k: "card_ready M k" and p: "card_par_ok p" and n: "n \<noteq> 0"
  shows "\<exists>k'. disk_read (card_bus p) 0 s n k = Some ((RES_OK, concat (map (\<lambda>i. M (s + of_nat i)) [0..<unat n])), k') \<and>
    card_ready M k'"
proof -
  from card_status [OF k p] obtain k1 where 1: "disk_status (card_bus p) 0 k = Some (0, k1)" "card_ready M k1" by blast
  obtain c r where c: "port k1 = (c, r)" by fastforce
  obtain r2 where 2: "read_body (card_bus p) s n (c, r) = Some ((concat (map (\<lambda>i. M (s + of_nat i)) [0..<unat n]), 0), rested M 0, r2)"
    using card_body [OF 1(2) p c n] by (auto simp: gives_def)
  have l: "\<forall>s. length (M s) = 512" using k by (simp add: card_ready_def)
  obtain d where 3: "deselect (card_bus p) (rested M 0, r2) = Some d" "card_ready M (k1\<lparr>port := d\<rparr>)"
    using card_finish [OF 1(2) l] by fastforce
  have "CardType k1 = CT_SD2 OR CT_BLOCK" using 1(2) by (simp add: card_ready_def)
  with 1 2 3 c n show ?thesis by (simp add: disk_read_def sd2_block(1))
qed

text \<open>The sectors after blocks have been written from \<open>a\<close> on.\<close>

fun put_blocks :: "(u32 \<Rightarrow> u8 list) \<Rightarrow> u32 \<Rightarrow> u8 list list \<Rightarrow> u32 \<Rightarrow> u8 list" where
  "put_blocks M a [] = M"
| "put_blocks M a (b # bs) = put_blocks (M(a := b)) (a + 1) bs"

lemma put_blocks_at:
  "length bs < 2 ^ 32 \<Longrightarrow> put_blocks M a bs x = (if unat (x - a) < length bs then bs ! unat (x - a) else M x)"
proof (induction bs arbitrary: M a)
  case (Cons b bs)
  show ?case
  proof (cases "x = a")
    case True
    have "unat (x - (a + 1)) = 2 ^ 32 - 1" using True by (simp add: unsigned_minus_1_eq_mask mask_eq_exp_minus_1)
    with Cons True show ?thesis by simp
  next
    case False
    then have nz: "x - a \<noteq> 0" by simp
    have "x - (a + 1) = x - a - 1" by simp
    then have "unat (x - (a + 1)) = unat (x - a) - 1" by (simp only: unat_minus_one [OF nz])
    moreover have "unat (x - a) \<noteq> 0" using nz by (simp add: unat_eq_zero)
    ultimately have "unat (x - a) = Suc (unat (x - (a + 1)))" by linarith
    with Cons False show ?thesis by simp
  qed
qed simp

lemma put_blocks_length: "\<forall>s. length (M s) = 512 \<Longrightarrow> \<forall>b\<in>set bs. length b = 512 \<Longrightarrow> length (put_blocks M a bs s) = 512"
  by (induction bs arbitrary: M a) auto

lemma sectors_nth: "i < n \<Longrightarrow> sectors n b ! i = take 512 (drop (512 * i) b)"
proof (induction n b arbitrary: i rule: sectors.induct)
  case (2 n b)
  then show ?case by (cases i) (auto simp: drop_drop ac_simps)
qed simp

lemma sectors_length [simp]: "length (sectors n b) = n"
  by (induction n b rule: sectors.induct) auto

lemma sectors_512: "length b = 512 * n \<Longrightarrow> \<forall>s\<in>set (sectors n b). length s = 512"
  by (induction n b rule: sectors.induct) auto

lemma card_write_blocks:
  assumes "\<forall>b\<in>set bs. length b = 512" "m0 < 5000" "p_busy p < 5000"
  shows "\<exists>m<5000. gives (write_blocks (card_bus p) bs (awaiting M True a m0, r)) 0
    (awaiting (put_blocks M a bs) True (a + of_nat (length bs)) m)"
  using assms
proof (induction bs arbitrary: M a m0 r)
  case (Cons b bs)
  have 1: "gives (xmit_datablock (card_bus p) b 0xfc (awaiting M True a m0, r)) True (awaiting (M(a := b)) True (a + 1) (p_busy p))" for r
    using card_sent_block [of b m0 "0xfc" True p M a r] Cons.prems by simp
  then obtain r1 where 1: "xmit_datablock (card_bus p) b 0xfc (awaiting M True a m0, r) =
      Some (True, awaiting (M(a := b)) True (a + 1) (p_busy p), r1)" by (auto simp: gives_def)
  have "\<exists>m<5000. gives (write_blocks (card_bus p) bs (awaiting (M(a := b)) True (a + 1) (p_busy p), r1)) 0
    (awaiting (put_blocks (M(a := b)) (a + 1) bs) True (a + 1 + of_nat (length bs)) m)"
    by (rule Cons.IH) (use Cons.prems in auto)
  with 1 show ?case by (auto simp: add.assoc)
qed auto

lemma card_acmd23:
  assumes k: "card_ready M k" and p: "card_par_ok p" and c: "port k = (c, r)"
  shows "gives (send_cmd (card_bus p) ACMD23 arg (c, r)) 0 (rested M 0)"
proof -
  from k c obtain m where m: "m < 5000" "at_rest M None False m c" by (auto simp: card_ready_def)
  have ncr: "p_ncr p \<le> 8" using p by (simp add: card_par_ok_def)
  let ?c1 = "(rested M 0)\<lparr>c_app := True\<rparr>"
  have 1: "gives (send_plain (card_bus p) CMD55 0 (c, r)) 0 ?c1"
    using card_send [OF m(2,1) _ _ ncr, of CMD55 0 0 "[]" None True Ready r]
    by (simp add: reply_def answer_def cmd_defs rested_def)
  have "at_rest M None True 0 ?c1" by (simp add: at_rest_def rested_def)
  then have 2: "gives (send_plain (card_bus p) 23 arg (?c1, r)) 0 (rested M 0)" for r
    using card_send [of M None True 0 ?c1 23 p arg 0 "[]" None False Ready r] ncr
    by (simp add: reply_def answer_def cmd_defs rested_def)
  have n: "ACMD23 AND 0x80 \<noteq> 0" "ACMD23 AND 0x7f = 23" by (simp_all add: cmd_defs)
  show ?thesis
    unfolding send_cmd_def using n
    apply simp
    apply (rule gives_bind [OF 1])
    using 2 by simp
qed

lemma card_write_body:
  assumes k: "card_ready M k" and p: "card_par_ok p" and c: "port k = (c, r)" and n: "n \<noteq> 0" and l: "length b = 512 * unat n"
  shows "gives (write_body (card_bus p) (CardType k) b s n (c, r)) 0 (rested (put_blocks M s (sectors (unat n) b)) (p_busy p))"
proof (cases "n = 1")
  case True
  have 1: "gives (send_cmd (card_bus p) CMD24 s (c, r)) 0 (awaiting M False s 0)"
    using card_cmd [OF k p c, of CMD24 s "[]" "Await False s"] by (simp add: reply_def cmd_defs awaiting_def)
  have 2: "gives (xmit_datablock (card_bus p) (take 512 b) 0xfe (awaiting M False s 0, r)) True (rested (M(s := take 512 b)) (p_busy p))" for r
    using card_sent_block [of "take 512 b" 0 "0xfe" False p M s r] l True by simp
  show ?thesis
    unfolding write_body_def using True
    apply (simp only: simp_thms if_True)
    apply (rule gives_bind [OF 1])
    apply (simp only: prod.case simp_thms if_True)
    apply (rule gives_bind [OF 2])
    by simp
next
  case False
  have pb: "p_busy p < 5000" using p by (simp add: card_par_ok_def)
  let ?bs = "sectors (unat n) b"
  obtain r1 where 0: "send_cmd (card_bus p) ACMD23 (ucast n) (c, r) = Some (0, rested M 0, r1)"
    using card_acmd23 [OF k p c] by (auto simp: gives_def)
  have k1: "card_ready M (k\<lparr>port := (rested M 0, r1)\<rparr>)" using k by (auto simp: card_ready_def intro!: exI [of _ 0])
  have "gives (send_cmd (card_bus p) CMD25 s (rested M 0, r1)) 0 (awaiting M True s 0)"
    using card_cmd [OF k1 p, of "rested M 0" r1 CMD25 s "[]" "Await True s"] by (simp add: reply_def cmd_defs awaiting_def)
  then obtain r2 where 1: "send_cmd (card_bus p) CMD25 s (rested M 0, r1) = Some (0, awaiting M True s 0, r2)"
    by (auto simp: gives_def)
  obtain m r3 where 2: "write_blocks (card_bus p) ?bs (awaiting M True s 0, r2) =
      Some (0, awaiting (put_blocks M s ?bs) True (s + of_nat (length ?bs)) m, r3)" "m < 5000"
    using card_write_blocks [OF sectors_512 [OF l] _ pb, of 0 M s r2] by (auto simp: gives_def)
  obtain r4 where 3: "xmit_datablock (card_bus p) [] 0xfd (awaiting (put_blocks M s ?bs) True (s + of_nat (length ?bs)) m, r3) =
      Some (True, rested (put_blocks M s ?bs) (p_busy p), r4)"
    using card_sent_stop [OF 2(2)] unfolding gives_def by blast
  have "CardType k AND CT_SDC \<noteq> 0" using k sd2_block(2) by (simp add: card_ready_def)
  with 0 1 2 3 False show ?thesis by (simp add: write_body_def)
qed

lemma card_write:
  assumes k: "card_ready M k" and p: "card_par_ok p" and n: "n \<noteq> 0" and l: "length b = 512 * unat n"
  shows "\<exists>k'. disk_write (card_bus p) 0 b s n k = Some (RES_OK, k') \<and> card_ready (put_blocks M s (sectors (unat n) b)) k'"
proof -
  from card_status [OF k p] obtain k1 where 1: "disk_status (card_bus p) 0 k = Some (0, k1)" "card_ready M k1" by blast
  obtain c r where c: "port k1 = (c, r)" by fastforce
  let ?M = "put_blocks M s (sectors (unat n) b)"
  obtain r2 where 2: "write_body (card_bus p) (CardType k1) b s n (c, r) = Some (0, rested ?M (p_busy p), r2)"
    using card_write_body [OF 1(2) p c n l] by (auto simp: gives_def)
  have lm: "\<forall>s. length (?M s) = 512" using k sectors_512 [OF l] by (simp add: card_ready_def put_blocks_length)
  have pb: "p_busy p < 5000" using p by (simp add: card_par_ok_def)
  obtain d where 3: "deselect (card_bus p) (rested ?M (p_busy p), r2) = Some d" "card_ready ?M (k1\<lparr>port := d\<rparr>)"
    using card_finish [OF 1(2) lm pb] by blast
  have "CardType k1 = CT_SD2 OR CT_BLOCK" using 1(2) by (simp add: card_ready_def)
  with 1 2 3 c n show ?thesis by (simp add: disk_write_def sd2_block(1))
qed

lemma card_sync:
  assumes k: "card_ready M k" and p: "card_par_ok p"
  shows "\<exists>k'. disk_ioctl (card_bus p) 0 CTRL_SYNC k = Some ((RES_OK, None), k') \<and> card_ready M k'"
proof -
  from card_status [OF k p] obtain k1 where 1: "disk_status (card_bus p) 0 k = Some (0, k1)" "card_ready M k1" by blast
  obtain c r where c: "port k1 = (c, r)" by fastforce
  from 1(2) c obtain m where m: "m < 5000" "at_rest M None False m c" by (auto simp: card_ready_def)
  have "c\<lparr>c_sel := True, c_out := []\<rparr> = rested M 0" using m by (cases c) (simp add: at_rest_def rested_def)
  then obtain r2 where 2: "select (card_bus p) (c, r) = Some (True, rested M 0, r2)"
    using card_select [of c m p r] m by (auto simp: gives_def at_rest_def)
  obtain r3 where 3: "deselect (card_bus p) (rested M 0, r2) = Some (rested M 0\<lparr>c_sel := False\<rparr>, r3)"
    using card_deselect [of p "rested M 0" r2] by (auto simp: leaves_def)
  obtain r4 where 4: "deselect (card_bus p) (rested M 0\<lparr>c_sel := False\<rparr>, r3) = Some (rested M 0\<lparr>c_sel := False\<rparr>, r4)"
    using card_deselect [of p "rested M 0\<lparr>c_sel := False\<rparr>" r3] by (auto simp: leaves_def)
  have "card_ready M (k1\<lparr>port := (rested M 0\<lparr>c_sel := False\<rparr>, r4)\<rparr>)"
    using 1(2) by (auto simp: card_ready_def intro!: exI [of _ 0])
  with 1 2 3 4 c show ?thesis by (simp add: disk_ioctl_def ioctl_body_def)
qed

subsection \<open>Starting the card\<close>

definition woken :: "(u32 \<Rightarrow> u8 list) \<Rightarrow> nat option \<Rightarrow> bool \<Rightarrow> card" where
  "woken M idle app = \<lparr>c_mem = M, c_idle = idle, c_app = app, c_sel = True, c_cmd = [], c_out = [], c_phase = Ready\<rparr>"

lemma woken_at_rest [simp]: "at_rest M idle app 0 (woken M idle app)"
  by (simp add: at_rest_def woken_def)

lemma card_start:
  assumes "at_rest M idle app m c" "m < 5000" "card_par_ok p"
  shows "gives (send_cmd (card_bus p) CMD0 0 (c, r)) 1 (woken M (Some (p_boot p)) False)"
  using card_send [OF assms(1,2), of CMD0 p 0 1 "[]" "Some (p_boot p)" False Ready r] assms(3)
  by (simp add: send_cmd_def reply_def answer_def cmd_defs woken_def card_par_ok_def)

lemma card_version:
  assumes "card_par_ok p"
  shows "gives (send_cmd (card_bus p) CMD8 0x1aa (woken M (Some n) False, r)) 1 ((woken M (Some n) False)\<lparr>c_out := [0, 0, 1, 0xaa]\<rparr>)"
  using card_send [OF woken_at_rest, of CMD8 p "0x1aa" M "Some n" False 1 "[0, 0, 1, 0xaa]" "Some n" False Ready r] assms
  by (simp add: send_cmd_def reply_def answer_def cmd_defs woken_def card_par_ok_def)

lemma card_acmd41:
  assumes "card_par_ok p"
  shows "gives (send_cmd (card_bus p) ACMD41 arg (woken M (Some n) False, r)) (if n = 0 then 0 else 1)
    (woken M (booted (Some n)) False)"
proof -
  have ncr: "p_ncr p \<le> 8" using assms by (simp add: card_par_ok_def)
  have 1: "gives (send_plain (card_bus p) CMD55 0 (woken M (Some n) False, r)) 1 (woken M (Some n) True)"
    using card_send [OF woken_at_rest _ _ _ ncr, of CMD55 0 M "Some n" False 1 "[]" "Some n" True Ready r]
    by (simp add: reply_def answer_def cmd_defs woken_def)
  have 2: "gives (send_plain (card_bus p) 41 arg (woken M (Some n) True, r)) (if n = 0 then 0 else 1) (woken M (booted (Some n)) False)" for r
    using card_send [OF woken_at_rest _ _ _ ncr, of 41 arg M "Some n" True "if n = 0 then 0 else 1" "[]" "booted (Some n)" False Ready r]
    by (cases n) (auto simp: reply_def answer_def cmd_defs woken_def booted_def)
  have n: "ACMD41 AND 0x80 \<noteq> 0" "ACMD41 AND 0x7f = 41" by (simp_all add: cmd_defs)
  show ?thesis
    unfolding send_cmd_def using n
    apply (simp only: simp_thms if_True)
    apply (rule gives_bind [OF 1])
    using 2 by simp
qed

lemma card_boot:
  assumes "card_par_ok p" "n < N"
  shows "gives (idle_loop (card_bus p) ACMD41 arg N (woken M (Some n) False, r)) True (woken M None False)"
  using assms(2)
proof (induction n arbitrary: N r)
  case 0
  then obtain N' where N: "N = Suc N'" by (cases N) auto
  show ?case unfolding N idle_loop.simps
    by (rule gives_bind [OF card_acmd41 [OF assms(1)]]) (simp add: booted_def)
next
  case (Suc n)
  then obtain N' where N: "N = Suc N'" "n < N'" by (cases N) auto
  show ?case unfolding N idle_loop.simps
    by (rule gives_bind [OF card_acmd41 [OF assms(1)]]) (use Suc.IH [OF N(2)] in \<open>simp add: booted_def\<close>)
qed

lemma card_poll4:
  "c_out c = [w, x, y, z] \<Longrightarrow> polled c \<Longrightarrow> c_phase c = Ready \<Longrightarrow>
   gives (rcvr_mmc (card_bus p) 4 (c, r)) [w, x, y, z] (c\<lparr>c_out := []\<rparr>)"
  using poll_many [of c "[w, x, y, z]" "[]" p] card_rcvr [of p 4 c r] by (simp add: numeral_eq_Suc)

lemma card_probe:
  assumes "card_par_ok p"
  shows "gives (probe_v2 (card_bus p) ((woken M (Some (p_boot p)) False)\<lparr>c_out := [0, 0, 1, 0xaa]\<rparr>, r))
    (CT_SD2 OR CT_BLOCK) (woken M None False)"
proof -
  have 1: "gives (rcvr_mmc (card_bus p) 4 ((woken M (Some (p_boot p)) False)\<lparr>c_out := [0, 0, 1, 0xaa]\<rparr>, r)) [0, 0, 1, 0xaa]
      (woken M (Some (p_boot p)) False)" for r
    using card_poll4 [of "(woken M (Some (p_boot p)) False)\<lparr>c_out := [0, 0, 1, 0xaa]\<rparr>" 0 0 1 "0xaa" p r]
    by (simp add: woken_def polled_def)
  have 2: "gives (idle_loop (card_bus p) ACMD41 (push_bit 30 1) 1000 (woken M (Some (p_boot p)) False, r)) True (woken M None False)" for r
    by (rule card_boot [OF assms]) (use assms in \<open>simp add: card_par_ok_def\<close>)
  have 3: "gives (send_cmd (card_bus p) CMD58 0 (woken M None False, r)) 0 ((woken M None False)\<lparr>c_out := [0xc0, 0xff, 0x80, 0]\<rparr>)" for r
    using card_send [OF woken_at_rest, of CMD58 p 0 M None False 0 "[0xc0, 0xff, 0x80, 0]" None False Ready r] assms
    by (simp add: send_cmd_def reply_def answer_def cmd_defs woken_def card_par_ok_def)
  have 4: "gives (rcvr_mmc (card_bus p) 4 ((woken M None False)\<lparr>c_out := [0xc0, 0xff, 0x80, 0]\<rparr>, r)) [0xc0, 0xff, 0x80, 0]
      (woken M None False)" for r
    using card_poll4 [of "(woken M None False)\<lparr>c_out := [0xc0, 0xff, 0x80, 0]\<rparr>" "0xc0" "0xff" "0x80" 0 p r]
    by (simp add: woken_def polled_def)
  have b: "[0, 0, 1, 0xaa :: u8] ! 2 = 1" "[0, 0, 1, 0xaa :: u8] ! 3 = 0xaa" by (simp_all add: numeral_eq_Suc)
  show ?thesis
    unfolding probe_v2_def
    apply (rule gives_bind [OF 1])
    apply (simp only: prod.case b simp_thms if_True)
    apply (rule gives_bind [OF 2])
    apply (simp only: prod.case simp_thms if_False)
    apply (rule gives_bind [OF 3])
    apply (simp only: prod.case simp_thms if_False)
    apply (rule gives_bind [OF 4])
    by simp
qed

lemma card_clocks: "\<not> c_sel c \<Longrightarrow> leaves (dummy_clocks (card_bus p) n (c, r)) c"
proof (induction n arbitrary: r)
  case (Suc n)
  show ?case unfolding dummy_clocks.simps
    by (rule gives_leaves [OF card_rcvr1]) (use Suc in \<open>simp add: xchg_def\<close>)
qed simp

text \<open>A card in the socket: at rest, initialised or not.\<close>

definition plugged :: "(u32 \<Rightarrow> u8 list) \<Rightarrow> (card \<times> u8) disk \<Rightarrow> bool" where
  "plugged M k \<longleftrightarrow> (\<forall>s. length (M s) = 512) \<and> (\<exists>idle app m. m < 5000 \<and> at_rest M idle app m (fst (port k)))"

lemma card_initialize:
  assumes k: "plugged M k" and p: "card_par_ok p"
  shows "\<exists>k'. disk_initialize (card_bus p) 0 k = Some (0, k') \<and> card_ready M k'"
proof -
  obtain c r where c: "port k = (c, r)" by fastforce
  from k c obtain idle app m where m: "m < 5000" "at_rest M idle app m c" by (auto simp: plugged_def)
  let ?c = "c\<lparr>c_sel := False\<rparr>"
  have i: "init_port (card_bus p) (c, r) = (?c, r)" by (simp add: init_port_def card_spi)
  obtain r1 where 1: "dummy_clocks (card_bus p) 10 (?c, r) = Some (?c, r1)"
    using card_clocks [of ?c p 10 r] by (auto simp: leaves_def)
  have "at_rest M idle app m ?c" using m by (simp add: at_rest_def)
  then obtain r2 where 2: "send_cmd (card_bus p) CMD0 0 (?c, r1) = Some (1, woken M (Some (p_boot p)) False, r2)"
    using card_start [OF _ m(1) p] unfolding gives_def by blast
  obtain r3 where 3: "send_cmd (card_bus p) CMD8 0x1aa (woken M (Some (p_boot p)) False, r2) =
      Some (1, (woken M (Some (p_boot p)) False)\<lparr>c_out := [0, 0, 1, 0xaa]\<rparr>, r3)"
    using card_version [OF p] unfolding gives_def by blast
  obtain r4 where 4: "probe_v2 (card_bus p) ((woken M (Some (p_boot p)) False)\<lparr>c_out := [0, 0, 1, 0xaa]\<rparr>, r3) =
      Some (CT_SD2 OR CT_BLOCK, woken M None False, r4)"
    using card_probe [OF p] unfolding gives_def by blast
  obtain r5 where 5: "deselect (card_bus p) (woken M None False, r4) = Some ((woken M None False)\<lparr>c_sel := False\<rparr>, r5)"
    using card_deselect [of p "woken M None False" r4] by (auto simp: leaves_def)
  have "CT_SD2 OR CT_BLOCK \<noteq> 0" by (simp add: CT_SD2_def CT_BLOCK_def)
  with 1 2 3 4 5 c i have "disk_initialize (card_bus p) 0 k = Some (0, k\<lparr>CardType := CT_SD2 OR CT_BLOCK, Stat := 0,
      port := ((woken M None False)\<lparr>c_sel := False\<rparr>, r5)\<rparr>)"
    by (simp add: disk_initialize_def)
  moreover have "at_rest M None False 0 ((woken M None False)\<lparr>c_sel := False\<rparr>)" by (simp add: at_rest_def woken_def)
  then have "card_ready M (k\<lparr>CardType := CT_SD2 OR CT_BLOCK, Stat := 0, port := ((woken M None False)\<lparr>c_sel := False\<rparr>, r5)\<rparr>)"
    using k by (auto simp: card_ready_def plugged_def intro!: exI [of _ 0])
  ultimately show ?thesis by blast
qed

subsection \<open>The contract\<close>

definition card_store :: "(card \<times> u8) disk store" where
  "card_store = \<lparr>st_ok = (\<lambda>k. card_ready (c_mem (fst (port k))) k), st_sec = (\<lambda>k. c_mem (fst (port k))), st_set = UNIV\<rparr>"

lemma card_ready_mem: "card_ready M k \<Longrightarrow> c_mem (fst (port k)) = M"
  by (auto simp: card_ready_def at_rest_def)

lemma card_store_at: "card_ready M k \<Longrightarrow> st_ok card_store k \<and> st_sec card_store k = M"
  using card_ready_mem [of M k] by (simp add: card_store_def)

lemma put_sectors:
  assumes "length b = 512 * unat (n :: u8)"
  shows "put_blocks M s (sectors (unat n) b) =
    (\<lambda>x. if unat (x - s) < unat n then take 512 (drop (512 * unat (x - s)) b) else M x)"
proof
  fix x
  have "unat n < 256" using unsigned_less [where 'a = nat, of n] by simp
  then show "put_blocks M s (sectors (unat n) b) x =
      (if unat (x - s) < unat n then take 512 (drop (512 * unat (x - s)) b) else M x)"
    by (simp add: put_blocks_at sectors_nth)
qed

text \<open>The driver of \<^verbatim>\<open>diskio.c\<close> on a card with acceptable delays.\<close>

locale sd_card =
  fixes p :: card_par
  assumes delays: "card_par_ok p"
begin

lemma sd_status: "card_ready M k \<Longrightarrow> \<exists>k'. dk_status (sd_drive (card_bus p)) 0 k = Some (0, k') \<and> card_ready M k'"
  using card_status [OF _ delays] by (simp add: sd_drive_def)

lemma sd_sync: "card_ready M k \<Longrightarrow> \<exists>k'. dk_sync (sd_drive (card_bus p)) 0 k = Some (RES_OK, k') \<and> card_ready M k'"
  using card_sync [OF _ delays] by (fastforce simp: sd_drive_def)

lemma sd_read:
  "card_ready M k \<Longrightarrow> n \<noteq> 0 \<Longrightarrow>
   \<exists>k'. dk_read (sd_drive (card_bus p)) 0 s n k = Some ((RES_OK, concat (map (\<lambda>i. M (s + of_nat i)) [0..<unat n])), k') \<and>
     card_ready M k'"
  using card_read [OF _ delays] by (simp add: sd_drive_def)

lemma sd_write:
  "card_ready M k \<Longrightarrow> n \<noteq> 0 \<Longrightarrow> length b = 512 * unat n \<Longrightarrow>
   \<exists>k'. dk_write (sd_drive (card_bus p)) 0 b s n k = Some (RES_OK, k') \<and>
     card_ready (\<lambda>x. if unat (x - s) < unat n then take 512 (drop (512 * unat (x - s)) b) else M x) k'"
  using card_write [OF _ delays] by (simp add: sd_drive_def put_sectors)

lemma sd_initialize: "plugged M k \<Longrightarrow> \<exists>k'. dk_initialize (sd_drive (card_bus p)) 0 k = Some (0, k') \<and> card_ready M k'"
  using card_initialize [OF _ delays] by (simp add: sd_drive_def)

end

sublocale sd_card \<subseteq> sd: startable_drive "sd_drive (card_bus p)" card_store "\<lambda>k M. plugged M k"
proof unfold_locales
  fix k s and n :: u8 and b :: "u8 list"
  assume ok: "st_ok card_store k"
  let ?M = "st_sec card_store k"
  have k: "card_ready ?M k" using ok by (simp add: card_store_def)
  show "\<exists>k'. dk_status (sd_drive (card_bus p)) 0 k = Some (0, k') \<and> st_ok card_store k' \<and> st_sec card_store k' = ?M"
    using sd_status [OF k] by (auto dest: card_store_at)
  show "\<exists>k'. dk_sync (sd_drive (card_bus p)) 0 k = Some (RES_OK, k') \<and> st_ok card_store k' \<and> st_sec card_store k' = ?M"
    using sd_sync [OF k] by (auto dest: card_store_at)
  show "length (?M s) = 512" using k by (simp add: card_ready_def)
  assume n: "n \<noteq> 0"
  show "\<exists>k'. dk_read (sd_drive (card_bus p)) 0 s n k = Some ((RES_OK, concat (map (\<lambda>i. ?M (s + of_nat i)) [0..<unat n])), k') \<and>
      st_ok card_store k' \<and> st_sec card_store k' = ?M"
    using sd_read [OF k n] by (auto dest: card_store_at)
  assume b: "length b = 512 * unat n"
  show "\<exists>k'. dk_write (sd_drive (card_bus p)) 0 b s n k = Some (RES_OK, k') \<and> st_ok card_store k' \<and>
      st_sec card_store k' = (\<lambda>x. if unat (x - s) < unat n then take 512 (drop (512 * unat (x - s)) b) else ?M x)"
    using sd_write [OF k n b] by (auto dest: card_store_at)
next
  fix k M assume "plugged M k"
  then show "\<exists>k'. dk_initialize (sd_drive (card_bus p)) 0 k = Some (0, k') \<and> st_ok card_store k' \<and> st_sec card_store k' = M"
    using sd_initialize by (blast dest: card_store_at)
qed

text \<open>A card with delays of its own.\<close>

definition slow_card :: card_par where
  "slow_card = \<lparr>p_ncr = 2, p_nac = 20, p_busy = 300, p_boot = 7\<rparr>"

interpretation slow: sd_card slow_card
  by unfold_locales (simp add: slow_card_def card_par_ok_def)

text \<open>A card fresh from the shelf: powered, with erased sectors, the driver's state as at start-up.\<close>

definition new_card :: "(card \<times> u8) disk" where
  "new_card = \<lparr>Stat = STA_NOINIT, CardType = 0, port = (\<lparr>c_mem = (\<lambda>s. replicate 512 0), c_idle = Some 0, c_app = False,
     c_sel = False, c_cmd = [], c_out = [], c_phase = Ready\<rparr>, 0)\<rparr>"

lemma new_card_plugged: "plugged (\<lambda>s. replicate 512 0) new_card"
  by (auto simp: plugged_def new_card_def at_rest_def intro!: exI [of _ 0])

subsection \<open>The properties\<close>

text \<open>
  C35: Starting the card. With a high-capacity card in the socket that answers the initialisation
  within the driver's limits, \<open>disk_initialize\<close> returns with status 0, has found the card to
  address blocks, and leaves it at rest with its contents untouched.
\<close>

theorem sd_starts:
  assumes "card_par_ok p" "plugged M k"
  shows "\<exists>k'. disk_initialize (card_bus p) 0 k = Some (0, k') \<and> Stat k' = 0 \<and> CardType k' = CT_SD2 OR CT_BLOCK \<and>
    card_ready M k'"
  using card_initialize [OF assms(2,1)] by (auto simp: card_ready_def)

theorem sd_starts_witness:
  "\<exists>k'. disk_initialize (card_bus slow_card) 0 new_card = Some (0, k') \<and> CardType k' = 12"
  using sd_starts [OF slow.delays new_card_plugged] by (auto simp: CT_SD2_def CT_BLOCK_def)

text \<open>
  C36: Writing and reading back, one or several sectors, byte for byte over the SPI core: on a card
  that is ready, \<open>disk_write\<close> returns with success, a following \<open>disk_read\<close> of the same run returns
  what was written, and a read of any other run returns what it would have returned before, where
  the runs do not meet. The single-block and the multi-block commands, the token and busy
  handshakes and the stop of a transfer all take part.
\<close>

theorem sd_roundtrip:
  assumes p: "card_par_ok p" and k: "card_ready M k" and n: "n \<noteq> 0" and b: "length b = 512 * unat n"
    and m: "m \<noteq> 0" and apart: "\<forall>i<unat m. unat n \<le> unat (t + of_nat i - s)"
  shows "\<exists>k1 k2 k3. disk_write (card_bus p) 0 b s n k = Some (RES_OK, k1) \<and>
    disk_read (card_bus p) 0 s n k1 = Some ((RES_OK, b), k2) \<and>
    disk_read (card_bus p) 0 t m k2 = Some ((RES_OK, concat (map (\<lambda>i. M (t + of_nat i)) [0..<unat m])), k3)"
proof -
  let ?M = "\<lambda>x. if unat (x - s) < unat n then take 512 (drop (512 * unat (x - s)) b) else M x"
  obtain k1 where 1: "disk_write (card_bus p) 0 b s n k = Some (RES_OK, k1)" "card_ready ?M k1"
    using card_write [OF k p n b] by (auto simp: put_sectors [OF b])
  obtain k2 where 2: "disk_read (card_bus p) 0 s n k1 = Some ((RES_OK, concat (map (\<lambda>i. ?M (s + of_nat i)) [0..<unat n])), k2)"
    "card_ready ?M k2"
    using card_read [OF 1(2) p n] by blast
  obtain k3 where 3: "disk_read (card_bus p) 0 t m k2 = Some ((RES_OK, concat (map (\<lambda>i. ?M (t + of_nat i)) [0..<unat m])), k3)"
    using card_read [OF 2(2) p m] by blast
  have u: "unat (of_nat i :: u32) = i" if "i < unat n" for i
    using that unsigned_less [where 'a = nat, of n] by (simp add: unat_of_nat)
  have "concat (map (\<lambda>i. take 512 (drop (512 * i) b)) [0..<j]) = take (512 * j) b" if "j \<le> unat n" for j
    using that by (induction j) (auto simp: take_add [symmetric] ac_simps)
  from this [of "unat n"] have e: "concat (map (\<lambda>i. take 512 (drop (512 * i) b)) [0..<unat n]) = b" using b by simp
  have es: "map (\<lambda>i. ?M (s + of_nat i)) [0..<unat n] = map (\<lambda>i. take 512 (drop (512 * i) b)) [0..<unat n]"
    using u by (intro map_cong) auto
  have et: "map (\<lambda>i. ?M (t + of_nat i)) [0..<unat m] = map (\<lambda>i. M (t + of_nat i)) [0..<unat m]"
    using apart by (intro map_cong) (auto simp: not_less)
  show ?thesis using 1(1) 2(1) [unfolded es e] 3 [unfolded et] by blast
qed

lemma ready_card: "\<exists>k. card_ready (\<lambda>s. replicate 512 0) k"
  using card_initialize [OF new_card_plugged slow.delays] by blast

theorem sd_roundtrip_witness:
  "\<exists>k k1 k2 k3. disk_write (card_bus slow_card) 0 (replicate 1024 7) 5 2 k = Some (RES_OK, k1) \<and>
    disk_read (card_bus slow_card) 0 5 2 k1 = Some ((RES_OK, replicate 1024 7), k2) \<and>
    disk_read (card_bus slow_card) 0 7 1 k2 = Some ((RES_OK, replicate 512 0), k3)"
proof -
  obtain k where k: "card_ready (\<lambda>s. replicate 512 0) k" using ready_card by blast
  show ?thesis
    using sd_roundtrip [OF slow.delays k, of 2 "replicate 1024 7" 1 7 5] by auto
qed

end
