(* ===== verification/Ff_Dir.thy ===== *)
theory Ff_Dir
  imports Ff_Fat
begin

text \<open>
  The file system module \<^verbatim>\<open>fatfs/ff.c\<close>, second part: directories and names. A pointer to a
  directory entry is the offset of the entry in the window; the null pointer is \<open>None\<close>. A path is
  the bytes of the C string before its terminator.
\<close>

subsection \<open>Directory entries\<close>

definition DIR_Name :: nat where "DIR_Name = 0"
definition DIR_Attr :: nat where "DIR_Attr = 11"
definition DIR_CrtTime :: nat where "DIR_CrtTime = 14"
definition DIR_FstClusHI :: nat where "DIR_FstClusHI = 20"
definition DIR_WrtTime :: nat where "DIR_WrtTime = 22"
definition DIR_WrtDate :: nat where "DIR_WrtDate = 24"
definition DIR_FstClusLO :: nat where "DIR_FstClusLO = 26"
definition DIR_FileSize :: nat where "DIR_FileSize = 28"
definition SZ_DIR :: nat where "SZ_DIR = 32"
definition DDE :: u8 where "DDE = 0xe5"
definition NDDE :: u8 where "NDDE = 0x05"
definition AM_VOL :: u8 where "AM_VOL = 0x08"

definition NS :: nat where "NS = 11"
definition NS_LAST :: u8 where "NS_LAST = 0x04"
definition NS_BODY :: u8 where "NS_BODY = 0x08"
definition NS_EXT :: u8 where "NS_EXT = 0x10"
definition NS_DOT :: u8 where "NS_DOT = 0x20"

lemmas dir_defs = DIR_Name_def DIR_Attr_def DIR_CrtTime_def DIR_FstClusHI_def DIR_WrtTime_def DIR_WrtDate_def
  DIR_FstClusLO_def DIR_FileSize_def SZ_DIR_def

definition LD_CLUST :: "u8 list \<Rightarrow> nat \<Rightarrow> u32" where
  "LD_CLUST p dir = push_bit 16 (ucast (LD_WORD p (dir + DIR_FstClusHI))) OR ucast (LD_WORD p (dir + DIR_FstClusLO))"

definition ST_CLUST :: "nat \<Rightarrow> u32 \<Rightarrow> u8 list \<Rightarrow> u8 list" where
  "ST_CLUST dir cl p = ST_WORD (dir + DIR_FstClusHI) (ucast (drop_bit 16 cl)) (ST_WORD (dir + DIR_FstClusLO) (ucast cl) p)"

record DIR =
  d_fs :: bool
  d_id :: u16
  d_index :: u16
  d_sclust :: u32
  d_clust :: u32
  d_sect :: u32
  d_dir :: "nat option"
  d_fn :: "u8 list"

text \<open>\<open>d_fs\<close> says whether the pointer to the file system object is set; there is one such object.\<close>

text \<open>The entry a directory object points to; the code reads it only where the pointer is set.\<close>

definition entry_at :: "DIR \<Rightarrow> nat" where
  "entry_at dj = (case d_dir dj of None \<Rightarrow> 0 | Some i \<Rightarrow> i)"

subsection \<open>Moving in a directory\<close>

text \<open>Following the chain of a directory table for whole clusters of \<open>ic\<close> entries.\<close>

partial_function (option) sdi_walk ::
  "'k drive \<Rightarrow> u16 \<Rightarrow> u16 \<Rightarrow> u32 \<Rightarrow> 'k FATFS \<Rightarrow> ((FRESULT \<times> u16 \<times> u32) \<times> 'k FATFS) option" where
  "sdi_walk v ic idx clst fs =
     (if idx \<ge> ic then do {
        (clst, fs) \<leftarrow> get_fat v clst fs;
        if clst = 0xffffffff then Some ((FR_DISK_ERR, idx, clst), fs)
        else if clst < 2 \<or> clst \<ge> n_fatent fs then Some ((FR_INT_ERR, idx, clst), fs)
        else sdi_walk v ic (idx - ic) clst fs }
      else Some ((FR_OK, idx, clst), fs))"

definition dir_sdi :: "'k drive \<Rightarrow> u16 \<Rightarrow> DIR \<times> 'k FATFS \<Rightarrow> (FRESULT \<times> DIR \<times> 'k FATFS) option" where
  "dir_sdi v idx = (\<lambda>(dj, fs).
     let dj = dj\<lparr>d_index := idx\<rparr>;
         clst = d_sclust dj
     in if clst = 1 \<or> clst \<ge> n_fatent fs then Some (FR_INT_ERR, dj, fs)
     else let clst = (if clst = 0 \<and> fs_type fs = FS_FAT32 then dirbase fs else clst)
     in if clst = 0 then
       (let dj = dj\<lparr>d_clust := clst\<rparr>
        in if idx \<ge> n_rootdir fs then Some (FR_INT_ERR, dj, fs)
        else Some (FR_OK, dj\<lparr>d_sect := dirbase fs + ucast (idx div 16), d_dir := Some (unat (idx mod 16) * SZ_DIR)\<rparr>, fs))
     else do {
       ((res, i, clst), fs) \<leftarrow> sdi_walk v (16 * ucast (csize fs)) idx clst fs;
       if res \<noteq> FR_OK then Some (res, dj, fs)
       else Some (FR_OK, dj\<lparr>d_clust := clst, d_sect := clust2sect fs clst + ucast (i div 16),
         d_dir := Some (unat (i mod 16) * SZ_DIR)\<rparr>, fs) })"

text \<open>Clearing a new cluster sector by sector; \<open>False\<close> when a write failed.\<close>

fun zero_fill :: "'k drive \<Rightarrow> nat \<Rightarrow> 'k FATFS \<Rightarrow> (bool \<times> 'k FATFS) option" where
  "zero_fill v 0 fs = Some (True, fs)"
| "zero_fill v (Suc n) fs = do {
     (res, fs) \<leftarrow> move_window v 0 (fs\<lparr>wflag := True\<rparr>);
     if res \<noteq> FR_OK then Some (False, fs) else zero_fill v n (fs\<lparr>winsect := winsect fs + 1\<rparr>) }"

text \<open>A new cluster at the end of the table.\<close>

definition stretch_dir :: "'k drive \<Rightarrow> u32 \<Rightarrow> 'k FATFS \<Rightarrow> ((FRESULT \<times> u32) \<times> 'k FATFS) option" where
  "stretch_dir v clust fs = do {
     (clst, fs) \<leftarrow> create_chain v clust fs;
     if clst = 0 then Some ((FR_DENIED, clst), fs)
     else if clst = 1 then Some ((FR_INT_ERR, clst), fs)
     else if clst = 0xffffffff then Some ((FR_DISK_ERR, clst), fs)
     else do {
       (res, fs) \<leftarrow> move_window v 0 fs;
       if res \<noteq> FR_OK then Some ((FR_DISK_ERR, clst), fs)
       else do {
         let fs = put_win (mem_set 0 0 512) fs\<lparr>winsect := clust2sect fs clst\<rparr>;
         (ok, fs) \<leftarrow> zero_fill v (unat (csize fs)) fs;
         if \<not> ok then Some ((FR_DISK_ERR, clst), fs)
         else Some ((FR_OK, clst), fs\<lparr>winsect := winsect fs - ucast (csize fs)\<rparr>) } } }"

text \<open>The sector of the next entry when the index reaches \<open>i\<close>.\<close>

definition next_sector :: "'k drive \<Rightarrow> bool \<Rightarrow> u16 \<Rightarrow> DIR \<times> 'k FATFS \<Rightarrow> (FRESULT \<times> DIR \<times> 'k FATFS) option" where
  "next_sector v stretch i = (\<lambda>(dj, fs).
     if i mod 16 \<noteq> 0 then Some (FR_OK, dj, fs)
     else let dj = dj\<lparr>d_sect := d_sect dj + 1\<rparr>
     in if d_clust dj = 0 then Some (if i \<ge> n_rootdir fs then FR_NO_FILE else FR_OK, dj, fs)
     else if (i div 16) AND (ucast (csize fs) - 1) \<noteq> 0 then Some (FR_OK, dj, fs)
     else do {
       (clst, fs) \<leftarrow> get_fat v (d_clust dj) fs;
       if clst \<le> 1 then Some (FR_INT_ERR, dj, fs)
       else if clst = 0xffffffff then Some (FR_DISK_ERR, dj, fs)
       else if clst \<ge> n_fatent fs \<and> \<not> stretch then Some (FR_NO_FILE, dj, fs)
       else do {
         ((res, clst), fs) \<leftarrow> (if clst \<ge> n_fatent fs then stretch_dir v (d_clust dj) fs else Some ((FR_OK, clst), fs));
         if res \<noteq> FR_OK then Some (res, dj, fs)
         else Some (FR_OK, dj\<lparr>d_clust := clst, d_sect := clust2sect fs clst\<rparr>, fs) } })"

definition dir_next :: "'k drive \<Rightarrow> bool \<Rightarrow> DIR \<times> 'k FATFS \<Rightarrow> (FRESULT \<times> DIR \<times> 'k FATFS) option" where
  "dir_next v stretch = (\<lambda>(dj, fs).
     let i = d_index dj + 1
     in if i = 0 \<or> d_sect dj = 0 then Some (FR_NO_FILE, dj, fs)
     else do {
       (res, dj, fs) \<leftarrow> next_sector v stretch i (dj, fs);
       if res \<noteq> FR_OK then Some (res, dj, fs)
       else Some (FR_OK, dj\<lparr>d_index := i, d_dir := Some (unat (i mod 16) * SZ_DIR)\<rparr>, fs) })"

subsection \<open>Entries\<close>

definition entry_byte :: "DIR \<Rightarrow> 'k FATFS \<Rightarrow> nat \<Rightarrow> u8" where
  "entry_byte dj fs i = win fs ! (entry_at dj + i)"

definition sfn_matches :: "DIR \<Rightarrow> 'k FATFS \<Rightarrow> bool" where
  "sfn_matches dj fs \<longleftrightarrow> entry_byte dj fs DIR_Attr AND AM_VOL = 0 \<and>
     mem_cmp (take 11 (drop (entry_at dj) (win fs))) (take 11 (d_fn dj)) = 0"

partial_function (option) find_loop :: "'k drive \<Rightarrow> DIR \<times> 'k FATFS \<Rightarrow> (FRESULT \<times> DIR \<times> 'k FATFS) option" where
  "find_loop v s = (case s of (dj, fs) \<Rightarrow> do {
     (res, fs) \<leftarrow> move_window v (d_sect dj) fs;
     if res \<noteq> FR_OK then Some (res, dj, fs)
     else if entry_byte dj fs DIR_Name = 0 then Some (FR_NO_FILE, dj, fs)
     else if sfn_matches dj fs then Some (FR_OK, dj, fs)
     else do {
       (res, s) \<leftarrow> dir_next v False (dj, fs);
       if res = FR_OK then find_loop v s else Some (res, s) } })"

definition dir_find :: "'k drive \<Rightarrow> DIR \<times> 'k FATFS \<Rightarrow> (FRESULT \<times> DIR \<times> 'k FATFS) option" where
  "dir_find v s = do {
     (res, s) \<leftarrow> dir_sdi v 0 s;
     if res \<noteq> FR_OK then Some (res, s) else find_loop v s }"

partial_function (option) read_loop :: "'k drive \<Rightarrow> DIR \<times> 'k FATFS \<Rightarrow> (FRESULT \<times> DIR \<times> 'k FATFS) option" where
  "read_loop v s = (case s of (dj, fs) \<Rightarrow>
     if d_sect dj = 0 then Some (FR_OK, dj, fs)
     else do {
       (res, fs) \<leftarrow> move_window v (d_sect dj) fs;
       if res \<noteq> FR_OK then Some (res, dj, fs)
       else if entry_byte dj fs DIR_Name = 0 then Some (FR_NO_FILE, dj, fs)
       else if entry_byte dj fs DIR_Name \<noteq> DDE \<and> entry_byte dj fs DIR_Attr AND AM_VOL = 0 then Some (FR_OK, dj, fs)
       else do {
         (res, s) \<leftarrow> dir_next v False (dj, fs);
         if res = FR_OK then read_loop v s else Some (res, s) } })"

definition dir_read :: "'k drive \<Rightarrow> DIR \<times> 'k FATFS \<Rightarrow> (FRESULT \<times> DIR \<times> 'k FATFS) option" where
  "dir_read v s = do {
     (res, dj, fs) \<leftarrow> (if d_sect (fst s) = 0 then Some (FR_NO_FILE, s) else read_loop v s);
     Some (res, if res \<noteq> FR_OK then dj\<lparr>d_sect := 0\<rparr> else dj, fs) }"

partial_function (option) blank_loop :: "'k drive \<Rightarrow> DIR \<times> 'k FATFS \<Rightarrow> (FRESULT \<times> DIR \<times> 'k FATFS) option" where
  "blank_loop v s = (case s of (dj, fs) \<Rightarrow> do {
     (res, fs) \<leftarrow> move_window v (d_sect dj) fs;
     if res \<noteq> FR_OK then Some (res, dj, fs)
     else if entry_byte dj fs 0 = DDE \<or> entry_byte dj fs 0 = 0 then Some (FR_OK, dj, fs)
     else do {
       (res, s) \<leftarrow> dir_next v True (dj, fs);
       if res = FR_OK then blank_loop v s else Some (res, s) } })"

text \<open>Changing bytes of the window and marking it dirty.\<close>

definition edit_win :: "(u8 list \<Rightarrow> u8 list) \<Rightarrow> 'k FATFS \<Rightarrow> 'k FATFS" where
  "edit_win f fs = put_win f fs\<lparr>wflag := True\<rparr>"

definition dir_register :: "'k drive \<Rightarrow> DIR \<times> 'k FATFS \<Rightarrow> (FRESULT \<times> DIR \<times> 'k FATFS) option" where
  "dir_register v s = do {
     (res, s) \<leftarrow> dir_sdi v 0 s;
     (res, s) \<leftarrow> (if res = FR_OK then blank_loop v s else Some (res, s));
     case s of (dj, fs) \<Rightarrow>
       if res \<noteq> FR_OK then Some (res, dj, fs)
       else do {
         (res, fs) \<leftarrow> move_window v (d_sect dj) fs;
         if res \<noteq> FR_OK then Some (res, dj, fs)
         else Some (FR_OK, dj,
           edit_win (\<lambda>w. mem_cpy (entry_at dj) (take 11 (d_fn dj)) (mem_set (entry_at dj) 0 SZ_DIR w)) fs) } }"

definition dir_remove :: "'k drive \<Rightarrow> DIR \<times> 'k FATFS \<Rightarrow> (FRESULT \<times> DIR \<times> 'k FATFS) option" where
  "dir_remove v s = do {
     (res, dj, fs) \<leftarrow> dir_sdi v (d_index (fst s)) s;
     if res \<noteq> FR_OK then Some (res, dj, fs)
     else do {
       (res, fs) \<leftarrow> move_window v (d_sect dj) fs;
       if res \<noteq> FR_OK then Some (res, dj, fs)
       else Some (FR_OK, dj, edit_win (\<lambda>w. w[entry_at dj := DDE]) fs) } }"

subsection \<open>Names\<close>

text \<open>Code page 932: which bytes start and end a two-byte character.\<close>

definition IsDBCS1 :: "u8 \<Rightarrow> bool" where
  "IsDBCS1 c \<longleftrightarrow> (c \<ge> 0x81 \<and> c \<le> 0x9f) \<or> (c \<ge> 0xe0 \<and> c \<le> 0xfc)"

definition IsDBCS2 :: "u8 \<Rightarrow> bool" where
  "IsDBCS2 c \<longleftrightarrow> (c \<ge> 0x40 \<and> c \<le> 0x7e) \<or> (c \<ge> 0x80 \<and> c \<le> 0xfc)"

definition IsUpper :: "u8 \<Rightarrow> bool" where "IsUpper c \<longleftrightarrow> c \<ge> 65 \<and> c \<le> 90"
definition IsLower :: "u8 \<Rightarrow> bool" where "IsLower c \<longleftrightarrow> c \<ge> 97 \<and> c \<le> 122"

definition is_sep :: "u8 \<Rightarrow> bool" where "is_sep c \<longleftrightarrow> c = 47 \<or> c = 92"

definition bad_chars :: "u8 list" where
  "bad_chars = [34, 42, 43, 44, 58, 59, 60, 61, 62, 63, 91, 93, 124, 0x7f]"

text \<open>The characters of one segment, after the separators: whether the name is valid, the character
  that ended it, the rest of the path, and the state of the name.\<close>

function name_loop ::
  "u8 list \<Rightarrow> nat \<Rightarrow> nat \<Rightarrow> u8 \<Rightarrow> u8 list \<Rightarrow> FRESULT \<times> u8 \<times> u8 list \<times> nat \<times> nat \<times> u8 \<times> u8 list" where
  "name_loop [] i ni b sfn = (FR_OK, 0, [], i, ni, b, sfn)"
| "name_loop (c # p) i ni b sfn =
     (if c \<le> 32 \<or> is_sep c then (FR_OK, c, p, i, ni, b, sfn)
      else if c = 46 \<or> i \<ge> ni then
        if ni \<noteq> 8 \<or> c \<noteq> 46 then (FR_INVALID_NAME, c, p, i, ni, b, sfn) else name_loop p 8 11 (push_bit 2 b) sfn
      else let b = (if c \<ge> 0x80 then b OR 3 else b)
      in if IsDBCS1 c then
        (case p of
           [] \<Rightarrow> (FR_INVALID_NAME, c, p, i, ni, b, sfn)
         | d # p' \<Rightarrow> if \<not> IsDBCS2 d \<or> i \<ge> ni - 1 then (FR_INVALID_NAME, c, p', i, ni, b, sfn)
                    else name_loop p' (i + 2) ni b (sfn[i := c, i + 1 := d]))
      else if chk_chr bad_chars c \<noteq> 0 then (FR_INVALID_NAME, c, p, i, ni, b, sfn)
      else if IsUpper c then name_loop p (i + 1) ni (b OR 2) (sfn[i := c])
      else if IsLower c then name_loop p (i + 1) ni (b OR 1) (sfn[i := c - 0x20])
      else name_loop p (i + 1) ni b (sfn[i := c]))"
  by pat_completeness auto
termination by (relation "measure (\<lambda>(p, _). length p)") auto

text \<open>The byte at a position of a C string.\<close>

definition str_at :: "u8 list \<Rightarrow> nat \<Rightarrow> u8" where
  "str_at p i = (if i < length p then p ! i else 0)"

text \<open>\<^verbatim>\<open>.\<close> and \<^verbatim>\<open>..\<close>: how many dots are stored and the character the loop stops at.\<close>

definition dot_name :: "u8 list \<Rightarrow> nat \<times> u8" where
  "dot_name p = (if str_at p 1 = 46 then (2, str_at p 2) else (1, str_at p 1))"

definition create_name :: "u8 list \<Rightarrow> DIR \<Rightarrow> FRESULT \<times> u8 list \<times> DIR" where
  "create_name path dj =
     (let p = dropWhile is_sep path;
          sfn = mem_set 0 32 11 (d_fn dj)
      in if str_at p 0 = 46 then
        (let (n, c) = dot_name p;
             sfn = mem_cpy 0 (replicate n 46) sfn
         in if \<not> is_sep c \<and> c > 32 then (FR_INVALID_NAME, path, dj\<lparr>d_fn := sfn\<rparr>)
            else (FR_OK, drop (n + 1) p, dj\<lparr>d_fn := sfn[NS := if c \<le> 32 then NS_LAST OR NS_DOT else NS_DOT]\<rparr>))
      else case name_loop p 0 8 0 sfn of (res, c, rest, i, ni, b, sfn) \<Rightarrow>
        if res \<noteq> FR_OK then (FR_INVALID_NAME, path, dj\<lparr>d_fn := sfn\<rparr>)
        else
          (let c = (if c \<le> 32 then NS_LAST else 0)
           in if i = 0 then (FR_INVALID_NAME, rest, dj\<lparr>d_fn := sfn\<rparr>)
           else let sfn = (if sfn ! 0 = DDE then sfn[0 := NDDE] else sfn);
                    b = (if ni = 8 then push_bit 2 b else b);
                    c = (if b AND 0x03 = 0x01 then c OR NS_EXT else c);
                    c = (if b AND 0x0c = 0x04 then c OR NS_BODY else c)
                in (FR_OK, rest, dj\<lparr>d_fn := sfn[NS := c]\<rparr>)))"

text \<open>A name as \<open>get_fileinfo\<close> writes it out.\<close>

definition name_body :: "u8 list \<Rightarrow> u8 list" where
  "name_body e = map (\<lambda>c. if c = NDDE then DDE else c) (takeWhile (\<lambda>c. c \<noteq> 32) (take 8 e))"

definition name_ext :: "u8 list \<Rightarrow> u8 list" where
  "name_ext e = (if e ! 8 \<noteq> 32 then 46 # takeWhile (\<lambda>c. c \<noteq> 32) (take 3 (drop 8 e)) else [])"

record finfo =
  i_fsize :: u32
  i_fdate :: u16
  i_ftime :: u16
  i_fattrib :: u8
  i_fname :: "u8 list"

definition get_fileinfo :: "DIR \<times> 'k FATFS \<Rightarrow> finfo \<Rightarrow> finfo" where
  "get_fileinfo = (\<lambda>(dj, fs) fno.
     if d_sect dj \<noteq> 0 then
       (let e = take 32 (drop (entry_at dj) (win fs))
        in fno\<lparr>i_fname := name_body e @ name_ext e, i_fattrib := e ! DIR_Attr, i_fsize := LD_DWORD e DIR_FileSize,
          i_fdate := LD_WORD e DIR_WrtDate, i_ftime := LD_WORD e DIR_WrtTime\<rparr>)
     else fno\<lparr>i_fname := []\<rparr>)"

subsection \<open>Paths\<close>

partial_function (option) path_loop ::
  "'k drive \<Rightarrow> u8 list \<Rightarrow> DIR \<times> 'k FATFS \<Rightarrow> (FRESULT \<times> DIR \<times> 'k FATFS) option" where
  "path_loop v path s = (case s of (dj, fs) \<Rightarrow>
     case create_name path dj of (res, path, dj) \<Rightarrow>
     if res \<noteq> FR_OK then Some (res, dj, fs)
     else do {
       (res, dj, fs) \<leftarrow> dir_find v (dj, fs);
       let ns = d_fn dj ! NS;
       if res \<noteq> FR_OK then
         if res \<noteq> FR_NO_FILE then Some (res, dj, fs)
         else if ns AND NS_DOT \<noteq> 0 then
           (let dj = dj\<lparr>d_sclust := 0, d_dir := None\<rparr>
            in if ns AND NS_LAST = 0 then path_loop v path (dj, fs) else Some (FR_OK, dj, fs))
         else Some (if ns AND NS_LAST = 0 then FR_NO_PATH else FR_NO_FILE, dj, fs)
       else if ns AND NS_LAST \<noteq> 0 then Some (FR_OK, dj, fs)
       else if entry_byte dj fs DIR_Attr AND AM_DIR = 0 then Some (FR_NO_PATH, dj, fs)
       else path_loop v path (dj\<lparr>d_sclust := LD_CLUST (win fs) (entry_at dj)\<rparr>, fs) })"

definition follow_path :: "'k drive \<Rightarrow> u8 list \<Rightarrow> DIR \<times> 'k FATFS \<Rightarrow> (FRESULT \<times> DIR \<times> 'k FATFS) option" where
  "follow_path v path = (\<lambda>(dj, fs).
     let root = is_sep (str_at path 0);
         path = (if root then drop 1 path else path);
         dj = dj\<lparr>d_sclust := if root then 0 else cdir fs\<rparr>
     in if str_at path 0 < 32 then do {
          (res, dj, fs) \<leftarrow> dir_sdi v 0 (dj, fs);
          Some (res, dj\<lparr>d_dir := None\<rparr>, fs) }
        else path_loop v path (dj, fs))"

end
