(* ===== verification/Ff_Mount.thy ===== *)
theory Ff_Mount
  imports Ff_Dir
begin

text \<open>
  The file system module \<^verbatim>\<open>fatfs/ff.c\<close>, third part: mounting. The module has one volume and the
  program one work area for it, so \<^verbatim>\<open>FatFs[0]\<close> is either null or that work area; the work area
  outlives its registration.
\<close>

subsection \<open>The module's state\<close>

record 'k ff =
  ff_reg :: bool
  ff_fs :: "'k FATFS"
  Fsid :: u16
  CurrVol :: u8

definition MIN_FAT16 :: u32 where "MIN_FAT16 = 4086"
definition MIN_FAT32 :: u32 where "MIN_FAT32 = 65526"
definition BPB_BytsPerSec :: nat where "BPB_BytsPerSec = 11"
definition BPB_SecPerClus :: nat where "BPB_SecPerClus = 13"
definition BPB_RsvdSecCnt :: nat where "BPB_RsvdSecCnt = 14"
definition BPB_NumFATs :: nat where "BPB_NumFATs = 16"
definition BPB_RootEntCnt :: nat where "BPB_RootEntCnt = 17"
definition BPB_TotSec16 :: nat where "BPB_TotSec16 = 19"
definition BPB_FATSz16 :: nat where "BPB_FATSz16 = 22"
definition BPB_TotSec32 :: nat where "BPB_TotSec32 = 32"
definition BPB_FATSz32 :: nat where "BPB_FATSz32 = 36"
definition BPB_RootClus :: nat where "BPB_RootClus = 44"
definition BPB_FSInfo :: nat where "BPB_FSInfo = 48"
definition BS_FilSysType :: nat where "BS_FilSysType = 54"
definition BS_FilSysType32 :: nat where "BS_FilSysType32 = 82"
definition MBR_Table :: nat where "MBR_Table = 446"
definition VOLUMES :: u32 where "VOLUMES = 1"
definition STA_PROTECT :: u8 where "STA_PROTECT = 0x04"

lemmas bpb_defs = BPB_BytsPerSec_def BPB_SecPerClus_def BPB_RsvdSecCnt_def BPB_NumFATs_def BPB_RootEntCnt_def
  BPB_TotSec16_def BPB_FATSz16_def BPB_TotSec32_def BPB_FATSz32_def BPB_RootClus_def BPB_FSInfo_def

subsection \<open>Finding the volume\<close>

text \<open>Loading into the window without moving it.\<close>

definition check_fs :: "'k drive \<Rightarrow> u32 \<Rightarrow> 'k FATFS \<Rightarrow> (u8 \<times> 'k FATFS) option" where
  "check_fs v sect fs = do {
     (r, fs) \<leftarrow> load_win v sect fs;
     Some (if r \<noteq> RES_OK then 3
           else if LD_WORD (win fs) BS_55AA \<noteq> 0xAA55 then 2
           else if LD_DWORD (win fs) BS_FilSysType AND 0xFFFFFF = 0x544146 then 0
           else if LD_DWORD (win fs) BS_FilSysType32 AND 0xFFFFFF = 0x544146 then 0
           else 1, fs) }"

text \<open>The boot record: the sector itself, or the first partition of its table.\<close>

definition find_boot :: "'k drive \<Rightarrow> 'k FATFS \<Rightarrow> ((u8 \<times> u32) \<times> 'k FATFS) option" where
  "find_boot v fs = do {
     (fmt, fs) \<leftarrow> check_fs v 0 fs;
     if fmt = 1 \<and> win fs ! (MBR_Table + 4) \<noteq> 0 then do {
       let bsect = LD_DWORD (win fs) (MBR_Table + 8);
       (fmt, fs) \<leftarrow> check_fs v bsect fs;
       Some ((fmt, bsect), fs) }
     else Some ((fmt, 0), fs) }"

subsection \<open>The geometry in the boot record\<close>

definition fat_kind :: "u32 \<Rightarrow> fat_type" where
  "fat_kind nclst = (if nclst \<ge> MIN_FAT32 then FS_FAT32 else if nclst \<ge> MIN_FAT16 then FS_FAT16 else FS_FAT12)"

text \<open>The size of the table in bytes, as the code computes it.\<close>

definition szbfat :: "fat_type \<Rightarrow> u32 \<Rightarrow> u32" where
  "szbfat fmt n = (case fmt of FS_FAT32 \<Rightarrow> n * 4 | FS_FAT16 \<Rightarrow> n * 2 | _ \<Rightarrow> n * 3 div 2 + (n AND 1))"

text \<open>The limits of the volume, once the number of clusters is known.\<close>

definition set_limits :: "u32 \<Rightarrow> u16 \<Rightarrow> u32 \<Rightarrow> u32 \<Rightarrow> u32 \<Rightarrow> 'k FATFS \<Rightarrow> (FRESULT \<times> fat_type) \<times> 'k FATFS" where
  "set_limits bsect nrsv fasize sysect nclst fs =
     (let fmt = fat_kind nclst;
          fs = fs\<lparr>n_fatent := nclst + 2, database := bsect + sysect, fatbase := bsect + ucast nrsv\<rparr>
      in if fmt = FS_FAT32 \<and> n_rootdir fs \<noteq> 0 then ((FR_NO_FILESYSTEM, fmt), fs)
      else if fmt \<noteq> FS_FAT32 \<and> n_rootdir fs = 0 then ((FR_NO_FILESYSTEM, fmt), fs)
      else let fs = fs\<lparr>dirbase := if fmt = FS_FAT32 then LD_DWORD (win fs) BPB_RootClus else fatbase fs + fasize\<rparr>
      in if fsize fs < (szbfat fmt (n_fatent fs) + 511) div 512 then ((FR_NO_FILESYSTEM, fmt), fs)
      else ((FR_OK, fmt), fs))"

definition read_bpb :: "u32 \<Rightarrow> 'k FATFS \<Rightarrow> (FRESULT \<times> fat_type) \<times> 'k FATFS" where
  "read_bpb bsect fs =
     (let w = win fs; bad = (\<lambda>fs. ((FR_NO_FILESYSTEM, FS_NONE), fs))
      in if LD_WORD w BPB_BytsPerSec \<noteq> 512 then bad fs
      else let fasize = ucast (LD_WORD w BPB_FATSz16);
               fasize = (if fasize = 0 then LD_DWORD w BPB_FATSz32 else fasize);
               b = w ! BPB_NumFATs;
               fs = fs\<lparr>fsize := fasize, n_fats := b\<rparr>
      in if b \<noteq> 1 \<and> b \<noteq> 2 then bad fs
      else let fasize = fasize * ucast b;
               b = w ! BPB_SecPerClus;
               fs = fs\<lparr>csize := b\<rparr>
      in if b = 0 \<or> b AND (b - 1) \<noteq> 0 then bad fs
      else let fs = fs\<lparr>n_rootdir := LD_WORD w BPB_RootEntCnt\<rparr>
      in if n_rootdir fs mod 16 \<noteq> 0 then bad fs
      else let tsect = ucast (LD_WORD w BPB_TotSec16);
               tsect = (if tsect = 0 then LD_DWORD w BPB_TotSec32 else tsect);
               nrsv = LD_WORD w BPB_RsvdSecCnt
      in if nrsv = 0 then bad fs
      else let sysect = ucast nrsv + fasize + ucast (n_rootdir fs div 16)
      in if tsect < sysect then bad fs
      else let nclst = (tsect - sysect) div ucast (csize fs)
      in if nclst = 0 then bad fs
      else set_limits bsect nrsv fasize sysect nclst fs)"

text \<open>The allocation hints of a FAT32 volume.\<close>

definition load_fsinfo :: "'k drive \<Rightarrow> u32 \<Rightarrow> 'k FATFS \<Rightarrow> 'k FATFS option" where
  "load_fsinfo v bsect fs = do {
     let fs = fs\<lparr>fsi_flag := False, fsi_sector := bsect + ucast (LD_WORD (win fs) BPB_FSInfo)\<rparr>;
     (r, fs) \<leftarrow> load_win v (fsi_sector fs) fs;
     Some (if r = RES_OK \<and> LD_WORD (win fs) BS_55AA = 0xAA55 \<and> LD_DWORD (win fs) FSI_LeadSig = 0x41615252 \<and>
              LD_DWORD (win fs) FSI_StrucSig = 0x61417272
           then fs\<lparr>last_clust := LD_DWORD (win fs) FSI_Nxt_Free, free_clust := LD_DWORD (win fs) FSI_Free_Count\<rparr>
           else fs) }"

subsection \<open>Mounting\<close>

text \<open>The volume is analysed and the work area initialised; \<open>fsid\<close> is the new mount id.\<close>

definition mount_volume :: "'k drive \<Rightarrow> u16 \<Rightarrow> 'k FATFS \<Rightarrow> (FRESULT \<times> 'k FATFS) option" where
  "mount_volume v fsid fs = do {
     ((fmt, bsect), fs) \<leftarrow> find_boot v fs;
     if fmt = 3 then Some (FR_DISK_ERR, fs)
     else if fmt \<noteq> 0 then Some (FR_NO_FILESYSTEM, fs)
     else case read_bpb bsect fs of ((res, fmt), fs) \<Rightarrow>
       if res \<noteq> FR_OK then Some (res, fs)
       else do {
         let fs = fs\<lparr>free_clust := 0xffffffff, last_clust := 0\<rparr>;
         fs \<leftarrow> (if fmt = FS_FAT32 then load_fsinfo v bsect fs else Some fs);
         Some (FR_OK, fs\<lparr>fs_type := fmt, fs_id := fsid, winsect := 0, wflag := False, cdir := 0\<rparr>) } }"

definition drive_of :: "u8 \<Rightarrow> u8 list \<Rightarrow> u32 \<times> u8 list" where
  "drive_of cur path =
     (if 48 \<le> str_at path 0 \<and> str_at path 0 \<le> 57 \<and> str_at path 1 = 58
      then (ucast (str_at path 0 - 48), drop 2 path) else (ucast cur, path))"

text \<open>\<open>rfs\<close> is the caller's pointer to the work area.\<close>

definition chk_mounted ::
  "'k drive \<Rightarrow> bool \<Rightarrow> u8 list \<Rightarrow> bool \<Rightarrow> 'k ff \<Rightarrow> ((FRESULT \<times> u8 list \<times> bool) \<times> 'k ff) option" where
  "chk_mounted v chk_wp path rfs s =
     (let (vol, path) = drive_of (CurrVol s) path; fs = ff_fs s
      in if vol \<ge> VOLUMES then Some ((FR_INVALID_DRIVE, path, rfs), s)
      else if \<not> ff_reg s then Some ((FR_NOT_ENABLED, path, False), s)
      else do {
        (stat, fs) \<leftarrow> (if fs_type fs \<noteq> FS_NONE then do {
            (stat, k) \<leftarrow> dk_status v (drv fs) (media fs);
            Some (stat, fs\<lparr>media := k\<rparr>) }
          else Some (STA_NOINIT, fs));
        if stat AND STA_NOINIT = 0 then
          Some ((if chk_wp \<and> stat AND STA_PROTECT \<noteq> 0 then FR_WRITE_PROTECTED else FR_OK, path, True), s\<lparr>ff_fs := fs\<rparr>)
        else do {
          let fs = fs\<lparr>fs_type := FS_NONE, drv := ucast vol\<rparr>;
          (stat, k) \<leftarrow> dk_initialize v (drv fs) (media fs);
          let fs = fs\<lparr>media := k\<rparr>;
          if stat AND STA_NOINIT \<noteq> 0 then Some ((FR_NOT_READY, path, True), s\<lparr>ff_fs := fs\<rparr>)
          else if chk_wp \<and> stat AND STA_PROTECT \<noteq> 0 then Some ((FR_WRITE_PROTECTED, path, True), s\<lparr>ff_fs := fs\<rparr>)
          else do {
            (res, fs) \<leftarrow> mount_volume v (Fsid s + 1) fs;
            Some ((res, path, True), s\<lparr>ff_fs := fs, Fsid := if res = FR_OK then Fsid s + 1 else Fsid s\<rparr>) } } })"

text \<open>\<open>obj\<close> and \<open>id\<close> are what a file or directory object holds.\<close>

definition validate :: "'k drive \<Rightarrow> bool \<Rightarrow> u16 \<Rightarrow> 'k FATFS \<Rightarrow> (FRESULT \<times> 'k FATFS) option" where
  "validate v obj ident fs =
     (if \<not> obj \<or> fs_type fs = FS_NONE \<or> fs_id fs \<noteq> ident then Some (FR_INVALID_OBJECT, fs)
      else do {
        (stat, k) \<leftarrow> dk_status v (drv fs) (media fs);
        Some (if stat AND STA_NOINIT \<noteq> 0 then FR_NOT_READY else FR_OK, fs\<lparr>media := k\<rparr>) })"

text \<open>\<open>fs\<close> is whether a work area is given, or null for unmounting.\<close>

definition f_mount :: "u8 \<Rightarrow> bool \<Rightarrow> 'k ff \<Rightarrow> FRESULT \<times> 'k ff" where
  "f_mount vol fs s =
     (if ucast vol \<ge> VOLUMES then (FR_INVALID_DRIVE, s)
      else (FR_OK, s\<lparr>ff_reg := fs,
        ff_fs := if ff_reg s \<or> fs then (ff_fs s)\<lparr>fs_type := FS_NONE\<rparr> else ff_fs s\<rparr>))"

end
