(* ===== verification/Ff_File.thy ===== *)
theory Ff_File
  imports Ff_Mount
begin

text \<open>
  The file system module \<^verbatim>\<open>fatfs/ff.c\<close>, fourth part: files. A file operation takes and returns
  the file object and the work area. A read returns the bytes it delivered; \<^verbatim>\<open>*br\<close> is their
  number. The local directory object of a function is an argument, with the contents it happens
  to have on the stack.
\<close>

subsection \<open>The file object\<close>

record FIL =
  f_fs :: bool
  f_id :: u16
  f_flag :: u8
  f_fptr :: u32
  f_fsize :: u32
  f_sclust :: u32
  f_clust :: u32
  f_dsect :: u32
  f_dir_sect :: u32
  f_dir_ptr :: nat

definition FA__WRITTEN :: u8 where "FA__WRITTEN = 0x20"
definition FA__ERROR :: u8 where "FA__ERROR = 0x80"

definition get_fattime :: u32 where
  "get_fattime = push_bit 25 (2012 - 1980) OR push_bit 21 1 OR push_bit 16 1 OR push_bit 11 0 OR push_bit 5 0 OR
     drop_bit 1 0"

definition set_flag :: "u8 \<Rightarrow> FIL \<Rightarrow> FIL" where
  "set_flag b fp = fp\<lparr>f_flag := f_flag fp OR b\<rparr>"

text \<open>\<open>ABORT\<close> marks the file object as unusable and returns the result.\<close>

definition ABORT :: "FRESULT \<Rightarrow> FIL \<times> 'k FATFS \<Rightarrow> (FRESULT \<times> FIL \<times> 'k FATFS) option" where
  "ABORT res = (\<lambda>(fp, fs). Some (res, set_flag FA__ERROR fp, fs))"

subsection \<open>Opening\<close>

text \<open>The entry of an overwritten file is reset and its clusters are released.\<close>

definition reset_entry :: "nat \<Rightarrow> u8 list \<Rightarrow> u8 list" where
  "reset_entry d w = ST_CLUST d 0 (ST_DWORD (d + DIR_FileSize) 0 ((ST_DWORD (d + DIR_CrtTime) get_fattime w)[d + DIR_Attr := 0]))"

definition overwrite :: "'k drive \<Rightarrow> nat \<Rightarrow> 'k FATFS \<Rightarrow> (FRESULT \<times> 'k FATFS) option" where
  "overwrite v d fs = do {
     let cl = LD_CLUST (win fs) d;
     let fs = edit_win (reset_entry d) fs;
     if cl = 0 then Some (FR_OK, fs)
     else do {
       let dw = winsect fs;
       (res, fs) \<leftarrow> remove_chain v cl fs;
       if res \<noteq> FR_OK then Some (res, fs)
       else move_window v dw (fs\<lparr>last_clust := cl - 1\<rparr>) } }"

definition FA_CREATE :: u8 where "FA_CREATE = FA_CREATE_ALWAYS OR FA_OPEN_ALWAYS OR FA_CREATE_NEW"

text \<open>A new entry, or the checks on an entry that is there; the mode records a creation.\<close>

definition open_create ::
  "'k drive \<Rightarrow> u8 \<Rightarrow> FRESULT \<Rightarrow> DIR \<times> 'k FATFS \<Rightarrow> ((FRESULT \<times> u8) \<times> DIR \<times> 'k FATFS) option" where
  "open_create v mode res = (\<lambda>(dj, fs). do {
     ((res, mode), dj, fs) \<leftarrow>
       (if res \<noteq> FR_OK then do {
          (res, dj, fs) \<leftarrow> (if res = FR_NO_FILE then dir_register v (dj, fs) else Some (res, dj, fs));
          Some ((res, mode OR FA_CREATE_ALWAYS), dj, fs) }
        else if entry_byte dj fs DIR_Attr AND (AM_RDO OR AM_DIR) \<noteq> 0 then Some ((FR_DENIED, mode), dj, fs)
        else if mode AND FA_CREATE_NEW \<noteq> 0 then Some ((FR_EXIST, mode), dj, fs)
        else Some ((FR_OK, mode), dj, fs));
     (res, fs) \<leftarrow> (if res = FR_OK \<and> mode AND FA_CREATE_ALWAYS \<noteq> 0 then overwrite v (entry_at dj) fs else Some (res, fs));
     Some ((res, mode), dj, fs) })"

definition open_existing :: "u8 \<Rightarrow> DIR \<times> 'k FATFS \<Rightarrow> FRESULT" where
  "open_existing mode = (\<lambda>(dj, fs).
     if entry_byte dj fs DIR_Attr AND AM_DIR \<noteq> 0 then FR_NO_FILE
     else if mode AND FA_WRITE \<noteq> 0 \<and> entry_byte dj fs DIR_Attr AND AM_RDO \<noteq> 0 then FR_DENIED else FR_OK)"

text \<open>The entry of the file, created or checked as the mode says, after the path has been followed
  with the result \<open>res\<close>.\<close>

definition open_entry ::
  "'k drive \<Rightarrow> u8 \<Rightarrow> FRESULT \<Rightarrow> DIR \<times> 'k FATFS \<Rightarrow> ((FRESULT \<times> u8) \<times> DIR \<times> 'k FATFS) option" where
  "open_entry v mode res s =
     (let res = (if res = FR_OK \<and> d_dir (fst s) = None then FR_INVALID_NAME else res)
      in if mode AND FA_CREATE \<noteq> 0 then open_create v mode res s
      else Some ((if res = FR_OK then open_existing mode s else res, mode), s))"

definition f_open ::
  "'k drive \<Rightarrow> DIR \<Rightarrow> u8 list \<Rightarrow> u8 \<Rightarrow> FIL \<times> 'k ff \<Rightarrow> (FRESULT \<times> FIL \<times> 'k ff) option" where
  "f_open v dj path mode = (\<lambda>(fp, s). do {
     let fp = fp\<lparr>f_fs := False\<rparr>;
     let mode = mode AND (FA_READ OR FA_WRITE OR FA_CREATE_ALWAYS OR FA_OPEN_ALWAYS OR FA_CREATE_NEW);
     ((res, path, _), s) \<leftarrow> chk_mounted v (mode AND NOT FA_READ \<noteq> 0) path False s;
     (res, dj, fs) \<leftarrow> (if res = FR_OK then follow_path v path (dj, ff_fs s) else Some (res, dj, ff_fs s));
     ((res, mode), dj, fs) \<leftarrow> open_entry v mode res (dj, fs);
     let fp = (if res = FR_OK
               then fp\<lparr>f_dir_sect := winsect fs, f_dir_ptr := entry_at dj,
                 f_flag := if mode AND FA_CREATE_ALWAYS \<noteq> 0 then mode OR FA__WRITTEN else mode,
                 f_sclust := LD_CLUST (win fs) (entry_at dj), f_fsize := LD_DWORD (win fs) (entry_at dj + DIR_FileSize),
                 f_fptr := 0, f_dsect := 0, f_fs := True, f_id := fs_id fs\<rparr>
               else fp);
     Some (res, fp, s\<lparr>ff_fs := fs\<rparr>) })"

subsection \<open>Reading\<close>

text \<open>The sector within the cluster.\<close>

definition csect_of :: "FIL \<Rightarrow> 'k FATFS \<Rightarrow> u8" where
  "csect_of fp fs = ucast ((f_fptr fp div 512) AND (ucast (csize fs) - 1))"

definition read_clust :: "'k drive \<Rightarrow> FIL \<times> 'k FATFS \<Rightarrow> (FRESULT \<times> FIL \<times> 'k FATFS) option" where
  "read_clust v = (\<lambda>(fp, fs).
     if csect_of fp fs \<noteq> 0 then Some (FR_OK, fp, fs)
     else do {
       (clst, fs) \<leftarrow> (if f_fptr fp = 0 then Some (f_sclust fp, fs) else get_fat v (f_clust fp) fs);
       if clst < 2 then ABORT FR_INT_ERR (fp, fs)
       else if clst = 0xffffffff then ABORT FR_DISK_ERR (fp, fs)
       else Some (FR_OK, fp\<lparr>f_clust := clst\<rparr>, fs) })"

text \<open>The number of whole sectors a transfer of \<open>n\<close> bytes can take from the cluster.\<close>

definition clip :: "u8 \<Rightarrow> u32 \<Rightarrow> 'k FATFS \<Rightarrow> u32" where
  "clip csect n fs = (let cc = n div 512
     in if ucast csect + cc > ucast (csize fs) then ucast (csize fs) - ucast csect else cc)"

definition read_direct :: "'k drive \<Rightarrow> u32 \<Rightarrow> u32 \<Rightarrow> 'k FATFS \<Rightarrow> ((DRESULT \<times> u8 list) \<times> 'k FATFS) option" where
  "read_direct v sect cc fs = do {
     ((r, data), k) \<leftarrow> dk_read v (drv fs) sect (ucast cc) (media fs);
     let fs = fs\<lparr>media := k\<rparr>;
     let ofs = winsect fs - sect;
     Some ((r, if r = RES_OK \<and> wflag fs \<and> ofs < cc then mem_cpy (unat ofs * 512) (win fs) data else data), fs) }"

text \<open>Bytes out of the current sector.\<close>

definition read_partial ::
  "'k drive \<Rightarrow> u32 \<Rightarrow> FIL \<times> 'k FATFS \<Rightarrow> ((FRESULT \<times> u8 list) \<times> FIL \<times> 'k FATFS) option" where
  "read_partial v btr = (\<lambda>(fp, fs). do {
     let ofs = f_fptr fp mod 512;
     let rcnt = (if 512 - ofs > btr then btr else 512 - ofs);
     (res, fs) \<leftarrow> move_window v (f_dsect fp) fs;
     if res \<noteq> FR_OK then do { (res, s) \<leftarrow> ABORT FR_DISK_ERR (fp, fs); Some ((res, []), s) }
     else Some ((FR_OK, take (unat rcnt) (drop (unat ofs) (win fs))), fp, fs) })"

text \<open>One turn of the read loop: the bytes it delivers.\<close>

definition read_chunk ::
  "'k drive \<Rightarrow> u32 \<Rightarrow> FIL \<times> 'k FATFS \<Rightarrow> ((FRESULT \<times> u8 list) \<times> FIL \<times> 'k FATFS) option" where
  "read_chunk v btr = (\<lambda>(fp, fs).
     if f_fptr fp mod 512 \<noteq> 0 then read_partial v btr (fp, fs)
     else do {
       let csect = csect_of fp fs;
       (res, fp, fs) \<leftarrow> read_clust v (fp, fs);
       if res \<noteq> FR_OK then Some ((res, []), fp, fs)
       else do {
         let sect = clust2sect fs (f_clust fp);
         if sect = 0 then do { (res, s) \<leftarrow> ABORT FR_INT_ERR (fp, fs); Some ((res, []), s) }
         else do {
           let sect = sect + ucast csect;
           if btr div 512 \<noteq> 0 then do {
             let cc = clip csect btr fs;
             ((r, data), fs) \<leftarrow> read_direct v sect cc fs;
             if r \<noteq> RES_OK then do { (res, s) \<leftarrow> ABORT FR_DISK_ERR (fp, fs); Some ((res, []), s) }
             else Some ((FR_OK, take (512 * unat cc) data), fp, fs) }
           else read_partial v btr (fp\<lparr>f_dsect := sect\<rparr>, fs) } } })"

partial_function (option) fread_loop ::
  "'k drive \<Rightarrow> u32 \<Rightarrow> u8 list \<Rightarrow> FIL \<times> 'k FATFS \<Rightarrow> ((FRESULT \<times> u8 list) \<times> FIL \<times> 'k FATFS) option" where
  "fread_loop v btr buff s =
     (if btr = 0 then Some ((FR_OK, buff), s)
      else do {
        ((res, chunk), fp, fs) \<leftarrow> read_chunk v btr s;
        let rcnt = of_nat (length chunk);
        if res \<noteq> FR_OK then Some ((res, buff), fp, fs)
        else fread_loop v (btr - rcnt) (buff @ chunk) (fp\<lparr>f_fptr := f_fptr fp + rcnt\<rparr>, fs) })"

definition f_read ::
  "'k drive \<Rightarrow> u32 \<Rightarrow> FIL \<times> 'k ff \<Rightarrow> ((FRESULT \<times> u8 list) \<times> FIL \<times> 'k ff) option" where
  "f_read v btr = (\<lambda>(fp, s). do {
     (res, fs) \<leftarrow> validate v (f_fs fp) (f_id fp) (ff_fs s);
     if res \<noteq> FR_OK then Some ((res, []), fp, s\<lparr>ff_fs := fs\<rparr>)
     else if f_flag fp AND FA__ERROR \<noteq> 0 then Some ((FR_INT_ERR, []), fp, s\<lparr>ff_fs := fs\<rparr>)
     else if f_flag fp AND FA_READ = 0 then Some ((FR_DENIED, []), fp, s\<lparr>ff_fs := fs\<rparr>)
     else do {
       let remain = f_fsize fp - f_fptr fp;
       (r, fp, fs) \<leftarrow> fread_loop v (if btr > remain then remain else btr) [] (fp, fs);
       Some (r, fp, s\<lparr>ff_fs := fs\<rparr>) } })"

subsection \<open>Writing\<close>

text \<open>The cluster the next sector goes to; \<open>None\<close> when the disk is full.\<close>

definition write_clust :: "'k drive \<Rightarrow> FIL \<times> 'k FATFS \<Rightarrow> (FRESULT option \<times> FIL \<times> 'k FATFS) option" where
  "write_clust v = (\<lambda>(fp, fs).
     if csect_of fp fs \<noteq> 0 then Some (Some FR_OK, fp, fs)
     else do {
       (clst, fp, fs) \<leftarrow>
         (if f_fptr fp = 0 then
            if f_sclust fp = 0 then do {
              (clst, fs) \<leftarrow> create_chain v 0 fs;
              Some (clst, fp\<lparr>f_sclust := clst\<rparr>, fs) }
            else Some (f_sclust fp, fp, fs)
          else do {
            (clst, fs) \<leftarrow> create_chain v (f_clust fp) fs;
            Some (clst, fp, fs) });
       if clst = 0 then Some (None, fp, fs)
       else if clst = 1 then do { (res, s) \<leftarrow> ABORT FR_INT_ERR (fp, fs); Some (Some res, s) }
       else if clst = 0xffffffff then do { (res, s) \<leftarrow> ABORT FR_DISK_ERR (fp, fs); Some (Some res, s) }
       else Some (Some FR_OK, fp\<lparr>f_clust := clst\<rparr>, fs) })"

definition write_direct :: "'k drive \<Rightarrow> u8 list \<Rightarrow> u32 \<Rightarrow> u32 \<Rightarrow> 'k FATFS \<Rightarrow> (DRESULT \<times> 'k FATFS) option" where
  "write_direct v wbuff sect cc fs = do {
     (r, k) \<leftarrow> dk_write v (drv fs) (take (512 * unat cc) wbuff) sect (ucast cc) (media fs);
     let fs = fs\<lparr>media := k\<rparr>;
     let ofs = winsect fs - sect;
     Some (r, if r = RES_OK \<and> ofs < cc
              then fs\<lparr>win := mem_cpy 0 (take 512 (drop (unat ofs * 512) wbuff)) (win fs), wflag := False\<rparr> else fs) }"

definition write_partial ::
  "'k drive \<Rightarrow> u8 list \<Rightarrow> FIL \<times> 'k FATFS \<Rightarrow> ((FRESULT \<times> nat) \<times> FIL \<times> 'k FATFS) option" where
  "write_partial v wbuff = (\<lambda>(fp, fs). do {
     let ofs = unat (f_fptr fp mod 512);
     let wcnt = (if 512 - ofs > length wbuff then length wbuff else 512 - ofs);
     (res, fs) \<leftarrow> move_window v (f_dsect fp) fs;
     if res \<noteq> FR_OK then do { (res, s) \<leftarrow> ABORT FR_DISK_ERR (fp, fs); Some ((res, 0), s) }
     else Some ((FR_OK, wcnt), fp, edit_win (mem_cpy ofs (take wcnt wbuff)) fs) })"

text \<open>The sector at the growing edge of the file is not read from the disk.\<close>

definition edge_sector :: "'k drive \<Rightarrow> u32 \<Rightarrow> FIL \<times> 'k FATFS \<Rightarrow> (FRESULT \<times> 'k FATFS) option" where
  "edge_sector v sect = (\<lambda>(fp, fs).
     if f_fptr fp \<ge> f_fsize fp then do {
       (res, fs) \<leftarrow> move_window v 0 fs;
       Some (res, if res = FR_OK then fs\<lparr>winsect := sect\<rparr> else fs) }
     else Some (FR_OK, fs))"

text \<open>The transfer of one turn once the cluster is known: the number of bytes written.\<close>

definition write_sector ::
  "'k drive \<Rightarrow> u8 \<Rightarrow> u8 list \<Rightarrow> FIL \<times> 'k FATFS \<Rightarrow> ((FRESULT \<times> nat) \<times> FIL \<times> 'k FATFS) option" where
  "write_sector v csect wbuff = (\<lambda>(fp, fs). do {
     let fail = (\<lambda>res s. do { (res, s) \<leftarrow> ABORT res s; Some ((res, 0), s) });
     (res, fs) \<leftarrow> (if winsect fs = f_dsect fp then move_window v 0 fs else Some (FR_OK, fs));
     if res \<noteq> FR_OK then fail FR_DISK_ERR (fp, fs)
     else do {
       let sect = clust2sect fs (f_clust fp);
       if sect = 0 then fail FR_INT_ERR (fp, fs)
       else do {
         let sect = sect + ucast csect;
         let btw = of_nat (length wbuff);
         if btw div 512 \<noteq> 0 then do {
           let cc = clip csect btw fs;
           (r, fs) \<leftarrow> write_direct v wbuff sect cc fs;
           if r \<noteq> RES_OK then fail FR_DISK_ERR (fp, fs) else Some ((FR_OK, 512 * unat cc), fp, fs) }
         else do {
           (res, fs) \<leftarrow> edge_sector v sect (fp, fs);
           if res \<noteq> FR_OK then fail FR_DISK_ERR (fp, fs)
           else write_partial v wbuff (fp\<lparr>f_dsect := sect\<rparr>, fs) } } } })"

text \<open>One turn of the write loop; \<open>None\<close> for the result stands for leaving the loop.\<close>

definition write_chunk ::
  "'k drive \<Rightarrow> u8 list \<Rightarrow> FIL \<times> 'k FATFS \<Rightarrow> ((FRESULT option \<times> nat) \<times> FIL \<times> 'k FATFS) option" where
  "write_chunk v wbuff = (\<lambda>(fp, fs).
     if f_fptr fp mod 512 \<noteq> 0 then do {
       ((res, n), s) \<leftarrow> write_partial v wbuff (fp, fs);
       Some ((Some res, n), s) }
     else do {
       let csect = csect_of fp fs;
       (r, fp, fs) \<leftarrow> write_clust v (fp, fs);
       if r \<noteq> Some FR_OK then Some ((r, 0), fp, fs)
       else do {
         ((res, n), s) \<leftarrow> write_sector v csect wbuff (fp, fs);
         Some ((Some res, n), s) } })"

text \<open>The bytes still to be written; the result counts the bytes that were.\<close>

partial_function (option) fwrite_loop ::
  "'k drive \<Rightarrow> u8 list \<Rightarrow> u32 \<Rightarrow> FIL \<times> 'k FATFS \<Rightarrow> ((FRESULT \<times> u32) \<times> FIL \<times> 'k FATFS) option" where
  "fwrite_loop v wbuff bw s =
     (if wbuff = [] then Some ((FR_OK, bw), s)
      else do {
        ((r, wcnt), fp, fs) \<leftarrow> write_chunk v wbuff s;
        case r of
          None \<Rightarrow> Some ((FR_OK, bw), fp, fs)
        | Some res \<Rightarrow>
            if res \<noteq> FR_OK then Some ((res, bw), fp, fs)
            else fwrite_loop v (drop wcnt wbuff) (bw + of_nat wcnt) (fp\<lparr>f_fptr := f_fptr fp + of_nat wcnt\<rparr>, fs) })"

definition f_write ::
  "'k drive \<Rightarrow> u8 list \<Rightarrow> FIL \<times> 'k ff \<Rightarrow> ((FRESULT \<times> u32) \<times> FIL \<times> 'k ff) option" where
  "f_write v buff = (\<lambda>(fp, s). do {
     (res, fs) \<leftarrow> validate v (f_fs fp) (f_id fp) (ff_fs s);
     if res \<noteq> FR_OK then Some ((res, 0), fp, s\<lparr>ff_fs := fs\<rparr>)
     else if f_flag fp AND FA__ERROR \<noteq> 0 then Some ((FR_INT_ERR, 0), fp, s\<lparr>ff_fs := fs\<rparr>)
     else if f_flag fp AND FA_WRITE = 0 then Some ((FR_DENIED, 0), fp, s\<lparr>ff_fs := fs\<rparr>)
     else do {
       let btw = of_nat (length buff);
       ((res, bw), fp, fs) \<leftarrow> fwrite_loop v (if f_fsize fp + btw < f_fsize fp then [] else buff) 0 (fp, fs);
       if res \<noteq> FR_OK then Some ((res, bw), fp, s\<lparr>ff_fs := fs\<rparr>)
       else do {
         let fp = (if f_fptr fp > f_fsize fp then fp\<lparr>f_fsize := f_fptr fp\<rparr> else fp);
         Some ((FR_OK, bw), set_flag FA__WRITTEN fp, s\<lparr>ff_fs := fs\<rparr>) } } })"

subsection \<open>Closing\<close>

definition update_entry :: "FIL \<Rightarrow> u8 list \<Rightarrow> u8 list" where
  "update_entry fp w =
     (let d = f_dir_ptr fp;
          w = w[d + DIR_Attr := w ! (d + DIR_Attr) OR AM_ARC];
          w = ST_DWORD (d + DIR_FileSize) (f_fsize fp) w;
          w = ST_CLUST d (f_sclust fp) w
      in ST_DWORD (d + DIR_WrtTime) get_fattime w)"

definition f_sync :: "'k drive \<Rightarrow> FIL \<times> 'k ff \<Rightarrow> (FRESULT \<times> FIL \<times> 'k ff) option" where
  "f_sync v = (\<lambda>(fp, s). do {
     (res, fs) \<leftarrow> validate v (f_fs fp) (f_id fp) (ff_fs s);
     if res \<noteq> FR_OK \<or> f_flag fp AND FA__WRITTEN = 0 then Some (res, fp, s\<lparr>ff_fs := fs\<rparr>)
     else do {
       (res, fs) \<leftarrow> move_window v (f_dir_sect fp) fs;
       if res \<noteq> FR_OK then Some (res, fp, s\<lparr>ff_fs := fs\<rparr>)
       else do {
         let fs = edit_win (update_entry fp) fs;
         (res, fs) \<leftarrow> sync v fs;
         Some (res, fp\<lparr>f_flag := f_flag fp AND NOT FA__WRITTEN\<rparr>, s\<lparr>ff_fs := fs\<rparr>) } } })"

definition f_close :: "'k drive \<Rightarrow> FIL \<times> 'k ff \<Rightarrow> (FRESULT \<times> FIL \<times> 'k ff) option" where
  "f_close v s = do {
     (res, fp, s) \<leftarrow> f_sync v s;
     Some (res, if res = FR_OK then fp\<lparr>f_fs := False\<rparr> else fp, s) }"

subsection \<open>Seeking\<close>

text \<open>Following or stretching the chain; \<open>ofs\<close> is what is left to move. The flag is \<open>False\<close> after an abort.\<close>

partial_function (option) seek_loop ::
  "'k drive \<Rightarrow> u32 \<Rightarrow> u32 \<Rightarrow> u32 \<Rightarrow> FIL \<times> 'k FATFS \<Rightarrow> ((FRESULT \<times> u32 \<times> u32) \<times> FIL \<times> 'k FATFS) option" where
  "seek_loop v bcs ofs clst s = (case s of (fp, fs) \<Rightarrow>
     if ofs > bcs then do {
       let grow = (f_flag fp AND FA_WRITE \<noteq> 0);
       (clst, fs) \<leftarrow> (if grow then create_chain v clst fs else get_fat v clst fs);
       if grow \<and> clst = 0 then Some ((FR_OK, bcs, clst), fp, fs)
       else if clst = 0xffffffff then do { (res, s) \<leftarrow> ABORT FR_DISK_ERR (fp, fs); Some ((res, ofs, clst), s) }
       else if clst \<le> 1 \<or> clst \<ge> n_fatent fs then do { (res, s) \<leftarrow> ABORT FR_INT_ERR (fp, fs); Some ((res, ofs, clst), s) }
       else seek_loop v bcs (ofs - bcs) clst (fp\<lparr>f_clust := clst, f_fptr := f_fptr fp + bcs\<rparr>, fs) }
     else Some ((FR_OK, ofs, clst), fp, fs))"

text \<open>Where the walk starts: the current cluster when it does not lie ahead, else the first one.\<close>

definition seek_start ::
  "'k drive \<Rightarrow> u32 \<Rightarrow> u32 \<Rightarrow> u32 \<Rightarrow> FIL \<times> 'k FATFS \<Rightarrow> ((FRESULT \<times> u32 \<times> u32) \<times> FIL \<times> 'k FATFS) option" where
  "seek_start v bcs ifptr ofs = (\<lambda>(fp, fs).
     if ifptr > 0 \<and> (ofs - 1) div bcs \<ge> (ifptr - 1) div bcs then
       (let p = (ifptr - 1) AND NOT (bcs - 1)
        in Some ((FR_OK, ofs - p, f_clust fp), fp\<lparr>f_fptr := p\<rparr>, fs))
     else if f_sclust fp = 0 then do {
       (clst, fs) \<leftarrow> create_chain v 0 fs;
       if clst = 1 then do { (res, s) \<leftarrow> ABORT FR_INT_ERR (fp, fs); Some ((res, ofs, clst), s) }
       else if clst = 0xffffffff then do { (res, s) \<leftarrow> ABORT FR_DISK_ERR (fp, fs); Some ((res, ofs, clst), s) }
       else Some ((FR_OK, ofs, clst), fp\<lparr>f_sclust := clst, f_clust := clst\<rparr>, fs) }
     else Some ((FR_OK, ofs, f_sclust fp), fp\<lparr>f_clust := f_sclust fp\<rparr>, fs))"

text \<open>The walk to the target: the sector of the file pointer when it is inside a sector.\<close>

definition seek_walk ::
  "'k drive \<Rightarrow> u32 \<Rightarrow> u32 \<Rightarrow> FIL \<times> 'k FATFS \<Rightarrow> ((FRESULT \<times> u32) \<times> FIL \<times> 'k FATFS) option" where
  "seek_walk v ifptr ofs = (\<lambda>(fp, fs).
     if ofs = 0 then Some ((FR_OK, 0), fp, fs)
     else do {
       let bcs = ucast (csize fs) * 512;
       ((res, ofs, clst), fp, fs) \<leftarrow> seek_start v bcs ifptr ofs (fp, fs);
       if res \<noteq> FR_OK then Some ((res, 0), fp, fs)
       else if clst = 0 then Some ((FR_OK, 0), fp, fs)
       else do {
         ((res, ofs, clst), fp, fs) \<leftarrow> seek_loop v bcs ofs clst (fp, fs);
         if res \<noteq> FR_OK then Some ((res, 0), fp, fs)
         else do {
           let fp = fp\<lparr>f_fptr := f_fptr fp + ofs\<rparr>;
           if ofs mod 512 = 0 then Some ((FR_OK, 0), fp, fs)
           else do {
             let nsect = clust2sect fs clst;
             if nsect = 0 then do { (res, s) \<leftarrow> ABORT FR_INT_ERR (fp, fs); Some ((res, 0), s) }
             else Some ((FR_OK, nsect + ofs div 512), fp, fs) } } } })"

definition f_lseek :: "'k drive \<Rightarrow> u32 \<Rightarrow> FIL \<times> 'k ff \<Rightarrow> (FRESULT \<times> FIL \<times> 'k ff) option" where
  "f_lseek v ofs = (\<lambda>(fp, s). do {
     (res, fs) \<leftarrow> validate v (f_fs fp) (f_id fp) (ff_fs s);
     if res \<noteq> FR_OK then Some (res, fp, s\<lparr>ff_fs := fs\<rparr>)
     else if f_flag fp AND FA__ERROR \<noteq> 0 then Some (FR_INT_ERR, fp, s\<lparr>ff_fs := fs\<rparr>)
     else do {
       let ofs = (if ofs > f_fsize fp \<and> f_flag fp AND FA_WRITE = 0 then f_fsize fp else ofs);
       ((res, nsect), fp, fs) \<leftarrow> seek_walk v (f_fptr fp) ofs (fp\<lparr>f_fptr := 0\<rparr>, fs);
       if res \<noteq> FR_OK then Some (res, fp, s\<lparr>ff_fs := fs\<rparr>)
       else do {
         let fp = (if f_fptr fp mod 512 \<noteq> 0 \<and> nsect \<noteq> f_dsect fp then fp\<lparr>f_dsect := nsect\<rparr> else fp);
         let fp = (if f_fptr fp > f_fsize fp then set_flag FA__WRITTEN (fp\<lparr>f_fsize := f_fptr fp\<rparr>) else fp);
         Some (FR_OK, fp, s\<lparr>ff_fs := fs\<rparr>) } } })"

subsection \<open>Truncating\<close>

definition cut_chain :: "'k drive \<Rightarrow> FIL \<times> 'k FATFS \<Rightarrow> (FRESULT \<times> FIL \<times> 'k FATFS) option" where
  "cut_chain v = (\<lambda>(fp, fs).
     if f_fptr fp = 0 then do {
       (res, fs) \<leftarrow> remove_chain v (f_sclust fp) fs;
       Some (res, fp\<lparr>f_sclust := 0\<rparr>, fs) }
     else do {
       (ncl, fs) \<leftarrow> get_fat v (f_clust fp) fs;
       if ncl = 1 then Some (FR_INT_ERR, fp, fs)
       else if ncl = 0xffffffff then Some (FR_DISK_ERR, fp, fs)
       else if ncl < n_fatent fs then do {
         (res, fs) \<leftarrow> put_fat v (f_clust fp) 0x0fffffff fs;
         (res, fs) \<leftarrow> (if res = FR_OK then remove_chain v ncl fs else Some (res, fs));
         Some (res, fp, fs) }
       else Some (FR_OK, fp, fs) })"

definition f_truncate :: "'k drive \<Rightarrow> FIL \<times> 'k ff \<Rightarrow> (FRESULT \<times> FIL \<times> 'k ff) option" where
  "f_truncate v = (\<lambda>(fp, s). do {
     (res, fs) \<leftarrow> validate v (f_fs fp) (f_id fp) (ff_fs s);
     let res = (if res \<noteq> FR_OK then res else if f_flag fp AND FA__ERROR \<noteq> 0 then FR_INT_ERR
                else if f_flag fp AND FA_WRITE = 0 then FR_DENIED else FR_OK);
     if res \<noteq> FR_OK then Some (res, fp, s\<lparr>ff_fs := fs\<rparr>)
     else do {
       (res, fp, fs) \<leftarrow>
         (if f_fsize fp > f_fptr fp then cut_chain v (set_flag FA__WRITTEN (fp\<lparr>f_fsize := f_fptr fp\<rparr>), fs)
          else Some (FR_OK, fp, fs));
       Some (res, if res \<noteq> FR_OK then set_flag FA__ERROR fp else fp, s\<lparr>ff_fs := fs\<rparr>) } })"

end
