(* ===== verification/Ff_Api.thy ===== *)
theory Ff_Api
  imports Ff_File
begin

text \<open>
  The file system module \<^verbatim>\<open>fatfs/ff.c\<close>, fifth part: directories, paths and the volume as the
  application sees them. As in the part on files, a local directory object is an argument with
  the contents it has on the stack.
\<close>

definition AM_HID :: u8 where "AM_HID = 0x02"
definition AM_SYS :: u8 where "AM_SYS = 0x04"

text \<open>A call on a path: the volume is checked, the path followed, and \<open>body\<close> goes on with the
  result of that.\<close>

definition at_path ::
  "'k drive \<Rightarrow> bool \<Rightarrow> u8 list \<Rightarrow> DIR \<Rightarrow> (FRESULT \<Rightarrow> DIR \<times> 'k FATFS \<Rightarrow> (FRESULT \<times> DIR \<times> 'k FATFS) option) \<Rightarrow>
    'k ff \<Rightarrow> (FRESULT \<times> DIR \<times> 'k ff) option" where
  "at_path v chk_wp path dj body s = do {
     ((res, path, rfs), s) \<leftarrow> chk_mounted v chk_wp path (d_fs dj) s;
     let dj = dj\<lparr>d_fs := rfs\<rparr>;
     if res \<noteq> FR_OK then Some (res, dj, s)
     else do {
       (res, dj, fs) \<leftarrow> follow_path v path (dj, ff_fs s);
       (res, dj, fs) \<leftarrow> body res (dj, fs);
       Some (res, dj, s\<lparr>ff_fs := fs\<rparr>) } }"

text \<open>A dot entry is refused.\<close>

definition no_dot :: "FRESULT \<Rightarrow> DIR \<Rightarrow> FRESULT" where
  "no_dot res dj = (if res = FR_OK \<and> d_fn dj ! NS AND NS_DOT \<noteq> 0 then FR_INVALID_NAME else res)"

subsection \<open>The current directory\<close>

definition f_chdrive :: "u8 \<Rightarrow> 'k ff \<Rightarrow> FRESULT \<times> 'k ff" where
  "f_chdrive d s = (if ucast d \<ge> VOLUMES then (FR_INVALID_DRIVE, s) else (FR_OK, s\<lparr>CurrVol := d\<rparr>))"

definition enter_dir :: "FRESULT \<Rightarrow> DIR \<times> 'k FATFS \<Rightarrow> (FRESULT \<times> DIR \<times> 'k FATFS) option" where
  "enter_dir res = (\<lambda>(dj, fs).
     let (res, fs) =
       (if res \<noteq> FR_OK then (res, fs)
        else case d_dir dj of
          None \<Rightarrow> (FR_OK, fs\<lparr>cdir := d_sclust dj\<rparr>)
        | Some i \<Rightarrow> if entry_byte dj fs DIR_Attr AND AM_DIR \<noteq> 0 then (FR_OK, fs\<lparr>cdir := LD_CLUST (win fs) i\<rparr>)
                   else (FR_NO_PATH, fs))
     in Some (if res = FR_NO_FILE then FR_NO_PATH else res, dj, fs))"

definition f_chdir :: "'k drive \<Rightarrow> DIR \<Rightarrow> u8 list \<Rightarrow> 'k ff \<Rightarrow> (FRESULT \<times> 'k ff) option" where
  "f_chdir v dj path s = do {
     (res, _, s) \<leftarrow> at_path v False path dj enter_dir s;
     Some (res, s) }"

text \<open>The entry that links to the directory table \<open>ccl\<close>.\<close>

partial_function (option) find_child ::
  "'k drive \<Rightarrow> u32 \<Rightarrow> DIR \<times> 'k FATFS \<Rightarrow> (FRESULT \<times> DIR \<times> 'k FATFS) option" where
  "find_child v ccl s = do {
     (res, dj, fs) \<leftarrow> dir_read v s;
     if res \<noteq> FR_OK then Some (res, dj, fs)
     else if ccl = LD_CLUST (win fs) (entry_at dj) then Some (FR_OK, dj, fs)
     else do {
       (res, s) \<leftarrow> dir_next v False (dj, fs);
       if res = FR_OK then find_child v ccl s else Some (res, s) } }"

text \<open>From a sub-directory to the entry in its parent.\<close>

definition parent_entry :: "'k drive \<Rightarrow> DIR \<times> 'k FATFS \<Rightarrow> (FRESULT \<times> DIR \<times> 'k FATFS) option" where
  "parent_entry v s = do {
     let ccl = d_sclust (fst s);
     (res, s) \<leftarrow> dir_sdi v 1 s;
     if res \<noteq> FR_OK then Some (res, s)
     else do {
       (res, dj, fs) \<leftarrow> dir_read v s;
       if res \<noteq> FR_OK then Some (res, dj, fs)
       else do {
         (res, s) \<leftarrow> dir_sdi v 0 (dj\<lparr>d_sclust := LD_CLUST (win fs) (entry_at dj)\<rparr>, fs);
         if res \<noteq> FR_OK then Some (res, s)
         else do {
           (res, s) \<leftarrow> find_child v ccl s;
           Some (if res = FR_NO_FILE then FR_INT_ERR else res, s) } } } }"

text \<open>
  The path is built from the end of the buffer; \<open>acc\<close> is what is there, \<open>room\<close> the bytes before it.
  A name that does not leave three bytes is refused.
\<close>

partial_function (option) cwd_loop ::
  "'k drive \<Rightarrow> nat \<Rightarrow> u8 list \<Rightarrow> finfo \<Rightarrow> DIR \<times> 'k FATFS \<Rightarrow> ((FRESULT \<times> u8 list) \<times> DIR \<times> 'k FATFS) option" where
  "cwd_loop v room acc fno s =
     (if d_sclust (fst s) = 0 then Some ((FR_OK, acc), s)
      else do {
        (res, dj, fs) \<leftarrow> parent_entry v s;
        if res \<noteq> FR_OK then Some ((res, acc), dj, fs)
        else do {
          let fno = get_fileinfo (dj, fs) fno;
          let n = length (i_fname fno);
          if room < n + 3 then Some ((FR_NOT_ENOUGH_CORE, acc), dj, fs)
          else cwd_loop v (room - n - 1) (47 # i_fname fno @ acc) fno (dj, fs) } })"

text \<open>The string left in a buffer of \<open>sz\<close> bytes.\<close>

definition f_getcwd :: "'k drive \<Rightarrow> DIR \<Rightarrow> finfo \<Rightarrow> nat \<Rightarrow> 'k ff \<Rightarrow> ((FRESULT \<times> u8 list) \<times> 'k ff) option" where
  "f_getcwd v dj fno sz s = do {
     ((res, _, _), s) \<leftarrow> chk_mounted v False [] (d_fs dj) s;
     if res \<noteq> FR_OK then Some ((res, []), s)
     else do {
       ((res, acc), _, fs) \<leftarrow> cwd_loop v sz [] fno (dj\<lparr>d_sclust := cdir (ff_fs s)\<rparr>, ff_fs s);
       Some ((res, if res = FR_OK then [48 + CurrVol s, 58] @ (if acc = [] then [47] else acc) else []),
         s\<lparr>ff_fs := fs\<rparr>) } }"

subsection \<open>Listing a directory\<close>

definition open_dir :: "'k drive \<Rightarrow> FRESULT \<Rightarrow> DIR \<times> 'k FATFS \<Rightarrow> (FRESULT \<times> DIR \<times> 'k FATFS) option" where
  "open_dir v res = (\<lambda>(dj, fs). do {
     (res, dj, fs) \<leftarrow>
       (if res \<noteq> FR_OK then Some (res, dj, fs)
        else case d_dir dj of
          None \<Rightarrow> dir_sdi v 0 (dj\<lparr>d_id := fs_id fs\<rparr>, fs)
        | Some i \<Rightarrow> if entry_byte dj fs DIR_Attr AND AM_DIR \<noteq> 0
                   then dir_sdi v 0 (dj\<lparr>d_sclust := LD_CLUST (win fs) i, d_id := fs_id fs\<rparr>, fs)
                   else Some (FR_NO_PATH, dj, fs));
     Some (if res = FR_NO_FILE then FR_NO_PATH else res, dj, fs) })"

definition f_opendir :: "'k drive \<Rightarrow> u8 list \<Rightarrow> DIR \<times> 'k ff \<Rightarrow> (FRESULT \<times> DIR \<times> 'k ff) option" where
  "f_opendir v path = (\<lambda>(dj, s). at_path v False path dj (open_dir v) s)"

text \<open>The end of the table is not an error; the directory object is closed for reading.\<close>

definition at_end :: "FRESULT \<Rightarrow> DIR \<Rightarrow> FRESULT \<times> DIR" where
  "at_end res dj = (if res = FR_NO_FILE then (FR_OK, dj\<lparr>d_sect := 0\<rparr>) else (res, dj))"

definition next_info :: "'k drive \<Rightarrow> finfo \<Rightarrow> DIR \<times> 'k FATFS \<Rightarrow> ((FRESULT \<times> finfo) \<times> DIR \<times> 'k FATFS) option" where
  "next_info v fno s = do {
     (res, dj, fs) \<leftarrow> dir_read v s;
     case at_end res dj of (res, dj) \<Rightarrow>
     if res \<noteq> FR_OK then Some ((res, fno), dj, fs)
     else do {
       let fno = get_fileinfo (dj, fs) fno;
       (res, dj, fs) \<leftarrow> dir_next v False (dj, fs);
       case at_end res dj of (res, dj) \<Rightarrow> Some ((res, fno), dj, fs) } }"

text \<open>Without a place for the information the directory is rewound.\<close>

definition f_readdir ::
  "'k drive \<Rightarrow> finfo option \<Rightarrow> DIR \<times> 'k ff \<Rightarrow> ((FRESULT \<times> finfo option) \<times> DIR \<times> 'k ff) option" where
  "f_readdir v fno = (\<lambda>(dj, s). do {
     (res, fs) \<leftarrow> validate v (d_fs dj) (d_id dj) (ff_fs s);
     if res \<noteq> FR_OK then Some ((res, fno), dj, s\<lparr>ff_fs := fs\<rparr>)
     else case fno of
       None \<Rightarrow> do { (res, dj, fs) \<leftarrow> dir_sdi v 0 (dj, fs); Some ((res, None), dj, s\<lparr>ff_fs := fs\<rparr>) }
     | Some i \<Rightarrow> do { ((res, i), dj, fs) \<leftarrow> next_info v i (dj, fs); Some ((res, Some i), dj, s\<lparr>ff_fs := fs\<rparr>) } })"

definition f_stat :: "'k drive \<Rightarrow> DIR \<Rightarrow> u8 list \<Rightarrow> finfo \<Rightarrow> 'k ff \<Rightarrow> ((FRESULT \<times> finfo) \<times> 'k ff) option" where
  "f_stat v dj path fno s = do {
     (res, dj, s) \<leftarrow> at_path v False path dj (\<lambda>res (dj, fs).
       Some (if res = FR_OK \<and> d_dir dj = None then FR_INVALID_NAME else res, dj, fs)) s;
     Some ((res, if res = FR_OK then get_fileinfo (dj, ff_fs s) fno else fno), s) }"

subsection \<open>Free space\<close>

text \<open>Counting the free entries of a FAT12 table from cluster \<open>clst\<close> on.\<close>

partial_function (option) count12 :: "'k drive \<Rightarrow> u32 \<Rightarrow> u32 \<Rightarrow> 'k FATFS \<Rightarrow> ((FRESULT \<times> u32) \<times> 'k FATFS) option" where
  "count12 v clst n fs = do {
     (stat, fs) \<leftarrow> get_fat v clst fs;
     if stat = 0xffffffff then Some ((FR_DISK_ERR, n), fs)
     else if stat = 1 then Some ((FR_INT_ERR, n), fs)
     else do {
       let n = (if stat = 0 then n + 1 else n);
       if clst + 1 < n_fatent fs then count12 v (clst + 1) n fs else Some ((FR_OK, n), fs) } }"

text \<open>The other tables sector by sector: \<open>i\<close> bytes of the window are left, \<open>clst\<close> entries to go.\<close>

partial_function (option) count_entries ::
  "'k drive \<Rightarrow> u32 \<Rightarrow> nat \<Rightarrow> u32 \<Rightarrow> u32 \<Rightarrow> 'k FATFS \<Rightarrow> ((FRESULT \<times> u32) \<times> 'k FATFS) option" where
  "count_entries v sect i clst n fs = do {
     (res, fs) \<leftarrow> (if i = 0 then move_window v sect fs else Some (FR_OK, fs));
     if res \<noteq> FR_OK then Some ((res, n), fs)
     else do {
       let sect = (if i = 0 then sect + 1 else sect);
       let i = (if i = 0 then 512 else i);
       let w = (if fs_type fs = FS_FAT16 then 2 else 4);
       let free = (if fs_type fs = FS_FAT16 then LD_WORD (win fs) (512 - i) = 0
                   else LD_DWORD (win fs) (512 - i) AND 0x0fffffff = 0);
       let n = (if free then n + 1 else n);
       if clst - 1 = 0 then Some ((FR_OK, n), fs) else count_entries v sect (i - w) (clst - 1) n fs } }"

definition count_free :: "'k drive \<Rightarrow> 'k FATFS \<Rightarrow> ((FRESULT \<times> u32) \<times> 'k FATFS) option" where
  "count_free v fs =
     (if fs_type fs = FS_FAT12 then count12 v 2 0 fs else count_entries v (fatbase fs) 0 (n_fatent fs) 0 fs)"

text \<open>The number of free clusters; \<open>None\<close> where the code does not store it.\<close>

definition f_getfree :: "'k drive \<Rightarrow> u8 list \<Rightarrow> 'k ff \<Rightarrow> ((FRESULT \<times> u32 option) \<times> 'k ff) option" where
  "f_getfree v path s = do {
     ((res, _, _), s) \<leftarrow> chk_mounted v False path False s;
     let fs = ff_fs s;
     if res \<noteq> FR_OK then Some ((res, None), s)
     else if free_clust fs \<le> n_fatent fs - 2 then Some ((FR_OK, Some (free_clust fs)), s)
     else do {
       ((res, n), fs) \<leftarrow> count_free v fs;
       let fs = fs\<lparr>free_clust := n, fsi_flag := fsi_flag fs \<or> fs_type fs = FS_FAT32\<rparr>;
       Some ((res, Some n), s\<lparr>ff_fs := fs\<rparr>) } }"

subsection \<open>Removing\<close>

text \<open>A sub-directory may go only when it is empty and not the current one.\<close>

definition check_empty :: "'k drive \<Rightarrow> u32 \<Rightarrow> DIR \<times> 'k FATFS \<Rightarrow> (FRESULT \<times> 'k FATFS) option" where
  "check_empty v dclst = (\<lambda>(dj, fs).
     if dclst < 2 then Some (FR_INT_ERR, fs)
     else do {
       (res, sdj, fs) \<leftarrow> dir_sdi v 2 (dj\<lparr>d_sclust := dclst\<rparr>, fs);
       if res \<noteq> FR_OK then Some (res, fs)
       else do {
         (res, _, fs) \<leftarrow> dir_read v (sdj, fs);
         Some (if res = FR_OK \<or> dclst = cdir fs then FR_DENIED else if res = FR_NO_FILE then FR_OK else res, fs) } })"

definition unlink_entry :: "'k drive \<Rightarrow> u32 \<Rightarrow> DIR \<times> 'k FATFS \<Rightarrow> (FRESULT \<times> DIR \<times> 'k FATFS) option" where
  "unlink_entry v dclst s = do {
     (res, dj, fs) \<leftarrow> dir_remove v s;
     if res \<noteq> FR_OK then Some (res, dj, fs)
     else do {
       (res, fs) \<leftarrow> (if dclst \<noteq> 0 then remove_chain v dclst fs else Some (FR_OK, fs));
       (res, fs) \<leftarrow> (if res = FR_OK then sync v fs else Some (res, fs));
       Some (res, dj, fs) } }"

definition unlink_body :: "'k drive \<Rightarrow> FRESULT \<Rightarrow> DIR \<times> 'k FATFS \<Rightarrow> (FRESULT \<times> DIR \<times> 'k FATFS) option" where
  "unlink_body v res = (\<lambda>(dj, fs).
     let res = no_dot res dj
     in if res \<noteq> FR_OK then Some (res, dj, fs)
     else case d_dir dj of
       None \<Rightarrow> Some (FR_INVALID_NAME, dj, fs)
     | Some i \<Rightarrow>
         if entry_byte dj fs DIR_Attr AND AM_RDO \<noteq> 0 then Some (FR_DENIED, dj, fs)
         else do {
           let dclst = LD_CLUST (win fs) i;
           (res, fs) \<leftarrow> (if entry_byte dj fs DIR_Attr AND AM_DIR \<noteq> 0 then check_empty v dclst (dj, fs) else Some (FR_OK, fs));
           if res \<noteq> FR_OK then Some (res, dj, fs) else unlink_entry v dclst (dj, fs) })"

definition f_unlink :: "'k drive \<Rightarrow> DIR \<Rightarrow> u8 list \<Rightarrow> 'k ff \<Rightarrow> (FRESULT \<times> 'k ff) option" where
  "f_unlink v dj path s = do {
     (res, _, s) \<leftarrow> at_path v True path dj (unlink_body v) s;
     Some (res, s) }"

subsection \<open>Making a directory\<close>

text \<open>The table of a new directory: its entry for itself and its entry for the parent.\<close>

definition dot_entries :: "u32 \<Rightarrow> u32 \<Rightarrow> u8 list \<Rightarrow> u8 list" where
  "dot_entries dcl pcl w =
     (let w = mem_set 0 0 512 w;
          w = (mem_set DIR_Name 32 11 w)[DIR_Name := 46, DIR_Attr := AM_DIR];
          w = ST_CLUST 0 dcl (ST_DWORD DIR_WrtTime get_fattime w);
          w = (mem_cpy SZ_DIR (take SZ_DIR w) w)[33 := 46]
      in ST_CLUST SZ_DIR pcl w)"

text \<open>Writing the window to \<open>n\<close> sectors from \<open>dsc\<close> on, cleared after the first.\<close>

fun write_table :: "'k drive \<Rightarrow> nat \<Rightarrow> u32 \<Rightarrow> 'k FATFS \<Rightarrow> (FRESULT \<times> 'k FATFS) option" where
  "write_table v 0 dsc fs = Some (FR_OK, fs)"
| "write_table v (Suc n) dsc fs = do {
     (res, fs) \<leftarrow> move_window v 0 (fs\<lparr>winsect := dsc, wflag := True\<rparr>);
     if res \<noteq> FR_OK then Some (res, fs) else write_table v n (dsc + 1) (put_win (mem_set 0 0 512) fs) }"

definition parent_clust :: "DIR \<Rightarrow> 'k FATFS \<Rightarrow> u32" where
  "parent_clust dj fs = (if fs_type fs = FS_FAT32 \<and> d_sclust dj = dirbase fs then 0 else d_sclust dj)"

definition make_table :: "'k drive \<Rightarrow> u32 \<Rightarrow> DIR \<times> 'k FATFS \<Rightarrow> (FRESULT \<times> 'k FATFS) option" where
  "make_table v dcl = (\<lambda>(dj, fs). do {
     (res, fs) \<leftarrow> (if dcl = 0 then Some (FR_DENIED, fs) else if dcl = 1 then Some (FR_INT_ERR, fs)
       else if dcl = 0xffffffff then Some (FR_DISK_ERR, fs) else move_window v 0 fs);
     if res \<noteq> FR_OK then Some (res, fs)
     else write_table v (unat (csize fs)) (clust2sect fs dcl) (put_win (dot_entries dcl (parent_clust dj fs)) fs) })"

definition new_entry :: "nat \<Rightarrow> u32 \<Rightarrow> u8 list \<Rightarrow> u8 list" where
  "new_entry d dcl w = ST_CLUST d dcl (ST_DWORD (d + DIR_WrtTime) get_fattime (w[d + DIR_Attr := AM_DIR]))"

definition mkdir_body :: "'k drive \<Rightarrow> FRESULT \<Rightarrow> DIR \<times> 'k FATFS \<Rightarrow> (FRESULT \<times> DIR \<times> 'k FATFS) option" where
  "mkdir_body v res = (\<lambda>(dj, fs).
     let res = (if res = FR_OK then FR_EXIST
                else if res = FR_NO_FILE \<and> d_fn dj ! NS AND NS_DOT \<noteq> 0 then FR_INVALID_NAME else res)
     in if res \<noteq> FR_NO_FILE then Some (res, dj, fs)
     else do {
       (dcl, fs) \<leftarrow> create_chain v 0 fs;
       (res, fs) \<leftarrow> make_table v dcl (dj, fs);
       (res, dj, fs) \<leftarrow> (if res = FR_OK then dir_register v (dj, fs) else Some (res, dj, fs));
       if res \<noteq> FR_OK then do {
         (_, fs) \<leftarrow> remove_chain v dcl fs;
         Some (res, dj, fs) }
       else do {
         (res, fs) \<leftarrow> sync v (edit_win (new_entry (entry_at dj) dcl) fs);
         Some (res, dj, fs) } })"

definition f_mkdir :: "'k drive \<Rightarrow> DIR \<Rightarrow> u8 list \<Rightarrow> 'k ff \<Rightarrow> (FRESULT \<times> 'k ff) option" where
  "f_mkdir v dj path s = do {
     (res, _, s) \<leftarrow> at_path v True path dj (mkdir_body v) s;
     Some (res, s) }"

subsection \<open>Changing an entry\<close>

definition change_entry ::
  "'k drive \<Rightarrow> (nat \<Rightarrow> u8 list \<Rightarrow> u8 list) \<Rightarrow> FRESULT \<Rightarrow> DIR \<times> 'k FATFS \<Rightarrow> (FRESULT \<times> DIR \<times> 'k FATFS) option" where
  "change_entry v f res = (\<lambda>(dj, fs).
     let res = no_dot res dj
     in if res \<noteq> FR_OK then Some (res, dj, fs)
     else case d_dir dj of
       None \<Rightarrow> Some (FR_INVALID_NAME, dj, fs)
     | Some i \<Rightarrow> do {
         (res, fs) \<leftarrow> sync v (edit_win (f i) fs);
         Some (res, dj, fs) })"

definition f_chmod :: "'k drive \<Rightarrow> DIR \<Rightarrow> u8 list \<Rightarrow> u8 \<Rightarrow> u8 \<Rightarrow> 'k ff \<Rightarrow> (FRESULT \<times> 'k ff) option" where
  "f_chmod v dj path val msk s = do {
     let msk = msk AND (AM_RDO OR AM_HID OR AM_SYS OR AM_ARC);
     (res, _, s) \<leftarrow> at_path v True path dj (change_entry v (\<lambda>d w.
       w[d + DIR_Attr := (val AND msk) OR (w ! (d + DIR_Attr) AND NOT msk)])) s;
     Some (res, s) }"

definition f_utime :: "'k drive \<Rightarrow> DIR \<Rightarrow> u8 list \<Rightarrow> finfo \<Rightarrow> 'k ff \<Rightarrow> (FRESULT \<times> 'k ff) option" where
  "f_utime v dj path fno s = do {
     (res, _, s) \<leftarrow> at_path v True path dj (change_entry v (\<lambda>d w.
       ST_WORD (d + DIR_WrtDate) (i_fdate fno) (ST_WORD (d + DIR_WrtTime) (i_ftime fno) w))) s;
     Some (res, s) }"

subsection \<open>Renaming\<close>

text \<open>The new entry takes over everything but the name.\<close>

definition move_entry :: "nat \<Rightarrow> u8 list \<Rightarrow> u8 list \<Rightarrow> u8 list" where
  "move_entry d buf w = (mem_cpy (d + 13) (take 19 (drop 2 buf)) w)[d + DIR_Attr := buf ! 0 OR AM_ARC]"

text \<open>The parent entry of a directory that has moved to another one.\<close>

definition update_parent :: "'k drive \<Rightarrow> DIR \<times> DIR \<times> 'k FATFS \<Rightarrow> (FRESULT \<times> 'k FATFS) option" where
  "update_parent v = (\<lambda>(djo, djn, fs).
     if d_sclust djo = d_sclust djn \<or> entry_byte djn fs DIR_Attr AND AM_DIR = 0 then Some (FR_OK, fs)
     else do {
       let dw = clust2sect fs (LD_CLUST (win fs) (entry_at djn));
       if dw = 0 then Some (FR_INT_ERR, fs)
       else do {
         (res, fs) \<leftarrow> move_window v dw fs;
         Some (res, if res = FR_OK \<and> win fs ! (SZ_DIR + 1) = 46
                    then edit_win (ST_CLUST SZ_DIR (parent_clust djn fs)) fs else fs) } })"

text \<open>The new name is known not to exist; the old entry is at \<open>djo\<close>.\<close>

definition rename_entry :: "'k drive \<Rightarrow> u8 list \<Rightarrow> DIR \<times> DIR \<times> 'k FATFS \<Rightarrow> (FRESULT \<times> DIR \<times> 'k FATFS) option" where
  "rename_entry v buf = (\<lambda>(djo, djn, fs). do {
     (res, djn, fs) \<leftarrow> dir_register v (djn, fs);
     if res \<noteq> FR_OK then Some (res, djo, fs)
     else do {
       let fs = edit_win (move_entry (entry_at djn) buf) fs;
       (res, fs) \<leftarrow> update_parent v (djo, djn, fs);
       if res \<noteq> FR_OK then Some (res, djo, fs)
       else do {
         (res, djo, fs) \<leftarrow> dir_remove v (djo, fs);
         (res, fs) \<leftarrow> (if res = FR_OK then sync v fs else Some (res, fs));
         Some (res, djo, fs) } } })"

definition rename_body ::
  "'k drive \<Rightarrow> u8 list \<Rightarrow> FRESULT \<Rightarrow> DIR \<times> 'k FATFS \<Rightarrow> (FRESULT \<times> DIR \<times> 'k FATFS) option" where
  "rename_body v path_new res = (\<lambda>(djo, fs).
     let res = no_dot res djo
     in if res \<noteq> FR_OK then Some (res, djo, fs)
     else case d_dir djo of
       None \<Rightarrow> Some (FR_NO_FILE, djo, fs)
     | Some i \<Rightarrow> do {
         let buf = take 21 (drop (i + DIR_Attr) (win fs));
         (res, djn, fs) \<leftarrow> follow_path v path_new (djo, fs);
         if res = FR_OK then Some (FR_EXIST, djo, fs)
         else if res \<noteq> FR_NO_FILE then Some (res, djo, fs)
         else rename_entry v buf (djo, djn, fs) })"

definition f_rename :: "'k drive \<Rightarrow> DIR \<Rightarrow> u8 list \<Rightarrow> u8 list \<Rightarrow> 'k ff \<Rightarrow> (FRESULT \<times> 'k ff) option" where
  "f_rename v dj path_old path_new s = do {
     (res, _, s) \<leftarrow> at_path v True path_old dj (rename_body v path_new) s;
     Some (res, s) }"

end
