(* ===== verification/File_Data.thy ===== *)
theory File_Data
  imports Block_Drive Ff_Api
begin

text \<open>
  The contents of a file: the sectors of the clusters of its chain, and where in them a position of
  the file lies.
\<close>

subsection \<open>Arithmetic\<close>

lemma div_bound: "q < l * n \<Longrightarrow> q div n < l \<and> q mod n < n \<and> 0 < (n :: nat)"
  by (cases n) (auto simp: less_mult_imp_div_less)

lemma unat_ucast_8_32 [simp]: "unat (ucast (w :: u8) :: u32) = unat w"
  by (rule unat_ucast_up) simp

lemma unat_pow8: "j < 8 \<Longrightarrow> unat (2 ^ j :: u8) = 2 ^ j" "j < 8 \<Longrightarrow> unat (2 ^ j :: u32) = 2 ^ j"
proof -
  assume "j < 8"
  then have "j = 0 \<or> j = 1 \<or> j = 2 \<or> j = 3 \<or> j = 4 \<or> j = 5 \<or> j = 6 \<or> j = 7" by arith
  then show "unat (2 ^ j :: u8) = 2 ^ j" "unat (2 ^ j :: u32) = 2 ^ j" by auto
qed

subsection \<open>Data sectors\<close>

definition data_inv :: "'k store \<Rightarrow> 'k FATFS \<Rightarrow> bool" where
  "data_inv D fs \<longleftrightarrow> fat_inv D fs \<and> (\<exists>j<8. csize fs = 2 ^ j) \<and>
     unat (fatbase fs) + unat (n_fats fs) * unat (fsize fs) \<le> unat (database fs) \<and>
     unat (database fs) + (unat (n_fatent fs) - 2) * unat (csize fs) < 2 ^ 32 \<and>
     (\<forall>s. unat (database fs) \<le> unat s \<and> unat s < unat (database fs) + (unat (n_fatent fs) - 2) * unat (csize fs) \<longrightarrow> s \<in> st_set D)"

definition clust_sects :: "'k FATFS \<Rightarrow> u32 \<Rightarrow> u32 list" where
  "clust_sects fs c = map (\<lambda>i. clust2sect fs c + of_nat i) [0..<unat (csize fs)]"

definition file_sects :: "'k FATFS \<Rightarrow> u32 list \<Rightarrow> u32 list" where
  "file_sects fs cs = concat (map (clust_sects fs) cs)"

definition file_data :: "'k store \<Rightarrow> 'k FATFS \<Rightarrow> u32 list \<Rightarrow> u8 list" where
  "file_data D fs cs = concat (map (view D fs) (file_sects fs cs))"

lemma csize_unat:
  assumes "data_inv D fs"
  obtains j where "j < 8" "csize fs = 2 ^ j" "unat (csize fs) = 2 ^ j" "0 < unat (csize fs)" "unat (csize fs) \<le> 128"
proof -
  from assms obtain j where j: "j < 8" "csize fs = 2 ^ j" by (auto simp: data_inv_def)
  then have u: "unat (csize fs) = 2 ^ j" by (simp add: unat_pow8)
  have "(2 :: nat) ^ j \<le> 2 ^ 7" using j by (intro power_increasing) auto
  with j u that [of j] show ?thesis by simp
qed

lemma clust_sect_unat:
  assumes "data_inv D fs" "in_vol fs c" "i < unat (csize fs)"
  shows "unat (clust2sect fs c + of_nat i) = unat (database fs) + (unat c - 2) * unat (csize fs) + i"
proof -
  have c: "2 \<le> unat c" "unat c < unat (n_fatent fs)"
    using assms(2) by (simp_all add: in_vol_def word_le_nat_alt word_less_nat_alt)
  have u2: "unat (c - 2) = unat c - 2" using c by (simp add: unat_sub word_le_nat_alt)
  have n2: "unat (n_fatent fs - 2) = unat (n_fatent fs) - 2" using c by (simp add: unat_sub word_le_nat_alt)
  have lt: "\<not> n_fatent fs - 2 \<le> c - 2" using c u2 n2 by (simp add: word_le_nat_alt)
  have "(unat c - 2 + 1) * unat (csize fs) \<le> (unat (n_fatent fs) - 2) * unat (csize fs)"
    using c by (intro mult_right_mono) auto
  then have b: "unat (database fs) + (unat c - 2) * unat (csize fs) + i < 2 ^ 32"
    using assms(1,3) by (simp add: data_inv_def add_mult_distrib)
  have "unat ((c - 2) * ucast (csize fs)) = (unat c - 2) * unat (csize fs)"
    using b u2 by (simp add: unat_word_ariths)
  then have "unat (clust2sect fs c) = unat (database fs) + (unat c - 2) * unat (csize fs)"
    using lt b by (simp add: clust2sect_def Let_def unat_word_ariths)
  with b show ?thesis by (simp add: unat_word_ariths unat_of_nat)
qed

lemma clust_sect_ok:
  assumes d: "data_inv D fs" and c: "in_vol fs c" and i: "i < unat (csize fs)"
  defines "s \<equiv> clust2sect fs c + of_nat i"
  shows "s \<in> st_set D" "\<not> in_mirror fs s" "off_fat fs s" "fatbase fs \<le> s" "s \<noteq> 0"
proof -
  have u: "unat s = unat (database fs) + (unat c - 2) * unat (csize fs) + i"
    unfolding s_def by (rule clust_sect_unat [OF d c i])
  have g: "0 < fatbase fs" "n_fats fs = 1 \<or> n_fats fs = 2" using d by (auto simp: data_inv_def fat_inv_def win_inv_def geometry_def)
  have c': "2 \<le> unat c" "unat c < unat (n_fatent fs)"
    using c by (simp_all add: in_vol_def word_le_nat_alt word_less_nat_alt)
  have "(unat c - 2 + 1) * unat (csize fs) \<le> (unat (n_fatent fs) - 2) * unat (csize fs)"
    using c' by (intro mult_right_mono) auto
  with u i have le: "unat s < unat (database fs) + (unat (n_fatent fs) - 2) * unat (csize fs)"
    by (simp add: add_mult_distrib)
  with d u show "s \<in> st_set D" by (simp add: data_inv_def)
  have fb: "unat (fatbase fs) + unat (n_fats fs) * unat (fsize fs) \<le> unat s" using d u by (simp add: data_inv_def)
  with g(2) show "off_fat fs s" by (auto simp: off_fat_def)
  then show "\<not> in_mirror fs s" by (auto simp: off_fat_def in_mirror_def)
  show le: "fatbase fs \<le> s" using fb by (simp add: word_le_nat_alt)
  with g(1) show "s \<noteq> 0" by auto
qed

lemma clust2sect_nz: "data_inv D fs \<Longrightarrow> in_vol fs c \<Longrightarrow> clust2sect fs c \<noteq> 0"
  using clust_sect_ok(5) [of D fs c 0] by (auto elim: csize_unat)

subsection \<open>Lists of blocks\<close>

lemma concat_blocks_length: "\<forall>x\<in>set xs. length x = n \<Longrightarrow> length (concat xs) = length xs * n"
  by (induction xs) auto

lemma drop_blocks: "\<forall>x\<in>set xs. length x = n \<Longrightarrow> drop (k * n) (concat xs) = concat (drop k xs)"
proof (induction xs arbitrary: k)
  case (Cons x xs)
  then show ?case by (cases k) auto
qed simp

lemma take_blocks: "\<forall>x\<in>set xs. length x = n \<Longrightarrow> take (k * n) (concat xs) = concat (take k xs)"
proof (induction xs arbitrary: k)
  case (Cons x xs)
  then show ?case by (cases k) auto
qed simp

lemma nth_blocks:
  assumes "\<forall>x\<in>set xs. length x = n" "q < length xs * n"
  shows "concat xs ! q = xs ! (q div n) ! (q mod n)"
proof -
  have n: "0 < n" and k: "q div n < length xs" using div_bound [OF assms(2)] by auto
  have "concat xs ! q = drop (q div n * n) (concat xs) ! (q mod n)"
    using assms k concat_blocks_length [OF assms(1)] by (subst nth_drop) (auto simp: div_times_less_eq_dividend)
  also have "\<dots> = concat (drop (q div n) xs) ! (q mod n)" by (simp add: drop_blocks [OF assms(1)])
  also have "\<dots> = xs ! (q div n) ! (q mod n)"
    using assms(1) k n by (simp add: Cons_nth_drop_Suc [symmetric] nth_append)
  finally show ?thesis .
qed

text \<open>Part of one block.\<close>

lemma part_of_block:
  assumes "\<forall>x\<in>set xs. length x = n" "q < length xs" "k + m \<le> n"
  shows "take m (drop k (xs ! q)) = take m (drop (q * n + k) (concat xs))"
proof -
  have "drop (q * n + k) (concat xs) = drop k (concat (drop q xs))"
    by (simp add: drop_blocks [OF assms(1), symmetric] add.commute)
  also have "concat (drop q xs) = xs ! q @ concat (drop (Suc q) xs)" using assms(2) by (simp add: Cons_nth_drop_Suc [symmetric])
  finally show ?thesis using assms by simp
qed

text \<open>A run of blocks.\<close>

lemma run_of_blocks:
  assumes "\<forall>x\<in>set xs. length x = n" "q + m \<le> length xs"
  shows "concat (map ((!) xs) [q..<q + m]) = take (m * n) (drop (q * n) (concat xs))"
proof -
  have "map ((!) xs) [q..<q + m] = take m (drop q xs)" using assms(2) by (intro nth_equalityI) auto
  then show ?thesis using assms(1) take_blocks [of "drop q xs" n m] by (simp add: drop_blocks in_set_dropD)
qed

subsection \<open>The sectors of a file\<close>

lemma clust_sects_length [simp]: "length (clust_sects fs c) = unat (csize fs)"
  by (simp add: clust_sects_def)

lemma file_sects_length: "length (file_sects fs cs) = length cs * unat (csize fs)"
  unfolding file_sects_def by (subst concat_blocks_length [of _ "unat (csize fs)"]) auto

lemma file_sects_nth:
  assumes "q < length cs * unat (csize fs)"
  shows "file_sects fs cs ! q = clust2sect fs (cs ! (q div unat (csize fs))) + of_nat (q mod unat (csize fs))"
proof -
  have n: "0 < unat (csize fs)" and k: "q div unat (csize fs) < length cs"
    using div_bound [OF assms] by auto
  have "file_sects fs cs ! q = map (clust_sects fs) cs ! (q div unat (csize fs)) ! (q mod unat (csize fs))"
    unfolding file_sects_def by (rule nth_blocks) (use assms in auto)
  then show ?thesis using n k by (simp add: clust_sects_def)
qed

lemma file_sect_ok:
  assumes "data_inv D fs" "\<forall>c\<in>set cs. in_vol fs c" "q < length cs * unat (csize fs)"
  shows "file_sects fs cs ! q \<in> st_set D" "\<not> in_mirror fs (file_sects fs cs ! q)" "off_fat fs (file_sects fs cs ! q)"
    "fatbase fs \<le> file_sects fs cs ! q" "file_sects fs cs ! q \<noteq> 0"
proof -
  have "q div unat (csize fs) < length cs" "q mod unat (csize fs) < unat (csize fs)"
    using div_bound [OF assms(3)] by auto
  with assms(2) have c: "in_vol fs (cs ! (q div unat (csize fs)))" and "q mod unat (csize fs) < unat (csize fs)" by auto
  from clust_sect_ok [OF assms(1) this]
  show "file_sects fs cs ! q \<in> st_set D" "\<not> in_mirror fs (file_sects fs cs ! q)" "off_fat fs (file_sects fs cs ! q)"
    "fatbase fs \<le> file_sects fs cs ! q" "file_sects fs cs ! q \<noteq> 0"
    by (simp_all add: file_sects_nth [OF assms(3)])
qed

subsection \<open>A position in a file\<close>

lemma csect_unat:
  assumes "data_inv D fs"
  shows "unat (csect_of fp fs) = (unat (f_fptr fp) div 512) mod unat (csize fs)"
proof -
  obtain j where j: "j < 8" "csize fs = 2 ^ j" "unat (csize fs) = 2 ^ j" "unat (csize fs) \<le> 128"
    using assms by (rule csize_unat)
  have e: "ucast (csize fs) = (2 ^ j :: u32)"
    by (rule word_unat_eq_iff [THEN iffD2]) (use j in \<open>simp add: unat_pow8\<close>)
  let ?x = "(f_fptr fp div 512) AND (ucast (csize fs) - 1)"
  have "?x = take_bit j (f_fptr fp div 512)"
    by (simp add: e take_bit_eq_mask mask_eq_exp_minus_1)
  then have x: "unat ?x = (unat (f_fptr fp) div 512) mod 2 ^ j"
    using unat_pow8(2) [OF j(1)] by (simp add: take_bit_eq_mod unat_mod unat_div)
  also have "\<dots> < 2 ^ j" by simp
  also have "\<dots> \<le> 128" using j by simp
  finally have "unat ?x < 256" by simp
  then have "unat (csect_of fp fs) = unat ?x" by (simp add: csect_of_def unat_ucast_mod)
  with x j show ?thesis by simp
qed

definition bcs_of :: "'k FATFS \<Rightarrow> nat" where
  "bcs_of fs = unat (csize fs) * 512"

text \<open>
  An open file whose chain is \<open>cs\<close>: the object knows the first cluster, the cluster of the byte
  before the file pointer and, inside a sector, the sector. A file without clusters is empty.
\<close>

definition file_at :: "'k store \<Rightarrow> 'k FATFS \<Rightarrow> u32 list \<Rightarrow> FIL \<Rightarrow> bool" where
  "file_at D fs cs fp \<longleftrightarrow>
     (if cs = [] then f_sclust fp = 0 else is_chain (fat_of D fs) (n_fatent fs) cs \<and> f_sclust fp = cs ! 0) \<and>
     unat (f_fsize fp) \<le> length cs * bcs_of fs \<and> unat (f_fptr fp) \<le> length cs * bcs_of fs \<and>
     (0 < unat (f_fptr fp) \<longrightarrow> f_clust fp = cs ! ((unat (f_fptr fp) - 1) div bcs_of fs)) \<and>
     (unat (f_fptr fp) mod 512 \<noteq> 0 \<longrightarrow> f_dsect fp = file_sects fs cs ! (unat (f_fptr fp) div 512))"

lemma file_at_in_vol: "file_at D fs cs fp \<Longrightarrow> c \<in> set cs \<Longrightarrow> in_vol fs c"
  by (auto simp: file_at_def in_vol_def dest: is_chain_in split: if_splits)

text \<open>Moving the window and reading change nothing of this.\<close>

definition same_view :: "'k store \<Rightarrow> 'k FATFS \<Rightarrow> 'k FATFS \<Rightarrow> bool" where
  "same_view D fs fs' \<longleftrightarrow> fat_inv D fs' \<and> fs_frame fs fs' \<and> (\<forall>s. \<not> in_mirror fs s \<longrightarrow> view D fs' s = view D fs s)"

lemma same_view_refl: "fat_inv D fs \<Longrightarrow> same_view D fs fs" by (simp add: same_view_def)

lemma same_view_trans:
  assumes "same_view D fs fs1" "same_view D fs1 fs2" shows "same_view D fs fs2"
proof -
  have "in_mirror fs1 = in_mirror fs" using assms(1) by (simp add: same_view_def in_mirror_frame)
  with assms show ?thesis by (auto simp: same_view_def intro: fsframe_trans)
qed

lemma same_view_fields:
  assumes "same_view D fs fs'"
  shows "clust2sect fs' = clust2sect fs" "csize fs' = csize fs" "bcs_of fs' = bcs_of fs" "in_vol fs' = in_vol fs"
    "file_sects fs' = file_sects fs" "csect_of fp fs' = csect_of fp fs" "n_fatent fs' = n_fatent fs"
    "clip a b fs' = clip a b fs"
proof -
  have fr: "fs_frame fs fs'" using assms by (simp add: same_view_def)
  note f = fsframe_fields [OF fr]
  show c: "clust2sect fs' = clust2sect fs" by (simp add: fun_eq_iff clust2sect_def f cong: if_cong)
  show "csize fs' = csize fs" "bcs_of fs' = bcs_of fs" "n_fatent fs' = n_fatent fs" "csect_of fp fs' = csect_of fp fs"
    "clip a b fs' = clip a b fs"
    by (simp_all add: f bcs_of_def csect_of_def clip_def cong: if_cong)
  show "in_vol fs' = in_vol fs" by (simp add: fun_eq_iff in_vol_def f)
  show "file_sects fs' = file_sects fs" by (simp add: fun_eq_iff file_sects_def clust_sects_def [abs_def] c f)
qed

lemma same_view_data:
  assumes "same_view D fs fs'" "data_inv D fs"
  shows "data_inv D fs'"
proof -
  have "fs_frame fs fs'" "fat_inv D fs'" using assms(1) by (simp_all add: same_view_def)
  note f = fsframe_fields [OF this(1)]
  show ?thesis using assms(2) \<open>fat_inv D fs'\<close> unfolding data_inv_def f by simp
qed

lemma same_view_chain:
  assumes "same_view D fs fs'" "fat_inv D fs"
  shows "is_chain (fat_of D fs') (n_fatent fs) cs = is_chain (fat_of D fs) (n_fatent fs) cs"
proof -
  have e: "fat_of D fs' c = fat_of D fs c" if "2 \<le> c \<and> c < n_fatent fs" for c
    using that assms by (intro fat_of_view) (auto simp: same_view_def in_vol_def)
  show ?thesis
  proof (cases "\<forall>c\<in>set cs. 2 \<le> c \<and> c < n_fatent fs")
    case True
    then show ?thesis by (intro is_chain_cong) (use e in blast)
  next
    case False
    then show ?thesis using is_chain_in by blast
  qed
qed

lemma same_view_file:
  assumes "same_view D fs fs'" "data_inv D fs"
  shows "file_at D fs' cs fp = file_at D fs cs fp"
    and "\<forall>c\<in>set cs. in_vol fs c \<Longrightarrow> file_data D fs' cs = file_data D fs cs"
proof -
  have inv: "fat_inv D fs" using assms(2) by (simp add: data_inv_def)
  note f = same_view_fields [OF assms(1)]
  show "file_at D fs' cs fp = file_at D fs cs fp"
    using same_view_chain [OF assms(1) inv] by (simp add: file_at_def f)
  assume cs: "\<forall>c\<in>set cs. in_vol fs c"
  have "view D fs' s = view D fs s" if "s \<in> set (file_sects fs cs)" for s
  proof -
    from that obtain q where "q < length cs * unat (csize fs)" "s = file_sects fs cs ! q"
      by (auto simp: in_set_conv_nth file_sects_length)
    with file_sect_ok(2) [OF assms(2) cs] assms(1) show ?thesis by (simp add: same_view_def)
  qed
  then show "file_data D fs' cs = file_data D fs cs" by (auto simp: file_data_def f intro!: arg_cong [of _ _ concat])
qed

lemma view_length:
  assumes "stores v D" "win_inv D fs" "s \<in> st_set D"
  shows "length (view D fs s) = 512"
  using assms by (auto simp: view_def win_inv_def elim: stores_read)

end
