(* ===== verification/File_Read.thy ===== *)
theory File_Read
  imports File_Data
begin

text \<open>
  Reading a file: \<open>f_read\<close> delivers the bytes of the file's clusters.
\<close>

subsection \<open>Positions\<close>

lemma pos_div: "unat (csize fs) = n \<Longrightarrow> p div bcs_of fs = p div 512 div n"
  using div_mult2_eq [of p 512 n] by (simp add: bcs_of_def mult.commute)

lemma pred_div:
  assumes "0 < (n :: nat)" "0 < q"
  shows "(q - 1) div n = (if q mod n = 0 then q div n - 1 else q div n)"
proof -
  have q: "n * (q div n) + q mod n = q" by simp
  show ?thesis
  proof (cases "q mod n = 0")
    case True
    then obtain k where k: "q = n * k" by auto
    with assms(2) obtain m where m: "k = Suc m" by (cases k) auto
    have "(q - 1) div n = m" by (rule div_nat_eqI) (use k m assms in auto)
    with True k m assms(1) show ?thesis by simp
  next
    case False
    have "q mod n < n" using assms(1) by simp
    moreover have "n * (q div n) \<le> q - 1" using q False by linarith
    moreover have "q - 1 < n * Suc (q div n)" unfolding mult_Suc_right using q \<open>q mod n < n\<close> by linarith
    ultimately have "(q - 1) div n = q div n" by (intro div_nat_eqI)
    with False show ?thesis by simp
  qed
qed

lemma is_chain_next: "is_chain F n cs \<Longrightarrow> Suc i < length cs \<Longrightarrow> F (cs ! i) = cs ! Suc i"
proof (induction F n cs arbitrary: i rule: is_chain.induct)
  case (3 F n c d cs)
  then show ?case by (cases i) auto
qed auto

lemma is_chain_last: "is_chain F n cs \<Longrightarrow> Suc i = length cs \<Longrightarrow> n \<le> F (cs ! i)"
  by (induction F n cs arbitrary: i rule: is_chain.induct) (auto simp: nth_Cons')

lemma mem_cpy_block:
  assumes "\<forall>x\<in>set bs. length x = n" "i < length bs" "length w = n"
  shows "mem_cpy (i * n) w (concat bs) = concat (bs[i := w])"
proof -
  have "bs[i := w] = take i bs @ w # drop (Suc i) bs" using assms(2) by (simp add: upd_conv_take_nth_drop)
  moreover have "drop (i * n + n) (concat bs) = concat (drop (Suc i) bs)"
    using drop_blocks [OF assms(1), of "Suc i"] by (simp add: add.commute)
  ultimately show ?thesis using assms take_blocks [OF assms(1), of i] by (simp add: mem_cpy_def)
qed

text \<open>The object after a transfer that stays in one sector, and after one of whole sectors in a cluster.\<close>

lemma same_div: "(p :: nat) mod n + m < n \<Longrightarrow> (p + m) div n = p div n"
proof -
  assume a: "p mod n + m < n"
  have q: "n * (p div n) + p mod n = p" by simp
  show ?thesis
  proof (rule div_nat_eqI)
    show "n * (p div n) \<le> p + m" using q by linarith
    show "p + m < n * Suc (p div n)" unfolding mult_Suc_right using q a by linarith
  qed
qed

lemma unat_plus_nat: "unat (w :: u32) + m < 2 ^ 32 \<Longrightarrow> unat (w + of_nat m) = unat w + m"
  by (simp add: unat_word_ariths unat_of_nat)

lemma moved_in_sector:
  assumes f: "file_at D fs cs fp" and m: "0 < m" "unat (f_fptr fp) mod 512 + m \<le> 512" "unat (f_fptr fp) + m < 2 ^ 32"
    "unat (f_fptr fp) + m \<le> length cs * bcs_of fs"
  shows "file_at D fs cs (fp\<lparr>f_clust := cs ! (unat (f_fptr fp) div bcs_of fs),
    f_dsect := file_sects fs cs ! (unat (f_fptr fp) div 512), f_fptr := f_fptr fp + of_nat m\<rparr>)"
proof -
  let ?p = "unat (f_fptr fp)"
  have "(?p + (m - 1)) div 512 = ?p div 512" by (rule same_div) (use m in linarith)
  then have "(?p + m - 1) div bcs_of fs = ?p div bcs_of fs" using m(1) by (simp add: pos_div [OF refl])
  moreover have "(?p + m) div 512 = ?p div 512" if "(?p + m) mod 512 \<noteq> 0"
  proof -
    have "?p mod 512 + m \<noteq> 512"
    proof
      assume "?p mod 512 + m = 512"
      then have "(?p + m) mod 512 = 0" by (metis mod_add_left_eq mod_self)
      with that show False by simp
    qed
    with m(2) show ?thesis by (intro same_div) linarith
  qed
  ultimately show ?thesis using f m by (auto simp: file_at_def unat_plus_nat)
qed

lemma moved_sectors:
  assumes f: "file_at D fs cs fp" and p: "unat (f_fptr fp) mod 512 = 0" and n: "unat (csize fs) = n"
    and k: "0 < k" "unat (f_fptr fp) div 512 mod n + k \<le> n" "unat (f_fptr fp) + 512 * k < 2 ^ 32"
    "unat (f_fptr fp) + 512 * k \<le> length cs * bcs_of fs"
  shows "file_at D fs cs (fp\<lparr>f_clust := cs ! (unat (f_fptr fp) div bcs_of fs), f_dsect := s,
    f_fptr := f_fptr fp + of_nat (512 * k)\<rparr>)"
proof -
  let ?p = "unat (f_fptr fp)" let ?q = "?p div 512"
  have "?p + 512 * k - 1 = 512 * (?q + (k - 1)) + 511"
    using p k(1) mult_div_mod_eq [of 512 ?p] by (simp add: algebra_simps)
  then have "(?p + 512 * k - 1) div 512 = ?q + (k - 1)" by simp
  moreover have "(?q + (k - 1)) div n = ?q div n" by (rule same_div) (use k in linarith)
  ultimately have "(?p + 512 * k - 1) div bcs_of fs = ?p div bcs_of fs" by (simp add: pos_div [OF n])
  moreover have "(?p + 512 * k) mod 512 = 0" using p by (simp add: mod_add_left_eq [symmetric])
  moreover have "unat (f_fptr fp + of_nat (512 * k)) = ?p + 512 * k" by (rule unat_plus_nat) (use k in simp)
  ultimately show ?thesis using f k by (simp add: file_at_def del: of_nat_mult of_nat_numeral)
qed

subsection \<open>Reading on a drive that keeps its contract\<close>

context block_drive
begin

lemma window_at:
  assumes "fat_inv D fs" "s \<in> st_set D" "\<not> in_mirror fs s" "s \<noteq> 0"
  shows "\<exists>fs'. move_window v s fs = Some (FR_OK, fs') \<and> same_view D fs fs' \<and> winsect fs' = s \<and> win fs' = view D fs s"
proof -
  have "win_inv D fs" using assms(1) by (simp add: fat_inv_def)
  from move_window_ok [OF stores this _ assms(3)] assms(2,4)
  obtain fs' where "move_window v s fs = Some (FR_OK, fs')" "win_inv D fs'" "fs_frame fs fs'" "winsect fs' = s"
    "\<forall>s. \<not> in_mirror fs s \<longrightarrow> view D fs' s = view D fs s" by auto
  moreover from this have "fat_inv D fs'" using assms(1) fat_inv_frame by blast
  moreover have "win fs' = view D fs' s" using \<open>winsect fs' = s\<close> assms(4) by (simp add: view_def)
  ultimately show ?thesis using assms(3) by (auto simp: same_view_def)
qed

lemma next_cluster:
  assumes "fat_inv D fs" "in_vol fs c"
  shows "\<exists>fs'. get_fat v c fs = Some (fat_of D fs c, fs') \<and> same_view D fs fs'"
  using get_fat_ok [OF stores assms(1), of c] assms(2) by (auto simp: in_vol_def same_view_def)

lemma read_clust_ok:
  assumes d: "data_inv D fs" and f: "file_at D fs cs fp" and p: "unat (f_fptr fp) mod 512 = 0"
    and lt: "unat (f_fptr fp) < length cs * bcs_of fs"
  shows "\<exists>fs'. read_clust v (fp, fs) = Some (FR_OK, fp\<lparr>f_clust := cs ! (unat (f_fptr fp) div bcs_of fs)\<rparr>, fs') \<and> same_view D fs fs'"
proof -
  let ?p = "unat (f_fptr fp)" let ?n = "unat (csize fs)" let ?q = "?p div 512"
  obtain n0: "0 < ?n" using d by (rule csize_unat)
  have inv: "fat_inv D fs" using d by (simp add: data_inv_def)
  have cs: "cs \<noteq> []" using lt by auto
  have ch: "is_chain (fat_of D fs) (n_fatent fs) cs" "f_sclust fp = cs ! 0" using f cs by (auto simp: file_at_def)
  have k: "?p div bcs_of fs = ?q div ?n" by (rule pos_div [OF refl])
  have kl: "?p div bcs_of fs < length cs" using lt by (simp add: less_mult_imp_div_less)
  have vol: "2 \<le> cs ! i \<and> cs ! i < n_fatent fs" if "i < length cs" for i using is_chain_in [OF ch(1)] that by simp
  have nerr: "cs ! i \<noteq> 0xffffffff" if "i < length cs" for i
    using vol [OF that] unsigned_less [where 'a = nat, of "n_fatent fs"] by (auto simp: word_less_nat_alt)
  have cst: "csect_of fp fs = 0 \<longleftrightarrow> ?q mod ?n = 0"
    using csect_unat [OF d, of fp] by (metis unat_eq_zero)
  have prev: "(?p - 1) div bcs_of fs = (?q - 1) div ?n" if "0 < ?p"
  proof -
    have "?p = ?q * 512" using p by (simp add: mod_eq_0_iff_dvd)
    moreover from this that have "0 < ?q" by (metis gr0I mult_0)
    ultimately have "(?p - 1) div 512 = ?q - 1" using pred_div [of 512 ?p] p that by simp
    then show ?thesis by (simp add: pos_div [OF refl])
  qed
  consider "csect_of fp fs \<noteq> 0" | "csect_of fp fs = 0" "?p = 0" | "csect_of fp fs = 0" "0 < ?p" by auto
  then show ?thesis
  proof cases
    case 1
    then have "?q mod ?n \<noteq> 0" using cst by simp
    then have "0 < ?q" by (metis gr0I mod_0)
    then have pp: "0 < ?p" by (metis div_0 gr0I)
    with \<open>?q mod ?n \<noteq> 0\<close> \<open>0 < ?q\<close> have "(?p - 1) div bcs_of fs = ?p div bcs_of fs"
      using prev pred_div [OF n0, of ?q] k by simp
    with f pp have "f_clust fp = cs ! (?p div bcs_of fs)" by (simp add: file_at_def)
    then have "fp\<lparr>f_clust := cs ! (?p div bcs_of fs)\<rparr> = fp" by simp
    with 1 same_view_refl [OF inv] show ?thesis by (simp add: read_clust_def)
  next
    case 2
    then have z: "f_fptr fp = 0" by (simp add: unat_eq_zero)
    with 2 ch vol [of 0] nerr [of 0] cs same_view_refl [OF inv] show ?thesis
      by (simp add: read_clust_def not_less [symmetric])
  next
    case 3
    then have "0 < ?q" using p by (metis div_0 gr0I mod_div_mult_eq mult_0 add_0)
    with 3 have i: "(?p - 1) div bcs_of fs = ?p div bcs_of fs - 1" using prev pred_div [OF n0] cst k by simp
    have kp: "0 < ?p div bcs_of fs" using 3 cst k n0 \<open>0 < ?q\<close> by (metis div_greater_zero_iff mod_less gr0I not_le)
    let ?i = "?p div bcs_of fs - 1"
    have c: "f_clust fp = cs ! ?i" using f 3 i by (simp add: file_at_def)
    have il: "?i < length cs" "Suc ?i < length cs" "Suc ?i = ?p div bcs_of fs" using kl kp by auto
    have "in_vol fs (cs ! ?i)" using vol [OF il(1)] by (simp add: in_vol_def)
    from next_cluster [OF inv this] obtain fs' where g: "get_fat v (cs ! ?i) fs = Some (fat_of D fs (cs ! ?i), fs')" "same_view D fs fs'"
      by blast
    have "fat_of D fs (cs ! ?i) = cs ! (?p div bcs_of fs)" using is_chain_next [OF ch(1) il(2)] il(3) by simp
    with g c 3 vol [OF kl] nerr [OF kl] show ?thesis
      by (auto simp: read_clust_def unat_eq_zero not_less [symmetric])
  qed
qed

text \<open>Reading a run of sectors past the window.\<close>

lemma read_direct_ok:
  assumes inv: "fat_inv D fs" and cc: "0 < unat cc" "unat cc \<le> 128"
    and s: "\<forall>i<unat cc. s + of_nat i \<in> st_set D \<and> s + of_nat i \<noteq> 0"
  shows "\<exists>fs'. read_direct v s cc fs = Some ((RES_OK, concat (map (\<lambda>i. view D fs (s + of_nat i)) [0..<unat cc])), fs') \<and>
    same_view D fs fs'"
proof -
  have w: "win_inv D fs" and drv: "drv fs = 0" and ok: "st_ok D (media fs)"
    using inv by (simp_all add: fat_inv_def win_inv_def geometry_def)
  have n: "unat (ucast cc :: u8) = unat cc" using cc by (simp add: unat_ucast_mod)
  have nz: "(ucast cc :: u8) \<noteq> 0" using n cc by (metis unat_0 less_irrefl)
  let ?bs = "map (\<lambda>i. st_sec D (media fs) (s + of_nat i)) [0..<unat cc]"
  obtain k where k: "dk_read v 0 s (ucast cc) (media fs) = Some ((RES_OK, concat ?bs), k)" "st_ok D k"
    "st_sec D k = st_sec D (media fs)"
    using reads [OF ok nz, of s] s n by auto
  let ?fs = "fs\<lparr>media := k\<rparr>"
  have sv: "same_view D fs ?fs"
    using inv k by (auto simp: same_view_def fs_frame_def fat_inv_def win_inv_def geometry_def in_mirror_def view_def)
  have l: "\<forall>x\<in>set ?bs. length x = 512" using s sector_length [OF ok] by auto
  let ?d = "winsect fs - s"
  have at: "s + of_nat i = winsect fs \<longleftrightarrow> i = unat ?d" if "i < unat cc" for i
  proof -
    have "unat (of_nat i :: u32) = i" using that cc by (simp add: unat_of_nat)
    moreover have "s + of_nat i = winsect fs \<longleftrightarrow> of_nat i = ?d" by (auto simp: algebra_simps)
    ultimately show ?thesis by auto
  qed
  have v: "view D fs (s + of_nat i) = (if wflag fs \<and> i = unat ?d then win fs else st_sec D (media fs) (s + of_nat i))"
    if "i < unat cc" for i
    using w s that at [OF that] by (auto simp: view_def win_inv_def)
  show ?thesis
  proof (cases "wflag fs \<and> ?d < cc")
    case True
    then have i: "unat ?d < length ?bs" by (simp add: word_less_nat_alt)
    have "length (win fs) = 512" using w by (simp add: win_inv_def)
    from mem_cpy_block [OF l i this]
    have "mem_cpy (unat ?d * 512) (win fs) (concat ?bs) = concat (?bs[unat ?d := win fs])" .
    also have "?bs[unat ?d := win fs] = map (\<lambda>i. view D fs (s + of_nat i)) [0..<unat cc]"
      using v True by (intro nth_equalityI) (auto simp: nth_list_update)
    finally show ?thesis using k(1) drv sv True by (simp add: read_direct_def)
  next
    case False
    have e: "?bs = map (\<lambda>i. view D fs (s + of_nat i)) [0..<unat cc]"
      using v False by (intro nth_equalityI) (auto simp: word_less_nat_alt)
    show ?thesis using k(1) [unfolded e] drv sv False by (auto simp: read_direct_def)
  qed
qed

lemma file_blocks:
  assumes "data_inv D fs" "\<forall>c\<in>set cs. in_vol fs c"
  shows "\<forall>x\<in>set (map (view D fs) (file_sects fs cs)). length x = 512"
proof -
  have "win_inv D fs" using assms(1) by (simp add: data_inv_def fat_inv_def)
  then have "length (view D fs (file_sects fs cs ! q)) = 512" if "q < length cs * unat (csize fs)" for q
    using view_length [OF stores] file_sect_ok(1) [OF assms that] by blast
  then show ?thesis by (auto simp: in_set_conv_nth file_sects_length)
qed

lemma read_partial_ok:
  assumes d: "data_inv D fs" and cs: "\<forall>c\<in>set cs. in_vol fs c" and lt: "unat (f_fptr fp) < length cs * bcs_of fs"
    and ds: "f_dsect fp = file_sects fs cs ! (unat (f_fptr fp) div 512)"
  shows "\<exists>fs'. read_partial v btr (fp, fs) = Some ((FR_OK, take (min (unat btr) (512 - unat (f_fptr fp) mod 512))
      (drop (unat (f_fptr fp)) (file_data D fs cs))), fp, fs') \<and> same_view D fs fs'"
proof -
  let ?p = "unat (f_fptr fp)" let ?q = "?p div 512" let ?o = "?p mod 512" let ?m = "min (unat btr) (512 - ?o)"
  have q: "?q < length cs * unat (csize fs)" using lt by (simp add: bcs_of_def less_mult_imp_div_less mult.assoc)
  have inv: "fat_inv D fs" using d by (simp add: data_inv_def)
  obtain fs' where w: "move_window v (f_dsect fp) fs = Some (FR_OK, fs')" "same_view D fs fs'" "win fs' = view D fs (f_dsect fp)"
    using window_at [OF inv] file_sect_ok [OF d cs q] ds by metis
  have o: "unat (f_fptr fp mod 512) = ?o" by (simp add: unat_mod)
  have r: "unat (if 512 - f_fptr fp mod 512 > btr then btr else 512 - f_fptr fp mod 512) = ?m"
  proof -
    have "?o < 512" by simp
    then have "unat (512 - f_fptr fp mod 512) = 512 - ?o" using o by (simp add: unat_sub word_le_nat_alt)
    then show ?thesis by (simp add: word_less_nat_alt)
  qed
  have "take ?m (drop ?o (map (view D fs) (file_sects fs cs) ! ?q)) = take ?m (drop (?q * 512 + ?o) (file_data D fs cs))"
    unfolding file_data_def
    by (rule part_of_block [OF file_blocks [OF d cs]]) (use q in \<open>auto simp: file_sects_length\<close>)
  then have "take ?m (drop ?o (view D fs (f_dsect fp))) = take ?m (drop ?p (file_data D fs cs))"
    using q ds by (simp add: file_sects_length)
  then show ?thesis using w o r by (auto simp: read_partial_def Let_def)
qed

lemma clip_unat:
  assumes "data_inv D fs" "unat csect < unat (csize fs)"
  shows "unat (clip csect n fs) = min (unat n div 512) (unat (csize fs) - unat csect)"
proof -
  obtain b: "unat (csize fs) \<le> 128" using assms(1) by (rule csize_unat)
  have n: "unat (n div 512) = unat n div 512" by (simp add: unat_div)
  have u: "unat (ucast csect + n div 512) = unat csect + unat n div 512"
  proof -
    have "unat n < 2 ^ 32" using unsigned_less [where 'a = nat, of n] by simp
    then have "unat csect + unat n div 512 < 2 ^ 32" using assms(2) b by simp
    then show ?thesis using n by (simp add: unat_word_ariths)
  qed
  have m: "unat (ucast (csize fs) - ucast csect :: u32) = unat (csize fs) - unat csect"
    using assms(2) by (simp add: unat_sub word_le_nat_alt)
  show ?thesis using assms(2) n u m by (auto simp: clip_def Let_def word_less_nat_alt)
qed

text \<open>Consecutive sectors of a file inside a cluster.\<close>

lemma run_sects:
  assumes n: "unat (csize fs) = n" and i: "q mod n + i < n" and q: "q < length cs * n"
  shows "file_sects fs cs ! q + of_nat i = file_sects fs cs ! (q + i)" "q + i < length cs * n"
proof -
  have e: "(q + i) div n = q div n" by (rule same_div [OF i])
  have "q div n * n + (q + i) mod n = q + i" by (simp only: e [symmetric] div_mult_mod_eq)
  then have m: "(q + i) mod n = q mod n + i" using div_mult_mod_eq [of q n] by linarith
  have "q div n < length cs" using div_bound [OF q] by simp
  then have "(q + i) div n < length cs" using e by simp
  then show l: "q + i < length cs * n" by (simp add: div_less_iff_less_mult i [THEN le_less_trans [OF zero_le]])
  show "file_sects fs cs ! q + of_nat i = file_sects fs cs ! (q + i)"
    using file_sects_nth [of q cs fs] file_sects_nth [of "q + i" cs fs] q l e m n by (simp add: add.assoc)
qed

lemma read_run_ok:
  assumes d: "data_inv D fs" and cs: "\<forall>c\<in>set cs. in_vol fs c" and q: "q < length cs * unat (csize fs)"
    and cc: "0 < unat cc" "q mod unat (csize fs) + unat cc \<le> unat (csize fs)"
  shows "\<exists>fs'. read_direct v (file_sects fs cs ! q) cc fs =
    Some ((RES_OK, take (512 * unat cc) (drop (512 * q) (file_data D fs cs))), fs') \<and> same_view D fs fs'"
proof -
  let ?s = "file_sects fs cs" and ?n = "unat (csize fs)"
  obtain b: "unat (csize fs) \<le> 128" using d by (rule csize_unat)
  have run: "?s ! q + of_nat i = ?s ! (q + i)" "q + i < length cs * ?n" if "i < unat cc" for i
    using run_sects [OF refl _ q, of i] that cc by auto
  have "\<forall>i<unat cc. ?s ! q + of_nat i \<in> st_set D \<and> ?s ! q + of_nat i \<noteq> 0"
    using file_sect_ok [OF d cs run(2)] run(1) by simp
  moreover have "fat_inv D fs" using d by (simp add: data_inv_def)
  moreover have "unat cc \<le> 128" using cc b by linarith
  ultimately obtain fs' where r: "read_direct v (?s ! q) cc fs =
      Some ((RES_OK, concat (map (\<lambda>i. view D fs (?s ! q + of_nat i)) [0..<unat cc])), fs')" "same_view D fs fs'"
    using read_direct_ok cc(1) by blast
  have last: "q + unat cc \<le> length cs * ?n" using run(2) [of "unat cc - 1"] cc(1) by simp
  have "map (\<lambda>i. view D fs (?s ! q + of_nat i)) [0..<unat cc] = map ((!) (map (view D fs) ?s)) [q..<q + unat cc]"
    using run last by (intro nth_equalityI) (auto simp: file_sects_length)
  also have "concat \<dots> = take (unat cc * 512) (drop (q * 512) (concat (map (view D fs) ?s)))"
    by (rule run_of_blocks [OF file_blocks [OF d cs]]) (use last in \<open>simp add: file_sects_length\<close>)
  finally have "concat (map (\<lambda>i. view D fs (?s ! q + of_nat i)) [0..<unat cc]) = take (512 * unat cc) (drop (512 * q) (file_data D fs cs))"
    by (simp add: file_data_def mult.commute)
  with r show ?thesis by auto
qed

lemma read_chunk_ok:
  assumes d: "data_inv D fs" and f: "file_at D fs cs fp" and b: "0 < unat btr"
    and lt: "unat (f_fptr fp) + unat btr \<le> length cs * bcs_of fs" and o: "unat (f_fptr fp) + unat btr < 2 ^ 32"
  shows "\<exists>m c s fs'. read_chunk v btr (fp, fs) =
      Some ((FR_OK, take m (drop (unat (f_fptr fp)) (file_data D fs cs))), fp\<lparr>f_clust := c, f_dsect := s\<rparr>, fs') \<and>
    same_view D fs fs' \<and> 0 < m \<and> m \<le> unat btr \<and>
    file_at D fs cs (fp\<lparr>f_clust := c, f_dsect := s, f_fptr := f_fptr fp + of_nat m\<rparr>)"
proof -
  let ?p = "unat (f_fptr fp)" let ?q = "?p div 512" let ?n = "unat (csize fs)" let ?k = "?p div bcs_of fs"
  let ?mm = "min (unat btr) (512 - ?p mod 512)"
  have cs: "\<forall>c\<in>set cs. in_vol fs c" using file_at_in_vol [OF f] by blast
  have p: "?p < length cs * bcs_of fs" using b lt by linarith
  have q: "?q < length cs * ?n" using p by (simp add: bcs_of_def less_mult_imp_div_less mult.assoc)
  have mm: "0 < ?mm" "?mm \<le> unat btr" "?p mod 512 + ?mm \<le> 512"
    using b mod_less_divisor [of 512 ?p] by auto
  have part: "file_at D fs cs (fp\<lparr>f_clust := cs ! ?k, f_dsect := file_sects fs cs ! ?q, f_fptr := f_fptr fp + of_nat ?mm\<rparr>)"
    by (rule moved_in_sector [OF f mm(1,3)]) (use o lt mm(2) in linarith)+
  show ?thesis
  proof (cases "?p mod 512 = 0")
    case False
    then have ds: "f_dsect fp = file_sects fs cs ! ?q" using f by (simp add: file_at_def)
    have pp: "0 < ?p" using False by (metis gr0I mod_0)
    have "(?p - 1) div 512 = ?q" using pred_div [of 512 ?p] False pp by simp
    then have cl: "f_clust fp = cs ! ?k" using f pp by (simp add: file_at_def pos_div [OF refl])
    obtain fs' where r: "read_partial v btr (fp, fs) = Some ((FR_OK, take ?mm (drop ?p (file_data D fs cs))), fp, fs')" "same_view D fs fs'"
      using read_partial_ok [OF d cs p ds] by blast
    have "f_fptr fp mod 512 \<noteq> 0" using False by (simp add: unat_eq_zero [symmetric] unat_mod)
    moreover have "fp\<lparr>f_clust := cs ! ?k, f_dsect := file_sects fs cs ! ?q\<rparr> = fp" using ds cl by simp
    ultimately have "read_chunk v btr (fp, fs) = Some ((FR_OK, take ?mm (drop ?p (file_data D fs cs))),
        fp\<lparr>f_clust := cs ! ?k, f_dsect := file_sects fs cs ! ?q\<rparr>, fs')" using r by (simp add: read_chunk_def)
    with r(2) part mm(1,2) show ?thesis by blast
  next
    case True
    then have al: "f_fptr fp mod 512 = 0" by (simp add: unat_eq_zero [symmetric] unat_mod)
    obtain fs1 where c: "read_clust v (fp, fs) = Some (FR_OK, fp\<lparr>f_clust := cs ! ?k\<rparr>, fs1)" "same_view D fs fs1"
      using read_clust_ok [OF d f True p] by blast
    note sv = same_view_fields [OF c(2)] and d1 = same_view_data [OF c(2) d]
    have kl: "?k < length cs" using p by (simp add: less_mult_imp_div_less)
    then have nz: "clust2sect fs1 (cs ! ?k) \<noteq> 0" using clust2sect_nz [OF d] cs sv by simp
    have cst: "unat (csect_of fp fs) = ?q mod ?n" by (rule csect_unat [OF d])
    have n0: "0 < ?n" using q by (metis gr0I mult_0_right not_less0)
    have sect: "clust2sect fs1 (cs ! ?k) + ucast (csect_of fp fs) = file_sects fs cs ! ?q"
      using file_sects_nth [OF q] sv(1) by (simp add: pos_div [OF refl] flip: cst)
    show ?thesis
    proof (cases "btr div 512 = 0")
      case small: True
      let ?fp = "fp\<lparr>f_clust := cs ! ?k, f_dsect := file_sects fs cs ! ?q\<rparr>"
      have cs1: "\<forall>c\<in>set cs. in_vol fs1 c" using cs sv by simp
      have p1: "unat (f_fptr ?fp) < length cs * bcs_of fs1" using p sv by simp
      have ds: "f_dsect ?fp = file_sects fs1 cs ! (unat (f_fptr ?fp) div 512)" using sv by simp
      obtain fs2 where r: "read_partial v btr (?fp, fs1) = Some ((FR_OK, take ?mm (drop ?p (file_data D fs1 cs))), ?fp, fs2)" "same_view D fs1 fs2"
        using read_partial_ok [OF d1 cs1 p1 ds] by auto
      have "file_data D fs1 cs = file_data D fs cs" by (rule same_view_file(2) [OF c(2) d cs])
      with r have "read_chunk v btr (fp, fs) = Some ((FR_OK, take ?mm (drop ?p (file_data D fs cs))), ?fp, fs2)"
        using al c(1) nz sect small by (simp add: read_chunk_def)
      with same_view_trans [OF c(2) r(2)] part mm(1,2) show ?thesis by blast
    next
      case large: False
      let ?cc = "clip (csect_of fp fs) btr fs" let ?fp = "fp\<lparr>f_clust := cs ! ?k\<rparr>"
      have csl: "unat (csect_of fp fs) < ?n" using cst n0 by simp
      have cc: "unat ?cc = min (unat btr div 512) (?n - ?q mod ?n)" using clip_unat [OF d csl] cst by simp
      have bd: "0 < unat btr div 512" using large by (simp add: unat_eq_zero [symmetric] unat_div)
      then have cp: "0 < unat ?cc" "?q mod ?n + unat ?cc \<le> ?n" "512 * unat ?cc \<le> unat btr"
        using cc n0 mod_less_divisor [OF n0, of ?q] by auto linarith+
      have cs1: "\<forall>c\<in>set cs. in_vol fs1 c" using cs sv by simp
      have q1: "?q < length cs * unat (csize fs1)" "?q mod unat (csize fs1) + unat ?cc \<le> unat (csize fs1)" using q cp sv by simp_all
      obtain fs2 where r: "read_direct v (file_sects fs cs ! ?q) ?cc fs1 =
          Some ((RES_OK, take (512 * unat ?cc) (drop (512 * ?q) (file_data D fs1 cs))), fs2)" "same_view D fs1 fs2"
        using read_run_ok [OF d1 cs1 q1(1) cp(1) q1(2)] sv by auto
      have pq: "512 * ?q = ?p" using True mult_div_mod_eq [of 512 ?p] by simp
      have "file_data D fs1 cs = file_data D fs cs" by (rule same_view_file(2) [OF c(2) d cs])
      with r pq have "read_chunk v btr (fp, fs) = Some ((FR_OK, take (512 * unat ?cc) (drop ?p (file_data D fs cs))), ?fp, fs2)"
        using al c(1) nz sect large sv by (simp add: read_chunk_def)
      moreover have "?fp = fp\<lparr>f_clust := cs ! ?k, f_dsect := f_dsect fp\<rparr>" by simp
      moreover have "file_at D fs cs (fp\<lparr>f_clust := cs ! ?k, f_dsect := f_dsect fp, f_fptr := f_fptr fp + of_nat (512 * unat ?cc)\<rparr>)"
        by (rule moved_sectors [OF f True refl cp(1,2)]) (use o lt cp(3) in linarith)+
      moreover have "0 < 512 * unat ?cc" using cp(1) by simp
      ultimately show ?thesis using same_view_trans [OF c(2) r(2)] cp(3) by metis
    qed
  qed
qed

lemma file_data_length:
  assumes "data_inv D fs" "\<forall>c\<in>set cs. in_vol fs c"
  shows "length (file_data D fs cs) = length cs * bcs_of fs"
  unfolding file_data_def
  by (subst concat_blocks_length [OF file_blocks [OF assms]]) (simp add: file_sects_length bcs_of_def)

lemma fread_loop_ok:
  assumes "data_inv D fs" "file_at D fs cs fp" "unat (f_fptr fp) + unat btr \<le> length cs * bcs_of fs"
    "unat (f_fptr fp) + unat btr < 2 ^ 32"
  shows "\<exists>c s fs'. fread_loop v btr buff (fp, fs) =
      Some ((FR_OK, buff @ take (unat btr) (drop (unat (f_fptr fp)) (file_data D fs cs))),
        fp\<lparr>f_clust := c, f_dsect := s, f_fptr := f_fptr fp + btr\<rparr>, fs') \<and>
    same_view D fs fs' \<and> file_at D fs cs (fp\<lparr>f_clust := c, f_dsect := s, f_fptr := f_fptr fp + btr\<rparr>)"
  using assms
proof (induction "unat btr" arbitrary: btr buff fp fs rule: less_induct)
  case less
  note d = less.prems(1) and f = less.prems(2)
  let ?p = "unat (f_fptr fp)" let ?data = "file_data D fs cs"
  have cs: "\<forall>c\<in>set cs. in_vol fs c" using file_at_in_vol [OF f] by blast
  show ?case
  proof (cases "btr = 0")
    case True
    then have "fread_loop v btr buff (fp, fs) = Some ((FR_OK, buff), fp, fs)" by (subst fread_loop.simps) simp
    moreover have "same_view D fs fs" using d by (intro same_view_refl) (simp add: data_inv_def)
    ultimately show ?thesis using True f by (intro exI [of _ "f_clust fp"] exI [of _ "f_dsect fp"] exI [of _ fs]) simp
  next
    case False
    then have b: "0 < unat btr" by (simp add: unat_gt_0)
    obtain m c s fs1 where r: "read_chunk v btr (fp, fs) = Some ((FR_OK, take m (drop ?p ?data)), fp\<lparr>f_clust := c, f_dsect := s\<rparr>, fs1)"
      "same_view D fs fs1" "0 < m" "m \<le> unat btr" "file_at D fs cs (fp\<lparr>f_clust := c, f_dsect := s, f_fptr := f_fptr fp + of_nat m\<rparr>)"
      using read_chunk_ok [OF d f b less.prems(3,4)] by blast
    let ?fp = "fp\<lparr>f_clust := c, f_dsect := s, f_fptr := f_fptr fp + of_nat m\<rparr>" let ?b = "btr - of_nat m"
    have len: "length (take m (drop ?p ?data)) = m"
      using file_data_length [OF d cs] r(4) less.prems(3) by simp
    have um: "unat (of_nat m :: u32) = m" using r(4) unsigned_less [where 'a = nat, of btr] by (simp add: unat_of_nat)
    have ub: "unat ?b = unat btr - m" using r(4) um by (simp add: unat_sub word_le_nat_alt)
    have up: "unat (f_fptr fp + of_nat m) = ?p + m" by (rule unat_plus_nat) (use less.prems(4) r(4) in linarith)
    note d1 = same_view_data [OF r(2) d] and f1 = r(5) [folded same_view_file(1) [OF r(2) d]] and sv = same_view_fields [OF r(2)]
    have dd: "file_data D fs1 cs = ?data" by (rule same_view_file(2) [OF r(2) d cs])
    have "\<exists>c s fs'. fread_loop v ?b (buff @ take m (drop ?p ?data)) (?fp, fs1) =
      Some ((FR_OK, (buff @ take m (drop ?p ?data)) @ take (unat ?b) (drop (unat (f_fptr ?fp)) (file_data D fs1 cs))),
        ?fp\<lparr>f_clust := c, f_dsect := s, f_fptr := f_fptr ?fp + ?b\<rparr>, fs') \<and>
      same_view D fs1 fs' \<and> file_at D fs1 cs (?fp\<lparr>f_clust := c, f_dsect := s, f_fptr := f_fptr ?fp + ?b\<rparr>)"
      by (rule less.hyps [OF _ d1 f1]) (use ub up r(3,4) b less.prems(3,4) sv in auto)
    then obtain c2 s2 fs2 where l: "fread_loop v ?b (buff @ take m (drop ?p ?data)) (?fp, fs1) =
      Some ((FR_OK, (buff @ take m (drop ?p ?data)) @ take (unat btr - m) (drop (?p + m) ?data)),
        fp\<lparr>f_clust := c2, f_dsect := s2, f_fptr := f_fptr fp + btr\<rparr>, fs2)" "same_view D fs1 fs2"
      "file_at D fs1 cs (fp\<lparr>f_clust := c2, f_dsect := s2, f_fptr := f_fptr fp + btr\<rparr>)"
      using ub up dd by auto
    have "take m (drop ?p ?data) @ take (unat btr - m) (drop (?p + m) ?data) = take (unat btr) (drop ?p ?data)"
      using r(4) take_add [of m "unat btr - m" "drop ?p ?data"] by (simp add: add.commute)
    moreover have "file_at D fs cs (fp\<lparr>f_clust := c2, f_dsect := s2, f_fptr := f_fptr fp + btr\<rparr>)"
      using l(3) by (simp add: same_view_file(1) [OF r(2) d])
    ultimately show ?thesis using False r(1) len l same_view_trans [OF r(2) l(2)] by (subst fread_loop.simps) auto
  qed
qed

text \<open>An object whose file is still mounted.\<close>

lemma validate_ok:
  assumes inv: "fat_inv D fs" and o: "obj" "ident = fs_id fs"
  shows "\<exists>fs'. validate v obj ident fs = Some (FR_OK, fs') \<and> same_view D fs fs'"
proof -
  have drv: "drv fs = 0" and ok: "st_ok D (media fs)" and t: "fs_type fs \<noteq> FS_NONE"
    using inv by (simp_all add: fat_inv_def win_inv_def geometry_def)
  obtain k where k: "dk_status v 0 (media fs) = Some (0, k)" "st_ok D k" "st_sec D k = st_sec D (media fs)"
    using is_ready [OF ok] by blast
  have "same_view D fs (fs\<lparr>media := k\<rparr>)"
    using inv k by (auto simp: same_view_def fs_frame_def fat_inv_def win_inv_def geometry_def in_mirror_def view_def)
  with k(1) drv t o show ?thesis by (auto simp: validate_def)
qed

lemma f_read_ok:
  assumes d: "data_inv D (ff_fs s)" and f: "file_at D (ff_fs s) cs fp"
    and o: "f_fs fp" "f_id fp = fs_id (ff_fs s)" "f_flag fp AND FA__ERROR = 0" "f_flag fp AND FA_READ \<noteq> 0"
    and le: "unat (f_fptr fp) \<le> unat (f_fsize fp)"
    and n_def: "n = min (unat btr) (unat (f_fsize fp) - unat (f_fptr fp))"
  shows "\<exists>fp' fs'. f_read v btr (fp, s) =
      Some ((FR_OK, take n (drop (unat (f_fptr fp)) (file_data D (ff_fs s) cs))), fp', s\<lparr>ff_fs := fs'\<rparr>) \<and>
    same_view D (ff_fs s) fs' \<and> file_at D (ff_fs s) cs fp' \<and> unat (f_fptr fp') = unat (f_fptr fp) + n \<and>
    fp' = fp\<lparr>f_fptr := f_fptr fp', f_clust := f_clust fp', f_dsect := f_dsect fp'\<rparr>"
proof -
  let ?fs = "ff_fs s"
  have inv: "fat_inv D ?fs" using d by (simp add: data_inv_def)
  obtain fs1 where v: "validate v (f_fs fp) (f_id fp) ?fs = Some (FR_OK, fs1)" "same_view D ?fs fs1"
    using validate_ok [OF inv o(1,2)] by blast
  note sv = same_view_fields [OF v(2)] and d1 = same_view_data [OF v(2) d]
  let ?rem = "f_fsize fp - f_fptr fp" let ?b = "if btr > ?rem then ?rem else btr"
  have ub: "unat ?b = n" using le by (simp add: n_def unat_sub word_le_nat_alt word_less_nat_alt)
  have bound: "unat (f_fptr fp) + n \<le> unat (f_fsize fp)" using le by (simp add: n_def)
  have fl: "unat (f_fsize fp) \<le> length cs * bcs_of ?fs" using f by (simp add: file_at_def)
  have o32: "unat (f_fsize fp) < 2 ^ 32" using unsigned_less [where 'a = nat, of "f_fsize fp"] by simp
  have "file_at D fs1 cs fp" using f same_view_file(1) [OF v(2) d] by simp
  then obtain c s' fs2 where l: "fread_loop v ?b [] (fp, fs1) =
      Some ((FR_OK, take n (drop (unat (f_fptr fp)) (file_data D fs1 cs))), fp\<lparr>f_clust := c, f_dsect := s', f_fptr := f_fptr fp + ?b\<rparr>, fs2)"
    "same_view D fs1 fs2" "file_at D fs1 cs (fp\<lparr>f_clust := c, f_dsect := s', f_fptr := f_fptr fp + ?b\<rparr>)"
    using fread_loop_ok [OF d1, of cs fp ?b "[]"] ub bound fl o32 sv by fastforce
  have up: "unat (f_fptr fp + ?b) = unat (f_fptr fp) + n"
    using unat_add_lem [THEN iffD1, of "f_fptr fp" ?b] bound o32 ub by simp
  have dd: "file_data D fs1 cs = file_data D ?fs cs"
    by (rule same_view_file(2) [OF v(2) d]) (use file_at_in_vol [OF f] in blast)
  let ?fp = "fp\<lparr>f_clust := c, f_dsect := s', f_fptr := f_fptr fp + ?b\<rparr>"
  have "f_read v btr (fp, s) = Some ((FR_OK, take n (drop (unat (f_fptr fp)) (file_data D ?fs cs))), ?fp, s\<lparr>ff_fs := fs2\<rparr>)"
    using v(1) o(3,4) l(1) dd by (simp add: f_read_def Let_def)
  moreover have "file_at D ?fs cs ?fp" using l(3) same_view_file(1) [OF v(2) d] by simp
  ultimately show ?thesis using same_view_trans [OF v(2) l(2)] up by (intro exI [of _ ?fp] exI [of _ fs2]) simp
qed

end

subsection \<open>The property\<close>

text \<open>
  C37: Reading a file. On a drive that keeps sectors, for a valid file object opened for reading whose
  clusters form the chain \<open>cs\<close>, \<open>f_read\<close> returns with success and delivers exactly the bytes of
  those clusters from the file pointer on, as many as were asked for or as are left in the file;
  the pointer moves by that number and the object is ready for the next call. It holds at every
  alignment of pointer and count: partial sectors through the shared window, runs of sectors
  straight from the drive with a dirty sector of the window put in its place, and the step from
  cluster to cluster through the table. No sector changes as the file system sees it.
\<close>

theorem f_read_file:
  assumes "block_drive v D" and "data_inv D (ff_fs s)" and "file_at D (ff_fs s) cs fp"
    and "f_fs fp" and "f_id fp = fs_id (ff_fs s)" and "f_flag fp AND FA__ERROR = 0" and "f_flag fp AND FA_READ \<noteq> 0"
    and "unat (f_fptr fp) \<le> unat (f_fsize fp)" and "n = min (unat btr) (unat (f_fsize fp) - unat (f_fptr fp))"
  shows "\<exists>fp' fs'. f_read v btr (fp, s) =
      Some ((FR_OK, take n (drop (unat (f_fptr fp)) (file_data D (ff_fs s) cs))), fp', s\<lparr>ff_fs := fs'\<rparr>) \<and>
    file_at D (ff_fs s) cs fp' \<and> unat (f_fptr fp') = unat (f_fptr fp) + n \<and> f_fsize fp' = f_fsize fp \<and>
    (\<forall>x. \<not> in_mirror (ff_fs s) x \<longrightarrow> view D fs' x = view D (ff_fs s) x)"
proof -
  obtain fp' fs' where "f_read v btr (fp, s) =
      Some ((FR_OK, take n (drop (unat (f_fptr fp)) (file_data D (ff_fs s) cs))), fp', s\<lparr>ff_fs := fs'\<rparr>)"
    "same_view D (ff_fs s) fs'" "file_at D (ff_fs s) cs fp'" "unat (f_fptr fp') = unat (f_fptr fp) + n"
    "fp' = fp\<lparr>f_fptr := f_fptr fp', f_clust := f_clust fp', f_dsect := f_dsect fp'\<rparr>"
    using block_drive.f_read_ok [OF assms] by blast
  moreover from this(5) have "f_fsize fp' = f_fsize fp" by (cases fp; cases fp') simp
  ultimately show ?thesis by (auto simp: same_view_def)
qed

text \<open>The small volume with one file in its two clusters.\<close>

definition vol_ab :: "(u32 \<Rightarrow> u8 list) FATFS" where
  "vol_ab = vol16\<lparr>media := (media vol16)(4 := replicate 512 65, 5 := replicate 512 66)\<rparr>"

definition ff_ab :: "(u32 \<Rightarrow> u8 list) ff" where
  "ff_ab = \<lparr>ff_reg = True, ff_fs = vol_ab, Fsid = 1, CurrVol = 0\<rparr>"

definition fil_ab :: FIL where
  "fil_ab = \<lparr>f_fs = True, f_id = 1, f_flag = FA_READ, f_fptr = 0, f_fsize = 700, f_sclust = 2, f_clust = 0, f_dsect = 0,
     f_dir_sect = 3, f_dir_ptr = 0\<rparr>"

lemma vol_ab_inv: "data_inv ram_store vol_ab"
proof -
  have "fat_inv ram_store vol_ab"
    by (simp add: fat_inv_def win_inv_def geometry_def vol_ab_def vol16_def ram_store_def sector16_def fat_bytes_def fat_trunc_def)
  moreover have "\<exists>j<8. csize vol_ab = 2 ^ j" by (rule exI [of _ 0]) (simp add: vol_ab_def vol16_def)
  ultimately show ?thesis by (simp add: data_inv_def vol_ab_def vol16_def ram_store_def)
qed

lemma vol_ab_data: "file_data ram_store vol_ab [2, 3] = replicate 512 65 @ replicate 512 66"
  by (simp add: file_data_def file_sects_def clust_sects_def clust2sect_def vol_ab_def vol16_def view_def ram_store_def
      word_le_nat_alt)

lemma vol_ab_file: "file_at ram_store vol_ab [2, 3] fil_ab"
proof -
  have "view ram_store vol_ab 1 = sector16" by (simp add: view_def vol_ab_def vol16_def ram_store_def)
  then have "fat_of ram_store vol_ab 2 = 3" "fat_of ram_store vol_ab 3 = 0xffff"
    by (simp_all add: fat_of_def fat_entry_def vol_ab_def vol16_def fat_byte_def fat_sect_def view_def ram_store_def sector16_def)
  then show ?thesis by (simp add: file_at_def fil_ab_def bcs_of_def vol_ab_def vol16_def)
qed

theorem f_read_file_witness:
  "\<exists>fp' s'. f_read ram_drive 600 (fil_ab, ff_ab) = Some ((FR_OK, replicate 512 65 @ replicate 88 66), fp', s') \<and> f_fptr fp' = 600"
proof -
  have "\<exists>fp' fs'. f_read ram_drive 600 (fil_ab, ff_ab) =
      Some ((FR_OK, take 600 (drop (unat (f_fptr fil_ab)) (file_data ram_store (ff_fs ff_ab) [2, 3]))), fp', ff_ab\<lparr>ff_fs := fs'\<rparr>) \<and>
    file_at ram_store (ff_fs ff_ab) [2, 3] fp' \<and> unat (f_fptr fp') = unat (f_fptr fil_ab) + 600 \<and> f_fsize fp' = f_fsize fil_ab \<and>
    (\<forall>x. \<not> in_mirror (ff_fs ff_ab) x \<longrightarrow> view ram_store fs' x = view ram_store (ff_fs ff_ab) x)"
    by (rule f_read_file [OF ram.block_drive_axioms])
      (simp_all add: ff_ab_def vol_ab_inv vol_ab_file, simp_all add: fil_ab_def vol_ab_def vol16_def FA_READ_def FA__ERROR_def)
  then show ?thesis by (auto simp: ff_ab_def vol_ab_data fil_ab_def word_unat_eq_iff)
qed

end
