(* ===== verification/Ff_Names.thy ===== *)
theory Ff_Names
  imports Ff_Api
begin

text \<open>
  File names: how a segment of a path becomes the eleven bytes of a directory entry and how an
  entry is written out again.
\<close>

subsection \<open>Characters\<close>

text \<open>A character of a name: one byte that is no separator and not forbidden, or two bytes of the code page.\<close>

definition plain_char :: "u8 \<Rightarrow> bool" where
  "plain_char c \<longleftrightarrow> c > 32 \<and> \<not> is_sep c \<and> c \<noteq> 46 \<and> \<not> IsDBCS1 c \<and> chk_chr bad_chars c = 0"

definition char_ok :: "u8 list \<Rightarrow> bool" where
  "char_ok u \<longleftrightarrow> (\<exists>c. u = [c] \<and> plain_char c) \<or> (\<exists>c d. u = [c, d] \<and> IsDBCS1 c \<and> IsDBCS2 d)"

definition upper :: "u8 list \<Rightarrow> u8 list" where
  "upper u = (case u of [c] \<Rightarrow> [if IsLower c then c - 0x20 else c] | _ \<Rightarrow> u)"

lemma upper_length [simp]: "length (upper u) = length u"
  by (auto simp: upper_def split: list.splits)

lemma dbcs1_range: "IsDBCS1 c \<Longrightarrow> c > 32 \<and> \<not> is_sep c \<and> c \<noteq> 46 \<and> c \<ge> 0x80"
  by (auto simp: IsDBCS1_def is_sep_def word_le_nat_alt word_less_nat_alt word_unat_eq_iff)

lemma mem_cpy_one: "i < length s \<Longrightarrow> s[i := c] = mem_cpy i [c] s"
  by (simp add: mem_cpy_def upd_conv_take_nth_drop)

lemma mem_cpy_two: "Suc i < length s \<Longrightarrow> s[i := c, i + 1 := d] = mem_cpy i [c, d] s"
  by (simp add: mem_cpy_def list_update_append upd_conv_take_nth_drop Cons_nth_drop_Suc [symmetric])

lemma mem_cpy_cpy: "i + length xs \<le> length s \<Longrightarrow> mem_cpy (i + length xs) ys (mem_cpy i xs s) = mem_cpy i (xs @ ys) s"
  by (simp add: mem_cpy_def ac_simps)

lemma mem_cpy_length [simp]: "i + length xs \<le> length s \<Longrightarrow> length (mem_cpy i xs s) = length s"
  by (simp add: mem_cpy_def)

subsection \<open>The name loop\<close>

lemma name_loop_char:
  assumes "char_ok u" "i + length u \<le> ni" "ni \<le> length sfn"
  shows "\<exists>b'. name_loop (u @ p) i ni b sfn = name_loop p (i + length u) ni b' (mem_cpy i (upper u) sfn)"
  using assms(1) unfolding char_ok_def
proof (elim disjE exE conjE)
  fix c assume u: "u = [c]" and c: "plain_char c"
  then have "\<not> (c \<le> 32 \<or> is_sep c)" "\<not> (c = 46 \<or> i \<ge> ni)" "\<not> IsDBCS1 c" "\<not> chk_chr bad_chars c \<noteq> 0" "i < length sfn"
    using assms(2,3) by (auto simp: plain_char_def)
  moreover have "\<not> IsUpper c" if "IsLower c"
    using that by (auto simp: IsUpper_def IsLower_def word_le_nat_alt)
  ultimately show ?thesis using u by (auto simp: Let_def upper_def mem_cpy_one [symmetric])
next
  fix c d assume u: "u = [c, d]" and c: "IsDBCS1 c" "IsDBCS2 d"
  then have "\<not> (c \<le> 32 \<or> is_sep c)" "\<not> (c = 46 \<or> i \<ge> ni)" "\<not> (\<not> IsDBCS2 d \<or> i \<ge> ni - 1)" "Suc i < length sfn"
    using assms(2,3) dbcs1_range [OF c(1)] by auto
  then show ?thesis using u c by (auto simp: Let_def upper_def mem_cpy_two [symmetric])
qed

lemma name_loop_chars:
  assumes "\<forall>u\<in>set us. char_ok u" "i + length (concat us) \<le> ni" "ni \<le> length sfn"
  shows "\<exists>b'. name_loop (concat us @ p) i ni b sfn = name_loop p (i + length (concat us)) ni b' (mem_cpy i (concat (map upper us)) sfn)"
  using assms
proof (induction us arbitrary: i b sfn)
  case Nil
  then show ?case by (auto simp: mem_cpy_def)
next
  case (Cons u us)
  obtain b1 where 1: "name_loop (u @ concat us @ p) i ni b sfn = name_loop (concat us @ p) (i + length u) ni b1 (mem_cpy i (upper u) sfn)"
    using name_loop_char [of u i ni sfn "concat us @ p" b] Cons.prems by auto
  have l: "length (mem_cpy i (upper u) sfn) = length sfn" using Cons.prems by (intro mem_cpy_length) simp
  then obtain b2 where 2: "name_loop (concat us @ p) (i + length u) ni b1 (mem_cpy i (upper u) sfn) =
      name_loop p (i + length u + length (concat us)) ni b2 (mem_cpy (i + length u) (concat (map upper us)) (mem_cpy i (upper u) sfn))"
    using Cons.IH [of "i + length u" "mem_cpy i (upper u) sfn" b1] Cons.prems by auto
  have "mem_cpy (i + length u) (concat (map upper us)) (mem_cpy i (upper u) sfn) = mem_cpy i (upper u @ concat (map upper us)) sfn"
    using mem_cpy_cpy [of i "upper u" sfn "concat (map upper us)"] Cons.prems by simp
  with 1 2 show ?case by (auto simp: add.assoc)
qed

text \<open>What ends a segment: the end of the path, or a separator or control character and the rest.\<close>

definition ends :: "u8 list \<Rightarrow> bool" where
  "ends rst \<longleftrightarrow> (\<forall>c. take 1 rst = [c] \<longrightarrow> c \<le> 32 \<or> is_sep c)"

lemma name_loop_end: "ends p \<Longrightarrow> name_loop p i ni b sfn = (FR_OK, str_at p 0, drop 1 p, i, ni, b, sfn)"
  by (cases p) (auto simp: ends_def str_at_def)

text \<open>The two parts of a name, padded as a directory entry has them.\<close>

definition pad :: "nat \<Rightarrow> u8 list \<Rightarrow> u8 list" where
  "pad n xs = xs @ replicate (n - length xs) 32"

definition entry_name :: "u8 list list \<Rightarrow> u8 list list \<Rightarrow> u8 list" where
  "entry_name ub ue = pad 8 (concat (map upper ub)) @ pad 3 (concat (map upper ue))"

definition name_text :: "u8 list list \<Rightarrow> u8 list list \<Rightarrow> u8 list" where
  "name_text ub ue = concat ub @ (if ue = [] then [] else 46 # concat ue)"

definition name_ok :: "u8 list list \<Rightarrow> u8 list list \<Rightarrow> bool" where
  "name_ok ub ue \<longleftrightarrow> ub \<noteq> [] \<and> (\<forall>u\<in>set ub \<union> set ue. char_ok u) \<and> length (concat ub) \<le> 8 \<and> length (concat ue) \<le> 3"

lemma upper_concat_length [simp]: "length (concat (map upper us)) = length (concat us)"
  by (induction us) auto

lemma name_loop_name:
  assumes "name_ok ub ue" "ends rst" "length fn = 12"
  shows "\<exists>i ni b. name_loop (name_text ub ue @ rst) 0 8 0 (mem_set 0 32 11 fn) =
    (FR_OK, str_at rst 0, drop 1 rst, i, ni, b, entry_name ub ue @ [fn ! 11]) \<and> 0 < i"
proof -
  have ok: "\<forall>u\<in>set ub. char_ok u" "\<forall>u\<in>set ue. char_ok u" and l: "length (concat ub) \<le> 8" "length (concat ue) \<le> 3" and ne: "ub \<noteq> []"
    using assms(1) by (auto simp: name_ok_def)
  have "char_ok (hd ub)" using ok(1) ne by simp
  then have l0: "0 < length (concat ub)" using ne by (cases ub) (auto simp: char_ok_def)
  let ?B = "concat (map upper ub)" and ?E = "concat (map upper ue)" and ?s = "mem_set 0 32 11 fn"
  have "drop 11 fn = [fn ! 11]" using assms(3) by (simp add: Cons_nth_drop_Suc [symmetric])
  then have s: "?s = replicate 11 32 @ [fn ! 11]" by (simp add: mem_set_def mem_cpy_def)
  have sl: "length ?s = 12" by (simp add: s)
  have body: "mem_cpy 0 ?B ?s = pad 8 ?B @ replicate 3 32 @ [fn ! 11]"
  proof -
    have "replicate 11 (32 :: u8) = replicate (length ?B) 32 @ replicate (8 - length ?B) 32 @ replicate 3 32"
      using l by (simp add: replicate_add [symmetric])
    then show ?thesis by (simp add: mem_cpy_def s pad_def)
  qed
  show ?thesis
  proof (cases "ue = []")
    case True
    obtain b where "name_loop (concat ub @ rst) 0 8 0 ?s = name_loop rst (0 + length (concat ub)) 8 b (mem_cpy 0 ?B ?s)"
      using name_loop_chars [OF ok(1), of 0 8 ?s rst 0] l(1) sl by auto
    moreover have "mem_cpy 0 ?B ?s = entry_name ub ue @ [fn ! 11]" using True by (simp add: body entry_name_def pad_def)
    ultimately show ?thesis using True l0 by (simp add: name_text_def name_loop_end [OF assms(2)])
  next
    case False
    let ?p = "46 # concat ue @ rst" let ?s1 = "mem_cpy 0 ?B ?s"
    have s1: "length ?s1 = 12" using sl l by (subst mem_cpy_length) auto
    obtain b where 1: "name_loop (concat ub @ ?p) 0 8 0 ?s = name_loop ?p (length (concat ub)) 8 b ?s1"
      using name_loop_chars [OF ok(1), of 0 8 ?s ?p 0] l(1) sl by auto
    have 2: "name_loop ?p (length (concat ub)) 8 b ?s1 = name_loop (concat ue @ rst) 8 11 (push_bit 2 b) ?s1"
      by (simp add: is_sep_def word_le_nat_alt)
    obtain b' where 3: "name_loop (concat ue @ rst) 8 11 (push_bit 2 b) ?s1 = name_loop rst (8 + length (concat ue)) 11 b' (mem_cpy 8 ?E ?s1)"
      using name_loop_chars [OF ok(2), of 8 11 ?s1 rst "push_bit 2 b"] l(2) s1 by auto
    have "mem_cpy 8 ?E ?s1 = entry_name ub ue @ [fn ! 11]"
    proof -
      have "length (pad 8 ?B) = 8" using l by (simp add: pad_def)
      moreover have "replicate 3 (32 :: u8) = replicate (length ?E) 32 @ replicate (3 - length ?E) 32"
        using l by (simp add: replicate_add [symmetric])
      ultimately show ?thesis unfolding body by (simp add: mem_cpy_def entry_name_def pad_def [of 3])
    qed
    with 1 2 3 False show ?thesis by (auto simp: name_text_def name_loop_end [OF assms(2)])
  qed
qed

subsection \<open>A segment of a path\<close>

definition stored_name :: "u8 list list \<Rightarrow> u8 list list \<Rightarrow> u8 list" where
  "stored_name ub ue = (let e = entry_name ub ue in if e ! 0 = DDE then e[0 := NDDE] else e)"

lemma entry_name_length: "name_ok ub ue \<Longrightarrow> length (entry_name ub ue) = 11"
  by (simp add: entry_name_def pad_def name_ok_def)

lemma name_text_first:
  assumes "name_ok ub ue"
  shows "\<exists>c p. name_text ub ue = c # p \<and> \<not> is_sep c \<and> c \<noteq> 46"
proof -
  have "char_ok (hd ub)" "ub \<noteq> []" using assms by (auto simp: name_ok_def)
  then obtain u us where "ub = u # us" "char_ok u" by (cases ub) auto
  then show ?thesis
    by (auto simp: char_ok_def name_text_def plain_char_def dest: dbcs1_range)
qed

lemma flag_bits:
  "NS_LAST AND NS_DOT = 0" "NS_LAST AND NS_LAST \<noteq> 0"
  "(c OR NS_EXT) AND NS_LAST = c AND NS_LAST" "(c OR NS_BODY) AND NS_LAST = c AND NS_LAST"
  "(c OR NS_EXT) AND NS_DOT = c AND NS_DOT" "(c OR NS_BODY) AND NS_DOT = c AND NS_DOT"
  by (simp_all add: NS_LAST_def NS_DOT_def NS_EXT_def NS_BODY_def bit.conj_disj_distrib2)

lemma create_name_ok:
  assumes n: "name_ok ub ue" and e: "ends rst" and s: "\<forall>c\<in>set seps. is_sep c" and l: "length (d_fn dj) = 12"
  shows "\<exists>fl. create_name (seps @ name_text ub ue @ rst) dj = (FR_OK, drop 1 rst, dj\<lparr>d_fn := stored_name ub ue @ [fl]\<rparr>) \<and>
    (fl AND NS_LAST \<noteq> 0 \<longleftrightarrow> str_at rst 0 \<le> 32) \<and> fl AND NS_DOT = 0"
proof -
  obtain c p where t: "name_text ub ue = c # p" "\<not> is_sep c" "c \<noteq> 46" using name_text_first [OF n] by blast
  have dw: "dropWhile is_sep (seps @ name_text ub ue @ rst) = name_text ub ue @ rst"
    using s t by (simp add: dropWhile_append2)
  have nd: "str_at (name_text ub ue @ rst) 0 \<noteq> 46" using t by (simp add: str_at_def)
  obtain i ni b where lp: "name_loop (name_text ub ue @ rst) 0 8 0 (mem_set 0 32 11 (d_fn dj)) =
    (FR_OK, str_at rst 0, drop 1 rst, i, ni, b, entry_name ub ue @ [d_fn dj ! 11])" "0 < i"
    using name_loop_name [OF n e l] by blast
  have st: "(if (entry_name ub ue @ [x]) ! 0 = DDE then (entry_name ub ue @ [x])[0 := NDDE] else entry_name ub ue @ [x])[NS := y] =
      stored_name ub ue @ [y]" for x y
    using entry_name_length [OF n] by (auto simp: stored_name_def nth_append list_update_append NS_def)
  let ?c0 = "if str_at rst 0 \<le> 32 then NS_LAST else 0" let ?b = "if ni = 8 then push_bit 2 b else b"
  let ?c1 = "if ?b AND 0x03 = 0x01 then ?c0 OR NS_EXT else ?c0" let ?c2 = "if ?b AND 0x0c = 0x04 then ?c1 OR NS_BODY else ?c1"
  have "create_name (seps @ name_text ub ue @ rst) dj = (FR_OK, drop 1 rst, dj\<lparr>d_fn := stored_name ub ue @ [?c2]\<rparr>)"
    unfolding create_name_def using lp nd by (simp add: dw Let_def st [unfolded One_nat_def])
  moreover have "?c2 AND NS_LAST \<noteq> 0 \<longleftrightarrow> str_at rst 0 \<le> 32" "?c2 AND NS_DOT = 0"
    by (simp_all add: flag_bits) (simp_all add: NS_LAST_def)
  ultimately show ?thesis by blast
qed

subsection \<open>A name written out\<close>

lemma dbcs2_range: "IsDBCS2 d \<Longrightarrow> d > 32"
  by (auto simp: IsDBCS2_def word_le_nat_alt word_less_nat_alt)

lemma upper_high:
  assumes "char_ok u" "x \<in> set (upper u)"
  shows "x > 32"
proof -
  have "c - 0x20 > 32" if "IsLower c" for c
  proof -
    have "unat (c - 0x20) = unat c - 32" using that by (simp add: IsLower_def unat_sub word_le_nat_alt)
    moreover have "97 \<le> unat c" using that by (simp add: IsLower_def word_le_nat_alt)
    ultimately have "32 < unat (c - 0x20)" by linarith
    then show ?thesis by (simp add: word_less_nat_alt)
  qed
  with assms show ?thesis
    by (auto simp: char_ok_def upper_def plain_char_def dest: dbcs1_range dbcs2_range split: if_splits)
qed

lemma takeWhile_pad: "\<forall>x\<in>set xs. x > 32 \<Longrightarrow> takeWhile (\<lambda>c. c \<noteq> 32) (pad n xs) = xs"
  by (auto simp: pad_def takeWhile_append2 intro!: takeWhile_append2 [THEN trans])

lemma upper_all_high: "\<forall>u\<in>set us. char_ok u \<Longrightarrow> x \<in> set (concat (map upper us)) \<Longrightarrow> x > 32"
  by (auto intro: upper_high)

definition shown_name :: "u8 list list \<Rightarrow> u8 list list \<Rightarrow> u8 list" where
  "shown_name ub ue = concat (map upper ub) @ (if ue = [] then [] else 46 # concat (map upper ue))"

lemma char_ok_nonempty: "char_ok u \<Longrightarrow> upper u \<noteq> []"
  by (auto simp: char_ok_def upper_def)

lemma body_shown:
  assumes "name_ok ub ue" "take 11 e = stored_name ub ue"
  shows "name_body e = concat (map upper ub)"
proof -
  let ?B = "concat (map upper ub)"
  have hi: "\<forall>x\<in>set ?B. x > 32" and l: "length ?B \<le> 8"
    using assms(1) upper_all_high [of ub] by (auto simp: name_ok_def)
  have ne: "?B \<noteq> []" using assms(1) by (cases ub) (auto simp: name_ok_def dest: char_ok_nonempty)
  define B where "B = (if hd ?B = DDE then NDDE # tl ?B else ?B)"
  have t8: "take 8 e = pad 8 B"
  proof -
    have "take 8 e = take 8 (stored_name ub ue)" using arg_cong [OF assms(2), of "take 8"] by simp
    also have "\<dots> = pad 8 B" using ne l unfolding B_def
      by (cases ?B) (auto simp: stored_name_def entry_name_def pad_def Let_def)
    finally show ?thesis .
  qed
  have "\<forall>x\<in>set B. x \<noteq> 32" using hi ne by (cases ?B) (auto simp: B_def NDDE_def)
  then have "takeWhile (\<lambda>c. c \<noteq> 32) (pad 8 B) = B"
    by (auto simp: pad_def intro!: takeWhile_append2 [THEN trans])
  moreover have "map (\<lambda>c. if c = NDDE then DDE else c) ?B = ?B"
    using hi by (intro map_idI) (fastforce simp: NDDE_def)
  then have "map (\<lambda>c. if c = NDDE then DDE else c) B = ?B"
    using ne by (cases ?B) (auto simp: B_def)
  ultimately show ?thesis by (simp add: name_body_def t8)
qed

lemma ext_shown:
  assumes "name_ok ub ue" "take 11 e = stored_name ub ue"
  shows "name_ext e = (if ue = [] then [] else 46 # concat (map upper ue))"
proof -
  let ?E = "concat (map upper ue)"
  have hi: "\<forall>x\<in>set ?E. x > 32" and l: "length ?E \<le> 3" and ne: "?E = [] \<longleftrightarrow> ue = []"
    using assms(1) upper_all_high [of ue] by (cases ue; auto simp: name_ok_def dest: char_ok_nonempty)+
  have n0: "length (concat (map upper ub)) \<le> 8" using assms(1) by (auto simp: name_ok_def)
  have t: "take 3 (drop 8 e) = pad 3 ?E"
  proof -
    have "take 3 (drop 8 e) = drop 8 (stored_name ub ue)" using arg_cong [OF assms(2), of "drop 8"] by (simp add: drop_take)
    also have "\<dots> = pad 3 ?E" using n0 by (auto simp: stored_name_def entry_name_def pad_def Let_def drop_update_swap)
    finally show ?thesis .
  qed
  have "length (pad 3 ?E) = 3" using l by (simp add: pad_def)
  then have "e ! 8 = pad 3 ?E ! 0" using arg_cong [OF t, of "\<lambda>x. x ! 0"] arg_cong [OF t, of length] by (simp add: min_def split: if_splits)
  then have "e ! 8 \<noteq> 32 \<longleftrightarrow> ue \<noteq> []"
    using hi ne by (cases ?E) (auto simp: pad_def)
  then show ?thesis using takeWhile_pad [OF hi] by (auto simp: name_ext_def t)
qed

text \<open>
  C38: The name of a file survives the directory. A segment of a path whose body has at most eight
  bytes and whose extension at most three, of characters the code page allows, is accepted by
  \<open>create_name\<close>, which skips the separators before it, leaves the rest of the path, marks the
  last segment and builds the eleven bytes of the entry; \<open>get_fileinfo\<close> on an entry with these
  bytes gives the name back in upper case, also when its first byte is the mark of a deleted entry.
\<close>

theorem file_name_roundtrip:
  assumes n: "name_ok ub ue" and e: "ends rst" and s: "\<forall>c\<in>set seps. is_sep c" and l: "length (d_fn dj) = 12"
    and ent: "take 11 (drop (entry_at dj') (win fs)) = take 11 (d_fn (snd (snd (create_name (seps @ name_text ub ue @ rst) dj))))"
    and used: "d_sect dj' \<noteq> 0"
  shows "(\<exists>fl. create_name (seps @ name_text ub ue @ rst) dj = (FR_OK, drop 1 rst, dj\<lparr>d_fn := stored_name ub ue @ [fl]\<rparr>) \<and>
      (fl AND NS_LAST \<noteq> 0 \<longleftrightarrow> str_at rst 0 \<le> 32) \<and> fl AND NS_DOT = 0) \<and>
    i_fname (get_fileinfo (dj', fs) fno) = shown_name ub ue"
proof
  show 1: "\<exists>fl. create_name (seps @ name_text ub ue @ rst) dj = (FR_OK, drop 1 rst, dj\<lparr>d_fn := stored_name ub ue @ [fl]\<rparr>) \<and>
      (fl AND NS_LAST \<noteq> 0 \<longleftrightarrow> str_at rst 0 \<le> 32) \<and> fl AND NS_DOT = 0"
    by (rule create_name_ok [OF n e s l])
  have "length (stored_name ub ue) = 11" using entry_name_length [OF n] by (simp add: stored_name_def Let_def)
  then have "take 11 (take 32 (drop (entry_at dj') (win fs))) = stored_name ub ue" using 1 ent by auto
  then show "i_fname (get_fileinfo (dj', fs) fno) = shown_name ub ue"
    using used body_shown [OF n] ext_shown [OF n] by (simp add: get_fileinfo_def Let_def shown_name_def)
qed

definition dir_log :: DIR where
  "dir_log = \<lparr>d_fs = True, d_id = 1, d_index = 0, d_sclust = 0, d_clust = 0, d_sect = 20, d_dir = Some 0, d_fn = replicate 12 0\<rparr>"

definition vol_log :: "nat FATFS" where
  "vol_log = \<lparr>fs_type = FS_FAT16, drv = 0, csize = 1, n_fats = 1, wflag = False, fsi_flag = False, fs_id = 1, n_rootdir = 16,
     last_clust = 0, free_clust = 0, fsi_sector = 0, cdir = 0, n_fatent = 100, fsize = 1, fatbase = 1, dirbase = 20, database = 21,
     winsect = 20, win = [76, 79, 71, 32, 32, 32, 32, 32, 84, 88, 84] @ replicate 501 0, media = 0\<rparr>"

definition file_info0 :: finfo where
  "file_info0 = \<lparr>i_fsize = 0, i_fdate = 0, i_ftime = 0, i_fattrib = 0, i_fname = []\<rparr>"

lemma char_ok_one: "plain_char c \<Longrightarrow> char_ok [c]"
  by (simp add: char_ok_def)

text \<open>The path \<open>/log.txt\<close> and the entry of that file.\<close>

theorem file_name_roundtrip_witness:
  "i_fname (get_fileinfo (dir_log, vol_log) file_info0) = [76, 79, 71, 46, 84, 88, 84] \<and>
   (\<exists>fl. create_name [47, 108, 111, 103, 46, 116, 120, 116] dir_log =
     (FR_OK, [], dir_log\<lparr>d_fn := [76, 79, 71, 32, 32, 32, 32, 32, 84, 88, 84] @ [fl]\<rparr>) \<and> fl AND NS_LAST \<noteq> 0)"
proof -
  let ?b = "[[108], [111], [103]] :: u8 list list" and ?e = "[[116], [120], [116]] :: u8 list list"
  have pl: "plain_char 108" "plain_char 111" "plain_char 103" "plain_char 116" "plain_char 120" by code_simp+
  have n: "name_ok ?b ?e" using pl by (simp add: name_ok_def char_ok_one)
  have e: "ends []" by (simp add: ends_def)
  have s: "\<forall>c\<in>set [47]. is_sep c" by (simp add: is_sep_def)
  have l: "length (d_fn dir_log) = 12" by (simp add: dir_log_def)
  have u: "d_sect dir_log \<noteq> 0" by (simp add: dir_log_def)
  have st: "stored_name ?b ?e = [76, 79, 71, 32, 32, 32, 32, 32, 84, 88, 84]" by code_simp
  have sh: "shown_name ?b ?e = [76, 79, 71, 46, 84, 88, 84]" by code_simp
  have pt: "[47] @ name_text ?b ?e @ [] = [47, 108, 111, 103, 46, 116, 120, 116]" by code_simp
  have ent: "take 11 (drop (entry_at dir_log) (win vol_log)) =
      take 11 (d_fn (snd (snd (create_name ([47] @ name_text ?b ?e @ []) dir_log))))" by code_simp
  show ?thesis
    using file_name_roundtrip [OF n e s l ent u, where fno = file_info0] unfolding st sh pt by (auto simp: str_at_def)
qed

end
