(* ===== verification/Dir_Search.thy ===== *)
theory Dir_Search
  imports File_Read Ff_Names
begin

text \<open>
  Looking up a name: \<open>dir_find\<close> visits the entries of a directory in order, through the sectors of
  the fixed root directory or along a cluster chain, up to the first entry with the name or to the
  end of the table; \<open>f_open\<close> fills the file object from the entry.
\<close>

subsection \<open>Directories\<close>

text \<open>
  The sectors of a directory: those of the fixed root directory (\<open>cs\<close> is empty), or those of its
  clusters. The index of an entry has sixteen bits, so a table has at most 65536 entries.
\<close>

definition dir_on :: "'k store \<Rightarrow> 'k FATFS \<Rightarrow> u32 \<Rightarrow> u32 list \<Rightarrow> u32 list \<Rightarrow> bool" where
  "dir_on D fs sclust cs ss \<longleftrightarrow> 0 < length ss \<and> length ss \<le> 4096 \<and> sclust \<noteq> 1 \<and> sclust < n_fatent fs \<and>
     (if cs = []
      then sclust = 0 \<and> fs_type fs \<noteq> FS_FAT32 \<and> unat (n_rootdir fs) = 16 * length ss \<and>
        ss = map (\<lambda>i. dirbase fs + of_nat i) [0..<length ss] \<and> (\<forall>s\<in>set ss. s \<in> st_set D \<and> \<not> in_mirror fs s \<and> s \<noteq> 0)
      else is_chain (fat_of D fs) (n_fatent fs) cs \<and> cs ! 0 = (if sclust = 0 then dirbase fs else sclust) \<and>
        (sclust = 0 \<longrightarrow> fs_type fs = FS_FAT32) \<and> ss = file_sects fs cs)"

definition dir_ent :: "'k store \<Rightarrow> 'k FATFS \<Rightarrow> u32 list \<Rightarrow> nat \<Rightarrow> u8 list" where
  "dir_ent D fs ss k = take 32 (drop (k mod 16 * 32) (view D fs (ss ! (k div 16))))"

definition dir_pos :: "'k FATFS \<Rightarrow> u32 list \<Rightarrow> u32 list \<Rightarrow> nat \<Rightarrow> DIR \<Rightarrow> bool" where
  "dir_pos fs cs ss k dj \<longleftrightarrow> k < 16 * length ss \<and> unat (d_index dj) = k \<and> d_sect dj = ss ! (k div 16) \<and> d_dir dj = Some (k mod 16 * 32) \<and>
     d_clust dj = (if cs = [] then 0 else cs ! (k div 16 div unat (csize fs)))"

text \<open>What moving through a directory leaves of the directory object.\<close>

definition dir_frame :: "DIR \<Rightarrow> DIR \<Rightarrow> bool" where
  "dir_frame dj dj' \<longleftrightarrow> d_fn dj' = d_fn dj \<and> d_sclust dj' = d_sclust dj \<and> d_fs dj' = d_fs dj \<and> d_id dj' = d_id dj"

lemma dir_frame_refl [simp]: "dir_frame dj dj" by (simp add: dir_frame_def)
lemma dir_frame_trans: "dir_frame a b \<Longrightarrow> dir_frame b c \<Longrightarrow> dir_frame a c" by (simp add: dir_frame_def)

lemma chain_sects:
  assumes "dir_on D fs sclust cs ss" "cs \<noteq> []"
  shows "ss = file_sects fs cs" "length ss = length cs * unat (csize fs)" "\<forall>c\<in>set cs. in_vol fs c" "is_chain (fat_of D fs) (n_fatent fs) cs"
  using assms by (auto simp: dir_on_def file_sects_length in_vol_def dest: is_chain_in)

lemma dir_sect_ok:
  assumes "data_inv D fs" "dir_on D fs sclust cs ss" "q < length ss"
  shows "ss ! q \<in> st_set D" "\<not> in_mirror fs (ss ! q)" "ss ! q \<noteq> 0"
proof -
  have "ss ! q \<in> st_set D \<and> \<not> in_mirror fs (ss ! q) \<and> ss ! q \<noteq> 0"
  proof (cases "cs = []")
    case True
    then show ?thesis using assms by (simp add: dir_on_def)
  next
    case False
    note c = chain_sects [OF assms(2) False]
    have "q < length cs * unat (csize fs)" using assms(3) c(2) by simp
    from file_sect_ok [OF assms(1) c(3) this] show ?thesis using c(1) by simp
  qed
  then show "ss ! q \<in> st_set D" "\<not> in_mirror fs (ss ! q)" "ss ! q \<noteq> 0" by auto
qed

lemma same_view_dir:
  assumes "same_view D fs fs'" "data_inv D fs" "dir_on D fs sclust cs ss"
  shows "dir_on D fs' sclust cs ss" "k < 16 * length ss \<Longrightarrow> dir_ent D fs' ss k = dir_ent D fs ss k" "dir_pos fs' cs ss k dj = dir_pos fs cs ss k dj"
proof -
  have fr: "fs_frame fs fs'" and inv: "fat_inv D fs" using assms by (simp_all add: same_view_def data_inv_def)
  note f = fsframe_fields [OF fr] same_view_fields [OF assms(1)]
  have "in_mirror fs' = in_mirror fs" using fr by (rule in_mirror_frame)
  then show "dir_on D fs' sclust cs ss" using assms(3) same_view_chain [OF assms(1) inv] by (simp add: dir_on_def f)
  show "dir_ent D fs' ss k = dir_ent D fs ss k" if "k < 16 * length ss"
  proof -
    have "k div 16 < length ss" using that by simp
    then have "view D fs' (ss ! (k div 16)) = view D fs (ss ! (k div 16))"
      using assms(1) dir_sect_ok(2) [OF assms(2,3)] by (simp add: same_view_def)
    then show ?thesis by (simp add: dir_ent_def)
  qed
  show "dir_pos fs' cs ss k dj = dir_pos fs cs ss k dj" by (simp add: dir_pos_def f)
qed

subsection \<open>Moving\<close>

lemma entries_per_cluster:
  assumes "data_inv D fs"
  shows "\<not> (0 :: u16) \<ge> 16 * ucast (csize fs)"
proof -
  obtain j where j: "j < 8" "csize fs = 2 ^ j" using assms by (rule csize_unat)
  then have "j = 0 \<or> j = 1 \<or> j = 2 \<or> j = 3 \<or> j = 4 \<or> j = 5 \<or> j = 6 \<or> j = 7" by arith
  then show ?thesis using j(2) by (elim disjE) (simp_all add: word_le_nat_alt)
qed

lemma dir_root_nth:
  assumes "dir_on D fs sclust [] ss" "q < length ss"
  shows "ss ! q = dirbase fs + of_nat q"
proof -
  have "ss = map (\<lambda>i. dirbase fs + of_nat i) [0..<length ss]" using assms(1) by (simp add: dir_on_def)
  then have "ss ! q = map (\<lambda>i. dirbase fs + of_nat i) [0..<length ss] ! q" by simp
  then show ?thesis using assms(2) by simp
qed

lemma dir_sdi_ok:
  assumes d: "data_inv D fs" and o: "dir_on D fs (d_sclust dj) cs ss"
  shows "\<exists>dj'. dir_sdi v 0 (dj, fs) = Some (FR_OK, dj', fs) \<and> dir_pos fs cs ss 0 dj' \<and> dir_frame dj dj'"
proof (cases "cs = []")
  case True
  have r: "\<not> 0 \<ge> n_rootdir fs" using o True by (auto simp: dir_on_def word_le_nat_alt)
  have "ss ! 0 = dirbase fs" using dir_root_nth [OF o [unfolded True], of 0] o by (simp add: dir_on_def)
  then show ?thesis using o True r by (auto simp: dir_on_def dir_sdi_def Let_def dir_pos_def dir_frame_def)
next
  case False
  note c = chain_sects [OF o False]
  let ?c = "cs ! 0"
  have "in_vol fs ?c" using c(3) False by simp
  then have nz: "?c \<noteq> 0" by (auto simp: in_vol_def word_le_nat_alt)
  have w: "sdi_walk v (16 * ucast (csize fs)) 0 ?c fs = Some ((FR_OK, 0, ?c), fs)"
    using entries_per_cluster [OF d] by (subst sdi_walk.simps) simp
  have lt: "0 < length cs * unat (csize fs)" using o c(2) by (simp add: dir_on_def)
  have "ss ! 0 = clust2sect fs ?c" using file_sects_nth [OF lt] c(1) by simp
  then show ?thesis using o False w nz lt by (auto simp: dir_on_def dir_sdi_def Let_def dir_pos_def dir_frame_def)
qed

text \<open>The last entry of a sector, of a cluster and of the table.\<close>

lemma cluster_turn:
  assumes "data_inv D fs"
  shows "((i :: u16) div 16) AND (ucast (csize fs) - 1) = 0 \<longleftrightarrow> (unat i div 16) mod unat (csize fs) = 0"
proof -
  obtain j where j: "j < 8" "csize fs = 2 ^ j" "unat (csize fs) = 2 ^ j" using assms by (rule csize_unat)
  have u: "unat (2 ^ j :: u16) = 2 ^ j"
  proof -
    have "j = 0 \<or> j = 1 \<or> j = 2 \<or> j = 3 \<or> j = 4 \<or> j = 5 \<or> j = 6 \<or> j = 7" using j by arith
    then show ?thesis by auto
  qed
  have e: "ucast (csize fs) = (2 ^ j :: u16)"
    by (rule word_unat_eq_iff [THEN iffD2]) (use j u in \<open>simp add: unat_ucast_up\<close>)
  have "(i div 16) AND (ucast (csize fs) - 1) = take_bit j (i div 16)"
    by (simp add: e take_bit_eq_mask mask_eq_exp_minus_1)
  then have "unat ((i div 16) AND (ucast (csize fs) - 1)) = (unat i div 16) mod unat (csize fs)"
    using u j by (simp add: take_bit_eq_mod unat_mod unat_div)
  then show ?thesis by (metis unat_eq_zero)
qed

lemma next_div:
  fixes k n :: nat
  shows "Suc k mod n \<noteq> 0 \<Longrightarrow> Suc k div n = k div n \<and> Suc k mod n = Suc (k mod n)"
    "Suc k mod n = 0 \<Longrightarrow> Suc k div n = Suc (k div n)"
  by (auto simp: mod_Suc div_Suc split: if_splits)

lemma times_less: "(a :: nat) = 16 * b \<Longrightarrow> a < 16 * c \<longleftrightarrow> b < c"
  by simp

context block_drive
begin

lemma next_in_chain:
  assumes d: "data_inv D fs" and o: "dir_on D fs (d_sclust dj) cs ss" and ne: "cs \<noteq> []" and p: "dir_pos fs cs ss k dj"
    and i: "unat i = Suc k" "Suc k mod 16 = 0"
  shows "\<exists>res dj' fs'. next_sector v False i (dj, fs) = Some (res, dj', fs') \<and> same_view D fs fs' \<and> dir_frame dj dj' \<and>
    (if Suc k < 16 * length ss then res = FR_OK \<and> d_sect dj' = ss ! (Suc k div 16) \<and> d_clust dj' = cs ! (Suc k div 16 div unat (csize fs))
     else res = FR_NO_FILE)"
proof -
  let ?n = "unat (csize fs)" let ?q = "k div 16" let ?c = "cs ! (?q div ?n)"
  obtain n0: "0 < ?n" using d by (rule csize_unat)
  have inv: "fat_inv D fs" using d by (simp add: data_inv_def)
  note c = chain_sects [OF o ne]
  have q: "?q < length cs * ?n" using p c(2) by (auto simp: dir_pos_def)
  then have ql: "?q div ?n < length cs" by (simp add: less_mult_imp_div_less)
  have vol: "in_vol fs ?c" using c(3) ql by simp
  have dc: "d_clust dj = ?c" "d_sect dj = file_sects fs cs ! ?q" using p ne c(1) by (simp_all add: dir_pos_def)
  have nz: "?c \<noteq> 0" using vol by (auto simp: in_vol_def word_le_nat_alt)
  have s: "Suc k div 16 = Suc ?q" using next_div(2) [OF i(2)] .
  have i16: "i mod 16 = 0" using i by (simp add: word_unat_eq_iff unat_mod)
  have turn: "(i div 16) AND (ucast (csize fs) - 1) = 0 \<longleftrightarrow> Suc ?q mod ?n = 0" using cluster_turn [OF d, of i] i(1) s by simp
  show ?thesis
  proof (cases "Suc ?q mod ?n = 0")
    case False
    then have e: "Suc ?q div ?n = ?q div ?n" "Suc ?q mod ?n = Suc (?q mod ?n)" using next_div(1) by auto
    have "Suc ?q mod ?n < ?n" using n0 by simp
    then have r: "?q mod ?n + 1 < ?n" using e(2) by simp
    from run_sects [OF refl r q] have "file_sects fs cs ! ?q + 1 = ss ! Suc ?q" "Suc ?q < length ss" using c by simp_all
    moreover from this(2) have "Suc k < 16 * length ss" using s by linarith
    ultimately show ?thesis using False turn i16 nz dc s e same_view_refl [OF inv]
      by (simp add: next_sector_def Let_def dir_frame_def)
  next
    case True
    then have e: "Suc ?q div ?n = Suc (?q div ?n)" by (rule next_div(2))
    obtain fs' where g: "get_fat v ?c fs = Some (fat_of D fs ?c, fs')" and sv: "same_view D fs fs'"
      using next_cluster [OF inv vol] by blast
    have sz: "Suc ?q = Suc (?q div ?n) * ?n" using True e by (metis div_mult_mod_eq add_0_right)
    have fin: "Suc k < 16 * length ss \<longleftrightarrow> Suc (?q div ?n) < length cs"
    proof -
      have "Suc k = 16 * Suc ?q" using div_mult_mod_eq [of "Suc k" 16] i(2) unfolding s by (simp only: add_0_right mult.commute)
      then have "Suc k < 16 * length ss \<longleftrightarrow> Suc (?q div ?n) * ?n < length cs * ?n"
        unfolding c(2) sz [symmetric] by (rule times_less)
      also have "\<dots> \<longleftrightarrow> Suc (?q div ?n) < length cs" using n0 by (simp only: mult_less_cancel2 simp_thms)
      finally show ?thesis .
    qed
    have f2: "n_fatent fs' = n_fatent fs" "clust2sect fs' = clust2sect fs" using same_view_fields [OF sv] by simp_all
    show ?thesis
    proof (cases "Suc (?q div ?n) < length cs")
      case l: True
      let ?c' = "cs ! Suc (?q div ?n)"
      have n: "fat_of D fs ?c = ?c'" using is_chain_next [OF c(4) l] .
      have v': "in_vol fs ?c'" using c(3) l by simp
      then have r: "2 \<le> ?c'" "?c' < n_fatent fs" by (simp_all add: in_vol_def)
      then have r': "\<not> ?c' \<le> 1" "?c' \<noteq> 0xffffffff" "\<not> n_fatent fs \<le> ?c'" using unsigned_less [where 'a = nat, of "n_fatent fs"]
        by (auto simp: word_less_nat_alt word_le_nat_alt)
      have "Suc ?q < length cs * ?n" using sz l n0 by (metis mult_less_cancel2)
      then have "ss ! Suc ?q = clust2sect fs ?c'" using file_sects_nth [of "Suc ?q" cs fs] c(1) e True by simp
      with True turn i16 nz dc s e g n r r' f2 fin l sv show ?thesis
        by (simp add: next_sector_def Let_def dir_frame_def)
    next
      case l: False
      then have "n_fatent fs \<le> fat_of D fs ?c" using is_chain_last [OF c(4)] ql by simp
      moreover from this vol have "\<not> fat_of D fs ?c \<le> 1" by (auto simp: in_vol_def word_less_nat_alt word_le_nat_alt)
      moreover have "fat_of D fs ?c \<noteq> 0xffffffff" by (rule fat_of_no_error)
      ultimately show ?thesis using True turn i16 nz dc g f2 fin l sv by (simp add: next_sector_def Let_def dir_frame_def)
    qed
  qed
qed

lemma next_sector_ok:
  assumes d: "data_inv D fs" and o: "dir_on D fs (d_sclust dj) cs ss" and p: "dir_pos fs cs ss k dj" and i: "unat i = Suc k"
  shows "\<exists>res dj' fs'. next_sector v False i (dj, fs) = Some (res, dj', fs') \<and> same_view D fs fs' \<and> dir_frame dj dj' \<and>
    (if Suc k < 16 * length ss then res = FR_OK \<and> d_sect dj' = ss ! (Suc k div 16) \<and>
       d_clust dj' = (if cs = [] then 0 else cs ! (Suc k div 16 div unat (csize fs)))
     else res = FR_NO_FILE)"
proof -
  have inv: "fat_inv D fs" using d by (simp add: data_inv_def)
  consider "Suc k mod 16 \<noteq> 0" | "Suc k mod 16 = 0" "cs = []" | "Suc k mod 16 = 0" "cs \<noteq> []" by blast
  then show ?thesis
  proof cases
    case 1
    then have "i mod 16 \<noteq> 0" using i by (simp add: word_unat_eq_iff unat_mod)
    moreover have e: "Suc k div 16 = k div 16" using next_div(1) [OF 1] by simp
    moreover have "Suc k < 16 * length ss"
    proof -
      have "k div 16 < length ss" using p by (simp add: dir_pos_def less_mult_imp_div_less mult.commute)
      then show ?thesis unfolding e [symmetric] by (simp add: div_less_iff_less_mult mult.commute)
    qed
    ultimately show ?thesis using p same_view_refl [OF inv] by (simp add: next_sector_def dir_pos_def)
  next
    case 2
    have i0: "i mod 16 = 0" using i 2 by (simp add: word_unat_eq_iff unat_mod)
    have e: "Suc k div 16 = Suc (k div 16)" using next_div(2) [OF 2(1)] .
    have r: "n_rootdir fs \<le> i \<longleftrightarrow> \<not> Suc k < 16 * length ss" using o 2 i by (auto simp: dir_on_def word_le_nat_alt)
    have "d_clust dj = 0" "d_sect dj = dirbase fs + of_nat (k div 16)"
      using p 2 dir_root_nth [OF o [unfolded 2(2)], of "k div 16"] by (simp_all add: dir_pos_def less_mult_imp_div_less mult.commute)
    moreover have "ss ! Suc (k div 16) = dirbase fs + of_nat (k div 16) + 1" if "Suc k < 16 * length ss"
      using that e dir_root_nth [OF o [unfolded 2(2)], of "Suc (k div 16)"] by (simp add: ac_simps)
    ultimately show ?thesis using i0 e r 2 same_view_refl [OF inv] by (simp add: next_sector_def Let_def dir_frame_def)
  next
    case 3
    from next_in_chain [OF d o 3(2) p i 3(1)] 3 show ?thesis by (simp cong: if_cong)
  qed
qed

lemma dir_next_ok:
  assumes d: "data_inv D fs" and o: "dir_on D fs (d_sclust dj) cs ss" and p: "dir_pos fs cs ss k dj"
  shows "\<exists>res dj' fs'. dir_next v False (dj, fs) = Some (res, dj', fs') \<and> same_view D fs fs' \<and> dir_frame dj dj' \<and>
    (if Suc k < 16 * length ss then res = FR_OK \<and> dir_pos fs cs ss (Suc k) dj' else res = FR_NO_FILE)"
proof -
  have inv: "fat_inv D fs" using d by (simp add: data_inv_def)
  have k: "k < 16 * length ss" "unat (d_index dj) = k" and l: "length ss \<le> 4096" using p o by (simp_all add: dir_pos_def dir_on_def)
  have nz: "d_sect dj \<noteq> 0" using dir_sect_ok(3) [OF d o, of "k div 16"] p by (simp add: dir_pos_def less_mult_imp_div_less mult.commute)
  have u: "unat (d_index dj + 1) = Suc k mod 65536" using k by (simp add: unat_word_ariths)
  show ?thesis
  proof (cases "Suc k = 65536")
    case True
    then have "d_index dj + 1 = 0" using u by (simp add: word_unat_eq_iff)
    moreover have "\<not> Suc k < 16 * length ss" using True l by simp
    ultimately show ?thesis using same_view_refl [OF inv] by (simp add: dir_next_def)
  next
    case False
    then have i: "unat (d_index dj + 1) = Suc k" using u k l by simp
    then have z: "d_index dj + 1 \<noteq> 0" by (metis unat_0 nat.distinct(1))
    obtain res dj' fs' where n: "next_sector v False (d_index dj + 1) (dj, fs) = Some (res, dj', fs')" "same_view D fs fs'" "dir_frame dj dj'"
      "if Suc k < 16 * length ss then res = FR_OK \<and> d_sect dj' = ss ! (Suc k div 16) \<and>
         d_clust dj' = (if cs = [] then 0 else cs ! (Suc k div 16 div unat (csize fs))) else res = FR_NO_FILE"
      using next_sector_ok [OF d o p i] by blast
    show ?thesis
    proof (cases "Suc k < 16 * length ss")
      case True
      then have "dir_pos fs cs ss (Suc k) (dj'\<lparr>d_index := d_index dj + 1, d_dir := Some (unat ((d_index dj + 1) mod 16) * SZ_DIR)\<rparr>)"
        using n(4) i by (simp add: dir_pos_def unat_mod SZ_DIR_def)
      with n z nz True show ?thesis by (simp add: dir_next_def dir_frame_def Let_def)
    qed (use n z nz in \<open>simp add: dir_next_def Let_def\<close>)
  qed
qed

end

subsection \<open>Finding\<close>

lemma mem_cmp_eq: "length xs = length ys \<Longrightarrow> mem_cmp xs ys = 0 \<longleftrightarrow> xs = ys"
  by (induction xs ys rule: list_induct2) (auto simp: Let_def word_uint_eq_iff)

text \<open>
  A search goes through the entries up to the first that is wanted or to the end mark, a free
  entry with no entry after it.
\<close>

definition ent_end :: "u8 list \<Rightarrow> bool" where "ent_end e \<longleftrightarrow> e ! 0 = 0"

definition ent_names :: "u8 list \<Rightarrow> u8 list \<Rightarrow> bool" where
  "ent_names fn e \<longleftrightarrow> e ! 11 AND AM_VOL = 0 \<and> take 11 e = take 11 fn"

definition ent_shown :: "u8 list \<Rightarrow> bool" where
  "ent_shown e \<longleftrightarrow> e ! 0 \<noteq> DDE \<and> e ! 11 AND AM_VOL = 0"

definition dir_scan :: "'k store \<Rightarrow> 'k FATFS \<Rightarrow> u32 list \<Rightarrow> (u8 list \<Rightarrow> bool) \<Rightarrow> nat \<Rightarrow> nat option" where
  "dir_scan D fs ss P k = find (\<lambda>j. ent_end (dir_ent D fs ss j) \<or> P (dir_ent D fs ss j)) [k..<16 * length ss]"

lemma dir_scan_step:
  "dir_scan D fs ss P k =
    (if k < 16 * length ss then
       if ent_end (dir_ent D fs ss k) \<or> P (dir_ent D fs ss k) then Some k else dir_scan D fs ss P (Suc k)
     else None)"
  by (simp add: dir_scan_def upt_conv_Cons)

text \<open>The window over the sector of an entry.\<close>

lemma entry_in_window:
  assumes p: "dir_pos fs cs ss k dj" and w: "win fs' = view D fs (ss ! (k div 16))" "length (win fs') = 512"
  shows "take 32 (drop (entry_at dj) (win fs')) = dir_ent D fs ss k" "entry_at dj + 32 \<le> 512"
    "i < 32 \<Longrightarrow> entry_byte dj fs' i = dir_ent D fs ss k ! i" "11 \<le> length (d_fn dj) \<Longrightarrow> sfn_matches dj fs' \<longleftrightarrow> ent_names (d_fn dj) (dir_ent D fs ss k)"
proof -
  have e: "entry_at dj = k mod 16 * 32" using p by (simp add: dir_pos_def entry_at_def)
  show t: "take 32 (drop (entry_at dj) (win fs')) = dir_ent D fs ss k" by (simp add: e w dir_ent_def)
  have "k mod 16 < 16" by simp
  then show b: "entry_at dj + 32 \<le> 512" unfolding e by linarith
  show n: "entry_byte dj fs' i = dir_ent D fs ss k ! i" if "i < 32" for i
    using that b w(2) t [symmetric] by (simp add: entry_byte_def)
  have "take 11 (drop (entry_at dj) (win fs')) = take 11 (dir_ent D fs ss k)" using t [symmetric] by simp
  then show "11 \<le> length (d_fn dj) \<Longrightarrow> sfn_matches dj fs' \<longleftrightarrow> ent_names (d_fn dj) (dir_ent D fs ss k)"
    using n [of 11] b w(2) mem_cmp_eq [of "take 11 (dir_ent D fs ss k)" "take 11 (d_fn dj)"] t [symmetric]
    by (simp add: sfn_matches_def ent_names_def DIR_Attr_def)
qed

text \<open>The result of the search from entry \<open>k\<close> on.\<close>

definition find_result ::
  "'k store \<Rightarrow> 'k FATFS \<Rightarrow> u32 list \<Rightarrow> u32 list \<Rightarrow> (u8 list \<Rightarrow> bool) \<Rightarrow> nat \<Rightarrow> DIR \<Rightarrow> FRESULT \<Rightarrow> DIR \<Rightarrow> 'k FATFS \<Rightarrow> bool" where
  "find_result D fs cs ss P k dj res dj' fs' \<longleftrightarrow> same_view D fs fs' \<and> dir_frame dj dj' \<and>
     (case dir_scan D fs ss P k of
        None \<Rightarrow> res = FR_NO_FILE
      | Some j \<Rightarrow> if ent_end (dir_ent D fs ss j) then res = FR_NO_FILE
          else res = FR_OK \<and> dir_pos fs cs ss j dj' \<and> winsect fs' = d_sect dj' \<and> win fs' = view D fs (d_sect dj'))"

lemma same_view_scan:
  assumes "same_view D fs fs'" "data_inv D fs" "dir_on D fs sclust cs ss"
  shows "dir_scan D fs' ss P k = dir_scan D fs ss P k"
  unfolding dir_scan_def by (rule find_cong) (auto simp: same_view_dir(2) [OF assms])

lemma dir_scan_in: "dir_scan D fs ss P k = Some j \<Longrightarrow> k \<le> j \<and> j < 16 * length ss \<and> (ent_end (dir_ent D fs ss j) \<or> P (dir_ent D fs ss j))"
  by (auto simp: dir_scan_def find_Some_iff)

text \<open>The result of the rest of a search, seen from its beginning.\<close>

lemma find_result_from:
  assumes sv: "same_view D fs fs2" and d: "data_inv D fs" and o: "dir_on D fs sclust cs ss"
    and look: "dir_scan D fs ss P k = dir_scan D fs ss P k2" and fr: "dir_frame dj dj2"
    and res: "find_result D fs2 cs ss P k2 dj2 res dj' fs'"
  shows "find_result D fs cs ss P k dj res dj' fs'"
proof -
  have v: "view D fs2 (d_sect dj') = view D fs (d_sect dj')" if "j < 16 * length ss" "dir_pos fs cs ss j dj'" for j
  proof -
    have "d_sect dj' = ss ! (j div 16)" "j div 16 < length ss" using that by (simp_all add: dir_pos_def less_mult_imp_div_less mult.commute)
    then show ?thesis using sv dir_sect_ok(2) [OF d o] by (simp add: same_view_def)
  qed
  note same = same_view_scan [OF sv d o] same_view_dir(3) [OF sv d o]
  have fr': "same_view D fs fs'" "dir_frame dj dj'"
    using res dir_frame_trans [OF fr] same_view_trans [OF sv] by (simp_all add: find_result_def)
  show ?thesis
  proof (cases "dir_scan D fs ss P k2")
    case None
    with res look fr' show ?thesis by (simp add: find_result_def same)
  next
    case (Some j)
    then have j: "j < 16 * length ss" using dir_scan_in by blast
    then have "dir_ent D fs2 ss j = dir_ent D fs ss j" by (rule same_view_dir(2) [OF sv d o])
    with Some res look fr' v [OF j] show ?thesis by (auto simp: find_result_def same)
  qed
qed

context block_drive
begin

text \<open>Any loop that moves the window to the entry, stops at the end mark or at a hit, and goes on.\<close>

lemma scan_ok:
  assumes L: "\<And>dj fs. J dj \<Longrightarrow> d_sect dj \<noteq> 0 \<Longrightarrow> L (dj, fs) = do {
      (res, fs) \<leftarrow> move_window v (d_sect dj) fs;
      if res \<noteq> FR_OK then Some (res, dj, fs)
      else if entry_byte dj fs DIR_Name = 0 then Some (FR_NO_FILE, dj, fs)
      else if hit dj fs then Some (FR_OK, dj, fs)
      else do { (res, s) \<leftarrow> dir_next v False (dj, fs); if res = FR_OK then L s else Some (res, s) } }"
    and hit: "\<And>dj fs fs' k. J dj \<Longrightarrow> dir_pos fs cs ss k dj \<Longrightarrow> win fs' = view D fs (ss ! (k div 16)) \<Longrightarrow> length (win fs') = 512 \<Longrightarrow>
      hit dj fs' \<longleftrightarrow> P (dir_ent D fs ss k)"
    and J: "\<And>dj dj'. J dj \<Longrightarrow> dir_frame dj dj' \<Longrightarrow> J dj'"
  shows "data_inv D fs \<Longrightarrow> dir_on D fs (d_sclust dj) cs ss \<Longrightarrow> dir_pos fs cs ss k dj \<Longrightarrow> J dj \<Longrightarrow>
    \<exists>res dj' fs'. L (dj, fs) = Some (res, dj', fs') \<and> find_result D fs cs ss P k dj res dj' fs'"
proof (induction "16 * length ss - k" arbitrary: k dj fs rule: less_induct)
  case less
  note d = less.prems(1) and o = less.prems(2) and p = less.prems(3) and j = less.prems(4)
  have inv: "fat_inv D fs" using d by (simp add: data_inv_def)
  have k: "k < 16 * length ss" "d_sect dj = ss ! (k div 16)" using p by (simp_all add: dir_pos_def)
  have q: "k div 16 < length ss" using k by (simp add: less_mult_imp_div_less mult.commute)
  obtain fs1 where w: "move_window v (d_sect dj) fs = Some (FR_OK, fs1)" "same_view D fs fs1" "winsect fs1 = d_sect dj" "win fs1 = view D fs (d_sect dj)"
    using window_at [OF inv] dir_sect_ok [OF d o q] k(2) by metis
  have l: "length (win fs1) = 512" using w(2) by (simp add: same_view_def fat_inv_def win_inv_def)
  note e = entry_in_window [OF p w(4) [unfolded k(2)] l]
  have hit': "hit dj fs1 \<longleftrightarrow> P (dir_ent D fs ss k)" by (rule hit [OF j p w(4) [unfolded k(2)] l])
  have nz: "d_sect dj \<noteq> 0" using dir_sect_ok(3) [OF d o q] k(2) by simp
  let ?e = "dir_ent D fs ss k"
  have e0: "entry_byte dj fs1 DIR_Name = 0 \<longleftrightarrow> ent_end ?e" using e(3) [of 0] by (simp add: ent_end_def DIR_Name_def)
  show ?case
  proof (cases "ent_end ?e \<or> P ?e")
    case True
    then have "dir_scan D fs ss P k = Some k" using k(1) by (subst dir_scan_step) simp
    with True w hit' e0 p show ?thesis using nz by (subst L [OF j]) (auto simp: find_result_def)
  next
    case False
    then have step: "L (dj, fs) = do { (res, s) \<leftarrow> dir_next v False (dj, fs1); if res = FR_OK then L s else Some (res, s) }"
      using w hit' e0 nz by (subst L [OF j]) simp_all
    note sv = same_view_dir [OF w(2) d o] and d1 = same_view_data [OF w(2) d]
    obtain res dj' fs2 where n: "dir_next v False (dj, fs1) = Some (res, dj', fs2)" "same_view D fs1 fs2" "dir_frame dj dj'"
      "if Suc k < 16 * length ss then res = FR_OK \<and> dir_pos fs1 cs ss (Suc k) dj' else res = FR_NO_FILE"
      using dir_next_ok [OF d1 sv(1)] p sv(3) by blast
    note sv2 = same_view_trans [OF w(2) n(2)]
    have look: "dir_scan D fs ss P k = dir_scan D fs ss P (Suc k)" using False k(1) by (subst dir_scan_step) simp
    show ?thesis
    proof (cases "Suc k < 16 * length ss")
      case False
      then have "dir_scan D fs ss P (Suc k) = None" by (subst dir_scan_step) simp
      with False n sv2 step look show ?thesis by (simp add: find_result_def)
    next
      case True
      note dv = same_view_dir [OF sv2 d o] and fr = n(3) [unfolded dir_frame_def]
      have "\<exists>res dj'' fs'. L (dj', fs2) = Some (res, dj'', fs') \<and> find_result D fs2 cs ss P (Suc k) dj' res dj'' fs'"
      proof (rule less.hyps)
        show "16 * length ss - Suc k < 16 * length ss - k" using k(1) by simp
        show "data_inv D fs2" by (rule same_view_data [OF sv2 d])
        show "dir_on D fs2 (d_sclust dj') cs ss" using dv(1) fr by simp
        show "dir_pos fs2 cs ss (Suc k) dj'" using True n(4) sv(3) dv(3) by simp
        show "J dj'" by (rule J [OF j n(3)])
      qed
      then obtain res' dj'' fs' where r: "L (dj', fs2) = Some (res', dj'', fs')" "find_result D fs2 cs ss P (Suc k) dj' res' dj'' fs'" by blast
      have "find_result D fs cs ss P k dj res' dj'' fs'"
        using r(2) find_result_from [OF sv2 d o, of P k "Suc k" dj dj' res' dj'' fs'] look n(3) by blast
      with step n True r(1) show ?thesis by auto
    qed
  qed
qed

lemma find_loop_ok:
  assumes "data_inv D fs" "dir_on D fs (d_sclust dj) cs ss" "dir_pos fs cs ss k dj" "11 \<le> length (d_fn dj)"
  shows "\<exists>res dj' fs'. find_loop v (dj, fs) = Some (res, dj', fs') \<and> find_result D fs cs ss (ent_names (d_fn dj)) k dj res dj' fs'"
proof (rule scan_ok [where J = "\<lambda>x. d_fn x = d_fn dj" and hit = sfn_matches and L = "find_loop v", OF _ _ _ assms(1-3) refl])
  show "find_loop v (x, fs) = do {
      (res, fs) \<leftarrow> move_window v (d_sect x) fs;
      if res \<noteq> FR_OK then Some (res, x, fs)
      else if entry_byte x fs DIR_Name = 0 then Some (FR_NO_FILE, x, fs)
      else if sfn_matches x fs then Some (FR_OK, x, fs)
      else do { (res, s) \<leftarrow> dir_next v False (x, fs); if res = FR_OK then find_loop v s else Some (res, s) } }" for x fs
    by (subst find_loop.simps) simp
qed (use entry_in_window(4) assms(4) in \<open>fastforce simp: dir_frame_def\<close>)+

text \<open>An entry that a listing shows.\<close>

lemma read_loop_ok:
  assumes "data_inv D fs" "dir_on D fs (d_sclust dj) cs ss" "dir_pos fs cs ss k dj"
  shows "\<exists>res dj' fs'. read_loop v (dj, fs) = Some (res, dj', fs') \<and> find_result D fs cs ss ent_shown k dj res dj' fs'"
proof (rule scan_ok [where J = "\<lambda>_. True" and L = "read_loop v" and
      hit = "\<lambda>dj fs. entry_byte dj fs DIR_Name \<noteq> DDE \<and> entry_byte dj fs DIR_Attr AND AM_VOL = 0", OF _ _ _ assms TrueI])
  show "d_sect x \<noteq> 0 \<Longrightarrow> read_loop v (x, fs) = do {
      (res, fs) \<leftarrow> move_window v (d_sect x) fs;
      if res \<noteq> FR_OK then Some (res, x, fs)
      else if entry_byte x fs DIR_Name = 0 then Some (FR_NO_FILE, x, fs)
      else if entry_byte x fs DIR_Name \<noteq> DDE \<and> entry_byte x fs DIR_Attr AND AM_VOL = 0 then Some (FR_OK, x, fs)
      else do { (res, s) \<leftarrow> dir_next v False (x, fs); if res = FR_OK then read_loop v s else Some (res, s) } }" for x fs
    by (subst read_loop.simps) simp
  show "(entry_byte x fs' DIR_Name \<noteq> DDE \<and> entry_byte x fs' DIR_Attr AND AM_VOL = 0) = ent_shown (dir_ent D fs ss k)"
    if "dir_pos fs cs ss k x" "win fs' = view D fs (ss ! (k div 16))" "length (win fs') = 512" for x fs fs' k
    using entry_in_window(3) [OF that] by (simp add: ent_shown_def DIR_Name_def DIR_Attr_def)
qed simp_all

lemma dir_find_ok:
  assumes d: "data_inv D fs" and o: "dir_on D fs (d_sclust dj) cs ss" and fn: "11 \<le> length (d_fn dj)"
  shows "\<exists>res dj' fs'. dir_find v (dj, fs) = Some (res, dj', fs') \<and> find_result D fs cs ss (ent_names (d_fn dj)) 0 dj res dj' fs'"
proof -
  obtain dj1 where s: "dir_sdi v 0 (dj, fs) = Some (FR_OK, dj1, fs)" "dir_pos fs cs ss 0 dj1" "dir_frame dj dj1"
    using dir_sdi_ok [OF d o] by blast
  have fr: "d_sclust dj1 = d_sclust dj" "d_fn dj1 = d_fn dj" using s(3) by (simp_all add: dir_frame_def)
  obtain res dj' fs' where l: "find_loop v (dj1, fs) = Some (res, dj', fs')" "find_result D fs cs ss (ent_names (d_fn dj)) 0 dj1 res dj' fs'"
    using find_loop_ok [OF d _ s(2)] o fn fr by auto
  have "find_result D fs cs ss (ent_names (d_fn dj)) 0 dj res dj' fs'"
    using l(2) dir_frame_trans [OF s(3), of dj'] fr by (simp add: find_result_def)
  with s(1) l(1) show ?thesis by (simp add: dir_find_def)
qed

end

end
