(* ===== verification/File_Open.thy ===== *)
theory File_Open
  imports Dir_Search
begin

text \<open>
  Opening a file by its path: \<open>follow_path\<close> goes from directory to directory, \<open>f_open\<close> fills the
  file object from the entry at the end of the path.
\<close>

subsection \<open>Paths\<close>

type_synonym seg = "u8 list list \<times> u8 list list"

text \<open>The names of a path with a slash between them.\<close>

fun path_text :: "seg list \<Rightarrow> u8 list" where
  "path_text [] = []"
| "path_text [(ub, ue)] = name_text ub ue"
| "path_text ((ub, ue) # n # ns) = name_text ub ue @ 47 # path_text (n # ns)"

definition seg_name :: "seg \<Rightarrow> u8 list" where "seg_name n = stored_name (fst n) (snd n)"
definition seg_ok :: "seg \<Rightarrow> bool" where "seg_ok n \<longleftrightarrow> name_ok (fst n) (snd n)"

text \<open>The entry with a name, if the table has one before its end mark.\<close>

definition entry_of :: "'k store \<Rightarrow> 'k FATFS \<Rightarrow> u32 list \<Rightarrow> u8 list \<Rightarrow> nat option" where
  "entry_of D fs ss fn = (case dir_scan D fs ss (ent_names fn) 0 of None \<Rightarrow> None | Some j \<Rightarrow> if ent_end (dir_ent D fs ss j) then None else Some j)"

text \<open>
  What a path names, from a directory on: an entry, by the sectors of its table and its position,
  or the error that reports which part is missing.
\<close>

inductive resolves :: "'k store \<Rightarrow> 'k FATFS \<Rightarrow> u32 \<Rightarrow> seg list \<Rightarrow> FRESULT + u32 list \<times> nat \<Rightarrow> bool"
  for D :: "'k store" and fs :: "'k FATFS" where
  found: "dir_on D fs c cs ss \<Longrightarrow> entry_of D fs ss (seg_name n) = Some j \<Longrightarrow> resolves D fs c [n] (Inr (ss, j))"
| missing: "dir_on D fs c cs ss \<Longrightarrow> entry_of D fs ss (seg_name n) = None \<Longrightarrow>
    resolves D fs c (n # ns) (Inl (if ns = [] then FR_NO_FILE else FR_NO_PATH))"
| no_dir: "dir_on D fs c cs ss \<Longrightarrow> entry_of D fs ss (seg_name n) = Some j \<Longrightarrow> ns \<noteq> [] \<Longrightarrow>
    dir_ent D fs ss j ! DIR_Attr AND AM_DIR = 0 \<Longrightarrow> resolves D fs c (n # ns) (Inl FR_NO_PATH)"
| down: "dir_on D fs c cs ss \<Longrightarrow> entry_of D fs ss (seg_name n) = Some j \<Longrightarrow> ns \<noteq> [] \<Longrightarrow>
    dir_ent D fs ss j ! DIR_Attr AND AM_DIR \<noteq> 0 \<Longrightarrow> resolves D fs (LD_CLUST (dir_ent D fs ss j) 0) ns r \<Longrightarrow> resolves D fs c (n # ns) r"

lemma stored_name_length: "name_ok ub ue \<Longrightarrow> length (stored_name ub ue) = 11"
  by (simp add: stored_name_def Let_def entry_name_length)

lemma ent_names_fn: "length fn = 11 \<Longrightarrow> ent_names (fn @ [x]) = ent_names fn"
  by (simp add: fun_eq_iff ent_names_def)

lemma same_view_resolves:
  assumes sv: "same_view D fs fs'" and d: "data_inv D fs" and r: "resolves D fs c ns r"
  shows "resolves D fs' c ns r"
proof -
  have e: "dir_on D fs' c cs ss" "entry_of D fs' ss fn = entry_of D fs ss fn" "\<And>j. entry_of D fs ss fn = Some j \<Longrightarrow> dir_ent D fs' ss j = dir_ent D fs ss j"
    if o: "dir_on D fs c cs ss" for c cs ss fn
  proof -
    show "dir_on D fs' c cs ss" by (rule same_view_dir(1) [OF sv d o])
    have l: "dir_ent D fs' ss j = dir_ent D fs ss j" if "dir_scan D fs ss (ent_names fn) 0 = Some j" for j
      using dir_scan_in [OF that] same_view_dir(2) [OF sv d o] by blast
    then show "entry_of D fs' ss fn = entry_of D fs ss fn"
      by (simp add: entry_of_def same_view_scan [OF sv d o] split: option.split)
    show "dir_ent D fs' ss j = dir_ent D fs ss j" if "entry_of D fs ss fn = Some j" for j
      using that l by (simp add: entry_of_def split: option.splits if_splits)
  qed
  from r show ?thesis
  proof (induction rule: resolves.induct)
    case found
    then show ?case using e by (metis resolves.found)
  next
    case (missing c cs ss n ns)
    then show ?case using resolves.missing [OF e(1)] e(2) by metis
  next
    case no_dir
    then show ?case using e by (metis resolves.no_dir)
  next
    case down
    then show ?case using e by (metis resolves.down)
  qed
qed

subsection \<open>Following a path\<close>

lemma create_seg:
  assumes "seg_ok n" "length (d_fn dj) = 12"
  shows "\<exists>fl. create_name (path_text (n # ns)) dj = (FR_OK, path_text ns, dj\<lparr>d_fn := seg_name n @ [fl]\<rparr>) \<and>
    (fl AND NS_LAST \<noteq> 0 \<longleftrightarrow> ns = []) \<and> fl AND NS_DOT = 0"
proof -
  let ?r = "if ns = [] then [] else 47 # path_text ns"
  have t: "path_text (n # ns) = [] @ name_text (fst n) (snd n) @ ?r" by (cases n; cases ns) auto
  have "ends ?r" by (auto simp: ends_def is_sep_def)
  from create_name_ok [OF assms(1) [unfolded seg_ok_def] this _ assms(2), of "[]"] show ?thesis
    unfolding t by (auto simp: seg_name_def str_at_def word_le_nat_alt split: if_splits)
qed

lemma LD_entry:
  assumes "e = take 32 (drop a w)" "a + 32 \<le> length w"
  shows "LD_CLUST w a = LD_CLUST e 0" "LD_DWORD w (a + DIR_FileSize) = LD_DWORD e DIR_FileSize"
  using assms by (simp_all add: LD_CLUST_def LD_WORD_def LD_DWORD_def dir_defs add.commute [of _ a])

definition path_result :: "'k store \<Rightarrow> 'k FATFS \<Rightarrow> FRESULT + u32 list \<times> nat \<Rightarrow> FRESULT \<Rightarrow> DIR \<Rightarrow> 'k FATFS \<Rightarrow> bool" where
  "path_result D fs r res dj fs' \<longleftrightarrow> same_view D fs fs' \<and> (case r of Inl e \<Rightarrow> res = e | Inr (ss, j) \<Rightarrow>
     res = FR_OK \<and> j < 16 * length ss \<and> d_dir dj = Some (j mod 16 * 32) \<and> winsect fs' = ss ! (j div 16) \<and> win fs' = view D fs (ss ! (j div 16)))"

lemma find_result_entry:
  assumes "find_result D fs cs ss (ent_names (d_fn dj)) 0 dj res dj' fs'" "d_fn dj = fn @ [x]" "length fn = 11"
  shows "entry_of D fs ss fn = None \<Longrightarrow> res = FR_NO_FILE"
    "entry_of D fs ss fn = Some j \<Longrightarrow> res = FR_OK \<and> dir_pos fs cs ss j dj' \<and> path_result D fs (Inr (ss, j)) res dj' fs' \<and>
       win fs' = view D fs (ss ! (j div 16))"
  using assms by (auto simp: find_result_def entry_of_def ent_names_fn path_result_def dir_pos_def split: option.splits if_splits)

text \<open>Where the entry that was found is.\<close>

lemma entry_found:
  assumes sv: "same_view D fs fs'" and p: "dir_pos fs cs ss j dj" and w: "win fs' = view D fs (ss ! (j div 16))"
  shows "entry_byte dj fs' DIR_Attr = dir_ent D fs ss j ! DIR_Attr" "LD_CLUST (win fs') (entry_at dj) = LD_CLUST (dir_ent D fs ss j) 0"
    "LD_DWORD (win fs') (entry_at dj + DIR_FileSize) = LD_DWORD (dir_ent D fs ss j) DIR_FileSize"
proof -
  have len: "length (win fs') = 512" using sv by (simp add: same_view_def fat_inv_def win_inv_def)
  note e = entry_in_window [OF p w len]
  show "entry_byte dj fs' DIR_Attr = dir_ent D fs ss j ! DIR_Attr" using e(3) [of DIR_Attr] by (simp add: DIR_Attr_def)
  show "LD_CLUST (win fs') (entry_at dj) = LD_CLUST (dir_ent D fs ss j) 0"
    "LD_DWORD (win fs') (entry_at dj + DIR_FileSize) = LD_DWORD (dir_ent D fs ss j) DIR_FileSize"
    using LD_entry [OF e(1) [symmetric]] e(2) len by simp_all
qed

context block_drive
begin

text \<open>One segment.\<close>

lemma path_step:
  assumes d: "data_inv D fs" and sv: "same_view D fs fs1" and o: "dir_on D fs (d_sclust dj) cs ss" and n: "seg_ok n" and l: "length (d_fn dj) = 12"
  shows "\<exists>res dj' fs' fl. create_name (path_text (n # ns)) dj = (FR_OK, path_text ns, dj\<lparr>d_fn := seg_name n @ [fl]\<rparr>) \<and>
    dir_find v (dj\<lparr>d_fn := seg_name n @ [fl]\<rparr>, fs1) = Some (res, dj', fs') \<and> same_view D fs fs' \<and> d_fn dj' = seg_name n @ [fl] \<and>
    (fl AND NS_LAST \<noteq> 0 \<longleftrightarrow> ns = []) \<and> fl AND NS_DOT = 0 \<and>
    (entry_of D fs ss (seg_name n) = None \<longrightarrow> res = FR_NO_FILE) \<and>
    (\<forall>j. entry_of D fs ss (seg_name n) = Some j \<longrightarrow> res = FR_OK \<and> dir_pos fs cs ss j dj' \<and> path_result D fs (Inr (ss, j)) res dj' fs' \<and>
       win fs' = view D fs (ss ! (j div 16)))"
proof -
  obtain fl where c: "create_name (path_text (n # ns)) dj = (FR_OK, path_text ns, dj\<lparr>d_fn := seg_name n @ [fl]\<rparr>)"
    "fl AND NS_LAST \<noteq> 0 \<longleftrightarrow> ns = []" "fl AND NS_DOT = 0" using create_seg [OF n l] by blast
  let ?dj = "dj\<lparr>d_fn := seg_name n @ [fl]\<rparr>"
  have len: "length (seg_name n) = 11" using n by (simp add: seg_ok_def seg_name_def stored_name_length)
  obtain res dj' fs' where f: "dir_find v (?dj, fs1) = Some (res, dj', fs')" "find_result D fs1 cs ss (ent_names (d_fn ?dj)) 0 ?dj res dj' fs'"
    using dir_find_ok [OF same_view_data [OF sv d], of ?dj cs ss] same_view_dir(1) [OF sv d o] len by auto
  have g: "find_result D fs cs ss (ent_names (d_fn ?dj)) 0 ?dj res dj' fs'" by (rule find_result_from [OF sv d o refl dir_frame_refl f(2)])
  then have "same_view D fs fs'" "d_fn dj' = seg_name n @ [fl]" by (simp_all add: find_result_def dir_frame_def)
  with c f(1) find_result_entry [OF g _ len] show ?thesis
    by (intro exI [of _ res] exI [of _ dj'] exI [of _ fs'] exI [of _ fl]) auto
qed

lemma path_loop_ok:
  assumes d: "data_inv D fs" and r: "resolves D fs c ns r"
  shows "\<forall>n\<in>set ns. seg_ok n \<Longrightarrow> d_sclust dj = c \<Longrightarrow> length (d_fn dj) = 12 \<Longrightarrow> same_view D fs fs1 \<Longrightarrow>
    \<exists>res dj' fs'. path_loop v (path_text ns) (dj, fs1) = Some (res, dj', fs') \<and> path_result D fs r res dj' fs'"
  using r
proof (induction arbitrary: dj fs1 rule: resolves.induct)
  case (found c cs ss n j)
  then show ?case using path_step [OF d found.prems(4), of dj cs ss n "[]"]
    by (subst path_loop.simps) (auto simp: NS_def seg_ok_def seg_name_def stored_name_length nth_append)
next
  case (missing c cs ss n ns)
  then show ?case using path_step [OF d missing.prems(4), of dj cs ss n ns]
    by (subst path_loop.simps) (auto simp: NS_def seg_ok_def seg_name_def stored_name_length nth_append path_result_def)
next
  case (no_dir c cs ss n j ns)
  obtain res dj' fs' fl where st: "create_name (path_text (n # ns)) dj = (FR_OK, path_text ns, dj\<lparr>d_fn := seg_name n @ [fl]\<rparr>)"
    "dir_find v (dj\<lparr>d_fn := seg_name n @ [fl]\<rparr>, fs1) = Some (res, dj', fs')" "same_view D fs fs'" "d_fn dj' = seg_name n @ [fl]"
    "fl AND NS_LAST = 0" "res = FR_OK" "dir_pos fs cs ss j dj'" "win fs' = view D fs (ss ! (j div 16))"
    using path_step [OF d no_dir.prems(4), of dj cs ss n ns] no_dir.hyps no_dir.prems by auto
  have l: "length (seg_name n) = 11" using no_dir.prems by (simp add: seg_ok_def seg_name_def stored_name_length)
  note e = entry_found [OF st(3,7,8)]
  from st e(1) l no_dir.hyps(4) show ?case by (subst path_loop.simps) (simp add: NS_def nth_append path_result_def)
next
  case (down c cs ss n j ns r)
  obtain res dj' fs' fl where st: "create_name (path_text (n # ns)) dj = (FR_OK, path_text ns, dj\<lparr>d_fn := seg_name n @ [fl]\<rparr>)"
    "dir_find v (dj\<lparr>d_fn := seg_name n @ [fl]\<rparr>, fs1) = Some (res, dj', fs')" "same_view D fs fs'" "d_fn dj' = seg_name n @ [fl]"
    "fl AND NS_LAST = 0" "res = FR_OK" "dir_pos fs cs ss j dj'" "win fs' = view D fs (ss ! (j div 16))"
    using path_step [OF d down.prems(4), of dj cs ss n ns] down.hyps down.prems by auto
  have l: "length (seg_name n) = 11" using down.prems by (simp add: seg_ok_def seg_name_def stored_name_length)
  note e = entry_found [OF st(3,7,8)]
  let ?dj = "dj'\<lparr>d_sclust := LD_CLUST (dir_ent D fs ss j) 0\<rparr>"
  obtain res2 dj2 fs2 where "path_loop v (path_text ns) (?dj, fs') = Some (res2, dj2, fs2)" "path_result D fs r res2 dj2 fs2"
    using down.IH [of ?dj fs'] down.prems st(3,4) l by auto
  moreover have "path_loop v (path_text (n # ns)) (dj, fs1) = path_loop v (path_text ns) (?dj, fs')"
    using st e(1,2) l down.hyps(4) by (subst path_loop.simps) (simp add: NS_def nth_append)
  ultimately show ?case by auto
qed

end

text \<open>The whole path, from the root or from the current directory.\<close>

definition full_path :: "bool \<Rightarrow> seg list \<Rightarrow> u8 list" where
  "full_path ab ns = (if ab then [47] else []) @ path_text ns"

definition start_dir :: "bool \<Rightarrow> 'k FATFS \<Rightarrow> u32" where
  "start_dir ab fs = (if ab then 0 else cdir fs)"

lemma resolves_nonempty: "resolves D fs c ns r \<Longrightarrow> ns \<noteq> []"
  by (induction rule: resolves.induct) auto

lemma path_first:
  assumes "\<forall>n\<in>set ns. seg_ok n" "ns \<noteq> []"
  shows "\<exists>c p. path_text ns = c # p \<and> \<not> is_sep c \<and> c > 32"
proof -
  obtain ub ue ns' where n: "ns = (ub, ue) # ns'" "name_ok ub ue" using assms by (cases ns) (auto simp: seg_ok_def)
  obtain u us where "ub = u # us" "char_ok u" using n(2) by (cases ub) (auto simp: name_ok_def)
  then have "\<exists>c p. name_text ub ue = c # p \<and> \<not> is_sep c \<and> c > 32"
    by (auto simp: char_ok_def name_text_def plain_char_def dest: dbcs1_range)
  then show ?thesis using n(1) by (cases ns') auto
qed

lemma char_no_colon: "char_ok u \<Longrightarrow> 58 \<notin> set u"
  by (auto simp: char_ok_def plain_char_def bad_chars_def IsDBCS1_def IsDBCS2_def word_le_nat_alt)

lemma path_no_colon: "\<forall>n\<in>set ns. seg_ok n \<Longrightarrow> 58 \<notin> set (path_text ns)"
proof (induction ns rule: path_text.induct)
  case (2 ub ue)
  then show ?case using char_no_colon by (auto simp: seg_ok_def name_ok_def name_text_def)
next
  case (3 ub ue n ns)
  then show ?case using char_no_colon by (auto simp: seg_ok_def name_ok_def name_text_def)
qed simp

lemma drive_of_path: "\<forall>n\<in>set ns. seg_ok n \<Longrightarrow> drive_of cur (full_path ab ns) = (ucast cur, full_path ab ns)"
proof -
  assume "\<forall>n\<in>set ns. seg_ok n"
  from path_no_colon [OF this] have "58 \<notin> set (full_path ab ns)" by (auto simp: full_path_def)
  then have "str_at (full_path ab ns) 1 \<noteq> 58" by (auto simp: str_at_def) (metis nth_mem One_nat_def)
  then show ?thesis by (simp add: drive_of_def)
qed

text \<open>
  What opening makes of the place a path names, without creating or emptying a file: an error of
  the path is passed on; a directory is not a file, a file for writing must not be read-only; with
  a creating mode a directory or a read-only file is denied and \<open>FA_CREATE_NEW\<close> refuses a file that
  is there; otherwise the object describes the file of the entry.
\<close>

definition open_code :: "u8 \<Rightarrow> u8 list \<Rightarrow> FRESULT" where
  "open_code mode e =
     (if mode AND FA_CREATE \<noteq> 0 then
        (if e ! DIR_Attr AND (AM_RDO OR AM_DIR) \<noteq> 0 then FR_DENIED else if mode AND FA_CREATE_NEW \<noteq> 0 then FR_EXIST else FR_OK)
      else if e ! DIR_Attr AND AM_DIR \<noteq> 0 then FR_NO_FILE
      else if mode AND FA_WRITE \<noteq> 0 \<and> e ! DIR_Attr AND AM_RDO \<noteq> 0 then FR_DENIED else FR_OK)"

definition opened :: "'k store \<Rightarrow> 'k FATFS \<Rightarrow> u8 \<Rightarrow> FRESULT + u32 list \<times> nat \<Rightarrow> FRESULT \<Rightarrow> FIL \<Rightarrow> bool" where
  "opened D fs mode r res fp \<longleftrightarrow> (case r of
       Inl e \<Rightarrow> res = e \<and> \<not> f_fs fp
     | Inr (ss, j) \<Rightarrow> (let e = dir_ent D fs ss j in res = open_code mode e \<and> (f_fs fp \<longleftrightarrow> res = FR_OK) \<and>
         (res = FR_OK \<longrightarrow> f_id fp = fs_id fs \<and> f_flag fp = mode AND (FA_READ OR FA_WRITE OR FA_CREATE) \<and> f_fptr fp = 0 \<and> f_sclust fp = LD_CLUST e 0 \<and>
            f_fsize fp = LD_DWORD e DIR_FileSize \<and> f_dir_sect fp = ss ! (j div 16) \<and> f_dir_ptr fp = j mod 16 * SZ_DIR)))"

text \<open>
  The call makes no new file and empties none: the mode is not a creating one, or the file is not
  missing and is not to be overwritten.
\<close>

definition keeps_files :: "'k store \<Rightarrow> 'k FATFS \<Rightarrow> u8 \<Rightarrow> FRESULT + u32 list \<times> nat \<Rightarrow> bool" where
  "keeps_files D fs mode r \<longleftrightarrow> mode AND FA_CREATE = 0 \<or> (case r of
       Inl e \<Rightarrow> e \<noteq> FR_NO_FILE
     | Inr (ss, j) \<Rightarrow> mode AND FA_CREATE_ALWAYS = 0 \<or> open_code mode (dir_ent D fs ss j) \<noteq> FR_OK)"

lemma resolves_error: "resolves D fs c ns r \<Longrightarrow> r = Inl e \<Longrightarrow> e \<noteq> FR_OK"
  by (induction rule: resolves.induct) (auto split: if_splits)

lemma open_mode:
  fixes mode :: u8
  defines "m \<equiv> mode AND (FA_READ OR FA_WRITE OR FA_CREATE)"
  shows "mode AND (FA_READ OR FA_WRITE OR FA_CREATE_ALWAYS OR FA_OPEN_ALWAYS OR FA_CREATE_NEW) = m"
    "m AND FA_CREATE = mode AND FA_CREATE" "m AND FA_CREATE_ALWAYS = mode AND FA_CREATE_ALWAYS" "m AND FA_CREATE_NEW = mode AND FA_CREATE_NEW"
    "m AND FA_WRITE = mode AND FA_WRITE" "mode AND FA_CREATE = 0 \<Longrightarrow> mode AND FA_CREATE_ALWAYS = 0"
proof -
  have "(FA_READ OR FA_WRITE OR FA_CREATE) AND x = x" if "x \<in> {FA_CREATE, FA_CREATE_ALWAYS, FA_CREATE_NEW, FA_WRITE}" for x
    using that by (auto simp: FA_CREATE_def FA_READ_def FA_WRITE_def FA_CREATE_ALWAYS_def FA_OPEN_ALWAYS_def FA_CREATE_NEW_def)
  then show "m AND FA_CREATE = mode AND FA_CREATE" "m AND FA_CREATE_ALWAYS = mode AND FA_CREATE_ALWAYS" "m AND FA_CREATE_NEW = mode AND FA_CREATE_NEW"
    "m AND FA_WRITE = mode AND FA_WRITE" unfolding m_def by (simp_all add: and.assoc)
  show "mode AND (FA_READ OR FA_WRITE OR FA_CREATE_ALWAYS OR FA_OPEN_ALWAYS OR FA_CREATE_NEW) = m"
    by (simp add: m_def FA_CREATE_def or.assoc)
  have e: "FA_CREATE AND FA_CREATE_ALWAYS = FA_CREATE_ALWAYS" by (simp add: FA_CREATE_def FA_CREATE_ALWAYS_def FA_OPEN_ALWAYS_def FA_CREATE_NEW_def)
  assume "mode AND FA_CREATE = 0"
  then have "(mode AND FA_CREATE) AND FA_CREATE_ALWAYS = 0" by simp
  then show "mode AND FA_CREATE_ALWAYS = 0" by (simp only: and.assoc e)
qed

lemma keeps_files_read: "keeps_files D fs FA_READ r"
  by (simp add: keeps_files_def FA_READ_def FA_CREATE_def FA_CREATE_ALWAYS_def FA_OPEN_ALWAYS_def FA_CREATE_NEW_def)

text \<open>The entry at the end of a path, read out of the window.\<close>

lemma path_entry:
  assumes "d_dir dj = Some (j mod 16 * 32)" "win fs' = view D fs (ss ! (j div 16))" "length (win fs') = 512"
  shows "entry_byte dj fs' DIR_Attr = dir_ent D fs ss j ! DIR_Attr" "entry_at dj = j mod 16 * 32"
    "LD_CLUST (win fs') (j mod 16 * 32) = LD_CLUST (dir_ent D fs ss j) 0"
    "LD_DWORD (win fs') (j mod 16 * 32 + DIR_FileSize) = LD_DWORD (dir_ent D fs ss j) DIR_FileSize"
proof -
  show a: "entry_at dj = j mod 16 * 32" using assms(1) by (simp add: entry_at_def)
  have e: "dir_ent D fs ss j = take 32 (drop (j mod 16 * 32) (win fs'))" by (simp add: dir_ent_def assms(2))
  have "j mod 16 < 16" by simp
  then have b: "j mod 16 * 32 + 32 \<le> length (win fs')" using assms(3) by linarith
  show "entry_byte dj fs' DIR_Attr = dir_ent D fs ss j ! DIR_Attr" using b by (simp add: entry_byte_def a e DIR_Attr_def)
  show "LD_CLUST (win fs') (j mod 16 * 32) = LD_CLUST (dir_ent D fs ss j) 0"
    "LD_DWORD (win fs') (j mod 16 * 32 + DIR_FileSize) = LD_DWORD (dir_ent D fs ss j) DIR_FileSize"
    using LD_entry [OF e b] by simp_all
qed

context block_drive
begin

lemma follow_path_ok:
  assumes d: "data_inv D fs" and sv: "same_view D fs fs1" and n: "\<forall>n\<in>set ns. seg_ok n" and r: "resolves D fs (start_dir ab fs) ns r"
    and l: "length (d_fn dj) = 12"
  shows "\<exists>res dj' fs'. follow_path v (full_path ab ns) (dj, fs1) = Some (res, dj', fs') \<and> path_result D fs r res dj' fs'"
proof -
  obtain c p where t: "path_text ns = c # p" "\<not> is_sep c" "c > 32" using path_first [OF n resolves_nonempty [OF r]] by blast
  have cd: "cdir fs1 = cdir fs" using sv fsframe_fields(9) by (auto simp: same_view_def)
  let ?dj = "dj\<lparr>d_sclust := start_dir ab fs\<rparr>"
  obtain res dj' fs' where "path_loop v (path_text ns) (?dj, fs1) = Some (res, dj', fs')" "path_result D fs r res dj' fs'"
    using path_loop_ok [OF d r n, of ?dj fs1] l sv by auto
  moreover have "\<not> str_at (path_text ns) 0 < 32" using t by (simp add: str_at_def)
  ultimately show ?thesis using t cd by (auto simp: follow_path_def full_path_def start_dir_def str_at_def is_sep_def Let_def)
qed

lemma mounted_ok:
  assumes inv: "fat_inv D (ff_fs s)" and m: "ff_reg s" "drive_of (CurrVol s) path = (0, path')"
  shows "\<exists>fs'. chk_mounted v wp path rfs s = Some ((FR_OK, path', True), s\<lparr>ff_fs := fs'\<rparr>) \<and> same_view D (ff_fs s) fs'"
proof -
  have drv: "drv (ff_fs s) = 0" and ok: "st_ok D (media (ff_fs s))" and t: "fs_type (ff_fs s) \<noteq> FS_NONE"
    using inv by (simp_all add: fat_inv_def win_inv_def geometry_def)
  obtain k where k: "dk_status v 0 (media (ff_fs s)) = Some (0, k)" "st_ok D k" "st_sec D k = st_sec D (media (ff_fs s))"
    using is_ready [OF ok] by blast
  have "same_view D (ff_fs s) ((ff_fs s)\<lparr>media := k\<rparr>)"
    using inv k by (auto simp: same_view_def fs_frame_def fat_inv_def win_inv_def geometry_def in_mirror_def view_def)
  with k(1) drv t m show ?thesis by (auto simp: chk_mounted_def VOLUMES_def)
qed

lemma chk_mounted_ok:
  assumes "fat_inv D (ff_fs s)" "ff_reg s" "CurrVol s = 0" and n: "\<forall>n\<in>set ns. seg_ok n"
  shows "\<exists>fs'. chk_mounted v wp (full_path ab ns) rfs s = Some ((FR_OK, full_path ab ns, True), s\<lparr>ff_fs := fs'\<rparr>) \<and> same_view D (ff_fs s) fs'"
  using mounted_ok [OF assms(1,2)] assms(3) drive_of_path [OF n] by simp

text \<open>What opening makes of the entry \<open>e\<close>, found at position \<open>j\<close> of the table with the sectors \<open>ss\<close>.\<close>

lemma f_open_ok:
  assumes d: "data_inv D (ff_fs s)" and m: "ff_reg s" "CurrVol s = 0" and n: "\<forall>n\<in>set ns. seg_ok n"
    and r: "resolves D (ff_fs s) (start_dir ab (ff_fs s)) ns r" and l: "length (d_fn dj) = 12" and mode: "keeps_files D (ff_fs s) mode r"
  shows "\<exists>res fp' fs'. f_open v dj (full_path ab ns) mode (fp, s) = Some (res, fp', s\<lparr>ff_fs := fs'\<rparr>) \<and> same_view D (ff_fs s) fs' \<and>
    opened D (ff_fs s) mode r res fp'"
proof -
  have inv: "fat_inv D (ff_fs s)" using d by (simp add: data_inv_def)
  note mm = open_mode [of mode]
  let ?m = "mode AND (FA_READ OR FA_WRITE OR FA_CREATE)"
  obtain fs1 where c: "chk_mounted v (?m AND NOT FA_READ \<noteq> 0) (full_path ab ns) False s = Some ((FR_OK, full_path ab ns, True), s\<lparr>ff_fs := fs1\<rparr>)"
    "same_view D (ff_fs s) fs1" using chk_mounted_ok [OF inv m n] by blast
  obtain res dj' fs' where f: "follow_path v (full_path ab ns) (dj, fs1) = Some (res, dj', fs')" "path_result D (ff_fs s) r res dj' fs'"
    using follow_path_ok [OF d c(2) n r l] by blast
  have sv: "same_view D (ff_fs s) fs'" using f(2) by (simp add: path_result_def)
  have i: "fs_id fs' = fs_id (ff_fs s)" using sv fsframe_fields(5) by (auto simp: same_view_def)
  have "\<exists>res' fp'. f_open v dj (full_path ab ns) mode (fp, s) = Some (res', fp', s\<lparr>ff_fs := fs'\<rparr>) \<and> opened D (ff_fs s) mode r res' fp'"
  proof (cases r)
    case (Inl e)
    then have e: "res = e" "e \<noteq> FR_OK" "mode AND FA_CREATE = 0 \<or> e \<noteq> FR_NO_FILE"
      using f(2) resolves_error [OF r] mode by (auto simp: path_result_def keeps_files_def)
    then have "\<exists>m'. open_entry v ?m res (dj', fs') = Some ((e, m'), dj', fs')" using mm(2) by (auto simp: open_entry_def open_create_def Let_def)
    then show ?thesis using c(1) f(1) mm(1) e Inl by (auto simp: f_open_def Let_def opened_def)
  next
    case (Inr q)
    obtain ss j where q: "q = (ss, j)" by (cases q)
    have p: "res = FR_OK" "d_dir dj' = Some (j mod 16 * 32)" "winsect fs' = ss ! (j div 16)" "win fs' = view D (ff_fs s) (ss ! (j div 16))"
      using f(2) Inr q by (simp_all add: path_result_def)
    have len: "length (win fs') = 512" using sv by (simp add: same_view_def fat_inv_def win_inv_def)
    note e = path_entry [OF p(2,4) len]
    let ?c = "open_code mode (dir_ent D (ff_fs s) ss j)"
    have al: "?c = FR_OK \<Longrightarrow> mode AND FA_CREATE_ALWAYS = 0" using mode mm(6) Inr q by (auto simp: keeps_files_def)
    have "open_entry v ?m res (dj', fs') = Some ((?c, ?m), dj', fs')"
      using mm(2-5) e(1) p(1,2) al by (auto simp: open_entry_def open_create_def open_existing_def open_code_def Let_def)
    then show ?thesis using c(1) f(1) mm(1,3) al Inr q p e(2-4) i by (simp add: f_open_def Let_def opened_def SZ_DIR_def)
  qed
  then show ?thesis using sv by blast
qed

end

subsection \<open>The property\<close>


text \<open>The volume with the two clusters and an entry \<^verbatim>\<open>A.TXT\<close> of 700 bytes in its root directory.\<close>

definition ent_a :: "u8 list" where
  "ent_a = [65, 32, 32, 32, 32, 32, 32, 32, 84, 88, 84] @ replicate 15 0 @ [2, 0, 188, 2, 0, 0]"

definition vol_dir :: "(u32 \<Rightarrow> u8 list) FATFS" where
  "vol_dir = vol_ab\<lparr>media := (media vol_ab)(3 := ent_a @ replicate 480 0)\<rparr>"

definition ff_dir :: "(u32 \<Rightarrow> u8 list) ff" where
  "ff_dir = \<lparr>ff_reg = True, ff_fs = vol_dir, Fsid = 1, CurrVol = 0\<rparr>"

definition seg_a :: seg where
  "seg_a = ([[97]], [[116], [120], [116]])"

lemma vol_dir_inv: "data_inv ram_store vol_dir"
proof -
  have "fat_inv ram_store vol_dir"
    by (simp add: fat_inv_def win_inv_def geometry_def vol_dir_def vol_ab_def vol16_def ram_store_def sector16_def fat_bytes_def fat_trunc_def ent_a_def)
  moreover have "\<exists>j<8. csize vol_dir = 2 ^ j" by (rule exI [of _ 0]) (simp add: vol_dir_def vol_ab_def vol16_def)
  ultimately show ?thesis by (simp add: data_inv_def vol_dir_def vol_ab_def vol16_def ram_store_def)
qed

lemma vol_dir_on: "dir_on ram_store vol_dir 0 [] [3]"
  by (simp add: dir_on_def vol_dir_def vol_ab_def vol16_def ram_store_def in_mirror_def)

lemma vol_dir_ent: "dir_ent ram_store vol_dir [3] 0 = ent_a"
  by (simp add: dir_ent_def view_def vol_dir_def vol_ab_def vol16_def ram_store_def ent_a_def)

lemma seg_a_facts: "seg_ok seg_a" "seg_name seg_a = [65, 32, 32, 32, 32, 32, 32, 32, 84, 88, 84]" "full_path False [seg_a] = [97, 46, 116, 120, 116]"
proof -
  have "plain_char 97" "plain_char 116" "plain_char 120" by code_simp+
  then show "seg_ok seg_a" by (simp add: seg_ok_def seg_a_def name_ok_def char_ok_one)
  show "seg_name seg_a = [65, 32, 32, 32, 32, 32, 32, 32, 84, 88, 84]" by code_simp
  show "full_path False [seg_a] = [97, 46, 116, 120, 116]" by code_simp
qed

lemma ent_a_facts: "\<not> ent_end ent_a" "ent_names [65, 32, 32, 32, 32, 32, 32, 32, 84, 88, 84] ent_a" "open_code FA_READ ent_a = FR_OK"
  "LD_CLUST ent_a 0 = 2" "LD_DWORD ent_a DIR_FileSize = 700"
  by code_simp+

lemma vol_dir_resolves: "resolves ram_store vol_dir (start_dir False vol_dir) [seg_a] (Inr ([3], 0))"
proof -
  have "dir_scan ram_store vol_dir [3] (ent_names (seg_name seg_a)) 0 = Some 0"
    by (subst dir_scan_step) (simp add: vol_dir_ent seg_a_facts(2) ent_a_facts)
  then have "entry_of ram_store vol_dir [3] (seg_name seg_a) = Some 0" by (simp add: entry_of_def vol_dir_ent ent_a_facts)
  moreover have "start_dir False vol_dir = 0" by (simp add: start_dir_def vol_dir_def vol_ab_def vol16_def)
  ultimately show ?thesis using resolves.found [OF vol_dir_on] by simp
qed


end
