(* ===== verification/Dir_List.thy ===== *)
theory Dir_List
  imports File_Open
begin

text \<open>
  Listing a directory: \<open>f_readdir\<close> delivers the entries of a table one by one, without deleted
  entries and volume labels, up to the end mark.
\<close>

subsection \<open>The entries a listing shows\<close>

definition ents_from :: "'k store \<Rightarrow> 'k FATFS \<Rightarrow> u32 list \<Rightarrow> nat \<Rightarrow> u8 list list" where
  "ents_from D fs ss k = filter ent_shown (takeWhile (\<lambda>e. \<not> ent_end e) (map (dir_ent D fs ss) [k..<16 * length ss]))"

definition next_shown :: "'k store \<Rightarrow> 'k FATFS \<Rightarrow> u32 list \<Rightarrow> nat \<Rightarrow> nat option" where
  "next_shown D fs ss k = (case dir_scan D fs ss ent_shown k of None \<Rightarrow> None | Some j \<Rightarrow> if ent_end (dir_ent D fs ss j) then None else Some j)"

lemma ents_from_next:
  "ents_from D fs ss k = (case next_shown D fs ss k of None \<Rightarrow> [] | Some j \<Rightarrow> dir_ent D fs ss j # ents_from D fs ss (Suc j))"
proof (induction "16 * length ss - k" arbitrary: k rule: less_induct)
  case less
  show ?case
  proof (cases "k < 16 * length ss")
    case False
    then show ?thesis by (simp add: ents_from_def next_shown_def dir_scan_def)
  next
    case True
    then have e: "ents_from D fs ss k = (let e = dir_ent D fs ss k in if ent_end e then [] else if ent_shown e then e # ents_from D fs ss (Suc k) else ents_from D fs ss (Suc k))"
      by (simp add: ents_from_def upt_conv_Cons Let_def)
    consider "ent_end (dir_ent D fs ss k)" | "\<not> ent_end (dir_ent D fs ss k)" "ent_shown (dir_ent D fs ss k)"
      | "\<not> ent_end (dir_ent D fs ss k)" "\<not> ent_shown (dir_ent D fs ss k)" by blast
    then show ?thesis
    proof cases
      case 3
      then have "next_shown D fs ss k = next_shown D fs ss (Suc k)" using True unfolding next_shown_def by (subst dir_scan_step) simp
      with e 3 less.hyps [of "Suc k"] True show ?thesis by (simp add: Let_def)
    qed (use e True in \<open>simp_all add: next_shown_def dir_scan_step [of D fs ss _ k]\<close>)
  qed
qed

lemma same_view_list:
  assumes sv: "same_view D fs fs'" and d: "data_inv D fs" and o: "dir_on D fs c cs ss"
  shows "next_shown D fs' ss k = next_shown D fs ss k" "ents_from D fs' ss k = ents_from D fs ss k"
proof -
  have "dir_ent D fs' ss j = dir_ent D fs ss j" if "dir_scan D fs ss ent_shown k = Some j" for j
    using dir_scan_in [OF that] same_view_dir(2) [OF sv d o] by blast
  then show "next_shown D fs' ss k = next_shown D fs ss k"
    by (simp add: next_shown_def same_view_scan [OF sv d o] split: option.split)
  have "map (dir_ent D fs' ss) [k..<16 * length ss] = map (dir_ent D fs ss) [k..<16 * length ss]"
    using same_view_dir(2) [OF sv d o] by simp
  then show "ents_from D fs' ss k = ents_from D fs ss k" by (simp only: ents_from_def)
qed

definition ent_name :: "u8 list \<Rightarrow> u8 list" where
  "ent_name e = name_body e @ name_ext e"

definition ent_info :: "u8 list \<Rightarrow> finfo" where
  "ent_info e = \<lparr>i_fsize = LD_DWORD e DIR_FileSize, i_fdate = LD_WORD e DIR_WrtDate, i_ftime = LD_WORD e DIR_WrtTime,
     i_fattrib = e ! DIR_Attr, i_fname = ent_name e\<rparr>"

subsection \<open>Reading the next entry\<close>

text \<open>Before entry \<open>k\<close>; at the end of the table the object has no sector.\<close>

definition list_pos :: "'k FATFS \<Rightarrow> u32 list \<Rightarrow> u32 list \<Rightarrow> nat \<Rightarrow> DIR \<Rightarrow> bool" where
  "list_pos fs cs ss k dj \<longleftrightarrow> (if k < 16 * length ss then dir_pos fs cs ss k dj else d_sect dj = 0)"

context block_drive
begin

lemma dir_read_ok:
  assumes d: "data_inv D fs" and o: "dir_on D fs (d_sclust dj) cs ss" and p: "list_pos fs cs ss k dj"
  shows "\<exists>res dj' fs'. dir_read v (dj, fs) = Some (res, dj', fs') \<and> same_view D fs fs' \<and> dir_frame dj dj' \<and>
    (case next_shown D fs ss k of None \<Rightarrow> res = FR_NO_FILE \<and> d_sect dj' = 0
     | Some j \<Rightarrow> res = FR_OK \<and> dir_pos fs cs ss j dj' \<and> win fs' = view D fs (d_sect dj'))"
proof (cases "k < 16 * length ss")
  case False
  then have "next_shown D fs ss k = None" "d_sect dj = 0" using p by (simp_all add: next_shown_def dir_scan_def list_pos_def)
  then show ?thesis using same_view_refl d by (auto simp: dir_read_def data_inv_def dir_frame_def)
next
  case True
  then have k: "dir_pos fs cs ss k dj" using p by (simp add: list_pos_def)
  have "k div 16 < length ss" using True by (simp add: less_mult_imp_div_less mult.commute)
  from dir_sect_ok(3) [OF d o this] have nz: "d_sect dj \<noteq> 0" using k by (simp add: dir_pos_def)
  obtain res dj' fs' where l: "read_loop v (dj, fs) = Some (res, dj', fs')" "find_result D fs cs ss ent_shown k dj res dj' fs'"
    using read_loop_ok [OF d o k] by blast
  then show ?thesis using nz
    by (auto simp: dir_read_def find_result_def next_shown_def dir_frame_def split: option.splits if_splits)
qed

lemma next_info_ok:
  assumes d: "data_inv D fs" and o: "dir_on D fs (d_sclust dj) cs ss" and p: "list_pos fs cs ss k dj"
  shows "\<exists>i dj' fs'. next_info v fno (dj, fs) = Some ((FR_OK, i), dj', fs') \<and> same_view D fs fs' \<and> dir_frame dj dj' \<and>
    (case next_shown D fs ss k of None \<Rightarrow> i_fname i = [] | Some j \<Rightarrow> i = ent_info (dir_ent D fs ss j) \<and> list_pos fs cs ss (Suc j) dj')"
proof -
  obtain res dj1 fs1 where r: "dir_read v (dj, fs) = Some (res, dj1, fs1)" "same_view D fs fs1" "dir_frame dj dj1"
    "case next_shown D fs ss k of None \<Rightarrow> res = FR_NO_FILE \<and> d_sect dj1 = 0
     | Some j \<Rightarrow> res = FR_OK \<and> dir_pos fs cs ss j dj1 \<and> win fs1 = view D fs (d_sect dj1)"
    using dir_read_ok [OF d o p] by blast
  show ?thesis
  proof (cases "next_shown D fs ss k")
    case None
    then show ?thesis using r by (auto simp: next_info_def at_end_def get_fileinfo_def dir_next_def Let_def dir_frame_def)
  next
    case (Some j)
    then have j: "res = FR_OK" "dir_pos fs cs ss j dj1" "win fs1 = view D fs (d_sect dj1)" using r(4) by simp_all
    have jl: "j < 16 * length ss" "d_sect dj1 = ss ! (j div 16)" "entry_at dj1 = j mod 16 * 32" using j(2) by (simp_all add: dir_pos_def entry_at_def)
    have "j div 16 < length ss" using jl(1) by (simp add: less_mult_imp_div_less mult.commute)
    from dir_sect_ok(3) [OF d o this] have nz: "d_sect dj1 \<noteq> 0" using jl(2) by simp
    have "take 32 (drop (entry_at dj1) (win fs1)) = dir_ent D fs ss j" using j(3) jl by (simp add: dir_ent_def)
    then have info: "get_fileinfo (dj1, fs1) fno = ent_info (dir_ent D fs ss j)"
      using nz by (simp add: get_fileinfo_def Let_def ent_info_def ent_name_def)
    have o1: "dir_on D fs1 (d_sclust dj1) cs ss" using same_view_dir(1) [OF r(2) d o] r(3) by (simp add: dir_frame_def)
    have p1: "dir_pos fs1 cs ss j dj1" using same_view_dir(3) [OF r(2) d o] j(2) by simp
    obtain res2 dj2 fs2 where n: "dir_next v False (dj1, fs1) = Some (res2, dj2, fs2)" "same_view D fs1 fs2" "dir_frame dj1 dj2"
      "if Suc j < 16 * length ss then res2 = FR_OK \<and> dir_pos fs1 cs ss (Suc j) dj2 else res2 = FR_NO_FILE"
      using dir_next_ok [OF same_view_data [OF r(2) d] o1 p1] by blast
    show ?thesis
      using r(1) j(1) info n Some same_view_trans [OF r(2) n(2)] dir_frame_trans [OF r(3) n(3)] same_view_dir(3) [OF r(2) d o]
      by (auto simp: next_info_def at_end_def list_pos_def dir_frame_def split: if_splits)
  qed
qed

end

end
