(* ===== verification/Shell_Files.thy ===== *)
theory Shell_Files
  imports Bash Dir_List
begin

text \<open>
  The commands of the shell on the file system: the entry points of \<^verbatim>\<open>ff.h\<close> that \<^verbatim>\<open>bash.c\<close> calls, with
  the objects it passes them, and what the commands show of a volume.
\<close>

subsection \<open>The file system behind the commands\<close>

text \<open>The file, directory and information objects of \<^verbatim>\<open>bash.c\<close> and the volume.\<close>

record 'k bash_files =
  bash_Fil :: FIL
  bash_dir :: DIR
  bash_fno :: finfo
  bash_Fatfs :: "'k ff"

definition to_bytes :: "string \<Rightarrow> u8 list" where
  "to_bytes = map (\<lambda>c. of_nat (of_char c))"

definition of_bytes :: "u8 list \<Rightarrow> string" where
  "of_bytes = map (\<lambda>w. char_of (unat w))"

definition to_info :: "finfo \<Rightarrow> FILINFO" where
  "to_info i = FILINFO.make (i_fsize i) (i_fdate i) (i_ftime i) (i_fattrib i) (of_bytes (i_fname i))"

text \<open>
  The calls on drive \<open>v\<close>. \<open>dj\<close> and \<open>fno\<close> are the local objects of the called functions, with the
  contents they happen to have on the stack.
\<close>

definition ff_open :: "'k drive \<Rightarrow> DIR \<Rightarrow> string \<Rightarrow> u8 \<Rightarrow> 'k bash_files \<Rightarrow> (FRESULT \<times> 'k bash_files) option" where
  "ff_open v dj name mode b = do {
     (res, fp, s) \<leftarrow> Ff_File.f_open v dj (to_bytes name) mode (bash_Fil b, bash_Fatfs b);
     Some (res, b\<lparr>bash_Fil := fp, bash_Fatfs := s\<rparr>) }"

definition ff_read :: "'k drive \<Rightarrow> nat \<Rightarrow> 'k bash_files \<Rightarrow> (FRESULT \<times> u8 list \<times> 'k bash_files) option" where
  "ff_read v n b = do {
     ((res, bs), fp, s) \<leftarrow> Ff_File.f_read v (of_nat n) (bash_Fil b, bash_Fatfs b);
     Some (res, bs, b\<lparr>bash_Fil := fp, bash_Fatfs := s\<rparr>) }"

definition ff_close :: "'k drive \<Rightarrow> 'k bash_files \<Rightarrow> (FRESULT \<times> 'k bash_files) option" where
  "ff_close v b = do {
     (res, fp, s) \<leftarrow> Ff_File.f_close v (bash_Fil b, bash_Fatfs b);
     Some (res, b\<lparr>bash_Fil := fp, bash_Fatfs := s\<rparr>) }"

definition ff_opendir :: "'k drive \<Rightarrow> string \<Rightarrow> 'k bash_files \<Rightarrow> (FRESULT \<times> 'k bash_files) option" where
  "ff_opendir v name b = do {
     (res, dj, s) \<leftarrow> Ff_Api.f_opendir v (to_bytes name) (bash_dir b, bash_Fatfs b);
     Some (res, b\<lparr>bash_dir := dj, bash_Fatfs := s\<rparr>) }"

definition ff_readdir :: "'k drive \<Rightarrow> 'k bash_files \<Rightarrow> (FRESULT \<times> FILINFO \<times> 'k bash_files) option" where
  "ff_readdir v b = do {
     ((res, i), dj, s) \<leftarrow> Ff_Api.f_readdir v (Some (bash_fno b)) (bash_dir b, bash_Fatfs b);
     let i = (case i of None \<Rightarrow> bash_fno b | Some i \<Rightarrow> i);
     Some (res, to_info i, b\<lparr>bash_dir := dj, bash_fno := i, bash_Fatfs := s\<rparr>) }"

definition ff_rename :: "'k drive \<Rightarrow> DIR \<Rightarrow> string \<Rightarrow> string \<Rightarrow> 'k bash_files \<Rightarrow> (FRESULT \<times> 'k bash_files) option" where
  "ff_rename v dj old new b = do {
     (res, s) \<leftarrow> Ff_Api.f_rename v dj (to_bytes old) (to_bytes new) (bash_Fatfs b);
     Some (res, b\<lparr>bash_Fatfs := s\<rparr>) }"

definition ff_chdir :: "'k drive \<Rightarrow> DIR \<Rightarrow> string \<Rightarrow> 'k bash_files \<Rightarrow> (FRESULT \<times> 'k bash_files) option" where
  "ff_chdir v dj name b = do {
     (res, s) \<leftarrow> Ff_Api.f_chdir v dj (to_bytes name) (bash_Fatfs b);
     Some (res, b\<lparr>bash_Fatfs := s\<rparr>) }"

definition ff_getcwd :: "'k drive \<Rightarrow> DIR \<Rightarrow> finfo \<Rightarrow> nat \<Rightarrow> 'k bash_files \<Rightarrow> (FRESULT \<times> string \<times> 'k bash_files) option" where
  "ff_getcwd v dj fno n b = do {
     ((res, cwd), s) \<leftarrow> Ff_Api.f_getcwd v dj fno n (bash_Fatfs b);
     Some (res, of_bytes cwd, b\<lparr>bash_Fatfs := s\<rparr>) }"

definition ff_ops :: "'k drive \<Rightarrow> DIR \<Rightarrow> finfo \<Rightarrow> 'k bash_files fatfs" where
  "ff_ops v dj fno = fatfs.make (\<lambda>b. b\<lparr>bash_Fatfs := snd (Ff_Mount.f_mount 0 True (bash_Fatfs b))\<rparr>)
     (ff_open v dj) (ff_read v) (ff_close v) (ff_opendir v) (ff_readdir v) (ff_rename v dj) (ff_chdir v dj) (ff_getcwd v dj fno)"

lemma ff_ops_calls:
  "fatfs.f_open (ff_ops v dj fno) = ff_open v dj" "fatfs.f_read (ff_ops v dj fno) = ff_read v" "fatfs.f_close (ff_ops v dj fno) = ff_close v"
  "fatfs.f_readdir (ff_ops v dj fno) = ff_readdir v" "fatfs.f_opendir (ff_ops v dj fno) = ff_opendir v"
  "fatfs.f_getcwd (ff_ops v dj fno) = ff_getcwd v dj fno" "fatfs.f_chdir (ff_ops v dj fno) = ff_chdir v dj"
  by (simp_all add: ff_ops_def fatfs.defs)

subsection \<open>Showing a file\<close>

text \<open>The clusters of the file with entry \<open>e\<close>, and its bytes.\<close>

definition file_of :: "'k store \<Rightarrow> 'k FATFS \<Rightarrow> u8 list \<Rightarrow> u32 list \<Rightarrow> bool" where
  "file_of D fs e cs \<longleftrightarrow> (if cs = [] then LD_CLUST e 0 = 0 else is_chain (fat_of D fs) (n_fatent fs) cs \<and> cs ! 0 = LD_CLUST e 0) \<and>
     unat (LD_DWORD e DIR_FileSize) \<le> length cs * bcs_of fs"

definition file_bytes :: "'k store \<Rightarrow> 'k FATFS \<Rightarrow> u8 list \<Rightarrow> u32 list \<Rightarrow> u8 list" where
  "file_bytes D fs e cs = take (unat (LD_DWORD e DIR_FileSize)) (file_data D fs cs)"

text \<open>The volume and the file while it is being read.\<close>

definition reading :: "'k store \<Rightarrow> 'k ff \<Rightarrow> u8 list \<Rightarrow> u32 list \<Rightarrow> 'k bash_files \<Rightarrow> bool" where
  "reading D s e cs b \<longleftrightarrow> (\<exists>fs. bash_Fatfs b = s\<lparr>ff_fs := fs\<rparr> \<and> same_view D (ff_fs s) fs) \<and>
     file_at D (ff_fs s) cs (bash_Fil b) \<and> f_fs (bash_Fil b) \<and> f_id (bash_Fil b) = fs_id (ff_fs s) \<and> f_flag (bash_Fil b) = FA_READ \<and>
     f_fsize (bash_Fil b) = LD_DWORD e DIR_FileSize \<and> unat (f_fptr (bash_Fil b)) \<le> unat (f_fsize (bash_Fil b))"

definition unread :: "'k store \<Rightarrow> 'k ff \<Rightarrow> u8 list \<Rightarrow> u32 list \<Rightarrow> 'k bash_files \<Rightarrow> u8 list" where
  "unread D s e cs b = drop (unat (f_fptr (bash_Fil b))) (file_bytes D (ff_fs s) e cs)"

context block_drive
begin

lemma ff_read_next:
  assumes d: "data_inv D (ff_fs s)" and r: "reading D s e cs b" and n: "n < 2 ^ 32"
  shows "\<exists>w. ff_read v n b = Some (FR_OK, take n (unread D s e cs b), w) \<and> reading D s e cs w \<and> unread D s e cs w = drop n (unread D s e cs b)"
proof -
  let ?fp = "bash_Fil b" let ?p = "unat (f_fptr ?fp)" let ?l = "unat (f_fsize ?fp)"
  obtain fs where fs: "bash_Fatfs b = s\<lparr>ff_fs := fs\<rparr>" "same_view D (ff_fs s) fs" using r by (auto simp: reading_def)
  have f: "file_at D (ff_fs s) cs ?fp" "f_fs ?fp" "f_id ?fp = fs_id (ff_fs s)" "f_flag ?fp = FA_READ" "f_fsize ?fp = LD_DWORD e DIR_FileSize" "?p \<le> ?l"
    using r unfolding reading_def by blast+
  have i: "fs_id fs = fs_id (ff_fs s)" using fs(2) fsframe_fields(5) by (auto simp: same_view_def)
  have d': "data_inv D fs" by (rule same_view_data [OF fs(2) d])
  have f': "file_at D fs cs ?fp" using f(1) same_view_file(1) [OF fs(2) d] by simp
  have data: "file_data D fs cs = file_data D (ff_fs s) cs"
    by (rule same_view_file(2) [OF fs(2) d]) (use file_at_in_vol [OF f(1)] in blast)
  let ?m = "min n (?l - ?p)"
  have u: "unat (of_nat n :: u32) = n" using n by (simp add: unat_of_nat)
  obtain fp' fs' where g: "Ff_File.f_read v (of_nat n) (?fp, s\<lparr>ff_fs := fs\<rparr>) =
      Some ((FR_OK, take ?m (drop ?p (file_data D (ff_fs s) cs))), fp', s\<lparr>ff_fs := fs'\<rparr>)"
    "same_view D fs fs'" "file_at D fs cs fp'" "unat (f_fptr fp') = ?p + ?m"
    "fp' = ?fp\<lparr>f_fptr := f_fptr fp', f_clust := f_clust fp', f_dsect := f_dsect fp'\<rparr>"
    using f_read_ok [of "s\<lparr>ff_fs := fs\<rparr>" cs ?fp ?m "of_nat n"] d' f' f(2-4,6) i data u by (auto simp: FA_READ_def FA__ERROR_def)
  have keep: "f_fs fp' = f_fs ?fp" "f_id fp' = f_id ?fp" "f_flag fp' = f_flag ?fp" "f_fsize fp' = f_fsize ?fp"
    by (subst g(5), simp)+
  let ?w = "b\<lparr>bash_Fil := fp', bash_Fatfs := s\<lparr>ff_fs := fs'\<rparr>\<rparr>"
  have "reading D s e cs ?w"
    using same_view_trans [OF fs(2) g(2)] g(3,4) keep f same_view_file(1) [OF fs(2) d] by (auto simp: reading_def)
  moreover have "take ?m (drop ?p (file_data D (ff_fs s) cs)) = take n (unread D s e cs b)"
    using f(5) by (simp add: unread_def file_bytes_def drop_take)
  moreover have "unread D s e cs ?w = drop n (unread D s e cs b)"
    using g(4) f(5,6) by (cases "n \<le> ?l - ?p") (simp_all add: unread_def file_bytes_def add.commute)
  ultimately show ?thesis using g(1) fs(1) by (simp add: ff_read_def)
qed

lemma ff_close_ok:
  assumes d: "data_inv D (ff_fs s)" and r: "reading D s e cs b"
  shows "\<exists>w fs. ff_close v b = Some (FR_OK, w) \<and> bash_Fatfs w = s\<lparr>ff_fs := fs\<rparr> \<and> same_view D (ff_fs s) fs"
proof -
  obtain fs where fs: "bash_Fatfs b = s\<lparr>ff_fs := fs\<rparr>" "same_view D (ff_fs s) fs" using r by (auto simp: reading_def)
  have f: "f_fs (bash_Fil b)" "f_id (bash_Fil b) = fs_id fs" "f_flag (bash_Fil b) = FA_READ"
    using r fs(2) fsframe_fields(5) [of "ff_fs s" fs] by (simp_all add: reading_def same_view_def)
  have "fat_inv D fs" using fs(2) by (simp add: same_view_def)
  from validate_ok [OF this f(1,2)] obtain fs' where "validate v (f_fs (bash_Fil b)) (f_id (bash_Fil b)) fs = Some (FR_OK, fs')" "same_view D fs fs'" by blast
  with fs f(3) same_view_trans [OF fs(2)] show ?thesis
    by (auto simp: ff_close_def Ff_File.f_close_def f_sync_def FA_READ_def FA__WRITTEN_def)
qed

lemma ff_open_file:
  assumes d: "data_inv D (ff_fs s)" and m: "ff_reg s" "CurrVol s = 0" "bash_Fatfs b = s" and n: "\<forall>n\<in>set ns. seg_ok n"
    and r: "resolves D (ff_fs s) (start_dir ab (ff_fs s)) ns (Inr (ss, j))" and l: "length (d_fn dj) = 12" and name: "to_bytes name = full_path ab ns"
    and e: "e = dir_ent D (ff_fs s) ss j" "e ! DIR_Attr AND AM_DIR = 0" and f: "file_of D (ff_fs s) e cs"
  shows "\<exists>w. ff_open v dj name FA_READ b = Some (FR_OK, w) \<and> reading D s e cs w \<and> unread D s e cs w = file_bytes D (ff_fs s) e cs"
proof -
  have mode: "FA_READ AND FA_CREATE = 0" "FA_READ AND (FA_READ OR FA_WRITE OR FA_CREATE) = FA_READ" "FA_READ AND FA_WRITE = 0"
    by (simp_all add: FA_CREATE_def FA_READ_def FA_WRITE_def FA_CREATE_ALWAYS_def FA_OPEN_ALWAYS_def FA_CREATE_NEW_def)
  obtain res fp' fs' where o: "Ff_File.f_open v dj (full_path ab ns) FA_READ (bash_Fil b, s) = Some (res, fp', s\<lparr>ff_fs := fs'\<rparr>)"
    "same_view D (ff_fs s) fs'" "opened D (ff_fs s) FA_READ (Inr (ss, j)) res fp'"
    using f_open_ok [OF d m(1,2) n r l keeps_files_read, of "bash_Fil b"] by blast
  have "open_code FA_READ e = FR_OK" using e(2) mode(1,3) by (simp add: open_code_def)
  then have p: "res = FR_OK" "f_fs fp'" "f_id fp' = fs_id (ff_fs s)" "f_flag fp' = FA_READ" "f_fptr fp' = 0" "f_sclust fp' = LD_CLUST e 0"
    "f_fsize fp' = LD_DWORD e DIR_FileSize"
    using o(3) e(1) mode(2) by (simp_all add: opened_def Let_def)
  have "file_at D (ff_fs s) cs fp'" using f p by (simp add: file_at_def file_of_def)
  with o m(3) name p show ?thesis by (auto simp: ff_open_def reading_def unread_def)
qed

end

text \<open>
  C9: Showing a file of the card. On a mounted volume of a drive that keeps sectors, \<open>cat\<close> with the
  path of a file, absolute or from the current directory, comes back and has printed exactly the
  bytes of the file, in order and up to its length, whatever the number of blocks, clusters and
  directories on the way; no error is reported and nothing on the volume changes.
\<close>

theorem cat_shows_file:
  assumes v: "block_drive v D" and S: "bash_Fatfs (vol (usr s)) = S" and d: "data_inv D (ff_fs S)" and m: "ff_reg S" "CurrVol S = 0"
    and name: "to_bytes name = full_path ab ns" "\<forall>n\<in>set ns. seg_ok n" "\<not> is_help name"
    and r: "resolves D (ff_fs S) (start_dir ab (ff_fs S)) ns (Inr (ss, j))" and l: "length (d_fn dj) = 12"
    and e: "e = dir_ent D (ff_fs S) ss j" "e ! DIR_Attr AND AM_DIR = 0" and f: "file_of D (ff_fs S) e cs"
  shows "\<exists>s' fs'. cmd_cat (ff_ops v dj fno) [name] s = Inr s' \<and> bash_rc (usr s') = FR_OK \<and>
    outp s' = outp s @ show_text (file_bytes D (ff_fs S) e cs) \<and> bash_Fatfs (vol (usr s')) = S\<lparr>ff_fs := fs'\<rparr> \<and>
    (\<forall>x. \<not> in_mirror (ff_fs S) x \<longrightarrow> view D fs' x = view D (ff_fs S) x)"
proof -
  let ?F = "ff_ops v dj fno"
  obtain w where o: "ff_open v dj name FA_READ (vol (usr s)) = Some (FR_OK, w)" "reading D S e cs w" "unread D S e cs w = file_bytes D (ff_fs S) e cs"
    using block_drive.ff_open_file [OF v d m S name(2) r l name(1) e f] by blast
  have rd: "\<And>b. reading D S e cs b \<Longrightarrow> \<exists>w. fatfs.f_read ?F BASH_BUFF_SIZE b = Some (FR_OK, take BASH_BUFF_SIZE (unread D S e cs b), w) \<and>
      reading D S e cs w \<and> unread D S e cs w = drop BASH_BUFF_SIZE (unread D S e cs b)"
    unfolding ff_ops_calls by (rule block_drive.ff_read_next [OF v d]) (simp_all add: BASH_BUFF_SIZE_def)
  obtain w' where c: "cat_loop ?F show_text w [] = Some (FR_OK, w', show_text (file_bytes D (ff_fs S) e cs))" "reading D S e cs w'"
    using cat_loop_reads [where good = "reading D S e cs" and F = ?F and rest = "unread D S e cs", OF rd show_text_parts o(2), of "[]"] o(3) by auto
  obtain w2 fs2 where x: "ff_close v w' = Some (FR_OK, w2)" "bash_Fatfs w2 = S\<lparr>ff_fs := fs2\<rparr>" "same_view D (ff_fs S) fs2"
    using block_drive.ff_close_ok [OF v d c(2)] by blast
  show ?thesis
    using o(1) c(1) x name(3)
    by (auto simp: cmd_cat_def cat_file_def on_vol_def ff_ops_calls set_rc_def report_def print_def blocks_def same_view_def)
qed

text \<open>The shell on the volume with the file \<^verbatim>\<open>A.TXT\<close>.\<close>

definition shell_ab :: "((u32 \<Rightarrow> u8 list) bash_files, unit) bash_st shell_st" where
  "shell_ab = \<lparr>inp = [], outp = [], line = [], slept = 0,
     usr = \<lparr>vol = \<lparr>bash_Fil = fil_ab, bash_dir = dir_log, bash_fno = file_info0, bash_Fatfs = ff_dir\<rparr>, hw = (), bash_rc = FR_OK,
       current_acid = None, current_acid_str = []\<rparr>\<rparr>"

lemma vol_dir_data: "file_data ram_store vol_dir [2, 3] = replicate 512 65 @ replicate 512 66"
  unfolding vol_ab_data [symmetric]
  by (simp add: file_data_def file_sects_def clust_sects_def clust2sect_def view_def vol_dir_def vol_ab_def vol16_def ram_store_def)

lemma vol_dir_file: "file_of ram_store vol_dir ent_a [2, 3]"
proof -
  have "view ram_store vol_dir 1 = sector16" by (simp add: view_def vol_dir_def vol_ab_def vol16_def ram_store_def)
  then have "fat_of ram_store vol_dir 2 = 3" "fat_of ram_store vol_dir 3 = 0xffff"
    by (simp_all add: fat_of_def fat_entry_def vol_dir_def vol_ab_def vol16_def fat_byte_def fat_sect_def view_def ram_store_def sector16_def)
  then show ?thesis by (simp add: file_of_def ent_a_facts bcs_of_def) (simp add: vol_dir_def vol_ab_def vol16_def)
qed

theorem cat_shows_file_witness:
  "\<exists>s'. cmd_cat (ff_ops ram_drive dir_log file_info0) [''a.txt''] shell_ab = Inr s' \<and> outp s' = replicate 512 (CHR ''A'') @ replicate 188 (CHR ''B'')"
proof -
  have n: "to_bytes ''a.txt'' = full_path False [seg_a]" "\<not> is_help ''a.txt''" unfolding seg_a_facts by code_simp+
  have a: "ent_a ! DIR_Attr AND AM_DIR = 0" by code_simp
  have b: "show_text (file_bytes ram_store vol_dir ent_a [2, 3]) = replicate 512 (CHR ''A'') @ replicate 188 (CHR ''B'')"
    by (simp add: file_bytes_def ent_a_facts vol_dir_data show_text_def) code_simp
  have "\<exists>s' fs'. cmd_cat (ff_ops ram_drive dir_log file_info0) [''a.txt''] shell_ab = Inr s' \<and> bash_rc (usr s') = FR_OK \<and>
    outp s' = outp shell_ab @ show_text (file_bytes ram_store (ff_fs ff_dir) ent_a [2, 3]) \<and> bash_Fatfs (vol (usr s')) = ff_dir\<lparr>ff_fs := fs'\<rparr> \<and>
    (\<forall>x. \<not> in_mirror (ff_fs ff_dir) x \<longrightarrow> view ram_store fs' x = view ram_store (ff_fs ff_dir) x)"
    by (rule cat_shows_file [OF ram.block_drive_axioms, where ss = "[3]" and j = 0 and ns = "[seg_a]" and ab = False])
      (simp_all add: n seg_a_facts(1) ff_dir_def vol_dir_inv vol_dir_resolves vol_dir_ent vol_dir_file a, simp_all add: shell_ab_def ff_dir_def dir_log_def)
  then show ?thesis using b by (auto simp: ff_dir_def shell_ab_def)
qed

text \<open>
  C26: A path that names no file. \<open>cat\<close> reports which part is missing, then goes on reading from and
  closing the file object, which is invalid, and reports that twice; it comes back and the volume
  is as before.
\<close>

theorem cat_missing_file:
  assumes v: "block_drive v D" and S: "bash_Fatfs (vol (usr s)) = S" and d: "data_inv D (ff_fs S)" and m: "ff_reg S" "CurrVol S = 0"
    and name: "to_bytes name = full_path ab ns" "\<forall>n\<in>set ns. seg_ok n" "\<not> is_help name"
    and r: "resolves D (ff_fs S) (start_dir ab (ff_fs S)) ns (Inl e)" and l: "length (d_fn dj) = 12"
  shows "\<exists>s' fs'. cmd_cat (ff_ops v dj fno) [name] s = Inr s' \<and> bash_rc (usr s') = FR_INVALID_OBJECT \<and>
    outp s' = outp s @ decode_fres e @ CRLF @ decode_fres FR_INVALID_OBJECT @ CRLF @ decode_fres FR_INVALID_OBJECT @ CRLF \<and>
    bash_Fatfs (vol (usr s')) = S\<lparr>ff_fs := fs'\<rparr> \<and> (\<forall>x. \<not> in_mirror (ff_fs S) x \<longrightarrow> view D fs' x = view D (ff_fs S) x)"
proof -
  let ?b = "vol (usr s)"
  obtain res fp' fs' where o: "Ff_File.f_open v dj (full_path ab ns) FA_READ (bash_Fil ?b, S) = Some (res, fp', S\<lparr>ff_fs := fs'\<rparr>)"
    "same_view D (ff_fs S) fs'" "res = e" "\<not> f_fs fp'"
    using block_drive.f_open_ok [OF v d m name(2) r l keeps_files_read, of "bash_Fil ?b"] by (auto simp: opened_def)
  have e: "e \<noteq> FR_OK" using resolves_error [OF r] by simp
  have rd: "Ff_File.f_read v n (fp', S\<lparr>ff_fs := fs'\<rparr>) = Some ((FR_INVALID_OBJECT, []), fp', S\<lparr>ff_fs := fs'\<rparr>)" for n
    using o(4) by (simp add: Ff_File.f_read_def validate_def)
  have cl: "Ff_File.f_close v (fp', S\<lparr>ff_fs := fs'\<rparr>) = Some (FR_INVALID_OBJECT, fp', S\<lparr>ff_fs := fs'\<rparr>)"
    using o(4) by (simp add: Ff_File.f_close_def f_sync_def validate_def)
  have lp: "cat_loop (ff_ops v dj fno) show_text (?b\<lparr>bash_Fil := fp', bash_Fatfs := S\<lparr>ff_fs := fs'\<rparr>\<rparr>) [] =
      Some (FR_INVALID_OBJECT, ?b\<lparr>bash_Fil := fp', bash_Fatfs := S\<lparr>ff_fs := fs'\<rparr>\<rparr>, [])"
    using rd by (subst cat_loop.simps) (simp add: ff_ops_calls ff_read_def)
  show ?thesis
    using o(1-3) e cl lp name S
    by (auto simp: cmd_cat_def cat_file_def on_vol_def ff_ops_calls ff_open_def ff_close_def set_rc_def report_def print_def blocks_def same_view_def)
qed

text \<open>The name \<^verbatim>\<open>x.txt\<close> is not in that directory.\<close>

theorem cat_missing_file_witness:
  "\<exists>s'. cmd_cat (ff_ops ram_drive dir_log file_info0) [''x.txt''] shell_ab = Inr s' \<and> bash_rc (usr s') = FR_INVALID_OBJECT"
proof -
  let ?n = "([[120]], [[116], [120], [116]]) :: seg"
  have n: "to_bytes ''x.txt'' = full_path False [?n]" "\<not> is_help ''x.txt''" by code_simp+
  have "plain_char 116" "plain_char 120" by code_simp+
  then have k: "seg_ok ?n" by (simp add: seg_ok_def name_ok_def char_ok_one)
  have e1: "ent_end (dir_ent ram_store vol_dir [3] (Suc 0))"
    by (simp add: dir_ent_def view_def vol_dir_def vol_ab_def vol16_def ram_store_def ent_a_def ent_end_def)
  have "\<not> ent_names (seg_name ?n) ent_a" by code_simp
  then have "dir_scan ram_store vol_dir [3] (ent_names (seg_name ?n)) 0 = Some 1"
    using e1 by (subst dir_scan_step, subst dir_scan_step) (simp add: vol_dir_ent ent_a_facts)
  then have "entry_of ram_store vol_dir [3] (seg_name ?n) = None" using e1 by (simp add: entry_of_def)
  from resolves.missing [OF vol_dir_on this, of "[]"] have r: "resolves ram_store vol_dir (start_dir False vol_dir) [?n] (Inl FR_NO_FILE)"
    by (simp add: start_dir_def vol_dir_def vol_ab_def vol16_def)
  have "\<exists>s' fs'. cmd_cat (ff_ops ram_drive dir_log file_info0) [''x.txt''] shell_ab = Inr s' \<and> bash_rc (usr s') = FR_INVALID_OBJECT \<and>
    outp s' = outp shell_ab @ decode_fres FR_NO_FILE @ CRLF @ decode_fres FR_INVALID_OBJECT @ CRLF @ decode_fres FR_INVALID_OBJECT @ CRLF \<and>
    bash_Fatfs (vol (usr s')) = ff_dir\<lparr>ff_fs := fs'\<rparr> \<and> (\<forall>x. \<not> in_mirror (ff_fs ff_dir) x \<longrightarrow> view ram_store fs' x = view ram_store (ff_fs ff_dir) x)"
    by (rule cat_missing_file [OF ram.block_drive_axioms, where ns = "[?n]" and ab = False])
      (simp_all add: n k ff_dir_def vol_dir_inv r, simp_all add: shell_ab_def ff_dir_def dir_log_def)
  then show ?thesis by blast
qed

subsection \<open>Listing the root directory\<close>

definition list_text :: "u8 list list \<Rightarrow> string" where
  "list_text es = concat (map (\<lambda>e. dir_entry (to_info (ent_info e))) (takeWhile (\<lambda>e. ent_name e \<noteq> []) es))"

definition listing :: "'k store \<Rightarrow> 'k ff \<Rightarrow> u32 list \<Rightarrow> u32 list \<Rightarrow> nat \<Rightarrow> 'k bash_files \<Rightarrow> bool" where
  "listing D S cs ss k b \<longleftrightarrow> (\<exists>fs. bash_Fatfs b = S\<lparr>ff_fs := fs\<rparr> \<and> same_view D (ff_fs S) fs) \<and> d_fs (bash_dir b) \<and> d_id (bash_dir b) = fs_id (ff_fs S) \<and>
     dir_on D (ff_fs S) (d_sclust (bash_dir b)) cs ss \<and> list_pos (ff_fs S) cs ss k (bash_dir b)"

context block_drive
begin

lemma ff_readdir_next:
  assumes d: "data_inv D (ff_fs S)" and r: "listing D S cs ss k b"
  shows "\<exists>i w fs. ff_readdir v b = Some (FR_OK, to_info i, w) \<and> bash_Fatfs w = S\<lparr>ff_fs := fs\<rparr> \<and> same_view D (ff_fs S) fs \<and>
    (case next_shown D (ff_fs S) ss k of None \<Rightarrow> i_fname i = [] | Some j \<Rightarrow> i = ent_info (dir_ent D (ff_fs S) ss j) \<and> listing D S cs ss (Suc j) w)"
proof -
  let ?dj = "bash_dir b"
  obtain fs where fs: "bash_Fatfs b = S\<lparr>ff_fs := fs\<rparr>" "same_view D (ff_fs S) fs" using r by (auto simp: listing_def)
  have g: "d_fs ?dj" "d_id ?dj = fs_id fs" "d_id ?dj = fs_id (ff_fs S)" and o: "dir_on D (ff_fs S) (d_sclust ?dj) cs ss" and p: "list_pos (ff_fs S) cs ss k ?dj"
    using r fs(2) fsframe_fields(5) [of "ff_fs S" fs] by (auto simp: listing_def same_view_def)
  have "fat_inv D fs" using fs(2) by (simp add: same_view_def)
  from validate_ok [OF this g(1,2)] obtain fs1 where vl: "validate v (d_fs ?dj) (d_id ?dj) fs = Some (FR_OK, fs1)" "same_view D fs fs1" by blast
  note sv = same_view_trans [OF fs(2) vl(2)]
  note d1 = same_view_data [OF sv d] and o1 = same_view_dir(1) [OF sv d o]
  have lp: "list_pos fs1 cs ss k x = list_pos (ff_fs S) cs ss k x" for x k using same_view_dir(3) [OF sv d o] by (simp add: list_pos_def)
  obtain i dj' fs2 where n: "next_info v (bash_fno b) (?dj, fs1) = Some ((FR_OK, i), dj', fs2)" "same_view D fs1 fs2" "dir_frame ?dj dj'"
    "case next_shown D fs1 ss k of None \<Rightarrow> i_fname i = [] | Some j \<Rightarrow> i = ent_info (dir_ent D fs1 ss j) \<and> list_pos fs1 cs ss (Suc j) dj'"
    using next_info_ok [OF d1 o1, of k "bash_fno b"] p lp by blast
  note sv2 = same_view_trans [OF sv n(2)] and fr = n(3) [unfolded dir_frame_def]
  let ?w = "b\<lparr>bash_dir := dj', bash_fno := i, bash_Fatfs := S\<lparr>ff_fs := fs2\<rparr>\<rparr>"
  have call: "ff_readdir v b = Some (FR_OK, to_info i, ?w)" using fs(1) vl(1) n(1) by (simp add: ff_readdir_def Ff_Api.f_readdir_def)
  have "case next_shown D (ff_fs S) ss k of None \<Rightarrow> i_fname i = [] | Some j \<Rightarrow> i = ent_info (dir_ent D (ff_fs S) ss j) \<and> listing D S cs ss (Suc j) ?w"
  proof (cases "next_shown D (ff_fs S) ss k")
    case None
    then show ?thesis using n(4) same_view_list(1) [OF sv d o] by simp
  next
    case (Some j)
    then have "j < 16 * length ss" using dir_scan_in [of D "ff_fs S" ss ent_shown k j] by (auto simp: next_shown_def split: option.splits if_splits)
    then have "dir_ent D fs1 ss j = dir_ent D (ff_fs S) ss j" by (rule same_view_dir(2) [OF sv d o])
    then show ?thesis using Some n(4) same_view_list(1) [OF sv d o] lp fr g o sv2 by (auto simp: listing_def)
  qed
  with call sv2 show ?thesis by (intro exI [of _ i] exI [of _ ?w] exI [of _ fs2]) simp
qed

lemma ll_loop_lists:
  assumes d: "data_inv D (ff_fs S)"
  shows "listing D S cs ss k b \<Longrightarrow> \<exists>w fs. ll_loop (ff_ops v dj fno) b out = Some (FR_OK, w, out @ list_text (ents_from D (ff_fs S) ss k)) \<and>
    bash_Fatfs w = S\<lparr>ff_fs := fs\<rparr> \<and> same_view D (ff_fs S) fs"
proof (induction "length (ents_from D (ff_fs S) ss k)" arbitrary: k b out rule: less_induct)
  case less
  obtain i w fs where n: "ff_readdir v b = Some (FR_OK, to_info i, w)" "bash_Fatfs w = S\<lparr>ff_fs := fs\<rparr>" "same_view D (ff_fs S) fs"
    "case next_shown D (ff_fs S) ss k of None \<Rightarrow> i_fname i = [] | Some j \<Rightarrow> i = ent_info (dir_ent D (ff_fs S) ss j) \<and> listing D S cs ss (Suc j) w"
    using ff_readdir_next [OF d less.prems] by blast
  have nm: "fname (to_info i) = [] \<longleftrightarrow> i_fname i = []" by (simp add: to_info_def FILINFO.defs of_bytes_def)
  show ?case
  proof (cases "next_shown D (ff_fs S) ss k")
    case None
    then have "ents_from D (ff_fs S) ss k = []" by (subst ents_from_next) simp
    with None n nm show ?thesis by (subst ll_loop.simps) (auto simp: ff_ops_calls list_text_def)
  next
    case (Some j)
    let ?e = "dir_ent D (ff_fs S) ss j"
    have e: "ents_from D (ff_fs S) ss k = ?e # ents_from D (ff_fs S) ss (Suc j)" using Some by (subst ents_from_next) simp
    have i: "i = ent_info ?e" "listing D S cs ss (Suc j) w" using n(4) Some by simp_all
    then have "i_fname i = ent_name ?e" by (simp add: ent_info_def)
    with less.hyps [OF _ i(2), of "out @ dir_entry (to_info i)"] e i(1) n nm show ?thesis
      by (subst ll_loop.simps) (auto simp: ff_ops_calls list_text_def)
  qed
qed

text \<open>In the root directory the path is \<^verbatim>\<open>0:/\<close>.\<close>

lemma getcwd_root:
  assumes d: "data_inv D (ff_fs S)" and m: "ff_reg S" "CurrVol S = 0" "cdir (ff_fs S) = 0" "bash_Fatfs b = S"
  shows "\<exists>fs. ff_getcwd v dj fno n b = Some (FR_OK, ''0:/'', b\<lparr>bash_Fatfs := S\<lparr>ff_fs := fs\<rparr>\<rparr>) \<and> same_view D (ff_fs S) fs"
proof -
  have inv: "fat_inv D (ff_fs S)" using d by (simp add: data_inv_def)
  have "drive_of (CurrVol S) [] = (0, [])" using m by (simp add: drive_of_def str_at_def)
  from mounted_ok [OF inv m(1) this] obtain fs where c: "chk_mounted v False [] (d_fs dj) S = Some ((FR_OK, [], True), S\<lparr>ff_fs := fs\<rparr>)" "same_view D (ff_fs S) fs"
    by blast
  have "cdir fs = 0" using c(2) m(3) fsframe_fields(9) [of "ff_fs S" fs] by (simp add: same_view_def)
  moreover have "of_bytes [48, 58, 47] = ''0:/''" by code_simp
  ultimately show ?thesis using c m by (simp add: ff_getcwd_def Ff_Api.f_getcwd_def) (subst cwd_loop.simps, auto)
qed

lemma opendir_root:
  assumes d: "data_inv D (ff_fs S)" and m: "ff_reg S" "bash_Fatfs b = S\<lparr>ff_fs := fs\<rparr>" and sv: "same_view D (ff_fs S) fs" and o: "dir_on D (ff_fs S) 0 cs ss"
  shows "\<exists>w. ff_opendir v ''0:/'' b = Some (FR_OK, w) \<and> listing D S cs ss 0 w"
proof -
  have p: "to_bytes ''0:/'' = [48, 58, 47]" by code_simp
  have dr: "drive_of c [48, 58, 47] = (0, [47])" for c by (simp add: drive_of_def str_at_def)
  obtain fs1 where c: "chk_mounted v False [48, 58, 47] (d_fs (bash_dir b)) (S\<lparr>ff_fs := fs\<rparr>) = Some ((FR_OK, [47], True), S\<lparr>ff_fs := fs1\<rparr>)" "same_view D fs fs1"
    using mounted_ok [of "S\<lparr>ff_fs := fs\<rparr>" "[48, 58, 47]" "[47]" False "d_fs (bash_dir b)"] sv m(1) dr by (auto simp: same_view_def)
  note sv1 = same_view_trans [OF sv c(2)]
  note d1 = same_view_data [OF sv1 d] and o1 = same_view_dir(1) [OF sv1 d o]
  let ?dj = "(bash_dir b)\<lparr>d_fs := True, d_sclust := 0\<rparr>"
  obtain dj1 where s1: "dir_sdi v 0 (?dj, fs1) = Some (FR_OK, dj1, fs1)" "dir_frame ?dj dj1"
    using dir_sdi_ok [OF d1, of ?dj cs ss] o1 by auto
  let ?dj2 = "dj1\<lparr>d_dir := None, d_id := fs_id fs1\<rparr>"
  have z: "d_sclust dj1 = 0" "d_fs dj1" using s1(2) by (simp_all add: dir_frame_def)
  obtain dj2 where s2: "dir_sdi v 0 (?dj2, fs1) = Some (FR_OK, dj2, fs1)" "dir_pos fs1 cs ss 0 dj2" "dir_frame ?dj2 dj2"
    using dir_sdi_ok [OF d1, of ?dj2 cs ss] o1 z by auto
  have fol: "follow_path v [47] ((bash_dir b)\<lparr>d_fs := True\<rparr>, fs1) = Some (FR_OK, dj1\<lparr>d_dir := None\<rparr>, fs1)"
    using s1(1) by (simp add: follow_path_def str_at_def is_sep_def Let_def)
  let ?w = "b\<lparr>bash_dir := dj2, bash_Fatfs := S\<lparr>ff_fs := fs1\<rparr>\<rparr>"
  have "ff_opendir v ''0:/'' b = Some (FR_OK, ?w)"
    using c(1) fol s2(1) m(2) p by (simp add: ff_opendir_def Ff_Api.f_opendir_def at_path_def open_dir_def)
  moreover have "listing D S cs ss 0 ?w"
    using sv1 s2(2,3) z o same_view_dir(3) [OF sv1 d o] fsframe_fields(5) [of "ff_fs S" fs1]
    by (auto simp: listing_def dir_frame_def same_view_def list_pos_def dir_on_def)
  ultimately show ?thesis by blast
qed

end

text \<open>
  C25: Listing the root directory. On a mounted volume whose current directory is the root, \<open>ll\<close> comes
  back and has printed one line for every entry of the root directory that is in use, in the order
  of the table and up to its end mark, with length and name, or marked as a directory; deleted
  entries and the volume label are left out, and an entry whose name is empty when shown ends the
  list as the end mark does. Nothing on the volume changes.
\<close>

theorem ll_lists_root:
  assumes v: "block_drive v D" and S: "bash_Fatfs (vol (usr s)) = S" and d: "data_inv D (ff_fs S)"
    and m: "ff_reg S" "CurrVol S = 0" "cdir (ff_fs S) = 0" and o: "dir_on D (ff_fs S) 0 cs ss"
  shows "\<exists>s' fs'. cmd_ll (ff_ops v dj fno) [] s = Inr s' \<and> bash_rc (usr s') = FR_OK \<and>
    outp s' = outp s @ list_text (ents_from D (ff_fs S) ss 0) \<and> bash_Fatfs (vol (usr s')) = S\<lparr>ff_fs := fs'\<rparr> \<and>
    (\<forall>x. \<not> in_mirror (ff_fs S) x \<longrightarrow> view D fs' x = view D (ff_fs S) x)"
proof -
  obtain fs where g: "ff_getcwd v dj fno BASH_BUFF_SIZE (vol (usr s)) = Some (FR_OK, ''0:/'', (vol (usr s))\<lparr>bash_Fatfs := S\<lparr>ff_fs := fs\<rparr>\<rparr>)" "same_view D (ff_fs S) fs"
    using block_drive.getcwd_root [OF v d m S] by blast
  obtain w where p: "ff_opendir v ''0:/'' ((vol (usr s))\<lparr>bash_Fatfs := S\<lparr>ff_fs := fs\<rparr>\<rparr>) = Some (FR_OK, w)" "listing D S cs ss 0 w"
    using block_drive.opendir_root [OF v d m(1) _ g(2) o, of "(vol (usr s))\<lparr>bash_Fatfs := S\<lparr>ff_fs := fs\<rparr>\<rparr>"] by auto
  obtain w2 fs2 where l: "ll_loop (ff_ops v dj fno) w [] = Some (FR_OK, w2, list_text (ents_from D (ff_fs S) ss 0))" "bash_Fatfs w2 = S\<lparr>ff_fs := fs2\<rparr>"
    "same_view D (ff_fs S) fs2" using block_drive.ll_loop_lists [OF v d p(2), of dj fno "[]"] by auto
  show ?thesis using g(1) p(1) l
    by (auto simp: cmd_ll_def on_vol_def ff_ops_calls set_rc_def report_def print_def blocks_def same_view_def)
qed

theorem ll_lists_root_witness:
  "\<exists>s'. cmd_ll (ff_ops ram_drive dir_log file_info0) [] shell_ab = Inr s' \<and> outp s' = ''     700  A.TXT'' @ CRLF"
proof -
  have e1: "ent_end (dir_ent ram_store vol_dir [3] (Suc 0))"
    by (simp add: dir_ent_def view_def vol_dir_def vol_ab_def vol16_def ram_store_def ent_a_def ent_end_def)
  have sh: "ent_shown ent_a" by code_simp
  have "dir_scan ram_store vol_dir [3] ent_shown 0 = Some 0" "dir_scan ram_store vol_dir [3] ent_shown 1 = Some 1"
    using e1 sh by (subst dir_scan_step, simp add: vol_dir_ent)+
  then have "next_shown ram_store vol_dir [3] 0 = Some 0" "next_shown ram_store vol_dir [3] 1 = None"
    using e1 by (simp_all add: next_shown_def vol_dir_ent ent_a_facts)
  then have l: "ents_from ram_store vol_dir [3] 0 = [ent_a]"
    by (subst ents_from_next, simp add: vol_dir_ent) (subst ents_from_next, simp)
  have t: "list_text [ent_a] = ''     700  A.TXT'' @ CRLF" by code_simp
  have "\<exists>s' fs'. cmd_ll (ff_ops ram_drive dir_log file_info0) [] shell_ab = Inr s' \<and> bash_rc (usr s') = FR_OK \<and>
    outp s' = outp shell_ab @ list_text (ents_from ram_store (ff_fs ff_dir) [3] 0) \<and> bash_Fatfs (vol (usr s')) = ff_dir\<lparr>ff_fs := fs'\<rparr> \<and>
    (\<forall>x. \<not> in_mirror (ff_fs ff_dir) x \<longrightarrow> view ram_store fs' x = view ram_store (ff_fs ff_dir) x)"
    by (rule ll_lists_root [OF ram.block_drive_axioms, where cs = "[]"])
      (simp_all add: ff_dir_def vol_dir_inv vol_dir_on, simp_all add: shell_ab_def ff_dir_def vol_dir_def vol_ab_def vol16_def)
  then show ?thesis using l t by (auto simp: ff_dir_def shell_ab_def)
qed

end
