(* ===== verification/Sector_Write.thy ===== *)
theory Sector_Write
  imports File_Read
begin

text \<open>
  Writing sectors of a file: part of a sector through the shared window, whole sectors past it, and
  the first part of a new sector at the end of the file.
\<close>

subsection \<open>Sectors of a file are distinct\<close>

lemma clust_sect_inj:
  assumes d: "data_inv D fs" and c: "in_vol fs c" "in_vol fs c'" and i: "i < unat (csize fs)" "i' < unat (csize fs)"
    and e: "clust2sect fs c + of_nat i = clust2sect fs c' + of_nat i'"
  shows "c = c' \<and> i = i'"
proof -
  let ?n = "unat (csize fs)"
  have "(unat c - 2) * ?n + i = (unat c' - 2) * ?n + i'"
    using clust_sect_unat [OF d c(1) i(1)] clust_sect_unat [OF d c(2) i(2)] e by simp
  then have "((unat c - 2) * ?n + i) div ?n = ((unat c' - 2) * ?n + i') div ?n \<and> ((unat c - 2) * ?n + i) mod ?n = ((unat c' - 2) * ?n + i') mod ?n"
    by simp
  then have "unat c - 2 = unat c' - 2" "i = i'" using i by auto
  moreover have "2 \<le> unat c" "2 \<le> unat c'" using c by (simp_all add: in_vol_def word_le_nat_alt)
  ultimately show ?thesis by (simp add: word_unat_eq_iff)
qed

lemma file_sects_inj:
  assumes d: "data_inv D fs" and v: "\<forall>c\<in>set cs. in_vol fs c" and dist: "distinct cs"
    and q: "q < length cs * unat (csize fs)" "q' < length cs * unat (csize fs)" and e: "file_sects fs cs ! q = file_sects fs cs ! q'"
  shows "q = q'"
proof -
  let ?n = "unat (csize fs)"
  have b: "q div ?n < length cs" "q mod ?n < ?n" "q' div ?n < length cs" "q' mod ?n < ?n" using div_bound [OF q(1)] div_bound [OF q(2)] by auto
  have "cs ! (q div ?n) = cs ! (q' div ?n) \<and> q mod ?n = q' mod ?n"
    by (rule clust_sect_inj [OF d]) (use b v e file_sects_nth [OF q(1)] file_sects_nth [OF q(2)] in auto)
  then have "q div ?n = q' div ?n" "q mod ?n = q' mod ?n" using b dist nth_eq_iff_index_eq by auto
  then show ?thesis by (metis div_mult_mod_eq)
qed

text \<open>Sectors of different files.\<close>

lemma sects_apart:
  assumes d: "data_inv D fs" and v: "\<forall>c\<in>set cs. in_vol fs c" "\<forall>c\<in>set xs. in_vol fs c" and dj: "set cs \<inter> set xs = {}"
  shows "set (file_sects fs cs) \<inter> set (file_sects fs xs) = {}"
proof -
  have False if c: "c \<in> set cs" "x \<in> set xs" "i < unat (csize fs)" "j < unat (csize fs)" "clust2sect fs c + of_nat i = clust2sect fs x + of_nat j" for c x i j
    using clust_sect_inj [OF d _ _ c(3,4,5)] v c(1,2) dj by auto
  then show ?thesis by (auto simp: file_sects_def clust_sects_def)
qed

context block_drive
begin

lemma file_data_nth:
  assumes d: "data_inv D fs" and v: "\<forall>c\<in>set cs. in_vol fs c" and i: "i < length cs * bcs_of fs"
  shows "file_data D fs cs ! i = view D fs (file_sects fs cs ! (i div 512)) ! (i mod 512)" "i div 512 < length cs * unat (csize fs)"
proof -
  have i': "i < (length cs * unat (csize fs)) * 512" using i by (simp add: bcs_of_def mult.assoc)
  then show q: "i div 512 < length cs * unat (csize fs)" by (simp add: less_mult_imp_div_less)
  have "file_data D fs cs ! i = map (view D fs) (file_sects fs cs) ! (i div 512) ! (i mod 512)"
    unfolding file_data_def by (rule nth_blocks) (use file_blocks [OF d v] i' in \<open>auto simp: file_sects_length\<close>)
  then show "file_data D fs cs ! i = view D fs (file_sects fs cs ! (i div 512)) ! (i mod 512)" using q by (simp add: file_sects_length)
qed

end

subsection \<open>Sectors written\<close>

text \<open>\<open>sets D fs V fs'\<close>: sectors outside the table hold \<open>V\<close> now, and the table is as before.\<close>

definition sets :: "'k store \<Rightarrow> 'k FATFS \<Rightarrow> (u32 \<Rightarrow> u8 list) \<Rightarrow> 'k FATFS \<Rightarrow> bool" where
  "sets D fs V fs' \<longleftrightarrow> fat_inv D fs' \<and> fs_frame fs fs' \<and> (\<forall>c. in_vol fs c \<longrightarrow> fat_of D fs' c = fat_of D fs c) \<and>
     (\<forall>x. off_fat fs x \<longrightarrow> view D fs' x = V x)"

lemma fat_of_off:
  assumes inv: "fat_inv D fs" and fr: "fs_frame fs fs'" and v: "\<forall>s. \<not> in_mirror fs s \<longrightarrow> \<not> off_fat fs s \<longrightarrow> view D fs' s = view D fs s"
    and c: "in_vol fs c"
  shows "fat_of D fs' c = fat_of D fs c"
proof -
  have g: "geometry fs D" using inv by (simp add: fat_inv_def win_inv_def)
  have "fat_byte D fs' j = fat_byte D fs j" if j: "j < 512 * unat (fsize fs)" for j
  proof -
    have "\<not> off_fat fs (fat_sect fs j)" using off_fat_sect(1) [OF g j] by blast
    then show ?thesis using v fat_sect_ok(2) [OF g j] fr by (simp add: fat_byte_def fat_sect_frame)
  qed
  moreover have "c < n_fatent fs" using c by (simp add: in_vol_def)
  note fat_bytes_bound [OF inv this]
  ultimately show ?thesis
    using fsframe_fields(1) [OF fr] by (cases "fs_type fs") (simp_all add: fat_of_def fat_entry_def Let_def)
qed

lemma off_mirror: "off_fat fs x \<Longrightarrow> \<not> in_mirror fs x"
  by (auto simp: off_fat_def in_mirror_def)

lemma setsI:
  assumes inv: "fat_inv D fs" and w: "win_inv D fs'" and fr: "fs_frame fs fs'"
    and V: "\<forall>x. \<not> in_mirror fs x \<longrightarrow> view D fs' x = V x" "\<forall>x. \<not> off_fat fs x \<longrightarrow> V x = view D fs x"
  shows "sets D fs V fs'"
proof -
  show ?thesis using fat_inv_frame [OF fr w inv] fr V fat_of_off [OF inv fr] off_mirror [of fs] by (auto simp: sets_def)
qed

lemma same_view_sets: "same_view D fs fs' \<Longrightarrow> fat_inv D fs \<Longrightarrow> sets D fs (view D fs) fs'"
  by (rule setsI) (auto simp: same_view_def fat_inv_def)

text \<open>Changing the window over a data sector.\<close>

lemma edit_sets:
  assumes inv: "fat_inv D fs" and w: "winsect fs = s" and s: "s \<in> st_set D" "fatbase fs \<le> s" "off_fat fs s" and l: "length (f (win fs)) = 512"
  shows "sets D fs ((view D fs)(s := f (win fs))) (edit_win f fs)"
proof (rule setsI [OF inv])
  have nz: "s \<noteq> 0" and g: "geometry fs D" using s(2) inv by (auto simp: fat_inv_def win_inv_def geometry_def)
  show fr: "fs_frame fs (edit_win f fs)" by (simp add: fs_frame_def edit_win_def put_win_def)
  show "win_inv D (edit_win f fs)"
    using inv w s l off_mirror [OF s(3)] by (simp add: fat_inv_def win_inv_def geometry_frame [OF fr] in_mirror_frame [OF fr]) (simp add: edit_win_def put_win_def)
  show "\<forall>x. \<not> in_mirror fs x \<longrightarrow> view D (edit_win f fs) x = ((view D fs)(s := f (win fs))) x"
    using w nz by (simp add: view_def edit_win_def put_win_def)
  show "\<forall>x. \<not> off_fat fs x \<longrightarrow> ((view D fs)(s := f (win fs))) x = view D fs x" using s(3) by auto
qed

lemma sets_from:
  assumes "same_view D fs fs1" "fat_inv D fs" "sets D fs1 V fs2" "\<forall>x. off_fat fs x \<longrightarrow> V x = V' x"
  shows "sets D fs V' fs2"
proof -
  have fr: "fs_frame fs fs1" and f: "\<forall>c. in_vol fs c \<longrightarrow> fat_of D fs1 c = fat_of D fs c"
    using assms(1) same_view_sets [OF assms(1,2)] by (simp_all add: same_view_def sets_def)
  have "in_vol fs1 = in_vol fs" "off_fat fs1 = off_fat fs" using same_view_fields(4) [OF assms(1)] off_fat_frame [OF fr] by simp_all
  then show ?thesis using assms(3,4) f fsframe_trans [OF fr] by (simp add: sets_def)
qed

context block_drive
begin

text \<open>Part of a sector.\<close>

lemma partial_ok:
  assumes inv: "fat_inv D fs" and s: "s \<in> st_set D" "fatbase fs \<le> s" "off_fat fs s" and ds: "f_dsect fp = s"
    and o: "unat (f_fptr fp) mod 512 = k" and n: "n = min (length wbuff) (512 - k)"
  shows "\<exists>fs'. write_partial v wbuff (fp, fs) = Some ((FR_OK, n), fp, fs') \<and> sets D fs ((view D fs)(s := mem_cpy k (take n wbuff) (view D fs s))) fs'"
proof -
  have nz: "s \<noteq> 0" using s(2) inv by (auto simp: fat_inv_def win_inv_def geometry_def)
  obtain fs1 where m: "move_window v s fs = Some (FR_OK, fs1)" "same_view D fs fs1" "winsect fs1 = s" "win fs1 = view D fs s"
    using window_at [OF inv s(1) off_mirror [OF s(3)] nz] by blast
  have i1: "fat_inv D fs1" and fr: "fs_frame fs fs1" using m(2) by (simp_all add: same_view_def)
  have k: "unat (f_fptr fp mod 512) = k" using o by (simp add: unat_mod)
  have l: "length (mem_cpy k (take n wbuff) (win fs1)) = 512" using i1 n by (simp add: fat_inv_def win_inv_def mem_cpy_def)
  have "sets D fs1 ((view D fs1)(s := mem_cpy k (take n wbuff) (win fs1))) (edit_win (mem_cpy k (take n wbuff)) fs1)"
    using edit_sets [where f = "mem_cpy k (take n wbuff)", OF i1 m(3) s(1)] s(2,3) l fsframe_fields(12) [OF fr] off_fat_frame [OF fr] by simp
  then have "sets D fs ((view D fs)(s := mem_cpy k (take n wbuff) (view D fs s))) (edit_win (mem_cpy k (take n wbuff)) fs1)"
    by (rule sets_from [OF m(2) inv]) (use m(2,4) off_mirror in \<open>auto simp: same_view_def\<close>)
  moreover have "write_partial v wbuff (fp, fs) = Some ((FR_OK, n), fp, edit_win (mem_cpy k (take n wbuff)) fs1)"
    using m(1) ds k n by (auto simp: write_partial_def Let_def min_def)
  ultimately show ?thesis by blast
qed

text \<open>The first part of a new sector at the end of the file, over whatever the window held.\<close>

lemma edge_ok:
  assumes inv: "fat_inv D fs" and s: "s \<in> st_set D" "fatbase fs \<le> s" "off_fat fs s" and e: "f_fptr fp \<ge> f_fsize fp"
    and o: "unat (f_fptr fp) mod 512 = 0" and n: "n = min (length wbuff) 512"
  shows "\<exists>fs1 fs' w. edge_sector v s (fp, fs) = Some (FR_OK, fs1) \<and> write_partial v wbuff (fp\<lparr>f_dsect := s\<rparr>, fs1) = Some ((FR_OK, n), fp\<lparr>f_dsect := s\<rparr>, fs') \<and>
    length w = 512 \<and> sets D fs ((view D fs)(s := mem_cpy 0 (take n wbuff) w)) fs'"
proof -
  have nz: "s \<noteq> 0" and g: "geometry fs D" and w: "win_inv D fs" using s(2) inv by (auto simp: fat_inv_def win_inv_def geometry_def)
  have "\<not> in_mirror fs 0" using g by (auto simp: in_mirror_def geometry_def word_less_nat_alt)
  from move_window_ok [OF stores w _ this] obtain fs1 where m: "move_window v 0 fs = Some (FR_OK, fs1)" "win_inv D fs1" "fs_frame fs fs1"
    "winsect fs1 = winsect fs" "win fs1 = win fs" "\<forall>x. \<not> in_mirror fs x \<longrightarrow> view D fs1 x = view D fs x" by auto
  have clean: "\<not> wflag fs1"
  proof (cases "winsect fs = 0")
    case True
    then have "\<not> wflag fs" using w by (auto simp: win_inv_def geometry_def)
    then show ?thesis using m(1) True by (simp add: move_window_def)
  next
    case False
    then obtain fs2 where "write_back v fs = Some (FR_OK, fs2)" "\<not> wflag fs2" using write_back_ok [OF stores w] by blast
    then show ?thesis using m(1) False by (simp add: move_window_def)
  qed
  let ?fs2 = "fs1\<lparr>winsect := s\<rparr>" let ?f = "mem_cpy 0 (take n wbuff)"
  let ?fs3 = "edit_win ?f ?fs2"
  have l: "length (win fs1) = 512" using m(2) by (simp add: win_inv_def)
  have lf: "length (?f (win fs1)) = 512" using l n by (simp add: mem_cpy_def)
  have "edge_sector v s (fp, fs) = Some (FR_OK, ?fs2)" using e m(1) by (simp add: edge_sector_def)
  moreover have "unat (f_fptr fp mod 512) = 0" using o by (simp add: unat_mod)
  then have "write_partial v wbuff (fp\<lparr>f_dsect := s\<rparr>, ?fs2) = Some ((FR_OK, n), fp\<lparr>f_dsect := s\<rparr>, ?fs3)"
    using n by (auto simp: write_partial_def Let_def min_def move_window_def)
  moreover have "sets D fs ((view D fs)(s := ?f (win fs1))) ?fs3"
  proof (rule setsI [OF inv])
    show fr: "fs_frame fs ?fs3" using m(3) by (cases fs; cases fs1) (simp add: fs_frame_def edit_win_def put_win_def)
    show "win_inv D ?fs3"
      using m(2) s lf off_mirror [OF s(3)] g unfolding win_inv_def geometry_frame [OF fr] in_mirror_frame [OF fr] fsframe_fields [OF fr]
      by (simp add: edit_win_def put_win_def)
    have "view D fs1 x = st_sec D (media fs1) x" for x using m(2) clean by (auto simp: view_def win_inv_def)
    then have "view D fs x = st_sec D (media fs1) x" if "\<not> in_mirror fs x" for x using that m(6) by metis
    then show "\<forall>x. \<not> in_mirror fs x \<longrightarrow> view D ?fs3 x = ((view D fs)(s := ?f (win fs1))) x"
      using nz by (simp add: view_def edit_win_def put_win_def)
    show "\<forall>x. \<not> off_fat fs x \<longrightarrow> ((view D fs)(s := ?f (win fs1))) x = view D fs x" using s(3) by auto
  qed
  ultimately show ?thesis using l by blast
qed

text \<open>Whole sectors, past the window.\<close>

lemma direct_ok:
  assumes inv: "fat_inv D fs" and cc: "0 < unat cc" "unat cc \<le> 128" "512 * unat cc \<le> length wbuff"
    and s: "\<forall>i<unat cc. s + of_nat i \<in> st_set D \<and> off_fat fs (s + of_nat i) \<and> s + of_nat i \<noteq> 0"
  shows "\<exists>fs'. write_direct v wbuff s cc fs = Some (RES_OK, fs') \<and>
    sets D fs (\<lambda>x. if unat (x - s) < unat cc then take 512 (drop (512 * unat (x - s)) wbuff) else view D fs x) fs'"
proof -
  have w: "win_inv D fs" and drv: "drv fs = 0" and ok: "st_ok D (media fs)"
    using inv by (simp_all add: fat_inv_def win_inv_def geometry_def)
  have n: "unat (ucast cc :: u8) = unat cc" using cc by (simp add: unat_ucast_mod)
  have nz: "(ucast cc :: u8) \<noteq> 0" using n cc by (metis unat_0 less_irrefl)
  let ?b = "take (512 * unat cc) wbuff" let ?blk = "\<lambda>x. take 512 (drop (512 * unat (x - s)) wbuff)"
  obtain k where k: "dk_write v 0 ?b s (ucast cc) (media fs) = Some (RES_OK, k)" "st_ok D k"
    "st_sec D k = (\<lambda>x. if unat (x - s) < unat cc then take 512 (drop (512 * unat (x - s)) ?b) else st_sec D (media fs) x)"
    using writes [OF ok nz, of s ?b] s n cc by auto
  have blk: "take 512 (drop (512 * unat (x - s)) ?b) = ?blk x" if "unat (x - s) < unat cc" for x
  proof -
    have "512 \<le> 512 * unat cc - 512 * unat (x - s)" using that by simp
    then show ?thesis by (simp add: drop_take min_def)
  qed
  have sec: "st_sec D k x = (if unat (x - s) < unat cc then ?blk x else st_sec D (media fs) x)" for x using k(3) blk by simp
  have at: "off_fat fs x \<and> x \<noteq> 0" if "unat (x - s) < unat cc" for x using s [rule_format, OF that] by simp
  let ?o = "winsect fs - s"
  define fs' where "fs' = (if ?o < cc then fs\<lparr>media := k, win := ?blk (winsect fs), wflag := False\<rparr> else fs\<lparr>media := k\<rparr>)"
  have lw: "length (win fs) = 512" using w by (simp add: win_inv_def)
  have lb: "length (?blk (winsect fs)) = 512" if "unat ?o < unat cc" using that cc(3) by simp
  have "write_direct v wbuff s cc fs = Some (RES_OK, fs')"
    using k(1) drv lb lw by (auto simp: write_direct_def fs'_def Let_def mem_cpy_def mult.commute word_less_nat_alt)
  moreover have "sets D fs (\<lambda>x. if unat (x - s) < unat cc then ?blk x else view D fs x) fs'"
  proof (rule setsI [OF inv])
    show fr: "fs_frame fs fs'" by (simp add: fs_frame_def fs'_def)
    have "win_inv D fs'" if c: "unat ?o < unat cc"
      using w k(2) sec [of "winsect fs"] c lb [OF c] unfolding win_inv_def geometry_frame [OF fr] in_mirror_frame [OF fr] by (simp add: fs'_def word_less_nat_alt)
    moreover have "win_inv D fs'" if c: "\<not> unat ?o < unat cc"
      using w k(2) sec [of "winsect fs"] c unfolding win_inv_def geometry_frame [OF fr] in_mirror_frame [OF fr] fsframe_fields [OF fr]
      by (auto simp: fs'_def word_less_nat_alt)
    ultimately show "win_inv D fs'" by blast
    show "\<forall>x. \<not> in_mirror fs x \<longrightarrow> view D fs' x = (if unat (x - s) < unat cc then ?blk x else view D fs x)"
      using sec by (auto simp: view_def fs'_def word_less_nat_alt dest: at)
    show "\<forall>x. \<not> off_fat fs x \<longrightarrow> (if unat (x - s) < unat cc then ?blk x else view D fs x) = view D fs x" using at by auto
  qed
  ultimately show ?thesis by blast
qed

end

end
