(* ===== verification/File_Grow.thy ===== *)
theory File_Grow
  imports Sector_Write "HOL-Library.Sublist"
begin

text \<open>
  Clusters for a file that is written: the next cluster of its chain, or a new one at its end.
\<close>

subsection \<open>What writing leaves of the volume\<close>

text \<open>No entry of the table is 1, a value that stands for an error of the table.\<close>

definition fat_sane :: "'k store \<Rightarrow> 'k FATFS \<Rightarrow> bool" where
  "fat_sane D fs \<longleftrightarrow> 2 < n_fatent fs \<and> (\<forall>c. in_vol fs c \<longrightarrow> fat_of D fs c \<noteq> 1)"

text \<open>
  The chain \<open>cs\<close> has become \<open>cs'\<close> with clusters that were free; the entries of all other clusters and
  the sectors outside the table and the file are as before.
\<close>

definition grows :: "'k store \<Rightarrow> 'k FATFS \<Rightarrow> u32 list \<Rightarrow> 'k FATFS \<Rightarrow> u32 list \<Rightarrow> bool" where
  "grows D fs cs fs' cs' \<longleftrightarrow> data_inv D fs' \<and> fat_sane D fs' \<and> alloc_frame fs fs' \<and> prefix cs cs' \<and>
     (cs' \<noteq> [] \<longrightarrow> is_chain (fat_of D fs') (n_fatent fs) cs') \<and> (\<forall>c\<in>set cs' - set cs. in_vol fs c \<and> fat_of D fs c = 0) \<and>
     (\<forall>d. in_vol fs d \<longrightarrow> d \<notin> set cs' \<longrightarrow> fat_of D fs' d = fat_of D fs d) \<and>
     (\<forall>x. off_fat fs x \<longrightarrow> x \<notin> set (file_sects fs cs') \<longrightarrow> view D fs' x = view D fs x)"

lemma alloc_fields:
  assumes "alloc_frame fs fs'"
  shows "clust2sect fs' = clust2sect fs" "csize fs' = csize fs" "bcs_of fs' = bcs_of fs" "in_vol fs' = in_vol fs" "n_fatent fs' = n_fatent fs"
    "file_sects fs' = file_sects fs" "csect_of fp fs' = csect_of fp fs" "off_fat fs' = off_fat fs" "fs_type fs' = fs_type fs" "fatbase fs' = fatbase fs"
    "fs_id fs' = fs_id fs" "clip a b fs' = clip a b fs"
proof -
  note f = alloc_frame_fields [OF assms]
  show c: "clust2sect fs' = clust2sect fs" by (simp add: fun_eq_iff clust2sect_def f cong: if_cong)
  show "csize fs' = csize fs" "bcs_of fs' = bcs_of fs" "n_fatent fs' = n_fatent fs" "csect_of fp fs' = csect_of fp fs" "fs_type fs' = fs_type fs"
    "fatbase fs' = fatbase fs" "fs_id fs' = fs_id fs" "clip a b fs' = clip a b fs" by (simp_all add: f bcs_of_def csect_of_def clip_def cong: if_cong)
  show "in_vol fs' = in_vol fs" "off_fat fs' = off_fat fs" using in_vol_alloc [OF assms] off_fat_alloc [OF assms] by simp_all
  show "file_sects fs' = file_sects fs" by (simp add: fun_eq_iff file_sects_def clust_sects_def [abs_def] c f)
qed

lemma data_alloc:
  assumes "alloc_frame fs fs'" "data_inv D fs" "fat_inv D fs'"
  shows "data_inv D fs'"
  using assms(2,3) unfolding data_inv_def alloc_frame_fields [OF assms(1)] by simp

lemma grows_refl:
  assumes "data_inv D fs" "fat_sane D fs" "cs \<noteq> [] \<longrightarrow> is_chain (fat_of D fs) (n_fatent fs) cs"
  shows "grows D fs cs fs cs"
  using assms by (simp add: grows_def)

lemma file_sects_prefix: "prefix cs cs' \<Longrightarrow> set (file_sects fs cs) \<subseteq> set (file_sects fs cs')"
  by (auto simp: prefix_def file_sects_def)

lemma grows_trans:
  assumes g: "grows D fs cs fs1 cs1" and h: "grows D fs1 cs1 fs2 cs2"
  shows "grows D fs cs fs2 cs2"
proof -
  have a: "alloc_frame fs fs1" "prefix cs cs1" "prefix cs1 cs2" using g h by (simp_all add: grows_def)
  note f = alloc_fields [OF a(1)]
  have p: "prefix cs cs2" "alloc_frame fs fs2" using a prefix_order.trans alloc_frame_trans [OF a(1)] h by (auto simp: grows_def)
  have sub: "set cs1 \<subseteq> set cs2" "set (file_sects fs cs1) \<subseteq> set (file_sects fs cs2)" using set_mono_prefix [OF a(3)] file_sects_prefix [OF a(3)] by simp_all
  have "in_vol fs c \<and> fat_of D fs c = 0" if "c \<in> set cs2 - set cs" for c
  proof (cases "c \<in> set cs1")
    case True
    then show ?thesis using g that by (auto simp: grows_def)
  next
    case False
    then have "in_vol fs c" "fat_of D fs1 c = 0" using h that f(4) by (auto simp: grows_def)
    moreover from this False have "fat_of D fs1 c = fat_of D fs c" using g by (simp add: grows_def)
    ultimately show ?thesis by simp
  qed
  moreover have "fat_of D fs2 d = fat_of D fs d" if "in_vol fs d" "d \<notin> set cs2" for d
    using g h that sub(1) f(4) by (auto simp: grows_def)
  moreover have "view D fs2 x = view D fs x" if "off_fat fs x" "x \<notin> set (file_sects fs cs2)" for x
    using g h that sub(2) f(6,8) by (auto simp: grows_def)
  ultimately show ?thesis using h p f(5) by (simp add: grows_def)
qed

text \<open>Sectors of the file were written.\<close>

lemma sets_grows:
  assumes d: "data_inv D fs" and fs: "fat_sane D fs" and ch: "cs \<noteq> [] \<longrightarrow> is_chain (fat_of D fs) (n_fatent fs) cs" and s: "sets D fs V fs'"
    and V: "\<And>x. off_fat fs x \<Longrightarrow> x \<notin> set (file_sects fs cs) \<Longrightarrow> V x = view D fs x"
  shows "grows D fs cs fs' cs"
proof -
  have a: "alloc_frame fs fs'" using s frame_alloc by (auto simp: sets_def)
  have i: "fat_inv D fs'" and e: "\<And>c. in_vol fs c \<Longrightarrow> fat_of D fs' c = fat_of D fs c" using s by (simp_all add: sets_def)
  have "is_chain (fat_of D fs') (n_fatent fs) cs = is_chain (fat_of D fs) (n_fatent fs) cs" if "cs \<noteq> []"
    by (rule is_chain_cong) (use ch that e is_chain_in in \<open>auto simp: in_vol_def\<close>)
  then show ?thesis using data_alloc [OF a d i] a fs ch e s V alloc_fields(4,5) [OF a] by (auto simp: grows_def fat_sane_def sets_def)
qed

subsection \<open>The cluster for the next sector\<close>

lemma clust_boundary:
  assumes d: "data_inv D fs" and p: "unat (f_fptr fp) mod 512 = 0"
  shows "csect_of fp fs = 0 \<longleftrightarrow> unat (f_fptr fp) mod bcs_of fs = 0" "0 < bcs_of fs"
proof -
  let ?p = "unat (f_fptr fp)" let ?n = "unat (csize fs)"
  obtain n0: "0 < ?n" using d by (rule csize_unat)
  then show "0 < bcs_of fs" by (simp add: bcs_of_def)
  have "?p = ?p div 512 * 512" using p by (simp add: mod_eq_0_iff_dvd)
  then have "?p mod bcs_of fs = ?p div 512 mod ?n * 512" unfolding bcs_of_def by (metis mod_mult_mult2)
  then show "csect_of fp fs = 0 \<longleftrightarrow> ?p mod bcs_of fs = 0" using csect_unat [OF d, of fp] by (metis mult_is_0 unat_eq_zero zero_neq_numeral)
qed

lemma becomes_grows:
  assumes d: "data_inv D fs" and fs: "fat_sane D fs" and b: "becomes D fs F fs'" and p: "prefix cs cs'"
    and ch: "cs' \<noteq> [] \<longrightarrow> is_chain F (n_fatent fs) cs'" and new: "\<forall>c\<in>set cs' - set cs. in_vol fs c \<and> fat_of D fs c = 0"
    and F: "\<And>c. in_vol fs c \<Longrightarrow> c \<notin> set cs' \<Longrightarrow> F c = fat_of D fs c" "\<And>c. in_vol fs c \<Longrightarrow> F c \<noteq> 1"
  shows "grows D fs cs fs' cs'" "\<forall>x. off_fat fs x \<longrightarrow> view D fs' x = view D fs x"
proof -
  have a: "alloc_frame fs fs'" "fat_inv D fs'" and e: "\<And>c. in_vol fs c \<Longrightarrow> fat_of D fs' c = F c" using b by (simp_all add: becomes_def)
  have "is_chain (fat_of D fs') (n_fatent fs) cs' = is_chain F (n_fatent fs) cs'" if "cs' \<noteq> []"
    by (rule is_chain_cong) (use ch that e is_chain_in in \<open>auto simp: in_vol_def\<close>)
  then show "grows D fs cs fs' cs'"
    using data_alloc [OF a(1) d a(2)] a(1) fs p ch new F e b alloc_fields(4,5) [OF a(1)] by (auto simp: grows_def fat_sane_def becomes_def)
  show "\<forall>x. off_fat fs x \<longrightarrow> view D fs' x = view D fs x" using b by (simp add: becomes_def)
qed

context block_drive
begin

lemma chain_follow:
  assumes inv: "fat_inv D fs" and c: "in_vol fs c" "in_vol fs (fat_of D fs c)"
  shows "\<exists>fs'. create_chain v c fs = Some (fat_of D fs c, fs') \<and> same_view D fs fs'"
proof -
  obtain fs' where g: "get_fat v c fs = Some (fat_of D fs c, fs')" "same_view D fs fs'" using next_cluster [OF inv c(1)] by blast
  have "c \<noteq> 0" using c(1) by (auto simp: in_vol_def word_le_nat_alt)
  moreover have "\<not> fat_of D fs c < 2" "fat_of D fs c < n_fatent fs'" using c(2) same_view_fields(7) [OF g(2)] by (auto simp: in_vol_def)
  ultimately show ?thesis using g by (simp add: create_chain_def)
qed

text \<open>A new cluster after the last one, or none when there is no free cluster.\<close>

lemma chain_append:
  assumes d: "data_inv D fs" and fs: "fat_sane D fs" and ch: "cs \<noteq> [] \<longrightarrow> is_chain (fat_of D fs) (n_fatent fs) cs"
    and c: "clst = (if cs = [] then 0 else List.last cs)"
  shows "\<exists>r fs'. create_chain v clst fs = Some (r, fs') \<and> (\<forall>x. off_fat fs x \<longrightarrow> view D fs' x = view D fs x) \<and>
    (if \<exists>c. in_vol fs c \<and> fat_of D fs c = 0 then in_vol fs r \<and> grows D fs cs fs' (cs @ [r]) else r = 0 \<and> grows D fs cs fs' cs)"
proof -
  let ?F = "fat_of D fs"
  have inv: "fat_inv D fs" and n: "2 < n_fatent fs" and ok: "\<forall>c. in_vol fs c \<longrightarrow> ?F c \<noteq> 1" using d fs by (simp_all add: data_inv_def fat_sane_def)
  have lc: "in_vol fs clst \<and> n_fatent fs \<le> ?F clst" if ne: "cs \<noteq> []"
  proof -
    have "clst = cs ! (length cs - 1)" using c ne by (simp add: last_conv_nth)
    then show ?thesis using ch ne is_chain_in is_chain_last [of ?F _ cs "length cs - 1"] by (auto simp: in_vol_def)
  qed
  then have c': "clst = 0 \<or> in_vol fs clst \<and> n_fatent fs \<le> ?F clst" using c by auto
  obtain r fs' where k: "create_chain v clst fs = Some (r, fs')"
    "if \<exists>c. in_vol fs c \<and> ?F c = 0
     then in_vol fs r \<and> ?F r = 0 \<and> becomes D fs (extended (fs_type fs) clst r ?F) fs' \<and> last_clust fs' = r
     else r = 0 \<and> becomes D fs ?F fs'" using create_chain_ok [OF stores inv n c' ok] by blast
  show ?thesis
  proof (cases "\<exists>c. in_vol fs c \<and> ?F c = 0")
    case False
    with k have r: "r = 0" "becomes D fs ?F fs'" by auto
    note b = becomes_grows [OF d fs r(2), of cs cs]
    show ?thesis using k(1) r(1) False b ch ok by auto
  next
    case True
    with k(2) have r: "in_vol fs r" "?F r = 0" and b: "becomes D fs (extended (fs_type fs) clst r ?F) fs'" by auto
    have t: "n_fatent fs \<le> fat_trunc (fs_type fs) 0x0fffffff" using inv by (simp add: fat_inv_def)
    have chain: "is_chain (extended (fs_type fs) clst r ?F) (n_fatent fs) (cs @ [r])"
    proof (cases "cs = []")
      case True
      then show ?thesis using c r(1) t by (simp add: extended_def in_vol_def)
    next
      case False
      have e: "cs = butlast cs @ [clst]" using False c by simp
      have "is_chain (extended (fs_type fs) clst r ?F) (n_fatent fs) (butlast cs @ [clst, r])"
        by (rule is_chain_extend [where F = ?F and D = D]) (use ch False e n lc r inv in \<open>auto simp: in_vol_def word_less_nat_alt word_le_nat_alt\<close>)
      then show ?thesis using e by (metis append.assoc append_Cons append_Nil)
    qed
    have "fat_trunc (fs_type fs) 0x0fffffff \<noteq> 1" using t n by (auto simp: word_le_nat_alt word_less_nat_alt)
    moreover have "r \<noteq> 1" using r(1) by (auto simp: in_vol_def word_le_nat_alt)
    ultimately have one: "extended (fs_type fs) clst r ?F x \<noteq> 1" if "in_vol fs x" for x using ok that by (auto simp: extended_def)
    have other: "extended (fs_type fs) clst r ?F x = ?F x" if "x \<notin> set (cs @ [r])" "in_vol fs x" for x
      using that c by (auto simp: extended_def in_vol_def word_le_nat_alt)
    note g = becomes_grows [OF d fs b, of cs "cs @ [r]"]
    show ?thesis using k(1) True r chain one other g by auto
  qed
qed

lemma in_vol_good: "in_vol fs x \<Longrightarrow> x \<noteq> 0 \<and> x \<noteq> 1 \<and> x \<noteq> 0xffffffff"
  using unsigned_less [where 'a = nat, of "n_fatent fs"] by (auto simp: in_vol_def word_le_nat_alt word_less_nat_alt)

text \<open>At the end of the chain.\<close>

lemma clust_new:
  assumes d: "data_inv D fs" and fs: "fat_sane D fs" and f: "file_at D fs cs fp" and p: "unat (f_fptr fp) mod 512 = 0"
    and grow: "csect_of fp fs = 0" "unat (f_fptr fp) = length cs * bcs_of fs"
  shows "\<exists>r fp' fs' cs'. write_clust v (fp, fs) = Some (r, fp', fs') \<and> grows D fs cs fs' cs' \<and> (\<forall>x. off_fat fs x \<longrightarrow> view D fs' x = view D fs x) \<and>
    (r = None \<and> cs' = cs \<and> fp' = fp \<and> unat (f_fptr fp) = length cs * bcs_of fs \<and> (\<forall>c. in_vol fs c \<longrightarrow> fat_of D fs c \<noteq> 0) \<or>
     r = Some FR_OK \<and> unat (f_fptr fp) < length cs' * bcs_of fs \<and> fp' = fp\<lparr>f_sclust := cs' ! 0, f_clust := cs' ! (unat (f_fptr fp) div bcs_of fs)\<rparr>)"
proof -
  let ?p = "unat (f_fptr fp)" let ?b = "bcs_of fs"
  note cb = clust_boundary [OF d p]
  have ch: "cs \<noteq> [] \<longrightarrow> is_chain (fat_of D fs) (n_fatent fs) cs" and sc: "f_sclust fp = (if cs = [] then 0 else cs ! 0)"
    and cl: "0 < ?p \<Longrightarrow> f_clust fp = cs ! ((?p - 1) div ?b)" using f by (auto simp: file_at_def split: if_splits)
  note good = in_vol_good [of fs]
  let ?c = "if cs = [] then 0 else List.last cs"
  obtain r fs' where k: "create_chain v ?c fs = Some (r, fs')" "\<forall>x. off_fat fs x \<longrightarrow> view D fs' x = view D fs x"
    "if \<exists>c. in_vol fs c \<and> fat_of D fs c = 0 then in_vol fs r \<and> grows D fs cs fs' (cs @ [r]) else r = 0 \<and> grows D fs cs fs' cs"
    using chain_append [OF d fs ch refl] by blast
  have call: "write_clust v (fp, fs) = (if r = 0 then Some (None, fp, fs') else Some (Some FR_OK, fp\<lparr>f_sclust := (cs @ [r]) ! 0, f_clust := r\<rparr>, fs'))"
    if "r = 0 \<or> in_vol fs r"
  proof (cases "cs = []")
    case True
    then have "f_fptr fp = 0" using grow(2) by (simp add: unat_eq_zero)
    moreover have "fp\<lparr>f_sclust := 0\<rparr> = fp" using sc True by simp
    ultimately show ?thesis using True grow(1) k(1) sc good [of r] that by (auto simp: write_clust_def)
  next
    case False
    then have pp: "0 < ?p" using grow(2) cb(2) by simp
    have "?p mod ?b = 0" using grow(2) by simp
    then have "(?p - 1) div ?b = length cs - 1" using pred_div [OF cb(2) pp] grow(2) cb(2) by simp
    then have "f_clust fp = List.last cs" using cl [OF pp] False by (simp add: last_conv_nth)
    moreover have "fp\<lparr>f_sclust := (cs @ [r]) ! 0\<rparr> = fp" using sc False by (simp add: nth_append)
    moreover from this have "fp\<lparr>f_sclust := (cs @ [r]) ! 0, f_clust := r\<rparr> = fp\<lparr>f_clust := r\<rparr>" by metis
    ultimately show ?thesis using False pp grow(1) k(1) good [of r] that by (auto simp: write_clust_def unat_gt_0)
  qed
  show ?thesis
  proof (cases "\<exists>c. in_vol fs c \<and> fat_of D fs c = 0")
    case True
    then have r: "in_vol fs r" "grows D fs cs fs' (cs @ [r])" using k(3) by auto
    have "?p < length (cs @ [r]) * ?b" "(cs @ [r]) ! (?p div ?b) = r" using grow(2) cb(2) by simp_all
    then show ?thesis using call r good [OF r(1)] k(2) by auto
  next
    case False
    then have "r = 0" "grows D fs cs fs' cs" using k(3) by auto
    then show ?thesis using call k(2) False grow(2) by auto
  qed
qed

text \<open>
  The cluster of the next sector: either it is there now, or the disk is full.
\<close>

lemma write_clust_ok:
  assumes d: "data_inv D fs" and fs: "fat_sane D fs" and f: "file_at D fs cs fp" and p: "unat (f_fptr fp) mod 512 = 0"
  shows "\<exists>r fp' fs' cs'. write_clust v (fp, fs) = Some (r, fp', fs') \<and> grows D fs cs fs' cs' \<and> (\<forall>x. off_fat fs x \<longrightarrow> view D fs' x = view D fs x) \<and>
    (r = None \<and> cs' = cs \<and> fp' = fp \<and> unat (f_fptr fp) = length cs * bcs_of fs \<and> (\<forall>c. in_vol fs c \<longrightarrow> fat_of D fs c \<noteq> 0) \<or>
     r = Some FR_OK \<and> unat (f_fptr fp) < length cs' * bcs_of fs \<and> fp' = fp\<lparr>f_sclust := cs' ! 0, f_clust := cs' ! (unat (f_fptr fp) div bcs_of fs)\<rparr>)"
proof -
  let ?p = "unat (f_fptr fp)" let ?b = "bcs_of fs"
  note cb = clust_boundary [OF d p]
  have inv: "fat_inv D fs" using d by (simp add: data_inv_def)
  have ch: "cs \<noteq> [] \<longrightarrow> is_chain (fat_of D fs) (n_fatent fs) cs" and sc: "f_sclust fp = (if cs = [] then 0 else cs ! 0)" and pl: "?p \<le> length cs * ?b"
    and cl: "0 < ?p \<Longrightarrow> f_clust fp = cs ! ((?p - 1) div ?b)" using f by (auto simp: file_at_def split: if_splits)
  note same = grows_refl [OF d fs ch]
  note good = in_vol_good [of fs]
  have vol: "in_vol fs (cs ! i)" if "i < length cs" for i using ch that is_chain_in [of _ _ cs "cs ! i"] by (cases "cs = []") (auto simp: in_vol_def)
  consider (mid) "csect_of fp fs \<noteq> 0" | (start) "csect_of fp fs = 0" "?p = 0" "cs \<noteq> []" | (next_) "csect_of fp fs = 0" "0 < ?p" "?p < length cs * ?b"
    | (grow) "csect_of fp fs = 0" "?p = length cs * ?b" using pl by (cases "cs = []") force+
  then show ?thesis
  proof cases
    case mid
    then have m: "?p mod ?b \<noteq> 0" using cb(1) by simp
    then have pp: "0 < ?p" by (metis gr0I mod_0)
    have "(?p - 1) div ?b = ?p div ?b" using pred_div [OF cb(2) pp] m by simp
    moreover have "?p < length cs * ?b" using pl m by (metis le_neq_implies_less mod_mult_self2_is_0)
    moreover from this have "cs \<noteq> []" by auto
    ultimately have "fp = fp\<lparr>f_sclust := cs ! 0, f_clust := cs ! (?p div ?b)\<rparr>" using cl [OF pp] sc by simp
    moreover have "write_clust v (fp, fs) = Some (Some FR_OK, fp, fs)" using mid by (simp add: write_clust_def)
    ultimately show ?thesis using same \<open>?p < length cs * ?b\<close> by metis
  next
    case start
    then have z: "f_fptr fp = 0" by (simp add: unat_eq_zero)
    have v0: "in_vol fs (cs ! 0)" using vol start by simp
    then have "write_clust v (fp, fs) = Some (Some FR_OK, fp\<lparr>f_clust := cs ! 0\<rparr>, fs)"
      using start(1) z sc start(3) good [OF v0] by (simp add: write_clust_def)
    moreover have "fp\<lparr>f_clust := cs ! 0\<rparr> = fp\<lparr>f_sclust := cs ! 0, f_clust := cs ! (?p div ?b)\<rparr>" using sc start by simp
    moreover have "?p < length cs * ?b" using start cb(2) by simp
    ultimately show ?thesis using same by metis
  next
    case next_
    let ?i = "(?p - 1) div ?b"
    have m: "?p mod ?b = 0" using next_ cb(1) by simp
    have "0 < ?p div ?b" using m next_(2) by (metis div_greater_zero_iff mod_less not_less neq0_conv cb(2))
    then have i: "Suc ?i = ?p div ?b" using pred_div [OF cb(2) next_(2)] m by simp
    have l: "?p div ?b < length cs" using next_(3) by (simp add: less_mult_imp_div_less)
    have e: "fat_of D fs (cs ! ?i) = cs ! (?p div ?b)" using is_chain_next [of "fat_of D fs" _ cs ?i] ch l i by force
    have v1: "in_vol fs (cs ! ?i)" "in_vol fs (cs ! (?p div ?b))" using vol l i by simp_all
    obtain fs' where c: "create_chain v (cs ! ?i) fs = Some (cs ! (?p div ?b), fs')" "same_view D fs fs'" using chain_follow [OF inv v1(1)] e v1(2) by auto
    have "cs \<noteq> []" using l by auto
    then have "write_clust v (fp, fs) = Some (Some FR_OK, fp\<lparr>f_sclust := cs ! 0, f_clust := cs ! (?p div ?b)\<rparr>, fs')"
      using next_ c(1) cl sc good [OF v1(2)] by (auto simp: write_clust_def unat_gt_0)
    moreover have "grows D fs cs fs' cs" by (rule sets_grows [OF d fs ch same_view_sets [OF c(2) inv]]) simp
    moreover have "\<forall>x. off_fat fs x \<longrightarrow> view D fs' x = view D fs x" using same_view_sets [OF c(2) inv] by (simp add: sets_def)
    ultimately show ?thesis using next_(3) by blast
  next
    case grow
    then show ?thesis by (rule clust_new [OF d fs f p])
  qed
qed

end

end
