(* ===== verification/File_Write.thy ===== *)
theory File_Write
  imports File_Grow
begin

text \<open>
  Writing a file: \<open>f_write\<close> puts the bytes at the file pointer, with new clusters at the end of the
  chain, and leaves everything else on the volume alone.
\<close>

subsection \<open>The bytes of a file after a write\<close>

text \<open>
  The bytes \<open>bs\<close> stand at \<open>p\<close> now; of the bytes before, those in front of \<open>p\<close> are kept, and those
  behind the new ones up to \<open>e\<close>, the end of the file.
\<close>

definition puts :: "'k store \<Rightarrow> 'k FATFS \<Rightarrow> u32 list \<Rightarrow> 'k FATFS \<Rightarrow> u32 list \<Rightarrow> nat \<Rightarrow> u8 list \<Rightarrow> nat \<Rightarrow> bool" where
  "puts D fs cs fs' cs' p bs e \<longleftrightarrow> p + length bs \<le> length cs' * bcs_of fs \<and>
     (\<forall>i<length bs. file_data D fs' cs' ! (p + i) = bs ! i) \<and>
     (\<forall>i<length cs * bcs_of fs. i < p \<or> p + length bs \<le> i \<and> i < e \<longrightarrow> file_data D fs' cs' ! i = file_data D fs cs ! i)"

lemma puts_append:
  assumes a: "puts D fs cs fs1 cs1 p bs e" and b: "puts D fs1 cs1 fs2 cs2 (p + length bs) bs' e"
    and g: "grows D fs cs fs1 cs1" "grows D fs1 cs1 fs2 cs2"
  shows "puts D fs cs fs2 cs2 p (bs @ bs') e"
proof -
  have n: "bcs_of fs1 = bcs_of fs" using alloc_fields(3) g(1) by (auto simp: grows_def)
  have "length cs \<le> length cs1" using g(1) by (auto simp: grows_def prefix_def)
  then have l: "length cs * bcs_of fs \<le> length cs1 * bcs_of fs" by simp
  have "file_data D fs2 cs2 ! (p + i) = (bs @ bs') ! i" if i: "i < length (bs @ bs')" for i
  proof (cases "i < length bs")
    case True
    then have "p + i < length cs1 * bcs_of fs1" "p + i < p + length bs" using a n by (auto simp: puts_def)
    then have "file_data D fs2 cs2 ! (p + i) = file_data D fs1 cs1 ! (p + i)" using b by (simp add: puts_def)
    then show ?thesis using a True by (simp add: puts_def nth_append)
  next
    case False
    then have "i - length bs < length bs'" "p + length bs + (i - length bs) = p + i" using i by auto
    then show ?thesis using b False unfolding puts_def by (metis nth_append)
  qed
  moreover have "file_data D fs2 cs2 ! i = file_data D fs cs ! i"
    if i: "i < length cs * bcs_of fs" "i < p \<or> p + length (bs @ bs') \<le> i \<and> i < e" for i
  proof -
    have "i < length cs1 * bcs_of fs1" using less_le_trans [OF i(1) l] n by simp
    then have "file_data D fs2 cs2 ! i = file_data D fs1 cs1 ! i" using b i(2) by (auto simp: puts_def)
    also have "\<dots> = file_data D fs cs ! i" using a i by (auto simp: puts_def)
    finally show ?thesis .
  qed
  ultimately show ?thesis using b n by (simp add: puts_def add.assoc)
qed

lemma mem_cpy_nth:
  assumes "k + length xs \<le> length w" "j < length w"
  shows "mem_cpy k xs w ! j = (if k \<le> j \<and> j < k + length xs then xs ! (j - k) else w ! j)"
  using assms by (auto simp: mem_cpy_def nth_append min_def)

context block_drive
begin

text \<open>A chain that grew, with the sectors as they were.\<close>

lemma puts_nothing:
  assumes d: "data_inv D fs" and v: "\<forall>c\<in>set cs. in_vol fs c" and g: "grows D fs cs fs' cs'" and p: "p \<le> length cs' * bcs_of fs"
    and s: "\<forall>x. off_fat fs x \<longrightarrow> view D fs' x = view D fs x"
  shows "puts D fs cs fs' cs' p [] e"
proof -
  have a: "alloc_frame fs fs'" and d': "data_inv D fs'" and pre: "prefix cs cs'" using g by (simp_all add: grows_def)
  have v': "\<forall>c\<in>set cs'. in_vol fs' c" using g v alloc_fields(4) [OF a] by (auto simp: grows_def)
  have "file_data D fs' cs' ! i = file_data D fs cs ! i" if i: "i < length cs * bcs_of fs" for i
  proof -
    obtain ds where ds: "cs' = cs @ ds" using pre by (auto simp: prefix_def)
    have q: "i div 512 < length cs * unat (csize fs)" using file_data_nth(2) [OF d v i] .
    have "file_sects fs cs' ! (i div 512) = file_sects fs cs ! (i div 512)"
      using q file_sects_length [of fs cs] ds by (simp add: file_sects_def nth_append)
    moreover have "i < length cs' * bcs_of fs'" using i ds alloc_fields(3) [OF a] by (simp add: algebra_simps)
    note file_data_nth(1) [OF d' v' this]
    ultimately show ?thesis using file_data_nth(1) [OF d v i] file_sect_ok(3) [OF d v q] s alloc_fields(6) [OF a] by simp
  qed
  then show ?thesis using p by (simp add: puts_def)
qed

lemma puts_sets:
  assumes d: "data_inv D fs" and v: "\<forall>c\<in>set cs. in_vol fs c" and s: "sets D fs V fs'" and p: "p + length bs \<le> length cs * bcs_of fs"
    and new: "\<And>i. i < length bs \<Longrightarrow> V (file_sects fs cs ! ((p + i) div 512)) ! ((p + i) mod 512) = bs ! i"
    and old: "\<And>i. i < length cs * bcs_of fs \<Longrightarrow> i < p \<or> p + length bs \<le> i \<and> i < e \<Longrightarrow>
      V (file_sects fs cs ! (i div 512)) ! (i mod 512) = view D fs (file_sects fs cs ! (i div 512)) ! (i mod 512)"
  shows "puts D fs cs fs' cs p bs e"
proof -
  have a: "alloc_frame fs fs'" using s frame_alloc by (auto simp: sets_def)
  note f = alloc_fields [OF a]
  have d': "data_inv D fs'" using data_alloc [OF a d] s by (simp add: sets_def)
  have v': "\<forall>c\<in>set cs. in_vol fs' c" using v f(4) by simp
  have at: "file_data D fs' cs ! i = V (file_sects fs cs ! (i div 512)) ! (i mod 512)" if i: "i < length cs * bcs_of fs" for i
    using file_data_nth(1) [OF d' v', of i] file_sect_ok(3) [OF d v file_data_nth(2) [OF d v i]] s i f(3,6) by (simp add: sets_def)
  show ?thesis using p new old at file_data_nth(1) [OF d v] by (simp add: puts_def)
qed

text \<open>One sector written from position \<open>k\<close> on.\<close>

lemma puts_sector:
  assumes d: "data_inv D fs" and v: "\<forall>c\<in>set cs. in_vol fs c" and dist: "distinct cs" and p: "p < length cs * bcs_of fs"
    and n: "p mod 512 + length bs \<le> 512" and w: "length w = 512"
    and s: "sets D fs ((view D fs)(file_sects fs cs ! (p div 512) := mem_cpy (p mod 512) bs w)) fs'"
    and keep: "w = view D fs (file_sects fs cs ! (p div 512)) \<or> p mod 512 = 0 \<and> e \<le> p"
  shows "puts D fs cs fs' cs p bs e"
proof -
  let ?q = "p div 512" let ?k = "p mod 512"
  have q: "?q < length cs * unat (csize fs)" using file_data_nth(2) [OF d v p] .
  have bytes: "length cs * bcs_of fs = length cs * unat (csize fs) * 512" by (simp add: bcs_of_def mult.assoc)
  have pq: "512 * ?q + ?k = p" by simp
  have "512 * ?q + 512 \<le> length cs * bcs_of fs" using q unfolding bytes by linarith
  then have end_p: "p + length bs \<le> length cs * bcs_of fs" using n pq by linarith
  have same: "file_sects fs cs ! (i div 512) = file_sects fs cs ! ?q \<longleftrightarrow> i div 512 = ?q" if "i < length cs * bcs_of fs" for i
    using file_sects_inj [OF d v dist file_data_nth(2) [OF d v that] q] by auto
  have cpy: "mem_cpy ?k bs w ! j = (if ?k \<le> j \<and> j < ?k + length bs then bs ! (j - ?k) else w ! j)" if "j < 512" for j
    using mem_cpy_nth [of ?k bs w j] n w that by simp
  show ?thesis
  proof (rule puts_sets [OF d v s end_p])
    fix i assume i: "i < length bs"
    then have "(p + i) div 512 = ?q" by (intro same_div) (use n in linarith)
    moreover from this have "(p + i) mod 512 = ?k + i" using div_mult_mod_eq [of "p + i" 512] pq by linarith
    ultimately show "((view D fs)(file_sects fs cs ! ?q := mem_cpy ?k bs w)) (file_sects fs cs ! ((p + i) div 512)) ! ((p + i) mod 512) = bs ! i"
      using i n cpy [of "?k + i"] by simp
  next
    fix i assume i: "i < length cs * bcs_of fs" "i < p \<or> p + length bs \<le> i \<and> i < e"
    have "mem_cpy ?k bs w ! (i mod 512) = view D fs (file_sects fs cs ! ?q) ! (i mod 512)" if e: "i div 512 = ?q"
    proof -
      have "i = 512 * ?q + i mod 512" using e mult_div_mod_eq [of 512 i] by simp
      then have m: "i mod 512 < ?k \<or> ?k + length bs \<le> i mod 512 \<and> i < e" using i(2) pq by linarith
      then have "mem_cpy ?k bs w ! (i mod 512) = w ! (i mod 512)" using cpy [of "i mod 512"] by auto
      moreover have "w = view D fs (file_sects fs cs ! ?q)"
        using keep m \<open>i = 512 * ?q + i mod 512\<close> pq by (auto dest: less_le_trans)
      ultimately show ?thesis by simp
    qed
    then show "((view D fs)(file_sects fs cs ! ?q := mem_cpy ?k bs w)) (file_sects fs cs ! (i div 512)) ! (i mod 512) =
        view D fs (file_sects fs cs ! (i div 512)) ! (i mod 512)" using same [OF i(1)] by auto
  qed
qed

text \<open>A run of whole sectors.\<close>

lemma run_at:
  assumes d: "data_inv D fs" and v: "\<forall>c\<in>set cs. in_vol fs c" and dist: "distinct cs"
    and q: "q < length cs * unat (csize fs)" "q' < length cs * unat (csize fs)" and cc: "q mod unat (csize fs) + cc \<le> unat (csize fs)"
  shows "unat (file_sects fs cs ! q' - file_sects fs cs ! q) < cc \<longleftrightarrow> q \<le> q' \<and> q' < q + cc"
    and "q \<le> q' \<Longrightarrow> q' < q + cc \<Longrightarrow> unat (file_sects fs cs ! q' - file_sects fs cs ! q) = q' - q"
proof -
  let ?s = "file_sects fs cs"
  obtain b: "unat (csize fs) \<le> 128" using d by (rule csize_unat)
  have run: "?s ! q + of_nat i = ?s ! (q + i)" "q + i < length cs * unat (csize fs)" if "i < cc" for i
    using run_sects [OF refl _ q(1), of i] that cc by auto
  show at: "unat (?s ! q' - ?s ! q) = q' - q" if "q \<le> q'" "q' < q + cc"
  proof -
    have "q' - q < cc" using that by linarith
    from run(1) [OF this] have "?s ! q' - ?s ! q = of_nat (q' - q)" using that(1) by (simp add: algebra_simps)
    then show ?thesis using \<open>q' - q < cc\<close> cc b by (simp add: unat_of_nat)
  qed
  have "q' = q + unat (?s ! q' - ?s ! q)" if lt: "unat (?s ! q' - ?s ! q) < cc"
  proof -
    have "?s ! (q + unat (?s ! q' - ?s ! q)) = ?s ! q'" using run(1) [OF lt] by simp
    then show ?thesis using file_sects_inj [OF d v dist q(2) run(2) [OF lt]] by simp
  qed
  then show "unat (?s ! q' - ?s ! q) < cc \<longleftrightarrow> q \<le> q' \<and> q' < q + cc" using at by auto
qed

lemma puts_run:
  assumes d: "data_inv D fs" and v: "\<forall>c\<in>set cs. in_vol fs c" and dist: "distinct cs"
    and q: "q < length cs * unat (csize fs)" and cc: "q mod unat (csize fs) + cc \<le> unat (csize fs)" "512 * cc \<le> length wbuff" "0 < cc"
    and s: "sets D fs (\<lambda>x. if unat (x - file_sects fs cs ! q) < cc then take 512 (drop (512 * unat (x - file_sects fs cs ! q)) wbuff) else view D fs x) fs'"
  shows "puts D fs cs fs' cs (512 * q) (take (512 * cc) wbuff) e"
proof (rule puts_sets [OF d v s])
  let ?n = "unat (csize fs)" let ?s = "file_sects fs cs"
  have bytes: "length cs * bcs_of fs = length cs * ?n * 512" by (simp add: bcs_of_def mult.assoc)
  have l: "length (take (512 * cc) wbuff) = 512 * cc" using cc(2) by simp
  have "q + (cc - 1) < length cs * ?n" using run_sects(2) [OF refl _ q, of "cc - 1"] cc(1,3) by linarith
  then have "q + cc \<le> length cs * ?n" using cc(3) by linarith
  then show fits: "512 * q + length (take (512 * cc) wbuff) \<le> length cs * bcs_of fs" unfolding l bytes by linarith
  note at = run_at [OF d v dist q _ cc(1)]
  {
    fix i assume i: "i < length (take (512 * cc) wbuff)"
    have lt: "512 * q + i < length cs * bcs_of fs" using fits i by linarith
    have j: "i div 512 < cc" using i l by (simp add: less_mult_imp_div_less mult.commute)
    have e: "(512 * q + i) div 512 = q + i div 512" "(512 * q + i) mod 512 = i mod 512" by simp_all
    have "512 * (i div 512) + 512 \<le> 512 * cc" using j by linarith
    then have "take 512 (drop (512 * (i div 512)) wbuff) ! (i mod 512) = wbuff ! i" using cc(2) by simp
    then show "(if unat (?s ! ((512 * q + i) div 512) - ?s ! q) < cc then take 512 (drop (512 * unat (?s ! ((512 * q + i) div 512) - ?s ! q)) wbuff)
        else view D fs (?s ! ((512 * q + i) div 512))) ! ((512 * q + i) mod 512) = take (512 * cc) wbuff ! i"
      using at [OF file_data_nth(2) [OF d v lt]] e j i by simp
  }
  fix i assume i: "i < length cs * bcs_of fs" "i < 512 * q \<or> 512 * q + length (take (512 * cc) wbuff) \<le> i \<and> i < e"
  then have "\<not> (q \<le> i div 512 \<and> i div 512 < q + cc)" unfolding l by (auto simp: less_eq_div_iff_mult_less_eq div_less_iff_less_mult)
  then show "(if unat (?s ! (i div 512) - ?s ! q) < cc then take 512 (drop (512 * unat (?s ! (i div 512) - ?s ! q)) wbuff) else view D fs (?s ! (i div 512))) ! (i mod 512) =
      view D fs (?s ! (i div 512)) ! (i mod 512)" using at(1) [OF file_data_nth(2) [OF d v i(1)]] by auto
qed

end

subsection \<open>One turn of the loop\<close>

text \<open>
  A turn leaves the position in the same sector, or moves it by whole sectors of the cluster.
\<close>

definition step_in :: "'k FATFS \<Rightarrow> u32 list \<Rightarrow> nat \<Rightarrow> nat \<Rightarrow> u32 \<Rightarrow> bool" where
  "step_in fs cs p m s \<longleftrightarrow> p mod 512 + m \<le> 512 \<and> s = file_sects fs cs ! (p div 512) \<or>
     p mod 512 = 0 \<and> (\<exists>k. m = 512 * k \<and> p div 512 mod unat (csize fs) + k \<le> unat (csize fs))"

text \<open>The window is flushed when it holds the sector of the last turn.\<close>

definition flushed :: "'k drive \<Rightarrow> FIL \<Rightarrow> 'k FATFS \<Rightarrow> 'k FATFS \<Rightarrow> bool" where
  "flushed v fp fs fs0 \<longleftrightarrow> (if winsect fs = f_dsect fp then move_window v 0 fs else Some (FR_OK, fs)) = Some (FR_OK, fs0)"

context block_drive
begin

lemma flush_ok:
  assumes inv: "fat_inv D fs"
  shows "\<exists>fs'. move_window v 0 fs = Some (FR_OK, fs') \<and> same_view D fs fs'"
proof -
  have w: "win_inv D fs" using inv by (simp add: fat_inv_def)
  then have "\<not> in_mirror fs 0" by (auto simp: in_mirror_def win_inv_def geometry_def word_less_nat_alt)
  from move_window_ok [OF stores w _ this] obtain fs' where "move_window v 0 fs = Some (FR_OK, fs')" "win_inv D fs'" "fs_frame fs fs'"
    "\<forall>x. \<not> in_mirror fs x \<longrightarrow> view D fs' x = view D fs x" by auto
  moreover from this have "fat_inv D fs'" using inv fat_inv_frame by blast
  ultimately show ?thesis by (auto simp: same_view_def)
qed

lemma step_file:
  assumes f: "file_at D fs cs fp" and m: "0 < m" "step_in fs cs (unat (f_fptr fp)) m s" "unat (f_fptr fp) + m < 2 ^ 32"
    "unat (f_fptr fp) + m \<le> length cs * bcs_of fs"
  shows "file_at D fs cs (fp\<lparr>f_clust := cs ! (unat (f_fptr fp) div bcs_of fs), f_dsect := s, f_fptr := f_fptr fp + of_nat m\<rparr>)"
proof (cases "unat (f_fptr fp) mod 512 + m \<le> 512 \<and> s = file_sects fs cs ! (unat (f_fptr fp) div 512)")
  case True
  then show ?thesis using moved_in_sector [OF f m(1) _ m(3,4)] by simp
next
  case False
  then obtain k where k: "m = 512 * k" "unat (f_fptr fp) mod 512 = 0" "unat (f_fptr fp) div 512 mod unat (csize fs) + k \<le> unat (csize fs)"
    using m(2) by (auto simp: step_in_def)
  then show ?thesis using moved_sectors [OF f k(2) refl _ k(3)] m by simp
qed

lemma partial_puts:
  assumes d: "data_inv D fs" and sane: "fat_sane D fs" and ch: "is_chain (fat_of D fs) (n_fatent fs) cs"
    and p: "unat (f_fptr fp) < length cs * bcs_of fs" and ds: "f_dsect fp = file_sects fs cs ! (unat (f_fptr fp) div 512)" and ne: "wbuff \<noteq> []"
  shows "\<exists>m fs'. write_partial v wbuff (fp, fs) = Some ((FR_OK, m), fp, fs') \<and> 0 < m \<and> m \<le> length wbuff \<and> grows D fs cs fs' cs \<and>
    puts D fs cs fs' cs (unat (f_fptr fp)) (take m wbuff) e \<and> step_in fs cs (unat (f_fptr fp)) m (f_dsect fp)"
proof -
  let ?p = "unat (f_fptr fp)" let ?s = "file_sects fs cs ! (?p div 512)" let ?m = "min (length wbuff) (512 - ?p mod 512)"
  have v: "\<forall>c\<in>set cs. in_vol fs c" using is_chain_in [OF ch] by (auto simp: in_vol_def)
  have inv: "fat_inv D fs" using d by (simp add: data_inv_def)
  have q: "?p div 512 < length cs * unat (csize fs)" using file_data_nth(2) [OF d v p] .
  note ok = file_sect_ok [OF d v q]
  obtain fs' where w: "write_partial v wbuff (fp, fs) = Some ((FR_OK, ?m), fp, fs')"
    "sets D fs ((view D fs)(?s := mem_cpy (?p mod 512) (take ?m wbuff) (view D fs ?s))) fs'"
    using partial_ok [OF inv ok(1,4,3) ds refl refl] by blast
  have l: "?p mod 512 + ?m \<le> 512" "0 < ?m" "?m \<le> length wbuff" using ne mod_less_divisor [of 512 ?p] by auto
  have lv: "length (view D fs ?s) = 512" using file_blocks [OF d v] q by (simp add: file_sects_length)
  have "puts D fs cs fs' cs ?p (take ?m wbuff) e" by (rule puts_sector [OF d v is_chain_distinct [OF ch] p _ lv w(2)]) (use l in auto)
  moreover have "grows D fs cs fs' cs" by (rule sets_grows [OF d sane _ w(2)]) (use ch q in \<open>auto simp: file_sects_length\<close>)
  ultimately show ?thesis using w(1) l ds by (auto simp: step_in_def)
qed

text \<open>The sector a turn writes to.\<close>

lemma sector_at:
  assumes d: "data_inv D fs" and v: "\<forall>c\<in>set cs. in_vol fs c" and p: "unat (f_fptr fp) < length cs * bcs_of fs"
    and cl: "c = cs ! (unat (f_fptr fp) div bcs_of fs)"
  shows "clust2sect fs c \<noteq> 0" "clust2sect fs c + ucast (csect_of fp fs) = file_sects fs cs ! (unat (f_fptr fp) div 512)"
proof -
  let ?p = "unat (f_fptr fp)"
  have q: "?p div 512 < length cs * unat (csize fs)" using file_data_nth(2) [OF d v p] .
  have "?p div bcs_of fs < length cs" using p by (simp add: less_mult_imp_div_less)
  then show "clust2sect fs c \<noteq> 0" using clust2sect_nz [OF d] v cl by simp
  show "clust2sect fs c + ucast (csect_of fp fs) = file_sects fs cs ! (?p div 512)"
    using file_sects_nth [OF q] cl by (simp add: pos_div [OF refl] flip: csect_unat [OF d])
qed

lemma sector_large:
  assumes fl: "flushed v fp fs fs0" and d: "data_inv D fs0" and sane: "fat_sane D fs0" and ch: "is_chain (fat_of D fs0) (n_fatent fs0) cs"
    and p: "unat (f_fptr fp) < length cs * bcs_of fs0" "unat (f_fptr fp) mod 512 = 0" and cl: "f_clust fp = cs ! (unat (f_fptr fp) div bcs_of fs0)"
    and lw: "512 \<le> length wbuff" "length wbuff < 2 ^ 32"
  shows "\<exists>m fs'. write_sector v (csect_of fp fs0) wbuff (fp, fs) = Some ((FR_OK, m), fp, fs') \<and> 0 < m \<and> m \<le> length wbuff \<and>
    grows D fs0 cs fs' cs \<and> puts D fs0 cs fs' cs (unat (f_fptr fp)) (take m wbuff) e \<and> step_in fs0 cs (unat (f_fptr fp)) m (f_dsect fp)"
proof -
  let ?p = "unat (f_fptr fp)" let ?q = "?p div 512" let ?n = "unat (csize fs0)" let ?s = "file_sects fs0 cs"
  let ?btw = "of_nat (length wbuff) :: u32" let ?cc = "clip (csect_of fp fs0) ?btw fs0"
  have v: "\<forall>c\<in>set cs. in_vol fs0 c" using is_chain_in [OF ch] by (auto simp: in_vol_def)
  have inv: "fat_inv D fs0" using d by (simp add: data_inv_def)
  have q: "?q < length cs * ?n" using file_data_nth(2) [OF d v p(1)] .
  obtain n0: "0 < ?n" and n128: "?n \<le> 128" using d by (rule csize_unat)
  have cst: "unat (csect_of fp fs0) = ?q mod ?n" by (rule csect_unat [OF d])
  have ub: "unat ?btw = length wbuff" using lw(2) by (simp add: unat_of_nat)
  have cc: "unat ?cc = min (length wbuff div 512) (?n - ?q mod ?n)" using clip_unat [OF d, of "csect_of fp fs0" ?btw] cst n0 ub by simp
  have "0 < length wbuff div 512" using lw(1) by (simp add: div_greater_zero_iff)
  then have cp: "0 < unat ?cc" "?q mod ?n + unat ?cc \<le> ?n" "512 * unat ?cc \<le> length wbuff"
    using cc mod_less_divisor [OF n0, of ?q] by auto linarith+
  have run: "?s ! ?q + of_nat i = ?s ! (?q + i)" "?q + i < length cs * ?n" if "i < unat ?cc" for i
    using run_sects [OF refl _ q, of i] that cp by auto
  have sects: "\<forall>i<unat ?cc. ?s ! ?q + of_nat i \<in> st_set D \<and> off_fat fs0 (?s ! ?q + of_nat i) \<and> ?s ! ?q + of_nat i \<noteq> 0"
    using file_sect_ok [OF d v run(2)] run(1) by simp
  have c128: "unat ?cc \<le> 128" using cp(2) n128 by linarith
  let ?V = "\<lambda>x. if unat (x - ?s ! ?q) < unat ?cc then take 512 (drop (512 * unat (x - ?s ! ?q)) wbuff) else view D fs0 x"
  obtain fs' where w: "write_direct v wbuff (?s ! ?q) ?cc fs0 = Some (RES_OK, fs')" "sets D fs0 ?V fs'"
    using direct_ok [OF inv cp(1) c128 cp(3) sects] by blast
  have "?btw div 512 \<noteq> 0" using \<open>0 < length wbuff div 512\<close> ub by (simp add: unat_eq_zero [symmetric] unat_div)
  then have "write_sector v (csect_of fp fs0) wbuff (fp, fs) = Some ((FR_OK, 512 * unat ?cc), fp, fs')"
    using fl sector_at [OF d v p(1) cl] w(1) by (simp add: write_sector_def flushed_def Let_def)
  moreover have "grows D fs0 cs fs' cs"
  proof (rule sets_grows [OF d sane _ w(2)])
    fix x assume x: "x \<notin> set (?s)"
    have "\<not> unat (x - ?s ! ?q) < unat ?cc"
    proof
      assume lt: "unat (x - ?s ! ?q) < unat ?cc"
      then have "x = ?s ! (?q + unat (x - ?s ! ?q))" using run(1) [OF lt] by simp
      then show False using x run(2) [OF lt] by (metis file_sects_length nth_mem)
    qed
    then show "?V x = view D fs0 x" by simp
  qed (use ch in simp)
  moreover have "puts D fs0 cs fs' cs (512 * ?q) (take (512 * unat ?cc) wbuff) e" by (rule puts_run [OF d v is_chain_distinct [OF ch] q cp(2,3,1) w(2)])
  moreover have "512 * ?q = ?p" using p(2) by (simp add: mod_eq_0_iff_dvd)
  moreover have "step_in fs0 cs ?p (512 * unat ?cc) (f_dsect fp)" using p(2) cp(2) by (auto simp: step_in_def)
  ultimately show ?thesis using cp(1,3) by (intro exI [of _ "512 * unat ?cc"] exI [of _ fs']) simp
qed

lemma sector_small:
  assumes fl: "flushed v fp fs fs0" and d: "data_inv D fs0" and sane: "fat_sane D fs0" and ch: "is_chain (fat_of D fs0) (n_fatent fs0) cs"
    and p: "unat (f_fptr fp) < length cs * bcs_of fs0" "unat (f_fptr fp) mod 512 = 0" and cl: "f_clust fp = cs ! (unat (f_fptr fp) div bcs_of fs0)"
    and lw: "length wbuff < 512" "wbuff \<noteq> []"
  shows "\<exists>m s fs'. write_sector v (csect_of fp fs0) wbuff (fp, fs) = Some ((FR_OK, m), fp\<lparr>f_dsect := s\<rparr>, fs') \<and> 0 < m \<and> m \<le> length wbuff \<and>
    grows D fs0 cs fs' cs \<and> puts D fs0 cs fs' cs (unat (f_fptr fp)) (take m wbuff) (unat (f_fsize fp)) \<and> step_in fs0 cs (unat (f_fptr fp)) m s"
proof -
  let ?p = "unat (f_fptr fp)" let ?s = "file_sects fs0 cs ! (?p div 512)" let ?fp = "fp\<lparr>f_dsect := ?s\<rparr>"
  have v: "\<forall>c\<in>set cs. in_vol fs0 c" using is_chain_in [OF ch] by (auto simp: in_vol_def)
  have inv: "fat_inv D fs0" using d by (simp add: data_inv_def)
  have q: "?p div 512 < length cs * unat (csize fs0)" using file_data_nth(2) [OF d v p(1)] .
  note ok = file_sect_ok [OF d v q] and at = sector_at [OF d v p(1) cl]
  have "(of_nat (length wbuff) :: u32) div 512 = 0" using lw(1) by (simp add: unat_eq_zero [symmetric] unat_div unat_of_nat)
  then have call: "write_sector v (csect_of fp fs0) wbuff (fp, fs) = write_partial v wbuff (?fp, fs1)"
    if "edge_sector v ?s (fp, fs0) = Some (FR_OK, fs1)" for fs1
    using fl at that by (simp add: write_sector_def flushed_def Let_def)
  show ?thesis
  proof (cases "f_fptr fp \<ge> f_fsize fp")
    case True
    obtain fs1 fs' w where e: "edge_sector v ?s (fp, fs0) = Some (FR_OK, fs1)" "write_partial v wbuff (?fp, fs1) = Some ((FR_OK, length wbuff), ?fp, fs')"
      "length w = 512" "sets D fs0 ((view D fs0)(?s := mem_cpy 0 wbuff w)) fs'"
      using edge_ok [OF inv ok(1,4,3) True p(2), of "length wbuff" wbuff] lw(1) by auto
    have st: "sets D fs0 ((view D fs0)(?s := mem_cpy (?p mod 512) wbuff w)) fs'" using e(4) p(2) by simp
    have "puts D fs0 cs fs' cs ?p wbuff (unat (f_fsize fp))"
      by (rule puts_sector [OF d v is_chain_distinct [OF ch] p(1) _ e(3) st]) (use lw p(2) True in \<open>auto simp: word_le_nat_alt\<close>)
    moreover have "grows D fs0 cs fs' cs" by (rule sets_grows [OF d sane _ e(4)]) (use ch q in \<open>auto simp: file_sects_length\<close>)
    moreover have "step_in fs0 cs ?p (length wbuff) ?s" using p(2) lw by (simp add: step_in_def)
    ultimately show ?thesis using call [OF e(1)] e(2) lw(2) by (intro exI [of _ "length wbuff"] exI [of _ ?s] exI [of _ fs']) simp
  next
    case False
    then have e: "edge_sector v ?s (fp, fs0) = Some (FR_OK, fs0)" by (simp add: edge_sector_def)
    have "unat (f_fptr ?fp) < length cs * bcs_of fs0" "f_dsect ?fp = file_sects fs0 cs ! (unat (f_fptr ?fp) div 512)" using p by simp_all
    from partial_puts [OF d sane ch this lw(2), of "unat (f_fsize fp)"] call [OF e] show ?thesis by fastforce
  qed
qed

lemma write_sector_ok:
  assumes d: "data_inv D fs" and sane: "fat_sane D fs" and ch: "is_chain (fat_of D fs) (n_fatent fs) cs"
    and p: "unat (f_fptr fp) < length cs * bcs_of fs" "unat (f_fptr fp) mod 512 = 0" and cl: "f_clust fp = cs ! (unat (f_fptr fp) div bcs_of fs)"
    and lw: "length wbuff < 2 ^ 32" "wbuff \<noteq> []"
  shows "\<exists>m s fs'. write_sector v (csect_of fp fs) wbuff (fp, fs) = Some ((FR_OK, m), fp\<lparr>f_dsect := s\<rparr>, fs') \<and> 0 < m \<and> m \<le> length wbuff \<and>
    grows D fs cs fs' cs \<and> puts D fs cs fs' cs (unat (f_fptr fp)) (take m wbuff) (unat (f_fsize fp)) \<and> step_in fs cs (unat (f_fptr fp)) m s"
proof -
  have inv: "fat_inv D fs" and v: "\<forall>c\<in>set cs. in_vol fs c" using d is_chain_in [OF ch] by (auto simp: data_inv_def in_vol_def)
  obtain fs0 where fl: "flushed v fp fs fs0" and sv: "same_view D fs fs0"
    using flush_ok [OF inv] same_view_refl [OF inv] by (cases "winsect fs = f_dsect fp") (auto simp: flushed_def)
  have g: "grows D fs cs fs0 cs" by (rule sets_grows [OF d sane _ same_view_sets [OF sv inv]]) (use ch in auto)
  have pn: "puts D fs cs fs0 cs (unat (f_fptr fp)) [] (unat (f_fsize fp))"
    by (rule puts_nothing [OF d v g]) (use p(1) same_view_sets [OF sv inv] in \<open>auto simp: sets_def\<close>)
  have a: "alloc_frame fs fs0" and d0: "data_inv D fs0" and sane0: "fat_sane D fs0" and ch0: "is_chain (fat_of D fs0) (n_fatent fs0) cs"
    using g ch alloc_fields(5) [of fs fs0] by (auto simp: grows_def)
  note f = alloc_fields [OF a]
  have p0: "unat (f_fptr fp) < length cs * bcs_of fs0" and cl0: "f_clust fp = cs ! (unat (f_fptr fp) div bcs_of fs0)" using p cl f by simp_all
  obtain m s fs' where w: "write_sector v (csect_of fp fs0) wbuff (fp, fs) = Some ((FR_OK, m), fp\<lparr>f_dsect := s\<rparr>, fs')" "0 < m" "m \<le> length wbuff"
    "grows D fs0 cs fs' cs" "puts D fs0 cs fs' cs (unat (f_fptr fp)) (take m wbuff) (unat (f_fsize fp))" "step_in fs0 cs (unat (f_fptr fp)) m s"
  proof (cases "length wbuff < 512")
    case True
    then show ?thesis using sector_small [OF fl d0 sane0 ch0 p0 p(2) cl0 _ lw(2)] that by blast
  next
    case False
    moreover have "fp = fp\<lparr>f_dsect := f_dsect fp\<rparr>" by simp
    ultimately show ?thesis using sector_large [OF fl d0 sane0 ch0 p0 p(2) cl0 _ lw(1)] that by (metis not_less)
  qed
  have "puts D fs cs fs' cs (unat (f_fptr fp)) ([] @ take m wbuff) (unat (f_fsize fp))" using puts_append [OF pn _ g w(4)] w(5) by simp
  moreover have "step_in fs cs (unat (f_fptr fp)) m s" using w(6) f by (simp add: step_in_def)
  ultimately show ?thesis using w(1,2,3) grows_trans [OF g w(4)] f by auto
qed

end

text \<open>Every cluster is taken.\<close>

definition disk_full :: "'k store \<Rightarrow> 'k FATFS \<Rightarrow> bool" where
  "disk_full D fs \<longleftrightarrow> (\<forall>c. in_vol fs c \<longrightarrow> fat_of D fs c \<noteq> 0)"

text \<open>A write stops early only at the end of the last cluster of a full disk.\<close>

definition stopped :: "'k store \<Rightarrow> 'k FATFS \<Rightarrow> u32 list \<Rightarrow> FIL \<Rightarrow> bool" where
  "stopped D fs cs fp \<longleftrightarrow> disk_full D fs \<and> unat (f_fptr fp) = length cs * bcs_of fs"

lemma is_chain_taken: "is_chain F n cs \<Longrightarrow> c \<in> set cs \<Longrightarrow> F c \<noteq> 0"
proof (induction F n cs rule: is_chain.induct)
  case (3 F n c' d cs)
  then have "2 \<le> d" using is_chain_in by auto
  then have "d \<noteq> 0" by (auto simp: word_le_nat_alt)
  then show ?case using 3 by auto
qed (auto simp: word_le_nat_alt word_less_nat_alt)

lemma grows_full:
  assumes "disk_full D fs" "grows D fs cs fs' cs'"
  shows "disk_full D fs'"
proof -
  have a: "alloc_frame fs fs'" using assms(2) by (simp add: grows_def)
  have "fat_of D fs' c \<noteq> 0" if "in_vol fs c" for c
  proof (cases "c \<in> set cs'")
    case True
    then show ?thesis using assms(2) is_chain_taken [of "fat_of D fs'" "n_fatent fs" cs' c] by (auto simp: grows_def)
  next
    case False
    then show ?thesis using assms that by (auto simp: grows_def disk_full_def)
  qed
  then show ?thesis using alloc_fields(4) [OF a] by (simp add: disk_full_def)
qed

text \<open>The object after its chain has grown.\<close>

lemma grows_file:
  assumes g: "grows D fs cs fs' cs'" and f: "file_at D fs cs fp"
  shows "file_at D fs' cs' (fp\<lparr>f_sclust := if cs' = [] then 0 else cs' ! 0\<rparr>)"
proof -
  have a: "alloc_frame fs fs'" using g by (simp add: grows_def)
  note fl = alloc_fields [OF a]
  obtain ds where ds: "cs' = cs @ ds" using g by (auto simp: grows_def prefix_def)
  let ?p = "unat (f_fptr fp)" let ?b = "bcs_of fs"
  have le: "?p \<le> length cs * ?b" "unat (f_fsize fp) \<le> length cs * ?b" using f by (simp_all add: file_at_def)
  have b: "length cs * ?b \<le> length cs' * ?b" using ds by simp
  have "f_clust fp = cs' ! ((?p - 1) div ?b)" if "0 < ?p"
  proof -
    have "?p - 1 < length cs * ?b" using le(1) that by linarith
    then have "(?p - 1) div ?b < length cs" by (rule less_mult_imp_div_less)
    then show ?thesis using f that ds by (simp add: file_at_def nth_append)
  qed
  moreover have "f_dsect fp = file_sects fs cs' ! (?p div 512)" if m: "?p mod 512 \<noteq> 0"
  proof -
    have "?p \<noteq> length cs * ?b" using m by (auto simp: bcs_of_def)
    then have "?p < length cs * unat (csize fs) * 512" using le(1) by (simp add: bcs_of_def mult.assoc)
    then have "?p div 512 < length (file_sects fs cs)" by (simp add: less_mult_imp_div_less file_sects_length)
    then show ?thesis using f m ds by (simp add: file_at_def file_sects_def nth_append)
  qed
  moreover note le_trans [OF le(1) b] le_trans [OF le(2) b]
  ultimately show ?thesis using g by (auto simp: file_at_def fl grows_def)
qed

subsection \<open>Bytes written by turns\<close>

text \<open>The first \<open>m\<close> bytes of the buffer are written, and the object has moved on by them.\<close>

definition wrote :: "'k store \<Rightarrow> 'k FATFS \<Rightarrow> u32 list \<Rightarrow> FIL \<Rightarrow> u8 list \<Rightarrow> nat \<Rightarrow> FIL \<Rightarrow> 'k FATFS \<Rightarrow> u32 list \<Rightarrow> bool" where
  "wrote D fs cs fp wbuff m fp' fs' cs' \<longleftrightarrow> m \<le> length wbuff \<and> grows D fs cs fs' cs' \<and>
     puts D fs cs fs' cs' (unat (f_fptr fp)) (take m wbuff) (unat (f_fsize fp)) \<and> file_at D fs' cs' fp' \<and>
     f_fptr fp' = f_fptr fp + of_nat m \<and> fp' = fp\<lparr>f_sclust := f_sclust fp', f_clust := f_clust fp', f_dsect := f_dsect fp', f_fptr := f_fptr fp'\<rparr>"

lemma wrote_append:
  assumes a: "wrote D fs cs fp wbuff m fp1 fs1 cs1" and b: "wrote D fs1 cs1 fp1 (drop m wbuff) m' fp2 fs2 cs2"
    and len: "unat (f_fptr fp) + m < 2 ^ 32"
  shows "wrote D fs cs fp wbuff (m + m') fp2 fs2 cs2"
proof -
  have up: "unat (f_fptr fp1) = unat (f_fptr fp) + m" using a unat_plus_nat [OF len] by (simp add: wrote_def)
  have e: "f_fsize fp1 = f_fsize fp" using a by (cases fp; cases fp1) (simp add: wrote_def)
  have g: "grows D fs cs fs1 cs1" "grows D fs1 cs1 fs2 cs2" and l: "m \<le> length wbuff" "m' \<le> length wbuff - m" using a b by (simp_all add: wrote_def)
  have "take (m + m') wbuff = take m wbuff @ take m' (drop m wbuff)" by (simp add: take_add)
  moreover have "puts D fs cs fs2 cs2 (unat (f_fptr fp)) (take m wbuff @ take m' (drop m wbuff)) (unat (f_fsize fp))"
    by (rule puts_append [OF _ _ g]) (use a b up e l in \<open>simp_all add: wrote_def\<close>)
  moreover have "fp2 = fp\<lparr>f_sclust := f_sclust fp2, f_clust := f_clust fp2, f_dsect := f_dsect fp2, f_fptr := f_fptr fp2\<rparr>"
    using a b by (cases fp; cases fp1; cases fp2) (simp add: wrote_def)
  ultimately show ?thesis using a b l grows_trans [OF g] by (simp add: wrote_def)
qed

context block_drive
begin

lemma wrote_nothing:
  assumes d: "data_inv D fs" and f: "file_at D fs cs fp" and g: "grows D fs cs fs' cs" and s: "\<forall>x. off_fat fs x \<longrightarrow> view D fs' x = view D fs x"
  shows "wrote D fs cs fp wbuff 0 fp fs' cs"
proof -
  have v: "\<forall>c\<in>set cs. in_vol fs c" using file_at_in_vol [OF f] by blast
  have "puts D fs cs fs' cs (unat (f_fptr fp)) [] (unat (f_fsize fp))" by (rule puts_nothing [OF d v g _ s]) (use f in \<open>simp add: file_at_def\<close>)
  moreover have "fp\<lparr>f_sclust := if cs = [] then 0 else cs ! 0\<rparr> = fp" using f by (simp add: file_at_def)
  then have "file_at D fs' cs fp" using grows_file [OF g f] by simp
  ultimately show ?thesis using g by (simp add: wrote_def)
qed

text \<open>A turn inside a sector of the file.\<close>

lemma chunk_partial:
  assumes d: "data_inv D fs" and sane: "fat_sane D fs" and f: "file_at D fs cs fp" and ne: "wbuff \<noteq> []"
    and len: "unat (f_fptr fp) + length wbuff < 2 ^ 32" and o: "unat (f_fptr fp) mod 512 \<noteq> 0"
  shows "\<exists>m fs'. write_chunk v wbuff (fp, fs) = Some ((Some FR_OK, m), fp, fs') \<and> 0 < m \<and>
    wrote D fs cs fp wbuff m (fp\<lparr>f_fptr := f_fptr fp + of_nat m\<rparr>) fs' cs"
proof -
  let ?p = "unat (f_fptr fp)"
  have "?p \<le> length cs * bcs_of fs" "?p \<noteq> length cs * bcs_of fs" using f o by (auto simp: file_at_def bcs_of_def)
  then have p: "?p < length cs * bcs_of fs" by linarith
  then have cs: "cs \<noteq> []" by auto
  have ch: "is_chain (fat_of D fs) (n_fatent fs) cs" and k: "f_sclust fp = cs ! 0" and ds: "f_dsect fp = file_sects fs cs ! (?p div 512)"
    using f cs o by (auto simp: file_at_def)
  obtain m fs' where w: "write_partial v wbuff (fp, fs) = Some ((FR_OK, m), fp, fs')" "0 < m" "m \<le> length wbuff" "grows D fs cs fs' cs"
    "puts D fs cs fs' cs ?p (take m wbuff) (unat (f_fsize fp))" "step_in fs cs ?p m (f_dsect fp)"
    using partial_puts [OF d sane ch p ds ne] by blast
  have end_p: "?p + m \<le> length cs * bcs_of fs" using w(3,5) by (simp add: puts_def)
  have pp: "0 < ?p" using o by (metis gr0I mod_0)
  have "(?p - 1) div 512 = ?p div 512" using pred_div [of 512 ?p] o pp by simp
  then have c: "f_clust fp = cs ! (?p div bcs_of fs)" using f pp by (simp add: file_at_def pos_div [OF refl])
  have "fp\<lparr>f_clust := cs ! (?p div bcs_of fs), f_dsect := f_dsect fp, f_fptr := f_fptr fp + of_nat m\<rparr> = fp\<lparr>f_fptr := f_fptr fp + of_nat m\<rparr>"
    using c by (cases fp) simp
  then have "file_at D fs cs (fp\<lparr>f_fptr := f_fptr fp + of_nat m\<rparr>)" using step_file [OF f w(2,6) _ end_p] w(3) len by simp
  from grows_file [OF w(4) this] have "file_at D fs' cs (fp\<lparr>f_fptr := f_fptr fp + of_nat m\<rparr>)" using cs k by (cases fp) simp
  moreover have "f_fptr fp mod 512 \<noteq> 0" using o by (simp add: unat_eq_zero [symmetric] unat_mod)
  ultimately show ?thesis using w by (intro exI [of _ m] exI [of _ fs']) (simp add: write_chunk_def wrote_def)
qed

text \<open>A turn at the start of a sector whose cluster is known now.\<close>

lemma chunk_sector:
  assumes d: "data_inv D fs" and sane: "fat_sane D fs" and f: "file_at D fs cs fp" and ne: "wbuff \<noteq> []"
    and len: "unat (f_fptr fp) + length wbuff < 2 ^ 32" and p: "unat (f_fptr fp) < length cs * bcs_of fs" "unat (f_fptr fp) mod 512 = 0"
  shows "\<exists>m s fs'. write_sector v (csect_of fp fs) wbuff (fp\<lparr>f_clust := cs ! (unat (f_fptr fp) div bcs_of fs)\<rparr>, fs) =
      Some ((FR_OK, m), fp\<lparr>f_clust := cs ! (unat (f_fptr fp) div bcs_of fs), f_dsect := s\<rparr>, fs') \<and> 0 < m \<and>
    wrote D fs cs fp wbuff m (fp\<lparr>f_clust := cs ! (unat (f_fptr fp) div bcs_of fs), f_dsect := s, f_fptr := f_fptr fp + of_nat m\<rparr>) fs' cs"
proof -
  let ?p = "unat (f_fptr fp)" let ?fp = "fp\<lparr>f_clust := cs ! (?p div bcs_of fs)\<rparr>"
  have cs: "cs \<noteq> []" using p(1) by auto
  then have ch: "is_chain (fat_of D fs) (n_fatent fs) cs" and k: "f_sclust fp = cs ! 0" using f by (auto simp: file_at_def)
  have p': "unat (f_fptr ?fp) < length cs * bcs_of fs" "unat (f_fptr ?fp) mod 512 = 0" "f_clust ?fp = cs ! (unat (f_fptr ?fp) div bcs_of fs)"
    "length wbuff < 2 ^ 32" using p len by simp_all
  have "csect_of ?fp fs = csect_of fp fs" by (simp add: csect_of_def)
  then obtain m s fs' where w: "write_sector v (csect_of fp fs) wbuff (?fp, fs) = Some ((FR_OK, m), ?fp\<lparr>f_dsect := s\<rparr>, fs')" "0 < m" "m \<le> length wbuff"
    "grows D fs cs fs' cs" "puts D fs cs fs' cs ?p (take m wbuff) (unat (f_fsize fp))" "step_in fs cs ?p m s"
    using write_sector_ok [OF d sane ch p' ne] by auto
  let ?fp' = "fp\<lparr>f_clust := cs ! (?p div bcs_of fs), f_dsect := s, f_fptr := f_fptr fp + of_nat m\<rparr>"
  have "?p + m \<le> length cs * bcs_of fs" using w(3,5) by (simp add: puts_def)
  then have "file_at D fs cs ?fp'" using step_file [OF f w(2,6)] w(3) len by simp
  from grows_file [OF w(4) this] have "file_at D fs' cs ?fp'" using cs k by (cases fp) simp
  then have "wrote D fs cs fp wbuff m ?fp' fs' cs" using w(3-5) by (cases fp) (simp add: wrote_def)
  then show ?thesis using w(1,2) by auto
qed

lemma write_chunk_ok:
  assumes d: "data_inv D fs" and sane: "fat_sane D fs" and f: "file_at D fs cs fp" and ne: "wbuff \<noteq> []"
    and len: "unat (f_fptr fp) + length wbuff < 2 ^ 32"
  shows "\<exists>r m fp' fs' cs'. write_chunk v wbuff (fp, fs) = Some ((r, m), fp', fs') \<and>
    wrote D fs cs fp wbuff m (fp'\<lparr>f_fptr := f_fptr fp' + of_nat m\<rparr>) fs' cs' \<and> (r = None \<and> m = 0 \<and> stopped D fs' cs' fp' \<or> r = Some FR_OK \<and> 0 < m)"
proof (cases "unat (f_fptr fp) mod 512 = 0")
  case False
  then show ?thesis using chunk_partial [OF assms] by blast
next
  case True
  let ?p = "unat (f_fptr fp)"
  have al: "f_fptr fp mod 512 = 0" using True by (simp add: unat_eq_zero [symmetric] unat_mod)
  obtain r fp1 fs1 cs1 where c: "write_clust v (fp, fs) = Some (r, fp1, fs1)" "grows D fs cs fs1 cs1" "\<forall>x. off_fat fs x \<longrightarrow> view D fs1 x = view D fs x"
    and alt: "r = None \<and> cs1 = cs \<and> fp1 = fp \<and> ?p = length cs * bcs_of fs \<and> (\<forall>c. in_vol fs c \<longrightarrow> fat_of D fs c \<noteq> 0) \<or>
      r = Some FR_OK \<and> ?p < length cs1 * bcs_of fs \<and> fp1 = fp\<lparr>f_sclust := cs1 ! 0, f_clust := cs1 ! (?p div bcs_of fs)\<rparr>"
    using write_clust_ok [OF d sane f True] by blast
  from alt show ?thesis
  proof
    assume n: "r = None \<and> cs1 = cs \<and> fp1 = fp \<and> ?p = length cs * bcs_of fs \<and> (\<forall>c. in_vol fs c \<longrightarrow> fat_of D fs c \<noteq> 0)"
    then have "wrote D fs cs fp wbuff 0 (fp\<lparr>f_fptr := f_fptr fp + of_nat 0\<rparr>) fs1 cs" using wrote_nothing [OF d f _ c(3)] c(2) by simp
    moreover have "disk_full D fs1" using grows_full [OF _ c(2)] n by (simp add: disk_full_def)
    then have "stopped D fs1 cs fp" using n alloc_fields(3) [of fs fs1] c(2) by (simp add: stopped_def grows_def)
    moreover have "write_chunk v wbuff (fp, fs) = Some ((None, 0), fp, fs1)" using al c(1) n by (simp add: write_chunk_def)
    ultimately show ?thesis by blast
  next
    assume y: "r = Some FR_OK \<and> ?p < length cs1 * bcs_of fs \<and> fp1 = fp\<lparr>f_sclust := cs1 ! 0, f_clust := cs1 ! (?p div bcs_of fs)\<rparr>"
    let ?fp = "fp\<lparr>f_sclust := cs1 ! 0\<rparr>"
    have a: "alloc_frame fs fs1" and d1: "data_inv D fs1" and sane1: "fat_sane D fs1" and cs1: "cs1 \<noteq> []" using c(2) y by (auto simp: grows_def)
    note fl = alloc_fields [OF a]
    have v: "\<forall>c\<in>set cs. in_vol fs c" using file_at_in_vol [OF f] by blast
    have f1: "file_at D fs1 cs1 ?fp" using grows_file [OF c(2) f] cs1 by simp
    have p1: "unat (f_fptr ?fp) + length wbuff < 2 ^ 32" "unat (f_fptr ?fp) < length cs1 * bcs_of fs1" "unat (f_fptr ?fp) mod 512 = 0"
      using y True fl(3) len by simp_all
    have cst: "csect_of ?fp fs1 = csect_of fp fs" using fl(7) by (simp add: csect_of_def)
    obtain m s fs' where w: "write_sector v (csect_of fp fs) wbuff (fp1, fs1) = Some ((FR_OK, m), fp1\<lparr>f_dsect := s\<rparr>, fs')" "0 < m"
      "wrote D fs1 cs1 ?fp wbuff m (fp1\<lparr>f_dsect := s, f_fptr := f_fptr fp1 + of_nat m\<rparr>) fs' cs1"
      using chunk_sector [OF d1 sane1 f1 ne p1] y cst fl(3) by auto
    have "wrote D fs cs fp wbuff 0 ?fp fs1 cs1" using puts_nothing [OF d v c(2) _ c(3), of ?p] y c(2) f1 by (simp add: wrote_def)
    from wrote_append [OF this, of m] w(3) len have "wrote D fs cs fp wbuff m (fp1\<lparr>f_dsect := s, f_fptr := f_fptr fp1 + of_nat m\<rparr>) fs' cs1" by simp
    moreover have "write_chunk v wbuff (fp, fs) = Some ((Some FR_OK, m), fp1\<lparr>f_dsect := s\<rparr>, fs')" using al c(1) w(1) y by (simp add: write_chunk_def)
    ultimately show ?thesis using w(2) by (intro exI [of _ "Some FR_OK"] exI [of _ m] exI [of _ "fp1\<lparr>f_dsect := s\<rparr>"] exI [of _ fs'] exI [of _ cs1]) simp
  qed
qed

subsection \<open>The loop\<close>

lemma fwrite_loop_ok:
  assumes "data_inv D fs" "fat_sane D fs" "file_at D fs cs fp" "unat (f_fptr fp) + length wbuff < 2 ^ 32"
  shows "\<exists>m fp' fs' cs'. fwrite_loop v wbuff bw (fp, fs) = Some ((FR_OK, bw + of_nat m), fp', fs') \<and> wrote D fs cs fp wbuff m fp' fs' cs' \<and>
    (m < length wbuff \<longrightarrow> stopped D fs' cs' fp')"
  using assms
proof (induction "length wbuff" arbitrary: wbuff bw fp fs cs rule: less_induct)
  case less
  note d = less.prems(1) and sane = less.prems(2) and f = less.prems(3) and len = less.prems(4)
  show ?case
  proof (cases "wbuff = []")
    case True
    have "grows D fs cs fs cs" by (rule grows_refl [OF d sane]) (use f in \<open>auto simp: file_at_def\<close>)
    then have "wrote D fs cs fp wbuff 0 fp fs cs" by (rule wrote_nothing [OF d f]) simp
    moreover have "fwrite_loop v wbuff bw (fp, fs) = Some ((FR_OK, bw + of_nat 0), fp, fs)" using True by (subst fwrite_loop.simps) simp
    ultimately show ?thesis using True by blast
  next
    case False
    obtain r m fp1 fs1 cs1 where w: "write_chunk v wbuff (fp, fs) = Some ((r, m), fp1, fs1)"
      "wrote D fs cs fp wbuff m (fp1\<lparr>f_fptr := f_fptr fp1 + of_nat m\<rparr>) fs1 cs1" and r: "r = None \<and> m = 0 \<and> stopped D fs1 cs1 fp1 \<or> r = Some FR_OK \<and> 0 < m"
      using write_chunk_ok [OF d sane f False len] by blast
    let ?fp = "fp1\<lparr>f_fptr := f_fptr fp1 + of_nat m\<rparr>" let ?wb = "drop m wbuff"
    from r show ?thesis
    proof
      assume n: "r = None \<and> m = 0 \<and> stopped D fs1 cs1 fp1"
      then have "fwrite_loop v wbuff bw (fp, fs) = Some ((FR_OK, bw + of_nat m), ?fp, fs1)" using w(1) False by (subst fwrite_loop.simps) simp
      moreover have "?fp = fp1" using n by simp
      ultimately show ?thesis using w(2) n by metis
    next
      assume y: "r = Some FR_OK \<and> 0 < m"
      have l: "m \<le> length wbuff" and d1: "data_inv D fs1" and sane1: "fat_sane D fs1" and q: "f_fptr ?fp = f_fptr fp + of_nat m"
        using w(2) by (simp_all add: wrote_def grows_def)
      have f1: "file_at D fs1 cs1 ?fp" using w(2) unfolding wrote_def by blast
      have lt: "unat (f_fptr fp) + m < 2 ^ 32" using len l by linarith
      have "length ?wb < length wbuff" "unat (f_fptr ?fp) + length ?wb < 2 ^ 32" using y q unat_plus_nat [OF lt] len l False by simp_all
      from less.hyps [OF this(1) d1 sane1 f1 this(2), of "bw + of_nat m"]
      obtain m2 fp2 fs2 cs2 where h: "fwrite_loop v ?wb (bw + of_nat m) (?fp, fs1) = Some ((FR_OK, bw + of_nat m + of_nat m2), fp2, fs2)"
        "wrote D fs1 cs1 ?fp ?wb m2 fp2 fs2 cs2" "m2 < length ?wb \<longrightarrow> stopped D fs2 cs2 fp2" by blast
      have "fwrite_loop v wbuff bw (fp, fs) = Some ((FR_OK, bw + of_nat (m + m2)), fp2, fs2)" using w(1) h(1) y False by (subst fwrite_loop.simps) (simp add: add.assoc)
      moreover have "m + m2 < length wbuff \<longrightarrow> stopped D fs2 cs2 fp2" using h(3) l by auto
      ultimately show ?thesis using wrote_append [OF w(2) h(2) lt] by blast
    qed
  qed
qed

end

subsection \<open>Contents\<close>

context block_drive
begin

lemma puts_splice:
  assumes d: "data_inv D fs" "data_inv D fs'" and v: "\<forall>c\<in>set cs. in_vol fs c" "\<forall>c\<in>set cs'. in_vol fs' c" and g: "grows D fs cs fs' cs'"
    and u: "puts D fs cs fs' cs' p bs e" and e: "p \<le> e" "e \<le> length cs * bcs_of fs" and old: "old = take e (file_data D fs cs)"
  shows "take (max e (p + length bs)) (file_data D fs' cs') = take p old @ bs @ drop (p + length bs) old"
proof -
  have n: "bcs_of fs' = bcs_of fs" using alloc_fields(3) g by (auto simp: grows_def)
  have "length cs \<le> length cs'" using g by (auto simp: grows_def prefix_def)
  then have le: "length cs * bcs_of fs \<le> length cs' * bcs_of fs" by simp
  have l: "length (file_data D fs cs) = length cs * bcs_of fs" "length (file_data D fs' cs') = length cs' * bcs_of fs"
    using file_data_length [OF d(1) v(1)] file_data_length [OF d(2) v(2)] n by simp_all
  have lo: "length old = e" using old e(2) l(1) by simp
  have fits: "max e (p + length bs) \<le> length cs' * bcs_of fs" using u order_trans [OF e(2) le] by (simp add: puts_def)
  show ?thesis
  proof (rule nth_equalityI)
    show "length (take (max e (p + length bs)) (file_data D fs' cs')) = length (take p old @ bs @ drop (p + length bs) old)" using l(2) lo fits e(1) by simp
    fix i assume "i < length (take (max e (p + length bs)) (file_data D fs' cs'))"
    then have i: "i < e \<or> i < p + length bs" by auto
    have keep: "file_data D fs' cs' ! i = old ! i" if k: "i < p \<or> p + length bs \<le> i" "i < e"
    proof -
      have "i < length cs * bcs_of fs" using k(2) e(2) by linarith
      then show ?thesis using u k old by (auto simp: puts_def)
    qed
    have new: "file_data D fs' cs' ! i = bs ! (i - p)" if k: "p \<le> i" "i < p + length bs"
      using u k unfolding puts_def by (metis le_add_diff_inverse nat_add_left_cancel_less)
    have "file_data D fs' cs' ! i = (take p old @ bs @ drop (p + length bs) old) ! i"
    proof -
      consider "i < p" | "p \<le> i" "i < p + length bs" | "p + length bs \<le> i" "i < e" using i by linarith
      then show ?thesis
      proof cases
        case 1
        then show ?thesis using keep e(1) lo by (simp add: nth_append)
      next
        case 2
        then show ?thesis using new e(1) lo by (auto simp: nth_append)
      next
        case 3
        then show ?thesis using keep e(1) lo by (auto simp: nth_append)
      qed
    qed
    then show "take (max e (p + length bs)) (file_data D fs' cs') ! i = (take p old @ bs @ drop (p + length bs) old) ! i" using i by auto
  qed
qed

text \<open>Other files are left alone.\<close>

lemma grows_others:
  assumes d: "data_inv D fs" and v: "\<forall>c\<in>set cs. in_vol fs c" and g: "grows D fs cs fs' cs'"
    and x: "is_chain (fat_of D fs) (n_fatent fs) xs" "set xs \<inter> set cs = {}"
  shows "is_chain (fat_of D fs') (n_fatent fs) xs \<and> file_data D fs' xs = file_data D fs xs"
proof -
  have a: "alloc_frame fs fs'" using g by (simp add: grows_def)
  have xv: "\<forall>c\<in>set xs. in_vol fs c" using is_chain_in [OF x(1)] by (auto simp: in_vol_def)
  have v': "\<forall>c\<in>set cs'. in_vol fs c" using g v by (auto simp: grows_def)
  have dj: "set cs' \<inter> set xs = {}" using x(2) is_chain_taken [OF x(1)] g by (auto simp: grows_def)
  have "is_chain (fat_of D fs') (n_fatent fs) xs = is_chain (fat_of D fs) (n_fatent fs) xs" by (rule is_chain_cong) (use g xv dj in \<open>auto simp: grows_def\<close>)
  moreover have "view D fs' s = view D fs s" if s: "s \<in> set (file_sects fs xs)" for s
  proof -
    obtain q where "q < length xs * unat (csize fs)" "s = file_sects fs xs ! q" using s by (auto simp: in_set_conv_nth file_sects_length)
    then have "off_fat fs s" using file_sect_ok(3) [OF d xv] by simp
    then show ?thesis using sects_apart [OF d v' xv dj] s g by (auto simp: grows_def)
  qed
  then have "map (view D fs') (file_sects fs xs) = map (view D fs) (file_sects fs xs)" by simp
  then have "file_data D fs' xs = file_data D fs xs" by (simp only: file_data_def alloc_fields(6) [OF a])
  ultimately show ?thesis using x(1) by simp
qed

end

lemma file_at_sized:
  assumes f: "file_at D fs cs fp"
  shows "file_at D fs cs (set_flag b (if f_fptr fp > f_fsize fp then fp\<lparr>f_fsize := f_fptr fp\<rparr> else fp))"
  using f by (auto simp: file_at_def set_flag_def)

context block_drive
begin

lemma f_write_ok:
  assumes d: "data_inv D (ff_fs s)" and sane: "fat_sane D (ff_fs s)" and f: "file_at D (ff_fs s) cs fp"
    and o: "f_fs fp" "f_id fp = fs_id (ff_fs s)" "f_flag fp AND FA__ERROR = 0" "f_flag fp AND FA_WRITE \<noteq> 0"
    and p: "unat (f_fptr fp) \<le> unat (f_fsize fp)" and len: "unat (f_fsize fp) + length buff < 2 ^ 32"
  shows "\<exists>m fp1 fs' cs'. f_write v buff (fp, s) = Some ((FR_OK, of_nat m),
      set_flag FA__WRITTEN (if f_fptr fp1 > f_fsize fp1 then fp1\<lparr>f_fsize := f_fptr fp1\<rparr> else fp1), s\<lparr>ff_fs := fs'\<rparr>) \<and>
    wrote D (ff_fs s) cs fp buff m fp1 fs' cs' \<and> (m < length buff \<longrightarrow> stopped D fs' cs' fp1)"
proof -
  let ?fs = "ff_fs s"
  have inv: "fat_inv D ?fs" using d by (simp add: data_inv_def)
  have ch: "cs \<noteq> [] \<longrightarrow> is_chain (fat_of D ?fs) (n_fatent ?fs) cs" using f by (auto simp: file_at_def)
  obtain fs1 where v: "validate v (f_fs fp) (f_id fp) ?fs = Some (FR_OK, fs1)" "same_view D ?fs fs1" using validate_ok [OF inv o(1,2)] by blast
  have g: "grows D ?fs cs fs1 cs" by (rule sets_grows [OF d sane ch same_view_sets [OF v(2) inv]]) simp
  then have w: "wrote D ?fs cs fp buff 0 fp fs1 cs" by (rule wrote_nothing [OF d f]) (use same_view_sets [OF v(2) inv] in \<open>simp add: sets_def\<close>)
  have l: "unat (f_fptr fp) + length buff < 2 ^ 32" using p len by linarith
  have "data_inv D fs1" "fat_sane D fs1" "file_at D fs1 cs fp" using g w by (simp_all add: grows_def wrote_def)
  from fwrite_loop_ok [OF this l, of 0] obtain m fp1 fs' cs' where b: "fwrite_loop v buff 0 (fp, fs1) = Some ((FR_OK, of_nat m), fp1, fs')"
    "wrote D fs1 cs fp buff m fp1 fs' cs'" "m < length buff \<longrightarrow> stopped D fs' cs' fp1" by auto
  have "unat (f_fsize fp + of_nat (length buff)) = unat (f_fsize fp) + length buff" by (rule unat_plus_nat [OF len])
  then have "\<not> f_fsize fp + of_nat (length buff) < f_fsize fp" by (simp add: word_less_nat_alt)
  then have "f_write v buff (fp, s) = Some ((FR_OK, of_nat m),
      set_flag FA__WRITTEN (if f_fptr fp1 > f_fsize fp1 then fp1\<lparr>f_fsize := f_fptr fp1\<rparr> else fp1), s\<lparr>ff_fs := fs'\<rparr>)"
    using v(1) o(3,4) b(1) by (simp add: f_write_def Let_def)
  moreover have "wrote D ?fs cs fp buff m fp1 fs' cs'" using wrote_append [OF w, of m] b(2) l by simp
  ultimately show ?thesis using b(3) by blast
qed

end

subsection \<open>The property\<close>

text \<open>
  C11: Writing a file. On a drive that keeps sectors, on a volume with at least one cluster and no entry of
  the table that is 1 (the mark for an error), for a valid file object opened for
  writing whose clusters form the chain \<open>cs\<close>, and as long as the file's length and the count stay
  below \<open>2 ^ 32\<close> together (at that limit the code writes nothing), \<open>f_write\<close> returns with success and the number \<open>m\<close> of bytes it wrote;
  it writes fewer than asked for only when it has filled the file's last cluster and no cluster of
  the volume is free. The file is then the old one with those bytes in place of what stood at the
  file pointer, longer if they reach past its end; the pointer has moved by \<open>m\<close>, the chain has been
  extended by clusters that were free, and the object is ready for the next call. It holds at every
  alignment of pointer and count: partial sectors through the shared window, the growing edge of the
  file, runs of sectors straight to the drive past a dirty window. Every file on other clusters keeps
  its chain and its bytes.
\<close>

theorem f_write_file:
  assumes "block_drive v D" and "data_inv D (ff_fs s)" and "fat_sane D (ff_fs s)" and "file_at D (ff_fs s) cs fp"
    and "f_fs fp" and "f_id fp = fs_id (ff_fs s)" and "f_flag fp AND FA__ERROR = 0" and "f_flag fp AND FA_WRITE \<noteq> 0"
    and "unat (f_fptr fp) \<le> unat (f_fsize fp)" and "unat (f_fsize fp) + length buff < 2 ^ 32"
    and "old = take (unat (f_fsize fp)) (file_data D (ff_fs s) cs)"
  shows "\<exists>m fp' fs' cs'. f_write v buff (fp, s) = Some ((FR_OK, of_nat m), fp', s\<lparr>ff_fs := fs'\<rparr>) \<and> m \<le> length buff \<and>
    (m < length buff \<longrightarrow> (\<forall>c. in_vol (ff_fs s) c \<longrightarrow> fat_of D fs' c \<noteq> 0) \<and> unat (f_fptr fp') = length cs' * bcs_of (ff_fs s)) \<and>
    data_inv D fs' \<and> fat_sane D fs' \<and> file_at D fs' cs' fp' \<and>
    prefix cs cs' \<and> (\<forall>c\<in>set cs' - set cs. fat_of D (ff_fs s) c = 0) \<and>
    (\<forall>c. in_vol (ff_fs s) c \<longrightarrow> c \<notin> set cs' \<longrightarrow> fat_of D fs' c = fat_of D (ff_fs s) c) \<and>
    unat (f_fptr fp') = unat (f_fptr fp) + m \<and> unat (f_fsize fp') = max (unat (f_fsize fp)) (unat (f_fptr fp) + m) \<and>
    take (unat (f_fsize fp')) (file_data D fs' cs') = take (unat (f_fptr fp)) old @ take m buff @ drop (unat (f_fptr fp) + m) old \<and>
    (\<forall>xs. is_chain (fat_of D (ff_fs s)) (n_fatent (ff_fs s)) xs \<and> set xs \<inter> set cs = {} \<longrightarrow>
      is_chain (fat_of D fs') (n_fatent (ff_fs s)) xs \<and> file_data D fs' xs = file_data D (ff_fs s) xs)"
proof -
  let ?fs = "ff_fs s" let ?p = "unat (f_fptr fp)" let ?e = "unat (f_fsize fp)"
  obtain m fp1 fs' cs' where w: "f_write v buff (fp, s) = Some ((FR_OK, of_nat m),
      set_flag FA__WRITTEN (if f_fptr fp1 > f_fsize fp1 then fp1\<lparr>f_fsize := f_fptr fp1\<rparr> else fp1), s\<lparr>ff_fs := fs'\<rparr>)"
    "wrote D ?fs cs fp buff m fp1 fs' cs'" "m < length buff \<longrightarrow> stopped D fs' cs' fp1"
    using block_drive.f_write_ok [OF assms(1-10)] by blast
  let ?fp = "set_flag FA__WRITTEN (if f_fptr fp1 > f_fsize fp1 then fp1\<lparr>f_fsize := f_fptr fp1\<rparr> else fp1)"
  have g: "grows D ?fs cs fs' cs'" and l: "m \<le> length buff" and f1: "file_at D fs' cs' fp1" and u: "puts D ?fs cs fs' cs' ?p (take m buff) ?e"
    using w(2) by (simp_all add: wrote_def)
  have up: "unat (f_fptr fp1) = ?p + m" and e: "f_fsize fp1 = f_fsize fp"
    using w(2) unat_plus_nat [of "f_fptr fp" m] assms(9,10) l by (simp add: wrote_def, cases fp, cases fp1, simp add: wrote_def)
  have fields: "f_fptr ?fp = f_fptr fp1" "unat (f_fsize ?fp) = max ?e (?p + m)" using up e by (auto simp: set_flag_def word_less_nat_alt)
  have v: "\<forall>c\<in>set cs. in_vol ?fs c" "\<forall>c\<in>set cs'. in_vol fs' c" and d': "data_inv D fs'" and n: "in_vol fs' = in_vol ?fs" "bcs_of fs' = bcs_of ?fs"
    using file_at_in_vol [OF assms(4)] file_at_in_vol [OF f1] g alloc_fields(3,4) [of ?fs fs'] by (auto simp: grows_def)
  have lm: "length (take m buff) = m" and le: "?e \<le> length cs * bcs_of ?fs" using l assms(4) by (simp_all add: file_at_def)
  note splice = block_drive.puts_splice [OF assms(1,2) d' v g u assms(9) le assms(11), unfolded lm]
  have "file_at D fs' cs' ?fp" by (rule file_at_sized [OF f1])
  then show ?thesis
    using w(1,3) l g fields up n splice block_drive.grows_others [OF assms(1,2) v(1) g]
    by (intro exI [of _ m] exI [of _ ?fp] exI [of _ fs'] exI [of _ cs']) (simp add: stopped_def disk_full_def grows_def)
qed

text \<open>Overwriting the file of the small volume with more bytes than its clusters hold.\<close>

lemma vol_ab_fat:
  assumes "in_vol vol_ab c"
  shows "fat_of ram_store vol_ab c = (if c = 2 then 3 else if c = 3 then 0xffff else 0)"
proof -
  have v: "in_vol vol16 c" using assms by (simp add: in_vol_def vol_ab_def)
  have "unat c < 8" using v by (simp add: in_vol_def vol16_def word_less_nat_alt)
  moreover have "fat_byte ram_store vol_ab i = fat_byte ram_store vol16 i" if "i < 512" for i
    using that by (simp add: fat_byte_def fat_sect_def view_def vol_ab_def vol16_def ram_store_def)
  ultimately have "fat_of ram_store vol_ab c = fat_of ram_store vol16 c" by (simp add: fat_of_def fat_entry_def vol_ab_def vol16_def)
  then show ?thesis using vol16_fat [OF v] by simp
qed

definition fil_w :: FIL where
  "fil_w = fil_ab\<lparr>f_flag := FA_WRITE\<rparr>"

lemma fil_w_pos: "unat (f_fptr fil_w) = 0" "unat (f_fsize fil_w) = 700"
  by (simp_all add: fil_w_def fil_ab_def)

theorem f_write_file_witness:
  "\<exists>fp' s' cs'. f_write ram_drive (replicate 1100 67) (fil_w, ff_ab) = Some ((FR_OK, 1100), fp', s') \<and> f_fsize fp' = 1100 \<and>
    prefix [2, 3] cs' \<and> take 1100 (file_data ram_store (ff_fs s') cs') = replicate 1100 67"
proof -
  have fs: "ff_fs ff_ab = vol_ab" "bcs_of vol_ab = 512" by (simp_all add: ff_ab_def bcs_of_def vol_ab_def vol16_def)
  have fa: "file_at ram_store (ff_fs ff_ab) [2, 3] fil_w" using vol_ab_file fs by (simp add: file_at_def fil_w_def)
  have sane: "fat_sane ram_store (ff_fs ff_ab)" using vol_ab_fat fs by (simp add: fat_sane_def) (simp add: vol_ab_def vol16_def)
  have "\<exists>m fp' fs' cs'. f_write ram_drive (replicate 1100 67) (fil_w, ff_ab) = Some ((FR_OK, of_nat m), fp', ff_ab\<lparr>ff_fs := fs'\<rparr>) \<and>
    m \<le> length (replicate 1100 67 :: u8 list) \<and>
    (m < length (replicate 1100 67 :: u8 list) \<longrightarrow>
      (\<forall>c. in_vol (ff_fs ff_ab) c \<longrightarrow> fat_of ram_store fs' c \<noteq> 0) \<and> unat (f_fptr fp') = length cs' * bcs_of (ff_fs ff_ab)) \<and>
    data_inv ram_store fs' \<and> fat_sane ram_store fs' \<and> file_at ram_store fs' cs' fp' \<and>
    prefix [2, 3] cs' \<and> (\<forall>c\<in>set cs' - set [2, 3]. fat_of ram_store (ff_fs ff_ab) c = 0) \<and>
    (\<forall>c. in_vol (ff_fs ff_ab) c \<longrightarrow> c \<notin> set cs' \<longrightarrow> fat_of ram_store fs' c = fat_of ram_store (ff_fs ff_ab) c) \<and>
    unat (f_fptr fp') = unat (f_fptr fil_w) + m \<and> unat (f_fsize fp') = max (unat (f_fsize fil_w)) (unat (f_fptr fil_w) + m) \<and>
    take (unat (f_fsize fp')) (file_data ram_store fs' cs') = take (unat (f_fptr fil_w)) (take 700 (file_data ram_store vol_ab [2, 3])) @
      take m (replicate 1100 67) @ drop (unat (f_fptr fil_w) + m) (take 700 (file_data ram_store vol_ab [2, 3])) \<and>
    (\<forall>xs. is_chain (fat_of ram_store (ff_fs ff_ab)) (n_fatent (ff_fs ff_ab)) xs \<and> set xs \<inter> set [2, 3] = {} \<longrightarrow>
      is_chain (fat_of ram_store fs') (n_fatent (ff_fs ff_ab)) xs \<and> file_data ram_store fs' xs = file_data ram_store (ff_fs ff_ab) xs)"
    by (rule f_write_file [OF ram.block_drive_axioms _ sane fa]) (use fs vol_ab_inv in \<open>simp_all add: fil_w_def fil_ab_def FA_WRITE_def FA__ERROR_def\<close>,
      simp add: vol_ab_def vol16_def)
  note t = this [unfolded fs fil_w_pos length_replicate add_0 take_0 append_Nil]
  from t obtain m fp' fs' cs' where w: "f_write ram_drive (replicate 1100 67) (fil_w, ff_ab) = Some ((FR_OK, of_nat m), fp', ff_ab\<lparr>ff_fs := fs'\<rparr>)" "m \<le> 1100"
    "m < 1100 \<longrightarrow> (\<forall>c. in_vol vol_ab c \<longrightarrow> fat_of ram_store fs' c \<noteq> 0) \<and> unat (f_fptr fp') = length cs' * 512" "prefix [2, 3] cs'"
    "\<forall>c. in_vol vol_ab c \<longrightarrow> c \<notin> set cs' \<longrightarrow> fat_of ram_store fs' c = fat_of ram_store vol_ab c"
    "unat (f_fptr fp') = m" "unat (f_fsize fp') = max 700 m"
    "take (unat (f_fsize fp')) (file_data ram_store fs' cs') = take m (replicate 1100 67) @ drop m (take 700 (file_data ram_store vol_ab [2, 3]))"
    by blast
  have "\<not> m < 1100"
  proof
    assume lt: "m < 1100"
    then have "length cs' \<le> 2" using w(3,6) by auto
    then have "cs' = [2, 3]" using w(4) by (auto simp: prefix_def)
    moreover have "in_vol vol_ab 4" by (simp add: in_vol_def vol_ab_def vol16_def word_le_nat_alt)
    ultimately show False using w(3,5) lt vol_ab_fat [of 4] by auto
  qed
  then have "m = 1100" using w(2) by simp
  then have "f_write ram_drive (replicate 1100 67) (fil_w, ff_ab) = Some ((FR_OK, 1100), fp', ff_ab\<lparr>ff_fs := fs'\<rparr>) \<and> f_fsize fp' = 1100 \<and>
    prefix [2, 3] cs' \<and> take 1100 (file_data ram_store (ff_fs (ff_ab\<lparr>ff_fs := fs'\<rparr>)) cs') = replicate 1100 67" using w by (simp add: word_unat_eq_iff)
  then show ?thesis by blast
qed

end
