(* ===== verification/Fft.thy ===== *)
theory Fft
  imports Prelude Complex_Main
begin

text \<open>
  The reference transform of the test bench: \<open>fft.c\<close>, a recursive radix-2 FFT and its inverse,
  and the wrappers of \<open>syn_dpi.c\<close> that the SystemVerilog model of the spectrum engine calls. The
  floating-point arithmetic is an argument of the model, so that what does not depend on rounding
  (which elements are read and written, when the recursion ends) holds for the machine's doubles;
  over exact reals the routines are the discrete Fourier transform and its inverse.
\<close>

subsection \<open>Numbers and arrays\<close>

text \<open>
  The operations on doubles: \<open>fl_angle k N\<close> is \<open>TWO_PI*k/(double)N\<close> as passed to \<open>cos\<close> and \<open>sin\<close>,
  \<open>fl_by v N\<close> the quotient of a double and an int.
\<close>

record 'd flt =
  fl_add :: "'d \<Rightarrow> 'd \<Rightarrow> 'd"
  fl_sub :: "'d \<Rightarrow> 'd \<Rightarrow> 'd"
  fl_mul :: "'d \<Rightarrow> 'd \<Rightarrow> 'd"
  fl_by :: "'d \<Rightarrow> nat \<Rightarrow> 'd"
  fl_angle :: "nat \<Rightarrow> nat \<Rightarrow> 'd"
  fl_cos :: "'d \<Rightarrow> 'd"
  fl_sin :: "'d \<Rightarrow> 'd"
  fl_sqrt :: "'d \<Rightarrow> 'd"
  fl_zero :: 'd

text \<open>
  An array \<open>double (*x)[2]\<close> is the list of its pairs. An access outside the array has no defined
  meaning: it makes the whole call \<open>None\<close>, as does a recursion that does not end.
\<close>

type_synonym 'd pairs = "('d \<times> 'd) list"

definition rd :: "'a list \<Rightarrow> nat \<Rightarrow> 'a option" where
  "rd a i = (if i < length a then Some (a ! i) else None)"

definition wr :: "'a list \<Rightarrow> nat \<Rightarrow> 'a \<Rightarrow> 'a list option" where
  "wr a i v = (if i < length a then Some (a[i := v]) else None)"

lemma rd_ok [simp]: "i < length a \<Longrightarrow> rd a i = Some (a ! i)"
  by (simp add: rd_def)

lemma wr_ok [simp]: "i < length a \<Longrightarrow> wr a i v = Some (a[i := v])"
  by (simp add: wr_def)

subsection \<open>The transform\<close>

text \<open>One butterfly of the combination: the even part at \<open>k10\<close>, the turned odd part at \<open>k11\<close>.\<close>

definition butterfly :: "'d flt \<Rightarrow> nat \<Rightarrow> nat \<Rightarrow> nat \<Rightarrow> nat \<Rightarrow> 'd pairs \<Rightarrow> 'd pairs \<Rightarrow> 'd pairs option" where
  "butterfly F N offset delta k XX X = do {
     let N2 = N div 2;
     let k00 = offset + k * delta;
     let k01 = k00 + N2 * delta;
     let k10 = offset + 2 * k * delta;
     let k11 = k10 + delta;
     let cs = fl_cos F (fl_angle F k N);
     let sn = fl_sin F (fl_angle F k N);
     (o0, o1) \<leftarrow> rd XX k11;
     let tmp0 = fl_add F (fl_mul F cs o0) (fl_mul F sn o1);
     let tmp1 = fl_sub F (fl_mul F cs o1) (fl_mul F sn o0);
     (e0, e1) \<leftarrow> rd XX k10;
     X \<leftarrow> wr X k01 (fl_sub F e0 tmp0, fl_sub F e1 tmp1);
     wr X k00 (fl_add F e0 tmp0, fl_add F e1 tmp1) }"

text \<open>The loop over \<open>k\<close>: the first \<open>n\<close> butterflies in order.\<close>

fun combine :: "'d flt \<Rightarrow> nat \<Rightarrow> nat \<Rightarrow> nat \<Rightarrow> 'd pairs \<Rightarrow> nat \<Rightarrow> 'd pairs \<Rightarrow> 'd pairs option" where
  "combine F N offset delta XX 0 X = Some X"
| "combine F N offset delta XX (Suc k) X = do {
     X \<leftarrow> combine F N offset delta XX k X;
     butterfly F N offset delta k XX X }"

definition dft2 :: "'d flt \<Rightarrow> nat \<Rightarrow> nat \<Rightarrow> 'd pairs \<Rightarrow> 'd pairs \<Rightarrow> 'd pairs option" where
  "dft2 F offset delta x X = do {
     let k00 = offset;
     let k01 = k00 + delta;
     (a0, a1) \<leftarrow> rd x k00;
     (b0, b1) \<leftarrow> rd x k01;
     X \<leftarrow> wr X k01 (fl_sub F a0 b0, fl_sub F a1 b1);
     wr X k00 (fl_add F a0 b0, fl_add F a1 b1) }"

text \<open>The recursion works from \<open>x\<close> into \<open>X\<close> and uses \<open>XX\<close> as scratch; a level swaps the two for its children.\<close>

partial_function (option) fft_rec ::
  "'d flt \<Rightarrow> nat \<Rightarrow> nat \<Rightarrow> nat \<Rightarrow> 'd pairs \<Rightarrow> 'd pairs \<Rightarrow> 'd pairs \<Rightarrow> ('d pairs \<times> 'd pairs) option" where
  "fft_rec F N offset delta x X XX =
     (let N2 = N div 2
      in if N \<noteq> 2 then do {
          (XX, X) \<leftarrow> fft_rec F N2 offset (2 * delta) x XX X;
          (XX, X) \<leftarrow> fft_rec F N2 (offset + delta) (2 * delta) x XX X;
          X \<leftarrow> combine F N offset delta XX N2 X;
          Some (X, XX) }
         else do {
          X \<leftarrow> dft2 F offset delta x X;
          Some (X, XX) })"

text \<open>
  The scratch space comes from \<open>malloc\<close>: \<open>XX\<close> is what it returned, an array with unknown contents,
  or nothing, and then the first store through the null pointer has no meaning.
\<close>

definition fft :: "'d flt \<Rightarrow> 'd pairs option \<Rightarrow> nat \<Rightarrow> 'd pairs \<Rightarrow> 'd pairs \<Rightarrow> 'd pairs option" where
  "fft F XX N x X = do {
     XX \<leftarrow> XX;
     (X, _) \<leftarrow> fft_rec F N 0 1 x X XX;
     Some X }"

text \<open>The inverse: the transform of \<open>X\<close>, divided by \<open>N\<close> and read backwards.\<close>

definition scaled :: "'d flt \<Rightarrow> nat \<Rightarrow> 'd \<times> 'd \<Rightarrow> 'd \<times> 'd" where
  "scaled F N = (\<lambda>(a, b). (fl_by F a N, fl_by F b N))"

fun ifft_swaps :: "'d flt \<Rightarrow> nat \<Rightarrow> nat \<Rightarrow> 'd pairs \<Rightarrow> 'd pairs option" where
  "ifft_swaps F N 0 x = Some x"
| "ifft_swaps F N (Suc m) x = do {
     x \<leftarrow> ifft_swaps F N m x;
     let i = Suc m;
     tmp \<leftarrow> rd x i;
     v \<leftarrow> rd x (N - i);
     x \<leftarrow> wr x i (scaled F N v);
     wr x (N - i) (scaled F N tmp) }"

definition ifft :: "'d flt \<Rightarrow> 'd pairs option \<Rightarrow> nat \<Rightarrow> 'd pairs \<Rightarrow> 'd pairs \<Rightarrow> 'd pairs option" where
  "ifft F XX N x X = do {
     let N2 = N div 2;
     x \<leftarrow> fft F XX N X x;
     v \<leftarrow> rd x 0;
     x \<leftarrow> wr x 0 (scaled F N v);
     v \<leftarrow> rd x N2;
     x \<leftarrow> wr x N2 (scaled F N v);
     ifft_swaps F N (N2 - 1) x }"

subsection \<open>The wrappers of the test bench\<close>

text \<open>
  An open array of the simulator as \<open>svdpi.h\<close> describes it: its range and its elements in C layout.
  The pointer to an element is null outside the range.
\<close>

record 'd sv_array =
  svLeft :: int
  svRight :: int
  svElems :: "'d list"

definition svGetArrElemPtr1 :: "'d sv_array \<Rightarrow> int \<Rightarrow> nat option" where
  "svGetArrElemPtr1 h i = (if svLeft h \<le> i \<and> i \<le> svRight h then Some (nat (i - svLeft h)) else None)"

definition index_of :: "int \<Rightarrow> nat option" where
  "index_of i = (if 0 \<le> i then Some (nat i) else None)"

fun for_each :: "('i \<Rightarrow> 's \<Rightarrow> 's option) \<Rightarrow> 'i list \<Rightarrow> 's \<Rightarrow> 's option" where
  "for_each f [] s = Some s"
| "for_each f (i # is) s = do { s \<leftarrow> f i s; for_each f is s }"

definition syn_abs_at :: "'d flt \<Rightarrow> 'd list \<Rightarrow> nat \<Rightarrow> 'd list \<Rightarrow> 'd list option" where
  "syn_abs_at F im i re = do {
     r \<leftarrow> rd re i;
     v \<leftarrow> rd im i;
     wr re i (fl_sqrt F (fl_add F (fl_mul F r r) (fl_mul F v v))) }"

definition syn_calc_abs :: "'d flt \<Rightarrow> nat \<Rightarrow> 'd sv_array \<Rightarrow> 'd sv_array \<Rightarrow> 'd sv_array option" where
  "syn_calc_abs F n re im = do {
     r \<leftarrow> for_each (syn_abs_at F (svElems im)) [0..<n] (svElems re);
     Some (re\<lparr>svElems := r\<rparr>) }"

text \<open>The samples become pairs, and the pairs of the spectrum two arrays.\<close>

definition pack_at :: "'d flt \<Rightarrow> 'd sv_array \<Rightarrow> int \<Rightarrow> 'd pairs \<Rightarrow> 'd pairs option" where
  "pack_at F h i x = do {
     p \<leftarrow> svGetArrElemPtr1 h i;
     v \<leftarrow> rd (svElems h) p;
     n \<leftarrow> index_of i;
     wr x n (v, fl_zero F) }"

definition unpack_at :: "('d \<times> 'd \<Rightarrow> 'd) \<Rightarrow> 'd pairs \<Rightarrow> int \<Rightarrow> 'd sv_array \<Rightarrow> 'd sv_array option" where
  "unpack_at sel X i h = do {
     n \<leftarrow> index_of i;
     v \<leftarrow> rd X n;
     p \<leftarrow> svGetArrElemPtr1 h i;
     e \<leftarrow> wr (svElems h) p (sel v);
     Some (h\<lparr>svElems := e\<rparr>) }"

text \<open>\<open>x\<close>, \<open>X\<close> and \<open>XX\<close> are the blocks the three calls of \<open>malloc\<close> return.\<close>

definition syn_calc_fft ::
  "'d flt \<Rightarrow> 'd pairs \<Rightarrow> 'd pairs \<Rightarrow> 'd pairs option \<Rightarrow> nat \<Rightarrow> 'd sv_array \<Rightarrow> 'd sv_array \<Rightarrow> 'd sv_array \<Rightarrow>
    ('d sv_array \<times> 'd sv_array) option" where
  "syn_calc_fft F x X XX num_samples data_in re im = do {
     x \<leftarrow> for_each (pack_at F data_in) [svLeft data_in..svRight data_in] x;
     X \<leftarrow> fft F XX num_samples x X;
     re \<leftarrow> for_each (unpack_at fst X) [svLeft re..svRight re] re;
     im \<leftarrow> for_each (unpack_at snd X) [svLeft im..svRight im] im;
     Some (re, im) }"

subsection \<open>The recursion without buffers\<close>

definition pplus :: "'d flt \<Rightarrow> 'd \<times> 'd \<Rightarrow> 'd \<times> 'd \<Rightarrow> 'd \<times> 'd" where
  "pplus F = (\<lambda>(a, b) (c, d). (fl_add F a c, fl_add F b d))"

definition pminus :: "'d flt \<Rightarrow> 'd \<times> 'd \<Rightarrow> 'd \<times> 'd \<Rightarrow> 'd \<times> 'd" where
  "pminus F = (\<lambda>(a, b) (c, d). (fl_sub F a c, fl_sub F b d))"

definition turned :: "'d flt \<Rightarrow> nat \<Rightarrow> nat \<Rightarrow> 'd \<times> 'd \<Rightarrow> 'd \<times> 'd" where
  "turned F N k = (\<lambda>(a, b).
     let cs = fl_cos F (fl_angle F k N); sn = fl_sin F (fl_angle F k N)
     in (fl_add F (fl_mul F cs a) (fl_mul F sn b), fl_sub F (fl_mul F cs b) (fl_mul F sn a)))"

text \<open>The decimation in time on functions: the transform of \<open>2 ^ Suc m\<close> samples \<open>f\<close> at \<open>k\<close>.\<close>

fun rfft :: "'d flt \<Rightarrow> nat \<Rightarrow> (nat \<Rightarrow> 'd \<times> 'd) \<Rightarrow> nat \<Rightarrow> 'd \<times> 'd" where
  "rfft F 0 f k = (if k = 0 then pplus F (f 0) (f 1) else pminus F (f 0) (f 1))"
| "rfft F (Suc m) f k =
     (let M = 2 ^ Suc m; e = rfft F m (\<lambda>j. f (2 * j)); d = rfft F m (\<lambda>j. f (2 * j + 1))
      in if k < M then pplus F (e k) (turned F (2 * M) k (d k))
         else pminus F (e (k - M)) (turned F (2 * M) (k - M) (d (k - M))))"

lemma index_eq [simp]: "0 < \<delta> \<Longrightarrow> off + a * \<delta> = off + b * \<delta> \<longleftrightarrow> a = (b::nat)"
  by simp

lemma index_less: "a < N \<Longrightarrow> off + (N - 1) * \<delta> < l \<Longrightarrow> off + a * \<delta> < (l::nat)"
proof -
  assume "a < N" "off + (N - 1) * \<delta> < l"
  moreover have "a * \<delta> \<le> (N - 1) * \<delta>" using \<open>a < N\<close> by (intro mult_le_mono1) simp
  ultimately show ?thesis by linarith
qed

text \<open>The elements a call works on.\<close>

definition places :: "nat \<Rightarrow> nat \<Rightarrow> nat \<Rightarrow> nat set" where
  "places off \<delta> N = (\<lambda>a. off + a * \<delta>) ` {..<N}"

lemma butterfly_ok:
  assumes "off + (N - 1) * \<delta> < length X" "off + (N - 1) * \<delta> < length XX" "N = 2 * M" "k < M"
  shows "butterfly F N off \<delta> k XX X =
    Some (X[off + (k + M) * \<delta> := pminus F (XX ! (off + 2 * k * \<delta>)) (turned F N k (XX ! (off + (2 * k + 1) * \<delta>))),
      off + k * \<delta> := pplus F (XX ! (off + 2 * k * \<delta>)) (turned F N k (XX ! (off + (2 * k + 1) * \<delta>)))])"
proof -
  have b: "off + k * \<delta> < length X" "off + (k + M) * \<delta> < length X" "off + (2 * k) * \<delta> < length XX" "off + (2 * k + 1) * \<delta> < length XX"
    using assms(3,4) index_less [OF _ assms(1), of k] index_less [OF _ assms(1), of "k + M"]
      index_less [OF _ assms(2), of "2 * k"] index_less [OF _ assms(2), of "2 * k + 1"] by linarith+
  have e: "off + k * \<delta> + M * \<delta> = off + (k + M) * \<delta>" "off + 2 * k * \<delta> + \<delta> = off + (2 * k + 1) * \<delta>" by (simp_all add: algebra_simps)
  obtain e0 e1 o0 o1 where v: "XX ! (off + 2 * k * \<delta>) = (e0, e1)" "XX ! (off + (2 * k + 1) * \<delta>) = (o0, o1)" by fastforce
  have h: "N div 2 = M" using assms(3) by simp
  show ?thesis using b v unfolding butterfly_def Let_def h e by (simp add: pplus_def pminus_def turned_def Let_def)
qed

lemma combine_ok:
  assumes "off + (N - 1) * \<delta> < length X" "off + (N - 1) * \<delta> < length XX" "N = 2 * M" "n \<le> M" "0 < \<delta>"
  shows "\<exists>X'. combine F N off \<delta> XX n X = Some X' \<and> length X' = length X \<and>
    (\<forall>k<n. X' ! (off + k * \<delta>) = pplus F (XX ! (off + 2 * k * \<delta>)) (turned F N k (XX ! (off + (2 * k + 1) * \<delta>))) \<and>
      X' ! (off + (k + M) * \<delta>) = pminus F (XX ! (off + 2 * k * \<delta>)) (turned F N k (XX ! (off + (2 * k + 1) * \<delta>)))) \<and>
    (\<forall>i. i \<notin> places off \<delta> N \<longrightarrow> X' ! i = X ! i)"
  using assms(4)
proof (induction n)
  case (Suc n)
  then obtain X' where X': "combine F N off \<delta> XX n X = Some X'" "length X' = length X"
    "\<And>k. k < n \<Longrightarrow> X' ! (off + k * \<delta>) = pplus F (XX ! (off + 2 * k * \<delta>)) (turned F N k (XX ! (off + (2 * k + 1) * \<delta>)))"
    "\<And>k. k < n \<Longrightarrow> X' ! (off + (k + M) * \<delta>) = pminus F (XX ! (off + 2 * k * \<delta>)) (turned F N k (XX ! (off + (2 * k + 1) * \<delta>)))"
    "\<And>i. i \<notin> places off \<delta> N \<Longrightarrow> X' ! i = X ! i"
    by auto
  let ?p = "pplus F (XX ! (off + 2 * n * \<delta>)) (turned F N n (XX ! (off + (2 * n + 1) * \<delta>)))"
  let ?q = "pminus F (XX ! (off + 2 * n * \<delta>)) (turned F N n (XX ! (off + (2 * n + 1) * \<delta>)))"
  let ?Y = "X'[off + (n + M) * \<delta> := ?q, off + n * \<delta> := ?p]"
  have st: "combine F N off \<delta> XX (Suc n) X = Some ?Y"
    using X'(1,2) butterfly_ok [of off N \<delta> X' XX M n F] assms(1-3) Suc.prems by simp
  have in_range: "off + n * \<delta> < length X'" "off + (n + M) * \<delta> < length X'"
    using X'(2) assms(1,3) Suc.prems index_less [of _ N off \<delta>] by auto
  have "?Y ! (off + k * \<delta>) = pplus F (XX ! (off + 2 * k * \<delta>)) (turned F N k (XX ! (off + (2 * k + 1) * \<delta>)))" if "k < Suc n" for k
    using that X'(3) in_range assms(5) Suc.prems by (cases "k = n") (simp_all add: nth_list_update)
  moreover have "?Y ! (off + (k + M) * \<delta>) = pminus F (XX ! (off + 2 * k * \<delta>)) (turned F N k (XX ! (off + (2 * k + 1) * \<delta>)))" if "k < Suc n" for k
    using that X'(4) in_range assms(5) Suc.prems by (cases "k = n") (simp_all add: nth_list_update)
  moreover have "?Y ! i = X ! i" if "i \<notin> places off \<delta> N" for i
  proof -
    have "i \<noteq> off + n * \<delta>" "i \<noteq> off + (n + M) * \<delta>"
      using that Suc.prems assms(3) by (auto simp: places_def)
    then show ?thesis using X'(5) [OF that] by simp
  qed
  ultimately show ?case using st X'(2) by auto
qed simp

lemma dft2_ok:
  assumes "off + \<delta> < length X" "off + \<delta> < length x" "0 < \<delta>"
  shows "\<exists>X'. dft2 F off \<delta> x X = Some X' \<and> length X' = length X \<and>
    (\<forall>k<2. X' ! (off + k * \<delta>) = rfft F 0 (\<lambda>j. x ! (off + j * \<delta>)) k) \<and> (\<forall>i. i \<notin> places off \<delta> 2 \<longrightarrow> X' ! i = X ! i)"
proof -
  obtain a0 a1 b0 b1 where v: "x ! off = (a0, a1)" "x ! (off + \<delta>) = (b0, b1)" by fastforce
  let ?Y = "X[off + \<delta> := (fl_sub F a0 b0, fl_sub F a1 b1), off := (fl_add F a0 b0, fl_add F a1 b1)]"
  have "dft2 F off \<delta> x X = Some ?Y" using assms v by (simp add: dft2_def)
  moreover have "\<forall>k<2. ?Y ! (off + k * \<delta>) = rfft F 0 (\<lambda>j. x ! (off + j * \<delta>)) k"
    using assms v by (auto simp: less_2_cases_iff pplus_def pminus_def)
  moreover have "places off \<delta> 2 = {off, off + \<delta>}" by (auto simp: places_def lessThan_nat_numeral lessThan_Suc)
  ultimately show ?thesis by auto
qed

text \<open>The recursion on buffers is the recursion on functions, for any arithmetic, and it keeps to its elements.\<close>

lemma fft_rec_rfft:
  assumes "N = 2 ^ Suc m" "0 < \<delta>" "off + (N - 1) * \<delta> < length x" "off + (N - 1) * \<delta> < length X" "off + (N - 1) * \<delta> < length XX"
  shows "\<exists>X' XX'. fft_rec F N off \<delta> x X XX = Some (X', XX') \<and> length X' = length X \<and> length XX' = length XX \<and>
    (\<forall>k<N. X' ! (off + k * \<delta>) = rfft F m (\<lambda>j. x ! (off + j * \<delta>)) k) \<and>
    (\<forall>i. i \<notin> places off \<delta> N \<longrightarrow> X' ! i = X ! i \<and> XX' ! i = XX ! i)"
  using assms
proof (induction m arbitrary: N off \<delta> X XX)
  case 0
  then obtain X' where "dft2 F off \<delta> x X = Some X'" "length X' = length X"
    "\<forall>k<2. X' ! (off + k * \<delta>) = rfft F 0 (\<lambda>j. x ! (off + j * \<delta>)) k" "\<forall>i. i \<notin> places off \<delta> 2 \<longrightarrow> X' ! i = X ! i"
    using dft2_ok [of off \<delta> X x F] by auto
  with 0 show ?case by (subst fft_rec.simps) (simp add: Let_def)
next
  case (Suc m)
  let ?M = "2 ^ Suc m :: nat"
  have N: "N = 2 * ?M" "N \<noteq> 2" "N div 2 = ?M" using Suc.prems(1) by auto
  have d: "0 < 2 * \<delta>" using Suc.prems by simp
  have M: "off + (?M - 1) * (2 * \<delta>) + \<delta> = off + (N - 1) * \<delta>"
  proof -
    have "0 < ?M" by simp
    then have "N - 1 = 2 * (?M - 1) + 1" unfolding N(1) by linarith
    then show ?thesis by (simp add: algebra_simps)
  qed
  have e: "off + (?M - 1) * (2 * \<delta>) < length x" "off + (?M - 1) * (2 * \<delta>) < length X" "off + (?M - 1) * (2 * \<delta>) < length XX"
    using M Suc.prems by linarith+
  obtain Y Z where 1: "fft_rec F ?M off (2 * \<delta>) x XX X = Some (Y, Z)" "length Y = length XX" "length Z = length X"
    "\<And>k. k < ?M \<Longrightarrow> Y ! (off + k * (2 * \<delta>)) = rfft F m (\<lambda>j. x ! (off + j * (2 * \<delta>))) k"
    "\<And>i. i \<notin> places off (2 * \<delta>) ?M \<Longrightarrow> Y ! i = XX ! i \<and> Z ! i = X ! i"
    using Suc.IH [OF refl d e(1) e(3) e(2)] by blast
  have o: "off + \<delta> + (?M - 1) * (2 * \<delta>) < length x" "off + \<delta> + (?M - 1) * (2 * \<delta>) < length Z" "off + \<delta> + (?M - 1) * (2 * \<delta>) < length Y"
    using M Suc.prems 1(2,3) by linarith+
  obtain Y' Z' where 2: "fft_rec F ?M (off + \<delta>) (2 * \<delta>) x Y Z = Some (Y', Z')" "length Y' = length Y" "length Z' = length Z"
    "\<And>k. k < ?M \<Longrightarrow> Y' ! (off + \<delta> + k * (2 * \<delta>)) = rfft F m (\<lambda>j. x ! (off + \<delta> + j * (2 * \<delta>))) k"
    "\<And>i. i \<notin> places (off + \<delta>) (2 * \<delta>) ?M \<Longrightarrow> Y' ! i = Y ! i \<and> Z' ! i = Z ! i"
    using Suc.IH [OF refl d o(1) o(3) o(2)] by blast
  have ev: "Y' ! (off + 2 * k * \<delta>) = rfft F m (\<lambda>j. x ! (off + 2 * j * \<delta>)) k" if "k < ?M" for k
  proof -
    have "off + 2 * k * \<delta> \<noteq> off + \<delta> + j * (2 * \<delta>)" for j
    proof
      assume "off + 2 * k * \<delta> = off + \<delta> + j * (2 * \<delta>)"
      then have "(2 * k) * \<delta> = (2 * j + 1) * \<delta>" by (simp add: algebra_simps)
      then have "2 * k = 2 * j + 1" using Suc.prems(2) by (simp only: mult_cancel2) simp
      then show False by presburger
    qed
    then have "off + 2 * k * \<delta> \<notin> places (off + \<delta>) (2 * \<delta>) ?M" by (auto simp: places_def)
    then show ?thesis using 2(5) 1(4) [OF that] by (simp add: mult.commute mult.left_commute)
  qed
  have od: "Y' ! (off + (2 * k + 1) * \<delta>) = rfft F m (\<lambda>j. x ! (off + (2 * j + 1) * \<delta>)) k" if "k < ?M" for k
  proof -
    have "off + (2 * j + 1) * \<delta> = off + \<delta> + j * (2 * \<delta>)" for j by (simp add: algebra_simps)
    then show ?thesis using 2(4) [OF that] by presburger
  qed
  have c: "off + (N - 1) * \<delta> < length Z'" "off + (N - 1) * \<delta> < length Y'" using 1 2 Suc.prems by auto
  obtain X' where 3: "combine F N off \<delta> Y' ?M Z' = Some X'" "length X' = length Z'"
    "\<And>k. k < ?M \<Longrightarrow> X' ! (off + k * \<delta>) = pplus F (Y' ! (off + 2 * k * \<delta>)) (turned F N k (Y' ! (off + (2 * k + 1) * \<delta>)))"
    "\<And>k. k < ?M \<Longrightarrow> X' ! (off + (k + ?M) * \<delta>) = pminus F (Y' ! (off + 2 * k * \<delta>)) (turned F N k (Y' ! (off + (2 * k + 1) * \<delta>)))"
    "\<And>i. i \<notin> places off \<delta> N \<Longrightarrow> X' ! i = Z' ! i"
    using combine_ok [OF c N(1) order_refl Suc.prems(2), of F] by blast
  have run: "fft_rec F N off \<delta> x X XX = Some (X', Y')"
    using 1(1) 2(1) 3(1) N by (subst fft_rec.simps) (simp add: Let_def)
  have val: "X' ! (off + k * \<delta>) = rfft F (Suc m) (\<lambda>j. x ! (off + j * \<delta>)) k" if "k < N" for k
  proof (cases "k < ?M")
    case True
    then show ?thesis using 3(3) [OF True] ev [OF True] od [OF True] N(1) by (simp add: Let_def)
  next
    case False
    then have k: "k - ?M < ?M" "k - ?M + ?M = k" using that N(1) by auto
    show ?thesis using 3(4) [OF k(1)] ev [OF k(1)] od [OF k(1)] N(1) False unfolding k(2) by (simp add: Let_def)
  qed
  have sub: "places off (2 * \<delta>) ?M \<subseteq> places off \<delta> N" "places (off + \<delta>) (2 * \<delta>) ?M \<subseteq> places off \<delta> N"
    using N(1) by (auto simp: places_def intro: image_eqI [where x = "2 * a" for a] image_eqI [where x = "2 * a + 1" for a])
  have out: "X' ! i = X ! i \<and> Y' ! i = XX ! i" if "i \<notin> places off \<delta> N" for i
    using that sub 3(5) 2(5) 1(5) by (metis subsetD)
  show ?case using run val out 1 2 3 by auto
qed

end
