(* ===== verification/Dft.thy ===== *)
theory Dft
  imports Fft
begin

text \<open>
  The discrete Fourier transform, and that \<open>fft.c\<close> computes it and its inverse over exact reals.
\<close>

subsection \<open>The transform\<close>

definition omega :: "nat \<Rightarrow> complex" where
  "omega N = cis (- (2 * pi / real N))"

definition dft :: "nat \<Rightarrow> (nat \<Rightarrow> complex) \<Rightarrow> nat \<Rightarrow> complex" where
  "dft N f k = (\<Sum>j<N. f j * omega N ^ (j * k))"

lemma omega_power: "omega N ^ n = cis (- (2 * pi * real n / real N))"
  by (simp add: omega_def DeMoivre mult.commute)

lemma omega_full [simp]: "0 < N \<Longrightarrow> omega N ^ N = 1"
  by (simp add: omega_power complex_eq_iff)

lemma omega_half: "0 < M \<Longrightarrow> omega (2 * M) ^ M = - 1"
  by (simp add: omega_power complex_eq_iff)

lemma omega_square: "omega (2 * M) ^ (2 * n) = omega M ^ n"
  by (simp add: omega_power mult.assoc)

lemma omega_wrap: "0 < N \<Longrightarrow> omega N ^ (j * (k + N)) = omega N ^ (j * k)"
proof -
  assume "0 < N"
  then have "omega N ^ (N * j) = 1" by (simp only: power_mult omega_full power_one)
  then show ?thesis by (simp add: distrib_left power_add mult.commute)
qed

lemma dft_periodic: "0 < N \<Longrightarrow> dft N f (k + N) = dft N f k"
  by (simp add: dft_def omega_wrap)

lemma sum_even_odd: "(\<Sum>j<2 * M. g j :: 'a :: comm_monoid_add) = (\<Sum>j<M. g (2 * j)) + (\<Sum>j<M. g (2 * j + 1))" for M :: nat
  by (induction M) (simp_all add: ac_simps)

lemma dft_split:
  "dft (2 * M) f k = dft M (\<lambda>j. f (2 * j)) k + omega (2 * M) ^ k * dft M (\<lambda>j. f (2 * j + 1)) k"
proof -
  have "omega (2 * M) ^ (2 * j * k) = omega M ^ (j * k)" for j using omega_square [of M "j * k"] by (simp add: mult.assoc)
  moreover have "omega (2 * M) ^ ((2 * j + 1) * k) = omega (2 * M) ^ k * omega M ^ (j * k)" for j
    using omega_square [of M "j * k"] by (simp add: power_add distrib_right mult.assoc)
  ultimately show ?thesis unfolding dft_def sum_even_odd [of _ M] sum_distrib_left
    by (simp only: mult.left_commute)
qed

lemma dft_split_low: "0 < M \<Longrightarrow> dft (2 * M) f (k + M) =
    dft M (\<lambda>j. f (2 * j)) k - omega (2 * M) ^ k * dft M (\<lambda>j. f (2 * j + 1)) k"
  by (simp add: dft_split dft_periodic power_add omega_half)

subsection \<open>The routines over exact reals\<close>

definition real_flt :: "real flt" where
  "real_flt = \<lparr>fl_add = (+), fl_sub = (-), fl_mul = (*), fl_by = (\<lambda>v n. v / real n), fl_angle = (\<lambda>k N. 2 * pi * real k / real N),
     fl_cos = cos, fl_sin = sin, fl_sqrt = sqrt, fl_zero = 0\<rparr>"

definition cx :: "real \<times> real \<Rightarrow> complex" where
  "cx = (\<lambda>(a, b). Complex a b)"

lemma cx_inj: "cx p = cx q \<longleftrightarrow> p = q"
  by (auto simp: cx_def split: prod.splits)

lemma cx_plus: "cx (pplus real_flt p q) = cx p + cx q"
  by (simp add: cx_def pplus_def real_flt_def complex_eq_iff split: prod.splits)

lemma cx_minus: "cx (pminus real_flt p q) = cx p - cx q"
  by (simp add: cx_def pminus_def real_flt_def complex_eq_iff split: prod.splits)

lemma cx_turned: "cx (turned real_flt N k p) = omega N ^ k * cx p"
  by (auto simp: cx_def turned_def real_flt_def omega_power Let_def complex_eq_iff split: prod.splits)

lemmas cx_simps = cx_plus cx_minus cx_turned

lemma rfft_dft: "k < 2 ^ Suc m \<Longrightarrow> cx (rfft real_flt m f k) = dft (2 ^ Suc m) (\<lambda>j. cx (f j)) k"
proof (induction m arbitrary: f k)
  case 0
  then have "k = 0 \<or> k = 1" by auto
  then show ?case
    using omega_half [of 1] by (auto simp: cx_simps dft_def lessThan_nat_numeral lessThan_Suc)
next
  case (Suc m)
  let ?M = "2 ^ Suc m :: nat"
  have M: "2 ^ Suc (Suc m) = 2 * ?M" "0 < ?M" by simp_all
  show ?case
  proof (cases "k < ?M")
    case True
    then show ?thesis unfolding M(1) dft_split using Suc.IH [OF True] by (simp add: Let_def cx_simps)
  next
    case False
    then have k: "k - ?M < ?M" "k = k - ?M + ?M" using Suc.prems by simp_all
    have "dft (2 * ?M) (\<lambda>j. cx (f j)) k = dft (2 * ?M) (\<lambda>j. cx (f j)) (k - ?M + ?M)" using k(2) by simp
    also have "\<dots> = cx (rfft real_flt m (\<lambda>j. f (2 * j)) (k - ?M)) -
        omega (2 * ?M) ^ (k - ?M) * cx (rfft real_flt m (\<lambda>j. f (2 * j + 1)) (k - ?M))"
      unfolding dft_split_low [OF M(2)] Suc.IH [OF k(1)] ..
    finally show ?thesis unfolding M(1) using False by (simp add: Let_def cx_simps)
  qed
qed

subsection \<open>The inverse\<close>

lemma omega_not_one: "0 < m \<Longrightarrow> m < N \<Longrightarrow> omega N ^ m \<noteq> 1"
proof
  assume m: "0 < m" "m < N" and "omega N ^ m = 1"
  then have "cos (2 * pi * real m / real N) = 1" by (simp add: omega_power cis_def complex_eq_iff)
  then obtain x :: int where "2 * pi * real m / real N = real_of_int x * (2 * pi)"
    using cos_one_2pi_int by auto
  then have "real m = real_of_int x * real N" using m by (simp add: field_simps)
  then have "int m = x * int N" by (metis of_int_eq_iff of_int_mult of_int_of_nat_eq)
  then show False using m by (metis dvd_triv_right int_dvd_int_iff nat_dvd_not_less)
qed

lemma omega_sum:
  assumes "0 < N"
  shows "(\<Sum>k<N. omega N ^ (k * n)) = (if N dvd n then of_nat N else 0)"
proof -
  have s: "omega N ^ (k * n) = (omega N ^ (n mod N)) ^ k" for k
  proof -
    have "omega N ^ n = omega N ^ (n mod N + N * (n div N))" by simp
    also have "\<dots> = omega N ^ (n mod N)" using assms by (simp only: power_add power_mult omega_full power_one mult_1_right)
    finally show ?thesis by (metis mult.commute power_mult)
  qed
  show ?thesis
  proof (cases "N dvd n")
    case True
    then show ?thesis by (simp add: s)
  next
    case False
    then have "omega N ^ (n mod N) \<noteq> 1" using assms by (intro omega_not_one) (auto simp: dvd_eq_mod_eq_0)
    moreover have "(omega N ^ (n mod N)) ^ N = 1" using assms by (metis mult.commute power_mult power_one omega_full)
    ultimately show ?thesis using False by (simp add: s geometric_sum)
  qed
qed

lemma dvd_sum_less:
  assumes "i < N" "j < N" "0 < j"
  shows "N dvd i + j \<longleftrightarrow> i = N - (j::nat)"
proof
  assume "N dvd i + j"
  then obtain q where q: "i + j = N * q" by (auto simp: dvd_def)
  moreover have "q \<noteq> 0" using q assms by (cases q) simp_all
  moreover have "q < 2"
  proof (rule ccontr)
    assume "\<not> q < 2"
    then have "N * 2 \<le> N * q" by simp
    with q assms show False by linarith
  qed
  ultimately show "i = N - j" using assms by (simp add: less_2_cases_iff)
qed (use assms in auto)

lemma dft_dft:
  assumes "j < N"
  shows "dft N (dft N f) j = of_nat N * f ((N - j) mod N)"
proof -
  have N: "0 < N" using assms by simp
  have "dft N (dft N f) j = (\<Sum>k<N. \<Sum>i<N. f i * omega N ^ (k * (i + j)))"
    unfolding dft_def sum_distrib_right
    by (intro sum.cong refl) (simp add: distrib_left power_add ac_simps)
  also have "\<dots> = (\<Sum>i<N. f i * (\<Sum>k<N. omega N ^ (k * (i + j))))"
    by (subst sum.swap) (simp add: sum_distrib_left)
  also have "\<dots> = (\<Sum>i<N. if i = (N - j) mod N then of_nat N * f i else 0)"
  proof (rule sum.cong)
    fix i assume "i \<in> {..<N}"
    then have "N dvd i + j \<longleftrightarrow> i = (N - j) mod N"
      using assms dvd_sum_less [of i N j] by (cases "j = 0") (auto dest: nat_dvd_not_less)
    then show "f i * (\<Sum>k<N. omega N ^ (k * (i + j))) = (if i = (N - j) mod N then of_nat N * f i else 0)"
      by (simp add: omega_sum [OF N])
  qed simp
  also have "\<dots> = of_nat N * f ((N - j) mod N)" using N by simp
  finally show ?thesis .
qed

lemma ifft_swaps_ok:
  assumes "length x = N" "n < N - n"
  shows "\<exists>x'. ifft_swaps F N n x = Some x' \<and> length x' = N \<and>
    (\<forall>i<N. x' ! i = (if 0 < i \<and> (i \<le> n \<or> N - n \<le> i) then scaled F N (x ! (N - i)) else x ! i))"
  using assms(2)
proof (induction n)
  case 0
  then show ?case using assms(1) by auto
next
  case (Suc n)
  then have "n < N - n" by simp
  from Suc.IH [OF this] obtain x' where x': "ifft_swaps F N n x = Some x'" "length x' = N"
    "\<And>i. i < N \<Longrightarrow> x' ! i = (if 0 < i \<and> (i \<le> n \<or> N - n \<le> i) then scaled F N (x ! (N - i)) else x ! i)"
    by blast
  have r: "Suc n < N" "N - Suc n < N" "Suc n < N - Suc n" using Suc.prems by auto
  have v: "x' ! Suc n = x ! Suc n" "x' ! (N - Suc n) = x ! (N - Suc n)" using r by (auto simp: x'(3))
  let ?y = "x'[Suc n := scaled F N (x ! (N - Suc n)), N - Suc n := scaled F N (x ! Suc n)]"
  have "ifft_swaps F N (Suc n) x = Some ?y" using x'(1,2) r v by simp
  moreover have "?y ! i = (if 0 < i \<and> (i \<le> Suc n \<or> N - Suc n \<le> i) then scaled F N (x ! (N - i)) else x ! i)" if "i < N" for i
  proof -
    have "i = Suc n \<or> i = N - Suc n \<or> i \<noteq> Suc n \<and> i \<noteq> N - Suc n" by blast
    then show ?thesis
    proof (elim disjE conjE)
      assume "i \<noteq> Suc n" "i \<noteq> N - Suc n"
      moreover from this have "(i \<le> Suc n \<or> N - Suc n \<le> i) = (i \<le> n \<or> N - n \<le> i)" using that r by linarith
      ultimately show ?thesis using x'(3) [OF that] by simp
    qed (use r x'(2) in auto)
  qed
  ultimately show ?case using x'(2) by auto
qed

lemma fft_dft_all:
  assumes "N = 2 ^ Suc m" "length x = N" "length X = N" "length XX = N"
  shows "\<exists>X'. fft real_flt (Some XX) N x X = Some X' \<and> length X' = N \<and> (\<forall>k<N. cx (X' ! k) = dft N (\<lambda>j. cx (x ! j)) k)"
proof -
  have "N - 1 < N" using assms(1) by simp
  then obtain X' XX' where r: "fft_rec real_flt N 0 1 x X XX = Some (X', XX')" "length X' = N"
    "\<And>k. k < N \<Longrightarrow> X' ! k = rfft real_flt m (\<lambda>j. x ! j) k"
    using fft_rec_rfft [of N m 1 0 x X XX real_flt] assms by auto
  then show ?thesis using rfft_dft [of _ m] assms(1) by (auto simp: fft_def)
qed

lemma cx_scaled: "cx (scaled real_flt N p) = cx p / of_nat N"
  by (auto simp: cx_def scaled_def real_flt_def complex_eq_iff split: prod.splits)

lemma ifft_ok:
  assumes "N = 2 ^ Suc m" "length x = N" "length X = N" "length XX = N"
  shows "\<exists>x'. ifft real_flt (Some XX) N x X = Some x' \<and> length x' = N \<and>
    (\<forall>j<N. cx (x' ! j) = dft N (\<lambda>k. cx (X ! k)) ((N - j) mod N) / of_nat N)"
proof -
  let ?M = "2 ^ m :: nat"
  have N: "N = 2 * ?M" "N div 2 = ?M" "0 < ?M" using assms(1) by simp_all
  obtain y where y: "fft real_flt (Some XX) N X x = Some y" "length y = N" "\<And>k. k < N \<Longrightarrow> cx (y ! k) = dft N (\<lambda>k. cx (X ! k)) k"
    using fft_dft_all [OF assms(1,3,2,4)] by blast
  let ?z = "y[0 := scaled real_flt N (y ! 0), ?M := scaled real_flt N (y ! ?M)]"
  have z: "length ?z = N" "?M - 1 < N - (?M - 1)" using y N by auto
  obtain x' where x': "ifft_swaps real_flt N (?M - 1) ?z = Some x'" "length x' = N"
    "\<And>i. i < N \<Longrightarrow> x' ! i = (if 0 < i \<and> (i \<le> ?M - 1 \<or> N - (?M - 1) \<le> i) then scaled real_flt N (?z ! (N - i)) else ?z ! i)"
    using ifft_swaps_ok [OF z] by blast
  have "ifft real_flt (Some XX) N x X = Some x'"
    using y(1,2) x'(1) N by (simp add: ifft_def Let_def)
  moreover have "x' ! j = scaled real_flt N (y ! ((N - j) mod N))" if "j < N" for j
  proof -
    have h: "\<not> ?M \<le> ?M - 1" "\<not> N - (?M - 1) \<le> ?M" "N - ?M = ?M" using N by linarith+
    have "j = 0 \<or> j = ?M \<or> 0 < j \<and> j \<noteq> ?M" by auto
    then show ?thesis
    proof (elim disjE conjE)
      assume "0 < j" "j \<noteq> ?M"
      moreover from this have "j \<le> ?M - 1 \<or> N - (?M - 1) \<le> j" "N - j \<noteq> ?M" "0 < N - j" using that N by linarith+
      ultimately show ?thesis using x'(3) [OF that] by simp
    next
      assume "j = ?M"
      then show ?thesis using x'(3) [OF that] h that y(2) by simp
    qed (use x'(3) that y(2) N in auto)
  qed
  ultimately show ?thesis using x'(2) y(3) by (auto simp: cx_scaled)
qed

lemma dft_cong: "(\<And>j. j < N \<Longrightarrow> f j = g j) \<Longrightarrow> dft N f k = dft N g k"
  by (auto simp: dft_def intro: sum.cong)

text \<open>
  The test bench's reference spectrum is right: for \<open>2 ^ n\<close> samples, \<open>n\<close> at least 1, \<open>fft\<close> ends,
  reads and writes only elements of its arrays, and over exact reals leaves at every \<open>k\<close> the
  discrete Fourier transform of the samples, whatever was in the output and scratch arrays.
\<close>

theorem fft_is_dft:
  assumes "N = 2 ^ n" "1 \<le> n" "length x = N" "length X = N" "length XX = N"
  shows "\<exists>X'. fft real_flt (Some XX) N x X = Some X' \<and> length X' = N \<and>
    (\<forall>k<N. cx (X' ! k) = (\<Sum>j<N. cx (x ! j) * cis (- (2 * pi * real (j * k) / real N))))"
proof -
  have "N = 2 ^ Suc (n - 1)" using assms by simp
  then show ?thesis using fft_dft_all [of N "n - 1" x X XX] assms by (simp add: dft_def omega_power)
qed

text \<open>Four samples of a cosine: the spectrum has two lines.\<close>

theorem fft_is_dft_witness:
  "\<exists>X'. fft real_flt (Some (replicate 4 (0, 0))) 4 [(1, 0), (0, 0), (-1, 0), (0, 0)] (replicate 4 (9, 9)) = Some X' \<and>
    length X' = 4 \<and> cx (X' ! 0) = 0 \<and> cx (X' ! 1) = 2"
proof -
  have "\<exists>X'. fft real_flt (Some (replicate 4 (0, 0))) 4 [(1, 0), (0, 0), (-1, 0), (0, 0)] (replicate 4 (9, 9)) = Some X' \<and> length X' = 4 \<and>
    (\<forall>k<4. cx (X' ! k) = (\<Sum>j<4. cx ([(1, 0), (0, 0), (-1, 0), (0, 0)] ! j) * cis (- (2 * pi * real (j * k) / real 4))))"
    by (rule fft_is_dft [of 4 2]) simp_all
  then show ?thesis
    by (auto simp: lessThan_nat_numeral lessThan_Suc cx_def complex_eq_iff numeral_eq_Suc)
qed

text \<open>
  C40: \<open>ifft\<close> undoes \<open>fft\<close>: for \<open>2 ^ n\<close> samples, \<open>n\<close> at least 1, transforming and transforming back
  ends and gives the samples again over exact reals.
\<close>

theorem ifft_fft:
  assumes "N = 2 ^ n" "1 \<le> n" "length x = N" "length X = N" "length XX = N" "length XX' = N" "length y = N"
  shows "\<exists>X'. fft real_flt (Some XX) N x X = Some X' \<and> ifft real_flt (Some XX') N y X' = Some x"
proof -
  have N: "N = 2 ^ Suc (n - 1)" using assms by simp
  obtain X' where X': "fft real_flt (Some XX) N x X = Some X'" "length X' = N" "\<And>k. k < N \<Longrightarrow> cx (X' ! k) = dft N (\<lambda>j. cx (x ! j)) k"
    using fft_dft_all [OF N assms(3-5)] by blast
  obtain z where z: "ifft real_flt (Some XX') N y X' = Some z" "length z = N"
    "\<And>j. j < N \<Longrightarrow> cx (z ! j) = dft N (\<lambda>k. cx (X' ! k)) ((N - j) mod N) / of_nat N"
    using ifft_ok [OF N assms(7) X'(2) assms(6)] by blast
  have "z ! j = x ! j" if "j < N" for j
  proof -
    have r: "(N - j) mod N < N" "(N - (N - j) mod N) mod N = j" using that by (cases "j = 0"; simp)+
    have "cx (z ! j) = dft N (dft N (\<lambda>j. cx (x ! j))) ((N - j) mod N) / of_nat N"
      using z(3) [OF that] X'(3) dft_cong [of N "\<lambda>k. cx (X' ! k)" "dft N (\<lambda>j. cx (x ! j))"] by simp
    also have "\<dots> = cx (x ! j)" unfolding dft_dft [OF r(1)] r(2) using that by simp
    finally show ?thesis by (simp add: cx_inj)
  qed
  then have "z = x" using z(2) assms(3) by (simp add: nth_equalityI)
  then show ?thesis using X'(1) z(1) by blast
qed

theorem ifft_fft_witness:
  "\<exists>X'. fft real_flt (Some (replicate 2 (0, 0))) 2 [(3, 1), (5, 2)] (replicate 2 (0, 0)) = Some X' \<and>
    ifft real_flt (Some (replicate 2 (7, 7))) 2 (replicate 2 (8, 8)) X' = Some [(3, 1), (5, 2)]"
  by (rule ifft_fft [of 2 1]) simp_all

subsection \<open>The wrappers\<close>

text \<open>A dynamic array of the test bench has the range from 0.\<close>

definition dyn_array :: "'d list \<Rightarrow> 'd sv_array" where
  "dyn_array xs = \<lparr>svLeft = 0, svRight = int (length xs) - 1, svElems = xs\<rparr>"

lemma for_each_snoc: "for_each f (is @ [i]) s = do { s \<leftarrow> for_each f is s; f i s }"
  by (induction "is" arbitrary: s) (auto split: bind_splits)

lemma upto_snoc: "[0..int n] = [0..int n - 1] @ [int n]"
  by (simp add: upto_rec2)

lemma pack_loop:
  assumes "n \<le> length xs" "length xs \<le> length x"
  shows "for_each (pack_at F (dyn_array xs)) [0..int n - 1] x = Some (map (\<lambda>v. (v, fl_zero F)) (take n xs) @ drop n x)"
  using assms(1)
proof (induction n)
  case (Suc n)
  let ?y = "map (\<lambda>v. (v, fl_zero F)) (take n xs) @ drop n x"
  have "for_each (pack_at F (dyn_array xs)) [0..int (Suc n) - 1] x = pack_at F (dyn_array xs) (int n) ?y"
    using Suc by (simp add: upto_snoc for_each_snoc)
  also have "\<dots> = Some (?y[n := (xs ! n, fl_zero F)])"
    using Suc.prems assms(2) by (simp add: pack_at_def svGetArrElemPtr1_def dyn_array_def index_of_def)
  also have "?y[n := (xs ! n, fl_zero F)] = map (\<lambda>v. (v, fl_zero F)) (take (Suc n) xs) @ drop (Suc n) x"
    using Suc.prems assms(2) by (simp add: list_update_append min_def take_Suc_conv_app_nth Cons_nth_drop_Suc [symmetric])
  finally show ?case .
qed simp

lemma unpack_loop:
  assumes "n \<le> length r" "length r \<le> length X"
  shows "for_each (unpack_at sel X) [0..int n - 1] (dyn_array r) = Some (dyn_array (map sel (take n X) @ drop n r))"
  using assms(1)
proof (induction n)
  case (Suc n)
  let ?y = "map sel (take n X) @ drop n r"
  have l: "length ?y = length r" using Suc.prems assms(2) by simp
  have "for_each (unpack_at sel X) [0..int (Suc n) - 1] (dyn_array r) = unpack_at sel X (int n) (dyn_array ?y)"
    using Suc by (simp add: upto_snoc for_each_snoc)
  also have "\<dots> = Some (dyn_array (?y[n := sel (X ! n)]))"
    using Suc.prems assms(2) l by (simp add: unpack_at_def svGetArrElemPtr1_def dyn_array_def index_of_def)
  also have "?y[n := sel (X ! n)] = map sel (take (Suc n) X) @ drop (Suc n) r"
    using Suc.prems assms(2) by (simp add: list_update_append min_def take_Suc_conv_app_nth Cons_nth_drop_Suc [symmetric])
  finally show ?case .
qed simp

lemma abs_loop:
  assumes "n \<le> length re" "length im = length re"
  shows "for_each (syn_abs_at real_flt im) [0..<n] re =
    Some (map (\<lambda>i. cmod (Complex (re ! i) (im ! i))) [0..<n] @ drop n re)"
  using assms(1)
proof (induction n)
  case (Suc n)
  let ?y = "map (\<lambda>i. cmod (Complex (re ! i) (im ! i))) [0..<n] @ drop n re"
  have "for_each (syn_abs_at real_flt im) [0..<Suc n] re = syn_abs_at real_flt im n ?y"
    using Suc by (simp add: for_each_snoc)
  also have "\<dots> = Some (?y[n := cmod (Complex (re ! n) (im ! n))])"
    using Suc.prems assms(2) by (simp add: syn_abs_at_def nth_append real_flt_def complex_norm power2_eq_square)
  also have "?y[n := cmod (Complex (re ! n) (im ! n))] = map (\<lambda>i. cmod (Complex (re ! i) (im ! i))) [0..<Suc n] @ drop (Suc n) re"
    using Suc.prems by (simp add: list_update_append Cons_nth_drop_Suc [symmetric])
  finally show ?case .
qed simp

text \<open>
  C39: What the scoreboard of the spectrum engine compares with: for a power of two of samples in a
  dynamic array, \<open>syn_calc_fft\<close> followed by \<open>syn_calc_abs\<close> on the two arrays it filled leaves, over
  exact reals, the magnitude of the discrete Fourier transform of the samples at every index.
\<close>

theorem scoreboard_spectrum:
  assumes "N = 2 ^ n" "1 \<le> n" "length xs = N" "length re = N" "length im = N" "length x = N" "length X = N" "length XX = N"
  shows "do { (re, im) \<leftarrow> syn_calc_fft real_flt x X (Some XX) N (dyn_array xs) (dyn_array re) (dyn_array im);
      syn_calc_abs real_flt N re im } =
    Some (dyn_array (map (\<lambda>k. cmod (\<Sum>j<N. of_real (xs ! j) * cis (- (2 * pi * real (j * k) / real N)))) [0..<N]))"
proof -
  have N: "N = 2 ^ Suc (n - 1)" using assms by simp
  let ?x = "map (\<lambda>v. (v, 0)) xs :: real pairs"
  have "for_each (pack_at real_flt (dyn_array xs)) [0..int N - 1] x = Some ?x"
    using pack_loop [of N xs x real_flt] assms by (simp add: real_flt_def)
  moreover obtain Y where Y: "fft real_flt (Some XX) N ?x X = Some Y" "length Y = N" "\<And>k. k < N \<Longrightarrow> cx (Y ! k) = dft N (\<lambda>j. cx (?x ! j)) k"
    using fft_dft_all [OF N, of ?x X XX] assms by auto
  ultimately have r: "syn_calc_fft real_flt x X (Some XX) N (dyn_array xs) (dyn_array re) (dyn_array im) =
      Some (dyn_array (map fst Y), dyn_array (map snd Y))"
    using unpack_loop [of N re Y fst] unpack_loop [of N im Y snd] assms by (simp add: syn_calc_fft_def) (simp add: dyn_array_def)
  have c: "cmod (Complex (map fst Y ! k) (map snd Y ! k)) = cmod (\<Sum>j<N. of_real (xs ! j) * cis (- (2 * pi * real (j * k) / real N)))" if "k < N" for k
  proof -
    have "Complex (map fst Y ! k) (map snd Y ! k) = cx (Y ! k)" using that Y(2) by (simp add: cx_def split_beta)
    also have "\<dots> = (\<Sum>j<N. of_real (xs ! j) * cis (- (2 * pi * real (j * k) / real N)))"
      unfolding Y(3) [OF that] dft_def omega_power using assms(3) by (intro sum.cong) (auto simp: cx_def complex_of_real_def)
    finally show ?thesis by simp
  qed
  have "syn_calc_abs real_flt N (dyn_array (map fst Y)) (dyn_array (map snd Y)) =
      Some (dyn_array (map (\<lambda>i. cmod (Complex (map fst Y ! i) (map snd Y ! i))) [0..<N]))"
    using abs_loop [of N "map fst Y" "map snd Y"] Y(2) by (simp add: syn_calc_abs_def dyn_array_def)
  also have "map (\<lambda>i. cmod (Complex (map fst Y ! i) (map snd Y ! i))) [0..<N] =
      map (\<lambda>k. cmod (\<Sum>j<N. of_real (xs ! j) * cis (- (2 * pi * real (j * k) / real N)))) [0..<N]"
    using c by (intro map_cong) auto
  finally show ?thesis by (simp add: r)
qed

theorem scoreboard_spectrum_witness:
  "do { (re, im) \<leftarrow> syn_calc_fft real_flt [(5, 5), (5, 5)] [(6, 6), (6, 6)] (Some [(7, 7), (7, 7)]) 2 (dyn_array [3, 1]) (dyn_array [0, 0]) (dyn_array [0, 0]);
      syn_calc_abs real_flt 2 re im } =
    Some (dyn_array (map (\<lambda>k. cmod (\<Sum>j<2. of_real ([3, 1] ! j) * cis (- (2 * pi * real (j * k) / real 2)))) [0..<2]))"
  by (rule scoreboard_spectrum [of 2 1]) simp_all

end
