(* ===== verification/Ch_Queues.thy ===== *)
theory Ch_Queues
  imports Prelude
begin

text \<open>
  The linked structures of the kernel: the functions of \<open>chinline.h\<close> on threads queues, as pointer
  code over the fields \<open>p_next\<close> and \<open>p_prev\<close>. A queue is a ring through its header; every function
  is shown to act on the ring as the list operation it stands for, and to leave every other ring.
\<close>

subsection \<open>Pointer code\<close>

text \<open>The two link fields of all structures that start with them, by address.\<close>

record 'p links =
  p_next :: "'p \<Rightarrow> 'p"
  p_prev :: "'p \<Rightarrow> 'p"

definition set_next :: "'p \<Rightarrow> 'p \<Rightarrow> 'p links \<Rightarrow> 'p links" where
  "set_next a b h = h\<lparr>p_next := (p_next h)(a := b)\<rparr>"

definition set_prev :: "'p \<Rightarrow> 'p \<Rightarrow> 'p links \<Rightarrow> 'p links" where
  "set_prev a b h = h\<lparr>p_prev := (p_prev h)(a := b)\<rparr>"

definition queue_init :: "'p \<Rightarrow> 'p links \<Rightarrow> 'p links" where
  "queue_init tqp h = set_next tqp tqp (set_prev tqp tqp h)"

definition isempty :: "'p \<Rightarrow> 'p links \<Rightarrow> bool" where
  "isempty p h \<longleftrightarrow> p_next h p = p"

definition notempty :: "'p \<Rightarrow> 'p links \<Rightarrow> bool" where
  "notempty p h \<longleftrightarrow> p_next h p \<noteq> p"

text \<open>The three assignments that end both insertions: \<open>tp\<close> goes before \<open>cp\<close>.\<close>

definition link_before :: "'p \<Rightarrow> 'p \<Rightarrow> 'p links \<Rightarrow> 'p links" where
  "link_before tp cp h =
     (let h = set_next tp cp h;
          h = set_prev tp (p_prev h cp) h;
          h = set_prev cp tp h
      in set_next (p_prev h tp) tp h)"

text \<open>The search of \<open>prio_insert\<close>, from the element after \<open>cp\<close>.\<close>

partial_function (option) prio_search :: "('p \<Rightarrow> u32) \<Rightarrow> 'p links \<Rightarrow> u32 \<Rightarrow> 'p \<Rightarrow> 'p \<Rightarrow> 'p option" where
  "prio_search prio h p tqp cp =
     (let cp = p_next h cp
      in if cp \<noteq> tqp \<and> prio cp \<ge> p then prio_search prio h p tqp cp else Some cp)"

definition prio_insert :: "('p \<Rightarrow> u32) \<Rightarrow> 'p \<Rightarrow> 'p \<Rightarrow> 'p links \<Rightarrow> 'p links option" where
  "prio_insert prio tp tqp h = do {
     cp \<leftarrow> prio_search prio h (prio tp) tqp tqp;
     Some (link_before tp cp h) }"

definition queue_insert :: "'p \<Rightarrow> 'p \<Rightarrow> 'p links \<Rightarrow> 'p links" where
  "queue_insert tp tqp h = link_before tp tqp h"

definition fifo_remove :: "'p \<Rightarrow> 'p links \<Rightarrow> 'p \<times> 'p links" where
  "fifo_remove tqp h =
     (let tp = p_next h tqp;
          h = set_next tqp (p_next h tp) h
      in (tp, set_prev (p_next h tqp) tqp h))"

definition lifo_remove :: "'p \<Rightarrow> 'p links \<Rightarrow> 'p \<times> 'p links" where
  "lifo_remove tqp h =
     (let tp = p_prev h tqp;
          h = set_prev tqp (p_prev h tp) h
      in (tp, set_next (p_prev h tqp) tqp h))"

definition dequeue :: "'p \<Rightarrow> 'p links \<Rightarrow> 'p links" where
  "dequeue tp h =
     (let h = set_next (p_prev h tp) (p_next h tp) h
      in set_prev (p_next h tp) (p_prev h tp) h)"

definition list_init :: "'p \<Rightarrow> 'p links \<Rightarrow> 'p links" where
  "list_init tlp h = set_next tlp tlp h"

definition list_insert :: "'p \<Rightarrow> 'p \<Rightarrow> 'p links \<Rightarrow> 'p links" where
  "list_insert tp tlp h = set_next tlp tp (set_next tp (p_next h tlp) h)"

definition list_remove :: "'p \<Rightarrow> 'p links \<Rightarrow> 'p \<times> 'p links" where
  "list_remove tlp h = (let tp = p_next h tlp in (tp, set_next tlp (p_next h tp) h))"

lemma links_fields [simp]:
  "p_next (set_next a b h) = (p_next h)(a := b)" "p_prev (set_next a b h) = p_prev h"
  "p_next (set_prev a b h) = p_next h" "p_prev (set_prev a b h) = (p_prev h)(a := b)"
  by (simp_all add: set_next_def set_prev_def)

subsection \<open>Rings\<close>

text \<open>The elements \<open>xs\<close> lie between \<open>a\<close> and \<open>b\<close>; a ring lies between its header and itself.\<close>

fun seg :: "'p links \<Rightarrow> 'p \<Rightarrow> 'p list \<Rightarrow> 'p \<Rightarrow> bool" where
  "seg h a [] b \<longleftrightarrow> p_next h a = b \<and> p_prev h b = a"
| "seg h a (x # xs) b \<longleftrightarrow> p_next h a = x \<and> p_prev h x = a \<and> seg h x xs b"

definition ring :: "'p links \<Rightarrow> 'p \<Rightarrow> 'p list \<Rightarrow> bool" where
  "ring h q xs \<longleftrightarrow> seg h q xs q \<and> distinct (q # xs)"

lemma seg_append: "seg h a (xs @ y # ys) b \<longleftrightarrow> seg h a xs y \<and> seg h y ys b"
  by (induction xs arbitrary: a) auto

lemma seg_frame:
  assumes "\<And>c. c \<in> insert a (set xs) \<Longrightarrow> p_next h' c = p_next h c" "\<And>c. c \<in> insert b (set xs) \<Longrightarrow> p_prev h' c = p_prev h c"
  shows "seg h' a xs b = seg h a xs b"
  using assms by (induction xs arbitrary: a) auto

lemma seg_prev: "seg h a xs b \<Longrightarrow> p_prev h b = last (a # xs)"
  by (induction xs arbitrary: a) auto

lemma seg_next: "seg h a xs b \<Longrightarrow> p_next h a = hd (xs @ [b])"
  by (cases xs) auto

text \<open>Linking \<open>t\<close> in before \<open>c\<close>, where the segment before \<open>c\<close> has the elements \<open>xs\<close>.\<close>

lemma seg_link_before:
  assumes "seg h a xs c" "t \<notin> set xs" "t \<noteq> a" "t \<noteq> c" "distinct (a # xs)" "c \<notin> set xs"
  shows "seg (link_before t c h) a (xs @ [t]) c"
proof (cases xs rule: rev_cases)
  case Nil
  then show ?thesis using assms by (simp add: link_before_def Let_def)
next
  case (snoc ys y)
  then have s: "seg h a ys y" "p_next h y = c" "p_prev h c = y" using assms(1) by (simp_all add: seg_append)
  have "seg (link_before t c h) a ys y"
    using s(1,3) assms snoc by (subst seg_frame [where h = h]) (auto simp: link_before_def Let_def)
  moreover have "seg (link_before t c h) y [t] c" using s assms snoc by (simp add: link_before_def Let_def)
  ultimately show ?thesis using snoc by (simp add: seg_append)
qed

lemma link_before_other:
  assumes "seg h a xs c" "t \<notin> {b, d} \<union> set ys" "last (a # xs) \<notin> insert b (set ys)" "c \<notin> insert d (set ys)" "t \<noteq> c"
  shows "seg (link_before t c h) b ys d = seg h b ys d"
  using assms seg_prev [OF assms(1)] by (intro seg_frame) (auto simp: link_before_def Let_def)

lemma ring_insert_mid:
  assumes "ring h q (xs @ ys)" "t \<notin> insert q (set (xs @ ys))"
  shows "ring (link_before t (hd (ys @ [q])) h) q (xs @ t # ys)"
proof (cases ys)
  case Nil
  then show ?thesis using assms seg_link_before [of h q xs q t] by (auto simp: ring_def)
next
  case (Cons y zs)
  then have s: "seg h q xs y" "seg h y zs q" and d: "distinct (q # xs @ y # zs)"
    using assms by (simp_all add: ring_def seg_append)
  have "last (q # xs) \<in> insert q (set xs)" using last_in_set [of "q # xs"] by simp
  then have "last (q # xs) \<notin> insert y (set zs)" using d by auto
  moreover have "t \<notin> {y, q} \<union> set zs" "y \<notin> insert q (set zs)" "t \<noteq> y" using d assms Cons by auto
  ultimately have "seg (link_before t y h) y zs q" using link_before_other [OF s(1), of t y q zs] s(2) by blast
  moreover have "seg (link_before t y h) q (xs @ [t]) y" using seg_link_before [OF s(1)] assms Cons d by auto
  ultimately show ?thesis using assms Cons d by (auto simp: ring_def seg_append)
qed

lemma ring_ends:
  assumes "ring h q (xs @ t # ys)"
  shows "p_prev h t = last (q # xs)" "p_next h t = hd (ys @ [q])"
  using assms by (auto simp: ring_def seg_append dest: seg_prev seg_next)

text \<open>Linking the neighbours of \<open>t\<close> with each other takes it out.\<close>

lemma seg_bypass:
  assumes s: "seg h a xs t" "seg h t ys b" and d: "distinct (a # xs @ t # ys)" "b \<notin> set xs \<union> set ys \<union> {t}"
    and n: "\<And>c. c \<in> insert a (set xs) \<union> set ys \<Longrightarrow> p_next h' c = (if c = last (a # xs) then hd (ys @ [b]) else p_next h c)"
    and p: "\<And>c. c \<in> insert b (set ys) \<union> set xs \<Longrightarrow> p_prev h' c = (if c = hd (ys @ [b]) then last (a # xs) else p_prev h c)"
  shows "seg h' a (xs @ ys) b"
proof -
  let ?l = "last (a # xs)" let ?r = "hd (ys @ [b])"
  have l: "?l \<in> insert a (set xs)" using last_in_set [of "a # xs"] by simp
  have r: "?r \<in> insert b (set ys)" by (cases ys) auto
  have left: "seg h' a xs ?r"
  proof (cases xs rule: rev_cases)
    case Nil
    then show ?thesis using n [of a] p [of ?r] r by auto
  next
    case (snoc zs z)
    have "seg h a zs z" using s(1) snoc by (simp add: seg_append)
    moreover have "?r \<notin> insert z (set zs)" using r d snoc by auto
    then have "p_prev h' c = p_prev h c" if "c \<in> insert z (set zs)" for c using p [of c] that snoc by auto
    moreover have "p_next h' c = p_next h c" if "c \<in> insert a (set zs)" for c using n [of c] that snoc d by auto
    ultimately have "seg h' a zs z" by (subst seg_frame [where h = h]) auto
    then show ?thesis using n [of z] p [of ?r] r snoc by (auto simp: seg_append)
  qed
  show ?thesis
  proof (cases ys)
    case Nil
    then show ?thesis using left by simp
  next
    case (Cons y zs)
    have "seg h y zs b" using s(2) Cons by simp
    moreover have "?l \<notin> insert y (set zs)" using l d Cons by auto
    then have "p_next h' c = p_next h c" if "c \<in> insert y (set zs)" for c using n [of c] that Cons by auto
    moreover have "p_prev h' c = p_prev h c" if "c \<in> insert b (set zs)" for c using p [of c] that Cons d by auto
    ultimately have "seg h' y zs b" by (subst seg_frame [where h = h]) auto
    then show ?thesis using left Cons by (simp add: seg_append)
  qed
qed

lemma ring_bypass:
  assumes "ring h q (xs @ t # ys)"
    and "\<And>c. c \<in> insert q (set (xs @ ys)) \<Longrightarrow> p_next h' c = (if c = last (q # xs) then hd (ys @ [q]) else p_next h c)"
    and "\<And>c. c \<in> insert q (set (xs @ ys)) \<Longrightarrow> p_prev h' c = (if c = hd (ys @ [q]) then last (q # xs) else p_prev h c)"
  shows "ring h' q (xs @ ys)"
  using assms seg_bypass [of h q xs t ys q h'] by (auto simp: ring_def seg_append)

lemma ring_dequeue: "ring h q (xs @ t # ys) \<Longrightarrow> ring (dequeue t h) q (xs @ ys)"
proof (rule ring_bypass)
  assume r: "ring h q (xs @ t # ys)"
  have "t \<noteq> last (q # xs)" using r last_in_set [of "q # xs"] by (auto simp: ring_def)
  moreover have "t \<noteq> hd (ys @ [q])" using r by (cases ys) (auto simp: ring_def)
  ultimately show "p_next (dequeue t h) c = (if c = last (q # xs) then hd (ys @ [q]) else p_next h c)"
    "p_prev (dequeue t h) c = (if c = hd (ys @ [q]) then last (q # xs) else p_prev h c)" for c
    using ring_ends [OF r] by (auto simp: dequeue_def Let_def)
qed

lemma ring_fifo: "ring h q (t # ys) \<Longrightarrow> fst (fifo_remove q h) = t \<and> ring (snd (fifo_remove q h)) q ys"
proof -
  assume r: "ring h q (t # ys)"
  then have "p_next h q = t" by (simp add: ring_def)
  moreover have "ring (snd (fifo_remove q h)) q ([] @ ys)"
    using r ring_ends [of h q "[]" t ys] \<open>p_next h q = t\<close>
    by (intro ring_bypass [of h q "[]" t ys]) (auto simp: fifo_remove_def Let_def)
  ultimately show ?thesis by (simp add: fifo_remove_def Let_def)
qed

lemma ring_lifo: "ring h q (xs @ [t]) \<Longrightarrow> fst (lifo_remove q h) = t \<and> ring (snd (lifo_remove q h)) q xs"
proof -
  assume r: "ring h q (xs @ [t])"
  then have p: "p_prev h q = t" by (simp add: ring_def seg_append)
  have "ring (snd (lifo_remove q h)) q (xs @ [])"
    using r ring_ends [of h q xs t "[]"] p
    by (intro ring_bypass [of h q xs t "[]"]) (auto simp: lifo_remove_def Let_def)
  then show ?thesis using p by (simp add: lifo_remove_def Let_def)
qed

lemma ring_init: "ring (queue_init q h) q []"
  by (simp add: ring_def queue_init_def)

lemma ring_empty: "ring h q xs \<Longrightarrow> isempty q h \<longleftrightarrow> xs = []"
  by (cases xs) (auto simp: ring_def isempty_def)

text \<open>A list of threads uses the forward links only: its ring need not hold backwards.\<close>

fun sseg :: "'p links \<Rightarrow> 'p \<Rightarrow> 'p list \<Rightarrow> 'p \<Rightarrow> bool" where
  "sseg h a [] b \<longleftrightarrow> p_next h a = b"
| "sseg h a (x # xs) b \<longleftrightarrow> p_next h a = x \<and> sseg h x xs b"

definition sring :: "'p links \<Rightarrow> 'p \<Rightarrow> 'p list \<Rightarrow> bool" where
  "sring h q xs \<longleftrightarrow> sseg h q xs q \<and> distinct (q # xs)"

lemma sseg_frame:
  assumes "\<And>c. c \<in> insert a (set xs) \<Longrightarrow> p_next h' c = p_next h c"
  shows "sseg h' a xs b = sseg h a xs b"
  using assms by (induction xs arbitrary: a) auto

lemma sring_insert:
  assumes "sring h q xs" "t \<notin> insert q (set xs)"
  shows "sring (list_insert t q h) q (t # xs)"
proof -
  have "sseg (list_insert t q h) t xs q"
  proof (cases xs)
    case (Cons x ys)
    have "sseg (list_insert t q h) x ys q = sseg h x ys q"
      using assms Cons by (intro sseg_frame) (auto simp: list_insert_def sring_def)
    then show ?thesis using assms Cons by (simp add: sring_def list_insert_def)
  qed (use assms in \<open>simp add: sring_def list_insert_def\<close>)
  then show ?thesis using assms by (auto simp: sring_def list_insert_def)
qed

lemma sring_remove:
  assumes "sring h q (t # xs)"
  shows "fst (list_remove q h) = t \<and> sring (snd (list_remove q h)) q xs"
proof -
  have "sseg (set_next q (p_next h t) h) q xs q"
  proof (cases xs)
    case (Cons x ys)
    have "sseg (set_next q (p_next h t) h) x ys q = sseg h x ys q"
      using assms Cons by (intro sseg_frame) (auto simp: sring_def)
    then show ?thesis using assms Cons by (simp add: sring_def)
  qed (use assms in \<open>simp add: sring_def\<close>)
  then show ?thesis using assms by (simp add: list_remove_def Let_def sring_def)
qed

lemma sring_empty: "sring h q xs \<Longrightarrow> notempty q h \<longleftrightarrow> xs \<noteq> []"
  by (cases xs) (auto simp: sring_def notempty_def)

definition rep :: "bool \<Rightarrow> 'p links \<Rightarrow> 'p \<Rightarrow> 'p list \<Rightarrow> bool" where
  "rep s h q xs \<longleftrightarrow> (if s then sring h q xs else ring h q xs)"

subsection \<open>Insertion by priority\<close>

text \<open>The place of \<open>t\<close>: after everything of at least its priority.\<close>

definition prio_ins :: "('p \<Rightarrow> u32) \<Rightarrow> 'p \<Rightarrow> 'p list \<Rightarrow> 'p list" where
  "prio_ins prio t xs = takeWhile (\<lambda>x. prio x \<ge> prio t) xs @ t # dropWhile (\<lambda>x. prio x \<ge> prio t) xs"

lemma prio_ins_set [simp]: "set (prio_ins prio t xs) = insert t (set xs)"
  by (metis prio_ins_def set_append list.simps(15) Un_insert_right takeWhile_dropWhile_id)

lemma prio_ins_distinct: "distinct (prio_ins prio t xs) \<longleftrightarrow> distinct xs \<and> t \<notin> set xs"
proof -
  have "distinct (a @ t # b) \<longleftrightarrow> distinct (a @ b) \<and> t \<notin> set (a @ b)" for a b :: "'a list" by auto
  from this [of "takeWhile (\<lambda>x. prio x \<ge> prio t) xs" "dropWhile (\<lambda>x. prio x \<ge> prio t) xs"] show ?thesis
    unfolding prio_ins_def by (simp only: takeWhile_dropWhile_id)
qed

text \<open>Descending priorities, equal ones in the order of their insertion.\<close>

definition by_prio :: "('p \<Rightarrow> u32) \<Rightarrow> 'p list \<Rightarrow> bool" where
  "by_prio prio xs \<longleftrightarrow> sorted_wrt (\<lambda>x y. prio x \<ge> prio y) xs"

lemma by_prio_ins: "by_prio prio xs \<Longrightarrow> by_prio prio (prio_ins prio t xs)"
  unfolding by_prio_def prio_ins_def
  by (induction xs) (auto dest!: set_takeWhileD set_dropWhileD)

lemma by_prio_cong: "(\<And>x. x \<in> set xs \<Longrightarrow> prio' x = prio x) \<Longrightarrow> by_prio prio' xs = by_prio prio xs"
  unfolding by_prio_def by (induction xs) auto

lemma prio_search_ok:
  assumes "seg h a xs q" "q \<notin> set xs"
  shows "prio_search prio h p q a = Some (hd (dropWhile (\<lambda>x. prio x \<ge> p) xs @ [q]))"
  using assms
proof (induction xs arbitrary: a)
  case Nil
  then show ?case by (subst prio_search.simps) simp
next
  case (Cons x xs)
  then show ?case by (subst prio_search.simps) (auto simp: Let_def)
qed

lemma prio_insert_ring:
  assumes "ring h q xs" "t \<notin> insert q (set xs)"
  shows "\<exists>h'. prio_insert prio t q h = Some h' \<and> ring h' q (prio_ins prio t xs) \<and>
    h' = link_before t (hd (dropWhile (\<lambda>x. prio x \<ge> prio t) xs @ [q])) h"
proof -
  have "ring (link_before t (hd (dropWhile (\<lambda>x. prio x \<ge> prio t) xs @ [q])) h) q (prio_ins prio t xs)"
    unfolding prio_ins_def using assms by (intro ring_insert_mid) auto
  moreover have "prio_search prio h (prio t) q q = Some (hd (dropWhile (\<lambda>x. prio x \<ge> prio t) xs @ [q]))"
    using assms(1) by (intro prio_search_ok) (auto simp: ring_def)
  ultimately show ?thesis by (simp add: prio_insert_def)
qed

subsection \<open>Families of rings\<close>

text \<open>
  All queues of the kernel live in the same fields. A step that changes the ring of one header to
  hold other elements, and touches only that ring and the element it moves, changes the family at
  that header only.
\<close>

definition queues :: "('p \<Rightarrow> bool) \<Rightarrow> 'p links \<Rightarrow> 'p set \<Rightarrow> ('p \<Rightarrow> 'p list) \<Rightarrow> bool" where
  "queues sgl h H L \<longleftrightarrow> (\<forall>q\<in>H. rep (sgl q) h q (L q) \<and> set (L q) \<inter> H = {} \<and> (\<forall>r\<in>H. r \<noteq> q \<longrightarrow> set (L q) \<inter> set (L r) = {}))"

text \<open>A new header joins the family with an empty queue.\<close>

lemma queues_new:
  assumes f: "queues sgl h H L" and q: "q \<notin> H" "\<And>r. r \<in> H \<Longrightarrow> q \<notin> set (L r)" and e: "rep (sgl q) h' q []"
    and same: "\<And>c. c \<noteq> q \<Longrightarrow> p_next h' c = p_next h c \<and> p_prev h' c = p_prev h c"
  shows "queues sgl h' (insert q H) (L(q := []))"
  unfolding queues_def
proof (intro ballI conjI impI)
  fix r assume r: "r \<in> insert q H"
  show "rep (sgl r) h' r ((L(q := [])) r)"
  proof (cases "r = q")
    case False
    then have rH: "r \<in> H" using r by simp
    then have "rep (sgl r) h r (L r)" using f by (simp add: queues_def)
    moreover have "p_next h' c = p_next h c \<and> p_prev h' c = p_prev h c" if "c \<in> insert r (set (L r))" for c
      using same [of c] q(2) [OF rH] False that by auto
    then have "seg h' r (L r) r = seg h r (L r) r" "sseg h' r (L r) r = sseg h r (L r) r" by (auto intro!: seg_frame sseg_frame)
    ultimately show ?thesis using False by (simp add: rep_def ring_def sring_def split: if_splits)
  qed (use e in simp)
  show "set ((L(q := [])) r) \<inter> insert q H = {}" using f r q by (auto simp: queues_def)
  fix p assume "p \<in> insert q H" "p \<noteq> r"
  then show "set ((L(q := [])) r) \<inter> set ((L(q := [])) p) = {}" using f r by (auto simp: queues_def)
qed

locale ring_step =
  fixes s :: bool and f :: "'p \<Rightarrow> 'p \<Rightarrow> 'p links \<Rightarrow> 'p links" and moves :: "'p \<Rightarrow> 'p \<Rightarrow> 'p list \<Rightarrow> 'p list \<Rightarrow> bool"
  assumes step: "rep s h q xs \<Longrightarrow> moves t q xs ys \<Longrightarrow> rep s (f t q h) q ys"
    and local: "rep s h q xs \<Longrightarrow> moves t q xs ys \<Longrightarrow> c \<notin> insert q (insert t (set xs)) \<Longrightarrow>
      p_next (f t q h) c = p_next h c \<and> p_prev (f t q h) c = p_prev h c"
    and elements: "moves t q xs ys \<Longrightarrow> set ys \<subseteq> insert t (set xs)"
begin

lemma other_ring:
  assumes "rep s h q xs" "moves t q xs ys" "rep k h r zs" "insert r (set zs) \<inter> insert q (insert t (set xs)) = {}"
  shows "rep k (f t q h) r zs"
proof -
  have "p_next (f t q h) c = p_next h c \<and> p_prev (f t q h) c = p_prev h c" if "c \<in> insert r (set zs)" for c
    using local [OF assms(1,2)] assms(4) that by blast
  then have "seg (f t q h) r zs r = seg h r zs r" "sseg (f t q h) r zs r = sseg h r zs r" by (auto intro!: seg_frame sseg_frame)
  then show ?thesis using assms(3) by (simp add: rep_def ring_def sring_def split: if_splits)
qed

lemma family:
  assumes "queues sgl h H L" "sgl q = s" "q \<in> H" "moves t q (L q) ys" "t \<notin> H" "\<And>r. r \<in> H \<Longrightarrow> r \<noteq> q \<Longrightarrow> t \<notin> set (L r)"
  shows "queues sgl (f t q h) H (L(q := ys))"
  unfolding queues_def
proof (intro ballI conjI impI)
  have rq: "rep s h q (L q)" using assms(1,2,3) by (auto simp: queues_def)
  have el: "set ys \<subseteq> insert t (set (L q))" by (rule elements [OF assms(4)])
  have inH: "set (L r) \<inter> H = {}" if "r \<in> H" for r using assms(1) that by (auto simp: queues_def)
  have dj: "set (L r) \<inter> set (L s) = {}" if "r \<in> H" "s \<in> H" "r \<noteq> s" for r s using assms(1) that by (auto simp: queues_def)
  fix r assume r: "r \<in> H"
  show "rep (sgl r) (f t q h) r ((L(q := ys)) r)"
  proof (cases "r = q")
    case True
    then show ?thesis using step [OF rq assms(4)] assms(2) by simp
  next
    case False
    have "insert r (set (L r)) \<inter> insert q (insert t (set (L q))) = {}"
      using r False assms(3,5) assms(6) [OF r False] inH [OF r] inH [OF assms(3)] dj [OF r assms(3) False] by auto
    moreover have "rep (sgl r) h r (L r)" using assms(1) r by (auto simp: queues_def)
    ultimately show ?thesis using other_ring [OF rq assms(4)] False by simp
  qed
  show "set ((L(q := ys)) r) \<inter> H = {}" using el inH [OF r] inH [OF assms(3)] assms(5) by auto
  fix s assume s: "s \<in> H" "s \<noteq> r"
  show "set ((L(q := ys)) r) \<inter> set ((L(q := ys)) s) = {}"
    using el dj [OF r s(1)] dj [OF r assms(3)] dj [OF assms(3) s(1)] s assms(6) [OF r] assms(6) [OF s(1)] by (auto split: if_splits)
qed

end

lemma hd_snoc_in: "hd (l @ [q]) \<in> insert q (set l)"
  by (cases l) auto

lemma link_before_local:
  assumes "p_prev h cp \<in> C" "cp \<in> C" "t \<noteq> cp" "c \<notin> insert t C"
  shows "p_next (link_before t cp h) c = p_next h c \<and> p_prev (link_before t cp h) c = p_prev h c"
  using assms by (auto simp: link_before_def Let_def)

lemma ring_closed: "ring h q xs \<Longrightarrow> c \<in> insert q (set xs) \<Longrightarrow> p_next h c \<in> insert q (set xs) \<and> p_prev h c \<in> insert q (set xs)"
proof -
  assume r: "ring h q xs" and c: "c \<in> insert q (set xs)"
  show ?thesis
  proof (cases "c = q")
    case True
    moreover have "hd (xs @ [q]) \<in> insert q (set xs)" by (cases xs) auto
    moreover have "last (q # xs) \<in> insert q (set xs)" using last_in_set [of "q # xs"] by simp
    moreover have "seg h q xs q" using r by (simp add: ring_def)
    ultimately show ?thesis using seg_prev [of h q xs q] seg_next [of h q xs q] by metis
  next
    case False
    then obtain as bs where xs: "xs = as @ c # bs" using c by (auto dest: split_list)
    have "hd (bs @ [q]) \<in> insert q (set bs)" by (cases bs) auto
    moreover have "last (q # as) \<in> insert q (set as)" using last_in_set [of "q # as"] by simp
    moreover have "p_prev h c = last (q # as)" "p_next h c = hd (bs @ [q])" using ring_ends [of h q as c bs] r xs by simp_all
    ultimately show ?thesis using xs by auto
  qed
qed

interpretation ins: ring_step False queue_insert "\<lambda>t q xs ys. t \<notin> insert q (set xs) \<and> ys = xs @ [t]"
proof
  fix h and q :: 'a and xs t ys assume "rep False h q xs" and m: "t \<notin> insert q (set xs) \<and> ys = xs @ [t]"
  then have r: "ring h q xs" by (simp add: rep_def)
  show "rep False (queue_insert t q h) q ys" using ring_insert_mid [of h q xs "[]" t] r m by (simp add: queue_insert_def rep_def)
  fix c assume "c \<notin> insert q (insert t (set xs))"
  then show "p_next (queue_insert t q h) c = p_next h c \<and> p_prev (queue_insert t q h) c = p_prev h c"
    using link_before_local [of h q "insert q (set xs)" t c] ring_closed [OF r, of q] m by (auto simp: queue_insert_def)
qed auto

interpretation prio: ring_step False "\<lambda>t q h. the (prio_insert prio t q h)" "\<lambda>t q xs ys. t \<notin> insert q (set xs) \<and> ys = prio_ins prio t xs"
  for prio :: "'p \<Rightarrow> u32"
proof
  fix h and q :: 'p and xs t ys assume "rep False h q xs" and m: "t \<notin> insert q (set xs) \<and> ys = prio_ins prio t xs"
  then have r: "ring h q xs" by (simp add: rep_def)
  let ?c = "hd (dropWhile (\<lambda>x. prio x \<ge> prio t) xs @ [q])"
  have i: "ring (the (prio_insert prio t q h)) q ys" "the (prio_insert prio t q h) = link_before t ?c h"
    using prio_insert_ring [OF r, of t prio] m by auto
  show "rep False (the (prio_insert prio t q h)) q ys" using i by (simp add: rep_def)
  have "?c \<in> insert q (set (dropWhile (\<lambda>x. prio x \<ge> prio t) xs))"
    by (rule hd_snoc_in)
  then have "?c \<in> insert q (set xs)" by (auto dest: set_dropWhileD)
  moreover fix c assume "c \<notin> insert q (insert t (set xs))"
  ultimately show "p_next (the (prio_insert prio t q h)) c = p_next h c \<and> p_prev (the (prio_insert prio t q h)) c = p_prev h c"
    unfolding i(2) using link_before_local [of h ?c "insert q (set xs)" t c] ring_closed [OF r, of ?c] m by (metis insert_iff)
qed auto

interpretation deq: ring_step False "\<lambda>t q. dequeue t" "\<lambda>t q xs ys. \<exists>as bs. xs = as @ t # bs \<and> ys = as @ bs"
proof
  fix h and q :: 'a and xs t ys assume "rep False h q xs" and m: "\<exists>as bs. xs = as @ t # bs \<and> ys = as @ bs"
  then have r: "ring h q xs" by (simp add: rep_def)
  from m obtain as bs where "xs = as @ t # bs" "ys = as @ bs" by blast
  then show "rep False (dequeue t h) q ys" using ring_dequeue [of h q as t bs] r by (simp add: rep_def)
  have "t \<in> insert q (set xs)" using m by auto
  moreover fix c assume "c \<notin> insert q (insert t (set xs))"
  ultimately show "p_next (dequeue t h) c = p_next h c \<and> p_prev (dequeue t h) c = p_prev h c"
    using ring_closed [OF r, of t] by (auto simp: dequeue_def Let_def)
qed auto

interpretation fifo: ring_step False "\<lambda>t q h. snd (fifo_remove q h)" "\<lambda>t q xs ys. xs = t # ys"
proof
  fix h and q :: 'a and xs t ys assume "rep False h q xs" and m: "xs = t # ys"
  then have r: "ring h q xs" by (simp add: rep_def)
  show "rep False (snd (fifo_remove q h)) q ys" using ring_fifo [of h q t ys] r m by (simp add: rep_def)
  have n: "p_next h q = t" using r m by (simp add: ring_def)
  have "p_next h t \<in> insert q (set xs)" using ring_closed [OF r, of t] m by simp
  moreover fix c assume "c \<notin> insert q (insert t (set xs))"
  ultimately have "c \<noteq> q" "c \<noteq> p_next h t" by auto
  then show "p_next (snd (fifo_remove q h)) c = p_next h c \<and> p_prev (snd (fifo_remove q h)) c = p_prev h c"
    by (simp add: fifo_remove_def Let_def n)
qed auto

interpretation lifo: ring_step False "\<lambda>t q h. snd (lifo_remove q h)" "\<lambda>t q xs ys. xs = ys @ [t]"
proof
  fix h and q :: 'a and xs t ys assume "rep False h q xs" and m: "xs = ys @ [t]"
  then have r: "ring h q xs" by (simp add: rep_def)
  show "rep False (snd (lifo_remove q h)) q ys" using ring_lifo [of h q ys t] r m by (simp add: rep_def)
  have n: "p_prev h q = t" using r m by (simp add: ring_def seg_append)
  have "p_prev h t \<in> insert q (set xs)" using ring_closed [OF r, of t] m by simp
  moreover fix c assume "c \<notin> insert q (insert t (set xs))"
  ultimately have "c \<noteq> q" "c \<noteq> p_prev h t" by auto
  then show "p_next (snd (lifo_remove q h)) c = p_next h c \<and> p_prev (snd (lifo_remove q h)) c = p_prev h c"
    by (simp add: lifo_remove_def Let_def n)
qed auto

interpretation lins: ring_step True list_insert "\<lambda>t q xs ys. t \<notin> insert q (set xs) \<and> ys = t # xs"
proof
  fix h and q :: 'a and xs t ys assume r: "rep True h q xs" and m: "t \<notin> insert q (set xs) \<and> ys = t # xs"
  then show "rep True (list_insert t q h) q ys" using sring_insert [of h q xs t] by (simp add: rep_def)
  fix c assume "c \<notin> insert q (insert t (set xs))"
  then show "p_next (list_insert t q h) c = p_next h c \<and> p_prev (list_insert t q h) c = p_prev h c" by (simp add: list_insert_def)
qed auto

interpretation lrem: ring_step True "\<lambda>t q h. snd (list_remove q h)" "\<lambda>t q xs ys. xs = t # ys"
proof
  fix h and q :: 'a and xs t ys assume r: "rep True h q xs" and m: "xs = t # ys"
  then show "rep True (snd (list_remove q h)) q ys" using sring_remove [of h q t ys] by (simp add: rep_def)
  fix c assume "c \<notin> insert q (insert t (set xs))"
  then show "p_next (snd (list_remove q h)) c = p_next h c \<and> p_prev (snd (list_remove q h)) c = p_prev h c"
    by (simp add: list_remove_def Let_def)
qed auto

end
