(* ===== verification/Ch_Kernel.thy ===== *)
theory Ch_Kernel
  imports Ch_Queues
begin

text \<open>
  The ChibiOS/RT kernel the application runs on: threads, the scheduler, virtual timers and the
  system tick (\<open>chschd.c\<close>, \<open>chthreads.c\<close>, \<open>chvt.c\<close>, \<open>chvt.h\<close>, \<open>chsys.c\<close>, \<open>chregistry.h\<close>, the exit
  from an interrupt in \<open>alt_hooks.h\<close>), in the configuration of \<open>chconf.h\<close>: round robin with a
  quantum of 20 ticks, no debug checks.
\<close>

subsection \<open>Threads and the kernel's data\<close>

text \<open>
  Where a \<open>Thread *\<close> may point: at a thread, or, cast, at the ready list or at one of the queue
  headers inside other structures.
\<close>

datatype kptr = Rlist | Thd nat | Waiting kptr | MsgQueue kptr | SemQueue nat

datatype vptr = VtList | ThreadVt kptr | Vt nat

datatype tstate = READY | CURRENT | SUSPENDED | WTSEM | WTMTX | WTCOND | SLEEPING | WTEXIT | WTOREVT | WTANDEVT
  | SNDMSGQ | SNDMSG | WTMSG | WTQUEUE | FINAL

text \<open>The union \<open>p_u\<close>: a message (\<open>rdymsg\<close> or \<open>exitcode\<close>) or the object waited for.\<close>

datatype thd_u = U_msg int | U_obj kptr

text \<open>
  The saved context of a thread that is not running: what is left of its kernel call when it is
  switched in again. \<open>R_user\<close>: nothing, it returns to its own code.
\<close>

datatype resume_at = R_user | R_rdymsg | R_msgWait | R_timeout | R_thdWait kptr

text \<open>What a kernel call returned to the thread.\<close>

datatype kval = V_unit | V_msg "int option" | V_thd kptr | V_prio u32

record kthread =
  p_state :: tstate
  p_flags :: u8
  p_refs :: u8
  p_time :: u32
  p_u :: thd_u
  p_msg :: int
  p_realprio :: u32
  p_mpool :: u32
  p_ctx :: resume_at
  p_ret :: kval

datatype vtfunc = Wakeup

record kernel =
  k_links :: "kptr links"
  k_prio :: "kptr \<Rightarrow> u32"
  k_reg :: "kptr links"
  k_thd :: "kptr \<Rightarrow> kthread"
  r_preempt :: int
  r_current :: kptr
  s_cnt :: "kptr \<Rightarrow> int"
  vt_links :: "vptr links"
  vt_time :: "vptr \<Rightarrow> u32"
  vt_func :: "vptr \<Rightarrow> vtfunc option"
  vt_par :: "vptr \<Rightarrow> kptr"
  vt_systime :: u32
  k_freed :: "kptr list"

definition NOPRIO :: u32 where "NOPRIO = 0"
definition IDLEPRIO :: u32 where "IDLEPRIO = 1"
definition LOWPRIO :: u32 where "LOWPRIO = 2"
definition NORMALPRIO :: u32 where "NORMALPRIO = 64"
definition HIGHPRIO :: u32 where "HIGHPRIO = 127"
definition RDY_OK :: int where "RDY_OK = 0"
definition RDY_TIMEOUT :: int where "RDY_TIMEOUT = -1"
definition RDY_RESET :: int where "RDY_RESET = -2"
definition TIME_IMMEDIATE :: u32 where "TIME_IMMEDIATE = 0"
definition TIME_INFINITE :: u32 where "TIME_INFINITE = 0xffffffff"
definition CH_TIME_QUANTUM :: int where "CH_TIME_QUANTUM = 20"
definition THD_MEM_MODE_MASK :: u8 where "THD_MEM_MODE_MASK = 3"
definition THD_MEM_MODE_STATIC :: u8 where "THD_MEM_MODE_STATIC = 0"
definition THD_MEM_MODE_HEAP :: u8 where "THD_MEM_MODE_HEAP = 1"
definition THD_MEM_MODE_MEMPOOL :: u8 where "THD_MEM_MODE_MEMPOOL = 2"
definition THD_TERMINATE :: u8 where "THD_TERMINATE = 4"

text \<open>Stores to the fields of a thread, and the field \<open>rdymsg\<close> (or \<open>exitcode\<close>) read from the union.\<close>

definition upd :: "kptr \<Rightarrow> (kthread \<Rightarrow> kthread) \<Rightarrow> kernel \<Rightarrow> kernel" where
  "upd tp f k = k\<lparr>k_thd := (k_thd k)(tp := f (k_thd k tp))\<rparr>"

definition set_state :: "kptr \<Rightarrow> tstate \<Rightarrow> kernel \<Rightarrow> kernel" where
  "set_state tp st = upd tp (\<lambda>t. t\<lparr>p_state := st\<rparr>)"

definition set_u :: "kptr \<Rightarrow> thd_u \<Rightarrow> kernel \<Rightarrow> kernel" where
  "set_u tp u = upd tp (\<lambda>t. t\<lparr>p_u := u\<rparr>)"

definition set_ctx :: "kptr \<Rightarrow> resume_at \<Rightarrow> kernel \<Rightarrow> kernel" where
  "set_ctx tp r = upd tp (\<lambda>t. t\<lparr>p_ctx := r\<rparr>)"

definition set_ret :: "kptr \<Rightarrow> kval \<Rightarrow> kernel \<Rightarrow> kernel" where
  "set_ret tp v = upd tp (\<lambda>t. t\<lparr>p_ret := v\<rparr>)"

definition state_of :: "kernel \<Rightarrow> kptr \<Rightarrow> tstate" where
  "state_of k tp = p_state (k_thd k tp)"

definition rdymsg :: "thd_u \<Rightarrow> int option" where
  "rdymsg u = (case u of U_msg m \<Rightarrow> Some m | U_obj _ \<Rightarrow> None)"

definition firstprio :: "kernel \<Rightarrow> u32" where
  "firstprio k = k_prio k (p_next (k_links k) Rlist)"

subsection \<open>Virtual timers\<close>

partial_function (option) vt_search :: "vptr links \<Rightarrow> (vptr \<Rightarrow> u32) \<Rightarrow> vptr \<Rightarrow> u32 \<Rightarrow> (vptr \<times> u32) option" where
  "vt_search h tm p time = (if tm p < time then vt_search h tm (p_next h p) (time - tm p) else Some (p, time))"

definition chVTSetI :: "vptr \<Rightarrow> u32 \<Rightarrow> vtfunc \<Rightarrow> kptr \<Rightarrow> kernel \<Rightarrow> kernel option" where
  "chVTSetI vtp time vtfunc par k = do {
     let k = k\<lparr>vt_par := (vt_par k)(vtp := par), vt_func := (vt_func k)(vtp := Some vtfunc)\<rparr>;
     (p, time) \<leftarrow> vt_search (vt_links k) (vt_time k) (p_next (vt_links k) VtList) time;
     let k = k\<lparr>vt_links := link_before vtp p (vt_links k)\<rparr>;
     let k = k\<lparr>vt_time := (vt_time k)(vtp := time)\<rparr>;
     Some (if p \<noteq> VtList then k\<lparr>vt_time := (vt_time k)(p := vt_time k p - time)\<rparr> else k) }"

definition chVTResetI :: "vptr \<Rightarrow> kernel \<Rightarrow> kernel" where
  "chVTResetI vtp k =
     (let n = p_next (vt_links k) vtp;
          k = (if n \<noteq> VtList then k\<lparr>vt_time := (vt_time k)(n := vt_time k n + vt_time k vtp)\<rparr> else k);
          k = k\<lparr>vt_links := dequeue vtp (vt_links k)\<rparr>
      in k\<lparr>vt_func := (vt_func k)(vtp := None)\<rparr>)"

definition chVTIsArmedI :: "vptr \<Rightarrow> kernel \<Rightarrow> bool" where
  "chVTIsArmedI vtp k \<longleftrightarrow> vt_func k vtp \<noteq> None"

definition chTimeNow :: "kernel \<Rightarrow> u32" where
  "chTimeNow k = vt_systime k"

definition chTimeIsWithin :: "u32 \<Rightarrow> u32 \<Rightarrow> kernel \<Rightarrow> bool" where
  "chTimeIsWithin start stop k =
     (let time = chTimeNow k
      in if stop > start then time \<ge> start \<and> time < stop else time \<ge> start \<or> time < stop)"

definition vt_init :: "kernel \<Rightarrow> kernel" where
  "vt_init k = k\<lparr>vt_links := queue_init VtList (vt_links k), vt_time := (vt_time k)(VtList := 0xffffffff), vt_systime := 0\<rparr>"

subsection \<open>Messages and semaphores: what a switched-in thread may still have to do\<close>

definition chMsgIsPendingI :: "kptr \<Rightarrow> kernel \<Rightarrow> bool" where
  "chMsgIsPendingI tp k \<longleftrightarrow> p_next (k_links k) (MsgQueue tp) \<noteq> MsgQueue tp"

definition chMsgWait_rest :: "kernel \<Rightarrow> kernel" where
  "chMsgWait_rest k =
     (let cur = r_current k;
          (tp, h) = fifo_remove (MsgQueue cur) (k_links k)
      in set_ret cur (V_thd tp) (set_state tp SNDMSG (k\<lparr>k_links := h\<rparr>)))"

definition timeout_rest :: "kernel \<Rightarrow> kernel" where
  "timeout_rest k =
     (let cur = r_current k;
          k = (if chVTIsArmedI (ThreadVt cur) k then chVTResetI (ThreadVt cur) k else k)
      in set_ret cur (V_msg (rdymsg (p_u (k_thd k cur)))) k)"

definition REG_INSERT :: "kptr \<Rightarrow> kernel \<Rightarrow> kernel" where
  "REG_INSERT tp k = k\<lparr>k_reg := link_before tp Rlist (k_reg k)\<rparr>"

definition REG_REMOVE :: "kptr \<Rightarrow> kernel \<Rightarrow> kernel" where
  "REG_REMOVE tp k = k\<lparr>k_reg := dequeue tp (k_reg k)\<rparr>"

text \<open>\<open>chThdRelease\<close>; the block it gives back to the heap or the pool is noted in \<open>k_freed\<close>.\<close>

definition chThdRelease :: "kptr \<Rightarrow> kernel \<Rightarrow> kernel" where
  "chThdRelease tp k =
     (let k = upd tp (\<lambda>t. t\<lparr>p_refs := p_refs t - 1\<rparr>) k;
          m = p_flags (k_thd k tp) AND THD_MEM_MODE_MASK
      in if p_refs (k_thd k tp) = 0 \<and> state_of k tp = FINAL then
           (if m = THD_MEM_MODE_HEAP \<or> m = THD_MEM_MODE_MEMPOOL
            then (REG_REMOVE tp k)\<lparr>k_freed := tp # k_freed k\<rparr> else k)
         else k)"

definition chThdWait_rest :: "kptr \<Rightarrow> kernel \<Rightarrow> kernel" where
  "chThdWait_rest tp k = chThdRelease tp (set_ret (r_current k) (V_msg (rdymsg (p_u (k_thd k tp)))) k)"

text \<open>
  The switched-in thread runs the rest of the call it was in, still locked, up to its own code.
\<close>

definition resume :: "kernel \<Rightarrow> kernel" where
  "resume k =
     (let cur = r_current k; r = p_ctx (k_thd k cur); k = set_ctx cur R_user k
      in case r of
           R_user \<Rightarrow> k
         | R_rdymsg \<Rightarrow> set_ret cur (V_msg (rdymsg (p_u (k_thd k cur)))) k
         | R_msgWait \<Rightarrow> chMsgWait_rest k
         | R_timeout \<Rightarrow> timeout_rest k
         | R_thdWait tp \<Rightarrow> chThdWait_rest tp k)"

text \<open>\<open>chSysSwitch\<close>: the old thread's context is where it will go on, the new thread's is taken up.\<close>

definition chSysSwitch :: "kptr \<Rightarrow> kptr \<Rightarrow> resume_at \<Rightarrow> kernel \<Rightarrow> kernel" where
  "chSysSwitch ntp otp r k = resume (set_ctx otp r k)"

subsection \<open>The scheduler\<close>

definition scheduler_init :: "kernel \<Rightarrow> kernel" where
  "scheduler_init k = k\<lparr>k_links := queue_init Rlist (k_links k), k_prio := (k_prio k)(Rlist := NOPRIO),
     r_preempt := CH_TIME_QUANTUM, k_reg := queue_init Rlist (k_reg k)\<rparr>"

text \<open>The loop of \<open>chSchReadyI\<close> does not look for the header: its priority \<open>NOPRIO\<close> ends it.\<close>

partial_function (option) ready_search :: "(kptr \<Rightarrow> u32) \<Rightarrow> kptr links \<Rightarrow> u32 \<Rightarrow> kptr \<Rightarrow> kptr option" where
  "ready_search prio h p cp =
     (let cp = p_next h cp in if prio cp \<ge> p then ready_search prio h p cp else Some cp)"

definition chSchReadyI :: "kptr \<Rightarrow> kernel \<Rightarrow> kernel option" where
  "chSchReadyI tp k = do {
     let k = set_state tp READY k;
     cp \<leftarrow> ready_search (k_prio k) (k_links k) (k_prio k tp) Rlist;
     Some (k\<lparr>k_links := link_before tp cp (k_links k)\<rparr>) }"

definition chSchGoSleepS :: "tstate \<Rightarrow> resume_at \<Rightarrow> kernel \<Rightarrow> kernel" where
  "chSchGoSleepS newstate r k =
     (let otp = r_current k;
          k = set_state otp newstate k;
          k = k\<lparr>r_preempt := CH_TIME_QUANTUM\<rparr>;
          (tp, h) = fifo_remove Rlist (k_links k);
          k = k\<lparr>k_links := h, r_current := tp\<rparr>;
          k = set_state tp CURRENT k
      in chSysSwitch tp otp r k)"

definition chSchGoSleepTimeoutS :: "tstate \<Rightarrow> u32 \<Rightarrow> kernel \<Rightarrow> kernel option" where
  "chSchGoSleepTimeoutS newstate time k =
     (if TIME_INFINITE \<noteq> time then do {
        k \<leftarrow> chVTSetI (ThreadVt (r_current k)) time Wakeup (r_current k) k;
        Some (chSchGoSleepS newstate R_timeout k) }
      else Some (chSchGoSleepS newstate R_rdymsg k))"

definition chSchWakeupS :: "kptr \<Rightarrow> int \<Rightarrow> kernel \<Rightarrow> kernel option" where
  "chSchWakeupS ntp msg k = do {
     let k = set_u ntp (U_msg msg) k;
     if k_prio k ntp \<le> k_prio k (r_current k) then chSchReadyI ntp k
     else do {
       let otp = r_current k;
       k \<leftarrow> chSchReadyI otp k;
       let k = k\<lparr>r_preempt := CH_TIME_QUANTUM, r_current := ntp\<rparr>;
       let k = set_state ntp CURRENT k;
       Some (chSysSwitch ntp otp R_user k) } }"

definition chSchDoReschedule :: "kernel \<Rightarrow> kernel option" where
  "chSchDoReschedule k = do {
     let k = k\<lparr>r_preempt := CH_TIME_QUANTUM\<rparr>;
     let otp = r_current k;
     let (tp, h) = fifo_remove Rlist (k_links k);
     let k = k\<lparr>k_links := h, r_current := tp\<rparr>;
     let k = set_state tp CURRENT k;
     k \<leftarrow> chSchReadyI otp k;
     Some (chSysSwitch tp otp R_user k) }"

definition chSchIsRescRequiredI :: "kernel \<Rightarrow> bool" where
  "chSchIsRescRequiredI k \<longleftrightarrow> firstprio k > k_prio k (r_current k)"

definition chSchRescheduleS :: "kernel \<Rightarrow> kernel option" where
  "chSchRescheduleS k = (if chSchIsRescRequiredI k then chSchDoReschedule k else Some k)"

definition chSchIsPreemptionRequired :: "kernel \<Rightarrow> bool" where
  "chSchIsPreemptionRequired k =
     (let p1 = firstprio k; p2 = k_prio k (r_current k)
      in if r_preempt k \<noteq> 0 then p1 > p2 else p1 \<ge> p2)"

definition chSchDoYieldS :: "kernel \<Rightarrow> kernel option" where
  "chSchDoYieldS k = (if firstprio k \<ge> k_prio k (r_current k) then chSchDoReschedule k else Some k)"

text \<open>The timer callback of a sleep with a timeout.\<close>

definition chSemFastSignalI :: "kptr \<Rightarrow> kernel \<Rightarrow> kernel" where
  "chSemFastSignalI sp k = k\<lparr>s_cnt := (s_cnt k)(sp := s_cnt k sp + 1)\<rparr>"

definition wakeup :: "kptr \<Rightarrow> kernel \<Rightarrow> kernel option" where
  "wakeup tp k =
     (if state_of k tp = READY then Some k
      else
        (let k = (case p_u (k_thd k tp) of
                    U_obj sp \<Rightarrow> if state_of k tp = WTSEM then chSemFastSignalI sp k else k
                  | U_msg _ \<Rightarrow> k);
             k = (if state_of k tp \<in> {WTSEM, WTQUEUE, WTCOND} then k\<lparr>k_links := dequeue tp (k_links k)\<rparr> else k)
         in chSchReadyI tp (set_u tp (U_msg RDY_TIMEOUT) k)))"

subsection \<open>The tick\<close>

definition call_vtfunc :: "vtfunc \<Rightarrow> kptr \<Rightarrow> kernel \<Rightarrow> kernel option" where
  "call_vtfunc fn par k = (case fn of Wakeup \<Rightarrow> wakeup par k)"

text \<open>The loop over the timers that are due; a null function cannot be called.\<close>

partial_function (option) vt_fire :: "kernel \<Rightarrow> kernel option" where
  "vt_fire k =
     (let vtp = p_next (vt_links k) VtList
      in if vt_time k vtp \<noteq> 0 then Some k
         else do {
           fn \<leftarrow> vt_func k vtp;
           let k = k\<lparr>vt_func := (vt_func k)(vtp := None)\<rparr>;
           let k = k\<lparr>vt_links := set_prev (p_next (vt_links k) vtp) VtList (vt_links k)\<rparr>;
           let k = k\<lparr>vt_links := set_next VtList (p_next (vt_links k) vtp) (vt_links k)\<rparr>;
           k \<leftarrow> call_vtfunc fn (vt_par k vtp) k;
           vt_fire k })"

definition chVTDoTickI :: "kernel \<Rightarrow> kernel option" where
  "chVTDoTickI k = do {
     let k = k\<lparr>vt_systime := vt_systime k + 1\<rparr>;
     let n = p_next (vt_links k) VtList;
     if VtList \<noteq> n then vt_fire (k\<lparr>vt_time := (vt_time k)(n := vt_time k n - 1)\<rparr>)
     else Some k }"

definition chSysTimerHandlerI :: "kernel \<Rightarrow> kernel option" where
  "chSysTimerHandlerI k =
     (let k = (if r_preempt k > 0 then k\<lparr>r_preempt := r_preempt k - 1\<rparr> else k);
          k = upd (r_current k) (\<lambda>t. t\<lparr>p_time := p_time t + 1\<rparr>) k
      in chVTDoTickI k)"

definition port_time_tick :: "kernel \<Rightarrow> kernel option" where
  "port_time_tick k = chSysTimerHandlerI k"

text \<open>What the interrupt handler of the HAL does after the service routines.\<close>

definition ALT_OS_INT_EXIT :: "kernel \<Rightarrow> kernel option" where
  "ALT_OS_INT_EXIT k = (if chSchIsPreemptionRequired k then chSchDoReschedule k else Some k)"

end
