(* ===== verification/Ch_Calls.thy ===== *)
theory Ch_Calls
  imports Ch_Kernel
begin

text \<open>
  The kernel calls: threads (\<open>chthreads.c\<close>), synchronous messages (\<open>chmsg.c\<close>), semaphores
  (\<open>chsem.c\<close>) and the start of the kernel (\<open>chsys.c\<close>). A call is a function of the kernel's state
  at the lock; where it switches, the new thread goes on with \<open>resume\<close>.
\<close>

subsection \<open>Threads\<close>

definition thread_init :: "kptr \<Rightarrow> u32 \<Rightarrow> kernel \<Rightarrow> kernel" where
  "thread_init tp prio k =
     (let k = k\<lparr>k_prio := (k_prio k)(tp := prio)\<rparr>;
          k = upd tp (\<lambda>t. t\<lparr>p_state := SUSPENDED, p_flags := THD_MEM_MODE_STATIC, p_realprio := prio, p_time := 0, p_refs := 1\<rparr>) k;
          k = REG_INSERT tp k;
          k = k\<lparr>k_links := list_init (Waiting tp) (k_links k)\<rparr>
      in k\<lparr>k_links := queue_init (MsgQueue tp) (k_links k)\<rparr>)"

text \<open>\<open>SETUP_CONTEXT\<close> makes the thread start at its function.\<close>

definition chThdCreateI :: "kptr \<Rightarrow> u32 \<Rightarrow> kernel \<Rightarrow> kernel" where
  "chThdCreateI tp prio k = thread_init tp prio (set_ctx tp R_user k)"

definition chThdCreateStatic :: "kptr \<Rightarrow> u32 \<Rightarrow> kernel \<Rightarrow> kernel option" where
  "chThdCreateStatic tp prio k = chSchWakeupS tp RDY_OK (set_ret (r_current k) (V_thd tp) (chThdCreateI tp prio k))"

text \<open>The part of \<open>chThdCreateFromHeap\<close> after the block \<open>tp\<close> was allocated.\<close>

definition chThdCreateFromHeap :: "kptr \<Rightarrow> u32 \<Rightarrow> kernel \<Rightarrow> kernel option" where
  "chThdCreateFromHeap tp prio k =
     (let k = chThdCreateI tp prio k;
          k = upd tp (\<lambda>t. t\<lparr>p_flags := THD_MEM_MODE_HEAP\<rparr>) k
      in chSchWakeupS tp RDY_OK (set_ret (r_current k) (V_thd tp) k))"

text \<open>\<open>chThdCreateFromMemoryPool\<close> likewise; \<open>mp\<close> is the address of the pool.\<close>

definition chThdCreateFromMemoryPool :: "kptr \<Rightarrow> u32 \<Rightarrow> u32 \<Rightarrow> kernel \<Rightarrow> kernel option" where
  "chThdCreateFromMemoryPool tp mp prio k =
     (let k = chThdCreateI tp prio k;
          k = upd tp (\<lambda>t. t\<lparr>p_flags := THD_MEM_MODE_MEMPOOL, p_mpool := mp\<rparr>) k
      in chSchWakeupS tp RDY_OK (set_ret (r_current k) (V_thd tp) k))"

definition chThdAddRef :: "kptr \<Rightarrow> kernel \<Rightarrow> kernel" where
  "chThdAddRef tp k = upd tp (\<lambda>t. t\<lparr>p_refs := p_refs t + 1\<rparr>) k"

text \<open>The registry of \<open>chregistry.c\<close>; the result is the thread found.\<close>

definition chRegFirstThread :: "kernel \<Rightarrow> kptr \<times> kernel" where
  "chRegFirstThread k =
     (let tp = p_next (k_reg k) Rlist
      in (tp, upd tp (\<lambda>t. t\<lparr>p_refs := p_refs t + 1\<rparr>) k))"

definition chRegNextThread :: "kptr \<Rightarrow> kernel \<Rightarrow> kptr option \<times> kernel" where
  "chRegNextThread tp k =
     (let ntp = p_next (k_reg k) tp;
          (r, k) = (if ntp = Rlist then (None, k) else (Some ntp, upd ntp (\<lambda>t. t\<lparr>p_refs := p_refs t + 1\<rparr>) k))
      in (r, chThdRelease tp k))"

definition chThdSetPriority :: "u32 \<Rightarrow> kernel \<Rightarrow> kernel option" where
  "chThdSetPriority newprio k =
     (let cur = r_current k;
          oldprio = p_realprio (k_thd k cur);
          k = (if k_prio k cur = oldprio \<or> newprio > k_prio k cur then k\<lparr>k_prio := (k_prio k)(cur := newprio)\<rparr> else k);
          k = upd cur (\<lambda>t. t\<lparr>p_realprio := newprio\<rparr>) k
      in chSchRescheduleS (set_ret cur (V_prio oldprio) k))"

definition chThdResume :: "kptr \<Rightarrow> kernel \<Rightarrow> kernel option" where
  "chThdResume tp k = chSchWakeupS tp RDY_OK (set_ret (r_current k) (V_thd tp) k)"

definition chThdTerminate :: "kptr \<Rightarrow> kernel \<Rightarrow> kernel" where
  "chThdTerminate tp k = upd tp (\<lambda>t. t\<lparr>p_flags := p_flags t OR THD_TERMINATE\<rparr>) k"

definition chThdSleepS :: "u32 \<Rightarrow> kernel \<Rightarrow> kernel option" where
  "chThdSleepS time k = chSchGoSleepTimeoutS SLEEPING time k"

definition chThdSleep :: "u32 \<Rightarrow> kernel \<Rightarrow> kernel option" where
  "chThdSleep time k = chThdSleepS time k"

definition chThdSleepUntil :: "u32 \<Rightarrow> kernel \<Rightarrow> kernel option" where
  "chThdSleepUntil time k =
     (let time = time - chTimeNow k in if time > 0 then chThdSleepS time k else Some k)"

definition chThdYield :: "kernel \<Rightarrow> kernel option" where
  "chThdYield k = chSchDoYieldS k"

partial_function (option) wake_waiting :: "kptr \<Rightarrow> kernel \<Rightarrow> kernel option" where
  "wake_waiting tp k =
     (if notempty (Waiting tp) (k_links k) then
        (case list_remove (Waiting tp) (k_links k) of (wp, h) \<Rightarrow> do {
           k \<leftarrow> chSchReadyI wp (k\<lparr>k_links := h\<rparr>);
           wake_waiting tp k })
      else Some k)"

definition chThdExitS :: "int \<Rightarrow> kernel \<Rightarrow> kernel option" where
  "chThdExitS msg k = do {
     let tp = r_current k;
     let k = set_u tp (U_msg msg) k;
     k \<leftarrow> wake_waiting tp k;
     let k = (if p_flags (k_thd k tp) AND THD_MEM_MODE_MASK = THD_MEM_MODE_STATIC then REG_REMOVE tp k else k);
     Some (chSchGoSleepS FINAL R_user k) }"

definition chThdExit :: "int \<Rightarrow> kernel \<Rightarrow> kernel option" where
  "chThdExit msg k = chThdExitS msg k"

definition chThdWait :: "kptr \<Rightarrow> kernel \<Rightarrow> kernel" where
  "chThdWait tp k =
     (if state_of k tp \<noteq> FINAL
      then chSchGoSleepS WTEXIT (R_thdWait tp) (k\<lparr>k_links := list_insert (r_current k) (Waiting tp) (k_links k)\<rparr>)
      else chThdWait_rest tp k)"

subsection \<open>Messages\<close>

definition chMsgSend :: "kptr \<Rightarrow> int \<Rightarrow> kernel \<Rightarrow> kernel option" where
  "chMsgSend tp msg k = do {
     let ctp = r_current k;
     let k = upd ctp (\<lambda>t. t\<lparr>p_msg := msg\<rparr>) k;
     let k = set_u ctp (U_obj (MsgQueue tp)) k;
     let k = k\<lparr>k_links := queue_insert ctp (MsgQueue tp) (k_links k)\<rparr>;
     k \<leftarrow> (if state_of k tp = WTMSG then chSchReadyI tp k else Some k);
     Some (chSchGoSleepS SNDMSGQ R_rdymsg k) }"

definition chMsgWait :: "kernel \<Rightarrow> kernel" where
  "chMsgWait k =
     (if \<not> chMsgIsPendingI (r_current k) k then chSchGoSleepS WTMSG R_msgWait k else chMsgWait_rest k)"

definition chMsgGet :: "kptr \<Rightarrow> kernel \<Rightarrow> int" where
  "chMsgGet tp k = p_msg (k_thd k tp)"

definition chMsgRelease :: "kptr \<Rightarrow> int \<Rightarrow> kernel \<Rightarrow> kernel option" where
  "chMsgRelease tp msg k = chSchWakeupS tp msg (set_ret (r_current k) V_unit k)"

subsection \<open>Semaphores\<close>

definition chSemInit :: "kptr \<Rightarrow> int \<Rightarrow> kernel \<Rightarrow> kernel" where
  "chSemInit sp n k = k\<lparr>k_links := queue_init sp (k_links k), s_cnt := (s_cnt k)(sp := n)\<rparr>"

text \<open>The loop of \<open>chSemResetI\<close>: the threads are taken from the end of the queue.\<close>

partial_function (option) reset_loop :: "kptr \<Rightarrow> int \<Rightarrow> kernel \<Rightarrow> kernel option" where
  "reset_loop sp cnt k =
     (let cnt = cnt + 1
      in if cnt \<le> 0 then
        (case lifo_remove sp (k_links k) of (tp, h) \<Rightarrow> do {
           k \<leftarrow> chSchReadyI tp (k\<lparr>k_links := h\<rparr>);
           reset_loop sp cnt (set_u tp (U_msg RDY_RESET) k) })
      else Some k)"

definition chSemResetI :: "kptr \<Rightarrow> int \<Rightarrow> kernel \<Rightarrow> kernel option" where
  "chSemResetI sp n k = (let cnt = s_cnt k sp in reset_loop sp cnt (k\<lparr>s_cnt := (s_cnt k)(sp := n)\<rparr>))"

definition chSemReset :: "kptr \<Rightarrow> int \<Rightarrow> kernel \<Rightarrow> kernel option" where
  "chSemReset sp n k = do {
     k \<leftarrow> chSemResetI sp n (set_ret (r_current k) V_unit k);
     chSchRescheduleS k }"

definition chSemFastWaitI :: "kptr \<Rightarrow> kernel \<Rightarrow> kernel" where
  "chSemFastWaitI sp k = k\<lparr>s_cnt := (s_cnt k)(sp := s_cnt k sp - 1)\<rparr>"

definition chSemWaitS :: "kptr \<Rightarrow> kernel \<Rightarrow> kernel" where
  "chSemWaitS sp k =
     (let k = chSemFastWaitI sp k; cur = r_current k
      in if s_cnt k sp < 0 then
           (let k = set_u cur (U_obj sp) k;
                k = k\<lparr>k_links := queue_insert cur sp (k_links k)\<rparr>
            in chSchGoSleepS WTSEM R_rdymsg k)
         else set_ret cur (V_msg (Some RDY_OK)) k)"

definition chSemWait :: "kptr \<Rightarrow> kernel \<Rightarrow> kernel" where
  "chSemWait sp k = chSemWaitS sp k"

definition chSemWaitTimeoutS :: "kptr \<Rightarrow> u32 \<Rightarrow> kernel \<Rightarrow> kernel option" where
  "chSemWaitTimeoutS sp time k =
     (let k = chSemFastWaitI sp k; cur = r_current k
      in if s_cnt k sp < 0 then
           if TIME_IMMEDIATE = time then Some (set_ret cur (V_msg (Some RDY_TIMEOUT)) (chSemFastSignalI sp k))
           else
             (let k = set_u cur (U_obj sp) k;
                  k = k\<lparr>k_links := queue_insert cur sp (k_links k)\<rparr>
              in chSchGoSleepTimeoutS WTSEM time k)
         else Some (set_ret cur (V_msg (Some RDY_OK)) k))"

definition chSemWaitTimeout :: "kptr \<Rightarrow> u32 \<Rightarrow> kernel \<Rightarrow> kernel option" where
  "chSemWaitTimeout sp time k = chSemWaitTimeoutS sp time k"

definition chSemSignal :: "kptr \<Rightarrow> kernel \<Rightarrow> kernel option" where
  "chSemSignal sp k =
     (let k = chSemFastSignalI sp (set_ret (r_current k) V_unit k)
      in if s_cnt k sp \<le> 0 then
           (let (tp, h) = fifo_remove sp (k_links k) in chSchWakeupS tp RDY_OK (k\<lparr>k_links := h\<rparr>))
         else Some k)"

definition chSemSignalI :: "kptr \<Rightarrow> kernel \<Rightarrow> kernel option" where
  "chSemSignalI sp k =
     (let k = chSemFastSignalI sp k
      in if s_cnt k sp \<le> 0 then
           (let (tp, h) = fifo_remove sp (k_links k)
            in chSchReadyI tp (set_u tp (U_msg RDY_OK) (k\<lparr>k_links := h\<rparr>)))
         else Some k)"

text \<open>The thread a signal readies gets its message after it was put in the ready list.\<close>

definition signal_ready :: "kptr \<Rightarrow> kernel \<Rightarrow> kernel option" where
  "signal_ready sp k =
     (let k = chSemFastSignalI sp k
      in if s_cnt k sp \<le> 0 then
           (case fifo_remove sp (k_links k) of (tp, h) \<Rightarrow> do {
              k \<leftarrow> chSchReadyI tp (k\<lparr>k_links := h\<rparr>);
              Some (set_u tp (U_msg RDY_OK) k) })
         else Some k)"

fun chSemAddCounterI :: "kptr \<Rightarrow> nat \<Rightarrow> kernel \<Rightarrow> kernel option" where
  "chSemAddCounterI sp 0 k = Some k"
| "chSemAddCounterI sp (Suc n) k = do { k \<leftarrow> signal_ready sp k; chSemAddCounterI sp n k }"

definition chSemSignalWait :: "kptr \<Rightarrow> kptr \<Rightarrow> kernel \<Rightarrow> kernel option" where
  "chSemSignalWait sps spw k = do {
     k \<leftarrow> signal_ready sps k;
     let k = chSemFastWaitI spw k;
     let ctp = r_current k;
     if s_cnt k spw < 0 then do {
       let k = k\<lparr>k_links := queue_insert ctp spw (k_links k)\<rparr>;
       let k = set_u ctp (U_obj spw) k;
       Some (chSchGoSleepS WTSEM R_rdymsg k) }
     else chSchRescheduleS (set_ret ctp (V_msg (Some RDY_OK)) k) }"

subsection \<open>Start\<close>

text \<open>The main thread and the idle thread. The main thread is in its own code when it starts the kernel.\<close>

definition mainthread :: kptr where "mainthread = Thd 0"
definition idle_thread :: kptr where "idle_thread = Thd 1"

definition chSysInit :: "kernel \<Rightarrow> kernel option" where
  "chSysInit k =
     (let k = vt_init (scheduler_init k);
          k = thread_init mainthread NORMALPRIO (set_ctx mainthread R_user k);
          k = k\<lparr>r_current := mainthread\<rparr>;
          k = set_state mainthread CURRENT k
      in chThdCreateStatic idle_thread IDLEPRIO k)"

end
