(* ===== verification/Ch_Inv.thy ===== *)
theory Ch_Inv
  imports Ch_Calls
begin

text \<open>
  The invariant of the kernel: every thread is in the one queue its state names, the ready list is
  in order of priority, the semaphores' counters count their waiters, the timer list is sound, and
  the running thread has the highest priority. The scheduler's functions keep it.
\<close>

subsection \<open>The invariant\<close>

definition heads :: "kptr set \<Rightarrow> kptr set \<Rightarrow> kptr set" where
  "heads T S = {Rlist} \<union> Waiting ` T \<union> MsgQueue ` T \<union> S"

definition single :: "kptr \<Rightarrow> bool" where
  "single q \<longleftrightarrow> (case q of Waiting _ \<Rightarrow> True | _ \<Rightarrow> False)"

text \<open>The queue a thread belongs in by its state.\<close>

definition home :: "kthread \<Rightarrow> kptr option" where
  "home t = (case p_state t of
       READY \<Rightarrow> Some Rlist
     | SNDMSGQ \<Rightarrow> (case p_u t of U_obj q \<Rightarrow> Some q | U_msg _ \<Rightarrow> None)
     | WTSEM \<Rightarrow> (case p_u t of U_obj q \<Rightarrow> Some q | U_msg _ \<Rightarrow> None)
     | WTEXIT \<Rightarrow> (case p_ctx t of R_thdWait w \<Rightarrow> Some (Waiting w) | _ \<Rightarrow> None)
     | _ \<Rightarrow> None)"

text \<open>\<open>X\<close> are the threads that are in no queue at the moment: the running one, and one being moved.\<close>

definition placed :: "kernel \<Rightarrow> kptr set \<Rightarrow> kptr set \<Rightarrow> (kptr \<Rightarrow> kptr list) \<Rightarrow> kptr set \<Rightarrow> bool" where
  "placed k T S L X \<longleftrightarrow> (\<forall>q\<in>heads T S. \<forall>t. t \<in> set (L q) \<longleftrightarrow> t \<in> T \<and> t \<notin> X \<and> home (k_thd k t) = Some q)"

text \<open>The context of a thread that is not running fits its state.\<close>

definition resting :: "kthread \<Rightarrow> bool \<Rightarrow> bool \<Rightarrow> bool \<Rightarrow> bool" where
  "resting r nomsg armed queued \<longleftrightarrow>
     (p_ctx r = R_msgWait \<longrightarrow> \<not> nomsg) \<and> (queued \<longrightarrow> p_ctx r = R_timeout) \<and> (p_ctx r = R_timeout \<longrightarrow> armed = queued)"

definition waiting :: "kptr set \<Rightarrow> kptr set \<Rightarrow> kthread \<Rightarrow> bool \<Rightarrow> bool \<Rightarrow> bool \<Rightarrow> bool" where
  "waiting T S r nomsg armed queued \<longleftrightarrow>
     p_state r \<noteq> CURRENT \<and> (p_state r = SNDMSGQ \<longrightarrow> p_u r \<in> U_obj ` MsgQueue ` T) \<and> (p_state r = WTSEM \<longrightarrow> p_u r \<in> U_obj ` S) \<and>
     (p_state r = WTEXIT \<longrightarrow> p_ctx r \<in> R_thdWait ` T) \<and> (p_state r = WTMSG \<longrightarrow> p_ctx r = R_msgWait) \<and>
     (p_ctx r = R_msgWait \<longrightarrow> (p_state r = WTMSG \<longleftrightarrow> nomsg)) \<and> (queued \<longrightarrow> p_ctx r = R_timeout) \<and>
     (p_ctx r = R_timeout \<longrightarrow> p_state r \<in> {READY, SLEEPING, WTSEM} \<and> armed = queued)"

definition loose_ok :: "kernel \<Rightarrow> (kptr \<Rightarrow> kptr list) \<Rightarrow> vptr list \<Rightarrow> kptr \<Rightarrow> bool" where
  "loose_ok k L V t \<longleftrightarrow> resting (k_thd k t) (L (MsgQueue t) = []) (vt_func k (ThreadVt t) \<noteq> None) (ThreadVt t \<in> set V)"

definition status_ok :: "kernel \<Rightarrow> kptr set \<Rightarrow> kptr set \<Rightarrow> (kptr \<Rightarrow> kptr list) \<Rightarrow> vptr list \<Rightarrow> kptr \<Rightarrow> bool" where
  "status_ok k T S L V t \<longleftrightarrow> waiting T S (k_thd k t) (L (MsgQueue t) = []) (vt_func k (ThreadVt t) \<noteq> None) (ThreadVt t \<in> set V)"

definition deltas :: "kernel \<Rightarrow> vptr list \<Rightarrow> nat list" where
  "deltas k V = map (\<lambda>v. unat (vt_time k v)) V"

text \<open>The ticks until a timer of the list is due: what is added up to it.\<close>

definition due :: "kernel \<Rightarrow> vptr list \<Rightarrow> vptr \<Rightarrow> nat" where
  "due k V v = sum_list (deltas k (takeWhile (\<lambda>w. w \<noteq> v) V)) + unat (vt_time k v)"

definition timers :: "kernel \<Rightarrow> kptr set \<Rightarrow> vptr list \<Rightarrow> bool" where
  "timers k T V \<longleftrightarrow> ring (vt_links k) VtList V \<and> (\<forall>v\<in>set V. vt_func k v = Some Wakeup \<and> v \<in> ThreadVt ` T) \<and>
     (\<forall>t. ThreadVt t \<in> set V \<longrightarrow> vt_par k (ThreadVt t) = t) \<and> vt_time k VtList = 0xffffffff \<and>
     sum_list (deltas k V) < 2 ^ 32 - 1"

text \<open>\<open>Z\<close> gives the threads that sleep in \<open>chThdSleep\<close> the number of ticks they have left.\<close>

definition asleep :: "kernel \<Rightarrow> vptr list \<Rightarrow> kptr set \<Rightarrow> (kptr \<rightharpoonup> nat) \<Rightarrow> bool" where
  "asleep k V X Z \<longleftrightarrow> (\<forall>t n. Z t = Some n \<longrightarrow> t \<notin> X \<and> p_state (k_thd k t) = SLEEPING \<and> ThreadVt t \<in> set V \<and> due k V (ThreadVt t) = n)"

definition counted :: "kernel \<Rightarrow> kptr set \<Rightarrow> (kptr \<Rightarrow> kptr list) \<Rightarrow> bool" where
  "counted k S L \<longleftrightarrow> (\<forall>s\<in>S. int (length (L s)) = max 0 (- s_cnt k s))"

definition base :: "kernel \<Rightarrow> kptr set \<Rightarrow> kptr set \<Rightarrow> (kptr \<Rightarrow> kptr list) \<Rightarrow> vptr list \<Rightarrow> kptr set \<Rightarrow> bool" where
  "base k T S L V X \<longleftrightarrow>
     queues single (k_links k) (heads T S) L \<and> placed k T S L X \<and> by_prio (k_prio k) (L Rlist) \<and>
     k_prio k Rlist = 0 \<and> (\<forall>t\<in>T. k_prio k t \<noteq> 0) \<and> T \<subseteq> range Thd \<and> S \<subseteq> range SemQueue \<and>
     (\<forall>t\<in>T - X. status_ok k T S L V t) \<and> X \<subseteq> T \<and> (\<forall>t\<in>X. loose_ok k L V t) \<and>
     idle_thread \<in> T \<and> (idle_thread \<in> X \<or> p_state (k_thd k idle_thread) = READY)"

definition kinv :: "kernel \<Rightarrow> kptr set \<Rightarrow> kptr set \<Rightarrow> (kptr \<rightharpoonup> nat) \<Rightarrow> (kptr \<Rightarrow> kptr list) \<Rightarrow> vptr list \<Rightarrow> bool" where
  "kinv k T S Z L V \<longleftrightarrow> base k T S L V {r_current k} \<and> counted k S L \<and> timers k T V \<and> asleep k V {r_current k} Z \<and> (V \<noteq> [] \<longrightarrow> vt_time k (hd V) \<noteq> 0) \<and>
     p_state (k_thd k (r_current k)) = CURRENT \<and> p_ctx (k_thd k (r_current k)) = R_user \<and>
     (\<forall>t\<in>set (L Rlist). k_prio k t \<le> k_prio k (r_current k))"

lemma heads_simps [simp]: "Rlist \<in> heads T S" "t \<in> T \<Longrightarrow> MsgQueue t \<in> heads T S" "t \<in> T \<Longrightarrow> Waiting t \<in> heads T S" "s \<in> S \<Longrightarrow> s \<in> heads T S"
  by (auto simp: heads_def)

lemma single_simps [simp]: "\<not> single Rlist" "\<not> single (MsgQueue t)" "single (Waiting t)" "\<not> single (SemQueue s)"
  by (simp_all add: single_def)

lemma thread_not_head: "T \<subseteq> range Thd \<Longrightarrow> S \<subseteq> range SemQueue \<Longrightarrow> t \<in> T \<Longrightarrow> t \<notin> heads T S"
  by (auto simp: heads_def)

lemma sem_single: "S \<subseteq> range SemQueue \<Longrightarrow> s \<in> S \<Longrightarrow> \<not> single s"
  by auto

lemma upd_fields [simp]:
  "k_links (upd t f k) = k_links k" "k_prio (upd t f k) = k_prio k" "k_thd (upd t f k) = (k_thd k)(t := f (k_thd k t))"
  "r_preempt (upd t f k) = r_preempt k" "r_current (upd t f k) = r_current k" "s_cnt (upd t f k) = s_cnt k"
  "vt_links (upd t f k) = vt_links k" "vt_time (upd t f k) = vt_time k" "vt_func (upd t f k) = vt_func k"
  "vt_par (upd t f k) = vt_par k" "vt_systime (upd t f k) = vt_systime k"
  by (simp_all add: upd_def)

lemmas set_defs = set_state_def set_u_def set_ctx_def set_ret_def

subsection \<open>Queues of a state\<close>

lemma baseD:
  assumes "base k T S L V X"
  shows base_queues: "queues single (k_links k) (heads T S) L" and base_placed: "placed k T S L X" and base_sorted: "by_prio (k_prio k) (L Rlist)"
    and base_noprio: "k_prio k Rlist = 0" and base_prio: "t \<in> T \<Longrightarrow> k_prio k t \<noteq> 0" and base_threads: "T \<subseteq> range Thd"
    and base_sems: "S \<subseteq> range SemQueue" and base_status: "t \<in> T \<Longrightarrow> t \<notin> X \<Longrightarrow> status_ok k T S L V t" and base_sub: "X \<subseteq> T"
    and base_loose: "t \<in> X \<Longrightarrow> loose_ok k L V t" and base_idle: "idle_thread \<in> T" "idle_thread \<in> X \<or> p_state (k_thd k idle_thread) = READY"
  using assms by (simp_all add: base_def)

lemma baseI:
  assumes "queues single (k_links k) (heads T S) L" "placed k T S L X" "by_prio (k_prio k) (L Rlist)" "k_prio k Rlist = 0"
    "\<And>t. t \<in> T \<Longrightarrow> k_prio k t \<noteq> 0" "T \<subseteq> range Thd" "S \<subseteq> range SemQueue" "\<And>t. t \<in> T \<Longrightarrow> t \<notin> X \<Longrightarrow> status_ok k T S L V t"
    "X \<subseteq> T" "\<And>t. t \<in> X \<Longrightarrow> loose_ok k L V t" "idle_thread \<in> T" "idle_thread \<in> X \<or> p_state (k_thd k idle_thread) = READY"
  shows "base k T S L V X"
  using assms by (simp add: base_def)

lemma queues_ring: "queues single h H L \<Longrightarrow> q \<in> H \<Longrightarrow> \<not> single q \<Longrightarrow> ring h q (L q)"
  by (simp add: queues_def rep_def)

lemma queues_sring: "queues single h H L \<Longrightarrow> q \<in> H \<Longrightarrow> single q \<Longrightarrow> sring h q (L q)"
  by (simp add: queues_def rep_def)

text \<open>A thread in \<open>X\<close> is in no queue.\<close>

lemma loose_nowhere: "base k T S L V X \<Longrightarrow> t \<in> X \<Longrightarrow> q \<in> heads T S \<Longrightarrow> t \<notin> set (L q)"
  by (auto simp: base_def placed_def)

lemma base_not_head: "base k T S L V X \<Longrightarrow> t \<in> T \<Longrightarrow> t \<notin> heads T S"
  using thread_not_head [of T S t] by (simp add: base_def)

subsection \<open>Making a thread ready\<close>

lemma ready_search_ok:
  assumes "seg h a xs Rlist" "prio Rlist < p"
  shows "ready_search prio h p a = Some (hd (dropWhile (\<lambda>x. prio x \<ge> p) xs @ [Rlist]))"
  using assms
proof (induction xs arbitrary: a)
  case Nil
  then have "\<not> prio Rlist \<ge> p" by simp
  with Nil show ?case by (subst ready_search.simps) (simp add: Let_def)
next
  case (Cons x xs)
  then show ?case by (subst ready_search.simps) (auto simp: Let_def)
qed

text \<open>The loop finds the place \<open>prio_insert\<close> would find.\<close>

lemma ready_as_prio:
  assumes "ring h Rlist xs" "x \<notin> insert Rlist (set xs)" "prio Rlist = 0" "prio x \<noteq> 0"
  shows "\<exists>cp. ready_search prio h (prio x) Rlist = Some cp \<and> prio_insert prio x Rlist h = Some (link_before x cp h)"
proof -
  have "seg h Rlist xs Rlist" "Rlist \<notin> set xs" using assms(1) by (auto simp: ring_def)
  moreover have "prio Rlist < prio x" using assms(3,4) by (simp add: word_gt_0)
  ultimately show ?thesis
    using ready_search_ok [of h Rlist xs prio "prio x"] prio_search_ok [of h Rlist xs Rlist prio "prio x"]
    by (simp add: prio_insert_def)
qed

lemma chSchReadyI_eq:
  assumes b: "base k T S L V X" and x: "x \<in> X"
  obtains h where "chSchReadyI x k = Some ((set_state x READY k)\<lparr>k_links := h\<rparr>)"
    "queues single h (heads T S) (L(Rlist := prio_ins (k_prio k) x (L Rlist)))"
proof -
  have q: "queues single (k_links k) (heads T S) L" and p: "k_prio k Rlist = 0" "k_prio k x \<noteq> 0" and t: "x \<in> T"
    using b x by (auto simp: base_def)
  have r: "ring (k_links k) Rlist (L Rlist)" using q by (auto simp: queues_def rep_def)
  have out: "x \<notin> set (L q)" if "q \<in> heads T S" for q using loose_nowhere [OF b x that] .
  have nh: "x \<notin> heads T S" using base_not_head [OF b t] .
  then have n: "x \<notin> insert Rlist (set (L Rlist))" using out by auto
  obtain cp where cp: "ready_search (k_prio k) (k_links k) (k_prio k x) Rlist = Some cp"
    "prio_insert (k_prio k) x Rlist (k_links k) = Some (link_before x cp (k_links k))"
    using ready_as_prio [OF r n p] by blast
  have "queues single (the (prio_insert (k_prio k) x Rlist (k_links k))) (heads T S) (L(Rlist := prio_ins (k_prio k) x (L Rlist)))"
    using prio.family [OF q _ _ _ nh, of Rlist] n out by simp
  then show ?thesis using that cp by (simp add: chSchReadyI_def set_defs)
qed

subsection \<open>Moving a thread\<close>

lemma placed_iff: "placed k T S L X \<Longrightarrow> q \<in> heads T S \<Longrightarrow> t \<in> set (L q) \<longleftrightarrow> t \<in> T \<and> t \<notin> X \<and> home (k_thd k t) = Some q"
  by (simp add: placed_def)

lemma placed_insert:
  assumes "placed k T S L X" "x \<in> T" "x \<in> X" "k_thd k' = (k_thd k)(x := r)" "home r = Some q" "q \<in> heads T S" "set ys = insert x (set (L q))"
  shows "placed k' T S (L(q := ys)) (X - {x})"
  unfolding placed_def
proof (intro ballI allI)
  fix p t assume p: "p \<in> heads T S"
  have o: "t \<in> set (L p) \<longleftrightarrow> t \<in> T \<and> t \<notin> X \<and> home (k_thd k t) = Some p" for t
    using assms(1) p by (simp add: placed_def)
  show "(t \<in> set ((L(q := ys)) p)) = (t \<in> T \<and> t \<notin> X - {x} \<and> home (k_thd k' t) = Some p)"
    using o [of t] assms(2-7) by (cases "t = x"; cases "p = q") auto
qed

lemma placed_remove:
  assumes "placed k T S L X" "x \<in> set (L q)" "q \<in> heads T S" "set ys = set (L q) - {x}"
  shows "placed k T S (L(q := ys)) (insert x X)"
  unfolding placed_def
proof (intro ballI allI)
  fix p t assume p: "p \<in> heads T S"
  have o: "t \<in> set (L r) \<longleftrightarrow> t \<in> T \<and> t \<notin> X \<and> home (k_thd k t) = Some r" if "r \<in> heads T S" for t r
    using assms(1) that by (simp add: placed_def)
  show "(t \<in> set ((L(q := ys)) p)) = (t \<in> T \<and> t \<notin> insert x X \<and> home (k_thd k t) = Some p)"
    using o [OF p, of t] o [OF assms(3), of x] assms(2,4) by (cases "t = x"; cases "p = q") auto
qed

lemma placed_settle:
  assumes "placed k T S L X" "x \<in> X" "k_thd k' = (k_thd k)(x := r)" "home r = None"
  shows "placed k' T S L (X - {x})"
  unfolding placed_def
proof (intro ballI allI)
  fix p t assume p: "p \<in> heads T S"
  have "t \<in> set (L p) \<longleftrightarrow> t \<in> T \<and> t \<notin> X \<and> home (k_thd k t) = Some p" using assms(1) p by (simp add: placed_def)
  then show "(t \<in> set (L p)) = (t \<in> T \<and> t \<notin> X - {x} \<and> home (k_thd k' t) = Some p)"
    using assms(2-4) by (cases "t = x") auto
qed

lemma placed_loosen: "placed k T S L X \<Longrightarrow> home (k_thd k x) = None \<Longrightarrow> placed k T S L (insert x X)"
  by (auto simp: placed_def)

lemma placed_cong: "placed k T S L X \<Longrightarrow> (\<And>t. t \<in> T \<Longrightarrow> t \<notin> X \<Longrightarrow> home (k_thd k' t) = home (k_thd k t)) \<Longrightarrow> placed k' T S L X"
  unfolding placed_def by metis

lemma home_cong: "p_state r' = p_state r \<Longrightarrow> p_u r' = p_u r \<Longrightarrow> p_ctx r' = p_ctx r \<Longrightarrow> home r' = home r"
  unfolding home_def by (simp only:)

lemma status_cong:
  assumes "k_thd k' t = k_thd k t" "L' (MsgQueue t) = [] \<longleftrightarrow> L (MsgQueue t) = []" "vt_func k' (ThreadVt t) = vt_func k (ThreadVt t)"
    "ThreadVt t \<in> set V' \<longleftrightarrow> ThreadVt t \<in> set V"
  shows "status_ok k' T S L' V' t = status_ok k T S L V t"
  unfolding status_ok_def assms ..

lemma loose_cong:
  assumes "p_ctx (k_thd k' t) = p_ctx (k_thd k t)" "L' (MsgQueue t) = [] \<longleftrightarrow> L (MsgQueue t) = []" "vt_func k' (ThreadVt t) = vt_func k (ThreadVt t)"
    "ThreadVt t \<in> set V' \<longleftrightarrow> ThreadVt t \<in> set V"
  shows "loose_ok k' L' V' t = loose_ok k L V t"
  unfolding loose_ok_def assms(2-4) using assms(1) by (simp add: resting_def)

text \<open>Fields the base does not depend on, and stores to threads that are in no queue.\<close>

lemma base_cong:
  assumes b: "base k T S L V X" and "k_links k' = k_links k" "k_prio k' = k_prio k" "vt_func k' = vt_func k"
    and t: "\<And>t. t \<in> T - X \<Longrightarrow> p_state (k_thd k' t) = p_state (k_thd k t) \<and> p_u (k_thd k' t) = p_u (k_thd k t)"
    and c: "\<And>t. p_ctx (k_thd k' t) = p_ctx (k_thd k t)"
  shows "base k' T S L V X"
proof -
  have "home (k_thd k' u) = home (k_thd k u)" if "u \<in> T" "u \<notin> X" for u using t [of u] c [of u] that by (intro home_cong) auto
  then have "placed k' T S L X" by (rule placed_cong [OF base_placed [OF b]])
  moreover have "status_ok k' T S L V u = status_ok k T S L V u" if "u \<in> T - X" for u
    using t [OF that] c [of u] assms(4) by (simp add: status_ok_def waiting_def)
  moreover have "loose_ok k' L V u = loose_ok k L V u" for u using c [of u] assms(4) by (simp add: loose_ok_def resting_def)
  moreover have "idle_thread \<in> X \<or> p_state (k_thd k' idle_thread) = READY"
    using base_idle [OF b] t [of idle_thread] by (cases "idle_thread \<in> X") auto
  ultimately show ?thesis using b assms(2,3) by (simp add: base_def)
qed

subsection \<open>Making a thread ready keeps the base\<close>

lemma ready_base:
  assumes b: "base k T S L V X" and x: "x \<in> X"
  shows "\<exists>k'. chSchReadyI x k = Some k' \<and> base k' T S (L(Rlist := prio_ins (k_prio k) x (L Rlist))) V (X - {x}) \<and>
    (\<exists>h. k' = (set_state x READY k)\<lparr>k_links := h\<rparr>)"
proof -
  obtain h where h: "chSchReadyI x k = Some ((set_state x READY k)\<lparr>k_links := h\<rparr>)"
    "queues single h (heads T S) (L(Rlist := prio_ins (k_prio k) x (L Rlist)))"
    using chSchReadyI_eq [OF b x] by blast
  let ?k = "(set_state x READY k)\<lparr>k_links := h\<rparr>" let ?L = "L(Rlist := prio_ins (k_prio k) x (L Rlist))"
  have t: "k_thd ?k = (k_thd k)(x := (k_thd k x)\<lparr>p_state := READY\<rparr>)" "vt_func ?k = vt_func k" "k_prio ?k = k_prio k" "k_links ?k = h"
    by (simp_all add: set_defs)
  have xT: "x \<in> T" using b x by (auto simp: base_def)
  have pl: "placed ?k T S ?L (X - {x})"
    using b xT x t(1) by (intro placed_insert [of k _ _ _ X x _ "(k_thd k x)\<lparr>p_state := READY\<rparr>"]) (auto simp: base_def home_def)
  have "loose_ok k L V x" using b x by (auto simp: base_def)
  then have sx: "status_ok ?k T S ?L V x" by (simp add: status_ok_def loose_ok_def t resting_def waiting_def)
  have so: "status_ok ?k T S ?L V t" if "t \<in> T - X" for t
  proof -
    have "status_ok ?k T S ?L V t = status_ok k T S L V t" using that x by (intro status_cong) (auto simp: t)
    then show ?thesis using b that by (simp add: base_def)
  qed
  have lo: "loose_ok ?k ?L V t" if "t \<in> X" for t
  proof -
    have "loose_ok ?k ?L V t = loose_ok k L V t" by (intro loose_cong) (auto simp: t)
    then show ?thesis using b that by (simp add: base_def)
  qed
  have "base ?k T S ?L V (X - {x})"
    using b h(2) pl sx so lo by_prio_ins [of "k_prio k" "L Rlist" x] unfolding base_def t(2-4) by (auto simp: t(1))
  then show ?thesis using h(1) by blast
qed

text \<open>Taking a thread out of a queue leaves it in no queue.\<close>

lemma remove_base:
  assumes b: "base k T S L V X" and x: "x \<in> set (L q)" and q: "q \<in> heads T S" "q \<notin> MsgQueue ` T" and ys: "set ys = set (L q) - {x}"
    and h: "queues single h (heads T S) (L(q := ys))" and p: "q = Rlist \<Longrightarrow> by_prio (k_prio k) ys"
  shows "base (k\<lparr>k_links := h\<rparr>) T S (L(q := ys)) V (insert x X)"
proof -
  let ?k = "k\<lparr>k_links := h\<rparr>"
  have xT: "x \<in> T" "x \<notin> X" "home (k_thd k x) = Some q" using b x q by (auto simp: base_def placed_def)
  have pl: "placed ?k T S (L(q := ys)) (insert x X)"
    using placed_remove [of k T S L X x q ys] b x q(1) ys by (auto simp: base_def placed_def)
  have m: "(L(q := ys)) (MsgQueue t) = L (MsgQueue t)" if "t \<in> T" for t using that q(2) by auto
  have so: "status_ok ?k T S (L(q := ys)) V t" if "t \<in> T - X" for t
  proof -
    have "status_ok ?k T S (L(q := ys)) V t = status_ok k T S L V t" using that m [of t] by (intro status_cong) auto
    then show ?thesis using b that by (simp add: base_def)
  qed
  have "status_ok k T S L V x" using b xT by (simp add: base_def)
  moreover have "p_state (k_thd k x) \<noteq> WTMSG" using xT(3) by (auto simp: home_def)
  ultimately have "loose_ok k L V x" by (simp add: status_ok_def loose_ok_def resting_def waiting_def)
  moreover have "loose_ok ?k (L(q := ys)) V t = loose_ok k L V t" if "t \<in> T" for t
    using m [OF that] by (intro loose_cong) auto
  ultimately have "\<forall>t\<in>insert x X. loose_ok ?k (L(q := ys)) V t" using b xT by (auto simp: base_def)
  then show ?thesis using b h pl so xT p unfolding base_def by auto
qed

text \<open>A thread in no queue may be changed freely, with its timer, as long as its context stays sound.\<close>

lemma base_upd:
  assumes b: "base k T S L V X" and x: "x \<in> X" and f: "k_links k' = k_links k" "k_prio k' = k_prio k"
    and t: "\<And>u. u \<noteq> x \<Longrightarrow> k_thd k' u = k_thd k u" and v: "\<And>u. u \<noteq> x \<Longrightarrow> vt_func k' (ThreadVt u) = vt_func k (ThreadVt u)"
    and m: "\<And>u. u \<noteq> x \<Longrightarrow> ThreadVt u \<in> set V' \<longleftrightarrow> ThreadVt u \<in> set V" and l: "loose_ok k' L V' x"
  shows "base k' T S L V' X"
proof (rule baseI)
  show "placed k' T S L X" using t x by (intro placed_cong [OF base_placed [OF b]]) (metis (no_types))
  show "status_ok k' T S L V' u" if "u \<in> T" "u \<notin> X" for u
    using base_status [OF b that] status_cong [of k' u k L L V' V T S] t v m x that by metis
  show "loose_ok k' L V' u" if "u \<in> X" for u
    using base_loose [OF b that] loose_cong [of k' u k L L V' V] t v m l by (cases "u = x") auto
  show "idle_thread \<in> X \<or> p_state (k_thd k' idle_thread) = READY" using base_idle [OF b] t x by metis
qed (use baseD [OF b] f in auto)

lemma base_upd_simple:
  assumes "base k T S L V X" "x \<in> X" "p_ctx (f (k_thd k x)) = p_ctx (k_thd k x)"
  shows "base (upd x f k) T S L V X"
proof (rule base_upd [OF assms(1,2)])
  show "loose_ok (upd x f k) L V x" using base_loose [OF assms(1,2)] assms(3) by (simp add: loose_ok_def resting_def)
qed simp_all

subsection \<open>The timer list\<close>

lemma deltas_append [simp]: "deltas k (a @ b) = deltas k a @ deltas k b" "deltas k (v # b) = unat (vt_time k v) # deltas k b" "deltas k [] = []"
  by (simp_all add: deltas_def)

lemma deltas_cong: "(\<And>v. v \<in> set V \<Longrightarrow> vt_time k' v = vt_time k v) \<Longrightarrow> deltas k' V = deltas k V"
  by (simp add: deltas_def)

lemma takeWhile_split: "distinct (a @ v # b) \<Longrightarrow> takeWhile (\<lambda>w. w \<noteq> v) (a @ v # b) = a"
  by (subst takeWhile_append2) auto

lemma due_split: "distinct (a @ v # b) \<Longrightarrow> due k (a @ v # b) v = sum_list (deltas k a) + unat (vt_time k v)"
  unfolding due_def by (simp add: takeWhile_split)

lemma unat_sum_small: "unat a + unat b < 2 ^ 32 \<Longrightarrow> unat (a + b :: u32) = unat a + unat b"
  by (simp add: unat_word_ariths)

lemma timersD:
  assumes "timers k T V"
  shows timers_ring: "ring (vt_links k) VtList V" and timers_func: "v \<in> set V \<Longrightarrow> vt_func k v = Some Wakeup"
    and timers_thread: "v \<in> set V \<Longrightarrow> v \<in> ThreadVt ` T" and timers_par: "ThreadVt t \<in> set V \<Longrightarrow> vt_par k (ThreadVt t) = t"
    and timers_end: "vt_time k VtList = 0xffffffff" and timers_sum: "sum_list (deltas k V) < 2 ^ 32 - 1"
  using assms by (simp_all add: timers_def)

lemma timers_distinct: "timers k T V \<Longrightarrow> distinct V \<and> VtList \<notin> set V"
  by (auto simp: timers_def ring_def)

lemma reset_fields [simp]:
  "k_links (chVTResetI v k) = k_links k" "k_prio (chVTResetI v k) = k_prio k" "k_thd (chVTResetI v k) = k_thd k"
  "r_current (chVTResetI v k) = r_current k" "s_cnt (chVTResetI v k) = s_cnt k" "r_preempt (chVTResetI v k) = r_preempt k"
  "vt_func (chVTResetI v k) = (vt_func k)(v := None)" "vt_par (chVTResetI v k) = vt_par k" "vt_systime (chVTResetI v k) = vt_systime k"
  "vt_links (chVTResetI v k) = dequeue v (vt_links k)"
  "vt_time (chVTResetI v k) = (if p_next (vt_links k) v \<noteq> VtList
     then (vt_time k)(p_next (vt_links k) v := vt_time k (p_next (vt_links k) v) + vt_time k v) else vt_time k)"
  by (simp_all add: chVTResetI_def Let_def)

text \<open>Taking a timer out keeps the others due when they were.\<close>

lemma reset_timers:
  assumes t: "timers k T (a @ v # b)"
  shows "timers (chVTResetI v k) T (a @ b) \<and> (\<forall>w\<in>set (a @ b). due (chVTResetI v k) (a @ b) w = due k (a @ v # b) w) \<and>
    (vt_time k (hd (a @ v # b)) \<noteq> 0 \<longrightarrow> a @ b \<noteq> [] \<longrightarrow> vt_time (chVTResetI v k) (hd (a @ b)) \<noteq> 0)"
proof -
  have r: "ring (vt_links k) VtList (a @ v # b)" and d: "distinct (a @ v # b)" "VtList \<notin> set (a @ v # b)"
    using timers_ring [OF t] timers_distinct [OF t] by auto
  have n: "p_next (vt_links k) v = hd (b @ [VtList])" using ring_ends [OF r] by simp
  have rg: "ring (dequeue v (vt_links k)) VtList (a @ b)" by (rule ring_dequeue [OF r])
  let ?k = "chVTResetI v k"
  have ta: "vt_time ?k w = vt_time k w" if "w \<in> set a" for w using that d by (cases b) (auto simp: n)
  have da: "deltas ?k a = deltas k a" using ta by (rule deltas_cong)
  have s: "sum_list (deltas k (a @ v # b)) < 2 ^ 32 - 1" by (rule timers_sum [OF t])
  have db: "sum_list (deltas ?k b) = (if b = [] then 0 else unat (vt_time k v) + sum_list (deltas k b))"
    "\<And>w c e. b = w # c \<Longrightarrow> unat (vt_time ?k w) = unat (vt_time k w) + unat (vt_time k v)"
    "\<And>w c. b = w # c \<Longrightarrow> deltas ?k c = deltas k c"
  proof -
    show w: "unat (vt_time ?k w) = unat (vt_time k w) + unat (vt_time k v)" if "b = w # c" for w c
      using that d s by (auto simp: n intro!: unat_sum_small)
    show c: "deltas ?k c = deltas k c" if "b = w # c" for w c
      using that d by (intro deltas_cong) (auto simp: n)
    show "sum_list (deltas ?k b) = (if b = [] then 0 else unat (vt_time k v) + sum_list (deltas k b))"
      using w c by (cases b) auto
  qed
  have du: "due ?k (a @ b) w = due k (a @ v # b) w" if w: "w \<in> set (a @ b)" for w
  proof (cases "w \<in> set a")
    case True
    then obtain a1 a2 where a: "a = a1 @ w # a2" by (auto dest: split_list)
    have "deltas ?k a1 = deltas k a1" using ta a by (intro deltas_cong) auto
    then show ?thesis using due_split [of a1 w "a2 @ b" ?k] due_split [of a1 w "a2 @ v # b" k] d ta [OF True] a by simp
  next
    case False
    then obtain b1 b2 where b: "b = b1 @ w # b2" using w by (auto dest: split_list)
    have "due ?k (a @ b) w = sum_list (deltas ?k (a @ b1)) + unat (vt_time ?k w)"
      using due_split [of "a @ b1" w b2 ?k] d b by simp
    also have "\<dots> = sum_list (deltas k (a @ v # b1)) + unat (vt_time k w)"
    proof (cases b1)
      case Nil
      then show ?thesis using db(2) [of w b2] b da by simp
    next
      case (Cons u c)
      then have c: "deltas ?k (c @ w # b2) = deltas k (c @ w # b2)" "unat (vt_time ?k u) = unat (vt_time k u) + unat (vt_time k v)"
        using db(2,3) [of u "c @ w # b2"] b by auto
      then have "deltas ?k c = deltas k c" "unat (vt_time ?k w) = unat (vt_time k w)" by (simp_all add: deltas_def)
      then show ?thesis using c(2) Cons da by simp
    qed
    also have "\<dots> = due k (a @ v # b) w" using due_split [of "a @ v # b1" w b2 k] d b by simp
    finally show ?thesis .
  qed
  have e: "vt_time ?k VtList = 0xffffffff" using timers_end [OF t] d by (cases b) (auto simp: n)
  have "timers ?k T (a @ b)"
    unfolding timers_def
  proof (intro conjI)
    show "ring (vt_links ?k) VtList (a @ b)" using rg by simp
    show "\<forall>w\<in>set (a @ b). vt_func ?k w = Some Wakeup \<and> w \<in> ThreadVt ` T"
      using timers_func [OF t] timers_thread [OF t] d by auto
    show "\<forall>u. ThreadVt u \<in> set (a @ b) \<longrightarrow> vt_par ?k (ThreadVt u) = u" using timers_par [OF t] by auto
    show "vt_time ?k VtList = 0xffffffff" by (rule e)
    show "sum_list (deltas ?k (a @ b)) < 2 ^ 32 - 1" using s db(1) da by (auto split: if_splits)
  qed
  moreover have "vt_time ?k (hd (a @ b)) \<noteq> 0" if "vt_time k (hd (a @ v # b)) \<noteq> 0" "a @ b \<noteq> []"
  proof (cases a)
    case Nil
    then have "b \<noteq> []" using that by simp
    then obtain w c where b: "b = w # c" by (cases b) auto
    have "unat (vt_time k v) \<noteq> 0" using that(1) Nil by (simp add: unat_eq_0)
    then have "unat (vt_time ?k w) \<noteq> 0" using db(2) [OF b] by simp
    then show ?thesis using b Nil by (auto simp: unat_eq_0)
  next
    case (Cons u c)
    then show ?thesis using that ta [of u] by simp
  qed
  ultimately show ?thesis using du by blast
qed

subsection \<open>Switching a thread in\<close>

text \<open>The state right after a switch, before the rest of the new thread's call: it is in no queue.\<close>

definition switched :: "kernel \<Rightarrow> kptr set \<Rightarrow> kptr set \<Rightarrow> (kptr \<rightharpoonup> nat) \<Rightarrow> (kptr \<Rightarrow> kptr list) \<Rightarrow> vptr list \<Rightarrow> bool" where
  "switched k T S Z L V \<longleftrightarrow> base k T S L V {r_current k} \<and> counted k S L \<and> timers k T V \<and> asleep k V {r_current k} Z \<and> (V \<noteq> [] \<longrightarrow> vt_time k (hd V) \<noteq> 0) \<and>
     p_state (k_thd k (r_current k)) = CURRENT \<and> (\<forall>t\<in>set (L Rlist). k_prio k t \<le> k_prio k (r_current k))"

lemma kinv_switched: "kinv k T S Z L V \<longleftrightarrow> switched k T S Z L V \<and> p_ctx (k_thd k (r_current k)) = R_user"
  by (auto simp: kinv_def switched_def)

lemma counted_cong: "counted k S L \<Longrightarrow> s_cnt k' = s_cnt k \<Longrightarrow> (\<And>s. s \<in> S \<Longrightarrow> L' s = L s) \<Longrightarrow> counted k' S L'"
  by (simp add: counted_def)

lemma timers_cong: "timers k T V \<Longrightarrow> vt_links k' = vt_links k \<Longrightarrow> vt_func k' = vt_func k \<Longrightarrow> vt_par k' = vt_par k \<Longrightarrow> vt_time k' = vt_time k \<Longrightarrow> timers k' T V"
  by (simp add: timers_def deltas_def)

lemma due_cong: "vt_time k' = vt_time k \<Longrightarrow> due k' V v = due k V v"
  by (simp add: due_def deltas_def)

lemma asleep_cong:
  assumes "asleep k V X Z" "vt_time k' = vt_time k" "\<And>t n. Z t = Some n \<Longrightarrow> t \<notin> X' \<and> p_state (k_thd k' t) = p_state (k_thd k t)"
  shows "asleep k' V X' Z"
  using assms due_cong [OF assms(2)] by (simp add: asleep_def)

lemma asleep_out: "asleep k V X Z \<Longrightarrow> t \<in> X \<Longrightarrow> Z t = None"
  unfolding asleep_def by (metis option.exhaust)

lemma asleep_state: "asleep k V X Z \<Longrightarrow> Z t = Some n \<Longrightarrow> p_state (k_thd k t) = SLEEPING"
  by (simp add: asleep_def)

text \<open>A change of the running thread that keeps its state and has no timer behind it.\<close>

lemma switched_upd:
  assumes w: "switched k T S Z L V" and p: "p_state (f (k_thd k (r_current k))) = CURRENT"
    and c: "resting (f (k_thd k (r_current k))) (L (MsgQueue (r_current k)) = []) (vt_func k (ThreadVt (r_current k)) \<noteq> None) (ThreadVt (r_current k) \<in> set V)"
  shows "switched (upd (r_current k) f k) T S Z L V"
proof -
  have "base (upd (r_current k) f k) T S L V {r_current k}"
  proof (rule base_upd)
    show "base k T S L V {r_current k}" using w by (simp add: switched_def)
    show "loose_ok (upd (r_current k) f k) L V (r_current k)" using c by (simp add: loose_ok_def)
  qed simp_all
  moreover have a: "asleep k V {r_current k} Z" using w by (simp add: switched_def)
  moreover have "asleep (upd (r_current k) f k) V {r_current k} Z"
    using asleep_out [OF a, of "r_current k"] by (intro asleep_cong [OF a]) auto
  ultimately show ?thesis using w p timers_cong [of k T V "upd (r_current k) f k"] by (simp add: switched_def counted_def)
qed

lemma switched_loose: "switched k T S Z L V \<Longrightarrow> loose_ok k L V (r_current k)"
  by (auto simp: switched_def intro: base_loose)

lemma kinv_set_ret: "kinv k T S Z L V \<Longrightarrow> kinv (set_ret (r_current k) v k) T S Z L V"
  using switched_loose [of k T S Z L V] switched_upd [of k T S Z L V "\<lambda>t. t\<lparr>p_ret := v\<rparr>"]
  by (simp add: kinv_switched set_ret_def loose_ok_def resting_def) (simp add: switched_def)

text \<open>Taking the next message off the queue of a thread that is in no queue itself.\<close>

lemma take_msg:
  assumes b: "base k T S L V X" and t: "t \<in> X" "p_ctx (k_thd k t) \<noteq> R_msgWait" and l: "L (MsgQueue t) = u # us"
  shows "fst (fifo_remove (MsgQueue t) (k_links k)) = u \<and>
    base (set_state u SNDMSG (k\<lparr>k_links := snd (fifo_remove (MsgQueue t) (k_links k))\<rparr>)) T S (L(MsgQueue t := us)) V X"
proof -
  let ?q = "MsgQueue t" let ?h = "snd (fifo_remove ?q (k_links k))" let ?L = "L(?q := us)"
  let ?k = "set_state u SNDMSG (k\<lparr>k_links := ?h\<rparr>)"
  have tT: "t \<in> T" using base_sub [OF b] t by auto
  have q: "?q \<in> heads T S" using tT by simp
  have qs: "queues single (k_links k) (heads T S) L" by (rule base_queues [OF b])
  have rg: "ring (k_links k) ?q (u # us)" using queues_ring [OF qs q] l by simp
  have u: "u \<in> T" "u \<notin> X" "home (k_thd k u) = Some ?q" using placed_iff [OF base_placed [OF b] q, of u] l by simp_all
  have us: "u \<notin> set us" using rg by (auto simp: ring_def)
  have other: "u \<notin> set (L r)" if "r \<in> heads T S" "r \<noteq> ?q" for r using base_placed [OF b] that u(3) placed_iff by fastforce
  have h: "queues single ?h (heads T S) ?L"
    using fifo.family [OF qs _ q, of u us] l base_not_head [OF b u(1)] other by simp
  have st: "p_state (k_thd k u) = SNDMSGQ"
    using u(3) base_status [OF b u(1,2)] base_sems [OF b] by (auto simp: home_def status_ok_def waiting_def split: tstate.splits resume_at.splits thd_u.splits)
  have pl: "placed ?k T S ?L X"
  proof -
    have "placed k T S ?L (insert u X)" using base_placed [OF b] q l us by (intro placed_remove [of k T S L X u ?q]) auto
    then have "placed ?k T S ?L (insert u X - {u})"
      by (intro placed_settle [of k _ _ _ "insert u X" u ?k "(k_thd k u)\<lparr>p_state := SNDMSG\<rparr>"]) (auto simp: set_defs home_def)
    then show ?thesis using u(2) by simp
  qed
  have so: "status_ok ?k T S ?L V w" if "w \<in> T" "w \<notin> X" for w
  proof (cases "w = u")
    case True
    then show ?thesis using base_status [OF b u(1,2)] st t(1) u(2) by (auto simp: status_ok_def waiting_def set_defs)
  next
    case False
    moreover have "w \<noteq> t" using t(1) that by auto
    ultimately show ?thesis using base_status [OF b that] status_cong [of ?k w k ?L L V V T S] by (simp add: set_defs)
  qed
  have lo: "loose_ok ?k ?L V w" if "w \<in> X" for w
    using base_loose [OF b that] t u(2) that by (auto simp: loose_ok_def resting_def set_defs)
  have "base ?k T S ?L V X"
  proof (rule baseI)
    show "idle_thread \<in> X \<or> p_state (k_thd ?k idle_thread) = READY" using base_idle [OF b] st by (auto simp: set_defs)
  qed (use baseD [OF b] h pl so lo in \<open>auto simp: set_defs\<close>)
  then show ?thesis using ring_fifo [OF rg] by simp
qed

lemma take_msg_switched:
  assumes w: "switched k T S Z L V" and c: "p_ctx (k_thd k (r_current k)) = R_user" and l: "L (MsgQueue (r_current k)) \<noteq> []"
  shows "\<exists>L'. kinv (chMsgWait_rest k) T S Z L' V \<and> L' = L(MsgQueue (r_current k) := tl (L (MsgQueue (r_current k))))"
proof -
  let ?c = "r_current k" let ?q = "MsgQueue ?c"
  obtain u us where l: "L ?q = u # us" using l by (cases "L ?q") auto
  have b: "base k T S L V {?c}" using w by (simp add: switched_def)
  let ?k = "set_state u SNDMSG (k\<lparr>k_links := snd (fifo_remove ?q (k_links k))\<rparr>)"
  have m: "fst (fifo_remove ?q (k_links k)) = u" "base ?k T S (L(?q := us)) V {?c}"
    using take_msg [OF b _ _ l] c by simp_all
  have uc: "u \<noteq> ?c" using loose_nowhere [OF b, of ?c ?q] l base_sub [OF b] by auto
  have "p_state (k_thd k u) \<noteq> SLEEPING"
    using placed_iff [OF base_placed [OF b], of ?q u] base_sub [OF b] l by (auto simp: home_def)
  moreover have a: "asleep k V {?c} Z" using w by (simp add: switched_def)
  ultimately have "asleep ?k V {?c} Z"
    using asleep_state [OF a] asleep_out [OF a, of ?c] by (intro asleep_cong [OF a]) (auto simp: set_defs)
  then have "switched ?k T S Z (L(?q := us)) V"
    using w m(2) uc base_sems [OF b] timers_cong [of k T V ?k] by (auto simp: switched_def set_defs counted_def)
  then have "kinv ?k T S Z (L(?q := us)) V" using c uc by (simp add: kinv_switched set_defs)
  then have "kinv (set_ret ?c (V_thd u) ?k) T S Z (L(?q := us)) V" using kinv_set_ret [of ?k T S Z "L(?q := us)" V] by (simp add: set_defs)
  moreover have "chMsgWait_rest k = set_ret ?c (V_thd u) ?k" using m(1) by (simp add: chMsgWait_rest_def Let_def split_beta)
  ultimately show ?thesis using l by simp
qed

lemma release_fields [simp]:
  "k_links (chThdRelease w k) = k_links k" "k_prio (chThdRelease w k) = k_prio k" "r_current (chThdRelease w k) = r_current k"
  "s_cnt (chThdRelease w k) = s_cnt k" "vt_links (chThdRelease w k) = vt_links k" "vt_time (chThdRelease w k) = vt_time k"
  "vt_func (chThdRelease w k) = vt_func k" "vt_par (chThdRelease w k) = vt_par k" "r_preempt (chThdRelease w k) = r_preempt k"
  "k_thd (chThdRelease w k) = (k_thd k)(w := (k_thd k w)\<lparr>p_refs := p_refs (k_thd k w) - 1\<rparr>)"
  by (simp_all add: chThdRelease_def Let_def REG_REMOVE_def)

lemma kinv_release: "kinv k T S Z L V \<Longrightarrow> kinv (chThdRelease w k) T S Z L V"
proof -
  assume k: "kinv k T S Z L V"
  have "base (chThdRelease w k) T S L V {r_current k}"
  proof (rule base_cong)
    show "base k T S L V {r_current k}" using k by (simp add: kinv_def)
  qed simp_all
  moreover have a: "asleep k V {r_current k} Z" using k by (simp add: kinv_def)
  moreover have "asleep (chThdRelease w k) V {r_current k} Z"
    using asleep_out [OF a, of "r_current k"] by (intro asleep_cong [OF a]) auto
  ultimately show ?thesis using k timers_cong [of k T V "chThdRelease w k"] by (auto simp: kinv_def counted_def)
qed

text \<open>The running thread gives up its saved context.\<close>

lemma switched_user:
  assumes "switched k T S Z L V" "ThreadVt (r_current k) \<notin> set V"
  shows "kinv (set_ctx (r_current k) R_user k) T S Z L V"
  using switched_upd [OF assms(1), of "\<lambda>t. t\<lparr>p_ctx := R_user\<rparr>"] assms
  by (simp add: kinv_switched set_ctx_def resting_def) (simp add: switched_def)

text \<open>A thread that took a timeout resets its timer if it is still armed.\<close>

lemma timeout_user:
  assumes w: "switched k T S Z L V" and c: "p_ctx (k_thd k (r_current k)) = R_timeout"
  shows "\<exists>V'. kinv (timeout_rest (set_ctx (r_current k) R_user k)) T S Z L V'"
proof (cases "ThreadVt (r_current k) \<in> set V")
  let ?c = "r_current k" let ?k = "set_ctx ?c R_user k"
  have ar: "chVTIsArmedI (ThreadVt ?c) ?k \<longleftrightarrow> ThreadVt ?c \<in> set V"
    using switched_loose [OF w] c by (simp add: loose_ok_def resting_def chVTIsArmedI_def set_defs)
  case False
  then show ?thesis using kinv_set_ret [OF switched_user [OF w False]] ar by (auto simp: timeout_rest_def Let_def set_defs)
next
  let ?c = "r_current k" let ?k = "set_ctx ?c R_user k" let ?r = "chVTResetI (ThreadVt ?c) ?k"
  have ar: "chVTIsArmedI (ThreadVt ?c) ?k \<longleftrightarrow> ThreadVt ?c \<in> set V"
    using switched_loose [OF w] c by (simp add: loose_ok_def resting_def chVTIsArmedI_def set_defs)
  case True
  then obtain a b where V: "V = a @ ThreadVt ?c # b" by (auto dest: split_list)
  have b: "base k T S L V {?c}" and t: "timers ?k T V" "distinct V" and z: "vt_time k (hd V) \<noteq> 0"
    using w V timers_distinct [of k T V] timers_cong [of k T V ?k] by (auto simp: switched_def set_defs)
  have n: "ThreadVt ?c \<notin> set (a @ b)" using t(2) V by auto
  have "base ?r T S L (a @ b) {?c}"
  proof (rule base_upd [OF b])
    show "loose_ok ?r L (a @ b) ?c" using n by (simp add: loose_ok_def resting_def set_defs)
  qed (auto simp: set_defs V)
  moreover have "timers ?r T (a @ b)" "a @ b \<noteq> [] \<longrightarrow> vt_time ?r (hd (a @ b)) \<noteq> 0"
    and du: "\<And>u. u \<in> set (a @ b) \<Longrightarrow> due ?r (a @ b) u = due k V u"
    using reset_timers [of ?k T a "ThreadVt ?c" b] t(1) z V due_cong [of ?k k V] by (auto simp: set_defs)
  moreover have "asleep ?r (a @ b) {?c} Z" unfolding asleep_def
  proof (intro allI impI)
    fix u n assume "Z u = Some n"
    then have u: "u \<noteq> ?c" "p_state (k_thd k u) = SLEEPING" "ThreadVt u \<in> set V" "due k V (ThreadVt u) = n"
      using w by (auto simp: switched_def asleep_def)
    then show "u \<notin> {?c} \<and> p_state (k_thd ?r u) = SLEEPING \<and> ThreadVt u \<in> set (a @ b) \<and> due ?r (a @ b) (ThreadVt u) = n"
      using du [of "ThreadVt u"] V by (auto simp: set_defs)
  qed
  ultimately have "kinv ?r T S Z L (a @ b)" using w by (simp add: kinv_def switched_def set_defs counted_def)
  then show ?thesis using kinv_set_ret [of ?r T S Z L "a @ b"] ar True by (auto simp: timeout_rest_def Let_def set_defs)
qed

lemma resume_ok:
  assumes w: "switched k T S Z L V"
  shows "\<exists>L' V'. kinv (resume k) T S Z L' V'"
proof -
  let ?c = "r_current k" let ?k = "set_ctx ?c R_user k"
  have lo: "loose_ok k L V ?c" by (rule switched_loose [OF w])
  show ?thesis
  proof (cases "p_ctx (k_thd k ?c) = R_timeout")
    case True
    then show ?thesis using timeout_user [OF w True] by (auto simp: resume_def Let_def)
  next
    case False
    then have k: "kinv ?k T S Z L V" using lo by (intro switched_user [OF w]) (auto simp: loose_ok_def resting_def)
    show ?thesis
    proof (cases "p_ctx (k_thd k ?c)")
      case R_msgWait
      then have "L (MsgQueue ?c) \<noteq> []" using lo by (simp add: loose_ok_def resting_def)
      then show ?thesis using take_msg_switched [of ?k T S Z L V] k R_msgWait by (auto simp: resume_def Let_def kinv_switched set_defs)
    next
      case (R_thdWait t)
      then show ?thesis using kinv_release [OF kinv_set_ret [OF k], of t] by (auto simp: resume_def Let_def chThdWait_rest_def set_defs)
    qed (use k kinv_set_ret [OF k] False in \<open>auto simp: resume_def Let_def set_defs\<close>)
  qed
qed

subsection \<open>The scheduler keeps the invariant\<close>

text \<open>All threads are placed: the scheduler may take the first ready one.\<close>

definition settled :: "kernel \<Rightarrow> kptr set \<Rightarrow> kptr set \<Rightarrow> (kptr \<rightharpoonup> nat) \<Rightarrow> (kptr \<Rightarrow> kptr list) \<Rightarrow> vptr list \<Rightarrow> kptr set \<Rightarrow> bool" where
  "settled k T S Z L V X \<longleftrightarrow> base k T S L V X \<and> counted k S L \<and> timers k T V \<and> asleep k V X Z \<and> (V \<noteq> [] \<longrightarrow> vt_time k (hd V) \<noteq> 0)"

lemma settled_rest:
  assumes "settled k T S Z L V X" "base k' T S L' V X'" "s_cnt k' = s_cnt k" "\<And>s. s \<in> S \<Longrightarrow> L' s = L s"
    "vt_links k' = vt_links k" "vt_func k' = vt_func k" "vt_par k' = vt_par k" "vt_time k' = vt_time k"
    "\<And>t n. Z t = Some n \<Longrightarrow> t \<notin> X \<Longrightarrow> p_state (k_thd k t) = SLEEPING \<Longrightarrow> t \<notin> X' \<and> p_state (k_thd k' t) = p_state (k_thd k t)"
  shows "settled k' T S Z L' V X'"
proof -
  have a: "asleep k V X Z" using assms(1) by (simp add: settled_def)
  have "asleep k' V X' Z"
  proof (rule asleep_cong [OF a assms(8)])
    fix t n assume z: "Z t = Some n"
    then have "t \<notin> X" "p_state (k_thd k t) = SLEEPING" using a by (auto simp: asleep_def)
    then show "t \<notin> X' \<and> p_state (k_thd k' t) = p_state (k_thd k t)" using assms(9) z by blast
  qed
  then show ?thesis using assms timers_cong [of k T V k'] by (simp add: settled_def counted_def)
qed

lemma ready_settled:
  assumes s: "settled k T S Z L V X" and x: "x \<in> X"
  shows "\<exists>k'. chSchReadyI x k = Some k' \<and> settled k' T S Z (L(Rlist := prio_ins (k_prio k) x (L Rlist))) V (X - {x}) \<and>
    (\<exists>h. k' = (set_state x READY k)\<lparr>k_links := h\<rparr>)"
proof -
  have b: "base k T S L V X" using s by (simp add: settled_def)
  have n: "Rlist \<notin> S" using base_sems [OF b] by auto
  obtain k' h where k': "chSchReadyI x k = Some k'" "base k' T S (L(Rlist := prio_ins (k_prio k) x (L Rlist))) V (X - {x})"
    "k' = (set_state x READY k)\<lparr>k_links := h\<rparr>" using ready_base [OF b x] by blast
  have "settled k' T S Z (L(Rlist := prio_ins (k_prio k) x (L Rlist))) V (X - {x})"
    using n x by (intro settled_rest [OF s k'(2)]) (auto simp: k'(3) set_defs)
  then show ?thesis using k' by blast
qed

text \<open>Taking the first thread off the ready list.\<close>

lemma first_ready:
  assumes s: "settled k T S Z L V X" and l: "L Rlist = t # ts"
  shows "fst (fifo_remove Rlist (k_links k)) = t \<and> t \<notin> X \<and> t \<in> T \<and> p_state (k_thd k t) = READY \<and>
    settled (k\<lparr>k_links := snd (fifo_remove Rlist (k_links k))\<rparr>) T S Z (L(Rlist := ts)) V (insert t X) \<and> (\<forall>u\<in>set ts. k_prio k u \<le> k_prio k t)"
proof -
  have b: "base k T S L V X" using s by (simp add: settled_def)
  have n: "Rlist \<notin> S" using base_sems [OF b] by auto
  let ?h = "snd (fifo_remove Rlist (k_links k))"
  have qs: "queues single (k_links k) (heads T S) L" by (rule base_queues [OF b])
  have rg: "ring (k_links k) Rlist (t # ts)" using queues_ring [OF qs, of Rlist] l by simp
  have t: "t \<in> T" "t \<notin> X" "home (k_thd k t) = Some Rlist" using placed_iff [OF base_placed [OF b], of Rlist t] l by simp_all
  have st: "p_state (k_thd k t) = READY"
    using t(3) base_status [OF b t(1,2)] base_sems [OF b] by (auto simp: home_def status_ok_def waiting_def split: tstate.splits resume_at.splits thd_u.splits)
  have other: "t \<notin> set (L r)" if "r \<in> heads T S" "r \<noteq> Rlist" for r using placed_iff [OF base_placed [OF b] that(1)] that(2) t(3) by simp
  have h: "queues single ?h (heads T S) (L(Rlist := ts))"
    using fifo.family [OF qs, of Rlist t ts] l base_not_head [OF b t(1)] other by simp
  have so: "by_prio (k_prio k) (t # ts)" using base_sorted [OF b] l by simp
  have "base (k\<lparr>k_links := ?h\<rparr>) T S (L(Rlist := ts)) V (insert t X)"
  proof (rule remove_base [OF b _ _ _ _ h])
    show "set ts = set (L Rlist) - {t}" using l rg by (auto simp: ring_def)
    show "by_prio (k_prio k) ts" using so by (simp add: by_prio_def)
  qed (use l in auto)
  then have "settled (k\<lparr>k_links := ?h\<rparr>) T S Z (L(Rlist := ts)) V (insert t X)" using n st by (intro settled_rest [OF s]) auto
  then show ?thesis using ring_fifo [OF rg] t st so by (simp add: by_prio_def)
qed

text \<open>The chosen thread runs: what is left of its call restores the invariant.\<close>

lemma run_switched:
  assumes s: "settled k T S Z L V {t}" and top: "\<forall>u\<in>set (L Rlist). k_prio k u \<le> k_prio k t"
    and k': "k_links k' = k_links k" "k_prio k' = k_prio k" "k_thd k' = (k_thd k)(t := (k_thd k t)\<lparr>p_state := CURRENT\<rparr>)" "r_current k' = t"
      "s_cnt k' = s_cnt k" "vt_links k' = vt_links k" "vt_func k' = vt_func k" "vt_par k' = vt_par k" "vt_time k' = vt_time k"
  shows "switched k' T S Z L V"
proof -
  have b: "base k T S L V {t}" using s by (simp add: settled_def)
  have "base k' T S L V {t}"
  proof (rule base_upd [OF b])
    show "loose_ok k' L V t" using base_loose [OF b, of t] k' by (simp add: loose_ok_def resting_def)
  qed (use k' in simp_all)
  then have "settled k' T S Z L V {t}" using k' by (intro settled_rest [OF s]) auto
  then show ?thesis using top k' by (simp add: switched_def settled_def)
qed

lemmas run_ok = resume_ok [OF run_switched]

lemma ready_nonempty:
  assumes "settled k T S Z L V X" "idle_thread \<notin> X"
  shows "L Rlist \<noteq> []"
proof -
  have b: "base k T S L V X" using assms by (simp add: settled_def)
  have "idle_thread \<in> set (L Rlist)"
    using placed_iff [OF base_placed [OF b], of Rlist idle_thread] base_idle [OF b] assms(2) by (simp add: home_def)
  then show ?thesis by auto
qed

text \<open>
  The running thread goes to sleep: once it is placed under its new state and context, the first
  ready thread takes over.
\<close>

lemma sleep_ok:
  assumes s: "settled (set_ctx (r_current k) r (set_state (r_current k) st k)) T S Z L V {}" and st: "st \<noteq> READY"
  shows "\<exists>L' V'. kinv (chSchGoSleepS st r k) T S Z L' V'"
proof -
  let ?c = "r_current k" let ?p = "set_ctx ?c r (set_state ?c st k)"
  obtain t ts where l: "L Rlist = t # ts" using ready_nonempty [OF s] by (cases "L Rlist") auto
  let ?h = "snd (fifo_remove Rlist (k_links ?p))"
  have f: "fst (fifo_remove Rlist (k_links ?p)) = t" "p_state (k_thd ?p t) = READY"
    "settled (?p\<lparr>k_links := ?h\<rparr>) T S Z (L(Rlist := ts)) V {t}" "\<forall>u\<in>set ts. k_prio ?p u \<le> k_prio ?p t"
    using first_ready [OF s l] by simp_all
  have n: "t \<noteq> ?c" using f(2) st by (auto simp: set_defs)
  let ?k = "set_ctx ?c r (set_state t CURRENT (k\<lparr>k_thd := (k_thd k)(?c := (k_thd k ?c)\<lparr>p_state := st\<rparr>), r_preempt := CH_TIME_QUANTUM, k_links := ?h, r_current := t\<rparr>))"
  have "chSchGoSleepS st r k = resume ?k"
    using f(1) by (simp add: chSchGoSleepS_def Let_def split_beta chSysSwitch_def set_defs upd_def)
  moreover have "\<exists>L' V'. kinv (resume ?k) T S Z L' V'"
    using n f(4) by (intro run_ok [OF f(3)]) (auto simp: set_defs fun_eq_iff)
  ultimately show ?thesis by simp
qed

end
