(* ===== verification/Ch_Sched.thy ===== *)
theory Ch_Sched
  imports Ch_Inv
begin

text \<open>
  The scheduler's own functions keep the invariant: waking a thread, rescheduling, yielding, and
  the ways a thread is put to sleep.
\<close>

subsection \<open>Waking and rescheduling\<close>

text \<open>The running thread during a call: it may have made threads ready or hold others in its hand.\<close>

definition running :: "kernel \<Rightarrow> kptr set \<Rightarrow> kptr set \<Rightarrow> (kptr \<rightharpoonup> nat) \<Rightarrow> (kptr \<Rightarrow> kptr list) \<Rightarrow> vptr list \<Rightarrow> kptr set \<Rightarrow> bool" where
  "running k T S Z L V X \<longleftrightarrow> settled k T S Z L V (insert (r_current k) X) \<and> r_current k \<notin> X \<and>
     p_state (k_thd k (r_current k)) = CURRENT \<and> p_ctx (k_thd k (r_current k)) = R_user"

definition highest :: "kernel \<Rightarrow> (kptr \<Rightarrow> kptr list) \<Rightarrow> bool" where
  "highest k L \<longleftrightarrow> (\<forall>t\<in>set (L Rlist). k_prio k t \<le> k_prio k (r_current k))"

lemma kinv_running: "kinv k T S Z L V \<longleftrightarrow> running k T S Z L V {} \<and> highest k L"
  by (auto simp: kinv_def running_def highest_def settled_def)

lemma running_base: "running k T S Z L V X \<Longrightarrow> base k T S L V (insert (r_current k) X)"
  by (simp add: running_def settled_def)

lemma upd_same: "f (k_thd k x) = k_thd k x \<Longrightarrow> upd x f k = k"
  by (simp add: upd_def)

lemma ready_running:
  assumes r: "running k T S Z L V X" and x: "x \<in> X"
  shows "\<exists>k'. chSchReadyI x k = Some k' \<and> running k' T S Z (L(Rlist := prio_ins (k_prio k) x (L Rlist))) V (X - {x}) \<and>
    (\<exists>h. k' = (set_state x READY k)\<lparr>k_links := h\<rparr>)"
proof -
  have s: "settled k T S Z L V (insert (r_current k) X)" and n: "x \<noteq> r_current k" using r x by (auto simp: running_def)
  obtain k' h where k': "chSchReadyI x k = Some k'" "settled k' T S Z (L(Rlist := prio_ins (k_prio k) x (L Rlist))) V (insert (r_current k) X - {x})"
    "k' = (set_state x READY k)\<lparr>k_links := h\<rparr>" using ready_settled [OF s, of x] x by blast
  have "insert (r_current k) X - {x} = insert (r_current k) (X - {x})" using n by auto
  then show ?thesis using k' r n by (auto simp: running_def set_defs)
qed

lemma reschedule_switched:
  assumes r: "running k T S Z L V {}" and l: "L Rlist = t # ts" and p: "k_prio k (r_current k) \<le> k_prio k t"
  shows "\<exists>k' L'. chSchDoReschedule k = Some (resume k') \<and> switched k' T S Z L' V \<and> r_current k' = t \<and> t \<noteq> r_current k \<and> s_cnt k' = s_cnt k \<and>
    p_state (k_thd k t) = READY \<and>
    k_thd k' = (k_thd k)(r_current k := (k_thd k (r_current k))\<lparr>p_state := READY\<rparr>, t := (k_thd k t)\<lparr>p_state := CURRENT\<rparr>)"
proof -
  let ?c = "r_current k" let ?h = "snd (fifo_remove Rlist (k_links k))"
  have s: "settled k T S Z L V {?c}" and c: "p_state (k_thd k ?c) = CURRENT" "p_ctx (k_thd k ?c) = R_user" using r by (simp_all add: running_def)
  have f: "fst (fifo_remove Rlist (k_links k)) = t" "t \<noteq> ?c" "settled (k\<lparr>k_links := ?h\<rparr>) T S Z (L(Rlist := ts)) V {t, ?c}"
    "\<forall>u\<in>set ts. k_prio k u \<le> k_prio k t" "p_state (k_thd k t) = READY"
    using first_ready [OF s l] by simp_all
  let ?k = "set_state t CURRENT (k\<lparr>r_preempt := CH_TIME_QUANTUM, k_links := ?h, r_current := t\<rparr>)"
  have "base ?k T S (L(Rlist := ts)) V {t, ?c}"
  proof (rule base_upd)
    show b: "base (k\<lparr>k_links := ?h\<rparr>) T S (L(Rlist := ts)) V {t, ?c}" using f(3) by (simp add: settled_def)
    show "loose_ok ?k (L(Rlist := ts)) V t" using base_loose [OF b, of t] by (simp add: loose_ok_def resting_def set_defs)
  qed (auto simp: set_defs)
  then have "settled ?k T S Z (L(Rlist := ts)) V {t, ?c}" by (rule settled_rest [OF f(3)]) (auto simp: set_defs)
  then obtain k' h where k': "chSchReadyI ?c ?k = Some k'" "settled k' T S Z (L(Rlist := prio_ins (k_prio ?k) ?c ts)) V ({t, ?c} - {?c})"
    "k' = (set_state ?c READY ?k)\<lparr>k_links := h\<rparr>" using ready_settled [of ?k T S Z "L(Rlist := ts)" V "{t, ?c}" ?c] by auto
  have ctx: "set_ctx ?c R_user k' = k'" unfolding set_ctx_def using c(2) f(2) by (intro upd_same) (simp add: k'(3) set_defs)
  have "chSchDoReschedule k = Some (resume k')"
    using k'(1) f(1) ctx by (simp add: chSchDoReschedule_def Let_def split_beta chSysSwitch_def)
  moreover have "switched k' T S Z (L(Rlist := prio_ins (k_prio ?k) ?c ts)) V"
  proof (rule run_switched)
    show "settled k' T S Z (L(Rlist := prio_ins (k_prio ?k) ?c ts)) V {t}" using k'(2) f(2) by (simp add: insert_Diff_if)
    show "\<forall>u\<in>set ((L(Rlist := prio_ins (k_prio ?k) ?c ts)) Rlist). k_prio k' u \<le> k_prio k' t" using f(4) p by (simp add: k'(3) set_defs)
  qed (use f(2) in \<open>simp_all add: k'(3) set_defs fun_eq_iff\<close>)
  moreover have "r_current k' = t" "s_cnt k' = s_cnt k"
    "k_thd k' = (k_thd k)(?c := (k_thd k ?c)\<lparr>p_state := READY\<rparr>, t := (k_thd k t)\<lparr>p_state := CURRENT\<rparr>)"
    using f(2) by (simp_all add: k'(3) set_defs fun_eq_iff)
  ultimately show ?thesis using f(2,5) by blast
qed

lemma reschedule_ok:
  assumes "running k T S Z L V {}" "L Rlist = t # ts" "k_prio k (r_current k) \<le> k_prio k t"
  shows "\<exists>k' L' V'. chSchDoReschedule k = Some k' \<and> kinv k' T S Z L' V'"
  using reschedule_switched [OF assms] resume_ok by blast

lemma firstprio_eq:
  assumes "base k T S L V X"
  shows "firstprio k = (case L Rlist of [] \<Rightarrow> 0 | t # _ \<Rightarrow> k_prio k t)"
  using queues_ring [OF base_queues [OF assms], of Rlist] base_noprio [OF assms]
  by (auto simp: firstprio_def ring_def split: list.splits)

lemma not_first_top:
  assumes b: "base k T S L V X" and "firstprio k \<le> k_prio k (r_current k)"
  shows "highest k L"
proof (cases "L Rlist")
  case (Cons t ts)
  have "\<forall>u\<in>set ts. k_prio k u \<le> k_prio k t" using base_sorted [OF b] Cons by (simp add: by_prio_def)
  then show ?thesis using assms(2) firstprio_eq [OF b] Cons by (auto simp: highest_def)
qed (simp add: highest_def)

lemma first_nonempty:
  assumes b: "base k T S L V (insert (r_current k) X)" and p: "k_prio k (r_current k) \<le> firstprio k"
  shows "\<exists>t ts. L Rlist = t # ts \<and> k_prio k (r_current k) \<le> k_prio k t"
proof -
  have "k_prio k (r_current k) \<noteq> 0" using base_prio [OF b] base_sub [OF b] by auto
  then show ?thesis using p firstprio_eq [OF b] by (cases "L Rlist") auto
qed

lemma chSchRescheduleS_ok: "running k T S Z L V {} \<Longrightarrow> \<exists>k' L' V'. chSchRescheduleS k = Some k' \<and> kinv k' T S Z L' V'"
proof -
  assume r: "running k T S Z L V {}"
  have b: "base k T S L V (insert (r_current k) {})" using running_base [OF r] .
  show ?thesis
  proof (cases "chSchIsRescRequiredI k")
    case True
    then have "k_prio k (r_current k) \<le> firstprio k" by (simp add: chSchIsRescRequiredI_def)
    then obtain t ts where "L Rlist = t # ts" "k_prio k (r_current k) \<le> k_prio k t" using first_nonempty [OF b] by blast
    then show ?thesis using reschedule_ok [OF r] True by (simp add: chSchRescheduleS_def)
  next
    case False
    then have "highest k L" by (intro not_first_top [OF b]) (simp add: chSchIsRescRequiredI_def)
    then show ?thesis using r False by (auto simp: chSchRescheduleS_def kinv_running)
  qed
qed

lemma chSchDoYieldS_ok: "kinv k T S Z L V \<Longrightarrow> \<exists>k' L' V'. chSchDoYieldS k = Some k' \<and> kinv k' T S Z L' V'"
proof -
  assume k: "kinv k T S Z L V"
  then have r: "running k T S Z L V {}" by (simp add: kinv_running)
  show ?thesis
    using first_nonempty [OF running_base [OF r]] reschedule_ok [OF r] k by (auto simp: chSchDoYieldS_def)
qed

lemma preemption_ok:
  assumes r: "running k T S Z L V {}" and t: "chSchIsPreemptionRequired k \<or> highest k L"
  shows "\<exists>k' L' V'. (if chSchIsPreemptionRequired k then chSchDoReschedule k else Some k) = Some k' \<and> kinv k' T S Z L' V'"
proof (cases "chSchIsPreemptionRequired k")
  case True
  then have "k_prio k (r_current k) \<le> firstprio k" by (auto simp: chSchIsPreemptionRequired_def Let_def split: if_splits)
  then show ?thesis using first_nonempty [OF running_base [OF r]] reschedule_ok [OF r] True by auto
next
  case False
  then show ?thesis using r t by (auto simp: kinv_running)
qed

lemma not_preempt_top: "running k T S Z L V X \<Longrightarrow> \<not> chSchIsPreemptionRequired k \<Longrightarrow> highest k L"
  using not_first_top [OF running_base] by (auto simp: chSchIsPreemptionRequired_def Let_def split: if_splits)

text \<open>Waking a thread that is in no queue.\<close>

lemma running_upd:
  assumes r: "running k T S Z L V X" and x: "x \<in> X" "p_ctx (f (k_thd k x)) = p_ctx (k_thd k x)"
  shows "running (upd x f k) T S Z L V X"
proof -
  have n: "x \<noteq> r_current k" and s: "settled k T S Z L V (insert (r_current k) X)" using r x by (auto simp: running_def)
  have "base (upd x f k) T S L V (insert (r_current k) X)" using x by (intro base_upd_simple [OF running_base [OF r]]) auto
  then have "settled (upd x f k) T S Z L V (insert (r_current k) X)" by (rule settled_rest [OF s]) (use x(1) in auto)
  then show ?thesis using r n by (simp add: running_def)
qed

lemma chSchWakeupS_ok:
  assumes r: "running k T S Z L V {n}" and t: "highest k L"
  shows "\<exists>k' L' V'. chSchWakeupS n msg k = Some k' \<and> kinv k' T S Z L' V'"
proof -
  let ?c = "r_current k" let ?k = "set_u n (U_msg msg) k"
  have nc: "n \<noteq> ?c" using r by (auto simp: running_def)
  have r1: "running ?k T S Z L V {n}" unfolding set_u_def using r by (intro running_upd) auto
  have c: "p_state (k_thd ?k ?c) = CURRENT" "p_ctx (k_thd ?k ?c) = R_user" "r_current ?k = ?c" using r nc by (simp_all add: running_def set_defs)
  show ?thesis
  proof (cases "k_prio k n \<le> k_prio k ?c")
    case True
    obtain k' h where k': "chSchReadyI n ?k = Some k'" "running k' T S Z (L(Rlist := prio_ins (k_prio ?k) n (L Rlist))) V {}"
      "k' = (set_state n READY ?k)\<lparr>k_links := h\<rparr>" using ready_running [OF r1, of n] by auto
    have "highest k' (L(Rlist := prio_ins (k_prio ?k) n (L Rlist)))" using t True by (auto simp: highest_def k'(3) set_defs)
    then show ?thesis using k'(1,2) True by (auto simp: chSchWakeupS_def Let_def kinv_running set_defs)
  next
    case False
    have s: "settled ?k T S Z L V {?c, n}" using r1 c(3) by (simp add: running_def)
    obtain k' h where k': "chSchReadyI ?c ?k = Some k'" "settled k' T S Z (L(Rlist := prio_ins (k_prio ?k) ?c (L Rlist))) V ({?c, n} - {?c})"
      "k' = (set_state ?c READY ?k)\<lparr>k_links := h\<rparr>" using ready_settled [OF s, of ?c] by auto
    let ?w = "set_state n CURRENT (k'\<lparr>r_preempt := CH_TIME_QUANTUM, r_current := n\<rparr>)"
    have ctx: "set_ctx ?c R_user ?w = ?w" unfolding set_ctx_def using c(2) nc by (intro upd_same) (simp add: k'(3) set_defs)
    have "chSchWakeupS n msg k = Some (resume ?w)"
      using False k'(1) ctx by (simp add: chSchWakeupS_def Let_def chSysSwitch_def set_defs)
    moreover have "\<exists>L' V'. kinv (resume ?w) T S Z L' V'"
    proof (rule run_ok)
      show "settled k' T S Z (L(Rlist := prio_ins (k_prio ?k) ?c (L Rlist))) V {n}" using k'(2) nc by (simp add: insert_Diff_if)
      show "\<forall>u\<in>set ((L(Rlist := prio_ins (k_prio ?k) ?c (L Rlist))) Rlist). k_prio k' u \<le> k_prio k' n"
        using t False by (auto simp: highest_def k'(3) set_defs)
    qed (use nc in \<open>simp_all add: set_defs fun_eq_iff\<close>)
    ultimately show ?thesis by blast
  qed
qed

subsection \<open>Putting a thread down\<close>

text \<open>A thread in no queue takes a state that needs none.\<close>

lemma settle_base:
  assumes b: "base k T S L V X" and x: "x \<in> X" "x \<noteq> idle_thread" and f: "k_links k' = k_links k" "k_prio k' = k_prio k"
    and t: "k_thd k' = (k_thd k)(x := r)" and h: "home r = None"
    and v: "\<And>u. u \<noteq> x \<Longrightarrow> vt_func k' (ThreadVt u) = vt_func k (ThreadVt u)"
    and m: "\<And>u. u \<noteq> x \<Longrightarrow> ThreadVt u \<in> set V' \<longleftrightarrow> ThreadVt u \<in> set V" and l: "status_ok k' T S L V' x"
  shows "base k' T S L V' (X - {x})"
proof (rule baseI)
  show "placed k' T S L (X - {x})" by (rule placed_settle [OF base_placed [OF b] x(1) t h])
  show "status_ok k' T S L V' u" if "u \<in> T" "u \<notin> X - {x}" for u
  proof (cases "u = x")
    case False
    then have "u \<notin> X" using that by simp
    then show ?thesis using base_status [OF b that(1)] status_cong [of k' u k L L V' V T S] t v m False by simp
  qed (use l in simp)
  show "loose_ok k' L V' u" if "u \<in> X - {x}" for u
    using that base_loose [OF b, of u] loose_cong [of k' u k L L V' V] t v m by simp
  show "idle_thread \<in> X - {x} \<or> p_state (k_thd k' idle_thread) = READY" using base_idle [OF b] x t by auto
qed (use baseD [OF b] f in auto)

text \<open>
  A thread in no queue is linked into a queue of waiting threads; a thread that waits for a message
  and now has one is taken in hand.
\<close>

lemma place_base:
  assumes b: "base k T S L V X" and x: "x \<in> X" "x \<noteq> idle_thread" and f: "k_prio k' = k_prio k" and vf: "vt_func k' = vt_func k"
    and t: "k_thd k' = (k_thd k)(x := r)" and h: "home r = Some q" and q: "q \<in> heads T S" "q \<noteq> Rlist"
    and ys: "set ys = insert x (set (L q))" and lk: "queues single (k_links k') (heads T S) (L(q := ys))"
    and l: "status_ok k' T S (L(q := ys)) V x"
    and y: "\<And>u. u \<in> Y \<Longrightarrow> u \<in> T \<and> u \<notin> X \<and> home (k_thd k u) = None \<and> loose_ok k' (L(q := ys)) V u"
    and w: "\<And>u. q = MsgQueue u \<Longrightarrow> u \<in> T \<Longrightarrow> u \<notin> X \<Longrightarrow> u \<notin> Y \<Longrightarrow> L q \<noteq> [] \<or> p_ctx (k_thd k u) \<noteq> R_msgWait"
  shows "base k' T S (L(q := ys)) V (X - {x} \<union> Y)"
proof (rule baseI)
  have "placed k' T S (L(q := ys)) (X - {x})"
    using base_sub [OF b] x by (intro placed_insert [OF base_placed [OF b] _ x(1) t h q(1) ys]) auto
  moreover have "home (k_thd k' u) = None" if "u \<in> Y" for u using y [OF that] t x by auto
  ultimately show "placed k' T S (L(q := ys)) (X - {x} \<union> Y)" unfolding placed_def by force
  have ne: "ys \<noteq> []" using ys by auto
  show "status_ok k' T S (L(q := ys)) V u" if "u \<in> T" "u \<notin> X - {x} \<union> Y" for u
  proof (cases "u = x")
    case False
    then have u: "u \<notin> X" using that by simp
    show ?thesis
    proof (cases "q = MsgQueue u")
      case True
      then show ?thesis using base_status [OF b that(1) u] w [OF True that(1) u] that(2) t vf False ne by (auto simp: status_ok_def waiting_def)
    next
      case nq: False
      then show ?thesis using base_status [OF b that(1) u] status_cong [of k' u k "L(q := ys)" L V V T S] t vf False by simp
    qed
  qed (use l in simp)
  have "loose_ok k' (L(q := ys)) V u" if "u \<in> X - {x}" for u
    using that base_loose [OF b, of u] t vf ne by (auto simp: loose_ok_def resting_def)
  then show "loose_ok k' (L(q := ys)) V u" if "u \<in> X - {x} \<union> Y" for u using that y by blast
  show "idle_thread \<in> X - {x} \<union> Y \<or> p_state (k_thd k' idle_thread) = READY" using base_idle [OF b] x t by auto
  show "X - {x} \<union> Y \<subseteq> T" using base_sub [OF b] y by auto
qed (use baseD [OF b] f q lk in auto)

subsection \<open>Setting a timer\<close>

lemma vt_search_ok:
  assumes "seg h a V VtList" "tm VtList = 0xffffffff" "time \<noteq> 0"
  shows "\<exists>c d p t. V = c @ d \<and> vt_search h tm (p_next h a) time = Some (p, t) \<and> p = hd (d @ [VtList]) \<and> t \<noteq> 0 \<and>
    unat time = sum_list (map (\<lambda>v. unat (tm v)) c) + unat t \<and> t \<le> tm p"
  using assms
proof (induction V arbitrary: a time)
  case Nil
  have "\<not> tm VtList < time" using unsigned_less [of time, where 'a = nat] Nil.prems(2) by (simp add: word_less_nat_alt)
  then show ?case using Nil by (subst vt_search.simps) auto
next
  case (Cons v V)
  then have n: "p_next h a = v" and s: "seg h v V VtList" by auto
  show ?case
  proof (cases "tm v < time")
    case True
    then have t: "time - tm v \<noteq> 0" "unat (time - tm v) = unat time - unat (tm v)" "unat (tm v) \<le> unat time"
      using unat_sub [of "tm v" time] by (auto simp: word_less_nat_alt word_le_nat_alt)
    obtain c d p t where r: "V = c @ d" "vt_search h tm (p_next h v) (time - tm v) = Some (p, t)" "p = hd (d @ [VtList])" "t \<noteq> 0"
      "unat (time - tm v) = sum_list (map (\<lambda>v. unat (tm v)) c) + unat t" "t \<le> tm p" using Cons.IH [OF s Cons.prems(2) t(1)] by blast
    then show ?thesis using True n t by (intro exI [of _ "v # c"] exI [of _ d] exI [of _ p] exI [of _ t]) (subst vt_search.simps, auto)
  next
    case False
    then show ?thesis using n Cons.prems(3) by (intro exI [of _ "[]"] exI [of _ "v # V"] exI [of _ v] exI [of _ time]) (subst vt_search.simps, auto)
  qed
qed

text \<open>A new timer is due after the time given, the others when they were.\<close>

lemma set_timers:
  assumes t: "timers k T V" and x: "x \<in> T" "ThreadVt x \<notin> set V" and n: "time \<noteq> 0" "time \<noteq> 0xffffffff"
    and z: "V \<noteq> [] \<Longrightarrow> vt_time k (hd V) \<noteq> 0"
  shows "\<exists>k' V'. chVTSetI (ThreadVt x) time Wakeup x k = Some k' \<and> timers k' T V' \<and> set V' = insert (ThreadVt x) (set V) \<and>
    due k' V' (ThreadVt x) = unat time \<and> (\<forall>w\<in>set V. due k' V' w = due k V w) \<and> vt_time k' (hd V') \<noteq> 0 \<and>
    k_links k' = k_links k \<and> k_prio k' = k_prio k \<and> k_thd k' = k_thd k \<and> r_current k' = r_current k \<and> s_cnt k' = s_cnt k \<and>
    vt_func k' = (vt_func k)(ThreadVt x := Some Wakeup)"
proof -
  let ?v = "ThreadVt x"
  have sg: "seg (vt_links k) VtList V VtList" and d: "distinct V" "VtList \<notin> set V" using timers_ring [OF t] by (auto simp: ring_def)
  obtain a b p tt where s: "V = a @ b" "vt_search (vt_links k) (vt_time k) (p_next (vt_links k) VtList) time = Some (p, tt)"
    "p = hd (b @ [VtList])" "tt \<noteq> 0" "unat time = sum_list (deltas k a) + unat tt" "tt \<le> vt_time k p"
    using vt_search_ok [where tm = "vt_time k", OF sg timers_end [OF t] n(1)] unfolding deltas_def by blast
  let ?V = "a @ ?v # b"
  define k' where "k' = k\<lparr>vt_par := (vt_par k)(?v := x), vt_func := (vt_func k)(?v := Some Wakeup), vt_links := link_before ?v p (vt_links k),
    vt_time := (if p \<noteq> VtList then (vt_time k)(?v := tt, p := vt_time k p - tt) else (vt_time k)(?v := tt))\<rparr>"
  have pb: "p \<noteq> VtList \<longleftrightarrow> b \<noteq> []" "p \<noteq> ?v" using s d x(2) by (cases b; auto)+
  have run: "chVTSetI ?v time Wakeup x k = Some k'"
    using s(2) pb(2) by (simp add: chVTSetI_def Let_def k'_def)
  have tv: "vt_time k' ?v = tt" using pb(2) by (simp add: k'_def)
  have ta: "vt_time k' w = vt_time k w" if "w \<in> set a" for w using that s(1,3) d x(2) by (cases b) (auto simp: k'_def)
  have da: "deltas k' a = deltas k a" using ta by (rule deltas_cong)
  have tb: "unat (vt_time k' w) + unat tt = unat (vt_time k w)" "deltas k' c = deltas k c" if "b = w # c" for w c
  proof -
    have "unat tt \<le> unat (vt_time k w)" using s(3,6) that by (simp add: word_le_nat_alt)
    then show "unat (vt_time k' w) + unat tt = unat (vt_time k w)" using s(3,6) that pb by (simp add: k'_def unat_sub)
    show "deltas k' c = deltas k c" using that s(1,3) d x(2) by (intro deltas_cong) (auto simp: k'_def)
  qed
  have sum: "sum_list (deltas k' ?V) = (if b = [] then unat time else sum_list (deltas k V))"
  proof (cases b)
    case (Cons w c)
    then show ?thesis using tb(1) [OF Cons] tb(2) [OF Cons] da tv s(1) by simp
  qed (use s da tv in simp)
  have small: "unat time < 2 ^ 32 - 1" using n(2) unsigned_less [of time, where 'a = nat] by (simp add: word_unat_eq_iff)
  have dV: "distinct ?V" using d x(2) s(1) by auto
  have "timers k' T ?V" unfolding timers_def
  proof (intro conjI)
    have "ring (link_before ?v (hd (b @ [VtList])) (vt_links k)) VtList ?V"
      using timers_ring [OF t] x(2) s(1) by (intro ring_insert_mid) auto
    then show "ring (vt_links k') VtList ?V" using s(3) by (simp add: k'_def)
    show "\<forall>w\<in>set ?V. vt_func k' w = Some Wakeup \<and> w \<in> ThreadVt ` T"
      using timers_func [OF t] timers_thread [OF t] x(1) s(1) by (auto simp: k'_def)
    show "\<forall>u. ThreadVt u \<in> set ?V \<longrightarrow> vt_par k' (ThreadVt u) = u" using timers_par [OF t] s(1) by (auto simp: k'_def)
    show "vt_time k' VtList = 0xffffffff" using timers_end [OF t] by (simp add: k'_def)
    show "sum_list (deltas k' ?V) < 2 ^ 32 - 1" using sum small timers_sum [OF t] by simp
  qed
  moreover have "due k' ?V ?v = unat time" using due_split [OF dV, of k'] da tv s(5) by simp
  moreover have "due k' ?V w = due k V w" if wV: "w \<in> set V" for w
  proof (cases "w \<in> set a")
    case True
    then obtain a1 a2 where a: "a = a1 @ w # a2" by (auto dest: split_list)
    have "deltas k' a1 = deltas k a1" using ta a by (intro deltas_cong) auto
    then show ?thesis using due_split [of a1 w "a2 @ ?v # b" k'] due_split [of a1 w "a2 @ b" k] dV d ta [OF True] a s(1) by simp
  next
    case False
    then obtain b1 b2 where b: "b = b1 @ w # b2" using wV s(1) by (auto dest: split_list)
    have l: "due k' ?V w = sum_list (deltas k' (a @ ?v # b1)) + unat (vt_time k' w)"
      using due_split [of "a @ ?v # b1" w b2 k'] dV b by simp
    have r: "due k V w = sum_list (deltas k (a @ b1)) + unat (vt_time k w)" using due_split [of "a @ b1" w b2 k] d b s(1) by simp
    show ?thesis
    proof (cases b1)
      case Nil
      then show ?thesis using l r tb(1) [of w b2] b da tv by simp
    next
      case (Cons u c)
      then have c: "unat (vt_time k' u) + unat tt = unat (vt_time k u)" "deltas k' (c @ w # b2) = deltas k (c @ w # b2)"
        using tb [of u "c @ w # b2"] b by auto
      then have "deltas k' c = deltas k c" "unat (vt_time k' w) = unat (vt_time k w)" by (simp_all add: deltas_def)
      then show ?thesis using l r c(1) Cons da tv by simp
    qed
  qed
  moreover have "vt_time k' (hd ?V) \<noteq> 0" using tv s(4) ta z s(1) by (cases a) auto
  ultimately show ?thesis using run s(1) by (intro exI [of _ k'] exI [of _ ?V]) (auto simp: k'_def)
qed

end
