(* ===== verification/Ch_Safe.thy ===== *)
theory Ch_Safe
  imports Ch_Sched
begin

text \<open>
  The kernel calls keep the kernel's invariant and return.
\<close>

subsection \<open>Threads\<close>

lemma kinv_cur: "kinv k T S Z L V \<Longrightarrow> r_current k \<in> T"
  using base_sub [of k T S L V "{r_current k}"] by (simp add: kinv_def)

lemma kinv_base: "kinv k T S Z L V \<Longrightarrow> base k T S L V {r_current k}"
  by (simp add: kinv_def)

lemma kinv_settled: "kinv k T S Z L V \<Longrightarrow> settled k T S Z L V {r_current k}"
  by (simp add: kinv_def settled_def)

lemma kinv_no_timer: "kinv k T S Z L V \<Longrightarrow> ThreadVt (r_current k) \<notin> set V"
  using base_loose [of k T S L V "{r_current k}" "r_current k"] by (auto simp: kinv_def loose_ok_def resting_def)

text \<open>The running thread settles in a state without a queue.\<close>

lemma plain_running:
  assumes k: "running k T S Z L V {}" and i: "r_current k \<noteq> idle_thread" and h: "home ((k_thd k (r_current k))\<lparr>p_state := st, p_ctx := r\<rparr>) = None" "st \<noteq> READY"
    and w: "waiting T S ((k_thd k (r_current k))\<lparr>p_state := st, p_ctx := r\<rparr>) (L (MsgQueue (r_current k)) = []) (vt_func k (ThreadVt (r_current k)) \<noteq> None) False"
  shows "\<exists>L' V'. kinv (chSchGoSleepS st r k) T S Z L' V'"
proof (rule sleep_ok [OF _ h(2)])
  let ?c = "r_current k"
  have b: "base k T S L V {?c}" and st: "settled k T S Z L V {?c}" using running_base [OF k] k by (simp_all add: running_def)
  have nt: "ThreadVt ?c \<notin> set V" using base_loose [OF b, of ?c] k by (auto simp: running_def loose_ok_def resting_def)
  let ?k = "set_ctx ?c r (set_state ?c st k)"
  have th: "k_thd ?k = (k_thd k)(?c := (k_thd k ?c)\<lparr>p_state := st, p_ctx := r\<rparr>)" by (simp add: set_defs)
  have "base ?k T S L V ({?c} - {?c})"
  proof (rule settle_base [OF b _ i _ _ th h(1)])
    show "status_ok ?k T S L V ?c" using w nt by (simp add: status_ok_def th) (simp add: set_defs)
  qed (auto simp: set_defs)
  then show "settled ?k T S Z L V {}" by (intro settled_rest [OF st]) (auto simp: set_defs)
qed

lemma sleep_plain:
  assumes "kinv k T S Z L V" "r_current k \<noteq> idle_thread" "home ((k_thd k (r_current k))\<lparr>p_state := st, p_ctx := r\<rparr>) = None" "st \<noteq> READY"
    "waiting T S ((k_thd k (r_current k))\<lparr>p_state := st, p_ctx := r\<rparr>) (L (MsgQueue (r_current k)) = []) (vt_func k (ThreadVt (r_current k)) \<noteq> None) False"
  shows "\<exists>L' V'. kinv (chSchGoSleepS st r k) T S Z L' V'"
  using assms by (intro plain_running [of k T S Z L V]) (simp_all add: kinv_running)

lemma chMsgWait_ok:
  assumes k: "kinv k T S Z L V" and i: "r_current k \<noteq> idle_thread"
  shows "\<exists>L' V'. kinv (chMsgWait k) T S Z L' V'"
proof -
  let ?c = "r_current k"
  have "ring (k_links k) (MsgQueue ?c) (L (MsgQueue ?c))" using queues_ring [OF base_queues [OF kinv_base [OF k]]] kinv_cur [OF k] by simp
  then have p: "chMsgIsPendingI ?c k \<longleftrightarrow> L (MsgQueue ?c) \<noteq> []" by (cases "L (MsgQueue ?c)") (auto simp: chMsgIsPendingI_def ring_def)
  show ?thesis
  proof (cases "L (MsgQueue ?c) = []")
    case True
    then show ?thesis using sleep_plain [OF k i, where st = WTMSG and r = R_msgWait] p by (simp add: chMsgWait_def home_def waiting_def)
  next
    case False
    then show ?thesis using take_msg_switched [of k T S Z L V] k p by (auto simp: chMsgWait_def kinv_switched)
  qed
qed

text \<open>A timed sleep of the running thread: its timer is set, and it is placed by \<open>f\<close>.\<close>

lemma chThdSleep_ok:
  assumes k: "kinv k T S Z L V" and i: "r_current k \<noteq> idle_thread" and n: "time \<noteq> 0"
  shows "\<exists>k' L' V'. chThdSleep time k = Some k' \<and>
    kinv k' T S (if time = TIME_INFINITE then Z else Z(r_current k \<mapsto> unat time)) L' V'"
proof (cases "time = TIME_INFINITE")
  case True
  then show ?thesis using sleep_plain [OF k i, where st = SLEEPING and r = R_rdymsg]
    by (simp add: chThdSleep_def chThdSleepS_def chSchGoSleepTimeoutS_def home_def waiting_def)
next
  case False
  let ?c = "r_current k"
  have t: "timers k T V" and z: "V \<noteq> [] \<Longrightarrow> vt_time k (hd V) \<noteq> 0" using k by (auto simp: kinv_def)
  have n2: "time \<noteq> 0xffffffff" using False by (simp add: TIME_INFINITE_def)
  obtain k1 V1 where s: "chVTSetI (ThreadVt ?c) time Wakeup ?c k = Some k1" "timers k1 T V1" "set V1 = insert (ThreadVt ?c) (set V)"
    "due k1 V1 (ThreadVt ?c) = unat time" "\<And>w. w \<in> set V \<Longrightarrow> due k1 V1 w = due k V w" "vt_time k1 (hd V1) \<noteq> 0"
    "k_links k1 = k_links k" "k_prio k1 = k_prio k" "k_thd k1 = k_thd k" "r_current k1 = ?c" "s_cnt k1 = s_cnt k"
    "vt_func k1 = (vt_func k)(ThreadVt ?c := Some Wakeup)"
    using set_timers [OF t kinv_cur [OF k] kinv_no_timer [OF k] n n2 z] by blast
  let ?p = "set_ctx ?c R_timeout (set_state ?c SLEEPING k1)"
  have th: "k_thd ?p = (k_thd k)(?c := (k_thd k ?c)\<lparr>p_state := SLEEPING, p_ctx := R_timeout\<rparr>)" using s by (simp add: set_defs)
  have "base ?p T S L V1 ({?c} - {?c})"
  proof (rule settle_base [OF kinv_base [OF k] _ i _ _ th])
    show "status_ok ?p T S L V1 ?c" using s(3,12) by (simp add: status_ok_def th waiting_def) (simp add: set_defs)
  qed (use s in \<open>auto simp: set_defs home_def\<close>)
  moreover have "asleep ?p V1 {} (Z(?c \<mapsto> unat time))"
  proof -
    have a: "asleep k V {?c} Z" using k by (simp add: kinv_def)
    have "due ?p V1 w = due k1 V1 w" for w by (rule due_cong) (simp add: set_defs)
    then show ?thesis using a s(3-5) by (auto simp: asleep_def th)
  qed
  moreover have "timers ?p T V1" using timers_cong [OF s(2), of ?p] by (simp add: set_defs)
  ultimately have "settled ?p T S (Z(?c \<mapsto> unat time)) L V1 {}"
    using k s(6,11) by (auto simp: settled_def kinv_def counted_def set_defs)
  then have "\<exists>L' V'. kinv (chSchGoSleepS SLEEPING R_timeout k1) T S (Z(?c \<mapsto> unat time)) L' V'"
    using sleep_ok [of k1 R_timeout SLEEPING] s(10) by simp
  then show ?thesis using s(1) False by (simp add: chThdSleep_def chThdSleepS_def chSchGoSleepTimeoutS_def)
qed

lemma chThdSleepUntil_ok:
  assumes k: "kinv k T S Z L V" and i: "r_current k \<noteq> idle_thread"
  shows "\<exists>k' L' V'. chThdSleepUntil time k = Some k' \<and>
    kinv k' T S (if time - chTimeNow k \<in> {0, TIME_INFINITE} then Z else Z(r_current k \<mapsto> unat (time - chTimeNow k))) L' V'"
  using chThdSleep_ok [OF assms, of "time - chTimeNow k"] k
  by (auto simp: chThdSleepUntil_def Let_def chThdSleep_def word_gt_0)

subsection \<open>Waiting in a queue\<close>

text \<open>The running thread is linked at the end of a queue and sleeps.\<close>

lemma queued_running:
  assumes k: "running k T S Z L V {}" and i: "r_current k \<noteq> idle_thread" and q: "q \<in> heads T S" "q \<noteq> Rlist" "\<not> single q" "q \<notin> MsgQueue ` T"
    and k': "k_thd k' = (k_thd k)(r_current k := rr)" "k_prio k' = k_prio k" "vt_links k' = vt_links k" "vt_time k' = vt_time k" "vt_func k' = vt_func k"
      "vt_par k' = vt_par k" "k_links k' = queue_insert (r_current k) q (k_links k)" "r_current k' = r_current k"
    and h: "home (rr\<lparr>p_state := st, p_ctx := r\<rparr>) = Some q" "st \<noteq> READY"
    and w: "waiting T S (rr\<lparr>p_state := st, p_ctx := r\<rparr>) (L (MsgQueue (r_current k)) = []) (vt_func k (ThreadVt (r_current k)) \<noteq> None) False"
    and c: "counted k' S (L(q := L q @ [r_current k]))"
  shows "\<exists>L' V'. kinv (chSchGoSleepS st r k') T S Z L' V'"
proof (rule sleep_ok [OF _ h(2)])
  let ?c = "r_current k" let ?p = "set_ctx (r_current k') r (set_state (r_current k') st k')"
  have b: "base k T S L V {?c}" using running_base [OF k] by simp
  have cT: "?c \<in> T" using base_sub [OF b] by simp
  have nt: "ThreadVt ?c \<notin> set V" using base_loose [OF b, of ?c] k by (auto simp: running_def loose_ok_def resting_def)
  have out: "?c \<notin> set (L p)" if "p \<in> heads T S" for p using loose_nowhere [OF b _ that] by simp
  have th: "k_thd ?p = (k_thd k)(?c := rr\<lparr>p_state := st, p_ctx := r\<rparr>)" using k' by (simp add: set_defs)
  have nh: "?c \<notin> heads T S" using base_not_head [OF b cT] .
  then have lk: "queues single (k_links ?p) (heads T S) (L(q := L q @ [?c]))"
    using ins.family [OF base_queues [OF b] _ q(1), of ?c "L q @ [?c]"] q out k'(7) by (auto simp: set_defs)
  have "base ?p T S (L(q := L q @ [?c])) V ({?c} - {?c} \<union> {})"
  proof (rule place_base [OF b _ i _ _ th h(1) q(1,2) _ lk])
    have "MsgQueue ?c \<noteq> q" using q(4) cT by auto
    then show "status_ok ?p T S (L(q := L q @ [?c])) V ?c" using w nt k'(5) by (simp add: status_ok_def th) (simp add: set_defs)
  qed (use k' q(4) in \<open>auto simp: set_defs\<close>)
  moreover have "timers ?p T V" using k k' timers_cong [of k T V ?p] by (simp add: set_defs running_def settled_def)
  moreover have "asleep ?p V {} Z"
    using k k' due_cong [of ?p k V] by (auto simp: running_def settled_def asleep_def th set_defs)
  ultimately show "settled ?p T S Z (L(q := L q @ [?c])) V {}" using k k' c by (auto simp: settled_def running_def settled_def counted_def set_defs)
qed

lemma sem_heads: "base k T S L V X \<Longrightarrow> s \<in> S \<Longrightarrow> s \<in> heads T S \<and> s \<noteq> Rlist \<and> \<not> single s \<and> s \<notin> MsgQueue ` T"
  using base_sems [of k T S L V X] by auto

lemma counted_wait: "counted k S L \<Longrightarrow> s \<in> S \<Longrightarrow> s_cnt k' = (s_cnt k)(s := s_cnt k s - 1) \<Longrightarrow> s_cnt k s - 1 < 0 \<Longrightarrow> counted k' S (L(s := L s @ [c]))"
  by (auto simp: counted_def)

lemma kinv_count:
  assumes k: "kinv k T S Z L V" and c: "counted k' S L" and k': "k' = k\<lparr>s_cnt := f\<rparr>"
  shows "kinv k' T S Z L V"
proof -
  have "base k' T S L V {r_current k}" using k' by (intro base_cong [OF kinv_base [OF k]]) auto
  moreover have "asleep k' V {r_current k} Z" using k k' due_cong [of k' k] by (simp add: kinv_def asleep_def)
  moreover have "timers k' T V" using k k' timers_cong [of k T V k'] by (simp add: kinv_def)
  ultimately show ?thesis using k c k' by (simp add: kinv_def)
qed

lemma chSemWait_ok:
  assumes k: "kinv k T S Z L V" and i: "r_current k \<noteq> idle_thread" and s: "s \<in> S"
  shows "\<exists>L' V'. kinv (chSemWait s k) T S Z L' V'"
proof -
  let ?c = "r_current k" let ?k1 = "chSemFastWaitI s k"
  have cn: "counted k S L" and kr: "running k T S Z L V {}" using k by (simp_all add: kinv_def kinv_running running_def settled_def)
  show ?thesis
  proof (cases "s_cnt k s - 1 < 0")
    case True
    let ?k2 = "set_u ?c (U_obj s) ?k1" let ?k3 = "?k2\<lparr>k_links := queue_insert ?c s (k_links ?k2)\<rparr>"
    have "\<exists>L' V'. kinv (chSchGoSleepS WTSEM R_rdymsg ?k3) T S Z L' V'"
    proof (rule queued_running [OF kr i, where q = s and rr = "(k_thd k ?c)\<lparr>p_u := U_obj s\<rparr>"])
      show "counted ?k3 S (L(s := L s @ [?c]))" using counted_wait [OF cn s _ True] by (simp add: set_defs chSemFastWaitI_def)
    qed (use sem_heads [OF kinv_base [OF k] s] s in \<open>auto simp: set_defs chSemFastWaitI_def home_def waiting_def\<close>)
    then show ?thesis using True by (simp add: chSemWait_def chSemWaitS_def Let_def chSemFastWaitI_def)
  next
    case False
    then have "counted ?k1 S L" using cn s by (auto simp: counted_def chSemFastWaitI_def)
    then have "kinv ?k1 T S Z L V" by (rule kinv_count [OF k]) (simp add: chSemFastWaitI_def)
    then show ?thesis using kinv_set_ret [of ?k1 T S Z L V] False
      by (auto simp: chSemWait_def chSemWaitS_def Let_def chSemFastWaitI_def)
  qed
qed

subsection \<open>Messages\<close>

lemma chSchReadyI_upd: "x \<noteq> c \<Longrightarrow> chSchReadyI x (upd c f k) = map_option (upd c f) (chSchReadyI x k)"
proof -
  assume n: "x \<noteq> c"
  have "set_state x READY (upd c f k) = upd c f (set_state x READY k)" using n by (simp add: set_defs upd_def fun_upd_twist)
  then show ?thesis
    by (cases "ready_search (k_prio k) (k_links k) (k_prio k x) Rlist") (simp_all add: chSchReadyI_def set_defs Let_def upd_def)
qed

lemma chMsgSend_ok:
  assumes k: "kinv k T S Z L V" and i: "r_current k \<noteq> idle_thread" and t: "t \<in> T"
  shows "\<exists>k' L' V'. chMsgSend t msg k = Some k' \<and> kinv k' T S Z L' V'"
proof -
  let ?c = "r_current k" let ?q = "MsgQueue t"
  let ?k1 = "set_u ?c (U_obj ?q) (upd ?c (\<lambda>t. t\<lparr>p_msg := msg\<rparr>) k)" let ?k2 = "?k1\<lparr>k_links := queue_insert ?c ?q (k_links ?k1)\<rparr>"
  let ?f = "\<lambda>t. t\<lparr>p_state := SNDMSGQ, p_ctx := R_rdymsg\<rparr>" let ?p = "upd ?c ?f ?k2" let ?L = "L(?q := L ?q @ [?c])"
  let ?Y = "if state_of k t = WTMSG then {t} else {}"
  have b: "base k T S L V {?c}" by (rule kinv_base [OF k])
  have cu: "p_state (k_thd k ?c) = CURRENT" and cT: "?c \<in> T" using k kinv_cur [OF k] by (simp_all add: kinv_def)
  have out: "?c \<notin> set (L p)" if "p \<in> heads T S" for p using loose_nowhere [OF b _ that] by simp
  have nh: "?c \<notin> heads T S" using base_not_head [OF b cT] .
  moreover have "?c \<noteq> ?q" using nh heads_simps(2) [OF t, of S] by metis
  ultimately have lk: "queues single (queue_insert ?c ?q (k_links k)) (heads T S) ?L"
    using ins.family [OF base_queues [OF b], of ?q ?c "L ?q @ [?c]"] t out by simp
  have th: "k_thd ?p = (k_thd k)(?c := ?f ((k_thd k ?c)\<lparr>p_msg := msg, p_u := U_obj ?q\<rparr>))" by (simp add: set_defs)
  have tW: "state_of k t = WTMSG \<Longrightarrow> t \<noteq> ?c" using cu by (auto simp: state_of_def)
  have b1: "base ?p T S ?L V ({?c} - {?c} \<union> ?Y)"
  proof (rule place_base [OF b _ i _ _ th])
    show "status_ok ?p T S ?L V ?c" using t kinv_no_timer [OF k] by (simp add: status_ok_def th waiting_def set_defs)
    show "u \<in> T \<and> u \<notin> {?c} \<and> home (k_thd k u) = None \<and> loose_ok ?p ?L V u" if "u \<in> ?Y" for u
    proof -
      have u: "u = t" "state_of k t = WTMSG" using that by (auto split: if_splits)
      have "status_ok k T S L V t" using base_status [OF b t] tW [OF u(2)] by simp
      then show ?thesis using t tW u by (auto simp: state_of_def home_def status_ok_def waiting_def loose_ok_def resting_def th set_defs)
    qed
    show "L ?q \<noteq> [] \<or> p_ctx (k_thd k u) \<noteq> R_msgWait" if "?q = MsgQueue u" "u \<in> T" "u \<notin> {?c}" "u \<notin> ?Y" for u
      using base_status [OF b that(2,3)] that by (auto simp: status_ok_def waiting_def state_of_def split: if_splits)
  qed (use t lk in \<open>auto simp: set_defs home_def\<close>)
  have s1: "settled ?p T S Z ?L V ?Y"
  proof (rule settled_rest [OF kinv_settled [OF k]])
    show "?L s = L s" if "s \<in> S" for s using sem_heads [OF b that] t by auto
    show "base ?p T S ?L V ?Y" using b1 by simp
  qed (auto simp: set_defs state_of_def split: if_splits)
  have fin: "\<exists>L' V'. kinv (chSchGoSleepS SNDMSGQ R_rdymsg k') T S Z L' V'" if "r_current k' = ?c" "settled (upd ?c ?f k') T S Z L1 V {}" for k' L1
  proof -
    have "upd ?c ?f k' = set_ctx ?c R_rdymsg (set_state ?c SNDMSGQ k')" by (simp add: set_defs upd_def)
    then show ?thesis using sleep_ok [of k' R_rdymsg SNDMSGQ] that by simp
  qed
  show ?thesis
  proof (cases "state_of k t = WTMSG")
    case True
    obtain p' h where p': "chSchReadyI t ?p = Some p'" "settled p' T S Z (?L(Rlist := prio_ins (k_prio ?p) t (?L Rlist))) V {}"
      using ready_settled [OF s1, of t] True by auto
    then obtain k3 where k3: "chSchReadyI t ?k2 = Some k3" "p' = upd ?c ?f k3" using chSchReadyI_upd [OF tW [OF True], of ?f ?k2] by auto
    have "r_current k3 = ?c" using k3(1) by (auto simp: chSchReadyI_def set_defs Let_def bind_eq_Some_conv)
    moreover have "state_of ?k2 t = WTMSG" using True tW by (simp add: state_of_def set_defs)
    ultimately show ?thesis using fin [of k3] p'(2) k3 by (auto simp: chMsgSend_def Let_def)
  next
    case False
    then have "state_of ?k2 t \<noteq> WTMSG" by (auto simp: state_of_def set_defs)
    then show ?thesis using fin [of ?k2] s1 False by (auto simp: chMsgSend_def Let_def set_defs)
  qed
qed

text \<open>A thread without a queue is taken in hand.\<close>

lemma hand_base:
  assumes b: "base k T S L V X" and n: "n \<in> T" "n \<notin> X" "home (k_thd k n) = None" "p_state (k_thd k n) \<noteq> WTMSG"
  shows "base k T S L V (insert n X)"
proof (rule baseI)
  show "placed k T S L (insert n X)" by (rule placed_loosen [OF base_placed [OF b] n(3)])
  have "loose_ok k L V n" using base_status [OF b n(1,2)] n(4) by (auto simp: loose_ok_def resting_def status_ok_def waiting_def)
  then show "loose_ok k L V u" if "u \<in> insert n X" for u using that base_loose [OF b, of u] by blast
  show "status_ok k T S L V u" if "u \<in> T" "u \<notin> insert n X" for u using base_status [OF b that(1)] that(2) by simp
  show "insert n X \<subseteq> T" using base_sub [OF b] n(1) by simp
  show "idle_thread \<in> insert n X \<or> p_state (k_thd k idle_thread) = READY" using base_idle [OF b] by auto
qed (use baseD [OF b] in simp_all)

lemma in_hand:
  assumes k: "kinv k T S Z L V" and n: "n \<in> T" "p_state (k_thd k n) \<in> {SNDMSG, SUSPENDED}"
  shows "running k T S Z L V {n}"
proof -
  let ?c = "r_current k"
  have nc: "n \<noteq> ?c" using k n(2) by (auto simp: kinv_def)
  have "base k T S L V (insert n {?c})" using n nc by (intro hand_base [OF kinv_base [OF k]]) (auto simp: home_def)
  then have "settled k T S Z L V (insert n {?c})" using n(2) by (intro settled_rest [OF kinv_settled [OF k]]) auto
  then show ?thesis using k nc by (simp add: running_def kinv_def insert_commute)
qed

lemma kinv_top: "kinv k T S Z L V \<Longrightarrow> highest k L"
  by (simp add: kinv_running)

lemma chMsgRelease_ok:
  assumes k: "kinv k T S Z L V" and n: "n \<in> T" "state_of k n = SNDMSG"
  shows "\<exists>k' L' V'. chMsgRelease n msg k = Some k' \<and> kinv k' T S Z L' V'"
proof -
  let ?k = "set_ret (r_current k) V_unit k"
  have r: "kinv ?k T S Z L V" by (rule kinv_set_ret [OF k])
  moreover have "p_state (k_thd ?k n) = SNDMSG" using n(2) by (auto simp: state_of_def set_defs)
  ultimately show ?thesis using chSchWakeupS_ok [OF in_hand [OF r n(1)] kinv_top [OF r], of msg] by (auto simp: chMsgRelease_def)
qed

lemma chThdResume_ok:
  assumes k: "kinv k T S Z L V" and n: "n \<in> T" "state_of k n = SUSPENDED"
  shows "\<exists>k' L' V'. chThdResume n k = Some k' \<and> kinv k' T S Z L' V'"
proof -
  let ?k = "set_ret (r_current k) (V_thd n) k"
  have r: "kinv ?k T S Z L V" by (rule kinv_set_ret [OF k])
  moreover have "p_state (k_thd ?k n) = SUSPENDED" using n(2) by (auto simp: state_of_def set_defs)
  ultimately show ?thesis using chSchWakeupS_ok [OF in_hand [OF r n(1)] kinv_top [OF r], of RDY_OK] by (auto simp: chThdResume_def)
qed

subsection \<open>Signalling a semaphore\<close>

text \<open>One thread is taken off the queue, from either end, and counted.\<close>

lemma take_sem:
  assumes b: "base k T S L V X" and s: "s \<in> S" and ls: "L s = as @ t # bs"
    and h: "queues single h (heads T S) (L(s := as @ bs))"
  shows "base (k\<lparr>k_links := h\<rparr>) T S (L(s := as @ bs)) V (insert t X) \<and> t \<notin> X \<and> t \<in> T \<and> p_state (k_thd k t) \<noteq> SLEEPING"
proof -
  have q: "s \<in> heads T S" "s \<noteq> Rlist" "\<not> single s" "s \<notin> MsgQueue ` T" using sem_heads [OF b s] by auto
  have d: "distinct (L s)" using queues_ring [OF base_queues [OF b] q(1,3)] by (simp add: ring_def)
  have t: "t \<in> T" "t \<notin> X" "home (k_thd k t) = Some s" using placed_iff [OF base_placed [OF b] q(1), of t] ls by simp_all
  have "base (k\<lparr>k_links := h\<rparr>) T S (L(s := as @ bs)) V (insert t X)"
    using ls d q h by (intro remove_base [OF b]) auto
  then show ?thesis using t by (auto simp: home_def)
qed

lemma fifo_sem:
  assumes b: "base k T S L V X" and s: "s \<in> S" and ls: "L s = t # ts"
  shows "fst (fifo_remove s (k_links k)) = t \<and> base (k\<lparr>k_links := snd (fifo_remove s (k_links k))\<rparr>) T S (L(s := ts)) V (insert t X) \<and>
    t \<notin> X \<and> t \<in> T \<and> p_state (k_thd k t) \<noteq> SLEEPING"
proof -
  have q: "s \<in> heads T S" "\<not> single s" using sem_heads [OF b s] by auto
  have qs: "queues single (k_links k) (heads T S) L" by (rule base_queues [OF b])
  have rg: "ring (k_links k) s (t # ts)" using queues_ring [OF qs q] ls by simp
  have t: "t \<in> T" "home (k_thd k t) = Some s" using placed_iff [OF base_placed [OF b] q(1), of t] ls by simp_all
  have other: "t \<notin> set (L r)" if "r \<in> heads T S" "r \<noteq> s" for r using placed_iff [OF base_placed [OF b] that(1)] that(2) t(2) by simp
  have "queues single (snd (fifo_remove s (k_links k))) (heads T S) (L(s := [] @ ts))"
    using fifo.family [OF qs _ q(1), of t ts] q(2) ls base_not_head [OF b t(1)] other by simp
  then show ?thesis using take_sem [OF b s, of "[]" t ts] ls ring_fifo [OF rg] by simp
qed

lemma kinv_signal:
  assumes r: "running k T S Z L V {}" and s: "s \<in> S" and c: "s_cnt k s + 1 \<le> 0"
  shows "\<exists>t ts. L s = t # ts \<and> fst (fifo_remove s (k_links k)) = t \<and>
    running ((chSemFastSignalI s k)\<lparr>k_links := snd (fifo_remove s (k_links k))\<rparr>) T S Z (L(s := ts)) V {t} \<and> (L(s := ts)) Rlist = L Rlist"
proof -
  let ?c = "r_current k" let ?h = "snd (fifo_remove s (k_links k))"
  have b: "base k T S L V {?c}" and st: "settled k T S Z L V {?c}" using running_base [OF r] r by (simp_all add: running_def)
  have cn: "counted k S L" using st by (simp add: settled_def)
  have "int (length (L s)) > 0" using cn s c by (auto simp: counted_def)
  then obtain t ts where l: "L s = t # ts" by (cases "L s") auto
  have f: "fst (fifo_remove s (k_links k)) = t" "base (k\<lparr>k_links := ?h\<rparr>) T S (L(s := ts)) V {t, ?c}" "t \<noteq> ?c" "p_state (k_thd k t) \<noteq> SLEEPING"
    using fifo_sem [OF b s l] by simp_all
  let ?k = "(chSemFastSignalI s k)\<lparr>k_links := ?h\<rparr>"
  have "base ?k T S (L(s := ts)) V {t, ?c}" by (rule base_cong [OF f(2)]) (simp_all add: chSemFastSignalI_def)
  moreover have "counted ?k S (L(s := ts))" using cn s c l by (auto simp: counted_def chSemFastSignalI_def)
  moreover have "timers ?k T V" using st timers_cong [of k T V ?k] by (simp add: settled_def chSemFastSignalI_def)
  moreover have "asleep ?k V {t, ?c} Z"
    using st f(4) due_cong [of ?k k V] by (auto simp: settled_def asleep_def chSemFastSignalI_def)
  ultimately have "settled ?k T S Z (L(s := ts)) V {t, ?c}" using st by (simp add: settled_def chSemFastSignalI_def)
  then have "running ?k T S Z (L(s := ts)) V {t}" using r f(3) by (simp add: running_def chSemFastSignalI_def insert_commute)
  moreover have "s \<noteq> Rlist" using sem_heads [OF b s] by simp
  ultimately show ?thesis using l f(1) by auto
qed

lemma base_ready_u:
  assumes b: "base k T S L V X" and r: "p_state (k_thd k t) = READY"
  shows "base (set_u t u k) T S L V X"
proof (cases "t \<in> T - X")
  case True
  have ho: "home ((k_thd k t)\<lparr>p_u := u\<rparr>) = home (k_thd k t)" using r by (simp add: home_def)
  show ?thesis
  proof (rule baseI)
    show "placed (set_u t u k) T S L X" by (rule placed_cong [OF base_placed [OF b]]) (auto simp: set_defs ho)
    show "status_ok (set_u t u k) T S L V x" if "x \<in> T" "x \<notin> X" for x
      using base_status [OF b that] r by (auto simp: status_ok_def waiting_def set_defs)
    show "loose_ok (set_u t u k) L V x" if "x \<in> X" for x using base_loose [OF b that] True that by (auto simp: loose_ok_def set_defs)
  qed (use baseD [OF b] in \<open>auto simp: set_defs\<close>)
next
  case False
  show ?thesis by (rule base_cong [OF b]) (use False in \<open>auto simp: set_defs\<close>)
qed

lemma running_set_ret: "running k T S Z L V {} \<Longrightarrow> running (set_ret (r_current k) v k) T S Z L V {}"
proof -
  assume r: "running k T S Z L V {}"
  have "base (set_ret (r_current k) v k) T S L V {r_current k}"
    unfolding set_ret_def using running_base [OF r] by (intro base_upd_simple) auto
  moreover have st: "settled k T S Z L V {r_current k}" using r by (simp add: running_def)
  ultimately have "settled (set_ret (r_current k) v k) T S Z L V {r_current k}"
    by (intro settled_rest [OF st]) (auto simp: set_ret_def)
  then show ?thesis using r by (simp add: running_def set_ret_def)
qed

lemma signal_plain:
  assumes r: "running k T S Z L V {}" and s: "s \<in> S" and c: "\<not> s_cnt k s + 1 \<le> 0"
  shows "running (chSemFastSignalI s k) T S Z L V {}"
proof -
  let ?k = "chSemFastSignalI s k"
  have st: "settled k T S Z L V {r_current k}" using r by (simp add: running_def)
  have "base ?k T S L V {r_current k}" using running_base [OF r] by (rule base_cong) (simp_all add: chSemFastSignalI_def)
  moreover have "counted ?k S L" using st s c by (auto simp: settled_def counted_def chSemFastSignalI_def)
  moreover have "timers ?k T V" using st timers_cong [of k T V ?k] by (simp add: settled_def chSemFastSignalI_def)
  moreover have "asleep ?k V {r_current k} Z" using st due_cong [of ?k k V] by (simp add: settled_def asleep_def chSemFastSignalI_def)
  ultimately show ?thesis using r st by (simp add: running_def settled_def chSemFastSignalI_def)
qed

lemma chSemSignal_ok:
  assumes k: "kinv k T S Z L V" and s: "s \<in> S"
  shows "\<exists>k' L' V'. chSemSignal s k = Some k' \<and> kinv k' T S Z L' V'"
proof -
  let ?k = "set_ret (r_current k) V_unit k"
  have k1: "kinv ?k T S Z L V" by (rule kinv_set_ret [OF k])
  then have r: "running ?k T S Z L V {}" by (simp add: kinv_running)
  show ?thesis
  proof (cases "s_cnt ?k s + 1 \<le> 0")
    case True
    let ?h = "snd (fifo_remove s (k_links ?k))" let ?k2 = "(chSemFastSignalI s ?k)\<lparr>k_links := ?h\<rparr>"
    obtain t ts where t: "fst (fifo_remove s (k_links ?k)) = t" "running ?k2 T S Z (L(s := ts)) V {t}" "(L(s := ts)) Rlist = L Rlist"
      using kinv_signal [OF r s True] by auto
    have "highest ?k2 (L(s := ts))" using kinv_top [OF k1] t(3) by (simp add: highest_def chSemFastSignalI_def)
    then have "\<exists>k' L' V'. chSchWakeupS t RDY_OK ?k2 = Some k' \<and> kinv k' T S Z L' V'" by (rule chSchWakeupS_ok [OF t(2)])
    moreover have "chSemSignal s k = chSchWakeupS t RDY_OK ?k2"
      using True t(1) by (simp add: chSemSignal_def Let_def chSemFastSignalI_def split_beta)
    ultimately show ?thesis by simp
  next
    case False
    have "running (chSemFastSignalI s ?k) T S Z L V {}" by (rule signal_plain [OF r s False])
    moreover have "highest (chSemFastSignalI s ?k) L" using kinv_top [OF k1] by (simp add: highest_def chSemFastSignalI_def)
    ultimately show ?thesis using False by (auto simp: chSemSignal_def Let_def chSemFastSignalI_def kinv_running)
  qed
qed

text \<open>The variants that only make the thread ready, for interrupts and for \<open>chSemSignalWait\<close>.\<close>

lemma signal_ready_ok:
  assumes r: "running k T S Z L V {}" and s: "s \<in> S"
  shows "\<exists>k' L'. signal_ready s k = Some k' \<and> running k' T S Z L' V {} \<and> r_current k' = r_current k"
proof (cases "s_cnt k s + 1 \<le> 0")
  case True
  let ?h = "snd (fifo_remove s (k_links k))" let ?k2 = "(chSemFastSignalI s k)\<lparr>k_links := ?h\<rparr>"
  obtain t ts where t: "fst (fifo_remove s (k_links k)) = t" "running ?k2 T S Z (L(s := ts)) V {t}" using kinv_signal [OF r s True] by auto
  obtain k' L1 h where k': "chSchReadyI t ?k2 = Some k'" "running k' T S Z L1 V {}" "k' = (set_state t READY ?k2)\<lparr>k_links := h\<rparr>"
    using ready_running [OF t(2), of t] by auto
  have b: "base k' T S L1 V {r_current k'}" using running_base [OF k'(2)] by simp
  have nc: "t \<noteq> r_current k" using t(2) by (auto simp: running_def chSemFastSignalI_def)
  have "base (set_u t (U_msg RDY_OK) k') T S L1 V {r_current k'}"
  proof (rule base_ready_u [OF b])
    show "p_state (k_thd k' t) = READY" by (simp add: k'(3) set_defs)
  qed
  moreover have st: "settled k' T S Z L1 V {r_current k'}" using k'(2) by (simp add: running_def)
  ultimately have "settled (set_u t (U_msg RDY_OK) k') T S Z L1 V {r_current k'}"
    by (intro settled_rest [OF st]) (auto simp: set_defs)
  then have "running (set_u t (U_msg RDY_OK) k') T S Z L1 V {}" using k'(2) nc by (auto simp: running_def set_defs)
  then show ?thesis using True t(1) k' by (auto simp: signal_ready_def Let_def chSemFastSignalI_def set_defs split_beta)
next
  case False
  then show ?thesis using signal_plain [OF r s False] by (auto simp: signal_ready_def Let_def chSemFastSignalI_def)
qed

lemma chSemSignalI_ok:
  assumes r: "running k T S Z L V {}" and s: "s \<in> S"
  shows "\<exists>k' L'. chSemSignalI s k = Some k' \<and> running k' T S Z L' V {}"
proof (cases "s_cnt k s + 1 \<le> 0")
  case True
  let ?h = "snd (fifo_remove s (k_links k))" let ?k2 = "(chSemFastSignalI s k)\<lparr>k_links := ?h\<rparr>"
  obtain t ts where t: "fst (fifo_remove s (k_links k)) = t" "running ?k2 T S Z (L(s := ts)) V {t}" using kinv_signal [OF r s True] by auto
  have "running (set_u t (U_msg RDY_OK) ?k2) T S Z (L(s := ts)) V {t}" unfolding set_u_def by (rule running_upd [OF t(2)]) simp_all
  then show ?thesis using ready_running [of "set_u t (U_msg RDY_OK) ?k2" T S Z "L(s := ts)" V "{t}" t] True t(1)
    by (auto simp: chSemSignalI_def Let_def chSemFastSignalI_def split_beta)
next
  case False
  then show ?thesis using signal_plain [OF r s False] by (auto simp: chSemSignalI_def Let_def chSemFastSignalI_def)
qed

lemma chSemAddCounterI_ok:
  assumes "running k T S Z L V {}" "s \<in> S"
  shows "\<exists>k' L'. chSemAddCounterI s n k = Some k' \<and> running k' T S Z L' V {}"
  using assms
proof (induction n arbitrary: k L)
  case (Suc n)
  then show ?case using signal_ready_ok [OF Suc.prems] by fastforce
qed auto

subsection \<open>Waiting with a timeout\<close>

lemma timed_base:
  assumes b: "base k T S L V {c}" and m: "set V1 = insert (ThreadVt c) (set V)"
  shows "base (set_ctx c R_timeout (k\<lparr>vt_func := (vt_func k)(ThreadVt c := Some Wakeup)\<rparr>)) T S L V1 {c}"
proof (rule base_upd [OF b])
  show "loose_ok (set_ctx c R_timeout (k\<lparr>vt_func := (vt_func k)(ThreadVt c := Some Wakeup)\<rparr>)) L V1 c"
    using m by (simp add: loose_ok_def resting_def set_defs)
qed (use m in \<open>auto simp: set_defs\<close>)

lemma chSemWaitTimeout_ok:
  assumes k: "kinv k T S Z L V" and i: "r_current k \<noteq> idle_thread" and s: "s \<in> S"
  shows "\<exists>k' L' V'. chSemWaitTimeout s time k = Some k' \<and> kinv k' T S Z L' V'"
proof -
  let ?c = "r_current k" let ?k1 = "chSemFastWaitI s k"
  let ?k2 = "set_u ?c (U_obj s) ?k1" let ?k3 = "?k2\<lparr>k_links := queue_insert ?c s (k_links ?k2)\<rparr>"
  have cn: "counted k S L" and t: "timers k T V" and z: "V \<noteq> [] \<Longrightarrow> vt_time k (hd V) \<noteq> 0" using k by (simp_all add: kinv_def)
  have b: "base k T S L V {?c}" by (rule kinv_base [OF k])
  consider (free) "\<not> s_cnt k s - 1 < 0" | (now) "s_cnt k s - 1 < 0" "time = TIME_IMMEDIATE"
    | (ever) "s_cnt k s - 1 < 0" "time = TIME_INFINITE" | (timed) "s_cnt k s - 1 < 0" "time \<noteq> 0" "time \<noteq> 0xffffffff"
    by (auto simp: TIME_IMMEDIATE_def TIME_INFINITE_def)
  then show ?thesis
  proof cases
    case free
    then show ?thesis using chSemWait_ok [OF k i s] by (simp add: chSemWait_def chSemWaitS_def chSemWaitTimeout_def chSemWaitTimeoutS_def Let_def chSemFastWaitI_def)
  next
    case ever
    then show ?thesis using chSemWait_ok [OF k i s]
      by (simp add: chSemWait_def chSemWaitS_def chSemWaitTimeout_def chSemWaitTimeoutS_def Let_def chSemFastWaitI_def chSchGoSleepTimeoutS_def TIME_IMMEDIATE_def TIME_INFINITE_def)
  next
    case now
    have "chSemFastSignalI s ?k1 = k" by (simp add: chSemFastSignalI_def chSemFastWaitI_def)
    then show ?thesis using kinv_set_ret [OF k] now by (auto simp: chSemWaitTimeout_def chSemWaitTimeoutS_def Let_def chSemFastWaitI_def)
  next
    case timed
    have "timers ?k3 T V" using timers_cong [OF t, of ?k3] by (simp add: set_defs chSemFastWaitI_def)
    then obtain k4 V1 where f: "chVTSetI (ThreadVt ?c) time Wakeup ?c ?k3 = Some k4" "timers k4 T V1" "set V1 = insert (ThreadVt ?c) (set V)"
      "\<And>w. w \<in> set V \<Longrightarrow> due k4 V1 w = due ?k3 V w" "vt_time k4 (hd V1) \<noteq> 0"
      "k_links k4 = k_links ?k3" "k_prio k4 = k_prio ?k3" "k_thd k4 = k_thd ?k3" "r_current k4 = ?c" "s_cnt k4 = s_cnt ?k3"
      "vt_func k4 = (vt_func ?k3)(ThreadVt ?c := Some Wakeup)"
      using set_timers [of ?k3 T V ?c time] timed z kinv_cur [OF k] kinv_no_timer [OF k] by (auto simp: set_defs chSemFastWaitI_def)
    let ?kA = "set_ctx ?c R_timeout (k\<lparr>vt_func := (vt_func k)(ThreadVt ?c := Some Wakeup)\<rparr>)"
    let ?p = "set_ctx ?c R_timeout (set_state ?c WTSEM k4)" let ?L = "L(s := L s @ [?c])"
    have bA: "base ?kA T S L V1 {?c}" by (rule timed_base [OF b f(3)])
    have th: "k_thd ?p = (k_thd ?kA)(?c := (k_thd k ?c)\<lparr>p_u := U_obj s, p_state := WTSEM, p_ctx := R_timeout\<rparr>)"
      using f(8) by (simp add: set_defs chSemFastWaitI_def)
    have q: "s \<in> heads T S" "s \<noteq> Rlist" "\<not> single s" "s \<notin> MsgQueue ` T" using sem_heads [OF b s] by auto
    have out: "?c \<notin> set (L p)" if "p \<in> heads T S" for p using loose_nowhere [OF b _ that] by simp
    have nh: "?c \<notin> heads T S" using base_not_head [OF b kinv_cur [OF k]] .
    then have lk: "queues single (k_links ?p) (heads T S) ?L"
      using ins.family [OF base_queues [OF b] _ q(1), of ?c "L s @ [?c]"] q out f(6) by (auto simp: set_defs chSemFastWaitI_def)
    have "base ?p T S ?L V1 ({?c} - {?c} \<union> {})"
    proof (rule place_base [OF bA _ i _ _ th _ q(1,2) _ lk])
      show "status_ok ?p T S ?L V1 ?c" using s f(3,11) by (simp add: status_ok_def th waiting_def) (simp add: set_defs)
    qed (use f q(4) in \<open>auto simp: set_defs home_def chSemFastWaitI_def\<close>)
    moreover have "timers ?p T V1" using timers_cong [OF f(2), of ?p] by (simp add: set_defs)
    moreover have "asleep ?p V1 {} Z"
    proof -
      have "due ?p V1 w = due k4 V1 w" "due ?k3 V w = due k V w" for w by (rule due_cong; simp add: set_defs chSemFastWaitI_def)+
      then show ?thesis using k f(3,4) th by (auto simp: kinv_def asleep_def set_defs)
    qed
    moreover have "counted ?p S ?L" using counted_wait [OF cn s, of ?p ?c] timed(1) f(10) by (simp add: set_defs chSemFastWaitI_def)
    ultimately have "settled ?p T S Z ?L V1 {}" using f(5) by (simp add: settled_def set_defs)
    then have "\<exists>L' V'. kinv (chSchGoSleepS WTSEM R_timeout k4) T S Z L' V'" using sleep_ok [of k4 R_timeout WTSEM] f(9) by simp
    moreover have "chSemWaitTimeout s time k = Some (chSchGoSleepS WTSEM R_timeout k4)"
    proof -
      have "r_current ?k3 = ?c" by (simp add: set_defs chSemFastWaitI_def)
      then have "chSchGoSleepTimeoutS WTSEM time ?k3 = Some (chSchGoSleepS WTSEM R_timeout k4)"
        using f(1) timed by (simp add: chSchGoSleepTimeoutS_def TIME_INFINITE_def)
      then show ?thesis using timed
        by (simp add: chSemWaitTimeout_def chSemWaitTimeoutS_def Let_def TIME_IMMEDIATE_def chSemFastWaitI_def)
    qed
    ultimately show ?thesis by simp
  qed
qed

lemma chSemSignalWait_ok:
  assumes k: "kinv k T S Z L V" and i: "r_current k \<noteq> idle_thread" and s: "s \<in> S" "w \<in> S"
  shows "\<exists>k' L' V'. chSemSignalWait s w k = Some k' \<and> kinv k' T S Z L' V'"
proof -
  have r: "running k T S Z L V {}" using k by (simp add: kinv_running)
  obtain k1 L1 where k1: "signal_ready s k = Some k1" "running k1 T S Z L1 V {}" "r_current k1 = r_current k"
    using signal_ready_ok [OF r s(1)] by blast
  let ?c = "r_current k1" let ?k2 = "chSemFastWaitI w k1"
  have cn: "counted k1 S L1" using k1(2) by (simp add: running_def settled_def)
  show ?thesis
  proof (cases "s_cnt k1 w - 1 < 0")
    case True
    let ?k3 = "set_u ?c (U_obj w) (?k2\<lparr>k_links := queue_insert ?c w (k_links ?k2)\<rparr>)"
    have "\<exists>L' V'. kinv (chSchGoSleepS WTSEM R_rdymsg ?k3) T S Z L' V'"
    proof (rule queued_running [OF k1(2), where q = w and rr = "(k_thd k1 ?c)\<lparr>p_u := U_obj w\<rparr>"])
      show "counted ?k3 S (L1(w := L1 w @ [?c]))" using counted_wait [OF cn s(2) _ True] by (simp add: set_defs chSemFastWaitI_def)
    qed (use sem_heads [OF running_base [OF k1(2)] s(2)] s(2) i k1(3) in \<open>auto simp: set_defs chSemFastWaitI_def home_def waiting_def\<close>)
    then show ?thesis using k1(1) True by (simp add: chSemSignalWait_def Let_def chSemFastWaitI_def)
  next
    case False
    have "running ?k2 T S Z L1 V {}"
    proof -
      have st: "settled k1 T S Z L1 V {?c}" using k1(2) by (simp add: running_def)
      have "base ?k2 T S L1 V {?c}" using running_base [OF k1(2)] by (rule base_cong) (simp_all add: chSemFastWaitI_def)
      moreover have "counted ?k2 S L1" using cn s(2) False by (auto simp: counted_def chSemFastWaitI_def)
      moreover have "timers ?k2 T V" using st timers_cong [of k1 T V ?k2] by (simp add: settled_def chSemFastWaitI_def)
      moreover have "asleep ?k2 V {?c} Z" using st due_cong [of ?k2 k1 V] by (simp add: settled_def asleep_def chSemFastWaitI_def)
      ultimately show ?thesis using k1(2) st by (simp add: running_def settled_def chSemFastWaitI_def)
    qed
    then have "running (set_ret ?c (V_msg (Some RDY_OK)) ?k2) T S Z L1 V {}" using running_set_ret [of ?k2 T S Z L1 V] by (simp add: chSemFastWaitI_def)
    from chSchRescheduleS_ok [OF this] show ?thesis using k1(1) False by (simp add: chSemSignalWait_def Let_def chSemFastWaitI_def)
  qed
qed

subsection \<open>Resetting a semaphore\<close>

text \<open>
  The loop empties the queue from its end. The counter has its new value meanwhile, so the count
  is restored only when the queue is empty.
\<close>

lemma lifo_sem:
  assumes b: "base k T S L V X" and s: "s \<in> S" and ls: "L s = ts @ [t]"
  shows "fst (lifo_remove s (k_links k)) = t \<and> base (k\<lparr>k_links := snd (lifo_remove s (k_links k))\<rparr>) T S (L(s := ts)) V (insert t X) \<and>
    t \<notin> X \<and> t \<in> T \<and> p_state (k_thd k t) \<noteq> SLEEPING"
proof -
  have q: "s \<in> heads T S" "\<not> single s" using sem_heads [OF b s] by auto
  have qs: "queues single (k_links k) (heads T S) L" by (rule base_queues [OF b])
  have rg: "ring (k_links k) s (ts @ [t])" using queues_ring [OF qs q] ls by simp
  have t: "t \<in> T" "home (k_thd k t) = Some s" using placed_iff [OF base_placed [OF b] q(1), of t] ls by simp_all
  have other: "t \<notin> set (L r)" if "r \<in> heads T S" "r \<noteq> s" for r using placed_iff [OF base_placed [OF b] that(1)] that(2) t(2) by simp
  have "queues single (snd (lifo_remove s (k_links k))) (heads T S) (L(s := ts @ []))"
    using lifo.family [OF qs _ q(1), of ts t] q(2) ls base_not_head [OF b t(1)] other by simp
  then show ?thesis using take_sem [OF b s, of ts t "[]"] ls ring_lifo [OF rg] by simp
qed

lemma reset_loop_ok:
  assumes "base k T S L V {c}" "s \<in> S" "int (length (L s)) = max 0 (- n)" "asleep k V {c} Z"
  shows "\<exists>k' L'. reset_loop s n k = Some k' \<and> base k' T S L' V {c} \<and> asleep k' V {c} Z \<and> L' s = [] \<and> (\<forall>u\<in>S - {s}. L' u = L u) \<and>
    s_cnt k' = s_cnt k \<and> vt_links k' = vt_links k \<and> vt_func k' = vt_func k \<and> vt_par k' = vt_par k \<and> vt_time k' = vt_time k \<and>
    r_current k' = r_current k \<and> k_thd k' c = k_thd k c"
  using assms
proof (induction "length (L s)" arbitrary: k L n)
  case 0
  then have "\<not> n + 1 \<le> 0" by auto
  then show ?case using 0 by (subst reset_loop.simps) (auto simp: Let_def)
next
  case (Suc m)
  note b = Suc.prems(1) and s = Suc.prems(2) and a = Suc.prems(4)
  have n: "n + 1 \<le> 0" using Suc.hyps(2) Suc.prems(3) by auto
  obtain ts t where l: "L s = ts @ [t]" using Suc.hyps(2) by (cases "L s" rule: rev_cases) auto
  let ?h = "snd (lifo_remove s (k_links k))" let ?k1 = "k\<lparr>k_links := ?h\<rparr>"
  have f: "fst (lifo_remove s (k_links k)) = t" "base ?k1 T S (L(s := ts)) V {t, c}" "t \<noteq> c" "p_state (k_thd k t) \<noteq> SLEEPING"
    using lifo_sem [OF b s l] by simp_all
  obtain k2 h where k2: "chSchReadyI t ?k1 = Some k2" "base k2 T S ((L(s := ts))(Rlist := prio_ins (k_prio ?k1) t ((L(s := ts)) Rlist))) V ({t, c} - {t})"
    "k2 = (set_state t READY ?k1)\<lparr>k_links := h\<rparr>" using ready_base [OF f(2), of t] by auto
  let ?L2 = "(L(s := ts))(Rlist := prio_ins (k_prio ?k1) t ((L(s := ts)) Rlist))" let ?k3 = "set_u t (U_msg RDY_RESET) k2"
  have x: "{t, c} - {t} = {c}" using f(3) by auto
  have b3: "base ?k3 T S ?L2 V {c}"
    using k2(2) unfolding x by (rule base_ready_u) (simp add: k2(3) set_defs)
  have "due ?k3 V w = due k V w" for w by (rule due_cong) (simp add: k2(3) set_defs)
  moreover have "Z t = None" using a f(4) by (cases "Z t") (auto simp: asleep_def)
  ultimately have a3: "asleep ?k3 V {c} Z" using a by (auto simp: asleep_def k2(3) set_defs)
  have sr: "s \<noteq> Rlist" "Rlist \<notin> S" using base_sems [OF b] s by auto
  have len: "m = length (?L2 s)" "int (length (?L2 s)) = max 0 (- (n + 1))" using Suc.hyps(2) Suc.prems(3) l sr n by auto
  obtain k' L' where k': "reset_loop s (n + 1) ?k3 = Some k'" "base k' T S L' V {c}" "asleep k' V {c} Z" "L' s = []" "\<forall>u\<in>S - {s}. L' u = ?L2 u"
    "s_cnt k' = s_cnt ?k3" "vt_links k' = vt_links ?k3" "vt_func k' = vt_func ?k3" "vt_par k' = vt_par ?k3" "vt_time k' = vt_time ?k3"
    "r_current k' = r_current ?k3" "k_thd k' c = k_thd ?k3 c"
    using Suc.hyps(1) [OF len(1) b3 s len(2) a3] by blast
  have "reset_loop s n k = Some k'" using n f(1) k2(1) k'(1) by (subst reset_loop.simps) (simp add: Let_def split_beta)
  moreover have "\<forall>u\<in>S - {s}. L' u = L u" using k'(5) sr(2) by auto
  ultimately show ?case using k' f(3) by (auto simp: k2(3) set_defs)
qed

lemma chSemResetI_ok:
  assumes r: "running k T S Z L V {}" and s: "s \<in> S" and n: "0 \<le> n"
  shows "\<exists>k' L'. chSemResetI s n k = Some k' \<and> running k' T S Z L' V {}"
proof -
  let ?c = "r_current k" let ?k = "k\<lparr>s_cnt := (s_cnt k)(s := n)\<rparr>"
  have st: "settled k T S Z L V {?c}" using r by (simp add: running_def)
  have b: "base ?k T S L V {?c}" using running_base [OF r] by (rule base_cong) simp_all
  have a: "asleep ?k V {?c} Z" using st due_cong [of ?k k V] by (simp add: settled_def asleep_def)
  have l: "int (length (L s)) = max 0 (- s_cnt k s)" using st s by (simp add: settled_def counted_def)
  obtain k' L' where k': "reset_loop s (s_cnt k s) ?k = Some k'" "base k' T S L' V {?c}" "asleep k' V {?c} Z" "L' s = []" "\<forall>u\<in>S - {s}. L' u = L u"
    "s_cnt k' = s_cnt ?k" "vt_links k' = vt_links ?k" "vt_func k' = vt_func ?k" "vt_par k' = vt_par ?k" "vt_time k' = vt_time ?k"
    "r_current k' = r_current ?k" "k_thd k' ?c = k_thd ?k ?c" using reset_loop_ok [OF b s l a] by blast
  have "counted k' S L'" using st k'(4-6) n by (auto simp: settled_def counted_def)
  moreover have "timers k' T V" using st k'(7-10) timers_cong [of k T V k'] by (simp add: settled_def)
  ultimately have "running k' T S Z L' V {}" using r st k' by (simp add: running_def settled_def)
  then show ?thesis using k'(1) by (auto simp: chSemResetI_def Let_def)
qed

lemma chSemReset_ok:
  assumes k: "kinv k T S Z L V" and s: "s \<in> S" and n: "0 \<le> n"
  shows "\<exists>k' L' V'. chSemReset s n k = Some k' \<and> kinv k' T S Z L' V'"
proof -
  have "running (set_ret (r_current k) V_unit k) T S Z L V {}" using kinv_set_ret [OF k] by (simp add: kinv_running)
  then obtain k1 L1 where "chSemResetI s n (set_ret (r_current k) V_unit k) = Some k1" "running k1 T S Z L1 V {}"
    using chSemResetI_ok [OF _ s n] by blast
  then show ?thesis using chSchRescheduleS_ok by (fastforce simp: chSemReset_def)
qed

subsection \<open>Priorities, flags, exit and join\<close>

lemma base_prio_upd:
  assumes b: "base k T S L V X" and x: "x \<in> X" and p: "p \<noteq> 0"
  shows "base (k\<lparr>k_prio := (k_prio k)(x := p)\<rparr>) T S L V X"
proof -
  have xT: "x \<in> T" using base_sub [OF b] x by auto
  have nr: "x \<noteq> Rlist" using base_not_head [OF b xT] by auto
  have "x \<notin> set (L Rlist)" using loose_nowhere [OF b x, of Rlist] by simp
  then have "by_prio ((k_prio k)(x := p)) (L Rlist)" using base_sorted [OF b] by (subst by_prio_cong [where prio = "k_prio k"]) auto
  moreover have "placed (k\<lparr>k_prio := (k_prio k)(x := p)\<rparr>) T S L X" by (rule placed_cong [OF base_placed [OF b]]) simp
  moreover have "status_ok (k\<lparr>k_prio := (k_prio k)(x := p)\<rparr>) T S L V t = status_ok k T S L V t" for t by (simp add: status_ok_def)
  moreover have "loose_ok (k\<lparr>k_prio := (k_prio k)(x := p)\<rparr>) L V t = loose_ok k L V t" for t by (simp add: loose_ok_def)
  ultimately show ?thesis using baseD [OF b] p nr by (auto simp: base_def)
qed

lemma priority_running:
  assumes k: "kinv k T S Z L V" and p: "p \<noteq> 0"
  shows "\<exists>k1. chThdSetPriority p k = chSchRescheduleS k1 \<and> running k1 T S Z L V {} \<and> r_current k1 = r_current k \<and> s_cnt k1 = s_cnt k \<and>
    (\<forall>t. t \<noteq> r_current k \<longrightarrow> k_thd k1 t = k_thd k t)"
proof -
  let ?c = "r_current k" let ?o = "p_realprio (k_thd k ?c)"
  let ?k1 = "if k_prio k ?c = ?o \<or> p > k_prio k ?c then k\<lparr>k_prio := (k_prio k)(?c := p)\<rparr> else k"
  let ?k3 = "set_ret ?c (V_prio ?o) (upd ?c (\<lambda>t. t\<lparr>p_realprio := p\<rparr>) ?k1)"
  have b: "base k T S L V {?c}" by (rule kinv_base [OF k])
  have "base ?k1 T S L V {?c}" using b base_prio_upd [OF b _ p] by simp
  then have "base ?k3 T S L V {?c}" unfolding set_ret_def by (intro base_upd_simple) auto
  then have "settled ?k3 T S Z L V {?c}" by (intro settled_rest [OF kinv_settled [OF k]]) (auto simp: set_defs)
  then have "running ?k3 T S Z L V {}" using k by (simp add: running_def kinv_def set_defs)
  then show ?thesis by (intro exI [of _ ?k3]) (simp add: chThdSetPriority_def Let_def set_defs)
qed

lemma chThdSetPriority_ok:
  assumes "kinv k T S Z L V" "p \<noteq> 0"
  shows "\<exists>k' L' V'. chThdSetPriority p k = Some k' \<and> kinv k' T S Z L' V'"
  using priority_running [OF assms] chSchRescheduleS_ok by metis

text \<open>Flags and reference counters.\<close>

lemma kinv_mark:
  assumes k: "kinv k T S Z L V" and f: "\<And>r. p_state (f r) = p_state r \<and> p_u (f r) = p_u r \<and> p_ctx (f r) = p_ctx r"
  shows "kinv (upd t f k) T S Z L V"
proof -
  have "base (upd t f k) T S L V {r_current k}" using kinv_base [OF k] by (rule base_cong) (simp_all add: f)
  then have "settled (upd t f k) T S Z L V {r_current k}" by (intro settled_rest [OF kinv_settled [OF k]]) (auto simp: f)
  then show ?thesis using k by (auto simp: kinv_def settled_def f)
qed

lemma chThdTerminate_ok: "kinv k T S Z L V \<Longrightarrow> kinv (chThdTerminate t k) T S Z L V"
  unfolding chThdTerminate_def by (rule kinv_mark) simp_all

lemma chThdAddRef_ok: "kinv k T S Z L V \<Longrightarrow> kinv (chThdAddRef t k) T S Z L V"
  unfolding chThdAddRef_def by (rule kinv_mark) simp_all

lemma registry_ok:
  assumes "kinv k T S Z L V"
  shows "kinv (snd (chRegFirstThread k)) T S Z L V" "kinv (snd (chRegNextThread t k)) T S Z L V"
  using assms chThdAddRef_ok [OF assms] kinv_release
  by (simp_all add: chRegFirstThread_def chRegNextThread_def chThdAddRef_def Let_def split_beta)

text \<open>The threads that wait for the end of a thread are made ready.\<close>

lemma wake_waiting_ok:
  assumes "running k T S Z L V {}" "t \<in> T"
  shows "\<exists>k' L'. wake_waiting t k = Some k' \<and> running k' T S Z L' V {} \<and> L' (Waiting t) = [] \<and> r_current k' = r_current k \<and>
    k_thd k' (r_current k) = k_thd k (r_current k) \<and> k_reg k' = k_reg k"
  using assms
proof (induction "length (L (Waiting t))" arbitrary: k L)
  case 0
  note r = 0(2) and t = 0(3)
  have "sring (k_links k) (Waiting t) (L (Waiting t))" using queues_sring [OF base_queues [OF running_base [OF r]]] t by simp
  then have "\<not> notempty (Waiting t) (k_links k)" using sring_empty 0(1) by fastforce
  then show ?case using 0 by (subst wake_waiting.simps) auto
next
  case (Suc n)
  note r = Suc.prems(1) and t = Suc.prems(2)
  let ?q = "Waiting t" let ?c = "r_current k" let ?h = "snd (list_remove ?q (k_links k))" let ?k1 = "k\<lparr>k_links := ?h\<rparr>"
  obtain w ws where l: "L ?q = w # ws" using Suc.hyps(2) by (cases "L ?q") auto
  have b: "base k T S L V {?c}" using running_base [OF r] by simp
  have q: "?q \<in> heads T S" using t by simp
  have qs: "queues single (k_links k) (heads T S) L" by (rule base_queues [OF b])
  have sr: "sring (k_links k) ?q (w # ws)" using queues_sring [OF qs q] l by simp
  have w: "w \<in> T" "w \<noteq> ?c" "home (k_thd k w) = Some ?q" using placed_iff [OF base_placed [OF b] q, of w] l by simp_all
  have other: "w \<notin> set (L r)" if "r \<in> heads T S" "r \<noteq> ?q" for r using placed_iff [OF base_placed [OF b] that(1)] that(2) w(3) by simp
  have h: "queues single ?h (heads T S) (L(?q := ws))"
    using lrem.family [OF qs _ q, of w ws] l base_not_head [OF b w(1)] other by simp
  have d: "distinct (w # ws)" using sr by (simp add: sring_def)
  have "base ?k1 T S (L(?q := ws)) V (insert w {?c})" using l d q h by (intro remove_base [OF b]) auto
  moreover have ns: "p_state (k_thd k w) \<noteq> SLEEPING" using w(3) by (auto simp: home_def)
  moreover have st: "settled k T S Z L V {?c}" using r by (simp add: running_def)
  ultimately have "settled ?k1 T S Z (L(?q := ws)) V (insert w {?c})"
    using base_sems [OF b] by (intro settled_rest [OF st]) auto
  then have "running ?k1 T S Z (L(?q := ws)) V {w}" using r w(2) by (simp add: running_def insert_commute)
  from ready_running [OF this, of w] obtain k2 g where k2: "chSchReadyI w ?k1 = Some k2"
    "running k2 T S Z ((L(?q := ws))(Rlist := prio_ins (k_prio ?k1) w ((L(?q := ws)) Rlist))) V {}" "k2 = (set_state w READY ?k1)\<lparr>k_links := g\<rparr>" by auto
  let ?L2 = "(L(?q := ws))(Rlist := prio_ins (k_prio ?k1) w ((L(?q := ws)) Rlist))"
  have "n = length (?L2 ?q)" using Suc.hyps(2) l by simp
  from Suc.hyps(1) [OF this k2(2) t] obtain k' L' where k': "wake_waiting t k2 = Some k'" "running k' T S Z L' V {}" "L' ?q = []"
    "r_current k' = r_current k2" "k_thd k' (r_current k2) = k_thd k2 (r_current k2)" "k_reg k' = k_reg k2" by blast
  have "notempty ?q (k_links k)" using sring_empty [OF sr] by simp
  then have "wake_waiting t k = Some k'" using k2(1) k'(1) sring_remove [OF sr] by (subst wake_waiting.simps) (simp add: split_beta)
  then show ?case using k' w(2) by (auto simp: k2(3) set_defs upd_def)
qed

lemma chThdExit_ok:
  assumes k: "kinv k T S Z L V" and i: "r_current k \<noteq> idle_thread"
  shows "\<exists>k' L' V'. chThdExit msg k = Some k' \<and> kinv k' T S Z L' V'"
proof -
  let ?c = "r_current k" let ?k1 = "set_u ?c (U_msg msg) k"
  have b: "base ?k1 T S L V {?c}" unfolding set_u_def using kinv_base [OF k] by (intro base_upd_simple) auto
  then have "settled ?k1 T S Z L V {?c}" by (intro settled_rest [OF kinv_settled [OF k]]) (auto simp: set_defs)
  then have r: "running ?k1 T S Z L V {}" using k by (simp add: running_def kinv_def set_defs)
  obtain k2 L2 where k2: "wake_waiting ?c ?k1 = Some k2" "running k2 T S Z L2 V {}" "r_current k2 = ?c" "k_thd k2 ?c = k_thd ?k1 ?c"
    using wake_waiting_ok [OF r kinv_cur [OF k]] by (auto simp: set_defs)
  let ?k3 = "if p_flags (k_thd k2 ?c) AND THD_MEM_MODE_MASK = THD_MEM_MODE_STATIC then REG_REMOVE ?c k2 else k2"
  have c: "p_ctx (k_thd k2 ?c) = R_user" using k2(2,3) by (simp add: running_def)
  have b2: "base k2 T S L2 V {?c}" using running_base [OF k2(2)] k2(3) by simp
  have "base ?k3 T S L2 V {?c}" by (rule base_cong [OF b2]) (auto simp: REG_REMOVE_def)
  moreover have st: "settled k2 T S Z L2 V {?c}" using k2(2,3) by (simp add: running_def)
  ultimately have "settled ?k3 T S Z L2 V {?c}" by (intro settled_rest [OF st]) (auto simp: REG_REMOVE_def)
  then have "running ?k3 T S Z L2 V {}" using k2(2,3) by (auto simp: running_def REG_REMOVE_def split: if_splits)
  moreover have "r_current ?k3 = ?c" using k2(3) by (simp add: REG_REMOVE_def)
  ultimately have "\<exists>L' V'. kinv (chSchGoSleepS FINAL R_user ?k3) T S Z L' V'"
    using i by (intro plain_running [of ?k3 T S Z L2 V]) (simp_all add: home_def waiting_def)
  then show ?thesis using k2(1) by (simp add: chThdExit_def chThdExitS_def Let_def)
qed

lemma chThdWait_ok:
  assumes k: "kinv k T S Z L V" and i: "r_current k \<noteq> idle_thread" and t: "t \<in> T"
  shows "\<exists>L' V'. kinv (chThdWait t k) T S Z L' V'"
proof (cases "state_of k t = FINAL")
  case True
  have "kinv (chThdWait_rest t k) T S Z L V" unfolding chThdWait_rest_def by (rule kinv_release [OF kinv_set_ret [OF k]])
  then show ?thesis using True by (auto simp: chThdWait_def)
next
  case False
  let ?c = "r_current k" let ?q = "Waiting t" let ?k1 = "k\<lparr>k_links := list_insert ?c ?q (k_links k)\<rparr>"
  let ?p = "set_ctx ?c (R_thdWait t) (set_state ?c WTEXIT ?k1)" let ?L = "L(?q := ?c # L ?q)"
  have b: "base k T S L V {?c}" by (rule kinv_base [OF k])
  have q: "?q \<in> heads T S" using t by simp
  have out: "?c \<notin> set (L p)" if "p \<in> heads T S" for p using loose_nowhere [OF b _ that] by simp
  have nh: "?c \<notin> heads T S" using base_not_head [OF b kinv_cur [OF k]] .
  then have "?c \<noteq> ?q" using q by metis
  then have lk: "queues single (k_links ?p) (heads T S) ?L"
    using lins.family [OF base_queues [OF b] _ q, of ?c "?c # L ?q"] q out nh by (simp add: set_defs)
  have th: "k_thd ?p = (k_thd k)(?c := (k_thd k ?c)\<lparr>p_state := WTEXIT, p_ctx := R_thdWait t\<rparr>)" by (simp add: set_defs)
  have "base ?p T S ?L V ({?c} - {?c} \<union> {})"
  proof (rule place_base [OF b _ i _ _ th _ q _ _ lk])
    show "status_ok ?p T S ?L V ?c" using t kinv_no_timer [OF k] by (simp add: status_ok_def th waiting_def)
  qed (auto simp: set_defs home_def)
  then have "settled ?p T S Z ?L V {}" using base_sems [OF b] by (intro settled_rest [OF kinv_settled [OF k]]) (auto simp: set_defs)
  then have "\<exists>L' V'. kinv (chSchGoSleepS WTEXIT (R_thdWait t) ?k1) T S Z L' V'" using sleep_ok [of ?k1 "R_thdWait t" WTEXIT] by simp
  then show ?thesis using False by (simp add: chThdWait_def)
qed

subsection \<open>The timer interrupt\<close>

text \<open>A thread whose timer ran out is made ready, wherever it waited.\<close>

lemma wakeup_ok:
  assumes b: "base k T S L V {c}" and cn: "counted k S L" and a: "asleep k V {c} Z" and t: "t \<in> T" "t \<noteq> c" "Z t = None"
    and st: "p_state (k_thd k t) \<in> {READY, SLEEPING, WTSEM}"
  shows "\<exists>k' L'. wakeup t k = Some k' \<and> base k' T S L' V {c} \<and> counted k' S L' \<and> asleep k' V {c} Z \<and> p_state (k_thd k' t) = READY \<and>
    (\<forall>u. p_state (k_thd k u) = READY \<longrightarrow> p_state (k_thd k' u) = READY) \<and> k_thd k' c = k_thd k c \<and> r_current k' = r_current k \<and>
    vt_links k' = vt_links k \<and> vt_func k' = vt_func k \<and> vt_par k' = vt_par k \<and> vt_time k' = vt_time k"
proof -
  have fin: "\<exists>k' L'. chSchReadyI t (set_u t (U_msg RDY_TIMEOUT) k1) = Some k' \<and> base k' T S L' V {c} \<and> counted k' S L' \<and> asleep k' V {c} Z \<and>
      p_state (k_thd k' t) = READY \<and> (\<forall>u. p_state (k_thd k u) = READY \<longrightarrow> p_state (k_thd k' u) = READY) \<and> k_thd k' c = k_thd k c \<and>
      r_current k' = r_current k \<and> vt_links k' = vt_links k \<and> vt_func k' = vt_func k \<and> vt_par k' = vt_par k \<and> vt_time k' = vt_time k"
    if b1: "base k1 T S L1 V {t, c}" and c1: "counted k1 S L1" and f: "k_thd k1 = k_thd k" "r_current k1 = r_current k" "vt_links k1 = vt_links k"
      "vt_func k1 = vt_func k" "vt_par k1 = vt_par k" "vt_time k1 = vt_time k" for k1 L1
  proof -
    let ?k2 = "set_u t (U_msg RDY_TIMEOUT) k1"
    have b2: "base ?k2 T S L1 V {t, c}" unfolding set_u_def using b1 by (intro base_upd_simple) auto
    obtain k' h where k': "chSchReadyI t ?k2 = Some k'" "base k' T S (L1(Rlist := prio_ins (k_prio ?k2) t (L1 Rlist))) V ({t, c} - {t})"
      "k' = (set_state t READY ?k2)\<lparr>k_links := h\<rparr>" using ready_base [OF b2, of t] by auto
    have x: "{t, c} - {t} = {c}" using t(2) by auto
    have "Rlist \<notin> S" using base_sems [OF b] by auto
    then have "counted k' S (L1(Rlist := prio_ins (k_prio ?k2) t (L1 Rlist)))" using c1 by (auto simp: counted_def k'(3) set_defs)
    moreover have "due k' V w = due k V w" for w by (rule due_cong) (simp add: k'(3) set_defs f)
    then have "asleep k' V {c} Z" using a t(3) by (auto simp: asleep_def k'(3) set_defs f)
    moreover have "base k' T S (L1(Rlist := prio_ins (k_prio ?k2) t (L1 Rlist))) V {c}" using k'(2) unfolding x .
    ultimately show ?thesis using k'(1) t(2) f by (intro exI [of _ k'] exI conjI) (auto simp: k'(3) set_defs)
  qed
  consider "p_state (k_thd k t) = READY" | "p_state (k_thd k t) = SLEEPING" | "p_state (k_thd k t) = WTSEM" using st by auto
  then show ?thesis
  proof cases
    case 1
    then show ?thesis using b cn a by (auto simp: wakeup_def state_of_def)
  next
    case 2
    have "base k T S L V (insert t {c})" using t 2 by (intro hand_base [OF b]) (auto simp: home_def)
    then have "\<exists>k' L'. chSchReadyI t (set_u t (U_msg RDY_TIMEOUT) k) = Some k' \<and> base k' T S L' V {c} \<and> counted k' S L' \<and> asleep k' V {c} Z \<and>
      p_state (k_thd k' t) = READY \<and> (\<forall>u. p_state (k_thd k u) = READY \<longrightarrow> p_state (k_thd k' u) = READY) \<and> k_thd k' c = k_thd k c \<and>
      r_current k' = r_current k \<and> vt_links k' = vt_links k \<and> vt_func k' = vt_func k \<and> vt_par k' = vt_par k \<and> vt_time k' = vt_time k"
      using cn by (intro fin) simp_all
    moreover have "wakeup t k = chSchReadyI t (set_u t (U_msg RDY_TIMEOUT) k)"
      using 2 by (cases "p_u (k_thd k t)") (simp_all add: wakeup_def state_of_def)
    ultimately show ?thesis by simp
  next
    case 3
    obtain s where s: "s \<in> S" "p_u (k_thd k t) = U_obj s"
      using base_status [OF b t(1)] t(2) 3 by (auto simp: status_ok_def waiting_def)
    have q: "s \<in> heads T S" "\<not> single s" using sem_heads [OF b s(1)] by auto
    have ho: "home (k_thd k t) = Some s" using 3 s(2) by (simp add: home_def)
    then have "t \<in> set (L s)" using placed_iff [OF base_placed [OF b] q(1), of t] t by simp
    then obtain as bs where l: "L s = as @ t # bs" by (auto dest: split_list)
    have other: "t \<notin> set (L r)" if "r \<in> heads T S" "r \<noteq> s" for r using placed_iff [OF base_placed [OF b] that(1)] that(2) ho by simp
    have "queues single (dequeue t (k_links k)) (heads T S) (L(s := as @ bs))"
      using deq.family [OF base_queues [OF b] _ q(1), of t "as @ bs"] q(2) l base_not_head [OF b t(1)] other by auto
    then have b1: "base (k\<lparr>k_links := dequeue t (k_links k)\<rparr>) T S (L(s := as @ bs)) V {t, c}"
      using take_sem [OF b s(1) l] by simp
    let ?k1 = "(chSemFastSignalI s k)\<lparr>k_links := dequeue t (k_links k)\<rparr>"
    have "base ?k1 T S (L(s := as @ bs)) V {t, c}" by (rule base_cong [OF b1]) (simp_all add: chSemFastSignalI_def)
    moreover have "counted ?k1 S (L(s := as @ bs))" using cn s(1) l by (auto simp: counted_def chSemFastSignalI_def)
    moreover have "wakeup t k = chSchReadyI t (set_u t (U_msg RDY_TIMEOUT) ?k1)"
      using 3 s(2) by (simp add: wakeup_def state_of_def chSemFastSignalI_def Let_def)
    ultimately show ?thesis using fin [of ?k1 "L(s := as @ bs)"] by (simp add: chSemFastSignalI_def)
  qed
qed

end
