(* ===== verification/Ch_System.thy ===== *)
theory Ch_System
  imports Ch_Safe
begin

text \<open>
  The kernel as a system: the timer interrupt, new threads and semaphores, and the start.
\<close>

subsection \<open>Timers that run out\<close>

text \<open>The first timer leaves the list.\<close>

definition vt_pop :: "vptr \<Rightarrow> kernel \<Rightarrow> kernel" where
  "vt_pop v k = k\<lparr>vt_func := (vt_func k)(v := None), vt_links := set_next VtList (p_next (vt_links k) v) (set_prev (p_next (vt_links k) v) VtList (vt_links k))\<rparr>"

lemma vt_fire_step:
  "vt_fire k = (if vt_time k (p_next (vt_links k) VtList) \<noteq> 0 then Some k
     else case vt_func k (p_next (vt_links k) VtList) of None \<Rightarrow> None
       | Some fn \<Rightarrow> do { k \<leftarrow> call_vtfunc fn (vt_par k (p_next (vt_links k) VtList)) (vt_pop (p_next (vt_links k) VtList) k); vt_fire k })"
  by (subst vt_fire.simps) (simp add: Let_def vt_pop_def split: option.splits)

lemma due_zero_head:
  assumes "distinct (v # V)" "vt_time k v = 0" "w \<in> set V"
  shows "due k (v # V) w = due k V w"
  using assms by (auto simp: due_def)

lemma pop_timers:
  assumes t: "timers k T (v # V)" and z: "vt_time k v = 0"
  shows "timers (vt_pop v k) T V"
proof -
  have r: "ring (vt_links k) VtList (v # V)" and d: "distinct (v # V)" "VtList \<notin> set (v # V)" using timers_ring [OF t] timers_distinct [OF t] by auto
  have n: "p_next (vt_links k) VtList = v" using r by (simp add: ring_def)
  have "vt_links (vt_pop v k) = snd (fifo_remove VtList (vt_links k))"
    using n by (simp add: vt_pop_def fifo_remove_def Let_def set_next_def set_prev_def)
  then have "ring (vt_links (vt_pop v k)) VtList V" using ring_fifo [OF r] by simp
  then show ?thesis using t d z by (auto simp: timers_def vt_pop_def deltas_def)
qed

lemma base_pop:
  assumes b: "base k T S L (ThreadVt t # V) {c}" and d: "ThreadVt t \<notin> set V" and n: "t \<noteq> c"
  shows "base (vt_pop (ThreadVt t) k) T S L V {c}"
proof (rule baseI)
  let ?k = "vt_pop (ThreadVt t) k"
  show "placed ?k T S L {c}" by (rule placed_cong [OF base_placed [OF b]]) (simp add: vt_pop_def)
  show "status_ok ?k T S L V u" if "u \<in> T" "u \<notin> {c}" for u
    using base_status [OF b that] d by (cases "u = t") (auto simp: status_ok_def waiting_def vt_pop_def)
  show "loose_ok ?k L V u" if "u \<in> {c}" for u
    using base_loose [OF b that] n that by (auto simp: loose_ok_def resting_def vt_pop_def)
qed (use baseD [OF b] in \<open>auto simp: vt_pop_def\<close>)

text \<open>From \<open>k\<close> to \<open>k'\<close> timers have run out: threads other than \<open>c\<close> were woken, one after the other.\<close>

inductive woken :: "kptr set \<Rightarrow> kptr \<Rightarrow> kernel \<Rightarrow> kernel \<Rightarrow> bool" for T :: "kptr set" and c :: kptr where
  none: "woken T c k k"
| one: "u \<in> T \<Longrightarrow> u \<noteq> c \<Longrightarrow> p_state (k_thd k u) \<in> {READY, SLEEPING, WTSEM} \<Longrightarrow> wakeup u (vt_pop v k) = Some k1 \<Longrightarrow>
    woken T c k1 k' \<Longrightarrow> woken T c k k'"

lemma vt_fire_ok:
  assumes "base k T S L V {c}" "counted k S L" "timers k T V" "asleep k V {c} Z" "\<forall>t n. Z t = Some n \<longrightarrow> 0 < n"
    "r_current k = c" "p_state (k_thd k c) = CURRENT" "p_ctx (k_thd k c) = R_user"
  shows "\<exists>k' L' V'. vt_fire k = Some k' \<and> running k' T S Z L' V' {} \<and> r_current k' = c \<and>
    (\<forall>t. ThreadVt t \<in> set V \<longrightarrow> due k V (ThreadVt t) = 0 \<longrightarrow> p_state (k_thd k' t) = READY) \<and>
    (\<forall>t. p_state (k_thd k t) = READY \<longrightarrow> p_state (k_thd k' t) = READY) \<and> woken T c k k'"
  using assms
proof (induction V arbitrary: k L)
  case Nil
  have "p_next (vt_links k) VtList = VtList" "vt_time k VtList \<noteq> 0" using Nil.prems(3) by (auto simp: timers_def ring_def)
  then have "vt_fire k = Some k" by (subst vt_fire_step) simp
  then show ?case using Nil.prems woken.none by (auto simp: running_def settled_def)
next
  case (Cons v V)
  note b = Cons.prems(1) and cn = Cons.prems(2) and t = Cons.prems(3) and a = Cons.prems(4) and z = Cons.prems(5)
  have n: "p_next (vt_links k) VtList = v" using timers_ring [OF t] by (simp add: ring_def)
  have d: "distinct (v # V)" using timers_distinct [OF t] by simp
  show ?case
  proof (cases "vt_time k v = 0")
    case False
    have "due k (v # V) w \<noteq> 0" if "w \<in> set (v # V)" for w
      using that False by (auto simp: due_def unat_eq_0)
    moreover have "vt_fire k = Some k" using n False by (subst vt_fire_step) simp
    moreover have "running k T S Z L (v # V) {}" using Cons.prems False by (auto simp: running_def settled_def)
    ultimately show ?thesis using Cons.prems(6) woken.none by blast
  next
    case True
    obtain u where v: "v = ThreadVt u" "u \<in> T" using timers_thread [OF t, of v] by auto
    let ?k1 = "vt_pop v k"
    have uc: "u \<noteq> c" using base_loose [OF b, of c] Cons.prems(8) v(1) by (auto simp: loose_ok_def resting_def)
    have st: "p_state (k_thd k u) \<in> {READY, SLEEPING, WTSEM}"
      using base_status [OF b v(2)] uc v(1) by (auto simp: status_ok_def waiting_def)
    have b1: "base ?k1 T S L V {c}" using base_pop [of k T S L u V c] b d uc v(1) by simp
    have t1: "timers ?k1 T V" by (rule pop_timers [OF t True])
    have tm: "vt_time ?k1 = vt_time k" "k_thd ?k1 = k_thd k" by (simp_all add: vt_pop_def)
    have zu: "Z u = None"
    proof (rule ccontr)
      assume "Z u \<noteq> None"
      then obtain m where "Z u = Some m" by auto
      then have "due k (v # V) v = m" "0 < m" using a z v(1) by (auto simp: asleep_def)
      then show False using True by (simp add: due_def)
    qed
    have a1: "asleep ?k1 V {c} Z"
      unfolding asleep_def
    proof (intro allI impI)
      fix x m assume x: "Z x = Some m"
      then have "x \<noteq> u" using zu by auto
      moreover have "x \<notin> {c} \<and> p_state (k_thd k x) = SLEEPING \<and> ThreadVt x \<in> set (v # V) \<and> due k (v # V) (ThreadVt x) = m"
        using a x by (auto simp: asleep_def)
      ultimately show "x \<notin> {c} \<and> p_state (k_thd ?k1 x) = SLEEPING \<and> ThreadVt x \<in> set V \<and> due ?k1 V (ThreadVt x) = m"
        using due_zero_head [OF d True, of "ThreadVt x"] due_cong [of ?k1 k V] v(1) tm by auto
    qed
    have cn1: "counted ?k1 S L" using cn by (simp add: counted_def vt_pop_def)
    obtain k2 L2 where k2: "wakeup u ?k1 = Some k2" "base k2 T S L2 V {c}" "counted k2 S L2" "asleep k2 V {c} Z" "p_state (k_thd k2 u) = READY"
      "\<forall>x. p_state (k_thd ?k1 x) = READY \<longrightarrow> p_state (k_thd k2 x) = READY" "k_thd k2 c = k_thd ?k1 c" "r_current k2 = r_current ?k1"
      "vt_links k2 = vt_links ?k1" "vt_func k2 = vt_func ?k1" "vt_par k2 = vt_par ?k1" "vt_time k2 = vt_time ?k1"
      using wakeup_ok [OF b1 cn1 a1 v(2) uc zu] st tm by auto
    have t2: "timers k2 T V" using timers_cong [OF t1 k2(9-12)] .
    have r2: "r_current k2 = c" "p_state (k_thd k2 c) = CURRENT" "p_ctx (k_thd k2 c) = R_user"
      using Cons.prems(6-8) k2(7,8) by (simp_all add: vt_pop_def)
    obtain k' L' V' where k': "vt_fire k2 = Some k'" "running k' T S Z L' V' {}" "r_current k' = c"
      "\<And>x. ThreadVt x \<in> set V \<Longrightarrow> due k2 V (ThreadVt x) = 0 \<Longrightarrow> p_state (k_thd k' x) = READY"
      "\<And>x. p_state (k_thd k2 x) = READY \<Longrightarrow> p_state (k_thd k' x) = READY" "woken T c k2 k'"
      using Cons.IH [OF k2(2,3) t2 k2(4) z r2] by blast
    have "vt_func k v = Some Wakeup" "vt_par k v = u" using timers_func [OF t, of v] timers_par [OF t, of u] v(1) by auto
    then have "vt_fire k = Some k'" using n True k2(1) k'(1) by (subst vt_fire_step) (simp add: call_vtfunc_def)
    moreover have "p_state (k_thd k' x) = READY" if "ThreadVt x \<in> set (v # V)" "due k (v # V) (ThreadVt x) = 0" for x
    proof (cases "x = u")
      case True
      then show ?thesis using k'(5) k2(5) by simp
    next
      case False
      then have "ThreadVt x \<in> set V" using that v(1) by auto
      then show ?thesis using k'(4) that(2) due_zero_head [OF d True] due_cong [of k2 k V] k2(12) tm by simp
    qed
    moreover have "p_state (k_thd k' x) = READY" if "p_state (k_thd k x) = READY" for x using k'(5) k2(6) tm that by simp
    moreover have "woken T c k k'" by (rule woken.one [OF v(2) uc st k2(1) k'(6)])
    ultimately show ?thesis using k'(2,3) by blast
  qed
qed

subsection \<open>The tick\<close>

text \<open>What a tick does to the sleepers: one tick less, and none left is awake.\<close>

definition less_one :: "(kptr \<rightharpoonup> nat) \<Rightarrow> kptr \<rightharpoonup> nat" where
  "less_one Z t = (case Z t of Some (Suc (Suc n)) \<Rightarrow> Some (Suc n) | _ \<Rightarrow> None)"

lemma due_dec:
  assumes d: "distinct (v # V)" and z: "vt_time k v \<noteq> 0" and w: "w \<in> set (v # V)"
    and k': "vt_time k' = (vt_time k)(v := vt_time k v - 1)"
  shows "due k (v # V) w = Suc (due k' (v # V) w)"
proof -
  have u: "unat (vt_time k v) = Suc (unat (vt_time k v - 1))"
    using z by (simp add: unat_minus_one unat_eq_0 [symmetric] word_unat_eq_iff)
  have "deltas k' xs = deltas k xs" if "v \<notin> set xs" for xs using that k' by (intro deltas_cong) auto
  moreover have "v \<notin> set (takeWhile (\<lambda>x. x \<noteq> w) V)" using d by (auto dest: set_takeWhileD)
  ultimately have "deltas k' (takeWhile (\<lambda>x. x \<noteq> w) V) = deltas k (takeWhile (\<lambda>x. x \<noteq> w) V)" by blast
  then show ?thesis using d w u k' by (auto simp: due_def)
qed

text \<open>The running time is counted, then timers run out.\<close>

definition ticked :: "kptr set \<Rightarrow> kernel \<Rightarrow> kernel \<Rightarrow> bool" where
  "ticked T k k' \<longleftrightarrow> (\<exists>k0 n. r_current k0 = r_current k \<and> s_cnt k0 = s_cnt k \<and> woken T (r_current k) k0 k' \<and>
     k_thd k0 = (k_thd k)(r_current k := (k_thd k (r_current k))\<lparr>p_time := n\<rparr>))"

lemma tick_ok:
  assumes k: "running k T S Z L V {}"
  shows "\<exists>k1 L1 V1. chSysTimerHandlerI k = Some k1 \<and> running k1 T S (less_one Z) L1 V1 {} \<and> r_current k1 = r_current k \<and>
    (\<forall>t. Z t = Some 1 \<longrightarrow> p_state (k_thd k1 t) = READY) \<and> ticked T k k1"
proof -
  let ?c = "r_current k"
  define k0 where "k0 = upd ?c (\<lambda>t. t\<lparr>p_time := p_time t + 1\<rparr>) (if r_preempt k > 0 then k\<lparr>r_preempt := r_preempt k - 1\<rparr> else k)"
  define k1 where "k1 = k0\<lparr>vt_systime := vt_systime k0 + 1\<rparr>"
  have f: "k_links k1 = k_links k" "k_prio k1 = k_prio k" "r_current k1 = ?c" "s_cnt k1 = s_cnt k" "vt_links k1 = vt_links k" "vt_time k1 = vt_time k"
    "vt_func k1 = vt_func k" "vt_par k1 = vt_par k" "k_thd k1 = (k_thd k)(?c := (k_thd k ?c)\<lparr>p_time := p_time (k_thd k ?c) + 1\<rparr>)"
    by (simp_all add: k1_def k0_def)
  have b: "base k1 T S L V {?c}" by (rule base_cong [OF running_base [OF k]]) (auto simp: f)
  have cn: "counted k1 S L" and t: "timers k1 T V" using k timers_cong [of k T V k1] by (auto simp: running_def settled_def counted_def f)
  have a: "asleep k1 V {?c} Z" using k due_cong [OF f(6), of V] by (auto simp: running_def settled_def asleep_def f)
  have cc: "p_state (k_thd k1 ?c) = CURRENT" "p_ctx (k_thd k1 ?c) = R_user" using k by (simp_all add: running_def f)
  have h: "chSysTimerHandlerI k = chVTDoTickI k0" by (simp add: chSysTimerHandlerI_def Let_def k0_def)
  show ?thesis
  proof (cases V)
    case Nil
    then have "p_next (vt_links k1) VtList = VtList" using timers_ring [OF t] by (simp add: ring_def)
    then have "chVTDoTickI k0 = Some k1" by (simp add: chVTDoTickI_def Let_def k1_def)
    moreover have "Z x = None" for x using a Nil by (cases "Z x") (auto simp: asleep_def)
    then have "less_one Z = Z" "\<And>x. Z x \<noteq> Some 1" by (auto simp: less_one_def fun_eq_iff)
    moreover have "ticked T k k1" unfolding ticked_def using f(3,4,9) woken.none by blast
    ultimately show ?thesis using h b cn t a cc f(3) Nil by (auto simp: running_def settled_def)
  next
    case (Cons v V2)
    have n: "p_next (vt_links k1) VtList = v" "VtList \<noteq> v" using timers_ring [OF t] Cons by (auto simp: ring_def)
    have d: "distinct (v # V2)" using timers_distinct [OF t] Cons by simp
    have z: "vt_time k1 v \<noteq> 0" using k Cons f(6) by (simp add: running_def settled_def)
    let ?k2 = "k1\<lparr>vt_time := (vt_time k1)(v := vt_time k1 v - 1)\<rparr>"
    have du: "due k1 V w = Suc (due ?k2 V w)" if "w \<in> set V" for w using due_dec [OF d z, of w ?k2] that Cons by simp
    have b2: "base ?k2 T S L V {?c}" by (rule base_cong [OF b]) simp_all
    have t2: "timers ?k2 T V"
    proof -
      have "deltas ?k2 V2 = deltas k1 V2" using d by (intro deltas_cong) auto
      moreover have "unat (vt_time k1 v - 1) \<le> unat (vt_time k1 v)" using z by (simp add: unat_minus_one)
      ultimately have "sum_list (deltas ?k2 V) \<le> sum_list (deltas k1 V)" using Cons by simp
      then show ?thesis using t n(2) by (auto simp: timers_def)
    qed
    have "asleep ?k2 V {?c} (less_one Z)"
    proof -
      have "\<exists>m. Z x = Some (Suc (Suc m)) \<and> i = Suc m" if "less_one Z x = Some i" for x i
        using that by (auto simp: less_one_def split: option.splits nat.splits)
      then show ?thesis using a du by (fastforce simp: asleep_def)
    qed
    moreover have "\<forall>x i. less_one Z x = Some i \<longrightarrow> 0 < i" by (auto simp: less_one_def split: option.splits nat.splits)
    moreover have "counted ?k2 S L" using cn by (simp add: counted_def)
    ultimately obtain k3 L3 V3 where k3: "vt_fire ?k2 = Some k3" "running k3 T S (less_one Z) L3 V3 {}" "r_current k3 = ?c"
      "\<And>x. ThreadVt x \<in> set V \<Longrightarrow> due ?k2 V (ThreadVt x) = 0 \<Longrightarrow> p_state (k_thd k3 x) = READY" "woken T ?c ?k2 k3"
      using vt_fire_ok [OF b2 _ t2, of "less_one Z"] f(3) cc by auto
    have "chVTDoTickI k0 = Some k3" using n k3(1) by (simp add: chVTDoTickI_def Let_def k1_def)
    moreover have "p_state (k_thd k3 x) = READY" if "Z x = Some 1" for x
      using a that k3(4) [of x] du [of "ThreadVt x"] by (auto simp: asleep_def)
    moreover have "ticked T k k3" unfolding ticked_def using f k3(5) by (intro exI [of _ ?k2]) auto
    ultimately show ?thesis using h k3 by auto
  qed
qed

lemma int_exit_ok:
  assumes r: "running k T S Z L V {}"
  shows "\<exists>k' L' V'. ALT_OS_INT_EXIT k = Some k' \<and> kinv k' T S Z L' V'"
  unfolding ALT_OS_INT_EXIT_def using not_preempt_top [OF r] by (intro preemption_ok [OF r]) blast

subsection \<open>New threads and semaphores\<close>

lemma heads_insert: "heads (insert t T) S = insert (MsgQueue t) (insert (Waiting t) (heads T S))"
  by (auto simp: heads_def)

lemma base_elems: "base k T S L V X \<Longrightarrow> q \<in> heads T S \<Longrightarrow> set (L q) \<subseteq> T"
  using placed_iff [OF base_placed] by blast

lemma home_known:
  assumes b: "base k T S L V X" and t: "t \<in> T" "t \<notin> X" and h: "home (k_thd k t) = Some q"
  shows "q \<in> heads T S"
  using h base_status [OF b t] by (auto simp: home_def status_ok_def waiting_def split: tstate.splits thd_u.splits resume_at.splits)

lemma create_fields:
  "k_links (chThdCreateI t p k) = queue_init (MsgQueue t) (list_init (Waiting t) (k_links k))" "k_prio (chThdCreateI t p k) = (k_prio k)(t := p)"
  "s_cnt (chThdCreateI t p k) = s_cnt k" "r_current (chThdCreateI t p k) = r_current k" "vt_links (chThdCreateI t p k) = vt_links k"
  "vt_time (chThdCreateI t p k) = vt_time k" "vt_func (chThdCreateI t p k) = vt_func k" "vt_par (chThdCreateI t p k) = vt_par k"
  "u \<noteq> t \<Longrightarrow> k_thd (chThdCreateI t p k) u = k_thd k u" "p_state (k_thd (chThdCreateI t p k) t) = SUSPENDED" "p_ctx (k_thd (chThdCreateI t p k) t) = R_user"
  by (simp_all add: chThdCreateI_def thread_init_def Let_def REG_INSERT_def set_defs)

lemma create_base:
  assumes b: "base k T S L V X" and t: "t \<in> range Thd" "t \<notin> T" and p: "p \<noteq> 0" and v: "ThreadVt t \<notin> set V"
  shows "base (chThdCreateI t p k) (insert t T) S (L(Waiting t := [], MsgQueue t := [])) V (insert t X)"
proof (rule baseI)
  let ?k = "chThdCreateI t p k" let ?L = "L(Waiting t := [], MsgQueue t := [])"
  note f = create_fields
  have S: "S \<subseteq> range SemQueue" and T: "T \<subseteq> range Thd" by (rule base_sems [OF b], rule base_threads [OF b])
  have nw: "Waiting t \<notin> heads T S" "MsgQueue t \<notin> heads T S" using t(2) S by (auto simp: heads_def)
  have ew: "Waiting t \<notin> set (L r)" "MsgQueue t \<notin> set (L r)" if "r \<in> heads T S" for r using base_elems [OF b that] T by auto
  have q1: "queues single (list_init (Waiting t) (k_links k)) (insert (Waiting t) (heads T S)) (L(Waiting t := []))"
    using nw(1) ew(1) by (intro queues_new [OF base_queues [OF b]]) (auto simp: rep_def sring_def list_init_def)
  have "queues single (queue_init (MsgQueue t) (list_init (Waiting t) (k_links k))) (insert (MsgQueue t) (insert (Waiting t) (heads T S))) ?L"
    using nw(2) ew(2) by (intro queues_new [OF q1]) (auto simp: rep_def queue_init_def ring_def)
  then show "queues single (k_links ?k) (heads (insert t T) S) ?L" by (simp add: f heads_insert)
  show "placed ?k (insert t T) S ?L (insert t X)"
    unfolding placed_def
  proof (intro ballI allI)
    fix q u assume "q \<in> heads (insert t T) S"
    then have "q = MsgQueue t \<or> q = Waiting t \<or> q \<in> heads T S" by (simp add: heads_insert)
    then show "(u \<in> set (?L q)) = (u \<in> insert t T \<and> u \<notin> insert t X \<and> home (k_thd ?k u) = Some q)"
    proof (elim disjE)
      assume q: "q \<in> heads T S"
      then have "?L q = L q" using nw by auto
      moreover have "t \<notin> set (L q)" using base_elems [OF b q] t(2) by auto
      ultimately show ?thesis using placed_iff [OF base_placed [OF b] q, of u] f(9) by (cases "u = t") auto
    qed (use home_known [OF b] nw f(9) in fastforce)+
  qed
  have nR: "t \<noteq> Rlist" using t(1) by auto
  have "t \<notin> set (L Rlist)" using base_elems [OF b, of Rlist] t(2) by auto
  then show "by_prio (k_prio ?k) (?L Rlist)" using base_sorted [OF b] by (subst by_prio_cong [where prio = "k_prio k"]) (auto simp: f)
  show "k_prio ?k Rlist = 0" using base_noprio [OF b] nR by (simp add: f)
  show "k_prio ?k u \<noteq> 0" if "u \<in> insert t T" for u using that base_prio [OF b] p by (auto simp: f)
  show "status_ok ?k (insert t T) S ?L V u" if "u \<in> insert t T" "u \<notin> insert t X" for u
    using base_status [OF b, of u] that by (auto simp: status_ok_def waiting_def f)
  show "loose_ok ?k ?L V u" if "u \<in> insert t X" for u
    using base_loose [OF b, of u] that v base_sub [OF b] t(2) by (cases "u = t") (auto simp: loose_ok_def resting_def f)
  show "idle_thread \<in> insert t X \<or> p_state (k_thd ?k idle_thread) = READY" using base_idle [OF b] by (cases "idle_thread = t") (auto simp: f)
qed (use baseD [OF b] t in auto)

lemma create_running:
  assumes k: "kinv k T S Z L V" and t: "t \<in> range Thd" "t \<notin> T" and p: "p \<noteq> 0"
  shows "\<exists>L'. running (chThdCreateI t p k) (insert t T) S Z L' V {t} \<and> highest (chThdCreateI t p k) L'"
proof -
  let ?c = "r_current k" let ?k = "chThdCreateI t p k" let ?L = "L(Waiting t := [], MsgQueue t := [])"
  note f = create_fields
  have tm: "timers k T V" using k by (simp add: kinv_def)
  have v: "ThreadVt t \<notin> set V" using timers_thread [OF tm] t(2) by auto
  have tc: "t \<noteq> ?c" using kinv_cur [OF k] t(2) by auto
  have b: "base ?k (insert t T) S ?L V {t, ?c}" using create_base [OF kinv_base [OF k] t p v] .
  have "s \<noteq> Waiting t \<and> s \<noteq> MsgQueue t" if "s \<in> S" for s using base_sems [OF kinv_base [OF k]] that by auto
  then have "counted ?k S ?L" using k by (auto simp: kinv_def counted_def f)
  moreover have "timers ?k (insert t T) V" using tm by (auto simp: timers_def deltas_def f)
  moreover have "asleep ?k V {t, ?c} Z"
  proof -
    have "due ?k V w = due k V w" for w by (rule due_cong) (simp add: f)
    moreover have "x \<noteq> t" if "Z x = Some m" for x m using k that v by (auto simp: kinv_def asleep_def)
    ultimately show ?thesis using k by (auto simp: kinv_def asleep_def f)
  qed
  ultimately have "settled ?k (insert t T) S Z ?L V {?c, t}" using k b by (simp add: settled_def kinv_def f insert_commute)
  then have "running ?k (insert t T) S Z ?L V {t}" using k tc by (auto simp: running_def kinv_def f)
  moreover have "highest ?k ?L"
  proof -
    have "t \<notin> set (L Rlist)" using base_elems [OF kinv_base [OF k], of Rlist] t(2) by auto
    then show ?thesis using k tc by (auto simp: kinv_def highest_def f)
  qed
  ultimately show ?thesis by blast
qed

lemma running_hand_upd:
  assumes r: "running k T S Z L V {t}" and h: "highest k L" and p: "\<And>x. p_ctx (f x) = p_ctx x"
  shows "running (upd t f k) T S Z L V {t} \<and> highest (upd t f k) L"
  using running_upd [OF r, of t f] h p by (simp add: highest_def)

lemma running_ret: "running k T S Z L V {t} \<Longrightarrow> running (set_ret (r_current k) v k) T S Z L V {t}"
proof -
  assume r: "running k T S Z L V {t}"
  let ?k = "set_ret (r_current k) v k"
  have st: "settled k T S Z L V {r_current k, t}" using r by (simp add: running_def)
  have "base ?k T S L V {r_current k, t}" unfolding set_ret_def using st by (intro base_upd_simple) (auto simp: settled_def)
  then have "settled ?k T S Z L V {r_current k, t}" by (intro settled_rest [OF st]) (auto simp: set_defs)
  then show ?thesis using r by (simp add: running_def set_ret_def)
qed

lemma chThdCreateStatic_ok:
  assumes k: "kinv k T S Z L V" and t: "t \<in> range Thd" "t \<notin> T" and p: "p \<noteq> 0"
  shows "\<exists>k' L' V'. chThdCreateStatic t p k = Some k' \<and> kinv k' (insert t T) S Z L' V'"
proof -
  obtain L1 where r: "running (chThdCreateI t p k) (insert t T) S Z L1 V {t}" and h: "highest (chThdCreateI t p k) L1"
    using create_running [OF assms] by blast
  from chSchWakeupS_ok [OF running_ret [OF r], of "V_thd t" RDY_OK] h show ?thesis
    by (simp add: chThdCreateStatic_def create_fields highest_def set_ret_def)
qed

lemma create_with_ok:
  assumes k: "kinv k T S Z L V" and t: "t \<in> range Thd" "t \<notin> T" and p: "p \<noteq> 0" and f: "\<And>x. p_ctx (f x) = p_ctx x"
  shows "\<exists>k' L' V'. (let k = upd t f (chThdCreateI t p k) in chSchWakeupS t RDY_OK (set_ret (r_current k) (V_thd t) k)) = Some k' \<and> kinv k' (insert t T) S Z L' V'"
proof -
  obtain L1 where r: "running (chThdCreateI t p k) (insert t T) S Z L1 V {t}" and h: "highest (chThdCreateI t p k) L1"
    using create_running [OF k t p] by blast
  let ?k = "upd t f (chThdCreateI t p k)"
  have "running ?k (insert t T) S Z L1 V {t}" "highest ?k L1" using running_hand_upd [OF r h] f by simp_all
  from chSchWakeupS_ok [OF running_ret [OF this(1)], of "V_thd t" RDY_OK] this(2) show ?thesis
    by (simp add: create_fields highest_def set_ret_def Let_def)
qed

lemma chThdCreateFromHeap_ok:
  assumes "kinv k T S Z L V" "t \<in> range Thd" "t \<notin> T" "p \<noteq> 0"
  shows "\<exists>k' L' V'. chThdCreateFromHeap t p k = Some k' \<and> kinv k' (insert t T) S Z L' V'"
  unfolding chThdCreateFromHeap_def by (subst Let_def, rule create_with_ok [OF assms]) simp

lemma chThdCreateFromMemoryPool_ok:
  assumes "kinv k T S Z L V" "t \<in> range Thd" "t \<notin> T" "p \<noteq> 0"
  shows "\<exists>k' L' V'. chThdCreateFromMemoryPool t mp p k = Some k' \<and> kinv k' (insert t T) S Z L' V'"
  unfolding chThdCreateFromMemoryPool_def by (subst Let_def, rule create_with_ok [OF assms]) simp

text \<open>A thread created in the suspended state stays out of every queue.\<close>

lemma chThdCreateI_ok:
  assumes k: "kinv k T S Z L V" and t: "t \<in> range Thd" "t \<notin> T" and p: "p \<noteq> 0"
  shows "\<exists>L'. kinv (chThdCreateI t p k) (insert t T) S Z L' V"
proof -
  let ?k = "chThdCreateI t p k"
  obtain L1 where r: "running ?k (insert t T) S Z L1 V {t}" and h: "highest ?k L1" using create_running [OF assms] by blast
  have b: "base ?k (insert t T) S L1 V {r_current k, t}" using running_base [OF r] by (simp add: create_fields)
  have tc: "t \<noteq> r_current k" using kinv_cur [OF k] t(2) by auto
  have ti: "t \<noteq> idle_thread" using base_idle [OF kinv_base [OF k]] t(2) by auto
  have v: "ThreadVt t \<notin> set V" using base_loose [OF b, of t] by (auto simp: loose_ok_def resting_def create_fields)
  have "base ?k (insert t T) S L1 V ({r_current k, t} - {t})"
  proof (rule settle_base [OF b _ ti])
    show "k_thd ?k = (k_thd ?k)(t := k_thd ?k t)" by simp
    show "status_ok ?k (insert t T) S L1 V t" using v by (auto simp: status_ok_def waiting_def create_fields)
  qed (simp_all add: home_def create_fields)
  moreover have "{r_current k, t} - {t} = {r_current k}" using tc by auto
  moreover have st: "settled ?k (insert t T) S Z L1 V {r_current k, t}" using r by (simp add: running_def create_fields)
  ultimately have "settled ?k (insert t T) S Z L1 V {r_current k}" by (intro settled_rest [OF st]) auto
  then show ?thesis using r h by (auto simp: kinv_running running_def create_fields)
qed

lemma chSemInit_ok:
  assumes k: "kinv k T S Z L V" and s: "s \<in> range SemQueue" "s \<notin> S" and n: "0 \<le> n"
  shows "kinv (chSemInit s n k) T (insert s S) Z (L(s := [])) V"
proof -
  let ?k = "chSemInit s n k" let ?c = "r_current k" let ?L = "L(s := [])"
  have f: "k_links ?k = queue_init s (k_links k)" "k_prio ?k = k_prio k" "k_thd ?k = k_thd k" "vt_func ?k = vt_func k" "r_current ?k = ?c"
    "vt_time ?k = vt_time k" "vt_links ?k = vt_links k" "vt_par ?k = vt_par k" "s_cnt ?k = (s_cnt k)(s := n)"
    by (simp_all add: chSemInit_def)
  have b: "base k T S L V {?c}" by (rule kinv_base [OF k])
  have T: "T \<subseteq> range Thd" by (rule base_threads [OF b])
  have H: "heads T (insert s S) = insert s (heads T S)" by (auto simp: heads_def)
  have nh: "s \<notin> heads T S" using s T by (auto simp: heads_def)
  have ne: "s \<notin> set (L r)" if "r \<in> heads T S" for r using base_elems [OF b that] T s(1) by auto
  have m: "?L (MsgQueue t) = L (MsgQueue t)" for t using s(1) by auto
  have "base ?k T (insert s S) ?L V {?c}"
  proof (rule baseI)
    show "queues single (k_links ?k) (heads T (insert s S)) ?L"
      unfolding f H using nh ne s(1) by (intro queues_new [OF base_queues [OF b]]) (auto simp: rep_def queue_init_def ring_def)
    show "placed ?k T (insert s S) ?L {?c}" unfolding placed_def f
    proof (intro ballI allI)
      fix q t assume "q \<in> heads T (insert s S)"
      then have "q = s \<or> q \<in> heads T S" by (simp add: H)
      then show "(t \<in> set (?L q)) = (t \<in> T \<and> t \<notin> {?c} \<and> home (k_thd k t) = Some q)"
      proof
        assume "q = s"
        then show ?thesis using home_known [OF b, of t q] nh by auto
      next
        assume q: "q \<in> heads T S"
        then have "?L q = L q" using nh by auto
        then show ?thesis using placed_iff [OF base_placed [OF b] q, of t] by simp
      qed
    qed
    show "by_prio (k_prio ?k) (?L Rlist)" using base_sorted [OF b] s(1) by (auto simp: f)
    show "status_ok ?k T (insert s S) ?L V t" if "t \<in> T" "t \<notin> {?c}" for t
      using base_status [OF b that] m by (auto simp: status_ok_def waiting_def f)
    show "loose_ok ?k ?L V t" if "t \<in> {?c}" for t using base_loose [OF b that] m by (simp add: loose_ok_def f)
  qed (use baseD [OF b] s(1) f in auto)
  moreover have "counted ?k (insert s S) ?L" using k n s(2) by (auto simp: kinv_def counted_def f)
  moreover have "timers ?k T V" using k timers_cong [of k T V ?k] by (simp add: kinv_def f)
  moreover have "asleep ?k V {?c} Z" using k due_cong [of ?k k V] by (simp add: kinv_def asleep_def f)
  moreover have "?L Rlist = L Rlist" using s(1) by auto
  ultimately show ?thesis using k by (simp add: kinv_def f)
qed

subsection \<open>The start\<close>

lemma chSysInit_ok: "\<exists>k L V. chSysInit k0 = Some k \<and> r_current k = mainthread \<and> kinv k {mainthread, idle_thread} {} Map.empty L V"
proof -
  define k1 where "k1 = set_state mainthread CURRENT ((thread_init mainthread NORMALPRIO (set_ctx mainthread R_user (vt_init (scheduler_init k0))))\<lparr>r_current := mainthread\<rparr>)"
  define k2 where "k2 = set_u idle_thread (U_msg RDY_OK) (set_ret mainthread (V_thd idle_thread) (chThdCreateI idle_thread IDLEPRIO k1))"
  let ?h = "k_links k2" let ?k = "(set_state idle_thread READY k2)\<lparr>k_links := link_before idle_thread Rlist ?h\<rparr>"
  have d: "mainthread \<noteq> idle_thread" by (simp add: mainthread_def idle_thread_def)
  have p: "k_prio k2 = (k_prio k0)(Rlist := 0, mainthread := 64, idle_thread := 1)" "r_current k2 = mainthread"
    by (simp_all add: k2_def k1_def create_fields set_defs thread_init_def Let_def REG_INSERT_def vt_init_def scheduler_init_def NORMALPRIO_def IDLEPRIO_def NOPRIO_def)
  have h: "?h = queue_init (MsgQueue idle_thread) (list_init (Waiting idle_thread)
      (queue_init (MsgQueue mainthread) (list_init (Waiting mainthread) (queue_init Rlist (k_links k0)))))"
    by (simp add: k2_def k1_def create_fields set_defs thread_init_def Let_def REG_INSERT_def vt_init_def scheduler_init_def)
  have pr: "k_prio k2 Rlist = 0" "k_prio k2 mainthread = 64" "k_prio k2 idle_thread = 1" using d by (simp_all add: p mainthread_def idle_thread_def)
  have n: "p_next ?h Rlist = Rlist" by (simp add: h queue_init_def list_init_def)
  have "ready_search (k_prio k2) ?h 1 Rlist = Some Rlist" using n pr(1) by (subst ready_search.simps) simp
  then have r: "chSchReadyI idle_thread k2 = Some ?k" using pr by (simp add: chSchReadyI_def Let_def set_defs)
  have "chSysInit k0 = chThdCreateStatic idle_thread IDLEPRIO k1" by (simp add: chSysInit_def Let_def k1_def)
  also have "\<dots> = Some ?k"
  proof -
    have c: "r_current k1 = mainthread" by (simp add: k1_def set_defs)
    have "k_prio k2 idle_thread \<le> k_prio k2 (r_current k2)" using pr p(2) by simp
    then show ?thesis using r unfolding chThdCreateStatic_def chSchWakeupS_def Let_def c k2_def [symmetric] by simp
  qed
  finally have run: "chSysInit k0 = Some ?k" .
  have th: "p_state (k_thd ?k mainthread) = CURRENT" "p_ctx (k_thd ?k mainthread) = R_user" "p_state (k_thd ?k idle_thread) = READY" "p_ctx (k_thd ?k idle_thread) = R_user"
    using d by (simp_all add: k2_def k1_def create_fields set_defs thread_init_def Let_def REG_INSERT_def)
  have vt: "vt_links ?k = queue_init VtList (vt_links k0)" "vt_time ?k VtList = 0xffffffff"
    by (simp_all add: k2_def k1_def create_fields set_defs thread_init_def Let_def REG_INSERT_def vt_init_def scheduler_init_def)
  let ?L = "\<lambda>q. if q = Rlist then [idle_thread] else [] :: kptr list" let ?T = "{mainthread, idle_thread}"
  have H: "heads ?T {} = {Rlist, Waiting mainthread, Waiting idle_thread, MsgQueue mainthread, MsgQueue idle_thread}" by (auto simp: heads_def)
  have "base ?k ?T {} ?L [] {mainthread}"
  proof (rule baseI)
    show "queues single (k_links ?k) (heads ?T {}) ?L"
      unfolding H by (simp add: queues_def rep_def single_def ring_def sring_def h link_before_def Let_def queue_init_def list_init_def mainthread_def idle_thread_def)
    show "placed ?k ?T {} ?L {mainthread}" using d th by (auto simp: placed_def home_def H)
    show "status_ok ?k ?T {} ?L [] t" if "t \<in> ?T" "t \<notin> {mainthread}" for t using that th by (auto simp: status_ok_def waiting_def)
    show "loose_ok ?k ?L [] t" if "t \<in> {mainthread}" for t using that th by (auto simp: loose_ok_def resting_def)
    show "k_prio ?k t \<noteq> 0" if "t \<in> ?T" for t using that pr by (auto simp: set_defs)
  qed (use th pr in \<open>auto simp: by_prio_def mainthread_def idle_thread_def set_defs\<close>)
  moreover have "timers ?k ?T []" using vt by (simp add: timers_def ring_init)
  ultimately have "kinv ?k ?T {} Map.empty ?L []"
    using th pr p by (simp add: kinv_def counted_def asleep_def set_defs)
  then show ?thesis using run p(2) by (intro exI [of _ ?k] exI [of _ ?L]) (auto simp: set_defs)
qed

end
