(* ===== verification/Ch_Runs.thy ===== *)
theory Ch_Runs
  imports Ch_System
begin

text \<open>
  Histories of the kernel: it is started, then threads call it and interrupts come, in any order
  the rules of the calls allow. What holds in every state such a history reaches.
\<close>

subsection \<open>Calls and interrupts\<close>

text \<open>What the service routines of one interrupt do.\<close>

datatype isr = I_tick | I_signal kptr | I_add kptr nat | I_reset kptr int

fun isr_run :: "isr \<Rightarrow> kernel \<Rightarrow> kernel option" where
  "isr_run I_tick k = port_time_tick k"
| "isr_run (I_signal s) k = chSemSignalI s k"
| "isr_run (I_add s n) k = chSemAddCounterI s n k"
| "isr_run (I_reset s n) k = chSemResetI s n k"

fun isrs_run :: "isr list \<Rightarrow> kernel \<Rightarrow> kernel option" where
  "isrs_run [] k = Some k"
| "isrs_run (i # is) k = do { k \<leftarrow> isr_run i k; isrs_run is k }"

datatype kevent =
    Create kptr u32 | CreateHeap kptr u32 | CreatePool kptr u32 u32 | CreateSuspended kptr u32 | SetPriority u32 | Resume kptr | Terminate kptr
  | AddRef kptr | Release kptr | RegFirst | RegNext kptr
  | Sleep u32 | SleepUntil u32 | Yield | Exit int | Join kptr
  | MsgSend kptr int | MsgWait | MsgRelease kptr int
  | SemInit kptr int | SemReset kptr int | SemWait kptr | SemWaitTimeout kptr u32 | SemSignal kptr | SemSignalWait kptr kptr
  | Interrupt "isr list"

fun event_run :: "kevent \<Rightarrow> kernel \<Rightarrow> kernel option" where
  "event_run (Create t p) k = chThdCreateStatic t p k"
| "event_run (CreateHeap t p) k = chThdCreateFromHeap t p k"
| "event_run (CreatePool t mp p) k = chThdCreateFromMemoryPool t mp p k"
| "event_run (CreateSuspended t p) k = Some (chThdCreateI t p k)"
| "event_run (SetPriority p) k = chThdSetPriority p k"
| "event_run (Resume t) k = chThdResume t k"
| "event_run (Terminate t) k = Some (chThdTerminate t k)"
| "event_run (AddRef t) k = Some (chThdAddRef t k)"
| "event_run (Release t) k = Some (chThdRelease t k)"
| "event_run RegFirst k = Some (snd (chRegFirstThread k))"
| "event_run (RegNext t) k = Some (snd (chRegNextThread t k))"
| "event_run (Sleep n) k = chThdSleep n k"
| "event_run (SleepUntil n) k = chThdSleepUntil n k"
| "event_run Yield k = chThdYield k"
| "event_run (Exit m) k = chThdExit m k"
| "event_run (Join t) k = Some (chThdWait t k)"
| "event_run (MsgSend t m) k = chMsgSend t m k"
| "event_run MsgWait k = Some (chMsgWait k)"
| "event_run (MsgRelease t m) k = chMsgRelease t m k"
| "event_run (SemInit s n) k = Some (chSemInit s n k)"
| "event_run (SemReset s n) k = chSemReset s n k"
| "event_run (SemWait s) k = Some (chSemWait s k)"
| "event_run (SemWaitTimeout s n) k = chSemWaitTimeout s n k"
| "event_run (SemSignal s) k = chSemSignal s k"
| "event_run (SemSignalWait s w) k = chSemSignalWait s w k"
| "event_run (Interrupt is) k = do { k \<leftarrow> isrs_run is k; ALT_OS_INT_EXIT k }"

text \<open>
  The rules of the calls, which the kernel would check with its debug options on: objects are
  initialised once and before their use, a priority is not \<open>NOPRIO\<close>, a sleep is not of zero ticks,
  a thread that is resumed is suspended and one that is released has sent a message. The idle
  thread makes no call.
\<close>

fun isr_allowed :: "kptr set \<Rightarrow> isr \<Rightarrow> bool" where
  "isr_allowed S I_tick \<longleftrightarrow> True"
| "isr_allowed S (I_signal s) \<longleftrightarrow> s \<in> S"
| "isr_allowed S (I_add s n) \<longleftrightarrow> s \<in> S"
| "isr_allowed S (I_reset s n) \<longleftrightarrow> s \<in> S \<and> 0 \<le> n"

fun call_allowed :: "kptr set \<Rightarrow> kptr set \<Rightarrow> kernel \<Rightarrow> kevent \<Rightarrow> bool" where
  "call_allowed T S k (Create t p) \<longleftrightarrow> t \<in> range Thd \<and> t \<notin> T \<and> p \<noteq> NOPRIO"
| "call_allowed T S k (CreateHeap t p) \<longleftrightarrow> t \<in> range Thd \<and> t \<notin> T \<and> p \<noteq> NOPRIO"
| "call_allowed T S k (CreatePool t mp p) \<longleftrightarrow> t \<in> range Thd \<and> t \<notin> T \<and> p \<noteq> NOPRIO"
| "call_allowed T S k (CreateSuspended t p) \<longleftrightarrow> t \<in> range Thd \<and> t \<notin> T \<and> p \<noteq> NOPRIO"
| "call_allowed T S k (SetPriority p) \<longleftrightarrow> p \<noteq> NOPRIO"
| "call_allowed T S k (Resume t) \<longleftrightarrow> t \<in> T \<and> state_of k t = SUSPENDED"
| "call_allowed T S k (Terminate t) \<longleftrightarrow> t \<in> T"
| "call_allowed T S k (AddRef t) \<longleftrightarrow> t \<in> T"
| "call_allowed T S k (Release t) \<longleftrightarrow> t \<in> T"
| "call_allowed T S k RegFirst \<longleftrightarrow> True"
| "call_allowed T S k (RegNext t) \<longleftrightarrow> t \<in> T"
| "call_allowed T S k (Sleep n) \<longleftrightarrow> n \<noteq> TIME_IMMEDIATE"
| "call_allowed T S k (SleepUntil n) \<longleftrightarrow> True"
| "call_allowed T S k Yield \<longleftrightarrow> True"
| "call_allowed T S k (Exit m) \<longleftrightarrow> True"
| "call_allowed T S k (Join t) \<longleftrightarrow> t \<in> T"
| "call_allowed T S k (MsgSend t m) \<longleftrightarrow> t \<in> T"
| "call_allowed T S k MsgWait \<longleftrightarrow> True"
| "call_allowed T S k (MsgRelease t m) \<longleftrightarrow> t \<in> T \<and> state_of k t = SNDMSG"
| "call_allowed T S k (SemInit s n) \<longleftrightarrow> s \<in> range SemQueue \<and> s \<notin> S \<and> 0 \<le> n"
| "call_allowed T S k (SemReset s n) \<longleftrightarrow> s \<in> S \<and> 0 \<le> n"
| "call_allowed T S k (SemWait s) \<longleftrightarrow> s \<in> S"
| "call_allowed T S k (SemWaitTimeout s n) \<longleftrightarrow> s \<in> S"
| "call_allowed T S k (SemSignal s) \<longleftrightarrow> s \<in> S"
| "call_allowed T S k (SemSignalWait s w) \<longleftrightarrow> s \<in> S \<and> w \<in> S"
| "call_allowed T S k (Interrupt is) \<longleftrightarrow> False"

definition allowed :: "kptr set \<Rightarrow> kptr set \<Rightarrow> kernel \<Rightarrow> kevent \<Rightarrow> bool" where
  "allowed T S k e \<longleftrightarrow> (case e of Interrupt is \<Rightarrow> list_all (isr_allowed S) is
     | _ \<Rightarrow> r_current k \<noteq> idle_thread \<and> call_allowed T S k e)"

text \<open>The threads and the semaphores there are after an event.\<close>

fun threads_after :: "kevent \<Rightarrow> kptr set \<Rightarrow> kptr set" where
  "threads_after (Create t p) T = insert t T"
| "threads_after (CreateHeap t p) T = insert t T"
| "threads_after (CreatePool t mp p) T = insert t T"
| "threads_after (CreateSuspended t p) T = insert t T"
| "threads_after _ T = T"

fun sems_after :: "kevent \<Rightarrow> kptr set \<Rightarrow> kptr set" where
  "sems_after (SemInit s n) S = insert s S"
| "sems_after _ S = S"

text \<open>One event, and histories. A state is the kernel's with the threads and semaphores in use.\<close>

type_synonym ksystem = "kernel \<times> kptr set \<times> kptr set"

inductive kstep :: "ksystem \<Rightarrow> kevent \<Rightarrow> ksystem \<Rightarrow> bool" where
  "allowed T S k e \<Longrightarrow> event_run e k = Some k' \<Longrightarrow> kstep (k, T, S) e (k', threads_after e T, sems_after e S)"

inductive ksteps :: "ksystem \<Rightarrow> kevent list \<Rightarrow> ksystem \<Rightarrow> bool" where
  none: "ksteps s [] s"
| more_steps: "ksteps s es s' \<Longrightarrow> kstep s' e s'' \<Longrightarrow> ksteps s (es @ [e]) s''"

inductive kernel_runs :: "ksystem \<Rightarrow> bool" where
  started: "chSysInit k0 = Some k \<Longrightarrow> kernel_runs (k, {mainthread, idle_thread}, {})"
| event: "kernel_runs s \<Longrightarrow> kstep s e s' \<Longrightarrow> kernel_runs s'"

inductive_simps kstep_iff: "kstep (k, T, S) e s'"
inductive_cases kstepsE: "ksteps s es s'"

fun ticks :: "kevent list \<Rightarrow> nat" where
  "ticks [] = 0"
| "ticks (Interrupt is # es) = count_list is I_tick + ticks es"
| "ticks (_ # es) = ticks es"

subsection \<open>Every event keeps the invariant\<close>

definition after_ticks :: "nat \<Rightarrow> (kptr \<rightharpoonup> nat) \<Rightarrow> kptr \<rightharpoonup> nat" where
  "after_ticks n = less_one ^^ n"

lemma after_ticks_Suc: "after_ticks (Suc n) Z = after_ticks n (less_one Z)"
  by (simp add: after_ticks_def funpow_swap1)

lemma after_ticks_Some: "Z t = Some m \<Longrightarrow> n < m \<Longrightarrow> after_ticks n Z t = Some (m - n)"
proof (induction n)
  case (Suc n)
  then obtain j where "m - n = Suc (Suc j)" by (metis Suc_diff_Suc less_SucI Suc_lessD)
  then show ?case using Suc by (simp add: after_ticks_def less_one_def)
qed (simp add: after_ticks_def)

text \<open>The ticks each sleeping thread still has to wait.\<close>

fun sleepers_after :: "kevent \<Rightarrow> kernel \<Rightarrow> (kptr \<rightharpoonup> nat) \<Rightarrow> kptr \<rightharpoonup> nat" where
  "sleepers_after (Sleep n) k Z = (if n = TIME_INFINITE then Z else Z(r_current k \<mapsto> unat n))"
| "sleepers_after (SleepUntil n) k Z =
     (if n - chTimeNow k \<in> {0, TIME_INFINITE} then Z else Z(r_current k \<mapsto> unat (n - chTimeNow k)))"
| "sleepers_after (Interrupt is) k Z = after_ticks (count_list is I_tick) Z"
| "sleepers_after _ k Z = Z"

lemma isr_run_ok:
  assumes "running k T S Z L V {}" "isr_allowed S i"
  shows "\<exists>k' L' V'. isr_run i k = Some k' \<and> running k' T S (if i = I_tick then less_one Z else Z) L' V' {}"
  using assms tick_ok [OF assms(1)] chSemSignalI_ok [OF assms(1)] chSemAddCounterI_ok [OF assms(1)] chSemResetI_ok [OF assms(1)]
  by (cases i) (simp_all add: port_time_tick_def, blast+)

lemma isrs_run_ok:
  "running k T S Z L V {} \<Longrightarrow> list_all (isr_allowed S) is \<Longrightarrow>
    \<exists>k' L' V'. isrs_run is k = Some k' \<and> running k' T S (after_ticks (count_list is I_tick) Z) L' V' {}"
proof (induction "is" arbitrary: k Z L V)
  case Nil
  then show ?case by (auto simp: after_ticks_def)
next
  case (Cons i "is")
  obtain k1 L1 V1 where k1: "isr_run i k = Some k1" "running k1 T S (if i = I_tick then less_one Z else Z) L1 V1 {}"
    using isr_run_ok [of k T S Z L V i] Cons.prems by auto
  then show ?case using Cons.IH [OF k1(2)] Cons.prems by (cases "i = I_tick") (simp_all add: after_ticks_Suc)
qed

lemma interrupt_ok:
  assumes k: "kinv k T S Z L V" and i: "list_all (isr_allowed S) is"
  shows "\<exists>k' L' V'. event_run (Interrupt is) k = Some k' \<and> kinv k' T S (after_ticks (count_list is I_tick) Z) L' V'"
proof -
  have "running k T S Z L V {}" using k by (simp add: kinv_running)
  from isrs_run_ok [OF this i] obtain k1 L1 V1 where
    "isrs_run is k = Some k1" "running k1 T S (after_ticks (count_list is I_tick) Z) L1 V1 {}" by blast
  then show ?thesis using int_exit_ok by fastforce
qed

lemma event_run_ok:
  assumes k: "kinv k T S Z L V" and a: "allowed T S k e"
  shows "\<exists>k' L' V'. event_run e k = Some k' \<and> kinv k' (threads_after e T) (sems_after e S) (sleepers_after e k Z) L' V'"
proof (cases e)
  case (Interrupt "is")
  then show ?thesis using interrupt_ok [OF k, of "is"] a by (simp add: allowed_def)
next
  case (Sleep n)
  then show ?thesis using chThdSleep_ok [OF k, of n] a by (simp add: allowed_def TIME_IMMEDIATE_def)
next
  case (SleepUntil n)
  then show ?thesis using chThdSleepUntil_ok [OF k, of n] a by (simp add: allowed_def)
next
  case (SetPriority p)
  then show ?thesis using chThdSetPriority_ok [OF k, of p] a by (simp add: allowed_def NOPRIO_def)
next
  case Yield
  then show ?thesis using chSchDoYieldS_ok [OF k] by (simp add: chThdYield_def)
next
  case (SemInit s n)
  then show ?thesis using chSemInit_ok [OF k, of s n] a by (auto simp: allowed_def)
next
  case (Terminate t)
  then show ?thesis using chThdTerminate_ok [OF k, of t] by auto
next
  case (Create t p)
  then show ?thesis using chThdCreateStatic_ok [OF k, of t p] a by (auto simp: allowed_def NOPRIO_def)
next
  case (CreateHeap t p)
  then show ?thesis using chThdCreateFromHeap_ok [OF k, of t p] a by (auto simp: allowed_def NOPRIO_def)
next
  case (CreatePool t mp p)
  then show ?thesis using chThdCreateFromMemoryPool_ok [OF k, of t p mp] a by (auto simp: allowed_def NOPRIO_def)
next
  case (AddRef t)
  then show ?thesis using chThdAddRef_ok [OF k, of t] by auto
next
  case (Release t)
  then show ?thesis using kinv_release [OF k, of t] by auto
next
  case RegFirst
  then show ?thesis using registry_ok(1) [OF k] by auto
next
  case (RegNext t)
  then show ?thesis using registry_ok(2) [OF k, of t] by auto
next
  case (CreateSuspended t p)
  then show ?thesis using chThdCreateI_ok [OF k, of t p] a by (auto simp: allowed_def NOPRIO_def)
next
  case (Resume t)
  then show ?thesis using chThdResume_ok [OF k, of t] a by (auto simp: allowed_def NOPRIO_def)
next
  case (Exit m)
  then show ?thesis using chThdExit_ok [OF k, of m] a by (auto simp: allowed_def NOPRIO_def)
next
  case (Join t)
  then show ?thesis using chThdWait_ok [OF k, of t] a by (auto simp: allowed_def NOPRIO_def)
next
  case (MsgSend t m)
  then show ?thesis using chMsgSend_ok [OF k, of t m] a by (auto simp: allowed_def NOPRIO_def)
next
  case MsgWait
  then show ?thesis using chMsgWait_ok [OF k] a by (auto simp: allowed_def NOPRIO_def)
next
  case (MsgRelease t m)
  then show ?thesis using chMsgRelease_ok [OF k, of t m] a by (auto simp: allowed_def NOPRIO_def)
next
  case (SemReset s n)
  then show ?thesis using chSemReset_ok [OF k, of s n] a by (auto simp: allowed_def NOPRIO_def)
next
  case (SemWait s)
  then show ?thesis using chSemWait_ok [OF k, of s] a by (auto simp: allowed_def NOPRIO_def)
next
  case (SemWaitTimeout s n)
  then show ?thesis using chSemWaitTimeout_ok [OF k _ , of s n] a by (auto simp: allowed_def NOPRIO_def)
next
  case (SemSignal s)
  then show ?thesis using chSemSignal_ok [OF k, of s] a by (auto simp: allowed_def NOPRIO_def)
next
  case (SemSignalWait s w)
  then show ?thesis using chSemSignalWait_ok [OF k, of s w] a by (auto simp: allowed_def NOPRIO_def)
qed

lemma runs_inv: "kernel_runs s \<Longrightarrow> \<exists>Z L V. kinv (fst s) (fst (snd s)) (snd (snd s)) Z L V"
proof (induction rule: kernel_runs.induct)
  case (started k0 k)
  then show ?case using chSysInit_ok [of k0] by auto
next
  case (event s e s')
  then obtain Z L V where "kinv (fst s) (fst (snd s)) (snd (snd s)) Z L V" by blast
  then show ?case using event(2) event_run_ok by (cases s) (fastforce simp: kstep_iff)
qed

lemma runsD: "kernel_runs (k, T, S) \<Longrightarrow> \<exists>Z L V. kinv k T S Z L V"
  using runs_inv by fastforce

lemma ticks_append: "ticks (es @ fs) = ticks es + ticks fs"
  by (induction es rule: ticks.induct) simp_all

lemma sleepers_other:
  assumes k: "kinv k T S Z L V" and z: "Z u = Some m" and m: "ticks [e] < m"
  shows "sleepers_after e k Z u = Some (m - ticks [e])"
proof -
  have "u \<noteq> r_current k" using k z by (auto simp: kinv_def asleep_def)
  then show ?thesis using z m by (cases e) (simp_all add: after_ticks_Some)
qed

lemma ksteps_sleep:
  assumes "ksteps s es s'" "kinv (fst s) (fst (snd s)) (snd (snd s)) Z L V" "Z u = Some m" "ticks es < m"
  shows "\<exists>Z' L' V'. kinv (fst s') (fst (snd s')) (snd (snd s')) Z' L' V' \<and> Z' u = Some (m - ticks es)"
  using assms
proof (induction rule: ksteps.induct)
  case (none s)
  then show ?case by auto
next
  case (more_steps s es s' e s'')
  then obtain Z1 L1 V1 where z: "kinv (fst s') (fst (snd s')) (snd (snd s')) Z1 L1 V1" "Z1 u = Some (m - ticks es)"
    by (auto simp: ticks_append)
  obtain k T S where s': "s' = (k, T, S)" by (cases s') auto
  then obtain k' where e: "allowed T S k e" "event_run e k = Some k'" "s'' = (k', threads_after e T, sems_after e S)"
    using more_steps(2) by (auto simp: kstep_iff)
  then obtain L2 V2 where "kinv k' (threads_after e T) (sems_after e S) (sleepers_after e k Z1) L2 V2"
    using event_run_ok [of k T S Z1 L1 V1 e] z(1) s' by auto
  moreover have "sleepers_after e k Z1 u = Some (m - ticks es - ticks [e])"
    using sleepers_other [of k T S Z1 L1 V1 u "m - ticks es" e] z s' more_steps(6) by (simp add: ticks_append)
  ultimately show ?case using e(3) by (auto simp: ticks_append diff_diff_add)
qed

subsection \<open>What every history keeps\<close>

text \<open>Memory before the start, all zero.\<close>

definition zeroed :: kernel where
  "zeroed = (let l = \<lparr>p_next = (\<lambda>_. Rlist), p_prev = (\<lambda>_. Rlist)\<rparr>;
       t = \<lparr>p_state = READY, p_flags = 0, p_refs = 0, p_time = 0, p_u = U_msg 0, p_msg = 0, p_realprio = 0, p_mpool = 0, p_ctx = R_user, p_ret = V_unit\<rparr>
     in \<lparr>k_links = l, k_prio = (\<lambda>_. 0), k_reg = l, k_thd = (\<lambda>_. t), r_preempt = 0, r_current = Rlist, s_cnt = (\<lambda>_. 0),
       vt_links = \<lparr>p_next = (\<lambda>_. VtList), p_prev = (\<lambda>_. VtList)\<rparr>, vt_time = (\<lambda>_. 0), vt_func = (\<lambda>_. None), vt_par = (\<lambda>_. Rlist),
       vt_systime = 0, k_freed = []\<rparr>)"

definition kernel_up :: kernel where "kernel_up = the (chSysInit zeroed)"

lemma kernel_up_inv: "\<exists>L V. kinv kernel_up {mainthread, idle_thread} {} Map.empty L V"
  and kernel_up_runs: "kernel_runs (kernel_up, {mainthread, idle_thread}, {})"
  and kernel_up_cur: "r_current kernel_up = mainthread"
proof -
  obtain k L V where k: "chSysInit zeroed = Some k" "r_current k = mainthread" "kinv k {mainthread, idle_thread} {} Map.empty L V"
    using chSysInit_ok [of zeroed] by blast
  then have "kernel_up = k" by (simp add: kernel_up_def)
  then show "\<exists>L V. kinv kernel_up {mainthread, idle_thread} {} Map.empty L V" "kernel_runs (kernel_up, {mainthread, idle_thread}, {})"
    "r_current kernel_up = mainthread" using k started [OF k(1)] by blast+
qed

lemma home_ready:
  assumes w: "waiting T S r a b c" and S: "S \<subseteq> range SemQueue"
  shows "home r = Some Rlist \<longleftrightarrow> p_state r = READY"
  using w S by (cases "p_state r") (auto simp: home_def waiting_def split: thd_u.splits resume_at.splits)

lemma home_sem:
  assumes w: "waiting T S r a b c" and s: "s \<in> range SemQueue"
  shows "home r = Some s \<longleftrightarrow> p_state r = WTSEM \<and> p_u r = U_obj s"
  using w s by (cases "p_state r") (auto simp: home_def waiting_def split: thd_u.splits resume_at.splits)

lemma queue_members:
  assumes k: "kinv k T S Z L V" and q: "q \<in> heads T S"
    and h: "\<And>r a b c. waiting T S r a b c \<Longrightarrow> home r = Some q \<longleftrightarrow> P r" and n: "\<And>r. p_state r = CURRENT \<Longrightarrow> \<not> P r"
  shows "set (L q) = {t \<in> T. P (k_thd k t)}"
proof -
  note b = kinv_base [OF k]
  have c: "\<not> P (k_thd k (r_current k))" by (rule n) (use k in \<open>simp add: kinv_def\<close>)
  have h2: "home (k_thd k t) = Some q \<longleftrightarrow> P (k_thd k t)" if t: "t \<in> T" "t \<notin> {r_current k}" for t
    using base_status [OF b t] unfolding status_ok_def by (rule h)
  have "t \<in> set (L q) \<longleftrightarrow> t \<in> T \<and> P (k_thd k t)" for t
    using placed_iff [OF base_placed [OF b] q, of t] h2 [of t] c by (cases "t = r_current k") auto
  then show ?thesis by blast
qed

lemma ready_members:
  assumes "kinv k T S Z L V"
  shows "set (L Rlist) = {t \<in> T. state_of k t = READY}"
  unfolding state_of_def using base_sems [OF kinv_base [OF assms]]
  by (intro queue_members [OF assms]) (auto simp: heads_def home_ready)

lemma sem_members:
  assumes "kinv k T S Z L V" "s \<in> S"
  shows "set (L s) = {t \<in> T. state_of k t = WTSEM \<and> p_u (k_thd k t) = U_obj s}"
  unfolding state_of_def using base_sems [OF kinv_base [OF assms(1)]] assms(2)
  by (intro queue_members [OF assms(1)] home_sem) (auto simp: heads_def)

text \<open>
  C1: in every state the kernel reaches, through any allowed history of calls and interrupts,
  exactly one thread is current; the ready list, followed through its pointers, holds exactly the
  ready threads in order of falling priority, and none of them has a higher priority than the
  current one.
\<close>

theorem highest_priority_runs:
  assumes "kernel_runs (k, T, S)"
  shows "(\<forall>t\<in>T. state_of k t = CURRENT \<longleftrightarrow> t = r_current k) \<and> r_current k \<in> T \<and>
    (\<exists>xs. ring (k_links k) Rlist xs \<and> distinct xs \<and> set xs = {t \<in> T. state_of k t = READY} \<and> by_prio (k_prio k) xs \<and>
      (\<forall>t\<in>set xs. k_prio k t \<le> k_prio k (r_current k)))"
proof -
  obtain Z L V where k: "kinv k T S Z L V" using runsD [OF assms] by blast
  note b = kinv_base [OF k]
  have r: "Rlist \<in> heads T S" by (simp add: heads_def)
  have cur: "r_current k \<in> T" "state_of k (r_current k) = CURRENT" using kinv_cur [OF k] k by (auto simp: kinv_def state_of_def)
  have one: "t = r_current k" if "t \<in> T" "state_of k t = CURRENT" for t
    using base_status [OF b, of t] that by (auto simp: status_ok_def waiting_def state_of_def)
  have "set (L Rlist) = {t \<in> T. state_of k t = READY}" by (rule ready_members [OF k])
  moreover have "ring (k_links k) Rlist (L Rlist) \<and> distinct (L Rlist)"
    using queues_ring [OF base_queues [OF b] r] by (simp add: ring_def)
  moreover have "\<forall>t\<in>set (L Rlist). k_prio k t \<le> k_prio k (r_current k)" using k by (simp add: kinv_def)
  ultimately show ?thesis using cur one base_sorted [OF b] by blast
qed

theorem highest_priority_runs_witness:
  "kernel_runs (kernel_up, {mainthread, idle_thread}, {}) \<and> r_current kernel_up = mainthread \<and> state_of kernel_up idle_thread \<noteq> CURRENT"
  using highest_priority_runs [OF kernel_up_runs] kernel_up_runs kernel_up_cur by (simp add: mainthread_def idle_thread_def)

text \<open>
  C4: in every state the kernel reaches, the counter of each semaphore is negative exactly when
  threads wait on it, minus the counter is their number, and the semaphore's queue, followed
  through its pointers, holds just these threads (the assertion \<open>chsem.c\<close> states at each call).
\<close>

theorem semaphore_counts:
  assumes "kernel_runs (k, T, S)" "s \<in> S"
  shows "((s_cnt k s \<ge> 0 \<and> isempty s (k_links k)) \<or> (s_cnt k s < 0 \<and> notempty s (k_links k))) \<and>
    (\<exists>xs. ring (k_links k) s xs \<and> distinct xs \<and> set xs = {t \<in> T. state_of k t = WTSEM \<and> p_u (k_thd k t) = U_obj s} \<and>
      int (length xs) = max 0 (- s_cnt k s))"
proof -
  obtain Z L V where k: "kinv k T S Z L V" using runsD [OF assms(1)] by blast
  have h: "s \<in> heads T S" using assms(2) by (simp add: heads_def)
  have r: "ring (k_links k) s (L s)" by (rule queues_ring [OF base_queues [OF kinv_base [OF k]] h sem_single [OF base_sems [OF kinv_base [OF k]] assms(2)]])
  have n: "int (length (L s)) = max 0 (- s_cnt k s)" using k assms(2) by (simp add: kinv_def counted_def)
  have "isempty s (k_links k) \<longleftrightarrow> L s = []" using r by (cases "L s") (auto simp: ring_def isempty_def)
  moreover have "L s = [] \<longleftrightarrow> s_cnt k s \<ge> 0" using n by auto
  moreover have "distinct (L s)" using r by (simp add: ring_def)
  ultimately show ?thesis using r n sem_members [OF k assms(2)] by (auto simp: isempty_def notempty_def)
qed

theorem semaphore_counts_witness:
  "let k = chSemInit (SemQueue 0) 2 kernel_up
   in kernel_runs (k, {mainthread, idle_thread}, {SemQueue 0}) \<and> s_cnt k (SemQueue 0) = 2 \<and> isempty (SemQueue 0) (k_links k)"
proof -
  let ?k = "chSemInit (SemQueue 0) 2 kernel_up"
  have "kstep (kernel_up, {mainthread, idle_thread}, {}) (SemInit (SemQueue 0) 2) (?k, {mainthread, idle_thread}, {SemQueue 0})"
    by (simp add: kstep_iff allowed_def kernel_up_cur mainthread_def idle_thread_def)
  then have r: "kernel_runs (?k, {mainthread, idle_thread}, {SemQueue 0})" by (rule event [OF kernel_up_runs])
  have "s_cnt ?k (SemQueue 0) = 2" by (simp add: chSemInit_def)
  then show ?thesis using semaphore_counts [OF r, of "SemQueue 0"] r by (simp add: Let_def)
qed

text \<open>
  C3: every call of the kernel that keeps its rules, and every interrupt, returns from every state
  the kernel reaches: no list search runs past its end and no timer without a function is called.
\<close>

theorem kernel_progress:
  assumes "kernel_runs (k, T, S)" "allowed T S k e"
  shows "\<exists>k'. event_run e k = Some k' \<and> kernel_runs (k', threads_after e T, sems_after e S)"
proof -
  obtain Z L V where "kinv k T S Z L V" using runsD [OF assms(1)] by blast
  then obtain k' where "event_run e k = Some k'" using event_run_ok [OF _ assms(2)] by blast
  then show ?thesis using event [OF assms(1), of e] assms(2) by (auto simp: kstep_iff)
qed

theorem kernel_progress_witness:
  "allowed {mainthread, idle_thread} {} kernel_up (Sleep 5) \<and> (\<exists>k'. event_run (Sleep 5) kernel_up = Some k')"
proof -
  have "allowed {mainthread, idle_thread} {} kernel_up (Sleep 5)"
    by (simp add: allowed_def kernel_up_cur mainthread_def idle_thread_def TIME_IMMEDIATE_def)
  then show ?thesis using kernel_progress [OF kernel_up_runs, of "Sleep 5"] by blast
qed

text \<open>
  C2: a thread that calls \<open>chThdSleep\<close> for \<open>n\<close> ticks sleeps through fewer than \<open>n\<close> ticks whatever
  else happens in the system, and the handler of the \<open>n\<close>-th tick makes it ready.
\<close>

theorem sleep_exact:
  assumes "kernel_runs (k, T, S)" "allowed T S k (Sleep n)" "n \<noteq> TIME_INFINITE" "event_run (Sleep n) k = Some k1"
    "ksteps (k1, T, S) es (k2, T2, S2)" "ticks es < unat n"
  shows "state_of k2 (r_current k) = SLEEPING \<and>
    (ticks es + 1 = unat n \<longrightarrow> (\<exists>k3. port_time_tick k2 = Some k3 \<and> state_of k3 (r_current k) = READY))"
proof -
  let ?u = "r_current k"
  obtain Z L V where k: "kinv k T S Z L V" using runsD [OF assms(1)] by blast
  from event_run_ok [OF k assms(2)] assms(3,4) obtain L1 V1 where "kinv k1 T S (Z(?u \<mapsto> unat n)) L1 V1" by auto
  then obtain Z2 L2 V2 where k2: "kinv k2 T2 S2 Z2 L2 V2" "Z2 ?u = Some (unat n - ticks es)"
    using ksteps_sleep [OF assms(5), of "Z(?u \<mapsto> unat n)" L1 V1 ?u "unat n"] assms(6) by auto
  have r: "running k2 T2 S2 Z2 L2 V2 {}" using k2(1) by (simp add: kinv_running)
  moreover have "state_of k2 ?u = SLEEPING" using k2 by (auto simp: kinv_def asleep_def state_of_def)
  ultimately show ?thesis using tick_ok [OF r(1)] k2(2) by (fastforce simp: port_time_tick_def state_of_def)
qed

theorem sleep_exact_witness:
  "\<exists>k1 k2 k3. event_run (Sleep 2) kernel_up = Some k1 \<and> event_run (Interrupt [I_tick]) k1 = Some k2 \<and>
     state_of k2 mainthread = SLEEPING \<and> port_time_tick k2 = Some k3 \<and> state_of k3 mainthread = READY"
proof -
  let ?T = "{mainthread, idle_thread}"
  have a: "allowed ?T {} kernel_up (Sleep 2)" by (simp add: allowed_def kernel_up_cur mainthread_def idle_thread_def TIME_IMMEDIATE_def)
  obtain L V where "kinv kernel_up ?T {} Map.empty L V" using kernel_up_inv by blast
  from event_run_ok [OF this a] obtain k1 Z1 L1 V1 where k1: "event_run (Sleep 2) kernel_up = Some k1" "kinv k1 ?T {} Z1 L1 V1" by auto
  then obtain k2 where k2: "event_run (Interrupt [I_tick]) k1 = Some k2" using event_run_ok [OF k1(2), of "Interrupt [I_tick]"] by (auto simp: allowed_def)
  then have "kstep (k1, ?T, {}) (Interrupt [I_tick]) (k2, ?T, {})" by (auto simp: kstep_iff allowed_def)
  then have "ksteps (k1, ?T, {}) [Interrupt [I_tick]] (k2, ?T, {})" using more_steps [OF none] by fastforce
  from sleep_exact [OF kernel_up_runs a _ k1(1) this] show ?thesis using k1(1) k2 by (auto simp: kernel_up_cur TIME_INFINITE_def)
qed

end
