(* ===== verification/Ch_Mailbox.thy ===== *)
theory Ch_Mailbox
  imports Ch_Runs
begin

text \<open>
  Mailboxes (\<open>chmboxes.c\<close>, \<open>chmboxes.h\<close>): a ring of messages in memory, with one semaphore that
  counts its messages and one that counts its free places. A call that waits is in two parts: up to
  the wait, and the rest, which the thread runs, still locked, when it is switched in again.
\<close>

subsection \<open>State\<close>

record mailbox =
  mb_buffer :: int
  mb_top :: int
  mb_wrptr :: int
  mb_rdptr :: int
  mb_fullsem :: kptr
  mb_emptysem :: kptr

text \<open>What is left of a call after its wait.\<close>

datatype mbcall = C_post int | C_ahead int | C_fetch

text \<open>
  The kernel with a mailbox: the words of memory, the calls that are in their wait, and the variable
  of each thread that \<open>msgp\<close> points to.
\<close>

record msys =
  ms_k :: kernel
  ms_mb :: mailbox
  ms_mem :: "int \<Rightarrow> int"
  ms_pend :: "kptr \<Rightarrow> mbcall option"
  ms_got :: "kptr \<Rightarrow> int"

subsection \<open>The ring\<close>

definition mb_write :: "int \<Rightarrow> msys \<Rightarrow> msys" where
  "mb_write msg s =
     (let mb = ms_mb s;
          s = s\<lparr>ms_mem := (ms_mem s)(mb_wrptr mb := msg)\<rparr>;
          mb = mb\<lparr>mb_wrptr := mb_wrptr mb + 1\<rparr>;
          mb = (if mb_wrptr mb \<ge> mb_top mb then mb\<lparr>mb_wrptr := mb_buffer mb\<rparr> else mb)
      in s\<lparr>ms_mb := mb\<rparr>)"

definition mb_push :: "int \<Rightarrow> msys \<Rightarrow> msys" where
  "mb_push msg s =
     (let mb = ms_mb s;
          mb = mb\<lparr>mb_rdptr := mb_rdptr mb - 1\<rparr>;
          mb = (if mb_rdptr mb < mb_buffer mb then mb\<lparr>mb_rdptr := mb_top mb - 1\<rparr> else mb)
      in s\<lparr>ms_mem := (ms_mem s)(mb_rdptr mb := msg), ms_mb := mb\<rparr>)"

definition mb_read :: "msys \<Rightarrow> int \<times> msys" where
  "mb_read s =
     (let mb = ms_mb s;
          msg = ms_mem s (mb_rdptr mb);
          mb = mb\<lparr>mb_rdptr := mb_rdptr mb + 1\<rparr>;
          mb = (if mb_rdptr mb \<ge> mb_top mb then mb\<lparr>mb_rdptr := mb_buffer mb\<rparr> else mb)
      in (msg, s\<lparr>ms_mb := mb\<rparr>))"

definition chMBSizeI :: "msys \<Rightarrow> int" where
  "chMBSizeI s = mb_top (ms_mb s) - mb_buffer (ms_mb s)"

definition chMBGetFreeCountI :: "msys \<Rightarrow> int" where
  "chMBGetFreeCountI s = s_cnt (ms_k s) (mb_emptysem (ms_mb s))"

definition chMBGetUsedCountI :: "msys \<Rightarrow> int" where
  "chMBGetUsedCountI s = s_cnt (ms_k s) (mb_fullsem (ms_mb s))"

definition chMBPeekI :: "msys \<Rightarrow> int" where
  "chMBPeekI s = ms_mem s (mb_rdptr (ms_mb s))"

subsection \<open>Operations\<close>

text \<open>\<open>fs\<close> and \<open>es\<close> are the addresses of the two semaphores inside the structure.\<close>

definition chMBInit :: "kptr \<Rightarrow> kptr \<Rightarrow> int \<Rightarrow> int \<Rightarrow> msys \<Rightarrow> msys" where
  "chMBInit fs es buf n s =
     s\<lparr>ms_mb := \<lparr>mb_buffer = buf, mb_top = buf + n, mb_wrptr = buf, mb_rdptr = buf, mb_fullsem = fs, mb_emptysem = es\<rparr>,
       ms_k := chSemInit fs 0 (chSemInit es n (ms_k s))\<rparr>"

definition chMBReset :: "msys \<Rightarrow> msys option" where
  "chMBReset s = do {
     let mb = ms_mb s;
     let s = s\<lparr>ms_mb := mb\<lparr>mb_wrptr := mb_buffer mb, mb_rdptr := mb_buffer mb\<rparr>\<rparr>;
     k \<leftarrow> chSemResetI (mb_emptysem mb) (mb_top mb - mb_buffer mb) (ms_k s);
     k \<leftarrow> chSemResetI (mb_fullsem mb) 0 k;
     k \<leftarrow> chSchRescheduleS k;
     Some (s\<lparr>ms_k := k\<rparr>) }"

text \<open>The wait at the start of a call; what comes after it is noted for the calling thread.\<close>

definition mb_wait :: "kptr \<Rightarrow> mbcall \<Rightarrow> u32 \<Rightarrow> msys \<Rightarrow> msys option" where
  "mb_wait sem call time s = do {
     k \<leftarrow> chSemWaitTimeoutS sem time (ms_k s);
     Some (s\<lparr>ms_k := k, ms_pend := (ms_pend s)(r_current (ms_k s) \<mapsto> call)\<rparr>) }"

definition chMBPostS :: "int \<Rightarrow> u32 \<Rightarrow> msys \<Rightarrow> msys option" where
  "chMBPostS msg time s = mb_wait (mb_emptysem (ms_mb s)) (C_post msg) time s"

definition chMBPostAheadS :: "int \<Rightarrow> u32 \<Rightarrow> msys \<Rightarrow> msys option" where
  "chMBPostAheadS msg time s = mb_wait (mb_emptysem (ms_mb s)) (C_ahead msg) time s"

definition chMBFetchS :: "u32 \<Rightarrow> msys \<Rightarrow> msys option" where
  "chMBFetchS time s = mb_wait (mb_fullsem (ms_mb s)) C_fetch time s"

definition chMBPost :: "int \<Rightarrow> u32 \<Rightarrow> msys \<Rightarrow> msys option" where
  "chMBPost msg time s = chMBPostS msg time s"

definition chMBPostAhead :: "int \<Rightarrow> u32 \<Rightarrow> msys \<Rightarrow> msys option" where
  "chMBPostAhead msg time s = chMBPostAheadS msg time s"

definition chMBFetch :: "u32 \<Rightarrow> msys \<Rightarrow> msys option" where
  "chMBFetch time s = chMBFetchS time s"

text \<open>The signal at the end of a call.\<close>

definition mb_signal :: "kptr \<Rightarrow> msys \<Rightarrow> msys option" where
  "mb_signal sem s = do {
     k \<leftarrow> chSemSignalI sem (ms_k s);
     k \<leftarrow> chSchRescheduleS k;
     Some (s\<lparr>ms_k := k\<rparr>) }"

definition chMBPostS_rest :: "int \<Rightarrow> msys \<Rightarrow> msys option" where
  "chMBPostS_rest msg s = (let s = mb_write msg s in mb_signal (mb_fullsem (ms_mb s)) s)"

definition chMBPostAheadS_rest :: "int \<Rightarrow> msys \<Rightarrow> msys option" where
  "chMBPostAheadS_rest msg s = (let s = mb_push msg s in mb_signal (mb_fullsem (ms_mb s)) s)"

definition chMBFetchS_rest :: "msys \<Rightarrow> msys option" where
  "chMBFetchS_rest s =
     (let cur = r_current (ms_k s); (msg, s) = mb_read s; s = s\<lparr>ms_got := (ms_got s)(cur := msg)\<rparr>
      in mb_signal (mb_emptysem (ms_mb s)) s)"

text \<open>The running thread comes out of its wait; \<open>rdymsg\<close> is what the wait returned.\<close>

definition mb_rest :: "msys \<Rightarrow> msys option" where
  "mb_rest s =
     (let cur = r_current (ms_k s); rdymsg = p_ret (k_thd (ms_k s) cur); call = ms_pend s cur;
          s = s\<lparr>ms_pend := (ms_pend s)(cur := None)\<rparr>
      in if rdymsg = V_msg (Some RDY_OK) then
           case call of
             None \<Rightarrow> Some s
           | Some (C_post msg) \<Rightarrow> chMBPostS_rest msg s
           | Some (C_ahead msg) \<Rightarrow> chMBPostAheadS_rest msg s
           | Some C_fetch \<Rightarrow> chMBFetchS_rest s
         else Some s)"

subsection \<open>Operations for interrupts\<close>

definition chMBPostI :: "int \<Rightarrow> msys \<Rightarrow> (int \<times> msys) option" where
  "chMBPostI msg s =
     (let es = mb_emptysem (ms_mb s)
      in if s_cnt (ms_k s) es \<le> 0 then Some (RDY_TIMEOUT, s)
         else do {
           let s = s\<lparr>ms_k := chSemFastWaitI es (ms_k s)\<rparr>;
           let s = mb_write msg s;
           k \<leftarrow> chSemSignalI (mb_fullsem (ms_mb s)) (ms_k s);
           Some (RDY_OK, s\<lparr>ms_k := k\<rparr>) })"

definition chMBPostAheadI :: "int \<Rightarrow> msys \<Rightarrow> (int \<times> msys) option" where
  "chMBPostAheadI msg s =
     (let es = mb_emptysem (ms_mb s)
      in if s_cnt (ms_k s) es \<le> 0 then Some (RDY_TIMEOUT, s)
         else do {
           let s = s\<lparr>ms_k := chSemFastWaitI es (ms_k s)\<rparr>;
           let s = mb_push msg s;
           k \<leftarrow> chSemSignalI (mb_fullsem (ms_mb s)) (ms_k s);
           Some (RDY_OK, s\<lparr>ms_k := k\<rparr>) })"

definition chMBFetchI :: "msys \<Rightarrow> (int \<times> int option \<times> msys) option" where
  "chMBFetchI s =
     (if s_cnt (ms_k s) (mb_fullsem (ms_mb s)) \<le> 0 then Some (RDY_TIMEOUT, None, s)
      else do {
        let (msg, s) = mb_read s;
        k \<leftarrow> chSemSignalI (mb_emptysem (ms_mb s)) (ms_k s);
        Some (RDY_OK, Some msg, s\<lparr>ms_k := k\<rparr>) })"

end
