(* ===== verification/Ch_Fate.thy ===== *)
theory Ch_Fate
  imports Ch_Runs
begin

text \<open>
  What becomes of a thread that waits on a semaphore: the message a wait returns is settled when the
  thread is made ready, and no later event of the kernel changes it before the thread runs.
\<close>

subsection \<open>Waiting threads and those that were woken\<close>

text \<open>
  \<open>F_waits s\<close>: in the queue of the semaphore \<open>s\<close>, by a call that returns a message. \<open>F_gets m\<close>: the
  wait is over and returns, or has returned, the message \<open>m\<close>. \<open>F_stuck s\<close>: in the queue of \<open>s\<close>
  otherwise.
\<close>

datatype fate = F_none | F_waits kptr | F_gets int | F_stuck kptr

definition fate_of :: "kthread \<Rightarrow> fate" where
  "fate_of t =
     (let told = p_ctx t = R_rdymsg \<or> p_ctx t = R_timeout
      in case p_u t of
           U_obj s \<Rightarrow> if p_state t = WTSEM then if told then F_waits s else F_stuck s else F_none
         | U_msg m \<Rightarrow> if p_state t = READY \<and> told then F_gets m else F_none)"

definition fate :: "kernel \<Rightarrow> kptr \<Rightarrow> fate" where
  "fate k t =
     (if t = r_current k then (case p_ret (k_thd k t) of V_msg (Some m) \<Rightarrow> F_gets m | _ \<Rightarrow> F_none)
      else fate_of (k_thd k t))"

text \<open>The places of a semaphore that are free or that its waiters will be given.\<close>

definition waiters :: "kptr set \<Rightarrow> kernel \<Rightarrow> kptr \<Rightarrow> kptr set" where
  "waiters T k s = {t \<in> T. fate k t = F_waits s}"

definition tok :: "kptr set \<Rightarrow> kernel \<Rightarrow> kptr \<Rightarrow> int" where
  "tok T k s = s_cnt k s + int (card (waiters T k s))"

text \<open>
  From \<open>k\<close> to \<open>k'\<close>, by the thread \<open>c\<close> or an interrupt, nothing happens to the waits on the semaphores
  \<open>M\<close> except that some of them may end by their timeout.
\<close>

definition steady :: "kptr set \<Rightarrow> kptr set \<Rightarrow> kptr \<Rightarrow> kernel \<Rightarrow> kernel \<Rightarrow> bool" where
  "steady T M c k k' \<longleftrightarrow>
     (\<forall>t\<in>T. \<forall>m. t \<noteq> c \<longrightarrow> fate k t = F_gets m \<longrightarrow> fate k' t = F_gets m) \<and>
     (\<forall>t\<in>T. \<forall>s\<in>M. t \<noteq> c \<longrightarrow> fate k t = F_waits s \<longrightarrow> fate k' t \<in> {F_waits s, F_gets RDY_TIMEOUT}) \<and>
     (\<forall>t\<in>T. \<forall>s\<in>M. \<forall>f\<in>{F_waits s, F_stuck s}. fate k' t = f \<longrightarrow> fate k t = f) \<and>
     (\<forall>s\<in>M. tok T k' s = tok T k s)"

lemma steady_refl: "steady T M c k k"
  by (simp add: steady_def)

lemma steadyD:
  assumes "steady T M c k k'"
  shows "t \<in> T \<Longrightarrow> t \<noteq> c \<Longrightarrow> fate k t = F_gets m \<Longrightarrow> fate k' t = F_gets m"
    and "t \<in> T \<Longrightarrow> s \<in> M \<Longrightarrow> t \<noteq> c \<Longrightarrow> fate k t = F_waits s \<Longrightarrow> fate k' t = F_waits s \<or> fate k' t = F_gets RDY_TIMEOUT"
    and "t \<in> T \<Longrightarrow> s \<in> M \<Longrightarrow> f \<in> {F_waits s, F_stuck s} \<Longrightarrow> fate k' t = f \<Longrightarrow> fate k t = f" and "s \<in> M \<Longrightarrow> tok T k' s = tok T k s"
  using assms unfolding steady_def by blast+

lemma steady_trans:
  assumes a: "steady T M c k k1" and b: "steady T M c k1 k2"
  shows "steady T M c k k2"
proof -
  have "fate k2 t = F_waits s \<or> fate k2 t = F_gets RDY_TIMEOUT" if "t \<in> T" "s \<in> M" "t \<noteq> c" "fate k t = F_waits s" for t s
    using steadyD(2) [OF a that] steadyD(1,2) [OF b that(1)] that by blast
  moreover have "fate k2 t = F_gets m" if "t \<in> T" "t \<noteq> c" "fate k t = F_gets m" for t m using steadyD(1) [OF a that] steadyD(1) [OF b] that by blast
  moreover have "fate k t = f" if "t \<in> T" "s \<in> M" "f \<in> {F_waits s, F_stuck s}" "fate k2 t = f" for t s f
    using steadyD(3) [OF a that(1-3)] steadyD(3) [OF b that] by blast
  moreover have "tok T k2 s = tok T k s" if "s \<in> M" for s using steadyD(4) [OF a that] steadyD(4) [OF b that] by simp
  ultimately show ?thesis unfolding steady_def by blast
qed

text \<open>The simple case: the fates of the other threads stay as they are.\<close>

definition keeps :: "kptr set \<Rightarrow> kptr \<Rightarrow> kernel \<Rightarrow> kernel \<Rightarrow> bool" where
  "keeps T c k k' \<longleftrightarrow>
     (\<forall>t\<in>T. t \<noteq> c \<longrightarrow> (\<forall>f. f \<noteq> F_none \<longrightarrow> fate k t = f \<longrightarrow> fate k' t = f) \<and>
       (\<forall>s. \<forall>f\<in>{F_waits s, F_stuck s}. fate k' t = f \<longrightarrow> fate k t = f))"

lemma keeps_steady:
  assumes k: "keeps T c k k'" and c: "\<forall>s\<in>M. fate k c \<noteq> F_waits s" "\<forall>s\<in>M. fate k' c \<noteq> F_waits s \<and> fate k' c \<noteq> F_stuck s"
    and n: "\<forall>s\<in>M. s_cnt k' s = s_cnt k s"
  shows "steady T M c k k'"
proof -
  have e: "fate k' t = f" if "t \<in> T" "t \<noteq> c" "fate k t = f" "f \<noteq> F_none" for t f using k that unfolding keeps_def by blast
  have w: "fate k t = f" if "t \<in> T" "s \<in> M" "f \<in> {F_waits s, F_stuck s}" "fate k' t = f" for t s f
    using k c(2) that unfolding keeps_def by (cases "t = c") blast+
  have "fate k' t = F_waits s \<longleftrightarrow> fate k t = F_waits s" if "t \<in> T" "s \<in> M" for t s
    using w [OF that] e [OF that(1)] c(1) that(2) by blast
  then have "waiters T k' s = waiters T k s" if "s \<in> M" for s using that by (auto simp: waiters_def)
  then have "\<forall>s\<in>M. tok T k' s = tok T k s" using n by (simp add: tok_def)
  then show ?thesis unfolding steady_def using w e by blast
qed

lemma keeps_from: "keeps T c k1 k' \<Longrightarrow> (\<And>t. t \<noteq> c \<Longrightarrow> fate k1 t = fate k t) \<Longrightarrow> keeps T c k k'"
  unfolding keeps_def by metis

lemma keepsI:
  assumes o: "\<And>u. u \<in> T \<Longrightarrow> u \<noteq> c \<Longrightarrow> u \<noteq> t \<Longrightarrow> fate k' u = fate k u"
    and t: "fate k' t = fate k t \<or> fate k t = F_none" "\<And>s. fate k' t \<noteq> F_waits s" "\<And>s. fate k' t \<noteq> F_stuck s"
  shows "keeps T c k k'"
proof -
  have "(\<forall>f. f \<noteq> F_none \<longrightarrow> fate k u = f \<longrightarrow> fate k' u = f) \<and> (\<forall>s. \<forall>f\<in>{F_waits s, F_stuck s}. fate k' u = f \<longrightarrow> fate k u = f)"
    if u: "u \<in> T" "u \<noteq> c" for u
    using o [OF u] t by (cases "u = t") auto
  then show ?thesis unfolding keeps_def by blast
qed

lemma fate_cur: "fate k (r_current k) \<noteq> F_waits s" "fate k (r_current k) \<noteq> F_stuck s"
  by (simp_all add: fate_def split: kval.splits option.splits)

lemma fate_other: "t \<noteq> r_current k \<Longrightarrow> fate k t = fate_of (k_thd k t)"
  by (simp add: fate_def)

subsection \<open>A thread is switched in\<close>

text \<open>At the front of the ready list is a ready thread, and at the front of a message queue a sender.\<close>

definition fronts :: "kernel \<Rightarrow> kptr set \<Rightarrow> bool" where
  "fronts k T \<longleftrightarrow>
     (p_next (k_links k) Rlist \<in> T \<longrightarrow> p_next (k_links k) Rlist \<noteq> r_current k \<and> p_state (k_thd k (p_next (k_links k) Rlist)) = READY) \<and>
     (\<forall>t\<in>T. p_next (k_links k) (MsgQueue t) \<in> T \<longrightarrow> p_state (k_thd k (p_next (k_links k) (MsgQueue t))) = SNDMSGQ)"

lemma front_home:
  assumes b: "base k T S L V X" and q: "q \<in> heads T S" "\<not> single q" and t: "p_next (k_links k) q \<in> T"
  shows "home (k_thd k (p_next (k_links k) q)) = Some q" "p_next (k_links k) q \<notin> X"
proof -
  have "ring (k_links k) q (L q)" by (rule queues_ring [OF base_queues [OF b] q])
  then have "p_next (k_links k) q = hd (L q @ [q])" by (auto simp: ring_def dest: seg_next)
  moreover have "q \<notin> T" using base_not_head [OF b] q(1) by blast
  ultimately have "p_next (k_links k) q \<in> set (L q)" using t by (cases "L q") auto
  then show "home (k_thd k (p_next (k_links k) q)) = Some q" "p_next (k_links k) q \<notin> X" using placed_iff [OF base_placed [OF b] q(1)] by auto
qed

lemma home_msg:
  assumes w: "waiting T S r a b c" and S: "S \<subseteq> range SemQueue" and h: "home r = Some (MsgQueue t)"
  shows "p_state r = SNDMSGQ"
  using w S h by (cases "p_state r") (auto simp: home_def waiting_def split: thd_u.splits resume_at.splits)

lemma base_fronts:
  assumes b: "base k T S L V X" and c: "r_current k \<in> X"
  shows "fronts k T"
proof -
  have st: "waiting T S (k_thd k t) (L (MsgQueue t) = []) (vt_func k (ThreadVt t) \<noteq> None) (ThreadVt t \<in> set V)" if "t \<in> T" "t \<notin> X" for t
    using base_status [OF b that] by (simp add: status_ok_def)
  show ?thesis
    using front_home [OF b, of Rlist] front_home [OF b, of "MsgQueue _"] st c home_ready [OF st base_sems [OF b]] home_msg [OF st base_sems [OF b]]
    unfolding fronts_def by (metis heads_simps(1,2) single_simps(1,2))
qed

lemma resume_fate:
  fixes k :: kernel
  defines "c \<equiv> r_current k"
  assumes m: "p_ctx (k_thd k c) = R_msgWait \<Longrightarrow> p_next (k_links k) (MsgQueue c) \<in> T \<Longrightarrow> p_state (k_thd k (p_next (k_links k) (MsgQueue c))) = SNDMSGQ"
  shows "r_current (resume k) = c" "s_cnt (resume k) = s_cnt k"
    and "t \<in> T \<Longrightarrow> t \<noteq> c \<Longrightarrow> fate (resume k) t = fate_of (k_thd k t)"
    and "p_ctx (k_thd k c) = R_rdymsg \<or> p_ctx (k_thd k c) = R_timeout \<Longrightarrow> p_u (k_thd k c) = U_msg n \<Longrightarrow> fate (resume k) c = F_gets n"
proof -
  show cur: "r_current (resume k) = c" "s_cnt (resume k) = s_cnt k"
    by (cases "p_ctx (k_thd k c)"; simp add: resume_def Let_def c_def chMsgWait_rest_def timeout_rest_def chThdWait_rest_def split_beta set_defs)+
  show "fate (resume k) c = F_gets n" if "p_ctx (k_thd k c) = R_rdymsg \<or> p_ctx (k_thd k c) = R_timeout" "p_u (k_thd k c) = U_msg n"
    using that cur(1) by (auto simp: fate_def resume_def Let_def timeout_rest_def rdymsg_def set_defs c_def)
  assume t: "t \<in> T" "t \<noteq> c"
  have "fate_of (k_thd (resume k) t) = fate_of (k_thd k t)"
  proof (cases "p_ctx (k_thd k c)")
    case R_msgWait
    then show ?thesis using m t
      by (auto simp: resume_def Let_def chMsgWait_rest_def fifo_remove_def set_defs c_def fate_of_def Let_def split: thd_u.splits)
  next
    case (R_thdWait w)
    then show ?thesis using t by (auto simp: resume_def Let_def chThdWait_rest_def set_defs c_def fate_of_def Let_def split: thd_u.splits)
  qed (use t in \<open>auto simp: resume_def Let_def timeout_rest_def set_defs c_def\<close>)
  then show "fate (resume k) t = fate_of (k_thd k t)" using cur(1) t(2) by (simp add: fate_def)
qed

text \<open>The running thread gives way to the first ready one.\<close>

lemma sleep_keeps:
  assumes f: "fronts k T" and cs: "p_state (k_thd k (r_current k)) = CURRENT" and t: "r_current (chSchGoSleepS st r k) \<in> T"
  shows "keeps T (r_current k) k (chSchGoSleepS st r k)" "s_cnt (chSchGoSleepS st r k) = s_cnt k"
    and "r_current (chSchGoSleepS st r k) \<noteq> r_current k"
    and "r_current k \<in> T \<Longrightarrow> fate (chSchGoSleepS st r k) (r_current k) = fate_of ((k_thd k (r_current k))\<lparr>p_state := st, p_ctx := r\<rparr>)"
proof -
  let ?c = "r_current k" let ?t = "p_next (k_links k) Rlist" let ?h = "snd (fifo_remove Rlist (k_links k))"
  define k1 where "k1 = set_ctx ?c r (set_state ?t CURRENT ((set_state ?c st k)\<lparr>r_preempt := CH_TIME_QUANTUM, k_links := ?h, r_current := ?t\<rparr>))"
  have e: "chSchGoSleepS st r k = resume k1"
    by (simp add: chSchGoSleepS_def Let_def split_beta chSysSwitch_def k1_def fifo_remove_def set_defs)
  have c1: "r_current k1 = ?t" "s_cnt k1 = s_cnt k" by (simp_all add: k1_def set_defs)
  have rc: "r_current (resume k1) = r_current k1" using resume_fate(1) [of k1 "{}"] by simp
  then have tT: "?t \<in> T" using t e c1 by simp
  then have n: "?t \<noteq> ?c" "p_state (k_thd k ?t) = READY" using f by (simp_all add: fronts_def)
  have th: "k_thd k1 = (k_thd k)(?c := (k_thd k ?c)\<lparr>p_state := st, p_ctx := r\<rparr>, ?t := (k_thd k ?t)\<lparr>p_state := CURRENT\<rparr>)"
    using n(1) by (auto simp: k1_def set_defs fun_eq_iff)
  have lk: "p_next (k_links k1) (MsgQueue ?t) = p_next (k_links k) (MsgQueue ?t)" by (simp add: k1_def set_defs fifo_remove_def Let_def set_next_def set_prev_def)
  have m: "p_next (k_links k1) (MsgQueue (r_current k1)) \<in> T \<Longrightarrow> p_state (k_thd k1 (p_next (k_links k1) (MsgQueue (r_current k1)))) = SNDMSGQ" 
    using f tT n cs lk unfolding c1 th by (auto simp: fronts_def)
  note rf = resume_fate [of k1 T, OF m, unfolded c1]
  show "r_current (chSchGoSleepS st r k) \<noteq> r_current k" using rc e c1 n by simp
  show "fate (chSchGoSleepS st r k) ?c = fate_of ((k_thd k ?c)\<lparr>p_state := st, p_ctx := r\<rparr>)" if "?c \<in> T"
    using rf(3) [of ?c] that n(1) c1 th e by simp
  have "fate (resume k1) ?t = fate k ?t \<or> fate k ?t = F_none"
    using rf(4) n c1 th by (auto simp: fate_other fate_of_def Let_def split: thd_u.splits)
  moreover have "fate (resume k1) ?t \<noteq> F_waits s" "fate (resume k1) ?t \<noteq> F_stuck s" for s using fate_cur [of "resume k1" s] rc c1(1) by simp_all
  moreover have "fate (resume k1) u = fate k u" if "u \<in> T" "u \<noteq> ?c" "u \<noteq> ?t" for u
    using rf(3) [of u] that c1 th by (simp add: fate_other)
  ultimately show "keeps T ?c k (chSchGoSleepS st r k)" unfolding e by (intro keepsI [where t = ?t]) blast+
  show "s_cnt (chSchGoSleepS st r k) = s_cnt k" using rf(2) c1(2) e by simp
qed

lemma reschedule_keeps:
  assumes r: "running k T S Z L V {}" and l: "L Rlist = t # ts" and p: "k_prio k (r_current k) \<le> k_prio k t"
    and e: "chSchDoReschedule k = Some k'"
  shows "keeps T (r_current k) k k'" "fate k' (r_current k) = F_none" "r_current k' \<noteq> r_current k" "s_cnt k' = s_cnt k"
proof -
  let ?c = "r_current k"
  obtain k1 L1 where k1: "k' = resume k1" "switched k1 T S Z L1 V" "r_current k1 = t" "t \<noteq> ?c" "s_cnt k1 = s_cnt k" "p_state (k_thd k t) = READY"
    "k_thd k1 = (k_thd k)(?c := (k_thd k ?c)\<lparr>p_state := READY\<rparr>, t := (k_thd k t)\<lparr>p_state := CURRENT\<rparr>)"
    using reschedule_switched [OF r l p] e by auto
  have b: "base k1 T S L1 V {t}" using k1(2,3) by (simp add: switched_def)
  have tT: "t \<in> T" and cT: "?c \<in> T" and cc: "p_ctx (k_thd k ?c) = R_user" using base_sub [OF b] base_sub [OF running_base [OF r]] r by (auto simp: running_def)
  have m: "p_next (k_links k1) (MsgQueue (r_current k1)) \<in> T \<Longrightarrow> p_state (k_thd k1 (p_next (k_links k1) (MsgQueue (r_current k1)))) = SNDMSGQ"
    using base_fronts [OF b] k1(3) tT by (simp add: fronts_def)
  note rf = resume_fate [of k1 T, OF m, unfolded k1(3)]
  show "r_current k' \<noteq> ?c" using rf(1) k1(1,4) by simp
  show "fate k' ?c = F_none" using rf(3) [of ?c] cT k1(1,4,7) cc by (simp add: fate_of_def Let_def split: thd_u.splits)
  have "fate k' t = fate k t \<or> fate k t = F_none"
    using rf(4) k1(1,4,6,7) by (auto simp: fate_other fate_of_def Let_def split: thd_u.splits)
  moreover have "fate k' t \<noteq> F_waits s" "fate k' t \<noteq> F_stuck s" for s using fate_cur [of k' s] rf(1) k1(1) by simp_all
  moreover have "fate k' u = fate k u" if "u \<in> T" "u \<noteq> ?c" "u \<noteq> t" for u
    using rf(3) [of u] that k1 by (simp add: fate_other)
  ultimately show "keeps T ?c k k'" by (intro keepsI [where t = t]) blast+
  show "s_cnt k' = s_cnt k" using rf(2) k1(1,5) by simp
qed

text \<open>The four places where the running thread may give way.\<close>

lemma give_way_steady:
  assumes r: "running k T S Z L V {}" and b: "b \<Longrightarrow> k_prio k (r_current k) \<le> firstprio k" and e: "(if b then chSchDoReschedule k else Some k) = Some k'"
  shows "steady T M (r_current k) k k'"
proof (cases b)
  case True
  obtain t ts where l: "L Rlist = t # ts" "k_prio k (r_current k) \<le> k_prio k t" using first_nonempty [OF running_base [OF r] b [OF True]] by blast
  have "chSchDoReschedule k = Some k'" using e True by simp
  from reschedule_keeps(1,2,4) [OF r l this] show ?thesis by (intro keeps_steady) (simp_all add: fate_cur)
next
  case False
  then show ?thesis using e steady_refl by simp
qed

lemma resched_steady: "running k T S Z L V {} \<Longrightarrow> chSchRescheduleS k = Some k' \<Longrightarrow> steady T M (r_current k) k k'"
  by (rule give_way_steady [where b = "chSchIsRescRequiredI k"]) (auto simp: chSchRescheduleS_def chSchIsRescRequiredI_def)

lemma yield_steady: "running k T S Z L V {} \<Longrightarrow> chSchDoYieldS k = Some k' \<Longrightarrow> steady T M (r_current k) k k'"
  by (rule give_way_steady [where b = "firstprio k \<ge> k_prio k (r_current k)"]) (auto simp: chSchDoYieldS_def)

lemma exit_steady: "running k T S Z L V {} \<Longrightarrow> ALT_OS_INT_EXIT k = Some k' \<Longrightarrow> steady T M (r_current k) k k'"
  by (rule give_way_steady [where b = "chSchIsPreemptionRequired k"])
    (auto simp: ALT_OS_INT_EXIT_def chSchIsPreemptionRequired_def Let_def split: if_splits)

subsection \<open>Ticks\<close>

text \<open>Threads in the queues of \<open>M\<close> are in a wait that returns a message.\<close>

definition proper :: "kptr set \<Rightarrow> kptr set \<Rightarrow> kernel \<Rightarrow> bool" where
  "proper T M k \<longleftrightarrow> (\<forall>t\<in>T. \<forall>s\<in>M. fate k t \<noteq> F_stuck s)"

lemma steady_proper: "steady T M c k k' \<Longrightarrow> proper T M k \<Longrightarrow> proper T M k'"
  unfolding proper_def using steadyD(3) [of T M c k k'] by blast

lemma ready_cells: "chSchReadyI x k = Some k' \<Longrightarrow> \<exists>h. k' = (set_state x READY k)\<lparr>k_links := h\<rparr>"
  by (auto simp: chSchReadyI_def Let_def bind_eq_Some_conv)

lemma waiters_out:
  assumes "finite T" "t \<in> waiters T k s" "waiters T k' s = waiters T k s - {t}" "s_cnt k' s = s_cnt k s + 1"
  shows "tok T k' s = tok T k s"
proof -
  have f: "finite (waiters T k s)" using assms(1) by (simp add: waiters_def)
  have "0 < card (waiters T k s)" using assms(2) f by (auto simp: card_gt_0_iff)
  then show ?thesis using assms(3,4) card_Diff_singleton [OF assms(2)] by (simp add: tok_def)
qed

lemma wakeup_cells:
  assumes w: "wakeup u k = Some k'" and n: "p_state (k_thd k u) \<noteq> READY"
  shows "r_current k' = r_current k" "k_thd k' = (k_thd k)(u := (k_thd k u)\<lparr>p_u := U_msg RDY_TIMEOUT, p_state := READY\<rparr>)"
    "s_cnt k' = (case p_u (k_thd k u) of U_obj s \<Rightarrow> if p_state (k_thd k u) = WTSEM then (s_cnt k)(s := s_cnt k s + 1) else s_cnt k | U_msg _ \<Rightarrow> s_cnt k)"
proof -
  let ?k1 = "case p_u (k_thd k u) of U_obj sp \<Rightarrow> if state_of k u = WTSEM then chSemFastSignalI sp k else k | U_msg _ \<Rightarrow> k"
  let ?k2 = "if state_of ?k1 u \<in> {WTSEM, WTQUEUE, WTCOND} then ?k1\<lparr>k_links := dequeue u (k_links ?k1)\<rparr> else ?k1"
  have "chSchReadyI u (set_u u (U_msg RDY_TIMEOUT) ?k2) = Some k'" using assms by (simp add: wakeup_def state_of_def Let_def)
  then obtain h where k': "k' = (set_state u READY (set_u u (U_msg RDY_TIMEOUT) ?k2))\<lparr>k_links := h\<rparr>" using ready_cells by blast
  show "r_current k' = r_current k" "k_thd k' = (k_thd k)(u := (k_thd k u)\<lparr>p_u := U_msg RDY_TIMEOUT, p_state := READY\<rparr>)"
    "s_cnt k' = (case p_u (k_thd k u) of U_obj s \<Rightarrow> if p_state (k_thd k u) = WTSEM then (s_cnt k)(s := s_cnt k s + 1) else s_cnt k | U_msg _ \<Rightarrow> s_cnt k)"
    by (simp_all add: k' set_defs chSemFastSignalI_def state_of_def split: thd_u.splits)
qed

lemma wakeup_steady:
  assumes fin: "finite T" and u: "u \<in> T" "u \<noteq> r_current k" and p: "proper T M k" and w: "wakeup u k = Some k'"
  shows "steady T M (r_current k) k k' \<and> r_current k' = r_current k"
proof (cases "p_state (k_thd k u) = READY")
  case True
  then have "k' = k" using w by (simp add: wakeup_def state_of_def)
  then show ?thesis using steady_refl by simp
next
  case False
  note c = wakeup_cells [OF w False]
  have o: "fate k' t = fate k t" if "t \<noteq> u" for t using that u c by (simp add: fate_def)
  have uk: "fate k u = fate_of (k_thd k u)" "fate k' u \<noteq> F_waits s" "fate k' u \<noteq> F_stuck s" "fate k u \<noteq> F_gets m" for s m
    using u c False by (auto simp: fate_def fate_of_def Let_def split: thd_u.splits)
  have wi: "fate k' t = F_waits x \<longleftrightarrow> fate k t = F_waits x \<and> t \<noteq> u" for t x using o [of t] uk(2) by (cases "t = u") auto
  have wt: "fate k' u = F_gets RDY_TIMEOUT \<and> s_cnt k' = (s_cnt k)(s := s_cnt k s + 1)" if "fate k u = F_waits s" for s
    using that uk(1) u c by (auto simp: fate_def fate_of_def Let_def split: thd_u.splits if_splits)
  have same: "s_cnt k' s = s_cnt k s" if "s \<in> M" "fate k u \<noteq> F_waits s" for s
    using that p u(1) c(3) uk(1) by (auto simp: proper_def fate_of_def Let_def split: thd_u.splits if_splits)
  have "tok T k' s = tok T k s" if s: "s \<in> M" for s
  proof (cases "fate k u = F_waits s")
    case True
    then show ?thesis using wi wt [OF True] u by (intro waiters_out [OF fin, of u]) (auto simp: waiters_def)
  next
    case False
    then have "waiters T k' s = waiters T k s" using wi by (auto simp: waiters_def)
    then show ?thesis using same [OF s False] by (simp add: tok_def)
  qed
  moreover have "fate k' t = F_gets m" if "fate k t = F_gets m" for t m using that o uk(4) by metis
  moreover have "fate k' t = F_waits x \<or> fate k' t = F_gets RDY_TIMEOUT" if "fate k t = F_waits x" for t x using that wi wt by (cases "t = u") auto
  moreover have "fate k t = f" if "f \<in> {F_waits x, F_stuck x}" "fate k' t = f" for t x f using that o uk(2,3) by (cases "t = u") auto
  ultimately show ?thesis using c(1) unfolding steady_def by blast
qed

lemma woken_steady:
  assumes "woken T c k k'" "finite T" "proper T M k" "r_current k = c"
  shows "steady T M c k k' \<and> r_current k' = c"
  using assms
proof (induction rule: woken.induct)
  case (one u k v k1 k')
  let ?k = "vt_pop v k"
  have pop: "r_current ?k = c" "s_cnt ?k = s_cnt k" "\<And>t. fate ?k t = fate k t" using one.prems(3) by (simp_all add: vt_pop_def fate_def)
  have s: "steady T M c k ?k" using pop by (simp add: steady_def tok_def waiters_def)
  have w: "steady T M c ?k k1" "r_current k1 = c"
    using wakeup_steady [OF one.prems(1) one(1) _ steady_proper [OF s one.prems(2)] one(4)] one(2) pop by simp_all
  have "proper T M k1" using steady_proper [OF w(1)] steady_proper [OF s] one.prems(2) by blast
  then show ?case using one.IH [OF one.prems(1) _ w(2)] steady_trans s w(1) by blast
next
  case none
  then show ?case by (simp add: steady_refl)
qed

lemma tick_steady:
  assumes t: "ticked T k k'" and fin: "finite T" and p: "proper T M k"
  shows "steady T M (r_current k) k k'" "r_current k' = r_current k"
proof -
  let ?c = "r_current k"
  obtain k0 n where k0: "r_current k0 = ?c" "s_cnt k0 = s_cnt k" "woken T ?c k0 k'" "k_thd k0 = (k_thd k)(?c := (k_thd k ?c)\<lparr>p_time := n\<rparr>)"
    using t by (auto simp: ticked_def)
  have "fate k0 x = fate k x" for x using k0 by (simp add: fate_def)
  then have s: "steady T M ?c k k0" using k0(2) by (simp add: steady_def tok_def waiters_def)
  show "steady T M ?c k k'" "r_current k' = ?c" using woken_steady [OF k0(3) fin steady_proper [OF s p] k0(1)] steady_trans [OF s] by blast+
qed

subsection \<open>Semaphores\<close>

lemma chVTSetI_fields:
  assumes "chVTSetI v n f p k = Some k'"
  shows "k_links k' = k_links k" "k_thd k' = k_thd k" "r_current k' = r_current k" "s_cnt k' = s_cnt k"
  using assms by (auto simp: chVTSetI_def Let_def bind_eq_Some_conv)

text \<open>Joining the queue of a semaphore leaves the fronts of the other queues.\<close>

lemma fronts_joined:
  assumes b: "base k T S L V {r_current k}" and s: "s \<in> S" and lk: "k_links k' = queue_insert (r_current k) s (k_links k)"
    and k': "r_current k' = r_current k" "k_thd k' = (k_thd k)(r_current k := r)" "p_state r = p_state (k_thd k (r_current k))"
  shows "fronts k' T"
proof -
  let ?c = "r_current k"
  have rg: "ring (k_links k) s (L s)" using sem_heads [OF b s] queues_ring [OF base_queues [OF b]] by blast
  have "p_prev (k_links k) s \<in> insert s (set (L s))" using ring_closed [OF rg, of s] by simp
  moreover have "set (L s) \<subseteq> T" using base_elems [OF b] sem_heads [OF b s] by blast
  moreover have "?c \<in> T" "T \<subseteq> range Thd" "s \<in> range SemQueue" using base_sub [OF b] base_threads [OF b] base_sems [OF b] s by auto
  ultimately have "p_next (queue_insert ?c s (k_links k)) q = p_next (k_links k) q" if "q = Rlist \<or> q \<in> range MsgQueue" for q
    using that by (auto simp: queue_insert_def link_before_def Let_def set_next_def set_prev_def)
  then have "p_next (k_links k') Rlist = p_next (k_links k) Rlist" "\<And>t. p_next (k_links k') (MsgQueue t) = p_next (k_links k) (MsgQueue t)" using lk by auto
  then show ?thesis using base_fronts [OF b] k' by (auto simp: fronts_def)
qed

text \<open>A wait on a semaphore: it is granted, it fails at once, or the thread joins the queue.\<close>

lemma sem_wait_fate:
  assumes k: "kinv k T S Z L V" and i: "r_current k \<noteq> idle_thread" and s: "s \<in> S" and e: "chSemWaitTimeoutS s time k = Some k'"
  shows "keeps T (r_current k) k k'"
    and "fate k' (r_current k) = F_gets RDY_OK \<and> 0 < s_cnt k s \<and> s_cnt k' = (s_cnt k)(s := s_cnt k s - 1) \<or>
      fate k' (r_current k) = F_gets RDY_TIMEOUT \<and> time = TIME_IMMEDIATE \<and> s_cnt k' = s_cnt k \<or>
      fate k' (r_current k) = F_waits s \<and> s_cnt k s \<le> 0 \<and> s_cnt k' = (s_cnt k)(s := s_cnt k s - 1)"
proof -
  let ?c = "r_current k" let ?k1 = "chSemFastWaitI s k"
  have b: "base k T S L V {?c}" and cT: "?c \<in> T" and cs: "p_state (k_thd k ?c) = CURRENT" using kinv_base [OF k] kinv_cur [OF k] k by (auto simp: kinv_def)
  have c1: "r_current ?k1 = ?c" "s_cnt ?k1 = (s_cnt k)(s := s_cnt k s - 1)" "k_thd ?k1 = k_thd k" "k_links ?k1 = k_links k" by (simp_all add: chSemFastWaitI_def)
  have "keeps T ?c k k' \<and> (fate k' ?c = F_gets RDY_OK \<and> 0 < s_cnt k s \<and> s_cnt k' = (s_cnt k)(s := s_cnt k s - 1) \<or>
      fate k' ?c = F_gets RDY_TIMEOUT \<and> time = TIME_IMMEDIATE \<and> s_cnt k' = s_cnt k \<or>
      fate k' ?c = F_waits s \<and> s_cnt k s \<le> 0 \<and> s_cnt k' = (s_cnt k)(s := s_cnt k s - 1))"
  proof -
    consider (granted) "0 < s_cnt k s" | (never) "s_cnt k s \<le> 0" "time = TIME_IMMEDIATE" | (joins) "s_cnt k s \<le> 0" "time \<noteq> TIME_IMMEDIATE" by linarith
    then show ?thesis
    proof cases
      case granted
      then have "k' = set_ret ?c (V_msg (Some RDY_OK)) ?k1" using e c1 by (simp add: chSemWaitTimeoutS_def Let_def)
      then show ?thesis using granted c1 by (auto simp: keeps_def fate_def set_defs)
    next
      case never
      then have "k' = set_ret ?c (V_msg (Some RDY_TIMEOUT)) (chSemFastSignalI s ?k1)" using e c1 by (simp add: chSemWaitTimeoutS_def Let_def)
      then show ?thesis using c1 never by (auto simp: keeps_def fate_def set_defs chSemFastSignalI_def)
    next
      case joins
      let ?k2 = "(set_u ?c (U_obj s) ?k1)\<lparr>k_links := queue_insert ?c s (k_links k)\<rparr>"
      have "chSchGoSleepTimeoutS WTSEM time ?k2 = Some k'" using joins e c1 by (simp add: chSemWaitTimeoutS_def Let_def set_defs)
      then obtain k3 r where k3: "k' = chSchGoSleepS WTSEM r k3" "r = R_rdymsg \<or> r = R_timeout"
        "k_links k3 = k_links ?k2" "k_thd k3 = k_thd ?k2" "r_current k3 = r_current ?k2" "s_cnt k3 = s_cnt ?k2"
        using chVTSetI_fields by (auto simp: chSchGoSleepTimeoutS_def bind_eq_Some_conv split: if_splits)
      have th: "k_thd k3 = (k_thd k)(?c := (k_thd k ?c)\<lparr>p_u := U_obj s\<rparr>)" "r_current k3 = ?c" "s_cnt k3 = (s_cnt k)(s := s_cnt k s - 1)"
        "k_links k3 = queue_insert ?c s (k_links k)" using k3 c1 by (simp_all add: set_defs)
      have f: "fronts k3 T" by (rule fronts_joined [OF b s th(4,2,1)]) simp
      obtain L' V' where "kinv k' T S Z L' V'" using chSemWaitTimeout_ok [OF k i s, of time] e by (auto simp: chSemWaitTimeout_def)
      then have rT: "r_current (chSchGoSleepS WTSEM r k3) \<in> T" using kinv_cur k3(1) by blast
      have "p_state (k_thd k3 (r_current k3)) = CURRENT" using th cs by simp
      note sk = sleep_keeps [OF f this rT]
      have "fate k3 t = fate k t" if "t \<noteq> ?c" for t using that th by (simp add: fate_def)
      then have "keeps T ?c k k'" using sk(1) unfolding th(2) k3(1) by (rule keeps_from [rotated])
      moreover have "fate k' ?c = F_waits s" using sk(4) th cT k3(1,2) by (auto simp: fate_of_def Let_def)
      ultimately show ?thesis using joins sk(2) th(3) k3(1) by simp
    qed
  qed
  then show "keeps T ?c k k'"
    "fate k' ?c = F_gets RDY_OK \<and> 0 < s_cnt k s \<and> s_cnt k' = (s_cnt k)(s := s_cnt k s - 1) \<or>
      fate k' ?c = F_gets RDY_TIMEOUT \<and> time = TIME_IMMEDIATE \<and> s_cnt k' = s_cnt k \<or>
      fate k' ?c = F_waits s \<and> s_cnt k s \<le> 0 \<and> s_cnt k' = (s_cnt k)(s := s_cnt k s - 1)" by blast+
qed

text \<open>A signal: the first waiting thread gets \<open>RDY_OK\<close>, or the counter goes up.\<close>

lemma sem_signal_fate:
  assumes r: "running k T S Z L V {}" and s: "s \<in> S" and e: "chSemSignalI s k = Some k'"
  shows "r_current k' = r_current k" "s_cnt k' = (s_cnt k)(s := s_cnt k s + 1)"
    and "0 \<le> s_cnt k s \<and> k_thd k' = k_thd k \<or>
      s_cnt k s < 0 \<and> (\<exists>t\<in>T. t \<noteq> r_current k \<and> p_state (k_thd k t) = WTSEM \<and> p_u (k_thd k t) = U_obj s \<and>
        k_thd k' = (k_thd k)(t := (k_thd k t)\<lparr>p_u := U_msg RDY_OK, p_state := READY\<rparr>))"
proof -
  have "r_current k' = r_current k \<and> s_cnt k' = (s_cnt k)(s := s_cnt k s + 1) \<and> (0 \<le> s_cnt k s \<and> k_thd k' = k_thd k \<or>
      s_cnt k s < 0 \<and> (\<exists>t\<in>T. t \<noteq> r_current k \<and> p_state (k_thd k t) = WTSEM \<and> p_u (k_thd k t) = U_obj s \<and>
        k_thd k' = (k_thd k)(t := (k_thd k t)\<lparr>p_u := U_msg RDY_OK, p_state := READY\<rparr>)))"
  proof (cases "s_cnt k s + 1 \<le> 0")
    case True
    have b: "base k T S L V {r_current k}" using running_base [OF r] by simp
    obtain t ts where t: "L s = t # ts" "fst (fifo_remove s (k_links k)) = t" using kinv_signal [OF r s True] by blast
    have h: "s \<in> heads T S" "\<not> single s" using sem_heads [OF b s] by auto
    have tt: "t \<in> T" "t \<noteq> r_current k" "home (k_thd k t) = Some s" using placed_iff [OF base_placed [OF b] h(1), of t] t(1) by auto
    have "p_state (k_thd k t) = WTSEM \<and> p_u (k_thd k t) = U_obj s"
      using home_sem [of T S "k_thd k t" _ _ _ s] base_status [OF b tt(1)] tt base_sems [OF b] s unfolding status_ok_def by blast
    moreover have "chSchReadyI t (set_u t (U_msg RDY_OK) ((chSemFastSignalI s k)\<lparr>k_links := snd (fifo_remove s (k_links k))\<rparr>)) = Some k'"
      using e True t(2) by (simp add: chSemSignalI_def Let_def chSemFastSignalI_def split_beta)
    from ready_cells [OF this] have "r_current k' = r_current k" "s_cnt k' = (s_cnt k)(s := s_cnt k s + 1)"
      "k_thd k' = (k_thd k)(t := (k_thd k t)\<lparr>p_u := U_msg RDY_OK, p_state := READY\<rparr>)" by (auto simp: set_defs chSemFastSignalI_def)
    ultimately show ?thesis using tt True by auto
  next
    case False
    then show ?thesis using e by (auto simp: chSemSignalI_def Let_def chSemFastSignalI_def)
  qed
  then show "r_current k' = r_current k" "s_cnt k' = (s_cnt k)(s := s_cnt k s + 1)"
    "0 \<le> s_cnt k s \<and> k_thd k' = k_thd k \<or>
      s_cnt k s < 0 \<and> (\<exists>t\<in>T. t \<noteq> r_current k \<and> p_state (k_thd k t) = WTSEM \<and> p_u (k_thd k t) = U_obj s \<and>
        k_thd k' = (k_thd k)(t := (k_thd k t)\<lparr>p_u := U_msg RDY_OK, p_state := READY\<rparr>))" by blast+
qed

subsection \<open>Other calls\<close>

lemma sleep_steady:
  assumes k: "kinv k T S Z L V" and i: "r_current k \<noteq> idle_thread" and n: "time \<noteq> 0" and e: "chThdSleep time k = Some k'"
  shows "steady T M (r_current k) k k'"
proof -
  let ?c = "r_current k"
  have b: "base k T S L V {?c}" and cT: "?c \<in> T" and cs: "p_state (k_thd k ?c) = CURRENT" using kinv_base [OF k] kinv_cur [OF k] k by (auto simp: kinv_def)
  obtain k3 r where k3: "k' = chSchGoSleepS SLEEPING r k3" "k_links k3 = k_links k" "k_thd k3 = k_thd k" "r_current k3 = ?c" "s_cnt k3 = s_cnt k"
    using e chVTSetI_fields by (auto simp: chThdSleep_def chThdSleepS_def chSchGoSleepTimeoutS_def bind_eq_Some_conv split: if_splits)
  have f: "fronts k3 T" using base_fronts [OF b] k3 by (simp add: fronts_def)
  obtain L' V' Z' where "kinv k' T S Z' L' V'" using chThdSleep_ok [OF k i n] e by auto
  then have rT: "r_current (chSchGoSleepS SLEEPING r k3) \<in> T" using kinv_cur k3(1) by blast
  have "p_state (k_thd k3 (r_current k3)) = CURRENT" using k3 cs by simp
  note sk = sleep_keeps [OF f this rT]
  have "fate k3 t = fate k t" for t using k3 by (simp add: fate_def)
  then have kp: "keeps T ?c k k'" using sk(1) unfolding k3(1,4) by (rule keeps_from [rotated])
  have "fate k' ?c = fate_of ((k_thd k ?c)\<lparr>p_state := SLEEPING, p_ctx := r\<rparr>)" using sk(4) k3 cT by simp
  then have fc: "fate k' ?c = F_none" by (simp add: fate_of_def Let_def split: thd_u.splits)
  show ?thesis by (rule keeps_steady [OF kp]) (use fc sk(2) k3 fate_cur in auto)
qed

lemma sleep_until_steady:
  assumes "kinv k T S Z L V" "r_current k \<noteq> idle_thread" "chThdSleepUntil time k = Some k'"
  shows "steady T M (r_current k) k k'"
  using assms sleep_steady [of k T S Z L V "time - chTimeNow k" k' M] steady_refl
  by (auto simp: chThdSleepUntil_def chThdSleep_def Let_def word_gt_0 split: if_splits)

text \<open>Waits and signals on other semaphores.\<close>

lemma wait_steady:
  assumes k: "kinv k T S Z L V" "r_current k \<noteq> idle_thread" "s \<in> S" "chSemWaitTimeoutS s time k = Some k'" and M: "s \<notin> M"
  shows "steady T M (r_current k) k k'"
proof (rule keeps_steady [OF sem_wait_fate(1) [OF k]])
  note f = sem_wait_fate(2) [OF k]
  show "\<forall>s\<in>M. fate k' (r_current k) \<noteq> F_waits s \<and> fate k' (r_current k) \<noteq> F_stuck s" using f M by auto
  show "\<forall>s\<in>M. s_cnt k' s = s_cnt k s" using f M by auto
qed (use fate_cur in auto)

lemma wait_forever: "chSemWaitTimeoutS s TIME_INFINITE k = Some (chSemWait s k)"
  by (simp add: chSemWaitTimeoutS_def chSemWait_def chSemWaitS_def chSchGoSleepTimeoutS_def Let_def TIME_INFINITE_def TIME_IMMEDIATE_def)

lemma signal_steady:
  assumes k: "running k T S Z L V {}" "s \<in> S" "chSemSignalI s k = Some k'" and M: "s \<notin> M"
  shows "steady T M (r_current k) k k'"
proof -
  note f = sem_signal_fate [OF k]
  have cn: "s_cnt k' x = s_cnt k x" if "x \<in> M" for x using f(2) M that by auto
  show ?thesis
  proof (cases "0 \<le> s_cnt k s")
    case True
    then have e: "fate k' t = fate k t" for t using f by (auto simp: fate_def)
    then have "waiters T k' x = waiters T k x" for x by (simp add: waiters_def)
    then show ?thesis using cn e by (simp add: steady_def tok_def)
  next
    case False
    then obtain t where t: "t \<in> T" "t \<noteq> r_current k" "p_state (k_thd k t) = WTSEM" "p_u (k_thd k t) = U_obj s"
      "k_thd k' = (k_thd k)(t := (k_thd k t)\<lparr>p_u := U_msg RDY_OK, p_state := READY\<rparr>)" using f(3) by auto
    have o: "fate k' u = fate k u" if "u \<noteq> t" for u using that f(1) t by (simp add: fate_def)
    have ft: "fate k t \<in> {F_waits s, F_stuck s}" "fate k' t \<in> {F_gets RDY_OK, F_none}" using t f(1) by (auto simp: fate_def fate_of_def Let_def)
    have wi: "fate k' u = F_waits x \<longleftrightarrow> fate k u = F_waits x" if "x \<in> M" for u x using o [of u] ft M that by (cases "u = t") auto
    have "waiters T k' x = waiters T k x" if "x \<in> M" for x using wi that by (auto simp: waiters_def)
    then have "tok T k' x = tok T k x" if "x \<in> M" for x using cn that by (simp add: tok_def)
    moreover have "fate k' u = F_gets m" if "fate k u = F_gets m" for u m using o [of u] ft that by (cases "u = t") auto
    moreover have "fate k u = y" if "x \<in> M" "y \<in> {F_waits x, F_stuck x}" "fate k' u = y" for u x y using o [of u] ft that by (cases "u = t") auto
    ultimately show ?thesis unfolding steady_def using wi by blast
  qed
qed

lemma priority_steady:
  assumes k: "kinv k T S Z L V" and p: "p \<noteq> 0" and e: "chThdSetPriority p k = Some k'"
  shows "steady T M (r_current k) k k'"
proof -
  obtain k1 where k1: "chSchRescheduleS k1 = Some k'" "running k1 T S Z L V {}" "r_current k1 = r_current k" "s_cnt k1 = s_cnt k"
    "\<And>t. t \<noteq> r_current k \<Longrightarrow> k_thd k1 t = k_thd k t" using priority_running [OF k p] e by auto
  have "fate k1 t = fate k t" if "t \<noteq> r_current k" for t using k1 that by (simp add: fate_def)
  then have "keeps T (r_current k) k k1" by (simp add: keeps_def)
  then have "steady T M (r_current k) k k1" by (rule keeps_steady) (use k1(3,4) fate_cur fate_cur [of k1] in auto)
  then show ?thesis using steady_trans resched_steady [OF k1(2,1), of M] k1(3) by simp
qed

text \<open>Service routines of an interrupt.\<close>

fun isr_apart :: "kptr set \<Rightarrow> isr \<Rightarrow> bool" where
  "isr_apart M I_tick \<longleftrightarrow> True"
| "isr_apart M (I_signal s) \<longleftrightarrow> s \<notin> M"
| "isr_apart M _ \<longleftrightarrow> False"

lemma isrs_steady:
  assumes "running k T S Z L V {}" "list_all (isr_allowed S) is" "list_all (isr_apart M) is" "isrs_run is k = Some k'" "finite T" "proper T M k"
  shows "steady T M (r_current k) k k' \<and> r_current k' = r_current k \<and> (\<exists>Z' L' V'. running k' T S Z' L' V' {})"
  using assms
proof (induction "is" arbitrary: k Z L V)
  case Nil
  then show ?case using steady_refl by auto
next
  case (Cons i "is")
  obtain k1 where k1: "isr_run i k = Some k1" "isrs_run is k1 = Some k'" using Cons.prems(4) by (auto simp: bind_eq_Some_conv)
  obtain L1 V1 where r1: "running k1 T S (if i = I_tick then less_one Z else Z) L1 V1 {}"
    using isr_run_ok [OF Cons.prems(1), of i] Cons.prems(2) k1(1) by auto
  have s1: "steady T M (r_current k) k k1 \<and> r_current k1 = r_current k"
  proof (cases i)
    case I_tick
    then have "ticked T k k1" using tick_ok [OF Cons.prems(1)] k1(1) by (auto simp: port_time_tick_def)
    then show ?thesis using tick_steady [OF _ Cons.prems(5,6)] by blast
  next
    case (I_signal s)
    then show ?thesis using signal_steady [OF Cons.prems(1), of s k1 M] sem_signal_fate(1) [OF Cons.prems(1), of s k1] Cons.prems(2,3) k1(1) by simp
  qed (use Cons.prems(3) in auto)
  have "steady T M (r_current k1) k1 k' \<and> r_current k' = r_current k1 \<and> (\<exists>Z' L' V'. running k' T S Z' L' V' {})"
    by (rule Cons.IH [OF r1 _ _ k1(2) Cons.prems(5)]) (use Cons.prems(2,3,6) s1 steady_proper in auto)
  then show ?case using s1 steady_trans [of T M "r_current k" k k1 k'] by auto
qed

text \<open>Events that leave the semaphores \<open>M\<close> to themselves.\<close>

fun apart :: "kptr set \<Rightarrow> kevent \<Rightarrow> bool" where
  "apart M (Sleep n) \<longleftrightarrow> True"
| "apart M (SleepUntil n) \<longleftrightarrow> True"
| "apart M Yield \<longleftrightarrow> True"
| "apart M (SetPriority p) \<longleftrightarrow> True"
| "apart M (SemWait s) \<longleftrightarrow> s \<notin> M"
| "apart M (SemWaitTimeout s n) \<longleftrightarrow> s \<notin> M"
| "apart M (Interrupt is) \<longleftrightarrow> list_all (isr_apart M) is"
| "apart M _ \<longleftrightarrow> False"

lemma event_steady:
  assumes k: "kinv k T S Z L V" and a: "allowed T S k e" "apart M e" and e: "event_run e k = Some k'" and fin: "finite T" and p: "proper T M k"
  shows "steady T M (r_current k) k k'"
proof (cases e)
  case (Interrupt "is")
  obtain k1 where k1: "isrs_run is k = Some k1" "ALT_OS_INT_EXIT k1 = Some k'" using e Interrupt by (auto simp: bind_eq_Some_conv)
  have r: "running k T S Z L V {}" using k by (simp add: kinv_running)
  obtain Z' L' V' where s: "steady T M (r_current k) k k1" "r_current k1 = r_current k" "running k1 T S Z' L' V' {}"
    using isrs_steady [OF r _ _ k1(1) fin p] a Interrupt by (auto simp: allowed_def)
  then show ?thesis using steady_trans [OF s(1)] exit_steady [OF s(3) k1(2), of M] by simp
next
  case Yield
  then show ?thesis using yield_steady [of k T S Z L V k' M] k e by (simp add: kinv_running chThdYield_def)
next
  case (SemWait s)
  then show ?thesis using wait_steady [OF k _ _ wait_forever, of s M] a e by (auto simp: allowed_def)
next
  case (SemWaitTimeout s n)
  then show ?thesis using wait_steady [OF k, of s n k' M] a e by (auto simp: allowed_def chSemWaitTimeout_def)
qed (use a e sleep_steady [OF k, of _ k' M] sleep_until_steady [OF k, of _ k' M] priority_steady [OF k, of _ k' M] in
  \<open>auto simp: allowed_def TIME_IMMEDIATE_def NOPRIO_def\<close>)

end
