(* ===== verification/Ch_Credit.thy ===== *)
theory Ch_Credit
  imports Ch_Fate
begin

text \<open>
  Objects that are guarded by semaphores. Each thread may be in one call that starts with a wait on
  a semaphore of the object; \<open>W\<close> gives the semaphore of that wait. The credit of a semaphore is what
  its counter promises together with the waits that were granted and not yet used: waits and other
  events leave it as it is, a signal adds one and the end of a granted call takes one.
\<close>

subsection \<open>Calls and their waits\<close>

definition orderly :: "kptr set \<Rightarrow> kptr set \<Rightarrow> (kptr \<rightharpoonup> kptr) \<Rightarrow> kernel \<Rightarrow> bool" where
  "orderly T M W k \<longleftrightarrow> finite T \<and> proper T M k \<and>
     (\<forall>t x. W t = Some x \<longrightarrow> t \<in> T \<and> x \<in> M \<and> (fate k t = F_waits x \<or> (\<exists>m. fate k t = F_gets m))) \<and>
     (\<forall>t\<in>T. \<forall>x\<in>M. fate k t = F_waits x \<longrightarrow> W t = Some x)"

definition granted :: "kptr set \<Rightarrow> (kptr \<rightharpoonup> kptr) \<Rightarrow> kernel \<Rightarrow> kptr \<Rightarrow> kptr set" where
  "granted T W k x = {t \<in> T. W t = Some x \<and> fate k t = F_gets RDY_OK}"

definition credit :: "kptr set \<Rightarrow> (kptr \<rightharpoonup> kptr) \<Rightarrow> kernel \<Rightarrow> kptr \<Rightarrow> int" where
  "credit T W k x = tok T k x + int (card (granted T W k x))"

lemma orderlyD:
  assumes "orderly T M W k"
  shows "finite T" "proper T M k" "W t = Some x \<Longrightarrow> t \<in> T" "W t = Some x \<Longrightarrow> x \<in> M"
    and "W t = Some x \<Longrightarrow> fate k t = F_waits x \<or> (\<exists>m. fate k t = F_gets m)"
    and "t \<in> T \<Longrightarrow> x \<in> M \<Longrightarrow> fate k t = F_waits x \<Longrightarrow> W t = Some x"
  using assms unfolding orderly_def by blast+

lemma orderlyI:
  assumes "finite T" "proper T M k" "\<And>t x. W t = Some x \<Longrightarrow> t \<in> T \<and> x \<in> M \<and> (fate k t = F_waits x \<or> (\<exists>m. fate k t = F_gets m))"
    and "\<And>t x. t \<in> T \<Longrightarrow> x \<in> M \<Longrightarrow> fate k t = F_waits x \<Longrightarrow> W t = Some x"
  shows "orderly T M W k"
  using assms unfolding orderly_def by blast

lemma orderly_cong:
  assumes "\<And>t. fate k' t = fate k t"
  shows "orderly T M W k' = orderly T M W k" "waiters T k' x = waiters T k x" "granted T W k' x = granted T W k x"
  by (simp_all only: orderly_def proper_def waiters_def granted_def assms)

text \<open>The threads in the queue of a semaphore are the ones that wait in a call.\<close>

lemma waiters_queue:
  assumes b: "base k T S L V {r_current k}" and s: "s \<in> S" "s \<in> M" and p: "proper T M k"
  shows "waiters T k s = set (L s)" "distinct (L s)"
proof -
  have h: "s \<in> heads T S" "\<not> single s" using sem_heads [OF b s(1)] by auto
  show "distinct (L s)" using queues_ring [OF base_queues [OF b] h] by (auto simp: ring_def)
  have m: "t \<in> set (L s) \<longleftrightarrow> t \<in> T \<and> t \<noteq> r_current k \<and> home (k_thd k t) = Some s" for t
    using placed_iff [OF base_placed [OF b] h(1), of t] by auto
  have "fate k t = F_waits s" if t: "t \<in> T" "t \<noteq> r_current k" "home (k_thd k t) = Some s" for t
  proof -
    have "p_state (k_thd k t) = WTSEM \<and> p_u (k_thd k t) = U_obj s"
      using home_sem [of T S "k_thd k t" _ _ _ s] base_status [OF b t(1)] t base_sems [OF b] s unfolding status_ok_def by blast
    then have "fate k t = F_waits s \<or> fate k t = F_stuck s" using t by (simp add: fate_def fate_of_def Let_def)
    then show ?thesis using p t(1) s(2) by (auto simp: proper_def)
  qed
  moreover have "t \<noteq> r_current k \<and> home (k_thd k t) = Some s" if "fate k t = F_waits s" for t
    using that fate_cur [of k s] by (cases "t = r_current k")
      (auto simp: fate_other fate_of_def home_def Let_def split: thd_u.splits if_splits)
  ultimately show "waiters T k s = set (L s)" using m by (auto simp: waiters_def)
qed

lemma tok_counter:
  assumes r: "running k T S Z L V {}" and s: "s \<in> S" "s \<in> M" and p: "proper T M k"
  shows "tok T k s = max 0 (s_cnt k s)"
proof -
  have b: "base k T S L V {r_current k}" using running_base [OF r] by simp
  have "int (card (waiters T k s)) = int (length (L s))" using waiters_queue [OF b s p] by (simp add: distinct_card)
  also have "\<dots> = max 0 (- s_cnt k s)" using r s(1) by (simp add: running_def settled_def counted_def)
  finally show ?thesis by (simp add: tok_def)
qed

lemma granted_finite: "orderly T M W k \<Longrightarrow> finite (granted T W k x)"
  using orderlyD(1) [of T M W k] by (simp add: granted_def)

lemma granted_credit:
  assumes "running k T S Z L V {}" "s \<in> S" "s \<in> M" "orderly T M W k" "t \<in> granted T W k s"
  shows "0 < credit T W k s"
proof -
  have "0 < card (granted T W k s)" using granted_finite [OF assms(4)] assms(5) by (auto simp: card_gt_0_iff)
  then show ?thesis using tok_counter [OF assms(1-3) orderlyD(2) [OF assms(4)]] by (simp add: credit_def)
qed

subsection \<open>What changes the credit\<close>

lemma steady_orderly:
  assumes s: "steady T M c k k'" and o: "orderly T M W k" and c: "W c = None"
  shows "orderly T M W k'" and "x \<in> M \<Longrightarrow> credit T W k' x = credit T W k x"
proof -
  have w: "fate k' t = F_waits x \<or> fate k' t = F_gets RDY_TIMEOUT \<or> (\<exists>m. fate k t = F_gets m \<and> fate k' t = F_gets m)"
    "t \<in> T" "x \<in> M" if "W t = Some x" for t x
  proof -
    have t: "t \<noteq> c" using that c by auto
    note W = orderlyD(3-5) [OF o that]
    show "fate k' t = F_waits x \<or> fate k' t = F_gets RDY_TIMEOUT \<or> (\<exists>m. fate k t = F_gets m \<and> fate k' t = F_gets m)"
      using W(3) steadyD(1) [OF s W(1) t] steadyD(2) [OF s W(1,2) t] by blast
  qed (use orderlyD(3,4) [OF o that] in blast)+
  show "orderly T M W k'"
  proof (rule orderlyI [OF orderlyD(1) [OF o] steady_proper [OF s orderlyD(2) [OF o]]])
    show "t \<in> T \<and> x \<in> M \<and> (fate k' t = F_waits x \<or> (\<exists>m. fate k' t = F_gets m))" if "W t = Some x" for t x using w [OF that] by blast
    show "W t = Some x" if "t \<in> T" "x \<in> M" "fate k' t = F_waits x" for t x
      using steadyD(3) [OF s that(1,2) _ that(3)] orderlyD(6) [OF o that(1,2)] by blast
  qed
  have "t \<in> granted T W k' x \<longleftrightarrow> t \<in> granted T W k x" for t x
  proof (cases "W t = Some x")
    case True
    have "fate k t = F_gets RDY_OK" if "fate k' t = F_gets RDY_OK" using w(1) [OF True] that by (auto simp: RDY_OK_def RDY_TIMEOUT_def)
    moreover have "t \<noteq> c" using True c by auto
    ultimately show ?thesis using True steadyD(1) [OF s, of t RDY_OK] by (auto simp: granted_def)
  qed (simp add: granted_def)
  then have "granted T W k' x = granted T W k x" for x by blast
  then show "credit T W k' x = credit T W k x" if "x \<in> M" using steadyD(4) [OF s that] by (simp add: credit_def)
qed

lemma but_one: "(\<And>t. t \<noteq> c \<Longrightarrow> t \<in> A \<longleftrightarrow> t \<in> B) \<Longrightarrow> c \<notin> B \<Longrightarrow> A = (if c \<in> A then insert c B else B)"
  by (rule set_eqI) (metis insert_iff)

text \<open>Threads other than \<open>c\<close> stay as they are: only the part of \<open>c\<close> counts.\<close>

lemma keeps_orderly:
  assumes p: "keeps T c k k'" and o: "orderly T M W k" and c: "c \<in> T" "W c = None" and W: "\<And>t. t \<noteq> c \<Longrightarrow> W' t = W t"
    and c': "\<And>x. W' c = Some x \<Longrightarrow> x \<in> M \<and> (fate k' c = F_waits x \<or> (\<exists>m. fate k' c = F_gets m))"
      "\<And>x. x \<in> M \<Longrightarrow> fate k' c = F_waits x \<Longrightarrow> W' c = Some x" "\<And>x. x \<in> M \<Longrightarrow> fate k' c \<noteq> F_stuck x"
  shows "orderly T M W' k'"
    and "x \<in> M \<Longrightarrow> waiters T k' x = (if fate k' c = F_waits x then insert c (waiters T k x) else waiters T k x)"
    and "granted T W' k' x = (if W' c = Some x \<and> fate k' c = F_gets RDY_OK then insert c (granted T W k x) else granted T W k x)"
    and "x \<in> M \<Longrightarrow> c \<notin> waiters T k x" "c \<notin> granted T W k x"
proof -
  have kp: "fate k' t = f" if "t \<in> T" "t \<noteq> c" "fate k t = f" "f \<noteq> F_none" for t f using p that unfolding keeps_def by blast
  have wk: "fate k t = f" if "t \<in> T" "t \<noteq> c" "f \<in> {F_waits s, F_stuck s}" "fate k' t = f" for t s f using p that unfolding keeps_def by blast
  show cn: "c \<notin> waiters T k x" if "x \<in> M" for x using orderlyD(6) [OF o, of c x] that c by (auto simp: waiters_def)
  show gn: "c \<notin> granted T W k x" for x using c by (simp add: granted_def)
  show "orderly T M W' k'"
  proof (rule orderlyI [OF orderlyD(1) [OF o]])
    show "proper T M k'" unfolding proper_def
    proof (intro ballI)
      fix t s assume "t \<in> T" "s \<in> M"
      then show "fate k' t \<noteq> F_stuck s" using wk [of t "F_stuck s" s] c'(3) orderlyD(2) [OF o] unfolding proper_def by (cases "t = c") blast+
    qed
    show "t \<in> T \<and> x \<in> M \<and> (fate k' t = F_waits x \<or> (\<exists>m. fate k' t = F_gets m))" if "W' t = Some x" for t x
    proof (cases "t = c")
      case False
      then show ?thesis using that W [of t] orderlyD(3-5) [OF o, of t x] kp [of t] by (metis fate.distinct(1,3))
    qed (use that c' c in blast)
    show "W' t = Some x" if "t \<in> T" "x \<in> M" "fate k' t = F_waits x" for t x
      using that c'(2) W [of t] wk [of t "F_waits x" x] orderlyD(6) [OF o that(1,2)] by (cases "t = c") auto
  qed
  show "waiters T k' x = (if fate k' c = F_waits x then insert c (waiters T k x) else waiters T k x)" if x: "x \<in> M"
  proof -
    have "t \<in> waiters T k' x \<longleftrightarrow> t \<in> waiters T k x" if "t \<noteq> c" for t using kp [of t "F_waits x"] wk [of t "F_waits x" x] that by (auto simp: waiters_def)
    moreover have "c \<in> waiters T k' x \<longleftrightarrow> fate k' c = F_waits x" using c by (simp add: waiters_def)
    ultimately show ?thesis using but_one [OF _ cn [OF x]] by metis
  qed
  have "t \<in> granted T W' k' x \<longleftrightarrow> t \<in> granted T W k x" if t: "t \<noteq> c" for t
  proof (cases "W t = Some x")
    case True
    have "fate k t = F_gets RDY_OK" if "fate k' t = F_gets RDY_OK"
      using orderlyD(3,5) [OF o True] kp [of t] t that by (metis fate.distinct fate.inject(2))
    then show ?thesis using True W [OF t] kp [of t "F_gets RDY_OK"] t by (auto simp: granted_def)
  qed (use W [OF t] in \<open>simp add: granted_def\<close>)
  moreover have "c \<in> granted T W' k' x \<longleftrightarrow> W' c = Some x \<and> fate k' c = F_gets RDY_OK" using c by (simp add: granted_def)
  ultimately show "granted T W' k' x = (if W' c = Some x \<and> fate k' c = F_gets RDY_OK then insert c (granted T W k x) else granted T W k x)"
    using but_one [OF _ gn [of x]] by metis
qed

lemma wait_orderly:
  assumes k: "kinv k T S Z L V" and i: "r_current k \<noteq> idle_thread" and s: "s \<in> S" "s \<in> M" and o: "orderly T M W k" and W: "W (r_current k) = None"
    and e: "chSemWaitTimeoutS s time k = Some k'"
  shows "orderly T M (W(r_current k \<mapsto> s)) k'" and "x \<in> M \<Longrightarrow> credit T (W(r_current k \<mapsto> s)) k' x = credit T W k x"
proof -
  let ?c = "r_current k" let ?W = "W(r_current k \<mapsto> s)"
  note f = sem_wait_fate [OF k i s(1) e]
  have cT: "?c \<in> T" using kinv_cur [OF k] .
  have c: "\<And>x. fate k' ?c = F_waits x \<Longrightarrow> x = s" "\<And>x. fate k' ?c \<noteq> F_stuck x" "fate k' ?c = F_waits s \<or> (\<exists>m. fate k' ?c = F_gets m)"
    using f(2) by auto
  have oth: "?W t = W t" if "t \<noteq> ?c" for t using that by simp
  note K = keeps_orderly [OF f(1) o cT W, of ?W, OF oth, simplified]
  have K': "orderly T M ?W k'" "\<And>x. x \<in> M \<Longrightarrow> waiters T k' x = (if fate k' ?c = F_waits x then insert ?c (waiters T k x) else waiters T k x)"
    "\<And>x. granted T ?W k' x = (if s = x \<and> fate k' ?c = F_gets RDY_OK then insert ?c (granted T W k x) else granted T W k x)"
    "\<And>x. x \<in> M \<Longrightarrow> ?c \<notin> waiters T k x" "\<And>x. ?c \<notin> granted T W k x"
    using K c s(2) by blast+
  show "orderly T M ?W k'" by (rule K'(1))
  have fin: "finite (waiters T k x)" "finite (granted T W k x)" for x using orderlyD(1) [OF o] by (simp_all add: waiters_def granted_def)
  have cw: "card (waiters T k' x) = (if fate k' ?c = F_waits x then card (waiters T k x) + 1 else card (waiters T k x))" if "x \<in> M" for x
    using K'(2,4) [OF that] fin(1) by simp
  have cg: "card (granted T ?W k' x) = (if s = x \<and> fate k' ?c = F_gets RDY_OK then card (granted T W k x) + 1 else card (granted T W k x))" for x
    using K'(3) [of x] K'(5) [of x] fin(2) by simp
  show "credit T ?W k' x = credit T W k x" if "x \<in> M"
    using f(2) unfolding credit_def tok_def cw [OF that] cg by (elim disjE conjE) (auto simp: RDY_OK_def RDY_TIMEOUT_def)
qed

lemma signal_orderly:
  assumes r: "running k T S Z L V {}" and s: "s \<in> S" "s \<in> M" and o: "orderly T M W k" and e: "chSemSignalI s k = Some k'"
  shows "orderly T M W k'" "credit T W k' s = credit T W k s + 1" and "x \<in> M \<Longrightarrow> x \<noteq> s \<Longrightarrow> credit T W k' x = credit T W k x"
proof -
  note f = sem_signal_fate [OF r s(1) e]
  have cn: "s_cnt k' x = s_cnt k x" if "x \<noteq> s" for x using f(2) that by simp
  have "orderly T M W k' \<and> credit T W k' s = credit T W k s + 1 \<and> (\<forall>x\<in>M. x \<noteq> s \<longrightarrow> credit T W k' x = credit T W k x)"
  proof (cases "0 \<le> s_cnt k s")
    case True
    then have e: "fate k' t = fate k t" for t using f by (auto simp: fate_def)
    have "waiters T k' x = waiters T k x" "granted T W k' x = granted T W k x" "orderly T M W k'" for x using orderly_cong [OF e] o by blast+
    then show ?thesis using f(2) by (simp add: credit_def tok_def)
  next
    case False
    then obtain t where t: "t \<in> T" "t \<noteq> r_current k" "p_state (k_thd k t) = WTSEM" "p_u (k_thd k t) = U_obj s"
      "k_thd k' = (k_thd k)(t := (k_thd k t)\<lparr>p_u := U_msg RDY_OK, p_state := READY\<rparr>)" using f(3) by auto
    have q: "fate k' u = fate k u" if "u \<noteq> t" for u using that f(1) t by (simp add: fate_def)
    have "fate k t \<noteq> F_stuck s" using orderlyD(2) [OF o] t(1) s(2) by (simp add: proper_def)
    then have ft: "fate k t = F_waits s" "fate k' t = F_gets RDY_OK" using t f(1) by (auto simp: fate_def fate_of_def Let_def split: if_splits)
    have Wt: "W t = Some s" by (rule orderlyD(6) [OF o t(1) s(2) ft(1)])
    have fw: "fate k' u = F_waits x \<longleftrightarrow> fate k u = F_waits x \<and> u \<noteq> t" "fate k' u = F_gets RDY_OK \<longleftrightarrow> fate k u = F_gets RDY_OK \<or> u = t" for u x
      using q [of u] ft by (cases "u = t"; simp)+
    have wa: "waiters T k' x = waiters T k x - {t}" "granted T W k' x = (if x = s then insert t (granted T W k x) else granted T W k x)" for x
      using fw ft(1) Wt t(1) by (auto simp: waiters_def granted_def)
    have tn: "t \<in> waiters T k s" "t \<notin> granted T W k s" "\<And>x. x \<noteq> s \<Longrightarrow> t \<notin> waiters T k x" using ft t(1) by (auto simp: waiters_def granted_def)
    have "tok T k' s = tok T k s" by (rule waiters_out [OF orderlyD(1) [OF o] tn(1) wa(1)]) (use f(2) in simp)
    then have "credit T W k' s = credit T W k s + 1" using wa(2) tn(2) granted_finite [OF o] by (simp add: credit_def)
    moreover have "credit T W k' x = credit T W k x" if "x \<noteq> s" for x using wa [of x] tn(3) [OF that] that cn [OF that] by (simp add: credit_def tok_def)
    moreover have "orderly T M W k'"
    proof (rule orderlyI [OF orderlyD(1) [OF o]])
      show "proper T M k'" using orderlyD(2) [OF o] q ft unfolding proper_def by (metis fate.distinct(11))
      show "u \<in> T \<and> x \<in> M \<and> (fate k' u = F_waits x \<or> (\<exists>m. fate k' u = F_gets m))" if "W u = Some x" for u x
        using orderlyD(3-5) [OF o that] q [of u] ft(2) by (cases "u = t") auto
      show "W u = Some x" if "u \<in> T" "x \<in> M" "fate k' u = F_waits x" for u x
        using that ft(2) q [of u] orderlyD(6) [OF o that(1,2)] by (cases "u = t") auto
    qed
    ultimately show ?thesis by blast
  qed
  then show "orderly T M W k'" "credit T W k' s = credit T W k s + 1" "x \<in> M \<Longrightarrow> x \<noteq> s \<Longrightarrow> credit T W k' x = credit T W k x" by blast+
qed

text \<open>The running thread comes out of its wait.\<close>

lemma done_orderly:
  assumes o: "orderly T M W k" and c: "W (r_current k) = Some s"
  shows "orderly T M (W(r_current k := None)) k"
    and "credit T (W(r_current k := None)) k x = (if x = s \<and> fate k (r_current k) = F_gets RDY_OK then credit T W k x - 1 else credit T W k x)"
proof -
  let ?c = "r_current k" let ?W = "W(r_current k := None)"
  show "orderly T M ?W k"
  proof (rule orderlyI [OF orderlyD(1,2) [OF o]])
    show "t \<in> T \<and> x \<in> M \<and> (fate k t = F_waits x \<or> (\<exists>m. fate k t = F_gets m))" if "?W t = Some x" for t x
      using orderlyD(3-5) [OF o, of t x] that by (auto split: if_splits)
    show "?W t = Some x" if "t \<in> T" "x \<in> M" "fate k t = F_waits x" for t x using orderlyD(6) [OF o that] fate_cur [of k x] that by auto
  qed
  have cT: "?c \<in> T" by (rule orderlyD(3) [OF o c])
  show "credit T ?W k x = (if x = s \<and> fate k ?c = F_gets RDY_OK then credit T W k x - 1 else credit T W k x)"
  proof (cases "x = s \<and> fate k ?c = F_gets RDY_OK")
    case True
    then have "?c \<in> granted T W k x" "granted T ?W k x = granted T W k x - {?c}" using c cT by (auto simp: granted_def)
    moreover have "0 < card (granted T W k x)" using granted_finite [OF o] calculation(1) by (auto simp: card_gt_0_iff)
    ultimately show ?thesis using True by (simp add: credit_def of_nat_diff)
  next
    case False
    then have "granted T ?W k x = granted T W k x" using c by (auto simp: granted_def)
    then show ?thesis using False by (auto simp: credit_def)
  qed
qed

text \<open>A counter is set, while the waits stay.\<close>

lemma counter_orderly:
  assumes "orderly T M W k" "k_thd k' = k_thd k" "r_current k' = r_current k"
  shows "orderly T M W k'" "credit T W k' x = credit T W k x + (s_cnt k' x - s_cnt k x)"
proof -
  have f: "fate k' t = fate k t" for t using assms by (simp add: fate_def)
  then show "orderly T M W k'" using orderly_cong(1) [of k' k] assms(1) by blast
  have "waiters T k' x = waiters T k x" "granted T W k' x = granted T W k x" using orderly_cong(2,3) [OF f] by blast+
  then show "credit T W k' x = credit T W k x + (s_cnt k' x - s_cnt k x)" by (simp add: credit_def tok_def)
qed

end
