(* ===== verification/Ch_Mailbox_Runs.thy ===== *)
theory Ch_Mailbox_Runs
  imports Ch_Mailbox Ch_Credit
begin

text \<open>
  A mailbox between threads and interrupts: in every history it is a bounded queue of messages.
\<close>

subsection \<open>The ring as a list\<close>

definition holds :: "msys \<Rightarrow> int list \<Rightarrow> bool" where
  "holds s q \<longleftrightarrow> (let b = mb_buffer (ms_mb s); n = chMBSizeI s; r = mb_rdptr (ms_mb s) - b
     in int (length q) \<le> n \<and> 0 \<le> r \<and> r < n \<and> mb_wrptr (ms_mb s) = b + (r + int (length q)) mod n \<and>
        (\<forall>i<length q. ms_mem s (b + (r + int i) mod n) = q ! i))"

lemma mod_step: "0 \<le> w \<Longrightarrow> w < n \<Longrightarrow> (if w + 1 \<ge> n then 0 else w + 1) = (w + 1) mod (n :: int)"
  by (cases "w + 1 = n") auto

lemma mod_back: "0 \<le> w \<Longrightarrow> w < n \<Longrightarrow> (if w - 1 < 0 then n - 1 else w - 1) = (w - 1) mod (n :: int)"
proof -
  assume w: "0 \<le> w" "w < n"
  show ?thesis
  proof (cases "w = 0")
    case True
    then show ?thesis using w by (simp add: zmod_minus1)
  qed (use w in simp)
qed

lemma slot_inj:
  assumes "0 \<le> i" "i < n" "0 \<le> j" "j < (n :: int)" "(r + i) mod n = (r + j) mod n"
  shows "i = j"
proof -
  have "i mod n = j mod n" using assms(5) by (metis add_diff_cancel_left' mod_diff_left_eq)
  then show ?thesis using assms(1-4) by simp
qed

lemma write_holds:
  assumes h: "holds s q" and l: "int (length q) < chMBSizeI s"
  shows "holds (mb_write m s) (q @ [m])"
proof -
  let ?mb = "ms_mb s" let ?b = "mb_buffer ?mb" let ?n = "chMBSizeI s" let ?r = "mb_rdptr ?mb - ?b" let ?w = "(?r + int (length q)) mod ?n"
  have r: "0 \<le> ?r" "?r < ?n" "mb_wrptr ?mb = ?b + ?w" and q: "\<And>i. i < length q \<Longrightarrow> ms_mem s (?b + (?r + int i) mod ?n) = q ! i"
    using h by (auto simp: holds_def Let_def)
  have w: "0 \<le> ?w" "?w < ?n" using r by simp_all
  have f: "chMBSizeI (mb_write m s) = ?n" "mb_buffer (ms_mb (mb_write m s)) = ?b" "mb_rdptr (ms_mb (mb_write m s)) = mb_rdptr ?mb"
    "ms_mem (mb_write m s) = (ms_mem s)(?b + ?w := m)"
    using r(3) by (simp_all add: mb_write_def Let_def chMBSizeI_def)
  have "mb_wrptr (ms_mb (mb_write m s)) = ?b + (if ?w + 1 \<ge> ?n then 0 else ?w + 1)"
    using r(3) by (auto simp: mb_write_def Let_def chMBSizeI_def)
  also have "\<dots> = ?b + (?r + int (length (q @ [m]))) mod ?n" 
    using mod_step [OF w] mod_add_left_eq [of "?r + int (length q)" ?n 1] by (simp add: add.assoc add.commute [of 1])
  finally have wp: "mb_wrptr (ms_mb (mb_write m s)) = ?b + (?r + int (length (q @ [m]))) mod ?n" .
  have "ms_mem (mb_write m s) (?b + (?r + int i) mod ?n) = (q @ [m]) ! i" if i: "i < length (q @ [m])" for i
  proof (cases "i = length q")
    case False
    then have "(?r + int i) mod ?n \<noteq> ?w" using slot_inj [of "int i" ?n "int (length q)" ?r] i l by auto
    then show ?thesis using q [of i] i False f(4) by (simp add: nth_append)
  qed (use f(4) in simp)
  then show ?thesis using r l wp f by (simp add: holds_def Let_def)
qed

lemma push_holds:
  assumes h: "holds s q" and l: "int (length q) < chMBSizeI s"
  shows "holds (mb_push m s) (m # q)"
proof -
  let ?mb = "ms_mb s" let ?b = "mb_buffer ?mb" let ?n = "chMBSizeI s" let ?r = "mb_rdptr ?mb - ?b" let ?p = "(?r - 1) mod ?n"
  have r: "0 \<le> ?r" "?r < ?n" "mb_wrptr ?mb = ?b + (?r + int (length q)) mod ?n" and q: "\<And>i. i < length q \<Longrightarrow> ms_mem s (?b + (?r + int i) mod ?n) = q ! i"
    using h by (auto simp: holds_def Let_def)
  have f: "chMBSizeI (mb_push m s) = ?n" "mb_buffer (ms_mb (mb_push m s)) = ?b" "mb_wrptr (ms_mb (mb_push m s)) = mb_wrptr ?mb"
    by (simp_all add: mb_push_def Let_def chMBSizeI_def)
  have "mb_rdptr (ms_mb (mb_push m s)) = ?b + (if ?r - 1 < 0 then ?n - 1 else ?r - 1)" by (auto simp: mb_push_def Let_def chMBSizeI_def)
  then have rp: "mb_rdptr (ms_mb (mb_push m s)) = ?b + ?p" using mod_back [OF r(1,2)] by simp
  have mem: "ms_mem (mb_push m s) = (ms_mem s)(?b + ?p := m)" using rp by (simp add: mb_push_def Let_def)
  have next_: "(?p + (1 + x)) mod ?n = (?r + x) mod ?n" for x
    using mod_add_left_eq [of "?r - 1" ?n "1 + x"] by (simp add: algebra_simps)
  have "ms_mem (mb_push m s) (?b + (?p + int i) mod ?n) = (m # q) ! i" if i: "i < length (m # q)" for i
  proof (cases i)
    case 0
    have "?p mod ?n = ?p" by simp
    then show ?thesis using 0 mem by simp
  next
    case (Suc j)
    have "?p \<noteq> (?r + int j) mod ?n" using slot_inj [of 0 ?n "1 + int j" ?p] next_ [of "int j"] i l Suc r by auto
    then show ?thesis using Suc i q [of j] next_ [of "int j"] mem by auto
  qed
  moreover have "mb_wrptr (ms_mb (mb_push m s)) = ?b + (?p + int (length (m # q))) mod ?n" using f(3) r(3) next_ [of "int (length q)"] by simp
  ultimately show ?thesis using r l rp f by (simp add: holds_def Let_def)
qed

lemma read_holds:
  assumes h: "holds s (m # q)"
  shows "fst (mb_read s) = m" "holds (snd (mb_read s)) q"
proof -
  let ?mb = "ms_mb s" let ?b = "mb_buffer ?mb" let ?n = "chMBSizeI s" let ?r = "mb_rdptr ?mb - ?b" let ?s = "snd (mb_read s)" let ?p = "(?r + 1) mod ?n"
  have r: "0 \<le> ?r" "?r < ?n" "mb_wrptr ?mb = ?b + (?r + int (length (m # q))) mod ?n" "int (length (m # q)) \<le> ?n"
    and q: "\<And>i. i < length (m # q) \<Longrightarrow> ms_mem s (?b + (?r + int i) mod ?n) = (m # q) ! i"
    using h by (auto simp: holds_def Let_def)
  show "fst (mb_read s) = m" using q [of 0] r by (simp add: mb_read_def Let_def)
  have f: "chMBSizeI ?s = ?n" "mb_buffer (ms_mb ?s) = ?b" "mb_wrptr (ms_mb ?s) = mb_wrptr ?mb" "ms_mem ?s = ms_mem s"
    by (simp_all add: mb_read_def Let_def chMBSizeI_def)
  have "mb_rdptr (ms_mb ?s) = ?b + (if ?r + 1 \<ge> ?n then 0 else ?r + 1)" by (auto simp: mb_read_def Let_def chMBSizeI_def)
  then have rp: "mb_rdptr (ms_mb ?s) = ?b + ?p" using mod_step [OF r(1,2)] by simp
  have "(?p + x) mod ?n = (?r + (1 + x)) mod ?n" for x by (simp add: mod_add_left_eq add.assoc)
  then show "holds ?s q" using r q [of "Suc _"] rp f by (simp add: holds_def Let_def)
qed

lemma holds_cong: "ms_mb s' = ms_mb s \<Longrightarrow> ms_mem s' = ms_mem s \<Longrightarrow> holds s' q = holds s q"
  by (simp add: holds_def chMBSizeI_def)

lemma ring_fields [simp]:
  "ms_k (mb_write m s) = ms_k s" "ms_pend (mb_write m s) = ms_pend s" "mb_fullsem (ms_mb (mb_write m s)) = mb_fullsem (ms_mb s)"
  "mb_emptysem (ms_mb (mb_write m s)) = mb_emptysem (ms_mb s)" "chMBSizeI (mb_write m s) = chMBSizeI s" "ms_got (mb_write m s) = ms_got s"
  "ms_k (mb_push m s) = ms_k s" "ms_pend (mb_push m s) = ms_pend s" "mb_fullsem (ms_mb (mb_push m s)) = mb_fullsem (ms_mb s)"
  "mb_emptysem (ms_mb (mb_push m s)) = mb_emptysem (ms_mb s)" "chMBSizeI (mb_push m s) = chMBSizeI s" "ms_got (mb_push m s) = ms_got s"
  "ms_k (snd (mb_read s)) = ms_k s" "ms_pend (snd (mb_read s)) = ms_pend s" "mb_fullsem (ms_mb (snd (mb_read s))) = mb_fullsem (ms_mb s)"
  "mb_emptysem (ms_mb (snd (mb_read s))) = mb_emptysem (ms_mb s)" "chMBSizeI (snd (mb_read s)) = chMBSizeI s" "ms_got (snd (mb_read s)) = ms_got s"
  by (simp_all add: mb_write_def mb_push_def mb_read_def Let_def chMBSizeI_def)

subsection \<open>The state of a mailbox in use\<close>

definition sem_of :: "mailbox \<Rightarrow> mbcall \<Rightarrow> kptr" where
  "sem_of mb c = (if c = C_fetch then mb_fullsem mb else mb_emptysem mb)"

definition msems :: "msys \<Rightarrow> kptr set" where
  "msems s = {mb_fullsem (ms_mb s), mb_emptysem (ms_mb s)}"

definition wants :: "msys \<Rightarrow> kptr \<rightharpoonup> kptr" where
  "wants s = map_option (sem_of (ms_mb s)) \<circ> ms_pend s"

definition mb_ok :: "kptr set \<Rightarrow> kptr set \<Rightarrow> int \<Rightarrow> msys \<Rightarrow> int list \<Rightarrow> bool" where
  "mb_ok T S n s q \<longleftrightarrow> (\<exists>Z L V. kinv (ms_k s) T S Z L V) \<and> msems s \<subseteq> S \<and> mb_fullsem (ms_mb s) \<noteq> mb_emptysem (ms_mb s) \<and>
     chMBSizeI s = n \<and> holds s q \<and> orderly T (msems s) (wants s) (ms_k s) \<and>
     credit T (wants s) (ms_k s) (mb_emptysem (ms_mb s)) = n - int (length q) \<and>
     credit T (wants s) (ms_k s) (mb_fullsem (ms_mb s)) = int (length q)"

lemma mb_okD:
  assumes "mb_ok T S n s q"
  shows "\<exists>Z L V. kinv (ms_k s) T S Z L V" "mb_fullsem (ms_mb s) \<in> S" "mb_emptysem (ms_mb s) \<in> S" "mb_fullsem (ms_mb s) \<noteq> mb_emptysem (ms_mb s)"
    "chMBSizeI s = n" "holds s q" "orderly T (msems s) (wants s) (ms_k s)"
    "credit T (wants s) (ms_k s) (mb_emptysem (ms_mb s)) = n - int (length q)"
    "credit T (wants s) (ms_k s) (mb_fullsem (ms_mb s)) = int (length q)"
  using assms by (simp_all add: mb_ok_def msems_def)

lemma wants_None [simp]: "wants s t = None \<longleftrightarrow> ms_pend s t = None"
  by (simp add: wants_def)

lemma msems_in [simp]: "mb_fullsem (ms_mb s) \<in> msems s" "mb_emptysem (ms_mb s) \<in> msems s"
  by (simp_all add: msems_def)

text \<open>An event of the kernel that leaves the mailbox alone.\<close>

lemma mb_ok_steady:
  assumes m: "mb_ok T S n s q" and f: "ms_pend s (r_current (ms_k s)) = None" and s: "steady T (msems s) (r_current (ms_k s)) (ms_k s) k'"
    and k': "\<exists>Z L V. kinv k' T S Z L V"
  shows "mb_ok T S n (s\<lparr>ms_k := k'\<rparr>) q"
proof -
  let ?s = "s\<lparr>ms_k := k'\<rparr>"
  have e: "wants ?s = wants s" "msems ?s = msems s" "chMBSizeI ?s = chMBSizeI s" "holds ?s q = holds s q"
    by (auto simp: wants_def msems_def chMBSizeI_def intro!: holds_cong)
  have W: "wants s (r_current (ms_k s)) = None" using f by simp
  note o = steady_orderly [OF s mb_okD(7) [OF m] W]
  show ?thesis unfolding mb_ok_def e using mb_okD [OF m] k' o by (auto simp: msems_def)
qed

text \<open>The wait at the start of a call.\<close>

lemma mb_wait_ok:
  assumes m: "mb_ok T S n s q" and f: "ms_pend s (r_current (ms_k s)) = None" and i: "r_current (ms_k s) \<noteq> idle_thread"
  shows "\<exists>s'. mb_wait (sem_of (ms_mb s) c) c time s = Some s' \<and> mb_ok T S n s' q"
proof -
  let ?x = "sem_of (ms_mb s) c" let ?c = "r_current (ms_k s)"
  obtain Z L V where k: "kinv (ms_k s) T S Z L V" using mb_okD(1) [OF m] by blast
  have x: "?x \<in> S" "?x \<in> msems s" using mb_okD(2,3) [OF m] by (auto simp: sem_of_def)
  obtain k' L' V' where k': "chSemWaitTimeoutS ?x time (ms_k s) = Some k'" "kinv k' T S Z L' V'"
    using chSemWaitTimeout_ok [OF k i x(1), of time] by (auto simp: chSemWaitTimeout_def)
  define s' where "s' = s\<lparr>ms_k := k', ms_pend := (ms_pend s)(?c \<mapsto> c)\<rparr>"
  have e: "wants s' = (wants s)(?c \<mapsto> ?x)" "msems s' = msems s" "chMBSizeI s' = chMBSizeI s" "holds s' q = holds s q" "ms_mb s' = ms_mb s" "ms_k s' = k'"
    by (auto simp: s'_def wants_def msems_def chMBSizeI_def fun_eq_iff intro!: holds_cong)
  have W: "wants s ?c = None" using f by simp
  note o = wait_orderly [OF k i x mb_okD(7) [OF m] W k'(1)]
  have "mb_ok T S n s' q" unfolding mb_ok_def e using mb_okD [OF m] k'(2) o by (auto simp: msems_def)
  then show ?thesis using k'(1) by (simp add: mb_wait_def s'_def)
qed

text \<open>A signal, after which the running thread or another one goes on.\<close>

lemma signal_running:
  assumes k: "kinv k T S Z L V" and x: "x \<in> S" "x \<in> M" and o: "orderly T M W k"
  shows "\<exists>k1 L1. chSemSignalI x k = Some k1 \<and> running k1 T S Z L1 V {} \<and> r_current k1 = r_current k \<and> orderly T M W k1 \<and>
    (\<forall>y\<in>M. credit T W k1 y = credit T W k y + (if y = x then 1 else 0))"
proof -
  have r: "running k T S Z L V {}" using k by (simp add: kinv_running)
  obtain k1 L1 where k1: "chSemSignalI x k = Some k1" "running k1 T S Z L1 V {}" using chSemSignalI_ok [OF r x(1)] by blast
  note so = signal_orderly [OF r x o k1(1)]
  show ?thesis using k1 so sem_signal_fate(1) [OF r x(1) k1(1)] by auto
qed

lemma signal_then:
  assumes k: "kinv k T S Z L V" and x: "x \<in> S" "x \<in> M" and o: "orderly T M W k" and c: "W (r_current k) = None" and k1: "chSemSignalI x k = Some k1"
    and g: "g \<in> {chSchRescheduleS, ALT_OS_INT_EXIT}"
  shows "\<exists>k'. g k1 = Some k' \<and> (\<exists>L V. kinv k' T S Z L V) \<and> orderly T M W k' \<and> (\<forall>y\<in>M. credit T W k' y = credit T W k y + (if y = x then 1 else 0))"
proof -
  obtain L1 where r: "running k1 T S Z L1 V {}" "r_current k1 = r_current k" "orderly T M W k1" and cr: "\<forall>y\<in>M. credit T W k1 y = credit T W k y + (if y = x then 1 else 0)"
    using signal_running [OF k x o] k1 by auto
  obtain k' where k': "g k1 = Some k'" "\<exists>L V. kinv k' T S Z L V" "steady T M (r_current k1) k1 k'"
    using g chSchRescheduleS_ok [OF r(1)] int_exit_ok [OF r(1)] resched_steady [OF r(1)] exit_steady [OF r(1)] by blast
  have c1: "W (r_current k1) = None" using c r(2) by simp
  show ?thesis using k' steady_orderly [OF k'(3) r(3) c1] cr by auto
qed


text \<open>The end of a granted call, after the ring was changed: the other semaphore is signalled.\<close>

lemma mb_finish:
  assumes m: "mb_ok T S n s q" and c: "ms_pend s (r_current (ms_k s)) = Some c" and g: "fate (ms_k s) (r_current (ms_k s)) = F_gets RDY_OK"
  shows "c = C_fetch \<Longrightarrow> q \<noteq> []" "c \<noteq> C_fetch \<Longrightarrow> int (length q) < n"
    and "ms_k s1 = ms_k s \<Longrightarrow> ms_pend s1 = (ms_pend s)(r_current (ms_k s) := None) \<Longrightarrow> mb_fullsem (ms_mb s1) = mb_fullsem (ms_mb s) \<Longrightarrow>
      mb_emptysem (ms_mb s1) = mb_emptysem (ms_mb s) \<Longrightarrow> chMBSizeI s1 = n \<Longrightarrow> holds s1 q1 \<Longrightarrow>
      int (length q1) = int (length q) + (if c = C_fetch then - 1 else 1) \<Longrightarrow> x = (if c = C_fetch then mb_emptysem (ms_mb s) else mb_fullsem (ms_mb s)) \<Longrightarrow>
      \<exists>s'. mb_signal x s1 = Some s' \<and> mb_ok T S n s' q1 \<and> ms_got s' = ms_got s1"
proof -
  let ?c = "r_current (ms_k s)" let ?k = "ms_k s" let ?M = "msems s" let ?x = "sem_of (ms_mb s) c"
  obtain Z L V where k: "kinv ?k T S Z L V" using mb_okD(1) [OF m] by blast
  have r: "running ?k T S Z L V {}" using k by (simp add: kinv_running)
  note ok = mb_okD [OF m]
  have W: "wants s ?c = Some ?x" using c by (simp add: wants_def)
  have x: "?x \<in> S" "?x \<in> ?M" using ok(2,3) by (auto simp: sem_of_def)
  have "?c \<in> granted T (wants s) ?k ?x" using W g kinv_cur [OF k] by (simp add: granted_def)
  from granted_credit [OF r x ok(7) this] show "c = C_fetch \<Longrightarrow> q \<noteq> []" "c \<noteq> C_fetch \<Longrightarrow> int (length q) < n"
    using ok(8,9) by (auto simp: sem_of_def)
  assume s1: "ms_k s1 = ?k" "ms_pend s1 = (ms_pend s)(?c := None)" "mb_fullsem (ms_mb s1) = mb_fullsem (ms_mb s)"
    "mb_emptysem (ms_mb s1) = mb_emptysem (ms_mb s)" "chMBSizeI s1 = n" "holds s1 q1" "int (length q1) = int (length q) + (if c = C_fetch then - 1 else 1)"
    and y: "x = (if c = C_fetch then mb_emptysem (ms_mb s) else mb_fullsem (ms_mb s))"
  have "sem_of (ms_mb s1) = sem_of (ms_mb s)" using s1 by (simp add: sem_of_def fun_eq_iff)
  then have w1: "wants s1 = (wants s)(?c := None)" "msems s1 = ?M" using s1 by (auto simp: wants_def msems_def)
  note d = done_orderly [OF ok(7) W]
  have yS: "x \<in> S" "x \<in> ?M" "x \<noteq> ?x" using ok(2-4) y by (auto simp: sem_of_def)
  obtain k1 where k1: "chSemSignalI x ?k = Some k1" using signal_running [OF k yS(1,2) d(1)] by blast
  have "((wants s)(?c := None)) ?c = None" by simp
  from signal_then [OF k yS(1,2) d(1) this k1, of chSchRescheduleS] obtain k' where k': "chSchRescheduleS k1 = Some k'" "\<exists>L V. kinv k' T S Z L V"
    "orderly T ?M ((wants s)(?c := None)) k'"
    and cr: "\<And>z. z \<in> ?M \<Longrightarrow> credit T ((wants s)(?c := None)) k' z = credit T ((wants s)(?c := None)) ?k z + (if z = x then 1 else 0)" by blast
  define s' where "s' = s1\<lparr>ms_k := k'\<rparr>"
  have e: "wants s' = (wants s)(?c := None)" "msems s' = ?M" "chMBSizeI s' = n" "holds s' q1" "ms_k s' = k'"
    "mb_fullsem (ms_mb s') = mb_fullsem (ms_mb s)" "mb_emptysem (ms_mb s') = mb_emptysem (ms_mb s)"
    using w1 s1 holds_cong [of s' s1 q1] by (simp_all add: s'_def wants_def msems_def chMBSizeI_def)
  have "credit T ((wants s)(?c := None)) k' (mb_emptysem (ms_mb s)) = n - int (length q1)"
    "credit T ((wants s)(?c := None)) k' (mb_fullsem (ms_mb s)) = int (length q1)"
    using cr d(2) g ok(4,8,9) s1(7) y by (auto simp: sem_of_def)
  then have "mb_ok T S n s' q1" unfolding mb_ok_def e using ok(2-4) k'(2,3) e(4) by (auto simp: msems_def)
  then show "\<exists>s'. mb_signal x s1 = Some s' \<and> mb_ok T S n s' q1 \<and> ms_got s' = ms_got s1"
    using k1 k'(1) s1(1) by (simp add: mb_signal_def s'_def)
qed


subsection \<open>Steps\<close>

text \<open>What happened to the messages, and a bounded queue to which the same happens.\<close>

datatype mb_event = Posted int | Ahead int | Fetched int | Cleared

fun replay :: "int \<Rightarrow> mb_event list \<Rightarrow> int list \<Rightarrow> int list option" where
  "replay n [] q = Some q"
| "replay n (Posted m # es) q = (if int (length q) < n then replay n es (q @ [m]) else None)"
| "replay n (Ahead m # es) q = (if int (length q) < n then replay n es (m # q) else None)"
| "replay n (Fetched m # es) q = (case q of [] \<Rightarrow> None | x # xs \<Rightarrow> if x = m then replay n es xs else None)"
| "replay n (Cleared # es) q = replay n es []"

lemma replay_append: "replay n (es @ fs) q = Option.bind (replay n es q) (replay n fs)"
  by (induction n es q rule: replay.induct) (auto split: list.splits)

text \<open>What the end of a call did; \<open>s'\<close> is the state after it.\<close>

definition rest_event :: "msys \<Rightarrow> msys \<Rightarrow> mb_event list" where
  "rest_event s s' =
     (let cur = r_current (ms_k s)
      in if p_ret (k_thd (ms_k s) cur) = V_msg (Some RDY_OK) then
           case ms_pend s cur of
             None \<Rightarrow> []
           | Some (C_post m) \<Rightarrow> [Posted m]
           | Some (C_ahead m) \<Rightarrow> [Ahead m]
           | Some C_fetch \<Rightarrow> [Fetched (ms_got s' cur)]
         else [])"

lemma mb_rest_ok:
  assumes m: "mb_ok T S n s q" and c: "ms_pend s (r_current (ms_k s)) = Some c"
  shows "\<exists>s' q'. mb_rest s = Some s' \<and> mb_ok T S n s' q' \<and> replay n (rest_event s s') q = Some q'"
proof -
  let ?c = "r_current (ms_k s)" let ?k = "ms_k s" let ?s = "s\<lparr>ms_pend := (ms_pend s)(?c := None)\<rparr>"
  note ok = mb_okD [OF m]
  have s: "chMBSizeI ?s = n" "holds ?s q" using ok(5,6) holds_cong [of ?s s q] by (simp_all add: chMBSizeI_def)
  show ?thesis
  proof (cases "p_ret (k_thd ?k ?c) = V_msg (Some RDY_OK)")
    case True
    then have g: "fate ?k ?c = F_gets RDY_OK" by (simp add: fate_def)
    note fin = mb_finish [OF m c g]
    show ?thesis
    proof (cases c)
      case (C_post msg)
      then have l: "int (length q) < chMBSizeI ?s" using fin(2) s by simp
      have "\<exists>s'. mb_signal (mb_fullsem (ms_mb s)) (mb_write msg ?s) = Some s' \<and> mb_ok T S n s' (q @ [msg]) \<and> ms_got s' = ms_got (mb_write msg ?s)"
        by (rule fin(3)) (use C_post s write_holds [OF s(2) l] in simp_all)
      then show ?thesis using True c C_post l s(1) by (auto simp: mb_rest_def rest_event_def chMBPostS_rest_def Let_def)
    next
      case (C_ahead msg)
      then have l: "int (length q) < chMBSizeI ?s" using fin(2) s by simp
      have "\<exists>s'. mb_signal (mb_fullsem (ms_mb s)) (mb_push msg ?s) = Some s' \<and> mb_ok T S n s' (msg # q) \<and> ms_got s' = ms_got (mb_push msg ?s)"
        by (rule fin(3)) (use C_ahead s push_holds [OF s(2) l] in simp_all)
      then show ?thesis using True c C_ahead l s(1) by (auto simp: mb_rest_def rest_event_def chMBPostAheadS_rest_def Let_def)
    next
      case C_fetch
      then obtain msg q1 where q: "q = msg # q1" using fin(1) by (cases q) auto
      define s2 where "s2 = snd (mb_read ?s)"
      have rd: "mb_read ?s = (msg, s2)" "holds s2 q1" using read_holds [OF s(2) [unfolded q]] by (simp_all add: s2_def prod_eq_iff)
      let ?s1 = "s2\<lparr>ms_got := (ms_got s2)(?c := msg)\<rparr>"
      have h: "chMBSizeI ?s1 = n" "holds ?s1 q1" using rd(2) s(1) holds_cong [of ?s1 s2 q1] ring_fields(17) [of ?s] by (simp_all add: chMBSizeI_def s2_def)
      have f: "mb_emptysem (ms_mb ?s1) = mb_emptysem (ms_mb s)" by (simp add: s2_def)
      have "\<exists>s'. mb_signal (mb_emptysem (ms_mb s)) ?s1 = Some s' \<and> mb_ok T S n s' q1 \<and> ms_got s' = ms_got ?s1"
        by (rule fin(3)) (use C_fetch h q in \<open>simp_all add: s2_def\<close>)
      then obtain s' where s': "mb_signal (mb_emptysem (ms_mb s)) ?s1 = Some s'" "mb_ok T S n s' q1" "ms_got s' = ms_got ?s1" by blast
      have "mb_rest s = Some s'" using True c C_fetch rd(1) s'(1) f by (simp add: mb_rest_def chMBFetchS_rest_def Let_def)
      moreover have "rest_event s s' = [Fetched msg]" using True c C_fetch s'(3) by (simp add: rest_event_def Let_def)
      ultimately show ?thesis using s'(2) q by simp
    qed
  next
    case False
    then have g: "fate ?k ?c \<noteq> F_gets RDY_OK" by (auto simp: fate_def split: kval.splits option.splits)
    have W: "wants s ?c = Some (sem_of (ms_mb s) c)" using c by (simp add: wants_def)
    note d = done_orderly [OF ok(7) W]
    have e: "wants ?s = (wants s)(?c := None)" "msems ?s = msems s" "ms_k ?s = ?k" "ms_mb ?s = ms_mb s" by (auto simp: wants_def msems_def)
    have "mb_ok T S n ?s q" unfolding mb_ok_def e using ok d g s by (auto simp: msems_def)
    then show ?thesis using False by (auto simp: mb_rest_def rest_event_def Let_def)
  qed
qed

text \<open>Posting from an interrupt.\<close>

definition put_event :: "int \<Rightarrow> mb_event \<Rightarrow> mb_event list" where
  "put_event r e = (if r = RDY_OK then [e] else [])"

lemma mb_post_i:
  assumes m: "mb_ok T S n s q" and f: "ms_pend s (r_current (ms_k s)) = None" and p: "0 < s_cnt (ms_k s) (mb_emptysem (ms_mb s))"
    and s1: "ms_k s1 = chSemFastWaitI (mb_emptysem (ms_mb s)) (ms_k s)" "ms_pend s1 = ms_pend s" "mb_fullsem (ms_mb s1) = mb_fullsem (ms_mb s)"
      "mb_emptysem (ms_mb s1) = mb_emptysem (ms_mb s)" "chMBSizeI s1 = n" "int (length q) < n \<Longrightarrow> holds s1 q1" "length q1 = length q + 1"
  shows "int (length q) < n"
    and "\<exists>k1 k'. chSemSignalI (mb_fullsem (ms_mb s)) (ms_k s1) = Some k1 \<and> ALT_OS_INT_EXIT k1 = Some k' \<and> mb_ok T S n (s1\<lparr>ms_k := k'\<rparr>) q1"
proof -
  let ?es = "mb_emptysem (ms_mb s)" let ?fs = "mb_fullsem (ms_mb s)" let ?k = "ms_k s" let ?kw = "chSemFastWaitI ?es ?k" let ?M = "msems s"
  note ok = mb_okD [OF m]
  obtain Z L V where k: "kinv ?k T S Z L V" using ok(1) by blast
  have r: "running ?k T S Z L V {}" using k by (simp add: kinv_running)
  have "0 < tok T ?k ?es" using tok_counter [OF r ok(3) _ orderlyD(2) [OF ok(7)]] p by simp
  then show l: "int (length q) < n" using ok(8) by (simp add: credit_def)
  have f0: "k_thd ?kw = k_thd ?k" "r_current ?kw = r_current ?k" "s_cnt ?kw = (s_cnt ?k)(?es := s_cnt ?k ?es - 1)" by (simp_all add: chSemFastWaitI_def)
  have "counted ?kw S L" using k p f0(3) by (auto simp: kinv_def counted_def)
  then have k0: "kinv ?kw T S Z L V" by (rule kinv_count [OF k]) (simp add: chSemFastWaitI_def)
  note o0 = counter_orderly [OF ok(7) f0(1,2)]
  have W: "wants s (r_current ?kw) = None" using f f0(2) by simp
  obtain k1 where k1: "chSemSignalI ?fs ?kw = Some k1" using signal_running [OF k0 ok(2) msems_in(1) o0(1)] by blast
  from signal_then [OF k0 ok(2) msems_in(1) o0(1) W k1, of ALT_OS_INT_EXIT] obtain k' where k': "ALT_OS_INT_EXIT k1 = Some k'" "\<exists>L V. kinv k' T S Z L V"
    "orderly T ?M (wants s) k'" and cr: "\<And>z. z \<in> ?M \<Longrightarrow> credit T (wants s) k' z = credit T (wants s) ?kw z + (if z = ?fs then 1 else 0)" by auto
  define s' where "s' = s1\<lparr>ms_k := k'\<rparr>"
  have "sem_of (ms_mb s1) = sem_of (ms_mb s)" using s1 by (simp add: sem_of_def fun_eq_iff)
  then have e: "wants s' = wants s" "msems s' = ?M" "chMBSizeI s' = n" "holds s' q1" "ms_k s' = k'" "mb_fullsem (ms_mb s') = ?fs" "mb_emptysem (ms_mb s') = ?es"
    using s1 l holds_cong [of s' s1 q1] by (auto simp: s'_def wants_def msems_def chMBSizeI_def)
  have "credit T (wants s) k' ?es = n - int (length q1)" "credit T (wants s) k' ?fs = int (length q1)"
    using cr o0(2) f0(3) ok(4,8,9) s1(7) by auto
  then have "mb_ok T S n s' q1" unfolding mb_ok_def e using ok(2-4) k'(2,3) e(4) by (auto simp: msems_def)
  then show "\<exists>k1 k'. chSemSignalI ?fs (ms_k s1) = Some k1 \<and> ALT_OS_INT_EXIT k1 = Some k' \<and> mb_ok T S n (s1\<lparr>ms_k := k'\<rparr>) q1"
    using k1 k'(1) s1(1) by (simp add: s'_def)
qed


lemma chMBPostI_ok:
  assumes m: "mb_ok T S n s q" and f: "ms_pend s (r_current (ms_k s)) = None" and post: "P = chMBPostI m \<and> e = Posted m \<or> P = chMBPostAheadI m \<and> e = Ahead m"
  shows "\<exists>r s1 k' q'. P s = Some (r, s1) \<and> ALT_OS_INT_EXIT (ms_k s1) = Some k' \<and> mb_ok T S n (s1\<lparr>ms_k := k'\<rparr>) q' \<and> replay n (put_event r e) q = Some q'"
proof (cases "0 < s_cnt (ms_k s) (mb_emptysem (ms_mb s))")
  case True
  let ?es = "mb_emptysem (ms_mb s)" let ?s = "s\<lparr>ms_k := chSemFastWaitI ?es (ms_k s)\<rparr>"
  have h: "holds ?s q" "chMBSizeI ?s = n" using mb_okD(5,6) [OF m] holds_cong [of ?s s q] by (simp_all add: chMBSizeI_def)
  note p1 = mb_post_i [OF m f True, of "mb_write m ?s" "q @ [m]"] and p2 = mb_post_i [OF m f True, of "mb_push m ?s" "m # q"]
  show ?thesis using post
  proof (elim disjE conjE)
    assume P: "P = chMBPostI m" "e = Posted m"
    have "int (length q) < n" "\<exists>k1 k'. chSemSignalI (mb_fullsem (ms_mb s)) (ms_k ?s) = Some k1 \<and> ALT_OS_INT_EXIT k1 = Some k' \<and> mb_ok T S n ((mb_write m ?s)\<lparr>ms_k := k'\<rparr>) (q @ [m])"
      using p1 h write_holds [OF h(1)] by simp_all
    then show ?thesis using True P by (auto simp: chMBPostI_def Let_def put_event_def)
  next
    assume P: "P = chMBPostAheadI m" "e = Ahead m"
    have "int (length q) < n" "\<exists>k1 k'. chSemSignalI (mb_fullsem (ms_mb s)) (ms_k ?s) = Some k1 \<and> ALT_OS_INT_EXIT k1 = Some k' \<and> mb_ok T S n ((mb_push m ?s)\<lparr>ms_k := k'\<rparr>) (m # q)"
      using p2 h push_holds [OF h(1)] by simp_all
    then show ?thesis using True P by (auto simp: chMBPostAheadI_def Let_def put_event_def)
  qed
next
  case False
  obtain Z L V where k: "kinv (ms_k s) T S Z L V" using mb_okD(1) [OF m] by blast
  have r: "running (ms_k s) T S Z L V {}" using k by (simp add: kinv_running)
  obtain k' L' V' where k': "ALT_OS_INT_EXIT (ms_k s) = Some k'" "kinv k' T S Z L' V'" using int_exit_ok [OF r] by blast
  have "mb_ok T S n (s\<lparr>ms_k := k'\<rparr>) q" by (rule mb_ok_steady [OF m f exit_steady [OF r k'(1)]]) (use k'(2) in blast)
  moreover have "P s = Some (RDY_TIMEOUT, s)" "replay n (put_event RDY_TIMEOUT e) q = Some q"
    using post False by (auto simp: chMBPostI_def chMBPostAheadI_def Let_def put_event_def RDY_OK_def RDY_TIMEOUT_def)
  ultimately show ?thesis using k'(1) by blast
qed

text \<open>A reset while no call is in its wait.\<close>

lemma chMBReset_ok:
  assumes m: "mb_ok T S n s q" and f: "ms_pend s = (\<lambda>_. None)"
  shows "\<exists>s'. chMBReset s = Some s' \<and> mb_ok T S n s' []"
proof -
  let ?mb = "ms_mb s" let ?fs = "mb_fullsem ?mb" let ?es = "mb_emptysem ?mb" let ?k = "ms_k s" let ?M = "msems s"
  note ok = mb_okD [OF m]
  obtain Z L V where k: "kinv ?k T S Z L V" using ok(1) by blast
  have r: "running ?k T S Z L V {}" using k by (simp add: kinv_running)
  have W: "wants s = Map.empty" using f by (simp add: wants_def fun_eq_iff)
  have g: "granted T Map.empty k' x = {}" for k' x by (simp add: granted_def)
  have w: "waiters T ?k x = {}" if "x \<in> ?M" for x using orderlyD(6) [OF ok(7), of _ x] that W by (auto simp: waiters_def)
  have c: "s_cnt ?k ?es = n - int (length q)" "s_cnt ?k ?fs = int (length q)" using ok(8,9) W g w by (simp_all add: credit_def tok_def)
  have n: "int (length q) \<le> n" "0 < n" using ok(5,6) by (auto simp: holds_def Let_def)
  define k1 where "k1 = ?k\<lparr>s_cnt := (s_cnt ?k)(?es := n, ?fs := 0)\<rparr>"
  have "reset_loop x c k = Some k" if "0 \<le> c" for x c k using that by (subst reset_loop.simps) (simp add: Let_def)
  then have rs: "chSemResetI ?es n ?k = Some (?k\<lparr>s_cnt := (s_cnt ?k)(?es := n)\<rparr>)" "chSemResetI ?fs 0 (?k\<lparr>s_cnt := (s_cnt ?k)(?es := n)\<rparr>) = Some k1"
    using c n ok(4) by (simp_all add: chSemResetI_def Let_def k1_def)
  have f1: "k_thd k1 = k_thd ?k" "r_current k1 = r_current ?k" by (simp_all add: k1_def)
  have "counted k1 S L" using k c n ok(4) by (auto simp: kinv_def counted_def k1_def)
  then have "kinv k1 T S Z L V" by (rule kinv_count [OF k]) (simp add: k1_def)
  then have r1: "running k1 T S Z L V {}" by (simp add: kinv_running)
  obtain k' L' V' where k': "chSchRescheduleS k1 = Some k'" "kinv k' T S Z L' V'" using chSchRescheduleS_ok [OF r1] by blast
  note o1 = counter_orderly [OF ok(7) f1, unfolded W]
  note o2 = steady_orderly [OF resched_steady [OF r1 k'(1)] o1(1)]
  have cr: "credit T Map.empty k1 ?es = n" "credit T Map.empty k1 ?fs = 0" using o1(2) ok(4,8,9) c W by (simp_all add: k1_def)
  define s' where "s' = s\<lparr>ms_mb := ?mb\<lparr>mb_wrptr := mb_buffer ?mb, mb_rdptr := mb_buffer ?mb\<rparr>, ms_k := k'\<rparr>"
  have e: "wants s' = Map.empty" "msems s' = ?M" "ms_k s' = k'" "mb_fullsem (ms_mb s') = ?fs" "mb_emptysem (ms_mb s') = ?es" "chMBSizeI s' = n"
    using f ok(5) by (simp_all add: s'_def wants_def msems_def chMBSizeI_def fun_eq_iff)
  have "holds s' []" using n(2) e(6) by (simp add: holds_def Let_def s'_def)
  then have "mb_ok T S n s' []" unfolding mb_ok_def e using ok(2-5) k'(2) o2 cr by (auto simp: msems_def)
  then show ?thesis using rs k'(1) ok(5) by (simp add: chMBReset_def Let_def chMBSizeI_def s'_def)
qed

subsection \<open>Histories\<close>

text \<open>
  A call is made by a thread that is not in one, and a thread that came out of its wait first ends
  its call, since the kernel is locked until then. Interrupts may post. Other calls and interrupts
  of the kernel go on, on other semaphores.
\<close>

inductive mb_step :: "kptr set \<Rightarrow> kptr set \<Rightarrow> msys \<Rightarrow> mb_event list \<Rightarrow> msys \<Rightarrow> bool" for T S where
  post: "ms_pend s (r_current (ms_k s)) = None \<Longrightarrow> r_current (ms_k s) \<noteq> idle_thread \<Longrightarrow> chMBPost m time s = Some s' \<Longrightarrow> mb_step T S s [] s'"
| ahead: "ms_pend s (r_current (ms_k s)) = None \<Longrightarrow> r_current (ms_k s) \<noteq> idle_thread \<Longrightarrow> chMBPostAhead m time s = Some s' \<Longrightarrow> mb_step T S s [] s'"
| fetch: "ms_pend s (r_current (ms_k s)) = None \<Longrightarrow> r_current (ms_k s) \<noteq> idle_thread \<Longrightarrow> chMBFetch time s = Some s' \<Longrightarrow> mb_step T S s [] s'"
| rest: "ms_pend s (r_current (ms_k s)) = Some c \<Longrightarrow> mb_rest s = Some s' \<Longrightarrow> mb_step T S s (rest_event s s') s'"
| post_i: "ms_pend s (r_current (ms_k s)) = None \<Longrightarrow> chMBPostI m s = Some (r, s1) \<Longrightarrow> ALT_OS_INT_EXIT (ms_k s1) = Some k' \<Longrightarrow>
    mb_step T S s (put_event r (Posted m)) (s1\<lparr>ms_k := k'\<rparr>)"
| ahead_i: "ms_pend s (r_current (ms_k s)) = None \<Longrightarrow> chMBPostAheadI m s = Some (r, s1) \<Longrightarrow> ALT_OS_INT_EXIT (ms_k s1) = Some k' \<Longrightarrow>
    mb_step T S s (put_event r (Ahead m)) (s1\<lparr>ms_k := k'\<rparr>)"
| reset: "ms_pend s = (\<lambda>_. None) \<Longrightarrow> r_current (ms_k s) \<noteq> idle_thread \<Longrightarrow> chMBReset s = Some s' \<Longrightarrow> mb_step T S s [Cleared] s'"
| kernel: "ms_pend s (r_current (ms_k s)) = None \<Longrightarrow> allowed T S (ms_k s) e \<Longrightarrow> apart (msems s) e \<Longrightarrow> event_run e (ms_k s) = Some k' \<Longrightarrow>
    mb_step T S s [] (s\<lparr>ms_k := k'\<rparr>)"

inductive mb_runs :: "kptr set \<Rightarrow> kptr set \<Rightarrow> int \<Rightarrow> mb_event list \<Rightarrow> msys \<Rightarrow> bool" where
  init: "kernel_runs (ms_k s, T, S) \<Longrightarrow> {fs, es} \<subseteq> range SemQueue - S \<Longrightarrow> fs \<noteq> es \<Longrightarrow> 0 < n \<Longrightarrow> ms_pend s = (\<lambda>_. None) \<Longrightarrow>
    mb_runs T ({fs, es} \<union> S) n [] (chMBInit fs es buf n s)"
| step: "mb_runs T S n tr s \<Longrightarrow> mb_step T S s es s' \<Longrightarrow> mb_runs T S n (tr @ es) s'"

lemma apart_same: "apart M e \<Longrightarrow> threads_after e T = T \<and> sems_after e S = S"
  by (cases e) simp_all

lemma mb_step_ok:
  assumes m: "mb_ok T S n s q" and st: "mb_step T S s es s'"
  shows "\<exists>q'. mb_ok T S n s' q' \<and> replay n es q = Some q'"
  using st
proof cases
  case (post msg time)
  then show ?thesis using mb_wait_ok [OF m, of "C_post msg" time] by (simp add: chMBPost_def chMBPostS_def sem_of_def)
next
  case (ahead msg time)
  then show ?thesis using mb_wait_ok [OF m, of "C_ahead msg" time] by (simp add: chMBPostAhead_def chMBPostAheadS_def sem_of_def)
next
  case (fetch time)
  then show ?thesis using mb_wait_ok [OF m, of C_fetch time] by (simp add: chMBFetch_def chMBFetchS_def sem_of_def)
next
  case (rest c)
  then show ?thesis using mb_rest_ok [OF m rest(2)] by auto
next
  case (post_i msg r s1 k')
  then show ?thesis using chMBPostI_ok [OF m, of "chMBPostI msg" msg "Posted msg"] by auto
next
  case (ahead_i msg r s1 k')
  then show ?thesis using chMBPostI_ok [OF m, of "chMBPostAheadI msg" msg "Ahead msg"] by auto
next
  case reset
  then show ?thesis using chMBReset_ok [OF m] by auto
next
  case (kernel e k')
  obtain Z L V where k: "kinv (ms_k s) T S Z L V" using mb_okD(1) [OF m] by blast
  have "steady T (msems s) (r_current (ms_k s)) (ms_k s) k'"
    using event_steady [OF k kernel(4-6)] orderlyD(1,2) [OF mb_okD(7) [OF m]] by blast
  moreover have "\<exists>Z L V. kinv k' T S Z L V" using event_run_ok [OF k kernel(4)] kernel(6) apart_same [OF kernel(5), of T S] by auto
  ultimately show ?thesis using mb_ok_steady [OF m kernel(3)] kernel by auto
qed

lemma runs_finite: "kernel_runs s \<Longrightarrow> finite (fst (snd s))"
proof (induction rule: kernel_runs.induct)
  case (event s e s')
  then show ?case by (cases s; cases e) (auto simp: kstep_iff)
qed simp

lemma mb_init_ok:
  assumes r: "kernel_runs (ms_k s, T, S)" and fs: "{fs, es} \<subseteq> range SemQueue - S" "fs \<noteq> es" and n: "0 < n" and p: "ms_pend s = (\<lambda>_. None)"
  shows "mb_ok T ({fs, es} \<union> S) n (chMBInit fs es buf n s) []"
proof -
  let ?k = "ms_k s" let ?s = "chMBInit fs es buf n s" let ?k1 = "chSemInit es n ?k" let ?M = "{fs, es}"
  obtain Z L V where k: "kinv ?k T S Z L V" using runsD [OF r] by blast
  have "kinv ?k1 T (insert es S) Z (L(es := [])) V" by (rule chSemInit_ok [OF k]) (use fs n in auto)
  then have k2: "kinv (chSemInit fs 0 ?k1) T (insert fs (insert es S)) Z (L(es := [], fs := [])) V" by (rule chSemInit_ok) (use fs in auto)
  have e: "ms_k ?s = chSemInit fs 0 ?k1" "ms_pend ?s = (\<lambda>_. None)" "mb_fullsem (ms_mb ?s) = fs" "mb_emptysem (ms_mb ?s) = es" "chMBSizeI ?s = n" "msems ?s = ?M"
    "wants ?s = Map.empty" using p by (simp_all add: chMBInit_def chMBSizeI_def msems_def wants_def fun_eq_iff)
  have h: "holds ?s []" using n by (simp add: holds_def chMBInit_def chMBSizeI_def)
  have f: "fate (chSemInit fs 0 ?k1) t = fate ?k t" for t by (simp add: fate_def chSemInit_def)
  have nw: "fate ?k t \<noteq> F_waits x \<and> fate ?k t \<noteq> F_stuck x" if t: "t \<in> T" and x: "x \<in> ?M" for t x
  proof (cases "t = r_current ?k")
    case False
    then have "p_state (k_thd ?k t) = WTSEM \<longrightarrow> p_u (k_thd ?k t) \<in> U_obj ` S" using base_status [OF kinv_base [OF k] t] by (simp add: status_ok_def waiting_def)
    then show ?thesis using False x fs(1) by (auto simp: fate_other fate_of_def Let_def split: thd_u.splits)
  qed (use fate_cur [of ?k x] in simp)
  have "orderly T ?M Map.empty ?k" by (rule orderlyI) (use runs_finite [OF r] nw in \<open>auto simp: proper_def\<close>)
  then have o: "orderly T ?M Map.empty (chSemInit fs 0 ?k1)" using orderly_cong(1) [OF f] by blast
  have "waiters T (chSemInit fs 0 ?k1) x = {}" if "x \<in> ?M" for x using nw [OF _ that] orderly_cong(2) [OF f] by (auto simp: waiters_def)
  then have "tok T (chSemInit fs 0 ?k1) es = n" "tok T (chSemInit fs 0 ?k1) fs = 0" using fs(2) by (simp_all add: tok_def chSemInit_def)
  then have "credit T Map.empty (chSemInit fs 0 ?k1) es = n" "credit T Map.empty (chSemInit fs 0 ?k1) fs = 0" by (simp_all add: credit_def granted_def)
  then show ?thesis unfolding mb_ok_def e using k2 fs(2) h o by auto
qed

lemma mb_runs_ok: "mb_runs T S n tr s \<Longrightarrow> \<exists>q. mb_ok T S n s q \<and> replay n tr [] = Some q"
proof (induction rule: mb_runs.induct)
  case (init s T S fs es n buf)
  then show ?case using mb_init_ok by simp
next
  case (step T S n tr s es s')
  then show ?case using mb_step_ok by (fastforce simp: replay_append)
qed


subsection \<open>What every history keeps\<close>

lemma quiet_counts:
  assumes m: "mb_ok T S n s q" and p: "ms_pend s = (\<lambda>_. None)"
  shows "chMBGetUsedCountI s = int (length q) \<and> chMBGetFreeCountI s = n - int (length q)"
proof -
  note ok = mb_okD [OF m]
  have W: "wants s = Map.empty" using p by (simp add: wants_def fun_eq_iff)
  have "waiters T (ms_k s) x = {}" if "x \<in> msems s" for x using orderlyD(6) [OF ok(7), of _ x] that W by (auto simp: waiters_def)
  then show ?thesis using ok(8,9) W by (simp add: credit_def tok_def granted_def chMBGetUsedCountI_def chMBGetFreeCountI_def)
qed


text \<open>A start for the witnesses: a mailbox of two places in a kernel just started.\<close>

definition mailbox_new :: msys where
  "mailbox_new = chMBInit (SemQueue 2) (SemQueue 3) 0 2
     \<lparr>ms_k = kernel_up, ms_mb = \<lparr>mb_buffer = 0, mb_top = 0, mb_wrptr = 0, mb_rdptr = 0, mb_fullsem = Rlist, mb_emptysem = Rlist\<rparr>,
      ms_mem = (\<lambda>_. 0), ms_pend = (\<lambda>_. None), ms_got = (\<lambda>_. 0)\<rparr>"

lemma mailbox_new_runs: "mb_runs {mainthread, idle_thread} {SemQueue 2, SemQueue 3} 2 [] mailbox_new"
  using mb_runs.init [of _ "{mainthread, idle_thread}" "{}" "SemQueue 2" "SemQueue 3" 2 0] kernel_up_runs by (simp add: mailbox_new_def)

lemma mailbox_new_fields [simp]:
  "ms_pend mailbox_new = (\<lambda>_. None)" "r_current (ms_k mailbox_new) = mainthread" "mb_emptysem (ms_mb mailbox_new) = SemQueue 3"
  "mb_fullsem (ms_mb mailbox_new) = SemQueue 2" "s_cnt (ms_k mailbox_new) (SemQueue 3) = 2" "s_cnt (ms_k mailbox_new) (SemQueue 2) = 0"
  by (simp_all add: mailbox_new_def chMBInit_def chSemInit_def kernel_up_cur)

lemma mailbox_new_posted:
  obtains s1 s2 where "chMBPost 7 TIME_IMMEDIATE mailbox_new = Some s1" "mb_rest s1 = Some s2" "rest_event s1 s2 = [Posted 7]"
    "mb_runs {mainthread, idle_thread} {SemQueue 2, SemQueue 3} 2 [Posted 7] s2" "ms_pend s2 = (\<lambda>_. None)"
proof -
  let ?T = "{mainthread, idle_thread}" let ?S = "{SemQueue 2, SemQueue 3}"
  have m: "mainthread \<noteq> idle_thread" by (simp add: mainthread_def idle_thread_def)
  define s1 where "s1 = mailbox_new\<lparr>ms_k := set_ret mainthread (V_msg (Some RDY_OK)) (chSemFastWaitI (SemQueue 3) (ms_k mailbox_new)),
    ms_pend := [mainthread \<mapsto> C_post 7]\<rparr>"
  have s1: "chMBPost 7 TIME_IMMEDIATE mailbox_new = Some s1"
    by (simp add: chMBPost_def chMBPostS_def mb_wait_def chSemWaitTimeoutS_def Let_def s1_def chSemFastWaitI_def)
  have c1: "r_current (ms_k s1) = mainthread" "ms_pend s1 mainthread = Some (C_post 7)" "p_ret (k_thd (ms_k s1) mainthread) = V_msg (Some RDY_OK)"
    by (simp_all add: s1_def chSemFastWaitI_def set_defs)
  have r1: "mb_runs ?T ?S 2 [] s1" using mb_runs.step [OF mailbox_new_runs post [OF _ _ s1]] m by simp
  obtain q where "mb_ok ?T ?S 2 s1 q" using mb_runs_ok [OF r1] by blast
  then obtain s2 where s2: "mb_rest s1 = Some s2" using mb_rest_ok [of ?T ?S 2 s1 q "C_post 7"] c1 by auto
  have e: "rest_event s1 s2 = [Posted 7]" using c1 by (simp add: rest_event_def)
  have "mb_runs ?T ?S 2 [Posted 7] s2" using mb_runs.step [OF r1 mb_step.rest [OF _ s2]] c1 e by simp
  moreover have "ms_pend s2 = (\<lambda>_. None)" using s2 c1
    by (auto simp: mb_rest_def chMBPostS_rest_def mb_signal_def Let_def bind_eq_Some_conv s1_def set_defs chSemFastWaitI_def)
  ultimately show ?thesis using that s1 s2 e by blast
qed




subsection \<open>Fetching from an interrupt\<close>

text \<open>\<open>chMBFetchI\<close> again and again, each time with \<open>RDY_OK\<close>.\<close>

fun fetch_times :: "nat \<Rightarrow> msys \<Rightarrow> msys option" where
  "fetch_times 0 s = Some s"
| "fetch_times (Suc j) s = (case chMBFetchI s of Some (r, m, s) \<Rightarrow> if r = RDY_OK then fetch_times j s else None | None \<Rightarrow> None)"

text \<open>
  C27: \<open>chMBFetchI\<close> does not take from the counter of messages, as \<open>chMBFetchS\<close> does by its wait and
  \<open>chMBPostI\<close> does with the other counter. A mailbox with one message therefore answers every
  \<open>chMBFetchI\<close> with \<open>RDY_OK\<close>, any number of times, and the counter of free places goes past the
  size of the mailbox.
\<close>

theorem chMBFetchI_never_empties:
  assumes "0 < chMBGetUsedCountI s" "0 \<le> chMBGetFreeCountI s" "mb_fullsem (ms_mb s) \<noteq> mb_emptysem (ms_mb s)"
  shows "\<exists>s'. fetch_times j s = Some s' \<and> chMBGetUsedCountI s' = chMBGetUsedCountI s \<and> chMBGetFreeCountI s' = chMBGetFreeCountI s + int j \<and> chMBSizeI s' = chMBSizeI s"
  using assms
proof (induction j arbitrary: s)
  case (Suc j)
  define s1 where "s1 = (snd (mb_read s))\<lparr>ms_k := chSemFastSignalI (mb_emptysem (ms_mb s)) (ms_k s)\<rparr>"
  have "chMBSizeI s1 = chMBSizeI (snd (mb_read s))" by (simp add: s1_def chMBSizeI_def)
  moreover have "chMBFetchI s = Some (RDY_OK, Some (fst (mb_read s)), s1)"
    using Suc.prems by (simp add: chMBFetchI_def split_beta chSemSignalI_def Let_def chSemFastSignalI_def chMBGetUsedCountI_def chMBGetFreeCountI_def s1_def)
  moreover have "chMBGetUsedCountI s1 = chMBGetUsedCountI s" "chMBGetFreeCountI s1 = chMBGetFreeCountI s + 1" "mb_fullsem (ms_mb s1) \<noteq> mb_emptysem (ms_mb s1)"
    using Suc.prems(3) by (simp_all add: s1_def chSemFastSignalI_def chMBGetUsedCountI_def chMBGetFreeCountI_def)
  ultimately show ?case using Suc.IH [of s1] Suc.prems by auto
qed simp

theorem chMBFetchI_never_empties_witness:
  "\<exists>s1 s2 s'. chMBPost 7 TIME_IMMEDIATE mailbox_new = Some s1 \<and> mb_rest s1 = Some s2 \<and> fetch_times 5 s2 = Some s' \<and>
     chMBGetFreeCountI s' = 6 \<and> chMBSizeI s' = 2"
proof -
  obtain s1 s2 where s: "chMBPost 7 TIME_IMMEDIATE mailbox_new = Some s1" "mb_rest s1 = Some s2" "ms_pend s2 = (\<lambda>_. None)"
    and r: "mb_runs {mainthread, idle_thread} {SemQueue 2, SemQueue 3} 2 [Posted 7] s2" using mailbox_new_posted by blast
  have ok: "mb_ok {mainthread, idle_thread} {SemQueue 2, SemQueue 3} 2 s2 [7]" using mb_runs_ok [OF r] by auto
  have c: "chMBGetUsedCountI s2 = 1" "chMBGetFreeCountI s2 = 1" using quiet_counts [OF ok s(3)] by simp_all
  show ?thesis using chMBFetchI_never_empties [of s2 5] c mb_okD(4,5) [OF ok] s by auto
qed

end
