(* ===== verification/Ch_Registry.thy ===== *)
theory Ch_Registry
  imports Ch_Runs
begin

text \<open>
  The registry of threads: a ring of all threads from the oldest to the newest, and its iterator,
  which holds a reference to the thread it is at.
\<close>

subsection \<open>The ring\<close>

lemma ring_append:
  assumes r: "ring h q xs" and t: "t \<notin> insert q (set xs)"
  shows "ring (link_before t q h) q (xs @ [t])"
  using ring_insert_mid [of h q xs "[]" t] r t by simp

text \<open>A new thread is the newest; one that is removed leaves the others in their order.\<close>

lemma REG_INSERT_newest: "ring (k_reg k) Rlist ts \<Longrightarrow> t \<noteq> Rlist \<Longrightarrow> t \<notin> set ts \<Longrightarrow> ring (k_reg (REG_INSERT t k)) Rlist (ts @ [t])"
  by (simp add: REG_INSERT_def ring_append)

lemma REG_REMOVE_order: "ring (k_reg k) Rlist (as @ t # bs) \<Longrightarrow> ring (k_reg (REG_REMOVE t k)) Rlist (as @ bs)"
  by (simp add: REG_REMOVE_def ring_dequeue)

lemma created_newest:
  assumes "ring (k_reg k) Rlist ts" "t \<in> range Thd" "t \<notin> set ts"
  shows "ring (k_reg (chThdCreateI t p k)) Rlist (ts @ [t])" "p_refs (k_thd (chThdCreateI t p k) t) = 1"
    and "u \<noteq> t \<Longrightarrow> p_refs (k_thd (chThdCreateI t p k) u) = p_refs (k_thd k u)"
proof -
  have "k_reg (chThdCreateI t p k) = link_before t Rlist (k_reg k)"
    by (simp add: chThdCreateI_def thread_init_def Let_def REG_INSERT_def set_defs upd_def)
  then show "ring (k_reg (chThdCreateI t p k)) Rlist (ts @ [t])" using ring_append [OF assms(1)] assms(2,3) by auto
qed (simp_all add: chThdCreateI_def thread_init_def Let_def REG_INSERT_def set_defs)

subsection \<open>Visiting all threads\<close>

text \<open>The loop of a caller: from \<open>chRegFirstThread\<close> on, \<open>chRegNextThread\<close> until it gives \<open>NULL\<close>.\<close>

partial_function (option) reg_rest :: "kptr \<Rightarrow> kernel \<Rightarrow> (kptr list \<times> kernel) option" where
  "reg_rest tp k =
     (case chRegNextThread tp k of
        (None, k) \<Rightarrow> Some ([tp], k)
      | (Some ntp, k) \<Rightarrow> do { (ts, k) \<leftarrow> reg_rest ntp k; Some (tp # ts, k) })"

definition reg_walk :: "kernel \<Rightarrow> (kptr list \<times> kernel) option" where
  "reg_walk k = (case chRegFirstThread k of (tp, k) \<Rightarrow> reg_rest tp k)"

lemma upd_upd: "upd t f (upd t g k) = upd t (f \<circ> g) k"
  by (simp add: upd_def)

lemma upd_swap: "t \<noteq> u \<Longrightarrow> upd t f (upd u g k) = upd u g (upd t f k)"
  by (simp add: upd_def fun_upd_twist)

lemma upd_id: "upd t (\<lambda>r. r) k = k"
  by (simp add: upd_def)

abbreviation ref_up :: "kptr \<Rightarrow> kernel \<Rightarrow> kernel" where
  "ref_up t \<equiv> upd t (\<lambda>r. r\<lparr>p_refs := p_refs r + 1\<rparr>)"

text \<open>Giving back the iterator's reference frees nothing, as the thread has another one.\<close>

lemma release_ref_up: "p_refs (k_thd k t) \<noteq> 0 \<Longrightarrow> chThdRelease t (ref_up t k) = k"
  by (simp add: chThdRelease_def Let_def upd_upd comp_def upd_id)

lemma release_other:
  assumes "u \<noteq> t" "p_refs (k_thd k t) \<noteq> 0"
  shows "chThdRelease t (ref_up u (ref_up t k)) = ref_up u k"
  using assms release_ref_up [of "ref_up u k" t] by (simp add: upd_swap [of u t])

lemma reg_rest_walk:
  assumes "seg (k_reg k) t ts Rlist" "Rlist \<notin> set ts" "distinct (t # ts)" "\<forall>u\<in>set (t # ts). p_refs (k_thd k u) \<noteq> 0"
  shows "reg_rest t (ref_up t k) = Some (t # ts, k)"
  using assms
proof (induction ts arbitrary: t)
  case Nil
  then show ?case by (subst reg_rest.simps) (simp add: chRegNextThread_def release_ref_up upd_def chThdRelease_def Let_def)
next
  case (Cons u us)
  have "chRegNextThread t (ref_up t k) = (Some u, ref_up u k)"
    using Cons.prems release_other [of u t k] by (auto simp: chRegNextThread_def Let_def upd_def)
  then show ?case using Cons by (subst reg_rest.simps) simp
qed

text \<open>
  The iterator visits every thread of the registry once, from the oldest to the newest, and leaves
  the kernel as it was: each reference it takes is given back.
\<close>

theorem reg_walk_visits:
  assumes r: "ring (k_reg k) Rlist ts" and n: "ts \<noteq> []" and p: "\<forall>t\<in>set ts. p_refs (k_thd k t) \<noteq> 0"
  shows "reg_walk k = Some (ts, k)"
proof -
  obtain t us where ts: "ts = t # us" using n by (cases ts) auto
  then show ?thesis using reg_rest_walk [of k t us] r p by (auto simp: reg_walk_def chRegFirstThread_def Let_def ring_def)
qed

text \<open>The main thread and the idle thread, in the order in which they are made.\<close>

lemma reg_walk_two:
  fixes k :: kernel
  defines "k2 \<equiv> chThdCreateI idle_thread IDLEPRIO (chThdCreateI mainthread NORMALPRIO (scheduler_init k))"
  shows "reg_walk k2 = Some ([mainthread, idle_thread], k2)"
proof -
  have n: "mainthread \<noteq> idle_thread" "mainthread \<in> range Thd" "idle_thread \<in> range Thd" by (simp_all add: mainthread_def idle_thread_def)
  have "ring (k_reg (scheduler_init k)) Rlist []" by (simp add: scheduler_init_def ring_init)
  from created_newest [OF this n(2), where p = NORMALPRIO] have "ring (k_reg (chThdCreateI mainthread NORMALPRIO (scheduler_init k))) Rlist [mainthread]" by simp
  from created_newest [OF this n(3), where p = IDLEPRIO] show ?thesis
    unfolding k2_def using n by (intro reg_walk_visits) (auto simp: chThdCreateI_def thread_init_def Let_def REG_INSERT_def set_defs)
qed

end
