(* ===== verification/Ch_Memory.thy ===== *)
theory Ch_Memory
  imports Prelude
begin

text \<open>
  The memory managers of the kernel: the core allocator (\<open>chmemcore.c\<close>), heaps (\<open>chheap.c\<close>) and
  memory pools (\<open>chmempools.c\<close>). They thread their lists through the memory they manage, so memory
  is a map from addresses to 32-bit words; addresses and sizes are numbers below two to the 32, with
  the wrap-around of the C arithmetic written out. The heap's mutex makes its functions run one at a
  time; it is not part of this model.
\<close>

subsection \<open>Words and alignment\<close>

type_synonym addr = nat
type_synonym memory = "addr \<Rightarrow> nat"

definition add32 :: "nat \<Rightarrow> nat \<Rightarrow> nat" where
  "add32 x y = (x + y) mod 2 ^ 32"

definition sub32 :: "nat \<Rightarrow> nat \<Rightarrow> nat" where
  "sub32 x y = (x + (2 ^ 32 - y mod 2 ^ 32)) mod 2 ^ 32"

definition MEM_ALIGN_SIZE :: nat where "MEM_ALIGN_SIZE = 4"
definition MEM_ALIGN_MASK :: nat where "MEM_ALIGN_MASK = MEM_ALIGN_SIZE - 1"

definition MEM_ALIGN_PREV :: "nat \<Rightarrow> nat" where
  "MEM_ALIGN_PREV p = p - p mod MEM_ALIGN_SIZE"

definition MEM_ALIGN_NEXT :: "nat \<Rightarrow> nat" where
  "MEM_ALIGN_NEXT p = MEM_ALIGN_PREV (add32 p MEM_ALIGN_MASK)"

definition MEM_IS_ALIGNED :: "nat \<Rightarrow> bool" where
  "MEM_IS_ALIGNED p \<longleftrightarrow> p mod MEM_ALIGN_SIZE = 0"

text \<open>The null pointer.\<close>

definition NULL :: addr where "NULL = 0"

subsection \<open>Core memory\<close>

text \<open>
  The provider a heap or a pool may have; the core allocator is the one the kernel installs.
\<close>

datatype memgetfunc = CoreAlloc

record kmem =
  mem :: memory
  nextmem :: addr
  endmem :: addr
  h_provider :: "addr \<Rightarrow> memgetfunc option"

definition core_init :: "addr \<Rightarrow> addr \<Rightarrow> kmem \<Rightarrow> kmem" where
  "core_init heap_base heap_end k = k\<lparr>nextmem := MEM_ALIGN_NEXT heap_base, endmem := MEM_ALIGN_PREV heap_end\<rparr>"

definition chCoreAllocI :: "nat \<Rightarrow> kmem \<Rightarrow> addr \<times> kmem" where
  "chCoreAllocI sz k =
     (let sz = MEM_ALIGN_NEXT sz
      in if sub32 (endmem k) (nextmem k) < sz then (NULL, k)
         else (nextmem k, k\<lparr>nextmem := add32 (nextmem k) sz\<rparr>))"

definition chCoreAlloc :: "nat \<Rightarrow> kmem \<Rightarrow> addr \<times> kmem" where
  "chCoreAlloc sz k = chCoreAllocI sz k"

definition chCoreStatus :: "kmem \<Rightarrow> nat" where
  "chCoreStatus k = sub32 (endmem k) (nextmem k)"

definition call_provider :: "memgetfunc \<Rightarrow> nat \<Rightarrow> kmem \<Rightarrow> addr \<times> kmem" where
  "call_provider f sz k = (case f of CoreAlloc \<Rightarrow> chCoreAlloc sz k)"

subsection \<open>Heaps\<close>

text \<open>
  A block header is two words: the union of the link to the next free block and the owning heap, and
  the size. A heap descriptor has its provider first, then the header of its free list.
\<close>

definition SIZEOF_HDR :: nat where "SIZEOF_HDR = 8"

abbreviation "size_at p \<equiv> add32 p 4"

definition h_free :: "addr \<Rightarrow> addr" where
  "h_free heapp = add32 heapp 4"

definition LIMIT :: "memory \<Rightarrow> addr \<Rightarrow> addr" where
  "LIMIT m p = add32 (add32 p SIZEOF_HDR) (m (size_at p))"

definition heap_init :: "addr \<Rightarrow> kmem \<Rightarrow> kmem" where
  "heap_init default_heap k =
     k\<lparr>h_provider := (h_provider k)(default_heap := Some CoreAlloc),
       mem := (mem k)(h_free default_heap := NULL, size_at (h_free default_heap) := 0)\<rparr>"

definition chHeapInit :: "addr \<Rightarrow> addr \<Rightarrow> nat \<Rightarrow> kmem \<Rightarrow> kmem" where
  "chHeapInit heapp buf sz k =
     (let hp = buf
      in k\<lparr>h_provider := (h_provider k)(heapp := None),
           mem := (mem k)(h_free heapp := hp, size_at (h_free heapp) := 0, hp := NULL, size_at hp := sub32 sz SIZEOF_HDR)\<rparr>)"

text \<open>The block \<open>hp\<close> after \<open>qp\<close> is taken, whole or split.\<close>

definition take_block :: "addr \<Rightarrow> nat \<Rightarrow> addr \<Rightarrow> addr \<Rightarrow> memory \<Rightarrow> memory" where
  "take_block heapp sz qp hp m =
     (let m = (if m (size_at hp) < add32 sz SIZEOF_HDR then m(qp := m hp)
               else
                 (let fp = add32 (add32 hp SIZEOF_HDR) sz;
                      m = m(fp := m hp);
                      m = m(size_at fp := sub32 (sub32 (m (size_at hp)) SIZEOF_HDR) sz);
                      m = m(qp := fp)
                  in m(size_at hp := sz)))
      in m(hp := heapp))"

partial_function (option) alloc_loop :: "addr \<Rightarrow> nat \<Rightarrow> addr \<Rightarrow> memory \<Rightarrow> (addr \<times> memory) option option" where
  "alloc_loop heapp sz qp m =
     (if m qp \<noteq> NULL then
        (let hp = m qp
         in if m (size_at hp) \<ge> sz then Some (Some (hp, take_block heapp sz qp hp m))
            else alloc_loop heapp sz hp m)
      else Some None)"

definition chHeapAlloc :: "addr \<Rightarrow> addr \<Rightarrow> nat \<Rightarrow> kmem \<Rightarrow> (addr \<times> kmem) option" where
  "chHeapAlloc default_heap heapp sz k =
     (let heapp = (if heapp = NULL then default_heap else heapp);
          sz = MEM_ALIGN_NEXT sz
      in do {
        r \<leftarrow> alloc_loop heapp sz (h_free heapp) (mem k);
        Some (case r of
          Some (hp, m) \<Rightarrow> (add32 hp SIZEOF_HDR, k\<lparr>mem := m\<rparr>)
        | None \<Rightarrow>
            (case h_provider k heapp of
               None \<Rightarrow> (NULL, k)
             | Some f \<Rightarrow>
                 (let (hp, k) = call_provider f (add32 sz SIZEOF_HDR) k
                  in if hp \<noteq> NULL
                     then (add32 hp SIZEOF_HDR, k\<lparr>mem := (mem k)(hp := heapp, size_at hp := sz)\<rparr>)
                     else (NULL, k)))) })"

definition merge_next :: "addr \<Rightarrow> memory \<Rightarrow> memory" where
  "merge_next hp m =
     (if LIMIT m hp = m hp then
        (let m = m(size_at hp := add32 (m (size_at hp)) (add32 (m (size_at (m hp))) SIZEOF_HDR))
         in m(hp := m (m hp)))
      else m)"

definition merge_prev :: "addr \<Rightarrow> addr \<Rightarrow> memory \<Rightarrow> memory" where
  "merge_prev qp hp m =
     (if LIMIT m qp = hp then
        (let m = m(size_at qp := add32 (m (size_at qp)) (add32 (m (size_at hp)) SIZEOF_HDR))
         in m(qp := m hp))
      else m)"

partial_function (option) free_loop :: "addr \<Rightarrow> addr \<Rightarrow> addr \<Rightarrow> memory \<Rightarrow> memory option" where
  "free_loop heapp hp qp m =
     (if (qp = h_free heapp \<or> hp > qp) \<and> (m qp = NULL \<or> hp < m qp) then
        (let m = m(hp := m qp);
             m = m(qp := hp)
         in Some (merge_prev qp hp (merge_next hp m)))
      else free_loop heapp hp (m qp) m)"

definition chHeapFree :: "addr \<Rightarrow> kmem \<Rightarrow> kmem option" where
  "chHeapFree p k =
     (let hp = sub32 p SIZEOF_HDR;
          heapp = mem k hp
      in do { m \<leftarrow> free_loop heapp hp (h_free heapp) (mem k); Some (k\<lparr>mem := m\<rparr>) })"

partial_function (option) status_loop :: "nat \<Rightarrow> nat \<Rightarrow> addr \<Rightarrow> memory \<Rightarrow> (nat \<times> nat) option" where
  "status_loop n sz qp m =
     (if m qp \<noteq> NULL then status_loop (add32 n 1) (add32 sz (m (size_at (m qp)))) (m qp) m else Some (n, sz))"

definition chHeapStatus :: "addr \<Rightarrow> addr \<Rightarrow> kmem \<Rightarrow> (nat \<times> nat) option" where
  "chHeapStatus default_heap heapp k =
     (let heapp = (if heapp = NULL then default_heap else heapp) in status_loop 0 0 (h_free heapp) (mem k))"

subsection \<open>Pools\<close>

record memory_pool =
  mp_next :: addr
  mp_object_size :: nat
  mp_provider :: "memgetfunc option"

definition chPoolInit :: "nat \<Rightarrow> memgetfunc option \<Rightarrow> memory_pool" where
  "chPoolInit sz provider = \<lparr>mp_next = NULL, mp_object_size = MEM_ALIGN_NEXT sz, mp_provider = provider\<rparr>"

definition chPoolAllocI :: "memory_pool \<Rightarrow> kmem \<Rightarrow> addr \<times> memory_pool \<times> kmem" where
  "chPoolAllocI mp k =
     (let objp = mp_next mp
      in if objp \<noteq> NULL then (objp, mp\<lparr>mp_next := mem k (mp_next mp)\<rparr>, k)
         else case mp_provider mp of
           Some f \<Rightarrow> (let (objp, k) = call_provider f (mp_object_size mp) k in (objp, mp, k))
         | None \<Rightarrow> (objp, mp, k))"

definition chPoolAlloc :: "memory_pool \<Rightarrow> kmem \<Rightarrow> addr \<times> memory_pool \<times> kmem" where
  "chPoolAlloc mp k = chPoolAllocI mp k"

definition chPoolFreeI :: "memory_pool \<Rightarrow> addr \<Rightarrow> kmem \<Rightarrow> memory_pool \<times> kmem" where
  "chPoolFreeI mp objp k = (mp\<lparr>mp_next := objp\<rparr>, k\<lparr>mem := (mem k)(objp := mp_next mp)\<rparr>)"

definition chPoolFree :: "memory_pool \<Rightarrow> addr \<Rightarrow> kmem \<Rightarrow> memory_pool \<times> kmem" where
  "chPoolFree mp objp k = chPoolFreeI mp objp k"

end
