(* ===== verification/Ch_Heap.thy ===== *)
theory Ch_Heap
  imports Ch_Memory
begin

text \<open>
  Heaps keep their promises: blocks handed out never overlap, keep their contents until they are
  freed, and free neighbours are always merged, so that a heap from which everything was returned is
  one block again.
\<close>

subsection \<open>The free list in memory\<close>

type_synonym block = "addr \<times> nat"

fun fin :: "block \<Rightarrow> nat" where
  "fin (a, s) = a + 8 + s"

text \<open>From the header \<open>qp\<close> the links lead through the blocks of the list to \<open>r\<close>.\<close>

fun linked :: "memory \<Rightarrow> addr \<Rightarrow> block list \<Rightarrow> addr \<Rightarrow> bool" where
  "linked m qp [] r \<longleftrightarrow> m qp = r"
| "linked m qp ((a, s) # F) r \<longleftrightarrow> m qp = a \<and> m (a + 4) = s \<and> linked m a F r"

fun hdrs :: "block list \<Rightarrow> addr list" where
  "hdrs [] = []"
| "hdrs ((a, s) # F) = a # (a + 4) # hdrs F"

definition end_of :: "addr \<Rightarrow> block list \<Rightarrow> addr" where
  "end_of qp F = last (qp # map fst F)"

lemma end_of_simps [simp]: "end_of qp [] = qp" "end_of qp ((a, s) # F) = end_of a F" "end_of qp (F @ [(a, s)]) = a"
  by (simp_all add: end_of_def)

lemma hdrs_append [simp]: "hdrs (F @ G) = hdrs F @ hdrs G"
  by (induction F rule: hdrs.induct) simp_all

lemma linked_append: "linked m qp (F @ (a, s) # G) r \<longleftrightarrow> linked m qp F a \<and> m (a + 4) = s \<and> linked m a G r"
  by (induction F arbitrary: qp rule: hdrs.induct) auto

lemma linked_other: "p \<notin> set (qp # hdrs F) \<Longrightarrow> linked (m(p := v)) qp F r \<longleftrightarrow> linked m qp F r"
  by (induction F arbitrary: qp rule: hdrs.induct) auto

lemma linked_cong: "\<forall>p\<in>set (qp # hdrs F). m' p = m p \<Longrightarrow> linked m' qp F r \<longleftrightarrow> linked m qp F r"
  by (induction F arbitrary: qp rule: hdrs.induct) auto

lemma end_of_mem: "end_of qp F \<in> set (qp # hdrs F)"
  by (induction F arbitrary: qp rule: hdrs.induct) auto

lemma linked_end_read: "linked m qp F r \<Longrightarrow> m (end_of qp F) = r"
  by (induction F arbitrary: qp rule: hdrs.induct) auto

lemma linked_end_write:
  "linked m qp F r \<Longrightarrow> distinct (qp # hdrs F) \<Longrightarrow> linked (m(end_of qp F := y)) qp F y"
proof (induction F arbitrary: qp rule: hdrs.induct)
  case (2 a s F)
  then have "end_of a F \<noteq> qp" "end_of a F \<noteq> a + 4" using end_of_mem [of a F] by auto
  then show ?case using 2 by simp
qed simp

text \<open>Blocks in order, no two of them adjacent, between two bounds.\<close>

fun spaced :: "nat \<Rightarrow> block list \<Rightarrow> nat \<Rightarrow> bool" where
  "spaced lo [] hi \<longleftrightarrow> True"
| "spaced lo ((a, s) # F) hi \<longleftrightarrow> lo \<le> a \<and> a + 8 + s \<le> hi \<and> spaced (a + 9 + s) F hi"

lemma spaced_bounds: "spaced lo F hi \<Longrightarrow> (a, s) \<in> set F \<Longrightarrow> lo \<le> a \<and> a + 8 + s \<le> hi"
  by (induction lo F hi rule: spaced.induct) auto

lemma spaced_mono: "spaced lo F hi \<Longrightarrow> lo' \<le> lo \<Longrightarrow> spaced lo' F hi"
  by (cases F) auto

lemma spaced_append:
  "spaced lo (F @ (a, s) # G) hi \<longleftrightarrow> spaced lo F (a - 1) \<and> lo \<le> a \<and> a + 8 + s \<le> hi \<and> spaced (a + 9 + s) G hi"
  by (induction lo F hi rule: spaced.induct) auto

lemma spaced_join: "spaced lo F h \<Longrightarrow> spaced l G hi \<Longrightarrow> h < l \<Longrightarrow> h \<le> hi \<Longrightarrow> lo \<le> l \<Longrightarrow> spaced lo (F @ G) hi"
  by (induction lo F h rule: spaced.induct) (auto elim: spaced_mono)

lemma spaced_off:
  assumes "spaced lo (F1 @ (a, s) # F2) hi" "(b, t) \<in> set F1 \<union> set F2"
  shows "b + 8 + t < a \<or> a + 8 + s < b"
proof -
  have "spaced lo F1 (a - 1)" "spaced (a + 9 + s) F2 hi" using assms(1) by (simp_all add: spaced_append)
  then show ?thesis using assms(2) by (fastforce dest: spaced_bounds)
qed

lemma hdrs_set: "p \<in> set (hdrs F) \<longleftrightarrow> (\<exists>(a, s)\<in>set F. p = a \<or> p = a + 4)"
  by (induction F rule: hdrs.induct) auto

lemma spaced_hdrs: "spaced lo F hi \<Longrightarrow> distinct (hdrs F) \<and> (\<forall>p\<in>set (hdrs F). lo \<le> p \<and> p + 4 \<le> hi)"
  by (induction lo F hi rule: spaced.induct) fastforce+

subsection \<open>The heap's invariant\<close>

definition off :: "block \<Rightarrow> block \<Rightarrow> bool" where
  "off x y \<longleftrightarrow> fin x \<le> fst y \<or> fin y \<le> fst x"

definition heap_ok :: "memory \<Rightarrow> addr \<Rightarrow> nat \<Rightarrow> nat \<Rightarrow> block list \<Rightarrow> block set \<Rightarrow> bool" where
  "heap_ok m H lo hi F U \<longleftrightarrow>
     0 < lo \<and> hi < 2 ^ 32 \<and> H + 16 < 2 ^ 32 \<and> (H + 16 \<le> lo \<or> hi \<le> H) \<and>
     linked m (H + 4) F 0 \<and> m (H + 8) = 0 \<and> spaced lo F hi \<and>
     (\<forall>a s. (a, s) \<in> set F \<union> U \<longrightarrow> a mod 4 = 0 \<and> s mod 4 = 0) \<and>
     (\<forall>a s. (a, s) \<in> U \<longrightarrow> lo \<le> a \<and> a + 8 + s \<le> hi \<and> m a = H \<and> m (a + 4) = s) \<and>
     (\<forall>x\<in>U. \<forall>y\<in>U. x \<noteq> y \<longrightarrow> off x y) \<and> (\<forall>x\<in>set F. \<forall>y\<in>U. off x y)"

lemma heap_okD:
  assumes "heap_ok m H lo hi F U"
  shows ok_bounds: "0 < lo" "hi < 2 ^ 32" "H + 16 < 2 ^ 32" "H + 16 \<le> lo \<or> hi \<le> H"
    and ok_linked: "linked m (H + 4) F 0" and ok_zero: "m (H + 8) = 0" and ok_spaced: "spaced lo F hi"
    and ok_aligned: "\<And>a s. (a, s) \<in> set F \<union> U \<Longrightarrow> a mod 4 = 0 \<and> s mod 4 = 0"
    and ok_used: "\<And>a s. (a, s) \<in> U \<Longrightarrow> lo \<le> a \<and> a + 8 + s \<le> hi \<and> m a = H \<and> m (a + 4) = s"
    and ok_off: "\<And>x y. x \<in> U \<Longrightarrow> y \<in> U \<Longrightarrow> x \<noteq> y \<Longrightarrow> off x y" and ok_off_free: "\<And>x y. x \<in> set F \<Longrightarrow> y \<in> U \<Longrightarrow> off x y"
  using assms unfolding heap_ok_def by blast+

lemma heap_okI:
  assumes "0 < lo" "hi < 2 ^ 32" "H + 16 < 2 ^ 32" "H + 16 \<le> lo \<or> hi \<le> H" "linked m (H + 4) F 0" "m (H + 8) = 0" "spaced lo F hi"
    "\<And>a s. (a, s) \<in> set F \<union> U \<Longrightarrow> a mod 4 = 0 \<and> s mod 4 = 0"
    "\<And>a s. (a, s) \<in> U \<Longrightarrow> lo \<le> a \<and> a + 8 + s \<le> hi \<and> m a = H \<and> m (a + 4) = s"
    "\<And>x y. x \<in> U \<Longrightarrow> y \<in> U \<Longrightarrow> x \<noteq> y \<Longrightarrow> off x y" "\<And>x y. x \<in> set F \<Longrightarrow> y \<in> U \<Longrightarrow> off x y"
  shows "heap_ok m H lo hi F U"
  using assms unfolding heap_ok_def by blast

lemma add32_small [simp]: "x + y < 2 ^ 32 \<Longrightarrow> add32 x y = x + y"
  by (simp add: add32_def)

lemma sub32_small: "y \<le> x \<Longrightarrow> x < 2 ^ 32 \<Longrightarrow> sub32 x y = x - y"
  by (simp add: sub32_def mod_if)

lemma ok_hdrs:
  assumes "heap_ok m H lo hi F U"
  shows "distinct ((H + 4) # (H + 8) # hdrs F)"
  using spaced_hdrs [OF ok_spaced [OF assms]] ok_bounds [OF assms] by fastforce

lemma ok_hdrs_used:
  assumes h: "heap_ok m H lo hi F U" and u: "(a, s) \<in> U" and p: "a \<le> p" "p < a + 8 + s"
  shows "p \<notin> set ((H + 4) # (H + 8) # hdrs F)"
proof -
  have "p \<noteq> H + 4" "p \<noteq> H + 8" using ok_bounds [OF h] ok_used [OF h u] p by auto
  moreover have "p \<noteq> b \<and> p \<noteq> b + 4" if "(b, t) \<in> set F" for b t
    using ok_off_free [OF h that u] p by (auto simp: off_def)
  ultimately show ?thesis by (auto simp: hdrs_set)
qed

subsection \<open>Taking a block\<close>

lemma free_mem_small:
  assumes "heap_ok m H lo hi F U" "(a, s) \<in> set F"
  shows "0 < a" "a + 8 + s < 2 ^ 32"
  using spaced_bounds [OF ok_spaced [OF assms(1)] assms(2)] ok_bounds [OF assms(1)] by auto

text \<open>First fit: the search stops at the first block that is large enough.\<close>

lemma alloc_loop_search:
  assumes "linked m qp (F1 @ F2) 0" "\<forall>(a, s)\<in>set (F1 @ F2). 0 < a \<and> a + 8 + s < 2 ^ 32" "\<forall>(a, s)\<in>set F1. s < sz"
  shows "alloc_loop H sz qp m = alloc_loop H sz (end_of qp F1) m"
  using assms
proof (induction F1 arbitrary: qp rule: hdrs.induct)
  case (2 a s F)
  have "alloc_loop H sz qp m = alloc_loop H sz a m"
    using 2(2-4) by (subst alloc_loop.simps) (auto simp: NULL_def)
  then show ?case using 2 by simp
qed simp

definition first_fit :: "nat \<Rightarrow> block list \<Rightarrow> block list" where
  "first_fit sz F = takeWhile (\<lambda>(a, s). s < sz) F"

lemma first_fit_split:
  "(\<exists>a s F2. F = first_fit sz F @ (a, s) # F2 \<and> sz \<le> s) \<or> (first_fit sz F = F)"
proof (cases "dropWhile (\<lambda>(a, s). s < sz) F")
  case Nil
  then show ?thesis unfolding first_fit_def using takeWhile_dropWhile_id [of "\<lambda>(a, s). s < sz" F] by simp
next
  case (Cons x F2)
  then have "F = first_fit sz F @ x # F2" unfolding first_fit_def by (metis takeWhile_dropWhile_id)
  moreover have "sz \<le> snd x" using hd_dropWhile [of "\<lambda>(a, s). s < sz" F] Cons by (auto split: prod.splits)
  ultimately show ?thesis by (metis prod.collapse)
qed

lemma first_fit_small: "(a, s) \<in> set (first_fit sz F) \<Longrightarrow> s < sz"
  unfolding first_fit_def by (auto dest: set_takeWhileD)

text \<open>What a block turns into when \<open>sz\<close> bytes of it are asked for.\<close>

definition granted :: "nat \<Rightarrow> nat \<Rightarrow> nat" where
  "granted sz s = (if s < sz + 8 then s else sz)"

definition left_over :: "nat \<Rightarrow> block \<Rightarrow> block list" where
  "left_over sz x = (if snd x < sz + 8 then [] else [(fst x + 8 + sz, snd x - 8 - sz)])"

lemma take_block_eq:
  assumes "a + 8 + s < 2 ^ 32" "sz \<le> s" "m (a + 4) = s" "m q = a" "q \<noteq> a" "q \<noteq> a + 4"
    "s \<ge> sz + 8 \<Longrightarrow> q \<noteq> a + 8 + sz \<and> q \<noteq> a + 12 + sz"
  shows "take_block H sz q a m =
    (if s < sz + 8 then m(q := m a, a := H)
     else m(a + 8 + sz := m a, a + 12 + sz := s - 8 - sz, q := a + 8 + sz, a + 4 := sz, a := H))"
proof -
  have f: "add32 a 4 = a + 4" "add32 sz SIZEOF_HDR = sz + 8" "add32 a SIZEOF_HDR = a + 8" using assms(1,2) by (simp_all add: SIZEOF_HDR_def)
  show ?thesis
  proof (cases "s < sz + 8")
    case False
    then have g: "add32 (a + 8) sz = a + 8 + sz" "add32 (a + 8 + sz) 4 = a + 12 + sz" using assms(1) by simp_all
    have "sub32 (sub32 s SIZEOF_HDR) sz = s - 8 - sz" using False assms(1) by (simp add: SIZEOF_HDR_def sub32_small)
    then show ?thesis using False f g assms(3) by (simp add: take_block_def Let_def fun_upd_twist)
  qed (use f assms(3) in \<open>simp add: take_block_def Let_def\<close>)
qed

lemma linked_join: "linked m qp (F @ G) r \<longleftrightarrow> linked m qp F (m (end_of qp F)) \<and> linked m (end_of qp F) G r"
  by (induction F arbitrary: qp rule: hdrs.induct) auto

lemma linked_start:
  "linked m qp F r \<Longrightarrow> m' qp' = m qp \<Longrightarrow> \<forall>p\<in>set (hdrs F). m' p = m p \<Longrightarrow> linked m' qp' F r"
  by (induction F arbitrary: qp qp' rule: hdrs.induct) auto

lemma spaced_interior:
  assumes "spaced lo (F1 @ (a, s) # F2) hi" "a \<le> p" "p < a + 8 + s"
  shows "p \<notin> set (hdrs F1)" "p \<notin> set (hdrs F2)"
proof -
  have "spaced lo F1 (a - 1)" "spaced (a + 9 + s) F2 hi" using assms(1) by (simp_all add: spaced_append)
  then show "p \<notin> set (hdrs F1)" "p \<notin> set (hdrs F2)" using spaced_hdrs assms(2,3) by fastforce+
qed

lemma take_linked:
  assumes l: "linked m qp (F1 @ (a, s) # F2) 0" and d: "distinct (qp # hdrs (F1 @ (a, s) # F2))" and small: "a + 8 + s < 2 ^ 32" "sz \<le> s"
    and i: "\<And>p. a \<le> p \<Longrightarrow> p < a + 8 + s \<Longrightarrow> p \<notin> set (qp # hdrs F1) \<and> p \<notin> set (hdrs F2)"
  shows "let m' = take_block H sz (end_of qp F1) a m in
    linked m' qp (F1 @ left_over sz (a, s) @ F2) 0 \<and> m' a = H \<and> m' (a + 4) = granted sz s \<and>
    (\<forall>p. p \<noteq> end_of qp F1 \<longrightarrow> \<not> (a \<le> p \<and> p < a + 8 + s) \<longrightarrow> m' p = m p)"
proof -
  let ?q = "end_of qp F1" let ?m = "take_block H sz ?q a m" let ?f = "a + 8 + sz"
  have l1: "linked m qp F1 a" "m (a + 4) = s" "linked m a F2 0" using l by (simp_all add: linked_append)
  have q: "?q \<in> set (qp # hdrs F1)" by (rule end_of_mem)
  have iq: "?q \<noteq> p" if "a \<le> p" "p < a + 8 + s" for p using i [OF that] q by auto
  have f: "?m = (if s < sz + 8 then m(?q := m a, a := H) else m(?f := m a, a + 12 + sz := s - 8 - sz, ?q := ?f, a + 4 := sz, a := H))"
    using small l1(2) linked_end_read [OF l1(1)] iq by (intro take_block_eq) auto
  have qF2: "?q \<notin> set (hdrs F2)" using q d by auto
  have e: "linked (m(?q := y)) qp F1 y" for y using d by (intro linked_end_write [OF l1(1)]) auto
  have old: "?m p = m p" if "p \<noteq> ?q" "\<not> (a \<le> p \<and> p < a + 8 + s)" for p using that small f by auto
  have F1: "linked ?m qp F1 (?m ?q)"
  proof (rule iffD1 [OF linked_cong e])
    show "\<forall>p\<in>set (qp # hdrs F1). (m(?q := ?m ?q)) p = ?m p" using i old by (metis fun_upd_apply)
  qed
  have F2: "\<forall>p\<in>set (hdrs F2). ?m p = m p" using i old qF2 by metis
  have "linked ?m qp (F1 @ left_over sz (a, s) @ F2) 0"
  proof (cases "s < sz + 8")
    case True
    then have "linked ?m ?q F2 0" using f iq F2 by (intro linked_start [OF l1(3)]) auto
    then show ?thesis using True F1 by (simp add: left_over_def linked_join [of ?m qp F1])
  next
    case False
    then have "?m ?q = ?f" "?m (?f + 4) = s - 8 - sz" "?m ?f = m a" using f iq [of ?f] iq [of "a + 12 + sz"] iq [of a] iq [of "a + 4"] by (auto simp: ac_simps)
    moreover have "linked ?m ?f F2 0" using calculation(3) F2 by (intro linked_start [OF l1(3)]) auto
    ultimately show ?thesis using False F1 by (simp add: left_over_def linked_join [of ?m qp F1])
  qed
  moreover have "?m a = H" "?m (a + 4) = granted sz s" using f l1(2) iq [of "a + 4"] small by (auto simp: granted_def)
  ultimately show ?thesis using old by (simp add: Let_def)
qed

lemma ok_interior:
  assumes h: "heap_ok m H lo hi (F1 @ (a, s) # F2) U" and p: "a \<le> p" "p < a + 8 + s"
  shows "p \<notin> set ((H + 4) # hdrs F1)" "p \<notin> set (hdrs F2)" "p \<noteq> H + 8"
proof -
  have "lo \<le> a" "a + 8 + s \<le> hi" using spaced_bounds [OF ok_spaced [OF h], of a s] by simp_all
  then show "p \<notin> set ((H + 4) # hdrs F1)" "p \<notin> set (hdrs F2)" "p \<noteq> H + 8"
    using spaced_interior [OF ok_spaced [OF h] p] ok_bounds [OF h] p by auto
qed

text \<open>The words of a block that was handed out are outside every other block and the free list.\<close>

lemma off_sym: "off x y \<longleftrightarrow> off y x"
  by (auto simp: off_def)

lemma off_word: "off (a, s) (b, t) \<Longrightarrow> b \<le> p \<Longrightarrow> p < b + 8 + t \<Longrightarrow> \<not> (a \<le> p \<and> p < a + 8 + s)"
  by (auto simp: off_def)

lemma left_over_in: "x \<in> set (left_over sz (a, s)) \<Longrightarrow> x = (a + 8 + sz, s - 8 - sz) \<and> sz + 8 \<le> s"
  by (auto simp: left_over_def split: if_splits)

lemma granted_le: "sz \<le> s \<Longrightarrow> granted sz s \<le> s \<and> sz \<le> granted sz s"
  by (simp add: granted_def)

lemma take_ok:
  assumes h: "heap_ok m H lo hi (F1 @ (a, s) # F2) U" and sz: "sz \<le> s" "sz mod 4 = 0"
  shows "let m' = take_block H sz (end_of (H + 4) F1) a m in
    heap_ok m' H lo hi (F1 @ left_over sz (a, s) @ F2) (insert (a, granted sz s) U) \<and>
    (\<forall>b t p. (b, t) \<in> U \<longrightarrow> b \<le> p \<longrightarrow> p < b + 8 + t \<longrightarrow> m' p = m p)"
proof -
  let ?m = "take_block H sz (end_of (H + 4) F1) a m" let ?x = "(a, granted sz s)" let ?F = "F1 @ (a, s) # F2"
  have small: "a + 8 + s < 2 ^ 32" using free_mem_small [OF h, of a s] by simp
  have d: "distinct ((H + 4) # hdrs ?F)" "H + 8 \<notin> set ((H + 4) # hdrs ?F)" using ok_hdrs [OF h] by auto
  from take_linked [OF ok_linked [OF h] d(1) small sz(1), of H] ok_interior [OF h]
  have m: "linked ?m (H + 4) (F1 @ left_over sz (a, s) @ F2) 0" "?m a = H" "?m (a + 4) = granted sz s"
    "\<And>p. p \<noteq> end_of (H + 4) F1 \<Longrightarrow> \<not> (a \<le> p \<and> p < a + 8 + s) \<Longrightarrow> ?m p = m p" by (auto simp: Let_def)
  have q: "end_of (H + 4) F1 \<in> set ((H + 4) # hdrs ?F)" using end_of_mem [of "H + 4" F1] by auto
  have keep: "?m p = m p" if u: "(b, t) \<in> U" and p: "b \<le> p" "p < b + 8 + t" for b t p
    using ok_hdrs_used [OF h u p] q off_word [OF ok_off_free [OF h _ u] p] by (intro m(4)) auto
  have c: "granted sz s \<le> s" "granted sz s mod 4 = 0" using granted_le [OF sz(1)] ok_aligned [OF h, of a s] sz(2) by (auto simp: granted_def)
  have sp: "spaced lo (F1 @ left_over sz (a, s) @ F2) hi"
  proof (cases "s < sz + 8")
    case True
    then show ?thesis using ok_spaced [OF h] ok_bounds(1) [OF h] by (auto simp: left_over_def spaced_append intro: spaced_join)
  next
    case False
    have "spaced lo F1 (a - 1)" "spaced (a + 9 + s) F2 hi" "lo \<le> a" "a + 8 + s \<le> hi" using ok_spaced [OF h] by (simp_all add: spaced_append)
    moreover have "spaced (a + 8 + sz) ((a + 8 + sz, s - 8 - sz) # F2) hi" using False calculation by (auto simp: ac_simps)
    ultimately show ?thesis using False ok_bounds(1) [OF h] by (auto simp: left_over_def simp del: spaced.simps intro!: spaced_join [where l = "a + 8 + sz"])
  qed
  have lo: "off x y" if "x \<in> set (left_over sz (a, s))" "off (a, s) y" for x y
    using left_over_in [OF that(1)] that(2) by (auto simp: off_def)
  have ox: "off ?x y" if "off (a, s) y" for y using that c(1) by (auto simp: off_def)
  have "heap_ok ?m H lo hi (F1 @ left_over sz (a, s) @ F2) (insert ?x U)"
  proof (rule heap_okI)
    show "?m (H + 8) = 0" using m(4) [of "H + 8"] ok_zero [OF h] d(2) q ok_interior(3) [OF h] by metis
    show "b mod 4 = 0 \<and> t mod 4 = 0" if "(b, t) \<in> set (F1 @ left_over sz (a, s) @ F2) \<union> insert ?x U" for b t
      using that ok_aligned [OF h, of b t] ok_aligned [OF h, of a s] sz c left_over_in [of "(b, t)" sz a s] by (auto simp: mod_eq_0_iff_dvd)
    show "lo \<le> b \<and> b + 8 + t \<le> hi \<and> ?m b = H \<and> ?m (b + 4) = t" if "(b, t) \<in> insert ?x U" for b t
    proof (cases "(b, t) = ?x")
      case True
      then show ?thesis using m spaced_bounds [OF ok_spaced [OF h], of a s] c(1) by auto
    next
      case False
      then show ?thesis using that ok_used [OF h, of b t] keep [of b t b] keep [of b t "b + 4"] by auto
    qed
    show "off x y" if "x \<in> insert ?x U" "y \<in> insert ?x U" "x \<noteq> y" for x y
    proof -
      have "off ?x z" if "z \<in> U" for z using that by (intro ox ok_off_free [OF h]) simp_all
      then show ?thesis using that ok_off [OF h] off_sym by (metis insertE)
    qed
    show "off x y" if "x \<in> set (F1 @ left_over sz (a, s) @ F2)" "y \<in> insert ?x U" for x y
    proof (cases "y = ?x")
      case False
      then show ?thesis using that ok_off_free [OF h, of x y] ok_off_free [OF h, of "(a, s)" y] lo [of x y] by auto
    next
      case True
      have "off x (a, s) \<or> x \<in> set (left_over sz (a, s))"
      proof -
        obtain b t where "x = (b, t)" by fastforce
        then show ?thesis using that(1) spaced_off [OF ok_spaced [OF h], of b t] by (auto simp: off_def)
      qed
      then show ?thesis using left_over_in [of x sz a s] True ox [of x] c by (auto simp: off_def granted_def)
    qed
  qed (use m(1) sp ok_bounds [OF h] in auto)
  then show ?thesis using keep by (auto simp: Let_def)
qed

lemma alloc_loop_ok:
  assumes h: "heap_ok m H lo hi F U"
  shows "(\<exists>F1 a s F2. F = F1 @ (a, s) # F2 \<and> (\<forall>x\<in>set F1. snd x < sz) \<and> sz \<le> s \<and>
      alloc_loop H sz (H + 4) m = Some (Some (a, take_block H sz (end_of (H + 4) F1) a m))) \<or>
    ((\<forall>x\<in>set F. snd x < sz) \<and> alloc_loop H sz (H + 4) m = Some None)"
proof -
  let ?F = "first_fit sz F" let ?q = "end_of (H + 4) ?F"
  have small: "\<forall>(a, s)\<in>set F. 0 < a \<and> a + 8 + s < 2 ^ 32" using free_mem_small [OF h] by auto
  have less: "\<forall>(a, s)\<in>set ?F. s < sz" using first_fit_small by fast
  consider a s F2 where "F = ?F @ (a, s) # F2" "sz \<le> s" | "?F = F" using first_fit_split by blast
  then show ?thesis
  proof cases
    case 1
    then have "alloc_loop H sz (H + 4) m = alloc_loop H sz ?q m"
      using alloc_loop_search [of m "H + 4" ?F "(a, s) # F2" sz H] ok_linked [OF h] small less by auto
    moreover have "m ?q = a" "m (a + 4) = s" "0 < a" "a + 8 + s < 2 ^ 32"
      using ok_linked [OF h] 1(1) linked_end_read [of m "H + 4" ?F a] small by (metis linked_append, metis linked_append, (metis (no_types, lifting) case_prodD in_set_conv_decomp)+)
    ultimately have "alloc_loop H sz (H + 4) m = Some (Some (a, take_block H sz ?q a m))"
      using 1(2) by (subst (asm) (2) alloc_loop.simps) (simp add: NULL_def)
    then show ?thesis using 1 less by (metis (no_types, lifting) case_prodD prod.collapse)
  next
    case 2
    then have "alloc_loop H sz (H + 4) m = alloc_loop H sz ?q m"
      using alloc_loop_search [of m "H + 4" ?F "[]" sz H] ok_linked [OF h] small less by simp
    moreover have "m ?q = 0" using linked_end_read [OF ok_linked [OF h]] 2 by simp
    ultimately have "alloc_loop H sz (H + 4) m = Some None" by (simp add: alloc_loop.simps NULL_def)
    then show ?thesis using less 2 by auto
  qed
qed

subsection \<open>Giving a block back\<close>

lemma free_loop_search:
  assumes "linked m qp (F1 @ F2) 0" "\<forall>x\<in>set F1. 0 < fst x \<and> fst x < hp" "\<forall>x\<in>set F2. hp < fst x" "qp = h_free H \<or> qp < hp"
  shows "free_loop H hp qp m =
    (let q = end_of qp F1 in Some (merge_prev q hp (merge_next hp (m(hp := m q, q := hp)))))"
  using assms
proof (induction F1 arbitrary: qp rule: hdrs.induct)
  case 1
  have "m qp = NULL \<or> hp < m qp" using 1 by (cases F2) (auto simp: NULL_def)
  then show ?case using 1 by (subst free_loop.simps) (auto simp: Let_def)
next
  case (2 a s F)
  have "m qp = a" "m qp \<noteq> NULL" "\<not> hp < m qp" using 2(2,3) by (auto simp: NULL_def)
  then have "free_loop H hp qp m = free_loop H hp a m" by (subst free_loop.simps) simp
  then show ?case using 2 by simp
qed

text \<open>A block before the blocks of a list, merged with the first of them where they touch.\<close>

fun glue :: "block \<Rightarrow> block list \<Rightarrow> block list" where
  "glue x [] = [x]"
| "glue x ((b, t) # F) = (if fin x = b then (fst x, snd x + (t + 8)) # F else x # (b, t) # F)"

lemma glue_spaced:
  assumes "\<forall>y\<in>set F. fin x \<le> fst y" "spaced l F hi" "fin x \<le> hi"
  shows "spaced (fst x) (glue x F) hi"
proof (cases x)
  case (Pair a s)
  then show ?thesis using assms by (cases F) (auto simp: ac_simps)
qed

lemma glue_off:
  assumes "\<forall>z\<in>set (x # F). off z y"
  shows "\<forall>z\<in>set (glue x F). off z y"
proof (cases F)
  case (Cons z F2)
  obtain a s b t c u where "x = (a, s)" "z = (b, t)" "y = (c, u)" by (metis prod.collapse)
  then show ?thesis using assms Cons by (auto simp: off_def)
qed (use assms in simp)

lemma glue_mod:
  assumes "\<forall>z\<in>set (x # F). fst z mod 4 = 0 \<and> snd z mod 4 = (0 :: nat)"
  shows "\<forall>z\<in>set (glue x F). fst z mod 4 = 0 \<and> snd z mod 4 = (0 :: nat)"
proof (cases F)
  case (Cons y F2)
  then show ?thesis using assms by (cases y; cases "fin x = fst y") (auto simp: mod_eq_0_iff_dvd)
qed (use assms in simp)

lemma glue_sum: "sum_list (map (\<lambda>x. 8 + snd x) (glue x F)) = 8 + snd x + sum_list (map (\<lambda>x. 8 + snd x) F)"
  by (cases F) auto

lemma merge_next_other: "p \<noteq> a \<Longrightarrow> p \<noteq> a + 4 \<Longrightarrow> a + 4 < 2 ^ 32 \<Longrightarrow> merge_next a m p = m p"
  by (simp add: merge_next_def Let_def)

lemma merge_next_linked:
  assumes l: "linked m qp (F1 @ (a, s) # F2) 0" and d: "distinct (qp # hdrs (F1 @ (a, s) # F2))"
    and small: "0 < a" "a + 8 + s < 2 ^ 32" "\<forall>y\<in>set F2. fin y < 2 ^ 32"
  shows "linked (merge_next a m) qp (F1 @ glue (a, s) F2) 0"
proof -
  have f: "add32 a 4 = a + 4" "m (a + 4) = s" "LIMIT m a = a + 8 + s" using l small by (simp_all add: linked_append LIMIT_def SIZEOF_HDR_def)
  show ?thesis
  proof (cases F2)
    case Nil
    then have "m a = 0" using l by (simp add: linked_append)
    then show ?thesis using l f(3) small Nil by (simp add: merge_next_def)
  next
    case (Cons y F3)
    obtain b t where y: "y = (b, t)" by fastforce
    have n: "m a = b" "m (b + 4) = t" "linked m b F3 0" "b + 8 + t < 2 ^ 32" using l Cons y small by (simp_all add: linked_append)
    show ?thesis
    proof (cases "a + 8 + s = b")
      case False
      then show ?thesis using l f(3) n(1) Cons y by (simp add: merge_next_def)
    next
      case True
      then have m: "merge_next a m = m(a + 4 := s + (t + 8), a := m b)"
        using f n by (simp add: merge_next_def Let_def SIZEOF_HDR_def)
      have "linked (merge_next a m) qp F1 a"
        using l d m by (subst linked_cong [of qp F1 _ m]) (auto simp: linked_append)
      moreover have "linked (merge_next a m) a F3 0" using d m Cons y by (intro linked_start [OF n(3)]) auto
      ultimately show ?thesis using True Cons y m by (simp add: linked_append)
    qed
  qed
qed

lemma merge_prev_next: "m q = hp \<Longrightarrow> q + 4 < 2 ^ 32 \<Longrightarrow> merge_prev q hp m = merge_next q m"
  by (simp add: merge_prev_def merge_next_def Let_def)

text \<open>The free list with a block put back between \<open>F1\<close> and \<open>F2\<close>.\<close>

definition put_back :: "block list \<Rightarrow> block \<Rightarrow> block list \<Rightarrow> block list" where
  "put_back F1 x F2 = (if F1 = [] then glue x F2 else butlast F1 @ glue (last F1) (glue x F2))"

lemma put_back_sum:
  "sum_list (map (\<lambda>x. 8 + snd x) (put_back F1 x F2)) =
     sum_list (map (\<lambda>x. 8 + snd x) F1) + (8 + snd x) + sum_list (map (\<lambda>x. 8 + snd x) F2)"
  by (cases F1 rule: rev_cases) (simp_all add: put_back_def glue_sum)

lemma put_back_off:
  assumes "\<forall>z\<in>set F1 \<union> set F2 \<union> {x}. off z y"
  shows "\<forall>z\<in>set (put_back F1 x F2). off z y"
proof (cases F1 rule: rev_cases)
  case (snoc F0 q)
  have "\<forall>z\<in>set (glue x F2). off z y" by (rule glue_off) (use assms in simp)
  moreover have "off q y" using assms snoc by simp
  ultimately have "\<forall>z\<in>set (glue q (glue x F2)). off z y" by (intro glue_off [of q]) simp
  moreover have "\<forall>z\<in>set F0. off z y" using assms snoc by simp
  ultimately show ?thesis unfolding put_back_def snoc by (simp add: ball_Un)
next
  case Nil
  have "\<forall>z\<in>set (glue x F2). off z y" by (rule glue_off) (use assms in simp)
  then show ?thesis using Nil by (simp add: put_back_def)
qed

lemma put_back_mod:
  assumes "\<forall>z\<in>set F1 \<union> set F2 \<union> {x}. fst z mod 4 = 0 \<and> snd z mod 4 = (0 :: nat)"
  shows "\<forall>z\<in>set (put_back F1 x F2). fst z mod 4 = 0 \<and> snd z mod 4 = (0 :: nat)"
proof (cases F1 rule: rev_cases)
  case (snoc F0 q)
  have "\<forall>z\<in>set (glue x F2). fst z mod 4 = 0 \<and> snd z mod 4 = 0" by (rule glue_mod) (use assms in simp)
  moreover have "fst q mod 4 = 0 \<and> snd q mod 4 = 0" using assms snoc by simp
  ultimately have "\<forall>z\<in>set (glue q (glue x F2)). fst z mod 4 = 0 \<and> snd z mod 4 = 0" by (intro glue_mod [of q]) simp
  moreover have "\<forall>z\<in>set F0. fst z mod 4 = 0 \<and> snd z mod 4 = 0" using assms snoc by simp
  ultimately show ?thesis unfolding put_back_def snoc by (simp add: ball_Un)
next
  case Nil
  have "\<forall>z\<in>set (glue x F2). fst z mod 4 = 0 \<and> snd z mod 4 = 0" by (rule glue_mod) (use assms in simp)
  then show ?thesis using Nil by (simp add: put_back_def)
qed

lemma glue_fin:
  assumes "\<forall>z\<in>set (x # F). fin z \<le> n"
  shows "\<forall>z\<in>set (glue x F). fin z \<le> n"
proof (cases F)
  case (Cons y F2)
  then show ?thesis using assms by (cases x; cases y) auto
qed (use assms in simp)

lemma put_back_fin:
  assumes "\<forall>z\<in>set F1 \<union> set F2 \<union> {x}. fin z \<le> n"
  shows "\<forall>z\<in>set (put_back F1 x F2). fin z \<le> n"
proof -
  have g: "\<forall>z\<in>set (glue x F2). fin z \<le> n" by (rule glue_fin) (use assms in simp)
  show ?thesis
  proof (cases F1 rule: rev_cases)
    case (snoc F0 q)
    have "\<forall>z\<in>set (glue q (glue x F2)). fin z \<le> n" by (rule glue_fin) (use g assms snoc in simp)
    then show ?thesis using assms snoc by (simp add: put_back_def ball_Un)
  qed (use g in \<open>simp add: put_back_def\<close>)
qed

lemma spaced_fst: "spaced l F hi \<Longrightarrow> z \<in> set F \<Longrightarrow> l \<le> fst z"
  using spaced_bounds by (metis prod.collapse)

lemma spaced_split: "spaced lo (F1 @ F2) hi \<Longrightarrow> spaced lo F1 hi \<and> spaced lo F2 hi"
proof (induction lo F1 hi rule: spaced.induct)
  case (2 lo a s F hi)
  then show ?case using spaced_mono [of "a + 9 + s" F2 hi lo] by auto
qed simp

lemma put_back_spaced:
  assumes s: "spaced lo (F1 @ F2) hi" and b: "\<forall>z\<in>set F1. fin z \<le> fst x" "\<forall>z\<in>set F2. fin x \<le> fst z" and x: "lo \<le> fst x" "fin x \<le> hi" and lo: "0 < lo"
  shows "spaced lo (put_back F1 x F2) hi"
proof -
  have g: "spaced (fst x) (glue x F2) hi" using b(2) x(2) spaced_split [OF s] by (intro glue_spaced) auto
  show ?thesis
  proof (cases F1 rule: rev_cases)
    case Nil
    then show ?thesis using g x(1) by (simp add: put_back_def spaced_mono)
  next
    case (snoc F0 y)
    obtain q u where y: "y = (q, u)" by fastforce
    have q: "spaced lo F0 (q - 1)" "lo \<le> q" using s snoc y by (simp_all add: spaced_append)
    have "fin y \<le> fst z" if "z \<in> set (glue x F2)" for z using spaced_fst [OF g that] b(1) snoc by auto
    moreover have "fin x \<le> hi \<Longrightarrow> fin y \<le> hi" using b(1) snoc by (cases x) auto
    ultimately have "spaced q (glue y (glue x F2)) hi" using g x(2) glue_spaced [of "glue x F2" y] y by simp
    then have "spaced lo (F0 @ glue y (glue x F2)) hi" using q lo x(2) b(1) snoc y by (intro spaced_join [OF q(1)]) (cases x; auto)+
    then show ?thesis using snoc by (simp add: put_back_def)
  qed
qed

lemma split_at:
  "spaced lo F hi \<Longrightarrow> \<forall>x\<in>set F. fst x \<noteq> a \<Longrightarrow>
     \<exists>F1 F2. F = F1 @ F2 \<and> (\<forall>x\<in>set F1. fst x < a) \<and> (\<forall>x\<in>set F2. a < fst x)"
proof (induction lo F hi rule: spaced.induct)
  case (2 lo b t F hi)
  show ?case
  proof (cases "b < a")
    case True
    obtain F1 F2 where "F = F1 @ F2" "\<forall>x\<in>set F1. fst x < a" "\<forall>x\<in>set F2. a < fst x" using 2 by auto
    then show ?thesis using True by (intro exI [of _ "(b, t) # F1"] exI [of _ F2]) simp
  next
    case False
    have "b < fst x" if "x \<in> set F" for x using spaced_fst [of "b + 9 + t" F hi x] that 2(2) by auto
    then show ?thesis using False 2(3) by (intro exI [of _ "[]"] exI [of _ "(b, t) # F"]) fastforce
  qed
qed simp

lemma glue_hdrs: "distinct (ps @ hdrs (x # F)) \<Longrightarrow> distinct (ps @ hdrs (glue x F))"
  by (cases x; cases F) (auto split: if_splits)

lemma glue_first: "linked m qp (F1 @ glue (a, s) F2) r \<Longrightarrow> m (end_of qp F1) = a"
proof -
  assume l: "linked m qp (F1 @ glue (a, s) F2) r"
  have "\<exists>s' F3. glue (a, s) F2 = (a, s') # F3" by (cases F2) auto
  then obtain s' F3 where "glue (a, s) F2 = (a, s') # F3" by blast
  then show "m (end_of qp F1) = a" using l by (auto simp: linked_append dest: linked_end_read)
qed

lemma insert_linked:
  assumes l: "linked m qp (F1 @ F2) 0" and d: "distinct (qp # hdrs (F1 @ F2))" and a: "a \<notin> set (qp # hdrs (F1 @ F2))" "a + 4 \<notin> set (qp # hdrs (F1 @ F2))" "m (a + 4) = s"
  shows "linked (m(a := m (end_of qp F1), end_of qp F1 := a)) qp (F1 @ (a, s) # F2) 0"
proof -
  let ?q = "end_of qp F1" let ?m = "m(a := m ?q, ?q := a)"
  have j: "linked m qp F1 (m ?q)" "linked m ?q F2 0" using l by (simp_all add: linked_join [of m qp F1 F2])
  have q: "?q \<in> set (qp # hdrs F1)" by (rule end_of_mem)
  then have n: "?q \<noteq> a" "?q \<noteq> a + 4" "?q \<notin> set (hdrs F2)" using a d by auto
  have "linked ?m qp F1 a"
    using a d by (intro linked_end_write [where r = "m ?q"]) (auto simp: linked_other intro: j(1))
  moreover have "linked ?m a F2 0" using n a by (intro linked_start [OF j(2)]) auto
  ultimately show ?thesis using n a by (simp add: linked_append)
qed

lemma put_back_linked:
  assumes l: "linked m (H + 4) (F1 @ (a, s) # F2) 0" and d: "distinct ((H + 4) # hdrs (F1 @ (a, s) # F2))"
    and z: "m (H + 8) = 0" "H + 8 \<noteq> a" "H + 8 \<noteq> a + 4" "H + 12 \<noteq> a" "H + 12 < 2 ^ 32"
    and small: "0 < a" "a + 8 + s < 2 ^ 32" "\<forall>y\<in>set (F1 @ F2 @ glue (a, s) F2). 0 < fst y \<and> fin y < 2 ^ 32"
  shows "let m' = merge_prev (end_of (H + 4) F1) a (merge_next a m) in linked m' (H + 4) (put_back F1 (a, s) F2) 0 \<and>
    (\<forall>p. p \<notin> set ((H + 4) # hdrs F1) \<longrightarrow> p \<noteq> a \<longrightarrow> p \<noteq> a + 4 \<longrightarrow> m' p = m p)"
proof -
  let ?m = "merge_next a m"
  have l2: "linked ?m (H + 4) (F1 @ glue (a, s) F2) 0" using small by (intro merge_next_linked [OF l d]) auto
  show ?thesis
  proof (cases F1 rule: rev_cases)
    case Nil
    have "?m (H + 8) = 0" using z small merge_next_other [of "H + 8" a m] by simp
    then have "LIMIT ?m (H + 4) = H + 12" using z(5) by (simp add: LIMIT_def SIZEOF_HDR_def add.commute)
    then have "merge_prev (H + 4) a ?m = ?m" using z(4) by (simp add: merge_prev_def)
    then show ?thesis using l2 Nil merge_next_other [of _ a m] small by (simp add: put_back_def)
  next
    case (snoc F0 y)
    obtain q u where y: "y = (q, u)" by fastforce
    have q: "end_of (H + 4) F1 = q" "0 < q" "q + 8 + u < 2 ^ 32" using snoc y small by auto
    have "merge_prev q a ?m = merge_next q ?m" using glue_first [OF l2] q by (intro merge_prev_next) auto
    moreover have "linked (merge_next q ?m) (H + 4) (F0 @ glue (q, u) (glue (a, s) F2)) 0"
    proof (rule merge_next_linked)
      show "linked ?m (H + 4) (F0 @ (q, u) # glue (a, s) F2) 0" using l2 snoc y by simp
      show "distinct ((H + 4) # hdrs (F0 @ (q, u) # glue (a, s) F2))"
        using glue_hdrs [of "(H + 4) # hdrs F1" "(a, s)" F2] d snoc y by simp
    qed (use q small in auto)
    ultimately show ?thesis
      using snoc y q merge_next_other [of _ q ?m] merge_next_other [of _ a m] small by (simp add: put_back_def)
  qed
qed

text \<open>Freeing a block that was handed out: the loop ends, the block joins the free list.\<close>

lemma free_ok:
  assumes h: "heap_ok m H lo hi F U" and u: "(a, s) \<in> U"
  shows "\<exists>m' F1 F2. F = F1 @ F2 \<and> free_loop H a (H + 4) m = Some m' \<and> heap_ok m' H lo hi (put_back F1 (a, s) F2) (U - {(a, s)}) \<and>
    (\<forall>b t p. (b, t) \<in> U - {(a, s)} \<longrightarrow> b \<le> p \<longrightarrow> p < b + 8 + t \<longrightarrow> m' p = m p)"
proof -
  note bd = ok_bounds [OF h]
  have a: "lo \<le> a" "a + 8 + s \<le> hi" "m a = H" "m (a + 4) = s" "a mod 4 = 0" "s mod 4 = 0" using ok_used [OF h u] ok_aligned [OF h, of a s] u by auto
  have o: "off x (a, s)" if "x \<in> set F" for x using ok_off_free [OF h that u] .
  then have "\<forall>x\<in>set F. fst x \<noteq> a" by (fastforce simp: off_def)
  then obtain F1 F2 where F: "F = F1 @ F2" "\<forall>x\<in>set F1. fst x < a" "\<forall>x\<in>set F2. a < fst x" using split_at [OF ok_spaced [OF h]] by blast
  let ?q = "end_of (H + 4) F1" let ?m1 = "m(a := m ?q, ?q := a)" let ?m = "merge_prev ?q a (merge_next a ?m1)" let ?L = "put_back F1 (a, s) F2"
  have fits: "\<forall>y\<in>set F. 0 < fst y \<and> fin y < 2 ^ 32" using free_mem_small [OF h] by auto
  have w: "p \<notin> set ((H + 4) # (H + 8) # hdrs (F1 @ F2))" if "a \<le> p" "p < a + 8 + s" for p using ok_hdrs_used [OF h u that] F(1) by simp
  have q: "?q \<in> set ((H + 4) # hdrs F1)" by (rule end_of_mem)
  have run: "free_loop H a (H + 4) m = Some ?m"
    using free_loop_search [of m "H + 4" F1 F2 a H] ok_linked [OF h] F fits bd(3) by (auto simp: h_free_def Let_def)
  have d: "distinct ((H + 4) # (H + 8) # hdrs (F1 @ F2))" using ok_hdrs [OF h] F(1) by simp
  have near: "\<forall>z\<in>set F1. fin z \<le> a" "\<forall>z\<in>set F2. a + 8 + s \<le> fst z" using o F by (fastforce simp: off_def)+
  have sp: "spaced lo ?L hi" using ok_spaced [OF h] F(1) near a bd by (intro put_back_spaced) auto
  have sg: "spaced a (glue (a, s) F2) hi" using near(2) a spaced_split [of lo F1 F2 hi] ok_spaced [OF h] F(1) glue_spaced [of F2 "(a, s)" lo hi] by simp
  have l1: "linked ?m1 (H + 4) (F1 @ (a, s) # F2) 0"
    using ok_linked [OF h] F(1) d w [of a] w [of "a + 4"] a by (intro insert_linked) auto
  have dd: "distinct ((H + 4) # hdrs (F1 @ (a, s) # F2))" using d w [of a] w [of "a + 4"] by auto
  have z: "?m1 (H + 8) = 0" using ok_zero [OF h] w [of a] d q by auto
  have big: "\<forall>y\<in>set (F1 @ F2 @ glue (a, s) F2). 0 < fst y \<and> fin y < 2 ^ 32" using fits F(1) spaced_bounds [OF sg] bd a(1) by fastforce
  have side: "H + 8 \<noteq> a" "H + 8 \<noteq> a + 4" "H + 12 \<noteq> a" "H + 12 < 2 ^ 32" "0 < a" "a + 8 + s < 2 ^ 32" using a(1,2) bd by linarith+
  note pb = put_back_linked [OF l1 dd z side big, unfolded Let_def]
  have m: "linked ?m (H + 4) ?L 0" using pb by (rule conjunct1)
  have m2: "?m p = m p" if "p \<notin> set ((H + 4) # hdrs F1)" "p \<noteq> a" "p \<noteq> a + 4" for p
  proof -
    have "p \<noteq> ?q" using that(1) q by metis
    then show ?thesis using conjunct2 [OF pb] that by (simp del: fun_upd_apply add: fun_upd_other)
  qed
  have keep: "?m p = m p" if v: "(b, t) \<in> U - {(a, s)}" and p: "b \<le> p" "p < b + 8 + t" for b t p
    using ok_hdrs_used [OF h _ p] ok_off [OF h, of "(a, s)" "(b, t)"] off_word [of a s b t p] u v p F(1) by (intro m2) auto
  have "heap_ok ?m H lo hi ?L (U - {(a, s)})"
  proof (rule heap_okI)
    show "?m (H + 8) = 0" using m2 [of "H + 8"] ok_zero [OF h] d w [of a] w [of "a + 4"] by auto
    show "b mod 4 = 0 \<and> t mod 4 = 0" if "(b, t) \<in> set ?L \<union> (U - {(a, s)})" for b t
      using that put_back_mod [of F1 F2 "(a, s)"] ok_aligned [OF h] F(1) a by fastforce
    show "lo \<le> b \<and> b + 8 + t \<le> hi \<and> ?m b = H \<and> ?m (b + 4) = t" if v: "(b, t) \<in> U - {(a, s)}" for b t
      using ok_used [OF h, of b t] v keep [OF v, of b] keep [OF v, of "b + 4"] by simp
    show "off x y" if "x \<in> U - {(a, s)}" "y \<in> U - {(a, s)}" "x \<noteq> y" for x y using ok_off [OF h] that by blast
    show "off x y" if "x \<in> set ?L" "y \<in> U - {(a, s)}" for x y
      using put_back_off [of F1 F2 "(a, s)" y] that ok_off_free [OF h] ok_off [OF h u, of y] F(1) by auto
  qed (use m sp bd in auto)
  then show ?thesis using run F(1) keep by blast
qed

end
