(* ===== verification/Ch_Heap_Runs.thy ===== *)
theory Ch_Heap_Runs
  imports Ch_Heap
begin

text \<open>
  A heap in use: it is set up, on an area of its own or on the core memory, then clients allocate,
  write to their blocks and free them, in any order.
\<close>

subsection \<open>Histories\<close>

text \<open>
  \<open>U\<close> is the set of the blocks in clients' hands, by the address of the header and the size in it.
\<close>

inductive heap_run :: "addr \<Rightarrow> nat \<Rightarrow> nat \<Rightarrow> kmem \<times> block set \<Rightarrow> bool" for H lo hi where
  own_area: "0 < H \<Longrightarrow> H + 16 < 2 ^ 32 \<Longrightarrow> H + 16 \<le> lo \<or> hi \<le> H \<Longrightarrow> 0 < lo \<Longrightarrow> lo + 8 \<le> hi \<Longrightarrow> hi < 2 ^ 32 \<Longrightarrow>
    MEM_IS_ALIGNED lo \<Longrightarrow> MEM_IS_ALIGNED (hi - lo) \<Longrightarrow> heap_run H lo hi (chHeapInit H lo (hi - lo) k, {})"
| on_core: "0 < H \<Longrightarrow> H + 16 < 2 ^ 32 \<Longrightarrow> H + 16 \<le> lo \<or> hi \<le> H \<Longrightarrow> 0 < lo \<Longrightarrow> lo \<le> hi \<Longrightarrow> hi < 2 ^ 32 \<Longrightarrow>
    MEM_IS_ALIGNED lo \<Longrightarrow> MEM_IS_ALIGNED hi \<Longrightarrow> heap_run H lo hi (heap_init H (core_init lo hi k), {})"
| allocate: "heap_run H lo hi (k, U) \<Longrightarrow> sz + 12 \<le> 2 ^ 32 \<Longrightarrow> chHeapAlloc dh H sz k = Some (p, k') \<Longrightarrow> p \<noteq> NULL \<Longrightarrow>
    heap_run H lo hi (k', insert (p - 8, mem k' (p - 4)) U)"
| refused: "heap_run H lo hi (k, U) \<Longrightarrow> sz + 12 \<le> 2 ^ 32 \<Longrightarrow> chHeapAlloc dh H sz k = Some (NULL, k') \<Longrightarrow> heap_run H lo hi (k', U)"
| release: "heap_run H lo hi (k, U) \<Longrightarrow> (a, s) \<in> U \<Longrightarrow> chHeapFree (a + 8) k = Some k' \<Longrightarrow> heap_run H lo hi (k', U - {(a, s)})"
| client: "heap_run H lo hi (k, U) \<Longrightarrow> (a, s) \<in> U \<Longrightarrow> a + 8 \<le> p \<Longrightarrow> p < a + 8 + s \<Longrightarrow>
    heap_run H lo hi (k\<lparr>mem := (mem k)(p := v)\<rparr>, U)"

definition tally :: "block list \<Rightarrow> block set \<Rightarrow> nat" where
  "tally F U = sum_list (map (\<lambda>x. 8 + snd x) F) + (\<Sum>x\<in>U. 8 + snd x)"

text \<open>What holds of the memory around the heap: an area of its own is accounted for, byte by byte.\<close>

definition on_core_memory :: "nat \<Rightarrow> nat \<Rightarrow> block set \<Rightarrow> kmem \<Rightarrow> bool" where
  "on_core_memory lo hi B k \<longleftrightarrow> endmem k = hi \<and> lo \<le> nextmem k \<and> nextmem k \<le> hi \<and> nextmem k mod 4 = 0 \<and> (\<forall>x\<in>B. fin x \<le> nextmem k)"

definition held :: "addr \<Rightarrow> nat \<Rightarrow> nat \<Rightarrow> block list \<Rightarrow> block set \<Rightarrow> kmem \<Rightarrow> bool" where
  "held H lo hi F U k \<longleftrightarrow> finite U \<and> (h_provider k H = None \<longrightarrow> lo < hi \<and> tally F U = hi - lo) \<and>
     (h_provider k H \<noteq> None \<longrightarrow> on_core_memory lo hi (set F \<union> U) k)"

lemma on_core_fin: "on_core_memory lo hi B k \<Longrightarrow> (a, s) \<in> B \<Longrightarrow> a + 8 + s \<le> nextmem k"
  unfolding on_core_memory_def by (metis fin.simps)

lemma heldI:
  assumes "finite U" "h_provider k H = None \<Longrightarrow> lo < hi \<and> tally F U = hi - lo" "h_provider k H \<noteq> None \<Longrightarrow> on_core_memory lo hi (set F \<union> U) k"
  shows "held H lo hi F U k"
  using assms by (simp add: held_def)

definition heap_inv :: "addr \<Rightarrow> nat \<Rightarrow> nat \<Rightarrow> block list \<Rightarrow> block set \<Rightarrow> kmem \<Rightarrow> bool" where
  "heap_inv H lo hi F U k \<longleftrightarrow> 0 < H \<and> heap_ok (mem k) H lo hi F U \<and> held H lo hi F U k"

subsection \<open>The start\<close>

lemma align_next:
  assumes "n + 4 \<le> 2 ^ 32"
  shows "n \<le> MEM_ALIGN_NEXT n" "MEM_ALIGN_NEXT n \<le> n + 3" "MEM_ALIGN_NEXT n mod 4 = 0"
proof -
  have e: "MEM_ALIGN_NEXT n = (n + 3) - (n + 3) mod 4"
    using assms by (simp add: MEM_ALIGN_NEXT_def MEM_ALIGN_PREV_def MEM_ALIGN_MASK_def MEM_ALIGN_SIZE_def)
  show "n \<le> MEM_ALIGN_NEXT n" "MEM_ALIGN_NEXT n \<le> n + 3" "MEM_ALIGN_NEXT n mod 4 = 0"
    unfolding e by (presburger | simp add: minus_mod_eq_mult_div)+
qed

lemma align_id: "MEM_IS_ALIGNED n \<Longrightarrow> n < 2 ^ 32 \<Longrightarrow> MEM_ALIGN_PREV n = n"
  by (simp add: MEM_IS_ALIGNED_def MEM_ALIGN_PREV_def)

lemma align_next_id: "MEM_IS_ALIGNED n \<Longrightarrow> n + 4 \<le> 2 ^ 32 \<Longrightarrow> MEM_ALIGN_NEXT n = n"
  using align_next [of n] unfolding MEM_IS_ALIGNED_def MEM_ALIGN_SIZE_def by presburger

lemma own_area_inv:
  assumes H: "0 < H" and A: "H + 16 < 2 ^ 32" "H + 16 \<le> lo \<or> hi \<le> H" "0 < lo" "lo + 8 \<le> hi" "hi < 2 ^ 32" "MEM_IS_ALIGNED lo" "MEM_IS_ALIGNED (hi - lo)"
  shows "heap_inv H lo hi [(lo, hi - lo - 8)] {} (chHeapInit H lo (hi - lo) k)"
proof -
  have "(hi - lo - 8) mod 4 = 0" using A(4,7) unfolding MEM_IS_ALIGNED_def MEM_ALIGN_SIZE_def by presburger
  moreover have "sub32 (hi - lo) 8 = hi - lo - 8" using assms by (intro sub32_small) auto
  ultimately have "heap_ok (mem (chHeapInit H lo (hi - lo) k)) H lo hi [(lo, hi - lo - 8)] {}"
    using assms by (auto simp: heap_ok_def chHeapInit_def h_free_def Let_def NULL_def SIZEOF_HDR_def MEM_IS_ALIGNED_def MEM_ALIGN_SIZE_def)
  moreover have "held H lo hi [(lo, hi - lo - 8)] {} (chHeapInit H lo (hi - lo) k)"
    using assms by (simp add: held_def tally_def chHeapInit_def Let_def)
  ultimately show ?thesis using H by (simp add: heap_inv_def)
qed

lemma on_core_inv:
  assumes H: "0 < H" and A: "H + 16 < 2 ^ 32" "H + 16 \<le> lo \<or> hi \<le> H" "0 < lo" "lo \<le> hi" "hi < 2 ^ 32" "MEM_IS_ALIGNED lo" "MEM_IS_ALIGNED hi"
  shows "heap_inv H lo hi [] {} (heap_init H (core_init lo hi k))"
proof -
  have "hi < 4294967296" using A(5) by simp
  then have "lo \<le> 4294967292" using A(4,6,7) unfolding MEM_IS_ALIGNED_def MEM_ALIGN_SIZE_def by presburger
  then have "MEM_ALIGN_NEXT lo = lo" "MEM_ALIGN_PREV hi = hi" using assms by (auto intro!: align_next_id align_id)
  then show ?thesis
    using assms by (auto simp: heap_inv_def held_def on_core_memory_def heap_ok_def heap_init_def core_init_def h_free_def NULL_def MEM_IS_ALIGNED_def MEM_ALIGN_SIZE_def)
qed

subsection \<open>Every step keeps it\<close>

lemma provider_cong: "held H lo hi F U (k\<lparr>mem := m\<rparr>) \<longleftrightarrow> held H lo hi F U k"
  by (simp add: held_def on_core_memory_def)

lemma client_inv:
  assumes h: "heap_inv H lo hi F U k" and u: "(a, s) \<in> U" and p: "a + 8 \<le> p" "p < a + 8 + s"
  shows "heap_inv H lo hi F U (k\<lparr>mem := (mem k)(p := v)\<rparr>)"
proof -
  have ok: "heap_ok (mem k) H lo hi F U" using h by (simp add: heap_inv_def)
  have n: "p \<notin> set ((H + 4) # (H + 8) # hdrs F)" using ok_hdrs_used [OF ok u] p by auto
  have "p \<noteq> b \<and> p \<noteq> b + 4" if b: "(b, t) \<in> U" for b t
    using ok_off [OF ok u b] p by (cases "(a, s) = (b, t)") (auto simp: off_def)
  then have "heap_ok ((mem k)(p := v)) H lo hi F U"
    using ok n unfolding heap_ok_def by (auto simp: linked_other)
  then show ?thesis using h by (simp add: heap_inv_def provider_cong)
qed

lemma take_sum: "sz \<le> s \<Longrightarrow> sum_list (map (\<lambda>x. 8 + snd x) (left_over sz (a, s))) + (8 + granted sz s) = 8 + s"
  by (auto simp: left_over_def granted_def)

text \<open>A block from the free list.\<close>

lemma found_inv:
  assumes h: "heap_inv H lo hi (F1 @ (a, s) # F2) U k" and sz: "sz \<le> s" "sz mod 4 = 0"
  shows "heap_inv H lo hi (F1 @ left_over sz (a, s) @ F2) (insert (a, granted sz s) U) (k\<lparr>mem := take_block H sz (end_of (H + 4) F1) a (mem k)\<rparr>)"
proof -
  let ?F = "F1 @ left_over sz (a, s) @ F2" let ?x = "(a, granted sz s)"
  have ok: "heap_ok (mem k) H lo hi (F1 @ (a, s) # F2) U" and hl: "held H lo hi (F1 @ (a, s) # F2) U k" using h by (simp_all add: heap_inv_def)
  have x: "?x \<notin> U" using ok_off_free [OF ok, of "(a, s)" ?x] by (auto simp: off_def)
  have fin: "finite U" using hl by (simp add: held_def)
  have t: "tally ?F (insert ?x U) = tally (F1 @ (a, s) # F2) U" using x fin take_sum [OF sz(1), of a] by (simp add: tally_def)
  have b: "fin y \<le> n" if "y \<in> set ?F \<union> insert ?x U" "\<forall>z\<in>set (F1 @ (a, s) # F2) \<union> U. fin z \<le> n" for y n
  proof -
    have "a + 8 + s \<le> n" using that(2) by simp
    moreover have "y \<in> set F1 \<union> set F2 \<union> U \<or> y \<in> set (left_over sz (a, s)) \<or> y = ?x" using that(1) by auto
    ultimately show ?thesis using that(2) left_over_in [of y sz a s] granted_le [OF sz(1)] by (elim disjE) simp_all
  qed
  have "held H lo hi ?F (insert ?x U) k"
  proof (rule heldI)
    show "finite (insert ?x U)" using fin by simp
    show "lo < hi \<and> tally ?F (insert ?x U) = hi - lo" if "h_provider k H = None" using hl that t by (simp add: held_def)
    show "on_core_memory lo hi (set ?F \<union> insert ?x U) k" if p: "h_provider k H \<noteq> None"
    proof -
      have c: "on_core_memory lo hi (set (F1 @ (a, s) # F2) \<union> U) k" using hl p by (simp add: held_def)
      then show ?thesis using b unfolding on_core_memory_def by metis
    qed
  qed
  then show ?thesis using take_ok [OF ok sz] h by (simp add: heap_inv_def Let_def provider_cong)
qed

text \<open>A block from the core memory.\<close>

lemma grown_inv:
  assumes h: "heap_inv H lo hi F U k" and p: "h_provider k H \<noteq> None" and sz: "sz mod 4 = 0" "nextmem k + 8 + sz \<le> hi"
  shows "heap_inv H lo hi F (insert (nextmem k, sz) U) (k\<lparr>nextmem := nextmem k + 8 + sz, mem := (mem k)(nextmem k := H, nextmem k + 4 := sz)\<rparr>)"
    (is "heap_inv H lo hi F ?U ?k")
proof -
  let ?a = "nextmem k"
  have ok: "heap_ok (mem k) H lo hi F U" and c: "on_core_memory lo hi (set F \<union> U) k" and fin: "finite U"
    using h p by (simp_all add: heap_inv_def held_def)
  have a: "lo \<le> ?a" "?a mod 4 = 0" "\<And>x. x \<in> set F \<union> U \<Longrightarrow> fin x \<le> ?a" using c by (auto simp: on_core_memory_def)
  have away: "q \<noteq> ?a" "q \<noteq> ?a + 4" if "q \<in> set ((H + 4) # (H + 8) # hdrs F)" for q
    using that ok_bounds [OF ok] a(1) sz(2) a(3) by (auto simp: hdrs_set) force+
  have used: "b \<noteq> ?a" "b + 4 \<noteq> ?a" "b \<noteq> ?a + 4" "b + 4 \<noteq> ?a + 4" if "(b, t) \<in> U" for b t using a(3) [of "(b, t)"] that by auto
  have ok2: "heap_ok (mem ?k) H lo hi F ?U"
  proof (rule heap_okI)
    show "linked (mem ?k) (H + 4) F 0" using ok_linked [OF ok] away by (subst linked_cong [of "H + 4" F _ "mem k"]) auto
    show "mem ?k (H + 8) = 0" using ok_zero [OF ok] away [of "H + 8"] by simp
    show "off x y" if "x \<in> set F" "y \<in> ?U" for x y using ok_off_free [OF ok that(1), of y] that a(3) [of x] by (auto simp: off_def)
    show "off x y" if "x \<in> ?U" "y \<in> ?U" "x \<noteq> y" for x y
      using that ok_off [OF ok, of x y] a(3) [of x] a(3) [of y] by (auto simp: off_def)
    show "lo \<le> b \<and> b + 8 + t \<le> hi \<and> mem ?k b = H \<and> mem ?k (b + 4) = t" if "(b, t) \<in> ?U" for b t
      using that ok_used [OF ok, of b t] used [of b t] a(1) sz(2) by auto
    show "b mod 4 = 0 \<and> t mod 4 = 0" if "(b, t) \<in> set F \<union> ?U" for b t using that ok_aligned [OF ok, of b t] a(2) sz(1) by auto
  qed (use ok_bounds [OF ok] ok_spaced [OF ok] in auto)
  have "(?a + 8 + sz) mod 4 = 0" using a(2) sz(1) by presburger
  moreover have "\<forall>x\<in>set F \<union> ?U. fin x \<le> ?a + 8 + sz" using a(3) by fastforce
  ultimately have "held H lo hi F ?U ?k" using c p fin sz(2) by (auto simp: held_def on_core_memory_def)
  with ok2 show ?thesis using h by (simp add: heap_inv_def)
qed

definition keeps :: "block set \<Rightarrow> memory \<Rightarrow> memory \<Rightarrow> bool" where
  "keeps U m m' \<longleftrightarrow> (\<forall>a s p. (a, s) \<in> U \<longrightarrow> a \<le> p \<longrightarrow> p < a + 8 + s \<longrightarrow> m' p = m p)"

lemma request:
  assumes "n + 12 \<le> 2 ^ 32"
  shows "n \<le> MEM_ALIGN_NEXT n" "MEM_ALIGN_NEXT n mod 4 = 0" "MEM_ALIGN_NEXT n + 12 \<le> 2 ^ 32"
proof -
  have "n + 12 \<le> 4294967296" using assms by simp
  then show "n \<le> MEM_ALIGN_NEXT n" "MEM_ALIGN_NEXT n mod 4 = 0" "MEM_ALIGN_NEXT n + 12 \<le> 2 ^ 32"
    using align_next [of n] by simp_all presburger
qed

lemma core_alloc:
  assumes "sz mod 4 = 0" "sz + 12 \<le> 2 ^ 32" "nextmem k \<le> endmem k" "endmem k < 2 ^ 32"
  shows "chCoreAlloc (sz + 8) k = (if endmem k - nextmem k < sz + 8 then (NULL, k) else (nextmem k, k\<lparr>nextmem := nextmem k + 8 + sz\<rparr>))"
proof -
  have "(sz + 8) mod 4 = 0" using assms(1) by presburger
  then have "MEM_ALIGN_NEXT (sz + 8) = sz + 8" using assms(2) by (intro align_next_id) (simp_all add: MEM_IS_ALIGNED_def MEM_ALIGN_SIZE_def)
  moreover have "sub32 (endmem k) (nextmem k) = endmem k - nextmem k" using assms by (intro sub32_small) auto
  ultimately show ?thesis using assms by (auto simp: chCoreAlloc_def chCoreAllocI_def Let_def ac_simps)
qed

lemma chHeapAlloc_inv:
  assumes h: "heap_inv H lo hi F U k" and n: "n + 12 \<le> 2 ^ 32"
  shows "(\<exists>a s F' k'. chHeapAlloc dh H n k = Some (a + 8, k') \<and> n \<le> s \<and> heap_inv H lo hi F' (insert (a, s) U) k' \<and> (a, s) \<notin> U \<and>
      keeps U (mem k) (mem k') \<and> h_provider k' = h_provider k) \<or>
    (chHeapAlloc dh H n k = Some (NULL, k) \<and> (\<forall>x\<in>set F. snd x < MEM_ALIGN_NEXT n))"
proof -
  let ?sz = "MEM_ALIGN_NEXT n"
  note sz = request [OF n]
  have ok: "heap_ok (mem k) H lo hi F U" and H: "H \<noteq> NULL" "h_free H = H + 4" using h by (auto simp: heap_inv_def NULL_def h_free_def heap_ok_def)
  from alloc_loop_ok [OF ok, of ?sz] show ?thesis
  proof (elim disjE exE conjE)
    fix F1 a s F2
    assume F: "F = F1 @ (a, s) # F2" and s: "?sz \<le> s" and r: "alloc_loop H ?sz (H + 4) (mem k) = Some (Some (a, take_block H ?sz (end_of (H + 4) F1) a (mem k)))"
    let ?k = "k\<lparr>mem := take_block H ?sz (end_of (H + 4) F1) a (mem k)\<rparr>"
    have "a + 8 + s < 2 ^ 32" using free_mem_small [OF ok, of a s] F by simp
    then have "chHeapAlloc dh H n k = Some (a + 8, ?k)" using H r by (simp add: chHeapAlloc_def Let_def SIZEOF_HDR_def)
    moreover have "(a, granted ?sz s) \<notin> U" using ok_off_free [OF ok, of "(a, s)"] F by (fastforce simp: off_def)
    moreover have "keeps U (mem k) (mem ?k)" using take_ok [OF ok [unfolded F] s sz(2)] by (simp add: keeps_def Let_def)
    moreover have "heap_inv H lo hi (F1 @ left_over ?sz (a, s) @ F2) (insert (a, granted ?sz s) U) ?k" using found_inv [OF h [unfolded F] s sz(2)] .
    moreover have "n \<le> granted ?sz s" "h_provider ?k = h_provider k" using granted_le [OF s] sz(1) by simp_all
    ultimately show ?thesis by blast
  next
    assume none: "\<forall>x\<in>set F. snd x < ?sz" and r: "alloc_loop H ?sz (H + 4) (mem k) = Some None"
    show ?thesis
    proof (cases "h_provider k H")
      case None
      then show ?thesis using none r H by (simp add: chHeapAlloc_def Let_def)
    next
      case (Some f)
      have c: "on_core_memory lo hi (set F \<union> U) k" using h Some by (simp add: heap_inv_def held_def)
      let ?a = "nextmem k"
      let ?k = "k\<lparr>nextmem := ?a + 8 + ?sz, mem := (mem k)(?a := H, ?a + 4 := ?sz)\<rparr>"
      have b: "0 < ?a" "?a \<le> hi" "endmem k = hi" "hi < 2 ^ 32" using c ok by (auto simp: on_core_memory_def heap_ok_def)
      have f: "call_provider f (?sz + 8) k = (if hi - ?a < ?sz + 8 then (NULL, k) else (?a, k\<lparr>nextmem := ?a + 8 + ?sz\<rparr>))"
        using core_alloc [OF sz(2,3), of k] b by (simp add: call_provider_def split: memgetfunc.splits)
      have e: "add32 ?sz SIZEOF_HDR = ?sz + 8" using sz(3) by (simp add: SIZEOF_HDR_def)
      show ?thesis
      proof (cases "hi - ?a < ?sz + 8")
        case True
        then have "chHeapAlloc dh H n k = Some (NULL, k)" using r H f e Some by (simp add: chHeapAlloc_def Let_def)
        then show ?thesis using none by simp
      next
        case False
        then have "chHeapAlloc dh H n k = Some (?a + 8, ?k)" using r H f e Some b by (simp add: chHeapAlloc_def Let_def NULL_def SIZEOF_HDR_def)
        moreover have "heap_inv H lo hi F (insert (?a, ?sz) U) ?k" using False b Some sz(2) by (intro grown_inv [OF h]) auto
        moreover have le: "b + 8 + t \<le> ?a" if "(b, t) \<in> U" for b t using on_core_fin [OF c] that by simp
        have "keeps U (mem k) (mem ?k)" using le by (fastforce simp: keeps_def)
        moreover have "(?a, ?sz) \<notin> U" using le [of ?a ?sz] by auto
        ultimately show ?thesis using sz(1) by fastforce
      qed
    qed
  qed
qed

lemma chHeapFree_inv:
  assumes h: "heap_inv H lo hi F U k" and u: "(a, s) \<in> U"
  shows "\<exists>F' k'. chHeapFree (a + 8) k = Some k' \<and> heap_inv H lo hi F' (U - {(a, s)}) k' \<and> keeps (U - {(a, s)}) (mem k) (mem k') \<and> h_provider k' = h_provider k"
proof -
  have ok: "heap_ok (mem k) H lo hi F U" and hl: "held H lo hi F U k" and H: "h_free H = H + 4" using h by (auto simp: heap_inv_def h_free_def heap_ok_def)
  obtain m F1 F2 where m: "F = F1 @ F2" "free_loop H a (H + 4) (mem k) = Some m" "heap_ok m H lo hi (put_back F1 (a, s) F2) (U - {(a, s)})"
    "\<forall>b t p. (b, t) \<in> U - {(a, s)} \<longrightarrow> b \<le> p \<longrightarrow> p < b + 8 + t \<longrightarrow> m p = mem k p" using free_ok [OF ok u] by blast
  have "a + 8 < 2 ^ 32" "mem k a = H" using ok_used [OF ok u] ok_bounds [OF ok] by auto
  then have "chHeapFree (a + 8) k = Some (k\<lparr>mem := m\<rparr>)" using m(2) H by (simp add: chHeapFree_def Let_def SIZEOF_HDR_def sub32_small)
  moreover have "held H lo hi (put_back F1 (a, s) F2) (U - {(a, s)}) k"
  proof (rule heldI)
    have fin: "finite U" using hl by (simp add: held_def)
    show "finite (U - {(a, s)})" using fin by simp
    show "lo < hi \<and> tally (put_back F1 (a, s) F2) (U - {(a, s)}) = hi - lo" if "h_provider k H = None"
    proof -
      have "(\<Sum>x\<in>U. 8 + snd x) = 8 + s + (\<Sum>x\<in>U - {(a, s)}. 8 + snd x)" using fin u by (simp add: sum.remove)
      then show ?thesis using hl that m(1) by (simp add: held_def tally_def put_back_sum)
    qed
    show "on_core_memory lo hi (set (put_back F1 (a, s) F2) \<union> (U - {(a, s)})) k" if "h_provider k H \<noteq> None"
    proof -
      have c: "on_core_memory lo hi (set F \<union> U) k" using hl that by (simp add: held_def)
      then have "\<forall>z\<in>set F1 \<union> set F2 \<union> {(a, s)}. fin z \<le> nextmem k" using on_core_fin [OF c, of a s] m(1) u unfolding on_core_memory_def by auto
      then show ?thesis using c put_back_fin [of F1 F2 "(a, s)" "nextmem k"] unfolding on_core_memory_def by blast
    qed
  qed
  ultimately show ?thesis using m(3,4) h
    by (intro exI [of _ "put_back F1 (a, s) F2"] exI [of _ "k\<lparr>mem := m\<rparr>"]) (simp add: heap_inv_def keeps_def provider_cong)
qed

lemma run_inv: "heap_run H lo hi s \<Longrightarrow> \<exists>F. heap_inv H lo hi F (snd s) (fst s)"
proof (induction rule: heap_run.induct)
  case (own_area k)
  then show ?case using own_area_inv [OF own_area, of k] by auto
next
  case (on_core k)
  then show ?case using on_core_inv [OF on_core, of k] by auto
next
  case (allocate k U sz dh p k')
  then obtain F where "heap_inv H lo hi F U k" by auto
  from chHeapAlloc_inv [OF this allocate(2), of dh] allocate(3,4) obtain a s F'
    where p: "p = a + 8" "heap_inv H lo hi F' (insert (a, s) U) k'" by auto
  then have "mem k' (a + 4) = s" using ok_used [of "mem k'" H lo hi F' "insert (a, s) U" a s] by (simp add: heap_inv_def)
  then show ?case using p by (auto simp: numeral_eq_Suc)
next
  case (refused k U sz dh k')
  then obtain F where F: "heap_inv H lo hi F U k" by auto
  from chHeapAlloc_inv [OF F refused(2), of dh] refused(3) have "k' = k" by (auto simp: NULL_def)
  then show ?case using F by auto
next
  case (release k U a s k')
  then obtain F where "heap_inv H lo hi F U k" by auto
  from chHeapFree_inv [OF this release(2)] release(3) show ?case by auto
next
  case (client k U a s p v)
  then show ?case using client_inv by fastforce
qed

lemma runD: "heap_run H lo hi (k, U) \<Longrightarrow> \<exists>F. heap_inv H lo hi F U k"
  using run_inv by fastforce

lemma status_loop_ok:
  "linked m qp F 0 \<Longrightarrow> \<forall>x\<in>set F. 0 < fst x \<and> fin x < 2 ^ 32 \<Longrightarrow> c + length F < 2 ^ 32 \<Longrightarrow> z + sum_list (map snd F) < 2 ^ 32 \<Longrightarrow>
     status_loop c z qp m = Some (c + length F, z + sum_list (map snd F))"
proof (induction F arbitrary: qp c z rule: hdrs.induct)
  case (2 a s F)
  then have "status_loop (c + 1) (z + s) a m = Some (c + 1 + length F, z + s + sum_list (map snd F))" by simp
  then show ?case using 2(2-5) by (subst status_loop.simps) (simp add: NULL_def)
qed (simp add: status_loop.simps NULL_def)

lemma spaced_sum: "spaced lo F hi \<Longrightarrow> F \<noteq> [] \<Longrightarrow> lo + sum_list (map (\<lambda>x. 8 + snd x) F) + (length F - 1) \<le> hi"
proof (induction lo F hi rule: spaced.induct)
  case (2 lo a s F hi)
  then show ?case by (cases F) auto
qed simp

lemma spaced_full:
  assumes s: "spaced lo F hi" and t: "sum_list (map (\<lambda>x. 8 + snd x) F) = hi - lo" and lh: "lo < hi"
  shows "F = [(lo, hi - lo - 8)]"
proof -
  have "F \<noteq> []" using t lh by auto
  then have "length F = 1" using spaced_sum [OF s] t lh by (cases F) auto
  then obtain a u where "F = [(a, u)]" by (auto simp: length_Suc_conv)
  then show ?thesis using s t by auto
qed

lemma sum_parts: "sum_list (map (\<lambda>x. 8 + snd x) F) = sum_list (map snd F) + 8 * length F"
  by (induction F) auto

subsection \<open>What clients rely on\<close>

text \<open>
  C7: in every history of a heap, refused requests included, on an area of its own or on the core
  memory, blocks in clients' hands do not overlap; a request of at most four gigabytes less twelve
  comes back, with no block or with one that is large enough, aligned, inside the heap's memory and
  apart from every other; a request that gets no block changes nothing at all; freeing a block comes
  back; and no request, served or refused, and no free changes a word of the blocks that stay in use.
\<close>

theorem heap_safe:
  assumes "heap_run H lo hi (k, U)" "n + 12 \<le> 2 ^ 32"
  shows "(\<forall>x\<in>U. \<forall>y\<in>U. x \<noteq> y \<longrightarrow> off x y) \<and>
    (\<exists>p k'. chHeapAlloc dh H n k = Some (p, k') \<and> keeps U (mem k) (mem k') \<and> (p = NULL \<longrightarrow> k' = k) \<and>
       (p \<noteq> NULL \<longrightarrow> (\<exists>s. mem k' (p - 4) = s \<and> n \<le> s \<and> p mod 4 = 0 \<and> lo + 8 \<le> p \<and> p + s \<le> hi \<and> (\<forall>y\<in>U. off (p - 8, s) y)))) \<and>
    (\<forall>a s. (a, s) \<in> U \<longrightarrow> (\<exists>k'. chHeapFree (a + 8) k = Some k' \<and> keeps (U - {(a, s)}) (mem k) (mem k')))"
proof -
  obtain F where h: "heap_inv H lo hi F U k" using runD [OF assms(1)] by blast
  have "\<exists>p k'. chHeapAlloc dh H n k = Some (p, k') \<and> keeps U (mem k) (mem k') \<and> (p = NULL \<longrightarrow> k' = k) \<and>
       (p \<noteq> NULL \<longrightarrow> (\<exists>s. mem k' (p - 4) = s \<and> n \<le> s \<and> p mod 4 = 0 \<and> lo + 8 \<le> p \<and> p + s \<le> hi \<and> (\<forall>y\<in>U. off (p - 8, s) y)))"
    using chHeapAlloc_inv [OF h assms(2), of dh]
  proof (elim disjE exE conjE)
    fix a s F' k'
    assume r: "chHeapAlloc dh H n k = Some (a + 8, k')" "n \<le> s" "heap_inv H lo hi F' (insert (a, s) U) k'" "(a, s) \<notin> U" "keeps U (mem k) (mem k')"
    have ok: "heap_ok (mem k') H lo hi F' (insert (a, s) U)" using r(3) by (simp add: heap_inv_def)
    have u: "lo \<le> a" "a + 8 + s \<le> hi" "mem k' (a + 4) = s" "a mod 4 = 0" using ok_used [OF ok, of a s] ok_aligned [OF ok, of a s] by auto
    have "\<forall>y\<in>U. off (a, s) y" using ok_off [OF ok, of "(a, s)"] r(4) by auto
    moreover have "(a + 8) mod 4 = 0" "a + 8 - 4 = a + 4" using u(4) by presburger+
    ultimately show ?thesis using r u by (auto simp: add.commute NULL_def)
  qed (auto simp: keeps_def)
  moreover have "\<forall>x\<in>U. \<forall>y\<in>U. x \<noteq> y \<longrightarrow> off x y" using h ok_off unfolding heap_inv_def by blast
  ultimately show ?thesis using chHeapFree_inv [OF h] by blast
qed

definition kmem0 :: kmem where
  "kmem0 = \<lparr>mem = (\<lambda>_. 0), nextmem = 0, endmem = 0, h_provider = (\<lambda>_. None)\<rparr>"

text \<open>A heap descriptor at address 100 and an area of 64 bytes at 200.\<close>

lemma small_heap: "heap_run 100 200 264 (chHeapInit 100 200 64 kmem0, {})"
  using own_area [of 100 200 264 kmem0] by (simp add: MEM_IS_ALIGNED_def MEM_ALIGN_SIZE_def)

theorem heap_safe_witness:
  "heap_run 100 200 264 (chHeapInit 100 200 64 kmem0, {}) \<and> (10 :: nat) + 12 \<le> 2 ^ 32 \<and>
   (\<exists>p k'. chHeapAlloc 50 100 10 (chHeapInit 100 200 64 kmem0) = Some (p, k') \<and> (p = NULL \<longrightarrow> k' = chHeapInit 100 200 64 kmem0) \<and>
     (p \<noteq> NULL \<longrightarrow> 10 \<le> mem k' (p - 4) \<and> 208 \<le> p))"
  using heap_safe [OF small_heap, of 10 50] small_heap by auto

text \<open>
  C8: an area given to a heap is accounted for byte by byte: at any time the free bytes that
  \<open>chHeapStatus\<close> reports, the blocks in use and one header per block add up to the area. When
  everything was freed the heap is one fragment again, whatever the order of the frees, and every
  request that fitted the empty heap is served.
\<close>

theorem heap_restored:
  assumes "heap_run H lo hi (k, U)" "h_provider k H = None"
  shows "\<exists>c f. chHeapStatus dh H k = Some (c, f) \<and> f + 8 * c + (\<Sum>x\<in>U. 8 + snd x) = hi - lo \<and>
    (U = {} \<longrightarrow> c = 1 \<and> f = hi - lo - 8 \<and> (\<forall>n \<le> hi - lo - 8. \<exists>p k'. chHeapAlloc dh H n k = Some (p, k') \<and> p \<noteq> NULL))"
proof -
  obtain F where h: "heap_inv H lo hi F U k" using runD [OF assms(1)] by blast
  have ok: "heap_ok (mem k) H lo hi F U" and t: "lo < hi" "tally F U = hi - lo" and H: "H \<noteq> NULL" "h_free H = H + 4"
    using h assms(2) by (auto simp: heap_inv_def held_def NULL_def h_free_def heap_ok_def)
  let ?f = "sum_list (map snd F)"
  have sum: "?f + 8 * length F + (\<Sum>x\<in>U. 8 + snd x) = hi - lo" using t(2) by (simp add: tally_def sum_parts)
  then have "?f < 2 ^ 32" "length F < 2 ^ 32" using ok_bounds(2) [OF ok] by linarith+
  then have "status_loop 0 0 (H + 4) (mem k) = Some (length F, ?f)"
  proof -
    have "\<forall>x\<in>set F. 0 < fst x \<and> fin x < 2 ^ 32" using free_mem_small [OF ok] by auto
    then show ?thesis using status_loop_ok [OF ok_linked [OF ok], of 0 0] \<open>?f < 2 ^ 32\<close> \<open>length F < 2 ^ 32\<close> by simp
  qed
  then have r: "chHeapStatus dh H k = Some (length F, ?f)" using H by (simp add: chHeapStatus_def)
  have "length F = 1 \<and> ?f = hi - lo - 8 \<and> (\<forall>n \<le> hi - lo - 8. \<exists>p k'. chHeapAlloc dh H n k = Some (p, k') \<and> p \<noteq> NULL)" if "U = {}"
  proof -
    have F: "F = [(lo, hi - lo - 8)]" using spaced_full [OF ok_spaced [OF ok] _ t(1)] t(2) that by (simp add: tally_def)
    have "\<exists>p k'. chHeapAlloc dh H n k = Some (p, k') \<and> p \<noteq> NULL" if n: "n \<le> hi - lo - 8" for n
    proof -
      have m: "(hi - lo - 8) mod 4 = 0" using ok_aligned [OF ok, of lo "hi - lo - 8"] F by simp
      have "hi - lo - 8 + 8 + lo \<le> hi" using spaced_bounds [OF ok_spaced [OF ok], of lo "hi - lo - 8"] F by simp
      then have b: "hi - lo - 8 + 9 \<le> 4294967296" using ok_bounds [OF ok] by simp
      then have "n + 9 \<le> 4294967296" using n by linarith
      then have "MEM_ALIGN_NEXT n \<le> hi - lo - 8" using align_next [of n] n m by simp presburger
      moreover have "n + 12 \<le> 2 ^ 32" using n b m by simp presburger
      ultimately show ?thesis using chHeapAlloc_inv [OF h, of n dh] F by (fastforce simp: NULL_def)
    qed
    then show ?thesis using F by simp
  qed
  then show ?thesis using r sum by blast
qed

theorem heap_restored_witness:
  "heap_run 100 200 264 (chHeapInit 100 200 64 kmem0, {}) \<and> h_provider (chHeapInit 100 200 64 kmem0) 100 = None \<and>
   chHeapStatus 50 100 (chHeapInit 100 200 64 kmem0) = Some (1, 56)"
proof -
  have "h_provider (chHeapInit 100 200 64 kmem0) 100 = None" by (simp add: chHeapInit_def Let_def)
  then show ?thesis using heap_restored [OF small_heap, of 50] small_heap by auto
qed

text \<open>
  A request of eight bytes less than four gigabytes to a heap on core memory: with the header the
  size wraps to zero, so the heap hands out a block of nearly four gigabytes and takes nothing from
  the core, and the next such request gets the same block.
\<close>

theorem heap_request_wraps:
  assumes h: "heap_run H lo hi (k, U)" and p: "h_provider k H \<noteq> None" and room: "nextmem k + 8 < 2 ^ 32"
  shows "chHeapAlloc dh H (2 ^ 32 - 8) k = Some (nextmem k + 8, k\<lparr>mem := (mem k)(nextmem k := H, nextmem k + 4 := 2 ^ 32 - 8)\<rparr>)"
proof -
  obtain F where i: "heap_inv H lo hi F U k" using runD [OF h] by blast
  have ok: "heap_ok (mem k) H lo hi F U" and H: "H \<noteq> NULL" "h_free H = H + 4" and c: "on_core_memory lo hi (set F \<union> U) k"
    using i p by (auto simp: heap_inv_def held_def NULL_def h_free_def heap_ok_def)
  have a: "MEM_ALIGN_NEXT (2 ^ 32 - 8) = 2 ^ 32 - 8" by (simp add: MEM_ALIGN_NEXT_def MEM_ALIGN_PREV_def MEM_ALIGN_MASK_def MEM_ALIGN_SIZE_def add32_def)
  have "\<forall>x\<in>set F. snd x < 2 ^ 32 - 8" using free_mem_small [OF ok] by fastforce
  then have r: "alloc_loop H (2 ^ 32 - 8) (H + 4) (mem k) = Some None"
    using alloc_loop_ok [OF ok, of "2 ^ 32 - 8"] by fastforce
  obtain f where f: "h_provider k H = Some f" using p by blast
  have n: "0 < nextmem k" "nextmem k \<le> endmem k" "endmem k < 2 ^ 32" using c ok by (auto simp: on_core_memory_def heap_ok_def)
  have "chCoreAlloc 0 k = (nextmem k, k)"
    using n by (simp add: chCoreAlloc_def chCoreAllocI_def MEM_ALIGN_NEXT_def MEM_ALIGN_PREV_def MEM_ALIGN_MASK_def MEM_ALIGN_SIZE_def add32_def)
  moreover have "add32 (2 ^ 32 - 8) SIZEOF_HDR = 0" by (simp add: add32_def SIZEOF_HDR_def)
  ultimately have g: "call_provider f (add32 (2 ^ 32 - 8) SIZEOF_HDR) k = (nextmem k, k)" by (simp add: call_provider_def split: memgetfunc.splits)
  show ?thesis using room H a r f g n by (simp add: chHeapAlloc_def Let_def NULL_def SIZEOF_HDR_def)
qed

end
