(* ===== verification/Spec2Isabelle.thy ===== *)
theory Spec2Isabelle
  imports Ledos_Main Disk_Wire Sd_Card Shell_Files File_Write Dft Ch_Mailbox_Runs Ch_Registry Ch_Heap_Runs
begin

text \<open>
  Synesthesia turns music into light. An FPGA (\<^verbatim>\<open>src/dgn/rtl\<close>) digitises audio, computes its
  spectrum and drives sixteen lamps; a Nios II processor on the same chip runs the application
  LEDOS (\<^verbatim>\<open>src/sw_wxp/de1_ledos\<close>) on the ChibiOS/RT kernel and Altera's HAL
  (\<^verbatim>\<open>src/sw_wxp/de1_limbus_bsp\<close>), with the FatFs file system on an SD card. The test bench
  (\<^verbatim>\<open>src/verif/tb/dpi\<close>) checks the spectrum engine against a software transform. This library
  models the C code of the application, the file system, the kernel and the test bench, and as
  much of the hardware as the drivers need to be run against.

  \<^bold>\<open>Parts, theories and sources.\<close>
  \<^item> Prelude, Bus: the C integer types as words, shared lemmas; the macros of \<^verbatim>\<open>io.h\<close> over an
    abstract bus (a record of a read and a write function on a device state), the base addresses.
  \<^item> Drivers, one theory each: I2c_Drvr, Dac_Drvr, Fgyrus, Vcortex, Sram, Prsr (under
    \<^verbatim>\<open>ledos/cortex\<close>), Acortex (\<^verbatim>\<open>acortex.c\<close>, \<^verbatim>\<open>cortex.c\<close>), Codec (\<^verbatim>\<open>codec.c\<close>: the shadow
    registers are a list of words beside the device state). What a driver needs of its device is
    a locale (\<open>i2c_dev\<close>, \<open>dac_dev\<close>, \<open>vcortex_dev\<close>, \<open>sram_dev\<close>, \<open>prsr_dev\<close>, \<open>codec_bus\<close>); its lemmas
    are proved there.
  \<^item> Hardware: I2c_Master (\<^verbatim>\<open>i2c_master.v\<close>, one clock edge at a time) and Cortex_Hw (the register
    blocks behind the memory-mapped slave). Cortex_Hw interprets the device locales; Cortex_Top has
    the drivers' theorems on this hardware.
  \<^item> Application: Ledos (\<^verbatim>\<open>ledos.c\<close>: WAV headers, preparing the chain), Plugins (\<^verbatim>\<open>fft_cache.c\<close>,
    \<^verbatim>\<open>lsd.c\<close>, the light tasks of \<^verbatim>\<open>main.c\<close>), Shell (\<^verbatim>\<open>shell.c\<close>), Bash (\<^verbatim>\<open>bash.c\<close>), Shell_Files (its
    commands on the file system), Trip (the shell and the plugin thread during a visualisation, as a step relation), Ledos_Main (the bring-up).
  \<^item> SD card: Diskio (\<^verbatim>\<open>diskio.c\<close>), Disk_Wire (what it puts on the wire, for any card), Sd_Card (a
    card of the SD specification, and the driver on it).
  \<^item> File system: Ff_Types, Ff_Fat, Ff_Dir, Ff_Mount, Ff_File, Ff_Api are \<^verbatim>\<open>ff.c\<close> in the order of
    its sections, over a record \<open>drive\<close> of the functions of \<^verbatim>\<open>diskio.h\<close>. Block_Drive is the contract
    of a drive as a locale, interpreted by a RAM disk and, through \<open>sd_card\<close>, by the driver on the
    card. Fat_Table and Fat_Chain prove the table and the cluster chains, File_Data and File_Read
    reading, Sector_Write, File_Grow and File_Write writing, Ff_Names the directory names, Dir_Search, File_Open and Dir_List the search through
    directories, paths, opening and listing.
  \<^item> Kernel: Ch_Queues (\<^verbatim>\<open>chinline.h\<close>, \<^verbatim>\<open>chlists.h\<close>: the pointer code of the thread queues),
    Ch_Kernel (\<^verbatim>\<open>chschd.c\<close>, \<^verbatim>\<open>chvt.c\<close>, \<^verbatim>\<open>chsys.c\<close>, the tick and the exit from an interrupt), Ch_Calls
    (\<^verbatim>\<open>chthreads.c\<close>, \<^verbatim>\<open>chmsg.c\<close>, \<^verbatim>\<open>chsem.c\<close>), Ch_Inv, Ch_Sched, Ch_Safe, Ch_System (the invariant and that
    everything keeps it), Ch_Runs (histories of calls and interrupts); Ch_Mailbox (\<^verbatim>\<open>chmboxes.c\<close>), Ch_Fate
    and Ch_Credit (what becomes of a wait, and of objects that two semaphores guard), Ch_Mailbox_Runs
    (histories of a mailbox), Ch_Registry (\<^verbatim>\<open>chregistry.c\<close>: the list of all threads and its iterator);
    Ch_Memory, Ch_Heap and Ch_Heap_Runs (\<^verbatim>\<open>chmemcore.c\<close>, \<^verbatim>\<open>chmempools.c\<close>, \<^verbatim>\<open>chheap.c\<close>: the allocators over a memory of blocks).
  \<^item> Test bench: Fft (\<^verbatim>\<open>fft.c\<close>, \<^verbatim>\<open>syn_dpi.c\<close> over an abstract arithmetic), Dft (the discrete Fourier
    transform and its inverse).

  \<^bold>\<open>State and operations.\<close> A C function is a function from the state it may change to its result and
  the new state; the state is a device state, the shadow registers, the work area of the volume,
  or the kernel's data, each a record. A function that can fail to return is of type option; a
  run-time error (a null pointer, a store outside an array) is a value of a sum. In the kernel a
  thread that is switched out has, as its saved context, what is left of its call, and \<open>resume\<close> runs
  that when the thread is switched in again.

  \<^bold>\<open>What is shown.\<close>
  \<^item> Kernel: in every history of calls and interrupts exactly one thread is current, the ready list
    holds the ready threads by priority and none outranks the current one; semaphore counters count
    their waiters; every call and interrupt returns; a sleep of \<open>n\<close> ticks ends at the \<open>n\<close>-th tick.
    A mailbox is a bounded queue of messages in every history of posts, fetches and interrupts, and
    no thread stays blocked on it for want of a wakeup; the fetch for interrupts is the exception.
    Blocks of the heap never overlap, and freeing everything leaves one free block.
  \<^item> Drivers on the hardware: each operation comes back and leaves the hardware configured as meant;
    what the codec is sent is exactly the power-on sequence; memory reads give what was written.
  \<^item> Card: what a read and a write put on the wire for any card; that the card is released between
    calls; that the driver starts a card of the specification and then reads what it wrote.
  \<^item> File system: entries of the table read back as stored, chains are extended and freed, a path
    is followed to its entry or to the error that says what is missing, a read delivers the bytes of
    the file, a write puts its bytes in their place and leaves every other file alone, a name survives the way into the directory and back.
  \<^item> Application: lines are edited and split as typed, the shell runs the command that was typed,
    \<open>cat\<close> prints the bytes of the file and \<open>ll\<close> the root directory, a
    visualisation does not deadlock and its engines are on while it paints and off at its end; which
    WAV headers are accepted; what the light task and the plugin show.
  \<^item> Test bench: the transform is the discrete Fourier transform and the inverse inverts it.

  \<^bold>\<open>Loops, fuel and bounds.\<close> There is no fuel: a loop over a counter is structural recursion or a fold,
  and one that polls hardware or follows pointers is a \<^theory_text>\<open>partial_function (option)\<close> whose value
  \<open>None\<close> means that it does not end. That such a loop ends is part of the theorems, by a rank of the
  device (I2C master), a bound on the card's delays, the length of a chain, or the length of the
  queue. C integers are words of their width, except the semaphore counter, the round-robin counter
  and messages, which are integers: the counter is bounded by the number of threads and of signals.

  \<^bold>\<open>Idealisations.\<close> The transform is proved over exact reals, the code computes in doubles. In the kernel
  each call is one step, as it runs under the kernel lock; the release that ends \<open>chThdWait\<close> takes the
  lock again and is part of the same step. A mailbox call that waits is two steps, as other threads run
  in between. Nested interrupts do not occur on this port. The card is
  one of the specification; the device states of the SPI core and the timer are the bus.

  \<^bold>\<open>Not modelled.\<close> Text that is only printed (logo, header listing, usage and performance reports); the
  parts of \<^verbatim>\<open>ff.c\<close> that \<^verbatim>\<open>ffconf.h\<close> compiles out (long names, fast seek, locks, \<^verbatim>\<open>f_mkfs\<close>, string
  functions); mutexes, condition variables, events and I/O queues of the kernel, none
  of which the application uses (the lock of the heap is taken as mutual exclusion); the debug options of the kernel, which are off; the
  assembler of the context switch; the vendor's HAL and drivers beyond the access macros; the
  signal processing inside the hardware.
\<close>

end
